(* ===== verification/Lens_Prelude.thy ===== *)
theory Lens_Prelude
  imports Main "HOL-Library.AList"
begin

text \<open>
  Shared vocabulary of the development: the JavaScript containers the sources use, the
  collections of simplification rules the component theories fill, and generic lemmas on
  association lists, options and list segments.

  A JavaScript \<^verbatim>\<open>Map\<close> iterates in insertion order and keeps the position of a key that is set
  again, so it is an association list with distinct keys: \<^verbatim>\<open>get\<close> is \<^term>\<open>map_of\<close>,
  \<^verbatim>\<open>set\<close> is \<^term>\<open>AList.update\<close> (in place, or at the end for a new key) and \<^verbatim>\<open>delete\<close> is
  \<^term>\<open>AList.delete\<close>.  A number that the code uses as a count, a line or a timestamp is an \<open>int\<close>.
\<close>

named_theorems map_laws
  \<open>what get returns after set and delete, and which keys are left\<close>
named_theorems seg_laws
  \<open>lengths and members of list segments\<close>

type_synonym ('k, 'v) js_map = "('k \<times> 'v) list"

abbreviation keys_of :: "('k, 'v) js_map \<Rightarrow> 'k list" where
  "keys_of m \<equiv> map fst m"

abbreviation wf_map :: "('k, 'v) js_map \<Rightarrow> bool" where
  "wf_map m \<equiv> distinct (keys_of m)"

abbreviation has_key :: "('k, 'v) js_map \<Rightarrow> 'k \<Rightarrow> bool" where
  "has_key m k \<equiv> map_of m k \<noteq> None"

subsection \<open>Maps\<close>

lemma keys_update [map_laws]:
  "keys_of (AList.update k v m) = (if k \<in> set (keys_of m) then keys_of m else keys_of m @ [k])"
  by (induction m) auto

lemma keys_delete [map_laws]:
  "keys_of (AList.delete k m) = filter (\<lambda>x. x \<noteq> k) (keys_of m)"
  by (induction m) (auto simp: AList.delete_eq)

lemma get_update [map_laws]:
  "map_of (AList.update k v m) k' = (if k' = k then Some v else map_of m k')"
  by (simp add: update_conv')

lemma get_delete [map_laws]:
  "map_of (AList.delete k m) k' = (if k' = k then None else map_of m k')"
  by (simp add: delete_conv')

lemma wf_update [simp, intro]: "wf_map m \<Longrightarrow> wf_map (AList.update k v m)"
  by (simp add: distinct_update)

lemma wf_delete [simp, intro]: "wf_map m \<Longrightarrow> wf_map (AList.delete k m)"
  by (simp add: keys_delete)

lemma has_key_iff: "has_key m k \<longleftrightarrow> k \<in> set (keys_of m)"
  by (simp add: map_of_eq_None_iff)

lemma size_update:
  "length (AList.update k v m) = (if k \<in> set (keys_of m) then length m else Suc (length m))"
  using arg_cong [OF keys_update [of k v m], of length] by (simp split: if_splits)

lemma update_new: "k \<notin> set (keys_of m) \<Longrightarrow> AList.update k v m = m @ [(k, v)]"
  by (induction m) auto

lemma delete_absent: "k \<notin> set (keys_of m) \<Longrightarrow> AList.delete k m = m"
  by (induction m) (auto simp: AList.delete_eq)

lemma update_delete:
  "AList.update k v (AList.delete k m) = AList.delete k m @ [(k, v)]"
  by (rule update_new) (simp add: keys_delete)

lemma delete_append [simp]:
  "AList.delete k (m @ m') = AList.delete k m @ AList.delete k m'"
  by (simp add: AList.delete_eq)

lemma length_delete_Cons: "length (AList.delete (fst e) (e # es)) < length (e # es)"
  by (cases e) (simp add: AList.delete_eq le_imp_less_Suc)

lemma delete_hd: "wf_map (e # es) \<Longrightarrow> AList.delete (fst e) (e # es) = es"
  by (cases e) (simp add: delete_absent)

subsection \<open>Segments\<close>

definition lastn :: "nat \<Rightarrow> 'a list \<Rightarrow> 'a list" where
  "lastn n xs = drop (length xs - n) xs"

lemma length_lastn [seg_laws]: "length (lastn n xs) = min n (length xs)"
  by (simp add: lastn_def)

lemma set_lastn_subset: "set (lastn n xs) \<subseteq> set xs"
  by (simp add: lastn_def set_drop_subset)

lemma distinct_lastn [intro]: "distinct xs \<Longrightarrow> distinct (lastn n xs)"
  by (simp add: lastn_def)

lemma lastn_id: "length xs \<le> n \<Longrightarrow> lastn n xs = xs"
  by (simp add: lastn_def)

lemma lastn_snoc: "lastn (Suc n) (xs @ [x]) = lastn n xs @ [x]"
  by (simp add: lastn_def)

lemma lastn_Nil [simp]: "lastn n [] = []"
  by (simp add: lastn_def)

lemma lastn_mono: "m \<le> n \<Longrightarrow> set (lastn m xs) \<subseteq> set (lastn n xs)"
  by (simp add: lastn_def set_drop_subset_set_drop)

lemma map_lastn: "map f (lastn n xs) = lastn n (map f xs)"
  by (simp add: lastn_def drop_map)

lemma lastn_append: "n \<le> length ys \<Longrightarrow> lastn n (xs @ ys) = lastn n ys"
  by (simp add: lastn_def)

lemma filter_neq_id [simp]: "x \<notin> set xs \<Longrightarrow> filter (\<lambda>y. y \<noteq> x) xs = xs"
  by (induction xs) auto

lemma length_filter_neq: "distinct xs \<Longrightarrow> length xs \<le> Suc (length (filter (\<lambda>y. y \<noteq> x) xs))"
  by (induction xs) auto

text \<open>Removing an element and keeping the last \<open>n\<close> commute, one short of the end.\<close>

lemma lastn_filter_lastn:
  assumes "distinct xs"
  shows "lastn n (filter (\<lambda>y. y \<noteq> x) (lastn (Suc n) xs)) = lastn n (filter (\<lambda>y. y \<noteq> x) xs)"
proof (cases "Suc n \<le> length xs")
  case True
  let ?a = "take (length xs - Suc n) xs" and ?b = "lastn (Suc n) xs"
  let ?f = "filter (\<lambda>y. y \<noteq> x)"
  have "length ?b \<le> Suc (length (?f ?b))"
    using assms by (intro length_filter_neq distinct_lastn)
  then have "n \<le> length (?f ?b)" using True by (simp add: length_lastn)
  then have "lastn n (?f ?a @ ?f ?b) = lastn n (?f ?b)" by (rule lastn_append)
  moreover have "?f xs = ?f ?a @ ?f ?b"
    by (metis append_take_drop_id filter_append lastn_def)
  ultimately show ?thesis by simp
next
  case False
  then show ?thesis by (simp add: lastn_id)
qed

lemma remdups_snoc: "remdups (xs @ [x]) = filter (\<lambda>y. y \<noteq> x) (remdups xs) @ [x]"
  by (induction xs) auto

subsection \<open>Strings\<close>

text \<open>
  \<^verbatim>\<open>s.split(c)\<close> for a one-character separator, \<^verbatim>\<open>xs.join(c)\<close>, \<^verbatim>\<open>startsWith\<close> and
  \<^verbatim>\<open>toLowerCase\<close> on code units below 256.
\<close>

fun split_on :: "char \<Rightarrow> string \<Rightarrow> string list" where
  "split_on c [] = [[]]"
| "split_on c (x # xs) =
     (if x = c then [] # split_on c xs
      else case split_on c xs of [] \<Rightarrow> [[x]] | w # ws \<Rightarrow> (x # w) # ws)"

fun join_with :: "char \<Rightarrow> string list \<Rightarrow> string" where
  "join_with c [] = []"
| "join_with c [w] = w"
| "join_with c (w # ws) = w @ c # join_with c ws"

definition starts_with :: "string \<Rightarrow> string \<Rightarrow> bool" where
  "starts_with s pre \<longleftrightarrow> take (length pre) s = pre"

definition lower_char :: "char \<Rightarrow> char" where
  "lower_char c =
     (let n = of_char c :: nat
      in if (65 \<le> n \<and> n \<le> 90) \<or> (192 \<le> n \<and> n \<le> 222 \<and> n \<noteq> 215) then char_of (n + 32) else c)"

abbreviation to_lower_case :: "string \<Rightarrow> string" where
  "to_lower_case \<equiv> map lower_char"

definition replace_char :: "char \<Rightarrow> char \<Rightarrow> string \<Rightarrow> string" where
  "replace_char a b s = map (\<lambda>c. if c = a then b else c) s"

lemma split_on_ne [simp]: "split_on c s \<noteq> []"
  by (induction s) (auto split: list.splits)

lemma join_split [simp]: "join_with c (split_on c s) = s"
proof (induction s)
  case (Cons x xs)
  then show ?case by (cases "split_on c xs" rule: list.exhaust; cases "tl (split_on c xs)") auto
qed simp

lemma split_on_append: "c \<notin> set w \<Longrightarrow> split_on c (w @ c # s) = w # split_on c s"
  by (induction w) auto

lemma split_on_word: "c \<notin> set w \<Longrightarrow> split_on c w = [w]"
  by (induction w) auto

lemma split_join: "ws \<noteq> [] \<Longrightarrow> \<forall>w \<in> set ws. c \<notin> set w \<Longrightarrow> split_on c (join_with c ws) = ws"
  by (induction c ws rule: join_with.induct) (auto simp: split_on_append split_on_word)

lemma split_on_parts: "w \<in> set (split_on c s) \<Longrightarrow> c \<notin> set w"
  by (induction s arbitrary: w) (auto split: list.splits if_splits)

lemma split_on_chars: "w \<in> set (split_on c s) \<Longrightarrow> set w \<subseteq> set s"
proof (induction s arbitrary: w)
  case (Cons x s)
  obtain u us where "split_on c s = u # us" by (cases "split_on c s") auto
  then show ?case using Cons.IH [of u] Cons.IH [of w] Cons.prems by (auto split: if_splits)
qed simp

lemma join_append:
  "xs \<noteq> [] \<Longrightarrow> ys \<noteq> [] \<Longrightarrow> join_with c (xs @ ys) = join_with c xs @ c # join_with c ys"
  by (induction c xs rule: join_with.induct) (auto simp: neq_Nil_conv)

lemma lower_char_idem [simp]: "lower_char (lower_char c) = lower_char c"
proof -
  have b: "n < 256" if "n = (of_char c :: nat)" for n using that by simp
  have "lower_char (lower_char (char_of n)) = lower_char (char_of n)" if "n < 256" for n :: nat
    using that by (simp add: lower_char_def Let_def)
  from this [OF b [OF refl]] show ?thesis by simp
qed

end
