(* ===== verification/Bounded_Cache.thy ===== *)
theory Bounded_Cache
  imports Lens_Prelude
begin

text \<open>
  \<^verbatim>\<open>clients/bounded-cache.ts\<close>: the insertion-ordered bounded map, its membership-only wrapper and
  the LRU that overrides \<^verbatim>\<open>get\<close> and \<^verbatim>\<open>set\<close>.  A bounded map is the record of its two fields; a
  method that changes it returns the new record beside its result.  The locale \<open>bounded_store\<close>
  states what a client of any of the three relies on.
\<close>

record ('k, 'v) fifo_map =
  entries :: "('k, 'v) js_map"
  max_entries :: int

definition fifo_new :: "int \<Rightarrow> ('k, 'v) fifo_map" where
  "fifo_new cap = \<lparr>entries = [], max_entries = cap\<rparr>"

definition fifo_get :: "('k, 'v) fifo_map \<Rightarrow> 'k \<Rightarrow> 'v option" where
  "fifo_get c k = map_of (entries c) k"

definition fifo_has :: "('k, 'v) fifo_map \<Rightarrow> 'k \<Rightarrow> bool" where
  "fifo_has c k = has_key (entries c) k"

text \<open>
  \<^verbatim>\<open>evictOverflow\<close>: drop the oldest entry while the map is over its ceiling.  The loop also stops
  on an empty map, which a negative ceiling reaches.
\<close>

function evict_overflow ::
    "int \<Rightarrow> ('k, 'v) js_map \<Rightarrow> ('k \<times> 'v) list \<times> ('k, 'v) js_map" where
  "evict_overflow cap [] = ([], [])"
| "evict_overflow cap (oldest # es) =
     (if int (length (oldest # es)) > cap
      then let (evicted, left) = evict_overflow cap (AList.delete (fst oldest) (oldest # es))
           in (oldest # evicted, left)
      else ([], oldest # es))"
  by pat_completeness auto
termination
  by (relation "measure (\<lambda>(cap, es). length es)")
    (auto simp: AList.delete_eq le_imp_less_Suc split: prod.splits)

definition fifo_set ::
    "'k \<Rightarrow> 'v \<Rightarrow> ('k, 'v) fifo_map \<Rightarrow> ('k \<times> 'v) list \<times> ('k, 'v) fifo_map" where
  "fifo_set k v c =
     (let (evicted, left) = evict_overflow (max_entries c) (AList.update k v (entries c))
      in (evicted, c\<lparr>entries := left\<rparr>))"

definition fifo_set_max_entries ::
    "int \<Rightarrow> ('k, 'v) fifo_map \<Rightarrow> ('k \<times> 'v) list \<times> ('k, 'v) fifo_map" where
  "fifo_set_max_entries cap c =
     (let (evicted, left) = evict_overflow cap (entries c)
      in (evicted, c\<lparr>entries := left, max_entries := cap\<rparr>))"

definition fifo_delete :: "'k \<Rightarrow> ('k, 'v) fifo_map \<Rightarrow> bool \<times> ('k, 'v) fifo_map" where
  "fifo_delete k c = (has_key (entries c) k, c\<lparr>entries := AList.delete k (entries c)\<rparr>)"

definition fifo_clear :: "('k, 'v) fifo_map \<Rightarrow> ('k, 'v) fifo_map" where
  "fifo_clear c = c\<lparr>entries := []\<rparr>"

definition fifo_size :: "('k, 'v) fifo_map \<Rightarrow> int" where
  "fifo_size c = int (length (entries c))"

definition fifo_keys :: "('k, 'v) fifo_map \<Rightarrow> 'k list" where
  "fifo_keys c = keys_of (entries c)"

definition fifo_values :: "('k, 'v) fifo_map \<Rightarrow> 'v list" where
  "fifo_values c = map snd (entries c)"

text \<open>\<^verbatim>\<open>BoundedSet\<close> stores the dummy \<^verbatim>\<open>true\<close> under each member.\<close>

type_synonym 'a bounded_set = "('a, bool) fifo_map"

definition bset_add :: "'a \<Rightarrow> 'a bounded_set \<Rightarrow> 'a list \<times> 'a bounded_set" where
  "bset_add x s = map_prod (map fst) id (fifo_set x True s)"

definition bset_set_max_entries :: "int \<Rightarrow> 'a bounded_set \<Rightarrow> 'a list \<times> 'a bounded_set" where
  "bset_set_max_entries cap s = map_prod (map fst) id (fifo_set_max_entries cap s)"

definition bset_has :: "'a bounded_set \<Rightarrow> 'a \<Rightarrow> bool" where
  "bset_has s x = fifo_has s x"

text \<open>
  \<^verbatim>\<open>BoundedLruCache\<close> overrides \<^verbatim>\<open>get\<close> and \<^verbatim>\<open>set\<close>.  A stored \<^verbatim>\<open>undefined\<close> is \<open>Some None\<close>: it reads like
  a miss and is not promoted.
\<close>

type_synonym ('k, 'v) lru_cache = "('k, 'v option) fifo_map"

definition lru_get :: "'k \<Rightarrow> ('k, 'v) lru_cache \<Rightarrow> 'v option \<times> ('k, 'v) lru_cache" where
  "lru_get k c =
     (case map_of (entries c) k of
        Some (Some v) \<Rightarrow>
          (Some v, c\<lparr>entries := AList.update k (Some v) (AList.delete k (entries c))\<rparr>)
      | _ \<Rightarrow> (None, c))"

definition lru_set ::
    "'k \<Rightarrow> 'v option \<Rightarrow> ('k, 'v) lru_cache \<Rightarrow> ('k \<times> 'v option) list \<times> ('k, 'v) lru_cache" where
  "lru_set k v c = fifo_set k v (c\<lparr>entries := AList.delete k (entries c)\<rparr>)"

subsection \<open>Eviction\<close>

definition wf_fifo :: "('k, 'v) fifo_map \<Rightarrow> bool" where
  "wf_fifo c \<longleftrightarrow> wf_map (entries c)"

text \<open>What the loop leaves is the newest part of the map that fits.\<close>

lemma evict_overflow_eq:
  "wf_map es \<Longrightarrow>
   evict_overflow cap es =
     (take (length es - nat cap) es, lastn (nat cap) es)"
proof (induction cap es rule: evict_overflow.induct)
  case (1 cap)
  then show ?case by simp
next
  case (2 cap oldest es)
  show ?case
  proof (cases "int (length (oldest # es)) > cap")
    case True
    moreover have "Suc (length es) - nat cap = Suc (length es - nat cap)"
      using True by simp
    ultimately show ?thesis
      using 2 delete_hd [of oldest es] by (simp add: lastn_def)
  next
    case False
    then show ?thesis by (simp add: lastn_def)
  qed
qed

lemma fifo_set_eq:
  assumes "wf_fifo c"
  shows "fifo_set k v c =
    (let m = AList.update k v (entries c); n = nat (max_entries c)
     in (take (length m - n) m, c\<lparr>entries := lastn n m\<rparr>))"
  using assms by (simp add: fifo_set_def evict_overflow_eq wf_fifo_def Let_def)

lemma lru_entries_distinct [simp]:
  "wf_fifo c \<Longrightarrow> wf_fifo (c\<lparr>entries := AList.delete k (entries c)\<rparr>)"
  by (simp add: wf_fifo_def)

lemma lru_set_eq:
  assumes "wf_fifo c"
  shows "lru_set k v c =
    (let m = AList.delete k (entries c) @ [(k, v)]; n = nat (max_entries c)
     in (take (length m - n) m, c\<lparr>entries := lastn n m\<rparr>))"
  using assms by (simp add: lru_set_def fifo_set_eq update_delete Let_def)

lemma wf_lastn: "wf_map m \<Longrightarrow> wf_map (lastn n m)"
  by (simp add: map_lastn distinct_lastn)

lemma fifo_set_wf: "wf_fifo c \<Longrightarrow> wf_fifo (snd (fifo_set k v c))"
  by (simp add: fifo_set_eq Let_def) (simp add: wf_fifo_def wf_lastn)

lemma lru_set_wf: "wf_fifo c \<Longrightarrow> wf_fifo (snd (lru_set k v c))"
  unfolding lru_set_def by (rule fifo_set_wf) simp

lemma fifo_set_bounded:
  assumes "wf_fifo c" "0 \<le> max_entries c"
  shows "fifo_size (snd (fifo_set k v c)) \<le> max_entries c"
  using assms by (simp add: fifo_set_eq Let_def fifo_size_def length_lastn)

lemma fifo_set_cap: "max_entries (snd (fifo_set k v c)) = max_entries c"
  by (simp add: fifo_set_def split: prod.splits)

subsection \<open>What a client relies on\<close>

text \<open>
  The contract of a bounded store: \<open>put\<close> keeps the invariant and the ceiling, never exceeds it,
  hands back exactly the pairs it dropped, and keeps the pair it was given whenever there is room
  for one.
\<close>

locale bounded_store =
  fixes put :: "'k \<Rightarrow> 'v \<Rightarrow> 's \<Rightarrow> ('k \<times> 'v) list \<times> 's"
    and content :: "'s \<Rightarrow> ('k, 'v) js_map"
    and cap :: "'s \<Rightarrow> int"
    and inv :: "'s \<Rightarrow> bool"
  assumes inv_wf: "inv s \<Longrightarrow> wf_map (content s)"
    and inv_bounded: "inv s \<Longrightarrow> int (length (content s)) \<le> max 0 (cap s)"
    and put_inv: "inv s \<Longrightarrow> inv (snd (put k v s))"
    and put_cap: "cap (snd (put k v s)) = cap s"
    and put_conserves:
      "inv s \<Longrightarrow> set (fst (put k v s)) \<union> set (content (snd (put k v s)))
         = insert (k, v) {p \<in> set (content s). fst p \<noteq> k}"
    and put_drops:
      "inv s \<Longrightarrow> set (keys_of (fst (put k v s))) \<inter> set (keys_of (content (snd (put k v s)))) = {}"
    and put_keeps: "inv s \<Longrightarrow> 0 < cap s \<Longrightarrow> map_of (content (snd (put k v s))) k = Some v"

fun run_puts :: "('k \<Rightarrow> 'v \<Rightarrow> 's \<Rightarrow> 'e \<times> 's) \<Rightarrow> ('k \<times> 'v) list \<Rightarrow> 's \<Rightarrow> 's" where
  "run_puts put [] s = s"
| "run_puts put ((k, v) # kvs) s = run_puts put kvs (snd (put k v s))"

context bounded_store
begin

lemma run_inv: "inv s \<Longrightarrow> inv (run_puts put kvs s)"
  by (induction kvs arbitrary: s) (auto simp: put_inv)

lemma run_cap: "cap (run_puts put kvs s) = cap s"
  by (induction kvs arbitrary: s) (auto simp: put_cap)

lemma run_bounded: "inv s \<Longrightarrow> int (length (content (run_puts put kvs s))) \<le> max 0 (cap s)"
  using inv_bounded [OF run_inv, of s kvs] by (simp add: run_cap)

lemma put_le:
  assumes "inv s" "map_of (content s) \<subseteq>\<^sub>m M"
  shows "map_of (content (snd (put k v s))) \<subseteq>\<^sub>m M(k \<mapsto> v)"
  unfolding map_le_def
proof (intro ballI)
  fix k' assume "k' \<in> dom (map_of (content (snd (put k v s))))"
  then obtain v' where *: "map_of (content (snd (put k v s))) k' = Some v'" by blast
  then have "(k', v') \<in> insert (k, v) {p \<in> set (content s). fst p \<noteq> k}"
    using map_of_SomeD [OF *] put_conserves [OF assms(1), of k v] by blast
  then have "(M(k \<mapsto> v)) k' = Some v'"
    using assms(2) map_of_is_SomeI [OF inv_wf [OF assms(1)]] by (auto simp: map_le_def dom_def)
  with * show "map_of (content (snd (put k v s))) k' = (M(k \<mapsto> v)) k'" by simp
qed

text \<open>A bounded store never answers with a value that a later put replaced.\<close>

lemma run_le:
  "inv s \<Longrightarrow> map_of (content s) \<subseteq>\<^sub>m M \<Longrightarrow>
   map_of (content (run_puts put kvs s)) \<subseteq>\<^sub>m M ++ map_of (rev kvs)"
proof (induction kvs arbitrary: s M)
  case Nil
  then show ?case by simp
next
  case (Cons kv kvs)
  obtain k v where kv: "kv = (k, v)" by fastforce
  have "map_of (content (run_puts put kvs (snd (put k v s)))) \<subseteq>\<^sub>m M(k \<mapsto> v) ++ map_of (rev kvs)"
    using Cons.prems by (intro Cons.IH put_inv put_le)
  moreover have "M(k \<mapsto> v) ++ map_of (rev kvs) = M ++ map_of (rev (kv # kvs))"
    by (simp add: kv)
  ultimately show ?case by (simp only: kv run_puts.simps)
qed

lemma run_last:
  "inv s \<Longrightarrow> 0 < cap s \<Longrightarrow>
   map_of (content (run_puts put (kvs @ [(k, v)]) s)) k = Some v"
  by (induction kvs arbitrary: s) (auto simp: put_keeps put_inv put_cap)

end

subsection \<open>The two stores meet the contract\<close>

definition bounded_inv :: "('k, 'v) fifo_map \<Rightarrow> bool" where
  "bounded_inv c \<longleftrightarrow> wf_fifo c \<and> fifo_size c \<le> max 0 (max_entries c)"

lemma set_take_lastn: "set (take (length m - n) m) \<union> set (lastn n m) = set m"
  by (metis append_take_drop_id lastn_def set_append)

lemma keys_take_lastn:
  "wf_map m \<Longrightarrow> set (keys_of (take (length m - n) m)) \<inter> set (keys_of (lastn n m)) = {}"
  by (metis append_take_drop_id distinct_append lastn_def map_append)

lemma last_kept:
  assumes "wf_map m" "(k, v) \<in> set m" "length m \<le> Suc n" "0 < n" "length m \<le> n \<or> last m = (k, v)"
  shows "map_of (lastn n m) k = Some v"
proof -
  have "(k, v) \<in> set (lastn n m)"
  proof (cases "length m \<le> n")
    case True
    then show ?thesis using assms(2) by (simp add: lastn_id)
  next
    case False
    then have "last (lastn n m) = (k, v)" "lastn n m \<noteq> []"
      using assms(4,5) by (auto simp: lastn_def)
    then show ?thesis by (metis last_in_set)
  qed
  then show ?thesis using assms(1) by (simp add: wf_lastn)
qed

lemma set_update: "wf_map m \<Longrightarrow> set (AList.update k v m) = insert (k, v) {p \<in> set m. fst p \<noteq> k}"
  by (induction m) (auto simp: image_iff)

lemma set_delete: "set (AList.delete k m) = {p \<in> set m. fst p \<noteq> k}"
  by (auto simp: AList.delete_eq)

interpretation fifo: bounded_store fifo_set entries max_entries bounded_inv
proof unfold_locales
  fix s :: "('a, 'b) fifo_map" and k v
  assume inv: "bounded_inv s"
  then have wf: "wf_fifo s" by (simp add: bounded_inv_def)
  then have wfm: "wf_map (AList.update k v (entries s))" by (simp add: wf_fifo_def)
  show "wf_map (entries s)" "int (length (entries s)) \<le> max 0 (max_entries s)"
    using inv by (auto simp: bounded_inv_def wf_fifo_def fifo_size_def)
  show "bounded_inv (snd (fifo_set k v s))"
    using fifo_set_wf [OF wf, of k v] wf
    by (simp add: bounded_inv_def fifo_size_def fifo_set_eq Let_def length_lastn)
  show "set (fst (fifo_set k v s)) \<union> set (entries (snd (fifo_set k v s))) =
      insert (k, v) {p \<in> set (entries s). fst p \<noteq> k}"
    using wf by (simp add: fifo_set_eq Let_def set_take_lastn set_update wf_fifo_def)
  show "set (keys_of (fst (fifo_set k v s))) \<inter> set (keys_of (entries (snd (fifo_set k v s)))) = {}"
    using wf keys_take_lastn [OF wfm] by (simp add: fifo_set_eq Let_def)
  assume pos: "0 < max_entries s"
  have "length (AList.update k v (entries s)) \<le> Suc (nat (max_entries s))"
    using inv pos by (auto simp: bounded_inv_def fifo_size_def size_update)
  moreover have "length (AList.update k v (entries s)) \<le> nat (max_entries s)
      \<or> last (AList.update k v (entries s)) = (k, v)"
    using inv pos by (auto simp: bounded_inv_def fifo_size_def size_update update_new)
  ultimately have "map_of (lastn (nat (max_entries s)) (AList.update k v (entries s))) k = Some v"
    using wfm pos wf by (intro last_kept) (auto simp: set_update wf_fifo_def)
  then show "map_of (entries (snd (fifo_set k v s))) k = Some v"
    using wf by (simp add: fifo_set_eq Let_def)
qed (simp add: fifo_set_cap)

interpretation lru: bounded_store lru_set entries max_entries bounded_inv
proof unfold_locales
  fix s :: "('a, 'b) lru_cache" and k v
  let ?s = "s\<lparr>entries := AList.delete k (entries s)\<rparr>"
  show cap: "max_entries (snd (lru_set k v s)) = max_entries s"
    by (simp add: lru_set_def fifo_set_cap)
  assume inv: "bounded_inv s"
  have "length (AList.delete k (entries s)) \<le> length (entries s)"
    by (simp add: AList.delete_eq)
  with inv have inv': "bounded_inv ?s"
    by (auto simp: bounded_inv_def fifo_size_def)
  show "wf_map (entries s)" "int (length (entries s)) \<le> max 0 (max_entries s)"
    using inv by (auto simp: bounded_inv_def wf_fifo_def fifo_size_def)
  show "bounded_inv (snd (lru_set k v s))"
    using fifo.put_inv [OF inv'] by (simp add: lru_set_def)
  show "set (fst (lru_set k v s)) \<union> set (entries (snd (lru_set k v s))) =
      insert (k, v) {p \<in> set (entries s). fst p \<noteq> k}"
    using fifo.put_conserves [OF inv', of k v] by (simp add: lru_set_def set_delete)
  show "set (keys_of (fst (lru_set k v s))) \<inter> set (keys_of (entries (snd (lru_set k v s)))) = {}"
    using fifo.put_drops [OF inv', of k v] by (simp add: lru_set_def)
  show "0 < max_entries s \<Longrightarrow> map_of (entries (snd (lru_set k v s))) k = Some v"
    using fifo.put_keeps [OF inv', of k v] by (simp add: lru_set_def)
qed

subsection \<open>Recency\<close>

text \<open>
  The reference is an unbounded recency list: a write moves its key to the end, a read does so when
  the key is among the last \<open>n\<close>.
\<close>

datatype ('k, 'v) lru_op = Lru_Get 'k | Lru_Set 'k 'v

definition move_to_end :: "'k \<Rightarrow> 'k list \<Rightarrow> 'k list" where
  "move_to_end k r = filter (\<lambda>y. y \<noteq> k) r @ [k]"

fun recency_step :: "nat \<Rightarrow> ('k, 'v) lru_op \<Rightarrow> 'k list \<Rightarrow> 'k list" where
  "recency_step n (Lru_Set k v) r = move_to_end k r"
| "recency_step n (Lru_Get k) r = (if k \<in> set (lastn n r) then move_to_end k r else r)"

fun lru_step :: "('k, 'v) lru_op \<Rightarrow> ('k, 'v) lru_cache \<Rightarrow> ('k, 'v) lru_cache" where
  "lru_step (Lru_Set k v) c = snd (lru_set k (Some v) c)"
| "lru_step (Lru_Get k) c = snd (lru_get k c)"

definition lru_sim :: "nat \<Rightarrow> ('k, 'v) lru_cache \<Rightarrow> 'k list \<Rightarrow> bool" where
  "lru_sim n c r \<longleftrightarrow> max_entries c = int n \<and> distinct r \<and> keys_of (entries c) = lastn n r
     \<and> None \<notin> snd ` set (entries c)"

lemma distinct_move_to_end: "distinct r \<Longrightarrow> distinct (move_to_end k r)"
  by (simp add: move_to_end_def)

lemma lastn_move_to_end:
  assumes "distinct r"
  shows "lastn n (filter (\<lambda>y. y \<noteq> k) (lastn n r) @ [k]) = lastn n (move_to_end k r)"
proof (cases n)
  case 0
  then show ?thesis by (simp add: lastn_def)
next
  case (Suc m)
  then show ?thesis
    using lastn_filter_lastn [OF assms, of m k] by (simp add: move_to_end_def lastn_snoc)
qed

lemma lru_sim_set:
  assumes "lru_sim n c r"
  shows "lru_sim n (snd (lru_set k (Some v) c)) (move_to_end k r)"
proof -
  have wf: "wf_fifo c" using assms by (auto simp: lru_sim_def wf_fifo_def)
  let ?m = "AList.delete k (entries c) @ [(k, Some v)]"
  have "keys_of (lastn n ?m) = lastn n (move_to_end k r)"
    using assms by (simp add: map_lastn keys_delete lru_sim_def lastn_move_to_end)
  moreover have "None \<notin> snd ` set (lastn n ?m)"
    using assms set_lastn_subset [of n ?m] by (auto simp: lru_sim_def set_delete image_iff)
  ultimately show ?thesis
    using assms wf by (simp add: lru_set_eq Let_def lru_sim_def distinct_move_to_end)
qed

lemma lru_sim_get:
  assumes sim: "lru_sim n c r"
  shows "lru_sim n (snd (lru_get k c)) (recency_step n (Lru_Get k) r)"
proof (cases "k \<in> set (lastn n r)")
  case False
  from sim have "keys_of (entries c) = lastn n r" by (simp add: lru_sim_def)
  then have "map_of (entries c) k = None"
    using False has_key_iff [of "entries c" k] by simp
  then show ?thesis using False sim by (simp add: lru_get_def)
next
  case True
  from sim have ks: "keys_of (entries c) = lastn n r" by (simp add: lru_sim_def)
  then have k: "k \<in> set (keys_of (entries c))" using True by simp
  then obtain w where w: "map_of (entries c) k = Some w"
    using has_key_iff [of "entries c" k] by auto
  have "w \<in> snd ` set (entries c)" using map_of_SomeD [OF w] by (force simp: image_iff)
  then have "w \<noteq> None" using sim by (metis lru_sim_def)
  then obtain v where v: "w = Some v" by blast
  have wf: "wf_map (entries c)" using sim by (auto simp: lru_sim_def)
  have "length (filter (\<lambda>y. y \<noteq> k) (keys_of (entries c))) < length (keys_of (entries c))"
    by (rule length_filter_less [OF k]) simp
  then have "length (filter (\<lambda>y. y \<noteq> k) (lastn n r) @ [k]) \<le> n"
    by (simp only: ks length_append length_lastn list.size)
  then have "filter (\<lambda>y. y \<noteq> k) (lastn n r) @ [k] = lastn n (move_to_end k r)"
    using sim lastn_move_to_end [of r n k] by (simp add: lru_sim_def lastn_id)
  then show ?thesis
    using True sim w v
    by (auto simp: lru_get_def lru_sim_def update_delete keys_delete distinct_move_to_end
        set_delete image_iff)
qed

lemma lru_sim_step: "lru_sim n c r \<Longrightarrow> lru_sim n (lru_step x c) (recency_step n x r)"
  by (cases x) (simp_all add: lru_sim_set lru_sim_get [simplified])

lemma lru_sim_run:
  "lru_sim n c r \<Longrightarrow> lru_sim n (fold lru_step ops c) (fold (recency_step n) ops r)"
  by (induction ops arbitrary: c r) (auto simp: lru_sim_step)

lemma lru_sim_new: "lru_sim n (fifo_new (int n)) []"
  by (simp add: lru_sim_def fifo_new_def)

subsection \<open>Properties\<close>

text \<open>C35 (refinement): after any sequence of reads and writes an LRU cache of ceiling \<open>n\<close> holds, in
  order, exactly the \<open>n\<close> most recently used keys of the unbounded recency list.\<close>

theorem lru_holds_most_recent:
  "keys_of (entries (fold lru_step ops (fifo_new (int n)))) = lastn n (fold (recency_step n) ops [])"
  using lru_sim_run [OF lru_sim_new, of n ops] by (simp add: lru_sim_def)

text \<open>A bounded FIFO map filled by any writes stays within its ceiling, and every
  value it still answers with is the one last written under that key; the newest write is kept
  whenever the ceiling is positive.\<close>

theorem fifo_bounded_and_current:
  "fifo_size (run_puts fifo_set kvs (fifo_new cap)) \<le> max 0 cap
   \<and> map_of (entries (run_puts fifo_set kvs (fifo_new cap))) \<subseteq>\<^sub>m map_of (rev kvs)
   \<and> (0 < cap \<longrightarrow> fifo_get (run_puts fifo_set (kvs @ [(k, v)]) (fifo_new cap)) k = Some v)"
proof -
  have inv: "bounded_inv (fifo_new cap)"
    by (simp add: bounded_inv_def wf_fifo_def fifo_new_def fifo_size_def)
  show ?thesis
    using fifo.run_bounded [OF inv, of kvs] fifo.run_le [OF inv, of Map.empty kvs]
      fifo.run_last [OF inv, of kvs k v]
    by (simp add: fifo_size_def fifo_new_def fifo_get_def)
qed

lemma fifo_bounded_and_current_witness:
  "fifo_get (run_puts fifo_set ([(1::nat, ''a''), (2, ''b'')] @ [(3, ''c'')]) (fifo_new 2)) 3 = Some ''c''
   \<and> fifo_keys (run_puts fifo_set [(1::nat, ''a''), (2, ''b''), (3, ''c'')] (fifo_new 2)) = [2, 3]"
  using fifo_bounded_and_current [of "[(1::nat, ''a''), (2, ''b'')]" 2 3 "''c''"]
  by (simp add: fifo_new_def fifo_set_def fifo_keys_def)

end
