(* ===== verification/Write_Ordering.thy ===== *)
theory Write_Ordering
  imports Lens_Prelude
begin

text \<open>
  \<^verbatim>\<open>clients/write-ordering-guard.ts\<close>: the guard that drops a write whose ordering token is older
  than the newest one recorded for its key.  Its state is the one field \<^verbatim>\<open>lastSeen\<close>.  The locale
  \<open>write_guard\<close> is what a per-key cache fed through the guard relies on; convergence of such a cache
  is proved there once.
\<close>

type_synonym 'k last_seen = "('k, int) js_map"

definition should_write :: "'k \<Rightarrow> int option \<Rightarrow> 'k last_seen \<Rightarrow> bool \<times> 'k last_seen" where
  "should_write k tok g =
     (case tok of
        None \<Rightarrow> (True, g)
      | Some t \<Rightarrow>
          (case map_of g k of
             Some l \<Rightarrow> if t < l then (False, g) else (True, AList.update k t g)
           | None \<Rightarrow> (True, AList.update k t g)))"

definition next_token :: "'k \<Rightarrow> 'k last_seen \<Rightarrow> int \<times> 'k last_seen" where
  "next_token k g =
     (let nxt = (case map_of g k of None \<Rightarrow> 0 | Some l \<Rightarrow> l) + 1
      in (nxt, AList.update k nxt g))"

definition guard_delete :: "'k \<Rightarrow> 'k last_seen \<Rightarrow> 'k last_seen" where
  "guard_delete k g = AList.delete k g"

definition guard_clear :: "'k last_seen \<Rightarrow> 'k last_seen" where
  "guard_clear g = []"

subsection \<open>A cache behind a guard\<close>

text \<open>One writer: it asks the guard and stores its value only when told to proceed.\<close>

definition guarded_store ::
    "('k \<Rightarrow> int option \<Rightarrow> 'g \<Rightarrow> bool \<times> 'g) \<Rightarrow> 'k \<times> int option \<times> 'v \<Rightarrow> 'g \<times> ('k \<rightharpoonup> 'v)
     \<Rightarrow> 'g \<times> ('k \<rightharpoonup> 'v)" where
  "guarded_store admit w s =
     (case w of (k, tok, v) \<Rightarrow>
        (case admit k tok (fst s) of
           (ok, g) \<Rightarrow> (g, if ok then (snd s)(k \<mapsto> v) else snd s)))"

text \<open>The tokens a list of writes presents for a key.\<close>

definition tokens_for :: "'k \<Rightarrow> ('k \<times> int option \<times> 'v) list \<Rightarrow> int set" where
  "tokens_for k ws = {t. \<exists>v. (k, Some t, v) \<in> set ws}"

lemma tokens_for_snoc:
  "tokens_for k (ws @ [(k', tok, v)]) =
     (case tok of Some t \<Rightarrow> if k' = k then insert t (tokens_for k ws) else tokens_for k ws
      | None \<Rightarrow> tokens_for k ws)"
  by (auto simp: tokens_for_def split: option.splits)

lemma tokens_for_finite [simp]: "finite (tokens_for k ws)"
proof (induction ws rule: rev_induct)
  case Nil
  then show ?case by (simp add: tokens_for_def)
next
  case (snoc w ws)
  obtain k' tok v where "w = (k', tok, v)" by (cases w)
  with snoc show ?case by (simp add: tokens_for_snoc split: option.splits)
qed

locale write_guard =
  fixes admit :: "'k \<Rightarrow> int option \<Rightarrow> 'g \<Rightarrow> bool \<times> 'g"
    and seen :: "'g \<Rightarrow> 'k \<rightharpoonup> int"
    and fresh :: 'g
  assumes seen_fresh: "seen fresh k = None"
    and admit_untagged: "admit k None g = (True, g)"
    and admit_iff: "fst (admit k (Some t) g) \<longleftrightarrow> (\<forall>l. seen g k = Some l \<longrightarrow> l \<le> t)"
    and admit_seen:
      "seen (snd (admit k (Some t) g)) k' =
         (if k' = k then Some (case seen g k of None \<Rightarrow> t | Some l \<Rightarrow> max l t) else seen g k')"
begin

lemma run_seen:
  "seen (fst (fold (guarded_store admit) ws (fresh, Map.empty))) k =
     (if tokens_for k ws = {} then None else Some (Max (tokens_for k ws)))"
proof (induction ws rule: rev_induct)
  case Nil
  then show ?case by (simp add: tokens_for_def seen_fresh)
next
  case (snoc w ws)
  obtain k' tok v where w: "w = (k', tok, v)" by (cases w)
  show ?case
  proof (cases tok)
    case None
    with snoc w show ?thesis
      by (simp add: guarded_store_def tokens_for_snoc admit_untagged)
  next
    case (Some t)
    let ?g = "fst (fold (guarded_store admit) ws (fresh, Map.empty))"
    have "seen (fst (fold (guarded_store admit) (ws @ [w]) (fresh, Map.empty))) k =
        seen (snd (admit k' (Some t) ?g)) k"
      by (simp add: guarded_store_def w Some split: prod.splits)
    then show ?thesis
      using snoc by (auto simp: admit_seen w Some tokens_for_snoc max.commute)
  qed
qed

text \<open>With a token on every write, what the cache holds is a write of the greatest token.\<close>

lemma run_cache:
  assumes "\<And>k tok v. (k, tok, v) \<in> set ws \<Longrightarrow> tok \<noteq> None"
  shows "(tokens_for k ws = {} \<longrightarrow> snd (fold (guarded_store admit) ws (fresh, Map.empty)) k = None)
    \<and> (tokens_for k ws \<noteq> {} \<longrightarrow>
        (\<exists>v. snd (fold (guarded_store admit) ws (fresh, Map.empty)) k = Some v
             \<and> (k, Some (Max (tokens_for k ws)), v) \<in> set ws))"
  using assms
proof (induction ws rule: rev_induct)
  case Nil
  then show ?case by (simp add: tokens_for_def)
next
  case (snoc w ws)
  obtain k' tok v where w: "w = (k', tok, v)" by (cases w)
  have "tok \<noteq> None" using snoc.prems [of k' tok v] by (simp add: w)
  then obtain t where t: "tok = Some t" by blast
  let ?s = "fold (guarded_store admit) ws (fresh, Map.empty)"
  have new: "snd (guarded_store admit (k', Some t, v) ?s) =
      (if fst (admit k' (Some t) (fst ?s)) then (snd ?s)(k' \<mapsto> v) else snd ?s)"
    by (simp add: guarded_store_def split: prod.splits)
  have ih: "(tokens_for k ws = {} \<longrightarrow> snd ?s k = None)
      \<and> (tokens_for k ws \<noteq> {} \<longrightarrow>
         (\<exists>v. snd ?s k = Some v \<and> (k, Some (Max (tokens_for k ws)), v) \<in> set ws))"
    using snoc by auto
  show ?case
  proof (cases "k' = k")
    case False
    with ih show ?thesis by (auto simp: new w t tokens_for_snoc)
  next
    case True
    let ?T = "tokens_for k ws"
    have ok: "fst (admit k (Some t) (fst ?s)) \<longleftrightarrow> (?T \<noteq> {} \<longrightarrow> Max ?T \<le> t)"
      by (simp add: admit_iff run_seen)
    have top: "?T \<noteq> {} \<Longrightarrow> Max (insert t ?T) = max t (Max ?T)" by simp
    show ?thesis
    proof (cases "?T \<noteq> {} \<and> t < Max ?T")
      case True
      then have "\<not> fst (admit k' (Some t) (fst ?s))" using ok \<open>k' = k\<close> by (metis not_le)
      then have "snd (guarded_store admit (k', Some t, v) ?s) = snd ?s" using new by simp
      then show ?thesis using True top ih \<open>k' = k\<close> by (auto simp: w t tokens_for_snoc)
    next
      case False
      then have "Max (insert t ?T) = t" using top by (cases "?T = {}") simp_all
      moreover have "fst (admit k' (Some t) (fst ?s))"
        using False ok \<open>k' = k\<close> by (metis not_less)
      then have "snd (guarded_store admit (k', Some t, v) ?s) k = Some v"
        using new \<open>k' = k\<close> by simp
      ultimately show ?thesis using \<open>k' = k\<close> by (simp add: w t tokens_for_snoc)
    qed
  qed
qed

text \<open>Arrival order does not matter when no two writes of a key carry the same token.\<close>

lemma run_converges:
  assumes same: "set ws' = set ws"
    and tagged: "\<And>k tok v. (k, tok, v) \<in> set ws \<Longrightarrow> tok \<noteq> None"
    and unique: "\<And>k tok v v'. (k, tok, v) \<in> set ws \<Longrightarrow> (k, tok, v') \<in> set ws \<Longrightarrow> v = v'"
  shows "snd (fold (guarded_store admit) ws (fresh, Map.empty)) =
    snd (fold (guarded_store admit) ws' (fresh, Map.empty))"
proof
  fix k
  have tok: "tokens_for k ws' = tokens_for k ws" by (simp add: tokens_for_def same)
  have tagged': "\<And>k tok v. (k, tok, v) \<in> set ws' \<Longrightarrow> tok \<noteq> None" using tagged same by auto
  show "snd (fold (guarded_store admit) ws (fresh, Map.empty)) k =
      snd (fold (guarded_store admit) ws' (fresh, Map.empty)) k"
  proof (cases "tokens_for k ws = {}")
    case True
    then show ?thesis
      using run_cache [of ws k] run_cache [of ws' k] tagged tagged' tok by auto
  next
    case False
    then obtain v v' where
      "snd (fold (guarded_store admit) ws (fresh, Map.empty)) k = Some v"
      "(k, Some (Max (tokens_for k ws)), v) \<in> set ws"
      "snd (fold (guarded_store admit) ws' (fresh, Map.empty)) k = Some v'"
      "(k, Some (Max (tokens_for k ws)), v') \<in> set ws"
      using run_cache [of ws k] run_cache [of ws' k] tagged tagged' tok same by auto
    then show ?thesis using unique by metis
  qed
qed

end

interpretation ordering: write_guard should_write map_of "[]"
  by unfold_locales
    (auto simp: should_write_def get_update split: option.splits)

subsection \<open>Properties\<close>

text \<open>Writers whose tokens identify their values leave the same cache behind in every
  arrival order, so a slow older write cannot overwrite a newer one.\<close>

theorem out_of_order_writes_converge:
  assumes "set ws' = set ws"
    and "\<forall>(k, tok, v) \<in> set ws. tok \<noteq> None"
    and "\<forall>(k, tok, v) \<in> set ws. \<forall>(k', tok', v') \<in> set ws. k = k' \<and> tok = tok' \<longrightarrow> v = v'"
  shows "snd (fold (guarded_store should_write) ws ([], Map.empty)) =
    snd (fold (guarded_store should_write) ws' ([], Map.empty))"
  by (rule ordering.run_converges) (use assms in \<open>auto split: prod.splits\<close>)

lemma out_of_order_writes_converge_witness:
  "snd (fold (guarded_store should_write) [(''f'', Some 1, ''old''), (''f'', Some 2, ''new'')] ([], Map.empty)) =
   snd (fold (guarded_store should_write) [(''f'', Some 2, ''new''), (''f'', Some 1, ''old'')] ([], Map.empty))"
  by (rule out_of_order_writes_converge) auto

text \<open>A token drawn from the guard exceeds every token the key has presented, and
  the write that carries it is admitted.\<close>

theorem next_token_is_newest:
  "(\<forall>t \<in> tokens_for k ws.
      t < fst (next_token k (fst (fold (guarded_store should_write) ws ([], Map.empty)))))
   \<and> fst (should_write k (Some (fst (next_token k g))) (snd (next_token k g)))
   \<and> \<not> fst (should_write k (Some (fst (next_token k g) - 1)) (snd (next_token k g)))"
proof -
  let ?g = "fst (fold (guarded_store should_write) ws ([], Map.empty))"
  have "t < fst (next_token k ?g)" if "t \<in> tokens_for k ws" for t
  proof -
    have "t \<le> Max (tokens_for k ws)" using that by simp
    moreover have "map_of ?g k = Some (Max (tokens_for k ws))"
      using that ordering.run_seen [of ws k] by auto
    ultimately show ?thesis by (simp add: next_token_def Let_def)
  qed
  then show ?thesis
    by (auto simp: next_token_def should_write_def get_update Let_def split: option.splits)
qed

lemma next_token_is_newest_witness:
  "tokens_for ''f'' [(''f'', Some 4, ()), (''g'', Some 9, ())] = {4}
   \<and> fst (next_token ''f'' (fst (fold (guarded_store should_write)
        [(''f'', Some 4, ()), (''g'', Some 9, ())] ([], Map.empty)))) = 5
   \<and> 4 < fst (next_token ''f'' (fst (fold (guarded_store should_write)
        [(''f'', Some 4, ()), (''g'', Some 9, ())] ([], Map.empty))))"
proof -
  have *: "tokens_for ''f'' [(''f'', Some 4, ()), (''g'', Some 9, ())] = {4}"
    by (auto simp: tokens_for_def)
  show ?thesis
    using * next_token_is_newest [of "''f''" "[(''f'', Some 4, ()), (''g'', Some 9, ())]"]
    by (simp add: next_token_def guarded_store_def should_write_def Let_def)
qed

end
