(* ===== verification/Generation_Guard.thy ===== *)
theory Generation_Guard
  imports Bounded_Cache
begin

text \<open>
  \<^verbatim>\<open>clients/generation-guard.ts\<close>: capture a generation before an await, check it before the write.
  A \<^verbatim>\<open>GenerationSource\<close> is one counter; a \<^verbatim>\<open>GenerationMap\<close> is a bounded map of stamps drawn from
  one ticket counter, with a count of invalidations that lets a handle skip re-normalizing its key.
  The key normalizer is an argument of every operation, because the code runs it at each call.  The
  locale \<open>generation_store\<close> is the contract a write site relies on.
\<close>

subsection \<open>A single counter\<close>

definition source_bump :: "int \<Rightarrow> int" where
  "source_bump g = g + 1"

definition source_capture :: "int \<Rightarrow> int \<times> int" where
  "source_capture g = (g, g)"

definition source_current :: "int \<Rightarrow> int \<Rightarrow> bool" where
  "source_current h g \<longleftrightarrow> g = h"

subsection \<open>Per-key stamps\<close>

record 'k gen_map =
  stamps :: "('k, int) fifo_map"
  next_ticket :: int
  invalidations :: int

record 'k gen_handle =
  h_key :: 'k
  h_stamp :: int
  h_seen :: int

definition DEFAULT_MAX_KEYS :: int where
  "DEFAULT_MAX_KEYS = 512"

definition gen_map_new :: "int option \<Rightarrow> 'k gen_map" where
  "gen_map_new max_keys =
     \<lparr>stamps = fifo_new (max 1 (case max_keys of None \<Rightarrow> DEFAULT_MAX_KEYS | Some n \<Rightarrow> n)),
      next_ticket = 0, invalidations = 0\<rparr>"

definition read_stamp :: "'k gen_map \<Rightarrow> 'k \<Rightarrow> int" where
  "read_stamp g k = (case fifo_get (stamps g) k of None \<Rightarrow> 0 | Some t \<Rightarrow> t)"

definition issue :: "'k \<Rightarrow> 'k gen_map \<Rightarrow> int \<times> 'k gen_map" where
  "issue k g =
     (let ticket = next_ticket g + 1;
          (_, s) = fifo_delete k (stamps g);
          (evicted, s') = fifo_set k ticket s
      in (ticket, g\<lparr>stamps := s', next_ticket := ticket,
                    invalidations := invalidations g + int (length evicted)\<rparr>))"

definition gen_current :: "('k \<Rightarrow> 'k) \<Rightarrow> 'k \<Rightarrow> 'k gen_map \<Rightarrow> int" where
  "gen_current norm k g = read_stamp g (norm k)"

definition gen_bump :: "('k \<Rightarrow> 'k) \<Rightarrow> 'k \<Rightarrow> 'k gen_map \<Rightarrow> int \<times> 'k gen_map" where
  "gen_bump norm k g = issue (norm k) (g\<lparr>invalidations := invalidations g + 1\<rparr>)"

definition gen_capture :: "('k \<Rightarrow> 'k) \<Rightarrow> 'k \<Rightarrow> 'k gen_map \<Rightarrow> 'k gen_handle \<times> 'k gen_map" where
  "gen_capture norm k g =
     (let n = norm k;
          (stamp, g') = (if read_stamp g n \<noteq> 0 then (read_stamp g n, g) else issue n g)
      in (\<lparr>h_key = k, h_stamp = stamp, h_seen = invalidations g'\<rparr>, g'))"

text \<open>What a handle reads: its own stamp while nothing was invalidated, else the key's stamp.\<close>

definition handle_read :: "('k \<Rightarrow> 'k) \<Rightarrow> 'k gen_handle \<Rightarrow> 'k gen_map \<Rightarrow> int" where
  "handle_read norm h g =
     (if invalidations g = h_seen h then h_stamp h else read_stamp g (norm (h_key h)))"

definition is_current :: "('k \<Rightarrow> 'k) \<Rightarrow> 'k gen_handle \<Rightarrow> 'k gen_map \<Rightarrow> bool" where
  "is_current norm h g \<longleftrightarrow> handle_read norm h g = h_stamp h"

text \<open>
  The write runs only when the observed generation is the captured one; a dropped write is reported
  with both numbers.
\<close>

definition guarded_write ::
    "('k \<Rightarrow> 'k) \<Rightarrow> 'k gen_handle \<Rightarrow> 'k gen_map \<Rightarrow> ('s \<Rightarrow> 'a \<times> 's) \<Rightarrow> 's
     \<Rightarrow> 'a option \<times> (int \<times> int) option \<times> 's" where
  "guarded_write norm h g write s =
     (let observed = handle_read norm h g
      in if observed \<noteq> h_stamp h then (None, Some (h_stamp h, observed), s)
         else (case write s of (a, s') \<Rightarrow> (Some a, None, s')))"

definition gen_forget :: "('k \<Rightarrow> 'k) \<Rightarrow> 'k \<Rightarrow> 'k gen_map \<Rightarrow> 'k gen_map" where
  "gen_forget norm k g =
     g\<lparr>stamps := snd (fifo_delete (norm k) (stamps g)), invalidations := invalidations g + 1\<rparr>"

definition gen_clear :: "'k gen_map \<Rightarrow> 'k gen_map" where
  "gen_clear g = g\<lparr>stamps := fifo_clear (stamps g), invalidations := invalidations g + 1\<rparr>"

definition gen_size :: "'k gen_map \<Rightarrow> int" where
  "gen_size g = fifo_size (stamps g)"

subsection \<open>Invariant\<close>

definition gen_inv :: "'k gen_map \<Rightarrow> bool" where
  "gen_inv g \<longleftrightarrow> bounded_inv (stamps g) \<and> 1 \<le> max_entries (stamps g) \<and> 0 \<le> next_ticket g
     \<and> (\<forall>(k, t) \<in> set (entries (stamps g)). 0 < t \<and> t \<le> next_ticket g)"

text \<open>A handle that was issued by the map, with what its fast path relies on.\<close>

definition issued :: "('k \<Rightarrow> 'k) \<Rightarrow> 'k gen_handle \<Rightarrow> 'k gen_map \<Rightarrow> bool" where
  "issued norm h g \<longleftrightarrow> 0 < h_stamp h \<and> h_stamp h \<le> next_ticket g \<and> h_seen h \<le> invalidations g
     \<and> (h_seen h = invalidations g \<longrightarrow> read_stamp g (norm (h_key h)) = h_stamp h)"

lemma gen_inv_new: "gen_inv (gen_map_new n)"
  by (simp add: gen_inv_def gen_map_new_def bounded_inv_def wf_fifo_def fifo_new_def fifo_size_def)

lemma bounded_delete: "bounded_inv c \<Longrightarrow> bounded_inv (snd (fifo_delete k c))"
proof -
  assume "bounded_inv c"
  moreover have "length (AList.delete k (entries c)) \<le> length (entries c)"
    by (simp add: AList.delete_eq)
  ultimately show ?thesis
    by (auto simp: bounded_inv_def fifo_delete_def fifo_size_def wf_fifo_def)
qed

lemma read_stamp_member:
  "gen_inv g \<Longrightarrow> (k, t) \<in> set (entries (stamps g)) \<Longrightarrow> read_stamp g k = t"
  using fifo.inv_wf [of "stamps g"]
  by (simp add: gen_inv_def read_stamp_def fifo_get_def map_of_is_SomeI)

lemma read_stamp_cases:
  "read_stamp g k = 0 \<or> (k, read_stamp g k) \<in> set (entries (stamps g))"
  by (auto simp: read_stamp_def fifo_get_def map_of_SomeD split: option.splits)

lemma read_stamp_bounds:
  "gen_inv g \<Longrightarrow> 0 \<le> read_stamp g k \<and> read_stamp g k \<le> next_ticket g"
  using read_stamp_cases [of g k] by (auto simp: gen_inv_def)

subsection \<open>Issuing a stamp\<close>

lemma issue_parts:
  "issue k g = (next_ticket g + 1,
      g\<lparr>stamps := snd (fifo_set k (next_ticket g + 1) (snd (fifo_delete k (stamps g)))),
        next_ticket := next_ticket g + 1,
        invalidations := invalidations g
          + int (length (fst (fifo_set k (next_ticket g + 1) (snd (fifo_delete k (stamps g))))))\<rparr>)"
  by (simp add: issue_def Let_def split: prod.splits)

lemma issue_conserves:
  assumes "gen_inv g"
  shows "set (fst (fifo_set k t (snd (fifo_delete k (stamps g)))))
       \<union> set (entries (snd (fifo_set k t (snd (fifo_delete k (stamps g))))))
     = insert (k, t) {p \<in> set (entries (stamps g)). fst p \<noteq> k}"
proof -
  have "bounded_inv (snd (fifo_delete k (stamps g)))"
    using assms by (simp add: gen_inv_def bounded_delete)
  from fifo.put_conserves [OF this, of k t] show ?thesis
    by (simp add: fifo_delete_def set_delete)
qed

lemma issue_inv:
  assumes "gen_inv g"
  shows "gen_inv (snd (issue k g))"
proof -
  let ?s = "snd (fifo_delete k (stamps g))" and ?t = "next_ticket g + 1"
  have b: "bounded_inv ?s" using assms by (simp add: gen_inv_def bounded_delete)
  have "set (entries (snd (fifo_set k ?t ?s))) \<subseteq> insert (k, ?t) (set (entries (stamps g)))"
    using issue_conserves [OF assms, of k ?t] by blast
  then show ?thesis
    using assms fifo.put_inv [OF b, of k ?t]
    by (simp add: issue_parts gen_inv_def fifo.put_cap)
      (fastforce simp: fifo_delete_def)
qed

lemma issue_reads:
  assumes "gen_inv g"
  shows "read_stamp (snd (issue k g)) k' \<in> {0, next_ticket g + 1} \<union> {read_stamp g k'}"
    and "read_stamp (snd (issue k g)) k = next_ticket g + 1"
    and "k' \<noteq> k \<Longrightarrow> invalidations (snd (issue k g)) = invalidations g \<Longrightarrow>
      read_stamp (snd (issue k g)) k' = read_stamp g k'"
proof -
  let ?s = "snd (fifo_delete k (stamps g))" and ?t = "next_ticket g + 1"
  let ?g = "snd (issue k g)"
  have inv': "gen_inv ?g" by (rule issue_inv [OF assms])
  have b: "bounded_inv ?s" using assms by (simp add: gen_inv_def bounded_delete)
  have e: "entries (stamps ?g) = entries (snd (fifo_set k ?t ?s))"
    by (simp add: issue_parts)
  note cons = issue_conserves [OF assms, of k ?t]
  show "read_stamp ?g k' \<in> {0, ?t} \<union> {read_stamp g k'}"
  proof (cases "read_stamp ?g k' = 0")
    case False
    then have "(k', read_stamp ?g k') \<in> set (entries (stamps ?g))"
      using read_stamp_cases [of ?g k'] by simp
    then have "(k', read_stamp ?g k') \<in> insert (k, ?t) (set (entries (stamps g)))"
      using cons e by auto
    then show ?thesis using read_stamp_member [OF assms] by auto
  qed simp
  have "0 < max_entries ?s" using assms by (simp add: gen_inv_def fifo_delete_def)
  from fifo.put_keeps [OF b this, of k ?t]
  show "read_stamp ?g k = ?t" by (simp add: read_stamp_def fifo_get_def e)
  assume ne: "k' \<noteq> k" and quiet: "invalidations ?g = invalidations g"
  have none: "fst (fifo_set k ?t ?s) = []" using quiet by (simp add: issue_parts)
  show "read_stamp ?g k' = read_stamp g k'"
  proof (cases "read_stamp g k' = 0")
    case True
    have "(k', read_stamp ?g k') \<notin> set (entries (stamps ?g)) \<or> read_stamp ?g k' = 0"
      using cons ne True read_stamp_member [OF assms] by (auto simp: none e)
    then show ?thesis using read_stamp_cases [of ?g k'] True by auto
  next
    case False
    then have "(k', read_stamp g k') \<in> set (entries (stamps g))"
      using read_stamp_cases [of g k'] by simp
    then have "(k', read_stamp g k') \<in> set (entries (stamps ?g))"
      using cons ne by (auto simp: none e)
    then show ?thesis by (rule read_stamp_member [OF inv'])
  qed
qed

subsection \<open>Handles\<close>

datatype 'k gen_op = Gen_Bump 'k | Gen_Capture 'k | Gen_Forget 'k | Gen_Clear

fun gen_step :: "('k \<Rightarrow> 'k) \<Rightarrow> 'k gen_op \<Rightarrow> 'k gen_map \<Rightarrow> 'k gen_map" where
  "gen_step norm (Gen_Bump k) g = snd (gen_bump norm k g)"
| "gen_step norm (Gen_Capture k) g = snd (gen_capture norm k g)"
| "gen_step norm (Gen_Forget k) g = gen_forget norm k g"
| "gen_step norm Gen_Clear g = gen_clear g"

lemma gen_inv_invalidate: "gen_inv g \<Longrightarrow> gen_inv (g\<lparr>invalidations := n\<rparr>)"
  by (simp add: gen_inv_def)

lemma gen_inv_forget: "gen_inv g \<Longrightarrow> gen_inv (gen_forget norm k g)"
  using bounded_delete [of "stamps g" "norm k"]
  by (auto simp: gen_inv_def gen_forget_def fifo_delete_def set_delete)

lemma gen_inv_clear: "gen_inv g \<Longrightarrow> gen_inv (gen_clear g)"
  by (simp add: gen_inv_def gen_clear_def fifo_clear_def bounded_inv_def wf_fifo_def fifo_size_def)

lemma gen_step_inv: "gen_inv g \<Longrightarrow> gen_inv (gen_step norm x g)"
  by (cases x)
    (auto simp: gen_bump_def gen_capture_def Let_def gen_inv_forget gen_inv_clear
      intro!: issue_inv gen_inv_invalidate split: prod.splits, (metis issue_inv snd_conv)+)

lemma read_stamp_invalidate [simp]: "read_stamp (g\<lparr>invalidations := n\<rparr>) k = read_stamp g k"
  by (simp add: read_stamp_def)

lemma issue_counters:
  "next_ticket (snd (issue k g)) = next_ticket g + 1"
  "invalidations g \<le> invalidations (snd (issue k g))"
  by (simp_all add: issue_parts)

lemma gen_capture_state:
  "snd (gen_capture norm k g) = (if read_stamp g (norm k) \<noteq> 0 then g else snd (issue (norm k) g))"
  by (simp add: gen_capture_def Let_def split: prod.splits)

lemma gen_step_counters:
  "next_ticket g \<le> next_ticket (gen_step norm x g) \<and> invalidations g \<le> invalidations (gen_step norm x g)"
  using issue_counters(2) [of "g\<lparr>invalidations := invalidations g + 1\<rparr>"]
  by (cases x) (auto simp: gen_bump_def gen_capture_state gen_forget_def gen_clear_def issue_counters
      intro: order_trans [OF _ issue_counters(2)])

text \<open>Every operation leaves a key's stamp alone, drops it, or replaces it with a fresh ticket.\<close>

lemma gen_step_reads:
  assumes "gen_inv g"
  shows "read_stamp (gen_step norm x g) n = read_stamp g n \<or> read_stamp (gen_step norm x g) n = 0
    \<or> next_ticket g < read_stamp (gen_step norm x g) n"
proof (cases x)
  case (Gen_Bump k)
  then show ?thesis
    using issue_reads(1) [of "g\<lparr>invalidations := invalidations g + 1\<rparr>" "norm k" n]
      gen_inv_invalidate [OF assms] by (auto simp: gen_bump_def)
next
  case (Gen_Capture k)
  then show ?thesis
    using issue_reads(1) [OF assms, of "norm k" n] by (auto simp: gen_capture_state)
qed (auto simp: gen_forget_def gen_clear_def read_stamp_def fifo_get_def fifo_delete_def
    fifo_clear_def get_delete)

text \<open>While nothing was invalidated a key that holds a stamp keeps it.\<close>

lemma gen_step_quiet:
  assumes "gen_inv g" "invalidations (gen_step norm x g) = invalidations g" "read_stamp g n \<noteq> 0"
  shows "read_stamp (gen_step norm x g) n = read_stamp g n"
proof (cases x)
  case (Gen_Bump k)
  have "invalidations g < invalidations (gen_step norm x g)"
    using issue_counters(2) [of "g\<lparr>invalidations := invalidations g + 1\<rparr>" "norm k"]
    by (simp add: Gen_Bump gen_bump_def)
  with assms(2) show ?thesis by simp
next
  case (Gen_Capture k)
  then show ?thesis
    using assms issue_reads(3) [OF assms(1), of n "norm k"]
    by (cases "n = norm k") (auto simp: gen_capture_state)
qed (use assms in \<open>auto simp: gen_forget_def gen_clear_def\<close>)

lemma issued_step: "gen_inv g \<Longrightarrow> issued norm h g \<Longrightarrow> issued norm h (gen_step norm x g)"
  using gen_step_counters [of g norm x] gen_step_quiet [of g norm x "norm (h_key h)"]
  by (auto simp: issued_def)

lemma issued_capture:
  assumes "gen_inv g"
  shows "issued norm (fst (gen_capture norm k g)) (snd (gen_capture norm k g))"
  using read_stamp_bounds [OF assms, of "norm k"] issue_reads(2) [OF assms, of "norm k"] assms
  by (auto simp: gen_capture_def Let_def issued_def gen_inv_def issue_counters
      split: prod.splits) (auto simp: issue_parts)

text \<open>The fast path answers what the slow path would.\<close>

lemma is_current_iff:
  "issued norm h g \<Longrightarrow> is_current norm h g \<longleftrightarrow> read_stamp g (norm (h_key h)) = h_stamp h"
  by (auto simp: is_current_def handle_read_def issued_def)

lemma stale_step:
  assumes "gen_inv g" "issued norm h g" "\<not> is_current norm h g"
  shows "\<not> is_current norm h (gen_step norm x g)"
  using assms gen_step_reads [OF assms(1), of norm x "norm (h_key h)"]
  by (auto simp: is_current_iff [OF assms(2)] is_current_iff [OF issued_step [OF assms(1,2)]])
    (auto simp: issued_def)

subsection \<open>What a write site relies on\<close>

text \<open>
  A store of generations: a fresh handle is current, and a handle that has gone stale stays stale,
  whatever happens to the store.  So a handle that is current at its write was never invalidated
  between the capture and the write.
\<close>

locale generation_store =
  fixes capture :: "'k \<Rightarrow> 's \<Rightarrow> 'h \<times> 's"
    and current :: "'h \<Rightarrow> 's \<Rightarrow> bool"
    and step :: "'op \<Rightarrow> 's \<Rightarrow> 's"
    and inv :: "'s \<Rightarrow> bool"
    and held :: "'h \<Rightarrow> 's \<Rightarrow> bool"
  assumes step_inv: "inv s \<Longrightarrow> inv (step x s)"
    and capture_inv: "inv s \<Longrightarrow> inv (snd (capture k s))"
    and capture_held: "inv s \<Longrightarrow> held (fst (capture k s)) (snd (capture k s))"
    and capture_current: "inv s \<Longrightarrow> current (fst (capture k s)) (snd (capture k s))"
    and step_held: "inv s \<Longrightarrow> held h s \<Longrightarrow> held h (step x s)"
    and stale_stays: "inv s \<Longrightarrow> held h s \<Longrightarrow> \<not> current h s \<Longrightarrow> \<not> current h (step x s)"
begin

lemma run_held: "inv s \<Longrightarrow> held h s \<Longrightarrow> inv (fold step ops s) \<and> held h (fold step ops s)"
  by (induction ops arbitrary: s) (auto simp: step_inv step_held)

lemma stale_run:
  "inv s \<Longrightarrow> held h s \<Longrightarrow> \<not> current h s \<Longrightarrow> \<not> current h (fold step ops s)"
  by (induction ops arbitrary: s) (auto simp: step_inv step_held stale_stays)

lemma current_since_capture:
  assumes "inv s" "current (fst (capture k s)) (fold step (ops @ ops') (snd (capture k s)))"
  shows "current (fst (capture k s)) (fold step ops (snd (capture k s)))"
proof (rule ccontr)
  let ?s = "fold step ops (snd (capture k s))"
  assume "\<not> current (fst (capture k s)) ?s"
  then have "\<not> current (fst (capture k s)) (fold step ops' ?s)"
    using run_held [OF capture_inv capture_held, OF assms(1,1)] stale_run [of ?s] by blast
  with assms(2) show False by simp
qed

end

interpretation gen_source: generation_store "\<lambda>_ :: unit. source_capture" source_current
    "\<lambda>_ :: unit. source_bump" "\<lambda>_. True" "\<lambda>h g. h \<le> g"
  by unfold_locales (auto simp: source_capture_def source_current_def source_bump_def)

interpretation gen_stamps: generation_store "gen_capture norm" "is_current norm" "gen_step norm"
    gen_inv "issued norm" for norm
proof unfold_locales
  fix s :: "'a gen_map" and k
  assume inv: "gen_inv s"
  show "gen_inv (snd (gen_capture norm k s))"
    using gen_step_inv [OF inv, of norm "Gen_Capture k"] by simp
  show "is_current norm (fst (gen_capture norm k s)) (snd (gen_capture norm k s))"
    by (auto simp: gen_capture_def Let_def is_current_def handle_read_def split: prod.splits)
qed (simp_all add: gen_step_inv issued_capture issued_step stale_step)

subsection \<open>Properties\<close>

text \<open>A handle of a generation map whose key was bumped, forgotten or cleared after
  the capture never becomes current again, whatever operations (evictions and re-captures
  included) run before and after, and its guarded write is dropped and reported.\<close>

theorem invalidated_write_is_dropped:
  fixes norm :: "'k \<Rightarrow> 'k"
  assumes "gen_inv g" and "x \<in> {Gen_Bump k', Gen_Forget k', Gen_Clear}" and "norm k' = norm k"
  shows "\<exists>observed. guarded_write norm (fst (gen_capture norm k g))
      (fold (gen_step norm) (ops @ x # ops') (snd (gen_capture norm k g))) write s =
      (None, Some (h_stamp (fst (gen_capture norm k g)), observed), s)"
proof -
  let ?h = "fst (gen_capture norm k g)"
  let ?g = "fold (gen_step norm) ops (snd (gen_capture norm k g))"
  have inv: "gen_inv ?g" and held: "issued norm ?h ?g"
    using gen_stamps.run_held [OF gen_stamps.capture_inv gen_stamps.capture_held, OF assms(1,1)]
    by auto
  have key: "h_key ?h = k" by (simp add: gen_capture_def Let_def split: prod.splits)
  have "read_stamp (gen_step norm x ?g) (norm k) = 0
      \<or> read_stamp (gen_step norm x ?g) (norm k) = next_ticket ?g + 1"
    using assms(2,3) issue_reads(2) [OF gen_inv_invalidate [OF inv], of "norm k"]
    by (auto simp: gen_bump_def gen_forget_def gen_clear_def read_stamp_def fifo_get_def
        fifo_delete_def fifo_clear_def get_delete)
  then have "\<not> is_current norm ?h (gen_step norm x ?g)"
    using issued_step [OF inv held, of x] held by (auto simp: is_current_iff key issued_def)
  then have "\<not> is_current norm ?h (fold (gen_step norm) ops' (gen_step norm x ?g))"
    by (intro gen_stamps.stale_run gen_stamps.step_inv gen_stamps.step_held inv held)
  then show ?thesis
    by (simp add: is_current_def guarded_write_def Let_def)
qed

lemma invalidated_write_is_dropped_witness:
  "\<exists>observed. guarded_write id (fst (gen_capture id ''cwd'' (gen_map_new None)))
      (fold (gen_step id) ([] @ Gen_Bump ''cwd'' # [Gen_Capture ''cwd''])
        (snd (gen_capture id ''cwd'' (gen_map_new None)))) (\<lambda>n. (n, n + 1)) (7::nat) =
      (None, Some (h_stamp (fst (gen_capture id ''cwd'' (gen_map_new None))), observed), 7)"
  by (rule invalidated_write_is_dropped [of _ _ "''cwd''"]) (simp_all add: gen_inv_new)

text \<open>The handle's fast path, which skips the key normalizer while the
  invalidation count stands still, answers exactly what reading the key's stamp would.\<close>

theorem fast_path_agrees:
  assumes "gen_inv g"
  shows "is_current norm (fst (gen_capture norm k g))
      (fold (gen_step norm) ops (snd (gen_capture norm k g))) \<longleftrightarrow>
    gen_current norm k (fold (gen_step norm) ops (snd (gen_capture norm k g))) =
      h_stamp (fst (gen_capture norm k g))"
proof -
  have "h_key (fst (gen_capture norm k g)) = k"
    by (simp add: gen_capture_def Let_def split: prod.splits)
  then show ?thesis
    using gen_stamps.run_held [OF gen_stamps.capture_inv gen_stamps.capture_held, OF assms assms]
    by (simp add: is_current_iff gen_current_def)
qed

lemma fast_path_agrees_witness:
  "is_current id (fst (gen_capture id ''a'' (gen_map_new (Some 1))))
      (fold (gen_step id) [Gen_Capture ''b''] (snd (gen_capture id ''a'' (gen_map_new (Some 1))))) \<longleftrightarrow>
    gen_current id ''a'' (fold (gen_step id) [Gen_Capture ''b'']
        (snd (gen_capture id ''a'' (gen_map_new (Some 1))))) =
      h_stamp (fst (gen_capture id ''a'' (gen_map_new (Some 1))))"
  by (rule fast_path_agrees) (rule gen_inv_new)

end
