(* ===== verification/File_Time.thy ===== *)
theory File_Time
  imports Lens_Prelude
begin

text \<open>
  \<^verbatim>\<open>clients/file-time.ts\<close>: per-session stamps of file times and sizes, used to notice that a file
  changed behind the agent's back.  The disk is a map from absolute paths to files;
  \<^verbatim>\<open>path.resolve\<close> is the argument \<open>resolve\<close>.  The module state \<^verbatim>\<open>globalState.reads\<close> is a map from
  session to path to stamp.  The locale \<open>change_detector\<close> is what the read guard asks of it.
\<close>

type_synonym path = string

record disk_file =
  file_text :: string
  file_size :: int
  file_mtime :: int
  file_ctime :: int

type_synonym disk = "path \<rightharpoonup> disk_file"

record file_stamp =
  read_at :: int
  stamp_mtime :: "int option"
  stamp_ctime :: "int option"
  stamp_size :: "int option"

type_synonym session_stamps = "(path, file_stamp) js_map"
type_synonym file_time_state = "(string, session_stamps) js_map"

definition create_stamp :: "int \<Rightarrow> disk \<Rightarrow> path \<Rightarrow> file_stamp" where
  "create_stamp now disk p =
     (case disk p of
        Some f \<Rightarrow> \<lparr>read_at = now, stamp_mtime = Some (file_mtime f),
                   stamp_ctime = Some (file_ctime f), stamp_size = Some (file_size f)\<rparr>
      | None \<Rightarrow> \<lparr>read_at = now, stamp_mtime = None, stamp_ctime = None, stamp_size = None\<rparr>)"

definition session_reads :: "string \<Rightarrow> file_time_state \<Rightarrow> session_stamps" where
  "session_reads sid st = (case map_of st sid of None \<Rightarrow> [] | Some m \<Rightarrow> m)"

definition file_time_read ::
    "(path \<Rightarrow> path) \<Rightarrow> int \<Rightarrow> disk \<Rightarrow> string \<Rightarrow> path \<Rightarrow> file_time_state \<Rightarrow> file_stamp \<times> file_time_state" where
  "file_time_read resolve now disk sid p st =
     (let a = resolve p; stamp = create_stamp now disk a
      in (stamp, AList.update sid (AList.update a stamp (session_reads sid st)) st))"

definition file_time_get ::
    "(path \<Rightarrow> path) \<Rightarrow> string \<Rightarrow> path \<Rightarrow> file_time_state \<Rightarrow> file_stamp option" where
  "file_time_get resolve sid p st = map_of (session_reads sid st) (resolve p)"

definition stamps_differ :: "file_stamp \<Rightarrow> file_stamp \<Rightarrow> bool" where
  "stamps_differ current recorded \<longleftrightarrow>
     stamp_mtime current \<noteq> stamp_mtime recorded \<or>
     stamp_ctime current \<noteq> stamp_ctime recorded \<or>
     stamp_size current \<noteq> stamp_size recorded"

text \<open>\<^verbatim>\<open>assert\<close> throws: the two reasons of \<^verbatim>\<open>FileTimeError\<close> are the error values.\<close>

datatype file_time_error = Not_Read path | Modified path

definition file_time_assert ::
    "(path \<Rightarrow> path) \<Rightarrow> int \<Rightarrow> disk \<Rightarrow> string \<Rightarrow> path \<Rightarrow> file_time_state \<Rightarrow> file_time_error + unit" where
  "file_time_assert resolve now disk sid p st =
     (let a = resolve p
      in case map_of (session_reads sid st) a of
           None \<Rightarrow> Inl (Not_Read a)
         | Some recorded \<Rightarrow>
             if stamps_differ (create_stamp now disk a) recorded then Inl (Modified a) else Inr ())"

definition file_time_has_changed ::
    "(path \<Rightarrow> path) \<Rightarrow> int \<Rightarrow> disk \<Rightarrow> string \<Rightarrow> path \<Rightarrow> file_time_state \<Rightarrow> bool" where
  "file_time_has_changed resolve now disk sid p st =
     (let a = resolve p
      in case map_of (session_reads sid st) a of
           None \<Rightarrow> True
         | Some recorded \<Rightarrow> stamps_differ (create_stamp now disk a) recorded)"

definition file_time_clear :: "string \<Rightarrow> file_time_state \<Rightarrow> file_time_state" where
  "file_time_clear sid st = AList.delete sid st"

definition file_time_clear_file ::
    "(path \<Rightarrow> path) \<Rightarrow> string \<Rightarrow> path \<Rightarrow> file_time_state \<Rightarrow> file_time_state" where
  "file_time_clear_file resolve sid p st =
     (case map_of st sid of
        None \<Rightarrow> st
      | Some m \<Rightarrow> AList.update sid (AList.delete (resolve p) m) st)"

definition clear_all_sessions :: "file_time_state \<Rightarrow> file_time_state" where
  "clear_all_sessions st = []"

subsection \<open>What the read guard relies on\<close>

text \<open>
  The stat a change is judged by: times and size, or nothing when the file is absent.
\<close>

definition stat_of :: "disk \<Rightarrow> path \<Rightarrow> (int \<times> int \<times> int) option" where
  "stat_of disk p = map_option (\<lambda>f. (file_mtime f, file_ctime f, file_size f)) (disk p)"

locale change_detector =
  fixes mark :: "int \<Rightarrow> disk \<Rightarrow> path \<Rightarrow> 's \<Rightarrow> 's"
    and changed :: "int \<Rightarrow> disk \<Rightarrow> path \<Rightarrow> 's \<Rightarrow> bool"
    and resolve :: "path \<Rightarrow> path"
  assumes changed_after_mark:
      "changed now' disk' p (mark now disk p s)
         \<longleftrightarrow> stat_of disk' (resolve p) \<noteq> stat_of disk (resolve p)"
    and mark_other:
      "resolve q \<noteq> resolve p \<Longrightarrow> changed now' disk' q (mark now disk p s) = changed now' disk' q s"
begin

text \<open>Marking a file settles it, and nothing but a new stat or a mark of it unsettles it.\<close>

lemma settled:
  "stat_of disk' (resolve p) = stat_of disk (resolve p) \<Longrightarrow> \<not> changed now' disk' p (mark now disk p s)"
  by (simp add: changed_after_mark)

lemma settled_run:
  assumes "\<not> changed now' disk' p s"
    and "\<And>t d q. (t, d, q) \<in> set marks \<Longrightarrow> resolve q = resolve p \<Longrightarrow>
          q = p \<and> stat_of d (resolve p) = stat_of disk' (resolve p)"
  shows "\<not> changed now' disk' p (fold (\<lambda>(t, d, q) s. mark t d q s) marks s)"
  using assms
proof (induction marks arbitrary: s)
  case Nil
  then show ?case by simp
next
  case (Cons x marks)
  obtain t d q where x: "x = (t, d, q)" by (cases x)
  have "\<not> changed now' disk' p (mark t d q s)"
  proof (cases "resolve q = resolve p")
    case True
    then have "q = p" "stat_of d (resolve p) = stat_of disk' (resolve p)"
      using Cons.prems(2) [of t d q] by (auto simp: x)
    then show ?thesis by (simp add: changed_after_mark)
  next
    case False
    then show ?thesis using Cons.prems(1) mark_other [of p q] by auto
  qed
  then have "\<not> changed now' disk' p (fold (\<lambda>(t, d, q) s. mark t d q s) marks (mark t d q s))"
    using Cons.prems(2) by (intro Cons.IH) auto
  then show ?case by (simp add: x)
qed

end

lemma stamps_differ_stat:
  "stamps_differ (create_stamp t d p) (create_stamp t' d' p) \<longleftrightarrow> stat_of d p \<noteq> stat_of d' p"
  by (auto simp: stamps_differ_def create_stamp_def stat_of_def split: option.splits)

interpretation file_time: change_detector
    "\<lambda>now disk p st. snd (file_time_read resolve now disk sid p st)"
    "\<lambda>now disk p st. file_time_has_changed resolve now disk sid p st" resolve
  for resolve sid
  by unfold_locales
    (simp_all add: file_time_read_def file_time_has_changed_def session_reads_def Let_def
      get_update stamps_differ_stat eq_commute)

subsection \<open>Properties\<close>

text \<open>The throwing check and the boolean check agree, the error says which of the
  two failures it is, and sessions do not see each other's stamps.\<close>

theorem assert_agrees_with_has_changed:
  "(file_time_assert resolve now disk sid p st = Inr ()
      \<longleftrightarrow> \<not> file_time_has_changed resolve now disk sid p st)
   \<and> (file_time_assert resolve now disk sid p st = Inl (Not_Read (resolve p))
      \<longleftrightarrow> file_time_get resolve sid p st = None)
   \<and> (sid' = sid \<or> file_time_has_changed resolve now disk sid p
        (file_time_clear sid' (snd (file_time_read resolve t d sid' q st)))
      = file_time_has_changed resolve now disk sid p st)"
  by (auto simp: file_time_assert_def file_time_has_changed_def file_time_get_def file_time_clear_def
      file_time_read_def session_reads_def Let_def get_update get_delete split: option.splits if_splits)

end
