(* ===== verification/Read_Guard_Text.thy ===== *)
theory Read_Guard_Text
  imports Lens_Prelude "HOL-Library.Word"
begin

text \<open>
  The text functions of \<^verbatim>\<open>clients/read-guard.ts\<close>: splitting a file into lines, the bounded splitter
  the content binding uses, and the whitespace-insensitive line hash.  A JavaScript string is a list
  of code units; the model covers code units below 256, which is what \<^typ>\<open>char\<close> holds.
\<close>

unbundle bit_operations_syntax

abbreviation LF :: char where "LF \<equiv> CHR 0x0A"
abbreviation CR :: char where "CR \<equiv> CHR 0x0D"

text \<open>\<^verbatim>\<open>text.split(/\r?\n/)\<close>, scanning left to right with the current line reversed.\<close>

fun split_scan :: "string \<Rightarrow> string \<Rightarrow> string list" where
  "split_scan acc [] = [rev acc]"
| "split_scan acc (c # cs) =
     (if c = LF then rev acc # split_scan [] cs
      else if c = CR \<and> cs \<noteq> [] \<and> hd cs = LF then rev acc # split_scan [] (tl cs)
      else split_scan (c # acc) cs)"

definition split_lines :: "string \<Rightarrow> string list" where
  "split_lines text = split_scan [] text"

text \<open>
  \<^verbatim>\<open>splitLinesThrough\<close>: at most \<open>maxLines\<close> lines, found newline by newline.  \<open>cut_line\<close> is the
  \<^verbatim>\<open>indexOf\<close> of the next line feed: what precedes it and what follows, if there is one.
\<close>

fun cut_line :: "string \<Rightarrow> (string \<times> string) option" where
  "cut_line [] = None"
| "cut_line (c # cs) =
     (if c = LF then Some ([], cs)
      else map_option (map_prod (\<lambda>l. c # l) id) (cut_line cs))"

definition strip_cr :: "string \<Rightarrow> string" where
  "strip_cr l = (if l \<noteq> [] \<and> last l = CR then butlast l else l)"

fun split_through :: "nat \<Rightarrow> string \<Rightarrow> string list" where
  "split_through 0 text = []"
| "split_through (Suc n) text =
     (case cut_line text of
        None \<Rightarrow> [text]
      | Some (l, rest) \<Rightarrow>
          strip_cr l # (if rest = [] \<and> n > 0 then [[]] else split_through n rest))"

definition split_lines_through :: "string \<Rightarrow> int \<Rightarrow> string list" where
  "split_lines_through text max_lines =
     (if max_lines \<le> 0 then [] else split_through (nat max_lines) text)"

text \<open>\<^verbatim>\<open>lines.join("\n")\<close>.\<close>

fun join_lines :: "string list \<Rightarrow> string" where
  "join_lines [] = []"
| "join_lines [l] = l"
| "join_lines (l # ls) = l @ LF # join_lines ls"

text \<open>The characters \<^verbatim>\<open>\s\<close> matches below code unit 256.\<close>

definition is_js_space :: "char \<Rightarrow> bool" where
  "is_js_space c \<longleftrightarrow> of_char c \<in> {9, 10, 11, 12, 13, 32, 160 :: nat}"

definition fnv_step :: "32 word \<Rightarrow> char \<Rightarrow> 32 word" where
  "fnv_step h c = (h XOR of_nat (of_char c)) * 16777619"

definition hex_digit :: "nat \<Rightarrow> char" where
  "hex_digit d = (if d < 10 then char_of (48 + d) else char_of (87 + d))"

definition hex8 :: "32 word \<Rightarrow> string" where
  "hex8 w = map (\<lambda>i. hex_digit (unat (drop_bit (4 * i) w AND 15))) [7, 6, 5, 4, 3, 2, 1, 0]"

definition line_content_hash :: "string \<Rightarrow> string" where
  "line_content_hash line =
     hex8 (foldl fnv_step 2166136261 (filter (\<lambda>c. \<not> is_js_space c) line))"

lemma line_content_hash_spaces:
  "filter (\<lambda>c. \<not> is_js_space c) a = filter (\<lambda>c. \<not> is_js_space c) b \<Longrightarrow>
   line_content_hash a = line_content_hash b"
  by (simp add: line_content_hash_def)

lemma split_scan_ne [simp]: "split_scan acc text \<noteq> []"
  by (induction acc "text" rule: split_scan.induct) auto

lemma split_lines_ne [simp]: "split_lines text \<noteq> []"
  by (simp add: split_lines_def)

lemma split_scan_cut:
  "split_scan acc text =
     (case cut_line text of
        None \<Rightarrow> [rev acc @ text]
      | Some (l, rest) \<Rightarrow> (if l = [] then rev acc else rev acc @ strip_cr l) # split_scan [] rest)"
proof (induction acc "text" rule: split_scan.induct)
  case (1 acc)
  then show ?case by simp
next
  case (2 acc c cs)
  show ?case
  proof (cases "c = LF \<or> (c = CR \<and> cs \<noteq> [] \<and> hd cs = LF)")
    case True
    then show ?thesis by (cases cs) (auto simp: strip_cr_def)
  next
    case False
    then have "split_scan acc (c # cs) = split_scan (c # acc) cs" by auto
    moreover have "cut_line (c # cs) = map_option (map_prod (\<lambda>l. c # l) id) (cut_line cs)"
      using False by simp
    ultimately show ?thesis
      using 2(3) False
      by (cases cs) (auto simp: strip_cr_def split: option.splits if_splits)
  qed
qed

text \<open>The bounded splitter is a prefix of the full one.\<close>

lemma split_through_take: "split_through n text = take n (split_lines text)"
proof (induction n arbitrary: "text")
  case 0
  then show ?case by simp
next
  case (Suc n)
  show ?case
    using Suc split_scan_cut [of "[]" "text"]
    by (cases n) (auto simp: split_lines_def strip_cr_def split: option.splits)
qed

text \<open>The bounded splitter returns exactly the first lines the full split would,
  for every bound and every mix of line endings.\<close>

theorem split_lines_through_prefix:
  "split_lines_through text n = take (nat n) (split_lines text)"
  by (simp add: split_lines_through_def split_through_take)

end
