(* ===== verification/Path_Keys.thy ===== *)
theory Path_Keys
  imports File_Time Read_Guard_Text
begin

text \<open>
  \<^verbatim>\<open>clients/path-utils.ts\<close>: the keys under which every file-indexed map of the program stores its
  entries, containment tests and the upward directory walks.

  The record \<open>host\<close> is the machine: its platform, what \<^verbatim>\<open>existsSync\<close> and
  \<^verbatim>\<open>realpathSync.native\<close> answer (\<open>None\<close> is a throw), and the resolvers of \<^verbatim>\<open>node:path\<close> that
  depend on the working directory.  A resolved path is a root and its segments, the form every
  \<^verbatim>\<open>dirname\<close> walk below decomposes it into; \<^verbatim>\<open>path.posix.normalize\<close> is written out.
\<close>

record resolved =
  root :: string
  segs :: "string list"

datatype entry_kind = Directory | Regular_File string | Other_Entry

record host =
  win32 :: bool
  exists_sync :: "path \<Rightarrow> bool"
  realpath :: "path \<Rightarrow> path option"
  win_resolve :: "path \<Rightarrow> resolved"
  path_resolve :: "path \<Rightarrow> resolved"
  stat_entry :: "path \<Rightarrow> entry_kind option"

subsection \<open>Separators and shapes\<close>

abbreviation SLASH :: char where "SLASH \<equiv> CHR ''/''"
abbreviation BSLASH :: char where "BSLASH \<equiv> CHR 0x5C"

definition is_letter :: "char \<Rightarrow> bool" where
  "is_letter c =
     (let n = of_char c :: nat in (65 \<le> n \<and> n \<le> 90) \<or> (97 \<le> n \<and> n \<le> 122))"

fun is_windows_path :: "path \<Rightarrow> bool" where
  "is_windows_path (a # b # rest) = ((is_letter a \<and> b = CHR '':'') \<or> a = BSLASH)"
| "is_windows_path [a] = (a = BSLASH)"
| "is_windows_path [] = False"

definition to_posix :: "path \<Rightarrow> path" where
  "to_posix p = replace_char BSLASH SLASH p"

definition split_path_segments :: "path \<Rightarrow> string list" where
  "split_path_segments p = filter (\<lambda>s. s \<noteq> []) (split_on SLASH (to_posix p))"

text \<open>\<^verbatim>\<open>path.posix.normalize\<close>: fold empty, dot and dot-dot segments, newest segment first.\<close>

definition fold_step :: "bool \<Rightarrow> string list \<Rightarrow> string \<Rightarrow> string list" where
  "fold_step up stack seg =
     (if seg = [] \<or> seg = ''.'' then stack
      else if seg = ''..'' then
        (if stack \<noteq> [] \<and> hd stack \<noteq> ''..'' then tl stack
         else if up then seg # stack else stack)
      else seg # stack)"

definition fold_segments :: "bool \<Rightarrow> string list \<Rightarrow> string list" where
  "fold_segments up ws = rev (foldl (fold_step up) [] ws)"

definition posix_normalize :: "path \<Rightarrow> path" where
  "posix_normalize p =
     (if p = [] then ''.''
      else
        let absolute = hd p = SLASH;
            trailing = last p = SLASH;
            folded = fold_segments (\<not> absolute) (split_on SLASH p);
            body = join_with SLASH folded
        in if folded = [] then
             (if absolute then [SLASH] else if trailing then ''./'' else ''.'')
           else (if absolute then [SLASH] else []) @ body @ (if trailing then [SLASH] else []))"

subsection \<open>Map keys\<close>

text \<open>Both segment lists run from the tail; a segment that differs by more than case stops the walk.\<close>

fun adopt_casing :: "string list \<Rightarrow> string list \<Rightarrow> string list" where
  "adopt_casing (a # held) (b # real) =
     (if a \<noteq> b \<and> to_lower_case a \<noteq> to_lower_case b then a # held
      else b # adopt_casing held real)"
| "adopt_casing held _ = held"

definition adopt_canonical_casing :: "path \<Rightarrow> path \<Rightarrow> path" where
  "adopt_canonical_casing held canonical =
     (let held_parts = split_on SLASH held;
          parts = rev (adopt_casing (rev held_parts) (rev (split_on SLASH canonical)))
      in if parts \<noteq> held_parts then join_with SLASH parts else held)"

definition win_path :: "resolved \<Rightarrow> path" where
  "win_path r = root r @ join_with BSLASH (segs r)"

text \<open>
  \<^verbatim>\<open>resolveNonExisting\<close>: climb to the nearest existing ancestor (the segments run from the tail) and
  append the missing tail in lower case.  \<open>None\<close> is a throw: no ancestor exists, or the real path
  of the ancestor cannot be read.
\<close>

definition with_missing_tail :: "string list \<Rightarrow> path \<Rightarrow> path" where
  "with_missing_tail missing canonical =
     (let base = to_posix canonical;
          tail = to_lower_case (join_with SLASH (rev missing))
      in if missing = [] then base
         else if base \<noteq> [] \<and> last base = SLASH then base @ tail else base @ SLASH # tail)"

fun climb_to_existing :: "host \<Rightarrow> string \<Rightarrow> string list \<Rightarrow> string list \<Rightarrow> path option" where
  "climb_to_existing h rt [] missing =
     (if exists_sync h rt then map_option (with_missing_tail missing) (realpath h rt) else None)"
| "climb_to_existing h rt (s # ss) missing =
     (let current = win_path \<lparr>root = rt, segs = rev (s # ss)\<rparr>
      in if exists_sync h current then map_option (with_missing_tail missing) (realpath h current)
         else climb_to_existing h rt ss (missing @ [s]))"

definition resolve_non_existing :: "host \<Rightarrow> path \<Rightarrow> path option" where
  "resolve_non_existing h p =
     (let r = win_resolve h p in climb_to_existing h (root r) (rev (segs r)) [])"

definition posix_fold :: "path \<Rightarrow> path" where
  "posix_fold p = (if p = [] \<or> starts_with p ''//'' then p else posix_normalize p)"

definition normalize_file_path :: "host \<Rightarrow> path \<Rightarrow> path" where
  "normalize_file_path h p =
     (let normalized = to_posix p
      in if \<not> win32 h \<and> \<not> is_windows_path normalized then
           let folded = posix_fold normalized
           in case realpath h folded of
                None \<Rightarrow> folded
              | Some canonical \<Rightarrow>
                  if canonical = folded then folded
                  else
                    let adopted = adopt_canonical_casing folded canonical
                    in if adopted = folded then folded
                       else if realpath h adopted = Some canonical then adopted else folded
         else
           case realpath h p of
             Some canonical \<Rightarrow> to_posix canonical
           | None \<Rightarrow>
               (case resolve_non_existing h p of
                  Some key \<Rightarrow> key
                | None \<Rightarrow> to_lower_case (to_posix (win_path (win_resolve h p)))))"

definition normalize_ephemeral_map_key :: "host \<Rightarrow> path \<Rightarrow> path" where
  "normalize_ephemeral_map_key h p =
     (if \<not> win32 h \<and> BSLASH \<notin> set p then p
      else
        let slashed = to_posix p
        in if win32 h then to_lower_case slashed else slashed)"

definition paths_equal :: "host \<Rightarrow> path \<Rightarrow> path \<Rightarrow> bool" where
  "paths_equal h a b \<longleftrightarrow> normalize_file_path h a = normalize_file_path h b"

subsection \<open>Containment\<close>

definition is_under_dir :: "host \<Rightarrow> path \<Rightarrow> path \<Rightarrow> bool" where
  "is_under_dir h child parent =
     (let norm_child = normalize_file_path h child;
          norm_parent = normalize_file_path h parent;
          prefix = (if norm_parent \<noteq> [] \<and> last norm_parent = SLASH then norm_parent
                    else norm_parent @ [SLASH])
      in norm_child = norm_parent \<or> starts_with norm_child prefix)"

definition VENDOR_DIR_NAMES :: "string list" where
  "VENDOR_DIR_NAMES = [''node_modules'', ''vendor'', ''vendors'', ''third_party'', ''third-party'']"

definition is_external_or_vendor_file :: "host \<Rightarrow> path \<Rightarrow> path \<Rightarrow> bool" where
  "is_external_or_vendor_file h p project_root =
     (if \<not> is_under_dir h p project_root then True
      else
        let normalized = normalize_file_path h p;
            root_norm = normalize_file_path h project_root;
            rel = (if starts_with normalized (root_norm @ [SLASH])
                   then drop (length root_norm + 1) normalized else normalized)
        in list_ex (\<lambda>s. s \<in> set VENDOR_DIR_NAMES) (split_on SLASH rel))"

definition home_relative_path :: "host \<Rightarrow> path \<Rightarrow> path \<Rightarrow> path" where
  "home_relative_path h p home_dir =
     (if p = [] then p
      else
        let candidate = to_posix p;
            home = rev (dropWhile (\<lambda>c. c = SLASH) (rev (to_posix home_dir)));
            fold_case = (\<lambda>s. if win32 h then to_lower_case s else s)
        in if home = [] then p
           else if fold_case candidate = fold_case home then ''~''
           else if \<not> starts_with (fold_case candidate) (fold_case home @ [SLASH]) then p
           else CHR ''~'' # drop (length home) candidate)"

subsection \<open>Upward walks\<close>

text \<open>
  \<^verbatim>\<open>path.relative(dir, home)\<close> climbs out of \<open>dir\<close> unless \<open>dir\<close> is an ancestor; segments and roots
  compare case-folded on Windows, and a different root makes the answer absolute.
\<close>

definition fold_host :: "host \<Rightarrow> string \<Rightarrow> string" where
  "fold_host h s = (if win32 h then to_lower_case s else s)"

fun common_prefix_length :: "'a list \<Rightarrow> 'a list \<Rightarrow> nat" where
  "common_prefix_length (x # xs) (y # ys) = (if x = y then Suc (common_prefix_length xs ys) else 0)"
| "common_prefix_length _ _ = 0"

datatype relative_path = Absolute_Path | Relative_Path "string list"

definition path_relative :: "host \<Rightarrow> resolved \<Rightarrow> resolved \<Rightarrow> relative_path" where
  "path_relative h from_dir to_dir =
     (if fold_host h (root from_dir) \<noteq> fold_host h (root to_dir) then Absolute_Path
      else
        let n = common_prefix_length (map (fold_host h) (segs from_dir)) (map (fold_host h) (segs to_dir))
        in Relative_Path (replicate (length (segs from_dir) - n) ''..'' @ drop n (segs to_dir)))"

definition is_at_or_above_home_dir :: "host \<Rightarrow> resolved \<Rightarrow> resolved \<Rightarrow> bool" where
  "is_at_or_above_home_dir h dir home =
     (case path_relative h dir home of
        Absolute_Path \<Rightarrow> False
      | Relative_Path [] \<Rightarrow> True
      | Relative_Path (s # _) \<Rightarrow> \<not> starts_with s ''..'')"

text \<open>The directories from a resolved one to its root, as \<^verbatim>\<open>walkUpDirs\<close> yields them.\<close>

fun climbs :: "string \<Rightarrow> string list \<Rightarrow> resolved list" where
  "climbs rt [] = [\<lparr>root = rt, segs = []\<rparr>]"
| "climbs rt (s # ss) = \<lparr>root = rt, segs = rev (s # ss)\<rparr> # climbs rt ss"

definition walk_up_dirs :: "host \<Rightarrow> path \<Rightarrow> resolved list" where
  "walk_up_dirs h start_dir =
     (let r = path_resolve h start_dir in climbs (root r) (rev (segs r)))"

definition host_sep :: "host \<Rightarrow> char" where
  "host_sep h = (if win32 h then BSLASH else SLASH)"

definition child_path :: "host \<Rightarrow> resolved \<Rightarrow> string \<Rightarrow> path" where
  "child_path h dir name = root dir @ join_with (host_sep h) (segs dir @ [name])"

definition find_nearest_containing :: "host \<Rightarrow> path \<Rightarrow> string list \<Rightarrow> resolved option" where
  "find_nearest_containing h start_dir candidates =
     find (\<lambda>dir. list_ex (\<lambda>name. exists_sync h (child_path h dir name)) candidates)
       (walk_up_dirs h start_dir)"

fun find_tool_config :: "host \<Rightarrow> resolved option \<Rightarrow> string list \<Rightarrow> resolved list \<Rightarrow> path option" where
  "find_tool_config h home names [] = None"
| "find_tool_config h home names (dir # dirs) =
     (if (case home of None \<Rightarrow> False | Some hm \<Rightarrow> is_at_or_above_home_dir h dir hm) then None
      else
        case find (exists_sync h) (map (child_path h dir) names) of
          Some candidate \<Rightarrow> Some candidate
        | None \<Rightarrow> find_tool_config h home names dirs)"

definition find_local_tool_config :: "host \<Rightarrow> path \<Rightarrow> string list \<Rightarrow> path option \<Rightarrow> path \<Rightarrow> path option" where
  "find_local_tool_config h start_dir names home_dir cwd =
     find_tool_config h (map_option (path_resolve h) home_dir) names
       (walk_up_dirs h (if start_dir = [] then cwd else start_dir))"

definition is_real_git_marker :: "host \<Rightarrow> path \<Rightarrow> bool" where
  "is_real_git_marker h marker_path =
     (case stat_entry h marker_path of
        None \<Rightarrow> False
      | Some Directory \<Rightarrow> exists_sync h (marker_path @ host_sep h # ''HEAD'')
      | Some (Regular_File contents) \<Rightarrow> starts_with (hd (split_lines contents)) ''gitdir:''
      | Some Other_Entry \<Rightarrow> False)"

text \<open>The climb for a project root: at most \<^verbatim>\<open>depth\<close> directories, never the home directory or above.\<close>

fun climb_for_marker ::
    "host \<Rightarrow> resolved \<Rightarrow> string list \<Rightarrow> string list \<Rightarrow> (path \<Rightarrow> bool) \<Rightarrow> nat \<Rightarrow> string \<Rightarrow> string list
     \<Rightarrow> resolved option" where
  "climb_for_marker h home markers boundaries accept 0 rt ss = None"
| "climb_for_marker h home markers boundaries accept (Suc depth) rt ss =
     (let current = \<lparr>root = rt, segs = rev ss\<rparr>
      in if is_at_or_above_home_dir h current home then None
         else if list_ex (\<lambda>m. exists_sync h (child_path h current m) \<and> accept (child_path h current m)) markers
              then Some current
         else if list_ex (\<lambda>m. exists_sync h (child_path h current m)) boundaries then None
         else
           case ss of
             [] \<Rightarrow> None
           | s # rest \<Rightarrow> climb_for_marker h home markers boundaries accept depth rt rest)"

definition find_nearest_marker_root ::
    "host \<Rightarrow> path \<Rightarrow> string list \<Rightarrow> string list \<Rightarrow> (path \<Rightarrow> bool) \<Rightarrow> path \<Rightarrow> resolved option" where
  "find_nearest_marker_root h start_dir markers boundaries accept home_dir =
     (let r = path_resolve h start_dir
      in climb_for_marker h (path_resolve h home_dir) markers boundaries accept 64 (root r) (rev (segs r)))"

subsection \<open>Case folding leaves separators and dots alone\<close>

lemma lower_char_fixes:
  "lower_char c = SLASH \<longleftrightarrow> c = SLASH" "lower_char c = BSLASH \<longleftrightarrow> c = BSLASH"
  "lower_char c = CHR ''.'' \<longleftrightarrow> c = CHR ''.''"
proof -
  have b: "n < 256" if "n = (of_char c :: nat)" for n using that by simp
  have *: "(lower_char (char_of n) = SLASH \<longleftrightarrow> n = 47) \<and> (lower_char (char_of n) = BSLASH \<longleftrightarrow> n = 92)
      \<and> (lower_char (char_of n) = CHR ''.'' \<longleftrightarrow> n = 46)" if "n < 256" for n :: nat
    using that by (auto simp: lower_char_def Let_def char_of_eq_iff take_bit_eq_mod)
  have "(lower_char c = SLASH \<longleftrightarrow> of_char c = (47::nat)) \<and> (lower_char c = BSLASH \<longleftrightarrow> of_char c = (92::nat))
      \<and> (lower_char c = CHR ''.'' \<longleftrightarrow> of_char c = (46::nat))"
    using * [OF b [OF refl]] by simp
  moreover have "of_char c = (47::nat) \<longleftrightarrow> c = SLASH" "of_char c = (92::nat) \<longleftrightarrow> c = BSLASH"
    "of_char c = (46::nat) \<longleftrightarrow> c = CHR ''.''"
    using of_char_eq_iff [of c SLASH, where ?'a = nat] of_char_eq_iff [of c BSLASH, where ?'a = nat]
      of_char_eq_iff [of c "CHR ''.''", where ?'a = nat]
    by (simp_all del: of_char_eq_iff)
  ultimately show "lower_char c = SLASH \<longleftrightarrow> c = SLASH" "lower_char c = BSLASH \<longleftrightarrow> c = BSLASH"
    "lower_char c = CHR ''.'' \<longleftrightarrow> c = CHR ''.''"
    by blast+
qed

lemma lower_eq_mem:
  assumes "to_lower_case a = to_lower_case b" and "lower_char x = x"
    and "\<And>c. lower_char c = x \<longleftrightarrow> c = x"
  shows "x \<in> set a \<longleftrightarrow> x \<in> set b"
proof -
  have "x \<in> set s \<longleftrightarrow> x \<in> set (to_lower_case s)" for s
    using assms(2,3) by (force simp: image_iff)
  then show ?thesis using assms(1) by metis
qed

lemma lower_eq_dots:
  assumes "to_lower_case a = to_lower_case b"
  shows "a = [] \<longleftrightarrow> b = []" "a = ''.'' \<longleftrightarrow> b = ''.''" "a = ''..'' \<longleftrightarrow> b = ''..''"
proof -
  have "s = ''.'' \<longleftrightarrow> to_lower_case s = ''.''" "s = ''..'' \<longleftrightarrow> to_lower_case s = ''..''" for s
    using lower_char_fixes(3) by (auto simp: map_eq_Cons_conv)
  then show "a = [] \<longleftrightarrow> b = []" "a = ''.'' \<longleftrightarrow> b = ''.''" "a = ''..'' \<longleftrightarrow> b = ''..''"
    using assms by (metis map_is_Nil_conv)+
qed

subsection \<open>Keys are stable\<close>

text \<open>A folded absolute path: a slash, proper segments, possibly a trailing slash.\<close>

definition proper :: "string list \<Rightarrow> bool" where
  "proper ws \<longleftrightarrow> (\<forall>w \<in> set ws. w \<noteq> [] \<and> w \<noteq> ''.'' \<and> w \<noteq> ''..''
     \<and> SLASH \<notin> set w \<and> BSLASH \<notin> set w)"

definition absolute_path :: "string list \<Rightarrow> bool \<Rightarrow> path" where
  "absolute_path ws trailing =
     SLASH # join_with SLASH ws @ (if trailing \<and> ws \<noteq> [] then [SLASH] else [])"

lemma split_absolute:
  assumes "proper ws"
  shows "split_on SLASH (absolute_path ws tr) =
    [] # (if ws = [] then [[]] else if tr then ws @ [[]] else ws)"
proof (cases "ws = []")
  case False
  have "join_with SLASH ws @ [SLASH] = join_with SLASH (ws @ [[]])"
    using False by (simp add: join_append)
  moreover have "split_on SLASH (join_with SLASH (ws @ [[]])) = ws @ [[]]"
    using assms by (intro split_join) (auto simp: proper_def)
  moreover have "split_on SLASH (join_with SLASH ws) = ws"
    using assms False by (intro split_join) (auto simp: proper_def)
  ultimately show ?thesis using False by (simp add: absolute_path_def)
qed (simp add: absolute_path_def)

lemma join_split_absolute:
  "ws \<noteq> [] \<Longrightarrow> join_with SLASH ([] # ws @ [[]]) = absolute_path ws True"
  "ws \<noteq> [] \<Longrightarrow> join_with SLASH ([] # ws) = absolute_path ws False"
  by (auto simp: absolute_path_def neq_Nil_conv join_append [of _ "[[]]", simplified] simp del: append_Cons
      simp flip: append_Cons)

lemma fold_step_proper:
  "proper ws \<Longrightarrow> foldl (fold_step up) st ws = rev ws @ st"
  by (induction ws arbitrary: st) (auto simp: proper_def fold_step_def)

lemma fold_absolute_proper:
  assumes "\<forall>w \<in> set ws. SLASH \<notin> set w \<and> BSLASH \<notin> set w" "proper st"
  shows "proper (foldl (fold_step False) st ws)"
  using assms
proof (induction ws arbitrary: st)
  case (Cons w ws)
  have "proper (fold_step False st w)"
    using Cons.prems by (auto simp: fold_step_def proper_def dest: list.set_sel(2))
  then show ?case using Cons by simp
qed simp

lemma normalize_is_absolute:
  assumes "p \<noteq> []" "hd p = SLASH" "BSLASH \<notin> set p"
  shows "\<exists>ws tr. proper ws \<and> posix_normalize p = absolute_path ws tr"
proof -
  let ?ws = "fold_segments False (split_on SLASH p)"
  have "proper (foldl (fold_step False) [] (split_on SLASH p))"
    using split_on_parts [of _ SLASH p] split_on_chars [of _ SLASH p] assms(3)
    by (intro fold_absolute_proper) (auto simp: proper_def)
  then have "proper ?ws" by (simp add: fold_segments_def proper_def)
  moreover have "posix_normalize p = absolute_path ?ws (last p = SLASH)"
    using assms by (simp add: posix_normalize_def absolute_path_def Let_def)
  ultimately show ?thesis by blast
qed

lemma normalize_absolute [simp]:
  assumes "proper ws"
  shows "posix_normalize (absolute_path ws tr) = absolute_path ws tr"
proof -
  have p: "proper ([] :: string list)" "foldl (fold_step False) [] [] = []" by (auto simp: proper_def)
  have skip: "fold_step False st [] = st" for st by (simp add: fold_step_def)
  have seg: "fold_segments False (split_on SLASH (absolute_path ws tr)) = ws"
    using assms by (simp add: split_absolute fold_segments_def skip fold_step_proper)
  have tl: "ws \<noteq> [] \<Longrightarrow> (last (absolute_path ws tr) = SLASH) = tr"
  proof -
    assume ne: "ws \<noteq> []"
    have "last ws \<noteq> []" "SLASH \<notin> set (last ws)" using assms ne by (auto simp: proper_def)
    moreover have "join_with SLASH ws \<noteq> [] \<and> last (join_with SLASH ws) = last (last ws)"
      using assms ne
      by (induction SLASH ws rule: join_with.induct) (auto simp: proper_def split: if_splits)
    ultimately show "(last (absolute_path ws tr) = SLASH) = tr"
      by (auto simp: absolute_path_def) (metis last_in_set)
  qed
  have "absolute_path ws tr \<noteq> []" "hd (absolute_path ws tr) = SLASH" by (simp_all add: absolute_path_def)
  then show ?thesis
    using seg tl by (auto simp: posix_normalize_def Let_def) (auto simp: absolute_path_def)
qed

text \<open>Adopting the casing of the real path keeps an absolute path absolute, and is final.\<close>

definition same_letters :: "string \<Rightarrow> string \<Rightarrow> bool" where
  "same_letters a b \<longleftrightarrow> a = b \<or> (to_lower_case a = to_lower_case b \<and> SLASH \<notin> set b)"

lemma same_letters_refl [simp]: "same_letters a a"
  by (simp add: same_letters_def)

lemma adopt_casing_letters:
  "\<forall>w \<in> set real. SLASH \<notin> set w \<Longrightarrow> list_all2 same_letters held (adopt_casing held real)"
  by (induction held real rule: adopt_casing.induct)
    (auto simp: same_letters_def list.rel_refl)

lemma adopt_casing_final: "adopt_casing (adopt_casing held real) real = adopt_casing held real"
  by (induction held real rule: adopt_casing.induct) auto

lemma list_all2_mem2: "list_all2 R xs ys \<Longrightarrow> y \<in> set ys \<Longrightarrow> \<exists>x \<in> set xs. R x y"
  by (induction rule: list_all2_induct) auto

lemma adopt_casing_Nil [simp]: "adopt_casing held real = [] \<longleftrightarrow> held = []"
  by (cases "(held, real)" rule: adopt_casing.cases) auto

lemma proper_letters:
  assumes "proper ws" "list_all2 same_letters ws ws'"
  shows "proper ws'"
  unfolding proper_def
proof
  fix w' assume "w' \<in> set ws'"
  then obtain w where w: "w \<in> set ws" "same_letters w w'"
    using list_all2_mem2 [OF assms(2)] by blast
  then have ok: "w \<noteq> []" "w \<noteq> ''.''" "w \<noteq> ''..''" "SLASH \<notin> set w" "BSLASH \<notin> set w"
    using assms(1) by (auto simp: proper_def)
  have "BSLASH \<notin> set w'"
    using w(2) ok(5) lower_eq_mem [of w w' BSLASH] lower_char_fixes(2) unfolding same_letters_def by metis
  then show "w' \<noteq> [] \<and> w' \<noteq> ''.'' \<and> w' \<noteq> ''..'' \<and> SLASH \<notin> set w' \<and> BSLASH \<notin> set w'"
    using w(2) ok lower_eq_dots [of w w'] unfolding same_letters_def by blast
qed

lemma same_letters_Nil [simp]: "same_letters [] b \<longleftrightarrow> b = []"
  by (auto simp: same_letters_def)

lemma adopt_absolute:
  assumes "proper ws"
  shows "\<exists>ws' tr'. proper ws' \<and> adopt_canonical_casing (absolute_path ws tr) canonical = absolute_path ws' tr'"
proof -
  let ?held = "split_on SLASH (absolute_path ws tr)"
  define parts where "parts = rev (adopt_casing (rev ?held) (rev (split_on SLASH canonical)))"
  have "list_all2 same_letters (rev ?held) (adopt_casing (rev ?held) (rev (split_on SLASH canonical)))"
    using split_on_parts by (intro adopt_casing_letters) auto
  then have rel: "list_all2 same_letters ?held parts"
    unfolding parts_def by (subst list_all2_rev [symmetric]) simp
  have adopt: "adopt_canonical_casing (absolute_path ws tr) canonical = join_with SLASH parts"
    using parts_def by (simp add: adopt_canonical_casing_def Let_def)
  show ?thesis
  proof (cases "ws = []")
    case True
    then have "parts = [[], []]"
      using rel assms by (auto simp: split_absolute list_all2_Cons1)
    then have "adopt_canonical_casing (absolute_path ws tr) canonical = absolute_path [] False"
      using adopt by (simp add: absolute_path_def)
    then show ?thesis by (intro exI [of _ "[]"] exI [of _ False]) (simp add: proper_def)
  next
    case False
    show ?thesis
    proof (cases tr)
      case True
      then obtain ws' where "parts = [] # ws' @ [[]]" "list_all2 same_letters ws ws'"
        using rel assms False by (auto simp: split_absolute list_all2_Cons1 list_all2_append1)
      then show ?thesis
        using adopt proper_letters [OF assms] join_split_absolute(1) False
        by (metis list.rel_sel list_all2_Nil2)
    next
      case notr: False
      then obtain ws' where "parts = [] # ws'" "list_all2 same_letters ws ws'"
        using rel assms False notr by (auto simp: split_absolute list_all2_Cons1)
      then show ?thesis
        using adopt proper_letters [OF assms] join_split_absolute(2) False
        by (metis list_all2_Nil2)
    qed
  qed
qed

lemma adopt_final:
  "adopt_canonical_casing (adopt_canonical_casing held canonical) canonical =
   adopt_canonical_casing held canonical"
proof -
  let ?real = "rev (split_on SLASH canonical)"
  let ?parts = "adopt_casing (rev (split_on SLASH held)) ?real"
  have j: "adopt_canonical_casing p canonical =
      join_with SLASH (rev (adopt_casing (rev (split_on SLASH p)) ?real))" for p
    by (simp add: adopt_canonical_casing_def Let_def)
  have "list_all2 same_letters (rev (split_on SLASH held)) ?parts"
    using split_on_parts by (intro adopt_casing_letters) auto
  then have "\<exists>x \<in> set (rev (split_on SLASH held)). same_letters x w" if "w \<in> set ?parts" for w
    by (rule list_all2_mem2 [OF _ that])
  then have "\<forall>w \<in> set ?parts. SLASH \<notin> set w"
    using split_on_parts [of _ SLASH held] by (fastforce simp: same_letters_def)
  moreover have "?parts \<noteq> []" by simp
  ultimately have "split_on SLASH (join_with SLASH (rev ?parts)) = rev ?parts"
    by (intro split_join) auto
  then show ?thesis by (simp add: j adopt_casing_final)
qed

lemma absolute_path_shape:
  assumes "proper ws"
  shows "to_posix (absolute_path ws tr) = absolute_path ws tr"
    "is_windows_path (absolute_path ws tr) = False" "hd (absolute_path ws tr) = SLASH"
proof -
  have "set (join_with SLASH ws) \<subseteq> (\<Union>w \<in> set ws. set w) \<union> {SLASH}"
    by (induction SLASH ws rule: join_with.induct) auto
  then have "BSLASH \<notin> set (absolute_path ws tr)"
    using assms by (auto simp: absolute_path_def proper_def)
  then show "to_posix (absolute_path ws tr) = absolute_path ws tr"
    by (auto simp: to_posix_def replace_char_def intro!: map_idI)
  show "is_windows_path (absolute_path ws tr) = False" "hd (absolute_path ws tr) = SLASH"
    by (cases "join_with SLASH ws"; simp add: absolute_path_def is_letter_def Let_def)+
qed

text \<open>The POSIX arm on a path whose folded spelling is settled.\<close>

definition posix_key :: "host \<Rightarrow> path \<Rightarrow> path" where
  "posix_key h folded =
     (case realpath h folded of
        None \<Rightarrow> folded
      | Some canonical \<Rightarrow>
          if realpath h (adopt_canonical_casing folded canonical) = Some canonical
          then adopt_canonical_casing folded canonical else folded)"

lemma adopt_self [simp]: "adopt_canonical_casing p p = p"
proof -
  have "adopt_casing ws ws = ws" for ws by (induction ws) auto
  then show ?thesis by (simp add: adopt_canonical_casing_def)
qed

lemma normalize_posix:
  assumes "\<not> win32 h" "\<not> is_windows_path (to_posix p)"
  shows "normalize_file_path h p = posix_key h (posix_fold (to_posix p))"
  using assms by (auto simp: normalize_file_path_def posix_key_def Let_def split: option.splits)

lemma posix_key_same_file: "realpath h (posix_key h p) = realpath h p"
  by (auto simp: posix_key_def split: option.splits)

lemma posix_key_final: "posix_key h (posix_key h p) = posix_key h p"
  by (auto simp: posix_key_def adopt_final split: option.splits)

lemma posix_key_absolute:
  assumes "proper ws"
  obtains ws' tr' where "proper ws'" "posix_key h (absolute_path ws tr) = absolute_path ws' tr'"
proof -
  have "posix_key h (absolute_path ws tr) = absolute_path ws tr
      \<or> (\<exists>c. posix_key h (absolute_path ws tr) = adopt_canonical_casing (absolute_path ws tr) c)"
    by (auto simp: posix_key_def split: option.splits)
  then show thesis using adopt_absolute [OF assms] assms that by metis
qed

text \<open>On POSIX the key of an absolute path is final. Keying a key again changes nothing,
  whatever the disk holds, so an exported key can be keyed on import, and the key names the same file
  as the folded path it came from.\<close>

theorem keys_are_final:
  assumes "\<not> win32 h" "starts_with (to_posix p) ''/''" "\<not> starts_with (to_posix p) ''//''"
  shows "normalize_file_path h (normalize_file_path h p) = normalize_file_path h p
    \<and> realpath h (normalize_file_path h p) = realpath h (posix_normalize (to_posix p))"
proof -
  have ne: "to_posix p \<noteq> []" "hd (to_posix p) = SLASH"
    using assms(2) by (cases "to_posix p"; simp add: starts_with_def)+
  have nb: "BSLASH \<notin> set (to_posix p)" by (auto simp: to_posix_def replace_char_def)
  obtain ws tr where ws: "proper ws" "posix_normalize (to_posix p) = absolute_path ws tr"
    using normalize_is_absolute [OF ne nb] by blast
  have "\<not> is_windows_path (to_posix p)"
    using ne by (cases "to_posix p" rule: is_windows_path.cases) (auto simp: is_letter_def)
  then have k: "normalize_file_path h p = posix_key h (absolute_path ws tr)"
    using normalize_posix [OF assms(1)] ne assms(3) ws(2) by (simp add: posix_fold_def)
  obtain ws' tr' where ws': "proper ws'" "posix_key h (absolute_path ws tr) = absolute_path ws' tr'"
    by (rule posix_key_absolute [OF ws(1)])
  have slashes: "\<not> starts_with (absolute_path ws' tr') ''//''"
    using ws'(1) by (cases ws' rule: list.exhaust; cases "hd ws'"; cases "tl ws'")
      (auto simp: absolute_path_def starts_with_def proper_def)
  have fold': "posix_fold (absolute_path ws' tr') = absolute_path ws' tr'"
    using ws'(1) slashes by (simp add: posix_fold_def)
  have "normalize_file_path h (absolute_path ws' tr') = posix_key h (absolute_path ws' tr')"
    using normalize_posix [OF assms(1)] absolute_path_shape [OF ws'(1), of tr'] fold' by simp
  then have "normalize_file_path h (normalize_file_path h p) = normalize_file_path h p"
    using posix_key_final [of h "absolute_path ws tr"] by (simp add: k ws'(2))
  then show ?thesis by (simp add: k ws(2) posix_key_same_file)
qed

definition sample_host :: host where
  "sample_host =
     \<lparr>win32 = False, exists_sync = (\<lambda>p. p = ''/w/a''),
      realpath = (\<lambda>p. if p = ''/w/A'' \<or> p = ''/w/a'' then Some ''/w/a'' else None),
      win_resolve = (\<lambda>p. \<lparr>root = ''C:'' @ [BSLASH], segs = split_path_segments (drop 2 p)\<rparr>),
      path_resolve = (\<lambda>p. \<lparr>root = ''/'', segs = split_path_segments p\<rparr>),
      stat_entry = (\<lambda>p. None)\<rparr>"

lemma keys_are_final_witness:
  "normalize_file_path sample_host ''/w/./A'' = ''/w/a''
   \<and> normalize_file_path sample_host (normalize_file_path sample_host ''/w/./A'') =
       normalize_file_path sample_host ''/w/./A''"
proof
  show "normalize_file_path sample_host ''/w/./A'' = ''/w/a''" by code_simp
  show "normalize_file_path sample_host (normalize_file_path sample_host ''/w/./A'') =
      normalize_file_path sample_host ''/w/./A''"
    by (rule conjunct1 [OF keys_are_final]) code_simp+
qed

text \<open>
  Without the leading slash the key is not final: a relative spelling of a file named like a drive
  becomes a drive path once folded, and is lower-cased the next time it is keyed.
\<close>

lemma relative_drive_spelling_moves:
  "normalize_file_path sample_host ''./C:/Foo'' = ''C:/Foo''
   \<and> normalize_file_path sample_host ''C:/Foo'' = ''c:/foo''"
  by code_simp

subsection \<open>The project root\<close>

abbreviation has_marker :: "host \<Rightarrow> string list \<Rightarrow> (path \<Rightarrow> bool) \<Rightarrow> resolved \<Rightarrow> bool" where
  "has_marker h markers accept dir \<equiv>
     list_ex (\<lambda>m. exists_sync h (child_path h dir m) \<and> accept (child_path h dir m)) markers"

abbreviation has_boundary :: "host \<Rightarrow> string list \<Rightarrow> resolved \<Rightarrow> bool" where
  "has_boundary h boundaries dir \<equiv> list_ex (\<lambda>m. exists_sync h (child_path h dir m)) boundaries"

lemma climb_for_marker_Some:
  "climb_for_marker h home markers boundaries accept depth rt ss = Some d \<longleftrightarrow>
   (\<exists>k < depth. k < length (climbs rt ss) \<and> climbs rt ss ! k = d
      \<and> has_marker h markers accept d \<and> \<not> is_at_or_above_home_dir h d home
      \<and> list_all (\<lambda>x. \<not> is_at_or_above_home_dir h x home \<and> \<not> has_marker h markers accept x
           \<and> \<not> has_boundary h boundaries x) (take k (climbs rt ss)))"
  (is "?lhs depth ss \<longleftrightarrow> (\<exists>k < depth. ?good ss k)")
proof (induction depth arbitrary: ss)
  case (Suc depth)
  let ?here = "\<lparr>root = rt, segs = rev ss\<rparr>"
  let ?pass = "\<not> is_at_or_above_home_dir h ?here home \<and> \<not> has_marker h markers accept ?here
      \<and> \<not> has_boundary h boundaries ?here"
  have split: "(\<exists>k < Suc depth. ?good ss k) \<longleftrightarrow> ?good ss 0 \<or> (\<exists>k < depth. ?good ss (Suc k))"
    by (auto simp: less_Suc_eq_0_disj)
  have zero: "?good ss 0 \<longleftrightarrow> ?here = d \<and> has_marker h markers accept d \<and> \<not> is_at_or_above_home_dir h d home"
    by (cases ss) auto
  have suc: "?good ss (Suc k) \<longleftrightarrow> (\<exists>s rest. ss = s # rest \<and> ?pass \<and> ?good rest k)" for k
    by (cases ss) auto
  show ?case
    unfolding split zero suc using Suc.IH by (cases ss) (auto simp: Let_def)
qed simp

text \<open>The project root is the nearest ancestor, within 64 directories of the start, that
  carries an accepted marker, and no directory up to it lies at or above the home directory or shows a
  boundary before a marker; when there is none the search answers nothing, never the start itself.\<close>

theorem marker_root_is_nearest:
  "find_nearest_marker_root h start_dir markers boundaries accept home_dir = Some d \<longleftrightarrow>
   (\<exists>k < 64. k < length (walk_up_dirs h start_dir) \<and> walk_up_dirs h start_dir ! k = d
      \<and> has_marker h markers accept d \<and> \<not> is_at_or_above_home_dir h d (path_resolve h home_dir)
      \<and> list_all (\<lambda>x. \<not> is_at_or_above_home_dir h x (path_resolve h home_dir)
           \<and> \<not> has_marker h markers accept x \<and> \<not> has_boundary h boundaries x)
          (take k (walk_up_dirs h start_dir)))"
  by (simp only: find_nearest_marker_root_def walk_up_dirs_def Let_def climb_for_marker_Some)

end
