(* ===== verification/Read_Guard_Ranges.thy ===== *)
theory Read_Guard_Ranges
  imports Read_Guard_Text File_Time
begin

text \<open>
  The line-range side of \<^verbatim>\<open>clients/read-guard.ts\<close>: the read record, which lines a read covers, the
  merged-interval coverage test, the per-line content snapshots, the search for a range that has
  moved, and the per-file record cap.  Everything here is a function of the reads and of the lines
  on disk; the guard's state is in \<open>Read_Guard\<close>.  Line numbers and timestamps are \<open>int\<close>.
\<close>

subsection \<open>Records\<close>

record symbol_range =
  sym_name :: string
  sym_kind :: string
  sym_start :: int
  sym_end :: int

datatype credit_reason = Match_Lines_Only | Delivered_Context_Flags | Caller_Margin

record search_credit_info =
  margin_before :: int
  margin_after :: int
  credit_reason :: credit_reason

record content_binding_info =
  bind_hash :: string
  bind_full :: bool
  bind_offset :: int
  bind_limit :: int

text \<open>\<open>line_hashes\<close> is the object from line numbers to hashes, absent when it was not captured.\<close>

record read_record =
  rd_path :: path
  requested_offset :: int
  requested_limit :: int
  effective_offset :: int
  effective_limit :: int
  expanded_by_lsp :: bool
  enclosing_symbol :: "symbol_range option"
  line_hashes :: "(int, string) js_map option"
  content_binding :: "content_binding_info option"
  search_credit :: "search_credit_info option"
  turn_index :: int
  write_index :: int
  timestamp :: int
  rd_source :: "string option"
  provisional :: bool

type_synonym range = "int \<times> int"

datatype guard_mode = Mode_Allow | Mode_Warn | Mode_Block | Mode_Off

record guard_config =
  cfg_enabled :: bool
  cfg_mode :: guard_mode
  context_lines :: int
  cfg_exemptions :: "(string \<times> guard_mode) list"

definition DEFAULT_CONFIG :: guard_config where
  "DEFAULT_CONFIG =
     \<lparr>cfg_enabled = True, cfg_mode = Mode_Block, context_lines = 3,
      cfg_exemptions = [(''*.md'', Mode_Warn), (''*.txt'', Mode_Allow), (''*.log'', Mode_Allow)]\<rparr>"

subsection \<open>Tunables\<close>

text \<open>
  The module constants read from the environment.  \<open>parse_int\<close> is \<^verbatim>\<open>Number.parseInt\<close> with radix 10
  (\<open>None\<close> for \<^verbatim>\<open>NaN\<close>): leading whitespace, a sign, then the longest run of digits.
\<close>

definition digit_value :: "char \<Rightarrow> int option" where
  "digit_value c =
     (let n = of_char c :: nat in if 48 \<le> n \<and> n \<le> 57 then Some (int n - 48) else None)"

fun parse_digits :: "int option \<Rightarrow> string \<Rightarrow> int option" where
  "parse_digits acc [] = acc"
| "parse_digits acc (c # cs) =
     (case digit_value c of
        None \<Rightarrow> acc
      | Some d \<Rightarrow> parse_digits (Some ((case acc of None \<Rightarrow> 0 | Some n \<Rightarrow> n) * 10 + d)) cs)"

definition parse_int :: "string \<Rightarrow> int option" where
  "parse_int s =
     (case dropWhile is_js_space s of
        [] \<Rightarrow> None
      | c # cs \<Rightarrow>
          if c = CHR ''-'' then map_option uminus (parse_digits None cs)
          else if c = CHR ''+'' then parse_digits None cs
          else parse_digits None (c # cs))"

text \<open>\<^verbatim>\<open>Number.parseInt(env ?? dflt, 10) || dflt\<close>: a missing, unreadable or zero value is the default.\<close>

definition env_or :: "string option \<Rightarrow> int \<Rightarrow> int" where
  "env_or v dflt =
     (case v of
        None \<Rightarrow> dflt
      | Some s \<Rightarrow> (case parse_int s of None \<Rightarrow> dflt | Some n \<Rightarrow> if n = 0 then dflt else n))"

record guard_tuning =
  own_edit_grace_ms :: int
  hash_max_lines :: int
  window_min :: int
  window_per_edit :: int
  window_max :: int
  idle_evict_ms :: int

definition own_edit_grace_of :: "string option \<Rightarrow> int" where
  "own_edit_grace_of v = max 0 (env_or v 120000)"

definition hash_max_lines_of :: "string option \<Rightarrow> int" where
  "hash_max_lines_of v = max 0 (env_or v 3000)"

definition window_min_of :: "string option \<Rightarrow> int" where
  "window_min_of v = max 1 (env_or v 40)"

definition window_per_edit_of :: "string option \<Rightarrow> int" where
  "window_per_edit_of v = max 0 (env_or v 20)"

definition window_max_of :: "int \<Rightarrow> string option \<Rightarrow> int" where
  "window_max_of wmin v = max wmin (env_or v 400)"

definition idle_evict_ms_of :: "string option \<Rightarrow> int" where
  "idle_evict_ms_of v =
     (case v of
        None \<Rightarrow> 30 * 60000
      | Some s \<Rightarrow>
          (case parse_int s of
             Some n \<Rightarrow> if 0 < n \<and> n \<le> 2 ^ 53 - 1 then n else 30 * 60000
           | None \<Rightarrow> 30 * 60000))"

definition tuning_of :: "(string \<Rightarrow> string option) \<Rightarrow> guard_tuning" where
  "tuning_of env =
     (let wmin = window_min_of (env ''PI_LENS_READ_GUARD_RELOCATION_WINDOW_MIN'')
      in \<lparr>own_edit_grace_ms = own_edit_grace_of (env ''PI_LENS_READ_GUARD_OWN_EDIT_GRACE_MS''),
          hash_max_lines = hash_max_lines_of (env ''PI_LENS_READ_GUARD_HASH_MAX_LINES''),
          window_min = wmin,
          window_per_edit = window_per_edit_of (env ''PI_LENS_READ_GUARD_RELOCATION_WINDOW_PER_EDIT''),
          window_max = window_max_of wmin (env ''PI_LENS_READ_GUARD_RELOCATION_WINDOW_MAX''),
          idle_evict_ms = idle_evict_ms_of (env ''PI_LENS_READ_GUARD_IDLE_EVICT_MS'')\<rparr>)"

definition READ_BINDING_MAX_BYTES :: int where "READ_BINDING_MAX_BYTES = 4 * 1024 * 1024"
definition READ_GUARD_MAX_FILES :: nat where "READ_GUARD_MAX_FILES = 256"
definition READ_GUARD_MAX_RECORDS_PER_FILE :: nat where "READ_GUARD_MAX_RECORDS_PER_FILE = 128"
definition READ_GUARD_MAX_EDITS_PER_FILE :: nat where "READ_GUARD_MAX_EDITS_PER_FILE = 256"
definition READ_GUARD_MAX_UNCONSUMED_FILES :: nat where "READ_GUARD_MAX_UNCONSUMED_FILES = 4096"

subsection \<open>The record cap\<close>

text \<open>
  \<open>enforce_record_cap_for_file\<close> picks the positions to drop: search credits first, oldest first,
  then whatever is oldest, until the excess is met.  A position already picked is not counted twice.
\<close>

record cap_trim =
  evicted_count :: int
  evicted_credit_count :: int
  evicted_genuine_count :: int

definition NO_TRIM :: cap_trim where
  "NO_TRIM = \<lparr>evicted_count = 0, evicted_credit_count = 0, evicted_genuine_count = 0\<rparr>"

fun pick_credits :: "nat \<Rightarrow> read_record list \<Rightarrow> nat \<Rightarrow> nat list \<Rightarrow> nat list" where
  "pick_credits i [] excess picked = picked"
| "pick_credits i (r # rs) excess picked =
     (if length picked < excess
      then pick_credits (Suc i) rs excess (if search_credit r \<noteq> None then picked @ [i] else picked)
      else picked)"

fun pick_oldest :: "nat \<Rightarrow> read_record list \<Rightarrow> nat \<Rightarrow> nat list \<Rightarrow> nat list" where
  "pick_oldest i [] excess picked = picked"
| "pick_oldest i (r # rs) excess picked =
     (if length picked < excess
      then pick_oldest (Suc i) rs excess (if i \<in> set picked then picked else picked @ [i])
      else picked)"

definition enforce_record_cap_for_file :: "read_record list \<Rightarrow> cap_trim \<times> read_record list" where
  "enforce_record_cap_for_file records =
     (if length records \<le> READ_GUARD_MAX_RECORDS_PER_FILE then (NO_TRIM, records)
      else
        let excess = length records - READ_GUARD_MAX_RECORDS_PER_FILE;
            credits = pick_credits 0 records excess [];
            evicted = pick_oldest 0 records excess credits;
            kept = nths records (- set evicted)
        in (\<lparr>evicted_count = int excess, evicted_credit_count = int (length credits),
             evicted_genuine_count = int excess - int (length credits)\<rparr>, kept))"

subsection \<open>Coverage\<close>

definition read_range_covers_line :: "read_record \<Rightarrow> int \<Rightarrow> bool" where
  "read_range_covers_line r n \<longleftrightarrow>
     effective_offset r \<le> n \<and> n \<le> effective_offset r + effective_limit r - 1"

definition read_effective_range_covers_range :: "read_record \<Rightarrow> range \<Rightarrow> bool" where
  "read_effective_range_covers_range r rng \<longleftrightarrow>
     read_range_covers_line r (fst rng) \<and> read_range_covers_line r (snd rng)"

text \<open>The interval a read grants: its delivered lines widened by the context lines.\<close>

definition read_interval :: "guard_config \<Rightarrow> read_record \<Rightarrow> range" where
  "read_interval cfg r =
     (max 1 (effective_offset r - context_lines cfg),
      effective_offset r + effective_limit r - 1 + context_lines cfg)"

definition within :: "range \<Rightarrow> range \<Rightarrow> bool" where
  "within rng i \<longleftrightarrow> fst i \<le> fst rng \<and> snd rng \<le> snd i"

definition symbol_covers :: "read_record \<Rightarrow> range \<Rightarrow> bool" where
  "symbol_covers r rng =
     (case enclosing_symbol r of
        None \<Rightarrow> False
      | Some sr \<Rightarrow> sym_start sr \<le> fst rng \<and> snd rng \<le> sym_end sr)"

definition read_covers_range :: "guard_config \<Rightarrow> read_record \<Rightarrow> range \<Rightarrow> bool" where
  "read_covers_range cfg r rng =
     (if within rng (read_interval cfg r) then True else symbol_covers r rng)"

record coverage =
  covered :: bool
  via_symbol :: bool

text \<open>First pass: the first confirmed read that covers the edit on its own, directly or by symbol.\<close>

fun single_read_coverage :: "guard_config \<Rightarrow> read_record list \<Rightarrow> range \<Rightarrow> coverage option" where
  "single_read_coverage cfg [] rng = None"
| "single_read_coverage cfg (r # rs) rng =
     (if provisional r then single_read_coverage cfg rs rng
      else if within rng (read_interval cfg r) then Some \<lparr>covered = True, via_symbol = False\<rparr>
      else if symbol_covers r rng then Some \<lparr>covered = True, via_symbol = True\<rparr>
      else single_read_coverage cfg rs rng)"

text \<open>
  Second pass: intervals sorted by start, overlapping or adjacent neighbours merged.  The merged
  list is built newest first, so its head is the code's last element.
\<close>

definition merge_step :: "range list \<Rightarrow> range \<Rightarrow> range list" where
  "merge_step merged i =
     (case merged of
        (s, e) # rest \<Rightarrow> if fst i \<le> e + 1 then (s, max e (snd i)) # rest else i # merged
      | [] \<Rightarrow> [i])"

definition merge_intervals :: "range list \<Rightarrow> range list" where
  "merge_intervals intervals = rev (foldl merge_step [] (sort_key fst intervals))"

definition check_coverage :: "guard_config \<Rightarrow> read_record list \<Rightarrow> range \<Rightarrow> coverage" where
  "check_coverage cfg reads rng =
     (case single_read_coverage cfg reads rng of
        Some c \<Rightarrow> c
      | None \<Rightarrow>
          \<lparr>covered = list_ex (within rng)
             (merge_intervals (map (read_interval cfg) (filter (\<lambda>r. \<not> provisional r) reads))),
           via_symbol = False\<rparr>)"

subsection \<open>Content snapshots\<close>

text \<open>
  Reading the file may fail; its lines are then \<open>None\<close>.  An unreadable file makes the code build an
  array of the range's length, which throws a \<^verbatim>\<open>RangeError\<close> when the range ends more than one line
  before it starts.
\<close>

datatype guard_error = Invalid_Array_Length

record snapshot_check =
  checked :: bool
  matches :: bool
  missing_lines :: "int list"
  mismatched_lines :: "int list"

definition hash_at :: "read_record \<Rightarrow> int \<Rightarrow> string option" where
  "hash_at r n = (case line_hashes r of None \<Rightarrow> None | Some m \<Rightarrow> map_of m n)"

text \<open>\<^verbatim>\<open>lines[n - 1]\<close> for a line number the code has already found to be in range.\<close>

definition line_matches :: "string list \<Rightarrow> read_record \<Rightarrow> int \<Rightarrow> bool" where
  "line_matches lines r n \<longleftrightarrow>
     1 \<le> n \<and> n \<le> int (length lines) \<and> Some (line_content_hash (lines ! nat (n - 1))) = hash_at r n"

definition snapshot_missing :: "read_record \<Rightarrow> range \<Rightarrow> int list" where
  "snapshot_missing r rng =
     filter (\<lambda>n. \<not> read_range_covers_line r n \<or> hash_at r n = None) [fst rng..snd rng]"

definition current_lines_match_read_snapshot ::
    "string list option \<Rightarrow> read_record \<Rightarrow> range \<Rightarrow> guard_error + snapshot_check" where
  "current_lines_match_read_snapshot lines r rng =
     (let missing = snapshot_missing r rng
      in if missing \<noteq> []
         then Inr \<lparr>checked = False, matches = False, missing_lines = missing, mismatched_lines = []\<rparr>
         else
           case lines of
             None \<Rightarrow>
               if snd rng - fst rng + 1 < 0 then Inl Invalid_Array_Length
               else Inr \<lparr>checked = True, matches = False, missing_lines = [],
                         mismatched_lines = [fst rng..snd rng]\<rparr>
           | Some ls \<Rightarrow>
               let mismatched = filter (\<lambda>n. \<not> line_matches ls r n) [fst rng..snd rng]
               in Inr \<lparr>checked = True, matches = (mismatched = []), missing_lines = [],
                       mismatched_lines = mismatched\<rparr>)"

definition read_range_hashes_still_match :: "read_record \<Rightarrow> string list \<Rightarrow> range \<Rightarrow> bool" where
  "read_range_hashes_still_match r lines rng =
     list_all (\<lambda>n. read_range_covers_line r n \<and> hash_at r n \<noteq> None \<and> line_matches lines r n)
       [fst rng..snd rng]"

definition read_hashes_still_match :: "read_record \<Rightarrow> string list \<Rightarrow> bool" where
  "read_hashes_still_match r lines =
     (let hashes = (case line_hashes r of None \<Rightarrow> [] | Some m \<Rightarrow> m)
      in hashes \<noteq> [] \<and>
         list_all (\<lambda>(n, expected). 1 \<le> n \<and> n \<le> int (length lines)
            \<and> line_content_hash (lines ! nat (n - 1)) = expected) hashes)"

definition capture_line_hashes ::
    "guard_tuning \<Rightarrow> string list option \<Rightarrow> int \<Rightarrow> int \<Rightarrow> (int, string) js_map option" where
  "capture_line_hashes tun lines offset limit =
     (if limit \<le> 0 \<or> limit > hash_max_lines tun then None
      else
        case lines of
          None \<Rightarrow> None
        | Some ls \<Rightarrow>
            let end_line = min (int (length ls)) (offset + limit - 1);
                hashes = map (\<lambda>n. (n, line_content_hash (ls ! nat (n - 1)))) [max 1 offset..end_line]
            in if hashes \<noteq> [] then Some hashes else None)"

text \<open>The content binding of a bridge read: the whole file when it is short, else the range.\<close>

definition capture_read_content_binding ::
    "guard_tuning \<Rightarrow> (string \<Rightarrow> string) \<Rightarrow> disk_file option \<Rightarrow> int \<Rightarrow> int \<Rightarrow> content_binding_info option" where
  "capture_read_content_binding tun digest file offset limit =
     (case file of
        None \<Rightarrow> None
      | Some f \<Rightarrow>
          if file_size f > READ_BINDING_MAX_BYTES then None
          else
            let lines = split_lines_through (file_text f) (hash_max_lines tun + 1)
            in if int (length lines) \<le> hash_max_lines tun
               then Some \<lparr>bind_hash = digest (file_text f), bind_full = True, bind_offset = 1,
                          bind_limit = int (length lines)\<rparr>
               else
                 let scoped_offset = max 1 offset;
                     scoped_limit = min (max 0 limit) (hash_max_lines tun)
                 in if scoped_limit = 0 then None
                    else
                      let range_lines =
                            split_lines_through (file_text f) (scoped_offset - 1 + scoped_limit);
                          scoped = take (nat scoped_limit) (drop (nat (scoped_offset - 1)) range_lines)
                      in Some \<lparr>bind_hash = digest (join_lines scoped), bind_full = False,
                               bind_offset = scoped_offset, bind_limit = scoped_limit\<rparr>)"

definition current_content_matches_binding ::
    "(string \<Rightarrow> string) \<Rightarrow> disk_file option \<Rightarrow> content_binding_info \<Rightarrow> bool" where
  "current_content_matches_binding digest file b =
     (case file of
        None \<Rightarrow> False
      | Some f \<Rightarrow>
          digest (if bind_full b then file_text f
             else join_lines (take (nat (bind_limit b)) (drop (nat (bind_offset b - 1)) (split_lines (file_text f)))))
            = bind_hash b)"

subsection \<open>Validating an edit range against the reads\<close>

datatype snapshot_status = Snap_Match | Snap_Mismatch | Snap_Unavailable

record snapshot_validation =
  sv_status :: snapshot_status
  sv_matching_index :: int
  sv_missing :: "int list"
  sv_mismatched :: "int list"
  sv_checked :: nat
  sv_unavailable :: nat
  sv_hash_unavailable :: nat
  sv_last_mismatch :: "int option"
  sv_last_unavailable :: "int option"

definition sv_init :: snapshot_validation where
  "sv_init = \<lparr>sv_status = Snap_Unavailable, sv_matching_index = -1, sv_missing = [],
     sv_mismatched = [], sv_checked = 0, sv_unavailable = 0, sv_hash_unavailable = 0,
     sv_last_mismatch = None, sv_last_unavailable = None\<rparr>"

text \<open>\<open>None\<close> is the \<^verbatim>\<open>-Infinity\<close> both timestamps start from.\<close>

definition later :: "int option \<Rightarrow> int \<Rightarrow> int option" where
  "later t n = (case t of None \<Rightarrow> Some n | Some m \<Rightarrow> Some (max m n))"

definition not_after :: "int option \<Rightarrow> int option \<Rightarrow> bool" where
  "not_after a b =
     (case a of None \<Rightarrow> True | Some x \<Rightarrow> (case b of None \<Rightarrow> False | Some y \<Rightarrow> x \<le> y))"

fun snapshot_loop ::
    "string list option \<Rightarrow> range \<Rightarrow> nat \<Rightarrow> read_record list \<Rightarrow> snapshot_validation
     \<Rightarrow> guard_error + snapshot_validation" where
  "snapshot_loop lines rng i [] sv = Inr sv"
| "snapshot_loop lines rng i (r # rs) sv =
     (case current_lines_match_read_snapshot lines r rng of
        Inl e \<Rightarrow> Inl e
      | Inr c \<Rightarrow>
          if \<not> checked c then
            snapshot_loop lines rng (Suc i) rs
              (sv\<lparr>sv_unavailable := sv_unavailable sv + 1,
                 sv_hash_unavailable := (if read_effective_range_covers_range r rng
                   then sv_hash_unavailable sv + 1 else sv_hash_unavailable sv),
                 sv_missing := (if sv_status sv = Snap_Unavailable then missing_lines c else sv_missing sv),
                 sv_last_unavailable := later (sv_last_unavailable sv) (timestamp r)\<rparr>)
          else if matches c then
            Inr (sv\<lparr>sv_checked := sv_checked sv + 1, sv_status := Snap_Match,
                    sv_matching_index := int i, sv_missing := [], sv_mismatched := []\<rparr>)
          else
            snapshot_loop lines rng (Suc i) rs
              (sv\<lparr>sv_checked := sv_checked sv + 1, sv_status := Snap_Mismatch,
                 sv_missing := [], sv_mismatched := mismatched_lines c,
                 sv_last_mismatch := later (sv_last_mismatch sv) (timestamp r)\<rparr>))"

definition should_block :: "snapshot_validation \<Rightarrow> bool" where
  "should_block sv \<longleftrightarrow>
     sv_status sv = Snap_Mismatch \<and>
     not_after (sv_last_unavailable sv) (sv_last_mismatch sv) \<and>
     sv_checked sv > 0 \<and> sv_hash_unavailable sv = 0"

definition validate_range_snapshot ::
    "guard_config \<Rightarrow> string list option \<Rightarrow> read_record list \<Rightarrow> range \<Rightarrow> guard_error + snapshot_validation" where
  "validate_range_snapshot cfg lines reads rng =
     snapshot_loop lines rng 0 (filter (\<lambda>r. read_covers_range cfg r rng) reads) sv_init"

text \<open>The ranges an edit is checked on: its disjoint spots when there are several, else its span.\<close>

definition ranges_to_check :: "range \<Rightarrow> range list option \<Rightarrow> range list" where
  "ranges_to_check touched edit_ranges =
     (case edit_ranges of
        Some rs \<Rightarrow> if length rs > 1 then rs else [touched]
      | None \<Rightarrow> [touched])"

definition can_ignore_staleness_by_hashes ::
    "guard_config \<Rightarrow> string list option \<Rightarrow> read_record list \<Rightarrow> range option \<Rightarrow> range list option \<Rightarrow> bool" where
  "can_ignore_staleness_by_hashes cfg lines reads touched edit_ranges =
     (case lines of
        None \<Rightarrow> False
      | Some ls \<Rightarrow>
          (case touched of
             None \<Rightarrow> reads \<noteq> [] \<and> read_hashes_still_match (last reads) ls
           | Some t \<Rightarrow>
               list_all (\<lambda>rng. list_ex (\<lambda>r. read_covers_range cfg r rng
                  \<and> read_range_hashes_still_match r ls rng) reads) (ranges_to_check t edit_ranges)))"

subsection \<open>Relocation\<close>

text \<open>The newest read that captured a hash for every line of the range supplies the sequence sought.\<close>

definition wanted_hashes :: "read_record list \<Rightarrow> range \<Rightarrow> string list option" where
  "wanted_hashes reads rng =
     map_option (\<lambda>r. map (\<lambda>n. the (hash_at r n)) [fst rng..snd rng])
       (find (\<lambda>r. line_hashes r \<noteq> None \<and> list_all (\<lambda>n. hash_at r n \<noteq> None) [fst rng..snd rng])
         (rev reads))"

definition match_starts :: "string list \<Rightarrow> string list \<Rightarrow> int list" where
  "match_starts current wanted =
     (if length wanted \<le> length current
      then map (\<lambda>i. int i + 1)
             (filter (\<lambda>i. take (length wanted) (drop i current) = wanted)
               [0..<length current - length wanted + 1])
      else [])"

definition relocation_window :: "guard_tuning \<Rightarrow> nat \<Rightarrow> int" where
  "relocation_window tun applied_edits =
     min (window_max tun) (max (window_min tun) (int applied_edits * window_per_edit tun))"

record relocation =
  moved_from :: range
  moved_to :: range

definition find_relocation ::
    "guard_tuning \<Rightarrow> string list option \<Rightarrow> read_record list \<Rightarrow> nat \<Rightarrow> range \<Rightarrow> relocation option" where
  "find_relocation tun lines reads applied_edits rng =
     (let span = snd rng - fst rng + 1
      in if span < 2 then None
         else
           case wanted_hashes reads rng of
             None \<Rightarrow> None
           | Some wanted \<Rightarrow>
               (case lines of
                  None \<Rightarrow> None
                | Some ls \<Rightarrow>
                    let starts = match_starts (map line_content_hash ls) wanted;
                        window = relocation_window tun applied_edits;
                        local = filter (\<lambda>i. fst rng - window \<le> i \<and> i \<le> snd rng + window) starts;
                        new_start =
                          (case starts of
                             [] \<Rightarrow> None
                           | [i] \<Rightarrow> Some i
                           | _ \<Rightarrow> (case local of [i] \<Rightarrow> Some i | _ \<Rightarrow> None))
                    in case new_start of
                         None \<Rightarrow> None
                       | Some i \<Rightarrow>
                           if i = fst rng then None
                           else Some \<lparr>moved_from = rng, moved_to = (i, i + span - 1)\<rparr>))"

subsection \<open>Pattern exemptions\<close>

text \<open>
  A pattern that starts with a star matches by suffix; one with a star elsewhere is compiled to a
  regular expression, whose matcher is the argument \<open>regex_test\<close>; any other pattern is compared.
\<close>

fun collapse_stars :: "string \<Rightarrow> string" where
  "collapse_stars [] = []"
| "collapse_stars (c # cs) =
     (if c = CHR ''*'' \<and> cs \<noteq> [] \<and> hd cs = CHR ''*'' then collapse_stars cs else c # collapse_stars cs)"

definition escape_pattern_char :: "char \<Rightarrow> string" where
  "escape_pattern_char c =
     (if c = CHR 0x5C then [CHR 0x5C, CHR 0x5C]
      else if c = CHR ''.'' then [CHR 0x5C, CHR ''.'']
      else if c = CHR ''*'' then ''.*''
      else [c])"

definition pattern_regex :: "string \<Rightarrow> string" where
  "pattern_regex pattern =
     ''^'' @ concat (map escape_pattern_char (collapse_stars pattern)) @ ''$''"

definition ends_with :: "string \<Rightarrow> string \<Rightarrow> bool" where
  "ends_with s suffix \<longleftrightarrow>
     length suffix \<le> length s \<and> drop (length s - length suffix) s = suffix"

definition matches_pattern :: "(string \<Rightarrow> string \<Rightarrow> bool) \<Rightarrow> path \<Rightarrow> string \<Rightarrow> bool" where
  "matches_pattern regex_test p pattern =
     (if pattern \<noteq> [] \<and> hd pattern = CHR ''*'' then ends_with p (tl pattern)
      else if CHR ''*'' \<in> set pattern then regex_test (pattern_regex pattern) p
      else p = pattern)"

definition get_exemption_mode ::
    "(string \<Rightarrow> string \<Rightarrow> bool) \<Rightarrow> guard_config \<Rightarrow> path \<Rightarrow> guard_mode option" where
  "get_exemption_mode regex_test cfg p =
     map_option snd (find (\<lambda>x. matches_pattern regex_test p (fst x)) (cfg_exemptions cfg))"

subsection \<open>Coverage is exact\<close>

definition lines_of :: "range list \<Rightarrow> int set" where
  "lines_of is = (\<Union>i \<in> set is. {fst i..snd i})"

lemma lines_of_simps [simp]:
  "lines_of [] = {}"
  "lines_of (i # is) = {fst i..snd i} \<union> lines_of is"
  by (auto simp: lines_of_def)

text \<open>
  What the merging loop keeps: the same lines, and a gap of at least one line between any two merged
  intervals, the newer one above.
\<close>

definition gap :: "range \<Rightarrow> range \<Rightarrow> bool" where
  "gap newer older \<longleftrightarrow> snd older + 1 < fst newer"

definition merge_inv :: "range list \<Rightarrow> range list \<Rightarrow> bool" where
  "merge_inv merged seen \<longleftrightarrow>
     lines_of merged = lines_of seen \<and> sorted_wrt gap merged \<and>
     (merged \<noteq> [] \<longrightarrow> seen \<noteq> [] \<and> fst (hd merged) \<le> fst (last seen))"

lemma lines_of_snoc: "lines_of (xs @ [i]) = lines_of xs \<union> {fst i..snd i}"
  by (auto simp: lines_of_def)

lemma merge_inv_step:
  assumes inv: "merge_inv merged seen" and le: "seen \<noteq> [] \<Longrightarrow> fst (last seen) \<le> fst i"
  shows "merge_inv (merge_step merged i) (seen @ [i])"
proof (cases merged)
  case Nil
  then show ?thesis using inv by (simp add: merge_inv_def merge_step_def lines_of_snoc)
next
  case (Cons m rest)
  obtain s e where m: "m = (s, e)" by fastforce
  have s: "s \<le> fst i" using inv le Cons by (auto simp: merge_inv_def m)
  show ?thesis
  proof (cases "fst i \<le> e + 1")
    case True
    then have "{s..max e (snd i)} = {s..e} \<union> {fst i..snd i}" using s by auto
    then show ?thesis
      using True inv s by (auto simp: merge_inv_def merge_step_def Cons m lines_of_snoc gap_def)
  next
    case False
    then show ?thesis
      using inv s by (auto simp: merge_inv_def merge_step_def Cons m lines_of_snoc gap_def)
  qed
qed

lemma merge_inv_fold:
  "sorted (map fst (seen @ is)) \<Longrightarrow> merge_inv merged seen \<Longrightarrow>
   merge_inv (foldl merge_step merged is) (seen @ is)"
proof (induction "is" arbitrary: merged seen)
  case Nil
  then show ?case by simp
next
  case (Cons i "is")
  have "seen \<noteq> [] \<Longrightarrow> fst (last seen) \<le> fst i"
    using Cons.prems(1) by (auto simp: sorted_append)
  then have "merge_inv (merge_step merged i) (seen @ [i])"
    using Cons.prems(2) by (intro merge_inv_step)
  then show ?case using Cons.IH [of "seen @ [i]" "merge_step merged i"] Cons.prems(1) by simp
qed

lemma merge_inv_intervals:
  "merge_inv (rev (merge_intervals is)) (sort_key fst is)"
  using merge_inv_fold [of "[]" "sort_key fst is" "[]"]
  by (simp add: merge_intervals_def merge_inv_def)

lemma within_lines: "i \<in> set is \<Longrightarrow> within rng i \<Longrightarrow> {fst rng..snd rng} \<subseteq> lines_of is"
proof -
  assume "i \<in> set is" "within rng i"
  moreover have "{fst rng..snd rng} \<subseteq> {fst i..snd i}" if "within rng i"
    using that by (auto simp: within_def)
  ultimately show ?thesis by (fastforce simp: lines_of_def)
qed

lemma lines_of_cong: "set xs = set ys \<Longrightarrow> lines_of xs = lines_of ys"
  by (simp add: lines_of_def)

lemma sorted_wrt_pairs:
  "sorted_wrt P xs \<Longrightarrow> a \<in> set xs \<Longrightarrow> b \<in> set xs \<Longrightarrow> a = b \<or> P a b \<or> P b a"
  by (induction xs) auto

lemma merge_intervals_within:
  assumes "fst rng \<le> snd rng"
  shows "list_ex (within rng) (merge_intervals is) \<longleftrightarrow> {fst rng..snd rng} \<subseteq> lines_of is"
proof -
  let ?m = "rev (merge_intervals is)"
  have lines: "lines_of ?m = lines_of is"
    using merge_inv_intervals [of "is"] lines_of_cong [of "sort_key fst is" "is"]
    by (simp add: merge_inv_def)
  have gaps: "sorted_wrt gap ?m" using merge_inv_intervals by (simp add: merge_inv_def)
  have "\<exists>i \<in> set ?m. within rng i" if sub: "{fst rng..snd rng} \<subseteq> lines_of ?m"
  proof -
    from sub assms have "fst rng \<in> lines_of ?m" by auto
    then obtain i where i: "i \<in> set ?m" "fst i \<le> fst rng" "fst rng \<le> snd i"
      by (auto simp: lines_of_def)
    have "snd rng \<le> snd i"
    proof (rule ccontr)
      assume "\<not> snd rng \<le> snd i"
      then have "snd i + 1 \<in> lines_of ?m" using sub i by auto
      then obtain j where j: "j \<in> set ?m" "fst j \<le> snd i + 1" "snd i + 1 \<le> snd j"
        by (auto simp: lines_of_def)
      then show False using sorted_wrt_pairs [OF gaps i(1) j(1)] i by (auto simp: gap_def)
    qed
    with i show ?thesis by (auto simp: within_def)
  qed
  then show ?thesis using within_lines [of _ ?m rng] by (auto simp: list_ex_iff lines)
qed

lemma single_read_coverage_covered:
  "single_read_coverage cfg reads rng = Some c \<Longrightarrow> covered c"
  by (induction reads) (auto split: if_splits)

lemma single_read_coverage_None:
  "single_read_coverage cfg reads rng = None \<longleftrightarrow>
   (\<forall>r \<in> set reads. provisional r \<or> (\<not> within rng (read_interval cfg r) \<and> \<not> symbol_covers r rng))"
  by (induction reads) auto

text \<open>The lines the confirmed reads of a file grant.\<close>

definition granted_lines :: "guard_config \<Rightarrow> read_record list \<Rightarrow> int set" where
  "granted_lines cfg reads = lines_of (map (read_interval cfg) (filter (\<lambda>r. \<not> provisional r) reads))"

lemma within_granted:
  "r \<in> set reads \<Longrightarrow> \<not> provisional r \<Longrightarrow> within rng (read_interval cfg r) \<Longrightarrow>
   {fst rng..snd rng} \<subseteq> granted_lines cfg reads"
  unfolding granted_lines_def by (rule within_lines) auto

lemma check_coverage_iff:
  assumes "fst rng \<le> snd rng"
  shows "covered (check_coverage cfg reads rng) \<longleftrightarrow>
    {fst rng..snd rng} \<subseteq> granted_lines cfg reads
    \<or> (\<exists>r \<in> set reads. \<not> provisional r \<and> symbol_covers r rng)"
proof (cases "single_read_coverage cfg reads rng")
  case None
  then have "\<not> (\<exists>r \<in> set reads. \<not> provisional r \<and> symbol_covers r rng)"
    by (auto simp: single_read_coverage_None)
  then show ?thesis
    using None merge_intervals_within [OF assms] by (auto simp: check_coverage_def granted_lines_def)
next
  case (Some c)
  then have "\<exists>r \<in> set reads. \<not> provisional r \<and> (within rng (read_interval cfg r) \<or> symbol_covers r rng)"
    using single_read_coverage_None [of cfg reads rng] by auto
  then show ?thesis
    using Some single_read_coverage_covered [OF Some] within_granted [of _ reads rng cfg]
    by (auto simp: check_coverage_def)
qed

text \<open>C15 (equivalence): the two-pass coverage test with its sorted, merged intervals accepts an edit
  range exactly when every one of its lines lies in some confirmed read widened by the context
  lines, or one confirmed read's enclosing symbol holds the whole range.\<close>

theorem coverage_is_exact:
  assumes "s \<le> e"
  shows "covered (check_coverage cfg reads (s, e)) \<longleftrightarrow>
    (\<forall>n \<in> {s..e}. \<exists>r \<in> set reads. \<not> provisional r
        \<and> max 1 (effective_offset r - context_lines cfg) \<le> n
        \<and> n \<le> effective_offset r + effective_limit r - 1 + context_lines cfg)
    \<or> (\<exists>r \<in> set reads. \<not> provisional r \<and> (\<exists>sr. enclosing_symbol r = Some sr
        \<and> sym_start sr \<le> s \<and> e \<le> sym_end sr))"
proof -
  have "{s..e} \<subseteq> granted_lines cfg reads \<longleftrightarrow>
    (\<forall>n \<in> {s..e}. \<exists>r \<in> set reads. \<not> provisional r
        \<and> max 1 (effective_offset r - context_lines cfg) \<le> n
        \<and> n \<le> effective_offset r + effective_limit r - 1 + context_lines cfg)"
    by (auto simp: granted_lines_def lines_of_def read_interval_def subset_iff)
  then show ?thesis
    using assms check_coverage_iff [of "(s, e)" cfg reads]
    by (auto simp: symbol_covers_def split: option.splits)
qed

lemma coverage_is_exact_witness:
  "(1::int) \<le> 150 \<and> covered (check_coverage DEFAULT_CONFIG
     [\<lparr>rd_path = ''a'', requested_offset = 1, requested_limit = 100, effective_offset = 1,
       effective_limit = 100, expanded_by_lsp = False, enclosing_symbol = None, line_hashes = None,
       content_binding = None, search_credit = None, turn_index = 0, write_index = 0, timestamp = 0,
       rd_source = None, provisional = False\<rparr>,
      \<lparr>rd_path = ''a'', requested_offset = 101, requested_limit = 100, effective_offset = 101,
       effective_limit = 100, expanded_by_lsp = False, enclosing_symbol = None, line_hashes = None,
       content_binding = None, search_credit = None, turn_index = 0, write_index = 0, timestamp = 0,
       rd_source = None, provisional = False\<rparr>] (1, 150))"
  by (simp add: coverage_is_exact DEFAULT_CONFIG_def, auto)

subsection \<open>What the record cap drops\<close>

lemma nths_map_index: "nths xs A = map ((!) xs) (filter (\<lambda>i. i \<in> A) [0..<length xs])"
proof (induction xs rule: rev_induct)
  case Nil
  then show ?case by simp
next
  case (snoc x xs)
  then show ?case
    by (auto simp: nths_append nths_singleton nth_append intro!: map_cong)
qed

definition positions :: "('a \<Rightarrow> bool) \<Rightarrow> 'a list \<Rightarrow> nat list" where
  "positions P xs = filter (\<lambda>i. P (xs ! i)) [0..<length xs]"

lemma positions_Nil [simp]: "positions P [] = []"
  by (simp add: positions_def)

lemma upt_Suc_shift: "[0..<Suc n] = 0 # map Suc [0..<n]"
  by (simp add: upt_conv_Cons map_Suc_upt del: upt_Suc)

lemma positions_Cons [simp]:
  "positions P (x # xs) = (if P x then [0] else []) @ map Suc (positions P xs)"
  by (simp add: positions_def upt_Suc_shift filter_map o_def del: upt_Suc)

lemma distinct_positions [simp]: "distinct (positions P xs)"
  by (simp add: positions_def)

lemma positions_items: "map ((!) xs) (positions P xs) = filter P xs"
  by (induction xs) (auto simp: o_def)

abbreviation is_credit :: "read_record \<Rightarrow> bool" where
  "is_credit r \<equiv> search_credit r \<noteq> None"

lemma pick_credits_eq:
  "length picked \<le> excess \<Longrightarrow> pick_credits k rs excess picked =
     picked @ take (excess - length picked) (map ((+) k) (positions is_credit rs))"
proof (induction k rs excess picked rule: pick_credits.induct)
  case (1 i excess picked)
  then show ?case by simp
next
  case (2 k r rs excess picked)
  show ?case
  proof (cases "length picked < excess")
    case True
    then obtain d where d: "excess - length picked = Suc d" by (metis Suc_diff_Suc)
    then have "excess - Suc (length picked) = d" by simp
    with d True 2 show ?thesis by (cases "search_credit r") (auto simp: o_def take_map)
  next
    case False
    then show ?thesis using 2 by simp
  qed
qed

lemma pick_oldest_eq:
  "length picked \<le> excess \<Longrightarrow> (\<forall>i \<in> set picked. i < k \<or> i \<in> S) \<Longrightarrow> S \<subseteq> set picked \<Longrightarrow>
   pick_oldest k rs excess picked =
     picked @ take (excess - length picked) (filter (\<lambda>i. i \<notin> S) [k..<k + length rs])"
proof (induction k rs excess picked rule: pick_oldest.induct)
  case (1 i excess picked)
  then show ?case by simp
next
  case (2 k r rs excess picked)
  have idx: "[k..<Suc (k + length rs)] = k # [Suc k..<Suc (k + length rs)]"
    by (simp add: upt_conv_Cons del: upt_Suc)
  show ?case
  proof (cases "length picked < excess")
    case True
    then obtain d where d: "excess - length picked = Suc d" by (metis Suc_diff_Suc)
    have mem: "k \<in> set picked \<longleftrightarrow> k \<in> S" using "2.prems" by auto
    show ?thesis
    proof (cases "k \<in> S")
      case True
      have "\<forall>i \<in> set picked. i < Suc k \<or> i \<in> S" using "2.prems" by auto
      with True show ?thesis
        using 2 mem d \<open>length picked < excess\<close> by (simp add: idx del: upt_Suc)
    next
      case False
      have "pick_oldest (Suc k) rs excess (picked @ [k]) =
          (picked @ [k]) @ take (excess - length (picked @ [k])) (filter (\<lambda>i. i \<notin> S) [Suc k..<Suc k + length rs])"
        if "\<forall>i \<in> set (picked @ [k]). i < Suc k \<or> i \<in> S" "S \<subseteq> set (picked @ [k])"
        using that 2 mem False \<open>length picked < excess\<close> by (simp del: upt_Suc)
      moreover have "\<forall>i \<in> set (picked @ [k]). i < Suc k \<or> i \<in> S" "S \<subseteq> set (picked @ [k])"
        using "2.prems" by auto
      moreover have "excess - Suc (length picked) = d" using d by simp
      ultimately show ?thesis
        using mem d False \<open>length picked < excess\<close> by (simp add: idx del: upt_Suc)
    qed
  next
    case False
    then show ?thesis using 2 by simp
  qed
qed

text \<open>
  The positions dropped: the oldest credits, and when those do not make up the excess, every credit
  and the oldest genuine reads.
\<close>

lemma filter_nths:
  "filter P (nths xs A) = map ((!) xs) (filter (\<lambda>i. i \<in> A) (positions P xs))"
  by (simp add: nths_map_index positions_def filter_map o_def conj_commute)

lemma filter_not_in_take:
  "distinct xs \<Longrightarrow> filter (\<lambda>i. i \<notin> set (take n xs)) xs = drop n xs"
proof -
  assume d: "distinct xs"
  have "filter (\<lambda>i. i \<notin> set (take n xs)) (take n xs) = []" by (simp add: filter_empty_conv)
  moreover have "filter (\<lambda>i. i \<notin> set (take n xs)) (drop n xs) = drop n xs"
    using set_take_disj_set_drop_if_distinct [OF d, of n n] by (auto simp: filter_id_conv)
  ultimately show ?thesis by (metis append_Nil append_take_drop_id filter_append)
qed

lemma positions_split:
  "set (positions P xs) \<inter> set (positions (\<lambda>x. \<not> P x) xs) = {}"
  "set (positions P xs) \<union> set (positions (\<lambda>x. \<not> P x) xs) = {..<length xs}"
  by (auto simp: positions_def)

definition cap_credits :: "read_record list \<Rightarrow> nat" where
  "cap_credits rs = min (length (filter is_credit rs)) (length rs - READ_GUARD_MAX_RECORDS_PER_FILE)"

definition cap_genuine :: "read_record list \<Rightarrow> nat" where
  "cap_genuine rs = length rs - READ_GUARD_MAX_RECORDS_PER_FILE - cap_credits rs"

lemma length_positions: "length (positions P xs) = length (filter P xs)"
  using arg_cong [OF positions_items [of xs P], of length] by simp

lemma evicted_positions:
  assumes "READ_GUARD_MAX_RECORDS_PER_FILE < length rs"
  defines "excess \<equiv> length rs - READ_GUARD_MAX_RECORDS_PER_FILE"
  shows "pick_oldest 0 rs excess (pick_credits 0 rs excess []) =
    take (cap_credits rs) (positions is_credit rs)
    @ take (cap_genuine rs) (positions (\<lambda>r. \<not> is_credit r) rs)"
proof -
  let ?c = "take excess (positions is_credit rs)"
  have credits: "pick_credits 0 rs excess [] = ?c"
    using pick_credits_eq [of "[]" excess 0 rs] by (simp add: map_idI)
  have c: "?c = take (cap_credits rs) (positions is_credit rs)"
    by (simp add: cap_credits_def excess_def min_def length_positions)
  have len: "length ?c = cap_credits rs"
    by (simp add: cap_credits_def excess_def length_positions)
  have step: "pick_oldest 0 rs excess ?c =
      ?c @ take (excess - cap_credits rs) (filter (\<lambda>i. i \<notin> set ?c) [0..<length rs])"
    using pick_oldest_eq [of ?c excess 0 "set ?c" rs] len by (simp add: cap_credits_def excess_def)
  have g: "excess - cap_credits rs = cap_genuine rs" by (simp add: cap_genuine_def excess_def)
  show ?thesis
  proof (cases "cap_genuine rs = 0")
    case True
    then show ?thesis using credits step c g by simp
  next
    case False
    then have "length (positions is_credit rs) \<le> excess"
      using g by (auto simp: cap_credits_def excess_def length_positions)
    then have all: "?c = positions is_credit rs" by simp
    have "filter (\<lambda>i. i \<notin> set ?c) [0..<length rs] = positions (\<lambda>r. \<not> is_credit r) rs"
      unfolding all by (auto simp: positions_def intro!: filter_cong)
    then show ?thesis using credits step c g by simp
  qed
qed

lemma dropped_positions:
  "filter (\<lambda>i. i \<notin> set (take c (positions P rs)) \<union> set (take g (positions (\<lambda>x. \<not> P x) rs)))
     (positions P rs) = drop c (positions P rs)"
  "filter (\<lambda>i. i \<notin> set (take c (positions P rs)) \<union> set (take g (positions (\<lambda>x. \<not> P x) rs)))
     (positions (\<lambda>x. \<not> P x) rs) = drop g (positions (\<lambda>x. \<not> P x) rs)"
proof -
  let ?p = "positions P rs" and ?q = "positions (\<lambda>x. \<not> P x) rs"
  have sub: "set (take c ?p) \<subseteq> set ?p" "set (take g ?q) \<subseteq> set ?q" by (simp_all add: set_take_subset)
  have "filter (\<lambda>i. i \<notin> set (take c ?p) \<union> set (take g ?q)) ?p = filter (\<lambda>i. i \<notin> set (take c ?p)) ?p"
    using sub positions_split(1) [of P rs] by (intro filter_cong) auto
  then show "filter (\<lambda>i. i \<notin> set (take c ?p) \<union> set (take g ?q)) ?p = drop c ?p"
    by (simp add: filter_not_in_take)
  have "filter (\<lambda>i. i \<notin> set (take c ?p) \<union> set (take g ?q)) ?q = filter (\<lambda>i. i \<notin> set (take g ?q)) ?q"
    using sub positions_split(1) [of P rs] by (intro filter_cong) auto
  then show "filter (\<lambda>i. i \<notin> set (take c ?p) \<union> set (take g ?q)) ?q = drop g ?q"
    by (simp add: filter_not_in_take)
qed

lemma record_cap_kept:
  assumes "READ_GUARD_MAX_RECORDS_PER_FILE < length rs"
  shows "filter is_credit (snd (enforce_record_cap_for_file rs)) = drop (cap_credits rs) (filter is_credit rs)"
    and "filter (\<lambda>r. \<not> is_credit r) (snd (enforce_record_cap_for_file rs)) =
      drop (cap_genuine rs) (filter (\<lambda>r. \<not> is_credit r) rs)"
    and "fst (enforce_record_cap_for_file rs) =
      \<lparr>evicted_count = int (length rs - READ_GUARD_MAX_RECORDS_PER_FILE),
       evicted_credit_count = int (cap_credits rs), evicted_genuine_count = int (cap_genuine rs)\<rparr>"
proof -
  let ?excess = "length rs - READ_GUARD_MAX_RECORDS_PER_FILE"
  let ?p = "positions is_credit rs" and ?q = "positions (\<lambda>r. \<not> is_credit r) rs"
  have kept: "snd (enforce_record_cap_for_file rs) =
      nths rs {i. i \<notin> set (take (cap_credits rs) ?p) \<union> set (take (cap_genuine rs) ?q)}"
    using assms evicted_positions [OF assms]
    by (simp add: enforce_record_cap_for_file_def Let_def Compl_eq)
  show "filter is_credit (snd (enforce_record_cap_for_file rs)) = drop (cap_credits rs) (filter is_credit rs)"
    unfolding kept filter_nths mem_Collect_eq dropped_positions(1)
    by (simp only: drop_map [symmetric] positions_items)
  show "filter (\<lambda>r. \<not> is_credit r) (snd (enforce_record_cap_for_file rs)) =
      drop (cap_genuine rs) (filter (\<lambda>r. \<not> is_credit r) rs)"
    unfolding kept filter_nths mem_Collect_eq dropped_positions(2)
    by (simp only: drop_map [symmetric] positions_items)
  have "length (pick_credits 0 rs ?excess []) = cap_credits rs"
    using pick_credits_eq [of "[]" ?excess 0 rs] by (simp add: cap_credits_def length_positions)
  then show "fst (enforce_record_cap_for_file rs) =
      \<lparr>evicted_count = int ?excess, evicted_credit_count = int (cap_credits rs),
       evicted_genuine_count = int (cap_genuine rs)\<rparr>"
    using assms
    by (simp add: enforce_record_cap_for_file_def Let_def cap_genuine_def cap_credits_def)
qed

lemma record_cap_subset: "set (snd (enforce_record_cap_for_file rs)) \<subseteq> set rs"
  by (auto simp: enforce_record_cap_for_file_def Let_def dest: in_set_nthsD)

lemma record_cap_length:
  "length (snd (enforce_record_cap_for_file rs)) = min (length rs) READ_GUARD_MAX_RECORDS_PER_FILE"
proof (cases "READ_GUARD_MAX_RECORDS_PER_FILE < length rs")
  case False
  then show ?thesis by (simp add: enforce_record_cap_for_file_def)
next
  case True
  let ?k = "snd (enforce_record_cap_for_file rs)"
  have "length ?k = length (filter is_credit ?k) + length (filter (\<lambda>r. \<not> is_credit r) ?k)"
    by (rule sum_length_filter_compl [symmetric])
  moreover have "length rs = length (filter is_credit rs) + length (filter (\<lambda>r. \<not> is_credit r) rs)"
    by (rule sum_length_filter_compl [symmetric])
  ultimately show ?thesis
    using True unfolding record_cap_kept(1,2) [OF True]
    by (auto simp: cap_genuine_def cap_credits_def)
qed

text \<open>Past the per-file cap the guard keeps exactly the cap's number of records, spends
  search credits before genuine reads and the oldest of each kind first, and reports the split; a
  genuine read is dropped only when no credit is left.\<close>

theorem record_cap_spends_credits_first:
  "length (snd (enforce_record_cap_for_file rs)) = min (length rs) READ_GUARD_MAX_RECORDS_PER_FILE
   \<and> (\<exists>c g. filter is_credit (snd (enforce_record_cap_for_file rs)) = drop c (filter is_credit rs)
        \<and> filter (\<lambda>r. \<not> is_credit r) (snd (enforce_record_cap_for_file rs)) =
            drop g (filter (\<lambda>r. \<not> is_credit r) rs)
        \<and> evicted_credit_count (fst (enforce_record_cap_for_file rs)) = int c
        \<and> evicted_genuine_count (fst (enforce_record_cap_for_file rs)) = int g
        \<and> (g = 0 \<or> filter is_credit (snd (enforce_record_cap_for_file rs)) = []))"
proof (cases "READ_GUARD_MAX_RECORDS_PER_FILE < length rs")
  case False
  then have "enforce_record_cap_for_file rs = (NO_TRIM, rs)"
    by (simp add: enforce_record_cap_for_file_def)
  then show ?thesis
    using False by (intro conjI exI [of _ 0]) (simp_all add: NO_TRIM_def)
next
  case True
  have "cap_genuine rs = 0 \<or> drop (cap_credits rs) (filter is_credit rs) = []"
    by (auto simp: cap_genuine_def cap_credits_def)
  then show ?thesis
    using record_cap_length record_cap_kept [OF True]
    by (intro conjI exI [of _ "cap_credits rs"] exI [of _ "cap_genuine rs"]) simp_all
qed

subsection \<open>Relocation is content-verified\<close>

text \<open>The hashes of \<open>wanted\<close> appear in \<open>current\<close> from the 1-based line \<open>t\<close> on.\<close>

definition occurs_at :: "string list \<Rightarrow> string list \<Rightarrow> int \<Rightarrow> bool" where
  "occurs_at current wanted t \<longleftrightarrow>
     1 \<le> t \<and> t + int (length wanted) - 1 \<le> int (length current)
     \<and> (\<forall>k < length wanted. current ! (nat (t - 1) + k) = wanted ! k)"

lemma take_drop_eq_iff:
  assumes "i + length w \<le> length xs"
  shows "take (length w) (drop i xs) = w \<longleftrightarrow> (\<forall>k < length w. xs ! (i + k) = w ! k)"
proof
  assume "take (length w) (drop i xs) = w"
  then show "\<forall>k < length w. xs ! (i + k) = w ! k"
    using assms by (metis add_leD1 nth_drop nth_take)
next
  assume "\<forall>k < length w. xs ! (i + k) = w ! k"
  then show "take (length w) (drop i xs) = w"
    using assms by (intro nth_equalityI) auto
qed

lemma match_starts_iff:
  "t \<in> set (match_starts current wanted) \<longleftrightarrow> occurs_at current wanted t"
proof
  assume "t \<in> set (match_starts current wanted)"
  then have "\<exists>i. i + length wanted \<le> length current \<and> take (length wanted) (drop i current) = wanted
      \<and> t = int i + 1"
    by (force simp: match_starts_def split: if_splits)
  then obtain i where i: "i + length wanted \<le> length current"
      "take (length wanted) (drop i current) = wanted" "t = int i + 1"
    by blast
  then show "occurs_at current wanted t"
    using take_drop_eq_iff [OF i(1)] by (simp add: occurs_at_def)
next
  assume o: "occurs_at current wanted t"
  define i where "i = nat (t - 1)"
  have i: "t = int i + 1" "i + length wanted \<le> length current"
    using o by (auto simp: occurs_at_def i_def)
  then have "take (length wanted) (drop i current) = wanted"
    using o take_drop_eq_iff [OF i(2)] by (simp add: occurs_at_def)
  then have "i \<in> set (filter (\<lambda>i. take (length wanted) (drop i current) = wanted)
      [0..<length current - length wanted + 1])"
    using i(2) by (simp only: set_filter set_upt mem_Collect_eq) simp
  then show "t \<in> set (match_starts current wanted)"
    using i by (simp only: match_starts_def if_True set_map) (auto intro!: image_eqI [of _ _ i])
qed

lemma find_SomeD: "find P xs = Some x \<Longrightarrow> x \<in> set xs \<and> P x"
  by (auto simp: find_Some_iff)

lemma wanted_hashes_Some:
  assumes "wanted_hashes reads rng = Some wanted"
  obtains r where "r \<in> set reads" "list_all (\<lambda>n. hash_at r n \<noteq> None) [fst rng..snd rng]"
    "wanted = map (\<lambda>n. the (hash_at r n)) [fst rng..snd rng]"
proof -
  let ?P = "\<lambda>r. line_hashes r \<noteq> None \<and> list_all (\<lambda>n. hash_at r n \<noteq> None) [fst rng..snd rng]"
  obtain r where r: "find ?P (rev reads) = Some r" "wanted = map (\<lambda>n. the (hash_at r n)) [fst rng..snd rng]"
    using assms by (auto simp: wanted_hashes_def split: option.splits)
  have "r \<in> set (rev reads) \<and> ?P r" by (rule find_SomeD [OF r(1)])
  then show thesis by (intro that [of r] r(2)) simp_all
qed

lemma unique_start:
  assumes "xs = [t] \<or> filter P xs = [t]"
  shows "t \<in> set xs" and "\<forall>u. P u \<and> u \<in> set xs \<longrightarrow> u = t"
proof -
  have f: "filter P xs = [t] \<Longrightarrow> {u \<in> set xs. P u} = {t}"
    by (drule arg_cong [where f = set]) simp
  show "t \<in> set xs" "\<forall>u. P u \<and> u \<in> set xs \<longrightarrow> u = t"
    using assms f by auto
qed

text \<open>C16 (safety): a relocation the guard offers is content-verified. Some recorded read holds a hash for
  every line of the original range, the same hashes stand in the same order at the new range, which
  lies inside the file, and the new range is the only place within the search window where they do.\<close>

theorem relocation_is_verified:
  assumes "find_relocation tun lines reads edits (s, e) = Some rel"
  shows "\<exists>ls r t. lines = Some ls \<and> r \<in> set reads \<and> rel = \<lparr>moved_from = (s, e), moved_to = (t, t + (e - s))\<rparr>
    \<and> s < e \<and> t \<noteq> s \<and> 1 \<le> t \<and> t + (e - s) \<le> int (length ls)
    \<and> (\<forall>k \<in> {0..e - s}. hash_at r (s + k) = Some (line_content_hash (ls ! nat (t + k - 1))))
    \<and> (\<forall>u. s - relocation_window tun edits \<le> u \<and> u \<le> e + relocation_window tun edits
          \<and> occurs_at (map line_content_hash ls) (map (\<lambda>n. the (hash_at r n)) [s..e]) u \<longrightarrow> u = t)"
proof -
  have span: "s < e" using assms by (auto simp: find_relocation_def Let_def split: if_splits)
  obtain wanted ls where w: "wanted_hashes reads (s, e) = Some wanted" and ls: "lines = Some ls"
    using assms span by (auto simp: find_relocation_def Let_def split: option.splits)
  obtain r where r: "r \<in> set reads" "list_all (\<lambda>n. hash_at r n \<noteq> None) [s..e]"
      "wanted = map (\<lambda>n. the (hash_at r n)) [s..e]"
    using wanted_hashes_Some [OF w] by auto
  let ?cur = "map line_content_hash ls"
  let ?P = "\<lambda>i. s - relocation_window tun edits \<le> i \<and> i \<le> e + relocation_window tun edits"
  obtain t where t: "match_starts ?cur wanted = [t] \<or> filter ?P (match_starts ?cur wanted) = [t]"
      and ts: "t \<noteq> s" and rel: "rel = \<lparr>moved_from = (s, e), moved_to = (t, t + (e - s + 1) - 1)\<rparr>"
    using assms span
    by (auto simp: find_relocation_def Let_def w ls split: list.splits option.splits if_splits)
  from t have mem: "t \<in> set (match_starts ?cur wanted)"
      "\<forall>u. ?P u \<and> u \<in> set (match_starts ?cur wanted) \<longrightarrow> u = t"
    by (rule unique_start)+
  have occ: "occurs_at ?cur wanted t" and uniq: "\<forall>u. ?P u \<and> occurs_at ?cur wanted u \<longrightarrow> u = t"
    using mem by (simp_all only: match_starts_iff)
  have len: "length wanted = nat (e - s + 1)" by (simp add: r(3))
  have eq: "hash_at r (s + k) = Some (line_content_hash (ls ! nat (t + k - 1)))" if k: "k \<in> {0..e - s}" for k
  proof -
    have "?cur ! (nat (t - 1) + nat k) = wanted ! nat k"
      using occ k len by (simp add: occurs_at_def)
    moreover have "wanted ! nat k = the (hash_at r (s + k))" using k by (simp add: r(3) nth_upto)
    moreover have "hash_at r (s + k) \<noteq> None" using r(2) k by (auto simp: list_all_iff)
    moreover have "nat (t - 1) + nat k = nat (t + k - 1)" "nat (t + k - 1) < length ls"
      using occ k len by (auto simp: occurs_at_def)
    ultimately show ?thesis by (auto simp: nth_map)
  qed
  have "1 \<le> t" "t + (e - s) \<le> int (length ls)"
    using occ len span by (simp_all add: occurs_at_def)
  moreover have "rel = \<lparr>moved_from = (s, e), moved_to = (t, t + (e - s))\<rparr>" using rel by simp
  ultimately show ?thesis
    using span ts ls r(1) uniq eq unfolding r(3) by blast
qed

text \<open>The witness: two lines read as lines 1 and 2 now stand below an inserted line.\<close>

lemma sample_hashes:
  "line_content_hash [] = ''811c9dc5''" "line_content_hash ''a'' = ''e40c292c''"
  "line_content_hash ''b'' = ''e70c2de5''"
  by code_simp+

definition shifted_read :: read_record where
  "shifted_read =
     \<lparr>rd_path = ''f'', requested_offset = 1, requested_limit = 2, effective_offset = 1,
      effective_limit = 2, expanded_by_lsp = False, enclosing_symbol = None,
      line_hashes = Some [(1, ''e40c292c''), (2, ''e70c2de5'')],
      content_binding = None, search_credit = None, turn_index = 0, write_index = 0, timestamp = 0,
      rd_source = None, provisional = False\<rparr>"

lemma shifted_relocation:
  "find_relocation (tuning_of (\<lambda>_. None)) (Some [[], ''a'', ''b''])
     [shifted_read] 0 (1, 2) = Some \<lparr>moved_from = (1, 2), moved_to = (2, 3)\<rparr>"
  by (simp add: find_relocation_def wanted_hashes_def shifted_read_def hash_at_def match_starts_def
      sample_hashes upto.simps upt_rec)

lemma relocation_is_verified_witness:
  "\<exists>ls r t. Some [[], ''a'', ''b''] = Some ls \<and> r \<in> set [shifted_read]
    \<and> \<lparr>moved_from = (1, 2), moved_to = (2, 3)\<rparr> = \<lparr>moved_from = (1, 2), moved_to = (t, t + (2 - 1))\<rparr>
    \<and> (1::int) < 2 \<and> t \<noteq> 1 \<and> 1 \<le> t \<and> t + (2 - 1) \<le> int (length ls)
    \<and> (\<forall>k \<in> {0..2 - 1}. hash_at r (1 + k) = Some (line_content_hash (ls ! nat (t + k - 1))))
    \<and> (\<forall>u. 1 - relocation_window (tuning_of (\<lambda>_. None)) 0 \<le> u
          \<and> u \<le> 2 + relocation_window (tuning_of (\<lambda>_. None)) 0
          \<and> occurs_at (map line_content_hash ls) (map (\<lambda>n. the (hash_at r n)) [1..2]) u \<longrightarrow> u = t)"
  by (rule relocation_is_verified [OF shifted_relocation])

end
