(* ===== verification/Read_Guard.thy ===== *)
theory Read_Guard
  imports Read_Guard_Ranges Path_Keys
begin

text \<open>
  The class \<^verbatim>\<open>ReadGuard\<close> of \<^verbatim>\<open>clients/read-guard.ts\<close>: its state and every operation.

  The read arrays are objects: an edit record keeps a reference to the live array of its file, which
  later reads push to and trim in place.  They live in the store \<open>rg_arrays\<close>, and \<open>rg_reads\<close> maps a
  key to the address of its array.  A \<^verbatim>\<open>Set\<close> that is only tested is a set, one that is enumerated
  is a list in insertion order.  One operation reads the clock, the disk and the environment
  once: they are the record \<open>guard_env\<close>, with the digest and the regular-expression matcher.  Log
  lines are left out; the calls that count a degradation append to \<open>rg_ledger\<close>.
\<close>

subsection \<open>State\<close>

datatype verdict_action = Allow_Edit | Block_Edit | Warn_Edit

datatype edit_verdict = Edit_Allowed | Edit_Blocked | Edit_Warned

text \<open>
  A verdict's reason is a message; its constituents stand for the rendered text.
\<close>

datatype message =
    Msg_Zero_Read path
  | Msg_Binding_Modified path int
  | Msg_File_Modified path int
  | Msg_Out_Of_Range path int int "(string \<times> string) option" range
  | Msg_Range_Stale path range "relocation option"

record edit_record =
  ed_path :: path
  ed_tool :: string
  ed_touched :: range
  ed_preceding :: "nat option"
  ed_verdict :: edit_verdict
  ed_reason :: "message option"
  ed_timestamp :: int

record snapshot_detail =
  sd_status :: snapshot_status
  sd_mismatched :: "int list"
  sd_missing :: "int list"

record verdict_details =
  vd_edit_range :: range
  vd_read_ranges :: "range list"
  vd_symbol_ranges :: "(string \<times> int \<times> int) list"
  vd_snapshot :: "snapshot_detail option"
  vd_relocation :: "relocation option"

record verdict =
  v_action :: verdict_action
  v_reason :: "message option"
  v_details :: "verdict_details option"
  v_relocation :: "relocation option"

record trim_stats =
  total_evicted :: int
  evicted_credits :: int
  evicted_genuine :: int
  trim_events :: int

datatype eviction_reason = File_Cap_Consumed | File_Cap_Unconsumed | Idle_Timeout | External_Delete

datatype degradation =
    File_Evicted path eviction_reason
  | Record_Cap_Trim path
  | Edits_Cap_Trim path

record idle_timer =
  tm_stamp :: int
  tm_due :: int
  tm_pending :: bool

record guard_state =
  rg_config :: guard_config
  rg_arrays :: "read_record list list"
  rg_reads :: "(path, nat) js_map"
  rg_edits :: "(path, edit_record list) js_map"
  rg_last_used :: "(path, int) js_map"
  rg_timers :: "(path, idle_timer) js_map"
  rg_consumed :: "path set"
  rg_file_time :: file_time_state
  rg_exemptions :: "path set"
  rg_pending_creations :: "(path, int \<times> int) js_map"
  rg_written :: "path list"
  rg_unchanged :: "path set"
  rg_known :: "(path, path) js_map"
  rg_trims :: "(path, trim_stats) js_map"
  rg_session :: string
  rg_session_start :: int
  rg_ledger :: "degradation list"

record guard_env =
  env_now :: int
  env_disk :: disk
  env_host :: host
  env_tuning :: guard_tuning
  env_digest :: "string \<Rightarrow> string"
  env_regex :: "string \<Rightarrow> string \<Rightarrow> bool"

definition new_read_guard :: "guard_env \<Rightarrow> string \<Rightarrow> guard_config \<Rightarrow> file_time_state \<Rightarrow> guard_state" where
  "new_read_guard env sid cfg ft =
     \<lparr>rg_config = cfg, rg_arrays = [], rg_reads = [], rg_edits = [], rg_last_used = [],
      rg_timers = [], rg_consumed = {}, rg_file_time = ft, rg_exemptions = {},
      rg_pending_creations = [], rg_written = [], rg_unchanged = {}, rg_known = [], rg_trims = [],
      rg_session = sid, rg_session_start = env_now env, rg_ledger = []\<rparr>"

definition guard_key :: "guard_env \<Rightarrow> path \<Rightarrow> path" where
  "guard_key env p = normalize_file_path (env_host env) p"

definition loose_key :: "guard_env \<Rightarrow> path \<Rightarrow> path" where
  "loose_key env p = normalize_ephemeral_map_key (env_host env) p"

definition file_lines :: "guard_env \<Rightarrow> path \<Rightarrow> string list option" where
  "file_lines env p = map_option (\<lambda>f. split_lines (file_text f)) (env_disk env p)"

definition resolve_path :: "guard_env \<Rightarrow> path \<Rightarrow> path" where
  "resolve_path env p =
     (let r = path_resolve (env_host env) p
      in root r @ join_with (host_sep (env_host env)) (segs r))"

definition reads_of :: "guard_state \<Rightarrow> path \<Rightarrow> read_record list" where
  "reads_of st p = (case map_of (rg_reads st) p of None \<Rightarrow> [] | Some a \<Rightarrow> rg_arrays st ! a)"

definition edits_of :: "guard_state \<Rightarrow> path \<Rightarrow> edit_record list" where
  "edits_of st p = (case map_of (rg_edits st) p of None \<Rightarrow> [] | Some es \<Rightarrow> es)"

text \<open>The reads an edit record sees through its reference.\<close>

definition preceding_reads :: "guard_state \<Rightarrow> edit_record \<Rightarrow> read_record list" where
  "preceding_reads st e = (case ed_preceding e of None \<Rightarrow> [] | Some a \<Rightarrow> rg_arrays st ! a)"

definition touch_file_time :: "guard_env \<Rightarrow> path \<Rightarrow> guard_state \<Rightarrow> guard_state" where
  "touch_file_time env p st =
     st\<lparr>rg_file_time := snd (file_time_read (resolve_path env) (env_now env) (env_disk env)
         (rg_session st) p (rg_file_time st))\<rparr>"

definition file_changed :: "guard_env \<Rightarrow> path \<Rightarrow> guard_state \<Rightarrow> bool" where
  "file_changed env p st =
     file_time_has_changed (resolve_path env) (env_now env) (env_disk env) (rg_session st) p
       (rg_file_time st)"

subsection \<open>Eviction\<close>

definition clear_file_timer :: "path \<Rightarrow> guard_state \<Rightarrow> guard_state" where
  "clear_file_timer p st = st\<lparr>rg_timers := AList.delete p (rg_timers st)\<rparr>"

definition evict_file :: "eviction_reason \<Rightarrow> path \<Rightarrow> guard_state \<Rightarrow> guard_state" where
  "evict_file reason p st0 =
     (let st = clear_file_timer p st0;
          st1 = st\<lparr>rg_reads := AList.delete p (rg_reads st),
                   rg_edits := AList.delete p (rg_edits st),
                   rg_last_used := AList.delete p (rg_last_used st),
                   rg_consumed := rg_consumed st - {p},
                   rg_written := removeAll p (rg_written st),
                   rg_known := filter (\<lambda>e. snd e \<noteq> p) (rg_known st)\<rparr>
      in if reason = Idle_Timeout then st1
         else st1\<lparr>rg_ledger := rg_ledger st1 @ [File_Evicted p reason]\<rparr>)"

definition outstanding :: "guard_state \<Rightarrow> path \<Rightarrow> bool" where
  "outstanding st p \<longleftrightarrow> has_key (rg_reads st) p \<and> p \<notin> rg_consumed st"

definition touch_file :: "guard_env \<Rightarrow> path \<Rightarrow> guard_state \<Rightarrow> guard_state" where
  "touch_file env p st0 =
     (let now = env_now env;
          st = clear_file_timer p (st0\<lparr>rg_last_used := AList.update p now (rg_last_used st0)\<rparr>)
      in if outstanding st p then st
         else st\<lparr>rg_timers := AList.update p
                  \<lparr>tm_stamp = now, tm_due = now + idle_evict_ms (env_tuning env), tm_pending = True\<rparr>
                  (rg_timers st)\<rparr>)"

text \<open>The callback of the idle timer of \<open>p\<close>, which runs once, when the timer is due.\<close>

definition fire_idle_timer :: "guard_env \<Rightarrow> path \<Rightarrow> guard_state \<Rightarrow> guard_state" where
  "fire_idle_timer env p st =
     (case map_of (rg_timers st) p of
        None \<Rightarrow> st
      | Some t \<Rightarrow>
          if \<not> tm_pending t \<or> env_now env < tm_due t then st
          else
            let st1 = st\<lparr>rg_timers := AList.update p (t\<lparr>tm_pending := False\<rparr>) (rg_timers st)\<rparr>
            in if map_of (rg_last_used st1) p \<noteq> Some (tm_stamp t) then st1
               else if outstanding st1 p then st1
               else evict_file Idle_Timeout p st1)"

definition last_use :: "guard_state \<Rightarrow> path \<Rightarrow> int" where
  "last_use st p = (case map_of (rg_last_used st) p of None \<Rightarrow> 0 | Some t \<Rightarrow> t)"

definition cap_victims :: "bool \<Rightarrow> guard_state \<Rightarrow> path list" where
  "cap_victims consumed st =
     sort_key (last_use st) (filter (\<lambda>p. (p \<in> rg_consumed st) = consumed) (keys_of (rg_reads st)))"

text \<open>A loop of \<^verbatim>\<open>enforceFileCap\<close>; it also stops at a falsy victim, the empty path.\<close>

lemma evict_shrinks:
  "p \<in> set (keys_of (rg_reads st)) \<Longrightarrow> length (rg_reads (evict_file reason p st)) < length (rg_reads st)"
proof -
  assume p: "p \<in> set (keys_of (rg_reads st))"
  have "length (AList.delete p (rg_reads st)) = length (filter (\<lambda>x. x \<noteq> p) (keys_of (rg_reads st)))"
    using arg_cong [OF keys_delete [of p "rg_reads st"], of length] by simp
  also have "\<dots> < length (keys_of (rg_reads st))" using p by (intro length_filter_less) auto
  finally show ?thesis by (simp add: evict_file_def clear_file_timer_def Let_def)
qed

lemma cap_victim_key: "cap_victims consumed st = p # ps \<Longrightarrow> p \<in> set (keys_of (rg_reads st))"
proof -
  assume "cap_victims consumed st = p # ps"
  then have "p \<in> set (cap_victims consumed st)" by simp
  then show ?thesis by (simp add: cap_victims_def)
qed

function cap_loop :: "bool \<Rightarrow> eviction_reason \<Rightarrow> nat \<Rightarrow> guard_state \<Rightarrow> guard_state" where
  "cap_loop consumed reason cap st =
     (if length (rg_reads st) > cap then
        (case cap_victims consumed st of
           [] \<Rightarrow> st
         | p # _ \<Rightarrow> if p = [] then st else cap_loop consumed reason cap (evict_file reason p st))
      else st)"
  by pat_completeness auto
termination
  by (relation "measure (\<lambda>(_, _, _, st). length (rg_reads st))")
    (auto intro!: evict_shrinks dest!: cap_victim_key)

declare cap_loop.simps [simp del]

definition enforce_file_cap :: "guard_state \<Rightarrow> guard_state" where
  "enforce_file_cap st =
     cap_loop False File_Cap_Unconsumed READ_GUARD_MAX_UNCONSUMED_FILES
       (cap_loop True File_Cap_Consumed READ_GUARD_MAX_FILES st)"

subsection \<open>Recording reads\<close>

text \<open>\<^verbatim>\<open>splice\<close> of the first record the delivered read supersedes.\<close>

definition provisional_source :: "string \<Rightarrow> string" where
  "provisional_source tool_call = ''native-read:'' @ tool_call @ '':provisional''"

fun remove_first :: "('a \<Rightarrow> bool) \<Rightarrow> 'a list \<Rightarrow> 'a list" where
  "remove_first P [] = []"
| "remove_first P (x # xs) = (if P x then xs else x # remove_first P xs)"

definition supersede :: "string option \<Rightarrow> path \<Rightarrow> guard_state \<Rightarrow> guard_state" where
  "supersede tool_call p st =
     (case tool_call of
        None \<Rightarrow> st
      | Some c \<Rightarrow>
          (case map_of (rg_reads st) p of
             None \<Rightarrow> st
           | Some a \<Rightarrow>
               st\<lparr>rg_arrays := (rg_arrays st)[a :=
                    remove_first (\<lambda>r. rd_source r = Some (provisional_source c)) (rg_arrays st ! a)]\<rparr>))"

definition stored_read :: "guard_env \<Rightarrow> path \<Rightarrow> read_record \<Rightarrow> read_record" where
  "stored_read env p r =
     r\<lparr>rd_path := p,
       line_hashes :=
         (case line_hashes r of
            Some hs \<Rightarrow> Some hs
          | None \<Rightarrow> capture_line_hashes (env_tuning env) (file_lines env p) (effective_offset r)
                     (effective_limit r))\<rparr>"

text \<open>The file's array, a fresh one when there is none, with the read pushed; the trim is in place.\<close>

definition push_read :: "path \<Rightarrow> read_record \<Rightarrow> guard_state \<Rightarrow> cap_trim \<times> guard_state" where
  "push_read p r st =
     (let (a, arrays) = (case map_of (rg_reads st) p of
                           Some a \<Rightarrow> (a, rg_arrays st)
                         | None \<Rightarrow> (length (rg_arrays st), rg_arrays st @ [[]]));
          (trim, kept) = enforce_record_cap_for_file (arrays ! a @ [r])
      in (trim, st\<lparr>rg_consumed := rg_consumed st - {p}, rg_arrays := arrays[a := kept],
                   rg_reads := AList.update p a (rg_reads st)\<rparr>))"

definition NO_TRIM_STATS :: trim_stats where
  "NO_TRIM_STATS = \<lparr>total_evicted = 0, evicted_credits = 0, evicted_genuine = 0, trim_events = 0\<rparr>"

definition note_trim :: "path \<Rightarrow> cap_trim \<Rightarrow> guard_state \<Rightarrow> guard_state" where
  "note_trim p t st =
     (if evicted_count t > 0 then
        let acc = (case map_of (rg_trims st) p of None \<Rightarrow> NO_TRIM_STATS | Some s \<Rightarrow> s);
            acc' = \<lparr>total_evicted = total_evicted acc + evicted_count t,
                    evicted_credits = evicted_credits acc + evicted_credit_count t,
                    evicted_genuine = evicted_genuine acc + evicted_genuine_count t,
                    trim_events = trim_events acc + 1\<rparr>
        in st\<lparr>rg_trims := AList.update p acc' (rg_trims st),
              rg_ledger := rg_ledger st @ [Record_Cap_Trim p]\<rparr>
      else st)"

definition record_read :: "guard_env \<Rightarrow> read_record \<Rightarrow> string option \<Rightarrow> guard_state \<Rightarrow> guard_state" where
  "record_read env r supersedes st =
     (let p = guard_key env (rd_path r);
          st1 = supersede supersedes p st;
          st2 = st1\<lparr>rg_known := AList.update (loose_key env (rd_path r)) p (rg_known st1)\<rparr>;
          (trim, st3) = push_read p (stored_read env p r) st2;
          st4 = enforce_file_cap (touch_file env p st3)
      in touch_file_time env p (note_trim p trim st4))"

definition record_symbol_read ::
    "guard_env \<Rightarrow> path \<Rightarrow> symbol_range \<Rightarrow> int \<Rightarrow> int \<Rightarrow> guard_state \<Rightarrow> guard_state" where
  "record_symbol_read env p sym_rng turn write st =
     (let span = max 1 (sym_end sym_rng - sym_start sym_rng + 1)
      in record_read env
           \<lparr>rd_path = p, requested_offset = sym_start sym_rng, requested_limit = span,
            effective_offset = sym_start sym_rng, effective_limit = span, expanded_by_lsp = False,
            enclosing_symbol = Some sym_rng, line_hashes = None, content_binding = None,
            search_credit = None, turn_index = turn, write_index = write, timestamp = env_now env,
            rd_source = None, provisional = False\<rparr> None st)"

definition creation_read :: "guard_env \<Rightarrow> path \<Rightarrow> int \<Rightarrow> int \<Rightarrow> int \<Rightarrow> read_record" where
  "creation_read env p n turn write =
     \<lparr>rd_path = p, requested_offset = 1, requested_limit = n, effective_offset = 1,
      effective_limit = n, expanded_by_lsp = False, enclosing_symbol = None, line_hashes = None,
      content_binding = None, search_credit = None, turn_index = turn, write_index = write,
      timestamp = env_now env, rd_source = None, provisional = False\<rparr>"

definition inject_creation_read :: "guard_env \<Rightarrow> path \<Rightarrow> int \<Rightarrow> int \<Rightarrow> guard_state \<Rightarrow> guard_state" where
  "inject_creation_read env p turn write st =
     (case file_lines env p of
        None \<Rightarrow> st
      | Some ls \<Rightarrow>
          if length ls = 0 then st
          else record_read env (creation_read env p (int (length ls)) turn write) None st)"

subsection \<open>Recording edits\<close>

fun map_verdict_action :: "verdict_action \<Rightarrow> edit_verdict" where
  "map_verdict_action Allow_Edit = Edit_Allowed"
| "map_verdict_action Block_Edit = Edit_Blocked"
| "map_verdict_action Warn_Edit = Edit_Warned"

definition record_edit ::
    "guard_env \<Rightarrow> path \<Rightarrow> string \<Rightarrow> range \<Rightarrow> verdict \<Rightarrow> guard_state \<Rightarrow> guard_state" where
  "record_edit env p tool touched v st0 =
     (let st = touch_file env p st0;
          e = \<lparr>ed_path = p, ed_tool = tool, ed_touched = touched,
               ed_preceding = map_of (rg_reads st) p, ed_verdict = map_verdict_action (v_action v),
               ed_reason = v_reason v, ed_timestamp = env_now env\<rparr>;
          es = edits_of st p @ [e];
          excess = length es - READ_GUARD_MAX_EDITS_PER_FILE
      in if length es > READ_GUARD_MAX_EDITS_PER_FILE
         then st\<lparr>rg_edits := AList.update p (drop excess es) (rg_edits st),
                 rg_ledger := rg_ledger st @ [Edits_Cap_Trim p]\<rparr>
         else st\<lparr>rg_edits := AList.update p es (rg_edits st)\<rparr>)"

definition record_verdict ::
    "guard_env \<Rightarrow> path \<Rightarrow> string \<Rightarrow> range option \<Rightarrow> verdict \<Rightarrow> guard_state \<Rightarrow> guard_state" where
  "record_verdict env p tool touched v st =
     record_edit env p tool (case touched of None \<Rightarrow> (1, 1) | Some t \<Rightarrow> t) v st"

definition allow_verdict :: verdict where
  "allow_verdict = \<lparr>v_action = Allow_Edit, v_reason = None, v_details = None, v_relocation = None\<rparr>"

definition block_or_warn ::
    "guard_config \<Rightarrow> message \<Rightarrow> verdict_details option \<Rightarrow> guard_mode option \<Rightarrow> verdict" where
  "block_or_warn cfg msg details override =
     (let mode = (case override of Some m \<Rightarrow> m | None \<Rightarrow> cfg_mode cfg)
      in \<lparr>v_action = (if mode = Mode_Warn then Warn_Edit else Block_Edit), v_reason = Some msg,
          v_details = details, v_relocation = None\<rparr>)"

subsection \<open>Checking an edit\<close>

definition was_written_this_session :: "guard_env \<Rightarrow> path \<Rightarrow> guard_state \<Rightarrow> bool" where
  "was_written_this_session env p st =
     (if p \<in> rg_unchanged st then False
      else if p \<in> set (rg_written st) then True
      else case env_disk env p of None \<Rightarrow> False | Some f \<Rightarrow> file_mtime f \<ge> rg_session_start st)"

definition can_treat_staleness_as_own_prior_edit ::
    "guard_env \<Rightarrow> path \<Rightarrow> int \<Rightarrow> guard_state \<Rightarrow> bool" where
  "can_treat_staleness_as_own_prior_edit env p last_read_timestamp st =
     (let es = edits_of st p
      in if es = [] then False
         else if ed_verdict (last es) \<noteq> Edit_Allowed \<and> ed_verdict (last es) \<noteq> Edit_Warned then False
         else if ed_timestamp (last es) < last_read_timestamp then False
         else env_now env - ed_timestamp (last es) \<le> own_edit_grace_ms (env_tuning env))"

definition RANGE_STALE_GRACE_MS :: int where "RANGE_STALE_GRACE_MS = 60000"

definition read_ranges_of :: "read_record list \<Rightarrow> range list" where
  "read_ranges_of rs = map (\<lambda>r. (effective_offset r, effective_offset r + effective_limit r - 1)) rs"

definition symbol_ranges_of :: "read_record list \<Rightarrow> (string \<times> int \<times> int) list" where
  "symbol_ranges_of rs =
     map (\<lambda>x. (sym_name x, sym_start x, sym_end x)) (List.map_filter enclosing_symbol rs)"

definition applied_edits :: "guard_state \<Rightarrow> path \<Rightarrow> nat" where
  "applied_edits st p = length (filter (\<lambda>e. ed_verdict e \<noteq> Edit_Blocked) (edits_of st p))"

definition out_of_range_verdict ::
    "guard_config \<Rightarrow> path \<Rightarrow> read_record list \<Rightarrow> range \<Rightarrow> guard_mode option \<Rightarrow> verdict" where
  "out_of_range_verdict cfg p rs rng mode =
     (let r = last rs
      in block_or_warn cfg
           (Msg_Out_Of_Range p (effective_offset r) (effective_offset r + effective_limit r - 1)
              (map_option (\<lambda>x. (sym_kind x, sym_name x)) (enclosing_symbol r)) rng)
           (Some \<lparr>vd_edit_range = rng, vd_read_ranges = read_ranges_of rs,
                  vd_symbol_ranges = symbol_ranges_of rs, vd_snapshot = None, vd_relocation = None\<rparr>)
           mode)"

definition range_stale_verdict ::
    "guard_config \<Rightarrow> path \<Rightarrow> read_record list \<Rightarrow> range \<Rightarrow> snapshot_validation \<Rightarrow> relocation option \<Rightarrow>
     bool \<Rightarrow> guard_mode option \<Rightarrow> verdict" where
  "range_stale_verdict cfg p rs rng sv rel single mode =
     (block_or_warn cfg (Msg_Range_Stale p rng rel)
        (Some \<lparr>vd_edit_range = rng, vd_read_ranges = read_ranges_of rs,
               vd_symbol_ranges = symbol_ranges_of rs,
               vd_snapshot = Some \<lparr>sd_status = sv_status sv, sd_mismatched = sv_mismatched sv,
                                   sd_missing = sv_missing sv\<rparr>,
               vd_relocation = rel\<rparr>) mode)
       \<lparr>v_relocation := (if rel \<noteq> None \<and> single then rel else None)\<rparr>"

record edit_options =
  skip_snapshot_check :: bool
  old_text_resolved :: bool

text \<open>
  The loop over the ranges.  \<open>ReadGuard\<close> state does not change in it, so it returns the verdict that
  ends it early, or none when every range passed; a snapshot that throws ends it with the error.
\<close>

fun check_ranges ::
    "guard_env \<Rightarrow> guard_state \<Rightarrow> path \<Rightarrow> read_record list \<Rightarrow> edit_options \<Rightarrow> guard_mode option \<Rightarrow> bool
     \<Rightarrow> bool \<Rightarrow> range list \<Rightarrow> guard_error + verdict option" where
  "check_ranges env st p rs opts mode own_stale single [] = Inr None"
| "check_ranges env st p rs opts mode own_stale single (rng # rngs) =
     (let cfg = rg_config st; lines = file_lines env p
      in case validate_range_snapshot cfg lines rs rng of
           Inl e \<Rightarrow> Inl e
         | Inr sv \<Rightarrow>
             if \<not> covered (check_coverage cfg rs rng) then
               Inr (Some (out_of_range_verdict cfg p rs rng
                  (if old_text_resolved opts then Some Mode_Warn else mode)))
             else if should_block sv \<and> \<not> skip_snapshot_check opts then
               let grace = own_stale \<and> env_now env - timestamp (last rs) < RANGE_STALE_GRACE_MS;
                   rel = find_relocation (env_tuning env) lines rs (applied_edits st p) rng
               in Inr (Some (range_stale_verdict cfg p rs rng sv rel single
                    (if grace then Some Mode_Warn else mode)))
             else check_ranges env st p rs opts mode own_stale single rngs)"

definition last_bound_read :: "read_record list \<Rightarrow> read_record option" where
  "last_bound_read rs = find (\<lambda>r. content_binding r \<noteq> None) (rev rs)"

definition binding_broken :: "guard_env \<Rightarrow> path \<Rightarrow> read_record list \<Rightarrow> read_record option" where
  "binding_broken env p rs =
     (case last_bound_read rs of
        None \<Rightarrow> None
      | Some r \<Rightarrow>
          (case content_binding r of
             None \<Rightarrow> None
           | Some b \<Rightarrow>
               if current_content_matches_binding (env_digest env) (env_disk env p) b then None
               else Some r))"

text \<open>Why a changed stat is not held against the edit, in the order the code asks.\<close>

datatype staleness = Fresh | Ignored_Old_Text | Ignored_Own_Edit | Ignored_By_Hashes | Stale

definition judge_staleness ::
    "guard_env \<Rightarrow> guard_state \<Rightarrow> path \<Rightarrow> read_record list \<Rightarrow> range option \<Rightarrow> range list option
     \<Rightarrow> edit_options \<Rightarrow> staleness" where
  "judge_staleness env st p rs touched ranges opts =
     (if \<not> file_changed env p st then Fresh
      else if old_text_resolved opts then Ignored_Old_Text
      else if can_treat_staleness_as_own_prior_edit env p (timestamp (last rs)) st
        then Ignored_Own_Edit
      else if can_ignore_staleness_by_hashes (rg_config st) (file_lines env p) rs touched ranges
        then Ignored_By_Hashes
      else Stale)"

text \<open>What follows the zero-read check: binding, staleness, ranges.\<close>

definition judge_read_file ::
    "guard_env \<Rightarrow> guard_state \<Rightarrow> path \<Rightarrow> range option \<Rightarrow> range list option \<Rightarrow> edit_options
     \<Rightarrow> guard_mode option \<Rightarrow> guard_error + verdict" where
  "judge_read_file env st p touched ranges opts mode =
     (let rs = reads_of st p; cfg = rg_config st
      in case binding_broken env p rs of
           Some r \<Rightarrow> Inr (block_or_warn cfg (Msg_Binding_Modified p (timestamp r)) None mode)
         | None \<Rightarrow>
             let s = judge_staleness env st p rs touched ranges opts
             in if s = Stale then
                  Inr (block_or_warn cfg (Msg_File_Modified p (timestamp (last rs))) None mode)
                else
                  case touched of
                    None \<Rightarrow> Inr allow_verdict
                  | Some t \<Rightarrow>
                      let rngs = ranges_to_check t ranges
                      in case check_ranges env st p rs opts mode (s = Ignored_Own_Edit)
                                (length rngs = 1) rngs of
                           Inl e \<Rightarrow> Inl e
                         | Inr (Some v) \<Rightarrow> Inr v
                         | Inr None \<Rightarrow> Inr allow_verdict)"

definition check_edit ::
    "guard_env \<Rightarrow> path \<Rightarrow> range option \<Rightarrow> range list option \<Rightarrow> edit_options \<Rightarrow> guard_state
     \<Rightarrow> (guard_error + verdict) \<times> guard_state" where
  "check_edit env raw touched ranges opts st0 =
     (let p = guard_key env raw;
          st = (if has_key (rg_reads st0) p \<or> has_key (rg_edits st0) p then touch_file env p st0 else st0);
          finish = (\<lambda>v st'. (Inr v, record_verdict env p ''edit'' touched v st'))
      in if p \<in> rg_exemptions st then
           finish allow_verdict (st\<lparr>rg_exemptions := rg_exemptions st - {p}\<rparr>)
         else
           let exemption = get_exemption_mode (env_regex env) (rg_config st) p
           in if exemption = Some Mode_Allow then finish allow_verdict st
              else
                let mode = (if exemption = Some Mode_Warn then Some Mode_Warn else None)
                in if reads_of st p = [] then
                     if was_written_this_session env p st then
                       finish allow_verdict (inject_creation_read env p 0 0 st)
                     else finish (block_or_warn (rg_config st) (Msg_Zero_Read p) None mode) st
                   else
                     case judge_read_file env st p touched ranges opts mode of
                       Inl e \<Rightarrow> (Inl e, st)
                     | Inr v \<Rightarrow> finish v st)"

subsection \<open>The rest of the interface\<close>

definition is_new_file :: "guard_env \<Rightarrow> path \<Rightarrow> bool" where
  "is_new_file env p \<longleftrightarrow> \<not> exists_sync (env_host env) p"

definition has_known_path :: "guard_env \<Rightarrow> path \<Rightarrow> guard_state \<Rightarrow> bool" where
  "has_known_path env p st =
     (case map_of (rg_known st) (loose_key env p) of
        None \<Rightarrow> False
      | Some stored \<Rightarrow> has_key (rg_reads st) stored \<or> stored \<in> set (rg_written st))"

definition add_to_set :: "'a \<Rightarrow> 'a list \<Rightarrow> 'a list" where
  "add_to_set x xs = (if x \<in> set xs then xs else xs @ [x])"

definition get_tracked_paths :: "guard_state \<Rightarrow> path list" where
  "get_tracked_paths st = foldl (\<lambda>acc p. add_to_set p acc) (keys_of (rg_reads st)) (rg_written st)"

definition forget_path :: "guard_env \<Rightarrow> path \<Rightarrow> guard_state \<Rightarrow> guard_state" where
  "forget_path env p st =
     evict_file External_Delete
       (case map_of (rg_known st) (loose_key env p) of Some stored \<Rightarrow> stored | None \<Rightarrow> guard_key env p) st"

definition note_created_file :: "guard_env \<Rightarrow> path \<Rightarrow> int \<Rightarrow> int \<Rightarrow> guard_state \<Rightarrow> guard_state" where
  "note_created_file env p turn write st =
     st\<lparr>rg_pending_creations := AList.update (loose_key env p) (turn, write) (rg_pending_creations st)\<rparr>"

definition note_written :: "guard_env \<Rightarrow> path \<Rightarrow> guard_state \<Rightarrow> guard_state" where
  "note_written env raw st0 =
     (let p = guard_key env raw;
          st1 = touch_file_time env p
                  (st0\<lparr>rg_unchanged := rg_unchanged st0 - {p},
                       rg_known := AList.update (loose_key env raw) p (rg_known st0)\<rparr>);
          st2 = st1\<lparr>rg_written := add_to_set p (rg_written st1),
                    rg_consumed := (if has_key (rg_reads st1) p then insert p (rg_consumed st1)
                                    else rg_consumed st1)\<rparr>
      in enforce_file_cap (touch_file env p st2))"

definition record_written :: "guard_env \<Rightarrow> path \<Rightarrow> guard_state \<Rightarrow> guard_state" where
  "record_written env raw st0 =
     (let st = note_written env raw st0; creation_key = loose_key env raw
      in case map_of (rg_pending_creations st) creation_key of
           None \<Rightarrow> st
         | Some (turn, write) \<Rightarrow>
             inject_creation_read env (guard_key env raw) turn write
               (st\<lparr>rg_pending_creations := AList.delete creation_key (rg_pending_creations st)\<rparr>))"

definition record_unchanged :: "guard_env \<Rightarrow> path \<Rightarrow> guard_state \<Rightarrow> guard_state" where
  "record_unchanged env raw st =
     (let p = guard_key env raw
      in if p \<in> set (rg_written st) then st else st\<lparr>rg_unchanged := insert p (rg_unchanged st)\<rparr>)"

definition add_exemption :: "guard_env \<Rightarrow> path \<Rightarrow> guard_state \<Rightarrow> guard_state" where
  "add_exemption env raw st = st\<lparr>rg_exemptions := insert (guard_key env raw) (rg_exemptions st)\<rparr>"

definition get_read_history :: "guard_env \<Rightarrow> path \<Rightarrow> guard_state \<Rightarrow> read_record list \<times> guard_state" where
  "get_read_history env raw st =
     (let p = guard_key env raw; st' = (if has_key (rg_reads st) p then touch_file env p st else st)
      in (reads_of st' p, st'))"

definition get_edit_history :: "guard_env \<Rightarrow> path \<Rightarrow> guard_state \<Rightarrow> edit_record list \<times> guard_state" where
  "get_edit_history env raw st =
     (let p = guard_key env raw; st' = (if has_key (rg_edits st) p then touch_file env p st else st)
      in (edits_of st' p, st'))"

definition get_trim_stats :: "guard_env \<Rightarrow> path \<Rightarrow> guard_state \<Rightarrow> trim_stats option" where
  "get_trim_stats env raw st = map_of (rg_trims st) (guard_key env raw)"

record guard_summary =
  total_edits :: nat
  total_blocks :: nat
  by_reason :: "(message, nat) js_map"
  by_file :: "(path, nat \<times> nat) js_map"
  lsp_expansions_helped :: nat

definition EMPTY_SUMMARY :: guard_summary where
  "EMPTY_SUMMARY = \<lparr>total_edits = 0, total_blocks = 0, by_reason = [], by_file = [],
     lsp_expansions_helped = 0\<rparr>"

definition count_edit :: "guard_state \<Rightarrow> path \<Rightarrow> guard_summary \<Rightarrow> edit_record \<Rightarrow> guard_summary" where
  "count_edit st p s e =
     (let (es, bs) = (case map_of (by_file s) p of None \<Rightarrow> (0, 0) | Some x \<Rightarrow> x);
          blocked = (ed_verdict e = Edit_Blocked)
      in s\<lparr>total_edits := total_edits s + 1,
           total_blocks := (if blocked then total_blocks s + 1 else total_blocks s),
           by_reason := (case ed_reason e of
              None \<Rightarrow> by_reason s
            | Some m \<Rightarrow> AList.update m
                (case map_of (by_reason s) m of None \<Rightarrow> 1 | Some n \<Rightarrow> n + 1) (by_reason s)),
           by_file := AList.update p (es + 1, if blocked then bs + 1 else bs) (by_file s),
           lsp_expansions_helped :=
             (if list_ex expanded_by_lsp (preceding_reads st e) \<and> ed_verdict e = Edit_Allowed
              then lsp_expansions_helped s + 1 else lsp_expansions_helped s)\<rparr>)"

definition get_summary :: "guard_state \<Rightarrow> guard_summary" where
  "get_summary st =
     foldl (\<lambda>s (p, es). foldl (count_edit st p) s es) EMPTY_SUMMARY (rg_edits st)"

subsection \<open>Persistence\<close>

text \<open>
  A persisted state is what a sidecar file held: its version, and its entries when \<^verbatim>\<open>reads\<close> is an
  array.  An entry that is not a pair of a string and an array is malformed.
\<close>

definition READ_GUARD_STATE_VERSION :: int where "READ_GUARD_STATE_VERSION = 1"

datatype persisted_entry = Malformed_Entry | Persisted_Reads path "read_record list"

record persisted_state =
  ps_version :: int
  ps_reads :: "persisted_entry list option"

definition export_state :: "guard_state \<Rightarrow> persisted_state" where
  "export_state st =
     \<lparr>ps_version = READ_GUARD_STATE_VERSION,
      ps_reads = Some (map (\<lambda>(p, a). Persisted_Reads p (rg_arrays st ! a)) (rg_reads st))\<rparr>"

record import_count =
  imported :: nat
  dropped :: nat

fun import_reads ::
    "guard_env \<Rightarrow> path \<Rightarrow> string list \<Rightarrow> read_record list \<Rightarrow> import_count \<times> guard_state
     \<Rightarrow> import_count \<times> guard_state" where
  "import_reads env p lines [] acc = acc"
| "import_reads env p lines (r # rs) (n, st) =
     (let r' = r\<lparr>rd_path := p\<rparr>
      in if read_hashes_still_match r' lines
         then import_reads env p lines rs (n\<lparr>imported := imported n + 1\<rparr>, record_read env r' None st)
         else import_reads env p lines rs (n\<lparr>dropped := dropped n + 1\<rparr>, st))"

fun import_entries ::
    "guard_env \<Rightarrow> persisted_entry list \<Rightarrow> import_count \<times> guard_state \<Rightarrow> import_count \<times> guard_state" where
  "import_entries env [] acc = acc"
| "import_entries env (Malformed_Entry # es) acc = import_entries env es acc"
| "import_entries env (Persisted_Reads raw rs # es) (n, st) =
     (if rs = [] then import_entries env es (n, st)
      else
        let p = guard_key env raw
        in case file_lines env p of
             None \<Rightarrow> import_entries env es (n\<lparr>dropped := dropped n + length rs\<rparr>, st)
           | Some ls \<Rightarrow> import_entries env es (import_reads env p ls rs (n, st)))"

definition import_state ::
    "guard_env \<Rightarrow> persisted_state option \<Rightarrow> guard_state \<Rightarrow> import_count \<times> guard_state" where
  "import_state env persisted st =
     (let result = \<lparr>imported = 0, dropped = 0\<rparr>
      in case persisted of
           None \<Rightarrow> (result, st)
         | Some ps \<Rightarrow>
             if ps_version ps \<noteq> READ_GUARD_STATE_VERSION then (result, st)
             else
               case ps_reads ps of
                 None \<Rightarrow> (result, st)
               | Some es \<Rightarrow> import_entries env es (result, st))"

end
