(* ===== verification/Read_Guard_Invariant.thy ===== *)
theory Read_Guard_Invariant
  imports Read_Guard
begin

text \<open>
  What every operation of the read guard keeps: its maps have one entry per key, no two files share a
  read array, every reference points at an array, the per-file caps hold, only files with reads are
  consumed, and a file whose reads are outstanding has no idle timer.  The step relation
  \<open>guard_step\<close> has one rule per operation; the invariant holds in every reachable state.
\<close>

declare map_of_eq_Some_iff [simp del] Some_eq_map_of_iff [simp del]

named_theorems guard_simps \<open>what the bookkeeping operations leave unchanged\<close>

subsection \<open>The invariant\<close>

definition maps_ok :: "guard_state \<Rightarrow> bool" where
  "maps_ok st \<longleftrightarrow>
     wf_map (rg_reads st) \<and> wf_map (rg_edits st) \<and> wf_map (rg_last_used st) \<and>
     wf_map (rg_timers st) \<and> wf_map (rg_known st) \<and> wf_map (rg_trims st) \<and>
     wf_map (rg_pending_creations st) \<and> distinct (rg_written st)"

definition arrays_ok :: "guard_state \<Rightarrow> bool" where
  "arrays_ok st \<longleftrightarrow>
     (\<forall>p a. map_of (rg_reads st) p = Some a \<longrightarrow> a < length (rg_arrays st)) \<and>
     (\<forall>p q a. map_of (rg_reads st) p = Some a \<longrightarrow> map_of (rg_reads st) q = Some a \<longrightarrow> p = q) \<and>
     (\<forall>rs \<in> set (rg_arrays st). length rs \<le> READ_GUARD_MAX_RECORDS_PER_FILE)"

definition edits_ok :: "guard_state \<Rightarrow> bool" where
  "edits_ok st \<longleftrightarrow>
     (\<forall>p es. map_of (rg_edits st) p = Some es \<longrightarrow>
        es \<noteq> [] \<and> length es \<le> READ_GUARD_MAX_EDITS_PER_FILE \<and>
        (\<forall>e \<in> set es. ed_path e = p \<and>
           (\<forall>a. ed_preceding e = Some a \<longrightarrow> a < length (rg_arrays st))))"

definition nonempty_ok :: "guard_state \<Rightarrow> bool" where
  "nonempty_ok st \<longleftrightarrow> (\<forall>p. has_key (rg_reads st) p \<longrightarrow> reads_of st p \<noteq> [])"

definition consumed_ok :: "guard_state \<Rightarrow> bool" where
  "consumed_ok st \<longleftrightarrow>
     (\<forall>p \<in> rg_consumed st. has_key (rg_reads st) p) \<and>
     (\<forall>p. outstanding st p \<longrightarrow> \<not> has_key (rg_timers st) p)"

definition guard_inv :: "guard_state \<Rightarrow> bool" where
  "guard_inv st \<longleftrightarrow> maps_ok st \<and> arrays_ok st \<and> edits_ok st \<and> nonempty_ok st \<and> consumed_ok st"

lemmas inv_defs = guard_inv_def maps_ok_def arrays_ok_def edits_ok_def nonempty_ok_def consumed_ok_def

lemma inv_new: "guard_inv (new_read_guard env sid cfg ft)"
  by (simp add: inv_defs new_read_guard_def outstanding_def)

subsection \<open>Bookkeeping\<close>

lemma touch_file_fields [guard_simps]:
  "rg_reads (touch_file env p st) = rg_reads st" "rg_arrays (touch_file env p st) = rg_arrays st"
  "rg_edits (touch_file env p st) = rg_edits st" "rg_consumed (touch_file env p st) = rg_consumed st"
  "rg_known (touch_file env p st) = rg_known st" "rg_trims (touch_file env p st) = rg_trims st"
  "rg_written (touch_file env p st) = rg_written st" "rg_config (touch_file env p st) = rg_config st"
  "rg_unchanged (touch_file env p st) = rg_unchanged st"
  "rg_exemptions (touch_file env p st) = rg_exemptions st"
  "rg_pending_creations (touch_file env p st) = rg_pending_creations st"
  "rg_file_time (touch_file env p st) = rg_file_time st" "rg_session (touch_file env p st) = rg_session st"
  "rg_session_start (touch_file env p st) = rg_session_start st"
  "rg_last_used (touch_file env p st) = AList.update p (env_now env) (rg_last_used st)"
  by (simp_all add: touch_file_def clear_file_timer_def Let_def)

lemma touch_file_timers:
  "rg_timers (touch_file env p st) =
     (if outstanding st p then AList.delete p (rg_timers st)
      else AList.update p
        \<lparr>tm_stamp = env_now env, tm_due = env_now env + idle_evict_ms (env_tuning env), tm_pending = True\<rparr>
        (AList.delete p (rg_timers st)))"
  by (simp add: touch_file_def clear_file_timer_def outstanding_def Let_def)

lemma reads_of_touch [guard_simps]: "reads_of (touch_file env p st) q = reads_of st q"
  by (simp add: reads_of_def guard_simps split: option.split)

lemma edits_of_touch [guard_simps]: "edits_of (touch_file env p st) q = edits_of st q"
  by (simp add: edits_of_def guard_simps)

lemma outstanding_touch [guard_simps]: "outstanding (touch_file env p st) q = outstanding st q"
  by (simp add: outstanding_def guard_simps)

lemma touch_file_time_fields [guard_simps]:
  "rg_reads (touch_file_time env p st) = rg_reads st" "rg_arrays (touch_file_time env p st) = rg_arrays st"
  "rg_edits (touch_file_time env p st) = rg_edits st" "rg_consumed (touch_file_time env p st) = rg_consumed st"
  "rg_known (touch_file_time env p st) = rg_known st" "rg_trims (touch_file_time env p st) = rg_trims st"
  "rg_written (touch_file_time env p st) = rg_written st" "rg_config (touch_file_time env p st) = rg_config st"
  "rg_unchanged (touch_file_time env p st) = rg_unchanged st"
  "rg_exemptions (touch_file_time env p st) = rg_exemptions st"
  "rg_pending_creations (touch_file_time env p st) = rg_pending_creations st"
  "rg_last_used (touch_file_time env p st) = rg_last_used st"
  "rg_timers (touch_file_time env p st) = rg_timers st" "rg_session (touch_file_time env p st) = rg_session st"
  "rg_session_start (touch_file_time env p st) = rg_session_start st"
  by (simp_all add: touch_file_time_def)

lemma reads_of_touch_file_time [guard_simps]: "reads_of (touch_file_time env p st) q = reads_of st q"
  by (simp add: reads_of_def guard_simps split: option.split)

lemma outstanding_touch_file_time [guard_simps]: "outstanding (touch_file_time env p st) q = outstanding st q"
  by (simp add: outstanding_def guard_simps)

lemma evict_file_fields [guard_simps]:
  "rg_reads (evict_file reason p st) = AList.delete p (rg_reads st)"
  "rg_arrays (evict_file reason p st) = rg_arrays st"
  "rg_edits (evict_file reason p st) = AList.delete p (rg_edits st)"
  "rg_consumed (evict_file reason p st) = rg_consumed st - {p}"
  "rg_known (evict_file reason p st) = filter (\<lambda>e. snd e \<noteq> p) (rg_known st)"
  "rg_trims (evict_file reason p st) = rg_trims st"
  "rg_written (evict_file reason p st) = removeAll p (rg_written st)"
  "rg_config (evict_file reason p st) = rg_config st"
  "rg_unchanged (evict_file reason p st) = rg_unchanged st"
  "rg_exemptions (evict_file reason p st) = rg_exemptions st"
  "rg_pending_creations (evict_file reason p st) = rg_pending_creations st"
  "rg_file_time (evict_file reason p st) = rg_file_time st"
  "rg_session (evict_file reason p st) = rg_session st"
  "rg_session_start (evict_file reason p st) = rg_session_start st"
  "rg_last_used (evict_file reason p st) = AList.delete p (rg_last_used st)"
  "rg_timers (evict_file reason p st) = AList.delete p (rg_timers st)"
  by (simp_all add: evict_file_def clear_file_timer_def Let_def)

lemma note_trim_fields [guard_simps]:
  "rg_reads (note_trim p t st) = rg_reads st" "rg_arrays (note_trim p t st) = rg_arrays st"
  "rg_edits (note_trim p t st) = rg_edits st" "rg_consumed (note_trim p t st) = rg_consumed st"
  "rg_known (note_trim p t st) = rg_known st" "rg_written (note_trim p t st) = rg_written st"
  "rg_config (note_trim p t st) = rg_config st" "rg_unchanged (note_trim p t st) = rg_unchanged st"
  "rg_exemptions (note_trim p t st) = rg_exemptions st"
  "rg_pending_creations (note_trim p t st) = rg_pending_creations st"
  "rg_file_time (note_trim p t st) = rg_file_time st" "rg_session (note_trim p t st) = rg_session st"
  "rg_session_start (note_trim p t st) = rg_session_start st"
  "rg_last_used (note_trim p t st) = rg_last_used st" "rg_timers (note_trim p t st) = rg_timers st"
  by (simp_all add: note_trim_def Let_def)

lemma wf_note_trim: "wf_map (rg_trims st) \<Longrightarrow> wf_map (rg_trims (note_trim p t st))"
  by (simp add: note_trim_def Let_def)

lemma wf_filter: "wf_map m \<Longrightarrow> wf_map (filter P m)"
  by (rule distinct_map_filter)

lemma supersede_known:
  "(supersede c p st)\<lparr>rg_known := k\<rparr> = supersede c p (st\<lparr>rg_known := k\<rparr>)"
  by (simp add: supersede_def split: option.split)

lemma supersede_fields [guard_simps]: "rg_known (supersede c p st) = rg_known st"
  by (simp add: supersede_def split: option.split)

subsection \<open>Preservation\<close>

lemma inv_touch:
  assumes "guard_inv st"
  shows "guard_inv (touch_file env p st)"
  using assms unfolding inv_defs
  by (simp add: guard_simps touch_file_timers map_laws)

lemma inv_touch_file_time: "guard_inv st \<Longrightarrow> guard_inv (touch_file_time env p st)"
  by (simp add: inv_defs guard_simps)

lemma inv_evict:
  assumes "guard_inv st"
  shows "guard_inv (evict_file reason p st)"
proof -
  have r: "reads_of (evict_file reason p st) q = (if q = p then [] else reads_of st q)" for q
    by (simp add: reads_of_def guard_simps map_laws split: option.split)
  have o: "outstanding (evict_file reason p st) q \<longleftrightarrow> q \<noteq> p \<and> outstanding st q" for q
    by (auto simp: outstanding_def guard_simps map_laws)
  show ?thesis
    using assms unfolding inv_defs r o
    by (auto simp: guard_simps map_laws wf_filter distinct_removeAll)
qed

lemma cap_loop_preserves:
  assumes "P st"
    and "\<And>st p. P st \<Longrightarrow> length (rg_reads st) > cap \<Longrightarrow> has_key (rg_reads st) p \<Longrightarrow>
      (p \<in> rg_consumed st) = consumed \<Longrightarrow> P (evict_file reason p st)"
  shows "P (cap_loop consumed reason cap st)"
  using assms(1)
proof (induction "length (rg_reads st)" arbitrary: st rule: less_induct)
  case less
  show ?case
  proof (cases "length (rg_reads st) > cap \<and> cap_victims consumed st \<noteq> [] \<and> hd (cap_victims consumed st) \<noteq> []")
    case True
    then obtain p ps where v: "cap_victims consumed st = p # ps" "p \<noteq> []"
      by (cases "cap_victims consumed st") auto
    then have "p \<in> set (cap_victims consumed st)" by simp
    then have p: "has_key (rg_reads st) p" "(p \<in> rg_consumed st) = consumed"
      unfolding has_key_iff by (auto simp: cap_victims_def)
    have "P (cap_loop consumed reason cap (evict_file reason p st))"
      using less.hyps [OF evict_shrinks [OF cap_victim_key [OF v(1)]]] assms(2) [OF less.prems] True p
      by blast
    then show ?thesis using True v by (simp add: cap_loop.simps [of consumed reason cap st])
  next
    case False
    then have "cap_loop consumed reason cap st = st"
      by (subst cap_loop.simps) (auto split: list.splits)
    then show ?thesis using less.prems by simp
  qed
qed

lemma cap_preserves:
  assumes "P st" "\<And>st p reason. P st \<Longrightarrow> has_key (rg_reads st) p \<Longrightarrow> P (evict_file reason p st)"
  shows "P (enforce_file_cap st)"
  unfolding enforce_file_cap_def
  by (rule cap_loop_preserves [where P = P], rule cap_loop_preserves [where P = P])
    (auto intro: assms(1) assms(2) simp del: not_None_eq)

lemma inv_cap: "guard_inv st \<Longrightarrow> guard_inv (enforce_file_cap st)"
  by (rule cap_preserves) (auto intro: inv_evict)

lemma cap_fields [guard_simps]:
  "rg_arrays (enforce_file_cap st) = rg_arrays st" "rg_config (enforce_file_cap st) = rg_config st"
  "rg_unchanged (enforce_file_cap st) = rg_unchanged st"
  "rg_exemptions (enforce_file_cap st) = rg_exemptions st"
  "rg_pending_creations (enforce_file_cap st) = rg_pending_creations st"
  "rg_file_time (enforce_file_cap st) = rg_file_time st" "rg_session (enforce_file_cap st) = rg_session st"
  "rg_session_start (enforce_file_cap st) = rg_session_start st"
proof -
  have "(\<lambda>s. rg_arrays s = rg_arrays st \<and> rg_config s = rg_config st \<and> rg_unchanged s = rg_unchanged st
      \<and> rg_exemptions s = rg_exemptions st \<and> rg_pending_creations s = rg_pending_creations st
      \<and> rg_file_time s = rg_file_time st \<and> rg_session s = rg_session st
      \<and> rg_session_start s = rg_session_start st) (enforce_file_cap st)"
    by (rule cap_preserves) (simp_all add: guard_simps)
  then show "rg_arrays (enforce_file_cap st) = rg_arrays st" "rg_config (enforce_file_cap st) = rg_config st"
    "rg_unchanged (enforce_file_cap st) = rg_unchanged st"
    "rg_exemptions (enforce_file_cap st) = rg_exemptions st"
    "rg_pending_creations (enforce_file_cap st) = rg_pending_creations st"
    "rg_file_time (enforce_file_cap st) = rg_file_time st" "rg_session (enforce_file_cap st) = rg_session st"
    "rg_session_start (enforce_file_cap st) = rg_session_start st"
    by simp_all
qed

subsection \<open>Recording reads\<close>

text \<open>Superseding and pushing leave every array within the cap, and the pushed one not empty.\<close>

lemma remove_first_length: "length (remove_first P xs) \<le> length xs"
  by (induction xs) auto

lemma enforce_record_cap_nonempty: "xs \<noteq> [] \<Longrightarrow> snd (enforce_record_cap_for_file xs) \<noteq> []"
proof -
  assume "xs \<noteq> []"
  then have "length (snd (enforce_record_cap_for_file xs)) > 0"
    unfolding record_cap_length by (simp add: READ_GUARD_MAX_RECORDS_PER_FILE_def)
  then show ?thesis by simp
qed

lemma all_update: "\<forall>x \<in> set xs. P x \<Longrightarrow> P y \<Longrightarrow> \<forall>x \<in> set (xs[i := y]). P x"
  using set_update_subset_insert [of xs i y] by blast

definition after_supersede :: "string option \<Rightarrow> read_record list \<Rightarrow> read_record list" where
  "after_supersede c rs =
     (case c of None \<Rightarrow> rs
      | Some call \<Rightarrow> remove_first (\<lambda>x. rd_source x = Some (provisional_source call)) rs)"

definition pushed :: "string option \<Rightarrow> path \<Rightarrow> read_record \<Rightarrow> guard_state \<Rightarrow> read_record list" where
  "pushed c p r st = snd (enforce_record_cap_for_file (after_supersede c (reads_of st p) @ [r]))"

lemma push_read_eq:
  assumes "arrays_ok st"
  shows "snd (push_read p r (supersede c p st)) =
    st\<lparr>rg_consumed := rg_consumed st - {p},
       rg_arrays := (case map_of (rg_reads st) p of None \<Rightarrow> rg_arrays st @ [pushed c p r st]
                     | Some a \<Rightarrow> (rg_arrays st)[a := pushed c p r st]),
       rg_reads := AList.update p
         (case map_of (rg_reads st) p of None \<Rightarrow> length (rg_arrays st) | Some a \<Rightarrow> a) (rg_reads st)\<rparr>"
  using assms
  by (cases c) (auto simp: push_read_def supersede_def pushed_def after_supersede_def reads_of_def
      arrays_ok_def Let_def split: option.splits prod.splits)

lemma pushed_ok:
  "length (pushed c p r st) \<le> READ_GUARD_MAX_RECORDS_PER_FILE" "pushed c p r st \<noteq> []"
  using enforce_record_cap_nonempty [of "after_supersede c (reads_of st p) @ [r]"]
  by (simp_all add: pushed_def record_cap_length)

lemma edits_ok_mono:
  assumes "edits_ok st" "rg_edits st' = rg_edits st" "length (rg_arrays st) \<le> length (rg_arrays st')"
  shows "edits_ok st'"
  unfolding edits_ok_def
proof (intro allI impI)
  fix p es assume "map_of (rg_edits st') p = Some es"
  then have "es \<noteq> [] \<and> length es \<le> READ_GUARD_MAX_EDITS_PER_FILE
      \<and> (\<forall>e \<in> set es. ed_path e = p \<and> (\<forall>a. ed_preceding e = Some a \<longrightarrow> a < length (rg_arrays st)))"
    using assms(1,2) by (simp add: edits_ok_def)
  then show "es \<noteq> [] \<and> length es \<le> READ_GUARD_MAX_EDITS_PER_FILE
      \<and> (\<forall>e \<in> set es. ed_path e = p \<and> (\<forall>a. ed_preceding e = Some a \<longrightarrow> a < length (rg_arrays st')))"
    using assms(3) by (blast intro: less_le_trans)
qed

lemma push_read_fields:
  assumes "arrays_ok st" and st': "st' = snd (push_read p r (supersede c p st))"
  shows "rg_reads st' = AList.update p
         (case map_of (rg_reads st) p of None \<Rightarrow> length (rg_arrays st) | Some a \<Rightarrow> a) (rg_reads st)"
    and "rg_arrays st' = (case map_of (rg_reads st) p of None \<Rightarrow> rg_arrays st @ [pushed c p r st]
                     | Some a \<Rightarrow> (rg_arrays st)[a := pushed c p r st])"
    and "rg_consumed st' = rg_consumed st - {p}" "rg_edits st' = rg_edits st" "rg_timers st' = rg_timers st"
    and "maps_ok st \<Longrightarrow> maps_ok st'"
  unfolding st' push_read_eq [OF assms(1)] by (simp_all add: maps_ok_def)

lemma push_read_arrays:
  assumes "arrays_ok st" and "st' = snd (push_read p r (supersede c p st))"
  shows "arrays_ok st'"
proof -
  note fields = push_read_fields [OF assms]
  have bound: "\<And>q a. map_of (rg_reads st) q = Some a \<Longrightarrow> a < length (rg_arrays st)"
    and inj: "\<And>q q' a. map_of (rg_reads st) q = Some a \<Longrightarrow> map_of (rg_reads st) q' = Some a \<Longrightarrow> q = q'"
    and caps: "\<forall>rs \<in> set (rg_arrays st). length rs \<le> READ_GUARD_MAX_RECORDS_PER_FILE"
    using assms(1) unfolding arrays_ok_def by blast+
  show ?thesis
  proof (cases "map_of (rg_reads st) p")
    case None
    have "map_of (rg_reads st) q = Some a \<Longrightarrow> a < Suc (length (rg_arrays st)) \<and> a \<noteq> length (rg_arrays st)" for q a
      using bound [of q a] by simp
    then show ?thesis
      using caps inj pushed_ok(1)
      unfolding arrays_ok_def fields(1,2) None option.case map_laws by auto
  next
    case (Some b)
    have "\<forall>rs \<in> set ((rg_arrays st)[b := pushed c p r st]). length rs \<le> READ_GUARD_MAX_RECORDS_PER_FILE"
      using caps pushed_ok(1) by (rule all_update)
    moreover have "map_of (AList.update p b (rg_reads st)) = map_of (rg_reads st)"
      using Some by (auto simp: update_conv)
    ultimately show ?thesis
      using bound inj unfolding arrays_ok_def fields(1,2) Some option.case length_list_update by simp
  qed
qed

lemma push_read_views:
  assumes "arrays_ok st" and "st' = snd (push_read p r (supersede c p st))"
  shows "reads_of st' q = (if q = p then pushed c p r st else reads_of st q)"
    and "outstanding st' q \<longleftrightarrow> q = p \<or> outstanding st q"
    and "length (rg_arrays st) \<le> length (rg_arrays st')"
    and "has_key (rg_reads st') q \<longleftrightarrow> q = p \<or> has_key (rg_reads st) q"
proof -
  note fields = push_read_fields [OF assms]
  have bound: "\<And>q a. map_of (rg_reads st) q = Some a \<Longrightarrow> a < length (rg_arrays st)"
    and inj: "\<And>q q' a. map_of (rg_reads st) q = Some a \<Longrightarrow> map_of (rg_reads st) q' = Some a \<Longrightarrow> q = q'"
    using assms(1) unfolding arrays_ok_def by blast+
  show "reads_of st' q = (if q = p then pushed c p r st else reads_of st q)"
    using bound inj [of q _ p]
    by (auto simp: fields reads_of_def map_laws nth_append nth_list_update split: option.splits)
  show "has_key (rg_reads st') q \<longleftrightarrow> q = p \<or> has_key (rg_reads st) q"
    by (simp add: fields map_laws)
  show "outstanding st' q \<longleftrightarrow> q = p \<or> outstanding st q"
    by (auto simp: fields outstanding_def map_laws)
  show "length (rg_arrays st) \<le> length (rg_arrays st')"
    by (auto simp: fields split: option.splits)
qed

lemma inv_push:
  assumes "guard_inv st"
  shows "guard_inv (touch_file env p (snd (push_read p r (supersede c p st))))"
proof -
  define st' where "st' = snd (push_read p r (supersede c p st))"
  have arr: "arrays_ok st" using assms by (simp add: guard_inv_def)
  note fields = push_read_fields [OF arr st'_def] and views = push_read_views [OF arr st'_def]
  have "maps_ok st'" using assms by (simp add: guard_inv_def fields(6))
  moreover have "nonempty_ok st'"
    using assms pushed_ok(2) [of c p r st] unfolding guard_inv_def nonempty_ok_def views(1) views(4) by auto
  moreover have "edits_ok st'"
    using assms views(3) edits_ok_mono [OF _ fields(4)] by (simp add: guard_inv_def)
  moreover have "\<forall>q \<in> rg_consumed st'. has_key (rg_reads st') q"
    using assms unfolding guard_inv_def consumed_ok_def views(4) fields(3) by auto
  moreover have "\<forall>q. outstanding st' q \<longrightarrow> q = p \<or> \<not> has_key (rg_timers st') q"
    using assms unfolding guard_inv_def consumed_ok_def views(2) fields(5) by auto
  moreover have "arrays_ok st'" by (rule push_read_arrays [OF arr st'_def])
  ultimately show ?thesis
    unfolding inv_defs st'_def [symmetric]
    by (simp add: guard_simps touch_file_timers map_laws) (auto simp: views(2))
qed

text \<open>A recorded read in terms of one pushed read, the touch and the file cap.\<close>

definition with_read :: "guard_env \<Rightarrow> read_record \<Rightarrow> string option \<Rightarrow> guard_state \<Rightarrow> guard_state" where
  "with_read env r c st =
     (let p = guard_key env (rd_path r)
      in touch_file env p (snd (push_read p (stored_read env p r)
           (supersede c p (st\<lparr>rg_known := AList.update (loose_key env (rd_path r)) p (rg_known st)\<rparr>)))))"

lemma record_read_eq:
  "\<exists>t. record_read env r c st =
     touch_file_time env (guard_key env (rd_path r))
       (note_trim (guard_key env (rd_path r)) t (enforce_file_cap (with_read env r c st)))"
  by (simp add: record_read_def with_read_def Let_def guard_simps supersede_known case_prod_beta) blast

lemma inv_known: "guard_inv st \<Longrightarrow> guard_inv (st\<lparr>rg_known := AList.update k v (rg_known st)\<rparr>)"
  by (auto simp: inv_defs reads_of_def outstanding_def split: option.splits)

lemma inv_note_trim: "guard_inv st \<Longrightarrow> guard_inv (note_trim p t st)"
  by (auto simp: inv_defs guard_simps wf_note_trim reads_of_def outstanding_def split: option.splits)

lemma inv_with_read: "guard_inv st \<Longrightarrow> guard_inv (with_read env r c st)"
  unfolding with_read_def Let_def by (intro inv_push inv_known)

lemma inv_record_read: "guard_inv st \<Longrightarrow> guard_inv (record_read env r c st)"
  using record_read_eq [of env r c st]
  by (metis inv_cap inv_note_trim inv_touch_file_time inv_with_read)

lemma inv_symbol_read: "guard_inv st \<Longrightarrow> guard_inv (record_symbol_read env p s t w st)"
  by (simp add: record_symbol_read_def Let_def inv_record_read)

lemma inv_creation_read: "guard_inv st \<Longrightarrow> guard_inv (inject_creation_read env p t w st)"
  by (simp add: inject_creation_read_def inv_record_read split: option.split)

subsection \<open>Recording edits, checking, the rest\<close>

lemma edits_of_bound:
  "edits_ok st \<Longrightarrow> length (edits_of st p) \<le> READ_GUARD_MAX_EDITS_PER_FILE
    \<and> (\<forall>e \<in> set (edits_of st p). ed_path e = p \<and> (\<forall>a. ed_preceding e = Some a \<longrightarrow> a < length (rg_arrays st)))"
  by (auto simp: edits_ok_def edits_of_def split: option.split)

lemma inv_edits:
  assumes "guard_inv st" and "es \<noteq> []" "length es \<le> READ_GUARD_MAX_EDITS_PER_FILE"
    and "\<forall>e \<in> set es. ed_path e = p \<and> (\<forall>a. ed_preceding e = Some a \<longrightarrow> a < length (rg_arrays st))"
  shows "guard_inv (st\<lparr>rg_edits := AList.update p es (rg_edits st)\<rparr>)"
  using assms by (auto simp: inv_defs map_laws reads_of_def outstanding_def split: option.splits)

lemma inv_ledger: "guard_inv (st\<lparr>rg_ledger := l\<rparr>) = guard_inv st"
  by (simp add: inv_defs reads_of_def outstanding_def cong: option.case_cong)

lemma inv_record_edit:
  assumes "guard_inv st"
  shows "guard_inv (record_edit env p tool t v st)"
proof -
  let ?st = "touch_file env p st"
  let ?e = "\<lparr>ed_path = p, ed_tool = tool, ed_touched = t, ed_preceding = map_of (rg_reads ?st) p,
      ed_verdict = map_verdict_action (v_action v), ed_reason = v_reason v, ed_timestamp = env_now env\<rparr>"
  let ?es = "edits_of ?st p @ [?e]"
  let ?k = "length ?es - READ_GUARD_MAX_EDITS_PER_FILE"
  have inv: "guard_inv ?st" by (rule inv_touch [OF assms])
  then have ok: "edits_ok ?st" "arrays_ok ?st" by (simp_all add: guard_inv_def)
  have all: "\<forall>e \<in> set ?es. ed_path e = p \<and> (\<forall>a. ed_preceding e = Some a \<longrightarrow> a < length (rg_arrays ?st))"
    using edits_of_bound [OF ok(1), of p] ok(2) by (auto simp: arrays_ok_def)
  have "record_edit env p tool t v st =
      (if length ?es > READ_GUARD_MAX_EDITS_PER_FILE
       then (?st\<lparr>rg_edits := AList.update p (drop ?k ?es) (rg_edits ?st)\<rparr>)\<lparr>rg_ledger := rg_ledger ?st @ [Edits_Cap_Trim p]\<rparr>
       else ?st\<lparr>rg_edits := AList.update p ?es (rg_edits ?st)\<rparr>)"
    by (simp add: record_edit_def Let_def)
  moreover have "guard_inv (?st\<lparr>rg_edits := AList.update p (drop ?k ?es) (rg_edits ?st)\<rparr>)"
  proof (rule inv_edits [OF inv])
    have "length (edits_of ?st p) \<le> READ_GUARD_MAX_EDITS_PER_FILE" using edits_of_bound [OF ok(1)] by simp
    then show "drop ?k ?es \<noteq> []" "length (drop ?k ?es) \<le> READ_GUARD_MAX_EDITS_PER_FILE"
      by (simp_all add: READ_GUARD_MAX_EDITS_PER_FILE_def)
    show "\<forall>e \<in> set (drop ?k ?es). ed_path e = p \<and> (\<forall>a. ed_preceding e = Some a \<longrightarrow> a < length (rg_arrays ?st))"
      using all set_drop_subset [of ?k ?es] by blast
  qed
  moreover have "guard_inv (?st\<lparr>rg_edits := AList.update p ?es (rg_edits ?st)\<rparr>)"
    if "\<not> length ?es > READ_GUARD_MAX_EDITS_PER_FILE"
    using that all by (intro inv_edits [OF inv]) simp_all
  ultimately show ?thesis by (simp add: inv_ledger)
qed

lemma inv_record_verdict: "guard_inv st \<Longrightarrow> guard_inv (record_verdict env p tool t v st)"
  by (simp add: record_verdict_def inv_record_edit)

lemma inv_exemptions: "guard_inv (st\<lparr>rg_exemptions := x\<rparr>) = guard_inv st"
  by (simp add: inv_defs reads_of_def outstanding_def cong: option.case_cong)

lemma inv_check_edit:
  assumes "guard_inv st"
  shows "guard_inv (snd (check_edit env raw t rs opts st))"
proof -
  define p where "p = guard_key env raw"
  define st1 where "st1 = (if has_key (rg_reads st) p \<or> has_key (rg_edits st) p then touch_file env p st else st)"
  have i: "guard_inv st1" using assms by (simp add: st1_def inv_touch)
  have r: "guard_inv s \<Longrightarrow> guard_inv (record_verdict env p ''edit'' t v s)" for v s
    by (rule inv_record_verdict)
  have x: "guard_inv (st1\<lparr>rg_exemptions := e\<rparr>)" for e by (simp add: inv_exemptions i)
  have c: "guard_inv (inject_creation_read env p 0 0 st1)" by (rule inv_creation_read [OF i])
  show ?thesis
    unfolding check_edit_def Let_def p_def [symmetric] st1_def [symmetric]
    by (simp add: i r x c split: sum.split)
qed

lemma inv_note_written: "guard_inv st \<Longrightarrow> guard_inv (note_written env raw st)"
proof -
  assume inv: "guard_inv st"
  define p where "p = guard_key env raw"
  define st1 where "st1 = touch_file_time env p
      (st\<lparr>rg_unchanged := rg_unchanged st - {p}, rg_known := AList.update (loose_key env raw) p (rg_known st)\<rparr>)"
  define st2 where "st2 = st1\<lparr>rg_written := add_to_set p (rg_written st1),
      rg_consumed := (if has_key (rg_reads st1) p then insert p (rg_consumed st1) else rg_consumed st1)\<rparr>"
  have "guard_inv (st\<lparr>rg_unchanged := rg_unchanged st - {p}, rg_known := AList.update (loose_key env raw) p (rg_known st)\<rparr>)"
    using inv by (auto simp: inv_defs reads_of_def outstanding_def split: option.splits)
  then have i1: "guard_inv st1" unfolding st1_def by (rule inv_touch_file_time)
  then have "guard_inv st2"
    by (auto simp: inv_defs st2_def add_to_set_def reads_of_def outstanding_def split: option.splits if_splits)
  moreover have "note_written env raw st = enforce_file_cap (touch_file env p st2)"
    unfolding note_written_def Let_def p_def st1_def st2_def by simp
  ultimately show ?thesis by (simp add: inv_cap inv_touch)
qed

lemma inv_pending: "wf_map m \<Longrightarrow> guard_inv st \<Longrightarrow> guard_inv (st\<lparr>rg_pending_creations := m\<rparr>)"
  by (auto simp: inv_defs reads_of_def outstanding_def split: option.splits)

lemma inv_maps: "guard_inv st \<Longrightarrow> wf_map (rg_pending_creations st)"
  by (simp add: guard_inv_def maps_ok_def)

lemma inv_record_written: "guard_inv st \<Longrightarrow> guard_inv (record_written env raw st)"
  unfolding record_written_def Let_def
  by (auto split: option.split intro!: inv_creation_read inv_pending inv_note_written wf_delete
      inv_maps [OF inv_note_written])

lemma inv_unchanged: "guard_inv (st\<lparr>rg_unchanged := u\<rparr>) = guard_inv st"
  by (simp add: inv_defs reads_of_def outstanding_def cong: option.case_cong)

lemma inv_fire:
  assumes "guard_inv st"
  shows "guard_inv (fire_idle_timer env p st)"
proof -
  have "guard_inv (st\<lparr>rg_timers := AList.update p t (rg_timers st)\<rparr>)" if "has_key (rg_timers st) p" for t
    using assms that
    by (auto simp: inv_defs reads_of_def outstanding_def map_laws split: option.splits)
  then show ?thesis
    using assms by (auto simp: fire_idle_timer_def Let_def inv_evict split: option.split)
qed

lemma inv_import_reads:
  "guard_inv (snd acc) \<Longrightarrow> guard_inv (snd (import_reads env p ls rs acc))"
  by (induction env p ls rs acc rule: import_reads.induct) (auto simp: Let_def inv_record_read)

lemma inv_import_entries: "guard_inv (snd acc) \<Longrightarrow> guard_inv (snd (import_entries env es acc))"
  by (induction env es acc rule: import_entries.induct)
    (auto simp: Let_def inv_import_reads split: option.split)

lemma inv_import: "guard_inv st \<Longrightarrow> guard_inv (snd (import_state env persisted st))"
  by (auto simp: import_state_def Let_def inv_import_entries split: option.split)

subsection \<open>Every reachable state\<close>

inductive guard_step :: "guard_state \<Rightarrow> guard_state \<Rightarrow> bool" where
  step_read: "guard_step st (record_read env r c st)"
| step_symbol: "guard_step st (record_symbol_read env p x t w st)"
| step_check: "guard_step st (snd (check_edit env p t rs opts st))"
| step_created: "guard_step st (note_created_file env p t w st)"
| step_written: "guard_step st (record_written env p st)"
| step_unchanged: "guard_step st (record_unchanged env p st)"
| step_exempt: "guard_step st (add_exemption env p st)"
| step_forget: "guard_step st (forget_path env p st)"
| step_reads: "guard_step st (snd (get_read_history env p st))"
| step_edits: "guard_step st (snd (get_edit_history env p st))"
| step_idle: "guard_step st (fire_idle_timer env p st)"
| step_import: "guard_step st (snd (import_state env persisted st))"

lemma guard_step_inv: "guard_step st st' \<Longrightarrow> guard_inv st \<Longrightarrow> guard_inv st'"
  by (induction rule: guard_step.induct)
    (auto simp: inv_record_read inv_symbol_read inv_check_edit inv_record_written inv_fire inv_import
      note_created_file_def record_unchanged_def add_exemption_def forget_path_def get_read_history_def
      get_edit_history_def Let_def inv_exemptions inv_unchanged inv_touch inv_evict
      intro!: inv_pending wf_update dest: inv_maps)

inductive guard_reachable :: "guard_state \<Rightarrow> bool" where
  reach_new: "guard_reachable (new_read_guard env sid cfg ft)"
| reach_step: "guard_reachable st \<Longrightarrow> guard_step st st' \<Longrightarrow> guard_reachable st'"

lemma reachable_inv: "guard_reachable st \<Longrightarrow> guard_inv st"
  by (induction rule: guard_reachable.induct) (auto intro: inv_new guard_step_inv)

text \<open>C5 (invariant): in every state the read guard can reach, two files never share a read array, a
  tracked file has at least one and at most 128 reads and at most 256 edits, only tracked files
  are consumed, and a file with outstanding reads has no idle timer that could evict it.\<close>

theorem reachable_guard_is_sound:
  assumes "guard_reachable st" and "map_of (rg_reads st) p = Some a"
  shows "reads_of st p \<noteq> [] \<and> length (reads_of st p) \<le> 128 \<and> length (edits_of st p) \<le> 256
    \<and> (map_of (rg_reads st) q = Some a \<longrightarrow> q = p)
    \<and> (q \<in> rg_consumed st \<longrightarrow> has_key (rg_reads st) q)
    \<and> (p \<notin> rg_consumed st \<longrightarrow> map_of (rg_timers st) p = None)"
proof -
  have inv: "guard_inv st" by (rule reachable_inv [OF assms(1)])
  then have "a < length (rg_arrays st)" using assms(2) by (simp add: guard_inv_def arrays_ok_def)
  then have "length (reads_of st p) \<le> 128"
    using inv assms(2) by (simp add: guard_inv_def arrays_ok_def reads_of_def READ_GUARD_MAX_RECORDS_PER_FILE_def)
  moreover have "length (edits_of st p) \<le> 256"
    using inv edits_of_bound [of st p] by (simp add: guard_inv_def READ_GUARD_MAX_EDITS_PER_FILE_def)
  ultimately show ?thesis
    using inv assms(2) unfolding guard_inv_def nonempty_ok_def arrays_ok_def consumed_ok_def outstanding_def
    by auto
qed

end
