(* ===== verification/Read_Guard_Verdicts.thy ===== *)
theory Read_Guard_Verdicts
  imports Read_Guard_Invariant
begin

text \<open>
  What the verdicts of the read guard mean: why an edit was let through, when it is refused, that an
  honest read is enough, what eviction may take, and what survives persistence.
\<close>

subsection \<open>A sample machine\<close>

text \<open>Two files on a case-insensitive POSIX disk; the witnesses run on it.\<close>

definition sample_disk :: disk where
  "sample_disk =
     [''/w/a'' \<mapsto> \<lparr>file_text = ''a'' @ [LF] @ ''b'', file_size = 3, file_mtime = 5, file_ctime = 5\<rparr>,
      ''/w/n.txt'' \<mapsto> \<lparr>file_text = ''a'', file_size = 1, file_mtime = 5, file_ctime = 5\<rparr>]"

definition sample_env :: guard_env where
  "sample_env =
     \<lparr>env_now = 1000, env_disk = sample_disk, env_host = sample_host,
      env_tuning = \<lparr>own_edit_grace_ms = 120000, hash_max_lines = 3000, window_min = 40,
        window_per_edit = 20, window_max = 400, idle_evict_ms = 1800000\<rparr>,
      env_digest = id, env_regex = (\<lambda>_ _. False)\<rparr>"

definition sample_guard :: guard_state where
  "sample_guard = new_read_guard sample_env ''s'' DEFAULT_CONFIG []"

definition sample_read :: "int \<Rightarrow> int \<Rightarrow> read_record" where
  "sample_read offset limit =
     \<lparr>rd_path = ''/w/A'', requested_offset = offset, requested_limit = limit, effective_offset = offset,
      effective_limit = limit, expanded_by_lsp = False, enclosing_symbol = None, line_hashes = None,
      content_binding = None, search_credit = None, turn_index = 0, write_index = 0, timestamp = 1000,
      rd_source = None, provisional = False\<rparr>"

definition no_options :: edit_options where
  "no_options = \<lparr>skip_snapshot_check = False, old_text_resolved = False\<rparr>"

lemma sample_key: "guard_key sample_env ''/w/A'' = ''/w/a''"
  by code_simp

definition recorded_guard :: guard_state where
  "recorded_guard = record_read sample_env (sample_read 1 2) None sample_guard"

lemma recorded_guard_value:
  "recorded_guard =
     \<lparr>rg_config =
        \<lparr>cfg_enabled = True, cfg_mode = Mode_Block, context_lines = 3,
          cfg_exemptions = [(''*.md'', Mode_Warn), (''*.txt'', Mode_Allow), (''*.log'', Mode_Allow)]\<rparr>,
      rg_arrays = [[(sample_read 1 2)\<lparr>rd_path := ''/w/a'', line_hashes := Some [(1, ''e40c292c''), (2, ''e70c2de5'')]\<rparr>]],
      rg_reads = [(''/w/a'', 0)], rg_edits = [], rg_last_used = [(''/w/a'', 1000)], rg_timers = [], rg_consumed = {},
      rg_file_time = [(''s'', [(''/w/a'', \<lparr>read_at = 1000, stamp_mtime = Some 5, stamp_ctime = Some 5, stamp_size = Some 3\<rparr>)])],
      rg_exemptions = {}, rg_pending_creations = [], rg_written = [], rg_unchanged = {},
      rg_known = [(''/w/A'', ''/w/a'')], rg_trims = [], rg_session = ''s'', rg_session_start = 1000, rg_ledger = []\<rparr>"
  by code_simp

lemma sample_recorded: "map_of (rg_reads (record_read sample_env (sample_read 1 2) None sample_guard)) ''/w/a'' = Some 0"
  using recorded_guard_value by (simp add: recorded_guard_def)

lemma reachable_guard_is_sound_witness:
  "reads_of (record_read sample_env (sample_read 1 2) None sample_guard) ''/w/a'' \<noteq> []"
proof -
  have "guard_reachable (record_read sample_env (sample_read 1 2) None sample_guard)"
    unfolding sample_guard_def by (intro reach_step [OF reach_new step_read])
  then show ?thesis by (rule conjunct1 [OF reachable_guard_is_sound [OF _ sample_recorded]])
qed

subsection \<open>Reads that cannot be lost\<close>

lemma cap_loop_within: "length (rg_reads st) \<le> cap \<Longrightarrow> cap_loop consumed reason cap st = st"
  by (subst cap_loop.simps) simp

lemma outstanding_evict:
  "outstanding (evict_file reason p st) q \<longleftrightarrow> q \<noteq> p \<and> outstanding st q"
  by (auto simp: outstanding_def guard_simps map_laws)

lemma reads_of_evict: "reads_of (evict_file reason p st) q = (if q = p then [] else reads_of st q)"
  by (simp add: reads_of_def guard_simps map_laws split: option.split)

text \<open>Below the sanity cap the file cap takes consumed files only.\<close>

lemma cap_keeps_outstanding:
  assumes "length (rg_reads st) \<le> READ_GUARD_MAX_UNCONSUMED_FILES" "outstanding st p"
  shows "outstanding (enforce_file_cap st) p \<and> reads_of (enforce_file_cap st) p = reads_of st p
    \<and> length (rg_reads (enforce_file_cap st)) \<le> READ_GUARD_MAX_UNCONSUMED_FILES"
proof -
  let ?P = "\<lambda>s. length (rg_reads s) \<le> READ_GUARD_MAX_UNCONSUMED_FILES \<and> outstanding s p
      \<and> reads_of s p = reads_of st p"
  let ?s = "cap_loop True File_Cap_Consumed READ_GUARD_MAX_FILES st"
  have "?P ?s"
  proof (rule cap_loop_preserves [where P = ?P])
    show "?P st" using assms by simp
    fix s q assume s: "?P s" and q: "has_key (rg_reads s) q" "(q \<in> rg_consumed s) = True"
    have "length (rg_reads (evict_file File_Cap_Consumed q s)) < length (rg_reads s)"
      using q(1) unfolding has_key_iff by (intro evict_shrinks)
    moreover have "p \<noteq> q" using s q(2) by (auto simp: outstanding_def)
    ultimately show "?P (evict_file File_Cap_Consumed q s)"
      using s by (simp add: outstanding_evict reads_of_evict)
  qed
  then show ?thesis by (simp add: enforce_file_cap_def cap_loop_within)
qed

lemma with_read_views:
  assumes "guard_inv st"
  shows "reads_of (with_read env r c st) q =
      (if q = guard_key env (rd_path r) then pushed c q (stored_read env q r) st else reads_of st q)"
    and "outstanding (with_read env r c st) q \<longleftrightarrow> q = guard_key env (rd_path r) \<or> outstanding st q"
    and "length (rg_reads (with_read env r c st)) \<le> Suc (length (rg_reads st))"
proof -
  define p where "p = guard_key env (rd_path r)"
  define s where "s = st\<lparr>rg_known := AList.update (loose_key env (rd_path r)) p (rg_known st)\<rparr>"
  define st' where "st' = snd (push_read p (stored_read env p r) (supersede c p s))"
  have arr: "arrays_ok s" using assms by (simp add: s_def inv_defs)
  have same: "reads_of s q = reads_of st q" "outstanding s q = outstanding st q" "rg_reads s = rg_reads st" for q
    by (simp_all add: s_def reads_of_def outstanding_def cong: option.case_cong)
  have w: "with_read env r c st = touch_file env p st'"
    by (simp add: with_read_def Let_def p_def s_def st'_def)
  note views = push_read_views [OF arr st'_def] and fields = push_read_fields [OF arr st'_def]
  have pu: "pushed c p x s = pushed c p x st" for x by (simp add: pushed_def same)
  show "reads_of (with_read env r c st) q =
      (if q = guard_key env (rd_path r) then pushed c q (stored_read env q r) st else reads_of st q)"
    using views(1) [of q] by (simp add: w guard_simps same pu p_def [symmetric])
  show "outstanding (with_read env r c st) q \<longleftrightarrow> q = guard_key env (rd_path r) \<or> outstanding st q"
    using views(2) [of q] by (simp add: w guard_simps same p_def [symmetric])
  show "length (rg_reads (with_read env r c st)) \<le> Suc (length (rg_reads st))"
    using fields(1) by (simp add: w guard_simps size_update same)
qed

lemma record_read_views:
  assumes "guard_inv st" "length (rg_reads st) < READ_GUARD_MAX_UNCONSUMED_FILES"
    and "p = guard_key env (rd_path r)"
  shows "reads_of (record_read env r c st) p = pushed c p (stored_read env p r) st"
    and "outstanding (record_read env r c st) p"
    and "outstanding st q \<Longrightarrow> q \<noteq> p \<Longrightarrow>
      outstanding (record_read env r c st) q \<and> reads_of (record_read env r c st) q = reads_of st q"
proof -
  obtain t where t: "record_read env r c st =
      touch_file_time env p (note_trim p t (enforce_file_cap (with_read env r c st)))"
    using record_read_eq [of env r c st] assms(3) by blast
  have same: "reads_of (note_trim p t s) q = reads_of s q" "outstanding (note_trim p t s) q = outstanding s q" for s q
    by (simp_all add: reads_of_def outstanding_def guard_simps cong: option.case_cong)
  have len: "length (rg_reads (with_read env r c st)) \<le> READ_GUARD_MAX_UNCONSUMED_FILES"
    using with_read_views(3) [OF assms(1), of env r c] assms(2) by linarith
  have keep: "outstanding (with_read env r c st) q \<Longrightarrow>
      outstanding (record_read env r c st) q \<and> reads_of (record_read env r c st) q = reads_of (with_read env r c st) q" for q
    using cap_keeps_outstanding [OF len, of q] by (simp add: t guard_simps same)
  show "reads_of (record_read env r c st) p = pushed c p (stored_read env p r) st"
    "outstanding (record_read env r c st) p"
    using keep [of p] with_read_views(1,2) [OF assms(1), of env r c p] assms(3) by simp_all
  show "outstanding (record_read env r c st) q \<and> reads_of (record_read env r c st) q = reads_of st q"
    if "outstanding st q" "q \<noteq> p" for q
    using keep [of q] with_read_views(1,2) [OF assms(1), of env r c q] assms(3) that by simp
qed

subsection \<open>The verdict, without the bookkeeping\<close>

definition opened :: "guard_env \<Rightarrow> path \<Rightarrow> guard_state \<Rightarrow> guard_state" where
  "opened env p st =
     (if has_key (rg_reads st) p \<or> has_key (rg_edits st) p then touch_file env p st else st)"

lemma opened_same [guard_simps]:
  "reads_of (opened env p st) q = reads_of st q" "edits_of (opened env p st) q = edits_of st q"
  "rg_exemptions (opened env p st) = rg_exemptions st" "rg_config (opened env p st) = rg_config st"
  "rg_unchanged (opened env p st) = rg_unchanged st" "rg_written (opened env p st) = rg_written st"
  "rg_session_start (opened env p st) = rg_session_start st" "rg_session (opened env p st) = rg_session st"
  "rg_file_time (opened env p st) = rg_file_time st"
  by (simp_all add: opened_def guard_simps)

lemma check_ranges_opened:
  "check_ranges env (opened env p st) q rs opts mode own single rngs =
   check_ranges env st q rs opts mode own single rngs"
proof (induction rngs)
  case (Cons rng rngs)
  have a: "applied_edits (opened env p st) q = applied_edits st q" by (simp add: applied_edits_def guard_simps)
  show ?case
    by (cases "validate_range_snapshot (rg_config st) (file_lines env q) rs rng")
      (simp_all add: Let_def guard_simps a Cons.IH)
qed simp

lemma was_written_opened [guard_simps]:
  "was_written_this_session env q (opened env p st) = was_written_this_session env q st"
  by (simp add: was_written_this_session_def guard_simps split: option.split)

lemma staleness_opened [guard_simps]:
  "judge_staleness env (opened env p st) q rs t ranges opts = judge_staleness env st q rs t ranges opts"
  "rg_config (opened env p st) = rg_config st"
  by (simp_all add: judge_staleness_def file_changed_def guard_simps can_treat_staleness_as_own_prior_edit_def)

lemma judge_opened:
  "judge_read_file env (opened env p st) q t rs opts mode = judge_read_file env st q t rs opts mode"
  unfolding judge_read_file_def staleness_opened check_ranges_opened opened_same by (rule refl)

definition exemption_override :: "guard_env \<Rightarrow> guard_state \<Rightarrow> path \<Rightarrow> guard_mode option" where
  "exemption_override env st p =
     (if get_exemption_mode (env_regex env) (rg_config st) p = Some Mode_Warn then Some Mode_Warn else None)"

lemma check_edit_verdict:
  fixes env raw
  defines "p \<equiv> guard_key env raw"
  shows "fst (check_edit env raw t rs opts st) =
    (if p \<in> rg_exemptions st \<or> get_exemption_mode (env_regex env) (rg_config st) p = Some Mode_Allow
     then Inr allow_verdict
     else if reads_of st p = [] then
       (if was_written_this_session env p st then Inr allow_verdict
        else Inr (block_or_warn (rg_config st) (Msg_Zero_Read p) None (exemption_override env st p)))
     else judge_read_file env st p t rs opts (exemption_override env st p))"
  unfolding check_edit_def Let_def p_def [symmetric] opened_def [symmetric]
  by (simp add: guard_simps judge_opened exemption_override_def [symmetric] split: sum.split)

subsection \<open>Unread files\<close>

lemma block_or_warn_action:
  "v_action (block_or_warn cfg msg d mode) =
     (if (case mode of Some m \<Rightarrow> m | None \<Rightarrow> cfg_mode cfg) = Mode_Warn then Warn_Edit else Block_Edit)"
  "v_action (block_or_warn cfg msg d mode) \<noteq> Allow_Edit"
  "v_reason (block_or_warn cfg msg d mode) = Some msg"
  by (simp_all add: block_or_warn_def Let_def)

text \<open>C2 (safety): a file the agent has no read of and did not write this session cannot be edited unless
  it is exempt. The verdict is the zero-read message, a warning only where the mode or a pattern says
  so, and the attempt earns nothing: the same edit is refused again.\<close>

theorem unread_file_is_refused:
  fixes env raw
  defines "p \<equiv> guard_key env raw"
  assumes "reads_of st p = []" "p \<notin> rg_exemptions st" "\<not> was_written_this_session env p st"
    and "get_exemption_mode (env_regex env) (rg_config st) p \<noteq> Some Mode_Allow"
  shows "\<exists>v. fst (check_edit env raw t rs opts st) = Inr v \<and> v_reason v = Some (Msg_Zero_Read p)
    \<and> v_action v = (if get_exemption_mode (env_regex env) (rg_config st) p = Some Mode_Warn
                      \<or> cfg_mode (rg_config st) = Mode_Warn then Warn_Edit else Block_Edit)
    \<and> fst (check_edit env raw t' rs' opts' (snd (check_edit env raw t rs opts st))) = Inr v"
proof -
  let ?v = "block_or_warn (rg_config st) (Msg_Zero_Read p) None (exemption_override env st p)"
  let ?st' = "snd (check_edit env raw t rs opts st)"
  have first: "fst (check_edit env raw t rs opts st) = Inr ?v"
    using assms(2-5) by (simp add: check_edit_verdict p_def)
  have st': "?st' = record_verdict env p ''edit'' t ?v (opened env p st)"
    using assms(2-5) unfolding check_edit_def Let_def p_def [symmetric] opened_def [symmetric]
    by (simp add: guard_simps exemption_override_def [symmetric])
  have keep: "reads_of ?st' p = [] \<and> rg_exemptions ?st' = rg_exemptions st \<and> rg_config ?st' = rg_config st
      \<and> was_written_this_session env p ?st' = was_written_this_session env p st"
    using assms(2) unfolding st' record_verdict_def record_edit_def Let_def
    by (simp add: guard_simps was_written_this_session_def reads_of_def opened_def split: option.splits)
  then have again: "fst (check_edit env raw t' rs' opts' ?st') = Inr ?v"
    using assms(2-5) unfolding check_edit_verdict p_def [symmetric]
    by (simp add: exemption_override_def)
  show ?thesis
    using first again by (intro exI [of _ ?v]) (auto simp: block_or_warn_action exemption_override_def)
qed

definition later_guard :: guard_state where
  "later_guard = new_read_guard (sample_env\<lparr>env_now := 900\<rparr>) ''s'' DEFAULT_CONFIG []"

lemma later_guard_facts:
  "reads_of later_guard (guard_key sample_env ''/w/A'') = []"
  "guard_key sample_env ''/w/A'' \<notin> rg_exemptions later_guard"
  "\<not> was_written_this_session sample_env (guard_key sample_env ''/w/A'') later_guard"
  "get_exemption_mode (env_regex sample_env) (rg_config later_guard) (guard_key sample_env ''/w/A'') = None"
  "cfg_mode (rg_config later_guard) = Mode_Block"
  by code_simp+

lemma unread_file_is_refused_witness:
  "\<exists>v. fst (check_edit sample_env ''/w/A'' (Some (1, 2)) None no_options later_guard) = Inr v
     \<and> v_action v = Block_Edit"
proof -
  have "get_exemption_mode (env_regex sample_env) (rg_config later_guard) (guard_key sample_env ''/w/A'')
      \<noteq> Some Mode_Allow"
    by (simp add: later_guard_facts)
  from unread_file_is_refused [OF later_guard_facts(1-3) this, of "Some (1, 2)" None no_options None None no_options]
  show ?thesis unfolding later_guard_facts(4,5) by auto
qed

subsection \<open>Exemptions\<close>

lemma push_supersede_same [guard_simps]:
  "rg_exemptions (snd (push_read p r st)) = rg_exemptions st"
  "rg_exemptions (supersede c p st) = rg_exemptions st"
  by (simp_all add: push_read_def supersede_def Let_def case_prod_beta split: option.split)

lemma record_read_exemptions [guard_simps]:
  "rg_exemptions (record_read env r c st) = rg_exemptions st"
proof -
  have "rg_exemptions (with_read env r c st) = rg_exemptions st"
    by (simp add: with_read_def Let_def guard_simps)
  moreover obtain t where "record_read env r c st = touch_file_time env (guard_key env (rd_path r))
      (note_trim (guard_key env (rd_path r)) t (enforce_file_cap (with_read env r c st)))"
    using record_read_eq [of env r c st] by blast
  ultimately show ?thesis by (simp add: guard_simps)
qed

lemma record_verdict_exemptions [guard_simps]:
  "rg_exemptions (record_verdict env p tool t v st) = rg_exemptions st"
  by (simp add: record_verdict_def record_edit_def Let_def guard_simps)

lemma inject_exemptions [guard_simps]:
  "rg_exemptions (inject_creation_read env p t w st) = rg_exemptions st"
  by (simp add: inject_creation_read_def guard_simps split: option.split)

text \<open>An exemption the user grants allows exactly one edit of that file: the next check of the
  file is allowed and spends it, whatever its verdict would have been, and no other exemption moves.\<close>

theorem exemption_is_spent_once:
  "rg_exemptions (snd (check_edit env raw t rs opts st)) = rg_exemptions st - {guard_key env raw}
   \<and> fst (check_edit env raw t rs opts (add_exemption env raw st)) = Inr allow_verdict
   \<and> guard_key env raw \<notin> rg_exemptions (snd (check_edit env raw t rs opts (add_exemption env raw st)))"
proof -
  have "rg_exemptions (snd (check_edit env raw t rs opts st)) = rg_exemptions st - {guard_key env raw}" for st
    unfolding check_edit_def Let_def opened_def [symmetric]
    by (simp add: guard_simps split: sum.split)
  then show ?thesis by (simp add: check_edit_verdict add_exemption_def)
qed

subsection \<open>Why an edit is allowed\<close>

lemma check_ranges_passed:
  "check_ranges env st p rs opts mode own single rngs = Inr None \<Longrightarrow> rng \<in> set rngs \<Longrightarrow>
   covered (check_coverage (rg_config st) rs rng)
   \<and> (\<exists>sv. validate_range_snapshot (rg_config st) (file_lines env p) rs rng = Inr sv
        \<and> (skip_snapshot_check opts \<or> \<not> should_block sv))"
  by (induction rngs) (auto simp: Let_def split: sum.splits if_splits)

lemma check_ranges_no_allow:
  "check_ranges env st p rs opts mode own single rngs = Inr (Some v) \<Longrightarrow> v_action v \<noteq> Allow_Edit"
proof (induction rngs)
  case (Cons rng rngs)
  have "v_action (range_stale_verdict cfg p rs rng sv rel single m) \<noteq> Allow_Edit" for cfg sv rel m
    using block_or_warn_action(2) by (simp add: range_stale_verdict_def)
  moreover have "v_action (out_of_range_verdict cfg p rs rng m) \<noteq> Allow_Edit" for cfg m
    using block_or_warn_action(2) by (simp add: out_of_range_verdict_def Let_def)
  ultimately show ?case using Cons by (auto simp: Let_def split: sum.splits if_splits)
qed simp

lemma judge_allowed:
  assumes "judge_read_file env st p t ranges opts mode = Inr v" "v_action v = Allow_Edit"
  shows "binding_broken env p (reads_of st p) = None
    \<and> judge_staleness env st p (reads_of st p) t ranges opts \<noteq> Stale
    \<and> (\<forall>touched rng. t = Some touched \<longrightarrow> rng \<in> set (ranges_to_check touched ranges) \<longrightarrow>
         covered (check_coverage (rg_config st) (reads_of st p) rng)
         \<and> (\<exists>sv. validate_range_snapshot (rg_config st) (file_lines env p) (reads_of st p) rng = Inr sv
              \<and> (skip_snapshot_check opts \<or> \<not> should_block sv)))"
proof -
  have b: "binding_broken env p (reads_of st p) = None"
    using assms block_or_warn_action(2) by (auto simp: judge_read_file_def Let_def split: option.splits)
  have s: "judge_staleness env st p (reads_of st p) t ranges opts \<noteq> Stale"
    using assms block_or_warn_action(2) by (auto simp: judge_read_file_def Let_def b split: option.splits)
  let ?own = "judge_staleness env st p (reads_of st p) t ranges opts = Ignored_Own_Edit"
  have "check_ranges env st p (reads_of st p) opts mode ?own (length (ranges_to_check touched ranges) = 1)
      (ranges_to_check touched ranges) = Inr None" if "t = Some touched" for touched
    using assms that s check_ranges_no_allow
    by (fastforce simp: judge_read_file_def Let_def b split: sum.splits option.splits)
  then show ?thesis using b s check_ranges_passed by blast
qed

text \<open>C1 (safety): an edit that names the lines it touches is let through for one of four reasons only. The file
  is exempt; or its configured mode is to allow; or it has no reads and the agent wrote it this session;
  or it has reads whose content binding holds, no unexplained change was seen, and every range the edit
  touches is covered by the reads and, unless the caller asked to skip the snapshot check, its snapshot
  verdict is not one that blocks.\<close>

theorem allowed_edit_is_justified:
  fixes env raw
  defines "p \<equiv> guard_key env raw"
  assumes "fst (check_edit env raw (Some touched) ranges opts st) = Inr v" "v_action v = Allow_Edit"
  shows "p \<in> rg_exemptions st
    \<or> get_exemption_mode (env_regex env) (rg_config st) p = Some Mode_Allow
    \<or> (reads_of st p = [] \<and> was_written_this_session env p st)
    \<or> (reads_of st p \<noteq> [] \<and> binding_broken env p (reads_of st p) = None
        \<and> judge_staleness env st p (reads_of st p) (Some touched) ranges opts \<noteq> Stale
        \<and> (\<forall>rng \<in> set (ranges_to_check touched ranges).
             covered (check_coverage (rg_config st) (reads_of st p) rng)
             \<and> (\<exists>sv. validate_range_snapshot (rg_config st) (file_lines env p) (reads_of st p) rng = Inr sv
                  \<and> (skip_snapshot_check opts \<or> \<not> should_block sv))))"
proof -
  have "judge_read_file env st p (Some touched) ranges opts (exemption_override env st p) = Inr v
      \<and> reads_of st p \<noteq> []
    \<or> p \<in> rg_exemptions st \<or> get_exemption_mode (env_regex env) (rg_config st) p = Some Mode_Allow
    \<or> (reads_of st p = [] \<and> was_written_this_session env p st)"
    using assms(2,3) block_or_warn_action(2)
    by (auto simp: check_edit_verdict p_def split: if_splits)
  then show ?thesis
    using judge_allowed [of env st p "Some touched" ranges opts "exemption_override env st p" v] assms(3)
    by blast
qed

subsection \<open>Drifted lines\<close>

lemma snapshot_loop_checked:
  assumes "snapshot_loop lines rng i rs sv = Inr sv'" "sv_status sv \<noteq> Snap_Match"
    and "\<forall>r \<in> set rs. snapshot_missing r rng = []"
    and "sv_last_unavailable sv = None" "sv_hash_unavailable sv = 0"
    and "rs \<noteq> [] \<or> (sv_status sv = Snap_Mismatch \<and> sv_checked sv > 0)"
  shows "should_block sv' \<or> (\<exists>r \<in> set rs. \<exists>ls. lines = Some ls \<and> (\<forall>n \<in> {fst rng..snd rng}. line_matches ls r n))"
  using assms
proof (induction lines rng i rs sv rule: snapshot_loop.induct)
  case (1 lines rng i sv)
  then show ?case by (auto simp: should_block_def not_after_def)
next
  case (2 lines rng i r rs sv)
  have miss: "snapshot_missing r rng = []" using "2.prems"(3) by simp
  obtain c where c: "current_lines_match_read_snapshot lines r rng = Inr c"
    using "2.prems"(1) by (auto split: sum.splits)
  then have ch: "checked c"
    using miss by (auto simp: current_lines_match_read_snapshot_def Let_def split: option.splits if_splits)
  show ?case
  proof (cases "matches c")
    case True
    then obtain ls where "lines = Some ls" "filter (\<lambda>n. \<not> line_matches ls r n) [fst rng..snd rng] = []"
      using c miss by (auto simp: current_lines_match_read_snapshot_def Let_def split: option.splits if_splits)
    then show ?thesis by (auto simp: filter_empty_conv)
  next
    case False
    let ?sv = "sv\<lparr>sv_checked := sv_checked sv + 1, sv_status := Snap_Mismatch, sv_missing := [],
        sv_mismatched := mismatched_lines c, sv_last_mismatch := later (sv_last_mismatch sv) (timestamp r)\<rparr>"
    have "snapshot_loop lines rng (Suc i) rs ?sv = Inr sv'"
      using "2.prems"(1) c ch False by simp
    then show ?thesis
      using "2.IH"(2) [OF c] ch False "2.prems" by auto
  qed
qed


lemma recorded_fact1:
  "reads_of recorded_guard ''/w/a'' =
     [(sample_read 1 2)\<lparr>rd_path := ''/w/a'', line_hashes := Some [(1, ''e40c292c''), (2, ''e70c2de5'')]\<rparr>]"
  by (simp add: recorded_guard_value reads_of_def)

lemma recorded_fact2: "rg_exemptions recorded_guard = {}"
  by (simp add: recorded_guard_value)

lemma recorded_fact3:
  "get_exemption_mode (env_regex sample_env) (rg_config recorded_guard) ''/w/a'' = None"
  unfolding recorded_guard_value by code_simp

lemma recorded_fact4:
  "context_lines (rg_config recorded_guard) = 3"
  by (simp add: recorded_guard_value)

lemma recorded_fact5:
  "judge_read_file sample_env recorded_guard ''/w/a'' (Some (1, 2)) None no_options None = Inr allow_verdict"
  unfolding recorded_guard_value by code_simp

lemma recorded_fact6:
  "fst (check_edit sample_env ''/w/A'' (Some (1, 2)) None no_options recorded_guard) = Inr allow_verdict"
  unfolding recorded_guard_value by code_simp

lemmas recorded_facts = recorded_fact5 recorded_fact6 recorded_fact1 recorded_fact2 recorded_fact3 recorded_fact4

lemma allowed_edit_is_justified_witness:
  "binding_broken sample_env ''/w/a'' (reads_of recorded_guard ''/w/a'') = None
   \<and> covered (check_coverage (rg_config recorded_guard) (reads_of recorded_guard ''/w/a'') (1, 2))"
  using allowed_edit_is_justified [OF recorded_facts(2)]
  by (simp add: allow_verdict_def sample_key recorded_facts(3-5) ranges_to_check_def)


subsection \<open>An honest read is enough\<close>

lemma genuine_read_is_kept:
  assumes "length rs \<le> READ_GUARD_MAX_RECORDS_PER_FILE" "\<not> is_credit r"
  shows "r \<in> set (snd (enforce_record_cap_for_file (rs @ [r])))"
proof (cases "READ_GUARD_MAX_RECORDS_PER_FILE < length (rs @ [r])")
  case False
  then show ?thesis by (simp add: enforce_record_cap_for_file_def)
next
  case True
  let ?g = "\<lambda>x. \<not> is_credit x"
  have len: "length (filter is_credit rs) + length (filter ?g rs) = length rs"
    by (rule sum_length_filter_compl)
  have "cap_genuine (rs @ [r]) \<le> length (filter ?g rs)"
    using True assms len by (auto simp: cap_genuine_def cap_credits_def READ_GUARD_MAX_RECORDS_PER_FILE_def)
  then have "r \<in> set (drop (cap_genuine (rs @ [r])) (filter ?g (rs @ [r])))"
    using assms(2) by simp
  then have "r \<in> set (filter ?g (snd (enforce_record_cap_for_file (rs @ [r]))))"
    unfolding record_cap_kept(2) [OF True] .
  then show ?thesis by simp
qed

lemma snapshot_loop_match:
  assumes "r \<in> set rs" "snapshot_missing r rng = []" "\<forall>n \<in> {fst rng..snd rng}. line_matches ls r n"
  shows "\<exists>sv'. snapshot_loop (Some ls) rng i rs sv = Inr sv' \<and> sv_status sv' = Snap_Match"
  using assms(1)
proof (induction rs arbitrary: i sv)
  case (Cons x rs)
  obtain c where c: "current_lines_match_read_snapshot (Some ls) x rng = Inr c"
    by (cases "snapshot_missing x rng = []") (simp_all add: current_lines_match_read_snapshot_def Let_def)
  show ?case
  proof (cases "x = r")
    case True
    have "filter (\<lambda>n. \<not> line_matches ls r n) [fst rng..snd rng] = []"
      using assms(3) by (simp add: filter_empty_conv)
    then have "checked c \<and> matches c"
      using c True assms(2) by (auto simp: current_lines_match_read_snapshot_def Let_def)
    then show ?thesis using c by simp
  next
    case False
    then have "r \<in> set rs" using Cons.prems by simp
    then show ?thesis using c Cons.IH [of "Suc i"] by (cases "checked c"; cases "matches c") simp_all
  qed
qed simp

lemma captured_hash:
  assumes "capture_line_hashes tun (Some ls) off lim = Some hs" "max 1 off \<le> n"
    and "n \<le> min (int (length ls)) (off + lim - 1)"
  shows "map_of hs n = Some (line_content_hash (ls ! nat (n - 1)))"
proof -
  have "hs = map (\<lambda>n. (n, line_content_hash (ls ! nat (n - 1)))) [max 1 off..min (int (length ls)) (off + lim - 1)]"
    using assms(1) by (auto simp: capture_line_hashes_def Let_def split: if_splits)
  then show ?thesis using assms(2,3) by (simp add: map_of_map_restrict restrict_map_def)
qed

end
