(* ===== verification/Read_Guard_Sessions.thy ===== *)
theory Read_Guard_Sessions
  imports Read_Guard_Verdicts
begin

text \<open>
  Sequences of read-guard operations: a read followed by an edit, what eviction may take from an
  outstanding read, persistence across a resume, external deletion, and what the summary counts.
\<close>

subsection \<open>A read followed by an edit\<close>

text \<open>The change detector of \<open>File_Time\<close>, as the guard uses it.\<close>

lemma record_read_file_time:
  "rg_file_time (record_read env r c st) =
     snd (file_time_read (resolve_path env) (env_now env) (env_disk env) (rg_session st)
       (guard_key env (rd_path r)) (rg_file_time st))"
  "rg_session (record_read env r c st) = rg_session st"
  "rg_config (record_read env r c st) = rg_config st"
proof -
  have w: "rg_file_time (with_read env r c st) = rg_file_time st" "rg_session (with_read env r c st) = rg_session st"
    "rg_config (with_read env r c st) = rg_config st"
    by (simp_all add: with_read_def Let_def guard_simps push_read_def supersede_def case_prod_beta split: option.split)
  obtain t where t: "record_read env r c st = touch_file_time env (guard_key env (rd_path r))
      (note_trim (guard_key env (rd_path r)) t (enforce_file_cap (with_read env r c st)))"
    using record_read_eq [of env r c st] by blast
  show "rg_file_time (record_read env r c st) =
     snd (file_time_read (resolve_path env) (env_now env) (env_disk env) (rg_session st)
       (guard_key env (rd_path r)) (rg_file_time st))"
    "rg_session (record_read env r c st) = rg_session st"
    "rg_config (record_read env r c st) = rg_config st"
    by (simp_all add: t touch_file_time_def guard_simps w)
qed

lemma record_read_settles:
  "\<not> file_changed env (guard_key env (rd_path r)) (record_read env r c st)"
  unfolding file_changed_def record_read_file_time
  by (rule file_time.settled) simp

lemma pushed_member:
  assumes "guard_inv st" "\<not> is_credit r"
  shows "r \<in> set (pushed None p r st)"
proof -
  have "length (reads_of st p) \<le> READ_GUARD_MAX_RECORDS_PER_FILE"
    using assms(1) by (auto simp: guard_inv_def arrays_ok_def reads_of_def split: option.split)
  then show ?thesis
    using assms(2) by (simp add: pushed_def after_supersede_def genuine_read_is_kept)
qed

lemma pushed_subset: "set (pushed None p r st) \<subseteq> insert r (set (reads_of st p))"
  using record_cap_subset [of "reads_of st p @ [r]"] by (auto simp: pushed_def after_supersede_def)

text \<open>C4 (liveness): reading the lines is enough to edit them, in a file no read has bound to its content. In a
  reachable guard that tracks fewer files than its sanity cap, record a genuine, confirmed read that is
  not hashed yet, of a file none of whose reads, this one included, carries a content binding. Then an
  edit of any single range that lies within the read's effective lines and within the file is allowed on
  the same disk, whatever older reads of the file say, as long as the read has no more lines than are
  hashed and the configured context is not negative.\<close>

theorem read_then_edit_is_allowed:
  fixes env r
  defines "p \<equiv> guard_key env (rd_path r)"
  assumes "guard_reachable st" "length (rg_reads st) < READ_GUARD_MAX_UNCONSUMED_FILES"
    and "env_disk env p = Some f" "e \<le> int (length (split_lines (file_text f)))"
    and "max 1 (effective_offset r) \<le> s" "s \<le> e" "e \<le> effective_offset r + effective_limit r - 1"
    and "effective_limit r \<le> hash_max_lines (env_tuning env)" "0 \<le> context_lines (rg_config st)"
    and "\<not> provisional r" "\<not> is_credit r" "line_hashes r = None"
    and "\<forall>x \<in> set (r # reads_of st p). content_binding x = None"
  shows "fst (check_edit env (rd_path r) (Some (s, e)) None opts (record_read env r None st)) = Inr allow_verdict"
proof -
  let ?st = "record_read env r None st" and ?r = "stored_read env p r"
  let ?ls = "split_lines (file_text f)"
  have inv: "guard_inv st" by (rule reachable_inv [OF assms(2)])
  have ls: "file_lines env p = Some ?ls" using assms(4) by (simp add: file_lines_def)
  have rs: "reads_of ?st p = pushed None p ?r st"
    using record_read_views(1) [OF inv assms(3)] p_def by blast
  have mem: "?r \<in> set (reads_of ?st p)"
    unfolding rs using assms(12) by (intro pushed_member inv) (simp add: stored_read_def)
  obtain hs where hs: "capture_line_hashes (env_tuning env) (Some ?ls) (effective_offset r) (effective_limit r) = Some hs"
  proof -
    have "\<not> min (int (length ?ls)) (effective_offset r + effective_limit r - 1) < max 1 (effective_offset r)"
      using assms(5-8) by linarith
    moreover have "0 < effective_limit r" using assms(6-8) by linarith
    ultimately show thesis using assms(9) that by (simp add: capture_line_hashes_def Let_def)
  qed
  have fields: "effective_offset ?r = effective_offset r" "effective_limit ?r = effective_limit r"
    "provisional ?r = provisional r" "line_hashes ?r = Some hs"
    using assms(13) hs by (simp_all add: stored_read_def ls)
  have hash: "hash_at ?r n = Some (line_content_hash (?ls ! nat (n - 1)))" if "n \<in> {s..e}" for n
    using captured_hash [OF hs, of n] that assms(5,6,8) by (simp add: hash_at_def fields)
  have bind: "binding_broken env p (reads_of ?st p) = None"
  proof -
    have "\<forall>x \<in> set (reads_of ?st p). content_binding x = None"
      using pushed_subset [of p ?r st] assms(14) unfolding rs by (auto simp: stored_read_def)
    then have "last_bound_read (reads_of ?st p) = None"
      by (auto simp: last_bound_read_def find_None_iff)
    then show ?thesis by (simp add: binding_broken_def)
  qed
  have fresh: "judge_staleness env ?st p (reads_of ?st p) (Some (s, e)) None opts = Fresh"
    using record_read_settles [of env r None st] by (simp add: judge_staleness_def p_def)
  have covers: "within (s, e) (read_interval (rg_config ?st) ?r)"
    using assms(6-8,10) by (simp add: within_def read_interval_def fields record_read_file_time(3))
  have cov: "covered (check_coverage (rg_config ?st) (reads_of ?st p) (s, e))"
    using within_granted [OF mem _ covers] assms(7,11) check_coverage_iff [of "(s, e)"] fields(3) by simp
  have "\<exists>sv. validate_range_snapshot (rg_config ?st) (Some ?ls) (reads_of ?st p) (s, e) = Inr sv
      \<and> sv_status sv = Snap_Match"
    unfolding validate_range_snapshot_def
  proof (rule snapshot_loop_match)
    show "?r \<in> set (filter (\<lambda>r. read_covers_range (rg_config ?st) r (s, e)) (reads_of ?st p))"
      using mem covers by (simp add: read_covers_range_def)
    show "snapshot_missing ?r (s, e) = []"
      using hash assms(6,8) by (auto simp: snapshot_missing_def filter_empty_conv read_range_covers_line_def fields)
    show "\<forall>n \<in> {fst (s, e)..snd (s, e)}. line_matches ?ls ?r n"
      using hash assms(5,6) by (auto simp: line_matches_def)
  qed
  then have passed: "check_ranges env ?st p (reads_of ?st p) opts mode own single [(s, e)] = Inr None" for mode own single
    using cov by (auto simp: Let_def ls should_block_def)
  have "judge_read_file env ?st p (Some (s, e)) None opts mode = Inr allow_verdict" for mode
    by (simp add: judge_read_file_def Let_def bind fresh ranges_to_check_def passed del: check_ranges.simps)
  moreover have "reads_of ?st p \<noteq> []" using mem by auto
  ultimately show ?thesis by (simp add: check_edit_verdict p_def [symmetric])
qed

lemma sample_guard_reachable: "guard_reachable sample_guard"
  by (simp add: sample_guard_def reach_new)

lemma read_then_edit_is_allowed_witness:
  "fst (check_edit sample_env ''/w/A'' (Some (2, 2)) None no_options
     (record_read sample_env (sample_read 1 2) None sample_guard)) = Inr allow_verdict"
proof -
  have d: "env_disk sample_env (guard_key sample_env (rd_path (sample_read 1 2))) =
      Some \<lparr>file_text = ''a'' @ [LF] @ ''b'', file_size = 3, file_mtime = 5, file_ctime = 5\<rparr>"
  proof -
    have k: "guard_key sample_env (rd_path (sample_read 1 2)) = ''/w/a''"
      by (simp add: sample_read_def sample_key)
    show ?thesis unfolding k by (simp add: sample_env_def sample_disk_def)
  qed
  have n: "length (split_lines (''a'' @ [LF] @ ''b'')) = 2" by code_simp
  have "fst (check_edit sample_env (rd_path (sample_read 1 2)) (Some (2, 2)) None no_options
     (record_read sample_env (sample_read 1 2) None sample_guard)) = Inr allow_verdict"
    by (rule read_then_edit_is_allowed [OF sample_guard_reachable _ d])
      (simp_all add: n sample_guard_def new_read_guard_def READ_GUARD_MAX_UNCONSUMED_FILES_def sample_read_def
        sample_env_def DEFAULT_CONFIG_def reads_of_def del: append.simps)
  then show ?thesis by (simp add: sample_read_def)
qed

subsection \<open>What eviction may take\<close>

lemma cap_loop_done:
  "length (rg_reads (cap_loop consumed reason cap st)) \<le> cap
   \<or> cap_victims consumed (cap_loop consumed reason cap st) = []
   \<or> [] \<in> set (keys_of (rg_reads (cap_loop consumed reason cap st)))"
proof (induction "length (rg_reads st)" arbitrary: st rule: less_induct)
  case less
  show ?case
  proof (cases "length (rg_reads st) > cap \<and> cap_victims consumed st \<noteq> [] \<and> hd (cap_victims consumed st) \<noteq> []")
    case True
    then obtain p ps where v: "cap_victims consumed st = p # ps" "p \<noteq> []"
      by (cases "cap_victims consumed st") auto
    have "cap_loop consumed reason cap st = cap_loop consumed reason cap (evict_file reason p st)"
      using True v by (simp add: cap_loop.simps [of consumed reason cap st])
    then show ?thesis using less.hyps [OF evict_shrinks [OF cap_victim_key [OF v(1)]]] by simp
  next
    case False
    then have eq: "cap_loop consumed reason cap st = st"
      by (subst cap_loop.simps) (auto split: list.splits)
    show ?thesis
    proof (cases "cap_victims consumed st")
      case (Cons p ps)
      then show ?thesis using False cap_victim_key [OF Cons] by (cases "p = []") (auto simp: eq simp del: set_map)
    qed (simp add: eq)
  qed
qed

lemma cap_keys_subset: "set (keys_of (rg_reads (enforce_file_cap st))) \<subseteq> set (keys_of (rg_reads st))"
  by (rule cap_preserves [where P = "\<lambda>s. set (keys_of (rg_reads s)) \<subseteq> set (keys_of (rg_reads st))"])
    (auto simp: guard_simps keys_delete simp del: set_map)

lemma cap_victims_empty:
  "cap_victims consumed st = [] \<longleftrightarrow> (\<forall>p \<in> set (keys_of (rg_reads st)). (p \<in> rg_consumed st) \<noteq> consumed)"
proof -
  have "set (cap_victims consumed st) = {p \<in> set (keys_of (rg_reads st)). (p \<in> rg_consumed st) = consumed}"
    by (simp only: cap_victims_def set_sort set_filter)
  then have "cap_victims consumed st = [] \<longleftrightarrow>
      {p \<in> set (keys_of (rg_reads st)). (p \<in> rg_consumed st) = consumed} = {}"
    using set_empty [of "cap_victims consumed st"] by (simp only:)
  then show ?thesis by (simp only: Collect_empty_eq) blast
qed

lemma cap_loop_keys:
  "set (keys_of (rg_reads (cap_loop consumed reason cap st))) \<subseteq> set (keys_of (rg_reads st))"
  by (rule cap_loop_preserves [where P = "\<lambda>s. set (keys_of (rg_reads s)) \<subseteq> set (keys_of (rg_reads st))"])
    (auto simp: guard_simps keys_delete simp del: set_map)

text \<open>The file cap always leaves at most 4096 tracked files, and at most 256 unless every file
  left has an outstanding read; consumed files go first. (The empty key, which no real path has,
  would stop the eviction loop early.)\<close>

theorem file_cap_bounds_tracked_files:
  assumes "[] \<notin> set (keys_of (rg_reads st))"
  shows "length (rg_reads (enforce_file_cap st)) \<le> 4096
    \<and> (length (rg_reads (enforce_file_cap st)) \<le> 256
       \<or> (\<forall>p. has_key (rg_reads (enforce_file_cap st)) p \<longrightarrow> outstanding (enforce_file_cap st) p))"
proof -
  let ?s = "cap_loop True File_Cap_Consumed READ_GUARD_MAX_FILES st"
  let ?t = "enforce_file_cap st"
  have t: "?t = cap_loop False File_Cap_Unconsumed READ_GUARD_MAX_UNCONSUMED_FILES ?s"
    by (simp add: enforce_file_cap_def)
  have nes: "[] \<notin> set (keys_of (rg_reads ?s))" using assms cap_loop_keys by blast
  have net: "[] \<notin> set (keys_of (rg_reads ?t))" using assms cap_keys_subset by blast
  have sub: "set (keys_of (rg_reads ?t)) \<subseteq> set (keys_of (rg_reads ?s)) \<and> rg_consumed ?t \<subseteq> rg_consumed ?s
      \<and> length (rg_reads ?t) \<le> length (rg_reads ?s)"
    unfolding t
    by (rule cap_loop_preserves [where P = "\<lambda>x. set (keys_of (rg_reads x)) \<subseteq> set (keys_of (rg_reads ?s))
        \<and> rg_consumed x \<subseteq> rg_consumed ?s \<and> length (rg_reads x) \<le> length (rg_reads ?s)"])
      (auto simp: guard_simps keys_delete length_delete_le simp del: set_map intro: le_trans [OF length_delete_le])
  have small: "length (rg_reads ?s) \<le> 256 \<or> (\<forall>p \<in> set (keys_of (rg_reads ?s)). p \<notin> rg_consumed ?s)"
    using cap_loop_done [of True File_Cap_Consumed READ_GUARD_MAX_FILES st] nes
    unfolding cap_victims_empty by (auto simp: READ_GUARD_MAX_FILES_def simp del: set_map)
  have "length (rg_reads ?t) \<le> 4096"
  proof (cases "length (rg_reads ?s) \<le> 256")
    case True then show ?thesis using sub by simp
  next
    case False
    then have "\<forall>p \<in> set (keys_of (rg_reads ?t)). p \<notin> rg_consumed ?t" using small sub by blast
    moreover have "length (rg_reads ?t) \<le> 4096 \<or> cap_victims False ?t = []"
      using cap_loop_done [of False File_Cap_Unconsumed READ_GUARD_MAX_UNCONSUMED_FILES ?s] net
      unfolding t [symmetric] unfolding READ_GUARD_MAX_UNCONSUMED_FILES_def by blast
    ultimately have "length (rg_reads ?t) \<le> 4096 \<or> keys_of (rg_reads ?t) = []"
      unfolding cap_victims_empty by (metis list.set_intros(1) neq_Nil_conv)
    then show ?thesis by auto
  qed
  then show ?thesis
    using small sub unfolding outstanding_def has_key_iff
    by (meson le_trans subsetD)
qed

lemma file_cap_bounds_tracked_files_witness:
  "[] \<notin> set (keys_of (rg_reads recorded_guard)) \<and> length (rg_reads (enforce_file_cap recorded_guard)) \<le> 4096"
proof -
  have ne: "[] \<notin> set (keys_of (rg_reads recorded_guard))" by (simp add: recorded_guard_value)
  show ?thesis using ne conjunct1 [OF file_cap_bounds_tracked_files [OF ne]] by (rule conjI)
qed

subsection \<open>Persistence\<close>

abbreviation tracked :: "guard_state \<Rightarrow> path set" where
  "tracked st \<equiv> set (keys_of (rg_reads st))"

lemma tracked_card: "guard_inv st \<Longrightarrow> length (rg_reads st) = card (tracked st)"
  unfolding guard_inv_def maps_ok_def by (metis distinct_card length_map)

lemma reads_of_untracked: "p \<notin> tracked st \<Longrightarrow> reads_of st p = []"
  using has_key_iff [of "rg_reads st" p] by (auto simp: reads_of_def)

lemma record_read_tracked:
  assumes "guard_inv st"
  shows "tracked (record_read env r c st) \<subseteq> insert (guard_key env (rd_path r)) (tracked st)"
proof -
  define p where "p = guard_key env (rd_path r)"
  define s where "s = st\<lparr>rg_known := AList.update (loose_key env (rd_path r)) p (rg_known st)\<rparr>"
  have arr: "arrays_ok s" using assms by (simp add: s_def inv_defs)
  have "tracked (with_read env r c st) \<subseteq> insert p (tracked st)"
    using push_read_fields(1) [OF arr refl, of p "stored_read env p r" c]
    by (auto simp: with_read_def Let_def p_def [symmetric] s_def [symmetric] guard_simps keys_update
        simp del: set_map) (auto simp: s_def)
  then show ?thesis
    using record_read_eq [of env r c st] cap_keys_subset [of "with_read env r c st"]
    by (metis (no_types, lifting) guard_simps p_def subset_trans)
qed

text \<open>A guard in which nothing was consumed, with room for extra files.\<close>

definition roomy :: "path set \<Rightarrow> guard_state \<Rightarrow> bool" where
  "roomy extra st \<longleftrightarrow> guard_inv st \<and> (\<forall>p \<in> tracked st. outstanding st p)
     \<and> finite extra \<and> card (tracked st \<union> extra) < READ_GUARD_MAX_UNCONSUMED_FILES"

lemma roomy_read:
  assumes "roomy extra st" "p = guard_key env (rd_path r)" "p \<in> extra"
    and "length (reads_of st p) < READ_GUARD_MAX_RECORDS_PER_FILE"
  shows "roomy extra (record_read env r None st)"
    and "reads_of (record_read env r None st) p = reads_of st p @ [stored_read env p r]"
    and "q \<noteq> p \<Longrightarrow> reads_of (record_read env r None st) q = reads_of st q"
proof -
  have inv: "guard_inv st" and out: "\<forall>p \<in> tracked st. outstanding st p" and fin: "finite extra"
    and card: "card (tracked st \<union> extra) < READ_GUARD_MAX_UNCONSUMED_FILES"
    using assms(1) by (auto simp: roomy_def)
  have "card (tracked st) \<le> card (tracked st \<union> extra)" using fin by (intro card_mono) auto
  then have len: "length (rg_reads st) < READ_GUARD_MAX_UNCONSUMED_FILES"
    using card tracked_card [OF inv] by simp
  note views = record_read_views [OF inv len assms(2)]
  show "reads_of (record_read env r None st) p = reads_of st p @ [stored_read env p r]"
    using assms(4) by (simp add: views(1) pushed_def after_supersede_def enforce_record_cap_for_file_def)
  have sub: "tracked (record_read env r None st) \<subseteq> insert p (tracked st)"
    using record_read_tracked [OF inv] assms(2) by simp
  have "card (tracked (record_read env r None st) \<union> extra) \<le> card (tracked st \<union> extra)"
    using sub assms(3) fin by (intro card_mono) auto
  moreover have "outstanding (record_read env r None st) q" if "q \<in> tracked (record_read env r None st)" for q
    using that sub out views(2,3) by blast
  ultimately show "roomy extra (record_read env r None st)"
    using inv_record_read [OF inv] card fin by (auto simp: roomy_def)
  show "reads_of (record_read env r None st) q = reads_of st q" if "q \<noteq> p"
  proof (cases "q \<in> tracked st")
    case True
    then show ?thesis using views(3) out that by blast
  next
    case False
    then have "q \<notin> tracked (record_read env r None st)" using sub that by blast
    then show ?thesis using False reads_of_untracked by metis
  qed
qed

lemma still_match_path [simp]:
  "read_hashes_still_match (r\<lparr>rd_path := p\<rparr>) ls = read_hashes_still_match r ls"
  by (simp add: read_hashes_still_match_def)

lemma stored_match: "read_hashes_still_match r ls \<Longrightarrow> stored_read env p (r\<lparr>rd_path := p\<rparr>) = r\<lparr>rd_path := p\<rparr>"
  by (cases r) (auto simp: stored_read_def read_hashes_still_match_def Let_def split: option.splits)

lemma import_reads_effect:
  assumes "roomy extra st" "guard_key env p = p" "p \<in> extra"
    and "length (reads_of st p) + length rs \<le> READ_GUARD_MAX_RECORDS_PER_FILE"
  shows "roomy extra (snd (import_reads env p ls rs (n, st)))
    \<and> reads_of (snd (import_reads env p ls rs (n, st))) p =
        reads_of st p @ map (\<lambda>r. r\<lparr>rd_path := p\<rparr>) (filter (\<lambda>r. read_hashes_still_match r ls) rs)
    \<and> (\<forall>q. q \<noteq> p \<longrightarrow> reads_of (snd (import_reads env p ls rs (n, st))) q = reads_of st q)"
  using assms
proof (induction rs arbitrary: n st)
  case (Cons r rs)
  show ?case
  proof (cases "read_hashes_still_match r ls")
    case True
    let ?st = "record_read env (r\<lparr>rd_path := p\<rparr>) None st"
    have key: "p = guard_key env (rd_path (r\<lparr>rd_path := p\<rparr>))" using Cons.prems(2) by simp
    have len: "length (reads_of st p) < READ_GUARD_MAX_RECORDS_PER_FILE" using Cons.prems(4) by simp
    note rr = roomy_read [OF Cons.prems(1) key Cons.prems(3) len]
    have "length (reads_of ?st p) + length rs \<le> READ_GUARD_MAX_RECORDS_PER_FILE"
      using Cons.prems(4) by (simp add: rr(2))
    from Cons.IH [OF rr(1) Cons.prems(2,3) this]
    show ?thesis using True rr(2,3) stored_match [OF True, of env p] by (simp add: Let_def)
  next
    case False
    then show ?thesis using Cons.IH [OF Cons.prems(1-3)] Cons.prems(4) by (simp add: Let_def)
  qed
qed simp

fun entry_path :: "persisted_entry \<Rightarrow> path" where
  "entry_path Malformed_Entry = []"
| "entry_path (Persisted_Reads p rs) = p"

definition entry_ok :: "guard_env \<Rightarrow> persisted_entry \<Rightarrow> bool" where
  "entry_ok env x \<longleftrightarrow> (\<exists>p rs. x = Persisted_Reads p rs \<and> rs \<noteq> [] \<and> guard_key env p = p
     \<and> length rs \<le> READ_GUARD_MAX_RECORDS_PER_FILE)"

definition verified_reads :: "guard_env \<Rightarrow> path \<Rightarrow> read_record list \<Rightarrow> read_record list" where
  "verified_reads env p rs =
     (case file_lines env p of
        None \<Rightarrow> []
      | Some ls \<Rightarrow> map (\<lambda>r. r\<lparr>rd_path := p\<rparr>) (filter (\<lambda>r. read_hashes_still_match r ls) rs))"

lemma import_entries_effect:
  assumes "roomy extra st" "\<forall>x \<in> set es. entry_ok env x \<and> entry_path x \<in> extra \<and> reads_of st (entry_path x) = []"
    and "distinct (map entry_path es)"
  shows "(\<forall>p rs. Persisted_Reads p rs \<in> set es \<longrightarrow>
       reads_of (snd (import_entries env es (n, st))) p = verified_reads env p rs)
    \<and> (\<forall>q. q \<notin> entry_path ` set es \<longrightarrow> reads_of (snd (import_entries env es (n, st))) q = reads_of st q)"
  using assms
proof (induction es arbitrary: n st)
  case (Cons x es)
  obtain p rs where x: "x = Persisted_Reads p rs" "rs \<noteq> []" "guard_key env p = p"
      "length rs \<le> READ_GUARD_MAX_RECORDS_PER_FILE"
    using Cons.prems(2) by (auto simp: entry_ok_def)
  have p: "p \<in> extra" "reads_of st p = []" "p \<notin> entry_path ` set es"
    using Cons.prems(2,3) by (auto simp: x(1))
  show ?case
  proof (cases "file_lines env p")
    case None
    have "reads_of st p = verified_reads env p rs" by (simp add: p(2) verified_reads_def None)
    then show ?thesis
      using Cons.IH [OF Cons.prems(1)] Cons.prems(2,3) p(3) by (auto simp: x Let_def None)
  next
    case (Some ls)
    let ?st = "snd (import_reads env p ls rs (n, st))" and ?n = "fst (import_reads env p ls rs (n, st))"
    have eff: "roomy extra ?st" "reads_of ?st p = verified_reads env p rs" "\<And>q. q \<noteq> p \<Longrightarrow> reads_of ?st q = reads_of st q"
      using import_reads_effect [OF Cons.prems(1) x(3) p(1), of rs ls n] x(4)
      by (simp_all add: p(2) verified_reads_def Some)
    have "\<forall>y \<in> set es. entry_ok env y \<and> entry_path y \<in> extra \<and> reads_of ?st (entry_path y) = []"
    proof
      fix y assume y: "y \<in> set es"
      then have "entry_path y \<noteq> p" using p(3) by auto
      then show "entry_ok env y \<and> entry_path y \<in> extra \<and> reads_of ?st (entry_path y) = []"
        using y Cons.prems(2) eff(3) by simp
    qed
    from Cons.IH [OF eff(1) this, of ?n] Cons.prems(3)
    have ih: "\<forall>q ss. Persisted_Reads q ss \<in> set es \<longrightarrow>
          reads_of (snd (import_entries env es (?n, ?st))) q = verified_reads env q ss"
      "\<forall>q. q \<notin> entry_path ` set es \<longrightarrow> reads_of (snd (import_entries env es (?n, ?st))) q = reads_of ?st q"
      by simp_all
    have "import_entries env (x # es) (n, st) = import_entries env es (?n, ?st)"
      using x(2,3) by (simp add: x(1) Let_def Some)
    then show ?thesis using ih eff(2,3) p(3) by (auto simp: x(1))
  qed
qed simp

text \<open>C14 (roundtrip): a resume restores exactly the reads that are still true. Exporting a reachable guard and
  importing the result into a fresh one yields, for every file, the exported reads whose recorded
  hashes all match the disk now, in order, and none of a file that has changed there or is gone.\<close>

theorem resume_restores_verified_reads:
  assumes "guard_reachable st" "length (rg_reads st) < READ_GUARD_MAX_UNCONSUMED_FILES"
    and "\<forall>p. has_key (rg_reads st) p \<longrightarrow> guard_key env p = p"
  shows "reads_of (snd (import_state env (Some (export_state st)) (new_read_guard env sid cfg ft))) p =
    verified_reads env p (reads_of st p)"
proof -
  let ?new = "new_read_guard env sid cfg ft"
  let ?es = "map (\<lambda>(p, a). Persisted_Reads p (rg_arrays st ! a)) (rg_reads st)"
  have inv: "guard_inv st" by (rule reachable_inv [OF assms(1)])
  have get: "map_of (rg_reads st) p = Some a \<longleftrightarrow> (p, a) \<in> set (rg_reads st)" for p a
    using inv by (simp add: guard_inv_def maps_ok_def map_of_eq_Some_iff)
  have paths: "map entry_path ?es = keys_of (rg_reads st)" by (simp add: case_prod_beta comp_def)
  have rof: "rg_arrays st ! a = reads_of st p \<and> reads_of st p \<noteq> [] \<and> a < length (rg_arrays st)"
    if "(p, a) \<in> set (rg_reads st)" for p a
    using that inv get [of p a] by (auto simp: reads_of_def guard_inv_def nonempty_ok_def arrays_ok_def)
  have empty: "rg_reads ?new = []" "reads_of ?new q = []" for q
    by (simp_all add: new_read_guard_def reads_of_def)
  have room: "roomy (tracked st) ?new"
    using assms(2) tracked_card [OF inv] inv_new by (simp add: roomy_def empty)
  have ok: "\<forall>x \<in> set ?es. entry_ok env x \<and> entry_path x \<in> tracked st \<and> reads_of ?new (entry_path x) = []"
  proof
    fix x assume "x \<in> set ?es"
    then obtain q a where q: "(q, a) \<in> set (rg_reads st)" "x = Persisted_Reads q (rg_arrays st ! a)" by auto
    have "rg_arrays st ! a \<in> set (rg_arrays st)"
      by (rule nth_mem) (use rof [OF q(1)] in simp)
    then have "length (rg_arrays st ! a) \<le> READ_GUARD_MAX_RECORDS_PER_FILE"
      using inv by (simp add: guard_inv_def arrays_ok_def)
    moreover have "guard_key env q = q" using assms(3) get [of q a] q(1) by auto
    ultimately show "entry_ok env x \<and> entry_path x \<in> tracked st \<and> reads_of ?new (entry_path x) = []"
      using rof [OF q(1)] q by (auto simp: entry_ok_def empty intro!: image_eqI)
  qed
  have dist: "distinct (map entry_path ?es)" using inv by (simp only: paths guard_inv_def maps_ok_def)
  have imp: "snd (import_state env (Some (export_state st)) ?new) =
      snd (import_entries env ?es (\<lparr>imported = 0, dropped = 0\<rparr>, ?new))"
    by (simp add: import_state_def export_state_def Let_def)
  note eff = import_entries_effect [OF room ok dist, of "\<lparr>imported = 0, dropped = 0\<rparr>"]
  show ?thesis
  proof (cases "map_of (rg_reads st) p")
    case (Some a)
    then have m: "(p, a) \<in> set (rg_reads st)" by (simp add: get)
    then have "Persisted_Reads p (reads_of st p) \<in> set ?es" using rof [OF m] by force
    then show ?thesis using eff by (simp only: imp)
  next
    case None
    then have "p \<notin> entry_path ` set ?es"
      using paths by (metis has_key_iff list.set_map)
    moreover have "verified_reads env p (reads_of st p) = []"
      using None by (simp add: reads_of_def verified_reads_def split: option.split)
    ultimately show ?thesis using eff by (simp add: imp empty(2))
  qed
qed

lemma recorded_guard_reachable: "guard_reachable recorded_guard"
  unfolding recorded_guard_def by (rule reach_step [OF sample_guard_reachable step_read])

lemma recorded_reads: "rg_reads recorded_guard = [(''/w/a'', 0)]"
  by (simp add: recorded_guard_value)

lemma sample_key_final: "guard_key sample_env ''/w/a'' = ''/w/a''"
  by code_simp

lemma resume_restores_verified_reads_witness:
  "length (reads_of (snd (import_state sample_env (Some (export_state recorded_guard))
     (new_read_guard sample_env ''t'' DEFAULT_CONFIG []))) ''/w/a'') = 1"
proof -
  have "verified_reads sample_env ''/w/a'' (reads_of recorded_guard ''/w/a'') =
      reads_of recorded_guard ''/w/a''"
    unfolding recorded_fact1 by code_simp
  moreover have "reads_of (snd (import_state sample_env (Some (export_state recorded_guard))
     (new_read_guard sample_env ''t'' DEFAULT_CONFIG []))) ''/w/a'' =
     verified_reads sample_env ''/w/a'' (reads_of recorded_guard ''/w/a'')"
    by (rule resume_restores_verified_reads [OF recorded_guard_reachable])
      (simp_all add: recorded_reads READ_GUARD_MAX_UNCONSUMED_FILES_def sample_key_final)
  ultimately show ?thesis by (simp add: recorded_facts(3))
qed

subsection \<open>Deletion outside the editor\<close>

lemma get_filter_value:
  "wf_map m \<Longrightarrow> map_of m k = Some v \<Longrightarrow> map_of (filter (\<lambda>e. snd e \<noteq> v) m) k = None"
proof (induction m)
  case (Cons x m)
  have "k \<notin> fst ` set m \<Longrightarrow> map_of (filter (\<lambda>e. snd e \<noteq> v) m) k = None"
    by (auto simp: map_of_eq_None_iff)
  then show ?case using Cons by (cases x) (auto split: if_splits)
qed simp

text \<open>Once a path is known to be deleted the guard has forgotten it. The record kept under its
  real key is found although the deleted file would now be keyed differently, its reads and its
  written mark are gone, the path is no longer known, and no other file loses anything.\<close>

theorem deleted_path_is_forgotten:
  assumes "guard_reachable st" "map_of (rg_known st) (loose_key env p) = Some stored"
  shows "\<not> has_known_path env p (forget_path env p st)
    \<and> reads_of (forget_path env p st) stored = [] \<and> stored \<notin> set (rg_written (forget_path env p st))
    \<and> edits_of (forget_path env p st) stored = []
    \<and> (q = stored \<or> (reads_of (forget_path env p st) q = reads_of st q
         \<and> edits_of (forget_path env p st) q = edits_of st q
         \<and> (q \<in> set (rg_written (forget_path env p st)) \<longleftrightarrow> q \<in> set (rg_written st))))"
proof -
  have "wf_map (rg_known st)"
    using reachable_inv [OF assms(1)] by (simp add: guard_inv_def maps_ok_def)
  then have "map_of (filter (\<lambda>e. snd e \<noteq> stored) (rg_known st)) (loose_key env p) = None"
    using assms(2) by (rule get_filter_value)
  then show ?thesis
    using assms(2)
    by (simp add: forget_path_def has_known_path_def guard_simps reads_of_evict edits_of_def map_laws)
qed

text \<open>The index that finds it does not depend on the disk.\<close>

lemma push_read_known [simp]: "rg_known (snd (push_read p r st)) = rg_known st"
  by (cases "map_of (rg_reads st) p") (simp_all add: push_read_def case_prod_beta Let_def)

lemma recorded_path_stays_known:
  assumes "win32 (env_host env') = win32 (env_host env)"
  shows "map_of (rg_known (with_read env r c st)) (loose_key env' (rd_path r)) = Some (guard_key env (rd_path r))"
proof -
  have "loose_key env' (rd_path r) = loose_key env (rd_path r)"
    using assms by (simp add: loose_key_def normalize_ephemeral_map_key_def)
  then show ?thesis by (simp add: with_read_def Let_def guard_simps map_laws)
qed

lemma recorded_known: "map_of (rg_known recorded_guard) (loose_key sample_env ''/w/A'') = Some ''/w/a''"
  unfolding recorded_guard_value by code_simp

lemma deleted_path_is_forgotten_witness:
  "\<not> has_known_path sample_env ''/w/A'' (forget_path sample_env ''/w/A'' recorded_guard)"
  by (rule conjunct1 [OF deleted_path_is_forgotten [OF recorded_guard_reachable recorded_known]])

subsection \<open>What the summary counts\<close>

text \<open>
  An edit record refers to the live array of its file, so the reads it shows as preceding it include
  the reads recorded after it.
\<close>

definition lsp_read :: read_record where
  "lsp_read = (sample_read 1 2)\<lparr>expanded_by_lsp := True\<rparr>"

definition edited_guard :: guard_state where
  "edited_guard = snd (check_edit sample_env ''/w/A'' (Some (1, 2)) None no_options recorded_guard)"

lemma edited_guard_value:
  "edited_guard = recorded_guard\<lparr>rg_edits := [(''/w/a'',
     [\<lparr>ed_path = ''/w/a'', ed_tool = ''edit'', ed_touched = (1, 2), ed_preceding = Some 0, ed_verdict = Edit_Allowed,
        ed_reason = None, ed_timestamp = 1000\<rparr>])]\<rparr>"
  unfolding edited_guard_def recorded_guard_value by code_simp

text \<open>The summary credits a language-server expansion with an edit that came before it. In this run the
  file is read plainly, edited, and only then read with an expansion; the edit was decided without
  any expanded read, yet the later read makes the summary count it as helped.\<close>

theorem summary_credits_a_later_expansion:
  "lsp_expansions_helped (get_summary edited_guard) = 0
   \<and> list_all (\<lambda>r. \<not> expanded_by_lsp r) (reads_of edited_guard ''/w/a'')
   \<and> lsp_expansions_helped (get_summary (record_read sample_env lsp_read None edited_guard)) = 1
   \<and> total_edits (get_summary (record_read sample_env lsp_read None edited_guard)) = 1"
  unfolding edited_guard_value recorded_guard_value by code_simp

end
