(* ===== verification/Config_Schema.thy ===== *)
theory Config_Schema
  imports Lens_Prelude Complex_Main
begin

text \<open>
  \<^verbatim>\<open>clients/config-core/schema.ts\<close> and \<^verbatim>\<open>clients/config-core/safe-object.ts\<close>: the values
  a configuration is made of and the accessors by which a schema node is read.

  A JSON value is the datatype \<open>json\<close>; an object is the list of its own properties in the order
  they were defined, without duplicate names.  A number is a finite rational or negative zero.  What
  a caller hands in (\<open>raw\<close>) may also hold what JSON has no room for: a number that is not finite, a
  value of another type, or a reference to an object it is itself part of.  A schema node is the
  property list of an object; the regular expressions of \<^verbatim>\<open>patternProperties\<close> are compiled by
  the argument \<open>regex\<close>, which answers \<open>None\<close> for a pattern the compiler rejects.
\<close>

datatype js_num = Fin rat | Neg_Zero

datatype json =
    JNull
  | JBool bool
  | JNum js_num
  | JStr string
  | JArr "json list"
  | JObj "(string \<times> json) list"

datatype raw =
    RNull
  | RBool bool
  | RNum js_num
  | RStr string
  | RArr "raw list"
  | RObj "(string \<times> raw) list"
  | RNot_Finite
  | ROther string
  | RBack

type_synonym schema_node = "(string \<times> json) list"
type_synonym regex_compiler = "string \<Rightarrow> (string \<Rightarrow> bool) option"

subsection \<open>Safe objects\<close>

definition MAX_CONFIG_DEPTH :: nat where "MAX_CONFIG_DEPTH = 32"

definition UNSAFE_CONFIG_KEYS :: "string list" where
  "UNSAFE_CONFIG_KEYS = [''__proto__'', ''constructor'', ''prototype'']"

definition is_unsafe_config_key :: "string \<Rightarrow> bool" where
  "is_unsafe_config_key name \<longleftrightarrow> name \<in> set UNSAFE_CONFIG_KEYS"

definition safe_assign :: "(string \<times> json) list \<Rightarrow> string \<Rightarrow> json \<Rightarrow> (string \<times> json) list" where
  "safe_assign target name value =
     (if is_unsafe_config_key name then target else AList.update name value target)"

subsection \<open>Schema accessors\<close>

definition schema_get :: "schema_node option \<Rightarrow> string \<Rightarrow> json option" where
  "schema_get node key = (case node of None \<Rightarrow> None | Some fields \<Rightarrow> map_of fields key)"

definition as_schema_node :: "json option \<Rightarrow> schema_node option" where
  "as_schema_node v = (case v of Some (JObj fields) \<Rightarrow> Some fields | _ \<Rightarrow> None)"

datatype merge_strategy = Replace | Append | Keyed string

definition KEYED_PREFIX :: string where "KEYED_PREFIX = ''keyed:''"

definition parse_merge_strategy :: "json \<Rightarrow> merge_strategy option" where
  "parse_merge_strategy v =
     (case v of
        JStr s \<Rightarrow>
          if s = ''replace'' then Some Replace
          else if s = ''append'' then Some Append
          else if starts_with s KEYED_PREFIX \<and> length s > length KEYED_PREFIX
            then Some (Keyed (drop (length KEYED_PREFIX) s))
          else None
      | _ \<Rightarrow> None)"

definition merge_strategy_of :: "schema_node option \<Rightarrow> merge_strategy" where
  "merge_strategy_of node =
     (case schema_get node ''x-merge-strategy'' of
        None \<Rightarrow> Replace
      | Some v \<Rightarrow> (case parse_merge_strategy v of None \<Rightarrow> Replace | Some s \<Rightarrow> s))"

definition keyed_field :: "merge_strategy \<Rightarrow> string option" where
  "keyed_field s = (case s of Keyed f \<Rightarrow> Some f | _ \<Rightarrow> None)"

datatype deny_policy = Boolean_False | Array_Union

definition deny_policy_of :: "schema_node option \<Rightarrow> deny_policy option" where
  "deny_policy_of node =
     (case schema_get node ''x-deny'' of
        Some (JStr s) \<Rightarrow>
          if s = ''boolean-false'' then Some Boolean_False
          else if s = ''array-union'' then Some Array_Union else None
      | _ \<Rightarrow> None)"

definition schema_type :: "schema_node option \<Rightarrow> string option" where
  "schema_type node = (case schema_get node ''type'' of Some (JStr s) \<Rightarrow> Some s | _ \<Rightarrow> None)"

definition SCHEMA_TYPES :: "string list" where
  "SCHEMA_TYPES = [''object'', ''array'', ''string'', ''number'', ''integer'', ''boolean'', ''null'']"

definition is_known_schema_type :: "string option \<Rightarrow> bool" where
  "is_known_schema_type d = (case d of None \<Rightarrow> False | Some t \<Rightarrow> t \<in> set SCHEMA_TYPES)"

text \<open>The first pattern that compiles, names a schema and matches.\<close>

fun pattern_schema :: "regex_compiler \<Rightarrow> (string \<times> json) list \<Rightarrow> string \<Rightarrow> schema_node option" where
  "pattern_schema regex [] name = None"
| "pattern_schema regex ((pattern, child) # rest) name =
     (case as_schema_node (Some child) of
        None \<Rightarrow> pattern_schema regex rest name
      | Some node \<Rightarrow>
          (case regex pattern of
             None \<Rightarrow> pattern_schema regex rest name
           | Some matches \<Rightarrow> if matches name then Some node else pattern_schema regex rest name))"

definition property_schema :: "regex_compiler \<Rightarrow> schema_node option \<Rightarrow> string \<Rightarrow> schema_node option" where
  "property_schema regex node name =
     (case (case as_schema_node (schema_get node ''properties'') of
              None \<Rightarrow> None | Some props \<Rightarrow> as_schema_node (map_of props name)) of
        Some child \<Rightarrow> Some child
      | None \<Rightarrow>
          (case as_schema_node (schema_get node ''patternProperties'') of
             None \<Rightarrow> None | Some patterns \<Rightarrow> pattern_schema regex patterns name))"

datatype additional_policy = Drop_Property | Keep_Property | Validate_Property schema_node

definition additional_property_policy :: "schema_node option \<Rightarrow> additional_policy" where
  "additional_property_policy node =
     (case schema_get node ''additionalProperties'' of
        Some (JBool True) \<Rightarrow> Keep_Property
      | Some (JObj fields) \<Rightarrow> Validate_Property fields
      | _ \<Rightarrow> Drop_Property)"

definition items_schema :: "schema_node option \<Rightarrow> schema_node option" where
  "items_schema node = as_schema_node (schema_get node ''items'')"

subsection \<open>Values\<close>

text \<open>A JSON value as the caller hands it in.\<close>

fun raw_of :: "json \<Rightarrow> raw" where
  "raw_of JNull = RNull"
| "raw_of (JBool b) = RBool b"
| "raw_of (JNum n) = RNum n"
| "raw_of (JStr s) = RStr s"
| "raw_of (JArr vs) = RArr (map raw_of vs)"
| "raw_of (JObj fields) = RObj (map (\<lambda>(k, v). (k, raw_of v)) fields)"

text \<open>
  A value the pipeline may pass on: no key modifies the object prototype, no object repeats a name,
  and nothing is nested deeper than \<open>d\<close>.
\<close>

fun safe_value :: "nat \<Rightarrow> json \<Rightarrow> bool" where
  "safe_value d (JArr vs) \<longleftrightarrow> (\<forall>v \<in> set vs. d > 0 \<and> safe_value (d - 1) v)"
| "safe_value d (JObj fields) \<longleftrightarrow> distinct (map fst fields) \<and>
     (\<forall>(k, v) \<in> set fields. \<not> is_unsafe_config_key k \<and> d > 0 \<and> safe_value (d - 1) v)"
| "safe_value d _ \<longleftrightarrow> True"

end
