(* ===== verification/Config_Records.thy ===== *)
theory Config_Records
  imports Config_Schema Path_Keys "HOL-Library.Sublist"
begin

text \<open>
  \<^verbatim>\<open>clients/config-core/records.ts\<close> and \<^verbatim>\<open>clients/config-core/provenance.ts\<close>: the bounded
  collector of validation records, the source tiers and the provenance of resolved leaves.

  The reason of a record keeps its constituents instead of the rendered text.  \<^verbatim>\<open>redactSecrets\<close> is
  the argument \<open>redact\<close>.
\<close>

subsection \<open>Tiers\<close>

datatype source_tier = Builtin | Global | Project | Nested_Project | Env | Cli | Host_Tier

datatype tier_class = Default_Class | Operator_Class | Repo_Class

definition SOURCE_TIERS :: "source_tier list" where
  "SOURCE_TIERS = [Builtin, Global, Project, Nested_Project, Env, Cli, Host_Tier]"

fun TIER_CLASS :: "source_tier \<Rightarrow> tier_class" where
  "TIER_CLASS Builtin = Default_Class"
| "TIER_CLASS Global = Operator_Class"
| "TIER_CLASS Project = Repo_Class"
| "TIER_CLASS Nested_Project = Repo_Class"
| "TIER_CLASS Env = Operator_Class"
| "TIER_CLASS Cli = Operator_Class"
| "TIER_CLASS Host_Tier = Operator_Class"

text \<open>\<^verbatim>\<open>indexOf\<close>\<close>

fun index_of :: "'a \<Rightarrow> 'a list \<Rightarrow> nat" where
  "index_of x [] = 0"
| "index_of x (y # ys) = (if x = y then 0 else Suc (index_of x ys))"

definition tier_precedence :: "source_tier \<Rightarrow> nat" where
  "tier_precedence t = index_of t SOURCE_TIERS"

definition is_repo_tier :: "source_tier \<Rightarrow> bool" where
  "is_repo_tier t \<longleftrightarrow> TIER_CLASS t = Repo_Class"

definition is_operator_tier :: "source_tier \<Rightarrow> bool" where
  "is_operator_tier t \<longleftrightarrow> TIER_CLASS t = Operator_Class"

datatype trust_decision = Trusted | Untrusted | Trust_Unknown

record provenance =
  pv_tier :: source_tier
  pv_file :: "path option"
  pv_key :: string
  pv_trust :: "trust_decision option"

type_synonym provenance_map = "(string, provenance) js_map"

record resolved_config =
  rc_value :: "json option"
  rc_provenance :: provenance_map

text \<open>The projection carries the sources of the leaves, sorted by key, never a value.\<close>

fun code_unit_less :: "string \<Rightarrow> string \<Rightarrow> bool" where
  "code_unit_less [] [] \<longleftrightarrow> False"
| "code_unit_less [] (_ # _) \<longleftrightarrow> True"
| "code_unit_less (_ # _) [] \<longleftrightarrow> False"
| "code_unit_less (a # as) (b # bs) \<longleftrightarrow>
     (of_char a :: nat) < of_char b \<or> (a = b \<and> code_unit_less as bs)"

fun insert_by_key :: "provenance \<Rightarrow> provenance list \<Rightarrow> provenance list" where
  "insert_by_key e [] = [e]"
| "insert_by_key e (x # xs) = (if code_unit_less (pv_key e) (pv_key x) then e # x # xs else x # insert_by_key e xs)"

definition provenance_view :: "host \<Rightarrow> path \<Rightarrow> resolved_config \<Rightarrow> provenance list" where
  "provenance_view h home r =
     fold insert_by_key
       (map (\<lambda>e. e\<lparr>pv_file := map_option (\<lambda>f. home_relative_path h f home) (pv_file e)\<rparr>)
          (map snd (rc_provenance r))) []"

text \<open>The pointer cut at its last slash; a pointer without one, or with only a leading one, is the root.\<close>

definition parent_pointer :: "string \<Rightarrow> string" where
  "parent_pointer p = rev (tl (dropWhile (\<lambda>c. c \<noteq> SLASH) (rev p)))"

lemma parent_pointer_shorter: "p \<noteq> [] \<Longrightarrow> length (parent_pointer p) < length p"
proof -
  assume p: "p \<noteq> []"
  have "length (dropWhile (\<lambda>c. c \<noteq> SLASH) (rev p)) \<le> length p"
    using length_dropWhile_le [of "\<lambda>c. c \<noteq> SLASH" "rev p"] by simp
  moreover have "0 < length p" using p by simp
  ultimately show ?thesis unfolding parent_pointer_def length_rev length_tl by linarith
qed

function provenance_for :: "provenance_map \<Rightarrow> string \<Rightarrow> provenance option" where
  "provenance_for m pointer =
     (case map_of m pointer of
        Some e \<Rightarrow> Some e
      | None \<Rightarrow> if pointer = [] then None else provenance_for m (parent_pointer pointer))"
  by pat_completeness auto
termination by (relation "measure (length \<circ> snd)") (auto intro: parent_pointer_shorter)

declare provenance_for.simps [simp del]

subsection \<open>Records\<close>

text \<open>\<^verbatim>\<open>String(n)\<close> for an index.\<close>

fun decimal :: "nat \<Rightarrow> string" where
  "decimal n = (if n < 10 then [char_of (48 + n)] else decimal (n div 10) @ [char_of (48 + n mod 10)])"

declare decimal.simps [simp del]

datatype diagnostic_code = CFG_0001 | CFG_0002 | CFG_0003 | CFG_0004 | CFG_0005 | CFG_0006 | CFG_0007 | CFG_0008

datatype record_reason =
    Too_Deep
  | Refers_To_Itself
  | Expected_Type string string
  | Not_Json string
  | Not_In_Enum "json list"
  | Unknown_Field
  | Unsafe_Key
  | Validation_Failed string
  | Resolution_Failed string
  | Suppressed nat
  | Other_Reason string

record migration_record =
  mr_code :: diagnostic_code
  mr_file :: path
  mr_key :: string
  mr_subject :: string
  mr_reason :: record_reason
  mr_canonical_key :: "string option"
  mr_tier :: "source_tier option"

definition MAX_MIGRATION_RECORDS :: nat where "MAX_MIGRATION_RECORDS = 20"
definition MAX_RECORD_KEY_LENGTH :: nat where "MAX_RECORD_KEY_LENGTH = 120"

definition UNBOUNDED_RECORD_CODES :: "diagnostic_code list" where
  "UNBOUNDED_RECORD_CODES = [CFG_0008]"

definition migration_subject :: "path \<Rightarrow> string \<Rightarrow> string" where
  "migration_subject file key = (if key \<noteq> [] then file @ CHR 0x00 # key else file)"

definition strip_control_characters :: "string \<Rightarrow> string" where
  "strip_control_characters s =
     map (\<lambda>c. let n = of_char c :: nat in if n < 32 \<or> n = 127 then CHR 0x20 else c) s"

definition js_trim :: "string \<Rightarrow> string" where
  "js_trim s = rev (dropWhile is_js_space (rev (dropWhile is_js_space s)))"

definition bounded_key_label :: "(string \<Rightarrow> string) \<Rightarrow> string \<Rightarrow> string" where
  "bounded_key_label redact key =
     (let printable = js_trim (strip_control_characters key)
      in redact (if length printable > MAX_RECORD_KEY_LENGTH
                 then take MAX_RECORD_KEY_LENGTH printable @ ''...'' else printable))"

record collector =
  co_kept :: "migration_record list"
  co_dropped :: nat
  co_limit :: nat

text \<open>\<^verbatim>\<open>Math.max(0, Math.trunc(x))\<close> on an integer is \<open>nat\<close>.\<close>

definition new_collector :: "int \<Rightarrow> int \<Rightarrow> collector" where
  "new_collector limit prior_dropped =
     \<lparr>co_kept = [], co_dropped = nat prior_dropped, co_limit = nat limit\<rparr>"

definition collector_add :: "migration_record \<Rightarrow> collector \<Rightarrow> collector" where
  "collector_add r c =
     (if length (co_kept c) \<ge> co_limit c then
        (if mr_code r \<in> set UNBOUNDED_RECORD_CODES then c\<lparr>co_kept := co_kept c @ [r]\<rparr>
         else c\<lparr>co_dropped := co_dropped c + 1\<rparr>)
      else c\<lparr>co_kept := co_kept c @ [r]\<rparr>)"

record record_anchor =
  an_file :: path
  an_tier :: "source_tier option"

definition UNANCHORED_RECORD_LABEL :: string where
  "UNANCHORED_RECORD_LABEL = ''(config resolution)''"

definition finalize :: "record_anchor option \<Rightarrow> collector \<Rightarrow> migration_record list" where
  "finalize anchor c =
     (if co_dropped c = 0 then co_kept c
      else
        let file = (case anchor of None \<Rightarrow> UNANCHORED_RECORD_LABEL | Some a \<Rightarrow> an_file a)
        in co_kept c @
           [\<lparr>mr_code = CFG_0007, mr_file = file, mr_key = [], mr_subject = migration_subject file [],
             mr_reason = Suppressed (co_dropped c), mr_canonical_key = None,
             mr_tier = (case anchor of None \<Rightarrow> None | Some a \<Rightarrow> an_tier a)\<rparr>])"

definition finalize_records ::
    "migration_record list \<Rightarrow> record_anchor option \<Rightarrow> int \<Rightarrow> migration_record list" where
  "finalize_records records anchor prior_dropped =
     finalize anchor
       (fold collector_add records (new_collector (int MAX_MIGRATION_RECORDS - 1) prior_dropped))"

subsection \<open>Properties\<close>

abbreviation is_verdict :: "migration_record \<Rightarrow> bool" where
  "is_verdict r \<equiv> mr_code r = CFG_0008"

text \<open>What is shown of the records, given the room left: the verdicts, and the rest while room lasts.\<close>

fun shown :: "nat \<Rightarrow> migration_record list \<Rightarrow> migration_record list" where
  "shown room [] = []"
| "shown room (r # rs) =
     (if room > 0 then r # shown (room - 1) rs
      else if is_verdict r then r # shown 0 rs else shown 0 rs)"

lemma collector_run:
  "co_kept (fold collector_add rs c) = co_kept c @ shown (co_limit c - length (co_kept c)) rs
   \<and> co_limit (fold collector_add rs c) = co_limit c
   \<and> co_dropped (fold collector_add rs c) + length (shown (co_limit c - length (co_kept c)) rs)
       = co_dropped c + length rs"
proof (induction rs arbitrary: c)
  case (Cons r rs)
  let ?c = "collector_add r c"
  have step: "co_limit ?c = co_limit c \<and> co_limit ?c - length (co_kept ?c) = co_limit c - length (co_kept c) - 1
      \<and> co_kept ?c = co_kept c @ (if co_limit c - length (co_kept c) > 0 \<or> is_verdict r then [r] else [])
      \<and> co_dropped ?c + (if co_limit c - length (co_kept c) > 0 \<or> is_verdict r then 1 else 0) = Suc (co_dropped c)"
    by (auto simp: collector_add_def UNBOUNDED_RECORD_CODES_def)
  show ?case using Cons.IH [of ?c] step by (auto split: if_splits)
qed simp

lemma shown_bound: "length (filter (\<lambda>r. \<not> is_verdict r) (shown room rs)) \<le> room"
  by (induction room rs rule: shown.induct) auto

lemma shown_verdicts: "filter is_verdict (shown room rs) = filter is_verdict rs"
  by (induction room rs rule: shown.induct) auto

lemma shown_subseq: "subseq (shown room rs) rs"
  by (induction room rs rule: shown.induct) auto

lemma shown_all: "length rs \<le> room \<Longrightarrow> shown room rs = rs"
  by (induction room rs rule: shown.induct) auto

text \<open>A finalized record list is bounded and its suppression count is the truth. It keeps an
  ordered part of the records with at most 19 per-key notices, drops no whole-configuration verdict,
  and when anything is missing ends in one record whose count is exactly the records not shown,
  those an earlier bound had discarded included.\<close>

theorem finalized_records_are_accounted_for:
  "\<exists>kept. subseq kept records
    \<and> length (filter (\<lambda>r. \<not> is_verdict r) kept) \<le> 19
    \<and> filter is_verdict kept = filter is_verdict records
    \<and> (let hidden = length records - length kept + nat prior
       in finalize_records records anchor prior =
            (if hidden = 0 then kept
             else kept @ [\<lparr>mr_code = CFG_0007,
               mr_file = (case anchor of None \<Rightarrow> UNANCHORED_RECORD_LABEL | Some a \<Rightarrow> an_file a), mr_key = [],
               mr_subject = (case anchor of None \<Rightarrow> UNANCHORED_RECORD_LABEL | Some a \<Rightarrow> an_file a),
               mr_reason = Suppressed hidden, mr_canonical_key = None,
               mr_tier = (case anchor of None \<Rightarrow> None | Some a \<Rightarrow> an_tier a)\<rparr>]))"
proof -
  let ?c = "new_collector (int MAX_MIGRATION_RECORDS - 1) prior"
  let ?kept = "shown 19 records"
  have c: "co_kept ?c = []" "co_limit ?c = 19" "co_dropped ?c = nat prior"
    by (simp_all add: new_collector_def MAX_MIGRATION_RECORDS_def)
  have run: "co_kept (fold collector_add records ?c) = ?kept"
      "co_dropped (fold collector_add records ?c) + length ?kept = nat prior + length records"
    using collector_run [of records ?c] by (simp_all add: c)
  have "length ?kept \<le> length records" by (rule list_emb_length [OF shown_subseq])
  then have hidden: "co_dropped (fold collector_add records ?c) = length records - length ?kept + nat prior"
    using run(2) by simp
  show ?thesis
    using shown_subseq [of 19 records] shown_bound [of 19 records] shown_verdicts [of 19 records]
    by (intro exI [of _ ?kept])
      (simp add: finalize_records_def finalize_def run(1) hidden Let_def migration_subject_def)
qed

subsection \<open>Who answers for a pointer\<close>

lemma parent_pointer_cases:
  assumes "p \<noteq> []"
  shows "(\<exists>name. SLASH \<notin> set name \<and> p = parent_pointer p @ SLASH # name)
    \<or> (SLASH \<notin> set p \<and> parent_pointer p = [])"
proof -
  let ?t = "takeWhile (\<lambda>c. c \<noteq> SLASH) (rev p)" and ?d = "dropWhile (\<lambda>c. c \<noteq> SLASH) (rev p)"
  have p: "p = rev ?d @ rev ?t" by (metis rev_append rev_rev_ident takeWhile_dropWhile_id)
  show ?thesis
  proof (cases ?d)
    case Nil
    then have "SLASH \<notin> set p" using dropWhile_eq_Nil_conv [of "\<lambda>c. c \<noteq> SLASH" "rev p"] by auto
    moreover have "parent_pointer p = []" unfolding parent_pointer_def Nil by simp
    ultimately show ?thesis by simp
  next
    case (Cons x xs)
    then have "x = SLASH" using hd_dropWhile [of "\<lambda>c. c \<noteq> SLASH" "rev p"] by auto
    moreover have "SLASH \<notin> set (rev ?t)" by (auto dest: set_takeWhileD)
    ultimately show ?thesis using p Cons by (intro disjI1 exI [of _ "rev ?t"]) (simp add: parent_pointer_def)
  qed
qed

text \<open>The ancestors of a pointer, nearest first.\<close>

function ancestors :: "string \<Rightarrow> string list" where
  "ancestors p = (if p = [] then [[]] else p # ancestors (parent_pointer p))"
  by pat_completeness auto
termination by (relation "measure length") (auto intro: parent_pointer_shorter)

declare ancestors.simps [simp del]

lemma ancestors_Cons: "ancestors p = p # (if p = [] then [] else ancestors (parent_pointer p))"
  by (subst ancestors.simps) simp

text \<open>The provenance of a pointer is that of its nearest ancestor, itself first, which has an
  entry of its own, and there is none exactly when no ancestor has one.\<close>

theorem provenance_is_nearest_ancestor:
  "provenance_for m pointer =
     (case find (has_key m) (ancestors pointer) of None \<Rightarrow> None | Some a \<Rightarrow> map_of m a)"
proof (induction m pointer rule: provenance_for.induct)
  case (1 m pointer)
  show ?case
  proof (cases "map_of m pointer")
    case None
    show ?thesis
    proof (cases "pointer = []")
      case True
      then show ?thesis using None by (simp add: provenance_for.simps [of m "[]"] ancestors.simps [of "[]"])
    next
      case False
      then show ?thesis
        using 1 None by (simp add: provenance_for.simps [of m pointer] ancestors.simps [of pointer])
    qed
  next
    case (Some e)
    then have "find (has_key m) (ancestors pointer) = Some pointer"
      by (simp add: ancestors_Cons [of pointer])
    then show ?thesis using Some by (simp add: provenance_for.simps [of m pointer])
  qed
qed

end
