(* ===== verification/Config_Deny.thy ===== *)
theory Config_Deny
  imports Config_Records
begin

text \<open>
  \<^verbatim>\<open>clients/config-core/deny.ts\<close>: monotonic deny precedence.  A denial by an operator tier is
  never lifted, one by a shipped default or by repository content only by an operator tier above it;
  a deny list is the union of what every tier lists.
\<close>

record deny_contribution =
  dc_tier :: source_tier
  dc_file :: "path option"
  dc_trust :: "trust_decision option"
  dc_value :: "json option"

record deny_resolution =
  dr_value :: "json option"
  dr_winner :: "nat option"
  dr_denied :: bool
  dr_member_winners :: "nat list"

text \<open>\<open>None\<close> as the winner is the index -1.\<close>

definition deny_provenance_at :: "deny_contribution list \<Rightarrow> nat \<Rightarrow> string \<Rightarrow> provenance option" where
  "deny_provenance_at cs i key =
     (if i < length cs then
        Some \<lparr>pv_tier = dc_tier (cs ! i), pv_file = dc_file (cs ! i), pv_key = key,
              pv_trust = dc_trust (cs ! i)\<rparr>
      else None)"

definition deny_provenance :: "deny_contribution list \<Rightarrow> deny_resolution \<Rightarrow> string \<Rightarrow> provenance option" where
  "deny_provenance cs r key = (case dr_winner r of None \<Rightarrow> None | Some i \<Rightarrow> deny_provenance_at cs i key)"

definition pointer_child :: "string \<Rightarrow> string \<Rightarrow> string" where
  "pointer_child key name = key @ SLASH # name"

definition deny_member_provenance ::
    "deny_contribution list \<Rightarrow> deny_resolution \<Rightarrow> string \<Rightarrow> provenance list" where
  "deny_member_provenance cs r key =
     List.map_filter (\<lambda>(i, position). deny_provenance_at cs i (pointer_child key (decimal position)))
       (zip (dr_member_winners r) [0..<length (dr_member_winners r)])"

definition by_precedence :: "deny_contribution list \<Rightarrow> (deny_contribution \<times> nat) list" where
  "by_precedence cs = sort_key (\<lambda>e. tier_precedence (dc_tier (fst e))) (zip cs [0..<length cs])"

definition says :: "bool \<Rightarrow> deny_contribution \<times> nat \<Rightarrow> bool" where
  "says b e \<longleftrightarrow> dc_value (fst e) = Some (JBool b)"

definition resolve_boolean_deny :: "deny_contribution list \<Rightarrow> deny_resolution" where
  "resolve_boolean_deny cs =
     (let ordered = by_precedence cs
      in if ordered = [] then
           \<lparr>dr_value = None, dr_winner = None, dr_denied = False, dr_member_winners = []\<rparr>
         else
           let denials = filter (says False) ordered
           in case denials of
                [] \<Rightarrow> \<lparr>dr_value = dc_value (fst (last ordered)), dr_winner = Some (snd (last ordered)),
                       dr_denied = False, dr_member_winners = []\<rparr>
              | first # _ \<Rightarrow>
                  (case find (\<lambda>e. is_operator_tier (dc_tier (fst e))) denials of
                     Some e \<Rightarrow> \<lparr>dr_value = Some (JBool False), dr_winner = Some (snd e),
                                dr_denied = True, dr_member_winners = []\<rparr>
                   | None \<Rightarrow>
                       (case find (\<lambda>e. says True e \<and> is_operator_tier (dc_tier (fst e)) \<and>
                                tier_precedence (dc_tier (fst e)) > tier_precedence (dc_tier (fst first)))
                              ordered of
                          Some e \<Rightarrow> \<lparr>dr_value = Some (JBool True), dr_winner = Some (snd e),
                                     dr_denied = False, dr_member_winners = []\<rparr>
                        | None \<Rightarrow> \<lparr>dr_value = Some (JBool False), dr_winner = Some (snd first),
                                    dr_denied = True, dr_member_winners = []\<rparr>)))"

text \<open>
  The fold key of a member.  \<^verbatim>\<open>String(-0)\<close> is the text of zero.
\<close>

datatype identity = Id_String string | Id_Number rat | Id_Boolean bool | Id_Null

definition number_value :: "js_num \<Rightarrow> rat" where
  "number_value n = (case n of Fin q \<Rightarrow> q | Neg_Zero \<Rightarrow> 0)"

fun primitive_identity :: "json \<Rightarrow> identity option" where
  "primitive_identity (JStr s) = Some (Id_String s)"
| "primitive_identity (JNum n) = Some (Id_Number (number_value n))"
| "primitive_identity (JBool b) = Some (Id_Boolean b)"
| "primitive_identity JNull = Some Id_Null"
| "primitive_identity _ = None"

text \<open>Members already listed, newest last, each with the index of the contribution that brought it.\<close>

definition add_member :: "nat \<Rightarrow> (json \<times> nat) list \<Rightarrow> json \<Rightarrow> (json \<times> nat) list" where
  "add_member i out v =
     (case primitive_identity v of
        None \<Rightarrow> out @ [(v, i)]
      | Some ident \<Rightarrow>
          if Some ident \<in> set (map (\<lambda>e. primitive_identity (fst e)) out) then out else out @ [(v, i)])"

definition add_members :: "(json \<times> nat) list \<Rightarrow> deny_contribution \<times> nat \<Rightarrow> (json \<times> nat) list" where
  "add_members out e =
     (case dc_value (fst e) of
        Some (JArr vs) \<Rightarrow> foldl (add_member (snd e)) out vs
      | _ \<Rightarrow> out)"

definition union_members :: "deny_contribution list \<Rightarrow> (json \<times> nat) list" where
  "union_members cs = foldl add_members [] (by_precedence cs)"

definition resolve_array_deny :: "deny_contribution list \<Rightarrow> deny_resolution" where
  "resolve_array_deny cs =
     (let ordered = by_precedence cs; members = union_members cs
      in \<lparr>dr_value = Some (JArr (map fst members)),
          dr_winner = (case members of
              (_, i) # _ \<Rightarrow> Some i
            | [] \<Rightarrow> (if ordered = [] then None else Some (snd (last ordered)))),
          dr_denied = (members \<noteq> []),
          dr_member_winners = map snd members\<rparr>)"

subsection \<open>The order of authority\<close>

lemma set_by_precedence: "set (by_precedence cs) = {(cs ! i, i) |i. i < length cs}"
  by (auto simp: by_precedence_def set_zip)

lemma by_precedence_mem: "e \<in> set (by_precedence cs) \<longleftrightarrow> snd e < length cs \<and> fst e = cs ! snd e"
  by (cases e) (auto simp: set_by_precedence)

lemma by_precedence_sorted: "sorted (map (\<lambda>e. tier_precedence (dc_tier (fst e))) (by_precedence cs))"
  by (simp add: by_precedence_def)

lemma by_precedence_Nil [simp]: "by_precedence cs = [] \<longleftrightarrow> cs = []"
proof -
  have "length (by_precedence cs) = length cs" by (simp add: by_precedence_def)
  then show ?thesis by (metis length_0_conv)
qed

lemma find_iff: "(\<exists>x. find P xs = Some x) \<longleftrightarrow> (\<exists>x \<in> set xs. P x)"
  by (metis (no_types, lifting) find_None_iff not_None_eq)

lemma first_is_least:
  assumes "sorted (map f xs)" "filter P xs = y # ys" "x \<in> set xs" "P x"
  shows "f y \<le> f x"
proof -
  have "sorted (map f (filter P xs))" using assms(1) by (rule sorted_filter)
  then have "sorted (map f (y # ys))" by (simp only: assms(2))
  moreover have "x \<in> set (filter P xs)" using assms(3,4) by simp
  ultimately show ?thesis by (auto simp: assms(2))
qed

text \<open>
  A denial is in force: an operator said no, or someone did and no operator tier ranked above the
  lowest denial allowed.
\<close>

definition denies :: "deny_contribution \<Rightarrow> bool" where
  "denies c \<longleftrightarrow> dc_value c = Some (JBool False)"

definition operator_allows :: "deny_contribution \<Rightarrow> bool" where
  "operator_allows c \<longleftrightarrow> dc_value c = Some (JBool True) \<and> is_operator_tier (dc_tier c)"

definition denied_by :: "deny_contribution list \<Rightarrow> bool" where
  "denied_by cs \<longleftrightarrow>
     (\<exists>c \<in> set cs. denies c \<and> is_operator_tier (dc_tier c)) \<or>
     ((\<exists>c \<in> set cs. denies c) \<and>
      \<not> (\<exists>a \<in> set cs. \<exists>c \<in> set cs. operator_allows a \<and> denies c
           \<and> tier_precedence (dc_tier c) < tier_precedence (dc_tier a)))"

lemma fst_by_precedence: "fst ` set (by_precedence cs) = set cs"
  by (force simp: set_by_precedence in_set_conv_nth)

lemma ordered_members:
  "(\<exists>e \<in> set (by_precedence cs). P (fst e)) \<longleftrightarrow> (\<exists>c \<in> set cs. P c)"
  unfolding fst_by_precedence [symmetric] by simp

lemma says_denies: "says False e = denies (fst e)"
  by (simp add: says_def denies_def)

lemma boolean_deny_cases:
  "(denied_by cs \<and> dr_denied (resolve_boolean_deny cs) \<and> dr_value (resolve_boolean_deny cs) = Some (JBool False))
   \<or> (\<not> denied_by cs \<and> \<not> dr_denied (resolve_boolean_deny cs) \<and>
      dr_value (resolve_boolean_deny cs) =
        (if \<exists>c \<in> set cs. denies c then Some (JBool True)
         else if cs = [] then None else dc_value (fst (last (by_precedence cs)))))"
proof -
  let ?o = "by_precedence cs"
  have den: "(\<exists>e \<in> set ?o. says False e) \<longleftrightarrow> (\<exists>c \<in> set cs. denies c)"
    using ordered_members [of cs denies] by (simp add: says_denies)
  show ?thesis
  proof (cases "filter (says False) ?o")
    case Nil
    then have "\<not> (\<exists>c \<in> set cs. denies c)" using den by (auto simp: filter_empty_conv)
    then show ?thesis using Nil by (auto simp: resolve_boolean_deny_def denied_by_def Let_def)
  next
    case (Cons f fs)
    then have f: "f \<in> set ?o" "says False f" by (metis Cons_eq_filterD in_set_conv_decomp)+
    have some: "\<exists>c \<in> set cs. denies c" using den f by blast
    have op: "(\<exists>e. find (\<lambda>e. is_operator_tier (dc_tier (fst e))) (f # fs) = Some e)
        \<longleftrightarrow> (\<exists>c \<in> set cs. denies c \<and> is_operator_tier (dc_tier c))"
      unfolding find_iff Cons [symmetric]
      using ordered_members [of cs "\<lambda>c. denies c \<and> is_operator_tier (dc_tier c)"]
      unfolding set_filter says_denies by blast
    have least: "tier_precedence (dc_tier (fst f)) \<le> tier_precedence (dc_tier c)" if "c \<in> set cs" "denies c" for c
    proof -
      have "c \<in> fst ` set ?o" using that(1) by (simp only: fst_by_precedence)
      then obtain e where e: "e \<in> set ?o" "fst e = c" by (elim imageE) simp
      then show ?thesis
        using first_is_least [OF by_precedence_sorted Cons e(1)] that(2) by (simp add: says_def denies_def)
    qed
    have fc: "fst f \<in> set cs \<and> denies (fst f)"
      using f fst_by_precedence [of cs] by (auto simp: says_denies)
    let ?above = "\<lambda>a. operator_allows a \<and> tier_precedence (dc_tier a) > tier_precedence (dc_tier (fst f))"
    have test: "(says True e \<and> is_operator_tier (dc_tier (fst e)) \<and>
          tier_precedence (dc_tier (fst e)) > tier_precedence (dc_tier (fst f))) = ?above (fst e)" for e
      by (auto simp: says_def operator_allows_def)
    have above: "(\<exists>a \<in> set cs. ?above a) \<longleftrightarrow> (\<exists>a \<in> set cs. \<exists>c \<in> set cs. operator_allows a \<and> denies c
              \<and> tier_precedence (dc_tier c) < tier_precedence (dc_tier a))"
      using least fc by (meson le_less_trans)
    have lift: "(\<exists>e. find (\<lambda>e. says True e \<and> is_operator_tier (dc_tier (fst e)) \<and>
          tier_precedence (dc_tier (fst e)) > tier_precedence (dc_tier (fst f))) ?o = Some e)
        \<longleftrightarrow> (\<exists>a \<in> set cs. \<exists>c \<in> set cs. operator_allows a \<and> denies c
              \<and> tier_precedence (dc_tier c) < tier_precedence (dc_tier a))"
      unfolding test find_iff above [symmetric] by (rule ordered_members [of cs ?above])
    have ne: "cs \<noteq> []" using fc by auto
    let ?opf = "find (\<lambda>e. is_operator_tier (dc_tier (fst e))) (f # fs)"
    let ?lift = "find (\<lambda>e. says True e \<and> is_operator_tier (dc_tier (fst e)) \<and>
          tier_precedence (dc_tier (fst e)) > tier_precedence (dc_tier (fst f))) ?o"
    have res: "resolve_boolean_deny cs = (case ?opf of
        Some e \<Rightarrow> \<lparr>dr_value = Some (JBool False), dr_winner = Some (snd e), dr_denied = True, dr_member_winners = []\<rparr>
      | None \<Rightarrow> (case ?lift of
          Some e \<Rightarrow> \<lparr>dr_value = Some (JBool True), dr_winner = Some (snd e), dr_denied = False, dr_member_winners = []\<rparr>
        | None \<Rightarrow> \<lparr>dr_value = Some (JBool False), dr_winner = Some (snd f), dr_denied = True, dr_member_winners = []\<rparr>))"
      using ne by (simp add: resolve_boolean_deny_def Cons del: find.simps)
    show ?thesis
    proof (cases ?opf)
      case (Some e)
      then have "denied_by cs" using op unfolding denied_by_def by blast
      then show ?thesis by (simp only: res Some option.case) simp
    next
      case None
      then have noop: "\<not> (\<exists>c \<in> set cs. denies c \<and> is_operator_tier (dc_tier c))" using op by simp
      show ?thesis
      proof (cases ?lift)
        case (Some e)
        then have "\<not> denied_by cs" using lift noop unfolding denied_by_def by blast
        then show ?thesis using some by (simp only: res None Some option.case) simp
      next
        case none: None
        then have "denied_by cs" using lift some unfolding denied_by_def by simp
        then show ?thesis by (simp only: res None none option.case) simp
      qed
    qed
  qed
qed

text \<open>An operator's denial is final. Whenever an operator tier says false the setting resolves to
  false and is reported as denied, whatever any other tier says and in whatever order the
  contributions arrive.\<close>

theorem operator_denial_is_final:
  assumes "c \<in> set cs" "dc_value c = Some (JBool False)" "is_operator_tier (dc_tier c)"
  shows "dr_value (resolve_boolean_deny cs) = Some (JBool False) \<and> dr_denied (resolve_boolean_deny cs)"
  using boolean_deny_cases [of cs] assms by (auto simp: denied_by_def denies_def)

definition contribution :: "source_tier \<Rightarrow> json \<Rightarrow> deny_contribution" where
  "contribution t v = \<lparr>dc_tier = t, dc_file = None, dc_trust = None, dc_value = Some v\<rparr>"

lemma operator_denial_is_final_witness:
  "dr_value (resolve_boolean_deny [contribution Cli (JBool True), contribution Global (JBool False)])
     = Some (JBool False)"
  by (rule conjunct1 [OF operator_denial_is_final [of "contribution Global (JBool False)"]])
    (simp_all add: contribution_def is_operator_tier_def)

lemma builtin_below_operators: "is_operator_tier t \<Longrightarrow> tier_precedence Builtin < tier_precedence t"
  by (cases t) (simp_all add: is_operator_tier_def tier_precedence_def SOURCE_TIERS_def)

text \<open>Denials in force without the repository's contributions stay in force with them.\<close>

lemma denied_by_own:
  assumes own: "denied_by own" and sub: "set own = {c \<in> set cs. \<not> is_repo_tier (dc_tier c)}"
  shows "denied_by cs"
proof (cases "\<exists>c \<in> set cs. denies c \<and> is_operator_tier (dc_tier c)")
  case False
  then obtain c where c: "c \<in> set cs" "denies c" "\<not> is_repo_tier (dc_tier c)"
      "\<not> (\<exists>a \<in> set own. operator_allows a \<and> tier_precedence (dc_tier c) < tier_precedence (dc_tier a))"
    using own unfolding denied_by_def sub by blast
  have "dc_tier c = Builtin"
    using c False by (cases "dc_tier c") (auto simp: is_repo_tier_def is_operator_tier_def)
  have "\<not> operator_allows a" if "a \<in> set cs" for a
  proof
    assume o: "operator_allows a"
    then have op: "is_operator_tier (dc_tier a)" by (simp add: operator_allows_def)
    then have "a \<in> set own" using that by (simp add: sub is_repo_tier_def is_operator_tier_def)
    then have "\<not> tier_precedence Builtin < tier_precedence (dc_tier a)"
      using c(4) o \<open>dc_tier c = Builtin\<close> by auto
    then show False using builtin_below_operators [OF op] by simp
  qed
  then show ?thesis using c(1,2) unfolding denied_by_def by blast
qed (auto simp: denied_by_def)

text \<open>Content that comes with a checkout cannot lift a denial. If the shipped default and the
  operator tiers on their own leave a setting denied, it stays denied whatever the project and
  nested-project files add, wherever they stand among the contributions.\<close>

theorem repository_cannot_lift:
  assumes "dr_denied (resolve_boolean_deny (filter (\<lambda>c. \<not> is_repo_tier (dc_tier c)) cs))"
  shows "dr_denied (resolve_boolean_deny cs) \<and> dr_value (resolve_boolean_deny cs) = Some (JBool False)"
proof -
  have "denied_by (filter (\<lambda>c. \<not> is_repo_tier (dc_tier c)) cs)"
    using boolean_deny_cases [of "filter (\<lambda>c. \<not> is_repo_tier (dc_tier c)) cs"] assms by blast
  then have "denied_by cs" by (rule denied_by_own) auto
  then show ?thesis using boolean_deny_cases [of cs] by blast
qed

lemma repository_cannot_lift_witness:
  "dr_denied (resolve_boolean_deny [contribution Builtin (JBool False), contribution Project (JBool True)])"
  by (rule conjunct1 [OF repository_cannot_lift]) code_simp

text \<open>A second denial can lift the first. A project's denial stands against the user's global
  allow, which ranks below it; once the shipped default denies too, the global allow outranks that
  lower denial and the setting is allowed, the project's denial with it.\<close>

theorem extra_denial_can_lift:
  "dr_denied (resolve_boolean_deny [contribution Global (JBool True), contribution Project (JBool False)])
   \<and> \<not> dr_denied (resolve_boolean_deny [contribution Builtin (JBool False),
        contribution Global (JBool True), contribution Project (JBool False)])
   \<and> dr_value (resolve_boolean_deny [contribution Builtin (JBool False),
        contribution Global (JBool True), contribution Project (JBool False)]) = Some (JBool True)"
  by code_simp

subsection \<open>Deny lists\<close>

lemma add_member_keeps: "set out \<subseteq> set (add_member i out v)"
  by (auto simp: add_member_def split: option.split)

lemma add_members_keeps: "set out \<subseteq> set (add_members out e)"
proof -
  have "set out \<subseteq> set (foldl (add_member i) out vs)" for i vs
  proof (induction vs arbitrary: out)
    case (Cons v vs)
    then show ?case using add_member_keeps [of out i v] Cons.IH [of "add_member i out v"] by (simp del: subset_iff) blast
  qed simp
  then show ?thesis by (simp add: add_members_def split: option.split json.split)
qed

text \<open>Every member of a list is represented: itself, or an earlier primitive with the same text.\<close>

definition represented :: "json \<Rightarrow> (json \<times> nat) list \<Rightarrow> bool" where
  "represented v out \<longleftrightarrow>
     (\<exists>e \<in> set out. fst e = v \<or> (primitive_identity v \<noteq> None \<and> primitive_identity (fst e) = primitive_identity v))"

lemma represented_mono: "represented v out \<Longrightarrow> set out \<subseteq> set out' \<Longrightarrow> represented v out'"
  by (auto simp: represented_def)

lemma add_member_represents: "represented v (add_member i out v)"
  by (auto simp: represented_def add_member_def split: option.split) (metis fst_conv option.sel)+

lemma fold_member_represents:
  "v \<in> set vs \<Longrightarrow> represented v (foldl (add_member i) out vs)"
proof (induction vs arbitrary: out)
  case (Cons x vs)
  have keep: "set o' \<subseteq> set (foldl (add_member i) o' vs)" for o'
    using add_members_keeps [of o' "(contribution Builtin (JArr vs), i)"]
    by (simp add: add_members_def contribution_def)
  show ?case
    using Cons.prems Cons.IH add_member_represents [of x i out]
      represented_mono [OF _ keep] by auto
qed simp

text \<open>Where a listed member came from, and that no primitive is listed twice.\<close>

definition members_ok :: "deny_contribution list \<Rightarrow> (json \<times> nat) list \<Rightarrow> bool" where
  "members_ok cs out \<longleftrightarrow>
     (\<forall>(v, i) \<in> set out. i < length cs \<and> (\<exists>vs. dc_value (cs ! i) = Some (JArr vs) \<and> v \<in> set vs)) \<and>
     distinct (filter (\<lambda>x. x \<noteq> None) (map (\<lambda>e. primitive_identity (fst e)) out))"

lemma members_ok_add:
  assumes "members_ok cs out" "i < length cs" "dc_value (cs ! i) = Some (JArr vs)" "v \<in> set vs"
  shows "members_ok cs (add_member i out v)"
proof (cases "primitive_identity v")
  case None
  then have "add_member i out v = out @ [(v, i)]" by (simp add: add_member_def)
  then show ?thesis using assms None by (auto simp: members_ok_def)
next
  case (Some ident)
  show ?thesis
  proof (cases "Some ident \<in> set (map (\<lambda>e. primitive_identity (fst e)) out)")
    case True
    then have "add_member i out v = out" using Some by (simp add: add_member_def)
    then show ?thesis using assms(1) by simp
  next
    case False
    then have "add_member i out v = out @ [(v, i)]" using Some by (simp add: add_member_def del: set_map)
    then show ?thesis using assms Some False by (auto simp: members_ok_def simp del: set_map)
  qed
qed

lemma members_ok_fold:
  assumes "i < length cs" "dc_value (cs ! i) = Some (JArr vs)" "set ws \<subseteq> set vs"
  shows "members_ok cs out \<Longrightarrow> members_ok cs (foldl (add_member i) out ws)"
  using assms(3)
proof (induction ws arbitrary: out)
  case (Cons w ws)
  then show ?case using members_ok_add [OF Cons.prems(1) assms(1,2), of w] by simp
qed simp

lemma members_ok_members:
  assumes "members_ok cs out" "e \<in> set (by_precedence cs)"
  shows "members_ok cs (add_members out e)"
  using assms members_ok_fold [of "snd e" cs]
  by (auto simp: add_members_def by_precedence_mem split: option.split json.split)

lemma union_run:
  "members_ok cs out \<Longrightarrow> set es \<subseteq> set (by_precedence cs) \<Longrightarrow>
   members_ok cs (foldl add_members out es) \<and> set out \<subseteq> set (foldl add_members out es)
   \<and> (\<forall>e vs v. e \<in> set es \<longrightarrow> dc_value (fst e) = Some (JArr vs) \<longrightarrow> v \<in> set vs \<longrightarrow>
        represented v (foldl add_members out es))"
proof (induction es arbitrary: out)
  case (Cons e es)
  have ok: "members_ok cs (add_members out e)"
    using Cons.prems by (intro members_ok_members) auto
  have rep: "represented v (add_members out e)" if "dc_value (fst e) = Some (JArr vs)" "v \<in> set vs" for vs v
    using fold_member_represents [OF that(2)] by (simp add: add_members_def that(1))
  have sub: "set es \<subseteq> set (by_precedence cs)" using Cons.prems(2) by simp
  note ih = Cons.IH [OF ok sub]
  have keep: "set (add_members out e) \<subseteq> set (foldl add_members (add_members out e) es)" using ih by blast
  have "represented v (foldl add_members (add_members out e) es)"
    if "x \<in> set (e # es)" "dc_value (fst x) = Some (JArr vs)" "v \<in> set vs" for x vs v
  proof (cases "x = e")
    case True
    then show ?thesis using represented_mono [OF rep keep] that(2,3) by blast
  next
    case False
    then have "x \<in> set es" using that(1) by simp
    then show ?thesis using ih that(2,3) by blast
  qed
  moreover have "set out \<subseteq> set (foldl add_members (add_members out e) es)"
    using add_members_keeps [of out e] keep by (rule subset_trans)
  ultimately show ?case unfolding foldl_Cons using ih by blast
qed simp

lemma union_represents:
  assumes "c \<in> set cs" "dc_value c = Some (JArr vs)" "v \<in> set vs"
  shows "represented v (union_members cs)"
proof -
  have "c \<in> fst ` set (by_precedence cs)" using assms(1) by (simp only: fst_by_precedence)
  then obtain e where "e \<in> set (by_precedence cs)" "fst e = c" by (elim imageE) simp
  moreover have "\<forall>e vs v. e \<in> set (by_precedence cs) \<longrightarrow> dc_value (fst e) = Some (JArr vs)
      \<longrightarrow> v \<in> set vs \<longrightarrow> represented v (union_members cs)"
    using union_run [of cs "[]" "by_precedence cs"] by (simp add: members_ok_def union_members_def)
  ultimately show ?thesis using assms(2,3) by blast
qed

text \<open>A deny list only grows. Every primitive any tier lists is in the resolved list, whatever the
  merge strategy and the other tiers say; every resolved member is one that the contribution named as
  its author really lists; no primitive is listed twice; and the list is reported as a denial exactly
  when it has a member.\<close>

theorem deny_list_is_union:
  assumes "c \<in> set cs" "dc_value c = Some (JArr vs)" "v \<in> set vs" "primitive_identity v \<noteq> None"
  shows "\<exists>ms ws. dr_value (resolve_array_deny cs) = Some (JArr ms)
    \<and> dr_member_winners (resolve_array_deny cs) = ws \<and> length ws = length ms
    \<and> (\<exists>w \<in> set ms. primitive_identity w = primitive_identity v)
    \<and> (\<forall>k < length ms. ws ! k < length cs \<and> (\<exists>us. dc_value (cs ! (ws ! k)) = Some (JArr us) \<and> ms ! k \<in> set us))
    \<and> distinct (filter (\<lambda>x. x \<noteq> None) (map primitive_identity ms))
    \<and> dr_denied (resolve_array_deny cs)"
proof -
  let ?u = "union_members cs"
  have run: "members_ok cs ?u"
    using union_run [of cs "[]" "by_precedence cs"] by (simp add: members_ok_def union_members_def)
  have rep: "represented v ?u" using assms(1-3) by (rule union_represents)
  have mem: "\<exists>w \<in> set (map fst ?u). primitive_identity w = primitive_identity v"
    using rep by (auto simp: represented_def)
  have author: "\<forall>k < length (map fst ?u). map snd ?u ! k < length cs \<and>
      (\<exists>us. dc_value (cs ! (map snd ?u ! k)) = Some (JArr us) \<and> map fst ?u ! k \<in> set us)"
    using run nth_mem [of _ ?u] unfolding members_ok_def by (fastforce simp: case_prod_beta)
  have dist: "distinct (filter (\<lambda>x. x \<noteq> None) (map primitive_identity (map fst ?u)))"
    using run by (simp add: members_ok_def comp_def)
  have "?u \<noteq> []" using mem by auto
  then show ?thesis
    using mem author dist
    by (intro exI [of _ "map fst ?u"] exI [of _ "map snd ?u"]) (simp add: resolve_array_deny_def Let_def)
qed

lemma deny_list_is_union_witness:
  "dr_denied (resolve_array_deny [contribution Project (JArr []), contribution Global (JArr [JStr ''typos''])])"
proof -
  have "contribution Global (JArr [JStr ''typos''])
      \<in> set [contribution Project (JArr []), contribution Global (JArr [JStr ''typos''])]" by simp
  moreover have "dc_value (contribution Global (JArr [JStr ''typos''])) = Some (JArr [JStr ''typos''])"
    by (simp add: contribution_def)
  moreover have "JStr ''typos'' \<in> set [JStr ''typos'']" "primitive_identity (JStr ''typos'') \<noteq> None"
    by simp_all
  ultimately show ?thesis by (metis deny_list_is_union)
qed

end
