(* ===== verification/Config_Normalize.thy ===== *)
theory Config_Normalize
  imports Config_Records
begin

text \<open>
  \<^verbatim>\<open>clients/config-core/normalize.ts\<close>: the always-walking normalizer.  Every node of the result is
  built here; what does not fit the schema is dropped with a record.

  The walk threads the collector.  The set of the objects on the current path is the constructor
  \<open>RBack\<close> of the input: it stands for a reference to an object the value is itself part of.  The
  scratch list \<^verbatim>\<open>context.path\<close>, which every push pops again, is the field \<open>wc_path\<close>.
  \<open>None\<close> is the sentinel \<^verbatim>\<open>DROPPED\<close>.  The \<^verbatim>\<open>catch\<close> around the walk has no counterpart: no
  step of the walk can throw.
\<close>

text \<open>What the pipeline calls and this library does not model: secret redaction and the RegExp compiler.\<close>

record config_env =
  ce_redact :: "string \<Rightarrow> string"
  ce_regex :: regex_compiler

record walk_context =
  wc_file :: path
  wc_tier :: "source_tier option"
  wc_path :: "string list"

record normalized_config =
  nc_value :: "json option"
  nc_records :: "migration_record list"
  nc_dropped :: nat

definition OPEN_SCHEMA :: schema_node where
  "OPEN_SCHEMA = [(''additionalProperties'', JBool True)]"

definition pointer_of :: "string list \<Rightarrow> string" where
  "pointer_of p = (if p = [] then [] else SLASH # join_with SLASH p)"

definition walk_record ::
    "config_env \<Rightarrow> walk_context \<Rightarrow> diagnostic_code \<Rightarrow> string \<Rightarrow> record_reason \<Rightarrow> collector \<Rightarrow> collector" where
  "walk_record env cx code key reason c =
     (let label = bounded_key_label (ce_redact env) key
      in collector_add
           \<lparr>mr_code = code, mr_file = wc_file cx, mr_key = label,
            mr_subject = migration_subject (wc_file cx) label, mr_reason = reason,
            mr_canonical_key = None, mr_tier = wc_tier cx\<rparr> c)"

definition enter :: "string \<Rightarrow> walk_context \<Rightarrow> walk_context" where
  "enter name cx = cx\<lparr>wc_path := wc_path cx @ [name]\<rparr>"

fun json_type_name :: "raw \<Rightarrow> string" where
  "json_type_name RNull = ''null''"
| "json_type_name (RBool _) = ''boolean''"
| "json_type_name (RNum _) = ''number''"
| "json_type_name RNot_Finite = ''number''"
| "json_type_name (RStr _) = ''string''"
| "json_type_name (RArr _) = ''array''"
| "json_type_name (RObj _) = ''object''"
| "json_type_name RBack = ''object''"
| "json_type_name (ROther t) = t"

subsection \<open>Scalars\<close>

definition is_integer :: "js_num \<Rightarrow> bool" where
  "is_integer n = (case n of Fin q \<Rightarrow> snd (quotient_of q) = 1 | Neg_Zero \<Rightarrow> True)"

definition check_enum ::
    "config_env \<Rightarrow> json \<Rightarrow> schema_node option \<Rightarrow> walk_context \<Rightarrow> collector \<Rightarrow> json option \<times> collector" where
  "check_enum env v schema cx c =
     (case schema_get schema ''enum'' of
        Some (JArr allowed) \<Rightarrow>
          if v \<in> set allowed then (Some v, c)
          else (None, walk_record env cx CFG_0005 (pointer_of (wc_path cx)) (Not_In_Enum allowed) c)
      | _ \<Rightarrow> (Some v, c))"

definition is_config_scalar :: "raw \<Rightarrow> json option" where
  "is_config_scalar v =
     (case v of RNull \<Rightarrow> Some JNull | RBool b \<Rightarrow> Some (JBool b) | RNum n \<Rightarrow> Some (JNum n)
      | RStr s \<Rightarrow> Some (JStr s) | _ \<Rightarrow> None)"

definition walk_leaf ::
    "config_env \<Rightarrow> raw \<Rightarrow> schema_node option \<Rightarrow> walk_context \<Rightarrow> collector \<Rightarrow> json option \<times> collector" where
  "walk_leaf env v schema cx c =
     (case is_config_scalar v of
        None \<Rightarrow> (None, walk_record env cx CFG_0005 (pointer_of (wc_path cx)) (Not_Json (json_type_name v)) c)
      | Some j \<Rightarrow> check_enum env j schema cx c)"

definition scalar_check :: "string \<Rightarrow> raw \<Rightarrow> json option" where
  "scalar_check declared v =
     (case v of
        RStr s \<Rightarrow> if declared = ''string'' then Some (JStr s) else None
      | RNum n \<Rightarrow> if declared = ''number'' \<or> (declared = ''integer'' \<and> is_integer n) then Some (JNum n) else None
      | RBool b \<Rightarrow> if declared = ''boolean'' then Some (JBool b) else None
      | RNull \<Rightarrow> if declared = ''null'' then Some JNull else None
      | _ \<Rightarrow> None)"

definition walk_scalar ::
    "config_env \<Rightarrow> raw \<Rightarrow> schema_node option \<Rightarrow> walk_context \<Rightarrow> string \<Rightarrow> collector \<Rightarrow> json option \<times> collector" where
  "walk_scalar env v schema cx declared c =
     (case scalar_check declared v of
        None \<Rightarrow> (None, walk_record env cx CFG_0005 (pointer_of (wc_path cx))
                         (Expected_Type declared (json_type_name v)) c)
      | Some j \<Rightarrow> check_enum env j schema cx c)"

subsection \<open>The walk\<close>

definition claims_children :: "schema_node option \<Rightarrow> bool" where
  "claims_children schema \<longleftrightarrow>
     as_schema_node (schema_get schema ''properties'') \<noteq> None \<or>
     as_schema_node (schema_get schema ''patternProperties'') \<noteq> None \<or>
     schema_get schema ''additionalProperties'' \<noteq> None"

definition reject_unsafe_key ::
    "config_env \<Rightarrow> string \<Rightarrow> walk_context \<Rightarrow> collector \<Rightarrow> bool \<times> collector" where
  "reject_unsafe_key env name cx c =
     (if is_unsafe_config_key name then
        (True, walk_record env cx CFG_0006 (pointer_of (wc_path cx @ [name])) Unsafe_Key c)
      else (False, c))"

text \<open>
  The schema a property is walked with.  The outer \<open>None\<close> is the drop of an unknown property, the
  inner one the open walk of a kept one.
\<close>

definition effective_schema ::
    "regex_compiler \<Rightarrow> schema_node option \<Rightarrow> string \<Rightarrow> schema_node option option" where
  "effective_schema regex schema name =
     (case property_schema regex schema name of
        Some child \<Rightarrow> Some (Some child)
      | None \<Rightarrow>
          (case additional_property_policy schema of
             Drop_Property \<Rightarrow> None
           | Keep_Property \<Rightarrow> Some None
           | Validate_Property s \<Rightarrow> Some (Some s)))"

definition opaque_schema :: "schema_node option \<Rightarrow> schema_node option" where
  "opaque_schema schema = (if claims_children schema then schema else Some OPEN_SCHEMA)"

function (sequential) walk ::
    "config_env \<Rightarrow> raw \<Rightarrow> schema_node option \<Rightarrow> walk_context \<Rightarrow> nat \<Rightarrow> collector \<Rightarrow> json option \<times> collector"
  and walk_opaque ::
    "config_env \<Rightarrow> raw \<Rightarrow> schema_node option \<Rightarrow> walk_context \<Rightarrow> nat \<Rightarrow> collector \<Rightarrow> json option \<times> collector"
  and walk_object ::
    "config_env \<Rightarrow> raw \<Rightarrow> schema_node option \<Rightarrow> walk_context \<Rightarrow> nat \<Rightarrow> collector \<Rightarrow> json option \<times> collector"
  and walk_fields ::
    "config_env \<Rightarrow> (string \<times> raw) list \<Rightarrow> schema_node option \<Rightarrow> walk_context \<Rightarrow> nat \<Rightarrow>
     (string \<times> json) list \<Rightarrow> collector \<Rightarrow> (string \<times> json) list \<times> collector"
  and walk_array ::
    "config_env \<Rightarrow> raw \<Rightarrow> schema_node option \<Rightarrow> walk_context \<Rightarrow> nat \<Rightarrow> collector \<Rightarrow> json option \<times> collector"
  and walk_items ::
    "config_env \<Rightarrow> raw list \<Rightarrow> nat \<Rightarrow> schema_node option \<Rightarrow> walk_context \<Rightarrow> nat \<Rightarrow>
     json list \<Rightarrow> collector \<Rightarrow> json list \<times> collector"
where
  "walk env v schema cx depth c =
     (if depth > MAX_CONFIG_DEPTH then
        (None, walk_record env cx CFG_0005 (pointer_of (wc_path cx)) Too_Deep c)
      else if v = RBack then
        (None, walk_record env cx CFG_0005 (pointer_of (wc_path cx)) Refers_To_Itself c)
      else
        let declared = schema_type schema
        in if declared = Some ''object'' then walk_object env v schema cx depth c
           else if declared = Some ''array'' then walk_array env v schema cx depth c
           else if is_known_schema_type declared then walk_scalar env v schema cx (the declared) c
           else walk_opaque env v schema cx depth c)"
| "walk_opaque env v schema cx depth c =
     (case v of
        RObj _ \<Rightarrow> walk_object env v (opaque_schema schema) cx depth c
      | RArr _ \<Rightarrow> walk_array env v schema cx depth c
      | _ \<Rightarrow> walk_leaf env v schema cx c)"
| "walk_object env (RObj props) schema cx depth c =
     (case walk_fields env props schema cx depth [] c of (out, c') \<Rightarrow> (Some (JObj out), c'))"
| "walk_object env v schema cx depth c =
     (None, walk_record env cx CFG_0005 (pointer_of (wc_path cx)) (Expected_Type ''object'' (json_type_name v)) c)"
| "walk_fields env [] schema cx depth out c = (out, c)"
| "walk_fields env ((name, child) # rest) schema cx depth out c =
     (case reject_unsafe_key env name cx c of
        (True, c') \<Rightarrow> walk_fields env rest schema cx depth out c'
      | (False, c') \<Rightarrow>
          (case effective_schema (ce_regex env) schema name of
             None \<Rightarrow>
               walk_fields env rest schema cx depth out
                 (walk_record env cx CFG_0004 (pointer_of (wc_path cx @ [name])) Unknown_Field c')
           | Some effective \<Rightarrow>
               (case walk env child effective (enter name cx) (depth + 1) c' of
                  (walked, c'') \<Rightarrow>
                    walk_fields env rest schema cx depth
                      (case walked of None \<Rightarrow> out | Some w \<Rightarrow> safe_assign out name w) c'')))"
| "walk_array env (RArr vs) schema cx depth c =
     (case walk_items env vs 0 (items_schema schema) cx depth [] c of (out, c') \<Rightarrow> (Some (JArr out), c'))"
| "walk_array env v schema cx depth c =
     (None, walk_record env cx CFG_0005 (pointer_of (wc_path cx)) (Expected_Type ''array'' (json_type_name v)) c)"
| "walk_items env [] i items cx depth out c = (out, c)"
| "walk_items env (v # vs) i items cx depth out c =
     (case walk env v items (enter (decimal i) cx) (depth + 1) c of
        (walked, c') \<Rightarrow>
          walk_items env vs (i + 1) items cx depth
            (case walked of None \<Rightarrow> out | Some w \<Rightarrow> out @ [w]) c')"
  by pat_completeness auto
termination
  by (relation "measure (\<lambda>x. case x of
        Inl (Inl (_, v, _)) \<Rightarrow> 4 * size v + 3
      | Inl (Inr (Inl (_, v, _))) \<Rightarrow> 4 * size v + 2
      | Inl (Inr (Inr (_, v, _))) \<Rightarrow> 4 * size v + 1
      | Inr (Inl (_, props, _)) \<Rightarrow> 4 * size_list (size_prod (\<lambda>_. 0) size) props
      | Inr (Inr (Inl (_, v, _))) \<Rightarrow> 4 * size v + 1
      | Inr (Inr (Inr (_, vs, _))) \<Rightarrow> 4 * size_list size vs)")
    (auto split: raw.splits)

definition validate ::
    "config_env \<Rightarrow> raw \<Rightarrow> schema_node \<Rightarrow> path \<Rightarrow> source_tier option \<Rightarrow> collector \<Rightarrow> json option \<times> collector" where
  "validate env v schema file tier c =
     walk env v (Some schema) \<lparr>wc_file = file, wc_tier = tier, wc_path = []\<rparr> 0 c"

definition normalized :: "json option \<times> collector \<Rightarrow> normalized_config" where
  "normalized r = \<lparr>nc_value = fst r, nc_records = co_kept (snd r), nc_dropped = co_dropped (snd r)\<rparr>"


declare walk.simps [simp del] walk_opaque.simps [simp del]

lemmas walk_induct = walk_walk_opaque_walk_object_walk_fields_walk_array_walk_items.induct

subsection \<open>What the walk notes\<close>

definition noted :: "collector \<Rightarrow> nat" where
  "noted c = length (co_kept c) + co_dropped c"

lemma noted_add [simp]: "noted (collector_add r c) = Suc (noted c)"
  by (simp add: noted_def collector_add_def)

lemma noted_record [simp]: "noted (walk_record env cx code key reason c) = Suc (noted c)"
  by (simp add: walk_record_def Let_def)

lemma check_enum_value:
  "fst (check_enum env v s cx c) = (case schema_get s ''enum'' of
      Some (JArr allowed) \<Rightarrow> if v \<in> set allowed then Some v else None | _ \<Rightarrow> Some v)"
  by (simp add: check_enum_def split: option.split json.split)

lemma check_enum_noted:
  "noted (snd (check_enum env v s cx c)) = noted c + (if fst (check_enum env v s cx c) = None then 1 else 0)"
  by (auto simp: check_enum_def split: option.split json.split)

lemma check_enum_Some: "fst (check_enum env v s cx c) = Some w \<Longrightarrow> check_enum env v s cx c = (Some v, c) \<and> w = v"
  by (auto simp: check_enum_def split: option.splits json.splits if_splits)

lemma leaf_value:
  "fst (walk_leaf env v s cx c) =
     (case is_config_scalar v of None \<Rightarrow> None | Some j \<Rightarrow> fst (check_enum env j s cx c))"
  by (simp add: walk_leaf_def split: option.split)

lemma scalar_value:
  "fst (walk_scalar env v s cx t c) =
     (case scalar_check t v of None \<Rightarrow> None | Some j \<Rightarrow> fst (check_enum env j s cx c))"
  by (simp add: walk_scalar_def split: option.split)

lemma leaf_noted:
  "noted (snd (walk_leaf env v s cx c)) = noted c + (if fst (walk_leaf env v s cx c) = None then 1 else 0)"
  by (simp add: walk_leaf_def check_enum_noted split: option.split)

lemma scalar_noted:
  "noted (snd (walk_scalar env v s cx t c)) = noted c + (if fst (walk_scalar env v s cx t c) = None then 1 else 0)"
  by (simp add: walk_scalar_def check_enum_noted split: option.split)

lemma reject_cases:
  "reject_unsafe_key env name cx c =
     (is_unsafe_config_key name,
      if is_unsafe_config_key name
      then walk_record env cx CFG_0006 (pointer_of (wc_path cx @ [name])) Unsafe_Key c else c)"
  by (simp add: reject_unsafe_key_def)


subsection \<open>One node at a time\<close>

text \<open>
  The verdict on a node by its kind: which schema the children of an object are walked with, whether
  an array is accepted, and what becomes of a scalar.
\<close>

definition object_schema :: "schema_node option \<Rightarrow> schema_node option option" where
  "object_schema s =
     (if schema_type s = Some ''object'' then Some s
      else if is_known_schema_type (schema_type s) then None else Some (opaque_schema s))"

definition accepts_array :: "schema_node option \<Rightarrow> bool" where
  "accepts_array s \<longleftrightarrow> schema_type s = Some ''array'' \<or> \<not> is_known_schema_type (schema_type s)"

definition scalar_verdict :: "schema_node option \<Rightarrow> raw \<Rightarrow> json option" where
  "scalar_verdict s v =
     (case (if is_known_schema_type (schema_type s) then scalar_check (the (schema_type s)) v
            else is_config_scalar v) of
        None \<Rightarrow> None
      | Some j \<Rightarrow> (case schema_get s ''enum'' of
                     Some (JArr allowed) \<Rightarrow> if j \<in> set allowed then Some j else None
                   | _ \<Rightarrow> Some j))"

definition is_flat :: "raw \<Rightarrow> bool" where
  "is_flat v \<longleftrightarrow> (case v of RObj _ \<Rightarrow> False | RArr _ \<Rightarrow> False | RBack \<Rightarrow> False | _ \<Rightarrow> True)"

definition add_field :: "(string \<times> json) list \<Rightarrow> string \<Rightarrow> json option \<Rightarrow> (string \<times> json) list" where
  "add_field out name w = (case w of None \<Rightarrow> out | Some v \<Rightarrow> safe_assign out name v)"

lemma known_types: "is_known_schema_type (Some ''object'')" "is_known_schema_type (Some ''array'')"
  by (simp_all add: is_known_schema_type_def SCHEMA_TYPES_def)

lemma walk_too_deep: "MAX_CONFIG_DEPTH < d \<Longrightarrow> fst (walk env v s cx d c) = None
    \<and> noted (snd (walk env v s cx d c)) = Suc (noted c)"
  by (simp add: walk.simps)

lemma walk_back: "fst (walk env RBack s cx d c) = None \<and> noted (snd (walk env RBack s cx d c)) = Suc (noted c)"
  by (simp add: walk.simps)

lemma walk_kept_object:
  "d \<le> MAX_CONFIG_DEPTH \<Longrightarrow> object_schema s = Some s' \<Longrightarrow> walk env (RObj ps) s cx d c =
     (Some (JObj (fst (walk_fields env ps s' cx d [] c))), snd (walk_fields env ps s' cx d [] c))"
  by (auto simp: walk.simps [of env "RObj ps"] walk_opaque.simps object_schema_def known_types Let_def
      split: if_splits prod.split)

lemma walk_lost_object:
  "object_schema s = None \<Longrightarrow> fst (walk env (RObj ps) s cx d c) = None
     \<and> noted (snd (walk env (RObj ps) s cx d c)) = Suc (noted c)"
  by (auto simp: walk.simps [of env "RObj ps"] object_schema_def walk_scalar_def scalar_check_def Let_def
      split: if_splits)

lemma walk_kept_array:
  "d \<le> MAX_CONFIG_DEPTH \<Longrightarrow> accepts_array s \<Longrightarrow> walk env (RArr vs) s cx d c =
     (Some (JArr (fst (walk_items env vs 0 (items_schema s) cx d [] c))),
      snd (walk_items env vs 0 (items_schema s) cx d [] c))"
  by (auto simp: walk.simps [of env "RArr vs"] walk_opaque.simps accepts_array_def known_types Let_def
      split: if_splits prod.split)

lemma walk_lost_array:
  "\<not> accepts_array s \<Longrightarrow> fst (walk env (RArr vs) s cx d c) = None
     \<and> noted (snd (walk env (RArr vs) s cx d c)) = Suc (noted c)"
  by (auto simp: walk.simps [of env "RArr vs"] accepts_array_def walk_scalar_def scalar_check_def Let_def
      split: if_splits)

lemma walk_flat:
  assumes "d \<le> MAX_CONFIG_DEPTH" "is_flat v"
  shows "fst (walk env v s cx d c) = scalar_verdict s v
    \<and> noted (snd (walk env v s cx d c)) = noted c + (if scalar_verdict s v = None then 1 else 0)
    \<and> (scalar_verdict s v \<noteq> None \<longrightarrow> snd (walk env v s cx d c) = c)"
proof -
  have obj: "walk_object env v s cx d c = (None, walk_record env cx CFG_0005 (pointer_of (wc_path cx))
      (Expected_Type ''object'' (json_type_name v)) c)"
    and arr: "walk_array env v s cx d c = (None, walk_record env cx CFG_0005 (pointer_of (wc_path cx))
      (Expected_Type ''array'' (json_type_name v)) c)"
    and opaque: "walk_opaque env v s cx d c = walk_leaf env v s cx c" and ne: "v \<noteq> RBack"
    using assms(2) by (cases v; simp add: is_flat_def walk_opaque.simps)+
  have none: "scalar_check ''object'' v = None" "scalar_check ''array'' v = None"
    by (simp_all add: scalar_check_def split: raw.split)
  have enum: "check_enum env j s cx c = (case schema_get s ''enum'' of
        Some (JArr allowed) \<Rightarrow> if j \<in> set allowed then (Some j, c)
          else (None, walk_record env cx CFG_0005 (pointer_of (wc_path cx)) (Not_In_Enum allowed) c)
      | _ \<Rightarrow> (Some j, c))" for j by (simp add: check_enum_def)
  show ?thesis
    using assms(1) ne none
    by (auto simp: walk.simps [of env v] Let_def obj arr opaque scalar_verdict_def known_types enum
        walk_scalar_def walk_leaf_def split: option.split json.split)
qed

lemma fields_Nil [simp]: "walk_fields env [] s cx d out c = (out, c)"
  by simp

lemma fields_Cons:
  "walk_fields env ((name, child) # rest) s cx d out c =
     (if is_unsafe_config_key name then
        walk_fields env rest s cx d out
          (walk_record env cx CFG_0006 (pointer_of (wc_path cx @ [name])) Unsafe_Key c)
      else case effective_schema (ce_regex env) s name of
        None \<Rightarrow> walk_fields env rest s cx d out
          (walk_record env cx CFG_0004 (pointer_of (wc_path cx @ [name])) Unknown_Field c)
      | Some e \<Rightarrow>
          walk_fields env rest s cx d (add_field out name (fst (walk env child e (enter name cx) (Suc d) c)))
            (snd (walk env child e (enter name cx) (Suc d) c)))"
  by (simp add: reject_cases add_field_def case_prod_beta split: option.split)

lemma items_Cons:
  "walk_items env (v # vs) i items cx d out c =
     walk_items env vs (Suc i) items cx d
       (out @ (case fst (walk env v items (enter (decimal i) cx) (Suc d) c) of None \<Rightarrow> [] | Some w \<Rightarrow> [w]))
       (snd (walk env v items (enter (decimal i) cx) (Suc d) c))"
  by (simp add: case_prod_beta split: option.split)

declare walk_fields.simps [simp del] walk_items.simps [simp del]

lemma items_Nil [simp]: "walk_items env [] i items cx d out c = (out, c)"
  by (simp add: walk_items.simps)

lemmas node_steps = walk_kept_object walk_kept_array walk_flat

text \<open>Induction over the input, with the members of an object and of an array at hand.\<close>

lemma raw_induct [case_names Flat Back Array Object]:
  assumes "\<And>v. is_flat v \<Longrightarrow> P v" "P RBack"
    and "\<And>vs. (\<And>v. v \<in> set vs \<Longrightarrow> P v) \<Longrightarrow> P (RArr vs)"
    and "\<And>ps. (\<And>k v. (k, v) \<in> set ps \<Longrightarrow> P v) \<Longrightarrow> P (RObj ps)"
  shows "P v"
proof (induction v)
  case (RObj ps)
  then show ?case by (intro assms(4)) (metis snds.intros snd_conv)
qed (auto intro: assms simp: is_flat_def)

end
