(* ===== verification/Config_Merge.thy ===== *)
theory Config_Merge
  imports Config_Deny Config_Normalize
begin

text \<open>
  \<^verbatim>\<open>clients/config-core/merge.ts\<close> and \<^verbatim>\<open>clients/config-core/resolve.ts\<close>: the field-wise merge of
  normalized sources with the provenance of every leaf, and the front door that validates every
  source and merges them.

  The recursion passes its two mutable objects, the provenance map and the collector, as one state.
  The functions of the code that are mutually recursive with \<^verbatim>\<open>mergeNode\<close> take it as their first
  argument \<open>node\<close>, applied one level deeper; \<open>merge_node\<close> ties the knot and stops at the depth bound.
\<close>

record config_source =
  cs_tier :: source_tier
  cs_file :: "path option"
  cs_trust :: "trust_decision option"
  cs_value :: "json option"

record merge_contribution =
  ct_source :: config_source
  ct_value :: json
  ct_rank :: nat

record merge_state =
  ms_provenance :: provenance_map
  ms_collector :: collector

type_synonym merge_child =
  "merge_contribution list \<Rightarrow> schema_node option \<Rightarrow> string \<Rightarrow> merge_state \<Rightarrow> json option \<times> merge_state"

definition merge_record ::
    "config_env \<Rightarrow> path \<Rightarrow> diagnostic_code \<Rightarrow> string \<Rightarrow> record_reason \<Rightarrow> merge_state \<Rightarrow> merge_state" where
  "merge_record env file code key reason st =
     (let label = bounded_key_label (ce_redact env) key
      in st\<lparr>ms_collector := collector_add
           \<lparr>mr_code = code, mr_file = file, mr_key = label, mr_subject = migration_subject file label,
            mr_reason = reason, mr_canonical_key = None, mr_tier = None\<rparr> (ms_collector st)\<rparr>)"

definition provenance_of :: "merge_contribution \<Rightarrow> string \<Rightarrow> provenance" where
  "provenance_of e key =
     \<lparr>pv_tier = cs_tier (ct_source e), pv_file = cs_file (ct_source e), pv_key = key,
      pv_trust = cs_trust (ct_source e)\<rparr>"

definition stamp :: "merge_contribution \<Rightarrow> string \<Rightarrow> merge_state \<Rightarrow> merge_state" where
  "stamp e key st = st\<lparr>ms_provenance := AList.update key (provenance_of e key) (ms_provenance st)\<rparr>"

definition is_object :: "json \<Rightarrow> bool" where
  "is_object v = (case v of JObj _ \<Rightarrow> True | _ \<Rightarrow> False)"

definition is_array :: "json \<Rightarrow> bool" where
  "is_array v = (case v of JArr _ \<Rightarrow> True | _ \<Rightarrow> False)"

definition is_object_node :: "schema_node option \<Rightarrow> merge_contribution list \<Rightarrow> bool" where
  "is_object_node schema cs \<longleftrightarrow>
     (let declared = schema_type schema
      in if declared = Some ''object'' then True
         else if is_known_schema_type declared then False
         else if as_schema_node (schema_get schema ''properties'') \<noteq> None then True
         else list_all (\<lambda>e. is_object (ct_value e)) cs)"

definition is_array_node :: "schema_node option \<Rightarrow> merge_contribution list \<Rightarrow> bool" where
  "is_array_node schema cs \<longleftrightarrow>
     (let declared = schema_type schema
      in if declared = Some ''array'' then True
         else if is_known_schema_type declared then False
         else list_all (\<lambda>e. is_array (ct_value e)) cs)"

definition deny_contribution_of :: "merge_contribution \<Rightarrow> deny_contribution" where
  "deny_contribution_of e =
     \<lparr>dc_tier = cs_tier (ct_source e), dc_file = cs_file (ct_source e),
      dc_trust = cs_trust (ct_source e), dc_value = Some (ct_value e)\<rparr>"

definition set_provenance :: "provenance \<Rightarrow> merge_state \<Rightarrow> merge_state" where
  "set_provenance p st = st\<lparr>ms_provenance := AList.update (pv_key p) p (ms_provenance st)\<rparr>"

definition resolve_deny :: "deny_policy \<Rightarrow> deny_contribution list \<Rightarrow> deny_resolution" where
  "resolve_deny policy dcs =
     (case policy of Boolean_False \<Rightarrow> resolve_boolean_deny dcs | Array_Union \<Rightarrow> resolve_array_deny dcs)"

definition merge_deny ::
    "merge_contribution list \<Rightarrow> deny_policy \<Rightarrow> string \<Rightarrow> merge_state \<Rightarrow> json option \<times> merge_state" where
  "merge_deny cs policy key st =
     (let dcs = map deny_contribution_of cs;
          resolution = resolve_deny policy dcs;
          st1 = (case deny_provenance dcs resolution key of
                   None \<Rightarrow> st
                 | Some entry \<Rightarrow> st\<lparr>ms_provenance := AList.update key entry (ms_provenance st)\<rparr>);
          st2 = fold set_provenance (deny_member_provenance dcs resolution key) st1
      in (dr_value resolution, st2))"

subsection \<open>Objects\<close>

fun object_fields :: "json \<Rightarrow> (string \<times> json) list" where
  "object_fields (JObj ps) = ps"
| "object_fields _ = []"

definition collect_name ::
    "config_env \<Rightarrow> path \<Rightarrow> string \<Rightarrow> string list \<times> merge_state \<Rightarrow> string \<Rightarrow> string list \<times> merge_state" where
  "collect_name env file key acc name =
     (case acc of (names, st) \<Rightarrow>
        if name \<in> set names then (names, st)
        else if is_unsafe_config_key name then
          (names, merge_record env file CFG_0006 (pointer_child key name) Unsafe_Key st)
        else (names @ [name], st))"

definition collect_names ::
    "config_env \<Rightarrow> path \<Rightarrow> string \<Rightarrow> merge_contribution list \<Rightarrow> merge_state \<Rightarrow> string list \<times> merge_state" where
  "collect_names env file key objects st =
     foldl (\<lambda>acc e. foldl (collect_name env file key) acc (map fst (object_fields (ct_value e)))) ([], st) objects"

definition child_contributions :: "merge_contribution list \<Rightarrow> string \<Rightarrow> merge_contribution list" where
  "child_contributions objects name =
     List.map_filter (\<lambda>e. map_option (\<lambda>v. e\<lparr>ct_value := v\<rparr>) (map_of (object_fields (ct_value e)) name)) objects"

fun merge_fields ::
    "merge_child \<Rightarrow> regex_compiler \<Rightarrow> merge_contribution list \<Rightarrow> schema_node option \<Rightarrow> string \<Rightarrow>
     string list \<Rightarrow> (string \<times> json) list \<Rightarrow> merge_state \<Rightarrow> (string \<times> json) list \<times> merge_state" where
  "merge_fields node regex objects schema key [] out st = (out, st)"
| "merge_fields node regex objects schema key (name # rest) out st =
     (case node (child_contributions objects name) (property_schema regex schema name) (pointer_child key name) st of
        (merged, st') \<Rightarrow>
          merge_fields node regex objects schema key rest
            (case merged of None \<Rightarrow> out | Some v \<Rightarrow> safe_assign out name v) st')"

definition merge_object ::
    "merge_child \<Rightarrow> config_env \<Rightarrow> path \<Rightarrow> merge_contribution list \<Rightarrow> schema_node option \<Rightarrow> string \<Rightarrow>
     merge_state \<Rightarrow> json option \<times> merge_state" where
  "merge_object node env file cs schema key st =
     (let objects = filter (\<lambda>e. is_object (ct_value e)) cs
      in if objects = [] then (Some (ct_value (last cs)), stamp (last cs) key st)
         else case collect_names env file key objects st of
                (names, st1) \<Rightarrow>
                  (case merge_fields node (ce_regex env) objects schema key names [] st1 of
                     (out, st2) \<Rightarrow> (Some (JObj out), st2)))"

subsection \<open>Arrays\<close>

fun array_members :: "json \<Rightarrow> json list" where
  "array_members (JArr vs) = vs"
| "array_members _ = []"

definition append_member ::
    "string \<Rightarrow> merge_contribution \<Rightarrow> json list \<times> merge_state \<Rightarrow> json \<Rightarrow> json list \<times> merge_state" where
  "append_member key e acc member =
     (case acc of (out, st) \<Rightarrow> (out @ [member], stamp e (pointer_child key (decimal (length out))) st))"

definition append_arrays ::
    "merge_contribution list \<Rightarrow> string \<Rightarrow> merge_state \<Rightarrow> json list \<times> merge_state" where
  "append_arrays arrays key st =
     (case foldl (\<lambda>acc e. foldl (append_member key e) acc (array_members (ct_value e))) ([], st) arrays of
        (out, st') \<Rightarrow> (out, stamp (hd arrays) key st'))"

definition key_identity :: "json \<Rightarrow> string \<Rightarrow> identity option" where
  "key_identity member field =
     (case member of
        JObj ps \<Rightarrow> (case map_of ps field of
                      Some (JStr s) \<Rightarrow> Some (Id_String s)
                    | Some (JNum n) \<Rightarrow> Some (Id_Number (number_value n))
                    | _ \<Rightarrow> None)
      | _ \<Rightarrow> None)"

text \<open>The groups in the order their identities were first seen, and the members that have none.\<close>

type_synonym keyed_groups = "(identity, merge_contribution list) js_map \<times> merge_contribution list"

definition group_member :: "string \<Rightarrow> merge_contribution \<Rightarrow> keyed_groups \<Rightarrow> json \<Rightarrow> keyed_groups" where
  "group_member field e acc member =
     (case acc of (groups, unkeyed) \<Rightarrow>
        let c = e\<lparr>ct_value := member\<rparr>
        in case key_identity member field of
             None \<Rightarrow> (groups, unkeyed @ [c])
           | Some ident \<Rightarrow>
               (case map_of groups ident of
                  Some grp \<Rightarrow> (AList.update ident (grp @ [c]) groups, unkeyed)
                | None \<Rightarrow> (AList.update ident [c] groups, unkeyed)))"

definition group_members :: "string \<Rightarrow> merge_contribution list \<Rightarrow> keyed_groups" where
  "group_members field arrays =
     foldl (\<lambda>acc e. foldl (group_member field e) acc (array_members (ct_value e))) ([], []) arrays"

fun push_merged ::
    "merge_child \<Rightarrow> schema_node option \<Rightarrow> string \<Rightarrow> merge_contribution list list \<Rightarrow> json list \<Rightarrow>
     merge_state \<Rightarrow> json list \<times> merge_state" where
  "push_merged node items key [] out st = (out, st)"
| "push_merged node items key (grp # rest) out st =
     (case node grp items (pointer_child key (decimal (length out))) st of
        (merged, st') \<Rightarrow>
          push_merged node items key rest (case merged of None \<Rightarrow> out | Some v \<Rightarrow> out @ [v]) st')"

definition merge_keyed_array ::
    "merge_child \<Rightarrow> merge_contribution list \<Rightarrow> schema_node option \<Rightarrow> string \<Rightarrow> string \<Rightarrow> merge_state \<Rightarrow>
     json list \<times> merge_state" where
  "merge_keyed_array node arrays schema field key st =
     (case group_members field arrays of
        (groups, unkeyed) \<Rightarrow>
          (case push_merged node (items_schema schema) key (map snd groups @ map (\<lambda>e. [e]) unkeyed) [] st of
             (out, st') \<Rightarrow> (out, stamp (hd arrays) key st')))"

definition merge_array ::
    "merge_child \<Rightarrow> merge_contribution list \<Rightarrow> schema_node option \<Rightarrow> string \<Rightarrow> merge_state \<Rightarrow>
     json option \<times> merge_state" where
  "merge_array node cs schema key st =
     (let arrays = filter (\<lambda>e. is_array (ct_value e)) cs
      in if arrays = [] then (Some (ct_value (last cs)), stamp (last cs) key st)
         else case merge_strategy_of schema of
                Keyed field \<Rightarrow> (case merge_keyed_array node arrays schema field key st of (out, st') \<Rightarrow> (Some (JArr out), st'))
              | Append \<Rightarrow> (case append_arrays arrays key st of (out, st') \<Rightarrow> (Some (JArr out), st'))
              | Replace \<Rightarrow> (Some (JArr (array_members (ct_value (last arrays)))), stamp (last arrays) key st))"

subsection \<open>The merge\<close>

function merge_node ::
    "config_env \<Rightarrow> path \<Rightarrow> nat \<Rightarrow> merge_contribution list \<Rightarrow> schema_node option \<Rightarrow> string \<Rightarrow> merge_state \<Rightarrow>
     json option \<times> merge_state" where
  "merge_node env file depth cs schema key st =
     (if cs = [] then (None, st)
      else if depth > MAX_CONFIG_DEPTH then (None, merge_record env file CFG_0005 key Too_Deep st)
      else case deny_policy_of schema of
             Some policy \<Rightarrow> merge_deny cs policy key st
           | None \<Rightarrow>
               if is_object_node schema cs then
                 merge_object (\<lambda>cs' s k st'. merge_node env file (Suc depth) cs' s k st') env file cs schema key st
               else if is_array_node schema cs then
                 merge_array (\<lambda>cs' s k st'. merge_node env file (Suc depth) cs' s k st') cs schema key st
               else (Some (ct_value (last cs)), stamp (last cs) key st))"
  by pat_completeness auto
termination by (relation "measure (\<lambda>(env, file, depth, _). Suc MAX_CONFIG_DEPTH - depth)") auto

declare merge_node.simps [simp del]

definition by_tier :: "config_source list \<Rightarrow> config_source list" where
  "by_tier sources = sort_key (\<lambda>s. tier_precedence (cs_tier s)) sources"

definition contributions_of :: "config_source list \<Rightarrow> merge_contribution list" where
  "contributions_of sources =
     List.map_filter (\<lambda>(s, rank). map_option (\<lambda>v. \<lparr>ct_source = s, ct_value = v, ct_rank = rank\<rparr>) (cs_value s))
       (zip (by_tier sources) [0..<length sources])"

definition merge ::
    "config_env \<Rightarrow> config_source list \<Rightarrow> schema_node \<Rightarrow> path \<Rightarrow> collector \<Rightarrow> resolved_config \<times> collector" where
  "merge env sources schema file c =
     (case merge_node env file 0 (contributions_of sources) (Some schema) []
             \<lparr>ms_provenance = [], ms_collector = c\<rparr> of
        (v, st) \<Rightarrow> (\<lparr>rc_value = v, rc_provenance = ms_provenance st\<rparr>, ms_collector st))"

subsection \<open>The front door\<close>

text \<open>
  A raw source is a source whose value is what the parser produced.  The guard around the two halves
  is left out: neither can throw.
\<close>

record raw_source =
  rs_tier :: source_tier
  rs_file :: "path option"
  rs_trust :: "trust_decision option"
  rs_value :: raw

record config_resolution =
  cr_resolved :: resolved_config
  cr_records :: "migration_record list"
  cr_dropped :: nat

fun normalize_sources ::
    "config_env \<Rightarrow> schema_node \<Rightarrow> raw_source list \<Rightarrow> collector \<Rightarrow> config_source list \<times> collector" where
  "normalize_sources env schema [] c = ([], c)"
| "normalize_sources env schema (s # ss) c =
     (case validate env (rs_value s) schema (case rs_file s of None \<Rightarrow> [] | Some f \<Rightarrow> f) (Some (rs_tier s)) c of
        (v, c') \<Rightarrow>
          (case normalize_sources env schema ss c' of
             (out, c'') \<Rightarrow>
               (\<lparr>cs_tier = rs_tier s, cs_file = rs_file s, cs_trust = rs_trust s, cs_value = v\<rparr> # out, c'')))"

definition resolve_config ::
    "config_env \<Rightarrow> raw_source list \<Rightarrow> schema_node \<Rightarrow> int \<Rightarrow> config_resolution" where
  "resolve_config env sources schema max_records =
     (case normalize_sources env schema sources (new_collector max_records 0) of
        (normd, c) \<Rightarrow>
          (case merge env normd schema [] c of
             (resolved, c') \<Rightarrow>
               \<lparr>cr_resolved = resolved, cr_records = co_kept c', cr_dropped = co_dropped c'\<rparr>))"

end
