(* ===== verification/Config_Validated.thy ===== *)
theory Config_Validated
  imports Config_Normalize
begin

text \<open>
  What \<^verbatim>\<open>validate\<close> promises: its result has the shape the schema declares and is safe to hand on,
  whatever is dropped is recorded, and a configuration that already has the shape passes through
  unchanged.
\<close>

text \<open>The shape a schema declares: the specification of a normalized value.\<close>

fun conforms :: "regex_compiler \<Rightarrow> schema_node option \<Rightarrow> json \<Rightarrow> bool" where
  "conforms rx s (JObj ps) \<longleftrightarrow>
     (case object_schema s of
        None \<Rightarrow> False
      | Some s' \<Rightarrow> (\<forall>(k, w) \<in> set ps.
          (case effective_schema rx s' k of None \<Rightarrow> False | Some e \<Rightarrow> conforms rx e w)))"
| "conforms rx s (JArr vs) \<longleftrightarrow> accepts_array s \<and> (\<forall>v \<in> set vs. conforms rx (items_schema s) v)"
| "conforms rx s v \<longleftrightarrow> scalar_verdict s (raw_of v) = Some v"

text \<open>A JavaScript object has each of its own keys once.\<close>

fun wf_raw :: "raw \<Rightarrow> bool" where
  "wf_raw (RArr vs) \<longleftrightarrow> (\<forall>v \<in> set vs. wf_raw v)"
| "wf_raw (RObj ps) \<longleftrightarrow> distinct (map fst ps) \<and> (\<forall>(k, v) \<in> set ps. wf_raw v)"
| "wf_raw v \<longleftrightarrow> True"

subsection \<open>Flat values\<close>

lemma scalar_verdict_raw: "scalar_verdict s v = Some j \<Longrightarrow> v = raw_of j"
  by (auto simp: scalar_verdict_def scalar_check_def is_config_scalar_def
      split: raw.splits option.splits json.splits if_splits)

lemma scalar_verdict_flat: "scalar_verdict s v = Some j \<Longrightarrow> (\<forall>vs. j \<noteq> JArr vs) \<and> (\<forall>ps. j \<noteq> JObj ps)"
  by (auto simp: scalar_verdict_def scalar_check_def is_config_scalar_def
      split: raw.splits option.splits json.splits if_splits)

lemma scalar_conforms: "scalar_verdict s v = Some j \<Longrightarrow> conforms rx s j \<and> safe_value d j"
  using scalar_verdict_raw [of s v j] scalar_verdict_flat [of s v j] by (cases j) auto

lemma raw_of_shape:
  "raw_of j = RArr vs \<longleftrightarrow> (\<exists>js. j = JArr js \<and> vs = map raw_of js)"
  "raw_of j = RObj ps \<longleftrightarrow> (\<exists>js. j = JObj js \<and> ps = map (\<lambda>(k, v). (k, raw_of v)) js)"
  "raw_of j \<noteq> RBack"
  by (cases j; auto)+

lemma raw_of_flat: "is_flat (raw_of j) \<longleftrightarrow> (\<forall>vs. j \<noteq> JArr vs) \<and> (\<forall>ps. j \<noteq> JObj ps)"
  by (cases j) (auto simp: is_flat_def)

text \<open>\<^verbatim>\<open>raw_of\<close> loses nothing: it has a left inverse.\<close>

fun json_of :: "raw \<Rightarrow> json" where
  "json_of RNull = JNull"
| "json_of (RBool b) = JBool b"
| "json_of (RNum n) = JNum n"
| "json_of (RStr t) = JStr t"
| "json_of (RArr vs) = JArr (map json_of vs)"
| "json_of (RObj ps) = JObj (map (\<lambda>(k, v). (k, json_of v)) ps)"
| "json_of _ = JNull"

lemma json_of_raw_of [simp]: "json_of (raw_of v) = v"
proof (induction v)
  case (JArr vs)
  then show ?case by (simp add: map_idI)
next
  case (JObj ps)
  have "map (\<lambda>(k, v). (k, json_of v)) (map (\<lambda>(k, v). (k, raw_of v)) ps) = ps"
    unfolding map_map comp_def using JObj by (intro map_idI) (auto intro: snds.intros)
  then show ?case by simp
qed simp_all

lemma raw_of_inj: "raw_of v = raw_of w \<Longrightarrow> v = w"
  by (metis json_of_raw_of)

subsection \<open>The result has the declared shape\<close>

abbreviation well_shaped :: "config_env \<Rightarrow> raw \<Rightarrow> bool" where
  "well_shaped env v \<equiv> (\<forall>s cx d c w. fst (walk env v s cx d c) = Some w \<longrightarrow>
     d \<le> MAX_CONFIG_DEPTH \<and> conforms (ce_regex env) s w \<and> safe_value (MAX_CONFIG_DEPTH - d) w)"

lemma add_field_keys:
  "set (map fst (add_field out k w)) \<subseteq> insert k (set (map fst out))"
  "distinct (map fst out) \<Longrightarrow> distinct (map fst (add_field out k w))"
  by (auto simp: add_field_def safe_assign_def keys_update simp del: set_map split: option.split)

lemma add_field_set: "(k', v) \<in> set (add_field out k w) \<Longrightarrow> (k', v) \<in> set out \<or> (k' = k \<and> w = Some v)"
proof (cases w)
  case (Some u)
  assume m: "(k', v) \<in> set (add_field out k w)"
  have "(k', v) \<in> set (AList.update k u out) \<Longrightarrow> (k', v) \<in> set out \<or> (k' = k \<and> u = v)"
    by (induction out) (auto split: if_splits)
  then show ?thesis using m Some by (auto simp: add_field_def safe_assign_def split: if_splits)
qed (simp add: add_field_def)

definition field_ok :: "config_env \<Rightarrow> schema_node option \<Rightarrow> nat \<Rightarrow> string \<times> json \<Rightarrow> bool" where
  "field_ok env s d f \<longleftrightarrow> \<not> is_unsafe_config_key (fst f) \<and> d < MAX_CONFIG_DEPTH
     \<and> safe_value (MAX_CONFIG_DEPTH - Suc d) (snd f)
     \<and> (\<exists>e. effective_schema (ce_regex env) s (fst f) = Some e \<and> conforms (ce_regex env) e (snd f))"

lemma add_field_ok:
  assumes "\<forall>f \<in> set out. field_ok env s d f" "w = None \<or> (\<exists>v. w = Some v \<and> field_ok env s d (k, v))"
  shows "\<forall>f \<in> set (add_field out k w). field_ok env s d f"
  using assms add_field_set [of _ _ out k w] by (metis option.distinct(1) option.inject prod.collapse)

lemma fields_shaped:
  assumes "\<forall>(k, v) \<in> set ps. well_shaped env v"
    and "distinct (map fst out)" "\<forall>f \<in> set out. field_ok env s d f"
  shows "distinct (map fst (fst (walk_fields env ps s cx d out c)))
    \<and> (\<forall>f \<in> set (fst (walk_fields env ps s cx d out c)). field_ok env s d f)"
  using assms
proof (induction ps arbitrary: out c)
  case (Cons p ps)
  obtain k v where p: "p = (k, v)" by (cases p)
  have tail: "\<forall>(k, v) \<in> set ps. well_shaped env v" using Cons.prems(1) by simp
  have this_ok: "well_shaped env v" using Cons.prems(1) p by simp
  note ih = Cons.IH [OF tail]
  show ?case
  proof (cases "is_unsafe_config_key k")
    case True
    then show ?thesis using ih [OF Cons.prems(2,3)] by (simp add: p fields_Cons)
  next
    case False
    show ?thesis
    proof (cases "effective_schema (ce_regex env) s k")
      case None
      then show ?thesis using ih [OF Cons.prems(2,3)] False by (simp add: p fields_Cons)
    next
      case (Some e)
      let ?w = "fst (walk env v e (enter k cx) (Suc d) c)"
      have "field_ok env s d (k, w)" if "?w = Some w" for w
      proof -
        have "Suc d \<le> MAX_CONFIG_DEPTH \<and> conforms (ce_regex env) e w \<and> safe_value (MAX_CONFIG_DEPTH - Suc d) w"
          using this_ok that by blast
        then show ?thesis using Some False by (simp add: field_ok_def)
      qed
      then have "\<forall>f \<in> set (add_field out k ?w). field_ok env s d f"
        using add_field_ok [OF Cons.prems(3)] by (cases ?w) blast+
      then show ?thesis
        using ih [OF add_field_keys(2) [OF Cons.prems(2)]] False Some by (simp add: p fields_Cons)
    qed
  qed
qed simp

definition item_ok :: "config_env \<Rightarrow> schema_node option \<Rightarrow> nat \<Rightarrow> json \<Rightarrow> bool" where
  "item_ok env items d w \<longleftrightarrow> d < MAX_CONFIG_DEPTH \<and> safe_value (MAX_CONFIG_DEPTH - Suc d) w
     \<and> conforms (ce_regex env) items w"

lemma items_shaped:
  assumes "\<forall>v \<in> set vs. well_shaped env v" "\<forall>w \<in> set out. item_ok env items d w"
  shows "\<forall>w \<in> set (fst (walk_items env vs i items cx d out c)). item_ok env items d w"
  using assms
proof (induction vs arbitrary: i out c)
  case (Cons v vs)
  let ?w = "fst (walk env v items (enter (decimal i) cx) (Suc d) c)"
  have "well_shaped env v" using Cons.prems(1) by simp
  then have "item_ok env items d w" if "?w = Some w" for w
    using that unfolding item_ok_def by (meson Suc_le_lessD)
  then have "\<forall>w \<in> set (out @ (case ?w of None \<Rightarrow> [] | Some w \<Rightarrow> [w])). item_ok env items d w"
    using Cons.prems(2) by (cases ?w) auto
  moreover have "\<forall>v \<in> set vs. well_shaped env v" using Cons.prems(1) by simp
  ultimately show ?case unfolding items_Cons by (intro Cons.IH)
qed simp

lemma walk_shaped: "well_shaped env v"
proof (induction v rule: raw_induct)
  case (Flat v)
  show ?case
  proof (intro allI impI)
    fix s cx d c w assume w: "fst (walk env v s cx d c) = Some w"
    then have "d \<le> MAX_CONFIG_DEPTH" using walk_too_deep [of d env v s cx c] by force
    then show "d \<le> MAX_CONFIG_DEPTH \<and> conforms (ce_regex env) s w \<and> safe_value (MAX_CONFIG_DEPTH - d) w"
      using w walk_flat [OF _ Flat] scalar_conforms by simp
  qed
next
  case Back
  then show ?case by (simp add: walk_back)
next
  case (Array vs)
  show ?case
  proof (intro allI impI)
    fix s cx d c w assume w: "fst (walk env (RArr vs) s cx d c) = Some w"
    then have d: "d \<le> MAX_CONFIG_DEPTH" using walk_too_deep [of d env "RArr vs" s cx c] by force
    have a: "accepts_array s" using w walk_lost_array [of s env vs cx d c] by force
    show "d \<le> MAX_CONFIG_DEPTH \<and> conforms (ce_regex env) s w \<and> safe_value (MAX_CONFIG_DEPTH - d) w"
      using w items_shaped [of vs env "[]" "items_schema s" d 0 cx c] Array d a
      by (auto simp: walk_kept_array item_ok_def)
  qed
next
  case (Object ps)
  show ?case
  proof (intro allI impI)
    fix s cx d c w assume w: "fst (walk env (RObj ps) s cx d c) = Some w"
    then have d: "d \<le> MAX_CONFIG_DEPTH" using walk_too_deep [of d env "RObj ps" s cx c] by force
    obtain s' where s': "object_schema s = Some s'"
      using w walk_lost_object [of s env ps cx d c] by (cases "object_schema s") auto
    show "d \<le> MAX_CONFIG_DEPTH \<and> conforms (ce_regex env) s w \<and> safe_value (MAX_CONFIG_DEPTH - d) w"
      using w fields_shaped [of ps env "[]" s' d cx c] Object d s'
      by (fastforce simp: walk_kept_object field_ok_def)
  qed
qed


text \<open>What \<open>validate\<close> returns has the shape its schema declares and is safe to hand on: every
  field is one the schema claims or opens, every value is of the declared type and enumeration, no
  key modifies the object prototype, no object repeats a key, and nothing is nested deeper than 32
  levels; whatever the input was.\<close>

theorem validated_config_is_well_typed:
  assumes "fst (validate env raw schema file tier c) = Some v"
  shows "conforms (ce_regex env) (Some schema) v \<and> safe_value MAX_CONFIG_DEPTH v"
  using walk_shaped [of env raw] assms unfolding validate_def by fastforce

definition no_redaction :: config_env where
  "no_redaction = \<lparr>ce_redact = id, ce_regex = (\<lambda>p. Some (\<lambda>name. p = name))\<rparr>"

definition sample_schema :: schema_node where
  "sample_schema =
     [(''type'', JStr ''object''),
      (''properties'', JObj
        [(''mode'', JObj [(''type'', JStr ''string''), (''enum'', JArr [JStr ''on'', JStr ''off''])]),
         (''lsp'', JObj
           [(''type'', JStr ''object''),
            (''properties'', JObj
              [(''disabledServers'', JObj
                 [(''type'', JStr ''array''), (''items'', JObj [(''type'', JStr ''string'')]),
                  (''x-deny'', JStr ''array-union'')]),
               (''enabled'', JObj [(''type'', JStr ''boolean''), (''x-deny'', JStr ''boolean-false'')])])])])]"

definition sample_raw :: raw where
  "sample_raw =
     RObj [(''mode'', RStr ''of''), (''__proto__'', RObj [(''x'', RNull)]), (''typo'', RBool True),
           (''lsp'', RObj [(''enabled'', RBool False), (''disabledServers'', RArr [RStr ''typos'', RNum (Fin 3)])])]"

definition sample_value :: json where
  "sample_value = JObj [(''lsp'', JObj [(''enabled'', JBool False), (''disabledServers'', JArr [JStr ''typos''])])]"

lemma sample_validated:
  "fst (validate no_redaction sample_raw sample_schema ''f'' None (new_collector 20 0)) = Some sample_value"
  by code_simp

lemma validated_config_is_well_typed_witness:
  "conforms (ce_regex no_redaction) (Some sample_schema) sample_value \<and> safe_value MAX_CONFIG_DEPTH sample_value"
  by (rule validated_config_is_well_typed [OF sample_validated])

subsection \<open>Every drop is recorded\<close>

abbreviation grows :: "config_env \<Rightarrow> raw \<Rightarrow> bool" where
  "grows env v \<equiv> (\<forall>s cx d c. noted c \<le> noted (snd (walk env v s cx d c)))"

lemma fields_grow:
  "\<forall>(k, v) \<in> set ps. grows env v \<Longrightarrow> noted c \<le> noted (snd (walk_fields env ps s cx d out c))"
proof (induction ps arbitrary: out c)
  case (Cons p ps)
  obtain k v where p: "p = (k, v)" by (cases p)
  have tail: "\<forall>(k, v) \<in> set ps. grows env v" and v: "grows env v" using Cons.prems p by auto
  note ih = Cons.IH [OF tail]
  have "noted c \<le> noted (snd (walk_fields env ps s cx d o' (walk_record env cx code key reason c)))" for o' code key reason
    using ih [of "walk_record env cx code key reason c" o'] by simp
  moreover have "noted c \<le> noted (snd (walk_fields env ps s cx d o' (snd (walk env v e cx' d' c))))" for o' e cx' d'
    using v ih le_trans by blast
  ultimately show ?case unfolding p fields_Cons by (simp split: option.split)
qed simp

lemma items_grow:
  "\<forall>v \<in> set vs. grows env v \<Longrightarrow> noted c \<le> noted (snd (walk_items env vs i items cx d out c))"
proof (induction vs arbitrary: i out c)
  case (Cons v vs)
  have "noted c \<le> noted (snd (walk env v items (enter (decimal i) cx) (Suc d) c))" using Cons.prems by simp
  also have "\<dots> \<le> noted (snd (walk_items env (v # vs) i items cx d out c))"
    unfolding items_Cons using Cons.prems by (intro Cons.IH) simp
  finally show ?case .
qed simp

lemma walk_grows: "grows env v"
proof (induction v rule: raw_induct)
  case (Flat v)
  show ?case
  proof (intro allI)
    fix s cx d c
    show "noted c \<le> noted (snd (walk env v s cx d c))"
      using walk_flat [OF _ Flat, of d env s cx c] walk_too_deep [of d env v s cx c]
      by (cases "d \<le> MAX_CONFIG_DEPTH") auto
  qed
next
  case Back
  then show ?case by (simp add: walk_back)
next
  case (Array vs)
  show ?case
  proof (intro allI)
    fix s cx d c
    show "noted c \<le> noted (snd (walk env (RArr vs) s cx d c))"
      using items_grow [of vs env] Array walk_lost_array [of s env vs cx d c] walk_too_deep [of d env "RArr vs" s cx c]
      by (cases "d \<le> MAX_CONFIG_DEPTH"; cases "accepts_array s") (auto simp: walk_kept_array)
  qed
next
  case (Object ps)
  show ?case
  proof (intro allI)
    fix s cx d c
    show "noted c \<le> noted (snd (walk env (RObj ps) s cx d c))"
      using fields_grow [of ps env c "the (object_schema s)" cx d "[]"] Object walk_lost_object [of s env ps cx d c] walk_too_deep [of d env "RObj ps" s cx c]
      by (cases "d \<le> MAX_CONFIG_DEPTH"; cases "object_schema s") (force simp: walk_kept_object)+
  qed
qed


abbreviation lossless :: "config_env \<Rightarrow> raw \<Rightarrow> bool" where
  "lossless env v \<equiv> (\<forall>s cx d c. wf_raw v \<longrightarrow> noted (snd (walk env v s cx d c)) = noted c \<longrightarrow>
     (\<exists>w. walk env v s cx d c = (Some w, c) \<and> raw_of w = v))"

lemma fields_grow': "noted c \<le> noted (snd (walk_fields env ps s cx d out c))"
  using walk_grows by (intro fields_grow) blast

lemma items_grow': "noted c \<le> noted (snd (walk_items env vs i items cx d out c))"
  using walk_grows by (intro items_grow) blast

lemma add_new_field:
  "\<not> is_unsafe_config_key k \<Longrightarrow> k \<notin> set (map fst out) \<Longrightarrow> add_field out k (Some w) = out @ [(k, w)]"
  by (simp add: add_field_def safe_assign_def update_new del: set_map)

lemma fields_lossless:
  assumes "\<forall>(k, v) \<in> set ps. lossless env v \<and> wf_raw v" "distinct (map fst out @ map fst ps)"
    and "noted (snd (walk_fields env ps s cx d out c)) = noted c"
  shows "\<exists>ws. walk_fields env ps s cx d out c = (out @ ws, c) \<and> map (\<lambda>(k, v). (k, raw_of v)) ws = ps"
  using assms
proof (induction ps arbitrary: out c)
  case (Cons p ps)
  obtain k v where p: "p = (k, v)" by (cases p)
  have tail: "\<forall>(k, v) \<in> set ps. lossless env v \<and> wf_raw v" and v: "lossless env v" "wf_raw v"
    using Cons.prems(1) p by auto
  have no_record: "noted (snd (walk_fields env ps s cx d o' (walk_record env cx code key reason c))) \<noteq> noted c"
    for o' code key reason
    using fields_grow' [of "walk_record env cx code key reason c" env ps s cx d o'] by simp
  have safe: "\<not> is_unsafe_config_key k" using Cons.prems(3) no_record by (auto simp: p fields_Cons)
  obtain e where e: "effective_schema (ce_regex env) s k = Some e"
    using Cons.prems(3) no_record safe by (cases "effective_schema (ce_regex env) s k") (auto simp: p fields_Cons)
  let ?r = "walk env v e (enter k cx) (Suc d) c"
  have step: "walk_fields env (p # ps) s cx d out c = walk_fields env ps s cx d (add_field out k (fst ?r)) (snd ?r)"
    using safe e by (simp add: p fields_Cons)
  have "noted (snd ?r) = noted c"
    using Cons.prems(3) fields_grow' [of "snd ?r" env ps s cx d "add_field out k (fst ?r)"] walk_grows
    unfolding step by (metis le_antisym)
  then obtain w where w: "?r = (Some w, c)" "raw_of w = v" using v by blast
  have new: "add_field out k (Some w) = out @ [(k, w)]"
    using Cons.prems(2) safe p by (intro add_new_field) auto
  have dist: "distinct (map fst (out @ [(k, w)]) @ map fst ps)" using Cons.prems(2) p by simp
  have "noted (snd (walk_fields env ps s cx d (out @ [(k, w)]) c)) = noted c"
    using Cons.prems(3) unfolding step w by (simp add: new)
  from Cons.IH [OF tail dist this] obtain ws where
    "walk_fields env ps s cx d (out @ [(k, w)]) c = ((out @ [(k, w)]) @ ws, c)"
    "map (\<lambda>(k, v). (k, raw_of v)) ws = ps" by blast
  then show ?case unfolding step w by (intro exI [of _ "(k, w) # ws"]) (simp add: new p w(2))
qed simp

lemma items_lossless:
  assumes "\<forall>v \<in> set vs. lossless env v \<and> wf_raw v"
    and "noted (snd (walk_items env vs i items cx d out c)) = noted c"
  shows "\<exists>ws. walk_items env vs i items cx d out c = (out @ ws, c) \<and> map raw_of ws = vs"
  using assms
proof (induction vs arbitrary: i out c)
  case (Cons v vs)
  let ?r = "walk env v items (enter (decimal i) cx) (Suc d) c"
  let ?o = "out @ (case fst ?r of None \<Rightarrow> [] | Some w \<Rightarrow> [w])"
  have tail: "\<forall>v \<in> set vs. lossless env v \<and> wf_raw v" and v: "lossless env v" "wf_raw v"
    using Cons.prems(1) by auto
  have "noted (snd ?r) = noted c"
    using Cons.prems(2) items_grow' [of "snd ?r" env vs "Suc i" items cx d ?o] walk_grows
    unfolding items_Cons by (metis le_antisym)
  then obtain w where w: "?r = (Some w, c)" "raw_of w = v" using v by blast
  have "noted (snd (walk_items env vs (Suc i) items cx d (out @ [w]) c)) = noted c"
    using Cons.prems(2) unfolding items_Cons w by simp
  from Cons.IH [OF tail this] obtain ws where
    "walk_items env vs (Suc i) items cx d (out @ [w]) c = ((out @ [w]) @ ws, c)" "map raw_of ws = vs" by blast
  then show ?case unfolding items_Cons w by (intro exI [of _ "w # ws"]) (simp add: w(2))
qed simp

lemma walk_lossless: "lossless env v"
proof (induction v rule: raw_induct)
  case (Flat v)
  show ?case
  proof (intro allI impI)
    fix s cx d c assume n: "noted (snd (walk env v s cx d c)) = noted c"
    then have d: "d \<le> MAX_CONFIG_DEPTH" using walk_too_deep [of d env v s cx c] by force
    note flat = walk_flat [OF d Flat, of env s cx c]
    then obtain w where w: "scalar_verdict s v = Some w" using n by (auto split: if_splits)
    then have "walk env v s cx d c = (Some w, c)" using flat by (simp add: prod_eq_iff)
    then show "\<exists>w. walk env v s cx d c = (Some w, c) \<and> raw_of w = v"
      using scalar_verdict_raw [OF w] by blast
  qed
next
  case Back
  then show ?case by (simp add: walk_back)
next
  case (Array vs)
  show ?case
  proof (intro allI impI)
    fix s cx d c assume wf: "wf_raw (RArr vs)" and n: "noted (snd (walk env (RArr vs) s cx d c)) = noted c"
    have d: "d \<le> MAX_CONFIG_DEPTH" using walk_too_deep [of d env "RArr vs" s cx c] n by force
    have a: "accepts_array s" using n walk_lost_array [of s env vs cx d c] by force
    have all: "\<forall>v \<in> set vs. lossless env v \<and> wf_raw v" using Array wf by simp
    have "noted (snd (walk_items env vs 0 (items_schema s) cx d [] c)) = noted c"
      using n by (simp add: walk_kept_array d a)
    from items_lossless [OF all this] obtain ws where
      "walk_items env vs 0 (items_schema s) cx d [] c = ([] @ ws, c)" "map raw_of ws = vs" by blast
    then show "\<exists>w. walk env (RArr vs) s cx d c = (Some w, c) \<and> raw_of w = RArr vs"
      by (simp add: walk_kept_array d a)
  qed
next
  case (Object ps)
  show ?case
  proof (intro allI impI)
    fix s cx d c assume wf: "wf_raw (RObj ps)" and n: "noted (snd (walk env (RObj ps) s cx d c)) = noted c"
    have d: "d \<le> MAX_CONFIG_DEPTH" using walk_too_deep [of d env "RObj ps" s cx c] n by force
    obtain s' where s': "object_schema s = Some s'"
      using n walk_lost_object [of s env ps cx d c] by (cases "object_schema s") auto
    have all: "\<forall>(k, v) \<in> set ps. lossless env v \<and> wf_raw v" using Object wf by auto
    have dist: "distinct (map fst [] @ map fst ps)" using wf by simp
    have "noted (snd (walk_fields env ps s' cx d [] c)) = noted c"
      using n by (simp add: walk_kept_object d s')
    from fields_lossless [OF all dist this] obtain ws where
      "walk_fields env ps s' cx d [] c = ([] @ ws, c)" "map (\<lambda>(k, v). (k, raw_of v)) ws = ps" by blast
    then show "\<exists>w. walk env (RObj ps) s cx d c = (Some w, c) \<and> raw_of w = RObj ps"
      by (simp add: walk_kept_object d s')
  qed
qed

subsection \<open>A value of the declared shape passes through\<close>

abbreviation passes :: "config_env \<Rightarrow> json \<Rightarrow> bool" where
  "passes env w \<equiv> (\<forall>s cx d c. d \<le> MAX_CONFIG_DEPTH \<longrightarrow> conforms (ce_regex env) s w \<longrightarrow>
     safe_value (MAX_CONFIG_DEPTH - d) w \<longrightarrow> walk env (raw_of w) s cx d c = (Some w, c))"

lemma fields_pass:
  assumes "\<forall>(k, w) \<in> set ws. passes env w" "\<forall>f \<in> set ws. field_ok env s d f" "distinct (map fst out @ map fst ws)"
  shows "walk_fields env (map (\<lambda>(k, v). (k, raw_of v)) ws) s cx d out c = (out @ ws, c)"
  using assms
proof (induction ws arbitrary: out)
  case (Cons f ws)
  obtain k w where f: "f = (k, w)" by (cases f)
  have ok: "field_ok env s d (k, w)" and p: "passes env w" using Cons.prems(1,2) f by auto
  from ok obtain e where e: "effective_schema (ce_regex env) s k = Some e" "conforms (ce_regex env) e w"
    "\<not> is_unsafe_config_key k" "Suc d \<le> MAX_CONFIG_DEPTH" "safe_value (MAX_CONFIG_DEPTH - Suc d) w"
    by (auto simp: field_ok_def)
  have w: "walk env (raw_of w) e (enter k cx) (Suc d) c = (Some w, c)" using p e(2,4,5) by blast
  have new: "add_field out k (Some w) = out @ [(k, w)]"
    using Cons.prems(3) e(3) f by (intro add_new_field) auto
  have "walk_fields env (map (\<lambda>(k, v). (k, raw_of v)) ws) s cx d (out @ [(k, w)]) c = ((out @ [(k, w)]) @ ws, c)"
    using Cons.prems f by (intro Cons.IH) auto
  then show ?case using e(1,3) by (simp add: f fields_Cons w new)
qed simp

lemma items_pass:
  assumes "\<forall>w \<in> set ws. passes env w" "\<forall>w \<in> set ws. item_ok env items d w"
  shows "walk_items env (map raw_of ws) i items cx d out c = (out @ ws, c)"
  using assms
proof (induction ws arbitrary: i out)
  case (Cons w ws)
  have "passes env w" "item_ok env items d w" using Cons.prems by auto
  then have "walk env (raw_of w) items (enter (decimal i) cx) (Suc d) c = (Some w, c)"
    unfolding item_ok_def using Suc_leI by blast
  moreover have "walk_items env (map raw_of ws) (Suc i) items cx d (out @ [w]) c = ((out @ [w]) @ ws, c)"
    using Cons.prems by (intro Cons.IH) auto
  ultimately show ?case by (simp add: items_Cons)
qed simp

lemma flat_conforms:
  "is_flat (raw_of w) \<Longrightarrow> conforms rx s w \<longleftrightarrow> scalar_verdict s (raw_of w) = Some w"
  by (cases w) (auto simp: is_flat_def)

lemma walk_passes_flat: "is_flat (raw_of w) \<Longrightarrow> passes env w"
  using walk_flat [of _ "raw_of w" env] by (auto simp: flat_conforms prod_eq_iff)

lemma walk_passes: "passes env w"
proof (induction w)
  case (JArr ws)
  show ?case
  proof (intro allI impI)
    fix s cx d c
    assume d: "d \<le> MAX_CONFIG_DEPTH" and con: "conforms (ce_regex env) s (JArr ws)"
      and safe: "safe_value (MAX_CONFIG_DEPTH - d) (JArr ws)"
    have ok: "\<forall>w \<in> set ws. item_ok env (items_schema s) d w"
      using con safe by (auto simp: item_ok_def)
    have "walk_items env (map raw_of ws) 0 (items_schema s) cx d [] c = ([] @ ws, c)"
      using JArr ok by (intro items_pass) blast+
    then show "walk env (raw_of (JArr ws)) s cx d c = (Some (JArr ws), c)"
      using d con by (simp add: walk_kept_array)
  qed
next
  case (JObj ws)
  show ?case
  proof (intro allI impI)
    fix s cx d c
    assume d: "d \<le> MAX_CONFIG_DEPTH" and con: "conforms (ce_regex env) s (JObj ws)"
      and safe: "safe_value (MAX_CONFIG_DEPTH - d) (JObj ws)"
    obtain s' where s': "object_schema s = Some s'" using con by (auto split: option.splits)
    have ok: "field_ok env s' d f" if f: "f \<in> set ws" for f
    proof -
      obtain k w where fk: "f = (k, w)" by (cases f)
      have "case effective_schema (ce_regex env) s' k of None \<Rightarrow> False | Some e \<Rightarrow> conforms (ce_regex env) e w"
        using con f s' fk by auto
      moreover have "\<not> is_unsafe_config_key k \<and> MAX_CONFIG_DEPTH - d > 0 \<and> safe_value (MAX_CONFIG_DEPTH - d - 1) w"
        using safe f fk by auto
      ultimately show ?thesis by (auto simp: field_ok_def fk split: option.splits)
    qed
    have "walk_fields env (map (\<lambda>(k, v). (k, raw_of v)) ws) s' cx d [] c = ([] @ ws, c)"
    proof (intro fields_pass)
      show "\<forall>(k, w) \<in> set ws. passes env w" using JObj by (auto intro: snds.intros)
      show "\<forall>f \<in> set ws. field_ok env s' d f" using ok by blast
      show "distinct (map fst [] @ map fst ws)" using safe by simp
    qed
    then show "walk env (raw_of (JObj ws)) s cx d c = (Some (JObj ws), c)"
      using d s' by (simp add: walk_kept_object)
  qed
qed (rule walk_passes_flat; simp add: is_flat_def)+


text \<open>Normalizing is idempotent. The value \<open>validate\<close> returned, written out and read again
  under the same schema, comes back unchanged and adds no record, whatever file and tier it is read
  at and however full the collector is.\<close>

theorem validate_is_idempotent:
  assumes "fst (validate env raw schema file tier c) = Some v"
  shows "validate env (raw_of v) schema file' tier' c' = (Some v, c')"
proof -
  have "conforms (ce_regex env) (Some schema) v \<and> safe_value MAX_CONFIG_DEPTH v"
    using walk_shaped [of env raw] assms unfolding validate_def by fastforce
  then show ?thesis using walk_passes [of env v] unfolding validate_def by simp
qed

lemma validate_is_idempotent_witness:
  "validate no_redaction (raw_of sample_value) sample_schema ''g'' (Some Cli) (new_collector 0 5)
     = (Some sample_value, new_collector 0 5)"
  by (rule validate_is_idempotent [OF sample_validated])

text \<open>C25 (error): nothing is dropped without a record. Either the input is kept whole, it has the declared
  shape and the collector is untouched, or the result differs from the input and the collector has
  noted more than before, as a record or in its count of suppressed ones.\<close>

theorem every_drop_is_recorded:
  assumes "wf_raw raw"
  shows "(\<exists>v. validate env raw schema file tier c = (Some v, c) \<and> raw_of v = raw
      \<and> conforms (ce_regex env) (Some schema) v \<and> safe_value MAX_CONFIG_DEPTH v)
    \<or> ((\<forall>v. fst (validate env raw schema file tier c) = Some v \<longrightarrow> raw_of v \<noteq> raw)
      \<and> length (co_kept c) + co_dropped c
        < length (co_kept (snd (validate env raw schema file tier c))) + co_dropped (snd (validate env raw schema file tier c)))"
proof -
  let ?r = "validate env raw schema file tier c"
  have shaped: "conforms (ce_regex env) (Some schema) v \<and> safe_value MAX_CONFIG_DEPTH v" if "fst ?r = Some v" for v
    using walk_shaped [of env raw] that unfolding validate_def by fastforce
  have grow: "noted c \<le> noted (snd ?r)" using walk_grows unfolding validate_def by blast
  show ?thesis
  proof (cases "noted (snd ?r) = noted c")
    case True
    then obtain v where v: "?r = (Some v, c)" "raw_of v = raw"
      using walk_lossless [of raw env] assms unfolding validate_def by blast
    then show ?thesis using shaped [of v] by simp
  next
    case False
    have "raw_of v \<noteq> raw" if v: "fst ?r = Some v" for v
    proof
      assume "raw_of v = raw"
      then have "?r = (Some v, c)"
        using walk_passes [of env v] shaped [OF v] unfolding validate_def by auto
      then show False using False by simp
    qed
    then show ?thesis using grow False by (simp add: noted_def)
  qed
qed

lemma every_drop_is_recorded_witness:
  "0 < length (co_kept (snd (validate no_redaction sample_raw sample_schema ''f'' None (new_collector 20 0))))
     + co_dropped (snd (validate no_redaction sample_raw sample_schema ''f'' None (new_collector 20 0)))"
proof -
  have wf: "wf_raw sample_raw" by (simp add: sample_raw_def)
  have zero: "length (co_kept (new_collector 20 0)) + co_dropped (new_collector 20 0) = 0"
    by (simp add: new_collector_def)
  have lost: "raw_of sample_value \<noteq> sample_raw" by (simp add: sample_value_def sample_raw_def)
  from every_drop_is_recorded [OF wf, of no_redaction sample_schema "''f''" None "new_collector 20 0"]
  show ?thesis
  proof
    assume "\<exists>v. validate no_redaction sample_raw sample_schema ''f'' None (new_collector 20 0) = (Some v, new_collector 20 0)
      \<and> raw_of v = sample_raw \<and> conforms (ce_regex no_redaction) (Some sample_schema) v \<and> safe_value MAX_CONFIG_DEPTH v"
    then show ?thesis using sample_validated lost by force
  next
    assume "(\<forall>v. fst (validate no_redaction sample_raw sample_schema ''f'' None (new_collector 20 0)) = Some v \<longrightarrow> raw_of v \<noteq> sample_raw)
      \<and> length (co_kept (new_collector 20 0)) + co_dropped (new_collector 20 0)
        < length (co_kept (snd (validate no_redaction sample_raw sample_schema ''f'' None (new_collector 20 0))))
          + co_dropped (snd (validate no_redaction sample_raw sample_schema ''f'' None (new_collector 20 0)))"
    then show ?thesis using zero by linarith
  qed
qed

subsection \<open>The value does not depend on the bookkeeping\<close>

abbreviation steady :: "config_env \<Rightarrow> raw \<Rightarrow> bool" where
  "steady env v \<equiv> (\<forall>s cx d c cx' c'. fst (walk env v s cx d c) = fst (walk env v s cx' d c'))"

lemma fields_steady:
  "\<forall>(k, v) \<in> set ps. steady env v \<Longrightarrow>
   fst (walk_fields env ps s cx d out c) = fst (walk_fields env ps s cx' d out c')"
proof (induction ps arbitrary: out c c')
  case (Cons p ps)
  obtain k v where p: "p = (k, v)" by (cases p)
  have tail: "\<forall>(k, v) \<in> set ps. steady env v" and v: "steady env v" using Cons.prems p by auto
  have "fst (walk env v e (enter k cx) (Suc d) c) = fst (walk env v e (enter k cx') (Suc d) c')" for e
    using v by blast
  then show ?case
    using Cons.IH [OF tail] unfolding p fields_Cons by (simp split: option.split)
qed simp

lemma items_steady:
  "\<forall>v \<in> set vs. steady env v \<Longrightarrow>
   fst (walk_items env vs i items cx d out c) = fst (walk_items env vs i items cx' d out c')"
proof (induction vs arbitrary: i out c c')
  case (Cons v vs)
  have "fst (walk env v items (enter (decimal i) cx) (Suc d) c) = fst (walk env v items (enter (decimal i) cx') (Suc d) c')"
    using Cons.prems by simp
  note eq = this
  show ?case unfolding items_Cons eq using Cons.prems by (intro Cons.IH) simp
qed simp

lemma walk_steady: "steady env v"
proof (induction v rule: raw_induct)
  case (Flat v)
  show ?case
  proof (intro allI)
    fix s cx d c cx' c'
    show "fst (walk env v s cx d c) = fst (walk env v s cx' d c')"
      using walk_flat [OF _ Flat] walk_too_deep by (cases "d \<le> MAX_CONFIG_DEPTH") simp_all
  qed
next
  case Back
  then show ?case by (simp add: walk_back)
next
  case (Array vs)
  show ?case
  proof (intro allI)
    fix s cx d c cx' c'
    show "fst (walk env (RArr vs) s cx d c) = fst (walk env (RArr vs) s cx' d c')"
      using items_steady [of vs env 0 "items_schema s" cx d "[]" c cx' c'] Array
      by (cases "d \<le> MAX_CONFIG_DEPTH"; cases "accepts_array s")
        (simp_all add: walk_kept_array walk_lost_array walk_too_deep)
  qed
next
  case (Object ps)
  show ?case
  proof (intro allI)
    fix s cx d c cx' c'
    have "fst (walk_fields env ps s' cx d [] c) = fst (walk_fields env ps s' cx' d [] c')" for s'
      using Object by (intro fields_steady) blast
    then show "fst (walk env (RObj ps) s cx d c) = fst (walk env (RObj ps) s cx' d c')"
      by (cases "d \<le> MAX_CONFIG_DEPTH"; cases "object_schema s")
        (simp_all add: walk_kept_object walk_lost_object walk_too_deep)
  qed
qed

end
