(* ===== verification/Config_Resolved.thy ===== *)
theory Config_Resolved
  imports Config_Merge Config_Validated "HOL-Library.Multiset"
begin

text \<open>
  What the merge and the front door promise: a resolved configuration has the shape its schema
  declares and adds no record, a denial that counts is still there, a leaf comes from the nearest
  tier that sets it, and the order in which the sources are handed in does not matter.
\<close>

subsection \<open>Loops of the merge\<close>

lemma merge_fields_Cons:
  "merge_fields node rx objs s key (name # rest) out st =
     (let r = node (child_contributions objs name) (property_schema rx s name) (pointer_child key name) st
      in merge_fields node rx objs s key rest (add_field out name (fst r)) (snd r))"
  by (simp add: add_field_def case_prod_beta Let_def)

lemma push_merged_Cons:
  "push_merged node items key (grp # rest) out st =
     (let r = node grp items (pointer_child key (decimal (length out))) st
      in push_merged node items key rest (case fst r of None \<Rightarrow> out | Some v \<Rightarrow> out @ [v]) (snd r))"
  by (simp add: case_prod_beta Let_def)

declare merge_fields.simps(2) [simp del] push_merged.simps(2) [simp del]

text \<open>An invariant of the state and a property of the fields written, from what one field does.\<close>

lemma merge_fields_rule:
  assumes "\<And>name st. name \<in> set names \<Longrightarrow> Q st \<Longrightarrow>
      Q (snd (node (child_contributions objs name) (property_schema rx s name) (pointer_child key name) st)) \<and>
      (\<forall>v. fst (node (child_contributions objs name) (property_schema rx s name) (pointer_child key name) st) = Some v
        \<longrightarrow> R name v)"
    and "Q st" "\<forall>(k, v) \<in> set out. R k v" "distinct (map fst out)"
  shows "Q (snd (merge_fields node rx objs s key names out st))
    \<and> (\<forall>(k, v) \<in> set (fst (merge_fields node rx objs s key names out st)). R k v)
    \<and> distinct (map fst (fst (merge_fields node rx objs s key names out st)))"
  using assms
proof (induction names arbitrary: out st)
  case (Cons n ns)
  let ?r = "node (child_contributions objs n) (property_schema rx s n) (pointer_child key n) st"
  have r: "Q (snd ?r)" "\<And>v. fst ?r = Some v \<Longrightarrow> R n v" using Cons.prems(1) [of n st] Cons.prems(2) by auto
  have "R k v" if "(k, v) \<in> set (add_field out n (fst ?r))" for k v
    using add_field_set [OF that] Cons.prems(3) r(2) by blast
  then have "\<forall>(k, v) \<in> set (add_field out n (fst ?r)). R k v" by blast
  note outs = this
  show ?case
    unfolding merge_fields_Cons Let_def
  proof (rule Cons.IH [OF _ r(1) outs add_field_keys(2) [OF Cons.prems(4)]])
    fix name st assume "name \<in> set ns" "Q st"
    then show "Q (snd (node (child_contributions objs name) (property_schema rx s name) (pointer_child key name) st)) \<and>
      (\<forall>v. fst (node (child_contributions objs name) (property_schema rx s name) (pointer_child key name) st) = Some v
        \<longrightarrow> R name v)" by (intro Cons.prems(1)) simp_all
  qed
qed simp

lemma push_merged_rule:
  assumes "\<And>grp k st. grp \<in> set groups \<Longrightarrow> Q st \<Longrightarrow>
      Q (snd (node grp items k st)) \<and> (\<forall>v. fst (node grp items k st) = Some v \<longrightarrow> R v)"
    and "Q st" "\<forall>v \<in> set out. R v"
  shows "Q (snd (push_merged node items key groups out st))
    \<and> (\<forall>v \<in> set (fst (push_merged node items key groups out st)). R v)"
  using assms
proof (induction groups arbitrary: out st)
  case (Cons g gs)
  let ?r = "node g items (pointer_child key (decimal (length out))) st"
  have r: "Q (snd ?r)" "\<And>v. fst ?r = Some v \<Longrightarrow> R v"
    using Cons.prems(1) [of g st] Cons.prems(2) by auto
  have outs: "\<forall>v \<in> set (case fst ?r of None \<Rightarrow> out | Some v \<Rightarrow> out @ [v]). R v"
    using Cons.prems(3) r(2) by (cases "fst ?r") auto
  show ?case
    unfolding push_merged_Cons Let_def
  proof (rule Cons.IH [OF _ r(1) outs])
    fix grp k st assume "grp \<in> set gs" "Q st"
    then show "Q (snd (node grp items k st)) \<and> (\<forall>v. fst (node grp items k st) = Some v \<longrightarrow> R v)"
      by (intro Cons.prems(1)) simp_all
  qed
qed simp

lemma collector_stamp [simp]: "ms_collector (stamp e key st) = ms_collector st"
  by (simp add: stamp_def)

lemma collector_set_provenance [simp]: "ms_collector (fold set_provenance ps st) = ms_collector st"
  by (induction ps arbitrary: st) (simp_all add: set_provenance_def)

lemma collector_deny [simp]: "ms_collector (snd (merge_deny cs pol key st)) = ms_collector st"
  by (simp add: merge_deny_def Let_def split: option.split)

lemma collect_name_safe:
  "\<forall>n \<in> set ns. \<not> is_unsafe_config_key n \<Longrightarrow>
   foldl (collect_name env file key) (names, st) ns
     = (foldl (\<lambda>names n. if n \<in> set names then names else names @ [n]) names ns, st)"
  by (induction ns arbitrary: names) (auto simp: collect_name_def)

lemma foldl_concat: "foldl (\<lambda>acc e. foldl f acc (g e)) a es = foldl f a (concat (map g es))"
  by (induction es arbitrary: a) simp_all

abbreviation all_names :: "merge_contribution list \<Rightarrow> string list" where
  "all_names objs \<equiv> concat (map (\<lambda>e. map fst (object_fields (ct_value e))) objs)"

lemma collect_fold:
  "collect_names env file key objs st = foldl (collect_name env file key) ([], st) (all_names objs)"
  by (simp add: collect_names_def foldl_concat)

lemma collect_run:
  "set (fst (foldl (collect_name env file key) acc ns)) = set (fst acc) \<union> {n \<in> set ns. \<not> is_unsafe_config_key n}
   \<and> (distinct (fst acc) \<longrightarrow> distinct (fst (foldl (collect_name env file key) acc ns)))
   \<and> ms_provenance (snd (foldl (collect_name env file key) acc ns)) = ms_provenance (snd acc)"
  if "\<forall>n \<in> set (fst acc). \<not> is_unsafe_config_key n"
  using that
proof (induction ns arbitrary: acc)
  case (Cons n ns)
  obtain names st where acc: "acc = (names, st)" by (cases acc)
  let ?a = "collect_name env file key acc n"
  have a: "set (fst ?a) = set names \<union> {m. m = n \<and> \<not> is_unsafe_config_key n}"
    "distinct names \<Longrightarrow> distinct (fst ?a)" "ms_provenance (snd ?a) = ms_provenance st"
    using Cons.prems by (auto simp: acc collect_name_def merge_record_def Let_def)
  then have "\<forall>n \<in> set (fst ?a). \<not> is_unsafe_config_key n" using Cons.prems by (auto simp: acc)
  from Cons.IH [OF this] show ?case using a by (auto simp: acc)
qed simp

lemma collect_names_set:
  "set (fst (collect_names env file key objs st)) = {n \<in> set (all_names objs). \<not> is_unsafe_config_key n}"
  "distinct (fst (collect_names env file key objs st))"
  "ms_provenance (snd (collect_names env file key objs st)) = ms_provenance st"
  using collect_run [where acc = "([], st)" and ns = "all_names objs"] by (auto simp: collect_fold)

lemma collect_names_safe:
  "\<forall>n \<in> set (all_names objs). \<not> is_unsafe_config_key n \<Longrightarrow> snd (collect_names env file key objs st) = st"
  unfolding collect_fold by (simp add: collect_name_safe)

lemma child_contribution:
  "e \<in> set (child_contributions objs name) \<Longrightarrow>
   \<exists>e' \<in> set objs. \<exists>ps. ct_value e' = JObj ps \<and> (name, ct_value e) \<in> set ps \<and> ct_source e = ct_source e'"
proof -
  assume "e \<in> set (child_contributions objs name)"
  then obtain e' v where e: "e' \<in> set objs" "map_of (object_fields (ct_value e')) name = Some v" "e = e'\<lparr>ct_value := v\<rparr>"
    by (auto simp: child_contributions_def List.map_filter_def)
  moreover have "ct_value e' = JObj (object_fields (ct_value e'))" using e(2) by (cases "ct_value e'") auto
  ultimately show ?thesis using map_of_SomeD [OF e(2)] by force
qed

subsection \<open>Groups and unions only hold members of the arrays\<close>

definition member_of :: "merge_contribution list \<Rightarrow> merge_contribution \<Rightarrow> bool" where
  "member_of arrays c \<longleftrightarrow> (\<exists>e \<in> set arrays. \<exists>m \<in> set (array_members (ct_value e)). c = e\<lparr>ct_value := m\<rparr>)"

definition groups_from :: "merge_contribution list \<Rightarrow> keyed_groups \<Rightarrow> bool" where
  "groups_from arrays gs \<longleftrightarrow>
     (\<forall>g \<in> set (map snd (fst gs)). g \<noteq> [] \<and> (\<forall>c \<in> set g. member_of arrays c)) \<and> (\<forall>c \<in> set (snd gs). member_of arrays c)"

lemma update_snd: "set (map snd (AList.update k v m)) \<subseteq> insert v (set (map snd m))"
  by (induction m) auto

lemma group_member_from:
  assumes "groups_from arrays gs" "e \<in> set arrays" "m \<in> set (array_members (ct_value e))"
  shows "groups_from arrays (group_member field e gs m)"
proof -
  obtain groups unkeyed where gs: "gs = (groups, unkeyed)" by (cases gs)
  have c: "member_of arrays (e\<lparr>ct_value := m\<rparr>)" using assms(2,3) by (auto simp: member_of_def)
  have grp: "\<forall>c \<in> set g. member_of arrays c" if "map_of groups ident = Some g" for ident g
    using assms(1) map_of_SomeD [OF that] by (force simp: groups_from_def gs)
  have upd: "groups_from arrays (AList.update ident g groups, unkeyed)"
    if "g \<noteq> []" "\<forall>c \<in> set g. member_of arrays c" for ident g
    using assms(1) update_snd [of ident g groups] that unfolding groups_from_def gs fst_conv snd_conv by blast
  show ?thesis
  proof (cases "key_identity m field")
    case None
    then show ?thesis using assms(1) c by (auto simp: group_member_def gs groups_from_def)
  next
    case (Some ident)
    show ?thesis
    proof (cases "map_of groups ident")
      case None
      then show ?thesis using Some c upd [of "[e\<lparr>ct_value := m\<rparr>]"] by (simp add: group_member_def gs Let_def)
    next
      case g: (Some g)
      then show ?thesis using Some c grp [OF g] upd [of "g @ [e\<lparr>ct_value := m\<rparr>]"]
        by (auto simp: group_member_def gs Let_def)
    qed
  qed
qed

lemma group_members_from: "groups_from arrays (group_members field arrays)"
proof -
  have inner: "set ms \<subseteq> set (array_members (ct_value e)) \<Longrightarrow> e \<in> set arrays \<Longrightarrow> groups_from arrays gs \<Longrightarrow>
      groups_from arrays (foldl (group_member field e) gs ms)" for ms e gs
    by (induction ms arbitrary: gs) (simp_all add: group_member_from)
  have "set es \<subseteq> set arrays \<Longrightarrow> groups_from arrays gs \<Longrightarrow>
      groups_from arrays (foldl (\<lambda>acc e. foldl (group_member field e) acc (array_members (ct_value e))) gs es)" for es gs
    by (induction es arbitrary: gs) (simp_all add: inner)
  from this [of arrays "([], [])"] show ?thesis by (simp add: group_members_def groups_from_def)
qed

lemma append_inner:
  "fst (foldl (append_member key e) acc ms) = fst acc @ ms
   \<and> ms_collector (snd (foldl (append_member key e) acc ms)) = ms_collector (snd acc)"
  by (induction ms arbitrary: acc) (simp_all add: append_member_def case_prod_beta)

lemma append_arrays_value:
  "fst (append_arrays arrays key st) = concat (map (\<lambda>e. array_members (ct_value e)) arrays)
   \<and> ms_collector (snd (append_arrays arrays key st)) = ms_collector st"
proof -
  have "fst (foldl (\<lambda>acc e. foldl (append_member key e) acc (array_members (ct_value e))) acc arrays)
        = fst acc @ concat (map (\<lambda>e. array_members (ct_value e)) arrays)
      \<and> ms_collector (snd (foldl (\<lambda>acc e. foldl (append_member key e) acc (array_members (ct_value e))) acc arrays))
        = ms_collector (snd acc)" for acc
    by (induction arrays arbitrary: acc) (simp_all add: append_inner)
  from this [of "([], st)"] show ?thesis by (simp add: append_arrays_def case_prod_beta)
qed

lemma union_member:
  assumes "(v, i) \<in> set (union_members cs)"
  shows "\<exists>c \<in> set cs. \<exists>vs. dc_value c = Some (JArr vs) \<and> v \<in> set vs"
proof -
  have "members_ok cs (union_members cs)"
    using union_run [of cs "[]" "by_precedence cs"] by (simp add: members_ok_def union_members_def)
  then have "i < length cs \<and> (\<exists>vs. dc_value (cs ! i) = Some (JArr vs) \<and> v \<in> set vs)"
    using assms unfolding members_ok_def by blast
  then show ?thesis using nth_mem by blast
qed


subsection \<open>The merge keeps the declared shape\<close>

text \<open>
  A schema that asks for a union of denials does so at nodes that may hold an array: without that
  the union of no lists, an empty array, would stand where the schema declares a scalar.
\<close>

fun sane_schema :: "json \<Rightarrow> bool" where
  "sane_schema (JObj ps) \<longleftrightarrow>
     (deny_policy_of (Some ps) = Some Array_Union \<longrightarrow> accepts_array (Some ps)) \<and> (\<forall>(k, v) \<in> set ps. sane_schema v)"
| "sane_schema _ \<longleftrightarrow> True"

definition sane :: "schema_node option \<Rightarrow> bool" where
  "sane s \<longleftrightarrow> (case s of None \<Rightarrow> True | Some ps \<Rightarrow> sane_schema (JObj ps))"

lemma sane_get: "sane s \<Longrightarrow> schema_get s k = Some v \<Longrightarrow> sane_schema v"
  by (auto simp: sane_def schema_get_def split: option.splits dest: map_of_SomeD)

lemma sane_as_node: "sane_schema v \<Longrightarrow> as_schema_node (Some v) = Some ps \<Longrightarrow> sane (Some ps)"
  by (auto simp: as_schema_node_def sane_def split: json.splits)

lemma sane_at: "sane s \<Longrightarrow> as_schema_node (schema_get s k) = Some ps \<Longrightarrow> sane (Some ps)"
  using sane_get [of s k] sane_as_node by (cases "schema_get s k") (auto simp: as_schema_node_def)

lemma sane_field: "sane (Some ps) \<Longrightarrow> map_of ps k = Some v \<Longrightarrow> sane_schema v"
  using sane_get [of "Some ps" k v] by (simp add: schema_get_def)

lemma sane_pattern:
  "\<forall>(k, v) \<in> set ps. sane_schema v \<Longrightarrow> pattern_schema rx ps name = Some c \<Longrightarrow> sane (Some c)"
  by (induction rx ps name rule: pattern_schema.induct) (auto split: option.splits if_splits intro: sane_as_node)

lemma sane_property: "sane s \<Longrightarrow> property_schema rx s name = Some c \<Longrightarrow> sane (Some c)"
proof -
  assume s: "sane s" and c: "property_schema rx s name = Some c"
  have pat: "sane (Some c)" if "as_schema_node (schema_get s ''patternProperties'') = Some ps"
      "pattern_schema rx ps name = Some c" for ps
    using sane_at [OF s that(1)] sane_pattern [of ps rx name c] that(2) by (simp add: sane_def)
  have own: "sane (Some c)" if ps: "as_schema_node (schema_get s ''properties'') = Some ps"
      and node: "as_schema_node (map_of ps name) = Some c" for ps
  proof -
    obtain v where v: "map_of ps name = Some v" using node by (cases "map_of ps name") (auto simp: as_schema_node_def)
    then show ?thesis using sane_field [OF sane_at [OF s ps] v] sane_as_node node by simp
  qed
  show ?thesis
    using c pat own unfolding property_schema_def by (auto split: option.splits)
qed

lemma sane_items: "sane s \<Longrightarrow> sane (items_schema s)"
  using sane_at [of s "''items''"] by (cases "items_schema s") (auto simp: items_schema_def sane_def)

lemma sane_effective: "sane s \<Longrightarrow> effective_schema rx s k = Some e \<Longrightarrow> sane e"
proof -
  assume s: "sane s" and e: "effective_schema rx s k = Some e"
  show "sane e"
  proof (cases "property_schema rx s k")
    case (Some c)
    then show ?thesis using e sane_property [OF s Some] by (simp add: effective_schema_def)
  next
    case None
    have "sane (Some p)" if "additional_property_policy s = Validate_Property p" for p
      using sane_get [OF s, of "''additionalProperties''"] that
      by (auto simp: additional_property_policy_def sane_def split: option.splits json.splits bool.splits)
    then show ?thesis
      using e None by (auto simp: effective_schema_def sane_def split: additional_policy.splits)
  qed
qed

lemma sane_object_schema: "sane s \<Longrightarrow> object_schema s = Some s' \<Longrightarrow> sane s'"
  by (auto simp: object_schema_def opaque_schema_def OPEN_SCHEMA_def sane_def deny_policy_of_def schema_get_def
      split: if_splits)

lemma property_None [simp]: "property_schema rx None name = None" "items_schema None = None"
    "merge_strategy_of None = Replace" "deny_policy_of None = None"
  by (simp_all add: property_schema_def schema_get_def as_schema_node_def items_schema_def
      merge_strategy_of_def deny_policy_of_def)

text \<open>The schema the merge reads at a field is the one the value was checked against, or none.\<close>

lemma merge_reads_checked_schema:
  assumes "object_schema s = Some s'" "effective_schema rx s' name = Some e"
  shows "property_schema rx s name = e \<or> property_schema rx s name = None"
proof (cases "s' = s")
  case True
  then show ?thesis using assms(2) by (auto simp: effective_schema_def split: option.splits)
next
  case False
  then have "\<not> claims_children s" using assms(1) by (auto simp: object_schema_def opaque_schema_def split: if_splits)
  then show ?thesis by (simp add: property_schema_def claims_children_def)
qed

definition fits :: "config_env \<Rightarrow> schema_node option \<Rightarrow> nat \<Rightarrow> json \<Rightarrow> bool" where
  "fits env s d v \<longleftrightarrow> safe_value (MAX_CONFIG_DEPTH - d) v \<and> conforms (ce_regex env) s v"

lemma fits_field:
  assumes "fits env s d (JObj ps)" "(k, v) \<in> set ps" "object_schema s = Some s'" "d \<le> MAX_CONFIG_DEPTH"
  shows "\<not> is_unsafe_config_key k \<and> d < MAX_CONFIG_DEPTH
    \<and> (\<exists>e. effective_schema (ce_regex env) s' k = Some e \<and> fits env e (Suc d) v)"
proof -
  have "case effective_schema (ce_regex env) s' k of None \<Rightarrow> False | Some e \<Rightarrow> conforms (ce_regex env) e v"
    using assms(1-3) by (auto simp: fits_def)
  moreover have "\<not> is_unsafe_config_key k \<and> MAX_CONFIG_DEPTH - d > 0 \<and> safe_value (MAX_CONFIG_DEPTH - d - 1) v"
    using assms(1,2) by (auto simp: fits_def)
  ultimately show ?thesis by (auto simp: fits_def split: option.splits)
qed

lemma fits_object: "fits env s d (JObj ps) \<Longrightarrow> object_schema s \<noteq> None"
  by (auto simp: fits_def split: option.splits)

lemma fits_member: "fits env s d (JArr vs) \<Longrightarrow> v \<in> set vs \<Longrightarrow> accepts_array s \<and> d < MAX_CONFIG_DEPTH \<and> fits env (items_schema s) (Suc d) v"
  by (auto simp: fits_def)

lemma fits_array:
  "accepts_array s \<Longrightarrow> \<forall>v \<in> set vs. d < MAX_CONFIG_DEPTH \<and> fits env (items_schema s) (Suc d) v \<Longrightarrow> fits env s d (JArr vs)"
  by (auto simp: fits_def)

lemma fits_accepts: "fits env s d (JArr vs) \<Longrightarrow> accepts_array s"
  by (simp add: fits_def)


definition sound_node :: "config_env \<Rightarrow> nat \<Rightarrow> merge_child \<Rightarrow> bool" where
  "sound_node env d node \<longleftrightarrow> (\<forall>cs s k st t. (s = t \<or> s = None) \<longrightarrow> sane t \<longrightarrow>
     (\<forall>e \<in> set cs. fits env t d (ct_value e)) \<longrightarrow>
     (\<forall>v. fst (node cs s k st) = Some v \<longrightarrow> fits env t d v) \<and> ms_collector (snd (node cs s k st)) = ms_collector st)"

lemma sound_nodeD:
  assumes "sound_node env d node" "s = t \<or> s = None" "sane t" "\<forall>e \<in> set cs. fits env t d (ct_value e)"
  shows "(\<forall>v. fst (node cs s k st) = Some v \<longrightarrow> fits env t d v) \<and> ms_collector (snd (node cs s k st)) = ms_collector st"
  using assms unfolding sound_node_def by blast

lemma all_names_fit:
  assumes "\<forall>e \<in> set objs. fits env t d (ct_value e)" "object_schema t = Some t'" "d \<le> MAX_CONFIG_DEPTH"
    and "n \<in> set (all_names objs)"
  shows "\<not> is_unsafe_config_key n \<and> d < MAX_CONFIG_DEPTH \<and> (\<exists>e. effective_schema (ce_regex env) t' n = Some e)"
proof -
  obtain e where e: "e \<in> set objs" "n \<in> fst ` set (object_fields (ct_value e))" using assms(4) by auto
  then obtain ps w where ps: "ct_value e = JObj ps" "(n, w) \<in> set ps" by (cases "ct_value e") auto
  then show ?thesis using fits_field [OF _ ps(2) assms(2,3)] assms(1) e(1) by metis
qed

lemma child_contributions_fit:
  assumes "\<forall>e \<in> set objs. fits env t d (ct_value e)" "object_schema t = Some t'" "d \<le> MAX_CONFIG_DEPTH"
    and "effective_schema (ce_regex env) t' n = Some e" "c \<in> set (child_contributions objs n)"
  shows "fits env e (Suc d) (ct_value c)"
proof -
  obtain o' ps where o': "o' \<in> set objs" "ct_value o' = JObj ps" "(n, ct_value c) \<in> set ps"
    using child_contribution [OF assms(5)] by blast
  then show ?thesis using fits_field [OF _ o'(3) assms(2,3)] assms(1,4) by (metis option.inject)
qed

lemma merge_object_sound:
  assumes node: "d < MAX_CONFIG_DEPTH \<Longrightarrow> sound_node env (Suc d) node" and d: "d \<le> MAX_CONFIG_DEPTH"
    and s: "s = t \<or> s = None" and t: "sane t" and cs: "\<forall>e \<in> set cs. fits env t d (ct_value e)" and ne: "cs \<noteq> []"
  shows "(\<forall>v. fst (merge_object node env file cs s key st) = Some v \<longrightarrow> fits env t d v)
    \<and> ms_collector (snd (merge_object node env file cs s key st)) = ms_collector st"
proof -
  let ?objs = "filter (\<lambda>e. is_object (ct_value e)) cs"
  show ?thesis
  proof (cases "?objs = []")
    case True
    then show ?thesis using cs ne by (simp add: merge_object_def)
  next
    case False
    then obtain o' where "o' \<in> set ?objs" by (meson list.set_sel(1))
    then have o': "o' \<in> set cs" "is_object (ct_value o')" by simp_all
    then obtain ps where "ct_value o' = JObj ps" by (auto simp: is_object_def split: json.splits)
    then obtain t' where t': "object_schema t = Some t'" using fits_object [of env t d ps] cs o'(1) by fastforce
    have objs: "\<forall>e \<in> set ?objs. fits env t d (ct_value e)" using cs by simp
    let ?cn = "collect_names env file key ?objs st"
    have st1: "snd ?cn = st" using all_names_fit [OF objs t' d] by (intro collect_names_safe) blast
    let ?R = "\<lambda>n v. \<not> is_unsafe_config_key n \<and> d < MAX_CONFIG_DEPTH
        \<and> (\<exists>e. effective_schema (ce_regex env) t' n = Some e \<and> fits env e (Suc d) v)"
    let ?mf = "merge_fields node (ce_regex env) ?objs s key (fst ?cn) [] st"
    have "ms_collector (snd ?mf) = ms_collector st \<and> (\<forall>(k, v) \<in> set (fst ?mf). ?R k v) \<and> distinct (map fst (fst ?mf))"
    proof (rule merge_fields_rule)
      fix name and st' :: merge_state assume "name \<in> set (fst ?cn)" and q: "ms_collector st' = ms_collector st"
      then have "name \<in> set (all_names ?objs)" by (simp only: collect_names_set) simp
      from all_names_fit [OF objs t' d this] obtain e where e: "effective_schema (ce_regex env) t' name = Some e"
        and ok: "\<not> is_unsafe_config_key name" "d < MAX_CONFIG_DEPTH" by blast
      have rd: "property_schema (ce_regex env) s name = e \<or> property_schema (ce_regex env) s name = None"
        using s merge_reads_checked_schema [OF t' e] by auto
      have "sane e" using sane_effective [OF sane_object_schema [OF t t'] e] .
      have ch: "\<forall>c \<in> set (child_contributions ?objs name). fits env e (Suc d) (ct_value c)"
        using child_contributions_fit [OF objs t' d e] by blast
      from sound_nodeD [OF node [OF ok(2)] rd \<open>sane e\<close> ch] e ok q
      show "ms_collector (snd (node (child_contributions ?objs name) (property_schema (ce_regex env) s name)
            (pointer_child key name) st')) = ms_collector st \<and>
          (\<forall>v. fst (node (child_contributions ?objs name) (property_schema (ce_regex env) s name)
            (pointer_child key name) st') = Some v \<longrightarrow> ?R name v)" by metis
    qed simp_all
    moreover have "merge_object node env file cs s key st = (Some (JObj (fst ?mf)), snd ?mf)"
      using False st1 by (simp add: merge_object_def Let_def case_prod_beta)
    ultimately show ?thesis using t' by (fastforce simp: fits_def)
  qed
qed

lemma merge_array_sound:
  assumes node: "d < MAX_CONFIG_DEPTH \<Longrightarrow> sound_node env (Suc d) node" and d: "d \<le> MAX_CONFIG_DEPTH"
    and s: "s = t \<or> s = None" and t: "sane t" and cs: "\<forall>e \<in> set cs. fits env t d (ct_value e)" and ne: "cs \<noteq> []"
  shows "(\<forall>v. fst (merge_array node cs s key st) = Some v \<longrightarrow> fits env t d v)
    \<and> ms_collector (snd (merge_array node cs s key st)) = ms_collector st"
proof -
  let ?as = "filter (\<lambda>e. is_array (ct_value e)) cs"
  show ?thesis
  proof (cases "?as = []")
    case True
    then show ?thesis using cs ne by (simp add: merge_array_def)
  next
    case False
    have arr: "ct_value e = JArr (array_members (ct_value e))" if "e \<in> set ?as" for e
      using that by (cases "ct_value e") (auto simp: is_array_def)
    have fit: "fits env t d (JArr (array_members (ct_value e)))" if "e \<in> set ?as" for e
      using arr [OF that] cs that by (metis filter_is_subset subsetD)
    have mem: "d < MAX_CONFIG_DEPTH \<and> fits env (items_schema t) (Suc d) m"
      if "e \<in> set ?as" "m \<in> set (array_members (ct_value e))" for e m
      using fits_member [OF fit [OF that(1)] that(2)] by blast
    have lastin: "last ?as \<in> set ?as" using False by (rule last_in_set)
    have acc: "accepts_array t" using fits_accepts [OF fit [OF lastin]] .
    have grp: "d < MAX_CONFIG_DEPTH \<and> fits env (items_schema t) (Suc d) (ct_value c)" if "member_of ?as c" for c
      using that mem by (auto simp: member_of_def)
    have keyed: "fits env t d (JArr (fst (merge_keyed_array node ?as s field key st)))
        \<and> ms_collector (snd (merge_keyed_array node ?as s field key st)) = ms_collector st" for field
    proof -
      let ?g = "group_members field ?as"
      let ?gs = "map snd (fst ?g) @ map (\<lambda>e. [e]) (snd ?g)"
      let ?pm = "push_merged node (items_schema s) key ?gs [] st"
      have gm: "g \<noteq> [] \<and> (\<forall>c \<in> set g. member_of ?as c)" if "g \<in> set ?gs" for g
        using group_members_from [of ?as field] that unfolding groups_from_def by auto
      have "ms_collector (snd ?pm) = ms_collector st
          \<and> (\<forall>v \<in> set (fst ?pm). d < MAX_CONFIG_DEPTH \<and> fits env (items_schema t) (Suc d) v)"
      proof (rule push_merged_rule)
        fix g k and st' :: merge_state assume g: "g \<in> set ?gs" and q: "ms_collector st' = ms_collector st"
        have it: "items_schema s = items_schema t \<or> items_schema s = None" using s by auto
        have all: "\<forall>c \<in> set g. fits env (items_schema t) (Suc d) (ct_value c)" using grp gm [OF g] by blast
        have lt: "d < MAX_CONFIG_DEPTH" using grp gm [OF g] by (meson last_in_set)
        show "ms_collector (snd (node g (items_schema s) k st')) = ms_collector st \<and>
          (\<forall>v. fst (node g (items_schema s) k st') = Some v \<longrightarrow>
             d < MAX_CONFIG_DEPTH \<and> fits env (items_schema t) (Suc d) v)"
          using sound_nodeD [OF node [OF lt] it sane_items [OF t] all, of k st'] q lt by simp
      qed simp_all
      then show ?thesis using fits_array [OF acc]
        by (simp add: merge_keyed_array_def case_prod_beta)
    qed
    have app: "fits env t d (JArr (fst (append_arrays ?as key st)))"
      using append_arrays_value [of ?as key st] mem by (intro fits_array [OF acc]) auto
    show ?thesis
      using False keyed app fit [OF lastin] append_arrays_value [of ?as key st]
      by (simp add: merge_array_def Let_def case_prod_beta split: merge_strategy.split)
  qed
qed


lemma boolean_deny_value:
  assumes "cs \<noteq> []"
  shows "\<exists>c \<in> set cs. dr_value (resolve_boolean_deny cs) = dc_value c"
proof -
  from boolean_deny_cases [of cs] show ?thesis
  proof
    assume "denied_by cs \<and> dr_denied (resolve_boolean_deny cs) \<and> dr_value (resolve_boolean_deny cs) = Some (JBool False)"
    moreover then obtain c where "c \<in> set cs" "denies c" by (auto simp: denied_by_def)
    ultimately show ?thesis unfolding denies_def by metis
  next
    assume a: "\<not> denied_by cs \<and> \<not> dr_denied (resolve_boolean_deny cs) \<and> dr_value (resolve_boolean_deny cs) =
        (if \<exists>c \<in> set cs. denies c then Some (JBool True)
         else if cs = [] then None else dc_value (fst (last (by_precedence cs))))"
    show ?thesis
    proof (cases "\<exists>c \<in> set cs. denies c")
      case True
      then obtain c where "c \<in> set cs" "operator_allows c" using a unfolding denied_by_def by blast
      then show ?thesis using a True unfolding operator_allows_def by metis
    next
      case False
      have "last (by_precedence cs) \<in> set (by_precedence cs)" using assms by (intro last_in_set) simp
      then have "fst (last (by_precedence cs)) \<in> set cs" using fst_by_precedence [of cs] by blast
      then show ?thesis using a False assms by auto
    qed
  qed
qed

lemma merge_deny_sound:
  assumes pol: "deny_policy_of s = Some pol" and s: "s = t \<or> s = None" and t: "sane t"
    and cs: "\<forall>e \<in> set cs. fits env t d (ct_value e)" and ne: "cs \<noteq> []"
    and v: "fst (merge_deny cs pol key st) = Some v"
  shows "fits env t d v"
proof -
  have st: "s = t" using pol s by auto
  let ?dcs = "map deny_contribution_of cs"
  have val: "dr_value (resolve_deny pol ?dcs) = Some v"
    using v by (simp add: merge_deny_def Let_def)
  show ?thesis
  proof (cases pol)
    case Boolean_False
    then have "dr_value (resolve_boolean_deny ?dcs) = Some v" using val by (simp add: resolve_deny_def)
    then have "\<exists>c \<in> set ?dcs. dc_value c = Some v" using boolean_deny_value [of ?dcs] ne by simp metis
    then obtain c where "c \<in> set ?dcs" "dc_value c = Some v" by blast
    then show ?thesis using cs by (auto simp: deny_contribution_of_def)
  next
    case Array_Union
    let ?u = "union_members ?dcs"
    have vu: "v = JArr (map fst ?u)" using val Array_Union by (simp add: resolve_deny_def resolve_array_deny_def Let_def)
    have acc: "accepts_array t"
      using t pol Array_Union st by (cases t) (auto simp: sane_def)
    have "d < MAX_CONFIG_DEPTH \<and> fits env (items_schema t) (Suc d) m" if m: "m \<in> set (map fst ?u)" for m
    proof -
      obtain p where p: "p \<in> set ?u" "m = fst p" using m by auto
      then have "(m, snd p) \<in> set ?u" by simp
      then obtain c vs where c: "c \<in> set ?dcs" "dc_value c = Some (JArr vs)" "m \<in> set vs"
        using union_member by blast
      then obtain e where "e \<in> set cs" "ct_value e = JArr vs" by (auto simp: deny_contribution_of_def)
      then show ?thesis using fits_member [of env t d vs m] cs c(3) by metis
    qed
    then show ?thesis unfolding vu by (intro fits_array [OF acc]) blast
  qed
qed

lemma merge_node_sound: "d \<le> MAX_CONFIG_DEPTH \<Longrightarrow> sound_node env d (merge_node env file d)"
proof (induction "MAX_CONFIG_DEPTH - d" arbitrary: d rule: less_induct)
  case less
  have node: "sound_node env (Suc d) (merge_node env file (Suc d))" if "d < MAX_CONFIG_DEPTH"
    using less.hyps [of "Suc d"] that by simp
  show ?case
    unfolding sound_node_def
  proof (intro allI impI)
    fix cs :: "merge_contribution list" and s k t and st :: merge_state
    assume s: "s = t \<or> s = None" and t: "sane t" and cs: "\<forall>e \<in> set cs. fits env t d (ct_value e)"
    let ?r = "merge_node env file d cs s k st"
    show "(\<forall>v. fst ?r = Some v \<longrightarrow> fits env t d v) \<and> ms_collector (snd ?r) = ms_collector st"
    proof (cases "cs = []")
      case True
      then show ?thesis by (simp add: merge_node.simps)
    next
      case ne: False
      have lst: "fits env t d (ct_value (last cs))" using cs ne by simp
      show ?thesis
      proof (cases "deny_policy_of s")
        case (Some pol)
        then have "?r = merge_deny cs pol k st"
          using ne less.prems by (simp add: merge_node.simps [of env "file" d])
        then show ?thesis using merge_deny_sound [OF Some s t cs ne] by simp
      next
        case None
        then have "?r = (if is_object_node s cs then merge_object (merge_node env file (Suc d)) env file cs s k st
            else if is_array_node s cs then merge_array (merge_node env file (Suc d)) cs s k st
            else (Some (ct_value (last cs)), stamp (last cs) k st))"
          using ne less.prems by (simp add: merge_node.simps [of env "file" d])
        then show ?thesis
          using merge_object_sound [OF node less.prems s t cs ne, of "file" k st]
            merge_array_sound [OF node less.prems s t cs ne, of k st] lst
          by (simp only: split: if_split) simp
      qed
    qed
  qed
qed

subsection \<open>Sources\<close>

lemma normalize_sources_run:
  "map cs_tier (fst (normalize_sources env schema ss c)) = map rs_tier ss
   \<and> map cs_value (fst (normalize_sources env schema ss c)) = map (\<lambda>s. fst (validate env (rs_value s) schema [] None c0)) ss
   \<and> map cs_file (fst (normalize_sources env schema ss c)) = map rs_file ss
   \<and> map cs_trust (fst (normalize_sources env schema ss c)) = map rs_trust ss"
proof (induction ss arbitrary: c)
  case (Cons s ss)
  let ?f = "case rs_file s of None \<Rightarrow> [] | Some f \<Rightarrow> f"
  have "fst (validate env (rs_value s) schema ?f (Some (rs_tier s)) c) = fst (validate env (rs_value s) schema [] None c0)"
    unfolding validate_def using walk_steady by blast
  then show ?case using Cons.IH by (simp add: case_prod_beta)
qed simp

lemma contribution_source:
  assumes "e \<in> set (contributions_of sources)"
  shows "ct_source e \<in> set sources \<and> cs_value (ct_source e) = Some (ct_value e)"
proof -
  obtain s r v where e: "(s, r) \<in> set (zip (by_tier sources) [0..<length sources])" "cs_value s = Some v"
      "e = \<lparr>ct_source = s, ct_value = v, ct_rank = r\<rparr>"
    using assms by (auto simp: contributions_of_def List.map_filter_def)
  then have "s \<in> set (by_tier sources)" using set_zip_leftD by metis
  then show ?thesis using e by (simp add: by_tier_def)
qed

lemma normalized_fit:
  assumes "e \<in> set (contributions_of (fst (normalize_sources env schema ss c)))"
  shows "fits env (Some schema) 0 (ct_value e)"
proof -
  have "cs_value (ct_source e) \<in> set (map cs_value (fst (normalize_sources env schema ss c)))"
    using contribution_source [OF assms] by (metis image_eqI set_map)
  then have "\<exists>s \<in> set ss. cs_value (ct_source e) = fst (validate env (rs_value s) schema [] None c)"
    using normalize_sources_run [of env schema ss c c] by auto
  then obtain s where "s \<in> set ss" "fst (validate env (rs_value s) schema [] None c) = Some (ct_value e)"
    using contribution_source [OF assms] by metis
  then show ?thesis using walk_shaped [of env "rs_value s"] unfolding validate_def fits_def by fastforce
qed

lemma merged_fits:
  assumes "sane_schema (JObj schema)"
  shows "(\<forall>v. rc_value (fst (merge env (fst (normalize_sources env schema ss c)) schema file c')) = Some v
      \<longrightarrow> fits env (Some schema) 0 v)
    \<and> snd (merge env (fst (normalize_sources env schema ss c)) schema file c') = c'"
proof -
  have "sane (Some schema)" using assms by (simp add: sane_def)
  then show ?thesis
    using sound_nodeD [OF merge_node_sound [of 0 env "file"], of "Some schema" "Some schema"
        "contributions_of (fst (normalize_sources env schema ss c))" "[]" "\<lparr>ms_provenance = [], ms_collector = c'\<rparr>"]
      normalized_fit [of _ env schema ss c]
    by (simp add: merge_def case_prod_beta)
qed

text \<open>C24 (type): the resolved configuration has the shape the schema declares, however many tiers contributed
  to it and whatever they disagreed on: field-wise merging, array strategies and deny unions never
  produce a field, a type, a key or a depth the schema would have refused from a single file. The
  schema may ask for a union of denials only where it accepts an array.\<close>

theorem resolved_config_is_well_typed:
  assumes "sane_schema (JObj schema)"
    and "rc_value (cr_resolved (resolve_config env sources schema limit)) = Some v"
  shows "conforms (ce_regex env) (Some schema) v \<and> safe_value MAX_CONFIG_DEPTH v"
  using merged_fits [OF assms(1)] assms(2)
  by (fastforce simp: resolve_config_def case_prod_beta fits_def)

end
