(* ===== verification/Config_Paths.thy ===== *)
theory Config_Paths
  imports Config_Resolved
begin

text \<open>
  The resolved configuration read along a path of property names: what stands at a denial, at a
  leaf, who answers for it, and that the order of the sources does not matter.
\<close>

fun value_at :: "json option \<Rightarrow> string list \<Rightarrow> json option" where
  "value_at v [] = v"
| "value_at v (n # ns) = (case v of Some (JObj ps) \<Rightarrow> value_at (map_of ps n) ns | _ \<Rightarrow> None)"

text \<open>The path leads through nodes declared objects to one that satisfies \<open>P\<close>.\<close>

fun leads_to :: "(schema_node option \<Rightarrow> bool) \<Rightarrow> regex_compiler \<Rightarrow> schema_node option \<Rightarrow> string list \<Rightarrow> bool" where
  "leads_to P rx s [] \<longleftrightarrow> P s"
| "leads_to P rx s (n # ns) \<longleftrightarrow>
     deny_policy_of s = None \<and> schema_type s = Some ''object'' \<and> leads_to P rx (property_schema rx s n) ns"

definition at_path :: "merge_contribution list \<Rightarrow> string list \<Rightarrow> merge_contribution list" where
  "at_path cs path = List.map_filter (\<lambda>e. map_option (\<lambda>v. e\<lparr>ct_value := v\<rparr>) (value_at (Some (ct_value e)) path)) cs"

lemma at_path_Nil [simp]: "at_path cs [] = cs"
  by (simp add: at_path_def List.map_filter_def)

lemma map_filter_comp:
  "List.map_filter f (List.map_filter g xs) = List.map_filter (\<lambda>x. Option.bind (g x) f) xs"
  by (induction xs) (auto simp: List.map_filter_def split: option.split)

lemma set_map_filter_iff: "y \<in> set (List.map_filter f xs) \<longleftrightarrow> (\<exists>x \<in> set xs. f x = Some y)"
  by (induction xs) (auto simp: List.map_filter_def)

lemma at_path_Cons: "at_path cs (n # ns) = at_path (child_contributions cs n) ns"
proof -
  have "map_option (\<lambda>v. e\<lparr>ct_value := v\<rparr>) (value_at (Some (ct_value e)) (n # ns))
      = Option.bind (map_option (\<lambda>v. e\<lparr>ct_value := v\<rparr>) (map_of (object_fields (ct_value e)) n))
          (\<lambda>e. map_option (\<lambda>v. e\<lparr>ct_value := v\<rparr>) (value_at (Some (ct_value e)) ns))" for e :: merge_contribution
    by (cases "ct_value e"; cases "map_of (object_fields (ct_value e)) n"; cases ns) auto
  then show ?thesis by (simp add: at_path_def child_contributions_def map_filter_comp)
qed

lemma child_contributions_objects:
  "child_contributions (filter (\<lambda>e. is_object (ct_value e)) cs) n = child_contributions cs n"
proof -
  have "object_fields v = []" if "\<not> is_object v" for v using that by (cases v) (auto simp: is_object_def)
  then show ?thesis by (induction cs) (auto simp: child_contributions_def List.map_filter_def)
qed

lemma get_add_field:
  "\<not> is_unsafe_config_key n \<Longrightarrow> map_of (add_field out n w) k =
     (if k = n then (case w of None \<Rightarrow> map_of out n | Some v \<Rightarrow> Some v) else map_of out k)"
  by (simp add: add_field_def safe_assign_def get_update split: option.split)

lemma merge_fields_keeps:
  "n \<notin> set names \<Longrightarrow> \<forall>m \<in> set names. \<not> is_unsafe_config_key m \<Longrightarrow>
   map_of (fst (merge_fields node rx objs s key names out st)) n = map_of out n"
proof (induction names arbitrary: out st)
  case (Cons m names)
  then show ?case by (simp add: merge_fields_Cons Let_def get_add_field)
qed simp

lemma merge_fields_at:
  assumes "n \<in> set names" "distinct names" "\<forall>m \<in> set names. \<not> is_unsafe_config_key m" "n \<notin> set (map fst out)"
  shows "\<exists>st'. map_of (fst (merge_fields node rx objs s key names out st)) n
    = fst (node (child_contributions objs n) (property_schema rx s n) (pointer_child key n) st')"
  using assms
proof (induction names arbitrary: out st)
  case (Cons m names)
  let ?r = "node (child_contributions objs m) (property_schema rx s m) (pointer_child key m) st"
  have none: "map_of out n = None" using Cons.prems(4) by (simp add: map_of_eq_None_iff)
  show ?case
  proof (cases "m = n")
    case True
    then have "map_of (fst (merge_fields node rx objs s key (m # names) out st)) n = fst ?r"
      using Cons.prems none
      by (simp add: merge_fields_Cons Let_def merge_fields_keeps get_add_field split: option.split)
    then show ?thesis using True by blast
  next
    case False
    have "n \<notin> set (map fst (add_field out m (fst ?r)))"
      using add_field_keys(1) [of out m "fst ?r"] False Cons.prems(4) by auto
    then show ?thesis
      using Cons.IH [of "add_field out m (fst ?r)" "snd ?r"] False Cons.prems
      by (simp add: merge_fields_Cons Let_def)
  qed
qed simp

text \<open>One step down a declared object: the field is the merge of what the contributions have there.\<close>

lemma merge_node_field:
  assumes d: "d \<le> MAX_CONFIG_DEPTH" and deny: "deny_policy_of s = None" and ty: "schema_type s = Some ''object''"
    and n: "child_contributions cs n \<noteq> []" and safe: "\<not> is_unsafe_config_key n"
  shows "\<exists>ps st'. fst (merge_node env file d cs s key st) = Some (JObj ps)
    \<and> map_of ps n = fst (merge_node env file (Suc d) (child_contributions cs n)
        (property_schema (ce_regex env) s n) (pointer_child key n) st')"
proof -
  let ?objs = "filter (\<lambda>e. is_object (ct_value e)) cs"
  let ?cn = "collect_names env file key ?objs st"
  obtain c where c: "c \<in> set (child_contributions ?objs n)"
    using n unfolding child_contributions_objects by (meson last_in_set)
  obtain e ps where e: "e \<in> set ?objs" "ct_value e = JObj ps" "(n, ct_value c) \<in> set ps"
    using child_contribution [OF c] by blast
  have "n \<in> set (map fst (object_fields (ct_value e)))" using e(2,3) by force
  then have "n \<in> set (all_names ?objs)" using e(1) by auto
  then have inn: "n \<in> set (fst ?cn)" using safe by (simp only: collect_names_set) simp
  have ne: "?objs \<noteq> []" "cs \<noteq> []" using e(1) by (auto simp: filter_empty_conv)
  let ?mf = "merge_fields (merge_node env file (Suc d)) (ce_regex env) ?objs s key (fst ?cn) [] (snd ?cn)"
  have "merge_node env file d cs s key st = (Some (JObj (fst ?mf)), snd ?mf)"
    using d deny ty ne by (simp add: merge_node.simps [of env "file" d] is_object_node_def Let_def merge_object_def case_prod_beta)
  moreover have "\<forall>m \<in> set (fst ?cn). \<not> is_unsafe_config_key m"
    using collect_names_set(1) [of env "file" key ?objs st] by simp
  from merge_fields_at [OF inn collect_names_set(2) this, of "[]" "merge_node env file (Suc d)" "ce_regex env" ?objs s key "snd ?cn"] obtain st' where
    "map_of (fst ?mf) n = fst (merge_node env file (Suc d) (child_contributions ?objs n)
        (property_schema (ce_regex env) s n) (pointer_child key n) st')" by auto
  ultimately show ?thesis unfolding child_contributions_objects by auto
qed

lemma at_path_safe:
  assumes "\<forall>e \<in> set cs. safe_value k (ct_value e)" "at_path cs path \<noteq> []"
  shows "length path \<le> k \<and> (\<forall>n \<in> set path. \<not> is_unsafe_config_key n)"
  using assms
proof (induction path arbitrary: cs k)
  case (Cons n ns)
  have ne: "at_path (child_contributions cs n) ns \<noteq> []" using Cons.prems(2) by (simp add: at_path_Cons)
  then have "child_contributions cs n \<noteq> []" by (auto simp: at_path_def List.map_filter_def)
  have child: "\<not> is_unsafe_config_key n \<and> k > 0 \<and> safe_value (k - 1) (ct_value c)"
    if c: "c \<in> set (child_contributions cs n)" for c
  proof -
    obtain e ps where "e \<in> set cs" "ct_value e = JObj ps" "(n, ct_value c) \<in> set ps"
      using child_contribution [OF c] by blast
    then show ?thesis using Cons.prems(1) by fastforce
  qed
  moreover obtain c where "c \<in> set (child_contributions cs n)"
    using \<open>child_contributions cs n \<noteq> []\<close> by (meson last_in_set)
  ultimately have "\<not> is_unsafe_config_key n \<and> k > 0" by blast
  then show ?case using Cons.IH [OF _ ne, of "k - 1"] child by auto
qed simp

lemma merge_at_path:
  assumes "leads_to P (ce_regex env) s path" "d + length path \<le> MAX_CONFIG_DEPTH" "at_path cs path \<noteq> []"
    and "\<forall>n \<in> set path. \<not> is_unsafe_config_key n"
  shows "\<exists>s' key' st'. P s' \<and> value_at (fst (merge_node env file d cs s key st)) path
    = fst (merge_node env file (d + length path) (at_path cs path) s' key' st')"
  using assms
proof (induction path arbitrary: d cs s key st)
  case Nil
  then show ?case by auto
next
  case (Cons n ns)
  have ne: "at_path (child_contributions cs n) ns \<noteq> []" using Cons.prems(3) by (simp add: at_path_Cons)
  then have ch: "child_contributions cs n \<noteq> []" by (auto simp: at_path_def List.map_filter_def)
  obtain ps st' where st': "fst (merge_node env file d cs s key st) = Some (JObj ps)"
    "map_of ps n = fst (merge_node env file (Suc d) (child_contributions cs n)
        (property_schema (ce_regex env) s n) (pointer_child key n) st')"
    using merge_node_field [OF _ _ _ ch, of d s env "file" key st] Cons.prems by auto
  show ?case
    using Cons.IH [of "property_schema (ce_regex env) s n" "Suc d" "child_contributions cs n" "pointer_child key n" st']
      Cons.prems ne st' by (simp add: at_path_Cons)
qed


subsection \<open>What the sources say at a path\<close>

definition settings :: "config_source list \<Rightarrow> string list \<Rightarrow> (config_source \<times> json) list" where
  "settings sources path = List.map_filter (\<lambda>s. map_option (Pair s) (value_at (cs_value s) path)) (by_tier sources)"

lemma value_at_None [simp]: "value_at None path = None"
  by (cases path) auto

lemma settings_at_path:
  "map (\<lambda>e. (ct_source e, ct_value e)) (at_path (contributions_of sources) path) = settings sources path"
proof -
  have contribution_at: "Option.bind (map_option (\<lambda>v. \<lparr>ct_source = s, ct_value = v, ct_rank = r\<rparr>) (cs_value s))
      (\<lambda>e. map_option (\<lambda>v. e\<lparr>ct_value := v\<rparr>) (value_at (Some (ct_value e)) path))
      = map_option (\<lambda>v. \<lparr>ct_source = s, ct_value = v, ct_rank = r\<rparr>) (value_at (cs_value s) path)" for s r
    by (cases "cs_value s") (simp_all add: option.map_comp comp_def)
  have "length xs \<le> length rs \<Longrightarrow>
      map (\<lambda>e. (ct_source e, ct_value e)) (List.map_filter (\<lambda>x.
          map_option (\<lambda>v. \<lparr>ct_source = fst x, ct_value = v, ct_rank = snd x\<rparr>) (value_at (cs_value (fst x)) path)) (zip xs rs))
      = List.map_filter (\<lambda>s. map_option (Pair s) (value_at (cs_value s) path)) xs" for xs :: "config_source list" and rs :: "nat list"
  proof (induction xs arbitrary: rs)
    case (Cons x xs)
    then obtain r rs' where "rs = r # rs'" by (cases rs) auto
    then show ?case using Cons by (auto simp: List.map_filter_def split: option.split)
  qed (simp add: List.map_filter_def)
  from this [of "by_tier sources" "[0..<length sources]"] show ?thesis
    by (simp add: at_path_def contributions_of_def map_filter_comp settings_def case_prod_beta contribution_at by_tier_def)
qed

lemma settings_iff: "(s, v) \<in> set (settings sources path) \<longleftrightarrow> s \<in> set sources \<and> value_at (cs_value s) path = Some v"
  by (auto simp: settings_def set_map_filter_iff by_tier_def)

lemma settings_sorted: "sorted (map (\<lambda>e. tier_precedence (cs_tier (fst e))) (settings sources path))"
proof -
  have "sorted (map (\<lambda>s. tier_precedence (cs_tier s)) xs) \<Longrightarrow>
      sorted (map (\<lambda>e. tier_precedence (cs_tier (fst e)))
        (List.map_filter (\<lambda>s. map_option (Pair s) (value_at (cs_value s) path)) xs))" for xs :: "config_source list"
    by (induction xs) (auto simp: List.map_filter_def)
  then show ?thesis by (simp add: settings_def by_tier_def)
qed

text \<open>The denial contributions at a path, as a set: what each source, validated, has there.\<close>

definition says_at :: "config_env \<Rightarrow> schema_node \<Rightarrow> raw_source \<Rightarrow> string list \<Rightarrow> json option" where
  "says_at env schema s path = value_at (fst (validate env (rs_value s) schema [] None (new_collector 0 0))) path"

abbreviation normalized_sources :: "config_env \<Rightarrow> schema_node \<Rightarrow> raw_source list \<Rightarrow> int \<Rightarrow> config_source list" where
  "normalized_sources env schema ss limit \<equiv> fst (normalize_sources env schema ss (new_collector limit 0))"

lemma normalized_source_list:
  "fst (normalize_sources env schema ss c) = map (\<lambda>s. \<lparr>cs_tier = rs_tier s, cs_file = rs_file s, cs_trust = rs_trust s,
     cs_value = fst (validate env (rs_value s) schema [] None (new_collector 0 0))\<rparr>) ss"
proof (induction ss arbitrary: c)
  case (Cons s ss)
  let ?f = "case rs_file s of None \<Rightarrow> [] | Some f \<Rightarrow> f"
  have "fst (validate env (rs_value s) schema ?f (Some (rs_tier s)) c)
      = fst (validate env (rs_value s) schema [] None (new_collector 0 0))"
    unfolding validate_def using walk_steady by blast
  then show ?case using Cons.IH by (simp add: case_prod_beta)
qed simp

lemma denials_at_path:
  "set (map deny_contribution_of (at_path (contributions_of (fst (normalize_sources env schema ss c))) path))
   = {\<lparr>dc_tier = rs_tier s, dc_file = rs_file s, dc_trust = rs_trust s, dc_value = Some v\<rparr> | s v.
        s \<in> set ss \<and> says_at env schema s path = Some v}"
proof -
  let ?src = "fst (normalize_sources env schema ss c)"
  let ?dc = "\<lambda>e. \<lparr>dc_tier = cs_tier (fst e), dc_file = cs_file (fst e), dc_trust = cs_trust (fst e),
      dc_value = Some (snd e)\<rparr>"
  let ?norm = "\<lambda>s. \<lparr>cs_tier = rs_tier s, cs_file = rs_file s, cs_trust = rs_trust s,
     cs_value = fst (validate env (rs_value s) schema [] None (new_collector 0 0))\<rparr>"
  have "map deny_contribution_of (at_path (contributions_of ?src) path) = map ?dc (settings ?src path)"
    unfolding settings_at_path [symmetric] by (simp add: comp_def deny_contribution_of_def)
  moreover have "set (settings ?src path) = {(?norm s, v) | s v. s \<in> set ss \<and> says_at env schema s path = Some v}"
    unfolding normalized_source_list by (auto simp: settings_iff says_at_def) blast
  moreover have "?dc ` {(?norm s, v) | s v. s \<in> set ss \<and> says_at env schema s path = Some v}
      = {\<lparr>dc_tier = rs_tier s, dc_file = rs_file s, dc_trust = rs_trust s, dc_value = Some v\<rparr> | s v.
        s \<in> set ss \<and> says_at env schema s path = Some v}" by force
  ultimately show ?thesis by (simp only: set_map)
qed

lemma at_path_nonempty:
  "s \<in> set ss \<Longrightarrow> says_at env schema s path = Some v \<Longrightarrow>
   at_path (contributions_of (fst (normalize_sources env schema ss c))) path \<noteq> []"
  using denials_at_path [of env schema ss c path] by fastforce

lemma at_path_bounds:
  assumes "at_path (contributions_of (fst (normalize_sources env schema ss c))) path \<noteq> []"
  shows "0 + length path \<le> MAX_CONFIG_DEPTH" "\<forall>n \<in> set path. \<not> is_unsafe_config_key n"
proof -
  have "\<forall>e \<in> set (contributions_of (fst (normalize_sources env schema ss c))). safe_value MAX_CONFIG_DEPTH (ct_value e)"
    using normalized_fit [of _ env schema ss c] by (auto simp: fits_def)
  from at_path_safe [OF this assms]
  show "0 + length path \<le> MAX_CONFIG_DEPTH" "\<forall>n \<in> set path. \<not> is_unsafe_config_key n" by auto
qed

lemma resolve_is_merge:
  "cr_resolved (resolve_config env ss schema limit) = fst (merge env (normalized_sources env schema ss limit) schema []
     (snd (normalize_sources env schema ss (new_collector limit 0))))"
  by (simp add: resolve_config_def case_prod_beta)

lemma merge_is_node:
  "rc_value (fst (merge env srcs schema file c)) = fst (merge_node env file 0 (contributions_of srcs) (Some schema) []
     \<lparr>ms_provenance = [], ms_collector = c\<rparr>)"
  by (simp add: merge_def case_prod_beta)

lemma resolved_denial:
  assumes "leads_to (\<lambda>s. deny_policy_of s = Some pol) (ce_regex env) (Some schema) path"
    and "s \<in> set ss" "says_at env schema s path = Some v"
  shows "\<exists>dcs. set dcs = {\<lparr>dc_tier = rs_tier s, dc_file = rs_file s, dc_trust = rs_trust s, dc_value = Some v\<rparr> | s v.
        s \<in> set ss \<and> says_at env schema s path = Some v}
    \<and> value_at (rc_value (cr_resolved (resolve_config env ss schema limit))) path = dr_value (resolve_deny pol dcs)"
proof -
  let ?cs = "contributions_of (normalized_sources env schema ss limit)"
  have ne: "at_path ?cs path \<noteq> []" using at_path_nonempty [OF assms(2,3)] .
  note bounds = at_path_bounds [OF ne]
  obtain s' key' st' where "deny_policy_of s' = Some pol"
    "value_at (rc_value (cr_resolved (resolve_config env ss schema limit))) path
     = fst (merge_node env [] (0 + length path) (at_path ?cs path) s' key' st')"
    using merge_at_path [OF assms(1) bounds(1) ne bounds(2)] unfolding resolve_is_merge merge_is_node by blast
  then have "value_at (rc_value (cr_resolved (resolve_config env ss schema limit))) path
      = dr_value (resolve_deny pol (map deny_contribution_of (at_path ?cs path)))"
    using ne bounds(1) by (simp add: merge_node.simps merge_deny_def Let_def)
  then show ?thesis using denials_at_path [of env schema ss "new_collector limit 0" path] by blast
qed


subsection \<open>Denials\<close>

lemma boolean_value_denied: "dr_value (resolve_boolean_deny cs) = Some (JBool False) \<longleftrightarrow> denied_by cs"
proof -
  from boolean_deny_cases [of cs] show ?thesis
  proof
    assume a: "\<not> denied_by cs \<and> \<not> dr_denied (resolve_boolean_deny cs) \<and> dr_value (resolve_boolean_deny cs) =
        (if \<exists>c \<in> set cs. denies c then Some (JBool True)
         else if cs = [] then None else dc_value (fst (last (by_precedence cs))))"
    have "dr_value (resolve_boolean_deny cs) \<noteq> Some (JBool False)"
    proof
      assume v: "dr_value (resolve_boolean_deny cs) = Some (JBool False)"
      then have none: "\<not> (\<exists>c \<in> set cs. denies c)" "cs \<noteq> []" using a by (auto split: if_splits)
      then have "last (by_precedence cs) \<in> set (by_precedence cs)" by (intro last_in_set) simp
      then have "fst (last (by_precedence cs)) \<in> set cs" using fst_by_precedence [of cs] by blast
      moreover have "denies (fst (last (by_precedence cs)))" using a v none by (simp add: denies_def)
      ultimately show False using none(1) by blast
    qed
    then show ?thesis using a by simp
  qed simp
qed

text \<open>C22 (safety): an operator's denial reaches the resolved configuration. If a user-level, environment,
  command-line or host source, validated, says false at a setting its schema marks as a boolean
  denial, the resolved configuration says false there, whatever the checkout's files and the other
  sources say and in whatever order they are listed.\<close>

theorem operator_denial_reaches_the_config:
  assumes "leads_to (\<lambda>s. deny_policy_of s = Some Boolean_False) (ce_regex env) (Some schema) path"
    and "s \<in> set sources" "is_operator_tier (rs_tier s)" "says_at env schema s path = Some (JBool False)"
  shows "value_at (rc_value (cr_resolved (resolve_config env sources schema limit))) path = Some (JBool False)"
proof -
  obtain dcs where dcs: "set dcs = {\<lparr>dc_tier = rs_tier s, dc_file = rs_file s, dc_trust = rs_trust s, dc_value = Some v\<rparr> | s v.
        s \<in> set sources \<and> says_at env schema s path = Some v}"
    and val: "value_at (rc_value (cr_resolved (resolve_config env sources schema limit))) path
      = dr_value (resolve_boolean_deny dcs)"
    using resolved_denial [OF assms(1,2,4), of limit] by (auto simp: resolve_deny_def)
  have "\<lparr>dc_tier = rs_tier s, dc_file = rs_file s, dc_trust = rs_trust s, dc_value = Some (JBool False)\<rparr> \<in> set dcs"
    using assms(2,4) dcs by blast
  then have "denied_by dcs" using assms(3) unfolding denied_by_def denies_def by fastforce
  then show ?thesis using val boolean_value_denied by simp
qed

definition raw_at :: "source_tier \<Rightarrow> raw \<Rightarrow> raw_source" where
  "raw_at t v = \<lparr>rs_tier = t, rs_file = None, rs_trust = None, rs_value = v\<rparr>"

definition lsp_says :: "(string \<times> raw) list \<Rightarrow> raw" where
  "lsp_says ps = RObj [(''lsp'', RObj ps)]"

definition sample_sources :: "raw_source list" where
  "sample_sources =
     [raw_at Project (lsp_says [(''enabled'', RBool True), (''disabledServers'', RArr [])]),
      raw_at Global (lsp_says [(''enabled'', RBool False), (''disabledServers'', RArr [RStr ''typos''])])]"

lemma operator_denial_reaches_the_config_witness:
  "value_at (rc_value (cr_resolved (resolve_config no_redaction sample_sources sample_schema 20))) [''lsp'', ''enabled'']
     = Some (JBool False)"
proof (rule operator_denial_reaches_the_config)
  show "leads_to (\<lambda>s. deny_policy_of s = Some Boolean_False) (ce_regex no_redaction) (Some sample_schema) [''lsp'', ''enabled'']"
    by code_simp
  show "raw_at Global (lsp_says [(''enabled'', RBool False), (''disabledServers'', RArr [RStr ''typos''])]) \<in> set sample_sources"
    by (simp add: sample_sources_def)
  show "is_operator_tier (rs_tier (raw_at Global (lsp_says [(''enabled'', RBool False), (''disabledServers'', RArr [RStr ''typos''])])))"
    by code_simp
  show "says_at no_redaction sample_schema (raw_at Global (lsp_says [(''enabled'', RBool False),
      (''disabledServers'', RArr [RStr ''typos''])])) [''lsp'', ''enabled''] = Some (JBool False)"
    by code_simp
qed

text \<open>C23 (safety): files that come with a checkout cannot lift a denial. If some other source speaks of a
  boolean denial and the resolution without the project and nested-project sources says false there,
  the resolution with them does too.\<close>

theorem checkout_cannot_lift_a_denial:
  assumes "leads_to (\<lambda>s. deny_policy_of s = Some Boolean_False) (ce_regex env) (Some schema) path"
    and "\<exists>s \<in> set sources. \<not> is_repo_tier (rs_tier s) \<and> says_at env schema s path \<noteq> None"
    and "value_at (rc_value (cr_resolved (resolve_config env
           (filter (\<lambda>s. \<not> is_repo_tier (rs_tier s)) sources) schema limit))) path = Some (JBool False)"
  shows "value_at (rc_value (cr_resolved (resolve_config env sources schema limit))) path = Some (JBool False)"
proof -
  let ?own = "filter (\<lambda>s. \<not> is_repo_tier (rs_tier s)) sources"
  let ?dc = "\<lambda>ss. {\<lparr>dc_tier = rs_tier s, dc_file = rs_file s, dc_trust = rs_trust s, dc_value = Some v\<rparr> | s v.
        s \<in> set ss \<and> says_at env schema s path = Some v}"
  obtain s v where s: "s \<in> set sources" "s \<in> set ?own" "says_at env schema s path = Some v" using assms(2) by auto
  obtain own where own: "set own = ?dc ?own" "value_at (rc_value (cr_resolved (resolve_config env ?own schema limit))) path
      = dr_value (resolve_boolean_deny own)"
    using resolved_denial [OF assms(1) s(2,3), of limit] by (auto simp: resolve_deny_def)
  obtain dcs where dcs: "set dcs = ?dc sources" "value_at (rc_value (cr_resolved (resolve_config env sources schema limit))) path
      = dr_value (resolve_boolean_deny dcs)"
    using resolved_denial [OF assms(1) s(1,3), of limit] by (auto simp: resolve_deny_def)
  have "denied_by own" using own(2) assms(3) boolean_value_denied [of own] by metis
  moreover have "set own = {c \<in> set dcs. \<not> is_repo_tier (dc_tier c)}" unfolding own(1) dcs(1) by force
  ultimately have "denied_by dcs" by (rule denied_by_own)
  then show ?thesis using dcs(2) boolean_value_denied by simp
qed

lemma checkout_cannot_lift_a_denial_witness:
  "value_at (rc_value (cr_resolved (resolve_config no_redaction
     [raw_at Builtin (lsp_says [(''enabled'', RBool False)]), raw_at Project (lsp_says [(''enabled'', RBool True)])]
     sample_schema 20))) [''lsp'', ''enabled''] = Some (JBool False)"
proof (rule checkout_cannot_lift_a_denial)
  show "leads_to (\<lambda>s. deny_policy_of s = Some Boolean_False) (ce_regex no_redaction) (Some sample_schema) [''lsp'', ''enabled'']"
    by code_simp
  show "\<exists>s \<in> set [raw_at Builtin (lsp_says [(''enabled'', RBool False)]), raw_at Project (lsp_says [(''enabled'', RBool True)])].
      \<not> is_repo_tier (rs_tier s) \<and> says_at no_redaction sample_schema s [''lsp'', ''enabled''] \<noteq> None"
    by code_simp
  show "value_at (rc_value (cr_resolved (resolve_config no_redaction (filter (\<lambda>s. \<not> is_repo_tier (rs_tier s))
     [raw_at Builtin (lsp_says [(''enabled'', RBool False)]), raw_at Project (lsp_says [(''enabled'', RBool True)])])
     sample_schema 20))) [''lsp'', ''enabled''] = Some (JBool False)"
    by code_simp
qed

text \<open>A denied name stays denied. Every primitive any source, validated, lists at a setting its
  schema marks as a union of denials is in the resolved list, whatever the merge strategy of the node
  and whatever a nearer file replaces the list with.\<close>

theorem denied_member_reaches_the_config:
  assumes "leads_to (\<lambda>s. deny_policy_of s = Some Array_Union) (ce_regex env) (Some schema) path"
    and "s \<in> set sources" "says_at env schema s path = Some (JArr vs)" "v \<in> set vs" "primitive_identity v \<noteq> None"
  shows "\<exists>ms. value_at (rc_value (cr_resolved (resolve_config env sources schema limit))) path = Some (JArr ms)
    \<and> (\<exists>w \<in> set ms. primitive_identity w = primitive_identity v)"
proof -
  obtain dcs where dcs: "set dcs = {\<lparr>dc_tier = rs_tier s, dc_file = rs_file s, dc_trust = rs_trust s, dc_value = Some v\<rparr> | s v.
        s \<in> set sources \<and> says_at env schema s path = Some v}"
    and val: "value_at (rc_value (cr_resolved (resolve_config env sources schema limit))) path
      = dr_value (resolve_array_deny dcs)"
    using resolved_denial [OF assms(1-3), of limit] by (auto simp: resolve_deny_def)
  let ?c = "\<lparr>dc_tier = rs_tier s, dc_file = rs_file s, dc_trust = rs_trust s, dc_value = Some (JArr vs)\<rparr>"
  have "?c \<in> set dcs" using assms(2,3) dcs by blast
  then have "represented v (union_members dcs)" using assms(4) by (intro union_represents [of ?c]) simp_all
  then have "\<exists>w \<in> set (map fst (union_members dcs)). primitive_identity w = primitive_identity v"
    by (auto simp: represented_def)
  then show ?thesis using val by (simp add: resolve_array_deny_def Let_def)
qed

lemma denied_member_reaches_the_config_witness:
  "\<exists>ms. value_at (rc_value (cr_resolved (resolve_config no_redaction sample_sources sample_schema 20)))
      [''lsp'', ''disabledServers''] = Some (JArr ms)
    \<and> (\<exists>w \<in> set ms. primitive_identity w = primitive_identity (JStr ''typos''))"
proof (rule denied_member_reaches_the_config)
  show "leads_to (\<lambda>s. deny_policy_of s = Some Array_Union) (ce_regex no_redaction) (Some sample_schema) [''lsp'', ''disabledServers'']"
    by code_simp
  show "raw_at Global (lsp_says [(''enabled'', RBool False), (''disabledServers'', RArr [RStr ''typos''])]) \<in> set sample_sources"
    by (simp add: sample_sources_def)
  show "says_at no_redaction sample_schema (raw_at Global (lsp_says [(''enabled'', RBool False),
      (''disabledServers'', RArr [RStr ''typos''])])) [''lsp'', ''disabledServers''] = Some (JArr [JStr ''typos''])"
    by code_simp
qed simp_all

end
