(* ===== verification/Config_Leaves.thy ===== *)
theory Config_Leaves
  imports Config_Paths
begin

text \<open>
  Leaves of the resolved configuration: the nearest tier that sets one supplies it and is named as
  its source, in whatever order the sources come; and where pointers collide the source is wrong.
\<close>

subsection \<open>A node only writes provenance at and below its own pointer\<close>

definition under :: "string \<Rightarrow> string \<Rightarrow> bool" where
  "under key p \<longleftrightarrow> p = key \<or> (\<exists>r. p = key @ SLASH # r)"

lemma under_child: "under (pointer_child key n) p \<Longrightarrow> under key p"
  by (auto simp: under_def pointer_child_def)

lemma under_self [simp]: "under key key" "under key (pointer_child key n)"
  by (simp_all add: under_def pointer_child_def)

lemma siblings_apart:
  assumes "under (pointer_child key n) p" "under (pointer_child key m) p" "SLASH \<notin> set n" "SLASH \<notin> set m"
  shows "n = m"
proof -
  have head: "takeWhile (\<lambda>c. c \<noteq> SLASH) (drop (Suc (length key)) p) = w"
    if u: "under (pointer_child key w) p" and w: "SLASH \<notin> set w" for w
  proof -
    obtain r where p: "p = key @ SLASH # w @ r" and r: "r = [] \<or> hd r = SLASH"
      using u unfolding under_def pointer_child_def by fastforce
    have "takeWhile (\<lambda>c. c \<noteq> SLASH) (w @ r) = w" using w r by (induction w) (cases r; auto)+
    then show ?thesis by (simp add: p)
  qed
  show ?thesis by (rule trans [OF head [OF assms(1,3), symmetric] head [OF assms(2,4)]])
qed

definition framed :: "merge_child \<Rightarrow> bool" where
  "framed node \<longleftrightarrow> (\<forall>cs s k st p. \<not> under k p \<longrightarrow>
     map_of (ms_provenance (snd (node cs s k st))) p = map_of (ms_provenance st) p)"

lemma stamp_get [simp]:
  "map_of (ms_provenance (stamp e k st)) p = (if p = k then Some (provenance_of e k) else map_of (ms_provenance st) p)"
  by (simp add: stamp_def get_update)

lemma fields_framed:
  "framed node \<Longrightarrow> \<not> under key p \<Longrightarrow>
   map_of (ms_provenance (snd (merge_fields node rx objs s key names out st))) p = map_of (ms_provenance st) p"
proof (induction names arbitrary: out st)
  case (Cons n names)
  have "map_of (ms_provenance (snd (node (child_contributions objs n) (property_schema rx s n) (pointer_child key n) st))) p
      = map_of (ms_provenance st) p"
    using Cons.prems under_child unfolding framed_def by blast
  then show ?case using Cons by (simp add: merge_fields_Cons Let_def)
qed simp

lemma object_framed:
  "framed node \<Longrightarrow> \<not> under key p \<Longrightarrow>
   map_of (ms_provenance (snd (merge_object node env file cs s key st))) p = map_of (ms_provenance st) p"
  by (auto simp: merge_object_def Let_def case_prod_beta fields_framed collect_names_set)

lemma push_framed:
  "framed node \<Longrightarrow> \<not> under key p \<Longrightarrow>
   map_of (ms_provenance (snd (push_merged node items key groups out st))) p = map_of (ms_provenance st) p"
proof (induction groups arbitrary: out st)
  case (Cons g groups)
  have "map_of (ms_provenance (snd (node g items (pointer_child key (decimal (length out))) st))) p
      = map_of (ms_provenance st) p"
    using Cons.prems under_child unfolding framed_def by blast
  then show ?case using Cons by (simp add: push_merged_Cons Let_def)
qed simp

lemma append_framed:
  assumes "\<not> under key p"
  shows "map_of (ms_provenance (snd (append_arrays arrays key st))) p = map_of (ms_provenance st) p"
proof -
  have inner: "map_of (ms_provenance (snd (foldl (append_member key e) acc ms))) p = map_of (ms_provenance (snd acc)) p" for e acc ms
  proof (induction ms arbitrary: acc)
    case (Cons m ms)
    then show ?case using assms under_self by (auto simp: append_member_def case_prod_beta)
  qed simp
  have "map_of (ms_provenance (snd (foldl (\<lambda>acc e. foldl (append_member key e) acc (array_members (ct_value e))) acc arrays))) p
      = map_of (ms_provenance (snd acc)) p" for acc
    by (induction arrays arbitrary: acc) (simp_all add: inner)
  then show ?thesis using assms by (auto simp: append_arrays_def case_prod_beta)
qed

lemma array_framed:
  assumes "framed node" "\<not> under key p"
  shows "map_of (ms_provenance (snd (merge_array node cs s key st))) p = map_of (ms_provenance st) p"
  using assms push_framed [OF assms] append_framed [OF assms(2)]
  by (auto simp: merge_array_def merge_keyed_array_def Let_def case_prod_beta split: merge_strategy.split)

lemma deny_framed:
  assumes "\<not> under key p"
  shows "map_of (ms_provenance (snd (merge_deny cs pol key st))) p = map_of (ms_provenance st) p"
proof -
  have fold: "(\<forall>q \<in> set qs. pv_key q \<noteq> p) \<Longrightarrow> map_of (ms_provenance (fold set_provenance qs st)) p = map_of (ms_provenance st) p" for qs st
    by (induction qs arbitrary: st) (auto simp: set_provenance_def get_update)
  have "pv_key q \<noteq> p" if "q \<in> set (deny_member_provenance dcs r key)" for q dcs r
  proof -
    have "\<exists>n. pv_key q = pointer_child key n"
      using that by (auto simp: deny_member_provenance_def set_map_filter_iff deny_provenance_at_def split: if_splits) blast
    then show ?thesis using assms by auto
  qed
  then show ?thesis
    using assms by (auto simp: merge_deny_def Let_def fold get_update split: option.split)
qed

lemma merge_node_framed: "framed (merge_node env file d)"
proof (induction "Suc MAX_CONFIG_DEPTH - d" arbitrary: d rule: less_induct)
  case less
  have node: "framed (merge_node env file (Suc d))" if "d \<le> MAX_CONFIG_DEPTH"
    using less.hyps [of "Suc d"] that by simp
  show ?case
    unfolding framed_def
  proof (intro allI impI)
    fix cs :: "merge_contribution list" and s k p and st :: merge_state assume p: "\<not> under k p"
    then have ne: "p \<noteq> k" by auto
    have rec: "ms_provenance (merge_record env file CFG_0005 k Too_Deep st) = ms_provenance st"
      by (simp add: merge_record_def Let_def)
    show "map_of (ms_provenance (snd (merge_node env file d cs s k st))) p = map_of (ms_provenance st) p"
      using node object_framed [OF node p] array_framed [OF node p] deny_framed [OF p] ne rec
      by (simp add: merge_node.simps [of env "file" d] split: option.split)
  qed
qed

subsection \<open>Following a path\<close>

fun slash_free :: "json \<Rightarrow> bool" where
  "slash_free (JObj ps) \<longleftrightarrow> (\<forall>(k, v) \<in> set ps. SLASH \<notin> set k \<and> slash_free v)"
| "slash_free (JArr vs) \<longleftrightarrow> (\<forall>v \<in> set vs. slash_free v)"
| "slash_free _ \<longleftrightarrow> True"

lemma pointer_of_Cons: "pointer_of (n # ns) = SLASH # n @ pointer_of ns"
  by (cases ns) (simp_all add: pointer_of_def)

lemma merge_fields_trace:
  assumes "framed node" "n \<in> set names" "distinct names" "\<forall>m \<in> set names. \<not> is_unsafe_config_key m \<and> SLASH \<notin> set m"
    and "n \<notin> set (map fst out)"
  shows "\<exists>st'. map_of (fst (merge_fields node rx objs s key names out st)) n
      = fst (node (child_contributions objs n) (property_schema rx s n) (pointer_child key n) st')
    \<and> (\<forall>p. under (pointer_child key n) p \<longrightarrow>
        map_of (ms_provenance (snd (merge_fields node rx objs s key names out st))) p
        = map_of (ms_provenance (snd (node (child_contributions objs n) (property_schema rx s n) (pointer_child key n) st'))) p)"
  using assms
proof (induction names arbitrary: out st)
  case (Cons m names)
  let ?r = "node (child_contributions objs m) (property_schema rx s m) (pointer_child key m) st"
  have none: "map_of out n = None" using Cons.prems(5) by (simp add: map_of_eq_None_iff)
  show ?case
  proof (cases "m = n")
    case True
    have val: "map_of (fst (merge_fields node rx objs s key (m # names) out st)) n = fst ?r"
      using Cons.prems none True
      by (simp add: merge_fields_Cons Let_def merge_fields_keeps get_add_field split: option.split)
    have later: "map_of (ms_provenance (snd (merge_fields node rx objs s key ns o' st'))) p = map_of (ms_provenance st') p"
      if "set ns \<subseteq> set names" "under (pointer_child key n) p" for ns o' st' p
      using that
    proof (induction ns arbitrary: o' st')
      case (Cons q ns)
      have "q \<noteq> n" "SLASH \<notin> set q" "SLASH \<notin> set n"
        using Cons.prems(1) \<open>distinct (m # names)\<close> True \<open>\<forall>m \<in> set (m # names). \<not> is_unsafe_config_key m \<and> SLASH \<notin> set m\<close> by auto
      then have "\<not> under (pointer_child key q) p" using siblings_apart [OF Cons.prems(2)] by blast
      then have "map_of (ms_provenance (snd (node (child_contributions objs q) (property_schema rx s q) (pointer_child key q) st'))) p
          = map_of (ms_provenance st') p" using \<open>framed node\<close> unfolding framed_def by blast
      then show ?case using Cons by (simp add: merge_fields_Cons Let_def)
    qed simp
    show ?thesis
      using val later [of names] True by (intro exI [of _ st]) (simp add: merge_fields_Cons Let_def)
  next
    case False
    have "n \<notin> set (map fst (add_field out m (fst ?r)))"
      using add_field_keys(1) [of out m "fst ?r"] False Cons.prems(5) by auto
    then show ?thesis
      using Cons.IH [OF Cons.prems(1), of "add_field out m (fst ?r)" "snd ?r"] False Cons.prems
      by (simp add: merge_fields_Cons Let_def)
  qed
qed simp


lemma merge_node_field_trace:
  assumes d: "d \<le> MAX_CONFIG_DEPTH" and deny: "deny_policy_of s = None" and ty: "schema_type s = Some ''object''"
    and n: "child_contributions cs n \<noteq> []" and safe: "\<not> is_unsafe_config_key n"
    and slash: "\<forall>e \<in> set cs. slash_free (ct_value e)"
  shows "\<exists>ps st'. fst (merge_node env file d cs s key st) = Some (JObj ps)
    \<and> map_of ps n = fst (merge_node env file (Suc d) (child_contributions cs n)
        (property_schema (ce_regex env) s n) (pointer_child key n) st')
    \<and> (\<forall>p. under (pointer_child key n) p \<longrightarrow>
        map_of (ms_provenance (snd (merge_node env file d cs s key st))) p
        = map_of (ms_provenance (snd (merge_node env file (Suc d) (child_contributions cs n)
            (property_schema (ce_regex env) s n) (pointer_child key n) st'))) p)"
proof -
  let ?objs = "filter (\<lambda>e. is_object (ct_value e)) cs"
  let ?cn = "collect_names env file key ?objs st"
  obtain c where c: "c \<in> set (child_contributions ?objs n)"
    using n unfolding child_contributions_objects by (meson last_in_set)
  obtain e ps where e: "e \<in> set ?objs" "ct_value e = JObj ps" "(n, ct_value c) \<in> set ps"
    using child_contribution [OF c] by blast
  have "n \<in> set (map fst (object_fields (ct_value e)))" using e(2,3) by force
  then have "n \<in> set (all_names ?objs)" using e(1) by auto
  then have inn: "n \<in> set (fst ?cn)" using safe by (simp only: collect_names_set) simp
  have ne: "?objs \<noteq> []" "cs \<noteq> []" using e(1) by (auto simp: filter_empty_conv)
  have names: "\<not> is_unsafe_config_key m \<and> SLASH \<notin> set m" if m: "m \<in> set (fst ?cn)" for m
  proof -
    have "m \<in> set (all_names ?objs)" "\<not> is_unsafe_config_key m"
      using m collect_names_set(1) [of env "file" key ?objs st] by auto
    then obtain e where e: "e \<in> set cs" "m \<in> fst ` set (object_fields (ct_value e))" by auto
    then have "slash_free (ct_value e)" using slash by blast
    then show ?thesis using e(2) \<open>\<not> is_unsafe_config_key m\<close> by (cases "ct_value e") auto
  qed
  let ?mf = "merge_fields (merge_node env file (Suc d)) (ce_regex env) ?objs s key (fst ?cn) [] (snd ?cn)"
  have "merge_node env file d cs s key st = (Some (JObj (fst ?mf)), snd ?mf)"
    using d deny ty ne by (simp add: merge_node.simps [of env "file" d] is_object_node_def Let_def merge_object_def case_prod_beta)
  moreover have "\<forall>m \<in> set (fst ?cn). \<not> is_unsafe_config_key m \<and> SLASH \<notin> set m" using names by blast
  from merge_fields_trace [OF merge_node_framed inn collect_names_set(2) this, of "[]" env "file" "Suc d" "ce_regex env" ?objs s key "snd ?cn"]
  obtain st' where
    "map_of (fst ?mf) n = fst (merge_node env file (Suc d) (child_contributions ?objs n)
        (property_schema (ce_regex env) s n) (pointer_child key n) st')"
    "\<forall>p. under (pointer_child key n) p \<longrightarrow> map_of (ms_provenance (snd ?mf)) p
       = map_of (ms_provenance (snd (merge_node env file (Suc d) (child_contributions ?objs n)
        (property_schema (ce_regex env) s n) (pointer_child key n) st'))) p" by auto
  ultimately show ?thesis unfolding child_contributions_objects by auto
qed

lemma child_slash_free:
  "\<forall>e \<in> set cs. slash_free (ct_value e) \<Longrightarrow> \<forall>e \<in> set (child_contributions cs n). slash_free (ct_value e)"
  using child_contribution [of _ cs n] by fastforce

lemma under_pointer: "under key (key @ pointer_of ns)"
  by (cases ns) (auto simp: under_def pointer_of_def)

lemma merge_trace:
  assumes "leads_to P (ce_regex env) s path" "d + length path \<le> MAX_CONFIG_DEPTH" "at_path cs path \<noteq> []"
    and "\<forall>n \<in> set path. \<not> is_unsafe_config_key n" "\<forall>e \<in> set cs. slash_free (ct_value e)"
  shows "\<exists>s' st'. P s'
    \<and> value_at (fst (merge_node env file d cs s key st)) path
      = fst (merge_node env file (d + length path) (at_path cs path) s' (key @ pointer_of path) st')
    \<and> map_of (ms_provenance (snd (merge_node env file d cs s key st))) (key @ pointer_of path)
      = map_of (ms_provenance (snd (merge_node env file (d + length path) (at_path cs path) s' (key @ pointer_of path) st')))
          (key @ pointer_of path)"
  using assms
proof (induction path arbitrary: d cs s key st)
  case Nil
  then show ?case by (auto simp: pointer_of_def)
next
  case (Cons n ns)
  let ?k = "pointer_child key n" and ?s = "property_schema (ce_regex env) s n"
  have k: "key @ pointer_of (n # ns) = ?k @ pointer_of ns" by (simp add: pointer_of_Cons pointer_child_def)
  have ne: "at_path (child_contributions cs n) ns \<noteq> []" using Cons.prems(3) by (simp add: at_path_Cons)
  then have ch: "child_contributions cs n \<noteq> []" by (auto simp: at_path_def List.map_filter_def)
  obtain ps st1 where st1: "fst (merge_node env file d cs s key st) = Some (JObj ps)"
    "map_of ps n = fst (merge_node env file (Suc d) (child_contributions cs n) ?s ?k st1)"
    "\<And>p. under ?k p \<Longrightarrow> map_of (ms_provenance (snd (merge_node env file d cs s key st))) p
        = map_of (ms_provenance (snd (merge_node env file (Suc d) (child_contributions cs n) ?s ?k st1))) p"
    using merge_node_field_trace [OF _ _ _ ch _ Cons.prems(5), of d s env "file" key st] Cons.prems by auto
  obtain s' st' where ih: "P s'"
    "value_at (fst (merge_node env file (Suc d) (child_contributions cs n) ?s ?k st1)) ns
      = fst (merge_node env file (Suc d + length ns) (at_path (child_contributions cs n) ns) s' (?k @ pointer_of ns) st')"
    "map_of (ms_provenance (snd (merge_node env file (Suc d) (child_contributions cs n) ?s ?k st1))) (?k @ pointer_of ns)
      = map_of (ms_provenance (snd (merge_node env file (Suc d + length ns) (at_path (child_contributions cs n) ns) s'
          (?k @ pointer_of ns) st'))) (?k @ pointer_of ns)"
    using Cons.IH [of ?s "Suc d" "child_contributions cs n" ?k st1] Cons.prems ne child_slash_free [OF Cons.prems(5)]
    by auto
  show ?case
    unfolding k using ih st1(1,2) st1(3) [OF under_pointer]
    by (intro exI [of _ s'] exI [of _ st']) (simp add: at_path_Cons)
qed


subsection \<open>The nearest source supplies a leaf\<close>

definition is_leaf_node :: "schema_node option \<Rightarrow> bool" where
  "is_leaf_node s \<longleftrightarrow> deny_policy_of s = None \<and> is_known_schema_type (schema_type s)
     \<and> schema_type s \<noteq> Some ''object'' \<and> schema_type s \<noteq> Some ''array''"

lemma merge_leaf:
  "is_leaf_node s \<Longrightarrow> cs \<noteq> [] \<Longrightarrow> d \<le> MAX_CONFIG_DEPTH \<Longrightarrow>
   merge_node env file d cs s key st = (Some (ct_value (last cs)), stamp (last cs) key st)"
  by (simp add: merge_node.simps [of env "file" d] is_leaf_node_def is_object_node_def is_array_node_def)

lemma sorted_last:
  assumes "sorted (map f xs)" "x \<in> set xs" "\<And>y. y \<in> set xs \<Longrightarrow> y = x \<or> f y < (f x :: nat)"
  shows "last xs = x"
proof -
  have ne: "xs \<noteq> []" using assms(2) by auto
  have "f x \<le> f (last xs)"
    using assms(1,2) ne by (induction xs) (auto intro: order_trans)
  then show ?thesis using assms(3) [of "last xs"] ne by fastforce
qed

text \<open>C26 (functional): a leaf comes from the nearest tier that sets it, and says so. At a setting the schema
  declares a plain scalar below declared objects, the resolved value is that of a source whose tier ranks
  strictly above the tier of every other source that sets it, and the provenance entry at the setting's
  pointer names that source's tier, file and trust, provided that no key of any validated source contains
  a slash.\<close>

theorem leaf_comes_from_nearest_tier:
  assumes path: "leads_to is_leaf_node (ce_regex env) (Some schema) path"
    and s: "s \<in> set sources" "says_at env schema s path = Some v"
    and nearest: "\<forall>s' \<in> set sources. says_at env schema s' path = None \<or> s' = s
        \<or> tier_precedence (rs_tier s') < tier_precedence (rs_tier s)"
    and slash: "\<forall>s' \<in> set sources. \<forall>w. says_at env schema s' [] = Some w \<longrightarrow> slash_free w"
  shows "value_at (rc_value (cr_resolved (resolve_config env sources schema limit))) path = Some v
    \<and> map_of (rc_provenance (cr_resolved (resolve_config env sources schema limit))) (pointer_of path)
      = Some \<lparr>pv_tier = rs_tier s, pv_file = rs_file s, pv_key = pointer_of path, pv_trust = rs_trust s\<rparr>"
proof -
  let ?src = "normalized_sources env schema sources limit"
  let ?cs = "contributions_of ?src"
  let ?norm = "\<lambda>s. \<lparr>cs_tier = rs_tier s, cs_file = rs_file s, cs_trust = rs_trust s,
     cs_value = fst (validate env (rs_value s) schema [] None (new_collector 0 0))\<rparr>"
  have ne: "at_path ?cs path \<noteq> []" using at_path_nonempty [OF s] .
  note bounds = at_path_bounds [OF ne]
  have free: "\<forall>e \<in> set ?cs. slash_free (ct_value e)"
    using slash contribution_source [of _ ?src] unfolding normalized_source_list says_at_def by fastforce
  obtain s' st' where leaf: "is_leaf_node s'"
    and val: "value_at (rc_value (cr_resolved (resolve_config env sources schema limit))) path
      = fst (merge_node env [] (0 + length path) (at_path ?cs path) s' ([] @ pointer_of path) st')"
    and prov: "map_of (rc_provenance (cr_resolved (resolve_config env sources schema limit))) ([] @ pointer_of path)
      = map_of (ms_provenance (snd (merge_node env [] (0 + length path) (at_path ?cs path) s' ([] @ pointer_of path) st')))
          ([] @ pointer_of path)"
    using merge_trace [OF path bounds(1) ne bounds(2) free, of "[]" "[]"
        "\<lparr>ms_provenance = [], ms_collector = snd (normalize_sources env schema sources (new_collector limit 0))\<rparr>"]
    unfolding resolve_is_merge merge_def case_prod_beta fst_conv resolved_config.select_convs by blast
  let ?l = "last (at_path ?cs path)"
  have "last (settings ?src path) = (?norm s, v)"
  proof (rule sorted_last [OF settings_sorted])
    show "(?norm s, v) \<in> set (settings ?src path)"
      using s unfolding settings_iff normalized_source_list by (auto simp: says_at_def)
    fix y assume y: "y \<in> set (settings ?src path)"
    obtain n w where yn: "y = (n, w)" by (cases y)
    have "n \<in> set ?src \<and> value_at (cs_value n) path = Some w" using y unfolding yn settings_iff .
    then obtain s'' where "y = (?norm s'', w)" "s'' \<in> set sources" "says_at env schema s'' path = Some w"
      unfolding normalized_source_list yn by (auto simp: says_at_def)
    then show "y = (?norm s, v) \<or> tier_precedence (cs_tier (fst y)) < tier_precedence (cs_tier (fst (?norm s, v)))"
      using nearest s(2) by fastforce
  qed
  moreover have "last (settings ?src path) = (ct_source ?l, ct_value ?l)"
    unfolding settings_at_path [symmetric] using ne by (simp add: last_map)
  ultimately have l: "ct_source ?l = ?norm s" "ct_value ?l = v" by simp_all
  show ?thesis
    using val prov bounds(1) by (simp add: merge_leaf [OF leaf ne] l provenance_of_def)
qed

definition mode_sources :: "raw_source list" where
  "mode_sources = [raw_at Cli (RObj [(''mode'', RStr ''off'')]), raw_at Global (RObj [(''mode'', RStr ''on'')]),
     raw_at Project (RObj [(''mode'', RStr ''maybe'')])]"

lemma leaf_comes_from_nearest_tier_witness:
  "value_at (rc_value (cr_resolved (resolve_config no_redaction mode_sources sample_schema 20))) [''mode''] = Some (JStr ''off'')"
proof (rule conjunct1 [OF leaf_comes_from_nearest_tier])
  let ?s = "raw_at Cli (RObj [(''mode'', RStr ''off'')])"
  show "leads_to is_leaf_node (ce_regex no_redaction) (Some sample_schema) [''mode'']" by code_simp
  show "?s \<in> set mode_sources" by (simp add: mode_sources_def)
  show "says_at no_redaction sample_schema ?s [''mode''] = Some (JStr ''off'')" by code_simp
  have s: "set mode_sources = {?s, raw_at Global (RObj [(''mode'', RStr ''on'')]), raw_at Project (RObj [(''mode'', RStr ''maybe'')])}"
    by (simp add: mode_sources_def)
  have g: "tier_precedence (rs_tier (raw_at Global (RObj [(''mode'', RStr ''on'')]))) < tier_precedence (rs_tier ?s)" by code_simp
  have p: "says_at no_redaction sample_schema (raw_at Project (RObj [(''mode'', RStr ''maybe'')])) [''mode''] = None" by code_simp
  show "\<forall>s' \<in> set mode_sources. says_at no_redaction sample_schema s' [''mode''] = None \<or> s' = ?s
        \<or> tier_precedence (rs_tier s') < tier_precedence (rs_tier ?s)"
    unfolding s using g p by blast
  have w: "says_at no_redaction sample_schema ?s [] = Some (JObj [(''mode'', JStr ''off'')])"
    "says_at no_redaction sample_schema (raw_at Global (RObj [(''mode'', RStr ''on'')])) [] = Some (JObj [(''mode'', JStr ''on'')])"
    "says_at no_redaction sample_schema (raw_at Project (RObj [(''mode'', RStr ''maybe'')])) [] = Some (JObj [])"
    by code_simp+
  have f: "slash_free (JObj [(''mode'', JStr ''off'')])" "slash_free (JObj [(''mode'', JStr ''on'')])" "slash_free (JObj [])"
    by code_simp+
  show "\<forall>s' \<in> set mode_sources. \<forall>w. says_at no_redaction sample_schema s' [] = Some w \<longrightarrow> slash_free w"
    unfolding s using w f by auto
qed

text \<open>Pointers are not escaped, so provenance can name the wrong file. Under an open schema a key
  with a slash in it and a nested key share a pointer: the value of \<^verbatim>\<open>a/b\<close> comes from the user's global
  file, but the only provenance entry for its pointer names the project, which set \<^verbatim>\<open>b\<close> inside \<^verbatim>\<open>a\<close>.\<close>

theorem slash_key_is_misattributed:
  "value_at (rc_value (cr_resolved (resolve_config no_redaction
       [raw_at Global (RObj [(''a/b'', RStr ''g'')]), raw_at Project (RObj [(''a'', RObj [(''b'', RStr ''p'')])])]
       [(''additionalProperties'', JBool True)] 20))) [''a/b''] = Some (JStr ''g'')
   \<and> map_option pv_tier (provenance_for (rc_provenance (cr_resolved (resolve_config no_redaction
       [raw_at Global (RObj [(''a/b'', RStr ''g'')]), raw_at Project (RObj [(''a'', RObj [(''b'', RStr ''p'')])])]
       [(''additionalProperties'', JBool True)] 20))) (pointer_of [''a/b''])) = Some Project"
  by code_simp

subsection \<open>The order of the sources\<close>

definition same :: "'a \<times> merge_state \<Rightarrow> 'a \<times> merge_state \<Rightarrow> bool" where
  "same r r' \<longleftrightarrow> fst r = fst r' \<and> ms_provenance (snd r) = ms_provenance (snd r')"

lemma sameI: "ms_provenance a = ms_provenance b \<Longrightarrow> same (v, a) (v, b)"
  by (simp add: same_def)

lemma sameE:
  assumes "same r r'"
  obtains v a b where "r = (v, a)" "r' = (v, b)" "ms_provenance a = ms_provenance b"
  using assms unfolding same_def by (metis prod.collapse)

definition steady_node :: "merge_child \<Rightarrow> bool" where
  "steady_node node \<longleftrightarrow> (\<forall>cs s k st st'. ms_provenance st = ms_provenance st' \<longrightarrow> same (node cs s k st) (node cs s k st'))"

lemma stamp_steady: "ms_provenance st = ms_provenance st' \<Longrightarrow> ms_provenance (stamp e k st) = ms_provenance (stamp e k st')"
  by (simp add: stamp_def)

lemma fields_steady_node:
  "steady_node node \<Longrightarrow> ms_provenance st = ms_provenance st' \<Longrightarrow>
   same (merge_fields node rx objs s key names out st) (merge_fields node rx objs s key names out st')"
proof (induction names arbitrary: out st st')
  case (Cons n names)
  have "same (node (child_contributions objs n) (property_schema rx s n) (pointer_child key n) st)
      (node (child_contributions objs n) (property_schema rx s n) (pointer_child key n) st')"
    using Cons.prems unfolding steady_node_def by blast
  then show ?case
  proof (rule sameE)
    fix v a b
    assume r: "node (child_contributions objs n) (property_schema rx s n) (pointer_child key n) st = (v, a)"
      "node (child_contributions objs n) (property_schema rx s n) (pointer_child key n) st' = (v, b)"
      "ms_provenance a = ms_provenance b"
    show ?thesis
      unfolding merge_fields_Cons Let_def r(1,2) fst_conv snd_conv by (rule Cons.IH [OF Cons.prems(1) r(3)])
  qed
qed (simp add: same_def)

lemma push_steady_node:
  "steady_node node \<Longrightarrow> ms_provenance st = ms_provenance st' \<Longrightarrow>
   same (push_merged node items key groups out st) (push_merged node items key groups out st')"
proof (induction groups arbitrary: out st st')
  case (Cons g groups)
  have "same (node g items (pointer_child key (decimal (length out))) st) (node g items (pointer_child key (decimal (length out))) st')"
    using Cons.prems unfolding steady_node_def by blast
  then show ?case
  proof (rule sameE)
    fix v a b
    assume r: "node g items (pointer_child key (decimal (length out))) st = (v, a)"
      "node g items (pointer_child key (decimal (length out))) st' = (v, b)" "ms_provenance a = ms_provenance b"
    show ?thesis
      unfolding push_merged_Cons Let_def r(1,2) fst_conv snd_conv by (rule Cons.IH [OF Cons.prems(1) r(3)])
  qed
qed (simp add: same_def)

lemma collect_steady:
  "fst (collect_names env file key objs st) = fst (collect_names env file key objs st')"
proof -
  have "fst acc = fst acc' \<Longrightarrow> fst (foldl (collect_name env file key) acc ns) = fst (foldl (collect_name env file key) acc' ns)" for acc acc' ns
  proof (induction ns arbitrary: acc acc')
    case (Cons n ns)
    have "fst (collect_name env file key acc n) = fst (collect_name env file key acc' n)"
      using Cons.prems by (simp add: collect_name_def case_prod_beta)
    from Cons.IH [OF this] show ?case by simp
  qed simp
  from this [of "([], st)" "([], st')"] show ?thesis by (simp add: collect_fold)
qed

lemma object_steady:
  assumes "steady_node node" "ms_provenance st = ms_provenance st'"
  shows "same (merge_object node env file cs s key st) (merge_object node env file cs s key st')"
proof (cases "filter (\<lambda>e. is_object (ct_value e)) cs = []")
  case True
  then show ?thesis using assms(2) by (simp add: merge_object_def same_def stamp_def)
next
  case False
  let ?objs = "filter (\<lambda>e. is_object (ct_value e)) cs"
  have "same (collect_names env file key ?objs st) (collect_names env file key ?objs st')"
    using collect_names_set(3) [of env "file" key ?objs] collect_steady [of env "file" key ?objs st st'] assms(2)
    unfolding same_def by simp
  then show ?thesis
  proof (rule sameE)
    fix names a b
    assume cn: "collect_names env file key ?objs st = (names, a)" "collect_names env file key ?objs st' = (names, b)"
      "ms_provenance a = ms_provenance b"
    show ?thesis
      using fields_steady_node [OF assms(1) cn(3), of "ce_regex env" ?objs s key names "[]"] False
      by (simp add: merge_object_def cn(1,2) same_def case_prod_beta Let_def)
  qed
qed

lemma append_steady:
  assumes "ms_provenance st = ms_provenance st'"
  shows "same (append_arrays arrays key st) (append_arrays arrays key st')"
proof -
  have inner: "same (foldl (append_member key e) (o', a) ms) (foldl (append_member key e) (o', b) ms)"
    if "ms_provenance a = ms_provenance b" for e o' a b ms
    using that
  proof (induction ms arbitrary: o' a b)
    case (Cons m ms)
    show ?case unfolding foldl_Cons append_member_def prod.case
      using Cons.IH [OF stamp_steady [OF Cons.prems]] by (simp add: append_member_def)
  qed (simp add: same_def)
  have "same (foldl (\<lambda>acc e. foldl (append_member key e) acc (array_members (ct_value e))) (o', a) arrays)
      (foldl (\<lambda>acc e. foldl (append_member key e) acc (array_members (ct_value e))) (o', b) arrays)"
    if "ms_provenance a = ms_provenance b" for o' a b
    using that
  proof (induction arrays arbitrary: o' a b)
    case (Cons e arrays)
    from inner [OF Cons.prems, of e o' "array_members (ct_value e)"] show ?case
    proof (rule sameE)
      fix v a' b'
      assume r: "foldl (append_member key e) (o', a) (array_members (ct_value e)) = (v, a')"
        "foldl (append_member key e) (o', b) (array_members (ct_value e)) = (v, b')" "ms_provenance a' = ms_provenance b'"
      show ?thesis unfolding foldl_Cons r(1,2) by (rule Cons.IH [OF r(3)])
    qed
  qed (simp add: same_def)
  from this [OF assms, of "[]"] show ?thesis
    by (auto simp: append_arrays_def same_def case_prod_beta intro: stamp_steady)
qed

lemma array_steady:
  assumes "steady_node node" "ms_provenance st = ms_provenance st'"
  shows "same (merge_array node cs s key st) (merge_array node cs s key st')"
proof (cases "filter (\<lambda>e. is_array (ct_value e)) cs = []")
  case True
  then show ?thesis using assms(2) by (simp add: merge_array_def same_def stamp_def Let_def)
next
  case False
  let ?as = "filter (\<lambda>e. is_array (ct_value e)) cs"
  have keyed: "same (merge_keyed_array node ?as s field key st) (merge_keyed_array node ?as s field key st')" for field
    using push_steady_node [OF assms, of "items_schema s" key]
    by (auto simp: merge_keyed_array_def same_def case_prod_beta intro: stamp_steady)
  show ?thesis
  proof (cases "merge_strategy_of s")
    case Replace
    then show ?thesis using False assms(2) by (simp add: merge_array_def same_def stamp_def Let_def)
  next
    case Append
    then show ?thesis using False append_steady [OF assms(2), of ?as key]
      by (simp add: merge_array_def same_def case_prod_beta Let_def)
  next
    case (Keyed field)
    then show ?thesis using False keyed [of field]
      by (simp add: merge_array_def same_def case_prod_beta Let_def)
  qed
qed

lemma deny_steady:
  assumes "ms_provenance st = ms_provenance st'"
  shows "same (merge_deny cs pol key st) (merge_deny cs pol key st')"
proof -
  have fold: "ms_provenance (fold set_provenance qs a) = ms_provenance (fold set_provenance qs b)"
    if "ms_provenance a = ms_provenance b" for a b qs
    using that
  proof (induction qs arbitrary: a b)
    case (Cons q qs)
    show ?case unfolding fold_simps by (rule Cons.IH) (simp add: set_provenance_def Cons.prems)
  qed simp
  show ?thesis
    unfolding merge_deny_def Let_def
    by (rule sameI, rule fold) (simp add: assms split: option.split)
qed

lemma merge_node_steady: "steady_node (merge_node env file d)"
proof (induction "Suc MAX_CONFIG_DEPTH - d" arbitrary: d rule: less_induct)
  case less
  have node: "steady_node (merge_node env file (Suc d))" if "d \<le> MAX_CONFIG_DEPTH"
    using less.hyps [of "Suc d"] that by simp
  show ?case
    unfolding steady_node_def
  proof (intro allI impI)
    fix cs :: "merge_contribution list" and s k and st st' :: merge_state
    assume p: "ms_provenance st = ms_provenance st'"
    consider "cs = []" | "cs \<noteq> []" "d > MAX_CONFIG_DEPTH" | "cs \<noteq> []" "d \<le> MAX_CONFIG_DEPTH" by linarith
    then show "same (merge_node env file d cs s k st) (merge_node env file d cs s k st')"
    proof cases
      case 3
      then show ?thesis
        using object_steady [OF node p, of env "file" cs s k] array_steady [OF node p, of cs s k]
          deny_steady [OF p, of cs _ k] stamp_steady [OF p, of "last cs" k]
        by (simp add: merge_node.simps [of env "file" d] sameI split: option.split)
    qed (simp_all add: merge_node.simps [of env "file" d] same_def merge_record_def Let_def p)
  qed
qed

lemma tier_precedence_inj: "tier_precedence a = tier_precedence b \<Longrightarrow> a = b"
  by (cases a; cases b) (simp_all add: tier_precedence_def SOURCE_TIERS_def)

lemma by_tier_mset:
  assumes "mset xs = mset ys" "distinct (map cs_tier xs)"
  shows "by_tier xs = by_tier ys"
  unfolding by_tier_def
proof (rule sort_key_inj_key_eq)
  show "inj_on (\<lambda>s. tier_precedence (cs_tier s)) (set xs)"
  proof (rule inj_onI)
    fix x y assume "x \<in> set xs" "y \<in> set xs" "tier_precedence (cs_tier x) = tier_precedence (cs_tier y)"
    then show "x = y" using assms(2) tier_precedence_inj by (meson distinct_map inj_onD)
  qed
qed (use assms(1) in simp_all)

text \<open>The order in which sources are handed in does not matter. When no two sources are of
  the same tier, any rearrangement resolves to the same value with the same provenance, and the cap on
  records does not affect it either.\<close>

theorem source_order_does_not_matter:
  assumes "mset sources = mset sources'" "distinct (map rs_tier sources)"
  shows "cr_resolved (resolve_config env sources schema limit) = cr_resolved (resolve_config env sources' schema limit')"
proof -
  let ?a = "normalized_sources env schema sources limit" and ?b = "normalized_sources env schema sources' limit'"
  have m: "mset ?a = mset ?b" unfolding normalized_source_list using assms(1) by simp
  have "distinct (map cs_tier ?a)" unfolding normalized_source_list using assms(2) by (simp add: comp_def)
  then have "by_tier ?a = by_tier ?b" using m by (intro by_tier_mset)
  moreover have "length ?a = length ?b" using m by (metis size_mset)
  ultimately have "contributions_of ?a = contributions_of ?b" by (simp add: contributions_of_def)
  moreover have "fst (merge_node env [] 0 cs (Some schema) [] \<lparr>ms_provenance = [], ms_collector = c\<rparr>)
        = fst (merge_node env [] 0 cs (Some schema) [] \<lparr>ms_provenance = [], ms_collector = c'\<rparr>)
      \<and> ms_provenance (snd (merge_node env [] 0 cs (Some schema) [] \<lparr>ms_provenance = [], ms_collector = c\<rparr>))
        = ms_provenance (snd (merge_node env [] 0 cs (Some schema) [] \<lparr>ms_provenance = [], ms_collector = c'\<rparr>))" for cs c c'
    using merge_node_steady unfolding steady_node_def same_def by simp
  ultimately show ?thesis unfolding resolve_is_merge merge_def case_prod_beta by simp
qed

lemma source_order_does_not_matter_witness:
  "cr_resolved (resolve_config no_redaction mode_sources sample_schema 20)
   = cr_resolved (resolve_config no_redaction (rev mode_sources) sample_schema 0)"
  by (rule source_order_does_not_matter) (simp_all add: mode_sources_def raw_at_def)

text \<open>The merge's own guards never fire behind the front door. Merging validated sources adds no
  record: no key is refused and no node is too deep, because validation left neither.\<close>

theorem merge_adds_no_record:
  assumes "sane_schema (JObj schema)"
  shows "cr_records (resolve_config env sources schema limit)
      = co_kept (snd (normalize_sources env schema sources (new_collector limit 0)))
    \<and> cr_dropped (resolve_config env sources schema limit)
      = co_dropped (snd (normalize_sources env schema sources (new_collector limit 0)))"
  using merged_fits [OF assms] by (simp add: resolve_config_def case_prod_beta)

lemma merge_adds_no_record_witness:
  "cr_records (resolve_config no_redaction mode_sources sample_schema 20)
     = co_kept (snd (normalize_sources no_redaction sample_schema mode_sources (new_collector 20 0)))"
  by (rule conjunct1 [OF merge_adds_no_record]) code_simp


lemma resolved_config_is_well_typed_witness:
  "conforms (ce_regex no_redaction) (Some sample_schema) (JObj [(''mode'', JStr ''off'')])
   \<and> safe_value MAX_CONFIG_DEPTH (JObj [(''mode'', JStr ''off'')])"
proof (rule resolved_config_is_well_typed)
  show "sane_schema (JObj sample_schema)" by code_simp
  show "rc_value (cr_resolved (resolve_config no_redaction mode_sources sample_schema 20)) = Some (JObj [(''mode'', JStr ''off'')])"
    by code_simp
qed

end
