(* ===== verification/Text_Edits.thy ===== *)
theory Text_Edits
  imports Read_Guard_Text Config_Schema "HOL-Library.Product_Lexorder"
begin

text \<open>
  \<^verbatim>\<open>clients/lsp/edits.ts\<close>, the half that works on text: decoding the edits a language server sends,
  moving their positions into the file, and applying them; with \<^verbatim>\<open>clients/lsp/position-encoding.ts\<close>
  and the line-ending functions of \<^verbatim>\<open>clients/host-edit-normalize.ts\<close>.

  A thrown error is the left side of a sum.  A code unit is below 256, so no surrogate occurs: a UTF-8
  length counts one or two bytes per unit and a UTF-32 length one.
\<close>

type_synonym lsp_position = "nat \<times> nat"

record text_edit =
  te_start :: lsp_position
  te_end :: lsp_position
  te_text :: string

datatype edit_error =
    Edits_Not_Array
  | Malformed_Text_Edit
  | Overlapping_Edits
  | Not_A_Boundary nat
  | Range_Out_Of_Order

subsection \<open>Decoding\<close>

definition nat_of_number :: "js_num \<Rightarrow> nat option" where
  "nat_of_number n =
     (case n of
        Neg_Zero \<Rightarrow> Some 0
      | Fin q \<Rightarrow> (case quotient_of q of (a, b) \<Rightarrow> if b = 1 \<and> 0 \<le> a then Some (nat a) else None))"

definition json_field :: "json \<Rightarrow> string \<Rightarrow> json option" where
  "json_field v key = (case v of JObj ps \<Rightarrow> map_of ps key | _ \<Rightarrow> None)"

definition number_field :: "json \<Rightarrow> string \<Rightarrow> nat option" where
  "number_field v key = (case json_field v key of Some (JNum n) \<Rightarrow> nat_of_number n | _ \<Rightarrow> None)"

definition is_position :: "json \<Rightarrow> lsp_position option" where
  "is_position v =
     (case (number_field v ''line'', number_field v ''character'') of
        (Some l, Some c) \<Rightarrow> Some (l, c)
      | _ \<Rightarrow> None)"

definition compare_position :: "lsp_position \<Rightarrow> lsp_position \<Rightarrow> int" where
  "compare_position a b = (if fst a = fst b then int (snd a) - int (snd b) else int (fst a) - int (fst b))"

definition is_range :: "json \<Rightarrow> (lsp_position \<times> lsp_position) option" where
  "is_range v =
     (case (Option.bind (json_field v ''start'') is_position, Option.bind (json_field v ''end'') is_position) of
        (Some s, Some e) \<Rightarrow> if compare_position s e \<le> 0 then Some (s, e) else None
      | _ \<Rightarrow> None)"

definition is_text_edit :: "json \<Rightarrow> text_edit option" where
  "is_text_edit v =
     (case (Option.bind (json_field v ''range'') is_range, json_field v ''newText'') of
        (Some (s, e), Some (JStr t)) \<Rightarrow> Some \<lparr>te_start = s, te_end = e, te_text = t\<rparr>
      | _ \<Rightarrow> None)"

fun all_text_edits :: "json list \<Rightarrow> edit_error + text_edit list" where
  "all_text_edits [] = Inr []"
| "all_text_edits (v # vs) =
     (case is_text_edit v of
        None \<Rightarrow> Inl Malformed_Text_Edit
      | Some e \<Rightarrow> (case all_text_edits vs of Inl err \<Rightarrow> Inl err | Inr es \<Rightarrow> Inr (e # es)))"

definition parse_text_edits :: "json option \<Rightarrow> edit_error + text_edit list" where
  "parse_text_edits v = (case v of Some (JArr vs) \<Rightarrow> all_text_edits vs | _ \<Rightarrow> Inl Edits_Not_Array)"

subsection \<open>Positions\<close>

datatype position_encoding = Utf8 | Utf16 | Utf32

definition negotiate_position_encoding :: "json option \<Rightarrow> position_encoding" where
  "negotiate_position_encoding caps =
     (case Option.bind caps (\<lambda>v. json_field v ''positionEncoding'') of
        Some (JStr s) \<Rightarrow> if s = ''utf-8'' then Utf8 else if s = ''utf-32'' then Utf32 else Utf16
      | _ \<Rightarrow> Utf16)"

definition utf8_length :: "string \<Rightarrow> nat" where
  "utf8_length s = sum_list (map (\<lambda>c. if (of_char c :: nat) < 128 then 1 else 2) s)"

definition convert_character_offset :: "position_encoding \<Rightarrow> string \<Rightarrow> nat \<Rightarrow> nat" where
  "convert_character_offset enc line off =
     (let pre = take (min off (length line)) line
      in case enc of Utf16 \<Rightarrow> off | Utf8 \<Rightarrow> utf8_length pre | Utf32 \<Rightarrow> length pre)"

definition line_at :: "string list \<Rightarrow> nat \<Rightarrow> string" where
  "line_at lines n = (if n < length lines then lines ! n else [])"

definition line_text_at :: "string \<Rightarrow> nat \<Rightarrow> string" where
  "line_text_at content n = line_at (split_on LF content) n"

text \<open>The first offset of the line whose encoded prefix has the length asked for.\<close>

definition utf16_position :: "string \<Rightarrow> lsp_position \<Rightarrow> position_encoding \<Rightarrow> edit_error + lsp_position" where
  "utf16_position content p enc =
     (let line = line_text_at content (fst p);
          wire = convert_character_offset enc line (length line);
          cr = line \<noteq> [] \<and> last line = CR;
          clamped = (if cr then length line - 1 else length line);
          clamped_wire = (if cr then wire - 1 else wire)
      in if snd p > clamped_wire then Inr (fst p, clamped)
         else if enc = Utf16 then Inr p
         else case find (\<lambda>off. convert_character_offset enc line off = snd p) [0..<Suc (length line)] of
                Some off \<Rightarrow> Inr (fst p, off)
              | None \<Rightarrow> Inl (Not_A_Boundary (snd p)))"

subsection \<open>Line endings\<close>

fun index_of_char :: "char \<Rightarrow> string \<Rightarrow> nat option" where
  "index_of_char c [] = None"
| "index_of_char c (x # xs) = (if x = c then Some 0 else map_option Suc (index_of_char c xs))"

fun index_of_crlf :: "string \<Rightarrow> nat option" where
  "index_of_crlf (a # b # s) = (if a = CR \<and> b = LF then Some 0 else map_option Suc (index_of_crlf (b # s)))"
| "index_of_crlf _ = None"

text \<open>True for CRLF.\<close>

definition detect_line_ending :: "string \<Rightarrow> bool" where
  "detect_line_ending content =
     (case (index_of_char LF content, index_of_crlf content) of
        (None, _) \<Rightarrow> False
      | (_, None) \<Rightarrow> False
      | (Some lf, Some crlf) \<Rightarrow> crlf < lf)"

fun normalize_to_lf :: "string \<Rightarrow> string" where
  "normalize_to_lf [] = []"
| "normalize_to_lf (c # s) =
     (if c = CR then LF # normalize_to_lf (if s \<noteq> [] \<and> hd s = LF then tl s else s) else c # normalize_to_lf s)"

definition restore_line_endings :: "string \<Rightarrow> bool \<Rightarrow> string" where
  "restore_line_endings t crlf = (if crlf then concat (map (\<lambda>c. if c = LF then [CR, LF] else [c]) t) else t)"

subsection \<open>Validating and ordering\<close>

definition is_empty_range :: "text_edit \<Rightarrow> bool" where
  "is_empty_range e \<longleftrightarrow> te_start e = te_end e"

text \<open>\<^verbatim>\<open>Array.prototype.sort\<close> with a comparator: a stable sort.\<close>

fun insert_by :: "('a \<Rightarrow> 'a \<Rightarrow> int) \<Rightarrow> 'a \<Rightarrow> 'a list \<Rightarrow> 'a list" where
  "insert_by cmp x [] = [x]"
| "insert_by cmp x (y # ys) = (if cmp x y \<le> 0 then x # y # ys else y # insert_by cmp x ys)"

definition sort_by :: "('a \<Rightarrow> 'a \<Rightarrow> int) \<Rightarrow> 'a list \<Rightarrow> 'a list" where
  "sort_by cmp xs = foldr (insert_by cmp) xs []"

definition application_order :: "text_edit \<times> nat \<Rightarrow> text_edit \<times> nat \<Rightarrow> int" where
  "application_order a b =
     (let start_delta = compare_position (te_start (fst b)) (te_start (fst a));
          end_delta = compare_position (te_end (fst b)) (te_end (fst a))
      in if start_delta \<noteq> 0 then start_delta
         else if end_delta \<noteq> 0 then end_delta
         else int (snd b) - int (snd a))"

definition sort_edits_for_application :: "text_edit list \<Rightarrow> text_edit list" where
  "sort_edits_for_application edits = map fst (sort_by application_order (zip edits [0..<length edits]))"

text \<open>The key of the duplicate test spells out the range and the text, so keys agree when edits do.\<close>

definition keep_edit :: "text_edit list \<times> text_edit list \<Rightarrow> text_edit \<Rightarrow> text_edit list \<times> text_edit list" where
  "keep_edit acc e =
     (case acc of (seen, kept) \<Rightarrow>
        if \<not> is_empty_range e then
          (if e \<in> set seen then (seen, kept) else (e # seen, kept @ [e]))
        else (seen, kept @ [e]))"

definition unique_edits :: "text_edit list \<Rightarrow> text_edit list" where
  "unique_edits edits = snd (foldl keep_edit ([], []) edits)"

fun no_overlap :: "text_edit list \<Rightarrow> bool" where
  "no_overlap (later # earlier # rest) \<longleftrightarrow>
     compare_position (te_end earlier) (te_start later) \<le> 0 \<and> no_overlap (earlier # rest)"
| "no_overlap _ \<longleftrightarrow> True"

definition validate_text_edits :: "text_edit list \<Rightarrow> edit_error + text_edit list" where
  "validate_text_edits edits =
     (let unique = unique_edits edits
      in if no_overlap (sort_edits_for_application unique) then Inr unique else Inl Overlapping_Edits)"

definition clamp_position :: "string \<Rightarrow> position_encoding \<Rightarrow> lsp_position \<Rightarrow> edit_error + lsp_position" where
  "clamp_position content enc p =
     (let lines = split_on LF content; last_line = length lines - 1
      in if fst p \<ge> length lines then Inr (last_line, length (line_at lines last_line))
         else utf16_position content p enc)"

definition convert_edit :: "string \<Rightarrow> position_encoding \<Rightarrow> text_edit \<Rightarrow> edit_error + text_edit" where
  "convert_edit content enc e =
     (case clamp_position content enc (te_start e) of
        Inl err \<Rightarrow> Inl err
      | Inr s \<Rightarrow>
          (case clamp_position content enc (te_end e) of
             Inl err \<Rightarrow> Inl err
           | Inr t \<Rightarrow>
               if compare_position s t > 0 then Inl Range_Out_Of_Order
               else Inr \<lparr>te_start = s, te_end = t,
                 te_text = restore_line_endings (normalize_to_lf (te_text e)) (detect_line_ending content)\<rparr>))"

fun convert_edits :: "string \<Rightarrow> position_encoding \<Rightarrow> text_edit list \<Rightarrow> edit_error + text_edit list" where
  "convert_edits content enc [] = Inr []"
| "convert_edits content enc (e # es) =
     (case convert_edit content enc e of
        Inl err \<Rightarrow> Inl err
      | Inr c \<Rightarrow> (case convert_edits content enc es of Inl err \<Rightarrow> Inl err | Inr cs \<Rightarrow> Inr (c # cs)))"

definition normalize_text_edits :: "string \<Rightarrow> text_edit list \<Rightarrow> position_encoding \<Rightarrow> edit_error + text_edit list" where
  "normalize_text_edits content edits enc =
     (case convert_edits content enc edits of Inl err \<Rightarrow> Inl err | Inr cs \<Rightarrow> validate_text_edits cs)"

subsection \<open>Applying\<close>

text \<open>Assigning past the end of an array extends it; the holes join as empty strings.\<close>

definition set_line :: "string list \<Rightarrow> nat \<Rightarrow> string \<Rightarrow> string list" where
  "set_line lines n l =
     (if n < length lines then lines[n := l] else lines @ replicate (n - length lines) [] @ [l])"

definition apply_one :: "string list \<Rightarrow> text_edit \<Rightarrow> string list" where
  "apply_one lines e =
     (let (sl, sc) = te_start e; (el, ec) = te_end e
      in if sl = el then
           set_line lines sl (take sc (line_at lines sl) @ te_text e @ drop ec (line_at lines sl))
         else
           take sl lines @ split_on LF (take sc (line_at lines sl) @ te_text e @ drop ec (line_at lines el))
             @ drop (sl + (el - sl + 1)) lines)"

definition apply_text_edits :: "string \<Rightarrow> text_edit list \<Rightarrow> position_encoding \<Rightarrow> edit_error + string" where
  "apply_text_edits content edits enc =
     (case normalize_text_edits content edits enc of
        Inl err \<Rightarrow> Inl err
      | Inr norm_edits \<Rightarrow>
          Inr (join_with LF (foldl apply_one (split_on LF content) (sort_edits_for_application norm_edits))))"

end
