(* ===== verification/Workspace_Plan.thy ===== *)
theory Workspace_Plan
  imports Text_Edits Path_Keys Config_Records
begin

text \<open>
  \<^verbatim>\<open>clients/lsp/edits.ts\<close>, the half that works on workspace edits: decoding them, ordering their
  text edits and resource operations into a plan, and merging the edits several servers propose.

  The resolver of file URIs is a parameter: \<^verbatim>\<open>fileURLToPath\<close> of \<^verbatim>\<open>node:url\<close>, \<open>None\<close> for a throw.
  The memo of index keys inside one planning call answers what the key function does and is left out.
\<close>

type_synonym file_url = "string \<Rightarrow> path option"

datatype plan_error =
    Bad_Edits edit_error
  | Bad_Version
  | Bad_Options string
  | Bad_Shape string
  | Unsupported_Operation string
  | Conflicting_Versions string
  | Duplicate_Resource string

datatype doc_version = No_Version | Null_Version | Version nat

datatype text_origin = From_Changes string "text_edit list" | From_Document nat "text_edit list"

record resource_options =
  ro_overwrite :: bool
  ro_ignore_if_exists :: bool
  ro_ignore_if_not_exists :: bool
  ro_recursive :: bool

datatype workspace_op =
    Text_Op string "text_edit list" doc_version "text_origin list option"
  | Create_Op string "resource_options option"
  | Rename_Op string string "resource_options option"
  | Delete_Op string "resource_options option"

subsection \<open>Throwing\<close>

definition and_then :: "'e + 'a \<Rightarrow> ('a \<Rightarrow> 'e + 'b) \<Rightarrow> 'e + 'b" where
  "and_then x f = (case x of Inl e \<Rightarrow> Inl e | Inr a \<Rightarrow> f a)"

lemma and_then_simps [simp]: "and_then (Inl e) f = Inl e" "and_then (Inr a) f = f a"
  by (simp_all add: and_then_def)

lemma and_then_Inr: "and_then x f = Inr b \<longleftrightarrow> (\<exists>a. x = Inr a \<and> f a = Inr b)"
  by (cases x) simp_all

fun fold_throwing :: "('s \<Rightarrow> 'a \<Rightarrow> 'e + 's) \<Rightarrow> 's \<Rightarrow> 'a list \<Rightarrow> 'e + 's" where
  "fold_throwing f s [] = Inr s"
| "fold_throwing f s (x # xs) = and_then (f s x) (\<lambda>s'. fold_throwing f s' xs)"

subsection \<open>Decoding\<close>

definition parse_version :: "json option \<Rightarrow> plan_error + doc_version" where
  "parse_version v =
     (case v of
        None \<Rightarrow> Inr No_Version
      | Some JNull \<Rightarrow> Inr Null_Version
      | Some (JNum n) \<Rightarrow> (case nat_of_number n of Some k \<Rightarrow> Inr (Version k) | None \<Rightarrow> Inl Bad_Version)
      | _ \<Rightarrow> Inl Bad_Version)"

definition allowed_options :: "string \<Rightarrow> string list" where
  "allowed_options kind =
     (if kind = ''delete'' then [''ignoreIfNotExists'', ''recursive''] else [''overwrite'', ''ignoreIfExists''])"

fun bad_option :: "string list \<Rightarrow> (string \<times> json) list \<Rightarrow> string option" where
  "bad_option allowed [] = None"
| "bad_option allowed ((k, v) # rest) =
     (if k \<notin> set allowed \<or> (case v of JBool _ \<Rightarrow> False | _ \<Rightarrow> True) then Some k else bad_option allowed rest)"

definition option_set :: "(string \<times> json) list \<Rightarrow> string \<Rightarrow> bool" where
  "option_set ps key \<longleftrightarrow> map_of ps key = Some (JBool True)"

definition parse_resource_options :: "json option \<Rightarrow> string \<Rightarrow> plan_error + resource_options option" where
  "parse_resource_options v kind =
     (case v of
        None \<Rightarrow> Inr None
      | Some (JObj ps) \<Rightarrow>
          (case bad_option (allowed_options kind) ps of
             Some k \<Rightarrow> Inl (Bad_Options k)
           | None \<Rightarrow>
               if option_set ps ''overwrite'' \<and> option_set ps ''ignoreIfExists'' then Inl (Bad_Options ''overwrite'')
               else if kind \<noteq> ''delete'' \<and> has_key ps ''ignoreIfNotExists'' then Inl (Bad_Options ''ignoreIfNotExists'')
               else if kind = ''delete'' \<and> has_key ps ''overwrite'' then Inl (Bad_Options ''overwrite'')
               else Inr (Some \<lparr>ro_overwrite = option_set ps ''overwrite'',
                 ro_ignore_if_exists = option_set ps ''ignoreIfExists'',
                 ro_ignore_if_not_exists = option_set ps ''ignoreIfNotExists'',
                 ro_recursive = option_set ps ''recursive''\<rparr>))
      | _ \<Rightarrow> Inl (Bad_Options kind))"

definition throwing_edits :: "json option \<Rightarrow> plan_error + text_edit list" where
  "throwing_edits v = (case parse_text_edits v of Inl e \<Rightarrow> Inl (Bad_Edits e) | Inr es \<Rightarrow> Inr es)"

text \<open>\<open>Inr None\<close>: the change is not a text document edit.\<close>

definition parse_text_document_edit :: "json \<Rightarrow> plan_error + (string \<times> doc_version \<times> text_edit list) option" where
  "parse_text_document_edit v =
     (case json_field v ''textDocument'' of
        Some (JObj doc) \<Rightarrow>
          (case map_of doc ''uri'' of
             Some (JStr uri) \<Rightarrow>
               and_then (parse_version (map_of doc ''version'')) (\<lambda>version.
               and_then (throwing_edits (json_field v ''edits'')) (\<lambda>edits. Inr (Some (uri, version, edits))))
           | _ \<Rightarrow> Inl (Bad_Shape ''textDocument.uri''))
      | _ \<Rightarrow> Inr None)"

text \<open>The shape of a resource operation, and the operation itself.\<close>

definition parse_resource :: "json \<Rightarrow> plan_error + workspace_op" where
  "parse_resource v =
     (case json_field v ''kind'' of
        Some (JStr kind) \<Rightarrow>
          if kind = ''create'' then
            (case json_field v ''uri'' of
               Some (JStr uri) \<Rightarrow> and_then (parse_resource_options (json_field v ''options'') kind) (\<lambda>opts. Inr (Create_Op uri opts))
             | _ \<Rightarrow> Inl (Bad_Shape ''create.uri''))
          else if kind = ''rename'' then
            (case (json_field v ''oldUri'', json_field v ''newUri'') of
               (Some (JStr old), Some (JStr new)) \<Rightarrow>
                 and_then (parse_resource_options (json_field v ''options'') kind) (\<lambda>opts. Inr (Rename_Op old new opts))
             | _ \<Rightarrow> Inl (Bad_Shape ''rename''))
          else if kind = ''delete'' then
            (case json_field v ''uri'' of
               Some (JStr uri) \<Rightarrow> and_then (parse_resource_options (json_field v ''options'') kind) (\<lambda>opts. Inr (Delete_Op uri opts))
             | _ \<Rightarrow> Inl (Bad_Shape ''delete.uri''))
          else Inl (Unsupported_Operation kind)
      | _ \<Rightarrow> Inl (Bad_Shape ''documentChanges''))"

definition check_change :: "json \<Rightarrow> plan_error + unit" where
  "check_change v =
     and_then (parse_text_document_edit v) (\<lambda>text.
       case text of Some _ \<Rightarrow> Inr () | None \<Rightarrow> and_then (parse_resource v) (\<lambda>_. Inr ()))"

definition changes_of :: "json \<Rightarrow> (string \<times> json) list" where
  "changes_of edit = (case json_field edit ''changes'' of Some (JObj ps) \<Rightarrow> ps | _ \<Rightarrow> [])"

definition document_changes_of :: "json \<Rightarrow> json list" where
  "document_changes_of edit = (case json_field edit ''documentChanges'' of Some (JArr vs) \<Rightarrow> vs | _ \<Rightarrow> [])"

definition parse_workspace_edit :: "json \<Rightarrow> plan_error + unit" where
  "parse_workspace_edit edit =
     (case edit of
        JObj _ \<Rightarrow>
          and_then
            (case json_field edit ''changes'' of
               None \<Rightarrow> Inr ()
             | Some (JObj ps) \<Rightarrow>
                 fold_throwing (\<lambda>_ (uri, v). and_then (throwing_edits (Some v)) (\<lambda>_. Inr ())) () ps
             | _ \<Rightarrow> Inl (Bad_Shape ''changes''))
            (\<lambda>_. case json_field edit ''documentChanges'' of
               None \<Rightarrow> Inr ()
             | Some (JArr vs) \<Rightarrow> fold_throwing (\<lambda>_. check_change) () vs
             | _ \<Rightarrow> Inl (Bad_Shape ''documentChanges''))
      | _ \<Rightarrow> Inl (Bad_Shape ''workspace edit''))"

subsection \<open>Index keys\<close>

definition uri_to_path :: "host \<Rightarrow> file_url \<Rightarrow> string \<Rightarrow> path" where
  "uri_to_path h fu uri = normalize_file_path h (case fu uri of Some p \<Rightarrow> p | None \<Rightarrow> uri)"

definition path_index_key :: "host \<Rightarrow> file_url \<Rightarrow> string \<Rightarrow> path" where
  "path_index_key h fu uri = normalize_ephemeral_map_key h (uri_to_path h fu uri)"

text \<open>
  \<^verbatim>\<open>path.posix.dirname\<close>: drop trailing slashes, the last name and one slash before it.  The scan
  runs from the tail and never looks at the first character.
\<close>

definition up_to_name :: "path \<Rightarrow> path" where
  "up_to_name p = dropWhile (\<lambda>c. c \<noteq> SLASH) (dropWhile (\<lambda>c. c = SLASH) (rev (drop 1 p)))"

definition posix_dirname :: "path \<Rightarrow> path" where
  "posix_dirname p =
     (let rooted = p \<noteq> [] \<and> hd p = SLASH; rest = up_to_name p
      in if rest = [] then (if rooted then [SLASH] else ''.'')
         else if rooted \<and> length rest = 1 then [SLASH, SLASH]
         else take (length rest) p)"

lemma dropWhile_le: "length (dropWhile P xs) \<le> length xs"
  by (induction xs) auto

lemma name_dropped:
  assumes "u = dropWhile (\<lambda>c. c = SLASH) t" "dropWhile (\<lambda>c. c \<noteq> SLASH) u \<noteq> []"
  shows "Suc (length (dropWhile (\<lambda>c. c \<noteq> SLASH) u)) \<le> length t"
proof (cases u)
  case (Cons x xs)
  have d: "dropWhile (\<lambda>c. c = SLASH) t = x # xs" using assms(1) Cons by simp
  have "x \<noteq> SLASH" using d unfolding dropWhile_eq_Cons_conv by (rule conjunct2)
  then have "length (dropWhile (\<lambda>c. c \<noteq> SLASH) u) \<le> length xs" by (simp add: Cons dropWhile_le)
  moreover have "Suc (length xs) \<le> length t"
    using dropWhile_le [of "\<lambda>c. c = SLASH" t] unfolding d by simp
  ultimately show ?thesis by simp
qed (use assms(2) in simp)

lemma up_to_name_shorter: "up_to_name p \<noteq> [] \<Longrightarrow> Suc (length (up_to_name p)) < length p"
  using name_dropped [OF refl, of "rev (drop 1 p)"] unfolding up_to_name_def by fastforce

lemma dirname_shorter:
  assumes "posix_dirname p \<noteq> p"
  shows "posix_dirname p = ''.'' \<or> length (posix_dirname p) < length p"
proof (cases "up_to_name p = []")
  case True
  show ?thesis
  proof (cases "p \<noteq> [] \<and> hd p = SLASH")
    case root: True
    then have d: "posix_dirname p = [SLASH]" using True by (simp add: posix_dirname_def)
    have "p = [SLASH]" if "length p = 1" using root that by (cases p) auto
    then have "length p \<noteq> 1" "length p \<noteq> 0" using assms d root by auto
    then show ?thesis unfolding d by (metis One_nat_def length_Cons linorder_neqE_nat list.size(3) less_one)
  next
    case False
    then show ?thesis using True by (auto simp: posix_dirname_def)
  qed
next
  case False
  then show ?thesis using up_to_name_shorter [OF False] by (auto simp: posix_dirname_def Let_def)
qed

function ancestors_of :: "path \<Rightarrow> path list" where
  "ancestors_of p = (if posix_dirname p = p then [p] else p # ancestors_of (posix_dirname p))"
  by pat_completeness auto
termination
proof (relation "measure (\<lambda>p. if p = ''.'' then 0 else Suc (length p))")
  fix p
  assume ne: "posix_dirname p \<noteq> p"
  have "p \<noteq> ''.''" using ne by (auto simp: posix_dirname_def up_to_name_def)
  then show "(posix_dirname p, p) \<in> measure (\<lambda>p. if p = ''.'' then 0 else Suc (length p))"
    using dirname_shorter [OF ne] by auto
qed simp

declare ancestors_of.simps [simp del]

subsection \<open>Planning\<close>

record pending =
  pd_uri :: string
  pd_edits :: "text_edit list"
  pd_version :: doc_version
  pd_origins :: "text_origin list option"

record plan_state =
  ps_ops :: "workspace_op list"
  ps_pending :: "(path, pending) js_map"
  ps_descendants :: "(path, path list) js_map"
  ps_ancestors :: "(path, path list) js_map"
  ps_seen :: "string list"

definition set_add :: "'a \<Rightarrow> 'a list \<Rightarrow> 'a list" where
  "set_add x xs = (if x \<in> set xs then xs else xs @ [x])"

definition index_at :: "(path, path list) js_map \<Rightarrow> path \<Rightarrow> path list" where
  "index_at d a = (case map_of d a of Some ks \<Rightarrow> ks | None \<Rightarrow> [])"

definition add_index :: "path \<Rightarrow> plan_state \<Rightarrow> plan_state" where
  "add_index key st =
     st\<lparr>ps_descendants := foldl (\<lambda>d a. AList.update a (set_add key (index_at d a)) d) (ps_descendants st) (ancestors_of key),
        ps_ancestors := AList.update key (ancestors_of key) (ps_ancestors st)\<rparr>"

definition drop_descendant :: "path \<Rightarrow> (path, path list) js_map \<Rightarrow> path \<Rightarrow> (path, path list) js_map" where
  "drop_descendant key d a =
     (case map_of d a of None \<Rightarrow> d | Some ks \<Rightarrow> AList.update a (filter (\<lambda>k. k \<noteq> key) ks) d)"

definition remove_index :: "path \<Rightarrow> plan_state \<Rightarrow> plan_state" where
  "remove_index key st =
     st\<lparr>ps_descendants := foldl (drop_descendant key) (ps_descendants st) (index_at (ps_ancestors st) key),
        ps_ancestors := AList.delete key (ps_ancestors st)\<rparr>"

definition numeric_version :: "doc_version \<Rightarrow> nat option" where
  "numeric_version v = (case v of Version n \<Rightarrow> Some n | _ \<Rightarrow> None)"

text \<open>A numeric version is adopted over a missing or null one.\<close>

definition extend_pending :: "pending \<Rightarrow> text_edit list \<Rightarrow> doc_version \<Rightarrow> text_origin option \<Rightarrow> pending" where
  "extend_pending existing edits version origin =
     existing\<lparr>pd_edits := pd_edits existing @ edits,
       pd_origins := (case origin of None \<Rightarrow> pd_origins existing
         | Some org \<Rightarrow> Some ((case pd_origins existing of None \<Rightarrow> [] | Some os \<Rightarrow> os) @ [org])),
       pd_version := (if numeric_version (pd_version existing) = None \<and> numeric_version version \<noteq> None
         then version else pd_version existing)\<rparr>"

definition queue_edits ::
  "host \<Rightarrow> file_url \<Rightarrow> string \<Rightarrow> text_edit list \<Rightarrow> doc_version \<Rightarrow> text_origin option \<Rightarrow> plan_state
     \<Rightarrow> plan_error + plan_state" where
  "queue_edits h fu uri edits version origin st =
     (let key = path_index_key h fu uri
      in case map_of (ps_pending st) key of
           Some existing \<Rightarrow>
             (let old = numeric_version (pd_version existing); new = numeric_version version
              in if old \<noteq> None \<and> new \<noteq> None \<and> old \<noteq> new then Inl (Conflicting_Versions uri)
                 else Inr (st\<lparr>ps_pending :=
                   AList.update key (extend_pending existing edits version origin) (ps_pending st)\<rparr>))
         | None \<Rightarrow>
             Inr (add_index key (st\<lparr>ps_pending := AList.update key
               \<lparr>pd_uri = uri, pd_edits = edits, pd_version = version,
                 pd_origins = (case origin of None \<Rightarrow> None | Some org \<Rightarrow> Some [org])\<rparr> (ps_pending st)\<rparr>)))"

definition flush_uri :: "host \<Rightarrow> file_url \<Rightarrow> plan_state \<Rightarrow> string \<Rightarrow> plan_state" where
  "flush_uri h fu st uri =
     (let key = path_index_key h fu uri
      in case map_of (ps_pending st) key of
           None \<Rightarrow> st
         | Some item \<Rightarrow>
             (let st' = remove_index key (st\<lparr>ps_pending := AList.delete key (ps_pending st)\<rparr>)
              in st'\<lparr>ps_ops := ps_ops st' @ [Text_Op (pd_uri item) (pd_edits item) (pd_version item) (pd_origins item)]\<rparr>))"

text \<open>
  The flush of a candidate takes only that candidate out of the set under iteration, so the traversal
  meets the members the set had at the start.
\<close>

definition flush_candidate :: "host \<Rightarrow> file_url \<Rightarrow> plan_state \<Rightarrow> path \<Rightarrow> plan_state" where
  "flush_candidate h fu st candidate =
     (case map_of (ps_pending st) candidate of Some item \<Rightarrow> flush_uri h fu st (pd_uri item) | None \<Rightarrow> st)"

definition flush_subtree :: "host \<Rightarrow> file_url \<Rightarrow> plan_state \<Rightarrow> string \<Rightarrow> plan_state" where
  "flush_subtree h fu st uri =
     foldl (flush_candidate h fu) st (index_at (ps_descendants st) (path_index_key h fu uri))"

definition resource_key :: "host \<Rightarrow> file_url \<Rightarrow> workspace_op \<Rightarrow> string" where
  "resource_key h fu op =
     (case op of
        Rename_Op old new _ \<Rightarrow> ''rename:'' @ path_index_key h fu old @ CHR '':'' # path_index_key h fu new
      | Create_Op uri _ \<Rightarrow> ''create:'' @ path_index_key h fu uri
      | Delete_Op uri _ \<Rightarrow> ''delete:'' @ path_index_key h fu uri
      | Text_Op _ _ _ _ \<Rightarrow> [])"

definition flush_for :: "host \<Rightarrow> file_url \<Rightarrow> workspace_op \<Rightarrow> plan_state \<Rightarrow> plan_state" where
  "flush_for h fu op st =
     (case op of
        Create_Op uri _ \<Rightarrow> flush_uri h fu st uri
      | Rename_Op old new _ \<Rightarrow> flush_subtree h fu (flush_subtree h fu st old) new
      | Delete_Op uri _ \<Rightarrow> flush_subtree h fu st uri
      | Text_Op _ _ _ _ \<Rightarrow> st)"

definition plan_resource :: "host \<Rightarrow> file_url \<Rightarrow> workspace_op \<Rightarrow> plan_state \<Rightarrow> plan_error + plan_state" where
  "plan_resource h fu op st =
     (let rk = resource_key h fu op
      in if rk \<in> set (ps_seen st) then Inl (Duplicate_Resource rk)
         else
           let st' = flush_for h fu op (st\<lparr>ps_seen := rk # ps_seen st\<rparr>)
           in Inr (st'\<lparr>ps_ops := ps_ops st' @ [op]\<rparr>))"

text \<open>One entry of the edit: text to queue, or a resource operation.\<close>

datatype plan_item = Queue_Item string "text_edit list" doc_version "text_origin option" | Resource_Item workspace_op

definition decode_changes :: "bool \<Rightarrow> string \<times> json \<Rightarrow> plan_error + plan_item" where
  "decode_changes track entry =
     (case entry of (uri, v) \<Rightarrow>
        and_then (throwing_edits (Some v)) (\<lambda>es.
          Inr (Queue_Item uri es No_Version (if track then Some (From_Changes uri es) else None))))"

definition decode_document :: "bool \<Rightarrow> nat \<times> json \<Rightarrow> plan_error + plan_item" where
  "decode_document track entry =
     (case entry of (index, v) \<Rightarrow>
        and_then (parse_text_document_edit v) (\<lambda>text.
          case text of
            Some (uri, version, es) \<Rightarrow>
              Inr (Queue_Item uri es version (if track then Some (From_Document index es) else None))
          | None \<Rightarrow> and_then (parse_resource v) (\<lambda>op. Inr (Resource_Item op))))"

definition plan_entry :: "host \<Rightarrow> file_url \<Rightarrow> plan_state \<Rightarrow> plan_item \<Rightarrow> plan_error + plan_state" where
  "plan_entry h fu st item =
     (case item of
        Queue_Item uri es version origin \<Rightarrow> queue_edits h fu uri es version origin st
      | Resource_Item op \<Rightarrow> plan_resource h fu op st)"

definition plan_changes :: "host \<Rightarrow> file_url \<Rightarrow> bool \<Rightarrow> plan_state \<Rightarrow> string \<times> json \<Rightarrow> plan_error + plan_state" where
  "plan_changes h fu track st entry = and_then (decode_changes track entry) (plan_entry h fu st)"

definition plan_document :: "host \<Rightarrow> file_url \<Rightarrow> bool \<Rightarrow> plan_state \<Rightarrow> nat \<times> json \<Rightarrow> plan_error + plan_state" where
  "plan_document h fu track st entry = and_then (decode_document track entry) (plan_entry h fu st)"

definition empty_plan :: plan_state where
  "empty_plan = \<lparr>ps_ops = [], ps_pending = [], ps_descendants = [], ps_ancestors = [], ps_seen = []\<rparr>"

text \<open>The entries of an edit in the order the planner meets them.\<close>

fun collect :: "('a \<Rightarrow> 'e + 'b) \<Rightarrow> 'a list \<Rightarrow> 'e + 'b list" where
  "collect f [] = Inr []"
| "collect f (x # xs) = and_then (f x) (\<lambda>y. and_then (collect f xs) (\<lambda>ys. Inr (y # ys)))"

definition enumerate_from_0 :: "'a list \<Rightarrow> (nat \<times> 'a) list" where
  "enumerate_from_0 xs = zip [0..<length xs] xs"

definition workspace_items :: "json \<Rightarrow> bool \<Rightarrow> plan_error + plan_item list" where
  "workspace_items edit track =
     and_then (collect (decode_changes track) (changes_of edit)) (\<lambda>xs.
     and_then (collect (decode_document track) (enumerate_from_0 (document_changes_of edit))) (\<lambda>ys. Inr (xs @ ys)))"

definition plan_workspace_edit :: "host \<Rightarrow> file_url \<Rightarrow> json \<Rightarrow> bool \<Rightarrow> plan_error + workspace_op list" where
  "plan_workspace_edit h fu edit track =
     and_then (parse_workspace_edit edit) (\<lambda>_.
     and_then (fold_throwing (plan_changes h fu track) empty_plan (changes_of edit)) (\<lambda>st1.
     and_then (fold_throwing (plan_document h fu track) st1 (enumerate_from_0 (document_changes_of edit))) (\<lambda>st2.
       Inr (ps_ops (foldl (\<lambda>st item. flush_uri h fu st (pd_uri item)) st2 (map snd (ps_pending st2)))))))"

subsection \<open>Merging the edits of several servers\<close>

definition ranges_overlap :: "text_edit \<Rightarrow> text_edit \<Rightarrow> bool" where
  "ranges_overlap a b \<longleftrightarrow>
     compare_position (te_start a) (te_end b) < 0 \<and> compare_position (te_start b) (te_end a) < 0"

definition flatten_push ::
  "host \<Rightarrow> file_url \<Rightarrow> (path, string \<times> text_edit list) js_map \<Rightarrow> string \<Rightarrow> text_edit list
     \<Rightarrow> (path, string \<times> text_edit list) js_map" where
  "flatten_push h fu buckets uri es =
     (if es = [] then buckets
      else
        let key = path_index_key h fu uri
        in case map_of buckets key of
             Some (u, old) \<Rightarrow> AList.update key (u, old @ es) buckets
           | None \<Rightarrow> AList.update key (uri, es) buckets)"

definition flatten_changes ::
  "host \<Rightarrow> file_url \<Rightarrow> (path, string \<times> text_edit list) js_map \<Rightarrow> string \<times> json
     \<Rightarrow> plan_error + (path, string \<times> text_edit list) js_map" where
  "flatten_changes h fu buckets entry =
     and_then (throwing_edits (Some (snd entry))) (\<lambda>es. Inr (flatten_push h fu buckets (fst entry) es))"

definition flatten_document ::
  "host \<Rightarrow> file_url \<Rightarrow> (path, string \<times> text_edit list) js_map \<Rightarrow> json
     \<Rightarrow> plan_error + (path, string \<times> text_edit list) js_map" where
  "flatten_document h fu buckets v =
     and_then (parse_text_document_edit v) (\<lambda>text.
       case text of Some (uri, _, es) \<Rightarrow> Inr (flatten_push h fu buckets uri es) | None \<Rightarrow> Inr buckets)"

text \<open>The buckets keyed again by the spelling of their first URI.\<close>

definition flatten_workspace_text_edits :: "host \<Rightarrow> file_url \<Rightarrow> json \<Rightarrow> plan_error + (string, text_edit list) js_map" where
  "flatten_workspace_text_edits h fu edit =
     and_then (parse_workspace_edit edit) (\<lambda>_.
     and_then (fold_throwing (flatten_changes h fu) [] (changes_of edit)) (\<lambda>b1.
     and_then (fold_throwing (flatten_document h fu) b1 (document_changes_of edit)) (\<lambda>b2.
       Inr (foldl (\<lambda>m (uri, es). AList.update uri es m) [] (map snd b2)))))"

record merge_edits_state =
  mw_merged :: "(path, string \<times> text_edit list) js_map"
  mw_seen :: "string list"
  mw_dropped :: nat
  mw_inputs :: nat

definition text_edit_key :: "path \<Rightarrow> text_edit \<Rightarrow> string" where
  "text_edit_key key e =
     join_with (CHR '':'')
       [key, decimal (fst (te_start e)), decimal (snd (te_start e)), decimal (fst (te_end e)),
        decimal (snd (te_end e)), te_text e]"

definition merge_one :: "path \<Rightarrow> merge_edits_state \<times> text_edit list \<Rightarrow> text_edit \<Rightarrow> merge_edits_state \<times> text_edit list" where
  "merge_one key acc e =
     (case acc of (st, kept) \<Rightarrow>
        let st1 = st\<lparr>mw_inputs := mw_inputs st + 1\<rparr>;
            exact = (if is_empty_range e then None else Some (text_edit_key key e))
        in if (case exact of Some k \<Rightarrow> k \<in> set (mw_seen st1) | None \<Rightarrow> False) then (st1, kept)
           else if list_ex (\<lambda>x. ranges_overlap x e) kept then (st1\<lparr>mw_dropped := mw_dropped st1 + 1\<rparr>, kept)
           else (case exact of None \<Rightarrow> st1 | Some k \<Rightarrow> st1\<lparr>mw_seen := k # mw_seen st1\<rparr>, kept @ [e]))"

definition merge_bucket :: "host \<Rightarrow> file_url \<Rightarrow> merge_edits_state \<Rightarrow> string \<times> text_edit list \<Rightarrow> merge_edits_state" where
  "merge_bucket h fu st entry =
     (case entry of (uri, es) \<Rightarrow>
        let key = path_index_key h fu uri;
            (u, old) = (case map_of (mw_merged st) key of Some b \<Rightarrow> b | None \<Rightarrow> (uri, []));
            (st', kept) = foldl (merge_one key) (st, old) es
        in if kept = [] then st' else st'\<lparr>mw_merged := AList.update key (u, kept) (mw_merged st')\<rparr>)"

definition merge_entry :: "host \<Rightarrow> file_url \<Rightarrow> merge_edits_state \<Rightarrow> string \<times> json option \<Rightarrow> plan_error + merge_edits_state" where
  "merge_entry h fu st entry =
     (case snd entry of
        None \<Rightarrow> Inr st
      | Some edit \<Rightarrow> and_then (flatten_workspace_text_edits h fu edit) (\<lambda>bs. Inr (foldl (merge_bucket h fu) st bs)))"

definition merge_workspace_text_edits_by_priority ::
  "host \<Rightarrow> file_url \<Rightarrow> (string \<times> json option) list
     \<Rightarrow> plan_error + ((string, text_edit list) js_map \<times> nat \<times> nat \<times> string list)" where
  "merge_workspace_text_edits_by_priority h fu entries =
     and_then (fold_throwing (merge_entry h fu) \<lparr>mw_merged = [], mw_seen = [], mw_dropped = 0, mw_inputs = 0\<rparr> entries)
       (\<lambda>st. Inr (foldl (\<lambda>m (uri, es). AList.update uri es m) [] (map snd (mw_merged st)),
         mw_dropped st, mw_inputs st, map fst entries))"

end
