(* ===== verification/Workspace_Plan_Order.thy ===== *)
theory Workspace_Plan_Order
  imports Workspace_Plan
begin

text \<open>
  The plan of a workspace edit: no edit is lost or reordered within its document, and text queued
  before a resource operation reaches the plan before it whenever the operation touches its path.
\<close>

subsection \<open>The descendant index\<close>

lemma index_at_update: "index_at (AList.update a v d) b = (if b = a then v else index_at d b)"
  by (simp add: index_at_def get_update)

lemma index_at_add:
  "index_at (foldl (\<lambda>d a. AList.update a (set_add key (index_at d a)) d) d as) b
     = (if b \<in> set as then set_add key (index_at d b) else index_at d b)"
  by (induction as arbitrary: d) (auto simp: index_at_update set_add_def)

lemma index_at_drop:
  "index_at (foldl (drop_descendant key) d as) b
     = (if b \<in> set as then filter (\<lambda>k. k \<noteq> key) (index_at d b) else index_at d b)"
proof (induction as arbitrary: d)
  case (Cons a as)
  have "index_at (drop_descendant key d a) b = (if b = a then filter (\<lambda>k. k \<noteq> key) (index_at d b) else index_at d b)" for b
    by (auto simp: drop_descendant_def index_at_def get_update split: option.splits)
  then show ?case using Cons.IH by auto
qed simp

abbreviation at_or_below :: "path \<Rightarrow> path \<Rightarrow> bool" where
  "at_or_below a k \<equiv> a \<in> set (ancestors_of k)"

lemma below_refl [simp]: "at_or_below k k"
  by (subst ancestors_of.simps) simp

definition index_ok :: "host \<Rightarrow> file_url \<Rightarrow> plan_state \<Rightarrow> bool" where
  "index_ok h fu st \<longleftrightarrow>
     wf_map (ps_pending st)
     \<and> (\<forall>a. index_at (ps_descendants st) a = filter (at_or_below a) (keys_of (ps_pending st)))
     \<and> (\<forall>k \<in> set (keys_of (ps_pending st)). map_of (ps_ancestors st) k = Some (ancestors_of k))
     \<and> (\<forall>k p. map_of (ps_pending st) k = Some p \<longrightarrow> path_index_key h fu (pd_uri p) = k)"

text \<open>Between the keys of absolute paths, the index relation is containment of directories.\<close>

lemma dropWhile_word: "SLASH \<notin> set s \<Longrightarrow> dropWhile (\<lambda>c. c \<noteq> SLASH) (s @ t) = dropWhile (\<lambda>c. c \<noteq> SLASH) t"
  by (induction s) auto

lemma dropWhile_no_slash: "s \<noteq> [] \<Longrightarrow> SLASH \<notin> set s \<Longrightarrow> dropWhile (\<lambda>c. c = SLASH) (s @ t) = s @ t"
  by (cases s) auto

lemma dirname_absolute:
  assumes "proper (ss @ [s])"
  shows "posix_dirname (absolute_path (ss @ [s]) False) = absolute_path ss False"
proof -
  have s: "rev s \<noteq> []" "SLASH \<notin> set (rev s)" using assms by (auto simp: proper_def)
  show ?thesis
  proof (cases "ss = []")
    case True
    have "dropWhile (\<lambda>c. c \<noteq> SLASH) (rev s @ []) = []" using dropWhile_word [OF s(2), of "[]"] by simp
    then have "up_to_name (absolute_path (ss @ [s]) False) = []"
      using dropWhile_no_slash [OF s, of "[]"] by (simp add: up_to_name_def absolute_path_def True)
    then show ?thesis by (simp add: posix_dirname_def absolute_path_def True)
  next
    case False
    then have j: "join_with SLASH (ss @ [s]) = join_with SLASH ss @ SLASH # s" by (simp add: join_append)
    have ne: "join_with SLASH ss \<noteq> []" using False assms by (cases ss; cases "tl ss") (auto simp: proper_def)
    have "up_to_name (absolute_path (ss @ [s]) False) = SLASH # rev (join_with SLASH ss)"
      using dropWhile_no_slash [OF s, of "SLASH # rev (join_with SLASH ss)"] dropWhile_word [OF s(2), of "SLASH # rev (join_with SLASH ss)"]
      by (simp add: up_to_name_def absolute_path_def j)
    then show ?thesis using ne by (simp add: posix_dirname_def absolute_path_def j)
  qed
qed

lemma absolute_inj:
  assumes "proper xs" "proper ys" "absolute_path xs False = absolute_path ys False"
  shows "xs = ys"
proof -
  have "(if xs = [] then [[]] else xs) = (if ys = [] then [[]] else ys)"
    using split_absolute [OF assms(1), of False] split_absolute [OF assms(2), of False]
    unfolding assms(3) by (simp split: if_splits)
  moreover have "[] \<notin> set xs" "[] \<notin> set ys" using assms(1,2) by (auto simp: proper_def)
  ultimately show ?thesis by (auto split: if_splits)
qed

lemma at_or_below_absolute:
  assumes "proper ts" "proper ss"
  shows "at_or_below (absolute_path ts False) (absolute_path ss False) \<longleftrightarrow> (\<exists>us. ss = ts @ us)"
  using assms(2)
proof (induction ss rule: rev_induct)
  case Nil
  have "posix_dirname [SLASH] = [SLASH]" by (simp add: posix_dirname_def up_to_name_def)
  then have "ancestors_of (absolute_path [] False) = [absolute_path [] False]"
    by (subst ancestors_of.simps) (simp add: absolute_path_def)
  then show ?case using absolute_inj [OF assms(1) Nil] by auto
next
  case (snoc s ss)
  then have p: "proper ss" by (simp add: proper_def)
  have "absolute_path ss False \<noteq> absolute_path (ss @ [s]) False" using absolute_inj [OF p snoc.prems] by auto
  then have "ancestors_of (absolute_path (ss @ [s]) False) = absolute_path (ss @ [s]) False # ancestors_of (absolute_path ss False)"
    by (subst ancestors_of.simps) (simp add: dirname_absolute [OF snoc.prems])
  then have "at_or_below (absolute_path ts False) (absolute_path (ss @ [s]) False) \<longleftrightarrow> ts = ss @ [s] \<or> (\<exists>us. ss = ts @ us)"
    using snoc.IH [OF p] absolute_inj [OF assms(1) snoc.prems] by auto
  also have "\<dots> \<longleftrightarrow> (\<exists>us. ss @ [s] = ts @ us)" by (auto simp: append_eq_append_conv2 Cons_eq_append_conv append_eq_Cons_conv)
  finally show ?case .
qed

subsection \<open>What a plan carries for a document\<close>

definition edits_at :: "host \<Rightarrow> file_url \<Rightarrow> path \<Rightarrow> workspace_op list \<Rightarrow> text_edit list" where
  "edits_at h fu k ops =
     concat (map (\<lambda>op. case op of Text_Op uri es _ _ \<Rightarrow> if path_index_key h fu uri = k then es else [] | _ \<Rightarrow> []) ops)"

definition resource_ops :: "workspace_op list \<Rightarrow> workspace_op list" where
  "resource_ops ops = filter (\<lambda>op. case op of Text_Op _ _ _ _ \<Rightarrow> False | _ \<Rightarrow> True) ops"

definition queued :: "host \<Rightarrow> file_url \<Rightarrow> path \<Rightarrow> plan_item list \<Rightarrow> text_edit list" where
  "queued h fu k items =
     concat (map (\<lambda>i. case i of Queue_Item uri es _ _ \<Rightarrow> if path_index_key h fu uri = k then es else [] | _ \<Rightarrow> []) items)"

definition resources :: "plan_item list \<Rightarrow> workspace_op list" where
  "resources items = concat (map (\<lambda>i. case i of Resource_Item op \<Rightarrow> [op] | _ \<Rightarrow> []) items)"

text \<open>The documents an operation concerns.\<close>

definition in_scope :: "host \<Rightarrow> file_url \<Rightarrow> workspace_op \<Rightarrow> path \<Rightarrow> bool" where
  "in_scope h fu op k =
     (case op of
        Create_Op uri _ \<Rightarrow> k = path_index_key h fu uri
      | Rename_Op old new _ \<Rightarrow> at_or_below (path_index_key h fu old) k \<or> at_or_below (path_index_key h fu new) k
      | Delete_Op uri _ \<Rightarrow> at_or_below (path_index_key h fu uri) k
      | Text_Op _ _ _ _ \<Rightarrow> False)"

lemma edits_at_append [simp]: "edits_at h fu k (xs @ ys) = edits_at h fu k xs @ edits_at h fu k ys"
  by (simp add: edits_at_def)

lemma resource_ops_append [simp]: "resource_ops (xs @ ys) = resource_ops xs @ resource_ops ys"
  by (simp add: resource_ops_def)

lemma queued_append [simp]: "queued h fu k (xs @ ys) = queued h fu k xs @ queued h fu k ys"
  by (simp add: queued_def)

lemma resources_append [simp]: "resources (xs @ ys) = resources xs @ resources ys"
  by (simp add: resources_def)

definition waiting :: "plan_state \<Rightarrow> path \<Rightarrow> text_edit list" where
  "waiting st k = (case map_of (ps_pending st) k of Some p \<Rightarrow> pd_edits p | None \<Rightarrow> [])"

definition carried :: "host \<Rightarrow> file_url \<Rightarrow> plan_state \<Rightarrow> path \<Rightarrow> text_edit list" where
  "carried h fu st k = edits_at h fu k (ps_ops st) @ waiting st k"

text \<open>A flush moves text from the queue into the plan and takes documents off the queue.\<close>

definition flushes :: "host \<Rightarrow> file_url \<Rightarrow> (path \<Rightarrow> bool) \<Rightarrow> plan_state \<Rightarrow> plan_state \<Rightarrow> bool" where
  "flushes h fu gone st st' \<longleftrightarrow>
     index_ok h fu st' \<and> (\<forall>k. carried h fu st' k = carried h fu st k)
     \<and> resource_ops (ps_ops st') = resource_ops (ps_ops st)
     \<and> keys_of (ps_pending st') = filter (\<lambda>k. \<not> gone k) (keys_of (ps_pending st))
     \<and> ps_seen st' = ps_seen st \<and> (\<exists>new. ps_ops st' = ps_ops st @ new)"

lemma flushes_refl: "index_ok h fu st \<Longrightarrow> \<forall>k \<in> set (keys_of (ps_pending st)). \<not> gone k \<Longrightarrow> flushes h fu gone st st"
  unfolding flushes_def by (auto simp: filter_id_conv)

lemma flushes_trans:
  assumes "flushes h fu g st st'" "flushes h fu g' st' st''"
  shows "flushes h fu (\<lambda>k. g k \<or> g' k) st st''"
  using assms unfolding flushes_def by (auto simp: conj_commute)

lemma flush_uri_flushes:
  assumes ok: "index_ok h fu st"
  shows "flushes h fu (\<lambda>k. k = path_index_key h fu uri) st (flush_uri h fu st uri)"
proof (cases "map_of (ps_pending st) (path_index_key h fu uri)")
  case None
  then have "path_index_key h fu uri \<notin> set (keys_of (ps_pending st))" by (simp add: map_of_eq_None_iff)
  then show ?thesis using None ok by (auto simp: flush_uri_def intro!: flushes_refl)
next
  case (Some item)
  let ?k = "path_index_key h fu uri"
  let ?p = "AList.delete ?k (ps_pending st)"
  let ?st = "flush_uri h fu st uri"
  have w: "wf_map (ps_pending st)" and ix: "\<And>a. index_at (ps_descendants st) a = filter (at_or_below a) (keys_of (ps_pending st))"
    and an: "\<And>k. k \<in> set (keys_of (ps_pending st)) \<Longrightarrow> map_of (ps_ancestors st) k = Some (ancestors_of k)"
    and ky: "\<And>k p. map_of (ps_pending st) k = Some p \<Longrightarrow> path_index_key h fu (pd_uri p) = k"
    using ok unfolding index_ok_def by blast+
  have mem: "?k \<in> set (keys_of (ps_pending st))" using Some by (force dest: map_of_SomeD)
  have anc: "index_at (ps_ancestors st) ?k = ancestors_of ?k" using an [OF mem] by (simp add: index_at_def)
  have f: "ps_pending ?st = ?p" "ps_seen ?st = ps_seen st"
      "ps_ops ?st = ps_ops st @ [Text_Op (pd_uri item) (pd_edits item) (pd_version item) (pd_origins item)]"
      "ps_ancestors ?st = AList.delete ?k (ps_ancestors st)"
      "ps_descendants ?st = foldl (drop_descendant ?k) (ps_descendants st) (ancestors_of ?k)"
    using Some anc by (simp_all add: flush_uri_def remove_index_def Let_def)
  have keys: "keys_of ?p = filter (\<lambda>x. x \<noteq> ?k) (keys_of (ps_pending st))" by (rule keys_delete)
  have "index_at (ps_descendants ?st) a = filter (at_or_below a) (keys_of ?p)" for a
    unfolding f keys by (auto simp: index_at_drop ix intro: filter_cong)
  then have "index_ok h fu ?st"
    using w an ky unfolding index_ok_def f(1) f(4) by (auto simp: get_delete keys)
  moreover have "carried h fu ?st k = carried h fu st k" for k
    using Some ky [OF Some] by (auto simp: carried_def waiting_def f edits_at_def get_delete)
  ultimately show ?thesis unfolding flushes_def f keys by (simp add: resource_ops_def)
qed

lemma flush_candidate_flushes:
  assumes ok: "index_ok h fu st"
  shows "flushes h fu (\<lambda>k. k = c) st (flush_candidate h fu st c)"
proof (cases "map_of (ps_pending st) c")
  case None
  then have "c \<notin> set (keys_of (ps_pending st))" by (simp add: map_of_eq_None_iff)
  then show ?thesis using None ok by (auto simp: flush_candidate_def intro!: flushes_refl)
next
  case (Some item)
  then have "path_index_key h fu (pd_uri item) = c" using ok by (simp add: index_ok_def)
  then show ?thesis using flush_uri_flushes [OF ok, of "pd_uri item"] Some by (simp add: flush_candidate_def)
qed

lemma flush_candidates:
  "index_ok h fu st \<Longrightarrow> flushes h fu (\<lambda>k. k \<in> set cs) st (foldl (flush_candidate h fu) st cs)"
proof (induction cs arbitrary: st)
  case Nil
  then show ?case by (auto intro: flushes_refl)
next
  case (Cons c cs)
  note one = flush_candidate_flushes [OF Cons.prems, of c]
  then have "index_ok h fu (flush_candidate h fu st c)" by (simp add: flushes_def)
  from flushes_trans [OF one Cons.IH [OF this]] show ?case by simp
qed

lemma flushes_cong:
  assumes "flushes h fu g st st'" "\<And>k. k \<in> set (keys_of (ps_pending st)) \<Longrightarrow> g k \<longleftrightarrow> g' k"
  shows "flushes h fu g' st st'"
proof -
  have "filter (\<lambda>k. \<not> g k) (keys_of (ps_pending st)) = filter (\<lambda>k. \<not> g' k) (keys_of (ps_pending st))"
    using assms(2) by (intro filter_cong) auto
  then show ?thesis using assms(1) by (simp add: flushes_def)
qed

lemma flush_subtree_flushes:
  assumes ok: "index_ok h fu st"
  shows "flushes h fu (at_or_below (path_index_key h fu uri)) st (flush_subtree h fu st uri)"
proof -
  have "index_at (ps_descendants st) (path_index_key h fu uri)
      = filter (at_or_below (path_index_key h fu uri)) (keys_of (ps_pending st))"
    using ok by (simp add: index_ok_def)
  then show ?thesis
    unfolding flush_subtree_def by (intro flushes_cong [OF flush_candidates [OF ok]]) simp
qed

lemma flush_for_flushes:
  assumes ok: "index_ok h fu st"
  shows "flushes h fu (in_scope h fu op) st (flush_for h fu op st)"
proof (cases op)
  case (Rename_Op old new opts)
  note one = flush_subtree_flushes [OF ok, of old]
  then have "index_ok h fu (flush_subtree h fu st old)" by (simp add: flushes_def)
  from flushes_trans [OF one flush_subtree_flushes [OF this, of new]]
  moreover have "in_scope h fu op = (\<lambda>k. at_or_below (path_index_key h fu old) k \<or> at_or_below (path_index_key h fu new) k)"
    by (auto simp: fun_eq_iff in_scope_def Rename_Op)
  ultimately show ?thesis by (simp add: flush_for_def Rename_Op)
next
  case (Create_Op uri opts)
  have "in_scope h fu op = (\<lambda>k. k = path_index_key h fu uri)" by (simp add: fun_eq_iff in_scope_def Create_Op)
  then show ?thesis using flush_uri_flushes [OF ok, of uri] by (simp add: flush_for_def Create_Op)
next
  case (Delete_Op uri opts)
  have "in_scope h fu op = at_or_below (path_index_key h fu uri)" by (simp add: fun_eq_iff in_scope_def Delete_Op)
  then show ?thesis using flush_subtree_flushes [OF ok, of uri] by (simp add: flush_for_def Delete_Op)
next
  case (Text_Op uri es version origins)
  have "in_scope h fu op = (\<lambda>_. False)" by (simp add: fun_eq_iff in_scope_def Text_Op)
  then show ?thesis using flushes_refl [OF ok] by (simp add: flush_for_def Text_Op)
qed

subsection \<open>One entry\<close>

lemma queue_edits_effect:
  assumes ok: "index_ok h fu st" and q: "queue_edits h fu uri es version origin st = Inr st'"
  shows "index_ok h fu st' \<and> ps_ops st' = ps_ops st
    \<and> (\<forall>k. waiting st' k = waiting st k @ (if path_index_key h fu uri = k then es else []))"
proof -
  let ?k = "path_index_key h fu uri"
  have w: "wf_map (ps_pending st)" and ix: "\<And>a. index_at (ps_descendants st) a = filter (at_or_below a) (keys_of (ps_pending st))"
    and an: "\<And>k. k \<in> set (keys_of (ps_pending st)) \<Longrightarrow> map_of (ps_ancestors st) k = Some (ancestors_of k)"
    and ky: "\<And>k p. map_of (ps_pending st) k = Some p \<Longrightarrow> path_index_key h fu (pd_uri p) = k"
    using ok unfolding index_ok_def by blast+
  show ?thesis
  proof (cases "map_of (ps_pending st) ?k")
    case (Some ex)
    then have mem: "?k \<in> set (keys_of (ps_pending st))" by (force dest: map_of_SomeD)
    have st': "st' = st\<lparr>ps_pending := AList.update ?k (extend_pending ex es version origin) (ps_pending st)\<rparr>"
      using q Some by (auto simp: queue_edits_def Let_def split: if_splits)
    have ext: "pd_uri (extend_pending ex es version origin) = pd_uri ex"
        "pd_edits (extend_pending ex es version origin) = pd_edits ex @ es"
      by (simp_all add: extend_pending_def)
    have keys: "keys_of (ps_pending st') = keys_of (ps_pending st)" using mem by (simp add: st' keys_update)
    have "index_ok h fu st'"
      unfolding index_ok_def keys using w ix an ky [OF Some] ky by (auto simp: st' get_update ext)
    then show ?thesis using Some by (auto simp: st' waiting_def get_update ext)
  next
    case None
    then have new: "?k \<notin> set (keys_of (ps_pending st))" by (simp add: map_of_eq_None_iff)
    obtain p where p: "pd_uri p = uri" "pd_edits p = es"
      and st': "st' = add_index ?k (st\<lparr>ps_pending := AList.update ?k p (ps_pending st)\<rparr>)"
      by (rule that [of "\<lparr>pd_uri = uri, pd_edits = es, pd_version = version,
        pd_origins = (case origin of None \<Rightarrow> None | Some org \<Rightarrow> Some [org])\<rparr>"])
        (use q None in \<open>simp_all add: queue_edits_def Let_def\<close>)
    have f: "ps_pending st' = AList.update ?k p (ps_pending st)" "ps_ops st' = ps_ops st"
        "ps_ancestors st' = AList.update ?k (ancestors_of ?k) (ps_ancestors st)"
        "ps_descendants st' = foldl (\<lambda>d a. AList.update a (set_add ?k (index_at d a)) d) (ps_descendants st) (ancestors_of ?k)"
      by (simp_all add: st' add_index_def)
    have keys: "keys_of (ps_pending st') = keys_of (ps_pending st) @ [?k]" using new by (simp add: f keys_update)
    have "index_at (ps_descendants st') a = filter (at_or_below a) (keys_of (ps_pending st'))" for a
      unfolding keys f(4) index_at_add using new by (auto simp: ix set_add_def)
    moreover have "wf_map (ps_pending st')" using w by (simp add: f)
    ultimately have "index_ok h fu st'"
      using an ky p unfolding index_ok_def keys by (auto simp: f get_update)
    then show ?thesis using None p by (auto simp: f waiting_def get_update)
  qed
qed

lemma plan_resource_effect:
  assumes ok: "index_ok h fu st" and r: "plan_resource h fu op st = Inr st'"
  shows "\<exists>st1. flushes h fu (in_scope h fu op) (st\<lparr>ps_seen := resource_key h fu op # ps_seen st\<rparr>) st1
    \<and> st' = st1\<lparr>ps_ops := ps_ops st1 @ [op]\<rparr>"
proof -
  have "index_ok h fu (st\<lparr>ps_seen := resource_key h fu op # ps_seen st\<rparr>)" using ok by (simp add: index_ok_def)
  from flush_for_flushes [OF this] show ?thesis using r by (auto simp: plan_resource_def Let_def split: if_splits)
qed

definition is_resource :: "workspace_op \<Rightarrow> bool" where
  "is_resource op = (case op of Text_Op _ _ _ _ \<Rightarrow> False | _ \<Rightarrow> True)"

definition proper_item :: "plan_item \<Rightarrow> bool" where
  "proper_item i = (case i of Resource_Item op \<Rightarrow> is_resource op | _ \<Rightarrow> True)"

lemma is_resource_ops [simp]: "is_resource op \<Longrightarrow> resource_ops [op] = [op]"
  "is_resource op \<Longrightarrow> edits_at h fu k [op] = []"
  by (cases op; simp add: is_resource_def resource_ops_def edits_at_def)+

lemma waiting_gone: "k \<notin> set (keys_of (ps_pending st)) \<Longrightarrow> waiting st k = []"
  by (simp add: waiting_def split: option.splits) (metis domI dom_map_of_conv_image_fst image_set)

lemma resource_step:
  assumes ok: "index_ok h fu st" and r: "plan_resource h fu op st = Inr st'" and res: "is_resource op"
  shows "index_ok h fu st' \<and> carried h fu st' k = carried h fu st k
    \<and> (\<exists>pre. ps_ops st' = pre @ [op] \<and> resource_ops pre = resource_ops (ps_ops st)
         \<and> (\<exists>new. pre = ps_ops st @ new)
         \<and> (in_scope h fu op k \<longrightarrow> edits_at h fu k pre = carried h fu st k))"
proof -
  obtain st1 where fl: "flushes h fu (in_scope h fu op) (st\<lparr>ps_seen := resource_key h fu op # ps_seen st\<rparr>) st1"
      and st': "st' = st1\<lparr>ps_ops := ps_ops st1 @ [op]\<rparr>"
    using plan_resource_effect [OF ok r] by blast
  have car: "carried h fu st1 k = carried h fu st k" and ok1: "index_ok h fu st1"
    using fl by (simp_all add: flushes_def carried_def waiting_def)
  have "waiting st1 k = []" if "in_scope h fu op k"
    by (rule waiting_gone) (use fl that in \<open>simp add: flushes_def\<close>)
  then have "in_scope h fu op k \<longrightarrow> edits_at h fu k (ps_ops st1) = carried h fu st k"
    using car by (auto simp: carried_def)
  moreover have "index_ok h fu st'" using ok1 by (simp add: st' index_ok_def)
  moreover have "carried h fu st' k = carried h fu st k" using car res by (simp add: st' carried_def waiting_def)
  ultimately show ?thesis using fl by (simp add: st' flushes_def)
qed

lemma item_step:
  assumes ok: "index_ok h fu st" and i: "plan_entry h fu st item = Inr st'" and pr: "proper_item item"
  shows "index_ok h fu st' \<and> carried h fu st' k = carried h fu st k @ queued h fu k [item]
    \<and> resource_ops (ps_ops st') = resource_ops (ps_ops st) @ resources [item] \<and> (\<exists>new. ps_ops st' = ps_ops st @ new)"
proof (cases item)
  case (Queue_Item uri es version origin)
  then have "queue_edits h fu uri es version origin st = Inr st'" using i by (simp add: plan_entry_def)
  from queue_edits_effect [OF ok this] show ?thesis
    by (simp add: Queue_Item queued_def resources_def carried_def)
next
  case (Resource_Item op)
  then have "plan_resource h fu op st = Inr st'" "is_resource op" using i pr by (simp_all add: plan_entry_def proper_item_def)
  with resource_step [OF ok this, of k] show ?thesis by (auto simp: Resource_Item queued_def resources_def)
qed

lemma steps:
  assumes "index_ok h fu st" "fold_throwing (plan_entry h fu) st items = Inr st'" "\<forall>i \<in> set items. proper_item i"
  shows "index_ok h fu st' \<and> carried h fu st' k = carried h fu st k @ queued h fu k items
    \<and> resource_ops (ps_ops st') = resource_ops (ps_ops st) @ resources items \<and> (\<exists>new. ps_ops st' = ps_ops st @ new)"
  using assms
proof (induction items arbitrary: st)
  case (Cons i items)
  then obtain st1 where s: "plan_entry h fu st i = Inr st1" "fold_throwing (plan_entry h fu) st1 items = Inr st'"
    by (auto simp: and_then_Inr)
  note one = item_step [OF Cons.prems(1) s(1), of k]
  have "index_ok h fu st1" using one Cons.prems(3) by simp
  from Cons.IH [OF this s(2)] show ?case using one Cons.prems(3)
    by (auto simp: queued_append [of h fu k "[i]" items, simplified] resources_append [of "[i]" items, simplified])
qed (simp add: queued_def resources_def)

subsection \<open>The whole plan\<close>

lemma fold_decoded:
  "fold_throwing (\<lambda>st x. and_then (d x) (g st)) st xs = Inr st' \<Longrightarrow>
     \<exists>ys. collect d xs = Inr ys \<and> fold_throwing g st ys = Inr st'"
  by (induction xs arbitrary: st) (fastforce simp: and_then_Inr)+

lemma fold_throwing_append:
  "fold_throwing f st (xs @ ys) = and_then (fold_throwing f st xs) (\<lambda>s. fold_throwing f s ys)"
proof (induction xs arbitrary: st)
  case (Cons x xs)
  then show ?case by (cases "f st x") simp_all
qed simp

lemma collect_all: "collect d xs = Inr ys \<Longrightarrow> \<forall>x b. d x = Inr b \<longrightarrow> P b \<Longrightarrow> \<forall>y \<in> set ys. P y"
  by (induction xs arbitrary: ys) (auto simp: and_then_Inr)

lemma parse_resource_is_resource: "parse_resource v = Inr op \<Longrightarrow> is_resource op"
  by (auto simp: parse_resource_def and_then_Inr is_resource_def split: option.splits json.splits if_splits)

lemma decoded_proper:
  "decode_changes track x = Inr i \<Longrightarrow> proper_item i" "decode_document track y = Inr i \<Longrightarrow> proper_item i"
  by (auto simp: decode_changes_def decode_document_def proper_item_def and_then_Inr parse_resource_is_resource
      split: prod.splits option.splits)

lemma empty_plan_ok: "index_ok h fu empty_plan"
  by (simp add: index_ok_def empty_plan_def index_at_def)

text \<open>A plan is a run over the entries followed by a flush of everything still queued.\<close>

lemma plan_is_run:
  assumes "plan_workspace_edit h fu edit track = Inr ops"
  obtains items st where "workspace_items edit track = Inr items" "\<forall>i \<in> set items. proper_item i"
    "fold_throwing (plan_entry h fu) empty_plan items = Inr st"
    "ops = ps_ops (foldl (\<lambda>st item. flush_uri h fu st (pd_uri item)) st (map snd (ps_pending st)))"
proof -
  obtain st1 st2 where s: "fold_throwing (plan_changes h fu track) empty_plan (changes_of edit) = Inr st1"
      "fold_throwing (plan_document h fu track) st1 (enumerate_from_0 (document_changes_of edit)) = Inr st2"
      "ops = ps_ops (foldl (\<lambda>st item. flush_uri h fu st (pd_uri item)) st2 (map snd (ps_pending st2)))"
    using assms by (auto simp: plan_workspace_edit_def and_then_Inr)
  obtain xs where xs: "collect (decode_changes track) (changes_of edit) = Inr xs"
      "fold_throwing (plan_entry h fu) empty_plan xs = Inr st1"
    using fold_decoded [OF s(1) [unfolded plan_changes_def]] by blast
  obtain ys where ys: "collect (decode_document track) (enumerate_from_0 (document_changes_of edit)) = Inr ys"
      "fold_throwing (plan_entry h fu) st1 ys = Inr st2"
    using fold_decoded [OF s(2) [unfolded plan_document_def]] by blast
  have "\<forall>i \<in> set (xs @ ys). proper_item i"
    using collect_all [OF xs(1)] collect_all [OF ys(1)] decoded_proper by (metis Un_iff set_append)
  with that [of "xs @ ys" st2] xs ys s(3) show thesis
    by (simp add: workspace_items_def fold_throwing_append)
qed

lemma flush_all:
  assumes "index_ok h fu st" "\<forall>(k, p) \<in> set ps. path_index_key h fu (pd_uri p) = k"
  shows "flushes h fu (\<lambda>k. k \<in> set (keys_of ps)) st (foldl (\<lambda>st item. flush_uri h fu st (pd_uri item)) st (map snd ps))"
  using assms
proof (induction ps arbitrary: st)
  case Nil
  then show ?case by (auto intro: flushes_refl)
next
  case (Cons e ps)
  obtain k p where e: "e = (k, p)" by (cases e)
  have one: "flushes h fu (\<lambda>x. x = k) st (flush_uri h fu st (pd_uri p))"
    using flush_uri_flushes [OF Cons.prems(1), of "pd_uri p"] Cons.prems(2) e by simp
  then have "index_ok h fu (flush_uri h fu st (pd_uri p))" by (simp add: flushes_def)
  then have "flushes h fu (\<lambda>k. k \<in> set (keys_of ps)) (flush_uri h fu st (pd_uri p))
      (foldl (\<lambda>st item. flush_uri h fu st (pd_uri item)) (flush_uri h fu st (pd_uri p)) (map snd ps))"
    using Cons.IH Cons.prems(2) by simp
  from flushes_trans [OF one this] show ?case by (simp add: e)
qed

lemma final_flush:
  assumes ok: "index_ok h fu st" and ops: "ops = ps_ops (foldl (\<lambda>st item. flush_uri h fu st (pd_uri item)) st (map snd (ps_pending st)))"
  shows "edits_at h fu k ops = carried h fu st k \<and> resource_ops ops = resource_ops (ps_ops st) \<and> (\<exists>new. ops = ps_ops st @ new)"
proof -
  let ?st = "foldl (\<lambda>st item. flush_uri h fu st (pd_uri item)) st (map snd (ps_pending st))"
  have w: "wf_map (ps_pending st)" using ok by (simp add: index_ok_def)
  have "\<forall>(k, p) \<in> set (ps_pending st). path_index_key h fu (pd_uri p) = k"
    using ok map_of_is_SomeI [OF w] by (fastforce simp: index_ok_def)
  from flush_all [OF ok this] have fl: "flushes h fu (\<lambda>k. k \<in> set (keys_of (ps_pending st))) st ?st" .
  then have "keys_of (ps_pending ?st) = []" by (simp add: flushes_def filter_empty_conv)
  then have "waiting ?st k = []" by (intro waiting_gone) simp
  then have "edits_at h fu k ops = carried h fu ?st k" by (simp add: ops carried_def)
  then show ?thesis using fl by (simp add: ops flushes_def)
qed

text \<open>C28 (a plan keeps every edit).  When a workspace edit can be planned, the text operations of
  the plan carry, for every document, exactly the edits all its entries name for that document
  (at_or_below whichever spelling of its URI), in the order they were given; the resource operations are
  those of the edit, in their order.\<close>
theorem plan_keeps_every_edit:
  assumes "plan_workspace_edit h fu edit track = Inr ops" "workspace_items edit track = Inr items"
  shows "edits_at h fu k ops = queued h fu k items \<and> resource_ops ops = resources items"
proof (rule plan_is_run [OF assms(1)])
  fix its st
  assume r: "workspace_items edit track = Inr its" "\<forall>i \<in> set its. proper_item i"
    "fold_throwing (plan_entry h fu) empty_plan its = Inr st"
    "ops = ps_ops (foldl (\<lambda>st item. flush_uri h fu st (pd_uri item)) st (map snd (ps_pending st)))"
  note st = steps [OF empty_plan_ok r(3) r(2), of k]
  have "edits_at h fu k ops = carried h fu st k" "resource_ops ops = resource_ops (ps_ops st)"
    using final_flush [of h fu st ops k] st r(4) by blast+
  then show ?thesis using st r(1) assms(2)
    by (simp add: carried_def empty_plan_def waiting_def edits_at_def resource_ops_def)
qed

text \<open>C29 (text is planned on its side of a resource operation).  Split the entries of a planned
  edit at a resource operation: in the plan, the same resource operations precede it, and of every
  document the operation touches (the created file, or anything at or below the paths it renames or
  deletes) the text given before it is applied before it and the text given after it is applied
  after it.\<close>
theorem text_stays_on_its_side:
  assumes "plan_workspace_edit h fu edit track = Inr ops"
    and "workspace_items edit track = Inr (xs @ Resource_Item op # ys)"
  shows "\<exists>pre post. ops = pre @ op # post \<and> resource_ops pre = resources xs
    \<and> (\<forall>k. in_scope h fu op k \<longrightarrow> edits_at h fu k pre = queued h fu k xs \<and> edits_at h fu k post = queued h fu k ys)"
proof (rule plan_is_run [OF assms(1)])
  fix its st
  assume r: "workspace_items edit track = Inr its" "\<forall>i \<in> set its. proper_item i"
    "fold_throwing (plan_entry h fu) empty_plan its = Inr st"
    "ops = ps_ops (foldl (\<lambda>st item. flush_uri h fu st (pd_uri item)) st (map snd (ps_pending st)))"
  have its: "its = xs @ Resource_Item op # ys" using r(1) assms(2) by simp
  obtain st1 st2 where run: "fold_throwing (plan_entry h fu) empty_plan xs = Inr st1"
      "plan_resource h fu op st1 = Inr st2" "fold_throwing (plan_entry h fu) st2 ys = Inr st"
    using r(3) by (auto simp: its fold_throwing_append and_then_Inr plan_entry_def)
  have pr: "\<forall>i \<in> set xs. proper_item i" "\<forall>i \<in> set ys. proper_item i" "is_resource op"
    using r(2) by (auto simp: its proper_item_def)
  note a = steps [OF empty_plan_ok run(1) pr(1)]
  then have ok1: "index_ok h fu st1" by blast
  note b = resource_step [OF ok1 run(2) pr(3)]
  then have ok2: "index_ok h fu st2" by blast
  note c = steps [OF ok2 run(3) pr(2)]
  then have ok3: "index_ok h fu st" by blast
  note d = final_flush [OF ok3 r(4)]
  have car1: "carried h fu st1 k = queued h fu k xs" for k
    using a [of k] by (simp add: carried_def empty_plan_def waiting_def edits_at_def)
  obtain pre where pre: "ps_ops st2 = pre @ [op]" "resource_ops pre = resource_ops (ps_ops st1)"
    using b by blast
  have side: "edits_at h fu k pre = queued h fu k xs" if "in_scope h fu op k" for k
    using b [of k] pre(1) that car1 by auto
  obtain post where post: "ops = pre @ op # post" using c d pre(1) by force
  have "edits_at h fu k post = queued h fu k ys" if "in_scope h fu op k" for k
  proof -
    have "edits_at h fu k ops = queued h fu k xs @ queued h fu k ys"
      using d [of k] c [of k] b [of k] car1 by simp
    moreover have "edits_at h fu k ops = edits_at h fu k pre @ edits_at h fu k [op] @ edits_at h fu k post"
      by (simp add: post flip: edits_at_append)
    ultimately show ?thesis using side [OF that] pr(3) by simp
  qed
  moreover have "resource_ops pre = resources xs" using pre(2) a [of undefined] by (simp add: empty_plan_def resource_ops_def)
  ultimately show ?thesis using post side by blast
qed

subsection \<open>A concrete edit\<close>

definition sample_file_url :: file_url where
  "sample_file_url uri = (if starts_with uri ''file://'' then Some (drop 7 uri) else None)"

definition sample_position :: "nat \<Rightarrow> nat \<Rightarrow> json" where
  "sample_position l c = JObj [(''line'', JNum (Fin (of_nat l))), (''character'', JNum (Fin (of_nat c)))]"

definition sample_insert :: "nat \<Rightarrow> nat \<Rightarrow> string \<Rightarrow> json" where
  "sample_insert l c t =
     JObj [(''range'', JObj [(''start'', sample_position l c), (''end'', sample_position l c)]), (''newText'', JStr t)]"

definition sample_document :: "string \<Rightarrow> json \<Rightarrow> json" where
  "sample_document uri e =
     JObj [(''textDocument'', JObj [(''uri'', JStr uri), (''version'', JNull)]), (''edits'', JArr [e])]"

definition sample_edit :: json where
  "sample_edit = JObj
     [(''changes'', JObj [(''file:///w/src/a.ts'', JArr [sample_insert 0 0 ''A''])]),
      (''documentChanges'', JArr
        [sample_document ''file:///w/src/./a.ts'' (sample_insert 1 2 ''B''),
         JObj [(''kind'', JStr ''rename''), (''oldUri'', JStr ''file:///w/src''), (''newUri'', JStr ''file:///w/lib'')],
         sample_document ''file:///w/lib/a.ts'' (sample_insert 0 0 ''C'')])]"

definition insert_at :: "nat \<Rightarrow> nat \<Rightarrow> string \<Rightarrow> text_edit" where
  "insert_at l c t = \<lparr>te_start = (l, c), te_end = (l, c), te_text = t\<rparr>"

definition sample_before :: "plan_item list" where
  "sample_before = [Queue_Item ''file:///w/src/a.ts'' [insert_at 0 0 ''A''] No_Version None,
     Queue_Item ''file:///w/src/./a.ts'' [insert_at 1 2 ''B''] Null_Version None]"

definition sample_after :: "plan_item list" where
  "sample_after = [Queue_Item ''file:///w/lib/a.ts'' [insert_at 0 0 ''C''] Null_Version None]"

definition sample_plan :: "workspace_op list" where
  "sample_plan = [Text_Op ''file:///w/src/a.ts'' [insert_at 0 0 ''A'', insert_at 1 2 ''B''] No_Version None,
     Rename_Op ''file:///w/src'' ''file:///w/lib'' None,
     Text_Op ''file:///w/lib/a.ts'' [insert_at 0 0 ''C''] Null_Version None]"

lemma sample_plans:
  "plan_workspace_edit sample_host sample_file_url sample_edit False = Inr sample_plan"
  "workspace_items sample_edit False
     = Inr (sample_before @ Resource_Item (Rename_Op ''file:///w/src'' ''file:///w/lib'' None) # sample_after)"
  by code_simp+

lemma sample_scope:
  "in_scope sample_host sample_file_url (Rename_Op ''file:///w/src'' ''file:///w/lib'' None) ''/w/src/a.ts''"
  by code_simp

lemma plan_keeps_every_edit_witness:
  "edits_at sample_host sample_file_url ''/w/src/a.ts'' sample_plan
     = queued sample_host sample_file_url ''/w/src/a.ts''
         (sample_before @ Resource_Item (Rename_Op ''file:///w/src'' ''file:///w/lib'' None) # sample_after)"
  using plan_keeps_every_edit [OF sample_plans] by blast

lemma text_stays_on_its_side_witness:
  "\<exists>pre post. sample_plan = pre @ Rename_Op ''file:///w/src'' ''file:///w/lib'' None # post
     \<and> edits_at sample_host sample_file_url ''/w/src/a.ts'' pre
         = queued sample_host sample_file_url ''/w/src/a.ts'' sample_before"
  using text_stays_on_its_side [OF sample_plans] sample_scope by blast

subsection \<open>Colliding resource keys\<close>

text \<open>
  The key of the duplicate test joins its paths with a colon, which POSIX file names may hold: two
  different renames are taken for the same one and the edit is refused.
\<close>

definition colliding_renames :: "json list" where
  "colliding_renames =
     [JObj [(''kind'', JStr ''rename''), (''oldUri'', JStr ''/x''), (''newUri'', JStr ''/y:/z'')],
      JObj [(''kind'', JStr ''rename''), (''oldUri'', JStr ''/x:/y''), (''newUri'', JStr ''/z'')]]"

lemma different_renames_are_refused:
  "plan_workspace_edit sample_host sample_file_url (JObj [(''documentChanges'', JArr colliding_renames)]) False
     = Inl (Duplicate_Resource ''rename:/x:/y:/z'')"
  by code_simp

end
