(* ===== verification/Text_Edits_Meaning.thy ===== *)
theory Text_Edits_Meaning
  imports Text_Edits
begin

text \<open>
  What applying edits means: every edit takes effect at the place its range names in the original
  document, all at once; edits that would overlap are refused.
\<close>

subsection \<open>The order of positions\<close>

lemma compare_position_iff:
  "compare_position a b < 0 \<longleftrightarrow> a < b" "compare_position a b = 0 \<longleftrightarrow> a = b"
  "compare_position a b \<le> 0 \<longleftrightarrow> a \<le> b" "compare_position a b > 0 \<longleftrightarrow> b < a"
  by (cases a; cases b; auto simp: compare_position_def less_prod_def less_eq_prod_def)+

abbreviation place :: "text_edit \<Rightarrow> lsp_position \<times> lsp_position" where
  "place e \<equiv> (te_start e, te_end e)"

text \<open>The edits in document order, those at one place in the order of the list.\<close>

definition in_document_order :: "text_edit list \<Rightarrow> text_edit list" where
  "in_document_order es = sort_key place es"

fun insert_desc :: "text_edit \<Rightarrow> text_edit list \<Rightarrow> text_edit list" where
  "insert_desc e [] = [e]"
| "insert_desc e (y # ys) = (if place y < place e then e # y # ys else y # insert_desc e ys)"

lemma insert_desc_end: "\<forall>y \<in> set ys. \<not> place y < place e \<Longrightarrow> insert_desc e ys = ys @ [e]"
  by (induction ys) auto

lemma insert_desc_snoc: "place y < place e \<Longrightarrow> insert_desc e (ys @ [y]) = insert_desc e ys @ [y]"
  by (induction ys) auto

lemma insert_desc_rev: "sorted (map place ys) \<Longrightarrow> insert_desc e (rev ys) = rev (insort_key place e ys)"
proof (induction ys)
  case (Cons y ys)
  show ?case
  proof (cases "place e \<le> place y")
    case True
    then have "\<forall>z \<in> set (rev (y # ys)). \<not> place z < place e"
      using Cons.prems by (auto simp: not_less intro: order_trans)
    from insert_desc_end [OF this] show ?thesis using True by simp
  next
    case False
    then have lt: "place y < place e" by (simp only: not_le)
    have "insert_desc e (rev ys) = rev (insort_key place e ys)" using Cons by simp
    then show ?thesis
      using insert_desc_snoc [OF lt, of "rev ys"] False by (simp only: rev.simps insort_key.simps if_False)
  qed
qed simp

lemma application_order_le:
  "k < snd y \<Longrightarrow> application_order (e, k) y \<le> 0 \<longleftrightarrow> place (fst y) < place e"
proof -
  assume k: "k < snd y"
  let ?s = "compare_position (te_start (fst y)) (te_start e)" and ?t = "compare_position (te_end (fst y)) (te_end e)"
  have "place (fst y) < place e \<longleftrightarrow> te_start (fst y) < te_start e \<or> (te_start (fst y) = te_start e \<and> te_end (fst y) < te_end e)"
    by (auto simp: less_prod_def [of "place (fst y)"])
  also have "\<dots> \<longleftrightarrow> ?s < 0 \<or> (?s = 0 \<and> ?t < 0)" by (simp add: compare_position_iff)
  finally show ?thesis using k by (auto simp: application_order_def Let_def)
qed

lemma insert_application:
  "\<forall>y \<in> set zs. k < snd y \<Longrightarrow> map fst (insert_by application_order (e, k) zs) = insert_desc e (map fst zs)"
  by (induction zs) (auto simp: application_order_le)

lemma set_insert_by: "set (insert_by cmp x ys) = insert x (set ys)"
  by (induction ys) auto

lemma set_sort_by: "set (sort_by cmp xs) = set xs"
  by (induction xs) (auto simp: sort_by_def set_insert_by)

lemma sort_application:
  "map fst (sort_by application_order (zip es [k..<k + length es])) = rev (in_document_order es)"
proof (induction es arbitrary: k)
  case (Cons e es)
  let ?z = "zip es [Suc k..<Suc k + length es]"
  have z: "zip (e # es) [k..<k + length (e # es)] = (e, k) # ?z"
    by (simp add: upt_conv_Cons del: upt_Suc)
  have "\<forall>y \<in> set (sort_by application_order ?z). k < snd y"
    by (auto simp: set_sort_by simp del: upt_Suc dest: set_zip_rightD)
  then have "map fst (sort_by application_order ((e, k) # ?z)) = insert_desc e (map fst (sort_by application_order ?z))"
    by (simp add: sort_by_def insert_application)
  also have "\<dots> = insert_desc e (rev (in_document_order es))" using Cons.IH [of "Suc k"] by simp
  also have "\<dots> = rev (in_document_order (e # es))"
    unfolding in_document_order_def by (subst insert_desc_rev) simp_all
  finally show ?case unfolding z .
qed (simp add: sort_by_def in_document_order_def)

lemma application_is_reverse_document_order:
  "sort_edits_for_application es = rev (in_document_order es)"
  using sort_application [of es 0] by (simp add: sort_edits_for_application_def)

subsection \<open>Offsets\<close>

definition before_line :: "string list \<Rightarrow> nat \<Rightarrow> string" where
  "before_line lines n = concat (map (\<lambda>l. l @ [LF]) (take n lines))"

definition offset_of :: "string list \<Rightarrow> lsp_position \<Rightarrow> nat" where
  "offset_of lines p = length (before_line lines (fst p)) + snd p"

definition valid_position :: "string list \<Rightarrow> lsp_position \<Rightarrow> bool" where
  "valid_position lines p \<longleftrightarrow> fst p < length lines \<and> snd p \<le> length (lines ! fst p)"

definition after_line :: "string list \<Rightarrow> nat \<Rightarrow> string" where
  "after_line lines n = (if Suc n < length lines then LF # join_with LF (drop (Suc n) lines) else [])"

lemma join_at:
  "n < length lines \<Longrightarrow> join_with LF lines = before_line lines n @ lines ! n @ after_line lines n"
proof (induction n arbitrary: lines)
  case 0
  then obtain l ls where "lines = l # ls" by (cases lines) auto
  then show ?case by (cases ls) (simp_all add: before_line_def after_line_def)
next
  case (Suc n)
  then obtain l m ls where l: "lines = l # m # ls" by (cases lines; cases "tl lines") auto
  have "join_with LF lines = l @ LF # join_with LF (m # ls)" by (simp add: l)
  also have "join_with LF (m # ls) = before_line (m # ls) n @ (m # ls) ! n @ after_line (m # ls) n"
    using Suc.prems l by (intro Suc.IH) simp
  finally show ?case by (simp add: l before_line_def after_line_def)
qed

lemma take_offset:
  "valid_position lines p \<Longrightarrow> take (offset_of lines p) (join_with LF lines) = before_line lines (fst p) @ take (snd p) (lines ! fst p)"
  by (auto simp: valid_position_def offset_of_def join_at)

lemma drop_offset:
  "valid_position lines p \<Longrightarrow> drop (offset_of lines p) (join_with LF lines) = drop (snd p) (lines ! fst p) @ after_line lines (fst p)"
  by (auto simp: valid_position_def offset_of_def join_at)

lemma before_line_append: "n = length xs \<Longrightarrow> before_line (xs @ ys) n = concat (map (\<lambda>l. l @ [LF]) xs)"
  by (simp add: before_line_def)

lemma join_pieces:
  "ys \<noteq> [] \<Longrightarrow> join_with LF (xs @ ys) = concat (map (\<lambda>l. l @ [LF]) xs) @ join_with LF ys"
proof (induction xs)
  case (Cons x xs)
  have "join_with LF (x # (xs @ ys)) = x @ LF # join_with LF (xs @ ys)" using Cons.prems by (cases "xs @ ys") auto
  then show ?case using Cons by simp
qed simp

lemma join_tail: "join_with LF (ys @ zs) = join_with LF ys @ (if zs = [] then [] else LF # join_with LF zs)" if "ys \<noteq> []"
  using that join_append [of ys zs LF] by (cases "zs = []") simp_all

text \<open>One application replaces the text between the two offsets.\<close>

lemma apply_one_splices:
  assumes s: "valid_position lines (te_start e)" and t: "valid_position lines (te_end e)" and le: "te_start e \<le> te_end e"
  shows "join_with LF (apply_one lines e)
    = take (offset_of lines (te_start e)) (join_with LF lines) @ te_text e
      @ drop (offset_of lines (te_end e)) (join_with LF lines)"
proof -
  obtain sl sc where sp: "te_start e = (sl, sc)" by (cases "te_start e")
  obtain el ec where ep: "te_end e = (el, ec)" by (cases "te_end e")
  have sl: "sl < length lines" and el: "el < length lines" using s t by (simp_all add: valid_position_def sp ep)
  have ord: "sl \<le> el" using le by (auto simp: sp ep less_eq_prod_def)
  let ?mid = "take sc (lines ! sl) @ te_text e @ drop ec (lines ! el)"
  have rhs: "take (offset_of lines (te_start e)) (join_with LF lines) @ te_text e
      @ drop (offset_of lines (te_end e)) (join_with LF lines) = before_line lines sl @ ?mid @ after_line lines el"
    using take_offset [OF s] drop_offset [OF t] by (simp add: sp ep)
  show ?thesis
  proof (cases "sl = el")
    case True
    have "before_line (lines[sl := ?mid]) sl = before_line lines sl" "after_line (lines[sl := ?mid]) sl = after_line lines sl"
      by (simp_all add: before_line_def after_line_def)
    then have "join_with LF (lines[sl := ?mid]) = before_line lines sl @ ?mid @ after_line lines sl"
      using sl by (simp add: join_at [of sl])
    then show ?thesis unfolding rhs using sl True by (simp add: apply_one_def sp ep line_at_def set_line_def)
  next
    case False
    then have "sl + (el - sl + 1) = Suc el" using ord by simp
    then have "apply_one lines e = take sl lines @ (split_on LF ?mid @ drop (Suc el) lines)"
      using False sl el by (simp add: apply_one_def sp ep line_at_def)
    then have "join_with LF (apply_one lines e) = before_line lines sl @ join_with LF (split_on LF ?mid @ drop (Suc el) lines)"
      by (simp add: join_pieces before_line_def)
    also have "join_with LF (split_on LF ?mid @ drop (Suc el) lines) = ?mid @ after_line lines el"
      by (simp add: join_tail after_line_def)
    finally show ?thesis unfolding rhs .
  qed
qed


subsection \<open>All at once\<close>

text \<open>
  The reference: the edits of a document, in document order, replace their ranges of the original
  text, whose remaining parts are copied.
\<close>

fun weave :: "string \<Rightarrow> string list \<Rightarrow> nat \<Rightarrow> text_edit list \<Rightarrow> string" where
  "weave content lines pos [] = drop pos content"
| "weave content lines pos (e # es) =
     take (offset_of lines (te_start e) - pos) (drop pos content) @ te_text e
       @ weave content lines (offset_of lines (te_end e)) es"

definition simultaneously :: "string \<Rightarrow> text_edit list \<Rightarrow> string" where
  "simultaneously content es = weave content (split_on LF content) 0 (in_document_order es)"

text \<open>Two documents agree up to a position.\<close>

definition agree_to :: "string list \<Rightarrow> string list \<Rightarrow> lsp_position \<Rightarrow> bool" where
  "agree_to lines orig p \<longleftrightarrow> take (fst p) lines = take (fst p) orig \<and> fst p < length lines
     \<and> take (snd p) (lines ! fst p) = take (snd p) (orig ! fst p) \<and> snd p \<le> length (lines ! fst p)"

lemma agree_refl: "valid_position orig p \<Longrightarrow> agree_to orig orig p"
  by (simp add: agree_to_def valid_position_def)

lemma agree_earlier:
  assumes "agree_to lines orig p" "q \<le> p" "valid_position orig q"
  shows "agree_to lines orig q \<and> valid_position lines q \<and> offset_of lines q = offset_of orig q"
proof -
  obtain ql qc pl pc where q: "q = (ql, qc)" "p = (pl, pc)" by (cases q; cases p)
  have tk: "take pl lines = take pl orig" and pl: "pl < length lines" using assms(1) by (simp_all add: agree_to_def q)
  have le: "ql \<le> pl" using assms(2) by (auto simp: q less_eq_prod_def)
  have tq: "take ql lines = take ql orig" using tk le by (metis min.absorb1 take_take)
  have here: "take qc (lines ! ql) = take qc (orig ! ql) \<and> qc \<le> length (lines ! ql)"
  proof (cases "ql = pl")
    case True
    then have "qc \<le> pc" using assms(2) by (simp add: q less_eq_prod_def)
    then show ?thesis using assms(1) True unfolding agree_to_def q fst_conv snd_conv
      by (metis le_trans min.absorb1 take_take)
  next
    case False
    then have "lines ! ql = orig ! ql" using tk le by (metis le_neq_implies_less nth_take)
    then show ?thesis using assms(3) by (simp add: valid_position_def q)
  qed
  then show ?thesis using tq pl le by (simp add: agree_to_def valid_position_def offset_of_def before_line_def q)
qed

lemma agree_take:
  assumes "agree_to lines orig p" "valid_position orig p"
  shows "take (offset_of orig p) (join_with LF lines) = take (offset_of orig p) (join_with LF orig)"
proof -
  have v: "valid_position lines p" "offset_of lines p = offset_of orig p"
    using agree_earlier [OF assms(1) _ assms(2)] by auto
  show ?thesis
    using take_offset [OF v(1)] take_offset [OF assms(2)] v(2) assms(1) by (simp add: agree_to_def before_line_def)
qed

lemma split_on_head:
  "take n (hd (split_on c (w @ t))) = take n w \<and> n \<le> length (hd (split_on c (w @ t)))"
  if "c \<notin> set w" "length w = n" for w
  using that
proof (induction w arbitrary: n)
  case (Cons x w)
  obtain u us where u: "split_on c (w @ t) = u # us" by (cases "split_on c (w @ t)") auto
  show ?case using Cons.IH [of "length w"] Cons.prems u by auto
qed simp

text \<open>An edit leaves the document before its start alone.\<close>

lemma apply_one_agrees:
  assumes a: "agree_to lines orig (te_end e)" and v: "valid_position orig (te_start e)"
    and le: "te_start e \<le> te_end e" and parts: "\<forall>l \<in> set orig. LF \<notin> set l"
  shows "agree_to (apply_one lines e) orig (te_start e)"
proof -
  obtain sl sc where sp: "te_start e = (sl, sc)" by (cases "te_start e")
  obtain el ec where ep: "te_end e = (el, ec)" by (cases "te_end e")
  have "te_start e \<le> te_end e" by (rule le)
  from agree_earlier [OF a this v] have s: "take sl lines = take sl orig" "sl < length lines"
    "take sc (lines ! sl) = take sc (orig ! sl)" "sc \<le> length (lines ! sl)"
    by (simp_all add: agree_to_def sp)
  have el: "el < length lines" "sl \<le> el" using a le by (auto simp: agree_to_def ep sp less_eq_prod_def)
  have so: "sl < length orig" "sc \<le> length (orig ! sl)" using v by (simp_all add: valid_position_def sp)
  let ?mid = "take sc (lines ! sl) @ te_text e @ drop ec (lines ! el)"
  show ?thesis
  proof (cases "sl = el")
    case True
    then have "apply_one lines e = lines[sl := ?mid]" using s(2) by (simp add: apply_one_def sp ep line_at_def set_line_def)
    then show ?thesis using s so by (simp add: agree_to_def sp)
  next
    case False
    then have ap: "apply_one lines e = take sl lines @ split_on LF ?mid @ drop (Suc el) lines"
      using el s(2) by (simp add: apply_one_def sp ep line_at_def)
    have len: "length (take sl lines) = sl" using s(2) by simp
    obtain u us where u: "split_on LF ?mid = u # us" by (cases "split_on LF ?mid") auto
    have nth: "apply_one lines e ! sl = u" using len by (simp add: ap u nth_append)
    define w where "w = take sc (orig ! sl)"
    have w: "LF \<notin> set w" "length w = sc" using parts so nth_mem [of sl orig] by (auto simp: w_def dest: in_set_takeD)
    have "u = hd (split_on LF (w @ te_text e @ drop ec (lines ! el)))" using u s(3) by (simp add: w_def)
    then have "take sc u = w" "sc \<le> length u"
      using split_on_head [OF w, of "te_text e @ drop ec (lines ! el)"] w(2) by simp_all
    then have uw: "take sc u = take sc (orig ! sl)" "sc \<le> length u" by (simp_all add: w_def)
    have "take sl (apply_one lines e) = take sl orig" "sl < length (apply_one lines e)"
      using s(1) len by (simp_all add: ap u)
    then show ?thesis using uw nth by (simp add: agree_to_def sp)
  qed
qed

fun ascending :: "text_edit list \<Rightarrow> bool" where
  "ascending [] \<longleftrightarrow> True"
| "ascending (e # es) \<longleftrightarrow> te_start e \<le> te_end e \<and> (\<forall>f \<in> set es. te_end e \<le> te_start f) \<and> ascending es"

lemma offset_mono:
  assumes "p \<le> q" "valid_position lines p" "valid_position lines q"
  shows "offset_of lines p \<le> offset_of lines q"
proof -
  obtain pl pc ql qc where p: "p = (pl, pc)" "q = (ql, qc)" by (cases p; cases q)
  show ?thesis
  proof (cases "pl = ql")
    case True
    then show ?thesis using assms(1) by (simp add: p offset_of_def less_eq_prod_def)
  next
    case False
    then have lt: "pl < ql" using assms(1) by (auto simp: p less_eq_prod_def)
    have "take ql lines = take (Suc pl) lines @ drop (Suc pl) (take ql lines)"
      using append_take_drop_id [of "Suc pl" "take ql lines"] lt by (simp add: min_absorb1)
    then have "before_line lines ql = before_line lines (Suc pl) @ concat (map (\<lambda>l. l @ [LF]) (drop (Suc pl) (take ql lines)))"
      unfolding before_line_def by (metis concat_append map_append)
    moreover have "before_line lines (Suc pl) = before_line lines pl @ lines ! pl @ [LF]"
      using assms(2) by (simp add: before_line_def take_Suc_conv_app_nth valid_position_def p)
    ultimately show ?thesis using assms(2) by (simp add: p offset_of_def valid_position_def)
  qed
qed

lemma foldr_apply:
  assumes "ascending es" "\<forall>e \<in> set es. valid_position orig (te_start e) \<and> valid_position orig (te_end e)"
    and "\<forall>l \<in> set orig. LF \<notin> set l" "valid_position orig p" "\<forall>e \<in> set es. p \<le> te_start e"
  shows "agree_to (foldr (\<lambda>e ls. apply_one ls e) es orig) orig p
    \<and> join_with LF (foldr (\<lambda>e ls. apply_one ls e) es orig)
      = take (offset_of orig p) (join_with LF orig) @ weave (join_with LF orig) orig (offset_of orig p) es"
  using assms
proof (induction es arbitrary: p)
  case Nil
  then show ?case by (simp add: agree_refl)
next
  case (Cons e es)
  let ?c = "join_with LF orig" and ?ls = "foldr (\<lambda>e ls. apply_one ls e) es orig"
  have v: "valid_position orig (te_start e)" "valid_position orig (te_end e)" and le: "te_start e \<le> te_end e"
    and asc: "ascending es" "\<forall>f \<in> set es. te_end e \<le> te_start f" and p: "p \<le> te_start e"
    using Cons.prems by auto
  have ih: "agree_to ?ls orig (te_end e)"
      "join_with LF ?ls = take (offset_of orig (te_end e)) ?c @ weave ?c orig (offset_of orig (te_end e)) es"
    using Cons.IH [of "te_end e"] Cons.prems v asc by auto
  have st: "agree_to ?ls orig (te_start e)" "valid_position ?ls (te_start e)"
      "offset_of ?ls (te_start e) = offset_of orig (te_start e)"
    using agree_earlier [OF ih(1) le v(1)] by auto
  have en: "valid_position ?ls (te_end e)" "offset_of ?ls (te_end e) = offset_of orig (te_end e)"
    using agree_earlier [OF ih(1) _ v(2)] by auto
  have len: "offset_of orig (te_end e) \<le> length ?c"
  proof -
    have "fst (te_end e) < length orig" "snd (te_end e) \<le> length (orig ! fst (te_end e))"
      using v(2) by (simp_all add: valid_position_def)
    then show ?thesis by (simp add: offset_of_def join_at [of "fst (te_end e)"])
  qed
  have dr: "drop (offset_of orig (te_end e)) (join_with LF ?ls) = weave ?c orig (offset_of orig (te_end e)) es"
    unfolding ih(2) using len by simp
  have tk: "take (offset_of orig (te_start e)) (join_with LF ?ls) = take (offset_of orig (te_start e)) ?c"
    by (rule agree_take [OF st(1) v(1)])
  have res: "join_with LF (apply_one ?ls e)
      = take (offset_of orig (te_start e)) ?c @ te_text e @ weave ?c orig (offset_of orig (te_end e)) es"
    using apply_one_splices [OF st(2) en(1) le] tk dr st(3) en(2) by simp
  have ap: "agree_to (apply_one ?ls e) orig (te_start e)" by (rule apply_one_agrees [OF ih(1) v(1) le Cons.prems(3)])
  have op: "offset_of orig p \<le> offset_of orig (te_start e)" by (rule offset_mono [OF p Cons.prems(4) v(1)])
  have "take (offset_of orig (te_start e)) ?c
      = take (offset_of orig p) ?c @ take (offset_of orig (te_start e) - offset_of orig p) (drop (offset_of orig p) ?c)"
    using op by (metis add_diff_inverse_nat not_less take_add)
  then show ?case using agree_earlier [OF ap p Cons.prems(4)] res by simp
qed

subsection \<open>What validation leaves\<close>

lemma fold_keep:
  assumes "set seen \<subseteq> set kept" "foldl keep_edit (seen, kept) es = (s', k')"
  shows "set k' = set kept \<union> set es"
  using assms
proof (induction es arbitrary: seen kept)
  case (Cons e es)
  show ?case
  proof (cases "\<not> is_empty_range e \<and> e \<in> set seen")
    case True
    then show ?thesis using Cons.IH [of seen kept] Cons.prems by (auto simp: keep_edit_def)
  next
    case False
    then have "keep_edit (seen, kept) e = (if is_empty_range e then seen else e # seen, kept @ [e])"
      by (auto simp: keep_edit_def)
    moreover have "set (if is_empty_range e then seen else e # seen) \<subseteq> set (kept @ [e])" using Cons.prems(1) by auto
    ultimately show ?thesis using Cons.prems(2)
      Cons.IH [of "if is_empty_range e then seen else e # seen" "kept @ [e]"] by simp
  qed
qed simp

lemma set_unique_edits: "set (unique_edits es) = set es"
  using fold_keep [of "[]" "[]" es] by (cases "foldl keep_edit ([], []) es") (simp add: unique_edits_def)

text \<open>No edit that replaces something occurs twice.\<close>

definition once :: "text_edit list \<Rightarrow> bool" where
  "once es \<longleftrightarrow> sorted_wrt (\<lambda>a b. is_empty_range b \<or> a \<noteq> b) es"

lemma keep_once:
  "once (pre @ es) \<Longrightarrow> set seen \<subseteq> set pre \<Longrightarrow> snd (foldl keep_edit (seen, pre) es) = pre @ es"
proof (induction es arbitrary: seen pre)
  case (Cons e es)
  have "e \<notin> set pre" if "\<not> is_empty_range e"
    using Cons.prems(1) that by (auto simp: once_def sorted_wrt_append)
  then have "keep_edit (seen, pre) e = (if is_empty_range e then seen else e # seen, pre @ [e])"
    using Cons.prems(2) by (auto simp: keep_edit_def)
  moreover have "snd (foldl keep_edit (if is_empty_range e then seen else e # seen, pre @ [e]) es) = (pre @ [e]) @ es"
    using Cons.prems by (intro Cons.IH) auto
  ultimately show ?case by simp
qed simp

lemma fold_keep_once:
  "once kept \<Longrightarrow> \<forall>e \<in> set kept. is_empty_range e \<or> e \<in> set seen \<Longrightarrow> once (snd (foldl keep_edit (seen, kept) es))"
proof (induction es arbitrary: seen kept)
  case (Cons e es)
  obtain s1 k1 where k: "keep_edit (seen, kept) e = (s1, k1)" by force
  then have "once k1" "\<forall>e \<in> set k1. is_empty_range e \<or> e \<in> set s1"
    using Cons.prems by (auto simp: keep_edit_def once_def sorted_wrt_append split: if_splits)
  from Cons.IH [OF this] show ?case by (simp add: k)
qed simp

lemma once_unique: "once (unique_edits es)"
  unfolding unique_edits_def by (rule fold_keep_once) (simp_all add: once_def)

lemma unique_once: "once es \<Longrightarrow> unique_edits es = es"
  using keep_once [of "[]" es "[]"] by (simp add: unique_edits_def)

lemma no_overlap_snoc:
  "no_overlap (xs @ [b, a]) \<longleftrightarrow> no_overlap (xs @ [b]) \<and> te_end a \<le> te_start b"
  by (induction xs rule: no_overlap.induct) (auto simp: compare_position_iff)

lemma ascending_of_no_overlap:
  "no_overlap (rev es) \<Longrightarrow> \<forall>e \<in> set es. te_start e \<le> te_end e \<Longrightarrow> ascending es"
proof (induction es)
  case (Cons a es)
  show ?case
  proof (cases es)
    case Nil
    then show ?thesis using Cons.prems by simp
  next
    case (Cons b bs)
    have "no_overlap (rev es)" and ab: "te_end a \<le> te_start b"
      using Cons.prems(1) no_overlap_snoc [of "rev bs" b a] by (simp_all add: Cons)
    then have "ascending es" using Cons.IH Cons.prems(2) by simp
    moreover have "\<forall>f \<in> set es. te_end a \<le> te_start f"
      using calculation ab Cons.prems(2) by (auto simp: Cons intro: order_trans)
    ultimately show ?thesis using Cons.prems(2) by simp
  qed
qed simp

lemma find_some: "find P xs = Some x \<Longrightarrow> x \<in> set xs \<and> P x"
  by (auto simp: find_Some_iff)

lemma utf16_position_fits:
  assumes "utf16_position content p enc = Inr q"
  shows "fst q = fst p \<and> snd q \<le> length (line_text_at content (fst p))"
proof -
  let ?line = "line_text_at content (fst p)"
  have full: "convert_character_offset Utf16 ?line (length ?line) = length ?line"
    by (simp add: convert_character_offset_def)
  show ?thesis using assms
    by (auto simp: utf16_position_def Let_def full split: if_splits option.splits dest!: find_some simp del: upt_Suc)
qed

lemma clamp_position_valid:
  assumes "clamp_position content enc p = Inr q"
  shows "valid_position (split_on LF content) q"
  using assms utf16_position_fits [of content p enc q]
  by (auto simp: clamp_position_def valid_position_def line_text_at_def line_at_def Let_def split: if_splits)

lemma convert_edit_valid:
  assumes "convert_edit content enc e = Inr c"
  shows "valid_position (split_on LF content) (te_start c) \<and> valid_position (split_on LF content) (te_end c)
    \<and> te_start c \<le> te_end c"
proof -
  obtain p q where c: "clamp_position content enc (te_start e) = Inr p" "clamp_position content enc (te_end e) = Inr q"
    "\<not> compare_position p q > 0" "te_start c = p" "te_end c = q"
    using assms by (fastforce simp: convert_edit_def split: sum.splits if_splits)
  have "p \<le> q" using c(3) unfolding compare_position_iff by simp
  then show ?thesis using clamp_position_valid [OF c(1)] clamp_position_valid [OF c(2)] c(4,5) by simp
qed

lemma convert_edits_valid:
  "convert_edits content enc es = Inr cs \<Longrightarrow> \<forall>c \<in> set cs. valid_position (split_on LF content) (te_start c)
    \<and> valid_position (split_on LF content) (te_end c) \<and> te_start c \<le> te_end c"
proof (induction es arbitrary: cs)
  case (Cons e es)
  then obtain c ds where c: "convert_edit content enc e = Inr c" "convert_edits content enc es = Inr ds" "cs = c # ds"
    by (auto split: sum.splits)
  then show ?case using Cons.IH [of ds] convert_edit_valid [OF c(1)] by simp
qed simp

lemma set_in_document_order: "set (in_document_order es) = set es"
  by (simp add: in_document_order_def)

lemma validated_ascends:
  assumes "convert_edits content enc edits = Inr cs" "validate_text_edits cs = Inr kept"
  shows "ascending (in_document_order kept) \<and> set kept = set cs"
proof -
  have k: "kept = unique_edits cs" "no_overlap (sort_edits_for_application (unique_edits cs))"
    using assms(2) by (auto simp: validate_text_edits_def Let_def split: if_splits)
  then have st: "set kept = set cs" by (simp add: set_unique_edits)
  have "no_overlap (rev (in_document_order kept))" using k by (simp add: application_is_reverse_document_order)
  then show ?thesis
    using ascending_of_no_overlap [of "in_document_order kept"] convert_edits_valid [OF assms(1)] st
    by (simp add: set_in_document_order)
qed

lemma parts_without_break: "l \<in> set (split_on c s) \<Longrightarrow> c \<notin> set l"
  using split_on_parts by fast

text \<open>C27 (applying edits is simultaneous replacement).  Applying a list of edits either reports the
  error that decoding positions or validation found, or it yields the document in which every kept
  edit has replaced its own range of the original text, insertions at one place in the order they
  were sent, the rest copied unchanged: the line-by-line splicing from the last edit to the first is
  never visible.\<close>
theorem edits_apply_simultaneously:
  "apply_text_edits content edits enc
     = (case normalize_text_edits content edits enc of
          Inl err \<Rightarrow> Inl err
        | Inr kept \<Rightarrow> Inr (simultaneously content kept))"
proof (cases "normalize_text_edits content edits enc")
  case (Inr kept)
  then obtain cs where cs: "convert_edits content enc edits = Inr cs" "validate_text_edits cs = Inr kept"
    by (auto simp: normalize_text_edits_def split: sum.splits)
  let ?o = "split_on LF content" and ?d = "in_document_order kept"
  have asc: "ascending ?d" "set kept = set cs" using validated_ascends [OF cs] by simp_all
  have v: "\<forall>e \<in> set ?d. valid_position ?o (te_start e) \<and> valid_position ?o (te_end e)"
    using convert_edits_valid [OF cs(1)] asc(2) by (simp add: set_in_document_order)
  have p: "valid_position ?o (0, 0)" "\<forall>e \<in> set ?d. (0, 0) \<le> te_start e"
    by (auto simp: valid_position_def less_eq_prod_def)
  have z: "offset_of ?o (0, 0) = 0" by (simp add: offset_of_def before_line_def)
  have "join_with LF (foldl apply_one ?o (rev ?d)) = weave content ?o 0 ?d"
    using foldr_apply [OF asc(1) v _ p] parts_without_break by (simp add: z foldl_conv_foldr)
  then show ?thesis
    by (simp add: apply_text_edits_def Inr application_is_reverse_document_order simultaneously_def)
qed (simp add: apply_text_edits_def)

lemma ascending_apart:
  "ascending es \<Longrightarrow> e \<in> set es \<Longrightarrow> f \<in> set es \<Longrightarrow> e \<noteq> f \<Longrightarrow> te_end e \<le> te_start f \<or> te_end f \<le> te_start e"
  by (induction es) auto

text \<open>When the positions of the edits decode and two different
  edits claim a common part of the document, or one inserts inside the other's range, nothing is
  applied and the overlap is reported, in whatever order the edits were sent.\<close>
theorem overlapping_edits_are_refused:
  assumes "convert_edits content enc edits = Inr cs" "e \<in> set cs" "f \<in> set cs" "e \<noteq> f"
    and "te_start e < te_end f" "te_start f < te_end e"
  shows "apply_text_edits content edits enc = Inl Overlapping_Edits"
proof (cases "validate_text_edits cs")
  case (Inr kept)
  have "te_end e \<le> te_start f \<or> te_end f \<le> te_start e"
    using validated_ascends [OF assms(1) Inr] ascending_apart [of "in_document_order kept" e f] assms(2-4)
    by (auto simp: set_in_document_order)
  then show ?thesis using assms(5,6) by (auto simp: not_le [symmetric])
next
  case (Inl err)
  then have "err = Overlapping_Edits" by (auto simp: validate_text_edits_def Let_def split: if_splits)
  then show ?thesis using assms(1) Inl by (simp add: apply_text_edits_def normalize_text_edits_def)
qed

lemma overlapping_edits_are_refused_witness:
  "apply_text_edits ''abcdef''
     [\<lparr>te_start = (0, 1), te_end = (0, 3), te_text = ''X''\<rparr>, \<lparr>te_start = (0, 2), te_end = (0, 2), te_text = ''Y''\<rparr>]
     Utf16 = Inl Overlapping_Edits"
  by (rule overlapping_edits_are_refused
    [where e = "\<lparr>te_start = (0, 1), te_end = (0, 3), te_text = ''X''\<rparr>" and f = "\<lparr>te_start = (0, 2), te_end = (0, 2), te_text = ''Y''\<rparr>"
      and cs = "[\<lparr>te_start = (0, 1), te_end = (0, 3), te_text = ''X''\<rparr>, \<lparr>te_start = (0, 2), te_end = (0, 2), te_text = ''Y''\<rparr>]"])
    code_simp+

subsection \<open>Line endings\<close>

lemma normalize_no_cr: "CR \<notin> set (normalize_to_lf s)"
  by (induction s rule: normalize_to_lf.induct) auto

lemma normalize_restore:
  "CR \<notin> set t \<Longrightarrow> normalize_to_lf (restore_line_endings t crlf) = t"
  by (induction t) (auto simp: restore_line_endings_def)

text \<open>Whatever endings the server's text uses, putting it in the endings
  of the document and reading it back as line feeds gives the lines of the text: the conversion
  neither adds nor drops a line.\<close>
theorem line_endings_round_trip:
  "normalize_to_lf (restore_line_endings (normalize_to_lf t) (detect_line_ending content)) = normalize_to_lf t"
  by (rule normalize_restore) (rule normalize_no_cr)

subsection \<open>Normalizing once\<close>

text \<open>The last line does not end in a carriage return: the text after the last line feed, if any.\<close>

definition clean_end :: "string \<Rightarrow> bool" where
  "clean_end content \<longleftrightarrow>
     (let l = last (split_on LF content) in l = [] \<or> last l \<noteq> CR)"

definition line_limit :: "string \<Rightarrow> nat" where
  "line_limit line = (if line \<noteq> [] \<and> last line = CR then length line - 1 else length line)"

lemma utf8_length_append [simp]: "utf8_length (xs @ ys) = utf8_length xs + utf8_length ys"
  by (simp add: utf8_length_def)

lemma utf8_length_pos: "xs \<noteq> [] \<Longrightarrow> 0 < utf8_length xs"
  by (cases xs) (simp_all add: utf8_length_def)

lemma convert_mono:
  assumes "i < j" "j \<le> length line"
  shows "convert_character_offset enc line i < convert_character_offset enc line j"
proof -
  have "take j line = take i line @ take (j - i) (drop i line)" using assms(1)
    by (metis le_add_diff_inverse less_imp_le take_add)
  moreover have "take (j - i) (drop i line) \<noteq> []" using assms by simp
  ultimately show ?thesis
    using assms utf8_length_pos by (auto simp: convert_character_offset_def Let_def split: position_encoding.splits)
qed

lemma convert_before_cr:
  assumes "line \<noteq> []" "last line = CR"
  shows "Suc (convert_character_offset enc line (length line - 1)) = convert_character_offset enc line (length line)"
proof -
  obtain b where l: "line = b @ [CR]" using assms by (metis append_butlast_last_id)
  have "utf8_length [CR] = 1" by (simp add: utf8_length_def)
  then show ?thesis by (cases enc) (simp_all add: l convert_character_offset_def)
qed

lemma utf16_limit: "convert_character_offset Utf16 line off = off"
  by (simp add: convert_character_offset_def)

lemma utf16_settled: "snd p \<le> line_limit (line_text_at content (fst p)) \<Longrightarrow> utf16_position content p Utf16 = Inr p"
  unfolding utf16_position_def Let_def utf16_limit line_limit_def by (simp split: if_splits)

lemma utf16_position_limit:
  assumes "utf16_position content p enc = Inr q"
  shows "fst q = fst p \<and> snd q \<le> line_limit (line_text_at content (fst p))"
proof -
  let ?line = "line_text_at content (fst p)"
  let ?wire = "convert_character_offset enc ?line (length ?line)"
  let ?cr = "?line \<noteq> [] \<and> last ?line = CR"
  let ?cw = "if ?cr then ?wire - 1 else ?wire"
  consider "snd p > ?cw" | "snd p \<le> ?cw" "enc = Utf16" | "snd p \<le> ?cw" "enc \<noteq> Utf16" by linarith
  then show ?thesis
  proof cases
    case 1
    then have "q = (fst p, line_limit ?line)" using assms by (simp add: utf16_position_def Let_def line_limit_def)
    then show ?thesis by simp
  next
    case 2
    then have "snd p \<le> line_limit ?line" by (auto simp: line_limit_def utf16_limit split: if_splits)
    then show ?thesis using utf16_settled [of p content] assms 2(2) by simp
  next
    case 3
    then obtain off where off: "off \<in> set [0..<Suc (length ?line)]" "convert_character_offset enc ?line off = snd p" "q = (fst p, off)"
      using assms by (auto simp: utf16_position_def Let_def simp del: upt_Suc split: option.splits dest!: find_some)
    have "off \<noteq> length ?line" if ?cr
      using convert_before_cr [of ?line enc] that 3(1) off(2) by auto
    then show ?thesis using off(1,3) by (auto simp: line_limit_def)
  qed
qed

definition settled_position :: "string \<Rightarrow> lsp_position \<Rightarrow> bool" where
  "settled_position content p \<longleftrightarrow>
     fst p < length (split_on LF content) \<and> snd p \<le> line_limit (line_text_at content (fst p))"

lemma clamp_settles:
  assumes "clamp_position content enc p = Inr q" "clean_end content"
  shows "settled_position content q"
proof (cases "fst p < length (split_on LF content)")
  case True
  then have "utf16_position content p enc = Inr q" using assms(1) by (simp add: clamp_position_def Let_def)
  from utf16_position_limit [OF this] show ?thesis using True by (simp add: settled_position_def)
next
  case False
  let ?l = "split_on LF content"
  have "q = (length ?l - 1, length (last ?l))"
    using False assms(1) by (simp add: clamp_position_def Let_def line_at_def last_conv_nth)
  then show ?thesis
    using assms(2) by (auto simp: settled_position_def line_text_at_def line_at_def line_limit_def clean_end_def Let_def last_conv_nth)
qed

lemma settled_clamp:
  assumes "settled_position content p"
  shows "clamp_position content Utf16 p = Inr p"
proof -
  have "utf16_position content p Utf16 = Inr p"
    using assms by (simp add: settled_position_def utf16_settled)
  then show ?thesis using assms by (simp add: clamp_position_def Let_def settled_position_def)
qed

definition prepared :: "string \<Rightarrow> text_edit \<Rightarrow> bool" where
  "prepared content c \<longleftrightarrow> settled_position content (te_start c) \<and> settled_position content (te_end c) \<and> te_start c \<le> te_end c
     \<and> restore_line_endings (normalize_to_lf (te_text c)) (detect_line_ending content) = te_text c"

lemma convert_prepares:
  assumes "convert_edit content enc e = Inr c" "clean_end content"
  shows "prepared content c"
proof -
  obtain p q where c: "clamp_position content enc (te_start e) = Inr p" "clamp_position content enc (te_end e) = Inr q"
    "\<not> compare_position p q > 0" "te_start c = p" "te_end c = q"
    "te_text c = restore_line_endings (normalize_to_lf (te_text e)) (detect_line_ending content)"
    using assms(1) by (fastforce simp: convert_edit_def split: sum.splits if_splits)
  have "p \<le> q" using c(3) unfolding compare_position_iff by simp
  then show ?thesis
    using clamp_settles [OF c(1) assms(2)] clamp_settles [OF c(2) assms(2)]
    by (simp add: prepared_def c normalize_restore normalize_no_cr)
qed

lemma prepared_converts:
  assumes "prepared content c"
  shows "convert_edit content Utf16 c = Inr c"
proof -
  have "\<not> 0 < compare_position (te_start c) (te_end c)"
    using assms unfolding prepared_def compare_position_iff by (simp add: not_less)
  then show ?thesis using assms by (simp add: prepared_def convert_edit_def settled_clamp)
qed

lemma convert_all_prepares:
  "convert_edits content enc es = Inr cs \<Longrightarrow> clean_end content \<Longrightarrow> \<forall>c \<in> set cs. prepared content c"
  by (induction es arbitrary: cs) (auto split: sum.splits dest: convert_prepares)

lemma prepared_convert_all: "\<forall>c \<in> set cs. prepared content c \<Longrightarrow> convert_edits content Utf16 cs = Inr cs"
  by (induction cs) (auto simp: prepared_converts)

text \<open>The edits a preflight prepared for a document can be prepared
  again, read as UTF-16, without any change, so the application that follows the preflight has the
  effect the server asked for, provided the document does not end in a carriage return.\<close>
theorem preparing_edits_is_final:
  assumes "clean_end content" "normalize_text_edits content edits enc = Inr kept"
  shows "normalize_text_edits content kept Utf16 = Inr kept
    \<and> apply_text_edits content kept Utf16 = apply_text_edits content edits enc"
proof -
  obtain cs where cs: "convert_edits content enc edits = Inr cs" "validate_text_edits cs = Inr kept"
    using assms(2) by (auto simp: normalize_text_edits_def split: sum.splits)
  have k: "kept = unique_edits cs" "no_overlap (sort_edits_for_application kept)"
    using cs(2) by (auto simp: validate_text_edits_def Let_def split: if_splits)
  have "\<forall>c \<in> set kept. prepared content c"
    using convert_all_prepares [OF cs(1) assms(1)] by (simp add: k(1) set_unique_edits)
  then have "convert_edits content Utf16 kept = Inr kept" by (rule prepared_convert_all)
  moreover have "unique_edits kept = kept" using unique_once [OF once_unique [of cs]] by (simp add: k(1))
  ultimately have "normalize_text_edits content kept Utf16 = Inr kept"
    using k(2) by (simp add: normalize_text_edits_def validate_text_edits_def)
  then show ?thesis using assms(2) by (simp add: apply_text_edits_def)
qed

lemma preparing_edits_is_final_witness:
  "apply_text_edits [CHR ''a'', CHR 0xE9, CHR ''b'', CR, LF, CHR ''c'']
      [\<lparr>te_start = (0, 1), te_end = (0, 2), te_text = ''x''\<rparr>, \<lparr>te_start = (1, 7), te_end = (9, 0), te_text = [LF]\<rparr>] Utf16
    = apply_text_edits [CHR ''a'', CHR 0xE9, CHR ''b'', CR, LF, CHR ''c'']
      [\<lparr>te_start = (0, 1), te_end = (0, 3), te_text = ''x''\<rparr>, \<lparr>te_start = (1, 7), te_end = (9, 0), te_text = [LF]\<rparr>] Utf8"
proof -
  let ?c = "[CHR ''a'', CHR 0xE9, CHR ''b'', CR, LF, CHR ''c'']"
  let ?kept = "[\<lparr>te_start = (0, 1), te_end = (0, 2), te_text = ''x''\<rparr>, \<lparr>te_start = (1, 1), te_end = (1, 1), te_text = [CR, LF]\<rparr>]"
  have "clean_end ?c" "normalize_text_edits ?c [\<lparr>te_start = (0, 1), te_end = (0, 3), te_text = ''x''\<rparr>,
      \<lparr>te_start = (1, 7), te_end = (9, 0), te_text = [LF]\<rparr>] Utf8 = Inr ?kept"
    by code_simp+
  from preparing_edits_is_final [OF this] have "apply_text_edits ?c ?kept Utf16
      = apply_text_edits ?c [\<lparr>te_start = (0, 1), te_end = (0, 3), te_text = ''x''\<rparr>,
          \<lparr>te_start = (1, 7), te_end = (9, 0), te_text = [LF]\<rparr>] Utf8"
    by (rule conjunct2)
  moreover have "apply_text_edits ?c ?kept Utf16 = apply_text_edits ?c
      [\<lparr>te_start = (0, 1), te_end = (0, 2), te_text = ''x''\<rparr>, \<lparr>te_start = (1, 7), te_end = (9, 0), te_text = [LF]\<rparr>] Utf16"
    by code_simp
  ultimately show ?thesis by simp
qed

text \<open>
  Without that proviso it fails: replacing the whole of a document that ends in a lone carriage return
  removes it when applied directly, and leaves it when the prepared edits are applied.
\<close>

lemma final_carriage_return_survives:
  "normalize_text_edits (''ab'' @ [CR]) [\<lparr>te_start = (0, 0), te_end = (9, 0), te_text = ''x''\<rparr>] Utf16
     = Inr [\<lparr>te_start = (0, 0), te_end = (0, 3), te_text = ''x''\<rparr>]"
  "apply_text_edits (''ab'' @ [CR]) [\<lparr>te_start = (0, 0), te_end = (9, 0), te_text = ''x''\<rparr>] Utf16 = Inr ''x''"
  "apply_text_edits (''ab'' @ [CR]) [\<lparr>te_start = (0, 0), te_end = (0, 3), te_text = ''x''\<rparr>] Utf16 = Inr (''x'' @ [CR])"
  by code_simp+

end
