(* ===== verification/Workspace_Merge.thy ===== *)
theory Workspace_Merge
  imports Workspace_Plan_Order Text_Edits_Meaning
begin

text \<open>
  Merging the edits several servers propose: what is kept can be applied, and why the keys of the
  exact-duplicate test are not exact.
\<close>

subsection \<open>Decoded edits are in order\<close>

definition ordered :: "text_edit list \<Rightarrow> bool" where
  "ordered es \<longleftrightarrow> (\<forall>e \<in> set es. te_start e \<le> te_end e)"

lemma ordered_simps [simp]: "ordered []" "ordered (xs @ ys) \<longleftrightarrow> ordered xs \<and> ordered ys"
  "ordered (e # es) \<longleftrightarrow> te_start e \<le> te_end e \<and> ordered es"
  by (auto simp: ordered_def)

lemma is_text_edit_ordered: "is_text_edit v = Some e \<Longrightarrow> te_start e \<le> te_end e"
  by (auto simp: is_text_edit_def is_range_def compare_position_iff split: option.splits json.splits if_splits
      bind_splits)

lemma all_text_edits_ordered: "all_text_edits vs = Inr es \<Longrightarrow> ordered es"
  by (induction vs arbitrary: es) (auto simp: is_text_edit_ordered split: option.splits sum.splits)

lemma throwing_edits_ordered: "throwing_edits v = Inr es \<Longrightarrow> ordered es"
  by (auto simp: throwing_edits_def parse_text_edits_def all_text_edits_ordered split: sum.splits option.splits json.splits)

lemma parse_document_ordered: "parse_text_document_edit v = Inr (Some (uri, ver, es)) \<Longrightarrow> ordered es"
  by (auto simp: parse_text_document_edit_def and_then_Inr throwing_edits_ordered split: option.splits json.splits)

subsection \<open>Flattening\<close>

text \<open>Setting a key adds no value but its own.\<close>

lemma set_update_subset: "set (AList.update k v m) \<subseteq> insert (k, v) (set m)"
  by (induction m) auto

lemma fold_throwing_keeps:
  assumes "fold_throwing f s xs = Inr s'" "P s" "\<And>s x s'. P s \<Longrightarrow> f s x = Inr s' \<Longrightarrow> P s'"
  shows "P s'"
  using assms(1,2)
proof (induction xs arbitrary: s)
  case (Cons x xs)
  then obtain t where "f s x = Inr t" "fold_throwing f t xs = Inr s'" by (auto simp: and_then_Inr)
  then show ?case using Cons.IH Cons.prems(2) assms(3) by blast
qed simp

definition values_all :: "('b \<Rightarrow> bool) \<Rightarrow> ('a \<times> 'b) list \<Rightarrow> bool" where
  "values_all P m \<longleftrightarrow> (\<forall>v \<in> snd ` set m. P v)"

lemma values_all_update: "values_all P m \<Longrightarrow> P v \<Longrightarrow> values_all P (AList.update k v m)"
  using set_update_subset [of k v m] by (fastforce simp: values_all_def)

lemma values_all_get: "values_all P m \<Longrightarrow> map_of m k = Some v \<Longrightarrow> P v"
  by (force simp: values_all_def dest: map_of_SomeD)

lemma values_all_rekey:
  assumes "values_all (\<lambda>(u, es). P es) m" "values_all P acc"
  shows "values_all P (foldl (\<lambda>m (uri, es). AList.update uri es m) acc (map snd m))"
  using assms
proof (induction m arbitrary: acc)
  case (Cons b m)
  obtain k u es where b: "b = (k, u, es)" by (cases b) auto
  have "values_all P (AList.update u es acc)" using Cons.prems by (intro values_all_update) (auto simp: values_all_def b)
  then show ?case using Cons.IH Cons.prems(1) by (simp add: b values_all_def)
qed simp

lemma flatten_push_ordered:
  assumes "values_all (\<lambda>(u, es). ordered es) b" "ordered es"
  shows "values_all (\<lambda>(u, es). ordered es) (flatten_push h fu b uri es)"
  using assms values_all_get [OF assms(1)]
  by (auto simp: flatten_push_def Let_def intro!: values_all_update split: option.splits)

lemma flatten_ordered:
  assumes "flatten_workspace_text_edits h fu edit = Inr bs"
  shows "values_all ordered bs"
proof -
  let ?P = "values_all (\<lambda>(u, es). ordered es)"
  obtain b1 b2 where b: "fold_throwing (flatten_changes h fu) [] (changes_of edit) = Inr b1"
      "fold_throwing (flatten_document h fu) b1 (document_changes_of edit) = Inr b2"
      "bs = foldl (\<lambda>m (uri, es). AList.update uri es m) [] (map snd b2)"
    using assms by (auto simp: flatten_workspace_text_edits_def and_then_Inr)
  have "?P b1" by (rule fold_throwing_keeps [OF b(1)])
    (auto simp: flatten_changes_def and_then_Inr values_all_def [of _ "[]"] intro: flatten_push_ordered throwing_edits_ordered)
  then have "?P b2" by (rule fold_throwing_keeps [OF b(2)])
    (auto simp: flatten_document_def and_then_Inr intro!: flatten_push_ordered dest: parse_document_ordered split: option.splits)
  then show ?thesis unfolding b(3) by (rule values_all_rekey) (simp add: values_all_def)
qed

subsection \<open>Merging\<close>

definition compatible :: "text_edit list \<Rightarrow> bool" where
  "compatible es \<longleftrightarrow> ordered es \<and> sorted_wrt (\<lambda>a b. \<not> ranges_overlap a b) es"

lemma ranges_overlap_iff: "ranges_overlap a b \<longleftrightarrow> te_start a < te_end b \<and> te_start b < te_end a"
  by (simp add: ranges_overlap_def compare_position_iff)

lemma merge_one_compatible:
  "merge_one key (st, kept) e = (st', kept') \<Longrightarrow> compatible kept \<Longrightarrow> te_start e \<le> te_end e
     \<Longrightarrow> compatible kept' \<and> mw_merged st' = mw_merged st"
  by (auto simp: merge_one_def Let_def compatible_def sorted_wrt_append list_ex_iff split: if_splits option.splits)

lemma merge_fold_compatible:
  "foldl (merge_one key) (st, kept) es = (st', kept') \<Longrightarrow> compatible kept \<Longrightarrow> ordered es
     \<Longrightarrow> compatible kept' \<and> mw_merged st' = mw_merged st"
proof (induction es arbitrary: st kept)
  case (Cons e es)
  obtain s1 k1 where s1: "merge_one key (st, kept) e = (s1, k1)" by (cases "merge_one key (st, kept) e")
  with merge_one_compatible [OF s1 Cons.prems(2)] Cons.prems Cons.IH [of s1 k1] show ?case by simp
qed simp

abbreviation merged_ok :: "merge_edits_state \<Rightarrow> bool" where
  "merged_ok st \<equiv> values_all (\<lambda>(u, es). compatible es) (mw_merged st)"

lemma merge_bucket_ok:
  assumes "merged_ok st" "ordered es"
  shows "merged_ok (merge_bucket h fu st (uri, es))"
proof -
  let ?k = "path_index_key h fu uri"
  obtain u old where b: "(case map_of (mw_merged st) ?k of Some b \<Rightarrow> b | None \<Rightarrow> (uri, [])) = (u, old)" by force
  then have old: "compatible old"
    using values_all_get [OF assms(1), of ?k] by (auto simp: compatible_def split: option.splits)
  obtain st' kept where f: "foldl (merge_one ?k) (st, old) es = (st', kept)" by force
  from merge_fold_compatible [OF f old assms(2)] assms(1) show ?thesis
    by (auto simp: merge_bucket_def b f Let_def intro!: values_all_update)
qed

lemma merge_buckets_ok:
  "merged_ok st \<Longrightarrow> values_all ordered bs \<Longrightarrow> merged_ok (foldl (merge_bucket h fu) st bs)"
proof (induction bs arbitrary: st)
  case (Cons b bs)
  obtain uri es where b: "b = (uri, es)" by force
  then have "ordered es" using Cons.prems(2) by (simp add: values_all_def)
  from Cons.IH [OF merge_bucket_ok [OF Cons.prems(1) this]] Cons.prems(2) show ?case
    by (simp add: b values_all_def)
qed simp

lemma merge_entry_ok: "merged_ok st \<Longrightarrow> merge_entry h fu st entry = Inr st' \<Longrightarrow> merged_ok st'"
  by (auto simp: merge_entry_def and_then_Inr intro: merge_buckets_ok flatten_ordered split: option.splits)

text \<open>Edits that do not overlap are in line once sorted.\<close>

lemma compatible_once: "compatible es \<Longrightarrow> once es"
  unfolding compatible_def once_def
proof (induction es)
  case (Cons a es)
  have "is_empty_range b" if "b \<in> set es" "b = a" for b
    using Cons.prems that by (auto simp: ranges_overlap_iff is_empty_range_def)
  then show ?case using Cons by auto
qed simp

lemma in_line:
  assumes "\<not> ranges_overlap a b" "place a \<le> place b" "te_start a \<le> te_end a" "te_start b \<le> te_end b"
  shows "te_end a \<le> te_start b"
proof (rule ccontr)
  assume "\<not> te_end a \<le> te_start b"
  then have lt: "te_start b < te_end a" by (simp only: not_le)
  then have "te_end b \<le> te_start a" using assms(1) by (auto simp: ranges_overlap_iff not_less)
  moreover have "te_start a \<le> te_start b" using assms(2) by (auto simp: less_eq_prod_def [of "place a"])
  ultimately have eq: "te_start a = te_start b" "te_end b = te_start b" using assms(4) by order+
  then have "te_end a \<le> te_end b" using assms(2) by (simp add: less_eq_prod_def [of "place a"])
  then show False using lt eq by (simp add: not_less [symmetric])
qed

lemma no_overlap_of_ascending: "ascending es \<Longrightarrow> no_overlap (rev es)"
proof (induction es)
  case (Cons a es)
  then show ?case
  proof (cases es)
    case (Cons b bs)
    then show ?thesis using Cons.IH Cons.prems no_overlap_snoc [of "rev bs" b a] by simp
  qed simp
qed simp

lemma ascending_of_sorted:
  "sorted (map place es) \<Longrightarrow> compatible es \<Longrightarrow> ascending es"
proof (induction es)
  case (Cons a es)
  have "te_end a \<le> te_start f" if "f \<in> set es" for f
    using Cons.prems that by (intro in_line) (auto simp: compatible_def ordered_def)
  then show ?case using Cons by (simp add: compatible_def)
qed simp

text \<open>Pairwise tests that do not look at the order survive sorting.\<close>

lemma sorted_wrt_insort:
  "symp R \<Longrightarrow> sorted_wrt R (insort_key f x xs) \<longleftrightarrow> (\<forall>y \<in> set xs. R x y) \<and> sorted_wrt R xs"
  by (induction xs) (auto simp: set_insort_key dest: sympD)

lemma sorted_wrt_sort: "symp R \<Longrightarrow> sorted_wrt R (sort_key f xs) \<longleftrightarrow> sorted_wrt R xs"
  by (induction xs) (simp_all add: sorted_wrt_insort)

lemma compatible_sorted: "compatible es \<Longrightarrow> compatible (in_document_order es)"
proof -
  have "symp (\<lambda>a b. \<not> ranges_overlap a b)" by (auto simp: symp_def ranges_overlap_iff)
  then show "compatible es \<Longrightarrow> compatible (in_document_order es)"
    by (simp add: compatible_def ordered_def set_in_document_order) (simp add: in_document_order_def sorted_wrt_sort)
qed

lemma compatible_validates:
  assumes "compatible es"
  shows "validate_text_edits es = Inr es"
proof -
  have "unique_edits es = es" by (rule unique_once [OF compatible_once [OF assms]])
  moreover have "ascending (in_document_order es)"
    using compatible_sorted [OF assms] by (intro ascending_of_sorted) (simp_all add: in_document_order_def)
  then have "no_overlap (sort_edits_for_application es)"
    by (simp add: application_is_reverse_document_order no_overlap_of_ascending)
  ultimately show ?thesis by (simp add: validate_text_edits_def)
qed

text \<open>C30 (what merging keeps can be applied).  Whatever the servers proposed, the edits kept for a
  document are accepted by the validation that precedes their application, all of them: none
  overlaps another, none is a duplicate.\<close>
theorem merged_edits_validate:
  assumes "merge_workspace_text_edits_by_priority h fu entries = Inr (changes, dropped, inputs, ids)"
    and "(uri, es) \<in> set changes"
  shows "validate_text_edits es = Inr es"
proof -
  obtain st where st: "fold_throwing (merge_entry h fu)
        \<lparr>mw_merged = [], mw_seen = [], mw_dropped = 0, mw_inputs = 0\<rparr> entries = Inr st"
      "changes = foldl (\<lambda>m (uri, es). AList.update uri es m) [] (map snd (mw_merged st))"
    using assms(1) by (auto simp: merge_workspace_text_edits_by_priority_def and_then_Inr)
  have "merged_ok st"
    by (rule fold_throwing_keeps [OF st(1)]) (auto simp: values_all_def [of _ "[]"] intro: merge_entry_ok)
  then have "values_all compatible changes" unfolding st(2) by (rule values_all_rekey) (simp add: values_all_def)
  then show ?thesis using assms(2) by (intro compatible_validates) (auto simp: values_all_def)
qed

definition sample_replace :: "nat \<Rightarrow> nat \<Rightarrow> nat \<Rightarrow> nat \<Rightarrow> string \<Rightarrow> json" where
  "sample_replace l c l' c' t =
     JObj [(''range'', JObj [(''start'', sample_position l c), (''end'', sample_position l' c')]), (''newText'', JStr t)]"

definition sample_proposals :: "(string \<times> json option) list" where
  "sample_proposals =
     [(''first'', Some (JObj [(''changes'', JObj [(''/w/b'', JArr [sample_replace 0 1 0 4 ''x''])])])),
      (''second'', Some (JObj [(''changes'', JObj
         [(''/w/b'', JArr [sample_insert 0 2 ''y'', sample_insert 0 4 ''z'', sample_replace 0 1 0 4 ''x''])])]))]"

lemma sample_merge:
  "merge_workspace_text_edits_by_priority sample_host sample_file_url sample_proposals
     = Inr ([(''/w/b'', [\<lparr>te_start = (0, 1), te_end = (0, 4), te_text = ''x''\<rparr>, insert_at 0 4 ''z''])],
         1, 4, [''first'', ''second''])"
  by code_simp

lemma merged_edits_validate_witness:
  "validate_text_edits [\<lparr>te_start = (0, 1), te_end = (0, 4), te_text = ''x''\<rparr>, insert_at 0 4 ''z'']
     = Inr [\<lparr>te_start = (0, 1), te_end = (0, 4), te_text = ''x''\<rparr>, insert_at 0 4 ''z'']"
  by (rule merged_edits_validate [OF sample_merge, of "''/w/b''"]) simp

text \<open>
  Joined by colons, a file name with a colon and a text with a colon give two edits of different
  files one key: the second is taken for a duplicate and is in no count of conflicts.
\<close>

lemma colliding_edit_is_lost:
  "merge_workspace_text_edits_by_priority sample_host sample_file_url
     [(''first'', Some (JObj [(''changes'', JObj [(''/a'', JArr [sample_replace 1 2 3 4 ''5:x''])])])),
      (''second'', Some (JObj [(''changes'', JObj [(''/a:1'', JArr [sample_replace 2 3 4 5 ''x''])])]))]
     = Inr ([(''/a'', [\<lparr>te_start = (1, 2), te_end = (3, 4), te_text = ''5:x''\<rparr>])], 0, 2, [''first'', ''second''])"
  by code_simp

end
