(* ===== verification/Hashline.thy ===== *)
theory Hashline
  imports Text_Edits Config_Records Bounded_Cache File_Time
begin

text \<open>
  \<^verbatim>\<open>clients/hashline-anchor.ts\<close>: the three-character anchors a third-party edit tool addresses lines
  by, recomputed from the file: the 32-bit hash of a line, open addressing over a bitset of used
  slots, and the resolution of an anchor to a line through a bounded memo.

  The integer arithmetic of the hash is done on 32-bit words: every sum the code takes before
  \<^verbatim>\<open>| 0\<close> stays below the precision of a double.  A code unit is below 256, so its UTF-8 form has one
  or two bytes and no file starts with the byte-order mark the code strips.  The two caches inside
  one computation, from a line to its hash and to its key, memoize functions and are left out.
\<close>

subsection \<open>XXH32\<close>

type_synonym u32 = "32 word"
type_synonym u8 = "8 word"

abbreviation XXH_PRIME1 :: u32 where "XXH_PRIME1 \<equiv> 0x9e3779b1"
abbreviation XXH_PRIME2 :: u32 where "XXH_PRIME2 \<equiv> 0x85ebca77"
abbreviation XXH_PRIME3 :: u32 where "XXH_PRIME3 \<equiv> 0xc2b2ae3d"
abbreviation XXH_PRIME4 :: u32 where "XXH_PRIME4 \<equiv> 0x27d4eb2f"
abbreviation XXH_PRIME5 :: u32 where "XXH_PRIME5 \<equiv> 0x165667b1"

definition rotl32 :: "u32 \<Rightarrow> nat \<Rightarrow> u32" where
  "rotl32 value bits = push_bit bits value OR drop_bit (32 - bits) value"

definition xxh_round :: "u32 \<Rightarrow> u32 \<Rightarrow> u32" where
  "xxh_round acc input = rotl32 (acc + input * XXH_PRIME2) 13 * XXH_PRIME1"

definition read_u32 :: "u8 list \<Rightarrow> nat \<Rightarrow> u32" where
  "read_u32 bytes off =
     ucast (bytes ! off) OR push_bit 8 (ucast (bytes ! (off + 1)))
       OR push_bit 16 (ucast (bytes ! (off + 2))) OR push_bit 24 (ucast (bytes ! (off + 3)))"

text \<open>The \<^verbatim>\<open>do\<close> loop over stripes of 16 bytes: the body, then the test.\<close>

function stripes :: "u8 list \<Rightarrow> nat \<Rightarrow> u32 \<times> u32 \<times> u32 \<times> u32 \<Rightarrow> nat \<times> u32 \<times> u32 \<times> u32 \<times> u32" where
  "stripes bytes index (v1, v2, v3, v4) =
     (let w1 = xxh_round v1 (read_u32 bytes index);
          w2 = xxh_round v2 (read_u32 bytes (index + 4));
          w3 = xxh_round v3 (read_u32 bytes (index + 8));
          w4 = xxh_round v4 (read_u32 bytes (index + 12));
          next_index = index + 16
      in if next_index \<le> length bytes - 16 then stripes bytes next_index (w1, w2, w3, w4)
         else (next_index, w1, w2, w3, w4))"
  by pat_completeness auto
termination by (relation "measure (\<lambda>(bytes, index, v). length bytes - index)") auto

function whole_words :: "u8 list \<Rightarrow> nat \<Rightarrow> u32 \<Rightarrow> nat \<times> u32" where
  "whole_words bytes index hash =
     (if index + 4 \<le> length bytes
      then whole_words bytes (index + 4) (rotl32 (hash + read_u32 bytes index * XXH_PRIME3) 17 * XXH_PRIME4)
      else (index, hash))"
  by pat_completeness auto
termination by (relation "measure (\<lambda>(bytes, index, hash). length bytes - index)") auto

function last_bytes :: "u8 list \<Rightarrow> nat \<Rightarrow> u32 \<Rightarrow> u32" where
  "last_bytes bytes index hash =
     (if index < length bytes
      then last_bytes bytes (index + 1) (rotl32 (hash + ucast (bytes ! index) * XXH_PRIME5) 11 * XXH_PRIME1)
      else hash)"
  by pat_completeness auto
termination by (relation "measure (\<lambda>(bytes, index, hash). length bytes - index)") auto

declare stripes.simps [simp del] whole_words.simps [simp del] last_bytes.simps [simp del]

definition xxh32_bytes :: "u8 list \<Rightarrow> u32" where
  "xxh32_bytes bytes =
     (let (index, start) =
            (if length bytes \<ge> 16 then
               (case stripes bytes 0 (XXH_PRIME1 + XXH_PRIME2, XXH_PRIME2, 0, - XXH_PRIME1) of
                  (index, v1, v2, v3, v4) \<Rightarrow> (index, rotl32 v1 1 + rotl32 v2 7 + rotl32 v3 12 + rotl32 v4 18))
             else (0, XXH_PRIME5));
          (index, hash) = whole_words bytes index (start + of_nat (length bytes));
          h0 = last_bytes bytes index hash;
          h1 = (h0 XOR drop_bit 15 h0) * XXH_PRIME2;
          h2 = (h1 XOR drop_bit 13 h1) * XXH_PRIME3
      in h2 XOR drop_bit 16 h2)"

subsection \<open>The hash of a line\<close>

definition canon :: "string \<Rightarrow> string" where
  "canon line = rev (dropWhile is_js_space (rev (filter (\<lambda>c. c \<noteq> CR) line)))"

definition split_anchor_lines :: "string \<Rightarrow> string list" where
  "split_anchor_lines content =
     (if content = [] then [[]]
      else if last content = LF then butlast (split_on LF content) else split_on LF content)"

definition utf8_char :: "char \<Rightarrow> u8 list" where
  "utf8_char c =
     (let n = of_char c :: nat
      in if n < 128 then [of_nat n] else [of_nat (192 + n div 64), of_nat (128 + n mod 64)])"

definition utf8_encode :: "string \<Rightarrow> u8 list" where
  "utf8_encode s = concat (map utf8_char s)"

fun utf8_decode :: "u8 list \<Rightarrow> string" where
  "utf8_decode [] = []"
| "utf8_decode (b # bs) =
     (if b < 128 then char_of (unat b) # utf8_decode bs
      else case bs of
        [] \<Rightarrow> []
      | b' # bs' \<Rightarrow> char_of ((unat b - 192) * 64 + (unat b' - 128)) # utf8_decode bs')"

definition MAX_HASH_SOURCE_BYTES :: nat where
  "MAX_HASH_SOURCE_BYTES = 500"

fun boundary_before :: "u8 list \<Rightarrow> nat \<Rightarrow> nat" where
  "boundary_before bytes 0 = 0"
| "boundary_before bytes (Suc k) =
     (if bytes ! Suc k AND 0xc0 = 0x80 then boundary_before bytes k else Suc k)"

definition hash_source_bytes :: "string \<Rightarrow> u8 list" where
  "hash_source_bytes line =
     (let bytes = utf8_encode (canon line)
      in if length bytes \<le> MAX_HASH_SOURCE_BYTES then bytes
         else take (boundary_before bytes MAX_HASH_SOURCE_BYTES) bytes)"

definition hash_source_key :: "string \<Rightarrow> string" where
  "hash_source_key line = utf8_decode (hash_source_bytes line)"

subsection \<open>Slots\<close>

definition ALPHABET :: string where
  "ALPHABET = ''ABCDEFGHIJKLMNOPQRSTUVWXYZabcdefghijklmnopqrstuvwxyz0123456789''"

definition HASH_SPACE :: nat where "HASH_SPACE = 238328"

definition HASH_PROBE_STRIDE :: nat where "HASH_PROBE_STRIDE = 3907"

fun anchor_digits :: "nat \<Rightarrow> string \<Rightarrow> nat \<Rightarrow> string" where
  "anchor_digits 0 out remaining = out"
| "anchor_digits (Suc n) out remaining =
     anchor_digits n (ALPHABET ! (remaining mod 62) # out) (remaining div 62)"

definition index_to_anchor :: "nat \<Rightarrow> string" where
  "index_to_anchor index = anchor_digits 3 [] index"

text \<open>The typed array of 32-bit words, all zero at first.\<close>

type_synonym bitset = "nat \<Rightarrow> u32"

definition get_bit :: "bitset \<Rightarrow> nat \<Rightarrow> bool" where
  "get_bit bits index \<longleftrightarrow> drop_bit (index mod 32) (bits (index div 32)) AND 1 \<noteq> 0"

definition set_bit :: "bitset \<Rightarrow> nat \<Rightarrow> bitset" where
  "set_bit bits index = bits(index div 32 := bits (index div 32) OR push_bit (index mod 32) 1)"

fun probe :: "bitset \<Rightarrow> nat \<Rightarrow> nat \<Rightarrow> nat option" where
  "probe bits steps index =
     (if steps = 0 then None
      else if \<not> get_bit bits index then Some index
      else
        let ahead = index + HASH_PROBE_STRIDE
        in probe bits (steps - 1) (if ahead \<ge> HASH_SPACE then ahead - HASH_SPACE else ahead))"

declare probe.simps [simp del]

definition next_zero_bit :: "bitset \<Rightarrow> nat \<Rightarrow> nat option" where
  "next_zero_bit bits start = probe bits HASH_SPACE (start mod HASH_SPACE)"

definition base_index :: "string \<Rightarrow> nat" where
  "base_index line = unat (drop_bit 14 (xxh32_bytes (hash_source_bytes line))) mod HASH_SPACE"

text \<open>The loop over the lines, with the used slots and the hint; \<open>None\<close> when no slot is left.\<close>

fun assign_slots :: "bitset \<Rightarrow> nat \<Rightarrow> string list \<Rightarrow> nat list option" where
  "assign_slots used hint [] = Some []"
| "assign_slots used hint (line # lines) =
     (let base = base_index line
      in if \<not> get_bit used base then
           map_option (Cons base) (assign_slots (set_bit used base) (base + HASH_PROBE_STRIDE) lines)
         else
           case next_zero_bit used hint of
             None \<Rightarrow> None
           | Some probed \<Rightarrow>
               map_option (Cons probed) (assign_slots (set_bit used probed) (probed + HASH_PROBE_STRIDE) lines))"

definition compute_hashline_anchors :: "string \<Rightarrow> string list option" where
  "compute_hashline_anchors content =
     (let lines = split_anchor_lines content
      in if length lines > HASH_SPACE then None
         else map_option (map index_to_anchor) (assign_slots (\<lambda>_. 0) 0 lines))"

subsection \<open>Resolution\<close>

definition is_anchor_char :: "char \<Rightarrow> bool" where
  "is_anchor_char c \<longleftrightarrow> c \<in> set ALPHABET"

definition normalize_hashline_anchor_token :: "json option \<Rightarrow> string option" where
  "normalize_hashline_anchor_token v =
     (case v of
        Some (JStr s) \<Rightarrow>
          let trimmed = js_trim s
          in if length trimmed = 3 \<and> list_all is_anchor_char trimmed then Some trimmed else None
      | _ \<Rightarrow> None)"

datatype anchor_failure =
    Not_An_Anchor
  | File_Unreadable
  | File_Too_Large
  | Anchor_Not_Found
  | Content_Not_Unique

definition MAX_ANCHOR_FILE_BYTES :: nat where
  "MAX_ANCHOR_FILE_BYTES = 4 * 1024 * 1024"

definition ANCHOR_INDEX_CACHE_LIMIT :: int where "ANCHOR_INDEX_CACHE_LIMIT = 8"

record anchor_index =
  ai_index :: "(string, nat) js_map"
  ai_unique :: "bool list"

record anchor_entry = anchor_index +
  ae_mtime :: rat
  ae_size :: nat

record anchor_stats =
  as_is_file :: bool
  as_size :: nat
  as_mtime :: rat

text \<open>What \<^verbatim>\<open>statSync\<close> and \<^verbatim>\<open>readFileSync\<close> answer; \<open>None\<close> is a throw.\<close>

record anchor_disk =
  ad_stat :: "path \<Rightarrow> anchor_stats option"
  ad_read :: "path \<Rightarrow> string option"

type_synonym anchor_cache = "(path, anchor_entry) fifo_map"

definition empty_anchor_cache :: anchor_cache where
  "empty_anchor_cache = fifo_new ANCHOR_INDEX_CACHE_LIMIT"

definition drop_hashline_anchor_memo :: "anchor_cache \<Rightarrow> anchor_cache" where
  "drop_hashline_anchor_memo cache = fifo_clear cache"

definition count_key :: "(string, nat) js_map \<Rightarrow> string \<Rightarrow> (string, nat) js_map" where
  "count_key counts key = AList.update key ((case map_of counts key of Some n \<Rightarrow> n | None \<Rightarrow> 0) + 1) counts"

definition content_unique :: "string list \<Rightarrow> bool list" where
  "content_unique lines =
     (let keys = map hash_source_key lines; counts = foldl count_key [] keys
      in map (\<lambda>key. map_of counts key = Some 1) keys)"

definition index_anchors :: "string list \<Rightarrow> (string, nat) js_map" where
  "index_anchors anchors = foldl (\<lambda>m (a, i). AList.update a (i + 1) m) [] (zip anchors [0..<length anchors])"

definition read_anchor_index ::
  "anchor_disk \<Rightarrow> path \<Rightarrow> anchor_stats \<Rightarrow> anchor_cache
     \<Rightarrow> (anchor_failure + (string, nat) js_map \<times> bool list) \<times> anchor_cache" where
  "read_anchor_index disk p stats cache =
     (case ad_read disk p of
        None \<Rightarrow> (Inl File_Unreadable, cache)
      | Some raw \<Rightarrow>
          let normalized = normalize_to_lf raw
          in case compute_hashline_anchors normalized of
               None \<Rightarrow> (Inl File_Too_Large, cache)
             | Some anchors \<Rightarrow>
                 let index = index_anchors anchors; unique = content_unique (split_anchor_lines normalized)
                 in (Inr (index, unique),
                     snd (fifo_set p \<lparr>ai_index = index, ai_unique = unique,
                       ae_mtime = as_mtime stats, ae_size = as_size stats\<rparr> cache)))"

definition build_anchor_index ::
  "anchor_disk \<Rightarrow> path \<Rightarrow> anchor_cache \<Rightarrow> (anchor_failure + (string, nat) js_map \<times> bool list) \<times> anchor_cache" where
  "build_anchor_index disk p cache =
     (case ad_stat disk p of
        None \<Rightarrow> (Inl File_Unreadable, cache)
      | Some stats \<Rightarrow>
          if \<not> as_is_file stats then (Inl File_Unreadable, cache)
          else if as_size stats > MAX_ANCHOR_FILE_BYTES then (Inl File_Too_Large, cache)
          else
            case fifo_get cache p of
              Some hit \<Rightarrow>
                if ae_mtime hit = as_mtime stats \<and> ae_size hit = as_size stats
                then (Inr (ai_index hit, ai_unique hit), cache)
                else read_anchor_index disk p stats cache
            | None \<Rightarrow> read_anchor_index disk p stats cache)"

definition resolve_hashline_anchor ::
  "anchor_disk \<Rightarrow> path \<Rightarrow> json option \<Rightarrow> anchor_cache \<Rightarrow> (anchor_failure + nat) \<times> anchor_cache" where
  "resolve_hashline_anchor disk p anchor cache =
     (case normalize_hashline_anchor_token anchor of
        None \<Rightarrow> (Inl Not_An_Anchor, cache)
      | Some token \<Rightarrow>
          (case build_anchor_index disk p cache of
             (Inl failure, cache') \<Rightarrow> (Inl failure, cache')
           | (Inr (index, unique), cache') \<Rightarrow>
               (case map_of index token of
                  None \<Rightarrow> (Inl Anchor_Not_Found, cache')
                | Some line \<Rightarrow>
                    if 0 < line \<and> line \<le> length unique \<and> unique ! (line - 1) then (Inr line, cache')
                    else (Inl Content_Not_Unique, cache'))))"

end
