(* ===== verification/Hashline_Anchors.thy ===== *)
theory Hashline_Anchors
  imports Hashline
begin

text \<open>
  Anchors: why probing always ends at a free slot and anchors are distinct, what an anchor resolves
  to, and the port against the vectors the repository checks in.
\<close>

subsection \<open>The bitset is a set of slots\<close>

lemma get_bit_iff: "get_bit bits i \<longleftrightarrow> bit (bits (i div 32)) (i mod 32)"
  by (simp add: get_bit_def and_one_eq bit_iff_odd_drop_bit odd_iff_mod_2_eq_one) 

lemma get_bit_none [simp]: "\<not> get_bit (\<lambda>_. 0) i"
  by (simp add: get_bit_iff)

lemma get_bit_set [simp]: "get_bit (set_bit bits i) j \<longleftrightarrow> j = i \<or> get_bit bits j"
proof (cases "j div 32 = i div 32")
  case True
  have "i mod 32 = j mod 32 \<longleftrightarrow> j = i" using True by (metis div_mult_mod_eq)
  moreover have "j mod 32 < LENGTH(32)" by simp
  ultimately show ?thesis
    using True by (auto simp: get_bit_iff set_bit_def bit_or_iff bit_exp_iff)
next
  case False
  then show ?thesis by (auto simp: get_bit_iff set_bit_def)
qed

definition slots :: "bitset \<Rightarrow> nat set" where
  "slots bits = {i. get_bit bits i}"

lemma slots_simps [simp]: "slots (\<lambda>_. 0) = {}" "slots (set_bit bits i) = insert i (slots bits)"
  by (auto simp: slots_def)

subsection \<open>Probing\<close>

definition nth_probe :: "nat \<Rightarrow> nat \<Rightarrow> nat" where
  "nth_probe start k = (start + k * HASH_PROBE_STRIDE) mod HASH_SPACE"

lemma nth_probe_Suc:
  assumes "start < HASH_SPACE"
  shows "nth_probe start (Suc k)
    = nth_probe (if start + HASH_PROBE_STRIDE \<ge> HASH_SPACE then start + HASH_PROBE_STRIDE - HASH_SPACE
        else start + HASH_PROBE_STRIDE) k"
proof -
  have e: "start + Suc k * HASH_PROBE_STRIDE = start + HASH_PROBE_STRIDE + k * HASH_PROBE_STRIDE" by simp
  show ?thesis
  proof (cases "start + HASH_PROBE_STRIDE \<ge> HASH_SPACE")
    case True
    then have "start + HASH_PROBE_STRIDE + k * HASH_PROBE_STRIDE
        = (start + HASH_PROBE_STRIDE - HASH_SPACE + k * HASH_PROBE_STRIDE) + HASH_SPACE" by simp
    then have "(start + HASH_PROBE_STRIDE + k * HASH_PROBE_STRIDE) mod HASH_SPACE
        = (start + HASH_PROBE_STRIDE - HASH_SPACE + k * HASH_PROBE_STRIDE) mod HASH_SPACE"
      by (simp only: mod_add_self2)
    then show ?thesis unfolding nth_probe_def e using True by (simp only: if_True)
  next
    case False
    then show ?thesis unfolding nth_probe_def e by (simp only: if_False)
  qed
qed

lemma probe_finds:
  assumes "start < HASH_SPACE" "k < steps" "\<not> get_bit bits (nth_probe start k)"
  shows "\<exists>i. probe bits steps start = Some i \<and> i < HASH_SPACE \<and> \<not> get_bit bits i"
  using assms
proof (induction steps arbitrary: start k)
  case (Suc steps)
  let ?next = "if start + HASH_PROBE_STRIDE \<ge> HASH_SPACE then start + HASH_PROBE_STRIDE - HASH_SPACE
    else start + HASH_PROBE_STRIDE"
  show ?case
  proof (cases "get_bit bits start")
    case True
    then have "k \<noteq> 0" using Suc.prems by (metis add.right_neutral mod_less mult_0 nth_probe_def)
    then obtain m where m: "k = Suc m" by (cases k) auto
    have "?next < HASH_SPACE" using Suc.prems(1) by (auto simp: HASH_PROBE_STRIDE_def HASH_SPACE_def)
    from Suc.IH [OF this, of m] have "\<exists>i. probe bits steps ?next = Some i \<and> i < HASH_SPACE \<and> \<not> get_bit bits i"
      using Suc.prems nth_probe_Suc [OF Suc.prems(1), of m] by (simp add: m)
    then show ?thesis using True by (subst probe.simps) (simp add: Let_def)
  next
    case False
    then show ?thesis using Suc.prems(1) by (subst probe.simps) simp
  qed
qed simp

text \<open>The stride and the number of slots share no factor, so the probes visit every slot.\<close>

lemma probes_visit_all:
  assumes "i < HASH_SPACE"
  shows "\<exists>k < HASH_SPACE. nth_probe start k = i"
proof -
  have cop: "coprime HASH_SPACE HASH_PROBE_STRIDE"
    unfolding HASH_SPACE_def HASH_PROBE_STRIDE_def coprime_iff_gcd_eq_1 by (simp add: gcd_non_0_nat)
  have inj: "inj_on (nth_probe start) {..<HASH_SPACE}"
  proof (rule linorder_inj_onI')
    fix k l
    assume kl: "k \<in> {..<HASH_SPACE}" "l \<in> {..<HASH_SPACE}" "k < l"
    show "nth_probe start k \<noteq> nth_probe start l"
    proof
      assume "nth_probe start k = nth_probe start l"
      moreover have "start + k * HASH_PROBE_STRIDE \<le> start + l * HASH_PROBE_STRIDE" using kl(3) by simp
      ultimately have "HASH_SPACE dvd (start + l * HASH_PROBE_STRIDE) - (start + k * HASH_PROBE_STRIDE)"
        unfolding nth_probe_def by (metis mod_eq_dvd_iff_nat)
      then have "HASH_SPACE dvd (l - k) * HASH_PROBE_STRIDE" by (simp add: diff_mult_distrib)
      then have "HASH_SPACE dvd l - k" using cop by (simp add: coprime_dvd_mult_left_iff)
      then show False using kl by (auto dest: dvd_imp_le)
    qed
  qed
  have "nth_probe start ` {..<HASH_SPACE} \<subseteq> {..<HASH_SPACE}" by (auto simp: nth_probe_def HASH_SPACE_def)
  from endo_inj_surj [OF _ this inj] have "i \<in> nth_probe start ` {..<HASH_SPACE}" using assms by simp
  then show ?thesis by auto
qed

lemma next_zero_bit_finds:
  assumes "i < HASH_SPACE" "\<not> get_bit bits i"
  shows "\<exists>j. next_zero_bit bits start = Some j \<and> j < HASH_SPACE \<and> \<not> get_bit bits j"
proof -
  have s: "start mod HASH_SPACE < HASH_SPACE" by (simp add: HASH_SPACE_def)
  obtain k where "k < HASH_SPACE" "nth_probe (start mod HASH_SPACE) k = i" using probes_visit_all [OF assms(1)] by blast
  then show ?thesis unfolding next_zero_bit_def using probe_finds [OF s] assms(2) by blast
qed

lemma base_index_bound: "base_index line < HASH_SPACE"
  by (simp add: base_index_def HASH_SPACE_def)

lemma free_slot:
  assumes "slots used \<subseteq> {..<HASH_SPACE}" "card (slots used) < HASH_SPACE"
  shows "\<exists>i < HASH_SPACE. \<not> get_bit used i"
proof (rule ccontr)
  assume "\<not> ?thesis"
  then have "{..<HASH_SPACE} \<subseteq> slots used" by (auto simp: slots_def)
  then have "slots used = {..<HASH_SPACE}" using assms(1) by blast
  then show False using assms(2) by simp
qed

text \<open>As long as there are lines for free slots, every line gets one of its own.\<close>

lemma assign_slots_ok:
  assumes "slots used \<subseteq> {..<HASH_SPACE}" "card (slots used) + length lines \<le> HASH_SPACE"
  shows "\<exists>is. assign_slots used hint lines = Some is \<and> length is = length lines \<and> distinct is
    \<and> set is \<subseteq> {..<HASH_SPACE} - slots used"
  using assms
proof (induction lines arbitrary: used hint)
  case (Cons line lines)
  have step: "\<exists>is. map_option (Cons i) (assign_slots (set_bit used i) (i + HASH_PROBE_STRIDE) lines) = Some is
      \<and> length is = length (line # lines) \<and> distinct is \<and> set is \<subseteq> {..<HASH_SPACE} - slots used"
    if i: "i < HASH_SPACE" "\<not> get_bit used i" for i
  proof -
    have fin: "finite (slots used)" using Cons.prems(1) by (rule finite_subset) simp
    have "i \<notin> slots used" using i(2) by (simp add: slots_def)
    then have "card (slots (set_bit used i)) + length lines \<le> HASH_SPACE" using Cons.prems(2) fin by simp
    moreover have "slots (set_bit used i) \<subseteq> {..<HASH_SPACE}" using Cons.prems(1) i(1) by simp
    ultimately obtain js where "assign_slots (set_bit used i) (i + HASH_PROBE_STRIDE) lines = Some js"
        "length js = length lines" "distinct js" "set js \<subseteq> {..<HASH_SPACE} - slots (set_bit used i)"
      using Cons.IH by blast
    then show ?thesis using i(1) \<open>i \<notin> slots used\<close> by auto
  qed
  show ?case
  proof (cases "get_bit used (base_index line)")
    case True
    obtain i where "i < HASH_SPACE" "\<not> get_bit used i" using free_slot [OF Cons.prems(1)] Cons.prems(2) by auto
    from next_zero_bit_finds [OF this] obtain j where "next_zero_bit used hint = Some j" "j < HASH_SPACE" "\<not> get_bit used j"
      by blast
    then show ?thesis using step [of j] True by (simp add: Let_def)
  next
    case False
    then show ?thesis using step [OF base_index_bound False] by (simp add: Let_def)
  qed
qed simp

subsection \<open>Anchor tokens\<close>

lemma alphabet_facts: "length ALPHABET = 62" "distinct ALPHABET"
  by (simp_all add: ALPHABET_def)

lemma index_to_anchor_eq:
  "index_to_anchor i = [ALPHABET ! (i div 62 div 62 mod 62), ALPHABET ! (i div 62 mod 62), ALPHABET ! (i mod 62)]"
  by (simp add: index_to_anchor_def numeral_3_eq_3)

lemma index_to_anchor_inj: "inj_on index_to_anchor {..<HASH_SPACE}"
proof (rule inj_onI)
  fix i j
  assume b: "i \<in> {..<HASH_SPACE}" "j \<in> {..<HASH_SPACE}" and eq: "index_to_anchor i = index_to_anchor j"
  have nth: "a = b" if "ALPHABET ! a = ALPHABET ! b" "a < 62" "b < 62" for a b
    using that alphabet_facts by (metis nth_eq_iff_index_eq)
  have "i div 62 div 62 mod 62 = j div 62 div 62 mod 62" "i div 62 mod 62 = j div 62 mod 62" "i mod 62 = j mod 62"
    using eq by (auto simp: index_to_anchor_eq intro: nth)
  moreover have "i div 62 div 62 < 62" "j div 62 div 62 < 62" using b by (auto simp: HASH_SPACE_def less_mult_imp_div_less)
  ultimately show "i = j" by (metis div_mult_mod_eq mod_less)
qed

lemma alphabet_no_space: "list_all (\<lambda>c. \<not> is_js_space c) ALPHABET"
  by code_simp

lemma js_trim_word: "\<forall>c \<in> set w. \<not> is_js_space c \<Longrightarrow> js_trim w = w"
proof -
  assume w: "\<forall>c \<in> set w. \<not> is_js_space c"
  have "dropWhile is_js_space v = v" if "set v \<subseteq> set w" for v using w that by (cases v) auto
  then show ?thesis by (simp add: js_trim_def)
qed

definition is_token :: "string \<Rightarrow> bool" where
  "is_token a \<longleftrightarrow> length a = 3 \<and> set a \<subseteq> set ALPHABET"

lemma token_normalizes: "is_token a \<Longrightarrow> normalize_hashline_anchor_token (Some (JStr a)) = Some a"
proof -
  assume t: "is_token a"
  then have "js_trim a = a" using alphabet_no_space by (intro js_trim_word) (auto simp: is_token_def list_all_iff)
  then show ?thesis using t
    by (auto simp: normalize_hashline_anchor_token_def is_token_def list_all_iff is_anchor_char_def)
qed

lemma anchor_is_token: "is_token (index_to_anchor i)"
  using alphabet_facts(1) by (auto simp: index_to_anchor_eq is_token_def)

lemma anchors_facts:
  assumes "compute_hashline_anchors content = Some anchors"
  shows "length anchors = length (split_anchor_lines content)" "length anchors \<le> HASH_SPACE" "distinct anchors"
    "\<forall>a \<in> set anchors. is_token a"
proof -
  have len: "length (split_anchor_lines content) \<le> HASH_SPACE"
    using assms by (simp add: compute_hashline_anchors_def Let_def split: if_splits)
  then obtain slots where s: "assign_slots (\<lambda>_. 0) 0 (split_anchor_lines content) = Some slots"
      "length slots = length (split_anchor_lines content)" "distinct slots" "set slots \<subseteq> {..<HASH_SPACE}"
    using assign_slots_ok [of "\<lambda>_. 0" "split_anchor_lines content" 0] by auto
  have a: "anchors = map index_to_anchor slots" using assms len s(1) by (simp add: compute_hashline_anchors_def)
  show "distinct anchors" unfolding a using s(3,4) index_to_anchor_inj by (simp add: distinct_map inj_on_subset)
  show "length anchors = length (split_anchor_lines content)" "length anchors \<le> HASH_SPACE" "\<forall>a \<in> set anchors. is_token a"
    using a s(2) len by (auto simp: anchor_is_token)
qed

lemma anchors_exist:
  "compute_hashline_anchors content = None \<longleftrightarrow> HASH_SPACE < length (split_anchor_lines content)"
  using assign_slots_ok [of "\<lambda>_. 0" "split_anchor_lines content" 0]
  by (auto simp: compute_hashline_anchors_def Let_def)

text \<open>C33 (anchors exist and differ).  Computing the anchors of a file fails exactly when the file
  has more lines than there are anchors: otherwise the probing of every line ends at a free slot,
  every line gets an anchor, no two lines share one, and each is a token the parser accepts as it
  stands.\<close>
theorem anchors_exist_and_differ:
  "case compute_hashline_anchors content of
     None \<Rightarrow> HASH_SPACE < length (split_anchor_lines content)
   | Some anchors \<Rightarrow>
       length anchors = length (split_anchor_lines content) \<and> length anchors \<le> HASH_SPACE \<and> distinct anchors
       \<and> list_all (\<lambda>a. normalize_hashline_anchor_token (Some (JStr a)) = Some a) anchors"
  using anchors_facts [of content] anchors_exist [of content]
  by (auto simp: list_all_iff token_normalizes split: option.splits)

subsection \<open>The index of a file\<close>

lemma fold_index:
  "map_of (foldl (\<lambda>m (a, i). AList.update a (i + 1) m) acc xs) a
     = (case map_of (rev xs) a of Some i \<Rightarrow> Some (i + 1) | None \<Rightarrow> map_of acc a)"
  by (induction xs arbitrary: acc) (auto simp: get_update map_add_def split: option.splits)

lemma index_anchors_get:
  assumes "distinct anchors"
  shows "map_of (index_anchors anchors) a = Some n \<longleftrightarrow> 0 < n \<and> n \<le> length anchors \<and> anchors ! (n - 1) = a"
proof -
  let ?z = "zip anchors [0..<length anchors]"
  have "distinct (map fst ?z)" using assms by (simp add: map_fst_zip)
  then have rv: "map_of (rev ?z) = map_of ?z" by (subst map_of_inject_set) (simp_all flip: rev_map)
  have g: "map_of (index_anchors anchors) a = (case map_of ?z a of Some i \<Rightarrow> Some (i + 1) | None \<Rightarrow> None)"
    by (simp only: index_anchors_def fold_index rv map_of.simps)
  have z: "map_of ?z a = Some i \<longleftrightarrow> i < length anchors \<and> anchors ! i = a" for i
    using \<open>distinct (map fst ?z)\<close> by (auto simp: map_of_eq_Some_iff in_set_zip)
  show ?thesis
  proof
    assume "map_of (index_anchors anchors) a = Some n"
    then obtain i where "map_of ?z a = Some i" "n = i + 1" unfolding g by (auto split: option.splits)
    then show "0 < n \<and> n \<le> length anchors \<and> anchors ! (n - 1) = a" using z by auto
  next
    assume "0 < n \<and> n \<le> length anchors \<and> anchors ! (n - 1) = a"
    then have "map_of ?z a = Some (n - 1)" unfolding z by auto
    then show "map_of (index_anchors anchors) a = Some n"
      unfolding g using \<open>0 < n \<and> _\<close> by simp
  qed
qed

lemma fold_counts:
  "map_of (foldl count_key acc keys) k
     = (if k \<in> set keys then Some ((case map_of acc k of Some n \<Rightarrow> n | None \<Rightarrow> 0) + count_list keys k) else map_of acc k)"
  by (induction keys arbitrary: acc) (auto simp: count_key_def get_update split: option.splits)

lemma content_unique_nth:
  "i < length lines \<Longrightarrow>
     content_unique lines ! i \<longleftrightarrow> count_list (map hash_source_key lines) (hash_source_key (lines ! i)) = 1"
  by (simp add: content_unique_def Let_def fold_counts)

lemma length_content_unique [simp]: "length (content_unique lines) = length lines"
  by (simp add: content_unique_def Let_def)

subsection \<open>The memo\<close>

definition memo_true :: "anchor_disk \<Rightarrow> anchor_cache \<Rightarrow> bool" where
  "memo_true disk cache \<longleftrightarrow> wf_fifo cache \<and>
     (\<forall>p e. map_of (entries cache) p = Some e \<longrightarrow>
        (\<exists>raw anchors. ad_read disk p = Some raw \<and> compute_hashline_anchors (normalize_to_lf raw) = Some anchors
           \<and> ai_index e = index_anchors anchors
           \<and> ai_unique e = content_unique (split_anchor_lines (normalize_to_lf raw))))"

lemma memo_true_empty: "memo_true disk empty_anchor_cache"
  by (simp add: memo_true_def empty_anchor_cache_def fifo_new_def wf_fifo_def)

lemma fifo_set_get:
  assumes "wf_fifo c" "map_of (entries (snd (fifo_set k v c))) p = Some e"
  shows "(p = k \<and> e = v) \<or> map_of (entries c) p = Some e"
proof -
  have "(p, e) \<in> set (entries (snd (fifo_set k v c)))" using assms(2) by (rule map_of_SomeD)
  then have "(p, e) \<in> set (AList.update k v (entries c))"
    by (auto simp: fifo_set_eq [OF assms(1)] Let_def dest: subsetD [OF set_lastn_subset])
  moreover have "wf_map (AList.update k v (entries c))" using assms(1) by (simp add: wf_fifo_def)
  ultimately have "map_of (AList.update k v (entries c)) p = Some e" by (simp add: map_of_is_SomeI)
  then show ?thesis by (auto simp: get_update split: if_splits)
qed

lemma read_anchor_index_keeps:
  assumes "memo_true disk cache"
  shows "memo_true disk (snd (read_anchor_index disk p stats cache))"
proof (cases "ad_read disk p")
  case (Some raw)
  show ?thesis
  proof (cases "compute_hashline_anchors (normalize_to_lf raw)")
    case (Some anchors)
    have wf: "wf_fifo cache" using assms by (simp add: memo_true_def)
    let ?e = "\<lparr>ai_index = index_anchors anchors, ai_unique = content_unique (split_anchor_lines (normalize_to_lf raw)),
      ae_mtime = as_mtime stats, ae_size = as_size stats\<rparr>"
    have "snd (read_anchor_index disk p stats cache) = snd (fifo_set p ?e cache)"
      using Some \<open>ad_read disk p = Some raw\<close> by (simp add: read_anchor_index_def Let_def)
    then show ?thesis
      using assms fifo_set_get [OF wf, of p ?e] fifo_set_wf [OF wf] Some \<open>ad_read disk p = Some raw\<close>
      unfolding memo_true_def by fastforce
  qed (use assms Some in \<open>simp add: read_anchor_index_def Let_def\<close>)
qed (use assms in \<open>simp add: read_anchor_index_def\<close>)

lemma build_anchor_index_keeps:
  "memo_true disk cache \<Longrightarrow> memo_true disk (snd (build_anchor_index disk p cache))"
  by (simp add: build_anchor_index_def read_anchor_index_keeps split: option.splits)

lemma resolve_keeps:
  "memo_true disk cache \<Longrightarrow> memo_true disk (snd (resolve_hashline_anchor disk p v cache))"
  using build_anchor_index_keeps [of disk cache p]
  by (auto simp: resolve_hashline_anchor_def split: option.splits prod.splits sum.splits)

text \<open>The memo after a sequence of questions on one disk.\<close>

definition ask_all :: "anchor_disk \<Rightarrow> (path \<times> json option) list \<Rightarrow> anchor_cache" where
  "ask_all disk asks =
     foldl (\<lambda>cache (p, v). snd (resolve_hashline_anchor disk p v cache)) empty_anchor_cache asks"

lemma ask_all_true: "memo_true disk (ask_all disk asks)"
proof -
  have "memo_true disk (foldl (\<lambda>cache (p, v). snd (resolve_hashline_anchor disk p v cache)) c asks)"
    if "memo_true disk c" for c
    using that by (induction asks arbitrary: c) (auto simp: resolve_keeps)
  then show ?thesis unfolding ask_all_def using memo_true_empty by blast
qed

lemma build_anchor_index_answer:
  assumes "memo_true disk cache" "ad_stat disk p = Some stats" "as_is_file stats" "as_size stats \<le> MAX_ANCHOR_FILE_BYTES"
    and "ad_read disk p = Some raw" "compute_hashline_anchors (normalize_to_lf raw) = Some anchors"
  shows "fst (build_anchor_index disk p cache)
    = Inr (index_anchors anchors, content_unique (split_anchor_lines (normalize_to_lf raw)))"
proof -
  have r: "fst (read_anchor_index disk p stats cache)
      = Inr (index_anchors anchors, content_unique (split_anchor_lines (normalize_to_lf raw)))"
    using assms(5,6) by (simp add: read_anchor_index_def Let_def)
  show ?thesis
  proof (cases "fifo_get cache p")
    case (Some hit)
    then have "ai_index hit = index_anchors anchors"
        "ai_unique hit = content_unique (split_anchor_lines (normalize_to_lf raw))"
      using assms(1,5,6) by (fastforce simp: memo_true_def fifo_get_def)+
    then show ?thesis using Some r assms(2-4) by (simp add: build_anchor_index_def)
  qed (use r assms(2-4) in \<open>simp add: build_anchor_index_def\<close>)
qed

text \<open>C34 (an anchor resolves to its line).  While the disk stays as it is, whatever was asked
  before, an anchor token resolves to line \<open>n\<close> of a readable file exactly when line \<open>n\<close> carries
  the anchor and its canonical content occurs nowhere else in the file; the memo changes no
  answer.\<close>
theorem anchor_resolves_to_its_line:
  assumes "ad_stat disk p = Some stats" "as_is_file stats" "as_size stats \<le> MAX_ANCHOR_FILE_BYTES"
    and "ad_read disk p = Some raw" "compute_hashline_anchors (normalize_to_lf raw) = Some anchors"
    and "normalize_hashline_anchor_token v = Some a"
  shows "fst (resolve_hashline_anchor disk p v (ask_all disk asks)) = Inr n \<longleftrightarrow>
    0 < n \<and> n \<le> length anchors \<and> anchors ! (n - 1) = a
    \<and> count_list (map hash_source_key (split_anchor_lines (normalize_to_lf raw)))
        (hash_source_key (split_anchor_lines (normalize_to_lf raw) ! (n - 1))) = 1"
proof -
  let ?lines = "split_anchor_lines (normalize_to_lf raw)"
  have f: "length anchors = length ?lines" "distinct anchors"
    using anchors_facts assms(5) by blast+
  obtain c where b: "build_anchor_index disk p (ask_all disk asks) = (Inr (index_anchors anchors, content_unique ?lines), c)"
    using build_anchor_index_answer [OF ask_all_true assms(1-5)] by (metis prod.collapse)
  have "fst (resolve_hashline_anchor disk p v (ask_all disk asks)) = Inr n \<longleftrightarrow>
      map_of (index_anchors anchors) a = Some n \<and> 0 < n \<and> n \<le> length ?lines \<and> content_unique ?lines ! (n - 1)"
    by (auto simp: resolve_hashline_anchor_def assms(6) b split: option.splits)
  also have "\<dots> \<longleftrightarrow> 0 < n \<and> n \<le> length anchors \<and> anchors ! (n - 1) = a \<and> content_unique ?lines ! (n - 1)"
    using index_anchors_get [OF f(2)] f(1) by auto
  also have "\<dots> \<longleftrightarrow> 0 < n \<and> n \<le> length anchors \<and> anchors ! (n - 1) = a
      \<and> count_list (map hash_source_key ?lines) (hash_source_key (?lines ! (n - 1))) = 1"
    using content_unique_nth [of "n - 1" ?lines] f(1) by auto
  finally show ?thesis .
qed

subsection \<open>Conformance vectors\<close>

text \<open>From \<^verbatim>\<open>tests/fixtures/hashline-edit-pro/anchor-vectors.json\<close>, generated by the tool itself.\<close>

lemma xxh32_vectors:
  "xxh32_bytes (utf8_encode []) = 46947589"
  "xxh32_bytes (utf8_encode ''a'') = 1426945110"
  "xxh32_bytes (utf8_encode ''abc'') = 852579327"
  "xxh32_bytes (utf8_encode ''hello world'') = 3468387874"
  "xxh32_bytes [230, 151, 165, 230, 156, 172, 232, 170, 158, 227, 129, 174, 227, 131, 134, 227, 130, 173, 227, 130, 185, 227, 131, 136, 232, 161, 140] = 2633891701"
  by code_simp+

definition sample_source :: string where
  "sample_source = ''function f() {'' @ LF # ''  return 1;'' @ LF # ''}'' @ LF # LF # ''function g() {'' @ LF #
     ''  return 1;'' @ LF # ''}'' @ [LF, LF]"

lemma sample_line_hashes:
  "xxh32_bytes (hash_source_bytes []) = 46947589"
  "xxh32_bytes (hash_source_bytes ''function f() {'') = 3648052106"
  "xxh32_bytes (hash_source_bytes ''  return 1;'') = 2313624197"
  "xxh32_bytes (hash_source_bytes ''}'') = 21281560"
  "xxh32_bytes (hash_source_bytes ''function g() {'') = 1739430458"
  by code_simp+

lemma sample_bases:
  "base_index [] = 2865" "base_index ''function f() {'' = 222659" "base_index ''  return 1;'' = 141212"
  "base_index ''}'' = 1298" "base_index ''function g() {'' = 106166"
  by (simp_all add: base_index_def sample_line_hashes HASH_SPACE_def drop_bit_eq_div)

lemma sample_lines:
  "split_anchor_lines sample_source = [''function f() {'', ''  return 1;'', ''}'', [], ''function g() {'',
     ''  return 1;'', ''}'', []]"
  by code_simp

lemma sample_slots:
  "assign_slots (\<lambda>_. 0) 0 (split_anchor_lines sample_source)
     = Some [222659, 141212, 1298, 2865, 106166, 110073, 113980, 117887]"
  by (simp add: sample_lines sample_bases Let_def next_zero_bit_def probe.simps HASH_PROBE_STRIDE_def HASH_SPACE_def)

lemma anchor_vectors:
  "compute_hashline_anchors sample_source
     = Some [''55R'', ''ktm'', ''AU6'', ''AuN'', ''bmW'', ''cnX'', ''doY'', ''epZ'']"
  unfolding compute_hashline_anchors_def Let_def sample_slots
  by (simp add: sample_lines HASH_SPACE_def index_to_anchor_eq ALPHABET_def)

definition sample_anchor_disk :: anchor_disk where
  "sample_anchor_disk = \<lparr>ad_stat = (\<lambda>p. Some \<lparr>as_is_file = True, as_size = 60, as_mtime = 1\<rparr>),
     ad_read = (\<lambda>p. Some sample_source)\<rparr>"

lemma anchor_resolves_to_its_line_witness:
  "fst (resolve_hashline_anchor sample_anchor_disk ''/a.ts'' (Some (JStr ''bmW''))
      (ask_all sample_anchor_disk [(''/a.ts'', Some (JStr ''AU6''))])) = Inr 5"
proof -
  have src: "normalize_to_lf sample_source = sample_source" by code_simp
  let ?s = "\<lparr>as_is_file = True, as_size = 60, as_mtime = 1\<rparr>"
  have 1: "ad_stat sample_anchor_disk ''/a.ts'' = Some ?s" "as_is_file ?s" "as_size ?s \<le> MAX_ANCHOR_FILE_BYTES"
      "ad_read sample_anchor_disk ''/a.ts'' = Some sample_source"
    by (simp_all add: sample_anchor_disk_def MAX_ANCHOR_FILE_BYTES_def)
  have 2: "compute_hashline_anchors (normalize_to_lf sample_source)
      = Some [''55R'', ''ktm'', ''AU6'', ''AuN'', ''bmW'', ''cnX'', ''doY'', ''epZ'']"
    unfolding src by (rule anchor_vectors)
  have 3: "normalize_hashline_anchor_token (Some (JStr ''bmW'')) = Some ''bmW''" by code_simp
  have "count_list (map hash_source_key (split_anchor_lines sample_source)) (hash_source_key ''function g() {'') = 1"
    unfolding sample_lines by code_simp
  then show ?thesis
    unfolding anchor_resolves_to_its_line [OF 1 2 3] src by (simp add: sample_lines)
qed

end
