(* ===== verification/Single_Flight.thy ===== *)
theory Single_Flight
  imports Lens_Prelude
begin

text \<open>
  \<^verbatim>\<open>clients/single-flight.ts\<close>: at most one execution per key.  A flight is an object with an
  identity, so flights live in a list and the registry maps a key to an index of it.

  The chain of a flight is asynchronous.  Its turns on the event loop are the operations below: a
  pass of the work ends, and the chain either starts the next pass or returns; the callback attached
  to the chain releases the key and settles the promise one turn later.  The work itself is a
  parameter: a pass ends with whatever result the environment chooses.  The generation is the
  counter an owner bumps; without the option it reads as 0.
\<close>

type_synonym key = string

datatype 'v phase = Running | Returned "string + 'v" | Settled "string + 'v"

record 'v flight =
  fl_key :: key
  fl_generation :: nat
  fl_rerun_requested :: bool
  fl_phase :: "'v phase"
  fl_passes :: nat

record flight_options =
  fo_generation :: bool
  fo_coalesce_trailing :: bool

record 'v registry =
  rf_flights :: "(key, nat) js_map"
  rf_all :: "'v flight list"

definition new_registry :: "'v registry" where
  "new_registry = \<lparr>rf_flights = [], rf_all = []\<rparr>"

definition current_generation :: "flight_options \<Rightarrow> nat \<Rightarrow> nat" where
  "current_generation opts g = (if fo_generation opts then g else 0)"

definition flight_of :: "'v registry \<Rightarrow> nat \<Rightarrow> 'v flight" where
  "flight_of r i = rf_all r ! i"

definition update_flight :: "nat \<Rightarrow> ('v flight \<Rightarrow> 'v flight) \<Rightarrow> 'v registry \<Rightarrow> 'v registry" where
  "update_flight i f r = r\<lparr>rf_all := (rf_all r)[i := f (flight_of r i)]\<rparr>"

text \<open>Only the flight that owns the key gives it up.\<close>

definition release :: "key \<Rightarrow> nat \<Rightarrow> 'v registry \<Rightarrow> 'v registry" where
  "release k i r =
     (if map_of (rf_flights r) k \<noteq> Some i then r else r\<lparr>rf_flights := AList.delete k (rf_flights r)\<rparr>)"

text \<open>The flight whose promise the caller gets.  A new flight starts its first pass at once.\<close>

definition run :: "flight_options \<Rightarrow> nat \<Rightarrow> key \<Rightarrow> 'v registry \<Rightarrow> nat \<times> 'v registry" where
  "run opts g k r =
     (let start = (length (rf_all r),
            r\<lparr>rf_flights := AList.update k (length (rf_all r)) (rf_flights r),
              rf_all := rf_all r @ [\<lparr>fl_key = k, fl_generation = current_generation opts g,
                fl_rerun_requested = False, fl_phase = Running, fl_passes = 1\<rparr>]\<rparr>)
      in case map_of (rf_flights r) k of
           Some existing \<Rightarrow>
             if fl_generation (flight_of r existing) = current_generation opts g then
               (existing,
                if fo_coalesce_trailing opts then update_flight existing (\<lambda>f. f\<lparr>fl_rerun_requested := True\<rparr>) r else r)
             else start
         | None \<Rightarrow> start)"

text \<open>A pass of a running flight ends: after a throw the chain returns whatever was requested.\<close>

definition pass_ends :: "nat \<Rightarrow> string + 'v \<Rightarrow> 'v registry \<Rightarrow> 'v registry" where
  "pass_ends i result r =
     update_flight i (\<lambda>f.
       case result of
         Inl err \<Rightarrow> f\<lparr>fl_phase := Returned (Inl err)\<rparr>
       | Inr v \<Rightarrow>
           if fl_rerun_requested f then f\<lparr>fl_rerun_requested := False, fl_passes := fl_passes f + 1\<rparr>
           else f\<lparr>fl_phase := Returned (Inr v)\<rparr>) r"

text \<open>The callback of a chain that has returned.\<close>

definition settle :: "nat \<Rightarrow> 'v registry \<Rightarrow> 'v registry" where
  "settle i r =
     (case fl_phase (flight_of r i) of
        Returned result \<Rightarrow>
          update_flight i (\<lambda>f. f\<lparr>fl_phase := Settled result\<rparr>) (release (fl_key (flight_of r i)) i r)
      | _ \<Rightarrow> r)"

definition has_flight :: "'v registry \<Rightarrow> key \<Rightarrow> bool" where
  "has_flight r k = has_key (rf_flights r) k"

definition registry_size :: "'v registry \<Rightarrow> nat" where
  "registry_size r = length (rf_flights r)"

definition clear :: "'v registry \<Rightarrow> 'v registry" where
  "clear r = r\<lparr>rf_flights := []\<rparr>"

subsection \<open>Runs\<close>

text \<open>
  A system state is the registry, the owner's generation and the joins so far: a join is the flight
  shared, how many passes it had started by then, and whether its chain was still running.
\<close>

record 'v system =
  sy_registry :: "'v registry"
  sy_generation :: nat
  sy_joins :: "(nat \<times> nat \<times> bool) list"

definition joined :: "flight_options \<Rightarrow> nat \<Rightarrow> key \<Rightarrow> 'v registry \<Rightarrow> bool" where
  "joined opts g k r \<longleftrightarrow>
     (case map_of (rf_flights r) k of
        Some i \<Rightarrow> fl_generation (flight_of r i) = current_generation opts g
      | None \<Rightarrow> False)"

inductive moves :: "flight_options \<Rightarrow> bool \<Rightarrow> 'v system \<Rightarrow> 'v system \<Rightarrow> bool"
  for opts :: flight_options and may_clear :: bool where
  move_run:
    "run opts (sy_generation s) k (sy_registry s) = (i, r) \<Longrightarrow>
     moves opts may_clear s
       (s\<lparr>sy_registry := r,
          sy_joins := (if joined opts (sy_generation s) k (sy_registry s)
            then (i, fl_passes (flight_of (sy_registry s) i), fl_phase (flight_of (sy_registry s) i) = Running) # sy_joins s
            else sy_joins s)\<rparr>)"
| move_pass:
    "i < length (rf_all (sy_registry s)) \<Longrightarrow> fl_phase (flight_of (sy_registry s) i) = Running \<Longrightarrow>
     moves opts may_clear s (s\<lparr>sy_registry := pass_ends i result (sy_registry s)\<rparr>)"
| move_settle:
    "i < length (rf_all (sy_registry s)) \<Longrightarrow> moves opts may_clear s (s\<lparr>sy_registry := settle i (sy_registry s)\<rparr>)"
| move_bump: "moves opts may_clear s (s\<lparr>sy_generation := sy_generation s + 1\<rparr>)"
| move_clear: "may_clear \<Longrightarrow> moves opts may_clear s (s\<lparr>sy_registry := clear (sy_registry s)\<rparr>)"

definition start_system :: "'v system" where
  "start_system = \<lparr>sy_registry = new_registry, sy_generation = 0, sy_joins = []\<rparr>"

inductive reachable :: "flight_options \<Rightarrow> bool \<Rightarrow> 'v system \<Rightarrow> bool"
  for opts :: flight_options and may_clear :: bool where
  reach_start: "reachable opts may_clear start_system"
| reach_move: "reachable opts may_clear s \<Longrightarrow> moves opts may_clear s s' \<Longrightarrow> reachable opts may_clear s'"

inductive_cases moveE: "moves opts may_clear s s'"

subsection \<open>The registry holds unsettled flights\<close>

definition settled :: "'v flight \<Rightarrow> bool" where
  "settled f \<longleftrightarrow> (case fl_phase f of Settled _ \<Rightarrow> True | _ \<Rightarrow> False)"

definition registry_ok :: "'v registry \<Rightarrow> bool" where
  "registry_ok r \<longleftrightarrow>
     wf_map (rf_flights r)
     \<and> (\<forall>k i. map_of (rf_flights r) k = Some i \<longrightarrow>
          i < length (rf_all r) \<and> fl_key (rf_all r ! i) = k \<and> \<not> settled (rf_all r ! i))"

lemma registry_okD:
  assumes "registry_ok r" "map_of (rf_flights r) k = Some i"
  shows "i < length (rf_all r)" "fl_key (rf_all r ! i) = k" "\<not> settled (rf_all r ! i)"
  using assms by (auto simp: registry_ok_def)

lemma registry_okI:
  assumes "wf_map (rf_flights r)"
    "\<And>k i. map_of (rf_flights r) k = Some i \<Longrightarrow> i < length (rf_all r) \<and> fl_key (rf_all r ! i) = k \<and> \<not> settled (rf_all r ! i)"
  shows "registry_ok r"
  unfolding registry_ok_def using assms by blast

lemma registry_ok_wf: "registry_ok r \<Longrightarrow> wf_map (rf_flights r)"
  by (simp add: registry_ok_def)

lemma update_flight_fields:
  "rf_flights (update_flight i f r) = rf_flights r" "length (rf_all (update_flight i f r)) = length (rf_all r)"
  "j < length (rf_all r) \<Longrightarrow> rf_all (update_flight i f r) ! j = (if j = i then f (rf_all r ! i) else rf_all r ! j)"
  by (auto simp: update_flight_def flight_of_def)

lemma update_flight_ok:
  assumes "registry_ok r" "\<And>f. fl_key (g f) = fl_key f"
    "i < length (rf_all r) \<Longrightarrow> \<not> settled (rf_all r ! i) \<Longrightarrow> \<not> settled (g (rf_all r ! i))"
  shows "registry_ok (update_flight i g r)"
proof (rule registry_okI)
  fix k j
  assume "map_of (rf_flights (update_flight i g r)) k = Some j"
  then have "map_of (rf_flights r) k = Some j" by (simp only: update_flight_fields)
  from registry_okD [OF assms(1) this] assms(2,3)
  show "j < length (rf_all (update_flight i g r)) \<and> fl_key (rf_all (update_flight i g r) ! j) = k
      \<and> \<not> settled (rf_all (update_flight i g r) ! j)"
    by (auto simp: update_flight_fields)
qed (simp only: update_flight_fields registry_ok_wf [OF assms(1)])

definition fresh_flight :: "flight_options \<Rightarrow> nat \<Rightarrow> key \<Rightarrow> 'v flight" where
  "fresh_flight opts g k = \<lparr>fl_key = k, fl_generation = current_generation opts g,
     fl_rerun_requested = False, fl_phase = Running, fl_passes = 1\<rparr>"

lemma run_cases:
  assumes "run opts g k r = (i, r')"
  obtains (join) "joined opts g k r" "map_of (rf_flights r) k = Some i"
      "fl_generation (rf_all r ! i) = current_generation opts g"
      "r' = (if fo_coalesce_trailing opts then update_flight i (\<lambda>f. f\<lparr>fl_rerun_requested := True\<rparr>) r else r)"
    | (start) "\<not> joined opts g k r" "i = length (rf_all r)"
      "r' = r\<lparr>rf_flights := AList.update k i (rf_flights r), rf_all := rf_all r @ [fresh_flight opts g k]\<rparr>"
  using assms by (auto simp: run_def joined_def Let_def fresh_flight_def flight_of_def split: option.splits if_splits)

lemma run_ok:
  assumes ok: "registry_ok r" and run: "run opts g k r = (i, r')"
  shows "registry_ok r'"
  using run
proof (cases rule: run_cases)
  case join
  then show ?thesis using ok by (auto intro!: update_flight_ok simp: settled_def)
next
  case start
  show ?thesis
  proof (rule registry_okI)
    fix k' j
    assume "map_of (rf_flights r') k' = Some j"
    then have "(k' = k \<and> j = i) \<or> map_of (rf_flights r) k' = Some j"
      by (simp add: start(3) get_update split: if_splits)
    then show "j < length (rf_all r') \<and> fl_key (rf_all r' ! j) = k' \<and> \<not> settled (rf_all r' ! j)"
      using registry_okD [OF ok, of k' j] by (auto simp: start(2,3) nth_append fresh_flight_def settled_def)
  qed (simp add: start(3) registry_ok_wf [OF ok])
qed

lemma pass_ends_ok:
  "registry_ok r \<Longrightarrow> fl_phase (flight_of r i) = Running \<Longrightarrow> registry_ok (pass_ends i result r)"
  unfolding pass_ends_def by (rule update_flight_ok) (auto simp: flight_of_def settled_def split: sum.splits)

lemma settle_ok:
  assumes ok: "registry_ok r" and i: "i < length (rf_all r)"
  shows "registry_ok (settle i r)"
proof (cases "fl_phase (flight_of r i)")
  case (Returned result)
  let ?k = "fl_key (rf_all r ! i)"
  let ?r = "release ?k i r"
  have st: "settle i r = update_flight i (\<lambda>f. f\<lparr>fl_phase := Settled result\<rparr>) ?r"
    using Returned by (simp add: settle_def flight_of_def)
  have all: "rf_all ?r = rf_all r" by (simp add: release_def)
  show ?thesis
  proof (rule registry_okI)
    fix k j
    assume "map_of (rf_flights (settle i r)) k = Some j"
    then have m: "map_of (rf_flights ?r) k = Some j" by (simp only: st update_flight_fields)
    then have old: "map_of (rf_flights r) k = Some j" by (auto simp: release_def get_delete split: if_splits)
    then have "j \<noteq> i" using m registry_okD(2) [OF ok old] by (auto simp: release_def get_delete split: if_splits)
    then show "j < length (rf_all (settle i r)) \<and> fl_key (rf_all (settle i r) ! j) = k \<and> \<not> settled (rf_all (settle i r) ! j)"
      using registry_okD [OF ok old] by (simp add: st update_flight_fields all)
  qed (simp add: st update_flight_fields release_def registry_ok_wf [OF ok])
qed (use ok in \<open>simp_all add: settle_def\<close>)

lemma clear_ok: "registry_ok (clear r)"
  by (rule registry_okI) (simp_all add: clear_def)

lemma reachable_registry_ok: "reachable opts c s \<Longrightarrow> registry_ok (sy_registry s)"
proof (induction rule: reachable.induct)
  case reach_start
  then show ?case by (simp add: start_system_def new_registry_def registry_ok_def)
next
  case (reach_move s s')
  from reach_move.hyps(2) reach_move.IH show ?case
    by (cases rule: moves.cases) (auto simp: pass_ends_ok settle_ok intro: run_ok clear_ok)
qed

text \<open>C31 (no key is wedged).  However calls, passes, failures, resets and clears are interleaved,
  a key of the registry leads to a flight of that key whose promise is not settled yet; so once
  every flight has settled, well or badly, the registry is empty and every key is free again.\<close>
theorem no_key_is_wedged:
  assumes "reachable opts c s"
  shows "(\<forall>k i. map_of (rf_flights (sy_registry s)) k = Some i \<longrightarrow>
      i < length (rf_all (sy_registry s)) \<and> fl_key (flight_of (sy_registry s) i) = k
      \<and> \<not> settled (flight_of (sy_registry s) i))
    \<and> (list_all settled (rf_all (sy_registry s)) \<longrightarrow> registry_size (sy_registry s) = 0)"
proof -
  note ok = registry_okD [OF reachable_registry_ok [OF assms]]
  have "rf_flights (sy_registry s) = []" if all: "list_all settled (rf_all (sy_registry s))"
  proof (rule ccontr)
    assume "rf_flights (sy_registry s) \<noteq> []"
    then obtain k i m where "rf_flights (sy_registry s) = (k, i) # m" by (cases "rf_flights (sy_registry s)") auto
    then have "map_of (rf_flights (sy_registry s)) k = Some i" by simp
    from ok(1,3) [OF this] all show False unfolding list_all_length by blast
  qed
  then show ?thesis using ok by (auto simp: flight_of_def registry_size_def)
qed

subsection \<open>One execution at a time\<close>

text \<open>A flight that lost its key belongs to an earlier generation.\<close>

definition current_owned :: "flight_options \<Rightarrow> nat \<Rightarrow> 'v registry \<Rightarrow> bool" where
  "current_owned opts g r \<longleftrightarrow>
     (\<forall>i < length (rf_all r). fl_generation (rf_all r ! i) \<le> current_generation opts g
        \<and> (\<not> settled (rf_all r ! i) \<longrightarrow> map_of (rf_flights r) (fl_key (rf_all r ! i)) = Some i
            \<or> fl_generation (rf_all r ! i) < current_generation opts g))"

definition one_each :: "'v registry \<Rightarrow> bool" where
  "one_each r \<longleftrightarrow>
     (\<forall>i j. i < length (rf_all r) \<longrightarrow> j < length (rf_all r) \<longrightarrow> i \<noteq> j \<longrightarrow>
        \<not> settled (rf_all r ! i) \<longrightarrow> \<not> settled (rf_all r ! j) \<longrightarrow> fl_key (rf_all r ! i) = fl_key (rf_all r ! j) \<longrightarrow>
        fl_generation (rf_all r ! i) \<noteq> fl_generation (rf_all r ! j))"

text \<open>Changing one flight without waking it, its key or its generation keeps both.\<close>

definition tamer :: "'v registry \<Rightarrow> 'v registry \<Rightarrow> bool" where
  "tamer r r' \<longleftrightarrow> length (rf_all r') = length (rf_all r)
     \<and> (\<forall>i < length (rf_all r). fl_key (rf_all r' ! i) = fl_key (rf_all r ! i)
          \<and> fl_generation (rf_all r' ! i) = fl_generation (rf_all r ! i)
          \<and> (settled (rf_all r ! i) \<longrightarrow> settled (rf_all r' ! i))
          \<and> (\<not> settled (rf_all r' ! i) \<longrightarrow> map_of (rf_flights r) (fl_key (rf_all r ! i)) = Some i \<longrightarrow>
               map_of (rf_flights r') (fl_key (rf_all r ! i)) = Some i))"

lemma tamer_keeps:
  assumes "tamer r r'" "current_owned opts g r" "one_each r"
  shows "current_owned opts g r' \<and> one_each r'"
proof
  show "one_each r'" using assms(1,3) unfolding tamer_def one_each_def by metis
  show "current_owned opts g r'" using assms(1,2) unfolding tamer_def current_owned_def by auto
qed

lemma update_tamer:
  assumes "\<And>f. fl_key (h f) = fl_key f \<and> fl_generation (h f) = fl_generation f" "\<And>f. settled f \<Longrightarrow> settled (h f)"
  shows "tamer r (update_flight i h r)"
  using assms by (auto simp: tamer_def update_flight_fields)

lemma rerun_tamer: "tamer r (update_flight i (\<lambda>f. f\<lparr>fl_rerun_requested := b\<rparr>) r)"
  by (rule update_tamer) (simp_all add: settled_def)

lemma pass_tamer:
  assumes "fl_phase (flight_of r i) = Running"
  shows "tamer r (pass_ends i result r)"
  unfolding tamer_def pass_ends_def using assms
  by (auto simp: update_flight_fields settled_def flight_of_def split: sum.splits)

lemma settle_tamer: "tamer r (settle i r)"
proof (cases "fl_phase (flight_of r i)")
  case (Returned result)
  then show ?thesis
    by (auto simp: tamer_def settle_def update_flight_fields settled_def release_def get_delete flight_of_def)
qed (simp_all add: settle_def tamer_def)

lemma start_keeps:
  assumes own: "current_owned opts g r" and one: "one_each r" and new: "\<not> joined opts g k r"
    and r': "r' = r\<lparr>rf_flights := AList.update k (length (rf_all r)) (rf_flights r), rf_all := rf_all r @ [fresh_flight opts g k]\<rparr>"
  shows "current_owned opts g r' \<and> one_each r'"
proof
  let ?n = "length (rf_all r)" and ?cur = "current_generation opts g"
  have old: "fl_generation (rf_all r ! j) < ?cur"
    if j: "j < ?n" "\<not> settled (rf_all r ! j)" "fl_key (rf_all r ! j) = k" for j
  proof -
    have "map_of (rf_flights r) k = Some j \<or> fl_generation (rf_all r ! j) < ?cur"
      and le: "fl_generation (rf_all r ! j) \<le> ?cur"
      using own j unfolding current_owned_def by auto
    moreover have "fl_generation (rf_all r ! j) \<noteq> ?cur" if "map_of (rf_flights r) k = Some j"
      using new that by (simp add: joined_def flight_of_def)
    ultimately show ?thesis using le by linarith
  qed
  have nth: "rf_all r' ! j = (if j < ?n then rf_all r ! j else fresh_flight opts g k)" if "j < Suc ?n" for j
    using that by (auto simp: r' nth_append less_Suc_eq)
  have len: "length (rf_all r') = Suc ?n" by (simp add: r')
  have own': "map_of (rf_flights r') x = (if x = k then Some ?n else map_of (rf_flights r) x)" for x
    by (simp add: r' get_update)
  show "current_owned opts g r'"
    unfolding current_owned_def len
  proof (intro allI impI)
    fix j
    assume j: "j < Suc ?n"
    show "fl_generation (rf_all r' ! j) \<le> ?cur \<and> (\<not> settled (rf_all r' ! j) \<longrightarrow>
        map_of (rf_flights r') (fl_key (rf_all r' ! j)) = Some j \<or> fl_generation (rf_all r' ! j) < ?cur)"
    proof (cases "j < ?n")
      case True
      then have "fl_generation (rf_all r ! j) \<le> ?cur" "\<not> settled (rf_all r ! j) \<longrightarrow>
          map_of (rf_flights r) (fl_key (rf_all r ! j)) = Some j \<or> fl_generation (rf_all r ! j) < ?cur"
        using own unfolding current_owned_def by auto
      then show ?thesis using old [OF True] True by (auto simp: nth [OF j] own')
    next
      case False
      then have "j = ?n" using j by simp
      then show ?thesis by (simp add: nth own' fresh_flight_def)
    qed
  qed
  show "one_each r'"
    unfolding one_each_def len
  proof (intro allI impI)
    fix i j
    assume ij: "i < Suc ?n" "j < Suc ?n" "i \<noteq> j" "\<not> settled (rf_all r' ! i)" "\<not> settled (rf_all r' ! j)"
      "fl_key (rf_all r' ! i) = fl_key (rf_all r' ! j)"
    consider "i < ?n" "j < ?n" | "i = ?n" "j < ?n" | "i < ?n" "j = ?n" using ij(1-3) by linarith
    then show "fl_generation (rf_all r' ! i) \<noteq> fl_generation (rf_all r' ! j)"
    proof cases
      case 1
      then show ?thesis using ij one unfolding one_each_def by (simp add: nth)
    next
      case 2
      then show ?thesis using ij old [of j] by (simp add: nth fresh_flight_def)
    next
      case 3
      then show ?thesis using ij old [of i] by (simp add: nth fresh_flight_def)
    qed
  qed
qed

lemma run_keeps:
  assumes run: "run opts g k r = (i, r')" and own: "current_owned opts g r" and one: "one_each r"
  shows "current_owned opts g r' \<and> one_each r'"
  using run
proof (cases rule: run_cases)
  case join
  have "tamer r r" by (simp add: tamer_def)
  then have "tamer r r'" unfolding join(4) by (simp add: rerun_tamer)
  from tamer_keeps [OF this own one] show ?thesis .
next
  case start
  from start_keeps [OF own one start(1)] show ?thesis using start(2,3) by blast
qed

lemma current_owned_bump: "current_owned opts g r \<Longrightarrow> current_owned opts (Suc g) r"
  unfolding current_owned_def current_generation_def by (auto intro: le_SucI less_SucI)

lemma reachable_one_each:
  "reachable opts False s \<Longrightarrow> current_owned opts (sy_generation s) (sy_registry s) \<and> one_each (sy_registry s)"
proof (induction rule: reachable.induct)
  case reach_start
  then show ?case by (simp add: start_system_def new_registry_def current_owned_def one_each_def)
next
  case (reach_move s s')
  then have own: "current_owned opts (sy_generation s) (sy_registry s)" and one: "one_each (sy_registry s)" by simp_all
  from reach_move.hyps(2) show ?case
  proof (cases rule: moves.cases)
    case (move_run k i r)
    then show ?thesis using run_keeps [OF _ own one] by simp
  next
    case (move_pass i result)
    from tamer_keeps [OF pass_tamer [OF move_pass(3)] own one] show ?thesis by (simp add: move_pass(1))
  next
    case (move_settle i)
    from tamer_keeps [OF settle_tamer own one] show ?thesis by (simp add: move_settle(1))
  qed (use own one current_owned_bump in auto)
qed

text \<open>As long as nobody clears the registry, two flights of one key
  that are both unsettled were started in different generations of the owner: within a generation a
  second caller always shares, even when a reset and later callers came between.\<close>
theorem one_execution_at_a_time:
  assumes "reachable opts False s" "i < length (rf_all (sy_registry s))" "j < length (rf_all (sy_registry s))" "i \<noteq> j"
    and "\<not> settled (flight_of (sy_registry s) i)" "\<not> settled (flight_of (sy_registry s) j)"
    and "fl_key (flight_of (sy_registry s) i) = fl_key (flight_of (sy_registry s) j)"
  shows "fl_generation (flight_of (sy_registry s) i) \<noteq> fl_generation (flight_of (sy_registry s) j)"
  using reachable_one_each [OF assms(1)] assms(2-) unfolding one_each_def flight_of_def by blast

subsection \<open>A trailing pass for every request\<close>

definition served :: "'v registry \<Rightarrow> nat \<times> nat \<times> bool \<Rightarrow> bool" where
  "served r join \<longleftrightarrow>
     (case join of (i, n, running) \<Rightarrow>
        i < length (rf_all r) \<and> n \<le> fl_passes (rf_all r ! i)
        \<and> (running \<longrightarrow> n < fl_passes (rf_all r ! i)
             \<or> (case fl_phase (rf_all r ! i) of
                  Running \<Rightarrow> fl_rerun_requested (rf_all r ! i)
                | Returned res \<Rightarrow> isl res
                | Settled res \<Rightarrow> isl res)))"

lemma run_serves:
  assumes ok: "registry_ok r" and run: "run opts g k r = (i, r')" and co: "fo_coalesce_trailing opts"
  shows "served r join \<Longrightarrow> served r' join"
    and "joined opts g k r \<Longrightarrow> served r' (i, fl_passes (flight_of r i), fl_phase (flight_of r i) = Running)"
proof -
  show "served r join \<Longrightarrow> served r' join" using run
  proof (cases rule: run_cases)
    case join
    then show "served r join \<Longrightarrow> served r' join"
      using co by (auto simp: served_def update_flight_fields split: prod.splits phase.splits)
  next
    case start
    then show "served r join \<Longrightarrow> served r' join"
      by (auto simp: served_def nth_append split: prod.splits phase.splits)
  qed
  show "joined opts g k r \<Longrightarrow> served r' (i, fl_passes (flight_of r i), fl_phase (flight_of r i) = Running)"
    using run
  proof (cases rule: run_cases)
    case join
    then show ?thesis using co registry_okD(1) [OF ok join(2)]
      by (auto simp: served_def update_flight_fields flight_of_def)
  qed simp
qed

lemma pass_serves:
  assumes "fl_phase (flight_of r i) = Running" "served r join"
  shows "served (pass_ends i result r) join"
  using assms
  by (auto simp: served_def pass_ends_def update_flight_fields flight_of_def split: prod.splits sum.splits phase.splits)

lemma settle_serves:
  assumes "served r join"
  shows "served (settle i r) join"
proof (cases "fl_phase (flight_of r i)")
  case (Returned result)
  have "rf_all (release k j r) = rf_all r" for k j by (simp add: release_def)
  then show ?thesis using assms Returned
    by (auto simp: served_def settle_def update_flight_fields flight_of_def split: prod.splits phase.splits)
qed (use assms in \<open>simp_all add: settle_def\<close>)

lemma served_clear: "served (clear r) join = served r join"
  by (simp add: served_def clear_def split: prod.splits phase.splits)

lemma reachable_served:
  "reachable opts c s \<Longrightarrow> fo_coalesce_trailing opts \<Longrightarrow> \<forall>join \<in> set (sy_joins s). served (sy_registry s) join"
proof (induction rule: reachable.induct)
  case reach_start
  then show ?case by (simp add: start_system_def)
next
  case (reach_move s s')
  note ok = reachable_registry_ok [OF reach_move.hyps(1)]
  have ih: "\<forall>join \<in> set (sy_joins s). served (sy_registry s) join" using reach_move by simp
  from reach_move.hyps(2) show ?case
  proof (cases rule: moves.cases)
    case (move_run k i r)
    then show ?thesis using run_serves [OF ok move_run(2) reach_move.prems] ih by auto
  next
    case (move_pass i result)
    then show ?thesis using pass_serves [OF move_pass(3)] ih by auto
  next
    case (move_settle i)
    then show ?thesis using ih by (auto intro: settle_serves)
  next
    case move_bump
    then show ?thesis using ih by simp
  next
    case move_clear
    then show ?thesis using ih by (simp add: served_clear)
  qed
qed

text \<open>C32 (a request mid-pass is served by a later pass).  With coalescing, a caller that joins a
  flight while its chain is running gets, unless a pass fails, the result of a pass that started
  after the call: the number of passes the flight had started then is below the number it settled
  with.\<close>
theorem request_is_served_by_a_later_pass:
  assumes "reachable opts c s" "fo_coalesce_trailing opts" "(i, n, True) \<in> set (sy_joins s)"
    and "fl_phase (flight_of (sy_registry s) i) = Settled (Inr v)"
  shows "n < fl_passes (flight_of (sy_registry s) i)"
  using reachable_served [OF assms(1,2)] assms(3,4) by (fastforce simp: served_def flight_of_def)

subsection \<open>Concrete runs\<close>

definition coalescing :: flight_options where
  "coalescing = \<lparr>fo_generation = True, fo_coalesce_trailing = True\<rparr>"

definition call :: "string \<Rightarrow> nat system \<Rightarrow> nat system" where
  "call k s = s\<lparr>sy_registry := snd (run coalescing (sy_generation s) k (sy_registry s)),
     sy_joins := (if joined coalescing (sy_generation s) k (sy_registry s)
       then (fst (run coalescing (sy_generation s) k (sy_registry s)),
             fl_passes (flight_of (sy_registry s) (fst (run coalescing (sy_generation s) k (sy_registry s)))),
             fl_phase (flight_of (sy_registry s) (fst (run coalescing (sy_generation s) k (sy_registry s)))) = Running) # sy_joins s
       else sy_joins s)\<rparr>"

definition finish_pass :: "nat \<Rightarrow> nat \<Rightarrow> nat system \<Rightarrow> nat system" where
  "finish_pass i v s = s\<lparr>sy_registry := pass_ends i (Inr v) (sy_registry s)\<rparr>"

definition settle_flight :: "nat \<Rightarrow> nat system \<Rightarrow> nat system" where
  "settle_flight i s = s\<lparr>sy_registry := settle i (sy_registry s)\<rparr>"

definition bump :: "nat system \<Rightarrow> nat system" where
  "bump s = s\<lparr>sy_generation := sy_generation s + 1\<rparr>"

lemma reach_call: "reachable coalescing c s \<Longrightarrow> reachable coalescing c (call k s)"
  by (erule reach_move) (unfold call_def, rule move_run, simp)

lemma reach_finish:
  "reachable coalescing c s \<Longrightarrow> i < length (rf_all (sy_registry s)) \<Longrightarrow> fl_phase (flight_of (sy_registry s) i) = Running
     \<Longrightarrow> reachable coalescing c (finish_pass i v s)"
  by (erule reach_move) (unfold finish_pass_def, rule move_pass)

lemma reach_settle:
  "reachable coalescing c s \<Longrightarrow> i < length (rf_all (sy_registry s)) \<Longrightarrow> reachable coalescing c (settle_flight i s)"
  by (erule reach_move) (unfold settle_flight_def, rule move_settle)

lemma reach_bump: "reachable coalescing c s \<Longrightarrow> reachable coalescing c (bump s)"
  by (erule reach_move) (unfold bump_def, rule move_bump)

lemmas reach_ops = reach_call reach_finish reach_settle reach_bump reach_start

definition sample_superseded :: "nat system" where
  "sample_superseded = call ''k'' (bump (call ''k'' start_system))"

lemma sample_superseded_reachable: "reachable coalescing False sample_superseded"
  unfolding sample_superseded_def by (intro reach_ops)

definition sample_coalesced :: "nat system" where
  "sample_coalesced = settle_flight 0 (finish_pass 0 2 (finish_pass 0 1 (call ''k'' (call ''k'' start_system))))"

lemma sample_coalesced_reachable: "reachable coalescing False sample_coalesced"
  unfolding sample_coalesced_def by (intro reach_ops) code_simp+

lemma no_key_is_wedged_witness: "registry_size (sy_registry sample_coalesced) = 0"
  by (rule conjunct2 [OF no_key_is_wedged [OF sample_coalesced_reachable], rule_format]) code_simp

lemma one_execution_at_a_time_witness:
  "fl_generation (flight_of (sy_registry sample_superseded) 0) \<noteq> fl_generation (flight_of (sy_registry sample_superseded) 1)"
  by (rule one_execution_at_a_time [OF sample_superseded_reachable]) code_simp+

lemma request_is_served_by_a_later_pass_witness: "1 < fl_passes (flight_of (sy_registry sample_coalesced) 0)"
  by (rule request_is_served_by_a_later_pass [OF sample_coalesced_reachable, where v = 2]) code_simp+

text \<open>
  The turn between the return of a chain and its callback is open: a call in it joins the flight and
  sets a rerun bit nobody reads any more, and the caller gets the result of a pass that had ended
  before the call.
\<close>

definition sample_late :: "nat system" where
  "sample_late = settle_flight 0 (call ''k'' (finish_pass 0 1 (call ''k'' start_system)))"

lemma late_request_is_not_served:
  "reachable coalescing False sample_late
   \<and> sy_joins sample_late = [(0, 1, False)]
   \<and> fl_phase (flight_of (sy_registry sample_late) 0) = Settled (Inr 1)
   \<and> fl_passes (flight_of (sy_registry sample_late) 0) = 1
   \<and> fl_rerun_requested (flight_of (sy_registry sample_late) 0)"
proof (intro conjI)
  show "reachable coalescing False sample_late" unfolding sample_late_def by (intro reach_ops) code_simp+
qed code_simp+

end
