(* ===== verification/Path_Keyed_Map.thy ===== *)
theory Path_Keyed_Map
  imports Bounded_Cache Path_Keys
begin

text \<open>
  \<^verbatim>\<open>clients/path-keyed-map.ts\<close>: a map that folds every key through the normalizer it was built with
  and keeps the path as it was last written beside the value.  The normalizer is an argument of the
  operations, because the answer of a file-system-aware one may change between two calls.

  The locale \<open>keyed_store\<close> states what a client of the map relies on.
\<close>

record 'v path_entry =
  pe_display :: path
  pe_value :: 'v

datatype 'v path_map =
    Unbounded "(path, 'v path_entry) js_map"
  | Bounded "(path, 'v path_entry) fifo_map"

definition pm_new :: "int option \<Rightarrow> 'v path_map" where
  "pm_new cap = (case cap of None \<Rightarrow> Unbounded [] | Some n \<Rightarrow> Bounded (fifo_new n))"

definition pm_store :: "'v path_map \<Rightarrow> (path, 'v path_entry) js_map" where
  "pm_store m = (case m of Unbounded s \<Rightarrow> s | Bounded c \<Rightarrow> entries c)"

definition pm_size :: "'v path_map \<Rightarrow> nat" where
  "pm_size m = length (pm_store m)"

definition pm_get :: "(path \<Rightarrow> path) \<Rightarrow> path \<Rightarrow> 'v path_map \<Rightarrow> 'v option" where
  "pm_get nrm p m = map_option pe_value (map_of (pm_store m) (nrm p))"

definition pm_has :: "(path \<Rightarrow> path) \<Rightarrow> path \<Rightarrow> 'v path_map \<Rightarrow> bool" where
  "pm_has nrm p m = has_key (pm_store m) (nrm p)"

definition pm_set :: "(path \<Rightarrow> path) \<Rightarrow> path \<Rightarrow> 'v \<Rightarrow> 'v path_map \<Rightarrow> 'v path_map" where
  "pm_set nrm p v m =
     (let e = \<lparr>pe_display = p, pe_value = v\<rparr>
      in case m of
           Unbounded s \<Rightarrow> Unbounded (AList.update (nrm p) e s)
         | Bounded c \<Rightarrow> Bounded (snd (fifo_set (nrm p) e c)))"

definition pm_store_delete :: "path \<Rightarrow> 'v path_map \<Rightarrow> 'v path_map" where
  "pm_store_delete k m =
     (case m of Unbounded s \<Rightarrow> Unbounded (AList.delete k s) | Bounded c \<Rightarrow> Bounded (snd (fifo_delete k c)))"

definition pm_delete :: "(path \<Rightarrow> path) \<Rightarrow> path \<Rightarrow> 'v path_map \<Rightarrow> bool \<times> 'v path_map" where
  "pm_delete nrm p m =
     (if has_key (pm_store m) (nrm p) then (True, pm_store_delete (nrm p) m)
      else case find (\<lambda>(k, e). pe_display e = p) (pm_store m) of
             Some (k, e) \<Rightarrow> (True, pm_store_delete k m)
           | None \<Rightarrow> (False, m))"

definition pm_clear :: "'v path_map \<Rightarrow> 'v path_map" where
  "pm_clear m = (case m of Unbounded s \<Rightarrow> Unbounded [] | Bounded c \<Rightarrow> Bounded (fifo_clear c))"

definition pm_keys :: "'v path_map \<Rightarrow> path list" where
  "pm_keys m = map (pe_display \<circ> snd) (pm_store m)"

definition pm_values :: "'v path_map \<Rightarrow> 'v list" where
  "pm_values m = map (pe_value \<circ> snd) (pm_store m)"

definition pm_entries :: "'v path_map \<Rightarrow> (path \<times> 'v) list" where
  "pm_entries m = map (\<lambda>(k, e). (pe_display e, pe_value e)) (pm_store m)"

subsection \<open>The contract\<close>

locale keyed_store =
  fixes get :: "path \<Rightarrow> 's \<Rightarrow> 'v option"
    and put :: "path \<Rightarrow> 'v \<Rightarrow> 's \<Rightarrow> 's"
    and key :: "path \<Rightarrow> path"
    and inv :: "'s \<Rightarrow> bool"
  assumes put_inv: "inv s \<Longrightarrow> inv (put p v s)"
    and get_put: "inv s \<Longrightarrow> key q = key p \<Longrightarrow> get q (put p v s) = Some v"
    and get_put_other: "inv s \<Longrightarrow> key q \<noteq> key p \<Longrightarrow> get q (put p v s) = Some w \<Longrightarrow> get q s = Some w"
    and get_same: "key q = key p \<Longrightarrow> get q s = get p s"
begin

text \<open>Whatever a sequence of writes leaves, a path holds the last value written under its key.\<close>

fun put_all :: "(path \<times> 'v) list \<Rightarrow> 's \<Rightarrow> 's" where
  "put_all [] s = s"
| "put_all ((p, v) # pvs) s = put_all pvs (put p v s)"

lemma put_all_inv: "inv s \<Longrightarrow> inv (put_all pvs s)"
  by (induction pvs s rule: put_all.induct) (auto intro: put_inv)

lemma put_all_last:
  "inv s \<Longrightarrow> get q (put_all pvs s) = Some w \<Longrightarrow>
   (\<exists>p. (p, w) \<in> set pvs \<and> key p = key q) \<or> get q s = Some w"
proof (induction pvs s rule: put_all.induct)
  case (2 p v pvs s)
  then show ?case
    by (cases "key q = key p") (auto intro: put_inv dest: get_put_other simp: get_put)
qed simp

text \<open>A value read back is a value that was put, so a predicate of the values is kept by every put.\<close>

definition holds :: "('v \<Rightarrow> bool) \<Rightarrow> 's \<Rightarrow> bool" where
  "holds P s \<longleftrightarrow> (\<forall>q w. get q s = Some w \<longrightarrow> P w)"

lemma holds_put: "inv s \<Longrightarrow> holds P s \<Longrightarrow> P v \<Longrightarrow> holds P (put p v s)"
  unfolding holds_def by (metis get_put get_put_other option.inject)

end

subsection \<open>The map provides it\<close>

definition pm_inv :: "'v path_map \<Rightarrow> bool" where
  "pm_inv m \<longleftrightarrow>
     (case m of Unbounded s \<Rightarrow> wf_map s | Bounded c \<Rightarrow> bounded_inv c \<and> 0 < max_entries c)"

lemma pm_inv_wf: "pm_inv m \<Longrightarrow> wf_map (pm_store m)"
  by (auto simp: pm_inv_def pm_store_def bounded_inv_def wf_fifo_def split: path_map.splits)

lemma pm_inv_new: "pm_inv (pm_new None)" "0 < n \<Longrightarrow> pm_inv (pm_new (Some n))"
  by (simp_all add: pm_inv_def pm_new_def bounded_inv_def wf_fifo_def fifo_new_def fifo_size_def)

lemma pm_set_inv: "pm_inv m \<Longrightarrow> pm_inv (pm_set nrm p v m)"
  by (cases m) (auto simp: pm_inv_def pm_set_def Let_def fifo.put_inv fifo.put_cap)

lemma pm_set_here: "pm_inv m \<Longrightarrow> map_of (pm_store (pm_set nrm p v m)) (nrm p) = Some \<lparr>pe_display = p, pe_value = v\<rparr>"
  by (cases m) (auto simp: pm_inv_def pm_store_def pm_set_def Let_def get_update fifo.put_keeps)

text \<open>A write may push an older entry out, and changes no other.\<close>

lemma pm_set_subset:
  assumes "pm_inv m"
  shows "set (pm_store (pm_set nrm p v m)) \<subseteq>
    insert (nrm p, \<lparr>pe_display = p, pe_value = v\<rparr>) {e \<in> set (pm_store m). fst e \<noteq> nrm p}"
proof (cases m)
  case (Unbounded s)
  with assms show ?thesis by (auto simp: pm_inv_def pm_store_def pm_set_def Let_def set_update)
next
  case (Bounded c)
  with assms fifo.put_conserves [of c "nrm p" "\<lparr>pe_display = p, pe_value = v\<rparr>"] show ?thesis
    by (auto simp: pm_inv_def pm_store_def pm_set_def Let_def)
qed

lemma pm_set_there:
  assumes "pm_inv m" "k \<noteq> nrm p" "map_of (pm_store (pm_set nrm p v m)) k = Some e"
  shows "map_of (pm_store m) k = Some e"
proof -
  have "(k, e) \<in> set (pm_store m)"
    using map_of_SomeD [OF assms(3)] pm_set_subset [OF assms(1), of nrm p v] assms(2) by auto
  then show ?thesis using pm_inv_wf [OF assms(1)] by simp
qed

interpretation pm: keyed_store "pm_get nrm" "pm_set nrm" nrm pm_inv
  by unfold_locales (auto simp: pm_set_inv pm_get_def pm_set_here dest: pm_set_there)

lemma pm_size_bounded: "pm_inv (Bounded c) \<Longrightarrow> int (pm_size (Bounded c)) \<le> max_entries c"
  by (auto simp: pm_inv_def pm_size_def pm_store_def bounded_inv_def fifo_size_def)

subsection \<open>Keys and display paths\<close>

text \<open>Each entry stands under the normal form of the path it displays.\<close>

definition well_keyed :: "(path \<Rightarrow> path) \<Rightarrow> 'v path_map \<Rightarrow> bool" where
  "well_keyed nrm m \<longleftrightarrow> (\<forall>(k, e) \<in> set (pm_store m). k = nrm (pe_display e))"

lemma well_keyed_new: "well_keyed nrm (pm_new cap)"
  by (simp add: well_keyed_def pm_new_def pm_store_def fifo_new_def split: option.split)

lemma well_keyed_set: "pm_inv m \<Longrightarrow> well_keyed nrm m \<Longrightarrow> well_keyed nrm (pm_set nrm p v m)"
  using pm_set_subset [of m nrm p v] by (fastforce simp: well_keyed_def)

lemma pm_store_delete_eq [simp]: "pm_store (pm_store_delete k m) = AList.delete k (pm_store m)"
  by (simp add: pm_store_delete_def pm_store_def fifo_delete_def split: path_map.split)

lemma pm_store_delete_inv: "pm_inv m \<Longrightarrow> pm_inv (pm_store_delete k m)"
proof (cases m)
  case (Bounded c)
  have "length (AList.delete k (entries c)) \<le> length (entries c)" by (simp add: AList.delete_eq)
  then show "pm_inv m \<Longrightarrow> ?thesis" using Bounded
    by (auto simp: pm_inv_def pm_store_delete_def fifo_delete_def bounded_inv_def wf_fifo_def fifo_size_def)
qed (auto simp: pm_inv_def pm_store_delete_def)

lemma well_keyed_delete: "well_keyed nrm m \<Longrightarrow> well_keyed nrm (pm_store_delete k m)"
  by (auto simp: well_keyed_def set_delete)

lemma pm_delete_inv: "pm_inv m \<Longrightarrow> pm_inv (snd (pm_delete nrm p m))"
  by (auto simp: pm_delete_def pm_store_delete_inv split: option.split prod.split)

lemma pm_keys_distinct: "pm_inv m \<Longrightarrow> well_keyed nrm m \<Longrightarrow> distinct (map nrm (pm_keys m))"
proof -
  assume m: "pm_inv m" "well_keyed nrm m"
  have "map nrm (pm_keys m) = keys_of (pm_store m)"
    using m(2) by (auto simp: pm_keys_def well_keyed_def)
  then show ?thesis using pm_inv_wf [OF m(1)] by simp
qed

text \<open>
  A path the map displays can be deleted whatever the normalizer answers by then: an entry goes, and
  the map never keeps more than it had.
\<close>

lemma displayed_path_deletes:
  assumes "p \<in> set (pm_keys m)"
  shows "fst (pm_delete nrm p m) \<and> pm_size (snd (pm_delete nrm p m)) < pm_size m"
proof -
  have less: "length (AList.delete k es) < length es" if "k \<in> set (keys_of es)" for k and es :: "(path, 'a path_entry) js_map"
    using that by (auto simp: AList.delete_eq intro!: length_filter_less)
  show ?thesis
  proof (cases "has_key (pm_store m) (nrm p)")
    case True
    then show ?thesis using less [of "nrm p" "pm_store m"]
      by (simp add: pm_delete_def pm_size_def) (metis has_key_iff option.discI set_map)
  next
    case False
    obtain k e where "find (\<lambda>(k, e). pe_display e = p) (pm_store m) = Some (k, e)"
      using assms by (cases "find (\<lambda>(k, e). pe_display e = p) (pm_store m)")
        (auto simp: pm_keys_def find_None_iff, blast)
    moreover from this have "(k, e) \<in> set (pm_store m)" by (metis find_Some_iff nth_mem)
    moreover from this have "k \<in> set (keys_of (pm_store m))" by force
    ultimately show ?thesis using False less [of k "pm_store m"]
      by (simp add: pm_delete_def pm_size_def del: not_None_eq)
  qed
qed

end
