(* ===== verification/Text_Search.thy ===== *)
theory Text_Search
  imports Lens_Prelude
begin

text \<open>
  What the text components use of JavaScript's \<^verbatim>\<open>String\<close>: \<^verbatim>\<open>indexOf\<close>, \<^verbatim>\<open>includes\<close>, \<^verbatim>\<open>slice\<close>, and the loop
  that steps from one occurrence to the next without overlap, which several files of the source write
  out again (\<^verbatim>\<open>countLfOccurrences\<close>, \<^verbatim>\<open>countRawOccurrences\<close>, \<^verbatim>\<open>countOccurrences\<close>, \<^verbatim>\<open>findOccurrenceLines\<close>).
  The loop does not end on an empty needle; three of the four callers test for that first.
\<close>

named_theorems search_laws
  \<open>what indexOf finds, and what it does not\<close>

definition occurs_at :: "'a list \<Rightarrow> 'a list \<Rightarrow> nat \<Rightarrow> bool" where
  "occurs_at hay needle i \<longleftrightarrow> i + length needle \<le> length hay \<and> take (length needle) (drop i hay) = needle"

fun text_index :: "'a list \<Rightarrow> 'a list \<Rightarrow> nat option" where
  "text_index [] needle = (if needle = [] then Some 0 else None)"
| "text_index (c # s) needle =
     (if take (length needle) (c # s) = needle then Some 0 else map_option Suc (text_index s needle))"

definition index_from :: "'a list \<Rightarrow> 'a list \<Rightarrow> nat \<Rightarrow> nat option" where
  "index_from hay needle pos = map_option ((+) pos) (text_index (drop pos hay) needle)"

definition contains_text :: "'a list \<Rightarrow> 'a list \<Rightarrow> bool" where
  "contains_text hay needle \<longleftrightarrow> text_index hay needle \<noteq> None"

text \<open>\<^verbatim>\<open>s.slice(a, b)\<close>: a negative offset counts from the end, and both are held inside the string.\<close>

definition slice_offset :: "'a list \<Rightarrow> int \<Rightarrow> nat" where
  "slice_offset s k = (if k < 0 then nat (int (length s) + k) else min (nat k) (length s))"

definition js_slice :: "'a list \<Rightarrow> int \<Rightarrow> int \<Rightarrow> 'a list" where
  "js_slice s a b = take (slice_offset s b - slice_offset s a) (drop (slice_offset s a) s)"

definition js_slice_from :: "'a list \<Rightarrow> int \<Rightarrow> 'a list" where
  "js_slice_from s a = drop (slice_offset s a) s"

text \<open>
  \<^verbatim>\<open>while (pos < s.length) { idx = s.indexOf(needle, pos); if (idx === -1) break; ...; pos = idx + needle.length }\<close>
  with the offsets it visits.  The value \<open>None\<close> is a loop that does not return.
\<close>

partial_function (option) scan_from :: "'a list \<Rightarrow> 'a list \<Rightarrow> nat \<Rightarrow> nat list option" where
  "scan_from hay needle pos =
     (if pos < length hay
      then case index_from hay needle pos of
             None \<Rightarrow> Some []
           | Some i \<Rightarrow> Option.bind (scan_from hay needle (i + length needle)) (\<lambda>rest. Some (i # rest))
      else Some [])"

lemma index_from_ge: "index_from hay needle pos = Some i \<Longrightarrow> pos \<le> i"
  by (auto simp: index_from_def)

text \<open>The same loop behind a test that the needle is not empty.\<close>

function occurrences_from :: "'a list \<Rightarrow> 'a list \<Rightarrow> nat \<Rightarrow> nat list" where
  "occurrences_from hay needle pos =
     (if needle = [] \<or> length hay \<le> pos then []
      else case index_from hay needle pos of
             None \<Rightarrow> []
           | Some i \<Rightarrow> i # occurrences_from hay needle (i + length needle))"
  by pat_completeness auto

termination
proof (relation "measure (\<lambda>(hay, needle, pos). length hay - pos)", simp, clarsimp, goal_cases)
  case (1 hay needle pos i)
  then show ?case using index_from_ge [of hay needle pos i] by (cases needle) auto
qed

declare occurrences_from.simps [simp del]

definition occurrences :: "'a list \<Rightarrow> 'a list \<Rightarrow> nat list" where
  "occurrences hay needle = occurrences_from hay needle 0"

definition count_occurrences :: "'a list \<Rightarrow> 'a list \<Rightarrow> nat" where
  "count_occurrences hay needle = length (occurrences hay needle)"

subsection \<open>Searching\<close>

lemma occurs_at_Nil_hay: "occurs_at [] needle i \<longleftrightarrow> i = 0 \<and> needle = []"
  by (auto simp: occurs_at_def)

lemma occurs_at_0: "occurs_at hay needle 0 \<longleftrightarrow> take (length needle) hay = needle"
  by (auto simp: occurs_at_def) (metis length_take min.cobounded1)

lemma occurs_at_Suc: "occurs_at (c # hay) needle (Suc i) \<longleftrightarrow> occurs_at hay needle i"
  by (simp add: occurs_at_def)

lemma occurs_at_drop: "k \<le> length hay \<Longrightarrow> occurs_at (drop k hay) needle i \<longleftrightarrow> occurs_at hay needle (k + i)"
  by (auto simp: occurs_at_def add.commute)

lemma occurs_at_bound: "occurs_at hay needle i \<Longrightarrow> i + length needle \<le> length hay"
  by (simp add: occurs_at_def)

lemma text_index_Some [search_laws]:
  "text_index hay needle = Some i \<longleftrightarrow> occurs_at hay needle i \<and> (\<forall>j < i. \<not> occurs_at hay needle j)"
proof (induction hay needle arbitrary: i rule: text_index.induct)
  case (2 c s needle)
  show ?case
  proof (cases "take (length needle) (c # s) = needle")
    case True
    then have "occurs_at (c # s) needle 0" by (simp add: occurs_at_0)
    with True show ?thesis by (cases i) auto
  next
    case False
    then have "\<not> occurs_at (c # s) needle 0" by (simp add: occurs_at_0)
    with False 2 show ?thesis by (cases i) (auto simp: occurs_at_Suc less_Suc_eq_0_disj)
  qed
qed (auto simp: occurs_at_Nil_hay)

lemma text_index_None [search_laws]: "text_index hay needle = None \<longleftrightarrow> (\<forall>i. \<not> occurs_at hay needle i)"
proof (induction hay needle rule: text_index.induct)
  case (2 c s needle)
  show ?case
  proof (cases "take (length needle) (c # s) = needle")
    case True
    then have "occurs_at (c # s) needle 0" by (simp add: occurs_at_0)
    with True show ?thesis by auto
  next
    case False
    then have "\<not> occurs_at (c # s) needle 0" by (simp add: occurs_at_0)
    then have "(\<exists>i. occurs_at (c # s) needle i) \<longleftrightarrow> (\<exists>i. occurs_at s needle i)"
      by (metis not0_implies_Suc occurs_at_Suc)
    with False 2 show ?thesis by auto
  qed
qed (auto simp: occurs_at_Nil_hay)

lemma index_from_Some [search_laws]:
  assumes "pos \<le> length hay"
  shows "index_from hay needle pos = Some i \<longleftrightarrow>
    pos \<le> i \<and> occurs_at hay needle i \<and> (\<forall>j. pos \<le> j \<and> j < i \<longrightarrow> \<not> occurs_at hay needle j)"
    (is "?l \<longleftrightarrow> ?r")
proof
  assume ?l
  then obtain k where k: "text_index (drop pos hay) needle = Some k" "i = pos + k"
    by (auto simp: index_from_def)
  have "\<not> occurs_at hay needle j" if "pos \<le> j" "j < i" for j
  proof -
    have "\<not> occurs_at (drop pos hay) needle (j - pos)" using k that by (simp add: text_index_Some)
    then show ?thesis using that occurs_at_bound [of hay needle j] by (auto simp: occurs_at_drop)
  qed
  then show ?r using k assms by (auto simp: text_index_Some occurs_at_drop)
next
  assume r: ?r
  then have "text_index (drop pos hay) needle = Some (i - pos)"
    using occurs_at_bound [of hay needle i] by (auto simp: text_index_Some occurs_at_drop)
  then show ?l using r by (simp add: index_from_def)
qed

lemma index_from_None [search_laws]:
  "pos \<le> length hay \<Longrightarrow> index_from hay needle pos = None \<longleftrightarrow> (\<forall>i \<ge> pos. \<not> occurs_at hay needle i)"
  by (auto simp: index_from_def text_index_None occurs_at_drop dest: occurs_at_bound)
    (metis le_add_diff_inverse le_add1 le_trans add_leE occurs_at_bound)

lemma contains_text_iff: "contains_text hay needle \<longleftrightarrow> (\<exists>i. occurs_at hay needle i)"
  by (simp add: contains_text_def text_index_None)

lemma occurs_at_parts:
  "occurs_at hay needle i \<longleftrightarrow> i \<le> length hay \<and> (\<exists>rest. drop i hay = needle @ rest)"
proof
  assume r: "i \<le> length hay \<and> (\<exists>rest. drop i hay = needle @ rest)"
  then obtain rest where d: "drop i hay = needle @ rest" by blast
  then have "length hay - i = length needle + length rest" by (metis length_append length_drop)
  with r d show "occurs_at hay needle i" by (simp add: occurs_at_def)
next
  assume "occurs_at hay needle i"
  then show "i \<le> length hay \<and> (\<exists>rest. drop i hay = needle @ rest)"
    by (auto simp: occurs_at_def) (metis append_take_drop_id)
qed

lemma occurs_at_nth:
  "occurs_at hay needle i \<longleftrightarrow>
     i + length needle \<le> length hay \<and> (\<forall>k < length needle. hay ! (i + k) = needle ! k)"
  by (auto simp: occurs_at_def list_eq_iff_nth_eq)

lemma occurs_at_empty [simp]: "occurs_at hay [] i \<longleftrightarrow> i \<le> length hay"
  by (simp add: occurs_at_def)
subsection \<open>The loop\<close>

lemma index_from_empty: "pos \<le> length hay \<Longrightarrow> index_from hay [] pos = Some pos"
  by (simp add: index_from_Some)

text \<open>An empty needle is found where the search starts, so the loop stays there.\<close>

lemma scan_from_empty: "pos < length hay \<Longrightarrow> scan_from hay [] pos = None"
proof -
  have stays: "needle = [] \<longrightarrow> \<not> pos < length hay"
    if ret: "scan_from hay needle pos = Some r" for hay needle :: "'a list" and pos r
    by (rule scan_from.raw_induct [where P = "\<lambda>hay needle pos r. needle = [] \<longrightarrow> \<not> pos < length hay", OF _ ret])
      (auto simp: index_from_empty split: if_splits option.splits bind_splits)
  show "pos < length hay \<Longrightarrow> ?thesis" using stays by fastforce
qed

lemma scan_from_ne: "needle \<noteq> [] \<Longrightarrow> scan_from hay needle pos = Some (occurrences_from hay needle pos)"
proof (induction hay needle pos rule: occurrences_from.induct)
  case (1 hay needle pos)
  show ?case
  proof (cases "length hay \<le> pos")
    case True
    then show ?thesis by (simp add: scan_from.simps occurrences_from.simps)
  next
    case False
    then show ?thesis using 1 by (cases "index_from hay needle pos")
      (simp_all add: scan_from.simps [of hay needle pos] occurrences_from.simps [of hay needle pos])
  qed
qed

lemma occurrences_from_step:
  "needle \<noteq> [] \<Longrightarrow> pos < length hay \<Longrightarrow>
   occurrences_from hay needle pos =
     (case index_from hay needle pos of None \<Rightarrow> [] | Some i \<Rightarrow> i # occurrences_from hay needle (i + length needle))"
  by (simp add: occurrences_from.simps [of hay needle pos])

lemma occurrences_from_stop: "needle = [] \<or> length hay \<le> pos \<Longrightarrow> occurrences_from hay needle pos = []"
  by (auto simp: occurrences_from.simps [of hay needle pos])

lemma occurrences_from_sound:
  "i \<in> set (occurrences_from hay needle pos) \<Longrightarrow> pos \<le> i \<and> occurs_at hay needle i"
proof (induction hay needle pos rule: occurrences_from.induct)
  case (1 hay needle pos)
  then have go: "needle \<noteq> []" "pos < length hay"
    using occurrences_from_stop [of needle hay pos] by (auto simp: not_le [symmetric])
  with 1 obtain k where k: "index_from hay needle pos = Some k"
    by (cases "index_from hay needle pos") (simp_all add: occurrences_from_step)
  then have "pos \<le> k \<and> occurs_at hay needle k" using go by (simp add: index_from_Some)
  moreover from k 1 go have "i = k \<or> k + length needle \<le> i \<and> occurs_at hay needle i"
    by (auto simp: occurrences_from_step)
  ultimately show ?case by auto
qed

text \<open>What the loop steps over overlaps what it has found.\<close>

lemma occurrences_from_complete:
  assumes "occurs_at hay needle j" "pos \<le> j" "needle \<noteq> []"
  shows "\<exists>i \<in> set (occurrences_from hay needle pos). i \<le> j \<and> j < i + length needle"
  using assms
proof (induction hay needle pos rule: occurrences_from.induct)
  case (1 hay needle pos)
  then have inside: "pos < length hay" using occurs_at_bound [of hay needle j] by (cases needle) auto
  then obtain i where i: "index_from hay needle pos = Some i" using 1 by (metis index_from_None less_imp_le not_None_eq)
  then have "i \<le> j" using 1 inside by (auto simp: index_from_Some not_less [symmetric])
  moreover have "occurrences_from hay needle pos = i # occurrences_from hay needle (i + length needle)"
    using 1 inside i by (simp add: occurrences_from_step)
  ultimately show ?case using 1 inside i by (cases "j < i + length needle") auto
qed

lemma occurrences_sound: "i \<in> set (occurrences hay needle) \<Longrightarrow> occurs_at hay needle i"
  by (simp add: occurrences_def occurrences_from_sound)

lemma occurrences_complete:
  "occurs_at hay needle j \<Longrightarrow> needle \<noteq> [] \<Longrightarrow>
   \<exists>i \<in> set (occurrences hay needle). i \<le> j \<and> j < i + length needle"
  unfolding occurrences_def by (rule occurrences_from_complete) simp_all

lemma no_occurrences:
  assumes "needle \<noteq> []"
  shows "occurrences hay needle = [] \<longleftrightarrow> \<not> contains_text hay needle"
proof -
  have "occurrences hay needle \<noteq> [] \<longleftrightarrow> (\<exists>i. i \<in> set (occurrences hay needle))"
    by (cases "occurrences hay needle") auto
  also have "\<dots> \<longleftrightarrow> contains_text hay needle"
    using occurrences_complete [OF _ assms] occurrences_sound by (fastforce simp: contains_text_iff)
  finally show ?thesis by blast
qed

lemma count_zero: "needle \<noteq> [] \<Longrightarrow> count_occurrences hay needle = 0 \<longleftrightarrow> \<not> contains_text hay needle"
  by (simp add: count_occurrences_def no_occurrences)

lemma count_empty [simp]: "count_occurrences hay [] = 0"
  by (simp add: count_occurrences_def occurrences_def occurrences_from.simps)

lemma text_index_occurrence:
  assumes "count_occurrences hay needle \<noteq> 0"
  shows "\<exists>i. text_index hay needle = Some i \<and> occurs_at hay needle i"
proof -
  obtain i where "i \<in> set (occurrences hay needle)"
    using assms by (auto simp: count_occurrences_def) (metis list.set_sel(1))
  then have "text_index hay needle \<noteq> None" by (auto simp: text_index_None dest: occurrences_sound)
  then show ?thesis by (auto simp: text_index_Some)
qed

text \<open>The first step of the loop is the first occurrence.\<close>

lemma occurrences_hd: "occurrences hay needle = i # is' \<Longrightarrow> text_index hay needle = Some i"
  by (auto simp: occurrences_def occurrences_from.simps [of hay needle 0] index_from_def
      split: if_splits option.splits)

subsection \<open>Slices\<close>

lemma js_slice_inside:
  "0 \<le> a \<Longrightarrow> 0 \<le> b \<Longrightarrow> js_slice s a b = take (nat b - nat a) (drop (nat a) s)"
  by (auto simp: js_slice_def slice_offset_def min_def)

lemma js_slice_prefix: "0 \<le> b \<Longrightarrow> js_slice s 0 b = take (nat b) s"
  by (simp add: js_slice_inside)

lemma js_slice_from_inside: "0 \<le> a \<Longrightarrow> js_slice_from s a = drop (nat a) s"
  by (auto simp: js_slice_from_def slice_offset_def min_def)

lemma slice_occurs:
  "occurs_at hay needle i \<Longrightarrow> js_slice hay (int i) (int (i + length needle)) = needle"
  by (simp add: js_slice_inside occurs_at_def del: of_nat_add)

end
