(* ===== verification/Atomic_Write.thy ===== *)
theory Atomic_Write
  imports File_Time Config_Records
begin

text \<open>
  \<^verbatim>\<open>clients/atomic-write.ts\<close> and \<^verbatim>\<open>clients/atomic-write-staging.ts\<close>: files are written in full under a
  staging name and renamed over their target.  \<open>fs\<close> is the machine the synchronous calls run on: what
  each file holds, where a symbolic link leads, and which calls throw.  A write that throws may leave
  a part of the data behind.  The asynchronous writers are the threads of a step relation, so that any
  reachable state is also one a crash may leave.
\<close>

unbundle bit_operations_syntax

type_synonym file_mode = "12 word"

record file_node =
  fn_data :: string
  fn_mode :: file_mode

datatype stage_outcome = Stage_Ok | Stage_Refused | Stage_Torn nat

record fs =
  fs_files :: "path \<Rightarrow> file_node option"
  fs_link :: "path \<Rightarrow> path option"
  fs_umask :: file_mode
  fs_stage :: "path \<Rightarrow> stage_outcome"
  fs_rename_fails :: "path \<Rightarrow> bool"
  fs_remove_fails :: "path \<Rightarrow> bool"
  fs_seq :: nat

record thread =
  th_pid :: nat
  th_id :: nat

subsection \<open>Staging names\<close>

definition stage_name :: "thread \<Rightarrow> nat \<Rightarrow> path \<Rightarrow> path" where
  "stage_name th seq target =
     target @ ''.tmp-'' @ decimal (th_pid th) @ ''-'' @ decimal (th_id th) @ ''-'' @ decimal seq"

definition stage_path_for :: "thread \<Rightarrow> path \<Rightarrow> fs \<Rightarrow> path \<times> fs" where
  "stage_path_for th target s = (stage_name th (fs_seq s) target, s\<lparr>fs_seq := fs_seq s + 1\<rparr>)"

definition is_digit :: "char \<Rightarrow> bool" where
  "is_digit c \<longleftrightarrow> (48 :: nat) \<le> of_char c \<and> of_char c \<le> (57 :: nat)"

text \<open>\<^verbatim>\<open>(0|[1-9]\d*)\<close>, and the number such a text denotes.\<close>

definition is_numeral :: "string \<Rightarrow> bool" where
  "is_numeral w \<longleftrightarrow> w \<noteq> [] \<and> list_all is_digit w \<and> (w = ''0'' \<or> hd w \<noteq> CHR ''0'')"

definition numeral_value :: "string \<Rightarrow> nat" where
  "numeral_value w = foldl (\<lambda>n c. 10 * n + (of_char c - 48)) 0 w"

definition MAX_SAFE_INTEGER :: nat where "MAX_SAFE_INTEGER = 2 ^ 53 - 1"

text \<open>
  \<^verbatim>\<open>/\.tmp-(0|[1-9]\d*)-(0|[1-9]\d*)-(0|[1-9]\d*)$/\<close>: no group holds a dash, so the match is decided by
  the last three parts of the name and the end of the part before them.
\<close>

definition stage_numbers :: "string \<Rightarrow> (string \<times> string \<times> string) option" where
  "stage_numbers name =
     (case rev (split_on CHR ''-'' name) of
        seq # tid # pid # stem # _ \<Rightarrow>
          if is_numeral seq \<and> is_numeral tid \<and> is_numeral pid \<and> suffix ''.tmp'' stem
          then Some (pid, tid, seq) else None
      | _ \<Rightarrow> None)"

definition stage_owner_pid_from_name :: "string \<Rightarrow> nat option" where
  "stage_owner_pid_from_name name =
     (case stage_numbers name of
        None \<Rightarrow> None
      | Some (pid, _, _) \<Rightarrow>
          if numeral_value pid \<le> MAX_SAFE_INTEGER \<and> 0 < numeral_value pid
          then Some (numeral_value pid) else None)"

subsection \<open>The sweep of orphaned staging files\<close>

record dir_entry =
  de_name :: string
  de_is_file :: bool

record sweep_result =
  sw_directories :: nat
  sw_scanned :: nat
  sw_removed :: nat
  sw_live_skipped :: nat
  sw_truncated :: bool
  sw_gone :: "(path \<times> string) list"

definition sweep_entry ::
    "nat \<Rightarrow> (nat \<Rightarrow> bool) \<Rightarrow> (path \<times> string \<Rightarrow> bool) \<Rightarrow> path \<Rightarrow> dir_entry \<Rightarrow> sweep_result \<Rightarrow> sweep_result" where
  "sweep_entry own alive rm_throws dir e r =
     (let r = r\<lparr>sw_scanned := sw_scanned r + 1\<rparr>
      in if \<not> de_is_file e then r
         else case stage_owner_pid_from_name (de_name e) of
                None \<Rightarrow> r
              | Some pid \<Rightarrow>
                  if pid = own \<or> alive pid then r\<lparr>sw_live_skipped := sw_live_skipped r + 1\<rparr>
                  else if rm_throws (dir, de_name e) then r
                  else r\<lparr>sw_removed := sw_removed r + 1, sw_gone := sw_gone r @ [(dir, de_name e)]\<rparr>)"

text \<open>A \<^verbatim>\<open>read\<close> that throws ends the directory as its last entry does.\<close>

fun sweep_entries ::
    "nat \<Rightarrow> (nat \<Rightarrow> bool) \<Rightarrow> (path \<times> string \<Rightarrow> bool) \<Rightarrow> path \<Rightarrow> nat \<Rightarrow> dir_entry list
     \<Rightarrow> sweep_result \<Rightarrow> sweep_result" where
  "sweep_entries own alive rm_throws dir 0 es r = r\<lparr>sw_truncated := True\<rparr>"
| "sweep_entries own alive rm_throws dir (Suc n) [] r = r"
| "sweep_entries own alive rm_throws dir (Suc n) (e # es) r =
     sweep_entries own alive rm_throws dir n es (sweep_entry own alive rm_throws dir e r)"

text \<open>The distinct members of a list in the order they first occur, \<^verbatim>\<open>[...new Set(xs)]\<close>.\<close>

definition js_unique :: "'a list \<Rightarrow> 'a list" where
  "js_unique xs = rev (remdups (rev xs))"

definition sweep_own_staging_files ::
    "nat \<Rightarrow> (nat \<Rightarrow> bool) \<Rightarrow> (path \<times> string \<Rightarrow> bool) \<Rightarrow> (path \<Rightarrow> dir_entry list option) \<Rightarrow> nat \<Rightarrow> path list
     \<Rightarrow> sweep_result" where
  "sweep_own_staging_files own alive rm_throws opendir max_entries directories =
     (let unique = filter (\<lambda>d. d \<noteq> []) (js_unique directories);
          start = \<lparr>sw_directories = length unique, sw_scanned = 0, sw_removed = 0, sw_live_skipped = 0,
            sw_truncated = False, sw_gone = []\<rparr>
      in foldl (\<lambda>r d. case opendir d of
            None \<Rightarrow> r
          | Some es \<Rightarrow> sweep_entries own alive rm_throws d max_entries es r) start unique)"

subsection \<open>The synchronous writer\<close>

text \<open>
  A staging file that is already there is truncated and keeps its mode; a new one gets the mode asked
  for, less what the umask takes away.
\<close>

definition staged_mode :: "fs \<Rightarrow> path \<Rightarrow> file_mode option \<Rightarrow> file_mode" where
  "staged_mode s tmp mode =
     (case fs_files s tmp of
        Some n \<Rightarrow> fn_mode n
      | None \<Rightarrow> (case mode of Some m \<Rightarrow> m | None \<Rightarrow> 0x1B6) AND NOT (fs_umask s))"

definition put_file :: "path \<Rightarrow> file_node \<Rightarrow> fs \<Rightarrow> fs" where
  "put_file p n s = s\<lparr>fs_files := (fs_files s)(p := Some n)\<rparr>"

definition drop_file :: "path \<Rightarrow> fs \<Rightarrow> fs" where
  "drop_file p s = s\<lparr>fs_files := (fs_files s)(p := None)\<rparr>"

text \<open>\<^verbatim>\<open>writeFileSync\<close> on the staging path: whether it threw, and what is on disk then.\<close>

definition stage_data :: "path \<Rightarrow> string \<Rightarrow> file_mode option \<Rightarrow> fs \<Rightarrow> bool \<times> fs" where
  "stage_data tmp data mode s =
     (let m = staged_mode s tmp mode
      in case fs_stage s tmp of
           Stage_Ok \<Rightarrow> (False, put_file tmp \<lparr>fn_data = data, fn_mode = m\<rparr> s)
         | Stage_Refused \<Rightarrow> (True, s)
         | Stage_Torn n \<Rightarrow> (True, put_file tmp \<lparr>fn_data = take n data, fn_mode = m\<rparr> s))"

definition rename_file :: "path \<Rightarrow> path \<Rightarrow> fs \<Rightarrow> bool \<times> fs" where
  "rename_file tmp target s =
     (case fs_files s tmp of
        None \<Rightarrow> (True, s)
      | Some n \<Rightarrow>
          if fs_rename_fails s target then (True, s)
          else (False, put_file target n (drop_file tmp s)))"

definition write_file_atomic ::
    "thread \<Rightarrow> bool \<Rightarrow> file_mode option \<Rightarrow> path \<Rightarrow> string \<Rightarrow> fs \<Rightarrow> bool \<times> fs" where
  "write_file_atomic th best_effort mode target data s =
     (let (tmp, s1) = stage_path_for th target s;
          (staging_threw, s2) = stage_data tmp data mode s1;
          (threw, s3) = (if staging_threw then (True, s2) else rename_file tmp target s2)
      in if threw then (\<not> best_effort, if fs_remove_fails s3 tmp then s3 else drop_file tmp s3)
         else (False, s3))"

subsection \<open>What a synchronous write does\<close>

lemma stage_name_neq [simp]: "stage_name th seq target \<noteq> target"
  by (simp add: stage_name_def)

lemma fs_files_put [simp]: "fs_files (put_file p n s) q = (if q = p then Some n else fs_files s q)"
  by (simp add: put_file_def)

lemma fs_files_drop [simp]: "fs_files (drop_file p s) q = (if q = p then None else fs_files s q)"
  by (simp add: drop_file_def)

text \<open>What a call leaves under its staging name, the tear of a failed write included.\<close>

lemma stage_data_files:
  "stage_data tmp data mode s = (threw, s') \<Longrightarrow>
   (\<forall>q. q \<noteq> tmp \<longrightarrow> fs_files s' q = fs_files s q) \<and>
   (\<not> threw \<longrightarrow> fs_files s' tmp = Some \<lparr>fn_data = data, fn_mode = staged_mode s tmp mode\<rparr>)"
  by (auto simp: stage_data_def Let_def split: stage_outcome.splits)

lemma rename_file_files:
  "rename_file tmp target s = (threw, s') \<Longrightarrow>
   (if threw then s' = s else fs_files s' = (fs_files s)(tmp := None, target := fs_files s tmp))"
  by (auto simp: rename_file_def fun_eq_iff put_file_def drop_file_def split: option.splits if_splits)

lemma write_file_atomic_files:
  fixes th s target mode data best threw s'
  defines "tmp \<equiv> stage_name th (fs_seq s) target"
  assumes "write_file_atomic th best mode target data s = (threw, s')"
  shows "\<exists>failed. (\<forall>q. q \<noteq> tmp \<and> q \<noteq> target \<longrightarrow> fs_files s' q = fs_files s q) \<and>
    fs_files s' target =
      (if failed then fs_files s target else Some \<lparr>fn_data = data, fn_mode = staged_mode s tmp mode\<rparr>) \<and>
    (threw \<longleftrightarrow> failed \<and> \<not> best) \<and> (\<not> failed \<longrightarrow> fs_files s' tmp = None)"
proof -
  obtain t1 s2 where st: "stage_data tmp data mode (s\<lparr>fs_seq := fs_seq s + 1\<rparr>) = (t1, s2)" by fastforce
  obtain t2 s3 where rn: "(if t1 then (True, s2) else rename_file tmp target s2) = (t2, s3)" by fastforce
  have w: "write_file_atomic th best mode target data s =
      (if t2 then (\<not> best, if fs_remove_fails s3 tmp then s3 else drop_file tmp s3) else (False, s3))"
    using st rn by (simp add: write_file_atomic_def stage_path_for_def tmp_def [symmetric])
  have sm: "staged_mode (s\<lparr>fs_seq := fs_seq s + 1\<rparr>) tmp mode = staged_mode s tmp mode"
    by (simp add: staged_mode_def split: option.split)
  have ne: "tmp \<noteq> target" by (simp add: tmp_def)
  show ?thesis
  proof (cases t2)
    case True
    then have "t1 \<and> s3 = s2 \<or> s3 = s2" using rn rename_file_files [of tmp target s2 t2 s3] by (auto split: if_splits)
    then have "\<forall>q. q \<noteq> tmp \<longrightarrow> fs_files s3 q = fs_files s q" using stage_data_files [OF st] by auto
    then show ?thesis using True w assms(2) ne by (intro exI [of _ True]) (auto split: if_splits)
  next
    case False
    then have "\<not> t1" and r: "rename_file tmp target s2 = (False, s3)" using rn by (auto split: if_splits)
    then show ?thesis using False w assms(2) ne stage_data_files [OF st] rename_file_files [OF r] sm
      by (intro exI [of _ False]) auto
  qed
qed

subsection \<open>The asynchronous writers\<close>

text \<open>
  One writer per call of \<^verbatim>\<open>writeFileAtomicAsync\<close>, on any thread of any process.  Its \<^verbatim>\<open>writeFile\<close> opens
  the staging file and extends it piece by piece; its \<^verbatim>\<open>rename\<close> moves whatever is there by then.
\<close>

datatype write_phase = Opening | Writing nat | Staged | Published | Abandoned

record writer =
  wr_target :: path
  wr_data :: string
  wr_tmp :: path
  wr_phase :: write_phase

record writers_state =
  aw_files :: "path \<Rightarrow> string option"
  aw_writers :: "writer list"
  aw_seq :: "thread \<Rightarrow> nat"

definition set_phase :: "nat \<Rightarrow> write_phase \<Rightarrow> writers_state \<Rightarrow> writers_state" where
  "set_phase i ph s = s\<lparr>aw_writers := (aw_writers s)[i := (aw_writers s ! i)\<lparr>wr_phase := ph\<rparr>]\<rparr>"

definition set_text :: "path \<Rightarrow> string option \<Rightarrow> writers_state \<Rightarrow> writers_state" where
  "set_text p t s = s\<lparr>aw_files := (aw_files s)(p := t)\<rparr>"

inductive write_step :: "writers_state \<Rightarrow> writers_state \<Rightarrow> bool" where
  call: "stage_numbers target = None \<Longrightarrow>
    write_step s (s\<lparr>aw_writers := aw_writers s @
        [\<lparr>wr_target = target, wr_data = data, wr_tmp = stage_name th (aw_seq s th) target, wr_phase = Opening\<rparr>],
      aw_seq := (aw_seq s)(th := aw_seq s th + 1)\<rparr>)"
| open_stage: "i < length (aw_writers s) \<Longrightarrow> wr_phase (aw_writers s ! i) = Opening \<Longrightarrow>
    write_step s (set_phase i (Writing 0) (set_text (wr_tmp (aw_writers s ! i)) (Some []) s))"
| extend: "i < length (aw_writers s) \<Longrightarrow> wr_phase (aw_writers s ! i) = Writing n \<Longrightarrow>
    n \<le> m \<Longrightarrow> m \<le> length (wr_data (aw_writers s ! i)) \<Longrightarrow>
    aw_files s (wr_tmp (aw_writers s ! i)) = Some held \<Longrightarrow>
    write_step s (set_phase i (Writing m)
      (set_text (wr_tmp (aw_writers s ! i)) (Some (held @ drop n (take m (wr_data (aw_writers s ! i))))) s))"
| close_stage: "i < length (aw_writers s) \<Longrightarrow>
    wr_phase (aw_writers s ! i) = Writing (length (wr_data (aw_writers s ! i))) \<Longrightarrow>
    write_step s (set_phase i Staged s)"
| publish: "i < length (aw_writers s) \<Longrightarrow> wr_phase (aw_writers s ! i) = Staged \<Longrightarrow>
    aw_files s (wr_tmp (aw_writers s ! i)) = Some held \<Longrightarrow>
    write_step s (set_phase i Published (set_text (wr_target (aw_writers s ! i)) (Some held)
      (set_text (wr_tmp (aw_writers s ! i)) None s)))"
| give_up: "i < length (aw_writers s) \<Longrightarrow> wr_phase (aw_writers s ! i) \<in> {Opening, Staged} \<union> range Writing \<Longrightarrow>
    write_step s (set_phase i Abandoned s)"
| clean_up: "i < length (aw_writers s) \<Longrightarrow> wr_phase (aw_writers s ! i) = Abandoned \<Longrightarrow>
    write_step s (set_text (wr_tmp (aw_writers s ! i)) None s)"

inductive write_reach :: "writers_state \<Rightarrow> writers_state \<Rightarrow> bool" for s where
  start: "write_reach s s"
| step: "write_reach s t \<Longrightarrow> write_step t u \<Longrightarrow> write_reach s u"

subsection \<open>Names identify calls\<close>

lemma split_on_snoc: "c \<notin> set w \<Longrightarrow> split_on c (s @ c # w) = split_on c s @ [w]"
  by (induction s) (auto simp: split_on_word split: list.splits)

lemma decimal_digits: "list_all is_digit (decimal n)"
proof (induction n rule: decimal.induct)
  case (1 n)
  have d: "is_digit (char_of (48 + k))" if "k < 10" for k :: nat
    using that by (simp add: is_digit_def)
  show ?case using 1 d [of n] d [of "n mod 10"] by (simp add: decimal.simps [of n])
qed

lemma no_dash: "list_all is_digit w \<Longrightarrow> CHR ''-'' \<notin> set w"
  by (auto simp: list_all_iff is_digit_def)

lemma decimal_no_dash [simp]: "CHR ''-'' \<notin> set (decimal n)"
  by (rule no_dash [OF decimal_digits])

lemma numeral_value_snoc: "numeral_value (w @ [c]) = 10 * numeral_value w + (of_char c - 48)"
  by (simp add: numeral_value_def)

lemma numeral_value_decimal [simp]: "numeral_value (decimal n) = n"
proof (induction n rule: decimal.induct)
  case (1 n)
  show ?case
  proof (cases "n < 10")
    case True
    then show ?thesis by (simp add: decimal.simps [of n] numeral_value_def)
  next
    case False
    then show ?thesis using 1 by (simp add: decimal.simps [of n] numeral_value_snoc)
  qed
qed

lemma decimal_inject [simp]: "decimal m = decimal n \<longleftrightarrow> m = n"
  by (metis numeral_value_decimal)

lemma decimal_hd: "decimal n \<noteq> [] \<and> (n \<noteq> 0 \<longrightarrow> hd (decimal n) \<noteq> CHR ''0'')"
proof (induction n rule: decimal.induct)
  case (1 n)
  show ?case
  proof (cases "n < 10")
    case True
    have "char_of (48 + n) \<noteq> CHR ''0''" if "n \<noteq> 0"
    proof
      assume "char_of (48 + n) = CHR ''0''"
      then have "of_char (char_of (48 + n) :: char) = (48 :: nat)" by simp
      then show False using that True by simp
    qed
    then show ?thesis using True by (simp add: decimal.simps [of n])
  next
    case False
    then show ?thesis using 1 by (simp add: decimal.simps [of n])
  qed
qed

lemma is_numeral_decimal [simp]: "is_numeral (decimal n)"
  using decimal_hd [of n] decimal_digits [of n] by (cases "n = 0") (auto simp: is_numeral_def decimal.simps [of 0])

lemma split_stage_name:
  "split_on CHR ''-'' (stage_name th seq target) =
     split_on CHR ''-'' (target @ ''.tmp'') @ [decimal (th_pid th), decimal (th_id th), decimal seq]"
proof -
  let ?d = "CHR ''-''"
  have "stage_name th seq target =
      (((target @ ''.tmp'') @ ?d # decimal (th_pid th)) @ ?d # decimal (th_id th)) @ ?d # decimal seq"
    by (simp add: stage_name_def)
  then show ?thesis
    by (simp only: split_on_snoc [OF decimal_no_dash]) (simp only: append_assoc append_Cons append_Nil)
qed

lemma last_part: "\<exists>pre stem. split_on c (s @ w) = pre @ [stem @ w]" if "c \<notin> set w" for w
  using that
proof (induction s)
  case Nil
  then show ?case by (simp add: split_on_word)
next
  case (Cons x s)
  then obtain pre stem where e: "split_on c (s @ w) = pre @ [stem @ w]" by blast
  show ?case
  proof (cases "x = c")
    case True
    then show ?thesis by (metis Cons_eq_appendI append_Cons e split_on.simps(2))
  next
    case False
    then show ?thesis using e by (cases pre) (auto intro: exI [of _ "[]"])
  qed
qed

lemma stage_numbers_name: "stage_numbers (stage_name th seq target) =
    Some (decimal (th_pid th), decimal (th_id th), decimal seq)"
proof -
  obtain pre stem where "split_on CHR ''-'' (target @ ''.tmp'') = pre @ [stem @ ''.tmp'']"
    using last_part [of "CHR ''-''" "''.tmp''" target] by auto
  then show ?thesis by (simp add: stage_numbers_def split_stage_name suffix_def)
qed

lemma stage_name_inject:
  assumes "stage_name th m p = stage_name th' n q"
  shows "th = th' \<and> m = n \<and> p = q"
proof -
  have "(decimal (th_pid th), decimal (th_id th), decimal m) = (decimal (th_pid th'), decimal (th_id th'), decimal n)"
    using stage_numbers_name [of th m p] stage_numbers_name [of th' n q] assms by simp
  then show ?thesis using assms by (auto simp: stage_name_def)
qed

subsection \<open>What readers see\<close>

definition fresh_state :: "(path \<Rightarrow> string option) \<Rightarrow> (thread \<Rightarrow> nat) \<Rightarrow> writers_state" where
  "fresh_state files seqs = \<lparr>aw_files = files, aw_writers = [], aw_seq = seqs\<rparr>"

text \<open>Each writer owns its staging name, and what it staged so far is there.\<close>

definition owns :: "writers_state \<Rightarrow> bool" where
  "owns s \<longleftrightarrow> distinct (map wr_tmp (aw_writers s)) \<and>
     (\<forall>w \<in> set (aw_writers s). stage_numbers (wr_target w) = None \<and>
        (\<exists>th n. wr_tmp w = stage_name th n (wr_target w) \<and> n < aw_seq s th))"

definition staged_part :: "writers_state \<Rightarrow> writer \<Rightarrow> bool" where
  "staged_part s w \<longleftrightarrow>
     (case wr_phase w of
        Writing n \<Rightarrow> n \<le> length (wr_data w) \<and> aw_files s (wr_tmp w) = Some (take n (wr_data w))
      | Staged \<Rightarrow> aw_files s (wr_tmp w) = Some (wr_data w)
      | _ \<Rightarrow> True)"

definition whole_at :: "(path \<Rightarrow> string option) \<Rightarrow> writers_state \<Rightarrow> path \<Rightarrow> bool" where
  "whole_at files s p \<longleftrightarrow> aw_files s p = files p \<or>
     (\<exists>w \<in> set (aw_writers s). wr_target w = p \<and> wr_phase w = Published \<and> aw_files s p = Some (wr_data w))"

definition tear_free :: "(path \<Rightarrow> string option) \<Rightarrow> writers_state \<Rightarrow> bool" where
  "tear_free files s \<longleftrightarrow> owns s \<and> (\<forall>w \<in> set (aw_writers s). staged_part s w) \<and>
     (\<forall>p. stage_numbers p = None \<longrightarrow> whole_at files s p)"

lemma tmp_shaped: "owns s \<Longrightarrow> w \<in> set (aw_writers s) \<Longrightarrow> stage_numbers (wr_tmp w) \<noteq> None"
  by (auto simp: owns_def stage_numbers_name)

lemma tmp_apart:
  assumes "owns s" "i < length (aw_writers s)" "j < length (aw_writers s)" "i \<noteq> j"
  shows "wr_tmp (aw_writers s ! i) \<noteq> wr_tmp (aw_writers s ! j)"
  using assms by (auto simp: owns_def distinct_conv_nth)

definition calls_of :: "writers_state \<Rightarrow> (path \<times> path) list" where
  "calls_of s = map (\<lambda>w. (wr_target w, wr_tmp w)) (aw_writers s)"

lemma calls_phase [simp]: "calls_of (set_phase i ph s) = calls_of s"
proof -
  have "(\<lambda>w. (wr_target w, wr_tmp w)) ((aw_writers s ! i)\<lparr>wr_phase := ph\<rparr>)
      = (wr_target (aw_writers s ! i), wr_tmp (aw_writers s ! i))" by simp
  then show ?thesis
    by (cases "i < length (aw_writers s)")
      (simp_all add: calls_of_def set_phase_def map_update list_update_same_conv list_update_beyond)
qed

lemma owns_calls: "owns s \<longleftrightarrow> distinct (map snd (calls_of s)) \<and>
  (\<forall>(target, tmp) \<in> set (calls_of s). stage_numbers target = None \<and>
     (\<exists>th n. tmp = stage_name th n target \<and> n < aw_seq s th))"
  by (simp add: owns_def calls_of_def comp_def)

lemma seq_phase [simp]: "aw_seq (set_phase i ph s) = aw_seq s"
  by (simp add: set_phase_def)

lemma owns_phase [simp]: "owns (set_phase i ph s) \<longleftrightarrow> owns s"
  by (simp add: owns_calls)

lemma owns_text [simp]: "owns (set_text p t s) \<longleftrightarrow> owns s"
  by (simp add: owns_def set_text_def)


lemma text_parts [simp]:
  "aw_writers (set_text p t s) = aw_writers s" "aw_files (set_text p t s) q = (if q = p then t else aw_files s q)"
  "aw_files (set_phase i ph s) = aw_files s"
  by (simp_all add: set_text_def set_phase_def)

lemma writers_phase:
  "i < length (aw_writers s) \<Longrightarrow>
   aw_writers (set_phase i ph s) = (aw_writers s)[i := (aw_writers s ! i)\<lparr>wr_phase := ph\<rparr>]"
  by (simp add: set_phase_def)

text \<open>A writer that moves on leaves the staging files of the others alone.\<close>

lemma staged_others:
  assumes "owns s" "\<forall>w \<in> set (aw_writers s). staged_part s w" "i < length (aw_writers s)"
    and files: "\<And>q. q \<noteq> wr_tmp (aw_writers s ! i) \<Longrightarrow> stage_numbers q \<noteq> None \<Longrightarrow> aw_files t q = aw_files s q"
    and here: "staged_part t ((aw_writers s ! i)\<lparr>wr_phase := ph\<rparr>)"
    and ws: "aw_writers t = (aw_writers s)[i := (aw_writers s ! i)\<lparr>wr_phase := ph\<rparr>]"
  shows "\<forall>w \<in> set (aw_writers t). staged_part t w"
proof (unfold ws, intro ballI)
  fix w assume "w \<in> set ((aw_writers s)[i := (aw_writers s ! i)\<lparr>wr_phase := ph\<rparr>])"
  then obtain j where j: "j < length (aw_writers s)"
    "w = (if j = i then (aw_writers s ! i)\<lparr>wr_phase := ph\<rparr> else aw_writers s ! j)"
    by (auto simp: in_set_conv_nth nth_list_update)
  show "staged_part t w"
  proof (cases "j = i")
    case False
    then have "wr_tmp w \<noteq> wr_tmp (aw_writers s ! i)" "stage_numbers (wr_tmp w) \<noteq> None"
      using tmp_apart [OF assms(1) j(1) assms(3)] tmp_shaped [OF assms(1)] j by auto
    then have "aw_files t (wr_tmp w) = aw_files s (wr_tmp w)" by (rule files)
    moreover have "staged_part s w" using assms(2) j False by simp
    ultimately show ?thesis by (simp add: staged_part_def split: write_phase.splits)
  qed (use here j in simp)
qed

lemma whole_later:
  assumes "whole_at files s p" "aw_files t p = aw_files s p"
    and "\<And>w. w \<in> set (aw_writers s) \<Longrightarrow> wr_phase w = Published \<Longrightarrow> w \<in> set (aw_writers t)"
  shows "whole_at files t p"
  using assms by (auto simp: whole_at_def)

lemma phase_keeps_published:
  assumes "w \<in> set (aw_writers s)" "wr_phase w = Published" "i < length (aw_writers s)"
    "wr_phase (aw_writers s ! i) \<noteq> Published"
  shows "w \<in> set (aw_writers (set_phase i ph s))"
proof -
  obtain j where "j < length (aw_writers s)" "w = aw_writers s ! j" using assms(1) by (auto simp: in_set_conv_nth)
  moreover from this have "j \<noteq> i" using assms by auto
  ultimately show ?thesis using assms(3)
    by (auto simp: writers_phase in_set_conv_nth nth_list_update intro!: exI [of _ j])
qed

text \<open>A step that changes one phase and that writer's staging file.\<close>

lemma tear_free_own_step:
  assumes t: "tear_free files s" and i: "i < length (aw_writers s)" "wr_phase (aw_writers s ! i) \<noteq> Published"
    and u: "u = set_phase i ph (set_text (wr_tmp (aw_writers s ! i)) txt s)"
    and here: "staged_part u ((aw_writers s ! i)\<lparr>wr_phase := ph\<rparr>)"
  shows "tear_free files u"
proof -
  have o: "owns s" "\<forall>w \<in> set (aw_writers s). staged_part s w" and
    w: "\<And>p. stage_numbers p = None \<Longrightarrow> whole_at files s p" using t by (simp_all add: tear_free_def)
  have ws: "aw_writers u = (aw_writers s)[i := (aw_writers s ! i)\<lparr>wr_phase := ph\<rparr>]"
    using i by (simp add: u writers_phase)
  have "\<forall>w \<in> set (aw_writers u). staged_part u w"
    by (rule staged_others [OF o i(1) _ here ws]) (simp add: u)
  moreover have "whole_at files u p" if "stage_numbers p = None" for p
  proof (rule whole_later [OF w [OF that]])
    have "p \<noteq> wr_tmp (aw_writers s ! i)" using tmp_shaped [OF o(1)] i that by (metis nth_mem)
    then show "aw_files u p = aw_files s p" by (simp add: u)
    show "x \<in> set (aw_writers u)" if "x \<in> set (aw_writers s)" "wr_phase x = Published" for x
      using phase_keeps_published [of x "set_text (wr_tmp (aw_writers s ! i)) txt s" i] that i by (simp add: u)
  qed
  ultimately show ?thesis using o(1) by (simp add: tear_free_def u)
qed

lemma set_text_same: "set_text p (aw_files s p) s = s"
  by (simp add: set_text_def)

lemma tear_free_step:
  assumes "write_step s u" "tear_free files s"
  shows "tear_free files u"
  using assms
proof (cases rule: write_step.cases)
  case (call target th data)
  let ?w = "\<lparr>wr_target = target, wr_data = data, wr_tmp = stage_name th (aw_seq s th) target, wr_phase = Opening\<rparr>"
  have "owns s" using assms(2) by (simp add: tear_free_def)
  then have "stage_name th (aw_seq s th) target \<noteq> wr_tmp w" if "w \<in> set (aw_writers s)" for w
    using that by (fastforce simp: owns_def dest: stage_name_inject)
  then have "owns u" using \<open>owns s\<close> call by (force simp: owns_def less_Suc_eq)
  then show ?thesis using assms(2) call
    by (auto simp: tear_free_def staged_part_def whole_at_def split: write_phase.splits)
next
  case (open_stage i)
  show ?thesis by (rule tear_free_own_step [OF assms(2) open_stage(2) _ open_stage(1)])
      (simp_all add: open_stage staged_part_def)
next
  case (extend i n m held)
  have st: "staged_part s (aw_writers s ! i)" using assms(2) extend(2) by (simp add: tear_free_def)
  then have "held = take n (wr_data (aw_writers s ! i))" using extend by (simp add: staged_part_def)
  then have "held @ drop n (take m (wr_data (aw_writers s ! i))) = take m (wr_data (aw_writers s ! i))"
    using extend(4) by (metis append_take_drop_id min.absorb1 take_take)
  then show ?thesis using extend
    by (intro tear_free_own_step [OF assms(2) extend(2) _ extend(1)]) (simp_all add: staged_part_def)
next
  case (close_stage i)
  have "u = set_phase i Staged (set_text (wr_tmp (aw_writers s ! i)) (aw_files s (wr_tmp (aw_writers s ! i))) s)"
    by (simp add: set_text_same close_stage)
  moreover have "staged_part s (aw_writers s ! i)" using assms(2) close_stage by (simp add: tear_free_def)
  ultimately show ?thesis using close_stage
    by (intro tear_free_own_step [OF assms(2) close_stage(2)]) (auto simp: staged_part_def)
next
  case (give_up i)
  have "u = set_phase i Abandoned (set_text (wr_tmp (aw_writers s ! i)) (aw_files s (wr_tmp (aw_writers s ! i))) s)"
    by (simp add: set_text_same give_up)
  then show ?thesis using give_up
    by (intro tear_free_own_step [OF assms(2) give_up(2)]) (auto simp: staged_part_def)
next
  case (clean_up i)
  have "(aw_writers s ! i)\<lparr>wr_phase := Abandoned\<rparr> = aw_writers s ! i" using clean_up by simp
  then have "(aw_writers s)[i := (aw_writers s ! i)\<lparr>wr_phase := Abandoned\<rparr>] = aw_writers s" by simp
  then have "u = set_phase i Abandoned (set_text (wr_tmp (aw_writers s ! i)) None s)"
    unfolding clean_up(1) set_phase_def by (cases s) (simp add: set_text_def)
  then show ?thesis using clean_up
    by (intro tear_free_own_step [OF assms(2) clean_up(2)]) (auto simp: staged_part_def)
next
  case (publish i held)
  let ?w = "aw_writers s ! i"
  have o: "owns s" "\<forall>w \<in> set (aw_writers s). staged_part s w" and
    w: "\<And>p. stage_numbers p = None \<Longrightarrow> whole_at files s p" using assms(2) by (simp_all add: tear_free_def)
  have "?w \<in> set (aw_writers s)" using publish by simp
  then have held: "held = wr_data ?w" using o(2) publish by (auto simp: staged_part_def split: write_phase.splits)
  have tg: "stage_numbers (wr_target ?w) = None" using o(1) \<open>?w \<in> _\<close> by (auto simp: owns_def)
  have ws: "aw_writers u = (aw_writers s)[i := ?w\<lparr>wr_phase := Published\<rparr>]"
    using publish by (simp add: writers_phase)
  have "\<forall>w \<in> set (aw_writers u). staged_part u w"
  proof (rule staged_others [OF o publish(2) _ _ ws])
    show "aw_files u q = aw_files s q" if "q \<noteq> wr_tmp ?w" "stage_numbers q \<noteq> None" for q
      using that tg by (auto simp: publish)
  qed (simp add: staged_part_def)
  moreover have "whole_at files u p" if "stage_numbers p = None" for p
  proof (cases "p = wr_target ?w")
    case True
    have mem: "?w\<lparr>wr_phase := Published\<rparr> \<in> set (aw_writers u)" using publish(2) by (simp add: ws set_update_memI)
    have "aw_files u p = Some (wr_data ?w)" by (simp add: publish True held)
    then show ?thesis unfolding whole_at_def by (intro disjI2 bexI [OF _ mem]) (simp add: True)
  next
    case False
    show ?thesis
    proof (rule whole_later [OF w [OF that]])
      have "p \<noteq> wr_tmp ?w" using tmp_shaped [OF o(1) \<open>?w \<in> _\<close>] that by auto
      then show "aw_files u p = aw_files s p" using False by (simp add: publish)
      show "x \<in> set (aw_writers u)" if "x \<in> set (aw_writers s)" "wr_phase x = Published" for x
        using phase_keeps_published [of x s i Published] that publish by (simp add: ws writers_phase)
    qed
  qed
  ultimately show ?thesis using o(1) by (simp add: tear_free_def publish)
qed

lemma tear_free_reach: "write_reach s t \<Longrightarrow> tear_free files s \<Longrightarrow> tear_free files t"
  by (induction rule: write_reach.induct) (auto intro: tear_free_step)

text \<open>C20 (safety). Whatever the interleaving of any number of writers on any threads, and wherever each
  of them stops, a path that is not a staging name holds what it held at the start or the complete data
  of one call that published to it: no reader and no crash sees a part of a file.\<close>

theorem published_files_are_whole:
  assumes "write_reach (fresh_state files seqs) s" and "stage_numbers p = None"
  shows "aw_files s p = files p \<or>
    (\<exists>w \<in> set (aw_writers s). wr_target w = p \<and> wr_phase w = Published \<and> aw_files s p = Some (wr_data w))"
proof -
  have "tear_free files (fresh_state files seqs)"
    by (simp add: tear_free_def owns_def whole_at_def fresh_state_def)
  from tear_free_reach [OF assms(1) this] assms(2) show ?thesis by (simp add: tear_free_def whole_at_def)
qed


text \<open>
  Two threads write one file: the first has staged a part of its data when the second publishes.
\<close>

definition race_thread :: "nat \<Rightarrow> thread" where
  "race_thread k = \<lparr>th_pid = 7, th_id = k\<rparr>"

definition race_call :: "nat \<Rightarrow> string \<Rightarrow> writers_state \<Rightarrow> writers_state" where
  "race_call k data s = s\<lparr>aw_writers := aw_writers s @
      [\<lparr>wr_target = ''f'', wr_data = data, wr_tmp = stage_name (race_thread k) (aw_seq s (race_thread k)) ''f'',
        wr_phase = Opening\<rparr>],
    aw_seq := (aw_seq s)(race_thread k := aw_seq s (race_thread k) + 1)\<rparr>"

definition race_write :: "nat \<Rightarrow> nat \<Rightarrow> string \<Rightarrow> writers_state \<Rightarrow> writers_state" where
  "race_write i n t s = set_phase i (Writing n) (set_text (wr_tmp (aw_writers s ! i)) (Some t) s)"

definition race_start :: writers_state where
  "race_start = race_call 1 ''zz'' (race_call 0 ''aaaa'' (fresh_state (\<lambda>_. None) (\<lambda>_. 0)))"

definition race_part :: writers_state where
  "race_part = race_write 0 1 ''a'' (race_write 0 0 [] race_start)"

definition race_staged :: writers_state where
  "race_staged = set_phase 1 Staged (race_write 1 2 ''zz'' (race_write 1 0 [] race_part))"

definition race_end :: writers_state where
  "race_end = set_phase 1 Published (set_text ''f'' (Some ''zz'')
     (set_text (wr_tmp (aw_writers race_staged ! 1)) None race_staged))"

lemmas race_defs = race_call_def race_write_def race_start_def race_part_def race_staged_def race_end_def
  fresh_state_def set_phase_def set_text_def

lemma race_f: "stage_numbers ''f'' = None"
  by (simp add: stage_numbers_def)

lemma race_call_step: "write_step s (race_call k data s)"
  unfolding race_call_def by (rule write_step.call [OF race_f])

lemma race_run: "write_reach (fresh_state (\<lambda>_. None) (\<lambda>_. 0)) race_end"
proof -
  have "write_reach (fresh_state (\<lambda>_. None) (\<lambda>_. 0)) race_start"
    unfolding race_start_def by (intro write_reach.step [OF _ race_call_step] write_reach.start)
  moreover have "write_step race_start (race_write 0 0 [] race_start)"
    unfolding race_write_def by (rule write_step.open_stage) (simp_all add: race_defs)
  moreover have "write_step (race_write 0 0 [] race_start) race_part"
    using write_step.extend [of 0 "race_write 0 0 [] race_start" 0 1 "[]"] by (simp add: race_defs)
  moreover have "write_step race_part (race_write 1 0 [] race_part)"
    unfolding race_write_def by (rule write_step.open_stage) (simp_all add: race_defs)
  moreover have "write_step (race_write 1 0 [] race_part) (race_write 1 2 ''zz'' (race_write 1 0 [] race_part))"
    using write_step.extend [of 1 "race_write 1 0 [] race_part" 0 2 "[]"] by (simp add: race_defs)
  moreover have "write_step (race_write 1 2 ''zz'' (race_write 1 0 [] race_part)) race_staged"
    unfolding race_staged_def by (rule write_step.close_stage) (simp_all add: race_defs)
  moreover have "write_step race_staged race_end"
    using write_step.publish [of 1 race_staged "''zz''"] by (simp add: race_defs)
  ultimately show ?thesis by (meson write_reach.step)
qed

lemma published_files_are_whole_witness:
  "aw_files race_end ''f'' = Some ''zz'' \<and> wr_phase (aw_writers race_end ! 0) = Writing 1 \<and>
   (aw_files race_end ''f'' = None \<or> (\<exists>w \<in> set (aw_writers race_end). wr_target w = ''f'' \<and>
     wr_phase w = Published \<and> aw_files race_end ''f'' = Some (wr_data w)))"
  using published_files_are_whole [OF race_run race_f] by (simp add: race_defs)

subsection \<open>The sweep spares the living\<close>

text \<open>The sweeper reads back, from a staging name, the process that made it.\<close>

theorem staging_name_names_its_owner:
  assumes "0 < th_pid th" "th_pid th \<le> MAX_SAFE_INTEGER"
  shows "stage_owner_pid_from_name (stage_name th seq target) = Some (th_pid th)"
  using assms by (simp add: stage_owner_pid_from_name_def stage_numbers_name)

lemma staging_name_names_its_owner_witness:
  "stage_owner_pid_from_name (stage_name \<lparr>th_pid = 4242, th_id = 3\<rparr> 0 ''a.tmp-1-2-3'') = Some 4242"
  using staging_name_names_its_owner [of "\<lparr>th_pid = 4242, th_id = 3\<rparr>"] by (simp add: MAX_SAFE_INTEGER_def)


text \<open>A file may go when it is a plain file whose name says it was staged by a process that is neither
  this one nor alive.\<close>

definition orphan :: "nat \<Rightarrow> (nat \<Rightarrow> bool) \<Rightarrow> dir_entry \<Rightarrow> bool" where
  "orphan own alive e \<longleftrightarrow> de_is_file e \<and>
     (\<exists>pid. stage_owner_pid_from_name (de_name e) = Some pid \<and> pid \<noteq> own \<and> \<not> alive pid)"

definition swept_orphans ::
    "nat \<Rightarrow> (nat \<Rightarrow> bool) \<Rightarrow> (path \<times> string \<Rightarrow> bool) \<Rightarrow> path \<Rightarrow> dir_entry list \<Rightarrow> (path \<times> string) list" where
  "swept_orphans own alive rm_throws d es =
     map (\<lambda>e. (d, de_name e)) (filter (\<lambda>e. orphan own alive e \<and> \<not> rm_throws (d, de_name e)) es)"

lemma sweep_entry_gone:
  "sw_gone (sweep_entry own alive rm_throws d e r) = sw_gone r @ swept_orphans own alive rm_throws d [e]"
  "sw_removed (sweep_entry own alive rm_throws d e r) = sw_removed r + length (swept_orphans own alive rm_throws d [e])"
  "sw_scanned (sweep_entry own alive rm_throws d e r) = sw_scanned r + 1"
  "sw_directories (sweep_entry own alive rm_throws d e r) = sw_directories r"
  by (auto simp: sweep_entry_def swept_orphans_def orphan_def Let_def split: option.split)

lemma swept_Cons: "swept_orphans own alive rm d (e # es) = swept_orphans own alive rm d [e] @ swept_orphans own alive rm d es"
  by (simp add: swept_orphans_def)

lemma sweep_entries_gone:
  "sw_gone (sweep_entries own alive rm d n es r) = sw_gone r @ swept_orphans own alive rm d (take n es) \<and>
   sw_removed (sweep_entries own alive rm d n es r) = sw_removed r + length (swept_orphans own alive rm d (take n es)) \<and>
   sw_scanned (sweep_entries own alive rm d n es r) = sw_scanned r + min n (length es) \<and>
   sw_directories (sweep_entries own alive rm d n es r) = sw_directories r"
proof (induction own alive rm d n es r rule: sweep_entries.induct)
  case (3 own alive rm d n e es r)
  then show ?case
    by (simp add: swept_Cons [of own alive rm d e "take n es"] sweep_entry_gone)
qed (simp_all add: swept_orphans_def)

definition listing :: "(path \<Rightarrow> dir_entry list option) \<Rightarrow> path \<Rightarrow> dir_entry list" where
  "listing opendir d = (case opendir d of None \<Rightarrow> [] | Some es \<Rightarrow> es)"

definition sweep_dir ::
    "nat \<Rightarrow> (nat \<Rightarrow> bool) \<Rightarrow> (path \<times> string \<Rightarrow> bool) \<Rightarrow> (path \<Rightarrow> dir_entry list option) \<Rightarrow> nat
     \<Rightarrow> sweep_result \<Rightarrow> path \<Rightarrow> sweep_result" where
  "sweep_dir own alive rm opendir n r d =
     (case opendir d of None \<Rightarrow> r | Some es \<Rightarrow> sweep_entries own alive rm d n es r)"

lemma sweep_dir_gone:
  "sw_gone (sweep_dir own alive rm opendir n r d)
     = sw_gone r @ swept_orphans own alive rm d (take n (listing opendir d))"
  "sw_removed (sweep_dir own alive rm opendir n r d)
     = sw_removed r + length (swept_orphans own alive rm d (take n (listing opendir d)))"
  "sw_scanned (sweep_dir own alive rm opendir n r d) \<le> sw_scanned r + n"
  "sw_directories (sweep_dir own alive rm opendir n r d) = sw_directories r"
  using sweep_entries_gone [of own alive rm d n "listing opendir d" r]
  by (auto simp: sweep_dir_def listing_def swept_orphans_def split: option.splits)

lemma sweep_dirs_gone:
  fixes own alive rm opendir n
  defines "sweep \<equiv> foldl (sweep_dir own alive rm opendir n)"
    and "gone \<equiv> \<lambda>ds. concat (map (\<lambda>d. swept_orphans own alive rm d (take n (listing opendir d))) ds)"
  shows "sw_gone (sweep r ds) = sw_gone r @ gone ds \<and> sw_removed (sweep r ds) = sw_removed r + length (gone ds)
    \<and> sw_scanned (sweep r ds) \<le> sw_scanned r + n * length ds \<and> sw_directories (sweep r ds) = sw_directories r"
proof (induction ds arbitrary: r)
  case (Cons d ds)
  show ?case
    using Cons.IH [of "sweep_dir own alive rm opendir n r d"] sweep_dir_gone [of own alive rm opendir n r d]
    by (simp add: sweep_def gone_def)
qed (simp add: sweep_def gone_def)

lemma set_js_unique [simp]: "set (js_unique xs) = set xs"
  by (simp add: js_unique_def)

lemma distinct_js_unique [simp]: "distinct (js_unique xs)"
  by (simp add: js_unique_def)

text \<open>C21 (safety). What the sweep removes are exactly the orphans among the first entries of each
  directory that could be unlinked, in order: never a file of this process or of a live one, never a
  file that is not staged, and every removal is counted.\<close>

theorem sweep_removes_exactly_the_orphans:
  fixes own alive rm_throws opendir max_entries dirs
  defines "r \<equiv> sweep_own_staging_files own alive rm_throws opendir max_entries dirs"
  shows "sw_gone r = concat (map (\<lambda>d. map (\<lambda>e. (d, de_name e))
        (filter (\<lambda>e. orphan own alive e \<and> \<not> rm_throws (d, de_name e)) (take max_entries (listing opendir d))))
      (filter (\<lambda>d. d \<noteq> []) (js_unique dirs)))
    \<and> sw_removed r = length (sw_gone r) \<and> sw_scanned r \<le> max_entries * sw_directories r"
proof -
  let ?ds = "filter (\<lambda>d. d \<noteq> []) (js_unique dirs)"
  let ?start = "\<lparr>sw_directories = length ?ds, sw_scanned = 0, sw_removed = 0, sw_live_skipped = 0,
    sw_truncated = False, sw_gone = []\<rparr>"
  have "r = foldl (sweep_dir own alive rm_throws opendir max_entries) ?start ?ds"
    by (simp add: r_def sweep_own_staging_files_def sweep_dir_def [abs_def] Let_def)
  then show ?thesis
    using sweep_dirs_gone [where r = ?start and ds = ?ds and own = own and alive = alive and rm = rm_throws
        and opendir = opendir and n = max_entries]
    by (simp add: swept_orphans_def mult.commute)
qed

end
