(* ===== verification/Edit_Batch_Summary.thy ===== *)
theory Edit_Batch_Summary
  imports Atomic_Write
begin

text \<open>
  The edit-batch summary of \<^verbatim>\<open>clients/read-guard-logger.ts\<close>, which the preflight and the apply step build
  and rebuild for one batch.  Index lists are de-duplicated samples of bounded length; totals are kept
  beside them.
\<close>

datatype edit_batch_rejection_code =
    Oldtext_Not_Found
  | Oldtext_Unrepresentable
  | Oldtext_Duplicate
  | Overlapping_Span
  | Preflight_Blocked
  | Write_Failed
  | Pipeline_Failed

record edit_batch_rejection =
  er_index :: int
  er_code :: edit_batch_rejection_code

datatype commit_status = Not_Attempted | Committed | No_Changes | Commit_Failed
datatype post_edit_status = Not_Run | Succeeded | Post_Edit_Failed
datatype terminal_status = Ended_Success | Ended_Failed | Ended_Blocked | Ended_Skipped

record edit_batch_summary =
  bs_requested_count :: int
  bs_requested_total :: int
  bs_requested_indexes :: "int list"
  bs_resolved_count :: int
  bs_resolved_total :: int
  bs_resolved_indexes :: "int list"
  bs_rejected_count :: int
  bs_rejected_total :: int
  bs_rejected_indexes :: "int list"
  bs_rejected_reasons :: "edit_batch_rejection list"
  bs_applied_count :: int
  bs_applied_total :: int
  bs_applied_indexes :: "int list"
  bs_already_count :: int
  bs_already_total :: int
  bs_already_indexes :: "int list"
  bs_participant_ids :: "string list"
  bs_participant_total :: int
  bs_participant_ids_truncated :: bool
  bs_indexes_truncated :: bool
  bs_commit_status :: commit_status
  bs_post_edit_status :: post_edit_status
  bs_terminal_status :: terminal_status
  bs_duration :: int

record summary_args =
  sa_requested_indexes :: "int list"
  sa_requested_total :: "int option"
  sa_resolved_indexes :: "int list option"
  sa_resolved_total :: "int option"
  sa_rejected_reasons :: "edit_batch_rejection list option"
  sa_rejected_total :: "int option"
  sa_applied_indexes :: "int list option"
  sa_applied_total :: "int option"
  sa_already_indexes :: "int list option"
  sa_already_total :: "int option"
  sa_participant_ids :: "string list option"
  sa_participant_total :: "int option"
  sa_commit_status :: "commit_status option"
  sa_post_edit_status :: "post_edit_status option"
  sa_terminal_status :: "terminal_status option"
  sa_duration :: "int option"

definition MAX_EDIT_BATCH_ITEMS :: nat where "MAX_EDIT_BATCH_ITEMS = 100"

definition or_else :: "'a option \<Rightarrow> 'a \<Rightarrow> 'a" where
  "or_else v d = (case v of Some x \<Rightarrow> x | None \<Rightarrow> d)"

definition valid_indexes :: "int list \<Rightarrow> int list" where
  "valid_indexes idxs = filter (\<lambda>i. 0 \<le> i) idxs"

definition bounded_edit_indexes :: "int list \<Rightarrow> int list" where
  "bounded_edit_indexes idxs = take MAX_EDIT_BATCH_ITEMS (js_unique (valid_indexes idxs))"

definition join_parts :: "string \<Rightarrow> string list \<Rightarrow> string" where
  "join_parts sep ws = (case ws of [] \<Rightarrow> [] | w # rest \<Rightarrow> w @ concat (map (\<lambda>v. sep @ v) rest))"

definition format_bounded_edit_indexes :: "int list \<Rightarrow> string" where
  "format_bounded_edit_indexes idxs =
     join_parts '', '' (map (\<lambda>i. ''edits['' @ decimal (nat i) @ '']'') (bounded_edit_indexes idxs))"

definition create_edit_batch_summary :: "summary_args \<Rightarrow> edit_batch_summary" where
  "create_edit_batch_summary a =
     (let requested = valid_indexes (sa_requested_indexes a);
          resolved = valid_indexes (or_else (sa_resolved_indexes a) []);
          rejected = filter (\<lambda>e. 0 \<le> er_index e) (or_else (sa_rejected_reasons a) []);
          applied = valid_indexes (or_else (sa_applied_indexes a) []);
          already = valid_indexes (or_else (sa_already_indexes a) []);
          participants = filter (\<lambda>w. w \<noteq> []) (or_else (sa_participant_ids a) []);
          requested_total = or_else (sa_requested_total a) (int (length requested));
          resolved_total = or_else (sa_resolved_total a) (int (length resolved));
          rejected_total = or_else (sa_rejected_total a) (int (length rejected));
          applied_total = or_else (sa_applied_total a) (int (length applied));
          already_total = or_else (sa_already_total a) (int (length already));
          participant_total = or_else (sa_participant_total a) (int (length participants));
          requested_indexes = bounded_edit_indexes requested;
          resolved_indexes = bounded_edit_indexes resolved;
          rejected_indexes = bounded_edit_indexes (map er_index rejected);
          applied_indexes = bounded_edit_indexes applied;
          already_indexes = bounded_edit_indexes already;
          participant_ids = take MAX_EDIT_BATCH_ITEMS (js_unique participants);
          commit = or_else (sa_commit_status a) Not_Attempted;
          post = or_else (sa_post_edit_status a) Not_Run
      in \<lparr>bs_requested_count = int (length requested), bs_requested_total = requested_total,
          bs_requested_indexes = requested_indexes,
          bs_resolved_count = int (length resolved), bs_resolved_total = resolved_total,
          bs_resolved_indexes = resolved_indexes,
          bs_rejected_count = int (length rejected), bs_rejected_total = rejected_total,
          bs_rejected_indexes = rejected_indexes,
          bs_rejected_reasons = take MAX_EDIT_BATCH_ITEMS rejected,
          bs_applied_count = int (length applied), bs_applied_total = applied_total,
          bs_applied_indexes = applied_indexes,
          bs_already_count = int (length already), bs_already_total = already_total,
          bs_already_indexes = already_indexes,
          bs_participant_ids = participant_ids, bs_participant_total = participant_total,
          bs_participant_ids_truncated = (participant_total > int (length participant_ids)),
          bs_indexes_truncated =
            (requested_total > int (length requested_indexes) \<or> resolved_total > int (length resolved_indexes)
             \<or> rejected_total > int (length rejected_indexes) \<or> applied_total > int (length applied_indexes)
             \<or> already_total > int (length already_indexes)),
          bs_commit_status = commit, bs_post_edit_status = post,
          bs_terminal_status =
            or_else (sa_terminal_status a)
              (if post = Post_Edit_Failed \<or> commit = Commit_Failed then Ended_Failed
               else if commit = Not_Attempted \<and> rejected \<noteq> [] then Ended_Blocked
               else if commit = No_Changes then Ended_Skipped else Ended_Success),
          bs_duration = max 0 (min (or_else (sa_duration a) 0) 86400000)\<rparr>)"

definition no_summary_args :: "int list \<Rightarrow> summary_args" where
  "no_summary_args requested = \<lparr>sa_requested_indexes = requested, sa_requested_total = None,
     sa_resolved_indexes = None, sa_resolved_total = None, sa_rejected_reasons = None, sa_rejected_total = None,
     sa_applied_indexes = None, sa_applied_total = None, sa_already_indexes = None, sa_already_total = None,
     sa_participant_ids = None, sa_participant_total = None, sa_commit_status = None, sa_post_edit_status = None,
     sa_terminal_status = None, sa_duration = None\<rparr>"

text \<open>A summary spread into the arguments of the next one.\<close>

definition args_of_summary :: "edit_batch_summary \<Rightarrow> summary_args" where
  "args_of_summary b = \<lparr>sa_requested_indexes = bs_requested_indexes b, sa_requested_total = Some (bs_requested_total b),
     sa_resolved_indexes = Some (bs_resolved_indexes b), sa_resolved_total = Some (bs_resolved_total b),
     sa_rejected_reasons = Some (bs_rejected_reasons b), sa_rejected_total = Some (bs_rejected_total b),
     sa_applied_indexes = Some (bs_applied_indexes b), sa_applied_total = Some (bs_applied_total b),
     sa_already_indexes = Some (bs_already_indexes b), sa_already_total = Some (bs_already_total b),
     sa_participant_ids = Some (bs_participant_ids b), sa_participant_total = Some (bs_participant_total b),
     sa_commit_status = Some (bs_commit_status b), sa_post_edit_status = Some (bs_post_edit_status b),
     sa_terminal_status = Some (bs_terminal_status b), sa_duration = Some (bs_duration b)\<rparr>"

subsection \<open>Samples and totals\<close>

lemma js_unique_distinct: "distinct xs \<Longrightarrow> js_unique xs = xs"
  by (simp add: js_unique_def distinct_remdups_id)

lemma bounded_sample:
  "distinct (bounded_edit_indexes idxs)" "length (bounded_edit_indexes idxs) \<le> MAX_EDIT_BATCH_ITEMS"
  "set (bounded_edit_indexes idxs) \<subseteq> {i \<in> set idxs. 0 \<le> i}"
  using set_take_subset [of MAX_EDIT_BATCH_ITEMS "js_unique (valid_indexes idxs)"]
  by (auto simp: bounded_edit_indexes_def valid_indexes_def)

lemma valid_bounded [simp]: "valid_indexes (bounded_edit_indexes idxs) = bounded_edit_indexes idxs"
  using bounded_sample(3) [of idxs] unfolding valid_indexes_def by (intro filter_True) auto

lemma bounded_valid [simp]: "bounded_edit_indexes (valid_indexes idxs) = bounded_edit_indexes idxs"
  by (simp add: bounded_edit_indexes_def valid_indexes_def)

lemma bounded_bounded [simp]: "bounded_edit_indexes (bounded_edit_indexes idxs) = bounded_edit_indexes idxs"
proof -
  have "bounded_edit_indexes (bounded_edit_indexes idxs) = take MAX_EDIT_BATCH_ITEMS (bounded_edit_indexes idxs)"
    using bounded_sample(1) [of idxs] unfolding bounded_edit_indexes_def [of "bounded_edit_indexes idxs"]
    by (simp add: js_unique_distinct)
  then show ?thesis using bounded_sample(2) [of idxs] by simp
qed

lemma or_else_simps [simp]: "or_else (Some x) d = x" "or_else None d = d"
  by (simp_all add: or_else_def)

lemma unique_participants:
  "take n (js_unique (filter P (take n (js_unique (filter P ws))))) = take n (js_unique (filter P ws))"
proof -
  have "filter P (take n (js_unique (filter P ws))) = take n (js_unique (filter P ws))"
    by (rule filter_True) (auto dest: in_set_takeD)
  then show ?thesis by (simp add: js_unique_distinct)
qed

lemma summary_parts:
  "bs_requested_indexes (create_edit_batch_summary a) = bounded_edit_indexes (sa_requested_indexes a)"
  "bs_resolved_indexes (create_edit_batch_summary a) = bounded_edit_indexes (or_else (sa_resolved_indexes a) [])"
  "bs_applied_indexes (create_edit_batch_summary a) = bounded_edit_indexes (or_else (sa_applied_indexes a) [])"
  "bs_already_indexes (create_edit_batch_summary a) = bounded_edit_indexes (or_else (sa_already_indexes a) [])"
  "bs_rejected_reasons (create_edit_batch_summary a) =
     take MAX_EDIT_BATCH_ITEMS (filter (\<lambda>e. 0 \<le> er_index e) (or_else (sa_rejected_reasons a) []))"
  "bs_participant_ids (create_edit_batch_summary a) =
     take MAX_EDIT_BATCH_ITEMS (js_unique (filter (\<lambda>w. w \<noteq> []) (or_else (sa_participant_ids a) [])))"
  by (simp_all add: create_edit_batch_summary_def Let_def)

lemma summary_totals:
  "bs_requested_total (create_edit_batch_summary a) =
     or_else (sa_requested_total a) (int (length (valid_indexes (sa_requested_indexes a))))"
  "bs_resolved_total (create_edit_batch_summary a) =
     or_else (sa_resolved_total a) (int (length (valid_indexes (or_else (sa_resolved_indexes a) []))))"
  "bs_rejected_total (create_edit_batch_summary a) =
     or_else (sa_rejected_total a)
       (int (length (filter (\<lambda>e. 0 \<le> er_index e) (or_else (sa_rejected_reasons a) []))))"
  "bs_applied_total (create_edit_batch_summary a) =
     or_else (sa_applied_total a) (int (length (valid_indexes (or_else (sa_applied_indexes a) []))))"
  "bs_already_total (create_edit_batch_summary a) =
     or_else (sa_already_total a) (int (length (valid_indexes (or_else (sa_already_indexes a) []))))"
  "bs_participant_total (create_edit_batch_summary a) =
     or_else (sa_participant_total a) (int (length (filter (\<lambda>w. w \<noteq> []) (or_else (sa_participant_ids a) []))))"
  by (simp_all add: create_edit_batch_summary_def Let_def)

lemma summary_flags:
  "bs_participant_ids_truncated (create_edit_batch_summary a) \<longleftrightarrow>
     int (length (bs_participant_ids (create_edit_batch_summary a)))
       < bs_participant_total (create_edit_batch_summary a)"
  "bs_commit_status (create_edit_batch_summary a) = or_else (sa_commit_status a) Not_Attempted"
  "bs_post_edit_status (create_edit_batch_summary a) = or_else (sa_post_edit_status a) Not_Run"
  "bs_terminal_status (create_edit_batch_summary (a\<lparr>sa_terminal_status := Some t\<rparr>)) = t"
  "bs_duration (create_edit_batch_summary a) = max 0 (min (or_else (sa_duration a) 0) 86400000)"
  by (simp_all add: create_edit_batch_summary_def Let_def)

lemma summary_terminal:
  "sa_terminal_status a = Some t \<Longrightarrow> bs_terminal_status (create_edit_batch_summary a) = t"
  by (simp add: create_edit_batch_summary_def Let_def)

lemma args_parts:
  "sa_requested_indexes (args_of_summary b) = bs_requested_indexes b"
  "sa_requested_total (args_of_summary b) = Some (bs_requested_total b)"
  "sa_resolved_indexes (args_of_summary b) = Some (bs_resolved_indexes b)"
  "sa_resolved_total (args_of_summary b) = Some (bs_resolved_total b)"
  "sa_rejected_reasons (args_of_summary b) = Some (bs_rejected_reasons b)"
  "sa_rejected_total (args_of_summary b) = Some (bs_rejected_total b)"
  "sa_applied_indexes (args_of_summary b) = Some (bs_applied_indexes b)"
  "sa_applied_total (args_of_summary b) = Some (bs_applied_total b)"
  "sa_already_indexes (args_of_summary b) = Some (bs_already_indexes b)"
  "sa_already_total (args_of_summary b) = Some (bs_already_total b)"
  "sa_participant_ids (args_of_summary b) = Some (bs_participant_ids b)"
  "sa_participant_total (args_of_summary b) = Some (bs_participant_total b)"
  "sa_commit_status (args_of_summary b) = Some (bs_commit_status b)"
  "sa_post_edit_status (args_of_summary b) = Some (bs_post_edit_status b)"
  "sa_terminal_status (args_of_summary b) = Some (bs_terminal_status b)"
  "sa_duration (args_of_summary b) = Some (bs_duration b)"
  by (simp_all add: args_of_summary_def)

lemma kept_rejections: "take n (filter P (take n (filter P es))) = take n (filter P es)"
proof -
  have "filter P (take n (filter P es)) = take n (filter P es)"
    by (rule filter_True) (auto dest: in_set_takeD)
  then show ?thesis by simp
qed

text \<open>Every index list of a summary is a de-duplicated sample of at most 100 indexes.
  When the apply step rebuilds the preflight's summary, the samples, totals, statuses, participants
  and the duration survive.\<close>

theorem rebuilt_summary_keeps_the_batch:
  fixes a
  defines "b \<equiv> create_edit_batch_summary a"
  defines "c \<equiv> create_edit_batch_summary (args_of_summary b)"
  shows "distinct (bs_requested_indexes b) \<and> length (bs_requested_indexes b) \<le> MAX_EDIT_BATCH_ITEMS
    \<and> bs_requested_indexes c = bs_requested_indexes b \<and> bs_requested_total c = bs_requested_total b
    \<and> bs_resolved_indexes c = bs_resolved_indexes b \<and> bs_resolved_total c = bs_resolved_total b
    \<and> bs_rejected_reasons c = bs_rejected_reasons b \<and> bs_rejected_total c = bs_rejected_total b
    \<and> bs_applied_indexes c = bs_applied_indexes b \<and> bs_applied_total c = bs_applied_total b
    \<and> bs_already_indexes c = bs_already_indexes b \<and> bs_already_total c = bs_already_total b
    \<and> bs_participant_ids c = bs_participant_ids b \<and> bs_participant_total c = bs_participant_total b
    \<and> bs_participant_ids_truncated c = bs_participant_ids_truncated b
    \<and> bs_terminal_status c = bs_terminal_status b \<and> bs_commit_status c = bs_commit_status b
    \<and> bs_post_edit_status c = bs_post_edit_status b \<and> bs_duration c = bs_duration b"
  using bounded_sample [of "sa_requested_indexes a"]
  by (simp add: b_def c_def summary_parts summary_totals summary_flags summary_terminal args_parts
      kept_rejections unique_participants)

text \<open>The counts do not survive: they become the length of the sample.\<close>

lemma summary_count: "bs_requested_count (create_edit_batch_summary a) = int (length (valid_indexes (sa_requested_indexes a)))"
  by (simp add: create_edit_batch_summary_def Let_def)

lemma rebuilt_count_is_the_sample:
  "bs_requested_count (create_edit_batch_summary (no_summary_args [4, 4, 4])) = 3 \<and>
   bs_requested_count (create_edit_batch_summary
     (args_of_summary (create_edit_batch_summary (no_summary_args [4, 4, 4])))) = 1"
  by (simp add: summary_count args_parts summary_parts no_summary_args_def
      bounded_edit_indexes_def valid_indexes_def js_unique_def MAX_EDIT_BATCH_ITEMS_def)

end
