(* ===== verification/Partial_Edits.thy ===== *)
theory Partial_Edits
  imports Path_Keyed_Map Text_Search Text_Edits Edit_Batch_Summary
begin

text \<open>
  \<^verbatim>\<open>clients/partial-edit-apply.ts\<close>: applying the spans a preflight approved to the file they were
  resolved against, the records of what was applied, and recognising an exact retry.

  The digest \<open>sha\<close> stands for the hex SHA-256 of a text's bytes.  A file holds text: the bytes and
  the text they decode to are one value here, which leaves out files that are not valid UTF-8.  A
  rejection carries the values its message interpolates.
\<close>

record partial_edit =
  ae_old_text :: string
  ae_span_text :: string
  ae_new_text :: "string option"
  ae_index :: int
  ae_snapshot :: string
  ae_start :: int
  ae_end :: int

datatype rejection =
    No_Approved_Edits
  | Mixed_Snapshots
  | Stale_Snapshot
  | Span_Changed int
  | Span_Overlap int int

record applied_record =
  ar_digest :: string
  ar_content_hash :: "string option"
  ar_after_write_hash :: "string option"
  ar_applied_at :: int

definition MAX_APPLIED_RECORDS_PER_FILE :: nat where "MAX_APPLIED_RECORDS_PER_FILE = 8"
definition MAX_APPLIED_RECORD_FILES :: int where "MAX_APPLIED_RECORD_FILES = 64"

subsection \<open>Keys and digests\<close>

definition normalize_lf :: "string \<Rightarrow> string" where
  "normalize_lf s = join_lines (split_lines s)"

definition trim_end :: "string \<Rightarrow> string" where
  "trim_end s = rev (dropWhile is_js_space (rev s))"

text \<open>\<^verbatim>\<open>while (lines.length > 1 && last === "") lines.pop()\<close>, on the reversed list.\<close>

fun pop_empty :: "string list \<Rightarrow> string list" where
  "pop_empty (l # k # ls) = (if l = [] then pop_empty (k # ls) else l # k # ls)"
| "pop_empty ls = ls"

definition strip_old_text_trailing_whitespace :: "string \<Rightarrow> string" where
  "strip_old_text_trailing_whitespace value =
     join_with LF (rev (pop_empty (rev (map trim_end (split_on LF (normalize_lf value))))))"

text \<open>\<^verbatim>\<open>JSON.stringify\<close> of a string, and of the pair \<^verbatim>\<open>[oldText, newText ?? ""]\<close>.\<close>

definition hex_digit :: "nat \<Rightarrow> char" where
  "hex_digit n = (if n < 10 then char_of (48 + n) else char_of (87 + n))"

definition json_escape :: "char \<Rightarrow> string" where
  "json_escape c =
     (let n = of_char c :: nat
      in if n = 34 then [BSLASH, CHR 0x22]
         else if n = 92 then [BSLASH, BSLASH]
         else if n = 8 then [BSLASH, CHR ''b'']
         else if n = 12 then [BSLASH, CHR ''f'']
         else if n = 10 then [BSLASH, CHR ''n'']
         else if n = 13 then [BSLASH, CHR ''r'']
         else if n = 9 then [BSLASH, CHR ''t'']
         else if n < 32 then [BSLASH, CHR ''u'', CHR ''0'', CHR ''0'', hex_digit (n div 16), hex_digit (n mod 16)]
         else [c])"

definition json_string :: "string \<Rightarrow> string" where
  "json_string s = CHR 0x22 # concat (map json_escape s) @ [CHR 0x22]"

definition json_pair :: "string \<Rightarrow> string \<Rightarrow> string" where
  "json_pair a b = ''['' @ json_string a @ '','' @ json_string b @ '']''"

definition edit_pair_digest :: "(string \<Rightarrow> string) \<Rightarrow> string \<Rightarrow> string option \<Rightarrow> string" where
  "edit_pair_digest sha old_text new_text = sha (json_pair old_text (or_else new_text []))"

definition count_lf_occurrences :: "string \<Rightarrow> string \<Rightarrow> nat" where
  "count_lf_occurrences content needle = count_occurrences content needle"

subsection \<open>Recognising a retry\<close>

record retry_evidence =
  rt_content_lf :: string
  rt_old_key :: string
  rt_new_key :: string
  rt_content_hash :: "string option"
  rt_expected_hash :: "string option"
  rt_expected_after_write :: "string option"

definition matches_known_state :: "retry_evidence \<Rightarrow> bool" where
  "matches_known_state a \<longleftrightarrow> rt_content_hash a \<noteq> None \<and>
     (rt_content_hash a = rt_expected_hash a \<or> rt_content_hash a = rt_expected_after_write a)"

definition is_exact_applied_retry :: "retry_evidence \<Rightarrow> bool" where
  "is_exact_applied_retry a =
     (let lf = rt_content_lf a; old = rt_old_key a; new = rt_new_key a
      in if (rt_expected_hash a \<noteq> None \<or> rt_expected_after_write a \<noteq> None) \<and> \<not> matches_known_state a then False
         else if old = [] then False
         else if new = [] then count_lf_occurrences lf old = 0
         else if \<not> contains_text new old then count_lf_occurrences lf old = 0 \<and> count_lf_occurrences lf new \<ge> 1
         else
           let news = map (\<lambda>i. (i, i + length new)) (occurrences lf new)
           in if news = [] then False
              else list_all (\<lambda>i. list_ex (\<lambda>(s, e). s \<le> i \<and> i + length old \<le> e) news) (occurrences lf old))"

subsection \<open>The record store\<close>

type_synonym record_store = "applied_record list path_map"

definition new_record_store :: record_store where
  "new_record_store = pm_new (Some MAX_APPLIED_RECORD_FILES)"

definition records_of :: "(path \<Rightarrow> path) \<Rightarrow> record_store \<Rightarrow> path \<Rightarrow> applied_record list" where
  "records_of nrm st p = or_else (pm_get nrm p st) []"

definition find_record ::
    "(path \<Rightarrow> path) \<Rightarrow> (string \<Rightarrow> string) \<Rightarrow> path \<Rightarrow> string option \<Rightarrow> string option \<Rightarrow> record_store
     \<Rightarrow> applied_record option" where
  "find_record nrm sha p old_text new_text st =
     (case old_text of
        None \<Rightarrow> None
      | Some old \<Rightarrow>
          if old = [] then None
          else find (\<lambda>r. ar_digest r = edit_pair_digest sha old new_text) (records_of nrm st p))"

text \<open>\<^verbatim>\<open>findIndex\<close> and \<^verbatim>\<open>splice(i, 1)\<close>: the first record of the pair goes.\<close>

fun remove_first :: "('a \<Rightarrow> bool) \<Rightarrow> 'a list \<Rightarrow> 'a list" where
  "remove_first P [] = []"
| "remove_first P (x # xs) = (if P x then xs else x # remove_first P xs)"

definition push_record :: "applied_record \<Rightarrow> applied_record list \<Rightarrow> applied_record list" where
  "push_record r records =
     (let kept = remove_first (\<lambda>q. ar_digest q = ar_digest r) records
      in (if MAX_APPLIED_RECORDS_PER_FILE \<le> length kept then tl kept else kept) @ [r])"

definition record_applied ::
    "(path \<Rightarrow> path) \<Rightarrow> (string \<Rightarrow> string) \<Rightarrow> (path \<Rightarrow> string option) \<Rightarrow> int \<Rightarrow> path \<Rightarrow> string \<Rightarrow> string option
     \<Rightarrow> string option \<Rightarrow> record_store \<Rightarrow> record_store" where
  "record_applied nrm sha hash_file now p old_text new_text content_hash st =
     (if old_text = [] then st
      else
        let r = \<lparr>ar_digest = edit_pair_digest sha old_text new_text,
          ar_content_hash = (case content_hash of Some h \<Rightarrow> Some h | None \<Rightarrow> hash_file p),
          ar_after_write_hash = None, ar_applied_at = now\<rparr>
        in pm_set nrm p (push_record r (records_of nrm st p)) st)"

fun stamp_first :: "('a \<Rightarrow> bool) \<Rightarrow> ('a \<Rightarrow> 'a) \<Rightarrow> 'a list \<Rightarrow> 'a list" where
  "stamp_first P f [] = []"
| "stamp_first P f (x # xs) = (if P x then f x # xs else x # stamp_first P f xs)"

text \<open>The record is changed in place inside the array the map holds: its display path stays.\<close>

definition map_store_value :: "path \<Rightarrow> ('v \<Rightarrow> 'v) \<Rightarrow> 'v path_map \<Rightarrow> 'v path_map" where
  "map_store_value k f m =
     (let upd = map (\<lambda>(k', e). (k', if k' = k then e\<lparr>pe_value := f (pe_value e)\<rparr> else e))
      in case m of
           Unbounded s \<Rightarrow> Unbounded (upd s)
         | Bounded c \<Rightarrow> Bounded (c\<lparr>entries := upd (entries c)\<rparr>))"

definition note_after_write_hash ::
    "(path \<Rightarrow> path) \<Rightarrow> (string \<Rightarrow> string) \<Rightarrow> path \<Rightarrow> string \<Rightarrow> string option \<Rightarrow> string \<Rightarrow> record_store \<Rightarrow> record_store" where
  "note_after_write_hash nrm sha p old_text new_text h st =
     (if old_text = [] then st
      else map_store_value (nrm p)
        (stamp_first (\<lambda>r. ar_digest r = edit_pair_digest sha old_text new_text)
          (\<lambda>r. r\<lparr>ar_after_write_hash := Some h\<rparr>)) st)"

definition clear_records :: "record_store \<Rightarrow> record_store" where
  "clear_records st = pm_clear st"

definition file_count :: "record_store \<Rightarrow> nat" where
  "file_count st = pm_size st"

subsection \<open>Committing\<close>

definition real_file :: "fs \<Rightarrow> path \<Rightarrow> path" where
  "real_file s p = (case fs_link s p of Some t \<Rightarrow> t | None \<Rightarrow> p)"

definition read_text :: "fs \<Rightarrow> path \<Rightarrow> string option" where
  "read_text s p = map_option fn_data (fs_files s (real_file s p))"

definition hash_file :: "(string \<Rightarrow> string) \<Rightarrow> fs \<Rightarrow> path \<Rightarrow> string option" where
  "hash_file sha s p = map_option sha (read_text s p)"

definition span_order :: "partial_edit \<Rightarrow> partial_edit \<Rightarrow> int" where
  "span_order a b = ae_start a - ae_start b"

fun check_spans :: "string \<Rightarrow> partial_edit option \<Rightarrow> partial_edit list \<Rightarrow> rejection option" where
  "check_spans lf prev [] = None"
| "check_spans lf prev (e # es) =
     (if js_slice lf (ae_start e) (ae_end e) \<noteq> ae_span_text e then Some (Span_Changed (ae_index e))
      else case prev of
        Some p \<Rightarrow>
          if ae_start e < ae_end p then Some (Span_Overlap (ae_index p) (ae_index e))
          else check_spans lf (Some e) es
      | None \<Rightarrow> check_spans lf (Some e) es)"

definition splice_span :: "partial_edit \<Rightarrow> string \<Rightarrow> string" where
  "splice_span e committed =
     js_slice committed 0 (ae_start e) @ normalize_to_lf (or_else (ae_new_text e) [])
       @ js_slice_from committed (ae_end e)"

text \<open>Spans are spliced from the last to the first.\<close>

definition committed_text :: "string \<Rightarrow> partial_edit list \<Rightarrow> string" where
  "committed_text lf ordered = foldr splice_span ordered lf"

datatype commit_failure = Rejected rejection | Io_Error

definition commit ::
    "(string \<Rightarrow> string) \<Rightarrow> thread \<Rightarrow> path \<Rightarrow> string \<Rightarrow> partial_edit list \<Rightarrow> fs \<Rightarrow> (commit_failure + string) \<times> fs" where
  "commit sha th p snapshot edits s =
     (case fs_files s (real_file s p) of
        None \<Rightarrow> (Inl Io_Error, s)
      | Some node \<Rightarrow>
          let raw = fn_data node
          in if sha raw \<noteq> snapshot then (Inl (Rejected Stale_Snapshot), s)
             else
               let ending = detect_line_ending raw;
                   lf = normalize_to_lf raw;
                   ordered = sort_by span_order edits
               in case check_spans lf None ordered of
                    Some r \<Rightarrow> (Inl (Rejected r), s)
                  | None \<Rightarrow>
                      let output = restore_line_endings (committed_text lf ordered) ending
                      in case write_file_atomic th False (Some (fn_mode node)) (real_file s p) output s of
                           (threw, s') \<Rightarrow> (if threw then Inl Io_Error else Inr (sha output), s'))"

subsection \<open>The batch\<close>

record partial_result =
  pr_applied_count :: nat
  pr_applied_total :: nat
  pr_applied_indices :: string
  pr_post_edit_output :: "string option"
  pr_post_edit_status :: post_edit_status
  pr_summary :: "edit_batch_summary option"
  pr_rejected :: "rejection option"

definition rejected_result :: "rejection \<Rightarrow> partial_result" where
  "rejected_result r = \<lparr>pr_applied_count = 0, pr_applied_total = 0, pr_applied_indices = [],
     pr_post_edit_output = None, pr_post_edit_status = Not_Run, pr_summary = None, pr_rejected = Some r\<rparr>"

text \<open>
  The caller's arguments; \<open>ap_after_write\<close> is the post-edit hook with its effect on the disk, whose
  left answer is a throw.
\<close>

record apply_args =
  ap_path :: path
  ap_edits :: "partial_edit list"
  ap_after_write :: "(fs \<Rightarrow> (unit + string option) \<times> fs) option"
  ap_summary :: "edit_batch_summary option"
  ap_correlation :: "string option"

record apply_state =
  as_fs :: fs
  as_store :: "record_store option"

definition batch_check :: "partial_edit list \<Rightarrow> rejection option" where
  "batch_check edits =
     (case edits of
        [] \<Rightarrow> Some No_Approved_Edits
      | e # _ \<Rightarrow> if list_all (\<lambda>f. ae_snapshot f = ae_snapshot e) edits then None else Some Mixed_Snapshots)"

definition record_batch ::
    "(path \<Rightarrow> path) \<Rightarrow> (string \<Rightarrow> string) \<Rightarrow> int \<Rightarrow> path \<Rightarrow> partial_edit list \<Rightarrow> string \<Rightarrow> fs
     \<Rightarrow> record_store \<Rightarrow> record_store" where
  "record_batch nrm sha now p edits h s st =
     foldl (\<lambda>st e. record_applied nrm sha (hash_file sha s) now p (ae_old_text e) (ae_new_text e) (Some h) st) st edits"

definition stamp_batch ::
    "(path \<Rightarrow> path) \<Rightarrow> (string \<Rightarrow> string) \<Rightarrow> path \<Rightarrow> partial_edit list \<Rightarrow> string \<Rightarrow> record_store \<Rightarrow> record_store" where
  "stamp_batch nrm sha p edits h st =
     foldl (\<lambda>st e. note_after_write_hash nrm sha p (ae_old_text e) (ae_new_text e) h st) st edits"

text \<open>The post-edit hook and the stamp of what it left: its output, its status, and the state.\<close>

definition run_after_write ::
    "(path \<Rightarrow> path) \<Rightarrow> (string \<Rightarrow> string) \<Rightarrow> apply_args \<Rightarrow> string \<Rightarrow> apply_state
     \<Rightarrow> string option \<times> post_edit_status \<times> apply_state" where
  "run_after_write nrm sha a h st =
     (case ap_after_write a of
        None \<Rightarrow> (None, Not_Run, st)
      | Some hook \<Rightarrow>
          (case hook (as_fs st) of
             (Inl _, s) \<Rightarrow> (None, Post_Edit_Failed, st\<lparr>as_fs := s\<rparr>)
           | (Inr out, s) \<Rightarrow>
               (out, Succeeded,
                st\<lparr>as_fs := s,
                   as_store := map_option (\<lambda>store.
                     case hash_file sha s (ap_path a) of
                       Some k \<Rightarrow> if k \<noteq> h then stamp_batch nrm sha (ap_path a) (ap_edits a) k store else store
                     | None \<Rightarrow> store) (as_store st)\<rparr>)))"

definition with_participant :: "string option \<Rightarrow> edit_batch_summary \<Rightarrow> summary_args" where
  "with_participant cor b =
     (args_of_summary b)\<lparr>
       sa_participant_ids := Some (bs_participant_ids b @ (case cor of Some c \<Rightarrow> if c = [] then [] else [c] | None \<Rightarrow> [])),
       sa_participant_total := Some (bs_participant_total b + (case cor of Some c \<Rightarrow> if c = [] then 0 else 1 | None \<Rightarrow> 0))\<rparr>"

definition applied_summary :: "apply_args \<Rightarrow> post_edit_status \<Rightarrow> int \<Rightarrow> edit_batch_summary" where
  "applied_summary a post took =
     (let applied = bounded_edit_indexes (map ae_index (ap_edits a));
          total = int (length (ap_edits a));
          base = or_else (ap_summary a) (create_edit_batch_summary
            ((no_summary_args applied)\<lparr>sa_requested_total := Some total, sa_resolved_indexes := Some applied,
              sa_resolved_total := Some total\<rparr>))
      in create_edit_batch_summary ((with_participant (ap_correlation a) base)\<lparr>
           sa_applied_indexes := Some applied, sa_applied_total := Some total,
           sa_commit_status := Some Committed, sa_post_edit_status := Some post,
           sa_terminal_status := Some (if post = Post_Edit_Failed then Ended_Failed else Ended_Success),
           sa_duration := Some took\<rparr>))"

text \<open>An empty correlation id is falsy.\<close>

definition instrumented :: "apply_args \<Rightarrow> bool" where
  "instrumented a \<longleftrightarrow> ap_summary a \<noteq> None \<or> (ap_correlation a \<noteq> None \<and> ap_correlation a \<noteq> Some [])"

datatype apply_throw = Commit_Threw | After_Write_Threw

definition apply_partially_applicable_edits ::
    "(path \<Rightarrow> path) \<Rightarrow> (string \<Rightarrow> string) \<Rightarrow> thread \<Rightarrow> int \<Rightarrow> int \<Rightarrow> apply_args \<Rightarrow> apply_state
     \<Rightarrow> (apply_throw + partial_result) \<times> apply_state" where
  "apply_partially_applicable_edits nrm sha th now took a st =
     (let p = ap_path a; edits = ap_edits a
      in case batch_check edits of
           Some r \<Rightarrow> (Inr (rejected_result r), st)
         | None \<Rightarrow>
             (case commit sha th p (ae_snapshot (hd edits)) edits (as_fs st) of
                (Inl (Rejected r), s) \<Rightarrow> (Inr (rejected_result r), st\<lparr>as_fs := s\<rparr>)
              | (Inl Io_Error, s) \<Rightarrow> (Inl Commit_Threw, st\<lparr>as_fs := s\<rparr>)
              | (Inr h, s) \<Rightarrow>
                  let st1 = st\<lparr>as_fs := s, as_store := map_option (record_batch nrm sha now p edits h s) (as_store st)\<rparr>
                  in case run_after_write nrm sha a h st1 of
                       (out, post, st2) \<Rightarrow>
                         if post = Post_Edit_Failed \<and> \<not> instrumented a then (Inl After_Write_Threw, st2)
                         else
                           (Inr \<lparr>pr_applied_count = length edits, pr_applied_total = length edits,
                              pr_applied_indices =
                                format_bounded_edit_indexes (bounded_edit_indexes (map ae_index edits)),
                              pr_post_edit_output = out, pr_post_edit_status = post,
                              pr_summary = (if instrumented a then Some (applied_summary a post took) else None),
                              pr_rejected = None\<rparr>, st2)))"

end
