(* ===== verification/Partial_Edits_Meaning.thy ===== *)
theory Partial_Edits_Meaning
  imports Partial_Edits Text_Edits_Meaning
begin

text \<open>
  What applying a batch means: the approved spans of the file's line-feed view are replaced at once, a
  rejected batch changes nothing, and an applied pair is on record with the state it produced.
\<close>

subsection \<open>Order\<close>

lemma sort_by_key: "(\<And>a b. cmp a b = key a - key b) \<Longrightarrow> sort_by cmp xs = sort_key (key :: 'a \<Rightarrow> int) xs"
proof -
  assume c: "\<And>a b. cmp a b = key a - key b"
  have "insert_by cmp x ys = insort_key key x ys" for x ys by (induction ys) (auto simp: c)
  then show ?thesis by (induction xs) (simp_all add: sort_by_def sort_key_def)
qed

definition in_span_order :: "partial_edit list \<Rightarrow> partial_edit list" where
  "in_span_order edits = sort_key ae_start edits"

lemma sort_span_order [simp]: "sort_by span_order edits = in_span_order edits"
  unfolding in_span_order_def by (rule sort_by_key) (simp add: span_order_def)

lemma set_in_span_order [simp]: "set (in_span_order edits) = set edits"
  by (simp add: in_span_order_def)

lemma sorted_in_span_order: "sorted (map ae_start (in_span_order edits))"
  by (simp add: in_span_order_def)

subsection \<open>The check\<close>

text \<open>A span as a preflight resolves it: it starts inside the view and is as long as its text.\<close>

definition well_spanned :: "partial_edit \<Rightarrow> bool" where
  "well_spanned e \<longleftrightarrow> 0 \<le> ae_start e \<and> ae_span_text e \<noteq> [] \<and> ae_end e = ae_start e + int (length (ae_span_text e))"

fun spans_apart :: "partial_edit list \<Rightarrow> bool" where
  "spans_apart (e # f # es) \<longleftrightarrow> ae_end e \<le> ae_start f \<and> spans_apart (f # es)"
| "spans_apart es \<longleftrightarrow> True"

definition span_holds :: "string \<Rightarrow> partial_edit \<Rightarrow> bool" where
  "span_holds lf e \<longleftrightarrow> js_slice lf (ae_start e) (ae_end e) = ae_span_text e"

lemma check_spans_None:
  "check_spans lf prev es = None \<longleftrightarrow> (\<forall>e \<in> set es. span_holds lf e) \<and>
     spans_apart ((case prev of None \<Rightarrow> [] | Some p \<Rightarrow> [p]) @ es)"
  by (induction lf prev es rule: check_spans.induct)
    (auto simp: span_holds_def not_less split: option.splits)

lemma slice_is_occurrence:
  assumes "0 \<le> a" "b = a + int (length t)" "t \<noteq> []"
  shows "js_slice s a b = t \<longleftrightarrow> occurs_at s t (nat a)"
proof -
  have nb: "nat b = nat a + length t" using assms by simp
  have sl: "js_slice s a b = take (length t) (drop (nat a) s)" using assms nb by (simp add: js_slice_inside)
  show ?thesis
  proof
    assume h: "js_slice s a b = t"
    then have "length (take (length t) (drop (nat a) s)) = length t" using sl by simp
    then have "length t \<le> length s - nat a" by simp
    moreover have "0 < length t" using assms(3) by simp
    ultimately have "nat a + length t \<le> length s" by linarith
    then show "occurs_at s t (nat a)" using h sl by (simp add: occurs_at_def)
  qed (simp add: sl occurs_at_def)
qed

lemma span_holds_occurs: "well_spanned e \<Longrightarrow> span_holds lf e \<longleftrightarrow> occurs_at lf (ae_span_text e) (nat (ae_start e))"
  by (simp add: span_holds_def well_spanned_def slice_is_occurrence)

text \<open>Neighbours apart, in order, is every pair apart.\<close>

definition apart :: "partial_edit \<Rightarrow> partial_edit \<Rightarrow> bool" where
  "apart e f \<longleftrightarrow> ae_end e \<le> ae_start f \<or> ae_end f \<le> ae_start e"

lemma spans_apart_all:
  "spans_apart (e # es) \<Longrightarrow> \<forall>f \<in> set (e # es). ae_start f \<le> ae_end f \<Longrightarrow> f \<in> set es \<Longrightarrow> ae_end e \<le> ae_start f"
proof (induction es arbitrary: e)
  case (Cons g es)
  then show ?case using Cons.IH [of g] by (cases "f = g") fastforce+
qed simp

lemma spans_apart_iff:
  "sorted (map ae_start es) \<Longrightarrow> \<forall>e \<in> set es. ae_start e < ae_end e \<Longrightarrow> spans_apart es \<longleftrightarrow> sorted_wrt apart es"
proof (induction es rule: spans_apart.induct)
  case (1 e f es)
  show ?case
  proof
    assume l: "spans_apart (e # f # es)"
    have "apart e g" if "g \<in> set (f # es)" for g
      using spans_apart_all [OF l, of g] that "1.prems"(2) by (force simp: apart_def)
    moreover have "sorted_wrt apart (f # es)" using 1 l by simp
    ultimately show "sorted_wrt apart (e # f # es)" by simp
  next
    assume r: "sorted_wrt apart (e # f # es)"
    then have "apart e f" by simp
    then have "ae_end e \<le> ae_start f" using "1.prems" by (force simp: apart_def)
    moreover have "spans_apart (f # es)" using 1 r by simp
    ultimately show "spans_apart (e # f # es)" by simp
  qed
qed simp_all

lemma apart_sym: "apart e f \<longleftrightarrow> apart f e"
  by (auto simp: apart_def)

lemma apart_insort: "sorted_wrt apart (insort_key k x xs) \<longleftrightarrow> (\<forall>y \<in> set xs. apart x y) \<and> sorted_wrt apart xs"
  by (induction xs) (auto simp: set_insort_key apart_sym [of _ x])

lemma apart_sorted: "sorted_wrt apart (in_span_order edits) \<longleftrightarrow> sorted_wrt apart edits"
  unfolding in_span_order_def sort_key_def by (induction edits) (simp_all add: apart_insort flip: sort_key_def)

subsection \<open>Replacing at once\<close>

text \<open>The reference: in order of their starts, the spans are replaced and what lies between is copied.\<close>

fun span_weave :: "string \<Rightarrow> nat \<Rightarrow> partial_edit list \<Rightarrow> string" where
  "span_weave lf pos [] = drop pos lf"
| "span_weave lf pos (e # es) =
     take (nat (ae_start e) - pos) (drop pos lf) @ normalize_to_lf (or_else (ae_new_text e) [])
       @ span_weave lf (nat (ae_end e)) es"

definition replaced_at_once :: "string \<Rightarrow> partial_edit list \<Rightarrow> string" where
  "replaced_at_once lf edits = span_weave lf 0 (in_span_order edits)"

lemma foldr_splice:
  assumes "spans_apart es" "\<forall>e \<in> set es. well_spanned e \<and> span_holds lf e"
    and "\<forall>e \<in> set es. int pos \<le> ae_start e"
  shows "foldr splice_span es lf = take pos lf @ span_weave lf pos es"
  using assms
proof (induction es arbitrary: pos)
  case (Cons e es)
  let ?s = "nat (ae_start e)" and ?t = "nat (ae_end e)"
  have w: "0 \<le> ae_start e" "ae_start e \<le> ae_end e" and oc: "occurs_at lf (ae_span_text e) ?s"
    using Cons.prems(2) span_holds_occurs [of e lf] by (auto simp: well_spanned_def)
  have all: "\<forall>f \<in> set (e # es). ae_start f \<le> ae_end f" using Cons.prems(2) by (auto simp: well_spanned_def)
  have "\<forall>f \<in> set es. int ?t \<le> ae_start f"
    using spans_apart_all [OF Cons.prems(1) all] w by auto
  moreover have "spans_apart es" using Cons.prems(1) by (cases es) auto
  ultimately have ih: "foldr splice_span es lf = take ?t lf @ span_weave lf ?t es"
    using Cons.IH Cons.prems(2) by simp
  have t: "?t = ?s + length (ae_span_text e)" using Cons.prems(2) by (auto simp: well_spanned_def)
  have len: "?t \<le> length lf" using occurs_at_bound [OF oc] t by simp
  have ps: "pos \<le> ?s" using Cons.prems(3) w by auto
  have "take ?s (foldr splice_span es lf) = take ?s lf" using ih len t by (simp add: min_absorb1)
  moreover have "drop ?t (foldr splice_span es lf) = span_weave lf ?t es" using ih len by simp
  moreover have "take ?s lf = take pos lf @ take (?s - pos) (drop pos lf)"
    using ps by (metis le_add_diff_inverse take_add)
  moreover have "splice_span e c = take ?s c @ normalize_to_lf (or_else (ae_new_text e) []) @ drop ?t c" for c
    using w by (simp add: splice_span_def js_slice_prefix js_slice_from_inside)
  ultimately show ?case by simp
qed simp

lemma committed_at_once:
  assumes "spans_apart (in_span_order edits)" "\<forall>e \<in> set edits. well_spanned e \<and> span_holds lf e"
  shows "committed_text lf (in_span_order edits) = replaced_at_once lf edits"
proof -
  have "\<forall>e \<in> set (in_span_order edits). int 0 \<le> ae_start e" using assms(2) by (auto simp: well_spanned_def)
  then show ?thesis using foldr_splice [of "in_span_order edits" lf 0] assms
    by (simp add: committed_text_def replaced_at_once_def)
qed

lemma span_weave_no_cr: "CR \<notin> set lf \<Longrightarrow> CR \<notin> set (span_weave lf pos es)"
  by (induction lf pos es rule: span_weave.induct) (auto simp: normalize_no_cr dest: in_set_takeD in_set_dropD)

lemma replaced_no_cr: "CR \<notin> set (replaced_at_once (normalize_to_lf raw) edits)"
  by (simp add: replaced_at_once_def span_weave_no_cr normalize_no_cr)

text \<open>The same view cut at the spans: what lies between them, and the text of each.\<close>

fun woven :: "string list \<Rightarrow> string list \<Rightarrow> string" where
  "woven (g # gs) (x # xs) = g @ x @ woven gs xs"
| "woven gs [] = concat gs"
| "woven [] xs = concat xs"

definition new_text_of :: "partial_edit \<Rightarrow> string" where
  "new_text_of e = normalize_to_lf (or_else (ae_new_text e) [])"

lemma weave_gaps:
  assumes "spans_apart es" "\<forall>e \<in> set es. well_spanned e \<and> span_holds lf e" "\<forall>e \<in> set es. int pos \<le> ae_start e"
  shows "\<exists>gaps. length gaps = Suc (length es) \<and> drop pos lf = woven gaps (map ae_span_text es) \<and>
    span_weave lf pos es = woven gaps (map new_text_of es)"
  using assms
proof (induction es arbitrary: pos)
  case Nil
  show ?case by (rule exI [of _ "[drop pos lf]"]) simp
next
  case (Cons e es)
  let ?s = "nat (ae_start e)" and ?t = "nat (ae_end e)"
  have w: "0 \<le> ae_start e" "ae_start e \<le> ae_end e" and oc: "occurs_at lf (ae_span_text e) ?s"
    using Cons.prems(2) span_holds_occurs [of e lf] by (auto simp: well_spanned_def)
  have all: "\<forall>f \<in> set (e # es). ae_start f \<le> ae_end f" using Cons.prems(2) by (auto simp: well_spanned_def)
  have "\<forall>f \<in> set es. int ?t \<le> ae_start f" using spans_apart_all [OF Cons.prems(1) all] w by auto
  moreover have "spans_apart es" using Cons.prems(1) by (cases es) auto
  ultimately obtain gaps where g: "length gaps = Suc (length es)" "drop ?t lf = woven gaps (map ae_span_text es)"
    "span_weave lf ?t es = woven gaps (map new_text_of es)" using Cons.IH [of ?t] Cons.prems(2) by auto
  have t: "?t = ?s + length (ae_span_text e)" using Cons.prems(2) by (auto simp: well_spanned_def)
  have ps: "pos \<le> ?s" using Cons.prems(3) w by auto
  have "drop pos lf = take (?s - pos) (drop pos lf) @ drop ?s lf"
    using ps by (metis append_take_drop_id drop_drop le_add_diff_inverse2)
  moreover have "drop ?s lf = ae_span_text e @ drop ?t lf"
    using oc t unfolding occurs_at_def by (metis append_take_drop_id drop_drop add.commute)
  ultimately have "drop pos lf = take (?s - pos) (drop pos lf) @ ae_span_text e @ woven gaps (map ae_span_text es)"
    using g(2) by simp
  moreover have "span_weave lf pos (e # es) = take (?s - pos) (drop pos lf) @ new_text_of e @ woven gaps (map new_text_of es)"
    by (simp add: g(3) new_text_of_def)
  ultimately show ?case using g(1) by (intro exI [of _ "take (?s - pos) (drop pos lf) # gaps"]) simp
qed

lemma woven_restored:
  "restore_line_endings (woven gaps xs) b = woven (map (\<lambda>g. restore_line_endings g b) gaps) (map (\<lambda>x. restore_line_endings x b) xs)"
proof -
  have app: "restore_line_endings (u @ v) b = restore_line_endings u b @ restore_line_endings v b" for u v
    by (simp add: restore_line_endings_def)
  have con: "restore_line_endings (concat us) b = concat (map (\<lambda>u. restore_line_endings u b) us)" for us
    by (induction us) (simp_all add: app, simp add: restore_line_endings_def)
  show ?thesis by (induction gaps xs rule: woven.induct) (simp_all add: app con)
qed

text \<open>A text with one kind of line ending: writing its view back gives the text.\<close>

definition uniform_endings :: "string \<Rightarrow> bool" where
  "uniform_endings raw \<longleftrightarrow> restore_line_endings (normalize_to_lf raw) (detect_line_ending raw) = raw"

subsection \<open>Committing\<close>

lemma well_spanned_less: "well_spanned e \<Longrightarrow> ae_start e < ae_end e"
  by (auto simp: well_spanned_def)

lemma check_in_order:
  assumes "\<forall>e \<in> set edits. well_spanned e"
  shows "check_spans lf None (in_span_order edits) = None \<longleftrightarrow>
    (\<forall>e \<in> set edits. occurs_at lf (ae_span_text e) (nat (ae_start e))) \<and> sorted_wrt apart edits"
  using assms
  by (simp add: check_spans_None spans_apart_iff [OF sorted_in_span_order] well_spanned_less apart_sorted
      span_holds_occurs)

text \<open>What the file held, what it holds after a commit, and that nothing else changed.\<close>

definition committed_to :: "(string \<Rightarrow> string) \<Rightarrow> path \<Rightarrow> partial_edit list \<Rightarrow> fs \<Rightarrow> fs \<Rightarrow> bool" where
  "committed_to sha p edits s s' \<longleftrightarrow>
     (\<exists>raw new. read_text s p = Some raw \<and> read_text s' p = Some new \<and>
        new = restore_line_endings (replaced_at_once (normalize_to_lf raw) edits) (detect_line_ending raw) \<and>
        spans_apart (in_span_order edits) \<and> (\<forall>e \<in> set edits. span_holds (normalize_to_lf raw) e))"

lemma write_keeps_links:
  assumes "write_file_atomic th best mode target data s = (threw, s')"
  shows "fs_link s' = fs_link s"
  using assms by (auto simp: write_file_atomic_def stage_path_for_def stage_data_def rename_file_def put_file_def
      drop_file_def Let_def split: stage_outcome.splits option.splits if_splits prod.splits)

lemma commit_Inr:
  assumes c: "commit sha th p snap edits s = (Inr h, s')" and w: "\<forall>e \<in> set edits. well_spanned e"
  shows "committed_to sha p edits s s' \<and> hash_file sha s' p = Some h \<and> hash_file sha s p = Some snap \<and>
    (\<forall>q. q \<noteq> real_file s p \<and> q \<noteq> stage_name th (fs_seq s) (real_file s p) \<longrightarrow> fs_files s' q = fs_files s q)"
proof -
  obtain node where n: "fs_files s (real_file s p) = Some node"
    using c by (auto simp: commit_def split: option.splits)
  let ?raw = "fn_data node"
  let ?out = "restore_line_endings (committed_text (normalize_to_lf ?raw) (in_span_order edits)) (detect_line_ending ?raw)"
  have sn: "sha ?raw = snap" and ok: "check_spans (normalize_to_lf ?raw) None (in_span_order edits) = None"
    using c n by (auto simp: commit_def Let_def split: if_splits option.splits prod.splits)
  obtain s2 threw where wr: "write_file_atomic th False (Some (fn_mode node)) (real_file s p) ?out s = (threw, s2)"
    by fastforce
  then have "\<not> threw" "s2 = s'" "h = sha ?out"
    using c n sn ok by (auto simp: commit_def Let_def split: if_splits)
  with wr have w': "write_file_atomic th False (Some (fn_mode node)) (real_file s p) ?out s = (False, s')" by simp
  have eq: "committed_text (normalize_to_lf ?raw) (in_span_order edits) = replaced_at_once (normalize_to_lf ?raw) edits"
    using ok w by (intro committed_at_once) (auto simp: check_spans_None)
  have spans: "spans_apart (in_span_order edits)" "\<forall>e \<in> set edits. span_holds (normalize_to_lf ?raw) e"
    using ok by (auto simp: check_spans_None)
  have "real_file s' p = real_file s p" using write_keeps_links [OF w'] by (simp add: real_file_def)
  then show ?thesis using write_file_atomic_files [OF w'] n sn \<open>h = _\<close> eq spans
    by (auto simp: committed_to_def read_text_def hash_file_def split: if_splits)
qed

lemma commit_rejected: "commit sha th p snap edits s = (Inl (Rejected r), s') \<Longrightarrow> s' = s"
  by (auto simp: commit_def Let_def split: option.splits if_splits prod.splits)

lemma commit_threw:
  assumes "commit sha th p snap edits s = (Inl Io_Error, s')"
  shows "(\<forall>q. q \<noteq> stage_name th (fs_seq s) (real_file s p) \<longrightarrow> fs_files s' q = fs_files s q) \<and> fs_link s' = fs_link s"
proof (cases "s' = s")
  case False
  then obtain mode out where
    wr: "write_file_atomic th False mode (real_file s p) out s = (True, s')"
    using assms by (auto simp: commit_def Let_def split: option.splits if_splits prod.splits)
  show ?thesis using write_file_atomic_files [OF wr] write_keeps_links [OF wr] by (auto split: if_splits)
qed simp

text \<open>Which batches are refused before anything is written.\<close>

lemma commit_accepts:
  assumes "\<forall>e \<in> set edits. well_spanned e"
  shows "(\<exists>r. fst (commit sha th p snap edits s) = Inl (Rejected r)) \<longleftrightarrow>
    (\<exists>raw. read_text s p = Some raw \<and>
      \<not> (sha raw = snap \<and> sorted_wrt apart edits \<and>
         (\<forall>e \<in> set edits. occurs_at (normalize_to_lf raw) (ae_span_text e) (nat (ae_start e)))))"
proof (cases "fs_files s (real_file s p)")
  case None
  then show ?thesis by (simp add: commit_def read_text_def)
next
  case (Some node)
  show ?thesis
  proof (cases "sha (fn_data node) = snap \<and> check_spans (normalize_to_lf (fn_data node)) None (in_span_order edits) = None")
    case True
    then show ?thesis using Some check_in_order [OF assms, of "normalize_to_lf (fn_data node)"]
      by (auto simp: commit_def read_text_def Let_def split: prod.split if_split)
  next
    case False
    then show ?thesis using Some check_in_order [OF assms, of "normalize_to_lf (fn_data node)"]
      by (auto simp: commit_def read_text_def Let_def split: option.split)
  qed
qed

subsection \<open>The batch\<close>

lemma batch_check_None: "batch_check edits = None \<longleftrightarrow> edits \<noteq> [] \<and> (\<forall>e \<in> set edits. ae_snapshot e = ae_snapshot (hd edits))"
  by (cases edits) (auto simp: batch_check_def list_all_iff)

lemma batch_same:
  assumes "batch_check edits = None"
  shows "edits \<noteq> []" "(\<forall>e \<in> set edits. ae_snapshot e = x) \<longleftrightarrow> ae_snapshot (hd edits) = x"
  using assms unfolding batch_check_None by (metis hd_in_set)+

text \<open>The four ways a call ends.\<close>

lemma apply_cases:
  fixes a st th sha
  defines "c \<equiv> commit sha th (ap_path a) (ae_snapshot (hd (ap_edits a))) (ap_edits a) (as_fs st)"
  assumes "apply_partially_applicable_edits nrm sha th now took a st = (res, st')"
  obtains (refused) r where "batch_check (ap_edits a) = Some r" "res = Inr (rejected_result r)" "st' = st"
  | (rejected) r where "batch_check (ap_edits a) = None" "c = (Inl (Rejected r), as_fs st)"
      "res = Inr (rejected_result r)" "st' = st"
  | (threw) s where "batch_check (ap_edits a) = None" "c = (Inl Io_Error, s)" "res = Inl Commit_Threw"
      "st' = st\<lparr>as_fs := s\<rparr>"
  | (committed) h s out post where "batch_check (ap_edits a) = None" "c = (Inr h, s)"
      "run_after_write nrm sha a h (st\<lparr>as_fs := s,
         as_store := map_option (record_batch nrm sha now (ap_path a) (ap_edits a) h s) (as_store st)\<rparr>) = (out, post, st')"
      "res = Inl After_Write_Threw \<or> (\<exists>r. res = Inr r \<and> pr_rejected r = None \<and> pr_applied_count r = length (ap_edits a))"
proof (cases "batch_check (ap_edits a)")
  case (Some r)
  then show ?thesis using assms(2) refused by (simp add: apply_partially_applicable_edits_def)
next
  case None
  obtain f s where cs: "c = (f, s)" by fastforce
  note d = apply_partially_applicable_edits_def
  show ?thesis
  proof (cases f)
    case (Inl l)
    show ?thesis
    proof (cases l)
      case (Rejected r)
      then have "s = as_fs st" using cs Inl commit_rejected c_def by metis
      then show ?thesis using rejected None cs Inl Rejected assms(2)
        by (simp add: d c_def [symmetric])
    next
      case Io_Error
      then show ?thesis using threw None cs Inl assms(2) by (simp add: d c_def [symmetric])
    qed
  next
    case (Inr h)
    obtain out post st2 where ra: "run_after_write nrm sha a h (st\<lparr>as_fs := s,
         as_store := map_option (record_batch nrm sha now (ap_path a) (ap_edits a) h s) (as_store st)\<rparr>) = (out, post, st2)"
      by (metis prod_cases3)
    show ?thesis using assms(2) None cs Inr ra
      by (intro committed [of h s out post]) (auto simp: d c_def [symmetric] Let_def split: if_splits)
  qed
qed

lemma run_after_write_fs:
  "run_after_write nrm sha a h st = (out, post, st') \<Longrightarrow>
   as_fs st' = (case ap_after_write a of None \<Rightarrow> as_fs st | Some hook \<Rightarrow> snd (hook (as_fs st)))"
  by (auto simp: run_after_write_def split: option.splits prod.splits sum.splits)

definition refused :: "apply_throw + partial_result \<Rightarrow> bool" where
  "refused res \<longleftrightarrow> (case res of Inr r \<Rightarrow> pr_rejected r \<noteq> None | Inl _ \<Rightarrow> False)"

lemma outside_kept:
  assumes "spans_apart (in_span_order edits)" "\<forall>e \<in> set edits. well_spanned e \<and> span_holds (normalize_to_lf raw) e"
    and "uniform_endings raw" and "b = detect_line_ending raw"
  shows "\<exists>gaps. length gaps = Suc (length edits) \<and>
    raw = woven gaps (map (\<lambda>e. restore_line_endings (ae_span_text e) b) (in_span_order edits)) \<and>
    restore_line_endings (replaced_at_once (normalize_to_lf raw) edits) b =
      woven gaps (map (\<lambda>e. restore_line_endings (new_text_of e) b) (in_span_order edits))"
proof -
  have "\<forall>e \<in> set (in_span_order edits). int 0 \<le> ae_start e" using assms(2) by (auto simp: well_spanned_def)
  then obtain gaps where g: "length gaps = Suc (length (in_span_order edits))"
    "drop 0 (normalize_to_lf raw) = woven gaps (map ae_span_text (in_span_order edits))"
    "span_weave (normalize_to_lf raw) 0 (in_span_order edits) = woven gaps (map new_text_of (in_span_order edits))"
    using weave_gaps [of "in_span_order edits" "normalize_to_lf raw" 0] assms(1,2) by auto
  have "raw = restore_line_endings (woven gaps (map ae_span_text (in_span_order edits))) b"
    using assms(3,4) g(2) by (simp add: uniform_endings_def)
  then show ?thesis using g(1,3)
    by (intro exI [of _ "map (\<lambda>g. restore_line_endings g b) gaps"])
      (simp add: woven_restored replaced_at_once_def comp_def in_span_order_def)
qed


text \<open>A file that mixes line endings has them unified, outside the spans too: here only the first character is
  replaced, and the second line ends in another way.\<close>

lemma mixed_endings_are_unified:
  "restore_line_endings
     (replaced_at_once (normalize_to_lf (''a'' @ [CR, LF] @ ''b'' @ [LF]))
       [\<lparr>ae_old_text = ''a'', ae_span_text = ''a'', ae_new_text = Some ''x'', ae_index = 0, ae_snapshot = [], ae_start = 0, ae_end = 1\<rparr>])
     (detect_line_ending (''a'' @ [CR, LF] @ ''b'' @ [LF])) = ''x'' @ [CR, LF] @ ''b'' @ [CR, LF]"
  by code_simp

text \<open>Which batches are refused.\<close>

lemma refused_iff:
  assumes w: "\<forall>e \<in> set (ap_edits a). well_spanned e" and f: "read_text (as_fs st) (ap_path a) = Some raw"
  shows "refused (fst (apply_partially_applicable_edits nrm sha th now took a st)) \<longleftrightarrow>
    \<not> (ap_edits a \<noteq> [] \<and> (\<forall>e \<in> set (ap_edits a). ae_snapshot e = sha raw \<and>
          occurs_at (normalize_to_lf raw) (ae_span_text e) (nat (ae_start e))) \<and> sorted_wrt apart (ap_edits a))"
proof -
  obtain res st' where run: "apply_partially_applicable_edits nrm sha th now took a st = (res, st')" by fastforce
  define here where "here \<longleftrightarrow> (\<forall>e \<in> set (ap_edits a). occurs_at (normalize_to_lf raw) (ae_span_text e) (nat (ae_start e)))"
  define disjoint where "disjoint \<longleftrightarrow> sorted_wrt apart (ap_edits a)"
  define same where "same \<longleftrightarrow> (\<forall>e \<in> set (ap_edits a). ae_snapshot e = sha raw)"
  define no where "no \<longleftrightarrow> refused (fst (apply_partially_applicable_edits nrm sha th now took a st))"
  let ?c = "commit sha th (ap_path a) (ae_snapshot (hd (ap_edits a))) (ap_edits a) (as_fs st)"
  have "(\<exists>r. fst ?c = Inl (Rejected r)) \<longleftrightarrow>
      (\<exists>x. read_text (as_fs st) (ap_path a) = Some x \<and> \<not> (sha x = ae_snapshot (hd (ap_edits a)) \<and> disjoint \<and>
         (\<forall>e \<in> set (ap_edits a). occurs_at (normalize_to_lf x) (ae_span_text e) (nat (ae_start e)))))"
    unfolding disjoint_def by (rule commit_accepts [OF w])
  then have acc: "(\<exists>r. fst ?c = Inl (Rejected r)) \<longleftrightarrow> \<not> (ae_snapshot (hd (ap_edits a)) = sha raw \<and> disjoint \<and> here)"
    unfolding f here_def by (simp add: eq_commute)
  have "no \<longleftrightarrow> \<not> (ap_edits a \<noteq> [] \<and> (same \<and> here) \<and> disjoint)"
    using run
  proof (cases rule: apply_cases)
    case (refused r)
    then have "batch_check (ap_edits a) \<noteq> None" by simp
    then have "ap_edits a = [] \<or> (\<exists>e \<in> set (ap_edits a). ae_snapshot e \<noteq> ae_snapshot (hd (ap_edits a)))"
      by (simp only: batch_check_None) blast
    then have "\<not> (ap_edits a \<noteq> [] \<and> same)" unfolding same_def by (metis hd_in_set)
    moreover have no using refused run by (simp add: no_def refused_def rejected_result_def)
    ultimately show ?thesis by blast
  next
    case (rejected r)
    then have "\<not> (ae_snapshot (hd (ap_edits a)) = sha raw \<and> disjoint \<and> here)" using acc by simp
    moreover have no using rejected run by (simp add: no_def refused_def rejected_result_def)
    ultimately show ?thesis unfolding same_def batch_same(2) [OF rejected(1)] by blast
  next
    case (threw s)
    then have "ae_snapshot (hd (ap_edits a)) = sha raw \<and> disjoint \<and> here" using acc by simp
    moreover have "\<not> no" using threw run by (simp add: no_def refused_def)
    ultimately show ?thesis unfolding same_def batch_same(2) [OF threw(1)] using batch_same(1) [OF threw(1)] by blast
  next
    case (committed h s out post)
    then have "ae_snapshot (hd (ap_edits a)) = sha raw \<and> disjoint \<and> here" using acc by simp
    moreover have "\<not> no" using committed(4) run by (auto simp: no_def refused_def)
    ultimately show ?thesis
      unfolding same_def batch_same(2) [OF committed(1)] using batch_same(1) [OF committed(1)] by blast
  qed
  then show ?thesis unfolding no_def same_def here_def disjoint_def by (simp only: ball_conj_distrib)
qed

text \<open>C7 (error). A batch whose spans are as a preflight resolves them is refused exactly when it is
  empty, when its edits do not all carry the digest of the file as it is now, when some span no longer
  holds its text, or when two spans overlap.\<close>

theorem refusal_is_exact:
  assumes w: "\<forall>e \<in> set (ap_edits a). well_spanned e" and f: "read_text (as_fs st) (ap_path a) = Some raw"
  shows "refused (fst (apply_partially_applicable_edits nrm sha th now took a st)) \<longleftrightarrow>
    \<not> (ap_edits a \<noteq> [] \<and> (\<forall>e \<in> set (ap_edits a). ae_snapshot e = sha raw \<and>
          occurs_at (normalize_to_lf raw) (ae_span_text e) (nat (ae_start e))) \<and> sorted_wrt apart (ap_edits a))"
  by (rule refused_iff [OF w f])

end
