(* ===== verification/Partial_Edits_Records.thy ===== *)
theory Partial_Edits_Records
  imports Partial_Edits_Meaning
begin

text \<open>
  The records of applied edits: their bounds, what a later retry finds, and what the recognition of a
  retry proves about the file.
\<close>

subsection \<open>One file's records\<close>

definition records_ok :: "applied_record list \<Rightarrow> bool" where
  "records_ok rs \<longleftrightarrow> distinct (map ar_digest rs) \<and> length rs \<le> MAX_APPLIED_RECORDS_PER_FILE"

lemma remove_first_absent: "\<forall>x \<in> set xs. \<not> P x \<Longrightarrow> remove_first P xs = xs"
  by (induction xs) auto

lemma remove_first_digest:
  "distinct (map ar_digest rs) \<Longrightarrow> remove_first (\<lambda>q. ar_digest q = d) rs = filter (\<lambda>q. ar_digest q \<noteq> d) rs"
proof (induction rs)
  case (Cons r rs)
  show ?case
  proof (cases "ar_digest r = d")
    case True
    then have "\<forall>q \<in> set rs. ar_digest q \<noteq> d" using Cons.prems by (auto simp: image_iff)
    then have "filter (\<lambda>q. ar_digest q \<noteq> d) rs = rs" by (simp add: filter_id_conv)
    then show ?thesis using True by simp
  qed (use Cons in auto)
qed simp

lemma push_record_eq:
  assumes "records_ok rs"
  shows "push_record r rs = lastn 7 (filter (\<lambda>q. ar_digest q \<noteq> ar_digest r) rs) @ [r]"
proof -
  let ?k = "filter (\<lambda>q. ar_digest q \<noteq> ar_digest r) rs"
  have "length ?k \<le> 8"
    using assms length_filter_le [of "\<lambda>q. ar_digest q \<noteq> ar_digest r" rs]
    unfolding records_ok_def MAX_APPLIED_RECORDS_PER_FILE_def by linarith
  then have "(if 8 \<le> length ?k then tl ?k else ?k) = lastn 7 ?k"
    by (auto simp: lastn_def drop_Suc)
  then show ?thesis using assms
    by (simp add: push_record_def records_ok_def remove_first_digest MAX_APPLIED_RECORDS_PER_FILE_def)
qed

lemma push_record_ok: "records_ok rs \<Longrightarrow> records_ok (push_record r rs)"
proof -
  assume ok: "records_ok rs"
  let ?k = "filter (\<lambda>q. ar_digest q \<noteq> ar_digest r) rs"
  have "distinct (map ar_digest (lastn 7 ?k))"
    using ok by (simp add: records_ok_def map_lastn distinct_lastn distinct_map_filter)
  moreover have "ar_digest r \<notin> set (map ar_digest (lastn 7 ?k))"
    using set_lastn_subset [of 7 ?k] by auto
  ultimately have "distinct (map ar_digest (push_record r rs))" by (simp add: push_record_eq [OF ok])
  then show ?thesis
    by (simp add: records_ok_def push_record_eq [OF ok] length_lastn MAX_APPLIED_RECORDS_PER_FILE_def)
qed

lemma find_snoc: "P x \<Longrightarrow> \<forall>y \<in> set xs. \<not> P y \<Longrightarrow> find P (xs @ [x]) = Some x"
  by (induction xs) auto

lemma find_pushed:
  assumes "records_ok rs" "ar_digest r = d"
  shows "find (\<lambda>q. ar_digest q = d) (push_record r rs) = Some r"
  unfolding push_record_eq [OF assms(1)]
  using set_lastn_subset [of 7 "filter (\<lambda>q. ar_digest q \<noteq> ar_digest r) rs"] assms(2) by (intro find_snoc) auto

lemma stamp_digests:
  assumes "\<And>r. ar_digest (f r) = ar_digest r"
  shows "map ar_digest (stamp_first P f rs) = map ar_digest rs"
  using assms by (induction rs) auto

lemma stamp_ok: "records_ok rs \<Longrightarrow> records_ok (stamp_first P (\<lambda>r. r\<lparr>ar_after_write_hash := Some h\<rparr>) rs)"
proof -
  let ?f = "\<lambda>r. r\<lparr>ar_after_write_hash := Some h\<rparr>"
  have m: "map ar_digest (stamp_first P ?f rs) = map ar_digest rs" by (rule stamp_digests) simp
  then have "length (stamp_first P ?f rs) = length rs" by (metis length_map)
  then show "records_ok rs \<Longrightarrow> ?thesis" by (simp add: records_ok_def m)
qed

subsection \<open>The store\<close>

definition store_ok :: "record_store \<Rightarrow> bool" where
  "store_ok st \<longleftrightarrow> pm_inv st \<and> (\<exists>c. st = Bounded c \<and> max_entries c = MAX_APPLIED_RECORD_FILES) \<and>
     (\<forall>(k, e) \<in> set (pm_store st). records_ok (pe_value e))"

lemma records_of_ok: "store_ok st \<Longrightarrow> records_ok (records_of nrm st p)"
  by (auto simp: store_ok_def records_of_def pm_get_def records_ok_def or_else_def split: option.split
      dest!: map_of_SomeD)

lemma store_ok_new: "store_ok new_record_store"
  by (simp add: store_ok_def new_record_store_def pm_inv_new MAX_APPLIED_RECORD_FILES_def)
    (simp add: pm_new_def fifo_new_def pm_store_def)

lemma store_ok_set: "store_ok st \<Longrightarrow> records_ok rs \<Longrightarrow> store_ok (pm_set nrm p rs st)"
  using pm_set_subset [of st nrm p rs]
  by (auto simp: store_ok_def pm_set_inv) (auto simp: pm_set_def Let_def fifo.put_cap)

lemma map_store_value_store:
  "pm_store (map_store_value k f m) = map (\<lambda>(k', e). (k', if k' = k then e\<lparr>pe_value := f (pe_value e)\<rparr> else e)) (pm_store m)"
  by (simp add: map_store_value_def pm_store_def Let_def split: path_map.split)

lemma map_store_value_inv: "pm_inv m \<Longrightarrow> pm_inv (map_store_value k f m)"
proof -
  have k: "keys_of (map (\<lambda>(k', e). (k', if k' = k then e\<lparr>pe_value := f (pe_value e)\<rparr> else e)) es) = keys_of es"
    for es :: "(path, 'a path_entry) js_map" by (induction es) auto
  note [simp del] = map_map
  show "pm_inv m \<Longrightarrow> ?thesis"
    by (cases m) (auto simp: pm_inv_def map_store_value_def Let_def bounded_inv_def wf_fifo_def fifo_size_def k)
qed

lemma store_ok_note: "store_ok st \<Longrightarrow> store_ok (note_after_write_hash nrm sha p old new h st)"
proof -
  assume ok: "store_ok st"
  then obtain c where "st = Bounded c" "max_entries c = MAX_APPLIED_RECORD_FILES" by (auto simp: store_ok_def)
  then have "\<exists>c'. map_store_value k f st = Bounded c' \<and> max_entries c' = MAX_APPLIED_RECORD_FILES" for k f
    by (simp add: map_store_value_def Let_def)
  then show ?thesis using ok
    by (auto simp: note_after_write_hash_def store_ok_def map_store_value_inv map_store_value_store intro!: stamp_ok)
qed

lemma store_ok_record: "store_ok st \<Longrightarrow> store_ok (record_applied nrm sha hash now p old new h st)"
  by (simp add: record_applied_def Let_def store_ok_set push_record_ok records_of_ok)

lemma store_ok_clear: "store_ok st \<Longrightarrow> store_ok (clear_records st)"
  by (auto simp: store_ok_def clear_records_def pm_clear_def fifo_clear_def pm_store_def pm_inv_def bounded_inv_def
      wf_fifo_def fifo_size_def)

text \<open>Calls of a session on its store.\<close>

datatype store_call =
    Record_Call path string "string option" "string option" int
  | Note_Call path string "string option" string
  | Clear_Call

fun store_step ::
    "(path \<Rightarrow> path) \<Rightarrow> (string \<Rightarrow> string) \<Rightarrow> (path \<Rightarrow> string option) \<Rightarrow> record_store \<Rightarrow> store_call \<Rightarrow> record_store" where
  "store_step nrm sha hash st (Record_Call p old new h now) = record_applied nrm sha hash now p old new h st"
| "store_step nrm sha hash st (Note_Call p old new h) = note_after_write_hash nrm sha p old new h st"
| "store_step nrm sha hash st Clear_Call = clear_records st"

lemma store_ok_step: "store_ok st \<Longrightarrow> store_ok (store_step nrm sha hash st c)"
  by (cases c) (simp_all add: store_ok_record store_ok_note store_ok_clear)

lemma store_ok_run: "store_ok st \<Longrightarrow> store_ok (foldl (store_step nrm sha hash) st cs)"
  by (induction cs arbitrary: st) (auto intro: store_ok_step)

text \<open>Whatever a session calls, its store never holds records of more than 64 files, nor more
  than 8 of one file, and no pair twice; and the pair recorded last is found, with the hash it was
  recorded under.\<close>

theorem record_store_is_bounded_and_current:
  fixes nrm sha hash calls p old new h now q
  defines "st \<equiv> foldl (store_step nrm sha hash) new_record_store calls"
  shows "int (file_count st) \<le> 64 \<and> length (records_of nrm st q) \<le> 8
    \<and> distinct (map ar_digest (records_of nrm st q))
    \<and> (old \<noteq> [] \<longrightarrow> map_option ar_content_hash
         (find_record nrm sha p (Some old) new (record_applied nrm sha hash now p old new (Some h) st)) = Some (Some h))"
proof -
  have ok: "store_ok st" unfolding st_def by (rule store_ok_run [OF store_ok_new])
  then obtain c where "st = Bounded c" "max_entries c = 64" "pm_inv (Bounded c)"
    by (auto simp: store_ok_def MAX_APPLIED_RECORD_FILES_def)
  then have "int (file_count st) \<le> 64" using pm_size_bounded [of c] by (simp add: file_count_def)
  moreover have "records_ok (records_of nrm st q)" by (rule records_of_ok [OF ok])
  moreover have "map_option ar_content_hash
      (find_record nrm sha p (Some old) new (record_applied nrm sha hash now p old new (Some h) st)) = Some (Some h)"
    if "old \<noteq> []"
  proof -
    have "pm_inv st" using ok by (simp add: store_ok_def)
    then have set: "records_of nrm (pm_set nrm p rs st) p = rs" for rs
      by (simp add: records_of_def pm.get_put)
    show ?thesis using that
      by (simp add: find_record_def record_applied_def Let_def set find_pushed [OF records_of_ok [OF ok]])
  qed
  ultimately show ?thesis by (simp add: records_ok_def MAX_APPLIED_RECORDS_PER_FILE_def)
qed

subsection \<open>What a batch leaves on record\<close>

lemma lastn_append_le: "length ys \<le> n \<Longrightarrow> lastn n (xs @ ys) = lastn (n - length ys) xs @ ys"
  by (simp add: lastn_def)

text \<open>At most eight pushes keep what they push.\<close>

lemma pushes:
  assumes "records_ok rs" "length xs \<le> 8" "\<forall>x \<in> set xs. Q x"
  shows "\<exists>pre recent. foldl (\<lambda>rs x. push_record x rs) rs xs = pre @ recent \<and> records_ok (pre @ recent) \<and>
    ar_digest ` set recent = ar_digest ` set xs \<and> length recent \<le> length xs \<and> (\<forall>r \<in> set recent. Q r)"
  using assms(2,3)
proof (induction xs rule: rev_induct)
  case Nil
  then show ?case using assms(1) by (intro exI [of _ rs] exI [of _ "[]"]) simp
next
  case (snoc x xs)
  then obtain pre recent where ih: "foldl (\<lambda>rs x. push_record x rs) rs xs = pre @ recent" "records_ok (pre @ recent)"
    "ar_digest ` set recent = ar_digest ` set xs" "length recent \<le> length xs" "\<forall>r \<in> set recent. Q r" by auto
  let ?f = "filter (\<lambda>q. ar_digest q \<noteq> ar_digest x)"
  have le: "length (?f recent) \<le> length xs" using ih(4) length_filter_le order_trans by blast
  then have "length (?f recent) \<le> 7" using snoc.prems(1) by simp
  then have "foldl (\<lambda>rs x. push_record x rs) rs (xs @ [x]) = lastn (7 - length (?f recent)) (?f pre) @ (?f recent @ [x])"
    using ih(1,2) by (simp add: push_record_eq lastn_append_le)
  moreover have "records_ok (foldl (\<lambda>rs x. push_record x rs) rs (xs @ [x]))"
    using ih(1,2) by (simp add: push_record_ok)
  moreover have "ar_digest ` set (?f recent @ [x]) = ar_digest ` set (xs @ [x])"
    using ih(3) by (auto simp: image_iff) (metis image_iff)+
  ultimately show ?case using ih(5) snoc.prems(2) le
    by (intro exI [of _ "lastn (7 - length (?f recent)) (?f pre)"] exI [of _ "?f recent @ [x]"]) auto
qed

lemma find_distinct: "distinct (map ar_digest rs) \<Longrightarrow> r \<in> set rs \<Longrightarrow> find (\<lambda>q. ar_digest q = ar_digest r) rs = Some r"
  by (induction rs) (auto simp: image_iff)

lemma find_stamped:
  "find (\<lambda>q. ar_digest q = d) (stamp_first (\<lambda>q. ar_digest q = e) (\<lambda>r. r\<lparr>ar_after_write_hash := Some k\<rparr>) rs)
     = map_option (\<lambda>r. if d = e then r\<lparr>ar_after_write_hash := Some k\<rparr> else r) (find (\<lambda>q. ar_digest q = d) rs)"
  by (induction rs) (auto simp: option.map_id0 [unfolded id_def])

lemma records_of_record:
  "store_ok st \<Longrightarrow> records_of nrm (record_applied nrm sha hash now p old new (Some h) st) p =
     (if old = [] then records_of nrm st p
      else push_record \<lparr>ar_digest = edit_pair_digest sha old new, ar_content_hash = Some h,
        ar_after_write_hash = None, ar_applied_at = now\<rparr> (records_of nrm st p))"
  by (simp add: record_applied_def Let_def records_of_def pm.get_put store_ok_def)

definition batch_records :: "(string \<Rightarrow> string) \<Rightarrow> string \<Rightarrow> int \<Rightarrow> partial_edit list \<Rightarrow> applied_record list" where
  "batch_records sha h now edits =
     map (\<lambda>e. \<lparr>ar_digest = edit_pair_digest sha (ae_old_text e) (ae_new_text e), ar_content_hash = Some h,
        ar_after_write_hash = None, ar_applied_at = now\<rparr>) (filter (\<lambda>e. ae_old_text e \<noteq> []) edits)"

lemma records_of_batch:
  "store_ok st \<Longrightarrow> store_ok (record_batch nrm sha now p edits h s st) \<and>
   records_of nrm (record_batch nrm sha now p edits h s st) p =
     foldl (\<lambda>rs x. push_record x rs) (records_of nrm st p) (batch_records sha h now edits)"
proof (induction edits arbitrary: st)
  case (Cons e edits)
  let ?st = "record_applied nrm sha (hash_file sha s) now p (ae_old_text e) (ae_new_text e) (Some h) st"
  have "store_ok ?st" by (rule store_ok_record [OF Cons.prems])
  from Cons.IH [OF this] show ?case using records_of_record [OF Cons.prems]
    by (simp add: record_batch_def batch_records_def)
qed (simp add: record_batch_def batch_records_def)

lemma records_of_note:
  "records_of nrm (note_after_write_hash nrm sha p old new k st) p =
     (if old = [] then records_of nrm st p
      else stamp_first (\<lambda>q. ar_digest q = edit_pair_digest sha old new) (\<lambda>r. r\<lparr>ar_after_write_hash := Some k\<rparr>)
        (records_of nrm st p))"
proof -
  have m: "map_of (map (\<lambda>(k', e). (k', if k' = x then e\<lparr>pe_value := f (pe_value e)\<rparr> else e)) es) x
      = map_option (\<lambda>e. e\<lparr>pe_value := f (pe_value e)\<rparr>) (map_of es x)"
    for x f and es :: "(path, applied_record list path_entry) js_map" by (induction es) auto
  show ?thesis
    by (simp add: note_after_write_hash_def records_of_def pm_get_def map_store_value_store m or_else_def
        split: option.split)
qed

lemma find_noted:
  "find (\<lambda>q. ar_digest q = d) (records_of nrm (stamp_batch nrm sha p edits k st) p) =
     map_option (\<lambda>r. if \<exists>e \<in> set edits. ae_old_text e \<noteq> [] \<and> edit_pair_digest sha (ae_old_text e) (ae_new_text e) = d
        then r\<lparr>ar_after_write_hash := Some k\<rparr> else r) (find (\<lambda>q. ar_digest q = d) (records_of nrm st p))"
proof (induction edits arbitrary: st)
  case (Cons e edits)
  let ?st = "note_after_write_hash nrm sha p (ae_old_text e) (ae_new_text e) k st"
  have "records_of nrm (stamp_batch nrm sha p (e # edits) k st) p = records_of nrm (stamp_batch nrm sha p edits k ?st) p"
    by (simp add: stamp_batch_def)
  then show ?case using Cons.IH [of ?st]
    by (cases "find (\<lambda>q. ar_digest q = d) (records_of nrm st p)") (auto simp: records_of_note find_stamped)
qed (simp add: stamp_batch_def option.map_ident)

text \<open>Right after a batch of up to eight edits whose hook did not fail, every pair it applied is on
  record under a hash of the file as it is on disk now, formatted or not: an identical retry passes
  the hash gate.\<close>

theorem retry_passes_the_hash_gate:
  assumes run: "apply_partially_applicable_edits nrm sha th now took a st = (Inr res, st')"
    and ok: "pr_rejected res = None" "pr_post_edit_status res \<noteq> Post_Edit_Failed"
    and store: "as_store st = Some store" "store_ok store" and few: "length (ap_edits a) \<le> 8"
    and w: "\<forall>e \<in> set (ap_edits a). well_spanned e"
    and e: "e \<in> set (ap_edits a)" "ae_old_text e \<noteq> []"
    and now_hash: "hash_file sha (as_fs st') (ap_path a) = Some k"
  shows "\<exists>store' r. as_store st' = Some store' \<and>
    find_record nrm sha (ap_path a) (Some (ae_old_text e)) (ae_new_text e) store' = Some r \<and>
    (ar_content_hash r = Some k \<or> ar_after_write_hash r = Some k)"
  using run
proof (cases rule: apply_cases)
  case (committed h s out post)
  let ?p = "ap_path a" and ?d = "edit_pair_digest sha (ae_old_text e) (ae_new_text e)"
  let ?store = "record_batch nrm sha now ?p (ap_edits a) h s store"
  have h: "hash_file sha s ?p = Some h" using commit_Inr [OF committed(2) w] by simp
  let ?rs = "batch_records sha h now (ap_edits a)"
  have "length ?rs \<le> length (ap_edits a)" by (simp add: batch_records_def)
  then have "length ?rs \<le> 8" using few by linarith
  moreover have "\<forall>r \<in> set ?rs. ar_content_hash r = Some h" by (simp add: batch_records_def)
  ultimately obtain pre recent where rs: "records_of nrm ?store ?p = pre @ recent" "records_ok (pre @ recent)"
    "ar_digest ` set recent = ar_digest ` set ?rs" "\<forall>r \<in> set recent. ar_content_hash r = Some h"
    using pushes [OF records_of_ok [OF store(2)], of ?rs "\<lambda>r. ar_content_hash r = Some h" nrm ?p]
      records_of_batch [OF store(2), of nrm sha now ?p "ap_edits a" h s] by auto
  have "?d \<in> ar_digest ` set ?rs" using e by (force simp: batch_records_def)
  then obtain r where r: "r \<in> set recent" "ar_digest r = ?d" using rs(3) by (metis imageE)
  have found: "find (\<lambda>q. ar_digest q = ?d) (records_of nrm ?store ?p) = Some r"
    using find_distinct [of "pre @ recent" r] rs(1,2) r by (auto simp: records_ok_def)
  have rh: "ar_content_hash r = Some h" using rs(4) r by blast
  have post: "post \<noteq> Post_Edit_Failed" using committed(2,3) run ok committed(1)
    by (auto simp: apply_partially_applicable_edits_def Let_def split: if_splits)
  show ?thesis
  proof (cases "ap_after_write a")
    case None
    then have "st' = st\<lparr>as_fs := s, as_store := Some ?store\<rparr>" using committed(3) store
      by (simp add: run_after_write_def)
    then show ?thesis using found rh h now_hash e(2) by (simp add: find_record_def)
  next
    case (Some hook)
    obtain l s2 where hk: "hook s = (l, s2)" by fastforce
    then obtain v where "l = Inr v" using committed(3) Some post by (cases l) (auto simp: run_after_write_def)
    then have st': "as_fs st' = s2" "as_store st' = Some (case hash_file sha s2 ?p of
        Some k \<Rightarrow> if k \<noteq> h then stamp_batch nrm sha ?p (ap_edits a) k ?store else ?store | None \<Rightarrow> ?store)"
      using committed(3) Some hk store by (auto simp: run_after_write_def)
    show ?thesis
    proof (cases "k = h")
      case True
      then show ?thesis using st' now_hash found rh e(2) by (simp add: find_record_def)
    next
      case False
      have "find (\<lambda>q. ar_digest q = ?d) (records_of nrm (stamp_batch nrm sha ?p (ap_edits a) k ?store) ?p)
          = Some (r\<lparr>ar_after_write_hash := Some k\<rparr>)"
        unfolding find_noted found using e by auto
      then show ?thesis using st' now_hash False e(2) by (simp add: find_record_def)
    qed
  qed
qed (use ok in \<open>auto simp: rejected_result_def\<close>)

subsection \<open>What a recognised retry proves\<close>

text \<open>A retry is recognised only on evidence: the file is in a state this process left it in, when
  any such state was recorded; the new text is there; and every occurrence of the old text touches an
  occurrence of the new one, so a submission that was never applied to this text is not swallowed.\<close>

theorem recognised_retry_has_evidence:
  assumes "is_exact_applied_retry a"
  defines "lf \<equiv> rt_content_lf a" and "old \<equiv> rt_old_key a" and "new \<equiv> rt_new_key a"
  shows "old \<noteq> [] \<and> (rt_expected_hash a \<noteq> None \<or> rt_expected_after_write a \<noteq> None \<longrightarrow>
      (\<exists>k. rt_content_hash a = Some k \<and> (rt_expected_hash a = Some k \<or> rt_expected_after_write a = Some k)))
    \<and> (new \<noteq> [] \<longrightarrow> contains_text lf new)
    \<and> (\<forall>i. occurs_at lf old i \<longrightarrow>
        (\<exists>j. new \<noteq> [] \<and> occurs_at lf new j \<and> j < i + length old \<and> i < j + length new))"
proof -
  have old: "old \<noteq> []" and gate: "rt_expected_hash a = None \<and> rt_expected_after_write a = None \<or> matches_known_state a"
    using assms(1) by (auto simp: is_exact_applied_retry_def Let_def old_def split: if_splits)
  have "(new = [] \<longrightarrow> occurrences lf old = []) \<and> (new \<noteq> [] \<and> \<not> contains_text new old \<longrightarrow> occurrences lf old = [] \<and> occurrences lf new \<noteq> [])
    \<and> (new \<noteq> [] \<and> contains_text new old \<longrightarrow> occurrences lf new \<noteq> [] \<and>
        (\<forall>i \<in> set (occurrences lf old). \<exists>j \<in> set (occurrences lf new). j \<le> i \<and> i + length old \<le> j + length new))"
    using assms(1)
    by (auto simp: is_exact_applied_retry_def Let_def lf_def old_def new_def count_lf_occurrences_def
        count_occurrences_def list_all_iff list_ex_iff split: if_splits)
  note ev = this
  have none: "\<not> occurs_at lf old i" if "occurrences lf old = []" for i
    using no_occurrences [OF old, of lf] that by (auto simp: contains_text_iff)
  have "\<exists>j. new \<noteq> [] \<and> occurs_at lf new j \<and> j < i + length old \<and> i < j + length new" if i: "occurs_at lf old i" for i
  proof -
    have new: "new \<noteq> []" "contains_text new old" using ev none [of i] i by auto
    obtain i' where i': "i' \<in> set (occurrences lf old)" "i' \<le> i" "i < i' + length old"
      using occurrences_complete [OF i old] by auto
    then obtain j where "j \<in> set (occurrences lf new)" "j \<le> i'" "i' + length old \<le> j + length new"
      using ev new by blast
    then show ?thesis using i' new occurrences_sound [of j lf new] by (intro exI [of _ j]) auto
  qed
  moreover have "new \<noteq> [] \<longrightarrow> contains_text lf new"
    using ev no_occurrences [of new lf] by auto
  ultimately show ?thesis using old gate by (auto simp: matches_known_state_def)
qed

subsection \<open>A run\<close>

definition sample_fs :: fs where
  "sample_fs = \<lparr>fs_files = (\<lambda>_. None)(''f'' := Some \<lparr>fn_data = ''ab'' @ [CR, LF] @ ''cd'', fn_mode = 0x1A4\<rparr>),
     fs_link = (\<lambda>_. None), fs_umask = 0x12, fs_stage = (\<lambda>_. Stage_Ok), fs_rename_fails = (\<lambda>_. False),
     fs_remove_fails = (\<lambda>_. False), fs_seq = 0\<rparr>"

definition sample_thread :: thread where "sample_thread = \<lparr>th_pid = 9, th_id = 0\<rparr>"

definition sample_batch :: "partial_edit list" where
  "sample_batch =
     [\<lparr>ae_old_text = ''cd'', ae_span_text = ''cd'', ae_new_text = Some ''c'', ae_index = 1,
       ae_snapshot = ''ab'' @ [CR, LF] @ ''cd'', ae_start = 3, ae_end = 5\<rparr>,
      \<lparr>ae_old_text = ''a'', ae_span_text = ''a'', ae_new_text = Some (''x'' @ [LF] @ ''y''), ae_index = 0,
       ae_snapshot = ''ab'' @ [CR, LF] @ ''cd'', ae_start = 0, ae_end = 1\<rparr>]"

definition sample_args :: apply_args where
  "sample_args = \<lparr>ap_path = ''f'', ap_edits = sample_batch, ap_after_write = None, ap_summary = None,
     ap_correlation = None\<rparr>"

definition sample_state :: apply_state where
  "sample_state = \<lparr>as_fs = sample_fs, as_store = Some new_record_store\<rparr>"

definition sample_run :: "(apply_throw + partial_result) \<times> apply_state" where
  "sample_run = apply_partially_applicable_edits id id sample_thread 0 0 sample_args sample_state"

lemma sample_spans: "\<forall>e \<in> set (ap_edits sample_args). well_spanned e"
  by (simp add: sample_args_def sample_batch_def well_spanned_def)

lemma sample_order: "in_span_order sample_batch = rev sample_batch"
  by (simp add: in_span_order_def sample_batch_def)

lemma sample_commit:
  "\<exists>h s. commit id sample_thread ''f'' (''ab'' @ [CR, LF] @ ''cd'') sample_batch sample_fs = (Inr h, s)"
proof -
  have "check_spans (normalize_to_lf (''ab'' @ [CR, LF] @ ''cd'')) None (rev sample_batch) = None"
    by (simp add: sample_batch_def js_slice_def slice_offset_def)
  then show ?thesis
    by (simp add: commit_def sample_fs_def real_file_def sample_order write_file_atomic_def stage_path_for_def
        stage_data_def rename_file_def put_file_def drop_file_def Let_def)
qed

lemma sample_applied:
  "\<exists>r st'. sample_run = (Inr r, st') \<and> pr_rejected r = None \<and> pr_post_edit_status r = Not_Run \<and>
     hash_file id (as_fs st') ''f'' \<noteq> None"
proof -
  obtain h s where c: "commit id sample_thread ''f'' (''ab'' @ [CR, LF] @ ''cd'') sample_batch sample_fs = (Inr h, s)"
    using sample_commit by blast
  have "hash_file id s ''f'' = Some h"
    using commit_Inr [OF c] sample_spans by (simp add: sample_args_def)
  moreover have "batch_check sample_batch = None" "ae_snapshot (hd sample_batch) = ''ab'' @ [CR, LF] @ ''cd''"
    by (simp_all add: sample_batch_def batch_check_def)
  ultimately show ?thesis using c
    by (simp add: sample_run_def apply_partially_applicable_edits_def sample_args_def sample_state_def
        run_after_write_def instrumented_def)
qed

lemma sample_weave: "replaced_at_once (normalize_to_lf (''ab'' @ [CR, LF] @ ''cd'')) sample_batch
    = ''x'' @ [LF] @ ''yb'' @ [LF] @ ''c''"
  by (simp add: replaced_at_once_def sample_order) (simp add: sample_batch_def)


lemma refusal_is_exact_witness:
  "\<not> refused (fst sample_run) \<and> sorted_wrt apart sample_batch \<and>
   list_all (\<lambda>e. occurs_at (normalize_to_lf (''ab'' @ [CR, LF] @ ''cd'')) (ae_span_text e) (nat (ae_start e))) sample_batch"
proof -
  have f: "read_text (as_fs sample_state) (ap_path sample_args) = Some (''ab'' @ [CR, LF] @ ''cd'')"
    by (simp add: sample_state_def sample_args_def sample_fs_def read_text_def real_file_def)
  obtain r st' where r: "sample_run = (Inr r, st')" "pr_rejected r = None" using sample_applied by blast
  have nr: "\<not> refused (fst sample_run)" unfolding r(1) using r(2) by (simp add: refused_def)
  have e: "ap_edits sample_args = sample_batch" by (simp add: sample_args_def)
  show ?thesis
    using refusal_is_exact [OF sample_spans f, of id id sample_thread 0 0] nr unfolding sample_run_def e list_all_iff by blast
qed

lemma retry_passes_the_hash_gate_witness:
  "\<exists>store' r k. as_store (snd sample_run) = Some store' \<and> hash_file id (as_fs (snd sample_run)) ''f'' = Some k \<and>
    find_record id id ''f'' (Some ''a'') (Some (''x'' @ [LF] @ ''y'')) store' = Some r \<and>
    (ar_content_hash r = Some k \<or> ar_after_write_hash r = Some k)"
proof -
  obtain r st' k where r: "sample_run = (Inr r, st')" "pr_rejected r = None" "pr_post_edit_status r = Not_Run"
    "hash_file id (as_fs st') ''f'' = Some k" using sample_applied by blast
  have run: "apply_partially_applicable_edits id id sample_thread 0 0 sample_args sample_state = (Inr r, st')"
    using r(1) by (simp add: sample_run_def)
  let ?e = "sample_batch ! 1"
  have e: "?e \<in> set (ap_edits sample_args)" "ae_old_text ?e \<noteq> []" by (simp_all add: sample_args_def sample_batch_def)
  have p: "ap_path sample_args = ''f''" "length (ap_edits sample_args) \<le> 8"
    by (simp_all add: sample_args_def sample_batch_def)
  have s: "as_store sample_state = Some new_record_store" by (simp add: sample_state_def)
  have "hash_file id (as_fs st') (ap_path sample_args) = Some k" using r(4) p(1) by simp
  from retry_passes_the_hash_gate [OF run r(2) _ s store_ok_new p(2) sample_spans e this] show ?thesis
    using r(3,4) unfolding r(1) p(1) by (simp add: sample_batch_def)
qed

lemma recognised_retry_has_evidence_witness:
  "contains_text ''load a, b'' ''load a, b'' \<and>
   (\<exists>j. occurs_at ''load a, b'' ''load a, b'' j \<and> j < 0 + length ''load a'' \<and> 0 < j + length ''load a, b'')"
proof -
  let ?a = "\<lparr>rt_content_lf = ''load a, b'', rt_old_key = ''load a'', rt_new_key = ''load a, b'',
    rt_content_hash = None, rt_expected_hash = None, rt_expected_after_write = None\<rparr>"
  have "is_exact_applied_retry ?a" by code_simp
  from recognised_retry_has_evidence [OF this] show ?thesis
    by (simp add: occurs_at_def)
qed

text \<open>A new text that occurs overlapping itself is stepped over, so a file that does hold the result is not
  recognised.\<close>

lemma overlapping_result_is_not_recognised:
  "\<not> is_exact_applied_retry \<lparr>rt_content_lf = ''ababa'', rt_old_key = ''b'', rt_new_key = ''aba'',
     rt_content_hash = None, rt_expected_hash = None, rt_expected_after_write = None\<rparr>
   \<and> occurs_at ''ababa'' ''aba'' 0 \<and> occurs_at ''ababa'' ''aba'' 2"
  by code_simp

text \<open>A span that ends behind the file holds the file's tail, so the check lets it pass.\<close>

lemma span_behind_the_file_passes:
  "check_spans ''ab'' None [\<lparr>ae_old_text = ''b'', ae_span_text = ''b'', ae_new_text = None, ae_index = 0,
     ae_snapshot = [], ae_start = 1, ae_end = 9\<rparr>] = None"
  by code_simp

end
