(* ===== verification/Edit_Preflight.thy ===== *)
theory Edit_Preflight
  imports Partial_Edits_Records
begin

text \<open>
  \<^verbatim>\<open>clients/read-guard-tool-lines.ts\<close>: the preflight of an edit tool call.  Old texts are located in the
  file's match space, corrected for whitespace drift where that is unambiguous, mapped back to one raw
  span each, and checked for overlap; the spans it approves are what the apply step consumes.  With the
  match-space functions of \<^verbatim>\<open>clients/host-edit-normalize.ts\<close>.

  A character is read here in code page 1252: 0x80 to 0x9F are the typographic characters that page has
  there, among them the curly quotes and the dashes the match spaces fold to ASCII, and every other
  character is the Unicode one of its number.  All of them are one UTF-16 unit, and NFKC normalization
  acts on them one by one.  \<open>beyond\<close> stands for the expansions that leave the page (of U+00A8, U+00AF, U+00B4,
  U+00B5, U+00B8, the small tilde and the three fractions).  The members of the folded classes that are not
  on the page (U+201B, U+201F, four dashes, the minus sign, the wide spaces) and the byte-order mark do not occur.

  Messages carry the values they interpolate.  A preview keeps its line feeds, which the message shows
  as an arrow.
\<close>

subsection \<open>Match space\<close>

definition NBSP :: char where "NBSP = CHR 0xA0"

text \<open>The members of each folded class that are on the page.\<close>

definition HOST_SMART_SINGLE_QUOTES :: "nat list" where "HOST_SMART_SINGLE_QUOTES = [0x91, 0x92, 0x82]"
definition HOST_SMART_DOUBLE_QUOTES :: "nat list" where "HOST_SMART_DOUBLE_QUOTES = [0x93, 0x94, 0x84]"
definition HOST_UNICODE_DASHES :: "nat list" where "HOST_UNICODE_DASHES = [0x96, 0x97]"
definition HOST_SPECIAL_SPACES :: "nat list" where "HOST_SPECIAL_SPACES = [0xA0]"

definition ascii_punctuation :: "char \<Rightarrow> char" where
  "ascii_punctuation c =
     (let n = of_char c :: nat
      in if n \<in> set HOST_SMART_SINGLE_QUOTES then CHR 0x27
         else if n \<in> set HOST_SMART_DOUBLE_QUOTES then CHR 0x22
         else if n \<in> set HOST_UNICODE_DASHES then CHR ''-''
         else if n \<in> set HOST_SPECIAL_SPACES then CHR 0x20
         else c)"

definition normalize_unicode_punctuation :: "string \<Rightarrow> string" where
  "normalize_unicode_punctuation s = map ascii_punctuation s"

definition nfkc_unit :: "(char \<Rightarrow> string) \<Rightarrow> char \<Rightarrow> string" where
  "nfkc_unit beyond c =
     (let n = of_char c :: nat
      in if n = 0xA0 then '' '' else if n = 0xAA then ''a'' else if n = 0xB2 then ''2'' else if n = 0xB3 then ''3''
         else if n = 0xB9 then ''1'' else if n = 0xBA then ''o'' else if n = 0x85 then ''...'' else if n = 0x99 then ''TM''
         else if n \<in> {0x98, 0xA8, 0xAF, 0xB4, 0xB5, 0xB8, 0xBC, 0xBD, 0xBE} then beyond c else [c])"

definition nfkc :: "(char \<Rightarrow> string) \<Rightarrow> string \<Rightarrow> string" where
  "nfkc beyond s = concat (map (nfkc_unit beyond) s)"

definition normalize_for_fuzzy_match :: "(char \<Rightarrow> string) \<Rightarrow> string \<Rightarrow> string" where
  "normalize_for_fuzzy_match beyond s =
     normalize_unicode_punctuation (join_with LF (map trim_end (split_on LF (nfkc beyond s))))"

definition normalize_for_guard_match :: "(char \<Rightarrow> string) \<Rightarrow> string \<Rightarrow> string" where
  "normalize_for_guard_match beyond s = normalize_for_fuzzy_match beyond (normalize_to_lf s)"

text \<open>The counterfactual: would the host's own edit tool have applied this old text?\<close>

record host_match =
  hm_would_apply :: bool
  hm_occurrences :: nat
  hm_used_fuzzy :: bool

definition host_would_apply_old_text :: "(char \<Rightarrow> string) \<Rightarrow> string \<Rightarrow> string \<Rightarrow> host_match" where
  "host_would_apply_old_text beyond content old_text =
     (let c = normalize_to_lf content; t = normalize_to_lf old_text
      in if t = [] then \<lparr>hm_would_apply = False, hm_occurrences = 0, hm_used_fuzzy = False\<rparr>
         else
           let exact = contains_text c t;
               fc = normalize_for_fuzzy_match beyond c; ft = normalize_for_fuzzy_match beyond t;
               fuzzy = contains_text fc ft;
               n = (if ft = [] then 0 else count_occurrences fc ft)
           in \<lparr>hm_would_apply = ((exact \<or> fuzzy) \<and> n = 1), hm_occurrences = n, hm_used_fuzzy = (\<not> exact \<and> fuzzy)\<rparr>)"

subsection \<open>Occurrences and lines\<close>

definition line_number_at :: "string \<Rightarrow> nat \<Rightarrow> nat" where
  "line_number_at content i = length (split_on LF (take i content))"

definition find_occurrence_lines :: "string \<Rightarrow> string \<Rightarrow> nat list option" where
  "find_occurrence_lines content needle = map_option (map (line_number_at content)) (scan_from content needle 0)"

definition count_raw_occurrences :: "string \<Rightarrow> string \<Rightarrow> nat" where
  "count_raw_occurrences content needle = count_occurrences content needle"

definition trim_start :: "string \<Rightarrow> string" where
  "trim_start s = dropWhile is_js_space s"

definition find_first_line_of_old_text :: "string \<Rightarrow> string \<Rightarrow> nat option" where
  "find_first_line_of_old_text content old_text =
     (let first = js_trim (hd (split_on LF (normalize_lf old_text))); lines = split_on LF content
      in if length first < 5 then None
         else map_option Suc (find (\<lambda>i. js_trim (lines ! i) = first) [0..<length lines]))"

subsection \<open>Similar lines\<close>

definition is_word_char :: "char \<Rightarrow> bool" where
  "is_word_char c \<longleftrightarrow> (let n = of_char c :: nat in (97 \<le> n \<and> n \<le> 122) \<or> (48 \<le> n \<and> n \<le> 57) \<or> n = 95)"

text \<open>\<^verbatim>\<open>match(/[a-z0-9_]+/g)\<close>: the maximal runs of word characters.\<close>

fun word_runs :: "string \<Rightarrow> string \<Rightarrow> string list" where
  "word_runs w [] = (if w = [] then [] else [rev w])"
| "word_runs w (c # s) =
     (if is_word_char c then word_runs (c # w) s else (if w = [] then [] else [rev w]) @ word_runs [] s)"

definition tokenize_for_similarity :: "string \<Rightarrow> string list" where
  "tokenize_for_similarity s = word_runs [] (to_lower_case s)"

definition token_similarity :: "string \<Rightarrow> string \<Rightarrow> rat" where
  "token_similarity a b =
     (let ta = js_unique (tokenize_for_similarity a); tb = js_unique (tokenize_for_similarity b);
          inter = length (filter (\<lambda>t. t \<in> set tb) ta)
      in if ta = [] \<or> tb = [] then 0 else of_nat inter / of_nat (length ta + length tb - inter))"

text \<open>\<^verbatim>\<open>scored.sort((a, b) => b.score - a.score)\<close>: stable, so insertion behind equal scores.\<close>

fun insert_scored :: "nat \<times> rat \<Rightarrow> (nat \<times> rat) list \<Rightarrow> (nat \<times> rat) list" where
  "insert_scored x [] = [x]"
| "insert_scored x (y # ys) = (if snd y \<le> snd x then x # y # ys else y # insert_scored x ys)"

definition find_similar_lines :: "string \<Rightarrow> string \<Rightarrow> nat option \<Rightarrow> (nat \<times> rat) list" where
  "find_similar_lines content target near =
     (let needle = js_trim target; lines = split_on LF content;
          lo = (case near of Some l \<Rightarrow> l - 1 - 60 | None \<Rightarrow> 0);
          hi = (case near of Some l \<Rightarrow> min (length lines) (l - 1 + 60) | None \<Rightarrow> length lines);
          scored = concat (map (\<lambda>i.
            let score = token_similarity needle (lines ! i)
            in if js_trim (lines ! i) = [] \<or> score < 1 / 2 then [] else [(Suc i, score)]) [lo..<hi])
      in if length needle < 4 then [] else take 3 (foldr insert_scored scored []))"

subsection \<open>Whitespace drift\<close>

definition TAB :: char where "TAB = CHR 0x09"

definition spaces :: "nat \<Rightarrow> string" where
  "spaces n = replicate n CHR 0x20"

definition tabs_to_spaces :: "nat \<Rightarrow> string \<Rightarrow> string" where
  "tabs_to_spaces width l =
     (let n = length (takeWhile (\<lambda>c. c = TAB) l) in spaces (width * n) @ drop n l)"

text \<open>\<^verbatim>\<open>/^( {w})+/\<close> takes as many full groups as there are.\<close>

definition spaces_to_tabs :: "nat \<Rightarrow> string \<Rightarrow> string" where
  "spaces_to_tabs width l =
     (let n = length (takeWhile (\<lambda>c. c = CHR 0x20) l) div width in replicate n TAB @ drop (width * n) l)"

definition each_line :: "(string \<Rightarrow> string) \<Rightarrow> string \<Rightarrow> string" where
  "each_line f s = join_with LF (map f (split_on LF s))"

definition conversions :: "(string \<Rightarrow> string) list" where
  "conversions = [each_line (tabs_to_spaces 2), each_line (tabs_to_spaces 4),
     each_line (spaces_to_tabs 2), each_line (spaces_to_tabs 4)]"

definition strip_indent :: "string \<Rightarrow> string" where
  "strip_indent l = trim_end (dropWhile (\<lambda>c. c = TAB \<or> c = CHR 0x20) l)"

definition collapse :: "string \<Rightarrow> string" where
  "collapse l = filter (\<lambda>c. \<not> is_js_space c) l"

definition fold_punctuation :: "string \<Rightarrow> string" where
  "fold_punctuation l = collapse (normalize_unicode_punctuation l)"

definition window :: "string list \<Rightarrow> nat \<Rightarrow> nat \<Rightarrow> string" where
  "window lines first n = join_with LF (take n (drop first lines))"

definition find_indentation_insensitive_candidate :: "string \<Rightarrow> string \<Rightarrow> string option" where
  "find_indentation_insensitive_candidate content old_text =
     (let lines = split_on LF content; olds = split_on LF old_text; n = length olds;
          expected = map strip_indent olds;
          fits = (\<lambda>s. list_all (\<lambda>i. strip_indent (line_at lines (s + i)) = expected ! i) [0..<n]
            \<and> window lines s n \<noteq> old_text)
      in map_option (\<lambda>s. window lines s n)
           (find fits (if length lines < n then [] else [0..<Suc (length lines - n)])))"

text \<open>
  The three signature tiers share one walk: skip blank lines of the file between the anchors, and ask
  that the next line carries the next anchor.  The answer is the last line matched.
\<close>

fun match_anchors :: "(string \<Rightarrow> string) \<Rightarrow> string list \<Rightarrow> nat \<Rightarrow> nat \<Rightarrow> string list \<Rightarrow> nat option" where
  "match_anchors f [] i seen sig = (if sig = [] then Some seen else None)"
| "match_anchors f (l # ls) i seen sig =
     (case sig of
        [] \<Rightarrow> Some seen
      | w # ws \<Rightarrow>
          if f l = [] then match_anchors f ls (Suc i) seen sig
          else if f l = w then match_anchors f ls (Suc i) i ws
          else None)"

definition anchored_spans :: "(string \<Rightarrow> string) \<Rightarrow> string list \<Rightarrow> string list \<Rightarrow> (nat \<times> nat) list" where
  "anchored_spans f lines sig =
     concat (map (\<lambda>s. if f (lines ! s) = hd sig
        then case match_anchors f (drop (Suc s) lines) (Suc s) s (tl sig) of Some e \<Rightarrow> [(s, e)] | None \<Rightarrow> []
        else []) [0..<length lines])"

definition find_signature_candidate :: "(string \<Rightarrow> string) \<Rightarrow> string \<Rightarrow> string \<Rightarrow> string option" where
  "find_signature_candidate f content old_text =
     (let lines = split_on LF content;
          sig = filter (\<lambda>l. l \<noteq> []) (map f (split_on LF old_text))
      in if length sig < 2 then None
         else case anchored_spans f lines sig of
                [(s, e)] \<Rightarrow>
                  let candidate = window lines s (Suc e - s)
                  in if candidate = old_text then None else Some candidate
              | _ \<Rightarrow> None)"

definition find_blank_line_insensitive_candidate :: "string \<Rightarrow> string \<Rightarrow> string option" where
  "find_blank_line_insensitive_candidate = find_signature_candidate strip_indent"

definition find_whitespace_insensitive_candidate :: "string \<Rightarrow> string \<Rightarrow> string option" where
  "find_whitespace_insensitive_candidate = find_signature_candidate collapse"

definition find_unicode_punctuation_insensitive_candidate :: "string \<Rightarrow> string \<Rightarrow> string option" where
  "find_unicode_punctuation_insensitive_candidate = find_signature_candidate fold_punctuation"

fun first_some :: "('a \<Rightarrow> 'b option) list \<Rightarrow> 'a \<Rightarrow> 'b option" where
  "first_some [] x = None"
| "first_some (f # fs) x = (case f x of Some y \<Rightarrow> Some y | None \<Rightarrow> first_some fs x)"

definition try_correct_indentation_mismatch_from_content :: "string \<Rightarrow> string \<Rightarrow> string option" where
  "try_correct_indentation_mismatch_from_content old_text content =
     (let t = normalize_lf old_text
      in if contains_text content t then None
         else case find (\<lambda>f. f t \<noteq> t \<and> contains_text content (f t)) conversions of
                Some f \<Rightarrow> Some (f t)
              | None \<Rightarrow>
                  first_some [find_indentation_insensitive_candidate content,
                    find_blank_line_insensitive_candidate content,
                    find_whitespace_insensitive_candidate content,
                    find_unicode_punctuation_insensitive_candidate content] t)"

definition try_correct_indentation_mismatch :: "string \<Rightarrow> string option \<Rightarrow> string option" where
  "try_correct_indentation_mismatch old_text read =
     Option.bind read (\<lambda>t. try_correct_indentation_mismatch_from_content old_text (normalize_lf t))"

subsection \<open>The raw span of a match\<close>

fun line_starts :: "nat \<Rightarrow> string list \<Rightarrow> nat list" where
  "line_starts pos [] = []"
| "line_starts pos (l # ls) = pos # line_starts (pos + length l + 1) ls"

definition start_at :: "nat list \<Rightarrow> nat \<Rightarrow> nat" where
  "start_at starts i = (if i < length starts then starts ! i else 0)"

text \<open>The loop over the boundaries of a raw line, from \<open>b\<close> on.\<close>

function scan_boundaries :: "(string \<Rightarrow> string) \<Rightarrow> string \<Rightarrow> nat \<Rightarrow> bool \<Rightarrow> nat \<Rightarrow> nat \<Rightarrow> nat \<Rightarrow> nat" where
  "scan_boundaries nrm l target prefer_end b lower upper =
     (if length l < b then (if prefer_end then upper else lower)
      else
        let n = length (nrm (take b l))
        in if n = target then b
           else if n < target then scan_boundaries nrm l target prefer_end (Suc b) b upper
           else scan_boundaries nrm l target prefer_end (Suc b) lower (if upper = length l then b else upper))"
  by pat_completeness auto
termination by (relation "measure (\<lambda>(nrm, l, target, p, b, lo, up). Suc (length l) - b)") auto

declare scan_boundaries.simps [simp del]

definition map_offset :: "(string \<Rightarrow> string) \<Rightarrow> string \<Rightarrow> string \<Rightarrow> nat \<Rightarrow> bool \<Rightarrow> nat" where
  "map_offset nrm raw norm_content offset prefer_end =
     (let raw_lines = split_on LF raw; norm_lines = split_on LF norm_content;
          line = min (length norm_lines - 1) (length (split_on LF (take offset norm_content)) - 1);
          raw_line = line_at raw_lines line;
          start = start_at (line_starts 0 raw_lines) line;
          target = offset - start_at (line_starts 0 norm_lines) line
      in if target \<ge> length (line_at norm_lines line) then start + length raw_line
         else start + scan_boundaries nrm raw_line target prefer_end 0 0 (length raw_line))"

definition exact_old_text_for_apply ::
    "(string \<Rightarrow> string) \<Rightarrow> string \<Rightarrow> string \<Rightarrow> string \<Rightarrow> string \<Rightarrow> (string \<times> nat \<times> nat) option" where
  "exact_old_text_for_apply nrm raw norm_content old_text candidate =
     (let old_lf = normalize_lf old_text
      in if count_raw_occurrences raw old_lf = 1 then
           map_option (\<lambda>i. (old_lf, i, i + length old_lf)) (text_index raw old_lf)
         else if candidate \<noteq> old_lf \<and> count_raw_occurrences raw candidate = 1 then
           map_option (\<lambda>i. (candidate, i, i + length candidate)) (text_index raw candidate)
         else if candidate \<noteq> old_lf then None
         else case text_index norm_content candidate of
                None \<Rightarrow> None
              | Some i \<Rightarrow>
                  let s = map_offset nrm raw norm_content i False;
                      e = map_offset nrm raw norm_content (i + length candidate) True;
                      t = js_slice raw (int s) (int e)
                  in if nrm t = candidate then Some (t, s, e) else None)"

subsection \<open>Overlaps\<close>

definition spans_overlap :: "partial_edit \<Rightarrow> partial_edit \<Rightarrow> bool" where
  "spans_overlap a b \<longleftrightarrow> ae_start b < ae_end a \<and> ae_start a < ae_end b"

definition overlap_step ::
    "partial_edit list \<Rightarrow> (nat \<times> nat) list \<times> nat list \<Rightarrow> nat \<Rightarrow> (nat \<times> nat) list \<times> nat list" where
  "overlap_step cs acc i =
     (case acc of (pairs, reported) \<Rightarrow>
        if i \<in> set reported then acc
        else case find (\<lambda>j. j \<notin> set reported \<and> spans_overlap (cs ! i) (cs ! j)) [Suc i..<length cs] of
               None \<Rightarrow> acc
             | Some j \<Rightarrow> (pairs @ [(i, j)], i # j # reported))"

definition overlap_pairs :: "partial_edit list \<Rightarrow> (partial_edit \<times> partial_edit) list" where
  "overlap_pairs cs =
     map (\<lambda>(i, j). (cs ! i, cs ! j)) (fst (foldl (overlap_step cs) ([], []) [0..<length cs]))"

definition overlaps_another :: "partial_edit list \<Rightarrow> nat \<Rightarrow> bool" where
  "overlaps_another cs i \<longleftrightarrow>
     list_ex (\<lambda>j. j \<noteq> i \<and> spans_overlap (cs ! j) (cs ! i)) [0..<length cs]"

subsection \<open>Repeated failures\<close>

type_synonym failure_tracker = "(string, int \<times> int) fifo_map"

definition MAX_FAILURE_TRACKER_SIZE :: int where "MAX_FAILURE_TRACKER_SIZE = 200"
definition REPEAT_FAILURE_TTL_MS :: int where "REPEAT_FAILURE_TTL_MS = 300000"

definition track_old_text_failure :: "int \<Rightarrow> path \<Rightarrow> string \<Rightarrow> failure_tracker \<Rightarrow> int \<times> failure_tracker" where
  "track_old_text_failure now p preview tr =
     (let key = p @ ''::'' @ preview;
          n = (case fifo_get tr key of
                 Some (k, ts) \<Rightarrow> if now - ts < REPEAT_FAILURE_TTL_MS then k + 1 else 1
               | None \<Rightarrow> 1)
      in (n, snd (fifo_set key (n, now) tr)))"

subsection \<open>Resolving the old texts of a call\<close>

record old_text_edit =
  oe_old_text :: "string option"
  oe_new_text :: "string option"
  oe_original_index :: "int option"

datatype failure_kind = Kind_Not_Found | Kind_Unrepresentable | Kind_Duplicate | Kind_Span_Overlap

datatype preflight_detail =
    Not_Found int string int bool "nat option" "(nat \<times> string) list"
  | Unrepresentable int
  | Appears_Often int string nat
  | Overlapping_Pair int int
  | Was_Already_Applied int

datatype preflight_header =
    All_Already_Applied
  | Some_Already_Applied
  | Reread_Required
  | Retry_Overlap
  | Retry_Not_Found

record guard_line_result =
  gl_touched_lines :: "(int \<times> int) option"
  gl_edit_ranges :: "(int \<times> int) list option"
  gl_adapter_error :: "string option"
  gl_header :: "preflight_header option"
  gl_details :: "preflight_detail list"
  gl_partially_applicable :: "partial_edit list option"
  gl_already_applied :: "int list option"
  gl_summary :: "edit_batch_summary option"
  gl_content_match_validated :: bool

definition no_touched_lines :: guard_line_result where
  "no_touched_lines = \<lparr>gl_touched_lines = None, gl_edit_ranges = None, gl_adapter_error = None,
     gl_header = None, gl_details = [],
     gl_partially_applicable = None, gl_already_applied = None, gl_summary = None,
     gl_content_match_validated = False\<rparr>"

record preflight_env =
  pe_beyond :: "char \<Rightarrow> string"
  pe_sha :: "string \<Rightarrow> string"
  pe_key :: "path \<Rightarrow> path"
  pe_path :: path
  pe_now :: int
  pe_took :: int
  pe_records :: "record_store option"

record preflight_state =
  ps_requested :: "int list"
  ps_details :: "preflight_detail list"
  ps_kinds :: "failure_kind list"
  ps_rejected :: "edit_batch_rejection list"
  ps_resolved :: "int list"
  ps_ranges :: "(int \<times> int) list"
  ps_candidates :: "partial_edit list"
  ps_already :: "int list"
  ps_max_fail :: int
  ps_tracker :: failure_tracker

text \<open>\<^verbatim>\<open>if (xs.length < 100) xs.push(x)\<close>.\<close>

definition push_bounded :: "'a \<Rightarrow> 'a list \<Rightarrow> 'a list" where
  "push_bounded x xs = (if length xs < 100 then xs @ [x] else xs)"

definition already_applied_retry :: "preflight_env \<Rightarrow> string \<Rightarrow> string \<Rightarrow> old_text_edit \<Rightarrow> bool" where
  "already_applied_retry env raw old_text e =
     (let match = normalize_for_guard_match (pe_beyond env)
      in case pe_records env of
           None \<Rightarrow> False
         | Some store \<Rightarrow>
             (case find_record (pe_key env) (pe_sha env) (pe_path env) (Some old_text) (oe_new_text e) store of
                None \<Rightarrow> False
              | Some r \<Rightarrow>
                  is_exact_applied_retry \<lparr>rt_content_lf = normalize_to_lf raw, rt_old_key = match old_text,
                    rt_new_key = match (or_else (oe_new_text e) []), rt_content_hash = Some (pe_sha env raw),
                    rt_expected_hash = ar_content_hash r, rt_expected_after_write = ar_after_write_hash r\<rparr>))"

text \<open>The needle and its occurrence lines, after the whitespace correction when the first search fails.\<close>

definition locate_old_text :: "preflight_env \<Rightarrow> string \<Rightarrow> string \<Rightarrow> (string \<times> nat list) option" where
  "locate_old_text env raw old_text =
     (let match = normalize_for_guard_match (pe_beyond env); content = match raw; needle = match old_text
      in Option.bind (find_occurrence_lines content needle) (\<lambda>ls.
           if ls \<noteq> [] then Some (needle, ls)
           else case try_correct_indentation_mismatch_from_content old_text (normalize_to_lf raw) of
                  None \<Rightarrow> Some (needle, ls)
                | Some corrected \<Rightarrow>
                    Option.bind (find_occurrence_lines content (match corrected)) (\<lambda>ls'.
                      Some (match corrected, ls'))))"

definition QUOTE :: char where "QUOTE = CHR 0x22"
definition APOSTROPHE :: char where "APOSTROPHE = CHR 0x27"

definition quote_style_differs :: "string \<Rightarrow> string \<Rightarrow> bool" where
  "quote_style_differs content needle =
     (let swaps = (if QUOTE \<in> set needle then [replace_char QUOTE APOSTROPHE needle] else [])
        @ (if APOSTROPHE \<in> set needle then [replace_char APOSTROPHE QUOTE needle] else [])
      in list_ex (\<lambda>s. s \<noteq> needle \<and> map_option length (find_occurrence_lines content s) = Some 1) swaps)"

definition preview_of :: "string \<Rightarrow> string" where
  "preview_of old_text = take 60 (trim_start old_text)"

definition not_found ::
    "preflight_env \<Rightarrow> string \<Rightarrow> string \<Rightarrow> string \<Rightarrow> int \<Rightarrow> preflight_state \<Rightarrow> preflight_state" where
  "not_found env raw old_text needle idx st =
     (let content = normalize_for_guard_match (pe_beyond env) raw;
          preview = preview_of old_text;
          (n, tr) = track_old_text_failure (pe_now env) (pe_path env) preview (ps_tracker st);
          quotes = quote_style_differs content needle;
          hint = find_first_line_of_old_text content old_text;
          raw_lines = split_on LF (normalize_to_lf raw);
          similar = (if quotes then [] else
            map (\<lambda>(l, _). (l, trim_end (line_at raw_lines (l - 1))))
              (find_similar_lines content (hd (split_on LF (normalize_lf old_text))) hint))
      in st\<lparr>ps_kinds := ps_kinds st @ [Kind_Not_Found],
            ps_rejected := push_bounded \<lparr>er_index = idx, er_code = Oldtext_Not_Found\<rparr> (ps_rejected st),
            ps_tracker := tr, ps_max_fail := max (ps_max_fail st) n,
            ps_details := ps_details st @ [Not_Found idx preview n quotes (if quotes then None else hint) similar]\<rparr>)"

definition found_once ::
    "preflight_env \<Rightarrow> string \<Rightarrow> string \<Rightarrow> string \<Rightarrow> string option \<Rightarrow> nat \<Rightarrow> int \<Rightarrow> preflight_state \<Rightarrow> preflight_state" where
  "found_once env raw old_text needle new_text first_line idx st =
     (let match = normalize_for_guard_match (pe_beyond env)
      in case exact_old_text_for_apply match (normalize_to_lf raw) (match raw) old_text needle of
           Some (t, s, e) \<Rightarrow>
             st\<lparr>ps_candidates := ps_candidates st @
                 [\<lparr>ae_old_text = old_text, ae_span_text = t, ae_new_text = new_text, ae_index = idx,
                   ae_snapshot = pe_sha env raw, ae_start = int s, ae_end = int e\<rparr>],
               ps_ranges := ps_ranges st @ [(int first_line, int first_line + int (length (split_on LF needle)) - 1)],
               ps_resolved := push_bounded idx (ps_resolved st)\<rparr>
         | None \<Rightarrow>
             st\<lparr>ps_kinds := ps_kinds st @ [Kind_Unrepresentable],
               ps_rejected := push_bounded \<lparr>er_index = idx, er_code = Oldtext_Unrepresentable\<rparr> (ps_rejected st),
               ps_details := ps_details st @ [Unrepresentable idx]\<rparr>)"

definition found_often :: "string \<Rightarrow> nat \<Rightarrow> int \<Rightarrow> preflight_state \<Rightarrow> preflight_state" where
  "found_often old_text n idx st =
     st\<lparr>ps_kinds := ps_kinds st @ [Kind_Duplicate],
       ps_rejected := push_bounded \<lparr>er_index = idx, er_code = Oldtext_Duplicate\<rparr> (ps_rejected st),
       ps_details := ps_details st @ [Appears_Often idx (preview_of old_text) n]\<rparr>"

text \<open>One turn of the loop over the edits.  The value \<open>None\<close> is a turn that does not return.\<close>

definition resolve_edit ::
    "preflight_env \<Rightarrow> string \<Rightarrow> nat \<times> old_text_edit \<Rightarrow> preflight_state \<Rightarrow> preflight_state option" where
  "resolve_edit env raw ie st0 =
     (case ie of (i, e) \<Rightarrow>
        let idx = or_else (oe_original_index e) (int i);
            st = st0\<lparr>ps_requested := push_bounded idx (ps_requested st0)\<rparr>
        in case oe_old_text e of
             None \<Rightarrow> Some st
           | Some old_text \<Rightarrow>
               if old_text = [] then Some st
               else if already_applied_retry env raw old_text e then
                 Some (st\<lparr>ps_already := push_bounded idx (ps_already st)\<rparr>)
               else Option.bind (locate_old_text env raw old_text) (\<lambda>(needle, ls).
                 case ls of
                   [] \<Rightarrow> Some (not_found env raw old_text needle idx st)
                 | [l] \<Rightarrow> Some (found_once env raw old_text needle (oe_new_text e) l idx st)
                 | _ \<Rightarrow> Some (found_often old_text (length ls) idx st)))"

fun resolve_edits ::
    "preflight_env \<Rightarrow> string \<Rightarrow> (nat \<times> old_text_edit) list \<Rightarrow> preflight_state \<Rightarrow> preflight_state option" where
  "resolve_edits env raw [] st = Some st"
| "resolve_edits env raw (ie # ies) st = Option.bind (resolve_edit env raw ie st) (resolve_edits env raw ies)"

definition empty_preflight :: "failure_tracker \<Rightarrow> preflight_state" where
  "empty_preflight tr = \<lparr>ps_requested = [], ps_details = [], ps_kinds = [], ps_rejected = [], ps_resolved = [],
     ps_ranges = [], ps_candidates = [], ps_already = [], ps_max_fail = 0, ps_tracker = tr\<rparr>"

definition preflight_summary :: "preflight_env \<Rightarrow> old_text_edit list \<Rightarrow> preflight_state \<Rightarrow> summary_args" where
  "preflight_summary env edits st =
     (no_summary_args (ps_requested st))\<lparr>sa_requested_total := Some (int (length edits))\<rparr>"

definition has_old_text :: "old_text_edit \<Rightarrow> bool" where
  "has_old_text e \<longleftrightarrow> (case oe_old_text e of Some t \<Rightarrow> t \<noteq> [] | None \<Rightarrow> False)"

text \<open>What follows the loop: overlaps, and the verdict over the batch.\<close>

definition conclude_preflight :: "preflight_env \<Rightarrow> old_text_edit list \<Rightarrow> preflight_state \<Rightarrow> guard_line_result" where
  "conclude_preflight env edits st =
     (let cs = sort_by span_order (ps_candidates st);
          overlaps = overlap_pairs cs;
          overlapping = filter (overlaps_another cs) [0..<length cs];
          rejected = foldl (\<lambda>rs i. push_bounded \<lparr>er_index = ae_index (cs ! i), er_code = Overlapping_Span\<rparr> rs)
            (ps_rejected st) overlapping;
          passed = (if overlaps \<noteq> [] then [] else map (\<lambda>i. cs ! i) (filter (\<lambda>i. \<not> overlaps_another cs i) [0..<length cs]));
          errors = ps_details st @ map (\<lambda>(a, b). Overlapping_Pair (ae_index a) (ae_index b)) overlaps;
          n = length (filter has_old_text edits);
          already = ps_already st;
          summary = preflight_summary env edits st
      in if errors = [] \<and> passed = [] \<and> already \<noteq> [] \<and> length already = n then
           no_touched_lines\<lparr>gl_header := Some All_Already_Applied,
             gl_details := map Was_Already_Applied already,
             gl_already_applied := Some already,
             gl_summary := Some (create_edit_batch_summary (summary\<lparr>
               sa_already_indexes := Some (bounded_edit_indexes already),
               sa_already_total := Some (int (length already)), sa_duration := Some (pe_took env),
               sa_terminal_status := Some Ended_Skipped\<rparr>))\<rparr>
         else if errors \<noteq> [] \<or> already \<noteq> [] \<or> length (ps_ranges st) \<noteq> n then
           no_touched_lines\<lparr>
             gl_header := Some (if errors = [] then Some_Already_Applied
               else if ps_max_fail st \<ge> 2 then Reread_Required
               else if js_unique (ps_kinds st) = [Kind_Span_Overlap] then Retry_Overlap
               else Retry_Not_Found),
             gl_details := (if errors \<noteq> [] then errors else map Was_Already_Applied already),
             gl_partially_applicable :=
               (if passed \<noteq> [] \<and> Kind_Unrepresentable \<notin> set (ps_kinds st) then Some passed else None),
             gl_already_applied := (if already \<noteq> [] then Some already else None),
             gl_summary := Some (create_edit_batch_summary (summary\<lparr>
               sa_resolved_indexes := Some (ps_resolved st), sa_resolved_total := Some (int (length (ps_ranges st))),
               sa_rejected_reasons := Some rejected,
               sa_rejected_total := Some (max 0 (int n - int (length (ps_ranges st)) - int (length already)
                 + int (length overlapping))),
               sa_already_indexes := Some (bounded_edit_indexes already),
               sa_already_total := Some (int (length already)), sa_duration := Some (pe_took env),
               sa_terminal_status := Some Ended_Blocked\<rparr>))\<rparr>
         else if ps_ranges st = [] then
           no_touched_lines\<lparr>gl_summary := Some (create_edit_batch_summary (summary\<lparr>
             sa_rejected_total := Some (int n), sa_terminal_status := Some Ended_Blocked\<rparr>))\<rparr>
         else
           no_touched_lines\<lparr>
             gl_touched_lines := Some (Min (set (map fst (ps_ranges st))), Max (set (map snd (ps_ranges st)))),
             gl_edit_ranges := (if length (ps_ranges st) > 1 then Some (ps_ranges st) else None),
             gl_content_match_validated := True,
             gl_summary := Some (create_edit_batch_summary (summary\<lparr>
               sa_resolved_indexes := Some (ps_resolved st), sa_resolved_total := Some (int (length (ps_ranges st))),
               sa_duration := Some (pe_took env), sa_terminal_status := Some Ended_Success\<rparr>))\<rparr>)"

text \<open>The whole preflight: the file as read, or \<open>None\<close> when reading throws.\<close>

definition resolve_old_text_edits ::
    "preflight_env \<Rightarrow> string option \<Rightarrow> old_text_edit list \<Rightarrow> failure_tracker
     \<Rightarrow> (guard_line_result \<times> failure_tracker) option" where
  "resolve_old_text_edits env read edits tr =
     (case read of
        None \<Rightarrow>
          let idxs = map (\<lambda>(i, e). or_else (oe_original_index e) (int i)) (enumerate 0 edits)
          in Some (no_touched_lines\<lparr>gl_summary := Some (create_edit_batch_summary ((no_summary_args idxs)\<lparr>
               sa_rejected_reasons := Some (map (\<lambda>i. \<lparr>er_index = i, er_code = Preflight_Blocked\<rparr>) idxs)\<rparr>))\<rparr>, tr)
      | Some raw \<Rightarrow>
          map_option (\<lambda>st. (conclude_preflight env edits st, ps_tracker st))
            (resolve_edits env raw (enumerate 0 edits) (empty_preflight tr)))"

subsection \<open>The lines a tool call touches\<close>

record guard_edit =
  ge_start :: "int option"
  ge_end :: "int option"
  ge_old_text :: "string option"
  ge_new_text :: "string option"

record edit_input =
  ei_old_range :: "(int \<times> int) option"
  ei_edits :: "guard_edit list option"

definition relocate_edit :: "int \<times> int \<Rightarrow> int \<Rightarrow> guard_edit \<Rightarrow> bool \<times> guard_edit" where
  "relocate_edit old delta e =
     (case ge_start e of
        None \<Rightarrow> (False, e)
      | Some s \<Rightarrow>
          if (s, or_else (ge_end e) s) = old
          then (True, e\<lparr>ge_start := Some (s + delta), ge_end := map_option (\<lambda>l. l + delta) (ge_end e)\<rparr>)
          else (False, e))"

text \<open>A native range carries both lines.  Both shapes are rewritten in place; the answer says whether one of them was.\<close>

definition relocate_edit_range :: "int \<times> int \<Rightarrow> int \<times> int \<Rightarrow> edit_input \<Rightarrow> bool \<times> edit_input" where
  "relocate_edit_range old target inp =
     (let delta = fst target - fst old
      in if delta = 0 then (False, inp)
         else
           let (moved, old_range) = (case ei_old_range inp of
                 Some (s, e) \<Rightarrow>
                   if (s, e) = old then (True, Some (s + delta, e + delta)) else (False, Some (s, e))
               | None \<Rightarrow> (False, None));
               edits = map_option (map (relocate_edit old delta)) (ei_edits inp)
           in (moved \<or> (case edits of Some es \<Rightarrow> list_ex fst es | None \<Rightarrow> False),
               inp\<lparr>ei_old_range := old_range, ei_edits := map_option (map snd) edits\<rparr>))"

datatype mutation_kind = Write_Mutation | Edit_Mutation

record mutation_class =
  mc_kind :: mutation_kind
  mc_touched_lines :: "(int \<times> int) option"
  mc_edit_ranges :: "(int \<times> int) list option"
  mc_preflight_error :: "string option"
  mc_summary :: "edit_batch_summary option"

definition count_file_lines :: "string option \<Rightarrow> nat" where
  "count_file_lines read =
     (case read of None \<Rightarrow> 1 | Some t \<Rightarrow> if t = [] then 1 else length (split_lines t))"

definition native_range :: "guard_edit \<Rightarrow> (int \<times> int) option" where
  "native_range e = (case ge_start e of Some s \<Rightarrow> Some (s, or_else (ge_end e) s) | None \<Rightarrow> None)"

definition as_old_text_edit :: "int option \<Rightarrow> guard_edit \<Rightarrow> old_text_edit" where
  "as_old_text_edit idx e =
     \<lparr>oe_old_text = ge_old_text e, oe_new_text = ge_new_text e, oe_original_index = idx\<rparr>"

definition bounding_box :: "(int \<times> int) list \<Rightarrow> int \<times> int" where
  "bounding_box rs = (Min (set (map fst rs)), Max (set (map snd rs)))"

text \<open>
  Native ranges, joined by what the old texts of the same call resolve to.  An empty preflight error of
  an adapter is falsy.
\<close>

definition touched_by_ranges ::
    "preflight_env \<Rightarrow> string option \<Rightarrow> guard_edit list \<Rightarrow> failure_tracker
     \<Rightarrow> (guard_line_result \<times> failure_tracker) option" where
  "touched_by_ranges env read edits tr =
     (let ranged = List.map_filter native_range edits;
          unresolved = map (\<lambda>(i, e). as_old_text_edit (Some (int i)) e)
            (filter (\<lambda>(i, e). ge_start e = None \<and> ge_old_text e \<noteq> None \<and> ge_old_text e \<noteq> Some []) (enumerate 0 edits));
          finish = (\<lambda>touched ranges.
            let all = ranged @ (case ranges of Some (r # rs) \<Rightarrow> r # rs
                | _ \<Rightarrow> (case touched of Some t \<Rightarrow> [t] | None \<Rightarrow> []))
            in no_touched_lines\<lparr>
                 gl_touched_lines := Some (bounding_box (ranged @ (case touched of Some t \<Rightarrow> [t] | None \<Rightarrow> []))),
                 gl_edit_ranges := (if length all > 1 then Some all else None)\<rparr>)
      in if unresolved = [] then Some (finish None None, tr)
         else map_option (\<lambda>(r, tr').
           (if gl_header r \<noteq> None then r\<lparr>gl_partially_applicable := None, gl_touched_lines := None\<rparr>
            else finish (gl_touched_lines r) (gl_edit_ranges r), tr'))
           (resolve_old_text_edits env read unresolved tr))"

definition get_touched_lines_for_guard ::
    "preflight_env \<Rightarrow> string option \<Rightarrow> mutation_class option \<Rightarrow> edit_input \<Rightarrow> failure_tracker
     \<Rightarrow> (guard_line_result \<times> failure_tracker) option" where
  "get_touched_lines_for_guard env read mutation inp tr =
     (case mutation of
        None \<Rightarrow> Some (no_touched_lines, tr)
      | Some m \<Rightarrow>
          if mc_kind m = Write_Mutation then
            Some (no_touched_lines\<lparr>gl_touched_lines := Some (1, int (count_file_lines read))\<rparr>, tr)
          else if mc_touched_lines m \<noteq> None \<or> (mc_preflight_error m \<noteq> None \<and> mc_preflight_error m \<noteq> Some []) then
            Some (no_touched_lines\<lparr>gl_touched_lines := mc_touched_lines m, gl_edit_ranges := mc_edit_ranges m,
              gl_adapter_error := mc_preflight_error m, gl_summary := mc_summary m\<rparr>, tr)
          else
            (case ei_old_range inp of
               Some (s, e) \<Rightarrow> Some (no_touched_lines\<lparr>gl_touched_lines := Some (s, e)\<rparr>, tr)
             | None \<Rightarrow>
                 (case ei_edits inp of
                    Some (e # es) \<Rightarrow>
                      if List.map_filter native_range (e # es) = [] then
                        resolve_old_text_edits env read (map (as_old_text_edit None) (e # es)) tr
                      else touched_by_ranges env read (e # es) tr
                  | _ \<Rightarrow> Some (no_touched_lines, tr))))"

end
