(* ===== verification/Edit_Preflight_Spans.thy ===== *)
theory Edit_Preflight_Spans
  imports Edit_Preflight
begin

text \<open>
  What the preflight approves: each span it carries is one occurrence in the file's line-feed view, the
  spans of a batch are apart, and the apply step takes the batch as long as the file is the one read.
\<close>

subsection \<open>Match space\<close>

lemma nfkc_Nil [simp]: "nfkc beyond [] = []"
  by (simp add: nfkc_def)

lemma nfkc_append [simp]: "nfkc beyond (a @ b) = nfkc beyond a @ nfkc beyond b"
  by (simp add: nfkc_def)

lemma normalize_guard_Nil [simp]: "normalize_for_guard_match beyond [] = []"
  by (simp add: normalize_for_guard_match_def normalize_for_fuzzy_match_def trim_end_def normalize_unicode_punctuation_def)

subsection \<open>Offsets of lines\<close>

lemma line_starts_nth:
  "i < length ls \<Longrightarrow> line_starts pos ls ! i = pos + (\<Sum>l \<leftarrow> take i ls. length l + 1)"
  by (induction pos ls arbitrary: i rule: line_starts.induct) (auto simp: nth_Cons split: nat.split)

lemma length_line_starts [simp]: "length (line_starts pos ls) = length ls"
  by (induction pos ls rule: line_starts.induct) auto

lemma length_join: "ls \<noteq> [] \<Longrightarrow> length (join_with c ls) + 1 = (\<Sum>l \<leftarrow> ls. length l + 1)"
  by (induction c ls rule: join_with.induct) auto

lemma line_end_inside:
  assumes "i < length (split_on LF raw)"
  shows "line_starts 0 (split_on LF raw) ! i + length (split_on LF raw ! i) \<le> length raw"
proof -
  let ?ls = "split_on LF raw"
  have "(\<Sum>l \<leftarrow> ?ls. length l + 1) = (\<Sum>l \<leftarrow> take i ?ls. length l + 1) + (\<Sum>l \<leftarrow> drop i ?ls. length l + 1)"
    by (metis append_take_drop_id map_append sum_list_append)
  moreover have "(\<Sum>l \<leftarrow> drop i ?ls. length l + 1) \<ge> length (?ls ! i) + 1"
    using assms by (simp add: Cons_nth_drop_Suc [symmetric])
  moreover have "length raw + 1 = (\<Sum>l \<leftarrow> ?ls. length l + 1)"
    using length_join [of ?ls LF] by simp
  ultimately show ?thesis using assms by (simp add: line_starts_nth)
qed

lemma scan_boundaries_le:
  "lower \<le> length l \<Longrightarrow> upper \<le> length l \<Longrightarrow> scan_boundaries nrm l target p b lower upper \<le> length l"
proof (induction nrm l target p b lower upper rule: scan_boundaries.induct)
  case (1 nrm l target p b lower upper)
  show ?case
    using 1 by (subst scan_boundaries.simps) (auto simp: Let_def not_less)
qed

lemma map_offset_le: "map_offset nrm raw norm_content offset p \<le> length raw"
proof -
  let ?ls = "split_on LF raw"
  define i where "i = min (length (split_on LF norm_content) - 1) (length (split_on LF (take offset norm_content)) - 1)"
  define x where "x = map_offset nrm raw norm_content offset p - start_at (line_starts 0 ?ls) i"
  have "map_offset nrm raw norm_content offset p = start_at (line_starts 0 ?ls) i + x" "x \<le> length (line_at ?ls i)"
    by (auto simp: x_def map_offset_def Let_def i_def intro: scan_boundaries_le)
  moreover have "start_at (line_starts 0 ?ls) i + length (line_at ?ls i) \<le> length raw"
    using line_end_inside [of i raw] by (simp add: start_at_def line_at_def)
  ultimately show ?thesis by linarith
qed

subsection \<open>One span\<close>

lemma exact_span:
  assumes "exact_old_text_for_apply nrm raw norm_content old_text candidate = Some (t, s, e)"
    and "candidate \<noteq> []" "nrm [] = []"
  shows "t \<noteq> [] \<and> occurs_at raw t s \<and> e = s + length t"
proof -
  have one: "w \<noteq> [] \<and> occurs_at raw w i" if "count_raw_occurrences raw w = 1" "text_index raw w = Some i" for w i
    using that by (auto simp: count_raw_occurrences_def text_index_Some)
  have by_offset: "t \<noteq> [] \<and> occurs_at raw t s \<and> e = s + length t"
    if "t = js_slice raw (int s) (int e)" "nrm t = candidate" "e \<le> length raw"
  proof -
    have t: "t = take (e - s) (drop s raw)" "t \<noteq> []" using that assms(2,3) by (auto simp: js_slice_inside)
    then have "s < e" "s < length raw" by auto
    then have "length t = e - s" using t that(3) by simp
    then show ?thesis using t \<open>s < e\<close> that(3) by (auto simp: occurs_at_def)
  qed
  let ?old = "normalize_lf old_text"
  show ?thesis
  proof (cases "count_raw_occurrences raw ?old = 1")
    case True
    then have "text_index raw ?old = Some s \<and> t = ?old \<and> e = s + length ?old"
      using assms(1) by (simp add: exact_old_text_for_apply_def Let_def) blast
    then show ?thesis using one [OF True] by simp
  next
    case n1: False
    show ?thesis
    proof (cases "candidate \<noteq> ?old \<and> count_raw_occurrences raw candidate = 1")
      case True
      then have "text_index raw candidate = Some s \<and> t = candidate \<and> e = s + length candidate"
        using assms(1) n1 by (simp add: exact_old_text_for_apply_def Let_def) blast
      then show ?thesis using one [of candidate s] True by simp
    next
      case False
      then have c: "candidate = ?old" using assms(1) n1 by (auto simp: exact_old_text_for_apply_def Let_def split: if_splits)
      obtain i where i: "text_index norm_content candidate = Some i"
        using assms(1) n1 c by (cases "text_index norm_content candidate") (simp_all add: exact_old_text_for_apply_def Let_def)
      let ?s = "map_offset nrm raw norm_content i False" and ?e = "map_offset nrm raw norm_content (i + length candidate) True"
      have n2: "\<not> (candidate \<noteq> ?old \<and> count_raw_occurrences raw candidate = 1)" "\<not> candidate \<noteq> ?old" using c by simp_all
      have "(if nrm (js_slice raw (int ?s) (int ?e)) = candidate then Some (js_slice raw (int ?s) (int ?e), ?s, ?e) else None)
          = Some (t, s, e)"
        using assms(1) unfolding exact_old_text_for_apply_def Let_def if_not_P [OF n1] if_not_P [OF n2(1)]
          if_not_P [OF n2(2)] i by simp
      then have "t = js_slice raw (int s) (int e)" "nrm t = candidate" "e = ?e" by (auto split: if_splits)
      then show ?thesis by (intro by_offset) (simp_all add: map_offset_le)
    qed
  qed
qed

text \<open>What the loop carries.\<close>

definition approved :: "preflight_env \<Rightarrow> string \<Rightarrow> partial_edit \<Rightarrow> bool" where
  "approved env raw e \<longleftrightarrow> well_spanned e \<and> ae_snapshot e = pe_sha env raw \<and>
     occurs_at (normalize_to_lf raw) (ae_span_text e) (nat (ae_start e))"

lemma needle_found: "find_occurrence_lines content needle = Some (l # ls) \<Longrightarrow> needle \<noteq> []"
proof
  assume f: "find_occurrence_lines content needle = Some (l # ls)" and n: "needle = []"
  show False
  proof (cases "content = []")
    case True
    then show ?thesis using f n by (simp add: find_occurrence_lines_def scan_from.simps)
  next
    case False
    then show ?thesis using f n by (simp add: find_occurrence_lines_def scan_from_empty)
  qed
qed

lemma located_needle: "locate_old_text env raw old_text = Some (needle, l # ls) \<Longrightarrow> needle \<noteq> []"
  by (auto simp: locate_old_text_def Let_def bind_eq_Some_conv split: if_splits option.splits dest: needle_found)

lemma found_once_approved:
  assumes "needle \<noteq> []" "\<forall>c \<in> set (ps_candidates st). approved env raw c"
  shows "\<forall>c \<in> set (ps_candidates (found_once env raw old_text needle new_text l idx st)). approved env raw c"
proof (cases "exact_old_text_for_apply (normalize_for_guard_match (pe_beyond env)) (normalize_to_lf raw)
    (normalize_for_guard_match (pe_beyond env) raw) old_text needle")
  case (Some tse)
  obtain t s e where tse: "tse = (t, s, e)" by (cases tse)
  from exact_span [OF Some [unfolded tse] assms(1) normalize_guard_Nil] show ?thesis
    using assms(2) Some tse by (auto simp: found_once_def Let_def approved_def well_spanned_def)
qed (use assms in \<open>simp add: found_once_def Let_def\<close>)

text \<open>The ways a turn of the loop returns.\<close>

lemma resolve_edit_cases:
  fixes env raw i e st
  defines "idx \<equiv> or_else (oe_original_index e) (int i)"
  defines "st1 \<equiv> st\<lparr>ps_requested := push_bounded idx (ps_requested st)\<rparr>"
  assumes "resolve_edit env raw (i, e) st = Some st'"
  obtains (skipped) "\<not> has_old_text e" "st' = st1"
  | (retry) t where "oe_old_text e = Some t" "t \<noteq> []" "already_applied_retry env raw t e"
      "st' = st1\<lparr>ps_already := push_bounded idx (ps_already st)\<rparr>"
  | (missing) t needle where "oe_old_text e = Some t" "t \<noteq> []" "st' = not_found env raw t needle idx st1"
  | (once) t needle l where "oe_old_text e = Some t" "t \<noteq> []" "needle \<noteq> []"
      "st' = found_once env raw t needle (oe_new_text e) l idx st1"
  | (often) t n where "oe_old_text e = Some t" "t \<noteq> []" "st' = found_often t n idx st1"
proof (cases "has_old_text e")
  case False
  then have "st' = st1" using assms(3)
    by (auto simp: resolve_edit_def has_old_text_def Let_def idx_def st1_def split: option.splits)
  with False show ?thesis by (rule skipped)
next
  case True
  then obtain t where t: "oe_old_text e = Some t" "t \<noteq> []" by (auto simp: has_old_text_def split: option.splits)
  show ?thesis
  proof (cases "already_applied_retry env raw t e")
    case True
    then have "st' = st1\<lparr>ps_already := push_bounded idx (ps_already st)\<rparr>" using assms(3) t
      by (simp add: resolve_edit_def Let_def idx_def st1_def)
    with t True show ?thesis by (intro retry)
  next
    case False
    then obtain needle ls where loc: "locate_old_text env raw t = Some (needle, ls)"
      using assms(3) t by (auto simp: resolve_edit_def Let_def bind_eq_Some_conv)
    have st': "(case ls of [] \<Rightarrow> Some (not_found env raw t needle idx st1)
        | [l] \<Rightarrow> Some (found_once env raw t needle (oe_new_text e) l idx st1)
        | _ \<Rightarrow> Some (found_often t (length ls) idx st1)) = Some st'"
      unfolding st1_def idx_def using assms(3) t False loc by (simp add: resolve_edit_def Let_def)
    show ?thesis
    proof (cases ls)
      case Nil
      then have "st' = not_found env raw t needle idx st1" using st' by simp
      then show ?thesis by (rule missing [OF t])
    next
      case (Cons l ls')
      then have n: "needle \<noteq> []" using loc located_needle by blast
      show ?thesis
      proof (cases ls')
        case Nil
        then have "st' = found_once env raw t needle (oe_new_text e) l idx st1" using st' Cons by simp
        then show ?thesis by (rule once [OF t n])
      next
        case (Cons k ks)
        then have "st' = found_often t (length ls) idx st1" using st' \<open>ls = l # ls'\<close> by simp
        then show ?thesis by (rule often [OF t])
      qed
    qed
  qed
qed

lemma not_found_candidates [simp]: "ps_candidates (not_found env raw t n k s) = ps_candidates s"
  by (simp add: not_found_def Let_def split: prod.split)

lemma resolve_edit_approved:
  assumes "resolve_edit env raw ie st = Some st'" "\<forall>c \<in> set (ps_candidates st). approved env raw c"
  shows "\<forall>c \<in> set (ps_candidates st'). approved env raw c"
proof -
  obtain i e where ie: "ie = (i, e)" by (cases ie)
  let ?st = "st\<lparr>ps_requested := push_bounded (or_else (oe_original_index e) (int i)) (ps_requested st)\<rparr>"
  have st: "\<forall>c \<in> set (ps_candidates ?st). approved env raw c" using assms(2) by simp
  from assms(1) [unfolded ie] show ?thesis
  proof (cases rule: resolve_edit_cases)
    case (once t needle l)
    then show ?thesis using found_once_approved [OF once(3) st] by simp
  qed (use assms(2) in \<open>simp_all add: found_often_def\<close>)
qed

lemma resolve_edits_approved:
  "resolve_edits env raw ies st = Some st' \<Longrightarrow> \<forall>c \<in> set (ps_candidates st). approved env raw c \<Longrightarrow>
   \<forall>c \<in> set (ps_candidates st'). approved env raw c"
  by (induction env raw ies st rule: resolve_edits.induct)
    (auto simp: bind_eq_Some_conv dest: resolve_edit_approved)

subsection \<open>Overlaps\<close>

lemma overlap_step_grows: "fst acc \<noteq> [] \<Longrightarrow> fst (overlap_step cs acc i) \<noteq> []"
  by (cases acc) (auto simp: overlap_step_def split: option.split)

lemma overlap_fold_grows: "fst acc \<noteq> [] \<Longrightarrow> fst (foldl (overlap_step cs) acc is') \<noteq> []"
  by (induction is' arbitrary: acc) (simp_all add: overlap_step_grows)

lemma overlap_step_start:
  "overlap_step cs ([], []) k =
     (case find (\<lambda>j. spans_overlap (cs ! k) (cs ! j)) [Suc k..<length cs] of
        None \<Rightarrow> ([], []) | Some j \<Rightarrow> ([(k, j)], [k, j]))"
  by (simp add: overlap_step_def split: option.split)

lemma overlap_fold_none:
  assumes "fst (foldl (overlap_step cs) ([], []) is') = []" "i \<in> set is'"
  shows "find (\<lambda>j. spans_overlap (cs ! i) (cs ! j)) [Suc i..<length cs] = None"
  using assms
proof (induction is')
  case (Cons k is')
  have "fst (overlap_step cs ([], []) k) = []"
    using Cons.prems(1) overlap_fold_grows [of "overlap_step cs ([], []) k" cs is'] by auto
  then have k: "find (\<lambda>j. spans_overlap (cs ! k) (cs ! j)) [Suc k..<length cs] = None"
    unfolding overlap_step_start by (cases "find (\<lambda>j. spans_overlap (cs ! k) (cs ! j)) [Suc k..<length cs]") auto
  then have "overlap_step cs ([], []) k = ([], [])" unfolding overlap_step_start by simp
  then show ?case using Cons k by (cases "i = k") simp_all
qed simp

lemma no_overlap_pairs:
  assumes "overlap_pairs cs = []"
  shows "sorted_wrt (\<lambda>a b. \<not> spans_overlap a b) cs"
proof -
  have n: "fst (foldl (overlap_step cs) ([], []) [0..<length cs]) = []" using assms by (simp add: overlap_pairs_def)
  have "\<not> spans_overlap (cs ! i) (cs ! j)" if "i < j" "j < length cs" for i j
    using overlap_fold_none [OF n, of i] that by (auto simp: find_None_iff)
  then show ?thesis by (simp add: sorted_wrt_iff_nth_less)
qed

lemma not_overlap_apart: "\<not> spans_overlap a b \<longleftrightarrow> apart a b"
  by (auto simp: spans_overlap_def apart_def not_less)

lemma spans_overlap_sym: "spans_overlap a b \<longleftrightarrow> spans_overlap b a"
  by (auto simp: spans_overlap_def)

lemma not_overlaps_another:
  assumes "overlap_pairs cs = []" "i < length cs"
  shows "\<not> overlaps_another cs i"
proof -
  have "\<not> spans_overlap (cs ! j) (cs ! i)" if "j < length cs" "j \<noteq> i" for j
    using no_overlap_pairs [OF assms(1)] that assms(2) spans_overlap_sym
    by (metis nat_neq_iff sorted_wrt_iff_nth_less)
  then show ?thesis by (auto simp: overlaps_another_def list_ex_iff)
qed

lemma carried_batch:
  assumes "gl_partially_applicable (conclude_preflight env edits st) = Some batch"
  shows "batch = in_span_order (ps_candidates st) \<and> batch \<noteq> [] \<and> sorted_wrt apart batch"
proof -
  let ?cs = "in_span_order (ps_candidates st)"
  have p: "overlap_pairs ?cs = [] \<and> batch = map (\<lambda>i. ?cs ! i) (filter (\<lambda>i. \<not> overlaps_another ?cs i) [0..<length ?cs])
      \<and> batch \<noteq> []"
    using assms by (auto simp: conclude_preflight_def Let_def no_touched_lines_def split: if_splits)
  then have "filter (\<lambda>i. \<not> overlaps_another ?cs i) [0..<length ?cs] = [0..<length ?cs]"
    by (intro filter_True) (auto simp: not_overlaps_another)
  then have "batch = ?cs" using p by (simp add: map_nth)
  moreover have "sorted_wrt apart ?cs"
    using no_overlap_pairs [of ?cs] p by (simp add: not_overlap_apart)
  ultimately show ?thesis using p by metis
qed

end
