(* ===== verification/Edit_Preflight_Verdicts.thy ===== *)
theory Edit_Preflight_Verdicts
  imports Edit_Preflight_Spans
begin

text \<open>
  The verdicts of the preflight: that what it carries commits, that corrections are verbatim text of the
  file, and on which calls the search does not return.
\<close>

subsection \<open>Preflight and apply\<close>

text \<open>C8 (refinement). What the preflight carries to the apply step commits: as long as the file holds the text
  the preflight read, the batch is not refused.  The two checks agree, although one works on match
  space and the other on the bytes.\<close>

theorem carried_batch_is_accepted:
  assumes pre: "resolve_old_text_edits env (Some raw) edits tr = Some (r, tr')"
    and carried: "gl_partially_applicable r = Some (ap_edits a)"
    and unchanged: "read_text (as_fs st) (ap_path a) = Some raw"
  shows "\<not> refused (fst (apply_partially_applicable_edits nrm (pe_sha env) th now took a st))"
proof -
  obtain ps where ps: "resolve_edits env raw (enumerate 0 edits) (empty_preflight tr) = Some ps"
    and r: "r = conclude_preflight env edits ps"
    using pre by (auto simp: resolve_old_text_edits_def)
  have b: "ap_edits a = in_span_order (ps_candidates ps)" "ap_edits a \<noteq> []" "sorted_wrt apart (ap_edits a)"
    using carried_batch [of env edits ps "ap_edits a"] carried r by auto
  have "\<forall>c \<in> set (ps_candidates ps). approved env raw c"
    by (rule resolve_edits_approved [OF ps]) (simp add: empty_preflight_def)
  then have ok: "\<forall>e \<in> set (ap_edits a). approved env raw e" using b(1) by simp
  then have w: "\<forall>e \<in> set (ap_edits a). well_spanned e" by (simp add: approved_def)
  show ?thesis unfolding refused_iff [OF w unchanged] using ok b by (auto simp: approved_def)
qed

text \<open>The header for overlapping spans is never chosen: no step reports that kind of failure.\<close>

lemma resolve_edit_kinds:
  assumes "resolve_edit env raw ie st = Some st'" "Kind_Span_Overlap \<notin> set (ps_kinds st)"
  shows "Kind_Span_Overlap \<notin> set (ps_kinds st')"
proof -
  obtain i e where ie: "ie = (i, e)" by (cases ie)
  from assms(1) [unfolded ie] show ?thesis
    by (cases rule: resolve_edit_cases)
      (use assms(2) in \<open>simp_all add: not_found_def found_once_def found_often_def Let_def split: prod.split option.split\<close>)
qed

lemma resolve_edits_kinds:
  "resolve_edits env raw ies st = Some st' \<Longrightarrow> Kind_Span_Overlap \<notin> set (ps_kinds st) \<Longrightarrow>
   Kind_Span_Overlap \<notin> set (ps_kinds st')"
  by (induction env raw ies st rule: resolve_edits.induct) (auto simp: bind_eq_Some_conv dest: resolve_edit_kinds)

lemma overlap_header_is_never_chosen:
  assumes "resolve_old_text_edits env read edits tr = Some (r, tr')"
  shows "gl_header r \<noteq> Some Retry_Overlap"
proof (cases read)
  case None
  then show ?thesis using assms by (auto simp: resolve_old_text_edits_def Let_def no_touched_lines_def)
next
  case (Some raw)
  then obtain ps where ps: "resolve_edits env raw (enumerate 0 edits) (empty_preflight tr) = Some ps"
    and r: "r = conclude_preflight env edits ps"
    using assms by (auto simp: resolve_old_text_edits_def)
  have "Kind_Span_Overlap \<notin> set (ps_kinds ps)"
    by (rule resolve_edits_kinds [OF ps]) (simp add: empty_preflight_def)
  then have "js_unique (ps_kinds ps) \<noteq> [Kind_Span_Overlap]" by (metis list.set_intros(1) set_js_unique)
  then show ?thesis by (auto simp: r conclude_preflight_def Let_def no_touched_lines_def)
qed

end
