(* ===== verification/Edit_Preflight_Text.thy ===== *)
theory Edit_Preflight_Text
  imports Edit_Preflight_Verdicts
begin

text \<open>
  The text side of the preflight: a correction is verbatim text of the file that carries the same
  non-space characters as the old text, up to the quotes and dashes the last tier folds.
\<close>

subsection \<open>Blank characters\<close>

lemma collapse_append [simp]: "collapse (a @ b) = collapse a @ collapse b"
  by (simp add: collapse_def)

lemma collapse_Nil_iff: "collapse s = [] \<longleftrightarrow> (\<forall>c \<in> set s. is_js_space c)"
  by (simp add: collapse_def filter_empty_conv)

lemma js_spaces [simp]: "is_js_space TAB" "is_js_space CHR 0x20" "is_js_space NBSP" "is_js_space LF" "is_js_space CR"
  by (simp_all add: TAB_def NBSP_def is_js_space_def)

lemma collapse_dropWhile: "(\<And>c. P c \<Longrightarrow> is_js_space c) \<Longrightarrow> collapse (dropWhile P s) = collapse s"
  by (induction s) (auto simp: collapse_def)

lemma collapse_rev: "collapse (rev s) = rev (collapse s)"
  by (simp add: collapse_def rev_filter)

lemma collapse_trim_end [simp]: "collapse (trim_end s) = collapse s"
  by (simp add: trim_end_def collapse_rev collapse_dropWhile)

lemma trim_end_Nil: "trim_end s = [] \<longleftrightarrow> collapse s = []"
  by (simp add: trim_end_def dropWhile_eq_Nil_conv collapse_Nil_iff)

lemma collapse_strip_indent [simp]: "collapse (strip_indent l) = collapse l"
  by (auto simp: strip_indent_def intro: collapse_dropWhile)

lemma strip_indent_Nil: "strip_indent l = [] \<longleftrightarrow> collapse l = []"
proof -
  have "collapse (dropWhile (\<lambda>c. c = TAB \<or> c = CHR 0x20) l) = collapse l" by (rule collapse_dropWhile) auto
  then show ?thesis by (simp add: strip_indent_def trim_end_Nil)
qed

lemma collapse_collapse [simp]: "collapse (collapse l) = collapse l"
  by (simp add: collapse_def)

lemma folds_of_spaces: "is_js_space (ascii_punctuation c) \<longleftrightarrow> is_js_space c"
proof (cases "of_char c = (0xA0 :: nat)")
  case True
  moreover have "of_char NBSP = (0xA0 :: nat)" by (simp add: NBSP_def)
  ultimately have "c = NBSP" by (metis char_of_char)
  then show ?thesis by (simp add: ascii_punctuation_def NBSP_def is_js_space_def HOST_SMART_SINGLE_QUOTES_def
      HOST_SMART_DOUBLE_QUOTES_def HOST_UNICODE_DASHES_def HOST_SPECIAL_SPACES_def)
next
  case False
  have "\<not> is_js_space d" if "of_char d \<in> set (HOST_SMART_SINGLE_QUOTES @ HOST_SMART_DOUBLE_QUOTES @ HOST_UNICODE_DASHES)" for d
    using that by (auto simp: HOST_SMART_SINGLE_QUOTES_def HOST_SMART_DOUBLE_QUOTES_def HOST_UNICODE_DASHES_def is_js_space_def)
  then show ?thesis using False
    by (simp add: ascii_punctuation_def Let_def HOST_SPECIAL_SPACES_def) (simp add: is_js_space_def)
qed

lemma fold_punctuation_by_char: "fold_punctuation l = map ascii_punctuation (collapse l)"
  by (induction l) (auto simp: fold_punctuation_def normalize_unicode_punctuation_def collapse_def folds_of_spaces)

lemma fold_Nil_iff: "fold_punctuation l = [] \<longleftrightarrow> collapse l = []"
  by (simp add: fold_punctuation_by_char)

lemma fold_collapse: "fold_punctuation (collapse l) = fold_punctuation l"
  by (simp add: fold_punctuation_by_char)

lemma ascii_twice: "ascii_punctuation (ascii_punctuation c) = ascii_punctuation c"
  by (simp add: ascii_punctuation_def Let_def HOST_SMART_SINGLE_QUOTES_def
      HOST_SMART_DOUBLE_QUOTES_def HOST_UNICODE_DASHES_def HOST_SPECIAL_SPACES_def)

lemma fold_fold: "fold_punctuation (fold_punctuation l) = fold_punctuation l"
  by (induction l) (auto simp: fold_punctuation_by_char collapse_def folds_of_spaces ascii_twice)

lemma collapse_spaces [simp]: "collapse (spaces n) = []" "collapse (replicate n TAB) = []"
  by (simp_all add: collapse_Nil_iff spaces_def)

lemma takeWhile_is: "takeWhile (\<lambda>c. c = x) l = replicate (length (takeWhile (\<lambda>c. c = x) l)) x"
  by (induction l) auto

lemma collapse_tabs_to_spaces: "collapse (tabs_to_spaces w l) = collapse l"
proof -
  let ?n = "length (takeWhile (\<lambda>c. c = TAB) l)"
  have "l = replicate ?n TAB @ drop ?n l"
    by (metis dropWhile_eq_drop takeWhile_dropWhile_id takeWhile_is)
  then have "collapse l = collapse (drop ?n l)" by (metis collapse_append collapse_spaces(2) append_Nil)
  then show ?thesis by (simp add: tabs_to_spaces_def Let_def)
qed

lemma collapse_spaces_to_tabs: "collapse (spaces_to_tabs w l) = collapse l"
proof -
  let ?m = "length (takeWhile (\<lambda>c. c = CHR 0x20) l)" and ?n = "w * (length (takeWhile (\<lambda>c. c = CHR 0x20) l) div w)"
  have le: "?n \<le> ?m" by simp
  have "take ?n l = take ?n (take ?m l)" using le by (simp add: min_absorb1)
  also have "take ?m l = spaces ?m" by (metis spaces_def takeWhile_eq_take takeWhile_is)
  finally have "collapse (take ?n l) = []" by (simp add: spaces_def collapse_Nil_iff)
  then have "collapse l = collapse (drop ?n l)" by (metis append_Nil append_take_drop_id collapse_append)
  then show ?thesis by (simp add: spaces_to_tabs_def Let_def)
qed

subsection \<open>Lines\<close>

abbreviation lines_of :: "string \<Rightarrow> string list" where
  "lines_of s \<equiv> split_on LF s"

definition signature :: "(string \<Rightarrow> string) \<Rightarrow> string \<Rightarrow> string list" where
  "signature f s = filter (\<lambda>l. l \<noteq> []) (map f (lines_of s))"

lemma collapse_join: "collapse (join_with LF ls) = concat (map collapse ls)"
proof (induction LF ls rule: join_with.induct)
  case (3 w v ws)
  have "collapse (LF # s) = collapse s" for s by (simp add: collapse_def)
  then show ?case using 3 by simp
qed (simp_all add: collapse_def)

lemma signature_Nil: "signature collapse s = [] \<longleftrightarrow> collapse s = []"
  using collapse_join [of "lines_of s"] by (auto simp: signature_def filter_empty_conv)

lemma signature_fold: "signature fold_punctuation s = map (map ascii_punctuation) (signature collapse s)"
  unfolding signature_def by (induction "lines_of s" arbitrary: s) (simp_all add: fold_punctuation_by_char [abs_def] filter_map o_def)

lemma tabs_no_lf: "LF \<notin> set l \<Longrightarrow> LF \<notin> set (tabs_to_spaces w l)"
  by (auto simp: tabs_to_spaces_def spaces_def Let_def dest: in_set_dropD)

lemma spaces_no_lf: "LF \<notin> set l \<Longrightarrow> LF \<notin> set (spaces_to_tabs w l)"
  by (auto simp: spaces_to_tabs_def TAB_def Let_def dest: in_set_dropD)

lemma lines_each_line:
  "(\<And>l. LF \<notin> set l \<Longrightarrow> LF \<notin> set (f l)) \<Longrightarrow> lines_of (each_line f s) = map f (lines_of s)"
  unfolding each_line_def by (rule split_join) (auto dest: split_on_parts)

lemma conversion_lines:
  assumes "f \<in> set conversions"
  shows "map collapse (lines_of (f s)) = map collapse (lines_of s)"
  using assms
  by (auto simp: conversions_def lines_each_line tabs_no_lf spaces_no_lf collapse_tabs_to_spaces collapse_spaces_to_tabs)

lemma lines_window:
  assumes "i < length (lines_of s)" "0 < n"
  shows "lines_of (window (lines_of s) i n) = take n (drop i (lines_of s))"
  unfolding window_def
proof (rule split_join)
  show "take n (drop i (lines_of s)) \<noteq> []" using assms by simp
  show "\<forall>w \<in> set (take n (drop i (lines_of s))). LF \<notin> set w"
    by (auto dest!: in_set_takeD in_set_dropD dest: split_on_parts)
qed

lemma join_infix: "ys \<noteq> [] \<Longrightarrow> \<exists>a b. join_with c (xs @ ys @ zs) = a @ join_with c ys @ b"
proof -
  assume y: "ys \<noteq> []"
  obtain b where b: "join_with c (ys @ zs) = join_with c ys @ b"
    using y join_append [of ys zs c] by (cases "zs = []") auto
  show ?thesis
  proof (cases "xs = []")
    case True
    then show ?thesis using b by (intro exI [of _ "[]"] exI [of _ b]) simp
  next
    case False
    then have "join_with c (xs @ ys @ zs) = (join_with c xs @ [c]) @ join_with c ys @ b"
      using y b join_append [of xs "ys @ zs" c] by simp
    then show ?thesis by blast
  qed
qed

lemma contains_infix: "contains_text (a @ w @ b) w"
  by (auto simp: contains_text_iff occurs_at_parts intro!: exI [of _ "length a"])

lemma window_occurs:
  assumes "i < length (lines_of s)" "0 < n"
  shows "contains_text s (window (lines_of s) i n)"
proof -
  let ?ls = "lines_of s"
  have "?ls = take i ?ls @ take n (drop i ?ls) @ drop n (drop i ?ls)" by (simp only: append_take_drop_id)
  moreover have "take n (drop i ?ls) \<noteq> []" using assms by simp
  ultimately obtain a b where "join_with LF ?ls = a @ window ?ls i n @ b"
    unfolding window_def by (metis join_infix)
  then have "s = a @ window ?ls i n @ b" by simp
  then show ?thesis by (metis contains_infix)
qed

subsection \<open>The tiers\<close>

lemma indentation_tier:
  assumes "find_indentation_insensitive_candidate content t = Some c"
  shows "contains_text content c \<and> c \<noteq> t \<and> map collapse (lines_of c) = map collapse (lines_of t)"
proof -
  let ?ls = "lines_of content" and ?os = "lines_of t"
  let ?n = "length ?os"
  have n0: "0 < ?n" by simp
  define fits where "fits = (\<lambda>s. list_all (\<lambda>i. strip_indent (line_at ?ls (s + i)) = map strip_indent ?os ! i) [0..<?n]
    \<and> window ?ls s ?n \<noteq> t)"
  define cands where "cands = (if length ?ls < ?n then [] else [0..<Suc (length ?ls - ?n)])"
  have "map_option (\<lambda>s. window ?ls s ?n) (find fits cands) = Some c"
    using assms unfolding find_indentation_insensitive_candidate_def Let_def fits_def cands_def .
  then obtain s where f: "find fits cands = Some s" and c: "c = window ?ls s ?n"
    by (cases "find fits cands") simp_all
  have range: "s \<in> set cands" and "fits s" using find_some [OF f] by simp_all
  have le: "s + ?n \<le> length ?ls" using range unfolding cands_def by (simp split: if_splits del: upt_Suc)
  have s: "c = window ?ls s ?n" "window ?ls s ?n \<noteq> t"
    "\<forall>i < ?n. strip_indent (line_at ?ls (s + i)) = map strip_indent ?os ! i"
    using c \<open>fits s\<close> unfolding fits_def list_all_iff by simp_all
  have sl: "s < length ?ls" using le n0 by linarith
  have "map collapse (take ?n (drop s ?ls)) = map collapse ?os"
  proof (rule nth_equalityI)
    fix i assume "i < length (map collapse (take ?n (drop s ?ls)))"
    then have i: "i < ?n" "s + i < length ?ls" by auto
    then have "strip_indent (?ls ! (s + i)) = strip_indent (?os ! i)" using s(3) i by (auto simp: line_at_def)
    then have "collapse (?ls ! (s + i)) = collapse (?os ! i)" by (metis collapse_strip_indent)
    then show "map collapse (take ?n (drop s ?ls)) ! i = map collapse ?os ! i" using i by simp
  qed (use le in simp)
  then show ?thesis using s(1,2) lines_window [OF sl n0] window_occurs [OF sl n0] by simp
qed

lemma take_step: "Suc i \<le> e \<Longrightarrow> take (Suc e - i) (l # ls) = l # take (Suc e - Suc i) ls"
  by (simp add: Suc_diff_le)

lemma match_anchors_Some:
  "match_anchors f ls i seen sig = Some e \<Longrightarrow> \<forall>w \<in> set sig. w \<noteq> [] \<Longrightarrow>
   (sig = [] \<and> e = seen) \<or>
   (i \<le> e \<and> e < i + length ls \<and> filter (\<lambda>l. l \<noteq> []) (map f (take (Suc e - i) ls)) = sig)"
proof (induction ls arbitrary: i seen sig)
  case (Cons l ls)
  show ?case
  proof (cases sig)
    case Nil
    then show ?thesis using Cons.prems(1) by simp
  next
    case sig: (Cons w ws)
    show ?thesis
    proof (cases "f l = []")
      case True
      then have "match_anchors f ls (Suc i) seen sig = Some e" using Cons.prems(1) sig by simp
      from Cons.IH [OF this Cons.prems(2)] have h: "Suc i \<le> e" "e < Suc i + length ls"
        "filter (\<lambda>l. l \<noteq> []) (map f (take (Suc e - Suc i) ls)) = sig" using sig by auto
      show ?thesis unfolding take_step [OF h(1)] using h True by simp
    next
      case False
      then have w: "f l = w" "match_anchors f ls (Suc i) i ws = Some e"
        using Cons.prems(1) sig by (simp_all split: if_splits)
      have "\<forall>v \<in> set ws. v \<noteq> []" using Cons.prems(2) sig by simp
      from Cons.IH [OF w(2) this] show ?thesis
      proof
        assume "ws = [] \<and> e = i"
        then show ?thesis using w(1) sig False by simp
      next
        assume h: "Suc i \<le> e \<and> e < Suc i + length ls \<and> filter (\<lambda>l. l \<noteq> []) (map f (take (Suc e - Suc i) ls)) = ws"
        then show ?thesis using take_step [of i e l ls] w(1) sig False by simp
      qed
    qed
  qed
qed (simp split: if_splits)

lemma signature_tier:
  assumes "find_signature_candidate f content t = Some c"
    and f: "\<And>l. g (f l) = g l" "\<And>l. f l = [] \<longleftrightarrow> g l = []"
  shows "contains_text content c \<and> c \<noteq> t \<and> signature g c = signature g t \<and> signature g t \<noteq> []"
proof -
  let ?ls = "lines_of content" and ?sig = "filter (\<lambda>l. l \<noteq> []) (map f (lines_of t))"
  have n: "\<not> length ?sig < 2" using assms(1) by (auto simp: find_signature_candidate_def Let_def)
  then obtain w ws where sig: "?sig = w # ws" by (cases ?sig) auto
  obtain s e where se: "anchored_spans f ?ls ?sig = [(s, e)]" "c = window ?ls s (Suc e - s)" "c \<noteq> t"
    using assms(1) n
    by (auto simp: find_signature_candidate_def Let_def split: list.splits prod.splits if_splits)
  have "(s, e) \<in> set (anchored_spans f ?ls ?sig)" by (simp add: se(1))
  then have h: "s < length ?ls" "f (?ls ! s) = w" "match_anchors f (drop (Suc s) ?ls) (Suc s) s ws = Some e"
    by (auto simp: anchored_spans_def sig split: if_splits option.splits)
  have "\<forall>v \<in> set ?sig. v \<noteq> []" by simp
  then have ws: "\<forall>v \<in> set ws. v \<noteq> []" "w \<noteq> []" unfolding sig by simp_all
  have m: "(ws = [] \<and> e = s) \<or> (Suc s \<le> e \<and> e < Suc s + length (drop (Suc s) ?ls) \<and>
      filter (\<lambda>l. l \<noteq> []) (map f (take (Suc e - Suc s) (drop (Suc s) ?ls))) = ws)"
    by (rule match_anchors_Some [OF h(3) ws(1)])
  then have "s \<le> e" by auto
  have ne: "0 < Suc e - s" using \<open>s \<le> e\<close> by simp
  have "take (Suc e - s) (drop s ?ls) = ?ls ! s # take (e - s) (drop (Suc s) ?ls)"
    using h(1) \<open>s \<le> e\<close> by (simp add: Cons_nth_drop_Suc [symmetric] Suc_diff_le)
  then have fs: "filter (\<lambda>l. l \<noteq> []) (map f (take (Suc e - s) (drop s ?ls))) = ?sig"
    using m h(2) ws(2) sig by auto
  have conv: "filter (\<lambda>l. l \<noteq> []) (map g ls) = map g (filter (\<lambda>l. l \<noteq> []) (map f ls))" for ls
    using f by (induction ls) auto
  have "signature g c = signature g t"
    unfolding signature_def conv se(2) lines_window [OF h(1) ne] fs by simp
  moreover have "signature g t \<noteq> []" unfolding signature_def conv using sig by simp
  ultimately show ?thesis using se window_occurs [OF h(1) ne] by simp
qed

text \<open>The tiers that look at white space only, in their order; the one that folds punctuation is the last.\<close>

definition white_space_tiers :: "string \<Rightarrow> (string \<Rightarrow> string option) list" where
  "white_space_tiers content = map (\<lambda>f t. if f t \<noteq> t \<and> contains_text content (f t) then Some (f t) else None) conversions @
     [find_indentation_insensitive_candidate content, find_blank_line_insensitive_candidate content,
      find_whitespace_insensitive_candidate content]"

lemma first_some_append: "first_some (fs @ gs) x = (case first_some fs x of Some y \<Rightarrow> Some y | None \<Rightarrow> first_some gs x)"
  by (induction fs) (auto split: option.splits)

lemma first_some_find:
  "first_some (map (\<lambda>f t. if P f t then Some (f t) else None) fs) x = map_option (\<lambda>f. f x) (find (\<lambda>f. P f x) fs)"
  by (induction fs) auto

lemma first_some_member: "first_some fs x = Some y \<Longrightarrow> \<exists>f \<in> set fs. f x = Some y"
  by (induction fs) (auto split: option.splits)

lemma correction_by_tiers:
  "try_correct_indentation_mismatch_from_content t content =
     (if contains_text content (normalize_lf t) then None
      else first_some (white_space_tiers content @ [find_unicode_punctuation_insensitive_candidate content]) (normalize_lf t))"
  by (simp add: try_correct_indentation_mismatch_from_content_def Let_def white_space_tiers_def first_some_append first_some_find
      split: option.splits)

lemma white_space_tier:
  assumes "f \<in> set (white_space_tiers content)" "f t = Some c"
  shows "contains_text content c \<and> c \<noteq> t \<and> signature collapse c = signature collapse t \<and>
    (signature collapse t \<noteq> [] \<or> length (lines_of c) = length (lines_of t))"
proof -
  have lines: "signature collapse c = signature collapse t \<and> length (lines_of c) = length (lines_of t)"
    if "map collapse (lines_of c) = map collapse (lines_of t)"
    using that unfolding signature_def by (metis length_map)
  consider g where "g \<in> set conversions" "c = g t" "g t \<noteq> t" "contains_text content (g t)"
    | "find_indentation_insensitive_candidate content t = Some c"
    | "find_blank_line_insensitive_candidate content t = Some c"
    | "find_whitespace_insensitive_candidate content t = Some c"
    using assms by (auto simp: white_space_tiers_def split: if_splits)
  then show ?thesis
  proof cases
    case 1
    then show ?thesis using lines conversion_lines [of g t] by auto
  next
    case 2
    then show ?thesis using indentation_tier lines by blast
  next
    case 3
    from signature_tier [OF this [unfolded find_blank_line_insensitive_candidate_def], of collapse]
    show ?thesis by (simp add: strip_indent_Nil)
  next
    case 4
    from signature_tier [OF this [unfolded find_whitespace_insensitive_candidate_def], of collapse]
    show ?thesis by simp
  qed
qed

lemma correction:
  assumes "try_correct_indentation_mismatch_from_content t content = Some c"
  shows "contains_text content c \<and> c \<noteq> normalize_lf t \<and>
    signature fold_punctuation c = signature fold_punctuation (normalize_lf t) \<and>
    (signature collapse (normalize_lf t) \<noteq> [] \<or> length (lines_of c) = length (lines_of (normalize_lf t))) \<and>
    (signature collapse c = signature collapse (normalize_lf t) \<or>
     first_some (white_space_tiers content) (normalize_lf t) = None \<and>
     find_unicode_punctuation_insensitive_candidate content (normalize_lf t) = Some c)"
proof -
  let ?t = "normalize_lf t"
  have c: "first_some (white_space_tiers content @ [find_unicode_punctuation_insensitive_candidate content]) ?t = Some c"
    using assms by (simp add: correction_by_tiers split: if_splits)
  show ?thesis
  proof (cases "first_some (white_space_tiers content) ?t")
    case (Some d)
    then obtain f where "f \<in> set (white_space_tiers content)" "f ?t = Some c"
      using c first_some_member [OF Some] by (auto simp: first_some_append)
    from white_space_tier [OF this] show ?thesis by (simp add: signature_fold)
  next
    case None
    then have u: "find_unicode_punctuation_insensitive_candidate content ?t = Some c"
      using c by (simp add: first_some_append split: option.splits)
    from signature_tier [OF this [unfolded find_unicode_punctuation_insensitive_candidate_def], of fold_punctuation] fold_fold
    show ?thesis using None u by (simp add: signature_fold)
  qed
qed

text \<open>C9 (functional). A corrected old text is verbatim text of the file: it occurs there, it differs from what was
  submitted, and line by line, blank lines aside, it has the same characters in the same order once
  white space is taken out and curly quotes and dashes are read as the ASCII ones.  Quotes and dashes
  differ only in a correction of the last tier, which is asked when no tier that looks at white space
  alone has found anything.\<close>

theorem correction_is_verbatim_and_equivalent:
  assumes "try_correct_indentation_mismatch_from_content old_text content = Some corrected"
  shows "contains_text content corrected \<and> corrected \<noteq> normalize_lf old_text \<and>
    filter (\<lambda>l. l \<noteq> []) (map fold_punctuation (split_on LF corrected)) =
      filter (\<lambda>l. l \<noteq> []) (map fold_punctuation (split_on LF (normalize_lf old_text))) \<and>
    (filter (\<lambda>l. l \<noteq> []) (map collapse (split_on LF corrected)) =
       filter (\<lambda>l. l \<noteq> []) (map collapse (split_on LF (normalize_lf old_text))) \<or>
     first_some (white_space_tiers content) (normalize_lf old_text) = None \<and>
     find_unicode_punctuation_insensitive_candidate content (normalize_lf old_text) = Some corrected)"
  using correction [OF assms] by (simp add: signature_def)

text \<open>A curly-quoted file under a straight-quoted old text.\<close>

lemma correction_is_verbatim_and_equivalent_witness:
  "contains_text (''say('' @ [CHR 0x93] @ ''a'' @ [CHR 0x94] @ '')'' @ [LF, TAB] @ ''y '' @ [CHR 0x96] @ '' 1'' @ [LF])
     (''say('' @ [CHR 0x93] @ ''a'' @ [CHR 0x94] @ '')'' @ [LF, TAB] @ ''y '' @ [CHR 0x96] @ '' 1'')"
proof -
  have "try_correct_indentation_mismatch_from_content (''say('' @ [CHR 0x22] @ ''a'' @ [CHR 0x22] @ '')'' @ [LF] @ ''    y - 1'')
      (''say('' @ [CHR 0x93] @ ''a'' @ [CHR 0x94] @ '')'' @ [LF, TAB] @ ''y '' @ [CHR 0x96] @ '' 1'' @ [LF])
      = Some (''say('' @ [CHR 0x93] @ ''a'' @ [CHR 0x94] @ '')'' @ [LF, TAB] @ ''y '' @ [CHR 0x96] @ '' 1'')" by code_simp
  from correction_is_verbatim_and_equivalent [OF this] show ?thesis by blast
qed

end
