(* ===== verification/Edit_Preflight_Search.thy ===== *)
theory Edit_Preflight_Search
  imports Edit_Preflight_Text
begin

text \<open>
  On which calls the search for old texts returns: all but those that hold an old text which is empty in
  match space.
\<close>

subsection \<open>What is empty in match space\<close>

text \<open>
  The nine characters whose expansion leaves the model expand to more than white space: each has a
  combining mark, a letter or a digit in it.
\<close>

definition visible_expansions :: "(char \<Rightarrow> string) \<Rightarrow> bool" where
  "visible_expansions beyond \<longleftrightarrow> (\<forall>c. collapse (beyond c) \<noteq> [])"

definition one_blank_line :: "string \<Rightarrow> bool" where
  "one_blank_line s \<longleftrightarrow> collapse s = [] \<and> LF \<notin> set s"

lemma nfkc_unit_space: "is_js_space c \<Longrightarrow> nfkc_unit beyond c = (if of_char c = (0xA0 :: nat) then '' '' else [c])"
  unfolding is_js_space_def by (elim insertE emptyE) (simp_all add: nfkc_unit_def)

lemma nfkc_unit_blank: "is_js_space c \<Longrightarrow> collapse (nfkc_unit beyond c) = []"
  by (simp add: nfkc_unit_space collapse_def)

lemma nfkc_unit_visible:
  assumes "visible_expansions beyond" "\<not> is_js_space c"
  shows "collapse (nfkc_unit beyond c) \<noteq> []"
proof -
  have "of_char c \<noteq> (0xA0 :: nat)" using assms(2) by (auto simp: is_js_space_def)
  then have "nfkc_unit beyond c \<in> {''a'', ''2'', ''3'', ''1'', ''o'', ''...'', ''TM'', beyond c, [c]}"
    by (simp add: nfkc_unit_def Let_def)
  moreover have "collapse [c] \<noteq> []" using assms(2) by (simp add: collapse_def)
  moreover have "collapse (beyond c) \<noteq> []" using assms(1) by (simp add: visible_expansions_def)
  moreover have "\<forall>s \<in> {''a'', ''2'', ''3'', ''1'', ''o'', ''...'', ''TM''}. collapse s \<noteq> []" by (simp add: collapse_def is_js_space_def)
  ultimately show ?thesis by fastforce
qed

lemma LF_unit: "is_js_space c \<Longrightarrow> LF \<in> set (nfkc_unit beyond c) \<longleftrightarrow> c = LF"
  by (cases "c = LF") (simp_all add: nfkc_unit_space)

lemma collapse_concat: "collapse (concat ss) = concat (map collapse ss)"
  by (induction ss) (auto simp: collapse_def)

lemma nfkc_blank:
  assumes "visible_expansions beyond"
  shows "one_blank_line (nfkc beyond s) \<longleftrightarrow> one_blank_line s"
proof -
  have "collapse (nfkc beyond s) = [] \<longleftrightarrow> (\<forall>c \<in> set s. collapse (nfkc_unit beyond c) = [])"
    by (simp add: nfkc_def collapse_concat)
  also have "\<dots> \<longleftrightarrow> (\<forall>c \<in> set s. is_js_space c)" using nfkc_unit_blank nfkc_unit_visible [OF assms] by blast
  finally have "collapse (nfkc beyond s) = [] \<longleftrightarrow> (\<forall>c \<in> set s. is_js_space c)" .
  moreover have "LF \<in> set (nfkc beyond s) \<longleftrightarrow> LF \<in> set s" if "\<forall>c \<in> set s. is_js_space c"
    using that LF_unit by (auto simp: nfkc_def)
  ultimately show ?thesis unfolding one_blank_line_def collapse_Nil_iff by blast
qed

lemma fuzzy_Nil:
  assumes "visible_expansions beyond"
  shows "normalize_for_fuzzy_match beyond s = [] \<longleftrightarrow> one_blank_line s"
proof -
  let ?n = "nfkc beyond s"
  have "normalize_for_fuzzy_match beyond s = [] \<longleftrightarrow> join_with LF (map trim_end (split_on LF ?n)) = []"
    by (simp add: normalize_for_fuzzy_match_def normalize_unicode_punctuation_def)
  also have "\<dots> \<longleftrightarrow> one_blank_line ?n"
  proof
    assume j: "join_with LF (map trim_end (split_on LF ?n)) = []"
    obtain w ws where sp: "split_on LF ?n = w # ws" by (cases "split_on LF ?n") auto
    have ws: "ws = []" using j sp by (cases ws) auto
    then have "trim_end w = []" using j sp by simp
    moreover have "?n = w" using join_split [of LF ?n] unfolding sp ws by simp
    moreover have "LF \<notin> set w" using split_on_parts [of w LF ?n] sp by simp
    ultimately show "one_blank_line ?n" by (simp add: one_blank_line_def trim_end_Nil)
  next
    assume "one_blank_line ?n"
    then show "join_with LF (map trim_end (split_on LF ?n)) = []"
      by (simp add: one_blank_line_def split_on_word trim_end_Nil)
  qed
  finally show ?thesis by (simp add: nfkc_blank [OF assms])
qed

lemma guard_Nil:
  "visible_expansions beyond \<Longrightarrow> normalize_for_guard_match beyond s = [] \<longleftrightarrow> one_blank_line (normalize_to_lf s)"
  by (simp add: normalize_for_guard_match_def fuzzy_Nil)

subsection \<open>Line endings\<close>

lemma to_lf_no_cr: "CR \<notin> set s \<Longrightarrow> normalize_to_lf s = s"
  by (induction s rule: normalize_to_lf.induct) auto

lemma join_lines_Cons: "ls \<noteq> [] \<Longrightarrow> join_lines (l # ls) = l @ LF # join_lines ls"
  by (cases ls) auto

lemma join_scan: "join_lines (split_scan acc s) = rev acc @ join_lines (split_scan [] s)"
proof (induction s arbitrary: acc)
  case (Cons c s)
  show ?case
  proof (cases "c = LF \<or> (c = CR \<and> s \<noteq> [] \<and> hd s = LF)")
    case False
    then show ?thesis using Cons.IH [of "c # acc"] Cons.IH [of "[c]"] by auto
  qed (auto simp: join_lines_Cons)
qed simp

lemma normalize_lf_Cons:
  "normalize_lf (c # s) =
     (if c = LF then LF # normalize_lf s
      else if c = CR \<and> s \<noteq> [] \<and> hd s = LF then LF # normalize_lf (tl s)
      else c # normalize_lf s)"
  using join_scan [of "[c]" s] by (simp add: normalize_lf_def split_lines_def join_lines_Cons)

lemma to_lf_without_lone_cr: "CR \<notin> set (normalize_lf s) \<Longrightarrow> normalize_to_lf s = normalize_lf s"
proof (induction s rule: length_induct)
  case (1 s)
  show ?case
  proof (cases s)
    case Nil
    then show ?thesis by (simp add: normalize_lf_def split_lines_def)
  next
    case (Cons c r)
    have IH: "normalize_to_lf x = normalize_lf x" if "length x < length s" "CR \<notin> set (normalize_lf x)" for x
      using 1 that by blast
    show ?thesis
    proof (cases "c = CR")
      case True
      then have "r \<noteq> [] \<and> hd r = LF" using "1.prems" Cons by (auto simp: normalize_lf_Cons split: if_splits)
      moreover have "CR \<notin> set (normalize_lf (tl r))" using "1.prems" Cons True calculation by (simp add: normalize_lf_Cons)
      ultimately show ?thesis using IH [of "tl r"] Cons True by (simp add: normalize_lf_Cons)
    next
      case False
      then have "CR \<notin> set (normalize_lf r)" using "1.prems" Cons by (simp add: normalize_lf_Cons split: if_splits)
      then show ?thesis using IH [of r] Cons False by (simp add: normalize_lf_Cons)
    qed
  qed
qed

lemma infix_set: "contains_text s w \<Longrightarrow> set w \<subseteq> set s"
  by (auto simp: contains_text_iff occurs_at_parts) (metis in_set_dropD in_set_conv_decomp append_assoc append_Cons)

lemma corrected_visible:
  assumes c: "try_correct_indentation_mismatch_from_content t (normalize_to_lf raw) = Some c"
    and v: "visible_expansions beyond" and cr: "CR \<notin> set (normalize_lf t)"
    and t: "normalize_for_guard_match beyond t \<noteq> []"
  shows "normalize_for_guard_match beyond c \<noteq> []"
proof
  assume "normalize_for_guard_match beyond c = []"
  moreover have "CR \<notin> set c" using correction [OF c] infix_set normalize_no_cr by blast
  ultimately have blank: "one_blank_line c" by (simp add: guard_Nil [OF v] to_lf_no_cr)
  then have one: "signature collapse c = []" "length (lines_of c) = 1"
    by (simp_all add: one_blank_line_def signature_Nil split_on_word)
  then have "signature collapse (normalize_lf t) = []" "length (lines_of (normalize_lf t)) = 1"
    using correction [OF c] by (auto simp: signature_fold)
  moreover from this(2) have "LF \<notin> set (normalize_lf t)"
    by (metis One_nat_def length_0_conv length_Suc_conv join_split join_with.simps(2) list.set_intros(1) split_on_parts)
  ultimately have "one_blank_line (normalize_lf t)" by (simp add: one_blank_line_def signature_Nil)
  then show False using t by (simp add: guard_Nil [OF v] to_lf_without_lone_cr [OF cr])
qed

subsection \<open>The search returns\<close>

lemma search_returns: "find_occurrence_lines content needle = None \<longleftrightarrow> needle = [] \<and> content \<noteq> []"
proof (cases "needle = [] \<and> content \<noteq> []")
  case True
  then show ?thesis by (simp add: find_occurrence_lines_def scan_from_empty)
next
  case False
  then consider "needle \<noteq> []" | "content = []" by blast
  then show ?thesis
    by cases (simp_all add: find_occurrence_lines_def scan_from_ne scan_from.simps [of "[]"])
qed

text \<open>The old text is not found, and what its correction makes of it is empty.\<close>

definition corrected_to_blank :: "preflight_env \<Rightarrow> string \<Rightarrow> string \<Rightarrow> bool" where
  "corrected_to_blank env raw t \<longleftrightarrow>
     find_occurrence_lines (normalize_for_guard_match (pe_beyond env) raw) (normalize_for_guard_match (pe_beyond env) t) = Some [] \<and>
     (case try_correct_indentation_mismatch_from_content t (normalize_to_lf raw) of
        None \<Rightarrow> False
      | Some c \<Rightarrow> normalize_for_guard_match (pe_beyond env) c = [])"

lemma locate_returns:
  "locate_old_text env raw t = None \<longleftrightarrow>
    normalize_for_guard_match (pe_beyond env) raw \<noteq> [] \<and>
    (normalize_for_guard_match (pe_beyond env) t = [] \<or> corrected_to_blank env raw t)"
proof (cases "find_occurrence_lines (normalize_for_guard_match (pe_beyond env) raw) (normalize_for_guard_match (pe_beyond env) t)")
  case None
  then show ?thesis by (simp add: locate_old_text_def Let_def) (simp add: search_returns)
next
  case (Some ls)
  then have "\<not> (normalize_for_guard_match (pe_beyond env) t = [] \<and> normalize_for_guard_match (pe_beyond env) raw \<noteq> [])"
    by (metis option.distinct(1) search_returns)
  then show ?thesis using Some
    by (auto simp: locate_old_text_def corrected_to_blank_def Let_def search_returns bind_eq_None_conv split: option.splits)
qed

lemma blank_is_no_retry: "normalize_for_guard_match (pe_beyond env) t = [] \<Longrightarrow> \<not> already_applied_retry env raw t e"
  by (auto simp: already_applied_retry_def is_exact_applied_retry_def Let_def split: option.splits)

definition hangs_on :: "preflight_env \<Rightarrow> string \<Rightarrow> old_text_edit \<Rightarrow> bool" where
  "hangs_on env raw e \<longleftrightarrow> normalize_for_guard_match (pe_beyond env) raw \<noteq> [] \<and>
     (\<exists>t. oe_old_text e = Some t \<and> t \<noteq> [] \<and>
        (normalize_for_guard_match (pe_beyond env) t = [] \<or> \<not> already_applied_retry env raw t e \<and> corrected_to_blank env raw t))"

lemma resolve_edit_returns: "resolve_edit env raw (i, e) st = None \<longleftrightarrow> hangs_on env raw e"
proof (cases "oe_old_text e")
  case (Some t)
  show ?thesis
  proof (cases "t = [] \<or> already_applied_retry env raw t e")
    case True
    then show ?thesis using Some blank_is_no_retry by (auto simp: resolve_edit_def hangs_on_def Let_def)
  next
    case False
    have "locate_old_text env raw t = None \<longleftrightarrow> hangs_on env raw e"
      using Some False by (simp add: locate_returns hangs_on_def)
    then show ?thesis using Some False
      by (cases "locate_old_text env raw t") (auto simp: resolve_edit_def Let_def split: list.splits)
  qed
qed (simp add: resolve_edit_def hangs_on_def Let_def)

lemma resolve_edits_returns: "resolve_edits env raw ies st = None \<longleftrightarrow> (\<exists>ie \<in> set ies. hangs_on env raw (snd ie))"
proof (induction ies arbitrary: st)
  case (Cons ie ies)
  have "resolve_edit env raw ie st = None \<longleftrightarrow> hangs_on env raw (snd ie)"
    using resolve_edit_returns [of env raw "fst ie" "snd ie" st] by simp
  then show ?case using Cons by (cases "resolve_edit env raw ie st") auto
qed simp

text \<open>C10 (termination). The preflight of a call returns, unless the file is not blank and some old text of the call,
  not empty itself, is empty in match space, or is no retry, is not found, and is corrected to a text
  that is empty there.  On an empty text the search does not move, and the call never gets its answer.
  The correction alone brings that about only for an old text with a carriage return that no line feed
  follows: such a text is blank to the correction and is two lines to the match space.\<close>

theorem preflight_returns_unless_blank:
  assumes "visible_expansions (pe_beyond env)"
  shows "(resolve_old_text_edits env (Some raw) edits tr = None \<longleftrightarrow>
      normalize_for_guard_match (pe_beyond env) raw \<noteq> [] \<and>
      (\<exists>e \<in> set edits. \<exists>t. oe_old_text e = Some t \<and> t \<noteq> [] \<and>
         (normalize_for_guard_match (pe_beyond env) t = [] \<or> \<not> already_applied_retry env raw t e \<and> corrected_to_blank env raw t))) \<and>
    (\<forall>t. corrected_to_blank env raw t \<and> normalize_for_guard_match (pe_beyond env) t \<noteq> [] \<longrightarrow> CR \<in> set (normalize_lf t))"
proof (rule conjI)
  have s: "snd ` set (enumerate 0 edits) = set edits" by (metis map_snd_enumerate set_map)
  have "resolve_edits env raw (enumerate 0 edits) (empty_preflight tr) = None \<longleftrightarrow>
      (\<exists>ie \<in> set (enumerate 0 edits). hangs_on env raw (snd ie))"
    by (rule resolve_edits_returns)
  also have "\<dots> \<longleftrightarrow> (\<exists>e \<in> set edits. hangs_on env raw e)" unfolding s [symmetric] by blast
  finally show "resolve_old_text_edits env (Some raw) edits tr = None \<longleftrightarrow>
      normalize_for_guard_match (pe_beyond env) raw \<noteq> [] \<and>
      (\<exists>e \<in> set edits. \<exists>t. oe_old_text e = Some t \<and> t \<noteq> [] \<and>
         (normalize_for_guard_match (pe_beyond env) t = [] \<or> \<not> already_applied_retry env raw t e \<and> corrected_to_blank env raw t))"
    by (auto simp: resolve_old_text_edits_def hangs_on_def)
next
  show "\<forall>t. corrected_to_blank env raw t \<and> normalize_for_guard_match (pe_beyond env) t \<noteq> [] \<longrightarrow> CR \<in> set (normalize_lf t)"
    using corrected_visible [OF _ assms] by (auto simp: corrected_to_blank_def split: option.splits)
qed

definition sample_env :: preflight_env where
  "sample_env = \<lparr>pe_beyond = (\<lambda>c. ''x''), pe_sha = id, pe_key = id, pe_path = ''f'', pe_now = 0, pe_took = 0, pe_records = None\<rparr>"

definition sample_edit :: "string \<Rightarrow> old_text_edit" where
  "sample_edit t = \<lparr>oe_old_text = Some t, oe_new_text = Some ''x'', oe_original_index = None\<rparr>"

lemma preflight_returns_unless_blank_witness:
  "resolve_old_text_edits sample_env (Some ''ab'') [sample_edit ''b'', sample_edit '' ''] (fifo_new MAX_FAILURE_TRACKER_SIZE) = None"
proof -
  have v: "visible_expansions (pe_beyond sample_env)"
    by (simp add: visible_expansions_def sample_env_def collapse_def is_js_space_def)
  have "normalize_for_guard_match (pe_beyond sample_env) ''ab'' \<noteq> []" by code_simp
  moreover have "normalize_for_guard_match (pe_beyond sample_env) '' '' = []" by code_simp
  moreover have "oe_old_text (sample_edit '' '') = Some '' ''" by (simp add: sample_edit_def)
  ultimately show ?thesis
    using preflight_returns_unless_blank [OF v, of "''ab''" "[sample_edit ''b'', sample_edit '' '']" "fifo_new MAX_FAILURE_TRACKER_SIZE"]
    by (metis list.set_intros(1,2) list.distinct(1))
qed

lemma scan_from_code [code]:
  "scan_from hay needle pos =
     (if needle = [] then if length hay \<le> pos then Some [] else None else Some (occurrences_from hay needle pos))"
proof (cases "pos < length hay")
  case True
  then show ?thesis by (simp add: scan_from_empty scan_from_ne)
next
  case False
  then show ?thesis by (simp add: scan_from_ne scan_from.simps [of hay "[]" pos])
qed

text \<open>Two lone carriage returns are two empty lines in match space, and are corrected to the one empty line a file
  ends in.\<close>

lemma lone_returns_are_corrected_to_blank:
  "resolve_old_text_edits sample_env (Some (''x'' @ [LF])) [sample_edit [CR, CR]] (fifo_new MAX_FAILURE_TRACKER_SIZE) = None"
proof -
  have "corrected_to_blank sample_env (''x'' @ [LF]) [CR, CR]" by code_simp
  moreover have "normalize_for_guard_match (pe_beyond sample_env) (''x'' @ [LF]) \<noteq> []" by code_simp
  moreover have "\<not> already_applied_retry sample_env (''x'' @ [LF]) [CR, CR] (sample_edit [CR, CR])"
    by (simp add: already_applied_retry_def sample_env_def)
  ultimately have "hangs_on sample_env (''x'' @ [LF]) (sample_edit [CR, CR])" by (simp add: hangs_on_def sample_edit_def)
  then show ?thesis by (simp add: resolve_old_text_edits_def resolve_edits_returns del: resolve_edits.simps)
qed

subsection \<open>A batch that is carried\<close>

definition sample_carried :: "partial_edit list" where
  "sample_carried = [\<lparr>ae_old_text = ''ab'', ae_span_text = ''ab'', ae_new_text = Some ''x'', ae_index = 0,
     ae_snapshot = ''ab'' @ [CR, LF] @ ''cd'', ae_start = 0, ae_end = 2\<rparr>]"

lemma sample_preflight:
  "map_option (\<lambda>x. gl_partially_applicable (fst x))
     (resolve_old_text_edits sample_env (Some (''ab'' @ [CR, LF] @ ''cd'')) [sample_edit ''ab'', sample_edit ''zz''] (fifo_new MAX_FAILURE_TRACKER_SIZE))
   = Some (Some sample_carried)"
  by code_simp

lemma carried_batch_is_accepted_witness:
  "\<not> refused (fst (apply_partially_applicable_edits id id sample_thread 0 0 (sample_args\<lparr>ap_edits := sample_carried\<rparr>) sample_state))"
proof -
  obtain r tr' where r: "resolve_old_text_edits sample_env (Some (''ab'' @ [CR, LF] @ ''cd''))
      [sample_edit ''ab'', sample_edit ''zz''] (fifo_new MAX_FAILURE_TRACKER_SIZE) = Some (r, tr')"
    and c: "gl_partially_applicable r = Some (ap_edits (sample_args\<lparr>ap_edits := sample_carried\<rparr>))"
    using sample_preflight by (auto simp del: append.simps)
  have raw: "read_text (as_fs sample_state) (ap_path (sample_args\<lparr>ap_edits := sample_carried\<rparr>)) = Some (''ab'' @ [CR, LF] @ ''cd'')"
    by (simp add: sample_args_def sample_state_def read_text_def real_file_def sample_fs_def)
  show ?thesis using carried_batch_is_accepted [OF r c raw] by (simp add: sample_env_def)
qed

end
