(* ===== verification/File_Lock.thy ===== *)
theory File_Lock
  imports File_Time
begin

text \<open>
  \<^verbatim>\<open>FileTime.withLock\<close> of \<^verbatim>\<open>clients/file-time.ts\<close>.  A call waits for the promise stored under its path, looks
  again, and runs its body once no promise is stored; storing its own promise and starting the body are
  one synchronous step.  A body that settles deletes the entry in a first callback; the stored promise
  settles after it, and only then do the waiters look again.  \<^verbatim>\<open>clearAllSessions\<close> empties the table.
\<close>

datatype lock_phase =
    Awaiting nat
  | Holding
  | Let_Go
  | Over

record lock_call =
  lc_path :: path
  lc_phase :: lock_phase

record lock_table =
  lt_locks :: "(path, nat) js_map"
  lt_calls :: "lock_call list"

definition no_locks :: lock_table where
  "no_locks = \<lparr>lt_locks = [], lt_calls = []\<rparr>"

text \<open>The loop's test: wait for what is stored, or take the lock.\<close>

definition look :: "path \<Rightarrow> nat \<Rightarrow> lock_table \<Rightarrow> lock_phase \<times> (path, nat) js_map" where
  "look a i t =
     (case map_of (lt_locks t) a of
        Some holder \<Rightarrow> (Awaiting holder, lt_locks t)
      | None \<Rightarrow> (Holding, AList.update a i (lt_locks t)))"

definition with_lock :: "(path \<Rightarrow> path) \<Rightarrow> path \<Rightarrow> lock_table \<Rightarrow> lock_table" where
  "with_lock resolve p t =
     (case look (resolve p) (length (lt_calls t)) t of
        (phase, locks) \<Rightarrow> \<lparr>lt_locks = locks, lt_calls = lt_calls t @ [\<lparr>lc_path = resolve p, lc_phase = phase\<rparr>]\<rparr>)"

definition set_phase_of :: "nat \<Rightarrow> lock_phase \<Rightarrow> lock_table \<Rightarrow> lock_table" where
  "set_phase_of i ph t = t\<lparr>lt_calls := (lt_calls t)[i := (lt_calls t ! i)\<lparr>lc_phase := ph\<rparr>]\<rparr>"

text \<open>An awaited promise has settled: the call goes round its loop.\<close>

definition wake :: "nat \<Rightarrow> lock_table \<Rightarrow> lock_table" where
  "wake i t = (case look (lc_path (lt_calls t ! i)) i t of (ph, locks) \<Rightarrow> set_phase_of i ph (t\<lparr>lt_locks := locks\<rparr>))"

text \<open>The body has settled; its \<^verbatim>\<open>finally\<close> deletes whatever is stored under the path.\<close>

definition let_go :: "nat \<Rightarrow> lock_table \<Rightarrow> lock_table" where
  "let_go i t = set_phase_of i Let_Go (t\<lparr>lt_locks := AList.delete (lc_path (lt_calls t ! i)) (lt_locks t)\<rparr>)"

definition clear_locks :: "lock_table \<Rightarrow> lock_table" where
  "clear_locks t = t\<lparr>lt_locks := []\<rparr>"

inductive lock_step :: "(path \<Rightarrow> path) \<Rightarrow> bool \<Rightarrow> lock_table \<Rightarrow> lock_table \<Rightarrow> bool" for resolve clears where
  call: "lock_step resolve clears t (with_lock resolve p t)"
| body_settles: "i < length (lt_calls t) \<Longrightarrow> lc_phase (lt_calls t ! i) = Holding \<Longrightarrow> lock_step resolve clears t (let_go i t)"
| promise_settles: "i < length (lt_calls t) \<Longrightarrow> lc_phase (lt_calls t ! i) = Let_Go \<Longrightarrow>
    lock_step resolve clears t (set_phase_of i Over t)"
| waiter_wakes: "i < length (lt_calls t) \<Longrightarrow> lc_phase (lt_calls t ! i) = Awaiting j \<Longrightarrow>
    lc_phase (lt_calls t ! j) = Over \<Longrightarrow> lock_step resolve clears t (wake i t)"
| session_reset: "clears \<Longrightarrow> lock_step resolve clears t (clear_locks t)"

inductive lock_reach :: "(path \<Rightarrow> path) \<Rightarrow> bool \<Rightarrow> lock_table \<Rightarrow> bool" for resolve clears where
  start: "lock_reach resolve clears no_locks"
| step: "lock_reach resolve clears t \<Longrightarrow> lock_step resolve clears t u \<Longrightarrow> lock_reach resolve clears u"

subsection \<open>The table names the holder\<close>

definition holds_lock :: "lock_table \<Rightarrow> path \<Rightarrow> nat \<Rightarrow> bool" where
  "holds_lock t a i \<longleftrightarrow> i < length (lt_calls t) \<and> lc_path (lt_calls t ! i) = a \<and> lc_phase (lt_calls t ! i) = Holding"

definition names_holders :: "lock_table \<Rightarrow> bool" where
  "names_holders t \<longleftrightarrow> (\<forall>a i. map_of (lt_locks t) a = Some i \<longleftrightarrow> holds_lock t a i)"

text \<open>A call waits for a call of the same path that does not wait itself.\<close>

definition waits_well :: "lock_table \<Rightarrow> bool" where
  "waits_well t \<longleftrightarrow> (\<forall>i j. i < length (lt_calls t) \<longrightarrow> lc_phase (lt_calls t ! i) = Awaiting j \<longrightarrow>
     j < length (lt_calls t) \<and> lc_path (lt_calls t ! j) = lc_path (lt_calls t ! i) \<and>
     (\<forall>k. lc_phase (lt_calls t ! j) \<noteq> Awaiting k))"

definition lock_inv :: "lock_table \<Rightarrow> bool" where
  "lock_inv t \<longleftrightarrow> names_holders t \<and> waits_well t"

lemma set_phase_parts [simp]:
  "length (lt_calls (set_phase_of i ph t)) = length (lt_calls t)"
  "lt_locks (set_phase_of i ph t) = lt_locks t"
  "i < length (lt_calls t) \<Longrightarrow> lc_path (lt_calls (set_phase_of i ph t) ! j) = lc_path (lt_calls t ! j)"
  "i < length (lt_calls t) \<Longrightarrow> lc_phase (lt_calls (set_phase_of i ph t) ! j) = (if j = i then ph else lc_phase (lt_calls t ! j))"
  by (simp_all add: set_phase_of_def nth_list_update)

lemma holds_set_phase:
  "i < length (lt_calls t) \<Longrightarrow> holds_lock (set_phase_of i ph t) a k =
     (if k = i then lc_path (lt_calls t ! i) = a \<and> ph = Holding else holds_lock t a k)"
  by (simp add: holds_lock_def)

lemma holds_locks [simp]: "holds_lock (t\<lparr>lt_locks := locks\<rparr>) = holds_lock t"
  by (simp add: holds_lock_def fun_eq_iff)

lemma set_phase_locks: "(set_phase_of i ph t)\<lparr>lt_locks := locks\<rparr> = set_phase_of i ph (t\<lparr>lt_locks := locks\<rparr>)"
  by (simp add: set_phase_of_def)

lemma waits_set_phase:
  assumes w: "waits_well t" and i: "i < length (lt_calls t)"
    and ph: "\<And>j. ph = Awaiting j \<Longrightarrow> j < length (lt_calls t) \<and> lc_path (lt_calls t ! j) = lc_path (lt_calls t ! i) \<and>
      (\<forall>k. lc_phase (lt_calls t ! j) \<noteq> Awaiting k) \<and> (\<exists>k. lc_phase (lt_calls t ! i) = Awaiting k)"
  shows "waits_well (set_phase_of i ph t)"
  unfolding waits_well_def
proof (intro allI impI)
  fix k j assume k: "k < length (lt_calls (set_phase_of i ph t))" "lc_phase (lt_calls (set_phase_of i ph t) ! k) = Awaiting j"
  show "j < length (lt_calls (set_phase_of i ph t)) \<and>
      lc_path (lt_calls (set_phase_of i ph t) ! j) = lc_path (lt_calls (set_phase_of i ph t) ! k) \<and>
      (\<forall>l. lc_phase (lt_calls (set_phase_of i ph t) ! j) \<noteq> Awaiting l)"
  proof (cases "k = i")
    case True
    have pj: "ph = Awaiting j" using k(2) i True by simp
    have at: "j < length (lt_calls t)" "lc_path (lt_calls t ! j) = lc_path (lt_calls t ! i)"
      "\<forall>l. lc_phase (lt_calls t ! j) \<noteq> Awaiting l" "\<exists>l. lc_phase (lt_calls t ! i) = Awaiting l" using ph [OF pj] by auto
    then have "j \<noteq> i" by auto
    then show ?thesis using at(1-3) True i by simp
  next
    case False
    have ak: "k < length (lt_calls t)" "lc_phase (lt_calls t ! k) = Awaiting j" using k i False by simp_all
    then have old: "j < length (lt_calls t)" "lc_path (lt_calls t ! j) = lc_path (lt_calls t ! k)"
      "\<forall>l. lc_phase (lt_calls t ! j) \<noteq> Awaiting l" using w unfolding waits_well_def by blast+
    have "ph \<noteq> Awaiting l" if "j = i" for l using ph [of l] old(3) that by blast
    then show ?thesis using old i by (cases "j = i") simp_all
  qed
qed

lemma waits_locks [simp]: "waits_well (t\<lparr>lt_locks := locks\<rparr>) = waits_well t"
  by (simp add: waits_well_def)

lemma look_cases:
  assumes "names_holders t" "look a i t = (ph, locks)"
  obtains j where "holds_lock t a j" "ph = Awaiting j" "locks = lt_locks t"
  | "\<And>j. \<not> holds_lock t a j" "ph = Holding" "locks = AList.update a i (lt_locks t)"
proof (cases "map_of (lt_locks t) a")
  case None
  then have "\<And>j. \<not> holds_lock t a j" using assms(1) by (metis names_holders_def option.distinct(1))
  then show thesis using that(2) None assms(2) by (simp add: look_def)
next
  case (Some j)
  then show thesis using that(1) [of j] assms by (simp add: look_def names_holders_def)
qed

lemma inv_wake:
  assumes inv: "lock_inv t" and i: "i < length (lt_calls t)" and aw: "lc_phase (lt_calls t ! i) = Awaiting j"
  shows "lock_inv (wake i t)"
proof -
  let ?a = "lc_path (lt_calls t ! i)"
  have n: "names_holders t" and w: "waits_well t" using inv by (auto simp: lock_inv_def)
  have ni: "\<not> holds_lock t b i" for b using aw by (simp add: holds_lock_def)
  obtain ph locks where l: "look ?a i t = (ph, locks)" by fastforce
  from n l show ?thesis
  proof (cases rule: look_cases)
    case (1 k)
    have "names_holders (set_phase_of i (Awaiting k) t)"
      using n ni i by (auto simp: names_holders_def holds_set_phase)
    moreover have "waits_well (set_phase_of i (Awaiting k) t)"
      by (rule waits_set_phase [OF w i]) (use 1 aw in \<open>auto simp: holds_lock_def\<close>)
    ultimately show ?thesis using 1 l by (simp add: wake_def lock_inv_def)
  next
    case 2
    have "names_holders (set_phase_of i Holding (t\<lparr>lt_locks := locks\<rparr>))"
      unfolding names_holders_def
    proof (intro allI)
      fix b k
      show "map_of (lt_locks (set_phase_of i Holding (t\<lparr>lt_locks := locks\<rparr>))) b = Some k \<longleftrightarrow>
          holds_lock (set_phase_of i Holding (t\<lparr>lt_locks := locks\<rparr>)) b k"
        using n 2(1,3) ni i by (cases "b = ?a") (auto simp: names_holders_def holds_set_phase get_update)
    qed
    moreover have "waits_well (set_phase_of i Holding (t\<lparr>lt_locks := locks\<rparr>))"
      by (rule waits_set_phase) (use w i in simp_all)
    ultimately show ?thesis using 2 l by (simp add: wake_def lock_inv_def)
  qed
qed

lemma inv_let_go:
  assumes inv: "lock_inv t" and i: "i < length (lt_calls t)" and h: "lc_phase (lt_calls t ! i) = Holding"
  shows "lock_inv (let_go i t)"
proof -
  let ?a = "lc_path (lt_calls t ! i)"
  have n: "names_holders t" and w: "waits_well t" using inv by (auto simp: lock_inv_def)
  have hi: "holds_lock t ?a i" using i h by (simp add: holds_lock_def)
  have only: "k = i" if "holds_lock t ?a k" for k using n hi that by (metis names_holders_def option.inject)
  have elsewhere: "\<not> holds_lock t b i" if "b \<noteq> ?a" for b using that by (simp add: holds_lock_def)
  have "names_holders (let_go i t)"
    unfolding names_holders_def
  proof (intro allI)
    fix b k
    show "map_of (lt_locks (let_go i t)) b = Some k \<longleftrightarrow> holds_lock (let_go i t) b k"
      using n only elsewhere i by (cases "b = ?a") (auto simp: names_holders_def let_go_def holds_set_phase get_delete)
  qed
  moreover have "waits_well (let_go i t)"
    unfolding let_go_def by (rule waits_set_phase) (use w i in simp_all)
  ultimately show ?thesis by (simp add: lock_inv_def)
qed

lemma inv_over:
  assumes inv: "lock_inv t" and i: "i < length (lt_calls t)" and h: "lc_phase (lt_calls t ! i) = Let_Go"
  shows "lock_inv (set_phase_of i Over t)"
proof -
  have n: "names_holders t" and w: "waits_well t" using inv by (auto simp: lock_inv_def)
  have "\<not> holds_lock t b i" for b using h by (simp add: holds_lock_def)
  then have "names_holders (set_phase_of i Over t)" using n i by (auto simp: names_holders_def holds_set_phase)
  moreover have "waits_well (set_phase_of i Over t)" by (rule waits_set_phase [OF w i]) simp
  ultimately show ?thesis by (simp add: lock_inv_def)
qed

lemma holds_new_call:
  "holds_lock \<lparr>lt_locks = locks, lt_calls = lt_calls t @ [\<lparr>lc_path = a, lc_phase = ph\<rparr>]\<rparr> b k =
    (if k = length (lt_calls t) then a = b \<and> ph = Holding else holds_lock t b k)"
  by (auto simp: holds_lock_def nth_append)

lemma inv_call:
  assumes inv: "lock_inv t"
  shows "lock_inv (with_lock resolve p t)"
proof -
  let ?n = "length (lt_calls t)" and ?a = "resolve p"
  have n: "names_holders t" and w: "waits_well t" using inv by (auto simp: lock_inv_def)
  obtain ph locks where l: "look ?a ?n t = (ph, locks)" by fastforce
  let ?u = "\<lparr>lt_locks = locks, lt_calls = lt_calls t @ [\<lparr>lc_path = ?a, lc_phase = ph\<rparr>]\<rparr>"
  have u: "with_lock resolve p t = ?u" using l by (simp add: with_lock_def)
  have fresh: "\<not> holds_lock t b ?n" for b by (simp add: holds_lock_def)
  from n l have named: "names_holders ?u"
  proof (cases rule: look_cases)
    case (1 k)
    then show ?thesis using n fresh by (auto simp: names_holders_def holds_new_call)
  next
    case 2
    show ?thesis unfolding names_holders_def
    proof (intro allI)
      fix b k
      show "map_of (lt_locks ?u) b = Some k \<longleftrightarrow> holds_lock ?u b k"
        using n 2 fresh by (cases "b = ?a") (auto simp: names_holders_def holds_new_call get_update)
    qed
  qed
  moreover have "waits_well ?u"
    unfolding waits_well_def
  proof (intro allI impI)
    fix i j assume i: "i < length (lt_calls ?u)" "lc_phase (lt_calls ?u ! i) = Awaiting j"
    show "j < length (lt_calls ?u) \<and> lc_path (lt_calls ?u ! j) = lc_path (lt_calls ?u ! i) \<and> (\<forall>k. lc_phase (lt_calls ?u ! j) \<noteq> Awaiting k)"
    proof (cases "i = ?n")
      case True
      then have "ph = Awaiting j" using i by simp
      then have "holds_lock t ?a j" by (cases rule: look_cases [OF n l]) simp_all
      then show ?thesis using True by (simp add: holds_lock_def nth_append)
    next
      case False
      then have old: "i < ?n" "lc_phase (lt_calls t ! i) = Awaiting j" using i by (auto simp: nth_append)
      then have "j < ?n" "lc_path (lt_calls t ! j) = lc_path (lt_calls t ! i)" "\<forall>k. lc_phase (lt_calls t ! j) \<noteq> Awaiting k"
        using w unfolding waits_well_def by blast+
      then show ?thesis using old by (simp add: nth_append)
    qed
  qed
  ultimately show ?thesis by (simp add: u lock_inv_def)
qed

lemma reachable_lock_inv: "lock_reach resolve False t \<Longrightarrow> lock_inv t"
proof (induction rule: lock_reach.induct)
  case start
  then show ?case by (simp add: lock_inv_def names_holders_def waits_well_def no_locks_def holds_lock_def)
next
  case (step t u)
  from step.hyps(2) show ?case
    by (cases rule: lock_step.cases) (use step.IH in \<open>auto intro: inv_call inv_let_go inv_over inv_wake\<close>)
qed

lemma wake_takes_or_waits:
  assumes inv: "lock_inv t" and i: "i < length (lt_calls t)" and aw: "lc_phase (lt_calls t ! i) = Awaiting j"
  shows "holds_lock (wake i t) (lc_path (lt_calls t ! i)) i \<or>
    (\<exists>k. lc_phase (lt_calls (wake i t) ! i) = Awaiting k \<and> holds_lock (wake i t) (lc_path (lt_calls t ! i)) k)"
proof -
  let ?a = "lc_path (lt_calls t ! i)"
  have n: "names_holders t" using inv by (simp add: lock_inv_def)
  have ni: "\<not> holds_lock t b i" for b using aw by (simp add: holds_lock_def)
  obtain ph locks where l: "look ?a i t = (ph, locks)" by fastforce
  from n l show ?thesis
  proof (cases rule: look_cases)
    case (1 k)
    then have "k \<noteq> i" using ni by blast
    then have "holds_lock (wake i t) ?a k" using 1 l i by (simp add: wake_def holds_set_phase)
    moreover have "lc_phase (lt_calls (wake i t) ! i) = Awaiting k" using 1 l i by (simp add: wake_def)
    ultimately show ?thesis by blast
  next
    case 2
    then show ?thesis using l i by (simp add: wake_def holds_set_phase)
  qed
qed

text \<open>C37 (invariant). As long as no session reset empties the table, two calls never hold the lock of one file at
  once, and no turn is lost: a waiting call waits for a call of its own file that holds the lock or has
  finished, and once that call's promise has settled the waiter's next look either takes the lock or finds
  the call that holds it now.\<close>

theorem lock_is_exclusive_and_not_lost:
  assumes "lock_reach resolve False t"
  shows "(holds_lock t a i \<and> holds_lock t a j \<longrightarrow> i = j) \<and>
    (n < length (lt_calls t) \<and> lc_phase (lt_calls t ! n) = Awaiting m \<longrightarrow>
       holds_lock t (lc_path (lt_calls t ! n)) m \<or>
       lc_phase (lt_calls t ! m) = Let_Go \<or>
       lc_phase (lt_calls t ! m) = Over \<and>
         (holds_lock (wake n t) (lc_path (lt_calls t ! n)) n \<or>
          (\<exists>k. lc_phase (lt_calls (wake n t) ! n) = Awaiting k \<and> holds_lock (wake n t) (lc_path (lt_calls t ! n)) k)))"
proof -
  have inv: "names_holders t" "waits_well t" using reachable_lock_inv [OF assms] by (auto simp: lock_inv_def)
  have "i = j" if "holds_lock t a i" "holds_lock t a j" using inv(1) that by (metis names_holders_def option.inject)
  moreover have "holds_lock t (lc_path (lt_calls t ! n)) m \<or> lc_phase (lt_calls t ! m) = Let_Go \<or> lc_phase (lt_calls t ! m) = Over"
    if "n < length (lt_calls t)" "lc_phase (lt_calls t ! n) = Awaiting m"
  proof -
    have "m < length (lt_calls t)" "lc_path (lt_calls t ! m) = lc_path (lt_calls t ! n)"
      "\<forall>k. lc_phase (lt_calls t ! m) \<noteq> Awaiting k" using inv(2) that unfolding waits_well_def by blast+
    then show ?thesis by (cases "lc_phase (lt_calls t ! m)") (auto simp: holds_lock_def)
  qed
  ultimately show ?thesis using wake_takes_or_waits [OF reachable_lock_inv [OF assms]] by blast
qed

lemma lock_is_exclusive_and_not_lost_witness:
  "(\<lambda>t. lc_phase (lt_calls t ! 1) = Awaiting 0 \<and> lc_phase (lt_calls t ! 0) = Over \<and> holds_lock (wake 1 t) ''/a'' 1)
     (set_phase_of 0 Over (let_go 0 (with_lock id ''/a'' (with_lock id ''/a'' no_locks))))"
proof -
  let ?t = "set_phase_of 0 Over (let_go 0 (with_lock id ''/a'' (with_lock id ''/a'' no_locks)))"
  have r2: "lock_reach id False (with_lock id ''/a'' (with_lock id ''/a'' no_locks))"
    by (intro lock_reach.step [OF _ lock_step.call] lock_reach.start)
  have r3: "lock_reach id False (let_go 0 (with_lock id ''/a'' (with_lock id ''/a'' no_locks)))"
    by (rule lock_reach.step [OF r2 lock_step.body_settles]) code_simp+
  have "lock_reach id False ?t" by (rule lock_reach.step [OF r3 lock_step.promise_settles]) code_simp+
  note turn = conjunct2 [OF lock_is_exclusive_and_not_lost [OF this, where n = 1 and m = 0]]
  have facts: "1 < length (lt_calls ?t)" "lc_phase (lt_calls ?t ! 1) = Awaiting 0" "lc_phase (lt_calls ?t ! 0) = Over"
    "lc_path (lt_calls ?t ! 1) = ''/a''" "lc_phase (lt_calls (wake 1 ?t) ! 1) = Holding" by code_simp+
  then have "holds_lock (wake 1 ?t) ''/a'' 1" using turn by (simp add: holds_lock_def)
  then show ?thesis using facts by blast
qed

text \<open>What a session reset does while a body runs: the next call takes the lock beside it, and the first
  body's end deletes the second's entry, so that a third call enters as well.\<close>

lemma reset_breaks_exclusion:
  "\<exists>t. lock_reach id True t \<and> holds_lock t ''/a'' 1 \<and> holds_lock t ''/a'' 2 \<and> lc_phase (lt_calls t ! 0) = Let_Go"
proof -
  let ?one = "with_lock id ''/a'' no_locks"
  let ?two = "with_lock id ''/a'' (clear_locks ?one)"
  let ?t = "with_lock id ''/a'' (let_go 0 ?two)"
  have "lock_reach id True ?two"
    by (intro lock_reach.step [OF _ lock_step.call] lock_reach.step [OF _ lock_step.session_reset] lock_reach.start) simp
  then have "lock_reach id True (let_go 0 ?two)" by (rule lock_reach.step [OF _ lock_step.body_settles]) code_simp+
  then have "lock_reach id True ?t" by (rule lock_reach.step [OF _ lock_step.call])
  moreover have "holds_lock ?t ''/a'' 1" "holds_lock ?t ''/a'' 2" "lc_phase (lt_calls ?t ! 0) = Let_Go" by code_simp+
  ultimately show ?thesis by blast
qed

end
