(* ===== verification/Fact_Scheduler.thy ===== *)
theory Fact_Scheduler
  imports Text_Edits Atomic_Write "HOL-Library.Multiset"
begin

text \<open>
  \<^verbatim>\<open>clients/dispatch/fact-scheduler.ts\<close> and \<^verbatim>\<open>fact-runner.ts\<close>: the fact providers of a dispatch run in
  waves, each provider after the ones that provide what it requires.  \<open>cmp\<close> is \<^verbatim>\<open>localeCompare\<close> on the
  ids; only the order within a wave depends on it.
\<close>

subsection \<open>The graph\<close>

record fact_provider =
  fp_id :: string
  fp_provides :: "string list"
  fp_requires :: "string list"

definition fact_to_provider :: "fact_provider list \<Rightarrow> (string, fact_provider) js_map" where
  "fact_to_provider ps = foldl (\<lambda>m p. foldl (\<lambda>m k. AList.update k p m) m (fp_provides p)) [] ps"

text \<open>The ids behind one provider's requirements, each once and without itself.\<close>

definition seen_deps :: "(string, fact_provider) js_map \<Rightarrow> fact_provider \<Rightarrow> string list" where
  "seen_deps facts p =
     js_unique (filter (\<lambda>d. d \<noteq> fp_id p) (map fp_id (List.map_filter (map_of facts) (fp_requires p))))"

record schedule_graph =
  sg_degree :: "(string, int) js_map"
  sg_dependents :: "(string, string list) js_map"

definition degree_of :: "(string, int) js_map \<Rightarrow> string \<Rightarrow> int" where
  "degree_of m i = (case map_of m i of Some n \<Rightarrow> n | None \<Rightarrow> 0)"

definition dependents_of :: "(string, string list) js_map \<Rightarrow> string \<Rightarrow> string list" where
  "dependents_of m i = (case map_of m i of Some ds \<Rightarrow> ds | None \<Rightarrow> [])"

definition empty_graph :: "fact_provider list \<Rightarrow> schedule_graph" where
  "empty_graph ps =
     foldl (\<lambda>g p. g\<lparr>sg_degree := (if has_key (sg_degree g) (fp_id p) then sg_degree g
                       else AList.update (fp_id p) 0 (sg_degree g)),
                    sg_dependents := (if has_key (sg_dependents g) (fp_id p) then sg_dependents g
                       else AList.update (fp_id p) [] (sg_dependents g))\<rparr>)
       \<lparr>sg_degree = [], sg_dependents = []\<rparr> ps"

definition add_dependency :: "string \<Rightarrow> schedule_graph \<Rightarrow> string \<Rightarrow> schedule_graph" where
  "add_dependency p g d =
     (let ds = dependents_of (sg_dependents g) d
      in g\<lparr>sg_degree := AList.update p (degree_of (sg_degree g) p + 1) (sg_degree g),
           sg_dependents := AList.update d (if p \<in> set ds then ds else ds @ [p]) (sg_dependents g)\<rparr>)"

definition add_provider :: "(string, fact_provider) js_map \<Rightarrow> schedule_graph \<Rightarrow> fact_provider \<Rightarrow> schedule_graph" where
  "add_provider facts g p = foldl (add_dependency (fp_id p)) g (seen_deps facts p)"

definition schedule_graph_of :: "fact_provider list \<Rightarrow> schedule_graph" where
  "schedule_graph_of ps = foldl (add_provider (fact_to_provider ps)) (empty_graph ps) ps"

definition id_to_provider :: "fact_provider list \<Rightarrow> (string, fact_provider) js_map" where
  "id_to_provider ps = foldl (\<lambda>m p. AList.update (fp_id p) p m) [] ps"

subsection \<open>Waves\<close>

definition by_id :: "(string \<Rightarrow> string \<Rightarrow> int) \<Rightarrow> fact_provider \<Rightarrow> fact_provider \<Rightarrow> int" where
  "by_id cmp a b = cmp (fp_id a) (fp_id b)"

definition release_dependent ::
    "(string, fact_provider) js_map \<Rightarrow> fact_provider list \<times> (string, int) js_map \<Rightarrow> string
     \<Rightarrow> fact_provider list \<times> (string, int) js_map" where
  "release_dependent byid acc d =
     (case acc of (next, degree) \<Rightarrow>
        let n = degree_of degree d - 1
        in (if n = 0 then next @ [the (map_of byid d)] else next, AList.update d n degree))"

definition run_wave ::
    "(string, fact_provider) js_map \<Rightarrow> (string, string list) js_map \<Rightarrow> fact_provider list \<Rightarrow> (string, int) js_map
     \<Rightarrow> fact_provider list \<times> (string, int) js_map" where
  "run_wave byid dependents wave degree =
     foldl (\<lambda>acc p. foldl (release_dependent byid) acc (dependents_of dependents (fp_id p))) ([], degree) wave"

text \<open>How many ids still wait.  Each member of a next wave has just stopped waiting, so the waves end.\<close>

definition waiting :: "(string, int) js_map \<Rightarrow> nat" where
  "waiting degree = card {i \<in> set (keys_of degree). 0 < degree_of degree i}"

lemma degree_update [simp]: "degree_of (AList.update i n m) j = (if j = i then n else degree_of m j)"
  by (simp add: degree_of_def get_update)

lemma waiting_update:
  "waiting (AList.update d (degree_of m d - 1) m) + (if degree_of m d - 1 = 0 then 1 else 0) \<le> waiting m"
proof -
  let ?A = "{i \<in> set (keys_of m). 0 < degree_of m i}"
    and ?B = "{i \<in> set (keys_of (AList.update d (degree_of m d - 1) m)). 0 < degree_of (AList.update d (degree_of m d - 1) m) i}"
  have key: "d \<in> set (keys_of m)" if "0 < degree_of m d"
  proof (rule ccontr)
    assume "d \<notin> set (keys_of m)"
    then have "map_of m d = None" by (simp add: map_of_eq_None_iff)
    then show False using that by (simp add: degree_of_def)
  qed
  have sub: "?B \<subseteq> ?A" using key by (auto simp: keys_update split: if_splits)
  show ?thesis
  proof (cases "degree_of m d - 1 = 0")
    case True
    then have "?B \<subset> ?A" using sub key by auto
    then show ?thesis using True psubset_card_mono [of ?A ?B] by (simp add: waiting_def)
  next
    case False
    then show ?thesis using card_mono [OF _ sub] by (simp add: waiting_def)
  qed
qed

lemma release_waiting:
  "length (fst (release_dependent byid acc d)) + waiting (snd (release_dependent byid acc d))
     \<le> length (fst acc) + waiting (snd acc)"
  using waiting_update [of d "snd acc"] by (auto simp: release_dependent_def Let_def split: prod.splits)

lemma foldl_shrinks:
  "(\<And>acc x. (m :: 'a \<Rightarrow> nat) (f acc x) \<le> m acc) \<Longrightarrow> m (foldl f acc xs) \<le> m acc"
  by (induction xs arbitrary: acc) (auto intro: order_trans)

lemma run_wave_waiting:
  "length (fst (run_wave byid ds wave degree)) + waiting (snd (run_wave byid ds wave degree)) \<le> waiting degree"
proof -
  let ?m = "\<lambda>acc :: fact_provider list \<times> (string, int) js_map. length (fst acc) + waiting (snd acc)"
  have "?m (run_wave byid ds wave degree) \<le> ?m ([], degree)"
    unfolding run_wave_def by (intro foldl_shrinks release_waiting)
  then show ?thesis by simp
qed

lemma length_sort_by [simp]: "length (sort_by cmp xs) = length xs"
proof -
  have "length (insert_by cmp x ys) = Suc (length ys)" for x ys by (induction ys) auto
  then show ?thesis by (induction xs) (simp_all add: sort_by_def)
qed

function wave_loop ::
    "(string \<Rightarrow> string \<Rightarrow> int) \<Rightarrow> (string, fact_provider) js_map \<Rightarrow> (string, string list) js_map \<Rightarrow> fact_provider list
     \<Rightarrow> (string, int) js_map \<Rightarrow> fact_provider list \<Rightarrow> fact_provider list" where
  "wave_loop cmp byid dependents wave degree result =
     (if wave = [] then result
      else
        let (next, degree') = run_wave byid dependents wave degree
        in wave_loop cmp byid dependents (sort_by (by_id cmp) next) degree' (result @ wave))"
  by pat_completeness auto
termination
proof (relation "measure (\<lambda>(cmp, byid, ds, wave, degree, result). waiting degree + min 1 (length wave))", simp, goal_cases)
  case (1 cmp byid ds wave degree result acc after degree')
  then have "run_wave byid ds wave degree = (after, degree')" by simp
  then show ?case using 1 run_wave_waiting [of byid ds wave degree] by (cases after; cases wave) auto
qed

declare wave_loop.simps [simp del]

definition schedule_providers ::
    "(string \<Rightarrow> string \<Rightarrow> int) \<Rightarrow> fact_provider list \<Rightarrow> string list + fact_provider list" where
  "schedule_providers cmp ps =
     (if length ps \<le> 1 then Inr ps
      else
        let g = schedule_graph_of ps;
            first = sort_by (by_id cmp) (filter (\<lambda>p. degree_of (sg_degree g) (fp_id p) = 0) ps);
            result = wave_loop cmp (id_to_provider ps) (sg_dependents g) first (sg_degree g) []
        in if length result < length ps
           then Inl (sort_by cmp (map fp_id (filter (\<lambda>p. p \<notin> set result) ps)))
           else Inr result)"

text \<open>\<^verbatim>\<open>runProviders\<close>: the applicable providers in order, without those whose facts are all there.\<close>

definition run_one :: "('s \<Rightarrow> string \<Rightarrow> bool) \<Rightarrow> (fact_provider \<Rightarrow> 's \<Rightarrow> 's) \<Rightarrow> 's \<Rightarrow> fact_provider \<Rightarrow> 's" where
  "run_one has_fact run s p = (if list_all (has_fact s) (fp_provides p) then s else run p s)"

definition run_providers ::
    "(string \<Rightarrow> string \<Rightarrow> int) \<Rightarrow> (fact_provider \<Rightarrow> bool) \<Rightarrow> ('s \<Rightarrow> string \<Rightarrow> bool) \<Rightarrow> (fact_provider \<Rightarrow> 's \<Rightarrow> 's)
     \<Rightarrow> fact_provider list \<Rightarrow> 's \<Rightarrow> string list + 's" where
  "run_providers cmp applies has_fact run ps s =
     (case schedule_providers cmp (filter applies ps) of
        Inl cycle \<Rightarrow> Inl cycle
      | Inr ordered \<Rightarrow> Inr (foldl (run_one has_fact run) s ordered))"

subsection \<open>What the graph holds\<close>

lemma facts_from:
  assumes "map_of (fact_to_provider ps) k = Some q"
  shows "q \<in> set ps \<and> k \<in> set (fp_provides q)"
proof -
  have inner: "map_of (foldl (\<lambda>m k. AList.update k p m) m ks) k = Some q \<Longrightarrow> (q = p \<and> k \<in> set ks) \<or> map_of m k = Some q"
    for m ks and p q :: fact_provider
    by (induction ks arbitrary: m) (fastforce simp: get_update split: if_splits)+
  have "map_of (foldl (\<lambda>m p. foldl (\<lambda>m k. AList.update k p m) m (fp_provides p)) m ps) k = Some q \<Longrightarrow>
      (q \<in> set ps \<and> k \<in> set (fp_provides q)) \<or> map_of m k = Some q" for m
  proof (induction ps arbitrary: m)
    case (Cons p ps)
    from Cons.IH [OF Cons.prems [simplified]] show ?case using inner by auto
  qed simp
  from this [of "[]"] show ?thesis using assms by (simp add: fact_to_provider_def)
qed

lemma by_id_get: "distinct (map fp_id ps) \<Longrightarrow> p \<in> set ps \<Longrightarrow> map_of (id_to_provider ps) (fp_id p) = Some p"
proof (induction ps rule: rev_induct)
  case (snoc q ps)
  then have "fp_id p = fp_id q \<Longrightarrow> p = q" by (auto simp: image_iff)
  then show ?case using snoc by (auto simp: id_to_provider_def get_update)
qed simp

lemma set_seen_deps:
  "set (seen_deps facts p) = {fp_id q |q k. k \<in> set (fp_requires p) \<and> map_of facts k = Some q \<and> fp_id q \<noteq> fp_id p}"
  by (auto simp: seen_deps_def set_js_unique map_filter_def image_iff) (metis option.sel option.distinct(1))+

lemma distinct_seen_deps [simp]: "distinct (seen_deps facts p)"
  by (simp add: seen_deps_def distinct_js_unique)

lemma empty_graph_parts [simp]:
  "degree_of (sg_degree (empty_graph ps)) i = 0" "dependents_of (sg_dependents (empty_graph ps)) i = []"
proof -
  have "degree_of (sg_degree (empty_graph ps)) i = 0 \<and> dependents_of (sg_dependents (empty_graph ps)) i = []"
    by (induction ps rule: rev_induct) (auto simp: empty_graph_def degree_of_def dependents_of_def get_update)
  then show "degree_of (sg_degree (empty_graph ps)) i = 0" "dependents_of (sg_dependents (empty_graph ps)) i = []" by blast+
qed

lemma dependents_update [simp]: "dependents_of (AList.update i n m) j = (if j = i then n else dependents_of m j)"
  by (simp add: dependents_of_def get_update)

lemma add_dependencies:
  "distinct ds \<Longrightarrow>
   degree_of (sg_degree (foldl (add_dependency i) g ds)) j = degree_of (sg_degree g) j + (if j = i then int (length ds) else 0) \<and>
   dependents_of (sg_dependents (foldl (add_dependency i) g ds)) d =
     (if d \<in> set ds \<and> i \<notin> set (dependents_of (sg_dependents g) d) then dependents_of (sg_dependents g) d @ [i]
      else dependents_of (sg_dependents g) d)"
proof (induction ds arbitrary: j d rule: rev_induct)
  case (snoc x ds)
  then show ?case by (auto simp: add_dependency_def Let_def)
qed simp

lemma graph_prefix:
  assumes "distinct (map fp_id xs)"
  shows "degree_of (sg_degree (foldl (add_provider facts) (empty_graph ps) xs)) i =
      (case map_of (map (\<lambda>p. (fp_id p, p)) xs) i of Some p \<Rightarrow> int (length (seen_deps facts p)) | None \<Rightarrow> 0) \<and>
    dependents_of (sg_dependents (foldl (add_provider facts) (empty_graph ps) xs)) d =
      map fp_id (filter (\<lambda>p. d \<in> set (seen_deps facts p)) xs)"
  using assms
proof (induction xs arbitrary: i d rule: rev_induct)
  case (snoc p xs)
  then have new: "fp_id p \<notin> set (map fp_id xs)" and xs: "distinct (map fp_id xs)" by auto
  let ?g = "foldl (add_provider facts) (empty_graph ps) xs"
  have eq: "foldl (add_provider facts) (empty_graph ps) (xs @ [p]) = foldl (add_dependency (fp_id p)) ?g (seen_deps facts p)"
    unfolding foldl_append foldl_Cons foldl_Nil by (rule add_provider_def)
  have none: "map_of (map (\<lambda>p. (fp_id p, p)) xs) (fp_id p) = None"
    using new by (auto simp: map_of_eq_None_iff)
  have step1: "degree_of (sg_degree (foldl (add_dependency (fp_id p)) ?g (seen_deps facts p))) i =
      degree_of (sg_degree ?g) i + (if i = fp_id p then int (length (seen_deps facts p)) else 0)"
    using add_dependencies [OF distinct_seen_deps] by blast
  have IH1: "degree_of (sg_degree ?g) i =
      (case map_of (map (\<lambda>p. (fp_id p, p)) xs) i of Some p \<Rightarrow> int (length (seen_deps facts p)) | None \<Rightarrow> 0)"
    and IH2: "dependents_of (sg_dependents ?g) d = map fp_id (filter (\<lambda>p. d \<in> set (seen_deps facts p)) xs)"
    using snoc.IH [OF xs] by blast+
  have "fp_id p \<notin> set (dependents_of (sg_dependents ?g) d)" unfolding IH2 using new by auto
  then have step2: "dependents_of (sg_dependents (foldl (add_dependency (fp_id p)) ?g (seen_deps facts p))) d =
      (if d \<in> set (seen_deps facts p) then dependents_of (sg_dependents ?g) d @ [fp_id p] else dependents_of (sg_dependents ?g) d)"
    using add_dependencies [OF distinct_seen_deps] by simp
  show ?case unfolding eq step1 step2 unfolding IH1 IH2 using none
    by (auto simp: map_add_def split: option.splits)
qed simp

end
