(* ===== verification/Fact_Scheduler_Order.thy ===== *)
theory Fact_Scheduler_Order
  imports Fact_Scheduler
begin

text \<open>
  The schedule is a topological order of the providers, or the requirements have a cycle.
\<close>

definition deps_in :: "fact_provider list \<Rightarrow> fact_provider \<Rightarrow> string set" where
  "deps_in ps p = set (seen_deps (fact_to_provider ps) p)"

lemma finite_deps [simp]: "finite (deps_in ps p)"
  by (simp add: deps_in_def)

lemma deps_are_ids: "d \<in> deps_in ps p \<Longrightarrow> \<exists>q \<in> set ps. fp_id q = d"
  using facts_from by (fastforce simp: deps_in_def set_seen_deps)

lemma graph_degree:
  assumes "distinct (map fp_id ps)" "p \<in> set ps"
  shows "degree_of (sg_degree (schedule_graph_of ps)) (fp_id p) = int (card (deps_in ps p))"
proof -
  have "map_of (map (\<lambda>p. (fp_id p, p)) ps) (fp_id p) = Some p"
    using assms by (simp add: map_of_eq_Some_iff comp_def)
  then have "degree_of (sg_degree (schedule_graph_of ps)) (fp_id p) = int (length (seen_deps (fact_to_provider ps) p))"
    using graph_prefix [OF assms(1), of "fact_to_provider ps" ps "fp_id p"] by (simp add: schedule_graph_of_def)
  then show ?thesis by (simp add: deps_in_def distinct_card)
qed

lemma graph_dependents:
  assumes "distinct (map fp_id ps)"
  shows "dependents_of (sg_dependents (schedule_graph_of ps)) d = map fp_id (filter (\<lambda>p. d \<in> deps_in ps p) ps)"
  using graph_prefix [OF assms, of "fact_to_provider ps" ps] by (simp add: schedule_graph_of_def deps_in_def)

subsection \<open>One provider of a wave\<close>

lemma release_all:
  "distinct ds \<Longrightarrow>
   foldl (release_dependent byid) (nxt, degree) ds = (nxt', degree') \<Longrightarrow>
   (\<forall>j. degree_of degree' j = degree_of degree j - (if j \<in> set ds then 1 else 0)) \<and>
   nxt' = nxt @ map (\<lambda>d. the (map_of byid d)) (filter (\<lambda>d. degree_of degree d = 1) ds)"
proof (induction ds arbitrary: nxt' degree' rule: rev_induct)
  case (snoc d ds)
  obtain n1 d1 where f: "foldl (release_dependent byid) (nxt, degree) ds = (n1, d1)" by fastforce
  have IH: "\<forall>j. degree_of d1 j = degree_of degree j - (if j \<in> set ds then 1 else 0)"
    "n1 = nxt @ map (\<lambda>d. the (map_of byid d)) (filter (\<lambda>d. degree_of degree d = 1) ds)"
    using snoc.IH [OF _ f] snoc.prems(1) by auto
  have d: "degree_of d1 d = degree_of degree d" using IH(1) snoc.prems(1) by simp
  have "nxt' = (if degree_of degree d - 1 = 0 then n1 @ [the (map_of byid d)] else n1)"
    "degree' = AList.update d (degree_of degree d - 1) d1"
    using snoc.prems(2) d unfolding foldl_append foldl_Cons foldl_Nil f by (simp_all add: release_dependent_def Let_def)
  then show ?case using IH snoc.prems(1) by auto
qed simp

text \<open>Between two providers: what is ordered, what is pending, and the degrees that remain.\<close>

definition ordered :: "fact_provider list \<Rightarrow> fact_provider list \<Rightarrow> bool" where
  "ordered ps res \<longleftrightarrow> (\<forall>a p b. res = a @ p # b \<longrightarrow> deps_in ps p \<subseteq> fp_id ` set a)"

definition scheduled :: "fact_provider list \<Rightarrow> fact_provider list \<Rightarrow> fact_provider list \<Rightarrow> (string, int) js_map \<Rightarrow> bool" where
  "scheduled ps res pend degree \<longleftrightarrow>
     distinct (res @ pend) \<and> set (res @ pend) \<subseteq> set ps \<and> ordered ps res \<and>
     (\<forall>p \<in> set ps. degree_of degree (fp_id p) = int (card (deps_in ps p - fp_id ` set res))) \<and>
     (\<forall>p \<in> set ps. degree_of degree (fp_id p) = 0 \<longleftrightarrow> p \<in> set (res @ pend))"

lemma ordered_snoc: "ordered ps res \<Longrightarrow> deps_in ps p \<subseteq> fp_id ` set res \<Longrightarrow> ordered ps (res @ [p])"
  unfolding ordered_def
proof (intro allI impI)
  fix a q b
  assume o: "\<forall>a p b. res = a @ p # b \<longrightarrow> deps_in ps p \<subseteq> fp_id ` set a" and d: "deps_in ps p \<subseteq> fp_id ` set res"
    and eq: "res @ [p] = a @ q # b"
  show "deps_in ps q \<subseteq> fp_id ` set a"
  proof (cases b rule: rev_cases)
    case Nil
    then show ?thesis using eq d by simp
  next
    case (snoc b' x)
    then have "res = a @ q # b'" using eq by simp
    then show ?thesis using o by blast
  qed
qed

lemma scheduled_step:
  assumes ids: "distinct (map fp_id ps)" and s: "scheduled ps res (p # w @ nxt) degree"
    and run: "foldl (release_dependent (id_to_provider ps)) (nxt, degree)
      (dependents_of (sg_dependents (schedule_graph_of ps)) (fp_id p)) = (nxt', degree')"
  shows "scheduled ps (res @ [p]) (w @ nxt') degree'"
proof -
  let ?dep = "\<lambda>q. fp_id p \<in> deps_in ps q"
  have inj: "inj_on fp_id (set ps)" using ids by (simp add: distinct_map)
  have p: "p \<in> set ps" "p \<notin> set res" "set res \<subseteq> set ps" using s by (auto simp: scheduled_def)
  have pid: "fp_id p \<notin> fp_id ` set res" using p inj by (auto dest: inj_onD)
  have ds: "distinct (map fp_id (filter ?dep ps))" using ids by (simp add: distinct_map inj_on_def)
  have deg: "degree_of degree' j = degree_of degree j - (if j \<in> fp_id ` {q \<in> set ps. ?dep q} then 1 else 0)" for j
    using release_all [OF ds run [unfolded graph_dependents [OF ids]]] by simp
  have nxt': "nxt' = nxt @ filter (\<lambda>q. ?dep q \<and> degree_of degree (fp_id q) = 1) ps"
  proof -
    have "map (\<lambda>d. the (map_of (id_to_provider ps) d)) (filter (\<lambda>d. degree_of degree d = 1) (map fp_id (filter ?dep ps)))
        = filter (\<lambda>q. ?dep q \<and> degree_of degree (fp_id q) = 1) ps"
      using by_id_get [OF ids] by (auto simp: filter_map comp_def conj_commute intro!: map_idI)
    then show ?thesis using release_all [OF ds run [unfolded graph_dependents [OF ids]]] by simp
  qed
  have old: "degree_of degree (fp_id q) = int (card (deps_in ps q - fp_id ` set res))"
    "degree_of degree (fp_id q) = 0 \<longleftrightarrow> q \<in> set (res @ p # w @ nxt)" if "q \<in> set ps" for q
    using s that unfolding scheduled_def by blast+
  have degq: "degree_of degree' (fp_id q) = degree_of degree (fp_id q) - (if ?dep q then 1 else 0)" if "q \<in> set ps" for q
    using deg [of "fp_id q"] inj that by (auto dest: inj_onD)
  have new: "degree_of degree' (fp_id q) = int (card (deps_in ps q - fp_id ` set (res @ [p])))" if q: "q \<in> set ps" for q
  proof (cases "?dep q")
    case True
    have "deps_in ps q - fp_id ` set (res @ [p]) = (deps_in ps q - fp_id ` set res) - {fp_id p}" by auto
    moreover have "fp_id p \<in> deps_in ps q - fp_id ` set res" using True pid by simp
    ultimately have "Suc (card (deps_in ps q - fp_id ` set (res @ [p]))) = card (deps_in ps q - fp_id ` set res)"
      by (metis card_Suc_Diff1 finite_Diff finite_deps)
    then show ?thesis using degq [OF q] old(1) [OF q] True by simp
  next
    case False
    then have "deps_in ps q - fp_id ` set (res @ [p]) = deps_in ps q - fp_id ` set res" by auto
    then show ?thesis using degq [OF q] old(1) [OF q] False by simp
  qed
  have waits: "degree_of degree (fp_id q) \<noteq> 0" if "q \<in> set ps" "?dep q" for q
    using old(1) [OF that(1)] that(2) pid by auto
  have zero: "degree_of degree' (fp_id q) = 0 \<longleftrightarrow> q \<in> set (res @ [p] @ w @ nxt')" if q: "q \<in> set ps" for q
    using degq [OF q] old(2) [OF q] waits [OF q] q by (auto simp: nxt')
  have "distinct (res @ [p] @ w @ nxt')"
  proof -
    have "q \<notin> set (res @ p # w @ nxt)" if "q \<in> set ps" "degree_of degree (fp_id q) = 1" for q
      using old(2) [OF that(1)] that(2) by simp
    moreover have "distinct ps" using ids by (simp add: distinct_map)
    ultimately show ?thesis using s by (auto simp: nxt' scheduled_def)
  qed
  moreover have "deps_in ps p \<subseteq> fp_id ` set res"
    using old [OF p(1)] by auto
  then have "ordered ps (res @ [p])" using s ordered_snoc by (auto simp: scheduled_def)
  moreover have "set (res @ [p] @ w @ nxt') \<subseteq> set ps" using s by (auto simp: nxt' scheduled_def)
  ultimately show ?thesis using new zero by (simp add: scheduled_def)
qed

lemma scheduled_wave:
  assumes ids: "distinct (map fp_id ps)"
  shows "scheduled ps res (wave @ nxt) degree \<Longrightarrow>
    foldl (\<lambda>acc p. foldl (release_dependent (id_to_provider ps)) acc
        (dependents_of (sg_dependents (schedule_graph_of ps)) (fp_id p))) (nxt, degree) wave = (nxt', degree') \<Longrightarrow>
    scheduled ps (res @ wave) nxt' degree'"
proof (induction wave arbitrary: res nxt degree)
  case (Cons p wave)
  obtain n1 d1 where f: "foldl (release_dependent (id_to_provider ps)) (nxt, degree)
      (dependents_of (sg_dependents (schedule_graph_of ps)) (fp_id p)) = (n1, d1)" by fastforce
  have "scheduled ps (res @ [p]) (wave @ n1) d1"
    by (rule scheduled_step [OF ids _ f]) (use Cons.prems(1) in simp)
  from Cons.IH [OF this] show ?case using Cons.prems(2) f by simp
qed simp

lemma mset_sort_by: "mset (sort_by cmp xs) = mset xs"
proof -
  have "mset (insert_by cmp x ys) = add_mset x (mset ys)" for x ys by (induction ys) auto
  then show ?thesis by (induction xs) (simp_all add: sort_by_def)
qed

lemma scheduled_pending: "mset pend = mset pend' \<Longrightarrow> scheduled ps res pend degree = scheduled ps res pend' degree"
  using mset_eq_imp_distinct_iff [of pend pend'] mset_eq_setD [of pend pend'] by (simp add: scheduled_def)

lemma scheduled_loop:
  assumes ids: "distinct (map fp_id ps)"
  shows "scheduled ps res wave degree \<Longrightarrow>
    \<exists>degree'. scheduled ps (wave_loop cmp (id_to_provider ps) (sg_dependents (schedule_graph_of ps)) wave degree res) [] degree'"
proof (induction cmp "id_to_provider ps" "sg_dependents (schedule_graph_of ps)" wave degree res rule: wave_loop.induct)
  case (1 cmp wave degree res)
  show ?case
  proof (cases "wave = []")
    case True
    then show ?thesis using "1.prems" by (subst wave_loop.simps) auto
  next
    case False
    obtain nxt degree' where r: "run_wave (id_to_provider ps) (sg_dependents (schedule_graph_of ps)) wave degree = (nxt, degree')"
      by fastforce
    have "scheduled ps (res @ wave) nxt degree'"
      by (rule scheduled_wave [OF ids, where nxt = "[]"]) (use "1.prems" r in \<open>simp_all add: run_wave_def\<close>)
    then have "scheduled ps (res @ wave) (sort_by (by_id cmp) nxt) degree'"
      using scheduled_pending [OF mset_sort_by] by blast
    from "1.hyps" [OF False r [symmetric] refl this] show ?thesis
      using False r by (subst wave_loop.simps) simp
  qed
qed

subsection \<open>The schedule\<close>

text \<open>\<open>precedes r q p\<close>: in the list \<open>r\<close>, \<open>q\<close> stands before \<open>p\<close>.\<close>

definition precedes :: "'a list \<Rightarrow> 'a \<Rightarrow> 'a \<Rightarrow> bool" where
  "precedes r q p \<longleftrightarrow> (\<exists>a b c. r = a @ q # b @ p # c)"

text \<open>A required fact stands for the last provider of it in the list; a provider does not wait for itself.\<close>

definition providers_of :: "fact_provider list \<Rightarrow> string \<Rightarrow> fact_provider list" where
  "providers_of ps k = filter (\<lambda>q. k \<in> set (fp_provides q)) ps"

definition provides_for :: "fact_provider list \<Rightarrow> (fact_provider \<times> fact_provider) set" where
  "provides_for ps =
     {(q, p). p \<in> set ps \<and> q \<noteq> p \<and>
        (\<exists>k \<in> set (fp_requires p). providers_of ps k \<noteq> [] \<and> q = last (providers_of ps k))}"

lemma last_provider_wins:
  "map_of (fact_to_provider ps) k = (if providers_of ps k = [] then None else Some (last (providers_of ps k)))"
proof (induction ps rule: rev_induct)
  case (snoc p ps)
  have inner: "map_of (foldl (\<lambda>m k. AList.update k p m) m ks) k = (if k \<in> set ks then Some p else map_of m k)" for m ks
    by (induction ks arbitrary: m) (auto simp: get_update)
  have "fact_to_provider (ps @ [p]) = foldl (\<lambda>m k. AList.update k p m) (fact_to_provider ps) (fp_provides p)"
    by (simp add: fact_to_provider_def)
  then show ?case using snoc inner by (simp add: providers_of_def)
qed (simp add: fact_to_provider_def providers_of_def)

lemma provides_for_map:
  "provides_for ps = {(q, p). p \<in> set ps \<and> q \<noteq> p \<and> (\<exists>k \<in> set (fp_requires p). map_of (fact_to_provider ps) k = Some q)}"
  by (auto simp: provides_for_def last_provider_wins)

text \<open>No fact has two providers: then every provider but itself of what one requires comes first.\<close>

definition one_provider_each :: "fact_provider list \<Rightarrow> bool" where
  "one_provider_each ps \<longleftrightarrow> (\<forall>q \<in> set ps. \<forall>r \<in> set ps. \<forall>k. k \<in> set (fp_provides q) \<and> k \<in> set (fp_provides r) \<longrightarrow> q = r)"

lemma provides_for_all:
  assumes "one_provider_each ps"
  shows "provides_for ps =
    {(q, p). q \<in> set ps \<and> p \<in> set ps \<and> q \<noteq> p \<and> set (fp_provides q) \<inter> set (fp_requires p) \<noteq> {}}"
proof -
  have "providers_of ps k \<noteq> [] \<and> q = last (providers_of ps k) \<longleftrightarrow> q \<in> set ps \<and> k \<in> set (fp_provides q)" for q k
  proof
    assume l: "providers_of ps k \<noteq> [] \<and> q = last (providers_of ps k)"
    then have "q \<in> set (providers_of ps k)" by simp
    then show "q \<in> set ps \<and> k \<in> set (fp_provides q)" by (simp add: providers_of_def)
  next
    assume q: "q \<in> set ps \<and> k \<in> set (fp_provides q)"
    then have ne: "providers_of ps k \<noteq> []" by (auto simp: providers_of_def filter_empty_conv)
    then have "last (providers_of ps k) \<in> set (providers_of ps k)" by simp
    then have "last (providers_of ps k) \<in> set ps \<and> k \<in> set (fp_provides (last (providers_of ps k)))"
      by (simp add: providers_of_def)
    then show "providers_of ps k \<noteq> [] \<and> q = last (providers_of ps k)" using assms q ne unfolding one_provider_each_def by blast
  qed
  then show ?thesis unfolding provides_for_def by blast
qed

lemma provides_for_iff:
  assumes "distinct (map fp_id ps)" "p \<in> set ps"
  shows "(q, p) \<in> provides_for ps \<longleftrightarrow> q \<in> set ps \<and> fp_id q \<in> deps_in ps p"
proof -
  have inj: "q = r" if "q \<in> set ps" "r \<in> set ps" "fp_id q = fp_id r" for q r
    using that assms(1) by (auto simp: distinct_map dest: inj_onD)
  show ?thesis
  proof
    assume "(q, p) \<in> provides_for ps"
    then obtain k where k: "k \<in> set (fp_requires p)" "map_of (fact_to_provider ps) k = Some q" "q \<noteq> p"
      by (auto simp: provides_for_map)
    have "q \<in> set ps" using facts_from [OF k(2)] by blast
    then have "fp_id q \<noteq> fp_id p" using inj assms(2) k(3) by blast
    then show "q \<in> set ps \<and> fp_id q \<in> deps_in ps p" using k \<open>q \<in> set ps\<close> by (auto simp: deps_in_def set_seen_deps)
  next
    assume q: "q \<in> set ps \<and> fp_id q \<in> deps_in ps p"
    then obtain q' k where k: "fp_id q = fp_id q'" "k \<in> set (fp_requires p)" "map_of (fact_to_provider ps) k = Some q'"
      "fp_id q' \<noteq> fp_id p" by (auto simp: deps_in_def set_seen_deps)
    have "q = q'" using inj q k(1) facts_from [OF k(3)] by blast
    then show "(q, p) \<in> provides_for ps" using k assms(2) by (auto simp: provides_for_map)
  qed
qed

lemma ordered_precedes:
  assumes ids: "distinct (map fp_id ps)" and o: "ordered ps r" and sub: "set r \<subseteq> set ps"
    and p: "p \<in> set r" and qp: "(q, p) \<in> provides_for ps"
  shows "precedes r q p"
proof -
  obtain a b where r: "r = a @ p # b" using p by (meson split_list)
  have "p \<in> set ps" using p sub by blast
  then have ps: "q \<in> set ps" "fp_id q \<in> deps_in ps p" using provides_for_iff [OF ids, of p q] qp by blast+
  have "deps_in ps p \<subseteq> fp_id ` set a" using o r unfolding ordered_def by blast
  then have "fp_id q \<in> fp_id ` set a" using ps(2) by blast
  then obtain q' where q': "q' \<in> set a" "fp_id q' = fp_id q" by force
  have "inj_on fp_id (set ps)" "q' \<in> set ps" using ids sub r q'(1) by (auto simp: distinct_map)
  then have "q' = q" using q'(2) ps(1) by (meson inj_onD)
  then obtain a1 a2 where "a = a1 @ q # a2" using q'(1) by (meson split_list)
  then show ?thesis using r by (auto simp: precedes_def)
qed

lemma precedes_earlier:
  assumes "distinct r" "precedes r q p"
  shows "length (takeWhile (\<lambda>x. x \<noteq> q) r) < length (takeWhile (\<lambda>x. x \<noteq> p) r)"
proof -
  obtain a b c where r: "r = a @ q # b @ p # c" using assms(2) by (auto simp: precedes_def)
  have q: "q \<notin> set a" and p: "p \<notin> set a" "p \<noteq> q" "p \<notin> set b" using assms(1) unfolding r by auto
  have "takeWhile (\<lambda>x. x \<noteq> q) r = a @ takeWhile (\<lambda>x. x \<noteq> q) (q # b @ p # c)"
    unfolding r by (rule takeWhile_append2) (use q in blast)
  moreover have "takeWhile (\<lambda>x. x \<noteq> p) ((a @ q # b) @ p # c) = (a @ q # b) @ takeWhile (\<lambda>x. x \<noteq> p) (p # c)"
    by (rule takeWhile_append2) (use p in auto)
  ultimately show ?thesis unfolding r by simp
qed

lemma precedes_acyclic:
  assumes "distinct r" "\<And>q p. (q, p) \<in> R \<Longrightarrow> precedes r q p"
  shows "acyclic R"
proof -
  have "R \<subseteq> inv_image less_than (\<lambda>p. length (takeWhile (\<lambda>x. x \<noteq> p) r))"
    using precedes_earlier [OF assms(1)] assms(2) by auto
  then have "wf R" using wf_subset wf_inv_image wf_less_than by blast
  then show ?thesis by (rule wf_acyclic)
qed

lemma schedule_cases:
  assumes ids: "distinct (map fp_id ps)"
  obtains r degree where "scheduled ps r [] degree"
    "schedule_providers cmp ps = (if length r < length ps
       then Inl (sort_by cmp (map fp_id (filter (\<lambda>p. p \<notin> set r) ps))) else Inr r)"
proof -
  let ?g = "schedule_graph_of ps"
  let ?first = "sort_by (by_id cmp) (filter (\<lambda>p. degree_of (sg_degree ?g) (fp_id p) = 0) ps)"
  have "distinct ps" using ids by (simp add: distinct_map)
  then have "scheduled ps [] (filter (\<lambda>p. degree_of (sg_degree ?g) (fp_id p) = 0) ps) (sg_degree ?g)"
    by (auto simp: scheduled_def ordered_def graph_degree [OF ids])
  then have "scheduled ps [] ?first (sg_degree ?g)" using scheduled_pending [OF mset_sort_by] by blast
  then obtain degree where s: "scheduled ps (wave_loop cmp (id_to_provider ps) (sg_dependents ?g) ?first (sg_degree ?g) []) [] degree"
    using scheduled_loop [OF ids] by blast
  show thesis
  proof (cases "length ps \<le> 1")
    case False
    then show thesis using that [OF s] by (simp add: schedule_providers_def Let_def)
  next
    case True
    have "scheduled ps ps [] (sg_degree ?g)"
    proof (cases ps)
      case (Cons p qs)
      then have ps: "ps = [p]" using True by simp
      have "deps_in ps p = {}"
        using facts_from [of "[p]"] by (fastforce simp: ps deps_in_def set_seen_deps)
      then show ?thesis using graph_degree [OF ids] by (auto simp: ps scheduled_def ordered_def Cons_eq_append_conv)
    qed (simp add: scheduled_def ordered_def)
    then show thesis using that [of ps] True by (simp add: schedule_providers_def)
  qed
qed

lemma leftover_cycle:
  assumes ids: "distinct (map fp_id ps)" and s: "scheduled ps r [] degree" and short: "length r < length ps"
  shows "\<not> acyclic (provides_for ps)"
proof
  assume ac: "acyclic (provides_for ps)"
  have sub: "provides_for ps \<subseteq> set ps \<times> set ps" by (auto simp: provides_for_map dest: facts_from)
  then have "finite (provides_for ps)" by (rule finite_subset) simp
  then have wf: "wf (provides_for ps)" using ac by (rule finite_acyclic_wf)
  have "distinct r" "distinct ps" "set r \<subseteq> set ps" using s ids by (auto simp: scheduled_def distinct_map)
  then have "card (set r) < card (set ps)" using short by (simp add: distinct_card)
  then obtain p0 where "p0 \<in> set ps - set r" using \<open>set r \<subseteq> set ps\<close> by (metis Diff_eq_empty_iff equals0I less_le order.antisym)
  then obtain p where p: "p \<in> set ps - set r" "\<And>q. (q, p) \<in> provides_for ps \<Longrightarrow> q \<notin> set ps - set r"
    using wfE_min [OF wf, of p0 "set ps - set r"] by metis
  have "degree_of degree (fp_id p) \<noteq> 0" using s p(1) by (auto simp: scheduled_def)
  then have "card (deps_in ps p - fp_id ` set r) \<noteq> 0" using s p(1) by (auto simp: scheduled_def)
  then obtain d where "d \<in> deps_in ps p" "d \<notin> fp_id ` set r" by (metis Diff_iff card.empty equals0I)
  then obtain q where "q \<in> set ps" "fp_id q \<in> deps_in ps p" "q \<notin> set r" using deps_are_ids by blast
  then show False using p provides_for_iff [OF ids] by blast
qed

lemma schedule_waits_for_last_providers:
  assumes "distinct (map fp_id ps)"
  shows "case schedule_providers cmp ps of
      Inl ids \<Rightarrow> \<not> acyclic (provides_for ps)
    | Inr r \<Rightarrow> acyclic (provides_for ps) \<and> mset r = mset ps \<and> (\<forall>(q, p) \<in> provides_for ps. precedes r q p)"
proof -
  obtain r degree where s: "scheduled ps r [] degree" and out: "schedule_providers cmp ps = (if length r < length ps
       then Inl (sort_by cmp (map fp_id (filter (\<lambda>p. p \<notin> set r) ps))) else Inr r)"
    using schedule_cases [OF assms] .
  show ?thesis
  proof (cases "length r < length ps")
    case True
    then show ?thesis using out leftover_cycle [OF assms s] by simp
  next
    case False
    have r: "distinct r" "set r \<subseteq> set ps" "ordered ps r" "distinct ps"
      using s assms by (auto simp: scheduled_def distinct_map)
    then have "set r = set ps" using False by (metis card_subset_eq distinct_card finite_set card_mono le_antisym not_less)
    then have all: "mset r = mset ps" using r(1,4) by (simp add: set_eq_iff_mset_eq_distinct)
    have before: "precedes r q p" if "(q, p) \<in> provides_for ps" for q p
    proof (rule ordered_precedes [OF assms r(3,2) _ that])
      show "p \<in> set r" using that \<open>set r = set ps\<close> by (auto simp: provides_for_def)
    qed
    then have "acyclic (provides_for ps)" by (rule precedes_acyclic [OF r(1)])
    then show ?thesis using False out all before by auto
  qed
qed

text \<open>C36 (equivalence). A provider waits for the last provider in the list of each fact it requires, unless that is
  itself.  With distinct ids, scheduling fails exactly when that relation has a cycle; otherwise the
  schedule holds every provider once, each behind those it waits for.  Where no fact has two providers,
  those are all the other providers of what it requires.\<close>

theorem schedule_is_topological:
  assumes "distinct (map fp_id ps)"
  shows "(case schedule_providers cmp ps of
      Inl ids \<Rightarrow> \<not> acyclic (provides_for ps)
    | Inr r \<Rightarrow> acyclic (provides_for ps) \<and> mset r = mset ps \<and> (\<forall>(q, p) \<in> provides_for ps. precedes r q p)) \<and>
    (one_provider_each ps \<longrightarrow> provides_for ps =
      {(q, p). q \<in> set ps \<and> p \<in> set ps \<and> q \<noteq> p \<and> set (fp_provides q) \<inter> set (fp_requires p) \<noteq> {}})"
  using schedule_waits_for_last_providers [OF assms] provides_for_all by blast

subsection \<open>Running the schedule\<close>

lemma run_one_keeps:
  assumes "\<And>s q k. has_fact s k \<Longrightarrow> has_fact (run q s) k"
  shows "has_fact s k \<Longrightarrow> has_fact (foldl (run_one has_fact run) s qs) k"
  by (induction qs arbitrary: s) (simp_all add: run_one_def assms)

lemma run_one_writes:
  assumes keeps: "\<And>s q k. has_fact s k \<Longrightarrow> has_fact (run q s) k"
    and writes: "\<And>s q k. k \<in> set (fp_provides q) \<Longrightarrow> has_fact (run q s) k"
    and q: "q \<in> set qs" "k \<in> set (fp_provides q)"
  shows "has_fact (foldl (run_one has_fact run) s qs) k"
proof -
  obtain a b where "qs = a @ q # b" using q(1) by (meson split_list)
  moreover have "has_fact (run_one has_fact run t q) k" for t
    using writes [OF q(2)] q(2) by (auto simp: run_one_def list_all_iff)
  ultimately show ?thesis using run_one_keeps [of has_fact run, OF keeps] by simp
qed

text \<open>When a provider's turn comes, every fact it requires whose last registered provider is another one is
  in the store, as long as providers write what they declare and take nothing away.\<close>

theorem requirements_are_met:
  assumes ids: "distinct (map fp_id ps)"
    and sched: "schedule_providers cmp ps = Inr (before @ p # after)"
    and keeps: "\<And>s q k. has_fact s k \<Longrightarrow> has_fact (run q s) k"
    and writes: "\<And>s q k. k \<in> set (fp_provides q) \<Longrightarrow> has_fact (run q s) k"
    and needs: "k \<in> set (fp_requires p)" "providers_of ps k \<noteq> []" "q = last (providers_of ps k)" "q \<noteq> p"
  shows "has_fact (foldl (run_one has_fact run) s before) k"
proof -
  let ?r = "before @ p # after"
  have r: "mset ?r = mset ps" "\<forall>(q, p) \<in> provides_for ps. precedes ?r q p"
    using schedule_waits_for_last_providers [OF ids, of cmp] unfolding sched by auto
  have "distinct ps" using ids by (simp add: distinct_map)
  then have d: "distinct ?r" using r(1) mset_eq_imp_distinct_iff by blast
  have "p \<in> set ps" using mset_eq_setD [OF r(1)] by auto
  then have "(q, p) \<in> provides_for ps" using needs by (auto simp: provides_for_def)
  then have "precedes ?r q p" using r(2) by blast
  then obtain a b c where eq: "before @ p # after = (a @ q # b) @ p # c" by (auto simp: precedes_def)
  have "p \<notin> set before" "p \<notin> set after" using d by auto
  then have "before = a @ q # b" using append_Cons_eq_iff [of p before after "a @ q # b" c] eq by simp
  then have "q \<in> set before" by simp
  moreover have "k \<in> set (fp_provides q)" using last_in_set [OF needs(2)] needs(3) by (simp add: providers_of_def)
  ultimately show ?thesis using run_one_writes [of has_fact run, OF keeps writes] by blast
qed

text \<open>A provider of source text, one of an outline that needs it, and one that needs both.\<close>

definition sample_providers :: "fact_provider list" where
  "sample_providers =
     [\<lparr>fp_id = ''c'', fp_provides = [''summary''], fp_requires = [''outline'', ''source'']\<rparr>,
      \<lparr>fp_id = ''b'', fp_provides = [''outline''], fp_requires = [''source'']\<rparr>,
      \<lparr>fp_id = ''a'', fp_provides = [''source''], fp_requires = [''path'']\<rparr>]"

definition by_length :: "string \<Rightarrow> string \<Rightarrow> int" where
  "by_length a b = int (length a) - int (length b)"

lemma sample_ids: "distinct (map fp_id sample_providers)"
  by (simp add: sample_providers_def)

lemma sample_schedule: "schedule_providers by_length sample_providers = Inr (rev sample_providers)"
  by code_simp

lemma schedule_is_topological_witness:
  "acyclic (provides_for sample_providers) \<and> mset (rev sample_providers) = mset sample_providers \<and>
   (sample_providers ! 1, sample_providers ! 0) \<in> provides_for sample_providers"
proof -
  have "one_provider_each sample_providers" by (auto simp: one_provider_each_def sample_providers_def)
  note t = schedule_is_topological [OF sample_ids, of by_length]
  have "provides_for sample_providers = {(q, p). q \<in> set sample_providers \<and> p \<in> set sample_providers \<and> q \<noteq> p \<and>
      set (fp_provides q) \<inter> set (fp_requires p) \<noteq> {}}" using t \<open>one_provider_each sample_providers\<close> by blast
  then have "(sample_providers ! 1, sample_providers ! 0) \<in> provides_for sample_providers" by (simp add: sample_providers_def)
  moreover have "acyclic (provides_for sample_providers) \<and> mset (rev sample_providers) = mset sample_providers"
    using t by (simp add: sample_schedule)
  ultimately show ?thesis by blast
qed

lemma requirements_are_met_witness:
  "''outline'' \<in> foldl (run_one (\<lambda>s k. k \<in> s) (\<lambda>p s. s \<union> set (fp_provides p))) {} (take 2 (rev sample_providers))"
proof -
  let ?c = "sample_providers ! 0" and ?b = "sample_providers ! 1"
  have s: "schedule_providers by_length sample_providers = Inr (take 2 (rev sample_providers) @ ?c # [])"
    unfolding sample_schedule by (simp add: sample_providers_def)
  have "''outline'' \<in> set (fp_requires ?c)" "providers_of sample_providers ''outline'' \<noteq> []"
    "?b = last (providers_of sample_providers ''outline'')" "?b \<noteq> ?c"
    by (simp_all add: sample_providers_def providers_of_def)
  from requirements_are_met [OF sample_ids s, of "\<lambda>s k. k \<in> s" "\<lambda>p s. s \<union> set (fp_provides p)", OF _ _ this]
  show ?thesis by simp
qed

subsection \<open>What the order leaves open\<close>

text \<open>Of two providers of a fact only the last is waited for: here the second comes before the first, though it
  requires a fact of the first one's, and no cycle is found between the two.\<close>

lemma earlier_provider_is_not_waited_for:
  "map_option (map fp_id) (case schedule_providers by_length
     [\<lparr>fp_id = ''a'', fp_provides = [''x''], fp_requires = [''y'']\<rparr>,
      \<lparr>fp_id = ''bb'', fp_provides = [''y''], fp_requires = [''x'']\<rparr>,
      \<lparr>fp_id = ''ccc'', fp_provides = [''x''], fp_requires = []\<rparr>] of Inr r \<Rightarrow> Some r | Inl ids \<Rightarrow> None) = Some [''ccc'', ''bb'', ''a'']"
  by code_simp

text \<open>A provider that requires what only it provides is scheduled, and runs without the fact.\<close>

lemma self_requirement_is_no_cycle:
  "schedule_providers by_length
     [\<lparr>fp_id = ''a'', fp_provides = [''x''], fp_requires = [''x'']\<rparr>, \<lparr>fp_id = ''bb'', fp_provides = [], fp_requires = []\<rparr>] =
   Inr [\<lparr>fp_id = ''a'', fp_provides = [''x''], fp_requires = [''x'']\<rparr>, \<lparr>fp_id = ''bb'', fp_provides = [], fp_requires = []\<rparr>]"
  by code_simp

end
