(* ===== verification/Dispositions.thy ===== *)
theory Dispositions
  imports Config_Records Edit_Batch_Summary
begin

text \<open>
  \<^verbatim>\<open>clients/finding-identity.ts\<close> and \<^verbatim>\<open>clients/diagnostic-dispositions.ts\<close>: marks on findings
  (false positive, suppress, defer, flagged), the two kinds of anchor they are stored under, the cached
  store, and the filters that drop what is marked.  \<open>de_sha\<close> is the hex SHA-256 of a text and
  \<open>de_state_path\<close> the store file of a project.  A store file is given by its stamp and what its JSON
  parses to, \<open>None\<close> when it does not parse.
\<close>

subsection \<open>Finding identity\<close>

definition FINDING_ID_HASH_LENGTH :: nat where
  "FINDING_ID_HASH_LENGTH = 12"

fun collapse_spaces :: "bool \<Rightarrow> string \<Rightarrow> string" where
  "collapse_spaces run [] = []"
| "collapse_spaces run (c # cs) =
     (if is_js_space c then (if run then [] else '' '') @ collapse_spaces True cs
      else c # collapse_spaces False cs)"

definition normalize_message :: "string \<Rightarrow> string" where
  "normalize_message message = to_lower_case (js_trim (collapse_spaces False message))"

definition hash_text :: "(string \<Rightarrow> string) \<Rightarrow> string \<Rightarrow> string" where
  "hash_text sha value = take FINDING_ID_HASH_LENGTH (sha value)"

definition relative_file :: "host \<Rightarrow> path \<Rightarrow> path \<Rightarrow> path" where
  "relative_file h p cwd =
     (let canonical_cwd = normalize_file_path h cwd;
          canonical_file = normalize_file_path h p;
          rel = (case path_relative h (path_resolve h canonical_cwd) (path_resolve h canonical_file) of
                   Absolute_Path \<Rightarrow> to_posix (win_path (path_resolve h canonical_file))
                 | Relative_Path ws \<Rightarrow> to_posix (join_with (host_sep h) ws))
      in if rel \<noteq> [] \<and> \<not> starts_with rel ''..'' then rel else canonical_file)"

definition finding_text :: "host \<Rightarrow> path \<Rightarrow> path \<Rightarrow> string option list \<Rightarrow> string" where
  "finding_text h cwd p parts = join_with CHR ''|'' (relative_file h p cwd # map (\<lambda>part. or_else part []) parts)"

definition stable_finding_id :: "host \<Rightarrow> (string \<Rightarrow> string) \<Rightarrow> string \<Rightarrow> path \<Rightarrow> path \<Rightarrow> string option list \<Rightarrow> string" where
  "stable_finding_id h sha family cwd p parts = family @ hash_text sha (finding_text h cwd p parts)"

subsection \<open>Anchors\<close>

record finding =
  fd_tool :: "string option"
  fd_rule :: "string option"
  fd_code :: "string option"
  fd_id :: "string option"
  fd_message :: string
  fd_line :: "int option"
  fd_semantic :: "string option"
  fd_file :: path

record disposition_env =
  de_host :: host
  de_sha :: "string \<Rightarrow> string"
  de_state_path :: "path \<Rightarrow> path"

definition strict_anchor_span :: "string option \<Rightarrow> int option \<Rightarrow> string option" where
  "strict_anchor_span content line =
     (case (content, line) of
        (Some text, Some n) \<Rightarrow>
          if n < 1 \<or> n > int (length (split_lines text)) then None
          else Some (line_content_hash (split_lines text ! nat (n - 1)))
      | _ \<Rightarrow> None)"

definition strict_anchor_spans_in :: "string \<Rightarrow> string set" where
  "strict_anchor_spans_in text = set (map line_content_hash (split_lines text))"

definition strict_parts :: "finding \<Rightarrow> string option \<Rightarrow> string option list" where
  "strict_parts d content =
     [Some (or_else (fd_tool d) []), Some (or_else (fd_rule d) []), Some (normalize_message (fd_message d)),
      Some (or_else (strict_anchor_span content (fd_line d)) (line_content_hash []))]"

definition weak_parts :: "finding \<Rightarrow> string option list" where
  "weak_parts d =
     [Some (or_else (fd_tool d) []), Some (or_else (fd_rule d) []), Some (normalize_message (fd_message d))]"

definition compute_strict_anchor :: "disposition_env \<Rightarrow> path \<Rightarrow> path \<Rightarrow> finding \<Rightarrow> string option \<Rightarrow> string" where
  "compute_strict_anchor env cwd p d content =
     stable_finding_id (de_host env) (de_sha env) ''dd:'' cwd p (strict_parts d content)"

definition compute_weak_anchor :: "disposition_env \<Rightarrow> path \<Rightarrow> path \<Rightarrow> finding \<Rightarrow> string" where
  "compute_weak_anchor env cwd p d = stable_finding_id (de_host env) (de_sha env) ''ddw:'' cwd p (weak_parts d)"

definition anchors_for_diagnostic :: "disposition_env \<Rightarrow> path \<Rightarrow> path \<Rightarrow> finding \<Rightarrow> string \<Rightarrow> string \<times> string" where
  "anchors_for_diagnostic env cwd p d content =
     (compute_strict_anchor env cwd p d (Some content), compute_weak_anchor env cwd p d)"

subsection \<open>The store and its cache\<close>

datatype disposition = False_Positive | Suppress | Defer | Flagged

record disposition_entry =
  dn_disposition :: disposition
  dn_reason :: "string option"
  dn_created :: string
  dn_seen :: string
  dn_line :: "int option"
  dn_line_text :: "string option"

type_synonym disposition_state = "(string, disposition_entry) js_map option"

record store_file =
  sf_mtime :: int
  sf_size :: int
  sf_parsed :: "disposition_state option"

record state_cache =
  sc_path :: path
  sc_missing :: bool
  sc_mtime :: int
  sc_size :: int
  sc_state :: disposition_state

record marks =
  mk_disk :: "path \<Rightarrow> store_file option"
  mk_cache :: "state_cache option"
  mk_deferred :: "string list"

definition no_marks :: marks where
  "no_marks = \<lparr>mk_disk = (\<lambda>_. None), mk_cache = None, mk_deferred = []\<rparr>"

definition deserialize_state :: "store_file option \<Rightarrow> disposition_state" where
  "deserialize_state f = (case f of None \<Rightarrow> None | Some s \<Rightarrow> or_else (sf_parsed s) None)"

definition cache_missing :: "path \<Rightarrow> state_cache" where
  "cache_missing p = \<lparr>sc_path = p, sc_missing = True, sc_mtime = -1, sc_size = -1, sc_state = None\<rparr>"

definition cache_file :: "path \<Rightarrow> store_file \<Rightarrow> state_cache" where
  "cache_file p f =
     \<lparr>sc_path = p, sc_missing = False, sc_mtime = sf_mtime f, sc_size = sf_size f, sc_state = deserialize_state (Some f)\<rparr>"

definition cache_answers :: "path \<Rightarrow> store_file option \<Rightarrow> state_cache \<Rightarrow> bool" where
  "cache_answers p f c =
     (sc_path c = p \<and>
      (case f of
         None \<Rightarrow> sc_missing c
       | Some s \<Rightarrow> \<not> sc_missing c \<and> sc_mtime c = sf_mtime s \<and> sc_size c = sf_size s))"

definition read_state :: "disposition_env \<Rightarrow> path \<Rightarrow> marks \<Rightarrow> disposition_state \<times> marks" where
  "read_state env cwd w =
     (let p = de_state_path env cwd;
          fresh = (case mk_disk w p of
             None \<Rightarrow> (None, w\<lparr>mk_cache := Some (cache_missing p)\<rparr>)
           | Some f \<Rightarrow> (deserialize_state (Some f), w\<lparr>mk_cache := Some (cache_file p f)\<rparr>))
      in case mk_cache w of
           None \<Rightarrow> fresh
         | Some c \<Rightarrow> if cache_answers p (mk_disk w p) c then (sc_state c, w) else fresh)"

text \<open>How the locked read-merge-write of \<^verbatim>\<open>commitDurableStore\<close> ends; both failures throw.\<close>

datatype commit_outcome = Lock_Timeout | Write_Threw | Written int int

definition commit_disposition ::
    "disposition_env \<Rightarrow> commit_outcome \<Rightarrow> path \<Rightarrow> string \<Rightarrow> disposition_entry \<Rightarrow> marks \<Rightarrow> marks option" where
  "commit_disposition env out cwd anchor entry w =
     (case out of
        Lock_Timeout \<Rightarrow> None
      | Write_Threw \<Rightarrow> None
      | Written mtime bytes \<Rightarrow>
          let p = de_state_path env cwd;
              state = Some (AList.update anchor entry (or_else (deserialize_state (mk_disk w p)) []));
              written = \<lparr>sf_mtime = mtime, sf_size = bytes, sf_parsed = Some state\<rparr>
          in Some (w\<lparr>mk_disk := (mk_disk w)(p := Some written), mk_cache := Some (cache_file p written)\<rparr>))"

definition lookup_mark :: "disposition_state \<Rightarrow> string \<Rightarrow> disposition_entry option" where
  "lookup_mark st anchor = (case st of None \<Rightarrow> None | Some m \<Rightarrow> map_of m anchor)"

definition add_deferral :: "string \<Rightarrow> marks \<Rightarrow> marks" where
  "add_deferral k w = w\<lparr>mk_deferred := (if k \<in> set (mk_deferred w) then mk_deferred w else mk_deferred w @ [k])\<rparr>"

definition deferred_key :: "disposition_env \<Rightarrow> path \<Rightarrow> string \<Rightarrow> string" where
  "deferred_key env cwd anchor = normalize_file_path (de_host env) cwd @ ''::'' @ anchor"

subsection \<open>Marking\<close>

record mark_target =
  mt_cwd :: path
  mt_finding :: finding
  mt_content :: "string option"

definition mark_anchor :: "disposition_env \<Rightarrow> mark_target \<Rightarrow> disposition \<Rightarrow> string" where
  "mark_anchor env t disp =
     (if disp = False_Positive then compute_strict_anchor env (mt_cwd t) (fd_file (mt_finding t)) (mt_finding t) (mt_content t)
      else compute_weak_anchor env (mt_cwd t) (fd_file (mt_finding t)) (mt_finding t))"

definition mark_line_text :: "mark_target \<Rightarrow> string option \<Rightarrow> string option" where
  "mark_line_text t existing =
     map_option js_trim
       (case mt_content t of
          None \<Rightarrow> existing
        | Some text \<Rightarrow>
            let i = (case fd_line (mt_finding t) of None \<Rightarrow> -1 | Some n \<Rightarrow> n - 1)
            in if 0 \<le> i \<and> i < int (length (split_lines text)) then Some (split_lines text ! nat i) else existing)"

definition mark_entry :: "mark_target \<Rightarrow> disposition \<Rightarrow> string option \<Rightarrow> string \<Rightarrow> disposition_entry option \<Rightarrow> disposition_entry" where
  "mark_entry t disp reason now existing =
     \<lparr>dn_disposition = disp,
      dn_reason = (case reason of Some r \<Rightarrow> Some r | None \<Rightarrow> Option.bind existing dn_reason),
      dn_created = (case existing of Some e \<Rightarrow> dn_created e | None \<Rightarrow> now),
      dn_seen = now,
      dn_line = (if disp = Flagged \<and> fd_line (mt_finding t) \<noteq> None then fd_line (mt_finding t) else Option.bind existing dn_line),
      dn_line_text = (if disp = Flagged then mark_line_text t (Option.bind existing dn_line_text) else Option.bind existing dn_line_text)\<rparr>"

text \<open>The anchor used, or nothing when the commit throws.\<close>

definition mark_disposition ::
    "disposition_env \<Rightarrow> commit_outcome \<Rightarrow> string \<Rightarrow> path \<Rightarrow> mark_target \<Rightarrow> disposition \<Rightarrow> string option \<Rightarrow> marks
     \<Rightarrow> string option \<times> marks" where
  "mark_disposition env out now cwd t disp reason w =
     (let anchor = mark_anchor env t disp;
          (st, w1) = read_state env cwd w;
          existing = lookup_mark st anchor
      in if disp = Defer
         then (Some anchor, add_deferral (deferred_key env cwd anchor) w1)
         else case commit_disposition env out cwd anchor (mark_entry t disp reason now existing) w1 of
                None \<Rightarrow> (None, w1)
              | Some w2 \<Rightarrow> (Some anchor, w2))"

definition get_disposition :: "disposition_env \<Rightarrow> path \<Rightarrow> string \<Rightarrow> marks \<Rightarrow> disposition_entry option \<times> marks" where
  "get_disposition env cwd anchor w = (case read_state env cwd w of (st, w') \<Rightarrow> (lookup_mark st anchor, w'))"

definition is_deferred_this_session :: "disposition_env \<Rightarrow> path \<Rightarrow> string \<Rightarrow> marks \<Rightarrow> bool" where
  "is_deferred_this_session env cwd anchor w \<longleftrightarrow> deferred_key env cwd anchor \<in> set (mk_deferred w)"

definition has_any_disposition_marks :: "disposition_env \<Rightarrow> path \<Rightarrow> marks \<Rightarrow> bool \<times> marks" where
  "has_any_disposition_marks env cwd w = (case read_state env cwd w of (st, w') \<Rightarrow> (st \<noteq> None \<or> mk_deferred w' \<noteq> [], w'))"

definition has_strict_disposition_marks :: "disposition_env \<Rightarrow> path \<Rightarrow> marks \<Rightarrow> bool \<times> marks" where
  "has_strict_disposition_marks env cwd w =
     (case read_state env cwd w of (st, w') \<Rightarrow>
        (case st of None \<Rightarrow> False | Some m \<Rightarrow> list_ex (\<lambda>k. map_option dn_disposition (map_of m k) = Some False_Positive) (keys_of m), w'))"

subsection \<open>Filters\<close>

definition is_blocking :: "finding \<Rightarrow> bool" where
  "is_blocking d \<longleftrightarrow> fd_semantic d = Some ''blocking''"

definition marked_as :: "disposition_state \<Rightarrow> string \<Rightarrow> disposition \<Rightarrow> bool" where
  "marked_as st anchor disp \<longleftrightarrow> map_option dn_disposition (lookup_mark st anchor) = Some disp"

text \<open>The test of the filter: keep the finding.\<close>

definition keeps_finding :: "disposition_env \<Rightarrow> path \<Rightarrow> path \<Rightarrow> string \<Rightarrow> disposition_state \<Rightarrow> string list \<Rightarrow> finding \<Rightarrow> bool" where
  "keeps_finding env cwd p content st deferred d =
     (case anchors_for_diagnostic env cwd p d content of (strict, weak) \<Rightarrow>
        if \<not> is_blocking d \<and> deferred_key env cwd weak \<in> set deferred then False
        else if marked_as st strict False_Positive then False
        else if \<not> is_blocking d \<and> marked_as st weak Suppress then False
        else True)"

definition apply_dispositions ::
    "disposition_env \<Rightarrow> path \<Rightarrow> path \<Rightarrow> string \<Rightarrow> finding list \<Rightarrow> marks \<Rightarrow> finding list \<times> marks" where
  "apply_dispositions env cwd p content ds w =
     (if ds = [] then (ds, w)
      else case read_state env cwd w of (st, w') \<Rightarrow>
        if st = None \<and> mk_deferred w' = [] then (ds, w')
        else (filter (keeps_finding env cwd p content st (mk_deferred w')) ds, w'))"

definition keeps_weakly :: "disposition_env \<Rightarrow> path \<Rightarrow> path \<Rightarrow> disposition_state \<Rightarrow> string list \<Rightarrow> finding \<Rightarrow> bool" where
  "keeps_weakly env cwd p st deferred d =
     (if is_blocking d then True
      else let weak = compute_weak_anchor env cwd p d
           in if deferred_key env cwd weak \<in> set deferred then False
              else \<not> marked_as st weak Suppress)"

definition apply_weak_dispositions ::
    "disposition_env \<Rightarrow> path \<Rightarrow> path \<Rightarrow> finding list \<Rightarrow> marks \<Rightarrow> finding list \<times> marks" where
  "apply_weak_dispositions env cwd p ds w =
     (if ds = [] then (ds, w)
      else case read_state env cwd w of (st, w') \<Rightarrow>
        if st = None \<and> mk_deferred w' = [] then (ds, w')
        else (filter (keeps_weakly env cwd p st (mk_deferred w')) ds, w'))"

text \<open>
  The findings of many files: grouped by path in order of first appearance, each group filtered against
  its file's text (the empty text when the read throws), the survivors kept in the caller's order.
\<close>

definition add_to_group :: "(path, finding list) js_map \<Rightarrow> finding \<Rightarrow> (path, finding list) js_map" where
  "add_to_group groups d =
     (case map_of groups (fd_file d) of
        Some g \<Rightarrow> AList.update (fd_file d) (g @ [d]) groups
      | None \<Rightarrow> AList.update (fd_file d) [d] groups)"

definition group_by_file :: "finding list \<Rightarrow> (path, finding list) js_map" where
  "group_by_file ds = foldl add_to_group [] ds"

definition filter_group ::
    "disposition_env \<Rightarrow> path \<Rightarrow> (path \<Rightarrow> string option) \<Rightarrow> finding list \<times> marks \<Rightarrow> path \<times> finding list
     \<Rightarrow> finding list \<times> marks" where
  "filter_group env cwd read_file acc g =
     (case acc of (kept, w) \<Rightarrow>
        case apply_dispositions env cwd (fst g) (or_else (read_file (fst g)) []) (snd g) w of
          (survivors, w') \<Rightarrow> (kept @ survivors, w'))"

definition apply_dispositions_multi_file ::
    "disposition_env \<Rightarrow> path \<Rightarrow> (path \<Rightarrow> string option) \<Rightarrow> finding list \<Rightarrow> marks \<Rightarrow> finding list \<times> marks" where
  "apply_dispositions_multi_file env cwd read_file ds w =
     (if ds = [] then (ds, w)
      else case read_state env cwd w of (st, w') \<Rightarrow>
        if st = None \<and> mk_deferred w' = [] then (ds, w')
        else case foldl (filter_group env cwd read_file) ([], w') (group_by_file ds) of
          (kept, w'') \<Rightarrow> (filter (\<lambda>d. d \<in> set kept) ds, w''))"

end
