(* ===== verification/Finding_Filters.thy ===== *)
theory Finding_Filters
  imports Dispositions Read_Guard_Ranges
begin

text \<open>
  \<^verbatim>\<open>clients/dispatch/rule-id-normalize.ts\<close>, \<^verbatim>\<open>inline-suppressions.ts\<close> and \<^verbatim>\<open>rule-policy.ts\<close>: the
  spelling rule ids are compared in, the \<^verbatim>\<open>pi-lens-ignore\<close> comments of a file, and the project's
  disable and select lists.  The language suffixes found on disk are an argument.  Regular expressions are
  written out as scans; the em dash of one of them lies beyond the characters modelled.
\<close>

subsection \<open>Rule ids\<close>

datatype rule_entry = Rule_File string | Rule_Dir "rule_entry list"

definition is_ascii_alnum :: "char \<Rightarrow> bool" where
  "is_ascii_alnum c =
     (let n = of_char c :: nat in (48 \<le> n \<and> n \<le> 57) \<or> (65 \<le> n \<and> n \<le> 90) \<or> (97 \<le> n \<and> n \<le> 122))"

text \<open>\<^verbatim>\<open>/-([a-z0-9]+)\.ya?ml$/i\<close> at the head of a text, then anywhere in it.\<close>

definition tag_here :: "string \<Rightarrow> string option" where
  "tag_here s =
     (case s of
        [] \<Rightarrow> None
      | c # body \<Rightarrow>
          let tag = takeWhile is_ascii_alnum body;
              rest = to_lower_case (dropWhile is_ascii_alnum body)
          in if c = CHR ''-'' \<and> tag \<noteq> [] \<and> (rest = ''.yml'' \<or> rest = ''.yaml'') then Some (to_lower_case tag) else None)"

fun language_tag :: "string \<Rightarrow> string option" where
  "language_tag [] = None"
| "language_tag (c # cs) = (case tag_here (c # cs) of Some t \<Rightarrow> Some t | None \<Rightarrow> language_tag cs)"

fun rule_names :: "rule_entry \<Rightarrow> string list" where
  "rule_names (Rule_File name) = [name]"
| "rule_names (Rule_Dir es) = concat (map rule_names es)"

text \<open>A directory that cannot be read counts as one without entries.\<close>

definition derive_rule_id_language_suffixes :: "rule_entry \<Rightarrow> string list" where
  "derive_rule_id_language_suffixes root_dir = js_unique (List.map_filter language_tag (rule_names root_dir))"

definition rule_id_language_suffixes :: "rule_entry option \<Rightarrow> string list" where
  "rule_id_language_suffixes bundled =
     js_unique (''js'' # (case bundled of None \<Rightarrow> [] | Some d \<Rightarrow> derive_rule_id_language_suffixes d))"

definition normalize_rule_id :: "string list \<Rightarrow> string \<Rightarrow> string" where
  "normalize_rule_id tags rule_id =
     (let normalized = (if starts_with rule_id ''ast-grep:'' then drop 9 rule_id else rule_id)
      in case find (\<lambda>s. ends_with normalized (CHR ''-'' # s)) tags of
           Some s \<Rightarrow> take (length normalized - (length s + 1)) normalized
         | None \<Rightarrow> normalized)"

subsection \<open>Inline comments\<close>

definition is_dot :: "char \<Rightarrow> bool" where
  "is_dot c \<longleftrightarrow> c \<noteq> LF \<and> c \<noteq> CR"

text \<open>\<^verbatim>\<open>\s*(.+)\<close>: the longest run of spaces that leaves a character to match.\<close>

definition payload_of :: "string \<Rightarrow> string option" where
  "payload_of r =
     map_option (\<lambda>k. takeWhile is_dot (drop k r))
       (find (\<lambda>k. k < length r \<and> is_dot (r ! k)) (rev [0..<Suc (length (takeWhile is_js_space r))]))"

definition ignore_here :: "string \<Rightarrow> string option" where
  "ignore_here s =
     (case (if starts_with s ''//'' then Some (drop 2 s) else if starts_with s ''#'' then Some (drop 1 s) else None) of
        None \<Rightarrow> None
      | Some r \<Rightarrow>
          let body = dropWhile is_js_space r
          in if starts_with body ''pi-lens-ignore:'' then payload_of (drop 15 body) else None)"

fun ignore_payload :: "string \<Rightarrow> string option" where
  "ignore_payload [] = None"
| "ignore_payload (c # cs) = (case ignore_here (c # cs) of Some p \<Rightarrow> Some p | None \<Rightarrow> ignore_payload cs)"

text \<open>\<^verbatim>\<open>\s+.+$\<close>, and the three separators in front of it.\<close>

definition reason_follows :: "string \<Rightarrow> bool" where
  "reason_follows r \<longleftrightarrow>
     list_ex (\<lambda>k. drop k r \<noteq> [] \<and> list_all is_dot (drop k r)) [1..<Suc (length (takeWhile is_js_space r))]"

definition reason_here :: "string \<Rightarrow> bool" where
  "reason_here s \<longleftrightarrow>
     (takeWhile is_js_space s \<noteq> [] \<and> starts_with (dropWhile is_js_space s) ''--'' \<and> reason_follows (drop 2 (dropWhile is_js_space s)))
     \<or> (starts_with s '':'' \<and> reason_follows (drop 1 s))"

definition split_inline_suppression_payload :: "string \<Rightarrow> string \<times> string" where
  "split_inline_suppression_payload payload =
     (case find (\<lambda>i. reason_here (drop i payload)) [0..<length payload] of
        None \<Rightarrow> (payload, [])
      | Some i \<Rightarrow> (take i payload, drop i payload))"

definition parse_inline_suppression_rule_ids :: "string \<Rightarrow> string list" where
  "parse_inline_suppression_rule_ids payload =
     filter (\<lambda>r. r \<noteq> []) (map js_trim (split_on CHR '','' (fst (split_inline_suppression_payload payload))))"

definition int_text :: "int \<Rightarrow> string" where
  "int_text n = (if n < 0 then CHR ''-'' # decimal (nat (- n)) else decimal (nat n))"

definition suppression_key :: "int \<Rightarrow> string \<Rightarrow> string" where
  "suppression_key line rule = int_text line @ CHR '':'' # rule"

definition line_rules :: "string \<Rightarrow> string list" where
  "line_rules line =
     (case ignore_payload line of None \<Rightarrow> [] | Some payload \<Rightarrow> parse_inline_suppression_rule_ids payload)"

definition suppressed_keys :: "string list \<Rightarrow> string \<Rightarrow> string list" where
  "suppressed_keys tags content =
     concat (map (\<lambda>(i, line).
        concat (map (\<lambda>rule.
           concat (map (\<lambda>key. [suppression_key (int i + 1) key, suppression_key (int i + 2) key])
             (js_unique [rule, normalize_rule_id tags rule])))
          (line_rules line)))
       (enumerate 0 (split_on LF content)))"

definition raw_rule_id :: "finding \<Rightarrow> string" where
  "raw_rule_id d = (case fd_rule d of Some r \<Rightarrow> r | None \<Rightarrow> or_else (fd_id d) [])"

definition keeps_inline :: "string list \<Rightarrow> string list \<Rightarrow> finding \<Rightarrow> bool" where
  "keeps_inline tags suppressed d =
     (let raw = raw_rule_id d;
          line = or_else (fd_line d) 1;
          nrm = normalize_rule_id tags raw
      in if suppression_key line raw \<in> set suppressed then False
         else nrm = raw \<or> suppression_key line nrm \<notin> set suppressed)"

definition apply_inline_suppressions :: "string list \<Rightarrow> string \<Rightarrow> finding list \<Rightarrow> finding list" where
  "apply_inline_suppressions tags content ds =
     (if content = [] \<or> ds = [] then ds
      else let suppressed = suppressed_keys tags content
           in if suppressed = [] then ds else filter (keeps_inline tags suppressed) ds)"

subsection \<open>The project's rule policy\<close>

record rule_policy_entry =
  rp_disable :: "string list option"
  rp_select :: "string list option"

text \<open>\<open>None\<close> is a value that is no object.\<close>

type_synonym rule_policy_map = "(string, rule_policy_entry option) js_map"

definition matches_rule :: "string list \<Rightarrow> string \<Rightarrow> string \<Rightarrow> string \<Rightarrow> bool" where
  "matches_rule tags entry raw normalized =
     (if entry = raw then True else normalize_rule_id tags entry = normalized)"

fun scan_candidates :: "string list \<Rightarrow> string \<Rightarrow> string \<Rightarrow> bool \<Rightarrow> string list \<Rightarrow> bool \<times> bool" where
  "scan_candidates tags raw nrm saw [] = (False, saw)"
| "scan_candidates tags raw nrm saw (c # cs) =
     (if matches_rule tags c raw nrm then (True, True) else scan_candidates tags raw nrm True cs)"

fun scan_list ::
    "string list \<Rightarrow> (rule_policy_entry \<Rightarrow> string list option) \<Rightarrow> string \<Rightarrow> string \<Rightarrow> bool \<Rightarrow> rule_policy_entry option list \<Rightarrow> bool \<times> bool" where
  "scan_list tags pick raw nrm saw [] = (False, saw)"
| "scan_list tags pick raw nrm saw (e # es) =
     (case scan_candidates tags raw nrm saw (or_else (Option.bind e pick) []) of
        (True, s) \<Rightarrow> (True, s)
      | (False, s) \<Rightarrow> scan_list tags pick raw nrm s es)"

text \<open>True when the rule is dropped.\<close>

definition evaluate_rule_policy :: "string list \<Rightarrow> string \<Rightarrow> rule_policy_map option \<Rightarrow> bool" where
  "evaluate_rule_policy tags rule policy =
     (case policy of
        None \<Rightarrow> False
      | Some m \<Rightarrow>
          let nrm = normalize_rule_id tags rule
          in if fst (scan_list tags rp_disable rule nrm False (map snd m)) then True
             else case scan_list tags rp_select rule nrm False (map snd m) of (matched, saw) \<Rightarrow> saw \<and> \<not> matched)"

definition has_policy :: "rule_policy_entry option \<Rightarrow> bool" where
  "has_policy e =
     (case e of
        None \<Rightarrow> False
      | Some p \<Rightarrow> 0 < length (or_else (rp_disable p) []) \<or> 0 < length (or_else (rp_select p) []))"

definition policy_key :: "finding \<Rightarrow> string option" where
  "policy_key d = (case fd_rule d of Some r \<Rightarrow> Some r | None \<Rightarrow> fd_code d)"

definition keeps_by_policy :: "string list \<Rightarrow> rule_policy_map option \<Rightarrow> finding \<Rightarrow> bool" where
  "keeps_by_policy tags policy d =
     (case policy_key d of
        None \<Rightarrow> True
      | Some rule \<Rightarrow> if rule = [] then True else \<not> evaluate_rule_policy tags rule policy)"

definition apply_rule_policy :: "string list \<Rightarrow> rule_policy_map option \<Rightarrow> finding list \<Rightarrow> finding list" where
  "apply_rule_policy tags policy ds =
     (case policy of
        None \<Rightarrow> ds
      | Some m \<Rightarrow> if \<not> list_ex has_policy (map snd m) then ds else filter (keeps_by_policy tags policy) ds)"

definition policy_part :: "rule_policy_entry \<Rightarrow> rule_policy_entry" where
  "policy_part p =
     \<lparr>rp_disable = (if 0 < length (or_else (rp_disable p) []) then rp_disable p else None),
      rp_select = (if 0 < length (or_else (rp_select p) []) then rp_select p else None)\<rparr>"

definition add_policy :: "rule_policy_map option \<Rightarrow> string \<times> rule_policy_entry option \<Rightarrow> rule_policy_map option" where
  "add_policy built ke =
     (case ke of (key, e) \<Rightarrow>
        if \<not> has_policy e then built
        else Some (AList.update key (map_option policy_part e) (or_else built [])))"

definition rule_policy_map_from_config :: "rule_policy_map option \<Rightarrow> rule_policy_map option" where
  "rule_policy_map_from_config rules = (case rules of None \<Rightarrow> None | Some m \<Rightarrow> foldl add_policy None m)"

end
