(* ===== verification/Finding_Filters_Meaning.thy ===== *)
theory Finding_Filters_Meaning
  imports Finding_Filters
begin

text \<open>
  What the two content filters keep: a comment hides the rules it lists on its own line and on the next,
  and the policy drops what is disabled anywhere and, when anything is selected, what is not.
\<close>

subsection \<open>Keys of suppressed lines\<close>

lemma decimal_no_colon: "CHR '':'' \<notin> set (decimal n)"
proof
  assume "CHR '':'' \<in> set (decimal n)"
  then have "is_digit CHR '':''" using decimal_digits [of n] by (auto simp: list_all_iff)
  then show False by (simp add: is_digit_def)
qed

lemma int_text_inj [simp]: "int_text a = int_text b \<longleftrightarrow> a = b"
proof
  assume e: "int_text a = int_text b"
  have nd: "decimal n \<noteq> CHR ''-'' # s" for n s using decimal_no_dash [of n] by (metis list.set_intros(1))
  have inj: "decimal m = decimal n \<Longrightarrow> m = n" for m n by (metis numeral_value_decimal)
  show "a = b" using e nd nd [symmetric] by (auto simp: int_text_def dest: inj split: if_splits)
qed simp

lemma suppression_key_inj [simp]: "suppression_key a r = suppression_key b s \<longleftrightarrow> a = b \<and> r = s"
proof
  assume e: "suppression_key a r = suppression_key b s"
  have "takeWhile (\<lambda>c. c \<noteq> CHR '':'') (suppression_key n x) = int_text n" for n x
    using decimal_no_colon by (auto simp: suppression_key_def int_text_def takeWhile_append)
  then have "int_text a = int_text b" using e by metis
  then show "a = b \<and> r = s" using e by (simp add: suppression_key_def)
qed simp

lemma suppressed_key_iff:
  "suppression_key n k \<in> set (suppressed_keys tags content) \<longleftrightarrow>
     (\<exists>i rule. i < length (split_on LF content) \<and> rule \<in> set (line_rules (split_on LF content ! i)) \<and>
        (n = int i + 1 \<or> n = int i + 2) \<and> (rule = k \<or> normalize_rule_id tags rule = k))"
proof -
  let ?L = "split_on LF content"
  have pairs: "set (enumerate 0 ?L) = {(i, ?L ! i) |i. i < length ?L}"
    by (auto simp: in_set_enumerate_eq)
  have "suppression_key n k \<in> set (suppressed_keys tags content) \<longleftrightarrow>
      (\<exists>p \<in> set (enumerate 0 ?L). \<exists>rule \<in> set (line_rules (snd p)). \<exists>key \<in> {rule, normalize_rule_id tags rule}.
         suppression_key n k \<in> {suppression_key (int (fst p) + 1) key, suppression_key (int (fst p) + 2) key})"
    unfolding suppressed_keys_def set_concat set_map UN_simps case_prod_beta by (simp only: set_js_unique set_simps) blast
  also have "\<dots> \<longleftrightarrow> (\<exists>i rule. i < length ?L \<and> rule \<in> set (line_rules (?L ! i)) \<and>
        (n = int i + 1 \<or> n = int i + 2) \<and> (rule = k \<or> normalize_rule_id tags rule = k))"
    unfolding pairs suppression_key_inj insert_iff empty_iff Bex_def mem_Collect_eq by force
  finally show ?thesis .
qed

text \<open>A comment covers a finding when it stands on its line or the one above and lists its rule in any spelling.\<close>

definition same_rule :: "string list \<Rightarrow> string \<Rightarrow> string \<Rightarrow> bool" where
  "same_rule tags a b \<longleftrightarrow>
     (let na = normalize_rule_id tags a; nb = normalize_rule_id tags b in a = b \<or> na = b \<or> a = nb \<or> na = nb)"

definition comment_covers :: "string list \<Rightarrow> string \<Rightarrow> finding \<Rightarrow> bool" where
  "comment_covers tags content d \<longleftrightarrow>
     list_ex (\<lambda>i. (or_else (fd_line d) 1 = int i + 1 \<or> or_else (fd_line d) 1 = int i + 2) \<and>
        list_ex (\<lambda>rule. same_rule tags rule (raw_rule_id d)) (line_rules (split_on LF content ! i)))
       [0..<length (split_on LF content)]"

lemma comment_covers_iff:
  "comment_covers tags content d \<longleftrightarrow>
     (\<exists>i rule. i < length (split_on LF content) \<and> rule \<in> set (line_rules (split_on LF content ! i)) \<and>
        (or_else (fd_line d) 1 = int i + 1 \<or> or_else (fd_line d) 1 = int i + 2) \<and> same_rule tags rule (raw_rule_id d))"
  by (auto simp: comment_covers_def list_ex_iff)

lemma keeps_inline_iff: "keeps_inline tags (suppressed_keys tags content) d \<longleftrightarrow> \<not> comment_covers tags content d"
proof -
  have "\<not> keeps_inline tags (suppressed_keys tags content) d \<longleftrightarrow>
      suppression_key (or_else (fd_line d) 1) (raw_rule_id d) \<in> set (suppressed_keys tags content) \<or>
      suppression_key (or_else (fd_line d) 1) (normalize_rule_id tags (raw_rule_id d)) \<in> set (suppressed_keys tags content)"
    by (auto simp: keeps_inline_def Let_def)
  also have "\<dots> \<longleftrightarrow> comment_covers tags content d"
    unfolding suppressed_key_iff comment_covers_iff same_rule_def Let_def by blast
  finally show ?thesis by blast
qed

text \<open>Inline suppression drops exactly the findings a \<^verbatim>\<open>pi-lens-ignore\<close> comment covers: one on
  the finding's line or the line above that lists its rule, both read raw or normalised; the others keep their order.
\<close>

theorem inline_comments_hide_what_they_list:
  "apply_inline_suppressions tags content ds = filter (\<lambda>d. \<not> comment_covers tags content d) ds"
proof -
  have keep: "keeps_inline tags (suppressed_keys tags content) = (\<lambda>d. \<not> comment_covers tags content d)"
    using keeps_inline_iff by blast
  consider "ds = []" | "content = []" | "suppressed_keys tags content = []" | "content \<noteq> []" "ds \<noteq> []" "suppressed_keys tags content \<noteq> []"
    by blast
  then show ?thesis
  proof cases
    case 2
    have "\<not> comment_covers tags [] d" for d by (simp add: comment_covers_def line_rules_def)
    then show ?thesis using 2 by (simp add: apply_inline_suppressions_def)
  next
    case 3
    have "keeps_inline tags [] d" for d by (simp add: keeps_inline_def Let_def)
    then have "\<not> comment_covers tags content d" for d using keep 3 by metis
    then show ?thesis using 3 by (simp add: apply_inline_suppressions_def Let_def)
  next
    case 4
    then show ?thesis by (simp add: apply_inline_suppressions_def Let_def keep)
  qed (simp add: apply_inline_suppressions_def)
qed

subsection \<open>The policy\<close>

abbreviation listed_under :: "(rule_policy_entry \<Rightarrow> string list option) \<Rightarrow> rule_policy_entry option \<Rightarrow> string list" where
  "listed_under pick e \<equiv> or_else (Option.bind e pick) []"

lemma scan_candidates_eq:
  "scan_candidates tags raw nrm saw cs = (list_ex (\<lambda>c. matches_rule tags c raw nrm) cs, saw \<or> cs \<noteq> [])"
  by (induction cs arbitrary: saw) auto

lemma scan_list_fst:
  "fst (scan_list tags pick raw nrm saw es) = list_ex (\<lambda>e. list_ex (\<lambda>c. matches_rule tags c raw nrm) (listed_under pick e)) es"
  by (induction es arbitrary: saw) (auto simp: scan_candidates_eq split: prod.splits bool.splits)

lemma scan_list_snd:
  "\<not> fst (scan_list tags pick raw nrm saw es) \<Longrightarrow>
   snd (scan_list tags pick raw nrm saw es) = (saw \<or> list_ex (\<lambda>e. listed_under pick e \<noteq> []) es)"
  by (induction es arbitrary: saw) (auto simp: scan_candidates_eq split: prod.splits bool.splits)

text \<open>The rule is listed by some entry of the map; anything is.\<close>

definition listed_rule :: "string list \<Rightarrow> (rule_policy_entry \<Rightarrow> string list option) \<Rightarrow> rule_policy_map \<Rightarrow> string \<Rightarrow> bool" where
  "listed_rule tags pick m rule \<longleftrightarrow>
     list_ex (\<lambda>c. c = rule \<or> normalize_rule_id tags c = normalize_rule_id tags rule)
       (concat (map (\<lambda>(k, e). listed_under pick e) m))"

definition anything_listed :: "(rule_policy_entry \<Rightarrow> string list option) \<Rightarrow> rule_policy_map \<Rightarrow> bool" where
  "anything_listed pick m \<longleftrightarrow> concat (map (\<lambda>(k, e). listed_under pick e) m) \<noteq> []"

definition policy_allows :: "string list \<Rightarrow> rule_policy_map \<Rightarrow> string \<Rightarrow> bool" where
  "policy_allows tags m rule \<longleftrightarrow>
     \<not> listed_rule tags rp_disable m rule \<and> (anything_listed rp_select m \<longrightarrow> listed_rule tags rp_select m rule)"

lemma matches_rule_iff [simp]:
  "matches_rule tags c raw (normalize_rule_id tags raw) \<longleftrightarrow> c = raw \<or> normalize_rule_id tags c = normalize_rule_id tags raw"
  by (simp add: matches_rule_def)

lemma scan_list_listed:
  "fst (scan_list tags pick raw (normalize_rule_id tags raw) saw (map snd m)) = listed_rule tags pick m raw"
  unfolding scan_list_fst by (induction m) (auto simp: listed_rule_def)

lemma evaluate_rule_policy_iff: "evaluate_rule_policy tags rule (Some m) \<longleftrightarrow> \<not> policy_allows tags m rule"
proof -
  have any: "list_ex (\<lambda>e. listed_under rp_select e \<noteq> []) (map snd m) \<longleftrightarrow> anything_listed rp_select m"
    by (induction m) (auto simp: anything_listed_def)
  show ?thesis
    using scan_list_snd [of tags rp_select rule "normalize_rule_id tags rule" False "map snd m"]
    unfolding any by (auto simp: evaluate_rule_policy_def policy_allows_def Let_def scan_list_listed case_prod_beta)
qed

text \<open>The policy keeps, in order, the findings without a rule id and those whose rule no entry
  disables and, if any entry selects anything, some entry selects; the labels the lists stand under play no part.
\<close>

theorem policy_keeps_what_it_allows:
  "apply_rule_policy tags policy ds =
     filter (\<lambda>d. case policy of None \<Rightarrow> True
                | Some m \<Rightarrow> or_else (policy_key d) [] = [] \<or> policy_allows tags m (or_else (policy_key d) [])) ds"
proof (cases policy)
  case (Some m)
  have "keeps_by_policy tags policy d \<longleftrightarrow> or_else (policy_key d) [] = [] \<or> policy_allows tags m (or_else (policy_key d) [])" for d
    by (cases "policy_key d") (auto simp: keeps_by_policy_def Some evaluate_rule_policy_iff or_else_def)
  then have keep: "keeps_by_policy tags policy = (\<lambda>d. or_else (policy_key d) [] = [] \<or> policy_allows tags m (or_else (policy_key d) []))"
    by blast
  show ?thesis
  proof (cases "list_ex has_policy (map snd m)")
    case True
    then show ?thesis using Some keep by (simp add: apply_rule_policy_def)
  next
    case False
    have "listed_under rp_disable e = [] \<and> listed_under rp_select e = []" if "(k, e) \<in> set m" for k e
    proof -
      have "\<not> has_policy e" using False that by (force simp: list_ex_iff)
      then show ?thesis by (cases e) (simp_all add: has_policy_def or_else_def)
    qed
    then have "policy_allows tags m rule" for rule
      by (fastforce simp: policy_allows_def listed_rule_def anything_listed_def list_ex_iff)
    then show ?thesis using Some False by (simp add: apply_rule_policy_def)
  qed
qed (simp add: apply_rule_policy_def)

text \<open>The part of an entry the built map keeps lists what the entry lists.\<close>

lemma policy_part_lists:
  "has_policy e \<Longrightarrow> listed_under rp_disable (map_option policy_part e) = listed_under rp_disable e"
  "has_policy e \<Longrightarrow> listed_under rp_select (map_option policy_part e) = listed_under rp_select e"
  "\<not> has_policy e \<Longrightarrow> listed_under rp_disable e = []"
  "\<not> has_policy e \<Longrightarrow> listed_under rp_select e = []"
  by (cases e; auto simp: has_policy_def policy_part_def or_else_def split: option.splits)+

abbreviation policies_of :: "rule_policy_map \<Rightarrow> rule_policy_map" where
  "policies_of m \<equiv> map (\<lambda>(k, e). (k, map_option policy_part e)) (filter (\<lambda>(k, e). has_policy e) m)"

lemma policy_from_config:
  assumes "wf_map m"
  shows "rule_policy_map_from_config (Some m) = (if policies_of m = [] then None else Some (policies_of m))"
proof -
  have "foldl add_policy None m = (if policies_of m = [] then None else Some (policies_of m))"
    using assms
  proof (induction m rule: rev_induct)
    case (snoc x m)
    obtain k e where x: "x = (k, e)" by fastforce
    have wf: "wf_map m" and "k \<notin> set (keys_of m)" using snoc.prems by (auto simp: x)
    then have "k \<notin> set (keys_of (policies_of m))" by force
    then have grow: "AList.update k v (policies_of m) = policies_of m @ [(k, v)]" for v by (rule update_new)
    have "foldl add_policy None (m @ [x]) = add_policy (foldl add_policy None m) (k, e)" by (simp add: x)
    also have "\<dots> = (if has_policy e then Some (policies_of m @ [(k, map_option policy_part e)]) else foldl add_policy None m)"
      unfolding add_policy_def snoc.IH [OF wf] grow [symmetric] by (simp add: or_else_def)
    finally show ?case unfolding snoc.IH [OF wf] by (simp add: x)
  qed simp
  then show ?thesis by (simp only: rule_policy_map_from_config_def option.case)
qed

text \<open>The map built from the configuration filters like the configuration itself.\<close>

lemma policy_from_config_filters_alike:
  assumes "wf_map m"
  shows "apply_rule_policy tags (rule_policy_map_from_config (Some m)) ds = apply_rule_policy tags (Some m) ds"
proof -
  have disable: "concat (map (\<lambda>(k, e). listed_under rp_disable e) (policies_of m)) = concat (map (\<lambda>(k, e). listed_under rp_disable e) m)"
    by (induction m) (auto simp: policy_part_lists)
  have select: "concat (map (\<lambda>(k, e). listed_under rp_select e) (policies_of m)) = concat (map (\<lambda>(k, e). listed_under rp_select e) m)"
    by (induction m) (auto simp: policy_part_lists)
  have alike: "policy_allows tags (policies_of m) = policy_allows tags m"
    unfolding policy_allows_def listed_rule_def anything_listed_def disable select ..
  show ?thesis
  proof (cases "policies_of m = []")
    case True
    then have none: "rule_policy_map_from_config (Some m) = None" unfolding policy_from_config [OF assms] by simp
    have "\<not> list_ex has_policy (map snd m)" using True by (induction m) (auto split: if_splits)
    then show ?thesis unfolding none by (simp add: apply_rule_policy_def)
  next
    case False
    then have some: "rule_policy_map_from_config (Some m) = Some (policies_of m)" unfolding policy_from_config [OF assms] by simp
    show ?thesis unfolding some policy_keeps_what_it_allows option.case alike ..
  qed
qed

end
