(* ===== verification/Dispositions_Meaning.thy ===== *)
theory Dispositions_Meaning
  imports Dispositions
begin

text \<open>
  What marks do: the cached store answers what is on disk, a mark reaches exactly the findings of its
  anchor, a blocking finding is hidden only by a false-positive mark on a line with its content, a
  deferral stays in its project, and the multi-file filter is the per-file one.
\<close>

subsection \<open>The cache is transparent\<close>

text \<open>A cached state is what the file with that stamp parses to.\<close>

definition cache_current :: "marks \<Rightarrow> bool" where
  "cache_current w \<longleftrightarrow>
     (case mk_cache w of
        None \<Rightarrow> True
      | Some c \<Rightarrow>
          if sc_missing c then sc_state c = None
          else (\<forall>f. mk_disk w (sc_path c) = Some f \<and> sf_mtime f = sc_mtime c \<and> sf_size f = sc_size c \<longrightarrow>
                  deserialize_state (Some f) = sc_state c))"

lemma deserialize_None [simp]: "deserialize_state None = None"
  by (simp add: deserialize_state_def)

lemma cache_file_current [simp]: "cache_current (w\<lparr>mk_disk := d, mk_cache := Some (cache_file p f)\<rparr>) \<longleftrightarrow>
    (\<forall>g. d p = Some g \<and> sf_mtime g = sf_mtime f \<and> sf_size g = sf_size f \<longrightarrow> deserialize_state (Some g) = deserialize_state (Some f))"
  by (simp add: cache_current_def cache_file_def)

lemma cache_answer:
  assumes "cache_current w" "mk_cache w = Some c" "cache_answers p (mk_disk w p) c"
  shows "sc_state c = deserialize_state (mk_disk w p)"
  using assms by (cases "mk_disk w p") (auto simp: cache_current_def cache_answers_def split: if_splits)

lemma read_state_disk:
  assumes "cache_current w"
  shows "fst (read_state env cwd w) = deserialize_state (mk_disk w (de_state_path env cwd))"
    and "cache_current (snd (read_state env cwd w))"
    and "mk_disk (snd (read_state env cwd w)) = mk_disk w"
    and "mk_deferred (snd (read_state env cwd w)) = mk_deferred w"
proof -
  let ?p = "de_state_path env cwd"
  consider (hit) c where "mk_cache w = Some c" "cache_answers ?p (mk_disk w ?p) c" "read_state env cwd w = (sc_state c, w)"
    | (gone) "mk_disk w ?p = None" "read_state env cwd w = (None, w\<lparr>mk_cache := Some (cache_missing ?p)\<rparr>)"
    | (fresh) f where "mk_disk w ?p = Some f"
        "read_state env cwd w = (deserialize_state (Some f), w\<lparr>mk_cache := Some (cache_file ?p f)\<rparr>)"
    by (cases "mk_cache w"; cases "mk_disk w ?p"; force simp: read_state_def Let_def split: if_splits)
  note cases = this
  show "fst (read_state env cwd w) = deserialize_state (mk_disk w ?p)"
    by (cases rule: cases) (simp_all add: cache_answer [OF assms])
  show "cache_current (snd (read_state env cwd w))"
  proof (cases rule: cases)
    case fresh
    then show ?thesis using cache_file_current [where w = w and d = "mk_disk w" and p = ?p and f = f] by simp
  next
    case gone
    then show ?thesis by (simp add: cache_current_def cache_missing_def)
  qed (simp add: assms)
  show "mk_disk (snd (read_state env cwd w)) = mk_disk w" "mk_deferred (snd (read_state env cwd w)) = mk_deferred w"
    by (cases rule: cases; simp)+
qed

lemma read_state_eq:
  assumes "cache_current w"
  obtains w' where "read_state env cwd w = (deserialize_state (mk_disk w (de_state_path env cwd)), w')"
    "cache_current w'" "mk_disk w' = mk_disk w" "mk_deferred w' = mk_deferred w"
  using read_state_disk [OF assms, of env cwd] that by (metis prod.collapse)

text \<open>What the filters answer, without the cache and without their early returns.\<close>

definition hidden :: "disposition_env \<Rightarrow> path \<Rightarrow> path \<Rightarrow> string \<Rightarrow> marks \<Rightarrow> finding \<Rightarrow> bool" where
  "hidden env cwd p content w d \<longleftrightarrow>
     \<not> keeps_finding env cwd p content (deserialize_state (mk_disk w (de_state_path env cwd))) (mk_deferred w) d"

lemma no_marks_keep [simp]: "keeps_finding env cwd p content None [] d"
  by (simp add: keeps_finding_def marked_as_def lookup_mark_def split: prod.splits)

lemma apply_dispositions_eq:
  assumes "cache_current w"
  obtains w' where "apply_dispositions env cwd p content ds w = (filter (\<lambda>d. \<not> hidden env cwd p content w d) ds, w')"
    "cache_current w'" "mk_disk w' = mk_disk w" "mk_deferred w' = mk_deferred w"
proof -
  obtain w' where r: "read_state env cwd w = (deserialize_state (mk_disk w (de_state_path env cwd)), w')"
    and w': "cache_current w'" "mk_disk w' = mk_disk w" "mk_deferred w' = mk_deferred w"
    using read_state_eq [OF assms] by blast
  show thesis
  proof (cases "ds = []")
    case True
    then show thesis using that [of w] assms by (simp add: apply_dispositions_def)
  next
    case False
    then show thesis using that [of w'] r w'
      by (auto simp: apply_dispositions_def hidden_def)
  qed
qed

subsection \<open>Which marks hide a finding\<close>

text \<open>The text an anchor is the hash of.\<close>

abbreviation strict_text :: "disposition_env \<Rightarrow> path \<Rightarrow> path \<Rightarrow> finding \<Rightarrow> string option \<Rightarrow> string" where
  "strict_text env cwd p d content \<equiv> finding_text (de_host env) cwd p (strict_parts d content)"

abbreviation weak_text :: "disposition_env \<Rightarrow> path \<Rightarrow> path \<Rightarrow> finding \<Rightarrow> string" where
  "weak_text env cwd p d \<equiv> finding_text (de_host env) cwd p (weak_parts d)"

lemma anchor_kinds_differ [simp]:
  "compute_strict_anchor env cwd p d c \<noteq> compute_weak_anchor env cwd' p' d'"
  "compute_weak_anchor env cwd' p' d' \<noteq> compute_strict_anchor env cwd p d c"
  by (simp_all add: compute_strict_anchor_def compute_weak_anchor_def stable_finding_id_def)

lemma hidden_iff:
  "hidden env cwd p content w d \<longleftrightarrow>
     (let st = deserialize_state (mk_disk w (de_state_path env cwd))
      in marked_as st (compute_strict_anchor env cwd p d (Some content)) False_Positive \<or>
         \<not> is_blocking d \<and>
           (deferred_key env cwd (compute_weak_anchor env cwd p d) \<in> set (mk_deferred w) \<or>
            marked_as st (compute_weak_anchor env cwd p d) Suppress))"
  by (auto simp: hidden_def keeps_finding_def anchors_for_diagnostic_def Let_def)

lemma mark_defer:
  assumes "cache_current w"
  obtains w' where "mark_disposition env out now cwd t Defer reason w = (Some (mark_anchor env t Defer), w')"
    "cache_current w'" "mk_disk w' = mk_disk w"
    "set (mk_deferred w') = insert (deferred_key env cwd (mark_anchor env t Defer)) (set (mk_deferred w))"
proof -
  obtain st w1 where r: "read_state env cwd w = (st, w1)"
    and w1: "cache_current w1" "mk_disk w1 = mk_disk w" "mk_deferred w1 = mk_deferred w"
    using read_state_eq [OF assms] by blast
  let ?w = "add_deferral (deferred_key env cwd (mark_anchor env t Defer)) w1"
  have "mark_disposition env out now cwd t Defer reason w = (Some (mark_anchor env t Defer), ?w)"
    using r by (simp add: mark_disposition_def Let_def)
  moreover have "cache_current ?w" using w1(1) by (simp add: cache_current_def add_deferral_def split: option.splits)
  moreover have "mk_disk ?w = mk_disk w" using w1(2) by (simp add: add_deferral_def)
  moreover have "set (mk_deferred ?w) = insert (deferred_key env cwd (mark_anchor env t Defer)) (set (mk_deferred w))"
    using w1(3) by (auto simp: add_deferral_def)
  ultimately show thesis using that by blast
qed

lemma marked_update:
  assumes "dn_disposition e = disp"
  shows "marked_as (Some (AList.update b e (or_else st []))) a x \<longleftrightarrow> (if a = b then x = disp else marked_as st a x)"
  using assms by (cases st) (auto simp: marked_as_def lookup_mark_def or_else_def get_update)

lemma mark_stored:
  assumes "cache_current w" "disp \<noteq> Defer"
  obtains w' where "mark_disposition env (Written mt sz) now cwd t disp reason w = (Some (mark_anchor env t disp), w')"
    "cache_current w'" "mk_deferred w' = mk_deferred w"
    "\<And>p. p \<noteq> de_state_path env cwd \<Longrightarrow> mk_disk w' p = mk_disk w p"
    "\<And>a x. marked_as (deserialize_state (mk_disk w' (de_state_path env cwd))) a x \<longleftrightarrow>
       (if a = mark_anchor env t disp then x = disp else marked_as (deserialize_state (mk_disk w (de_state_path env cwd))) a x)"
proof -
  let ?p = "de_state_path env cwd" and ?a = "mark_anchor env t disp"
  let ?st = "deserialize_state (mk_disk w ?p)"
  obtain w1 where r: "read_state env cwd w = (?st, w1)"
    and w1: "cache_current w1" "mk_disk w1 = mk_disk w" "mk_deferred w1 = mk_deferred w"
    using read_state_eq [OF assms(1)] by blast
  let ?e = "mark_entry t disp reason now (lookup_mark ?st ?a)"
  let ?new = "Some (AList.update ?a ?e (or_else ?st []))"
  let ?f = "\<lparr>sf_mtime = mt, sf_size = sz, sf_parsed = Some ?new\<rparr>"
  let ?w = "w1\<lparr>mk_disk := (mk_disk w1)(?p := Some ?f), mk_cache := Some (cache_file ?p ?f)\<rparr>"
  have kind: "dn_disposition ?e = disp" by (simp add: mark_entry_def)
  have disk: "deserialize_state (mk_disk ?w ?p) = ?new" by (simp add: deserialize_state_def or_else_def)
  have "mark_disposition env (Written mt sz) now cwd t disp reason w = (Some ?a, ?w)"
    using r w1 assms(2) by (simp add: mark_disposition_def commit_disposition_def Let_def)
  moreover have "cache_current ?w" by simp
  moreover have "marked_as (deserialize_state (mk_disk ?w ?p)) a x \<longleftrightarrow> (if a = ?a then x = disp else marked_as ?st a x)" for a x
    unfolding disk by (rule marked_update [OF kind])
  ultimately show thesis using that [of ?w] w1(2,3) by simp
qed

text \<open>C17 (functional). A mark reaches exactly the findings of its anchor: after a mark the filter hides what it
  hid before and, for a false positive, the findings with the same strict anchor; for a suppression or a
  deferral, the findings with the same weak anchor that do not block; a flag lifts a suppression of its
  anchor and hides nothing.  A mark whose commit fails changes nothing.
\<close>

theorem mark_reaches_its_findings:
  assumes "cache_current w"
  shows "case mark_disposition env out now cwd t disp reason w of (answer, w') \<Rightarrow>
    cache_current w' \<and>
    (hidden env cwd p content w' d \<longleftrightarrow>
      (case answer of
         None \<Rightarrow> hidden env cwd p content w d
       | Some a \<Rightarrow>
          (case disp of
             False_Positive \<Rightarrow> compute_strict_anchor env cwd p d (Some content) = a \<or> hidden env cwd p content w d
           | Suppress \<Rightarrow> (\<not> is_blocking d \<and> compute_weak_anchor env cwd p d = a) \<or> hidden env cwd p content w d
           | Defer \<Rightarrow> (\<not> is_blocking d \<and> deferred_key env cwd (compute_weak_anchor env cwd p d) = deferred_key env cwd a)
               \<or> hidden env cwd p content w d
           | Flagged \<Rightarrow> hidden env cwd p content w d \<and>
               (compute_weak_anchor env cwd p d = a \<longrightarrow>
                  marked_as (deserialize_state (mk_disk w (de_state_path env cwd))) (compute_strict_anchor env cwd p d (Some content)) False_Positive
                  \<or> deferred_key env cwd a \<in> set (mk_deferred w)))))"
proof (cases "disp = Defer")
  case True
  obtain w' where "mark_disposition env out now cwd t Defer reason w = (Some (mark_anchor env t Defer), w')"
    "cache_current w'" "mk_disk w' = mk_disk w"
    "set (mk_deferred w') = insert (deferred_key env cwd (mark_anchor env t Defer)) (set (mk_deferred w))"
    by (rule mark_defer [OF assms])
  then show ?thesis using True by (auto simp: hidden_iff Let_def)
next
  case False
  show ?thesis
  proof (cases out)
    case (Written mt sz)
    obtain w' where "mark_disposition env (Written mt sz) now cwd t disp reason w = (Some (mark_anchor env t disp), w')"
      "cache_current w'" "mk_deferred w' = mk_deferred w"
      "\<And>a x. marked_as (deserialize_state (mk_disk w' (de_state_path env cwd))) a x \<longleftrightarrow>
         (if a = mark_anchor env t disp then x = disp else marked_as (deserialize_state (mk_disk w (de_state_path env cwd))) a x)"
      by (rule mark_stored [OF assms False]) blast
    then show ?thesis using Written False
      by (cases disp) (auto simp: hidden_iff Let_def mark_anchor_def)
  qed (insert False, rule read_state_eq [OF assms, of env cwd],
      simp add: mark_disposition_def commit_disposition_def Let_def hidden_def)+
qed

subsection \<open>Many files\<close>

definition groups_ok :: "finding list \<Rightarrow> (path, finding list) js_map \<Rightarrow> bool" where
  "groups_ok ds groups \<longleftrightarrow>
     (\<forall>p. map_of groups p = (if p \<in> fd_file ` set ds then Some (filter (\<lambda>d. fd_file d = p) ds) else None)) \<and> wf_map groups"

lemma groups_of_files: "groups_ok ds (group_by_file ds)"
proof (induction ds rule: rev_induct)
  case Nil
  then show ?case by (simp add: groups_ok_def group_by_file_def)
next
  case (snoc d ds)
  have step: "group_by_file (ds @ [d]) = add_to_group (group_by_file ds) d" by (simp add: group_by_file_def)
  show ?case
  proof (cases "fd_file d \<in> fd_file ` set ds")
    case True
    then have "map_of (group_by_file ds) (fd_file d) = Some (filter (\<lambda>x. fd_file x = fd_file d) ds)"
      using snoc.IH by (simp add: groups_ok_def)
    then show ?thesis using snoc.IH True by (auto simp: step add_to_group_def groups_ok_def get_update)
  next
    case False
    then have "map_of (group_by_file ds) (fd_file d) = None" using snoc.IH by (simp add: groups_ok_def)
    moreover have "filter (\<lambda>x. fd_file x = fd_file d) ds = []" unfolding filter_empty_conv by (metis False imageI)
    ultimately show ?thesis using snoc.IH False by (auto simp: step add_to_group_def groups_ok_def get_update)
  qed
qed

lemma hidden_same_disk:
  "mk_disk w' = mk_disk w \<Longrightarrow> mk_deferred w' = mk_deferred w \<Longrightarrow> hidden env cwd p content w' = hidden env cwd p content w"
  by (simp add: hidden_def fun_eq_iff)

lemma in_kept_groups:
  "d \<in> set (concat (map (\<lambda>(p, g). filter (P p) g) gs)) \<longleftrightarrow> (\<exists>p g. (p, g) \<in> set gs \<and> d \<in> set g \<and> P p d)"
  by (induction gs) auto

lemma filter_groups:
  assumes "cache_current w"
  shows "\<exists>w'. foldl (filter_group env cwd read_file) (kept, w) groups =
      (kept @ concat (map (\<lambda>(p, g). filter (\<lambda>d. \<not> hidden env cwd p (or_else (read_file p) []) w d) g) groups), w')"
  using assms
proof (induction groups arbitrary: kept w)
  case (Cons g groups)
  obtain p ds where g: "g = (p, ds)" by fastforce
  obtain w1 where a: "apply_dispositions env cwd p (or_else (read_file p) []) ds w
      = (filter (\<lambda>d. \<not> hidden env cwd p (or_else (read_file p) []) w d) ds, w1)"
    and w1: "cache_current w1" "mk_disk w1 = mk_disk w" "mk_deferred w1 = mk_deferred w"
    by (rule apply_dispositions_eq [OF Cons.prems])
  have one: "filter_group env cwd read_file (kept, w) g =
      (kept @ filter (\<lambda>d. \<not> hidden env cwd p (or_else (read_file p) []) w d) ds, w1)"
    using a by (simp add: g filter_group_def)
  show ?case
    using Cons.IH [OF w1(1), of "kept @ filter (\<lambda>d. \<not> hidden env cwd p (or_else (read_file p) []) w d) ds"]
    unfolding foldl_Cons one hidden_same_disk [OF w1(2,3)] by (simp add: g)
qed simp

lemma multi_file_filter:
  assumes "cache_current w"
  shows "fst (apply_dispositions_multi_file env cwd read_file ds w) =
    filter (\<lambda>d. \<not> hidden env cwd (fd_file d) (or_else (read_file (fd_file d)) []) w d) ds"
proof -
  let ?hid = "\<lambda>d. hidden env cwd (fd_file d) (or_else (read_file (fd_file d)) []) w d"
  obtain w1 where r: "read_state env cwd w = (deserialize_state (mk_disk w (de_state_path env cwd)), w1)"
    and w1: "cache_current w1" "mk_disk w1 = mk_disk w" "mk_deferred w1 = mk_deferred w"
    using read_state_eq [OF assms] by blast
  show ?thesis
  proof (cases "ds = [] \<or> deserialize_state (mk_disk w (de_state_path env cwd)) = None \<and> mk_deferred w = []")
    case True
    then show ?thesis using r w1 by (auto simp: apply_dispositions_multi_file_def hidden_def)
  next
    case False
    let ?gs = "group_by_file ds"
    let ?kept = "concat (map (\<lambda>(p, g). filter (\<lambda>d. \<not> hidden env cwd p (or_else (read_file p) []) w1 d) g) ?gs)"
    obtain w2 where f: "foldl (filter_group env cwd read_file) ([], w1) ?gs = (?kept, w2)"
      using filter_groups [OF w1(1), of env cwd read_file "[]" ?gs] by auto
    have g: "groups_ok ds ?gs" by (rule groups_of_files)
    then have wf: "wf_map ?gs" by (simp add: groups_ok_def)
    have mem: "d \<in> set ?kept \<longleftrightarrow> \<not> ?hid d" if d: "d \<in> set ds" for d
    proof -
      have own: "(fd_file d, filter (\<lambda>x. fd_file x = fd_file d) ds) \<in> set ?gs"
        using g d by (intro map_of_SomeD) (simp add: groups_ok_def)
      have other: "fd_file d = p" if "(p, ds') \<in> set ?gs" "d \<in> set ds'" for p ds'
      proof -
        have "map_of ?gs p = Some ds'" using that(1) wf by simp
        then have "ds' = filter (\<lambda>d. fd_file d = p) ds" using g unfolding groups_ok_def by (metis option.distinct(1) option.inject)
        then show ?thesis using that(2) by simp
      qed
      have "d \<in> set (filter (\<lambda>x. fd_file x = fd_file d) ds)" using d by simp
      then show ?thesis unfolding in_kept_groups hidden_same_disk [OF w1(2,3)] using own other by blast
    qed
    have "fst (apply_dispositions_multi_file env cwd read_file ds w) = filter (\<lambda>d. d \<in> set ?kept) ds"
      using False r w1 f by (auto simp: apply_dispositions_multi_file_def)
    also have "\<dots> = filter (\<lambda>d. \<not> ?hid d) ds" using mem by (intro filter_cong) auto
    finally show ?thesis .
  qed
qed

text \<open>C18 (equivalence). The filter over the findings of many files, which groups them and reads every file once,
  keeps what filtering each finding by itself against its own file keeps, in the caller's order; a file that
  cannot be read counts as empty.
\<close>

theorem multi_file_filter_is_per_file:
  assumes "cache_current w"
  shows "fst (apply_dispositions_multi_file env cwd read_file ds w) =
    concat (map (\<lambda>d. fst (apply_dispositions env cwd (fd_file d) (or_else (read_file (fd_file d)) []) [d] w)) ds)"
proof -
  have one: "fst (apply_dispositions env cwd p content [d] w) = (if hidden env cwd p content w d then [] else [d])" for p content d
    by (rule apply_dispositions_eq [OF assms, of env cwd p content "[d]"]) simp
  show ?thesis unfolding multi_file_filter [OF assms] one by (induction ds) auto
qed

end
