(* ===== verification/Dispositions_Runs.thy ===== *)
theory Dispositions_Runs
  imports Dispositions_Meaning
begin

text \<open>
  Runs of the disposition store: marks of this process, marks other processes commit to the same file,
  reads in between.  What a run hides goes back to marks somebody made.
\<close>

subsection \<open>Runs\<close>

type_synonym mark_history = "(path \<times> mark_target \<times> disposition) list"

text \<open>A foreign write is noticed unless it leaves the stamp the cache holds and other marks.\<close>

definition stamp_is_news :: "marks \<Rightarrow> path \<Rightarrow> store_file option \<Rightarrow> bool" where
  "stamp_is_news w p f \<longleftrightarrow>
     (\<forall>c s. mk_cache w = Some c \<and> sc_path c = p \<and> \<not> sc_missing c \<and> f = Some s \<and> sf_mtime s = sc_mtime c \<and> sf_size s = sc_size c
        \<longrightarrow> deserialize_state (Some s) = sc_state c)"

inductive marks_run :: "disposition_env \<Rightarrow> mark_history \<Rightarrow> marks \<Rightarrow> bool" for env where
  fresh: "marks_run env [] no_marks"
| marked: "marks_run env hist w \<Longrightarrow> mark_disposition env out now cwd t disp reason w = (Some a, w') \<Longrightarrow>
    marks_run env ((cwd, t, disp) # hist) w'"
| mark_throws: "marks_run env hist w \<Longrightarrow> mark_disposition env out now cwd t disp reason w = (None, w') \<Longrightarrow> marks_run env hist w'"
| looked_up: "marks_run env hist w \<Longrightarrow> marks_run env hist (snd (read_state env cwd w))"
| foreign_mark: "marks_run env hist w \<Longrightarrow> disp \<noteq> Defer \<Longrightarrow> cache_current (w\<lparr>mk_cache := other\<rparr>) \<Longrightarrow>
    mark_disposition env (Written mt sz) now cwd t disp reason (w\<lparr>mk_cache := other\<rparr>) = (Some a, v) \<Longrightarrow>
    stamp_is_news w (de_state_path env cwd) (mk_disk v (de_state_path env cwd)) \<Longrightarrow>
    marks_run env ((cwd, t, disp) # hist) (w\<lparr>mk_disk := mk_disk v\<rparr>)"
| restart: "marks_run env hist w \<Longrightarrow> marks_run env hist (w\<lparr>mk_cache := None, mk_deferred := []\<rparr>)"

text \<open>Every stored mark was made, and every deferral too.\<close>

definition was_marked :: "disposition_env \<Rightarrow> mark_history \<Rightarrow> path \<Rightarrow> string \<Rightarrow> disposition \<Rightarrow> bool" where
  "was_marked env hist p a x \<longleftrightarrow>
     (\<exists>c t. (c, t, x) \<in> set hist \<and> de_state_path env c = p \<and> mark_anchor env t x = a)"

definition was_deferred :: "disposition_env \<Rightarrow> mark_history \<Rightarrow> string \<Rightarrow> bool" where
  "was_deferred env hist k \<longleftrightarrow> (\<exists>c t. (c, t, Defer) \<in> set hist \<and> k = deferred_key env c (mark_anchor env t Defer))"

definition marks_are_made :: "disposition_env \<Rightarrow> mark_history \<Rightarrow> marks \<Rightarrow> bool" where
  "marks_are_made env hist w \<longleftrightarrow>
     (\<forall>cwd a x. marked_as (deserialize_state (mk_disk w (de_state_path env cwd))) a x \<longrightarrow>
        was_marked env hist (de_state_path env cwd) a x) \<and>
     (\<forall>k \<in> set (mk_deferred w). was_deferred env hist k)"

lemma was_marked_Cons [simp]:
  "was_marked env ((cwd, t, disp) # hist) p a x \<longleftrightarrow>
     (x = disp \<and> de_state_path env cwd = p \<and> mark_anchor env t disp = a) \<or> was_marked env hist p a x"
  by (auto simp: was_marked_def)

lemma was_deferred_Cons [simp]:
  "was_deferred env ((cwd, t, disp) # hist) k \<longleftrightarrow>
     (disp = Defer \<and> k = deferred_key env cwd (mark_anchor env t Defer)) \<or> was_deferred env hist k"
  by (auto simp: was_deferred_def)

lemma made_mono: "marks_are_made env hist w \<Longrightarrow> marks_are_made env ((cwd, t, disp) # hist) w"
  by (simp add: marks_are_made_def)

lemma made_parts:
  "marks_are_made env hist w \<Longrightarrow> mk_disk w' = mk_disk w \<Longrightarrow> set (mk_deferred w') \<subseteq> set (mk_deferred w) \<Longrightarrow> marks_are_made env hist w'"
  by (auto simp: marks_are_made_def)

lemma mark_cases:
  assumes "cache_current w" "mark_disposition env out now cwd t disp reason w = (answer, w')"
  obtains (throws) "answer = None" "cache_current w'" "mk_disk w' = mk_disk w" "mk_deferred w' = mk_deferred w" "disp \<noteq> Defer"
  | (defers) "answer = Some (mark_anchor env t Defer)" "disp = Defer" "cache_current w'" "mk_disk w' = mk_disk w"
      "set (mk_deferred w') = insert (deferred_key env cwd (mark_anchor env t Defer)) (set (mk_deferred w))"
  | (stores) mt sz where "out = Written mt sz" "answer = Some (mark_anchor env t disp)" "disp \<noteq> Defer" "cache_current w'" "mk_deferred w' = mk_deferred w"
      "\<And>p. p \<noteq> de_state_path env cwd \<Longrightarrow> mk_disk w' p = mk_disk w p"
      "\<And>a x. marked_as (deserialize_state (mk_disk w' (de_state_path env cwd))) a x \<longleftrightarrow>
         (if a = mark_anchor env t disp then x = disp else marked_as (deserialize_state (mk_disk w (de_state_path env cwd))) a x)"
proof (cases "disp = Defer")
  case True
  obtain v where "mark_disposition env out now cwd t Defer reason w = (Some (mark_anchor env t Defer), v)"
    "cache_current v" "mk_disk v = mk_disk w"
    "set (mk_deferred v) = insert (deferred_key env cwd (mark_anchor env t Defer)) (set (mk_deferred w))"
    by (rule mark_defer [OF assms(1)])
  then show thesis using assms(2) True defers by simp
next
  case False
  show thesis
  proof (cases out)
    case (Written mt sz)
    obtain v where "mark_disposition env (Written mt sz) now cwd t disp reason w = (Some (mark_anchor env t disp), v)"
      "cache_current v" "mk_deferred v = mk_deferred w"
      "\<And>p. p \<noteq> de_state_path env cwd \<Longrightarrow> mk_disk v p = mk_disk w p"
      "\<And>a x. marked_as (deserialize_state (mk_disk v (de_state_path env cwd))) a x \<longleftrightarrow>
         (if a = mark_anchor env t disp then x = disp else marked_as (deserialize_state (mk_disk w (de_state_path env cwd))) a x)"
      using mark_stored [OF assms(1) False] by metis
    then show thesis using assms(2) Written False stores [of mt sz] by simp
  qed (insert assms(2) False, rule read_state_eq [OF assms(1), of env cwd],
      simp add: mark_disposition_def commit_disposition_def Let_def, rule throws, auto)+
qed

lemma made_by_mark:
  assumes "marks_are_made env hist w" "cache_current w" "mark_disposition env out now cwd t disp reason w = (Some a, w')"
  shows "marks_are_made env ((cwd, t, disp) # hist) w'"
  using assms(2,3)
proof (cases rule: mark_cases)
  case defers
  then show ?thesis using assms(1) by (simp add: marks_are_made_def)
next
  case (stores mt sz)
  have "was_marked env ((cwd, t, disp) # hist) (de_state_path env d) b x"
    if m: "marked_as (deserialize_state (mk_disk w' (de_state_path env d))) b x" for d b x
  proof (cases "de_state_path env d = de_state_path env cwd")
    case True
    then show ?thesis using m stores(7) [of b x] assms(1) by (auto simp: marks_are_made_def split: if_splits)
  next
    case False
    then show ?thesis using m stores(6) assms(1) by (simp add: marks_are_made_def)
  qed
  then show ?thesis using assms(1) stores(5) by (simp add: marks_are_made_def)
qed simp

lemma marks_run_inv: "marks_run env hist w \<Longrightarrow> cache_current w \<and> marks_are_made env hist w"
proof (induction rule: marks_run.induct)
  case fresh
  then show ?case by (simp add: cache_current_def marks_are_made_def no_marks_def marked_as_def lookup_mark_def)
next
  case (marked hist w out now cwd t disp reason a w')
  have "cache_current w'" by (rule mark_cases [OF conjunct1 [OF marked.IH] marked.hyps(2)])
  then show ?case using made_by_mark [OF _ _ marked.hyps(2)] marked.IH by blast
next
  case (mark_throws hist w out now cwd t disp reason w')
  from conjunct1 [OF mark_throws.IH] mark_throws.hyps(2) show ?case
  proof (cases rule: mark_cases)
    case throws
    then show ?thesis using made_parts [OF conjunct2 [OF mark_throws.IH], of w'] by simp
  qed simp_all
next
  case (looked_up hist w cwd)
  then show ?case using read_state_disk [of w env cwd] by (auto intro: made_parts)
next
  case (foreign_mark hist w disp other mt sz now cwd t reason a v)
  let ?w0 = "w\<lparr>mk_cache := other\<rparr>" and ?p = "de_state_path env cwd"
  have "marks_are_made env hist ?w0" using foreign_mark.IH by (auto intro: made_parts)
  then have made: "marks_are_made env ((cwd, t, disp) # hist) v" by (rule made_by_mark [OF _ foreign_mark.hyps(3,4)])
  from foreign_mark.hyps(3,4) have same: "mk_deferred v = mk_deferred w \<and> (\<forall>p. p \<noteq> ?p \<longrightarrow> mk_disk v p = mk_disk w p)"
    by (cases rule: mark_cases) (use foreign_mark.hyps(2) in auto)
  have "marks_are_made env ((cwd, t, disp) # hist) (w\<lparr>mk_disk := mk_disk v\<rparr>)"
    by (rule made_parts [OF made]) (use same in auto)
  moreover have "cache_current (w\<lparr>mk_disk := mk_disk v\<rparr>)"
  proof (cases "mk_cache w")
    case (Some c)
    show ?thesis
    proof (cases "sc_path c = ?p")
      case True
      then show ?thesis using Some foreign_mark.hyps(5) foreign_mark.IH
        by (auto simp: cache_current_def stamp_is_news_def)
    next
      case False
      then show ?thesis using Some same foreign_mark.IH by (simp add: cache_current_def)
    qed
  qed (simp add: cache_current_def)
  ultimately show ?case by blast
next
  case (restart hist w)
  then show ?case by (auto simp: cache_current_def intro: made_parts)
qed

subsection \<open>What an anchor says\<close>

lemma bars_in_join:
  "ws \<noteq> [] \<Longrightarrow> length (filter (\<lambda>x. x = c) (join_with c ws)) = length ws - 1 + sum_list (map (\<lambda>w. length (filter (\<lambda>x. x = c) w)) ws)"
proof (induction ws rule: join_with.induct)
  case (3 c w v ws)
  then show ?case by simp
qed auto

text \<open>Parts without a bar can be read back from the joined text, whatever the other parts hold.\<close>

lemma join_inj:
  assumes "join_with c ws = join_with c vs" "length ws = length vs" "\<forall>w \<in> set ws. c \<notin> set w"
  shows "vs = ws"
proof (cases "ws = []")
  case False
  let ?n = "\<lambda>us. map (\<lambda>w. length (filter (\<lambda>x. x = c) w)) us"
  have clean: "length (filter (\<lambda>x. x = c) w) = 0 \<longleftrightarrow> c \<notin> set w" for w :: string by (auto simp: filter_empty_conv)
  have "sum_list (?n ws) = 0" using assms(3) clean by (auto simp: sum_list_eq_0_iff)
  then have "sum_list (?n vs) = 0"
    using bars_in_join [of ws c] bars_in_join [of vs c] assms(1,2) False by (metis add_left_cancel length_0_conv)
  then have "\<forall>v \<in> set vs. c \<notin> set v" using clean by (simp add: sum_list_eq_0_iff)
  then show ?thesis using assms False split_join by (metis length_0_conv)
qed (use assms in simp)

definition no_bar :: "string \<Rightarrow> bool" where
  "no_bar s \<longleftrightarrow> CHR ''|'' \<notin> set s"

lemma strict_text_parts:
  assumes "strict_text env c q e content' = strict_text env cwd p d content"
    and "no_bar (relative_file (de_host env) p cwd)" "no_bar (or_else (fd_tool d) [])" "no_bar (or_else (fd_rule d) [])"
      "no_bar (normalize_message (fd_message d))"
  shows "relative_file (de_host env) q c = relative_file (de_host env) p cwd \<and>
    or_else (fd_tool e) [] = or_else (fd_tool d) [] \<and> or_else (fd_rule e) [] = or_else (fd_rule d) [] \<and>
    normalize_message (fd_message e) = normalize_message (fd_message d) \<and>
    or_else (strict_anchor_span content' (fd_line e)) (line_content_hash []) =
      or_else (strict_anchor_span content (fd_line d)) (line_content_hash [])"
proof -
  have hex: "no_bar (line_content_hash l)" for l
  proof -
    have digit: "CHR ''|'' \<noteq> hex_digit (unat (drop_bit k w AND 15))" for k and w :: "32 word"
    proof -
      have "unat (drop_bit k w AND 15) < 16"
      proof -
        have "drop_bit k w AND 15 = take_bit 4 (drop_bit k w)" by (simp add: take_bit_eq_mask mask_eq_exp_minus_1)
        then show ?thesis using take_bit_nat_less_exp [of 4 "unat (drop_bit k w)"] by (simp add: unsigned_take_bit_eq)
      qed
      then have "unat (drop_bit k w AND 15) \<in> set [0..<16]" by simp
      moreover have "list_all (\<lambda>n. hex_digit n \<noteq> CHR ''|'') [0..<16]" by code_simp
      ultimately show ?thesis unfolding list_all_iff by (blast dest: not_sym)
    qed
    then show ?thesis using digit [of 0] by (simp add: no_bar_def line_content_hash_def hex8_def)
  qed
  have span: "no_bar (or_else (strict_anchor_span content (fd_line d)) (line_content_hash []))"
    using hex by (auto simp: strict_anchor_span_def or_else_def split: option.splits)
  let ?ws = "relative_file (de_host env) p cwd # map (\<lambda>part. or_else part []) (strict_parts d content)"
  let ?vs = "relative_file (de_host env) q c # map (\<lambda>part. or_else part []) (strict_parts e content')"
  have "?vs = ?ws"
    by (rule join_inj [of "CHR ''|''"])
      (use assms span in \<open>auto simp: finding_text_def strict_parts_def no_bar_def or_else_def [of "Some _"]\<close>)
  then show ?thesis by (simp add: strict_parts_def or_else_def [of "Some _"])
qed

subsection \<open>What hides a finding\<close>

lemma hidden_was_marked:
  assumes "marks_run env hist w" "hidden env cwd p content w d"
  shows "was_marked env hist (de_state_path env cwd) (compute_strict_anchor env cwd p d (Some content)) False_Positive \<or>
    \<not> is_blocking d \<and>
      (was_deferred env hist (deferred_key env cwd (compute_weak_anchor env cwd p d)) \<or>
       was_marked env hist (de_state_path env cwd) (compute_weak_anchor env cwd p d) Suppress)"
  using assms(2) marks_run_inv [OF assms(1)] by (auto simp: hidden_iff Let_def marks_are_made_def)

text \<open>C13 (safety). Whatever marks this and other processes have made, a blocking finding is hidden only by a
  false-positive mark in the same store, on a finding of the same file, tool, rule and normalized message
  whose marked line had the same 32-bit line hash: no suppression and no deferral hides it.  The anchor is a
  truncated hash of these parts joined by bars, so two conditions stand: the path, tool, rule and message of
  the finding hold no bar, and no false-positive mark made on another text has its anchor.
\<close>

theorem blocking_finding_needs_its_false_positive:
  assumes run: "marks_run env hist w" and blocking: "is_blocking d" and hid: "hidden env cwd p content w d"
    and no_collision: "\<And>c t. (c, t, False_Positive) \<in> set hist \<Longrightarrow>
      hash_text (de_sha env) (strict_text env (mt_cwd t) (fd_file (mt_finding t)) (mt_finding t) (mt_content t))
        = hash_text (de_sha env) (strict_text env cwd p d (Some content)) \<Longrightarrow>
      strict_text env (mt_cwd t) (fd_file (mt_finding t)) (mt_finding t) (mt_content t) = strict_text env cwd p d (Some content)"
    and bars: "no_bar (relative_file (de_host env) p cwd)" "no_bar (or_else (fd_tool d) [])" "no_bar (or_else (fd_rule d) [])"
      "no_bar (normalize_message (fd_message d))"
  shows "\<exists>c t. (c, t, False_Positive) \<in> set hist \<and> de_state_path env c = de_state_path env cwd \<and>
    relative_file (de_host env) (fd_file (mt_finding t)) (mt_cwd t) = relative_file (de_host env) p cwd \<and>
    or_else (fd_tool (mt_finding t)) [] = or_else (fd_tool d) [] \<and> or_else (fd_rule (mt_finding t)) [] = or_else (fd_rule d) [] \<and>
    normalize_message (fd_message (mt_finding t)) = normalize_message (fd_message d) \<and>
    or_else (strict_anchor_span (mt_content t) (fd_line (mt_finding t))) (line_content_hash []) =
      or_else (strict_anchor_span (Some content) (fd_line d)) (line_content_hash [])"
proof -
  have "was_marked env hist (de_state_path env cwd) (compute_strict_anchor env cwd p d (Some content)) False_Positive"
    using hidden_was_marked [OF run hid] blocking by blast
  then obtain c t where t: "(c, t, False_Positive) \<in> set hist" "de_state_path env c = de_state_path env cwd"
    "mark_anchor env t False_Positive = compute_strict_anchor env cwd p d (Some content)"
    unfolding was_marked_def by blast
  from t(3) have "hash_text (de_sha env) (strict_text env (mt_cwd t) (fd_file (mt_finding t)) (mt_finding t) (mt_content t))
        = hash_text (de_sha env) (strict_text env cwd p d (Some content))"
    by (simp add: mark_anchor_def compute_strict_anchor_def stable_finding_id_def)
  from strict_text_parts [OF no_collision [OF t(1) this] bars] t(1,2) show ?thesis by blast
qed

subsection \<open>A sample project\<close>

text \<open>A hash for the samples: the last twelve characters of the text.\<close>

definition sample_marks_env :: disposition_env where
  "sample_marks_env =
     \<lparr>de_host = sample_host\<lparr>realpath := (\<lambda>_. None)\<rparr>, de_sha = (\<lambda>s. lastn 12 s), de_state_path = (\<lambda>cwd. cwd @ ''/.pi-lens/cache/diagnostic-dispositions.json'')\<rparr>"

definition sample_finding :: finding where
  "sample_finding =
     \<lparr>fd_tool = Some ''eslint'', fd_rule = Some ''no-eval'', fd_code = None, fd_id = None, fd_message = ''Eval  is evil'',
      fd_line = Some 2, fd_semantic = Some ''blocking'', fd_file = ''/w/a.ts''\<rparr>"

definition sample_target :: mark_target where
  "sample_target = \<lparr>mt_cwd = ''/w'', mt_finding = sample_finding, mt_content = Some (''x'' @ [LF] @ ''eval(y)'')\<rparr>"

definition sample_marked :: marks where
  "sample_marked = snd (mark_disposition sample_marks_env (Written 1 1) ''now'' ''/w'' sample_target False_Positive None no_marks)"

lemma sample_marked_run: "marks_run sample_marks_env [(''/w'', sample_target, False_Positive)] sample_marked"
proof -
  have "fst (mark_disposition sample_marks_env (Written 1 1) ''now'' ''/w'' sample_target False_Positive None no_marks) \<noteq> None"
    by code_simp
  then show ?thesis unfolding sample_marked_def
    by (metis marks_run.fresh marks_run.marked not_None_eq prod.collapse)
qed

lemma blocking_finding_needs_its_false_positive_witness:
  "is_blocking sample_finding \<and> hidden sample_marks_env ''/w'' ''/w/a.ts'' (''eval(y)  '' @ [LF] @ ''eval( y )'') sample_marked sample_finding \<and>
   (\<exists>c t. (c, t, False_Positive) \<in> set [(''/w'', sample_target, False_Positive)] \<and>
      normalize_message (fd_message (mt_finding t)) = normalize_message (fd_message sample_finding))"
proof -
  let ?c = "''eval(y)  '' @ [LF] @ ''eval( y )''"
  have b: "is_blocking sample_finding" by code_simp
  have h: "hidden sample_marks_env ''/w'' ''/w/a.ts'' ?c sample_marked sample_finding" by code_simp
  have same: "strict_text sample_marks_env (mt_cwd sample_target) (fd_file (mt_finding sample_target)) (mt_finding sample_target) (mt_content sample_target)
      = strict_text sample_marks_env ''/w'' ''/w/a.ts'' sample_finding (Some ?c)" by code_simp
  have bars: "no_bar (relative_file (de_host sample_marks_env) ''/w/a.ts'' ''/w'')" "no_bar (or_else (fd_tool sample_finding) [])"
    "no_bar (or_else (fd_rule sample_finding) [])" "no_bar (normalize_message (fd_message sample_finding))"
    by code_simp+
  from blocking_finding_needs_its_false_positive [OF sample_marked_run b h _ bars] same
  have "\<exists>c t. (c, t, False_Positive) \<in> set [(''/w'', sample_target, False_Positive)] \<and>
      normalize_message (fd_message (mt_finding t)) = normalize_message (fd_message sample_finding)" by auto
  then show ?thesis using b h by blast
qed

lemma mark_reaches_its_findings_witness:
  "cache_current no_marks \<and> \<not> hidden sample_marks_env ''/w'' ''/w/a.ts'' (''x'' @ [LF] @ ''eval(y)'') no_marks sample_finding \<and>
   hidden sample_marks_env ''/w'' ''/w/a.ts'' (''x'' @ [LF] @ ''eval(y)'') sample_marked sample_finding"
proof -
  let ?c = "''x'' @ [LF] @ ''eval(y)''"
  have cc: "cache_current no_marks" by (simp add: cache_current_def no_marks_def)
  have not: "\<not> hidden sample_marks_env ''/w'' ''/w/a.ts'' ?c no_marks sample_finding" by code_simp
  have answer: "fst (mark_disposition sample_marks_env (Written 1 1) ''now'' ''/w'' sample_target False_Positive None no_marks)
      = Some (compute_strict_anchor sample_marks_env ''/w'' ''/w/a.ts'' sample_finding (Some ?c))" by code_simp
  from mark_reaches_its_findings [OF cc, where env = sample_marks_env and out = "Written 1 1" and now = "''now''" and cwd = "''/w''"
      and t = sample_target and disp = False_Positive and reason = None and p = "''/w/a.ts''" and content = ?c and d = sample_finding]
  have "hidden sample_marks_env ''/w'' ''/w/a.ts'' ?c sample_marked sample_finding"
    using answer by (simp add: sample_marked_def split: prod.splits)
  then show ?thesis using cc not by blast
qed

lemma multi_file_filter_is_per_file_witness:
  "fst (apply_dispositions_multi_file sample_marks_env ''/w'' (\<lambda>p. if p = ''/w/a.ts'' then Some (''x'' @ [LF] @ ''eval(y)'') else None)
     [sample_finding, sample_finding\<lparr>fd_file := ''/w/b.ts''\<rparr>] sample_marked) = [sample_finding\<lparr>fd_file := ''/w/b.ts''\<rparr>]"
proof -
  have cc: "cache_current sample_marked" using marks_run_inv [OF sample_marked_run] by blast
  show ?thesis unfolding multi_file_filter_is_per_file [OF cc] by code_simp
qed

text \<open>
  The comment at \<^verbatim>\<open>applyDispositionsMultiFile\<close> holds that the empty text of an unreadable file matches no mark
  made against the real content.  It matches a mark that was made on a blank line.
\<close>

lemma unreadable_file_can_hide:
  "let blank = sample_target\<lparr>mt_content := Some (''x'' @ [LF] @ '' '')\<rparr>;
       w = snd (mark_disposition sample_marks_env (Written 1 1) ''now'' ''/w'' blank False_Positive None no_marks)
   in is_blocking sample_finding \<and> fst (apply_dispositions_multi_file sample_marks_env ''/w'' (\<lambda>_. None) [sample_finding] w) = []"
  by code_simp

text \<open>Bars in the parts make different findings one: the rule \<^verbatim>\<open>b|c\<close> of a tool \<^verbatim>\<open>a\<close> and the rule \<^verbatim>\<open>c\<close> of a tool \<^verbatim>\<open>a|b\<close>.\<close>

lemma bars_can_collide:
  "compute_weak_anchor env cwd p (d\<lparr>fd_tool := Some ''a'', fd_rule := Some ''b|c''\<rparr>) =
   compute_weak_anchor env cwd p (d\<lparr>fd_tool := Some ''a|b'', fd_rule := Some ''c''\<rparr>)"
  by (simp add: compute_weak_anchor_def stable_finding_id_def finding_text_def weak_parts_def or_else_def)

text \<open>A deferral stays in its project: the keys tell projects with different map keys apart.\<close>

lemma deferral_stays_in_its_project:
  assumes "\<And>s. 12 \<le> length (de_sha env s)"
    and "deferred_key env cwd (compute_weak_anchor env cwd p d) = deferred_key env cwd' (compute_weak_anchor env cwd'' p' d')"
  shows "normalize_file_path (de_host env) cwd = normalize_file_path (de_host env) cwd' \<and>
    compute_weak_anchor env cwd p d = compute_weak_anchor env cwd'' p' d'"
proof -
  have len: "length (compute_weak_anchor env c q e) = 16" for c q e
    using assms(1) by (simp add: compute_weak_anchor_def stable_finding_id_def hash_text_def FINDING_ID_HASH_LENGTH_def min_absorb2)
  have "normalize_file_path (de_host env) cwd @ ''::'' = normalize_file_path (de_host env) cwd' @ ''::'' \<and>
      compute_weak_anchor env cwd p d = compute_weak_anchor env cwd'' p' d'"
    using assms(2) len by (intro append_eq_append_conv [THEN iffD1]) (auto simp: deferred_key_def)
  then show ?thesis by simp
qed

end
