(* ===== verification/Finding_Policy.thy ===== *)
theory Finding_Policy
  imports Finding_Filters_Meaning Dispositions_Runs
begin

text \<open>
  \<^verbatim>\<open>clients/dispatch/finding-policy.ts\<close>: the filter stack in front of every findings surface, inline comments,
  then marks, then the project's policy; the spellings under which a mark may know a finding; and the turn-end
  filters.  The lane that starts from raw language-server diagnostics is left out.
\<close>

subsection \<open>Spellings\<close>

type_synonym identity = "string option \<times> string option"

definition identity_key :: "identity \<Rightarrow> string" where
  "identity_key i = or_else (fst i) [] @ [CHR 0x00] @ or_else (snd i) []"

definition add_identity :: "identity list \<times> string list \<Rightarrow> identity \<Rightarrow> identity list \<times> string list" where
  "add_identity acc i =
     (case acc of (out, seen) \<Rightarrow>
        if identity_key i \<in> set seen then (out, seen) else (out @ [i], seen @ [identity_key i]))"

definition expand_rendered_identities :: "identity list \<Rightarrow> identity list" where
  "expand_rendered_identities rendered =
     fst (foldl (\<lambda>acc (tool, rule). foldl add_identity acc [(tool, rule), (None, rule)]) ([], []) rendered)"

definition probe_identities :: "finding \<Rightarrow> identity option \<Rightarrow> identity list" where
  "probe_identities canonical raw =
     expand_rendered_identities
       ((fd_tool canonical, fd_rule canonical) #
        (case raw of Some (source, code) \<Rightarrow> if source \<noteq> None \<or> code \<noteq> None then [(source, code)] else [] | None \<Rightarrow> []))"

definition rendered_rule_identities :: "finding \<Rightarrow> identity list" where
  "rendered_rule_identities d = expand_rendered_identities [(fd_tool d, fd_rule d)]"

definition inline_blocker_identities :: "finding \<Rightarrow> identity list" where
  "inline_blocker_identities d = expand_rendered_identities [(fd_tool d, fd_rule d), (None, None)]"

subsection \<open>The stack\<close>

definition candidate :: "finding \<Rightarrow> identity \<Rightarrow> finding" where
  "candidate d i =
     \<lparr>fd_tool = fst i, fd_rule = snd i, fd_code = None, fd_id = None, fd_message = fd_message d, fd_line = fd_line d,
      fd_semantic = fd_semantic d, fd_file = fd_file d\<rparr>"

definition expanded :: "('f \<Rightarrow> finding) \<Rightarrow> (finding \<Rightarrow> identity list) \<Rightarrow> 'f list \<Rightarrow> ('f \<times> finding) list" where
  "expanded finding_of ids fs = concat (map (\<lambda>f. map (\<lambda>i. (f, candidate (finding_of f) i)) (ids (finding_of f))) fs)"

text \<open>A finding goes when any of its candidates does.\<close>

definition drop_disposed :: "('f \<times> finding) list \<Rightarrow> finding list \<Rightarrow> 'f list \<Rightarrow> 'f list" where
  "drop_disposed entries survivors fs =
     (let disposed = map fst (filter (\<lambda>(f, c). c \<notin> set survivors) entries)
      in if disposed = [] then fs else filter (\<lambda>f. f \<notin> set disposed) fs)"

definition filter_disposed ::
    "disposition_env \<Rightarrow> path \<Rightarrow> path \<Rightarrow> string \<Rightarrow> (finding \<Rightarrow> identity list) option \<Rightarrow> finding list \<Rightarrow> marks \<Rightarrow> finding list \<times> marks" where
  "filter_disposed env cwd p content identities ds w =
     (case identities of
        None \<Rightarrow> apply_dispositions env cwd p content ds w
      | Some ids \<Rightarrow>
          if ds = [] then (ds, w)
          else case has_any_disposition_marks env cwd w of (any, w1) \<Rightarrow>
            if \<not> any then (ds, w1)
            else let entries = expanded id ids ds
                 in case apply_dispositions env cwd p content (map snd entries) w1 of
                      (survivors, w2) \<Rightarrow> (drop_disposed entries survivors ds, w2))"

record policy_result =
  pr_kept :: "finding list"
  pr_inline_kept :: "finding list"

definition apply_finding_policy ::
    "disposition_env \<Rightarrow> string list \<Rightarrow> path \<Rightarrow> path \<Rightarrow> string \<Rightarrow> rule_policy_map option \<Rightarrow> (finding \<Rightarrow> identity list) option
     \<Rightarrow> finding list \<Rightarrow> marks \<Rightarrow> policy_result \<times> marks" where
  "apply_finding_policy env tags cwd p content policy identities ds w =
     (let inline_kept = apply_inline_suppressions tags content ds
      in case filter_disposed env cwd p content identities inline_kept w of
           (disposed, w') \<Rightarrow> (\<lparr>pr_kept = apply_rule_policy tags policy disposed, pr_inline_kept = inline_kept\<rparr>, w'))"

definition apply_pushed_finding_policy ::
    "disposition_env \<Rightarrow> string list \<Rightarrow> path \<Rightarrow> path \<Rightarrow> string option \<Rightarrow> rule_policy_map option \<Rightarrow> finding list \<Rightarrow> marks
     \<Rightarrow> (finding list \<times> nat) \<times> marks" where
  "apply_pushed_finding_policy env tags cwd p content rules ds w =
     (case apply_finding_policy env tags cwd p (or_else content []) (rule_policy_map_from_config rules)
         (Some rendered_rule_identities) ds w of
        (r, w') \<Rightarrow> ((pr_kept r, length ds - length (pr_kept r)), w'))"

definition filter_findings_by_disposition ::
    "disposition_env \<Rightarrow> path \<Rightarrow> (path \<Rightarrow> string option) \<Rightarrow> ('f \<Rightarrow> finding) \<Rightarrow> 'f list \<Rightarrow> marks \<Rightarrow> ('f list \<times> nat) \<times> marks" where
  "filter_findings_by_disposition env cwd read_file to_diagnostic fs w =
     (if fs = [] then ((fs, 0), w)
      else let entries = expanded to_diagnostic rendered_rule_identities fs
           in case apply_dispositions_multi_file env cwd read_file (map snd entries) w of
                (survivors, w') \<Rightarrow>
                  let kept = drop_disposed entries survivors fs in ((kept, length fs - length kept), w'))"

subsection \<open>Stages\<close>

text \<open>A stage keeps findings by a test of its own and leaves their order.\<close>

locale finding_stage =
  fixes stage :: "'d list \<Rightarrow> 'd list"
    and keeps :: "'d \<Rightarrow> bool"
  assumes stage_filters: "stage ds = filter keeps ds"
begin

lemma kept_iff: "d \<in> set (stage ds) \<longleftrightarrow> d \<in> set ds \<and> keeps d"
  by (simp add: stage_filters)

lemma stage_append: "stage (ds @ es) = stage ds @ stage es"
  by (simp add: stage_filters)

lemma stage_again: "stage (stage ds) = stage ds"
  by (simp add: stage_filters)

lemma stage_shrinks: "length (stage ds) \<le> length ds"
  by (simp add: stage_filters)

end

locale finding_stages = first: finding_stage first keeps_first + second: finding_stage second keeps_second
  for first :: "'d list \<Rightarrow> 'd list" and keeps_first and second :: "'d list \<Rightarrow> 'd list" and keeps_second
begin

lemma both_keep: "second (first ds) = filter (\<lambda>d. keeps_first d \<and> keeps_second d) ds"
  by (simp add: first.stage_filters second.stage_filters conj_commute)

lemma order_is_free: "second (first ds) = first (second ds)"
  by (simp add: first.stage_filters second.stage_filters conj_commute)

end

sublocale finding_stages \<subseteq> composed: finding_stage "\<lambda>ds. second (first ds)" "\<lambda>d. keeps_first d \<and> keeps_second d"
  by unfold_locales (rule both_keep)

text \<open>What the policy keeps of a finding, and the two stages that need no store.\<close>

definition policy_keeps :: "string list \<Rightarrow> rule_policy_map option \<Rightarrow> finding \<Rightarrow> bool" where
  "policy_keeps tags policy d \<longleftrightarrow>
     (case policy of None \<Rightarrow> True
      | Some m \<Rightarrow> or_else (policy_key d) [] = [] \<or> policy_allows tags m (or_else (policy_key d) []))"

interpretation content_stages: finding_stages
  "apply_inline_suppressions tags content" "\<lambda>d. \<not> comment_covers tags content d"
  "apply_rule_policy tags policy" "policy_keeps tags policy" for tags content policy
  by unfold_locales (simp_all add: inline_comments_hide_what_they_list policy_keeps_what_it_allows policy_keeps_def [abs_def])

subsection \<open>Which marks count\<close>

text \<open>A mark under any of the spellings hides the finding.\<close>

definition hidden_as ::
    "disposition_env \<Rightarrow> path \<Rightarrow> path \<Rightarrow> string \<Rightarrow> (finding \<Rightarrow> identity list) option \<Rightarrow> marks \<Rightarrow> finding \<Rightarrow> bool" where
  "hidden_as env cwd p content identities w d \<longleftrightarrow>
     (case identities of
        None \<Rightarrow> hidden env cwd p content w d
      | Some ids \<Rightarrow> list_ex (\<lambda>i. hidden env cwd p content w (candidate d i)) (ids d))"

lemma drop_disposed_filter:
  "drop_disposed (expanded fo ids fs) (filter (\<lambda>c. \<not> H c) (map snd (expanded fo ids fs))) fs =
     filter (\<lambda>f. \<not> list_ex (\<lambda>i. H (candidate (fo f) i)) (ids (fo f))) fs"
proof -
  let ?entries = "expanded fo ids fs"
  let ?gone = "map fst (filter (\<lambda>(f, c). c \<notin> set (filter (\<lambda>c. \<not> H c) (map snd ?entries))) ?entries)"
  have a: "f \<in> set ?gone \<longleftrightarrow> (\<exists>c. (f, c) \<in> set ?entries \<and> H c)" for f by force
  have b: "(f, c) \<in> set ?entries \<longleftrightarrow> f \<in> set fs \<and> c \<in> candidate (fo f) ` set (ids (fo f))" for f c
    by (auto simp: expanded_def)
  have gone: "f \<in> set ?gone \<longleftrightarrow> f \<in> set fs \<and> list_ex (\<lambda>i. H (candidate (fo f) i)) (ids (fo f))" for f
    unfolding a b list_ex_iff by blast
  have "(if G = [] then fs else filter (\<lambda>f. f \<notin> set G) fs) = filter (\<lambda>f. f \<notin> set G) fs" for G
    by (cases "G = []") simp_all
  then have "drop_disposed ?entries (filter (\<lambda>c. \<not> H c) (map snd ?entries)) fs = filter (\<lambda>f. f \<notin> set ?gone) fs"
    unfolding drop_disposed_def Let_def .
  also have "\<dots> = filter (\<lambda>f. \<not> list_ex (\<lambda>i. H (candidate (fo f) i)) (ids (fo f))) fs"
    using gone by (intro filter_cong) auto
  finally show ?thesis .
qed

lemma filter_disposed_eq:
  assumes "cache_current w"
  obtains w' where "filter_disposed env cwd p content identities ds w =
      (filter (\<lambda>d. \<not> hidden_as env cwd p content identities w d) ds, w')"
    "cache_current w'" "mk_disk w' = mk_disk w" "mk_deferred w' = mk_deferred w"
proof (cases identities)
  case None
  obtain w' where "apply_dispositions env cwd p content ds w = (filter (\<lambda>d. \<not> hidden env cwd p content w d) ds, w')"
    "cache_current w'" "mk_disk w' = mk_disk w" "mk_deferred w' = mk_deferred w"
    by (rule apply_dispositions_eq [OF assms])
  then show thesis using that [of w'] by (simp add: None filter_disposed_def hidden_as_def)
next
  case (Some ids)
  let ?st = "deserialize_state (mk_disk w (de_state_path env cwd))"
  obtain w1 where r: "read_state env cwd w = (?st, w1)"
    and w1: "cache_current w1" "mk_disk w1 = mk_disk w" "mk_deferred w1 = mk_deferred w"
    using read_state_eq [OF assms] by blast
  have any: "has_any_disposition_marks env cwd w = (?st \<noteq> None \<or> mk_deferred w \<noteq> [], w1)"
    using r w1 by (simp add: has_any_disposition_marks_def)
  consider "ds = []" | "ds \<noteq> []" "?st = None \<and> mk_deferred w = []" | "ds \<noteq> []" "?st \<noteq> None \<or> mk_deferred w \<noteq> []" by blast
  then show thesis
  proof cases
    case 1
    then show thesis using that [of w] Some assms by (simp add: filter_disposed_def)
  next
    case 2
    then have "\<not> hidden_as env cwd p content identities w d" for d by (simp add: hidden_as_def Some hidden_def list_ex_iff)
    then show thesis using that [of w1] 2 Some any w1 by (simp add: filter_disposed_def)
  next
    case 3
    let ?entries = "expanded id ids ds"
    obtain w2 where a: "apply_dispositions env cwd p content (map snd ?entries) w1 =
        (filter (\<lambda>c. \<not> hidden env cwd p content w1 c) (map snd ?entries), w2)"
      and w2: "cache_current w2" "mk_disk w2 = mk_disk w1" "mk_deferred w2 = mk_deferred w1"
      by (rule apply_dispositions_eq [OF w1(1)])
    have "filter_disposed env cwd p content identities ds w = (filter (\<lambda>d. \<not> hidden_as env cwd p content identities w d) ds, w2)"
      using 3 a unfolding filter_disposed_def Some option.case any prod.case Let_def
      by (simp add: drop_disposed_filter hidden_same_disk [OF w1(2,3)] hidden_as_def del: filter_map)
    then show thesis using that [of w2] w1 w2 by simp
  qed
qed

text \<open>C19 (functional). The stack keeps, in order, exactly the findings that no comment covers, no mark hides under
  any of the spellings the surface can render, and the policy allows; what a content-keyed cache may record
  is the first of the three alone.
\<close>

theorem stack_keeps_what_nothing_drops:
  assumes "cache_current w"
  shows "fst (apply_finding_policy env tags cwd p content policy identities ds w) =
    \<lparr>pr_kept = filter (\<lambda>d. \<not> comment_covers tags content d \<and> \<not> hidden_as env cwd p content identities w d
                         \<and> policy_keeps tags policy d) ds,
     pr_inline_kept = filter (\<lambda>d. \<not> comment_covers tags content d) ds\<rparr>"
proof -
  let ?inline = "apply_inline_suppressions tags content ds"
  obtain w' where f: "filter_disposed env cwd p content identities ?inline w =
      (filter (\<lambda>d. \<not> hidden_as env cwd p content identities w d) ?inline, w')"
    by (rule filter_disposed_eq [OF assms])
  show ?thesis unfolding apply_finding_policy_def Let_def f prod.case fst_conv
    by (simp add: content_stages.first.stage_filters content_stages.second.stage_filters conj_ac)
qed

text \<open>The turn-end filter counts what it drops.\<close>

lemma turn_end_filter:
  assumes "cache_current w"
  shows "fst (filter_findings_by_disposition env cwd read_file to_diagnostic fs w) =
    (let hides = (\<lambda>f. list_ex (\<lambda>i. hidden env cwd (fd_file (to_diagnostic f)) (or_else (read_file (fd_file (to_diagnostic f))) []) w
           (candidate (to_diagnostic f) i)) (rendered_rule_identities (to_diagnostic f)))
     in (filter (\<lambda>f. \<not> hides f) fs, length (filter hides fs)))"
proof -
  let ?H = "\<lambda>c. hidden env cwd (fd_file c) (or_else (read_file (fd_file c)) []) w c"
  let ?hides = "\<lambda>f. list_ex (\<lambda>i. ?H (candidate (to_diagnostic f) i)) (rendered_rule_identities (to_diagnostic f))"
  let ?entries = "expanded to_diagnostic rendered_rule_identities fs"
  have count: "length fs - length (filter (\<lambda>f. \<not> ?hides f) fs) = length (filter ?hides fs)"
    using sum_length_filter_compl [of ?hides fs] by simp
  show ?thesis
  proof (cases "fs = []")
    case False
    obtain survivors w' where m: "apply_dispositions_multi_file env cwd read_file (map snd ?entries) w = (survivors, w')" by fastforce
    then have "survivors = filter (\<lambda>c. \<not> ?H c) (map snd ?entries)"
      using multi_file_filter [OF assms, of env cwd read_file "map snd ?entries"] by simp
    then have kept: "drop_disposed ?entries survivors fs = filter (\<lambda>f. \<not> ?hides f) fs"
      using drop_disposed_filter [of to_diagnostic rendered_rule_identities fs ?H] by simp
    show ?thesis using False count
      unfolding filter_findings_by_disposition_def Let_def m prod.case kept by (simp add: candidate_def)
  qed (simp add: filter_findings_by_disposition_def)
qed

text \<open>C12 (safety). A blocking finding that a surface does not show was dismissed explicitly: by a comment on its
  line or the line above that lists its rule, by the project's policy, or by a false-positive mark, in the
  same store, whose anchor is the one of the finding, with its line's content, under a spelling the surface renders.
\<close>

theorem missing_blocking_finding_was_dismissed:
  assumes run: "marks_run env hist w" and shown: "d \<in> set ds" "d \<notin> set (pr_kept (fst (apply_finding_policy env tags cwd p content policy (Some ids) ds w)))"
    and blocking: "is_blocking d"
  shows "comment_covers tags content d \<or> \<not> policy_keeps tags policy d \<or>
    list_ex (\<lambda>i. was_marked env hist (de_state_path env cwd) (compute_strict_anchor env cwd p (candidate d i) (Some content)) False_Positive) (ids d)"
proof -
  have cc: "cache_current w" using marks_run_inv [OF run] by blast
  obtain w' where "filter_disposed env cwd p content (Some ids) (apply_inline_suppressions tags content ds) w =
      (filter (\<lambda>x. \<not> hidden_as env cwd p content (Some ids) w x) (apply_inline_suppressions tags content ds), w')"
    by (rule filter_disposed_eq [OF cc])
  then have "comment_covers tags content d \<or> \<not> policy_keeps tags policy d \<or> hidden_as env cwd p content (Some ids) w d"
    using shown by (auto simp: apply_finding_policy_def Let_def content_stages.first.stage_filters content_stages.second.stage_filters)
  moreover have "is_blocking (candidate d i)" for i using blocking by (simp add: is_blocking_def candidate_def)
  ultimately show ?thesis using hidden_was_marked [OF run] unfolding hidden_as_def option.case list_ex_iff by blast
qed

subsection \<open>A sample surface\<close>

text \<open>A mark without a tool, an inline comment with a reason, and a policy.\<close>

definition toolless_target :: mark_target where
  "toolless_target = sample_target\<lparr>mt_finding := sample_finding\<lparr>fd_tool := None\<rparr>\<rparr>"

definition toolless_marks :: marks where
  "toolless_marks = snd (mark_disposition sample_marks_env (Written 1 1) ''now'' ''/w'' toolless_target False_Positive None no_marks)"

lemma toolless_marks_run: "marks_run sample_marks_env [(''/w'', toolless_target, False_Positive)] toolless_marks"
proof -
  have "fst (mark_disposition sample_marks_env (Written 1 1) ''now'' ''/w'' toolless_target False_Positive None no_marks) \<noteq> None"
    by code_simp
  then show ?thesis unfolding toolless_marks_def by (metis marks_run.fresh marks_run.marked not_None_eq prod.collapse)
qed

lemma sample_comment_hides:
  "apply_inline_suppressions [''js''] (''# pi-lens-ignore: no-eval-js, b -- why: x'' @ [LF] @ ''eval(y)'') [sample_finding] = []"
  by code_simp

definition kept_of_sample :: "string \<Rightarrow> rule_policy_map option \<Rightarrow> finding list" where
  "kept_of_sample content policy =
     pr_kept (fst (apply_finding_policy sample_marks_env [''js''] ''/w'' ''/w/a.ts'' content policy (Some rendered_rule_identities)
       [sample_finding] toolless_marks))"

lemma missing_blocking_finding_was_dismissed_witness:
  "is_blocking sample_finding \<and> kept_of_sample (''x'' @ [LF] @ ''eval(y)'') None = [] \<and>
   list_ex (\<lambda>i. was_marked sample_marks_env [(''/w'', toolless_target, False_Positive)] (de_state_path sample_marks_env ''/w'')
       (compute_strict_anchor sample_marks_env ''/w'' ''/w/a.ts'' (candidate sample_finding i) (Some (''x'' @ [LF] @ ''eval(y)''))) False_Positive)
     (rendered_rule_identities sample_finding)"
proof -
  let ?c = "''x'' @ [LF] @ ''eval(y)''"
  have b: "is_blocking sample_finding" by code_simp
  have gone: "kept_of_sample ?c None = []" by code_simp
  have quiet: "\<not> comment_covers [''js''] ?c sample_finding" by code_simp
  have free: "policy_keeps [''js''] None sample_finding" by code_simp
  show ?thesis
    using missing_blocking_finding_was_dismissed [OF toolless_marks_run _ _ b, of "[sample_finding]" "[''js'']" "''/w''" "''/w/a.ts''" ?c None
        rendered_rule_identities] gone [unfolded kept_of_sample_def] b gone quiet free
    by simp
qed

lemma stack_keeps_what_nothing_drops_witness:
  "cache_current toolless_marks \<and> kept_of_sample (''x'' @ [LF] @ ''eval( y ) // changed'') None = [sample_finding] \<and>
   kept_of_sample (''x'' @ [LF] @ ''eval( y ) // changed'') (Some [(''any'', Some \<lparr>rp_disable = Some [''ast-grep:no-eval''], rp_select = None\<rparr>)]) = []"
proof -
  have cc: "cache_current toolless_marks" using marks_run_inv [OF toolless_marks_run] by blast
  have "kept_of_sample (''x'' @ [LF] @ ''eval( y ) // changed'') None = [sample_finding]"
    unfolding kept_of_sample_def stack_keeps_what_nothing_drops [OF cc] by code_simp
  moreover have "kept_of_sample (''x'' @ [LF] @ ''eval( y ) // changed'') (Some [(''any'', Some \<lparr>rp_disable = Some [''ast-grep:no-eval''], rp_select = None\<rparr>)]) = []"
    unfolding kept_of_sample_def stack_keeps_what_nothing_drops [OF cc] by code_simp
  ultimately show ?thesis using cc by blast
qed

end
