(* ===== verification/Race_Completion.thy ===== *)
theory Race_Completion
  imports Lens_Prelude
begin

text \<open>
  \<^verbatim>\<open>raceToCompletion\<close> of \<^verbatim>\<open>clients/lsp/aggregation.ts\<close>: the promises of several language servers settle one
  after the other, and the race resolves when all have, when the results so far are good enough, when the
  grace of the auxiliary servers ends, or at the hard timeout.  The callbacks are the steps of a transition
  relation; how long a timer runs is left open, so a pending one may fire at any time.
\<close>

record 'r race_options =
  ro_count :: nat
  ro_aux :: "nat list"
  ro_grace_ms :: "int option"
  ro_aux_grace_ms :: "int option"
  ro_budget_ms :: "nat \<Rightarrow> int option"
  ro_should_complete :: "'r list \<Rightarrow> bool option"

text \<open>
  \<open>ro_should_complete\<close> answers \<open>None\<close> when it throws.  The last four fields record what has happened, for the
  statements: who has settled, whose rejection handler is due because its own handler threw, what the hard
  timeout did, and what the settled promises brought.
\<close>

record 'r race =
  rc_results :: "'r option list"
  rc_remaining :: int
  rc_primary :: int
  rc_out :: "'r list option"
  rc_timeout :: bool
  rc_grace :: bool
  rc_aux_timer :: bool
  rc_aux_started :: bool
  rc_settled :: "nat list"
  rc_due :: "nat list"
  rc_timed_out :: bool

definition has_auxiliaries :: "'r race_options \<Rightarrow> bool" where
  "has_auxiliaries opt \<longleftrightarrow> ro_aux opt \<noteq> []"

definition is_aux :: "'r race_options \<Rightarrow> nat \<Rightarrow> bool" where
  "is_aux opt i \<longleftrightarrow> i \<in> set (ro_aux opt)"

definition start_race :: "'r race_options \<Rightarrow> 'r race" where
  "start_race opt =
     \<lparr>rc_results = replicate (ro_count opt) None, rc_remaining = int (ro_count opt),
      rc_primary = int (ro_count opt) - int (length (ro_aux opt)), rc_out = None, rc_timeout = True, rc_grace = False,
      rc_aux_timer = False, rc_aux_started = False, rc_settled = [], rc_due = [], rc_timed_out = False\<rparr>"

definition collected :: "'r race \<Rightarrow> 'r list" where
  "collected s = List.map_filter id (rc_results s)"

text \<open>Resolving clears every timer.\<close>

definition resolve_race :: "'r race \<Rightarrow> 'r race" where
  "resolve_race s = s\<lparr>rc_out := Some (collected s), rc_timeout := False, rc_grace := False, rc_aux_timer := False\<rparr>"

definition finalize_race :: "'r race \<Rightarrow> 'r race" where
  "finalize_race s = (if rc_out s \<noteq> None then s else resolve_race s)"

definition pending_aux_budgets :: "'r race_options \<Rightarrow> 'r race \<Rightarrow> int list" where
  "pending_aux_budgets opt s =
     filter (\<lambda>b. b \<ge> 0) (List.map_filter (ro_budget_ms opt) (filter (\<lambda>i. rc_results s ! i = None) (ro_aux opt)))"

definition aux_grace_ms :: "'r race_options \<Rightarrow> 'r race \<Rightarrow> int" where
  "aux_grace_ms opt s =
     (let ceiling_ms = (case ro_aux_grace_ms opt of Some m \<Rightarrow> m | None \<Rightarrow> 500);
          budgets = pending_aux_budgets opt s
      in if budgets \<noteq> [] then min ceiling_ms (foldr max budgets (hd budgets)) else ceiling_ms)"

definition start_aux_grace :: "'r race_options \<Rightarrow> 'r race \<Rightarrow> 'r race" where
  "start_aux_grace opt s =
     (if rc_aux_started s \<or> rc_out s \<noteq> None then s
      else if aux_grace_ms opt s \<le> 0 then finalize_race (s\<lparr>rc_aux_started := True\<rparr>)
      else s\<lparr>rc_aux_started := True, rc_aux_timer := True\<rparr>)"

text \<open>The check after every settled promise, and whether it throws.\<close>

definition check_complete :: "'r race_options \<Rightarrow> 'r race \<Rightarrow> 'r race \<times> bool" where
  "check_complete opt s =
     (case ro_should_complete opt (collected s) of
        None \<Rightarrow> (s, True)
      | Some False \<Rightarrow> (s, False)
      | Some True \<Rightarrow>
          (if ro_grace_ms opt \<noteq> None \<and> the (ro_grace_ms opt) > 0 \<and> \<not> rc_grace s then s\<lparr>rc_grace := True\<rparr>
           else if rc_aux_started s then s
           else if \<not> has_auxiliaries opt \<or> rc_primary s = 0 then finalize_race s
           else s, False))"

definition check_race :: "'r race_options \<Rightarrow> 'r race \<Rightarrow> 'r race \<times> bool" where
  "check_race opt s =
     (if rc_out s \<noteq> None then (s, False)
      else if rc_remaining s = 0 then (finalize_race s, False)
      else check_complete opt
        (if has_auxiliaries opt \<and> rc_primary s = 0 \<and> \<not> rc_aux_started s then start_aux_grace opt s else s))"

definition count_down :: "'r race_options \<Rightarrow> nat \<Rightarrow> 'r race \<Rightarrow> 'r race" where
  "count_down opt i s =
     s\<lparr>rc_remaining := rc_remaining s - 1, rc_primary := (if is_aux opt i then rc_primary s else rc_primary s - 1)\<rparr>"

text \<open>The fulfilment handler; a throw of the check makes the rejection handler due.\<close>

definition fulfilled :: "'r race_options \<Rightarrow> nat \<Rightarrow> 'r option \<Rightarrow> 'r race \<Rightarrow> 'r race" where
  "fulfilled opt i r s0 =
     (let s = s0\<lparr>rc_settled := rc_settled s0 @ [i]\<rparr>
      in if rc_out s \<noteq> None then s
         else case check_race opt (count_down opt i (s\<lparr>rc_results := (rc_results s)[i := r]\<rparr>)) of
                (s', threw) \<Rightarrow> if threw then s'\<lparr>rc_due := rc_due s' @ [i]\<rparr> else s')"

definition caught :: "'r race_options \<Rightarrow> nat \<Rightarrow> 'r race \<Rightarrow> 'r race" where
  "caught opt i s = (if rc_out s \<noteq> None then s else fst (check_race opt (count_down opt i s)))"

definition rejected :: "'r race_options \<Rightarrow> nat \<Rightarrow> 'r race \<Rightarrow> 'r race" where
  "rejected opt i s = caught opt i (s\<lparr>rc_settled := rc_settled s @ [i]\<rparr>)"

definition timeout_fires :: "'r race \<Rightarrow> 'r race" where
  "timeout_fires s = (resolve_race s)\<lparr>rc_timed_out := True\<rparr>"

inductive race_step :: "'r race_options \<Rightarrow> 'r race \<Rightarrow> 'r race \<Rightarrow> bool" for opt where
  fulfils: "i < ro_count opt \<Longrightarrow> i \<notin> set (rc_settled s) \<Longrightarrow> race_step opt s (fulfilled opt i r s)"
| rejects: "i < ro_count opt \<Longrightarrow> i \<notin> set (rc_settled s) \<Longrightarrow> race_step opt s (rejected opt i s)"
| handler_threw: "rc_due s = i # rest \<Longrightarrow> race_step opt s (caught opt i (s\<lparr>rc_due := rest\<rparr>))"
| times_out: "rc_timeout s \<Longrightarrow> race_step opt s (timeout_fires s)"
| grace_ends: "rc_grace s \<Longrightarrow> race_step opt s (finalize_race s)"
| aux_grace_ends: "rc_aux_timer s \<Longrightarrow> race_step opt s (finalize_race s)"

inductive race_reach :: "'r race_options \<Rightarrow> 'r race \<Rightarrow> bool" for opt where
  start: "race_reach opt (start_race opt)"
| step: "race_reach opt s \<Longrightarrow> race_step opt s t \<Longrightarrow> race_reach opt t"

subsection \<open>What the counters count\<close>

definition open_promises :: "'r race_options \<Rightarrow> 'r race \<Rightarrow> nat set" where
  "open_promises opt s = {..<ro_count opt} - set (rc_settled s)"

definition open_primaries :: "'r race_options \<Rightarrow> 'r race \<Rightarrow> nat set" where
  "open_primaries opt s = open_promises opt s - set (ro_aux opt)"

text \<open>Options as the caller builds them: distinct auxiliary indices of the promises, a predicate that does not throw.\<close>

definition options_ok :: "'r race_options \<Rightarrow> bool" where
  "options_ok opt \<longleftrightarrow> distinct (ro_aux opt) \<and> set (ro_aux opt) \<subseteq> {..<ro_count opt} \<and> (\<forall>rs. ro_should_complete opt rs \<noteq> None)"

definition race_open :: "'r race_options \<Rightarrow> 'r race \<Rightarrow> bool" where
  "race_open opt s \<longleftrightarrow>
     rc_out s = None \<and> rc_remaining s = int (card (open_promises opt s)) \<and> rc_primary s = int (card (open_primaries opt s)) \<and>
     rc_timeout s \<and> \<not> rc_timed_out s \<and> (rc_aux_started s \<or> rc_aux_timer s \<longrightarrow> open_primaries opt s = {}) \<and>
     (rc_grace s \<longrightarrow> ro_grace_ms opt \<noteq> None \<and> the (ro_grace_ms opt) > 0)"

definition race_closed :: "'r race_options \<Rightarrow> 'r race \<Rightarrow> bool" where
  "race_closed opt s \<longleftrightarrow>
     rc_out s = Some (collected s) \<and> \<not> rc_timeout s \<and> \<not> rc_aux_timer s \<and>
     (rc_timed_out s \<or> open_primaries opt s = {} \<or> \<not> has_auxiliaries opt \<or>
      (ro_grace_ms opt \<noteq> None \<and> the (ro_grace_ms opt) > 0))"

definition race_frame :: "'r race_options \<Rightarrow> 'r race \<Rightarrow> bool" where
  "race_frame opt s \<longleftrightarrow>
     distinct (rc_settled s) \<and> set (rc_settled s) \<subseteq> {..<ro_count opt} \<and> rc_due s = [] \<and> length (rc_results s) = ro_count opt"

definition race_inv :: "'r race_options \<Rightarrow> 'r race \<Rightarrow> bool" where
  "race_inv opt s \<longleftrightarrow>
     race_frame opt s \<and>
     (case rc_out s of
        None \<Rightarrow> race_open opt s \<and> (rc_settled s \<noteq> [] \<longrightarrow> open_promises opt s \<noteq> {})
      | Some out \<Rightarrow> race_closed opt s)"

lemma race_fields [simp]:
  "rc_results (resolve_race s) = rc_results s" "rc_settled (resolve_race s) = rc_settled s" "rc_due (resolve_race s) = rc_due s"
  "rc_out (resolve_race s) = Some (collected s)" "\<not> rc_timeout (resolve_race s)" "\<not> rc_grace (resolve_race s)"
  "\<not> rc_aux_timer (resolve_race s)" "rc_timed_out (resolve_race s) = rc_timed_out s"
  "rc_results (finalize_race s) = rc_results s" "rc_settled (finalize_race s) = rc_settled s" "rc_due (finalize_race s) = rc_due s"
  "rc_timed_out (finalize_race s) = rc_timed_out s"
  by (simp_all add: resolve_race_def finalize_race_def)

lemma collected_same: "rc_results t = rc_results s \<Longrightarrow> collected t = collected s"
  by (simp add: collected_def)

lemma collected_resolved [simp]: "collected (resolve_race s) = collected s"
  by (rule collected_same) simp

lemma open_same:
  "rc_settled t = rc_settled s \<Longrightarrow> open_promises opt t = open_promises opt s"
  "rc_settled t = rc_settled s \<Longrightarrow> open_primaries opt t = open_primaries opt s"
  by (simp_all add: open_promises_def open_primaries_def)

lemma frame_same:
  "race_frame opt s \<Longrightarrow> rc_settled t = rc_settled s \<Longrightarrow> rc_due t = rc_due s \<Longrightarrow> length (rc_results t) = length (rc_results s) \<Longrightarrow> race_frame opt t"
  by (simp add: race_frame_def)

text \<open>Finalizing an open race when that is in order.\<close>

lemma finalize_inv:
  assumes f: "race_frame opt s" and o: "race_open opt s"
    and fine: "open_primaries opt s = {} \<or> \<not> has_auxiliaries opt \<or> (ro_grace_ms opt \<noteq> None \<and> the (ro_grace_ms opt) > 0)"
  shows "race_inv opt (finalize_race s)"
proof -
  have "finalize_race s = resolve_race s" using o by (simp add: finalize_race_def race_open_def)
  then show ?thesis using fine frame_same [OF f, of "resolve_race s"] open_same [of "resolve_race s" s opt]
    by (simp add: race_inv_def race_closed_def)
qed

lemma finalize_again: "race_inv opt s \<Longrightarrow> rc_out s \<noteq> None \<Longrightarrow> race_inv opt (finalize_race s)"
  by (simp add: finalize_race_def)

lemma grace_inv:
  assumes "race_inv opt s" "ro_grace_ms opt \<noteq> None" "the (ro_grace_ms opt) > 0"
  shows "race_inv opt (s\<lparr>rc_grace := True\<rparr>)"
  using assms open_same [of "s\<lparr>rc_grace := True\<rparr>" s opt] collected_same [of "s\<lparr>rc_grace := True\<rparr>" s]
  by (simp add: race_inv_def race_frame_def race_open_def race_closed_def split: option.splits)

lemma check_complete_inv:
  assumes inv: "race_inv opt s" and ok: "options_ok opt"
  shows "race_inv opt (fst (check_complete opt s)) \<and> \<not> snd (check_complete opt s)"
proof -
  obtain b where b: "ro_should_complete opt (collected s) = Some b" using ok unfolding options_ok_def by blast
  have fin: "race_inv opt (finalize_race s)" if "\<not> has_auxiliaries opt \<or> rc_primary s = 0"
  proof (cases "rc_out s")
    case None
    then have "race_frame opt s" "race_open opt s" using inv by (simp_all add: race_inv_def)
    moreover have "open_primaries opt s = {}" if "rc_primary s = 0"
    proof -
      have "finite (open_primaries opt s)" by (simp add: open_primaries_def open_promises_def)
      then show ?thesis using that \<open>race_open opt s\<close> by (simp add: race_open_def)
    qed
    ultimately show ?thesis using that by (intro finalize_inv) auto
  next
    case (Some out)
    then show ?thesis using inv by (simp add: finalize_race_def)
  qed
  show ?thesis using b inv grace_inv [OF inv] fin by (cases b) (simp_all add: check_complete_def)
qed

lemma aux_grace_inv:
  assumes f: "race_frame opt s" and o: "race_open opt s" and n: "open_promises opt s \<noteq> {}" and p: "open_primaries opt s = {}"
  shows "race_inv opt (start_aux_grace opt s)"
proof -
  let ?s = "s\<lparr>rc_aux_started := True\<rparr>"
  have f': "race_frame opt ?s" by (rule frame_same [OF f]) simp_all
  have o': "race_open opt ?s" using o p open_same [of ?s s opt] by (simp add: race_open_def)
  have p': "open_primaries opt ?s = {}" using p open_same [of ?s s opt] by simp
  show ?thesis
  proof (cases "rc_aux_started s \<or> rc_out s \<noteq> None")
    case True
    then show ?thesis using f o n by (simp add: start_aux_grace_def race_inv_def race_open_def)
  next
    case False
    show ?thesis
    proof (cases "aux_grace_ms opt s \<le> 0")
      case True
      then show ?thesis using False finalize_inv [OF f' o'] p' by (simp add: start_aux_grace_def)
    next
      case wait: False
      let ?t = "s\<lparr>rc_aux_started := True, rc_aux_timer := True\<rparr>"
      have "race_inv opt ?t" using f o n p open_same [of ?t s opt] frame_same [OF f, of ?t]
        by (simp add: race_inv_def race_open_def)
      then show ?thesis using False wait by (simp add: start_aux_grace_def)
    qed
  qed
qed

lemma check_race_inv:
  assumes f: "race_frame opt s" and o: "race_open opt s" and ok: "options_ok opt"
  shows "race_inv opt (fst (check_race opt s)) \<and> \<not> snd (check_race opt s)"
proof -
  have fin: "finite (open_promises opt s)" "finite (open_primaries opt s)" by (simp_all add: open_primaries_def open_promises_def)
  have out: "rc_out s = None" using o by (simp add: race_open_def)
  show ?thesis
  proof (cases "rc_remaining s = 0")
    case True
    then have "open_promises opt s = {}" using o fin by (simp add: race_open_def)
    then have "open_primaries opt s = {}" by (simp add: open_primaries_def)
    then show ?thesis using finalize_inv [OF f o] True out by (simp add: check_race_def)
  next
    case False
    then have n: "open_promises opt s \<noteq> {}" using o fin by (auto simp: race_open_def)
    let ?t = "if has_auxiliaries opt \<and> rc_primary s = 0 \<and> \<not> rc_aux_started s then start_aux_grace opt s else s"
    have "race_inv opt ?t"
    proof (cases "has_auxiliaries opt \<and> rc_primary s = 0 \<and> \<not> rc_aux_started s")
      case True
      then have "open_primaries opt s = {}" using o fin by (simp add: race_open_def)
      then show ?thesis using True aux_grace_inv [OF f o n] by simp
    next
      case False
      have "race_inv opt s" using f o n out by (simp add: race_inv_def)
      then show ?thesis unfolding if_not_P [OF False] .
    qed
    then show ?thesis using check_complete_inv [OF _ ok, of ?t] False out by (simp add: check_race_def)
  qed
qed

text \<open>A promise settles in an open race.\<close>

lemma count_down_open:
  assumes f: "race_frame opt s" and o: "race_open opt s" and i: "i < ro_count opt" "i \<notin> set (rc_settled s)" and ok: "options_ok opt"
  shows "race_frame opt (count_down opt i (s\<lparr>rc_settled := rc_settled s @ [i]\<rparr>))"
    and "race_open opt (count_down opt i (s\<lparr>rc_settled := rc_settled s @ [i]\<rparr>))"
proof -
  let ?t = "count_down opt i (s\<lparr>rc_settled := rc_settled s @ [i]\<rparr>)"
  show "race_frame opt ?t" using f i by (simp add: race_frame_def count_down_def)
  have promises: "open_promises opt ?t = open_promises opt s - {i}" by (auto simp: open_promises_def count_down_def)
  have primaries: "open_primaries opt ?t = open_primaries opt s - {i}" unfolding open_primaries_def promises by blast
  have mem: "i \<in> open_promises opt s" "i \<in> open_primaries opt s \<longleftrightarrow> \<not> is_aux opt i"
    using i by (auto simp: open_promises_def open_primaries_def is_aux_def)
  have fin: "finite (open_promises opt s)" "finite (open_primaries opt s)" by (simp_all add: open_primaries_def open_promises_def)
  have c1: "int (card (open_promises opt s - {i})) = int (card (open_promises opt s)) - 1"
    using mem(1) fin(1) card_Suc_Diff1 [OF fin(1) mem(1)] by simp
  have c2: "int (card (open_primaries opt s - {i})) = (if is_aux opt i then int (card (open_primaries opt s)) else int (card (open_primaries opt s)) - 1)"
    using mem(2) fin(2) card_Suc_Diff1 [OF fin(2), of i] by auto
  show "race_open opt ?t" using o c1 c2 unfolding race_open_def promises primaries by (auto simp: count_down_def)
qed

lemma race_step_inv:
  assumes inv: "race_inv opt s" and ok: "options_ok opt" and step: "race_step opt s t"
  shows "race_inv opt t"
  using step
proof (cases rule: race_step.cases)
  case (fulfils i r)
  show ?thesis
  proof (cases "rc_out s")
    case None
    let ?s = "s\<lparr>rc_results := (rc_results s)[i := r]\<rparr>"
    have "race_frame opt s" "race_open opt s" using inv None by (simp_all add: race_inv_def)
    then have f: "race_frame opt ?s" and o: "race_open opt ?s"
      using open_same [of ?s s opt] by (simp_all add: race_frame_def race_open_def)
    have settled: "rc_settled ?s = rc_settled s" by simp
    have swap: "count_down opt i (s\<lparr>rc_settled := rc_settled s @ [i], rc_results := (rc_results s)[i := r]\<rparr>) =
        count_down opt i (?s\<lparr>rc_settled := rc_settled ?s @ [i]\<rparr>)" by (simp add: count_down_def)
    let ?c = "count_down opt i (?s\<lparr>rc_settled := rc_settled ?s @ [i]\<rparr>)"
    have "i \<notin> set (rc_settled ?s)" using fulfils by simp
    note check_race_inv [OF count_down_open [OF f o fulfils(2) this ok] ok]
    moreover obtain s' threw where c: "check_race opt ?c = (s', threw)" by fastforce
    ultimately have "race_inv opt s'" "\<not> threw" by simp_all
    then show ?thesis using None c unfolding fulfils(1) fulfilled_def Let_def by (simp add: swap [simplified])
  next
    case (Some out)
    let ?t = "s\<lparr>rc_settled := rc_settled s @ [i]\<rparr>"
    have "race_frame opt ?t" using inv fulfils by (simp add: race_inv_def race_frame_def)
    moreover have "open_primaries opt ?t \<subseteq> open_primaries opt s" by (auto simp: open_primaries_def open_promises_def)
    ultimately have "race_inv opt ?t" using inv Some collected_same [of ?t s] by (auto simp: race_inv_def race_closed_def)
    then show ?thesis using fulfils Some by (simp add: fulfilled_def)
  qed
next
  case (rejects i)
  show ?thesis
  proof (cases "rc_out s")
    case None
    then have "race_frame opt s" "race_open opt s" using inv by (simp_all add: race_inv_def)
    then have "race_inv opt (fst (check_race opt (count_down opt i (s\<lparr>rc_settled := rc_settled s @ [i]\<rparr>))))"
      by (intro conjunct1 [OF check_race_inv] count_down_open rejects(2,3) ok)
    then show ?thesis using rejects None by (simp add: rejected_def caught_def)
  next
    case (Some out)
    let ?t = "s\<lparr>rc_settled := rc_settled s @ [i]\<rparr>"
    have "race_frame opt ?t" using inv rejects by (simp add: race_inv_def race_frame_def)
    moreover have "open_primaries opt ?t \<subseteq> open_primaries opt s" by (auto simp: open_primaries_def open_promises_def)
    ultimately have "race_inv opt ?t" using inv Some collected_same [of ?t s] by (auto simp: race_inv_def race_closed_def)
    then show ?thesis using rejects Some by (simp add: rejected_def caught_def)
  qed
next
  case (handler_threw i rest)
  then show ?thesis using inv by (simp add: race_inv_def race_frame_def)
next
  case times_out
  have "race_frame opt t" using inv times_out frame_same [of opt s t] by (simp add: race_inv_def timeout_fires_def)
  then show ?thesis using times_out collected_same [of t s] by (simp add: race_inv_def race_closed_def timeout_fires_def)
next
  case grace_ends
  show ?thesis
  proof (cases "rc_out s")
    case None
    then have "race_frame opt s" "race_open opt s" using inv by (simp_all add: race_inv_def)
    then show ?thesis using grace_ends finalize_inv [of opt s] by (simp add: race_open_def)
  next
    case (Some out)
    then show ?thesis using inv grace_ends by (simp add: finalize_race_def)
  qed
next
  case aux_grace_ends
  show ?thesis
  proof (cases "rc_out s")
    case None
    then have "race_frame opt s" "race_open opt s" using inv by (simp_all add: race_inv_def)
    then show ?thesis using aux_grace_ends finalize_inv [of opt s] by (simp add: race_open_def)
  next
    case (Some out)
    then show ?thesis using inv aux_grace_ends by (simp add: finalize_race_def)
  qed
qed

lemma start_race_inv:
  assumes "options_ok opt"
  shows "race_inv opt (start_race opt)"
proof -
  have "card ({..<ro_count opt} - set (ro_aux opt)) = ro_count opt - length (ro_aux opt)"
    using assms by (simp add: options_ok_def card_Diff_subset distinct_card)
  moreover have "length (ro_aux opt) \<le> ro_count opt"
    using assms card_mono [of "{..<ro_count opt}" "set (ro_aux opt)"] by (simp add: options_ok_def distinct_card)
  ultimately show ?thesis
    by (simp add: race_inv_def race_frame_def race_open_def start_race_def open_promises_def open_primaries_def)
qed

lemma reachable_race_inv: "race_reach opt s \<Longrightarrow> options_ok opt \<Longrightarrow> race_inv opt s"
  by (induction rule: race_reach.induct) (auto intro: start_race_inv race_step_inv)

text \<open>C38 (liveness). The race answers: once every promise has settled it has resolved, whatever the timers did. And
  it answers honestly: what it resolves with are the results recorded, in the order of the promises, and with
  auxiliary servers and no quality grace it resolves before the hard timeout only when every primary has settled.\<close>

theorem race_answers_after_the_primaries:
  assumes "race_reach opt s" "options_ok opt"
  shows "(0 < ro_count opt \<and> {..<ro_count opt} \<subseteq> set (rc_settled s) \<longrightarrow> rc_out s \<noteq> None) \<and>
    (\<forall>out. rc_out s = Some out \<longrightarrow>
       out = List.map_filter id (rc_results s) \<and>
       (rc_timed_out s \<or> \<not> has_auxiliaries opt \<or> (ro_grace_ms opt \<noteq> None \<and> the (ro_grace_ms opt) > 0) \<or>
        {..<ro_count opt} - set (ro_aux opt) \<subseteq> set (rc_settled s)))"
proof -
  have inv: "race_inv opt s" by (rule reachable_race_inv [OF assms])
  have "rc_out s \<noteq> None" if "0 < ro_count opt" "{..<ro_count opt} \<subseteq> set (rc_settled s)"
  proof
    assume "rc_out s = None"
    moreover have "rc_settled s \<noteq> []" "open_promises opt s = {}" using that by (auto simp: open_promises_def)
    ultimately show False using inv by (simp add: race_inv_def)
  qed
  moreover have "open_primaries opt s = {} \<longleftrightarrow> {..<ro_count opt} - set (ro_aux opt) \<subseteq> set (rc_settled s)"
    by (auto simp: open_primaries_def open_promises_def)
  ultimately show ?thesis using inv by (auto simp: race_inv_def race_closed_def collected_def)
qed

text \<open>A sample: server 1 is auxiliary; the answer is good enough as soon as there is one.\<close>

definition sample_race :: "int option \<Rightarrow> nat race_options" where
  "sample_race grace =
     \<lparr>ro_count = 2, ro_aux = [1], ro_grace_ms = grace, ro_aux_grace_ms = None, ro_budget_ms = (\<lambda>_. None),
      ro_should_complete = (\<lambda>rs. Some (rs \<noteq> []))\<rparr>"

lemma race_answers_after_the_primaries_witness:
  "(\<lambda>s. rc_out s = Some [7 :: nat] \<and> rc_settled s = [1, 0] \<and> rc_results s = [None, Some 7])
     (fulfilled (sample_race None) 0 None (fulfilled (sample_race None) 1 (Some 7) (start_race (sample_race None))))"
proof -
  let ?s = "fulfilled (sample_race None) 0 None (fulfilled (sample_race None) 1 (Some 7) (start_race (sample_race None)))"
  have "race_reach (sample_race None) (fulfilled (sample_race None) 1 (Some 7) (start_race (sample_race None)))"
    by (rule race_reach.step [OF race_reach.start race_step.fulfils]) code_simp+
  then have r: "race_reach (sample_race None) ?s" by (rule race_reach.step [OF _ race_step.fulfils]) code_simp+
  have ok: "options_ok (sample_race None)" by (simp add: options_ok_def sample_race_def)
  have facts: "rc_settled ?s = [1, 0]" "rc_results ?s = [None, Some 7]" "ro_count (sample_race None) = 2" by code_simp+
  have "{..<2} \<subseteq> {1, 0 :: nat}" by auto
  then have "rc_out ?s \<noteq> None" using race_answers_after_the_primaries [OF r ok] facts by simp
  moreover have "rc_out ?s = Some out \<Longrightarrow> out = [7]" for out
    using race_answers_after_the_primaries [OF r ok] facts by (simp add: map_filter_def)
  ultimately show ?thesis using facts by auto
qed

text \<open>
  The comment at the end of \<^verbatim>\<open>check\<close> holds that the primaries' answer is never reported from a state where
  one has not answered.  A quality grace that starts on an auxiliary's result ends without them.
\<close>

lemma grace_overtakes_the_primaries:
  "\<exists>s. race_reach (sample_race (Some 50)) s \<and> rc_out s = Some [7] \<and> \<not> rc_timed_out s \<and> 0 \<notin> set (rc_settled s)"
proof -
  let ?o = "sample_race (Some 50)"
  let ?s = "fulfilled ?o 1 (Some 7) (start_race ?o)"
  have "race_reach ?o ?s" by (rule race_reach.step [OF race_reach.start race_step.fulfils]) code_simp+
  then have "race_reach ?o (finalize_race ?s)" by (rule race_reach.step [OF _ race_step.grace_ends]) code_simp
  moreover have "rc_out (finalize_race ?s) = Some [7]" "\<not> rc_timed_out (finalize_race ?s)" "0 \<notin> set (rc_settled (finalize_race ?s))"
    by code_simp+
  ultimately show ?thesis by blast
qed

text \<open>A predicate that throws counts a promise twice: the race ends while another is still open.\<close>

lemma throwing_predicate_ends_early:
  "\<exists>s. race_reach ((sample_race None)\<lparr>ro_should_complete := (\<lambda>_. None)\<rparr>) s \<and> rc_out s = Some [7] \<and> \<not> rc_timed_out s \<and> 1 \<notin> set (rc_settled s)"
proof -
  let ?o = "(sample_race None)\<lparr>ro_should_complete := (\<lambda>_. None)\<rparr>"
  let ?s = "fulfilled ?o 0 (Some 7) (start_race ?o)"
  have "race_reach ?o ?s" by (rule race_reach.step [OF race_reach.start race_step.fulfils]) code_simp+
  moreover have "rc_due ?s = [0]" by code_simp
  ultimately have "race_reach ?o (caught ?o 0 (?s\<lparr>rc_due := []\<rparr>))" by (intro race_reach.step [OF _ race_step.handler_threw])
  moreover have "rc_out (caught ?o 0 (?s\<lparr>rc_due := []\<rparr>)) = Some [7]" "\<not> rc_timed_out (caught ?o 0 (?s\<lparr>rc_due := []\<rparr>))"
    "1 \<notin> set (rc_settled (caught ?o 0 (?s\<lparr>rc_due := []\<rparr>)))" by code_simp+
  ultimately show ?thesis by blast
qed

text \<open>A race of no promises has nobody to finish it: it waits for the hard timeout.\<close>

lemma empty_race_waits:
  assumes "race_reach opt s" "ro_count opt = 0" "ro_aux opt = []"
  shows "rc_out s = None \<or> rc_timed_out s"
proof -
  have "rc_due s = [] \<and> \<not> rc_aux_timer s \<and> \<not> rc_grace s \<and> (rc_out s = None \<or> rc_timed_out s)"
    using assms(1)
  proof (induction rule: race_reach.induct)
    case start
    then show ?case by (simp add: start_race_def)
  next
    case (step s t)
    from step.hyps(2) step.IH assms(2) show ?case
      by (cases rule: race_step.cases) (auto simp: timeout_fires_def)
  qed
  then show ?thesis by blast
qed

end
