(* ===== verification/Worker_Pool.thy ===== *)
theory Worker_Pool
  imports Lens_Prelude "HOL-Library.Multiset"
begin

text \<open>
  \<^verbatim>\<open>clients/map-with-concurrency.ts\<close>: a pool of workers that take the next index in turn and map its item.
  A worker's code between two awaits is one step.  A concurrency that is not a number is \<open>None\<close>; the number of
  workers is a \<^verbatim>\<open>length\<close>, so a fraction is cut off before it gets here.
\<close>

definition worker_count :: "int option \<Rightarrow> nat \<Rightarrow> nat" where
  "worker_count concurrency items =
     (case concurrency of None \<Rightarrow> 0 | Some c \<Rightarrow> nat (max 1 (min c (int items))))"

datatype worker = Free | Busy nat | Retired | Broken

record 'r pool =
  pl_next :: nat
  pl_workers :: "worker list"
  pl_results :: "(nat, 'r) js_map"
  pl_aborted :: bool

definition start_pool :: "int option \<Rightarrow> nat \<Rightarrow> 'r pool" where
  "start_pool concurrency items =
     \<lparr>pl_next = 0, pl_workers = replicate (worker_count concurrency items) Free, pl_results = [], pl_aborted = False\<rparr>"

text \<open>A free worker at the head of its loop.\<close>

definition take_item :: "nat \<Rightarrow> nat \<Rightarrow> 'r pool \<Rightarrow> 'r pool" where
  "take_item items w s =
     (if pl_aborted s then s\<lparr>pl_workers := (pl_workers s)[w := Retired]\<rparr>
      else s\<lparr>pl_next := pl_next s + 1,
             pl_workers := (pl_workers s)[w := (if pl_next s \<ge> items then Retired else Busy (pl_next s))]\<rparr>)"

definition item_done :: "nat \<Rightarrow> nat \<Rightarrow> 'r \<Rightarrow> 'r pool \<Rightarrow> 'r pool" where
  "item_done w i r s = s\<lparr>pl_results := AList.update i r (pl_results s), pl_workers := (pl_workers s)[w := Free]\<rparr>"

definition item_failed :: "nat \<Rightarrow> 'r pool \<Rightarrow> 'r pool" where
  "item_failed w s = s\<lparr>pl_workers := (pl_workers s)[w := Broken]\<rparr>"

definition abort_pool :: "'r pool \<Rightarrow> 'r pool" where
  "abort_pool s = s\<lparr>pl_aborted := True\<rparr>"

text \<open>\<open>outcome i = Some r\<close> when the mapper resolves with \<open>r\<close> on item \<open>i\<close>, \<open>None\<close> when it rejects.\<close>

inductive pool_step :: "nat \<Rightarrow> (nat \<Rightarrow> 'r option) \<Rightarrow> 'r pool \<Rightarrow> 'r pool \<Rightarrow> bool" for items outcome where
  takes: "w < length (pl_workers s) \<Longrightarrow> pl_workers s ! w = Free \<Longrightarrow> pool_step items outcome s (take_item items w s)"
| resolves: "w < length (pl_workers s) \<Longrightarrow> pl_workers s ! w = Busy i \<Longrightarrow> outcome i = Some r \<Longrightarrow>
    pool_step items outcome s (item_done w i r s)"
| fails: "w < length (pl_workers s) \<Longrightarrow> pl_workers s ! w = Busy i \<Longrightarrow> outcome i = None \<Longrightarrow>
    pool_step items outcome s (item_failed w s)"
| aborts: "\<not> pl_aborted s \<Longrightarrow> pool_step items outcome s (abort_pool s)"

inductive pool_reach :: "int option \<Rightarrow> nat \<Rightarrow> (nat \<Rightarrow> 'r option) \<Rightarrow> 'r pool \<Rightarrow> bool" for concurrency items outcome where
  start: "pool_reach concurrency items outcome (start_pool concurrency items)"
| step: "pool_reach concurrency items outcome s \<Longrightarrow> pool_step items outcome s t \<Longrightarrow> pool_reach concurrency items outcome t"

text \<open>What the call answers once no worker is left: nothing when one broke, else the results by index.\<close>

definition pool_finished :: "'r pool \<Rightarrow> bool" where
  "pool_finished s \<longleftrightarrow> list_all (\<lambda>w. w = Retired \<or> w = Broken) (pl_workers s)"

definition pool_answer :: "nat \<Rightarrow> 'r pool \<Rightarrow> 'r list option" where
  "pool_answer items s =
     (if items = 0 then Some []
      else if Broken \<in> set (pl_workers s) then None
      else Some (map snd (sort_key fst (pl_results s))))"

subsection \<open>The indices\<close>

definition in_flight :: "'r pool \<Rightarrow> nat list" where
  "in_flight s = List.map_filter (\<lambda>w. case w of Busy i \<Rightarrow> Some i | _ \<Rightarrow> None) (pl_workers s)"

definition broken_count :: "'r pool \<Rightarrow> nat" where
  "broken_count s = length (filter (\<lambda>w. w = Broken) (pl_workers s))"

text \<open>
  Each index that was taken is in flight, has its result, or broke its worker; without an abort a worker retires
  only when the items are used up.
\<close>

definition pool_inv :: "int option \<Rightarrow> nat \<Rightarrow> (nat \<Rightarrow> 'r option) \<Rightarrow> 'r pool \<Rightarrow> bool" where
  "pool_inv concurrency items outcome s \<longleftrightarrow>
     length (pl_workers s) = worker_count concurrency items \<and>
     distinct (in_flight s @ keys_of (pl_results s)) \<and>
     set (in_flight s) \<union> set (keys_of (pl_results s)) \<subseteq> {..<min (pl_next s) items} \<and>
     (\<forall>(i, r) \<in> set (pl_results s). outcome i = Some r) \<and>
     length (in_flight s) + length (pl_results s) + broken_count s = min (pl_next s) items \<and>
     (Retired \<in> set (pl_workers s) \<longrightarrow> pl_aborted s \<or> items \<le> pl_next s) \<and>
     (Broken \<in> set (pl_workers s) \<longrightarrow> (\<exists>i < items. outcome i = None))"

abbreviation item_of :: "worker \<Rightarrow> nat option" where
  "item_of w \<equiv> (case w of Busy i \<Rightarrow> Some i | _ \<Rightarrow> None)"

lemma in_flight_update:
  assumes "w < length (pl_workers s)"
  shows "mset (in_flight (s\<lparr>pl_workers := (pl_workers s)[w := x]\<rparr>)) + (case item_of (pl_workers s ! w) of None \<Rightarrow> {#} | Some i \<Rightarrow> {#i#}) =
         mset (in_flight s) + (case item_of x of None \<Rightarrow> {#} | Some i \<Rightarrow> {#i#})"
proof -
  have "mset (List.map_filter f (ws[w := x])) + (case f (ws ! w) of None \<Rightarrow> {#} | Some i \<Rightarrow> {#i#}) =
      mset (List.map_filter f ws) + (case f x of None \<Rightarrow> {#} | Some i \<Rightarrow> {#i#})"
    if "w < length ws" for f :: "worker \<Rightarrow> nat option" and ws
    using that
  proof (induction ws arbitrary: w)
    case (Cons y ws)
    then show ?case by (cases w) (auto split: option.splits simp: map_filter_simps)
  qed simp
  then show ?thesis using assms by (simp add: in_flight_def)
qed

lemma broken_update:
  assumes "w < length (pl_workers s)"
  shows "broken_count (s\<lparr>pl_workers := (pl_workers s)[w := x]\<rparr>) + (if pl_workers s ! w = Broken then 1 else 0) =
         broken_count s + (if x = Broken then 1 else 0)"
proof -
  have "length (filter P (ws[w := x])) + (if P (ws ! w) then 1 else 0) = length (filter P ws) + (if P x then 1 else 0)"
    if "w < length ws" for P :: "worker \<Rightarrow> bool" and ws
    using that
  proof (induction ws arbitrary: w)
    case (Cons y ws)
    then show ?case by (cases w) auto
  qed simp
  from this [OF assms, of "\<lambda>w. w = Broken"] show ?thesis by (simp add: broken_count_def)
qed

lemma in_flight_cong: "pl_workers t = pl_workers s \<Longrightarrow> in_flight t = in_flight s"
  by (simp add: in_flight_def)

lemma broken_cong: "pl_workers t = pl_workers s \<Longrightarrow> broken_count t = broken_count s"
  by (simp add: broken_count_def)

lemma mem_list_update: "x \<in> set (ws[w := y]) \<Longrightarrow> x = y \<or> x \<in> set ws"
  using set_update_subset_insert by fastforce

text \<open>The distinctness of two lists depends on their elements only.\<close>

lemma distinct_by_mset: "mset xs = mset ys \<Longrightarrow> distinct (xs @ zs) = distinct (ys @ zs)"
  by (metis distinct_append mset_eq_imp_distinct_iff mset_eq_setD)

lemma pool_step_inv:
  assumes inv: "pool_inv concurrency items outcome s" and step: "pool_step items outcome s t"
  shows "pool_inv concurrency items outcome t"
proof -
  have len: "length (pl_workers s) = worker_count concurrency items"
    and dist: "distinct (in_flight s @ keys_of (pl_results s))"
    and sub: "set (in_flight s) \<union> set (keys_of (pl_results s)) \<subseteq> {..<min (pl_next s) items}"
    and res: "\<forall>(i, r) \<in> set (pl_results s). outcome i = Some r"
    and sum: "length (in_flight s) + length (pl_results s) + broken_count s = min (pl_next s) items"
    and ret: "Retired \<in> set (pl_workers s) \<longrightarrow> pl_aborted s \<or> items \<le> pl_next s"
    and brk: "Broken \<in> set (pl_workers s) \<longrightarrow> (\<exists>i < items. outcome i = None)"
    using inv unfolding pool_inv_def by blast+
  let ?with = "\<lambda>w x. s\<lparr>pl_workers := (pl_workers s)[w := x]\<rparr>"
  from step show ?thesis
  proof (cases rule: pool_step.cases)
    case (takes w)
    show ?thesis
    proof (cases "pl_aborted s \<or> pl_next s \<ge> items")
      case True
      have t: "pl_workers t = (pl_workers s)[w := Retired]" "pl_results t = pl_results s" "pl_aborted t = pl_aborted s"
        "min (pl_next t) items = min (pl_next s) items" "pl_aborted t \<or> items \<le> pl_next t"
        using True takes by (auto simp: take_item_def)
      have "mset (in_flight (?with w Retired)) = mset (in_flight s)" using in_flight_update [OF takes(2), of Retired] takes(3) by simp
      then have fl: "mset (in_flight t) = mset (in_flight s)" using t(1) in_flight_cong [of t "?with w Retired"] by simp
      have bc: "broken_count t = broken_count s"
        using broken_update [OF takes(2), of Retired] takes(3) t(1) broken_cong [of t "?with w Retired"] by simp
      have "distinct (in_flight t @ keys_of (pl_results t))" using dist unfolding distinct_by_mset [OF fl] t(2) .
      moreover have "set (in_flight t) = set (in_flight s)" "length (in_flight t) = length (in_flight s)"
        using fl by (metis set_mset_mset) (metis fl size_mset)
      moreover have "Broken \<in> set (pl_workers t) \<longrightarrow> (\<exists>i < items. outcome i = None)"
        using brk mem_list_update [of Broken "pl_workers s" w Retired] t(1) by auto
      ultimately show ?thesis using len sub res sum t bc unfolding pool_inv_def by (metis length_list_update)
    next
      case False
      let ?n = "pl_next s"
      have t: "pl_workers t = (pl_workers s)[w := Busy ?n]" "pl_results t = pl_results s" "pl_aborted t = pl_aborted s"
        "min (pl_next t) items = ?n + 1" "min ?n items = ?n"
        using False takes by (auto simp: take_item_def)
      have "mset (in_flight (?with w (Busy ?n))) = mset (?n # in_flight s)" using in_flight_update [OF takes(2), of "Busy ?n"] takes(3) by simp
      then have fl: "mset (in_flight t) = mset (?n # in_flight s)" using t(1) in_flight_cong [of t "?with w (Busy ?n)"] by simp
      have bc: "broken_count t = broken_count s"
        using broken_update [OF takes(2), of "Busy ?n"] takes(3) t(1) broken_cong [of t "?with w (Busy ?n)"] by simp
      have fresh: "?n \<notin> set (in_flight s)" "?n \<notin> set (keys_of (pl_results s))" using sub t(5) by auto
      have "distinct (in_flight t @ keys_of (pl_results t))"
        using dist fresh unfolding distinct_by_mset [OF fl] t(2) by simp
      moreover have "set (in_flight t) = insert ?n (set (in_flight s))" "length (in_flight t) = Suc (length (in_flight s))"
        using fl by (metis set_mset_mset list.set(2)) (metis fl size_mset length_Cons)
      moreover have "Broken \<in> set (pl_workers t) \<longrightarrow> (\<exists>i < items. outcome i = None)"
        using brk mem_list_update [of Broken "pl_workers s" w "Busy ?n"] t(1) by auto
      moreover have "Retired \<in> set (pl_workers t) \<longrightarrow> pl_aborted t \<or> items \<le> pl_next t"
        using ret False mem_list_update [of Retired "pl_workers s" w "Busy ?n"] t(1,3) by auto
      moreover have "set (in_flight t) \<union> set (keys_of (pl_results t)) \<subseteq> {..<min (pl_next t) items}"
        using sub calculation(2) unfolding t by auto
      ultimately show ?thesis using len res sum t bc unfolding pool_inv_def by simp
    qed
  next
    case (resolves w i r)
    have t: "pl_workers t = (pl_workers s)[w := Free]" "pl_results t = AList.update i r (pl_results s)" "pl_aborted t = pl_aborted s"
      "pl_next t = pl_next s" using resolves by (simp_all add: item_done_def)
    have "mset (i # in_flight (?with w Free)) = mset (in_flight s)" using in_flight_update [OF resolves(2), of Free] resolves(3) by simp
    then have fl: "mset (i # in_flight t) = mset (in_flight s)" using t(1) in_flight_cong [of t "?with w Free"] by simp
    have bc: "broken_count t = broken_count s"
      using broken_update [OF resolves(2), of Free] resolves(3) t(1) broken_cong [of t "?with w Free"] by simp
    have mem: "set (in_flight s) = insert i (set (in_flight t))" "length (in_flight s) = Suc (length (in_flight t))"
      using fl by (metis set_mset_mset list.set(2)) (metis fl size_mset length_Cons)
    then have new: "i \<notin> set (keys_of (pl_results s))" using dist by auto
    have results: "pl_results t = pl_results s @ [(i, r)]" unfolding t by (rule update_new [OF new])
    have "distinct ((i # in_flight t) @ keys_of (pl_results s))"
      using dist unfolding distinct_by_mset [OF fl] .
    then have "distinct (in_flight t @ keys_of (pl_results t))" unfolding results by auto
    moreover have "Broken \<in> set (pl_workers t) \<longrightarrow> (\<exists>i < items. outcome i = None)"
      using brk mem_list_update [of Broken "pl_workers s" w Free] t(1) by auto
    moreover have "Retired \<in> set (pl_workers t) \<longrightarrow> pl_aborted t \<or> items \<le> pl_next t"
      using ret mem_list_update [of Retired "pl_workers s" w Free] t by auto
    moreover have "set (in_flight t) \<union> set (keys_of (pl_results t)) \<subseteq> {..<min (pl_next t) items}"
      using sub mem unfolding results t(4) by auto
    ultimately show ?thesis using len res sum t(1,4) bc mem resolves(4) unfolding pool_inv_def results by simp
  next
    case (fails w i)
    have t: "pl_workers t = (pl_workers s)[w := Broken]" "pl_results t = pl_results s" "pl_aborted t = pl_aborted s"
      "pl_next t = pl_next s" using fails by (simp_all add: item_failed_def)
    have "mset (i # in_flight (?with w Broken)) = mset (in_flight s)" using in_flight_update [OF fails(2), of Broken] fails(3) by simp
    then have fl: "mset (i # in_flight t) = mset (in_flight s)" using t(1) in_flight_cong [of t "?with w Broken"] by simp
    have bc: "broken_count t = Suc (broken_count s)"
      using broken_update [OF fails(2), of Broken] fails(3) t(1) broken_cong [of t "?with w Broken"] by simp
    have mem: "set (in_flight s) = insert i (set (in_flight t))" "length (in_flight s) = Suc (length (in_flight t))"
      using fl by (metis set_mset_mset list.set(2)) (metis fl size_mset length_Cons)
    have "distinct ((i # in_flight t) @ keys_of (pl_results s))"
      using dist unfolding distinct_by_mset [OF fl] .
    then have "distinct (in_flight t @ keys_of (pl_results t))" using t by simp
    moreover have "\<exists>i < items. outcome i = None" using mem sub fails(4) by auto
    moreover have "Retired \<in> set (pl_workers t) \<longrightarrow> pl_aborted t \<or> items \<le> pl_next t"
      using ret mem_list_update [of Retired "pl_workers s" w Broken] t by auto
    moreover have "set (in_flight t) \<union> set (keys_of (pl_results t)) \<subseteq> {..<min (pl_next t) items}"
      using sub mem unfolding t by auto
    ultimately show ?thesis using len res sum t bc mem unfolding pool_inv_def by simp
  next
    case aborts
    then show ?thesis using inv in_flight_cong [of t s] broken_cong [of t s] by (simp add: pool_inv_def abort_pool_def)
  qed
qed

lemma reachable_pool_inv: "pool_reach concurrency items outcome s \<Longrightarrow> pool_inv concurrency items outcome s"
proof (induction rule: pool_reach.induct)
  case start
  have "List.map_filter item_of (replicate n Free) = []" for n by (induction n) (simp_all add: map_filter_simps)
  then show ?case by (simp add: pool_inv_def start_pool_def in_flight_def broken_count_def)
next
  case (step s t)
  then show ?case using pool_step_inv by blast
qed

subsection \<open>What the pool promises\<close>

lemma in_flight_le: "length (in_flight s) \<le> length (pl_workers s)"
proof -
  have "length (List.map_filter f ws) \<le> length ws" for f :: "worker \<Rightarrow> nat option" and ws
    by (induction ws) (auto simp: map_filter_simps split: option.splits)
  then show ?thesis by (simp add: in_flight_def)
qed

lemma answers_sorted:
  assumes "distinct (map fst m)" "set (map fst m) = {..<n}" "\<forall>(i, r) \<in> set m. f i = r"
  shows "map snd (sort_key fst m) = map f [0..<n]"
proof -
  let ?s = "sort_key fst m"
  have "sorted (map fst ?s)" "distinct (map fst ?s)" "set (map fst ?s) = {..<n}"
    using assms(1,2) by (simp_all add: distinct_map inj_on_def)
  moreover have "set [0..<n] = {..<n}" by auto
  ultimately have keys: "map fst ?s = [0..<n]" by (intro sorted_distinct_set_unique) simp_all
  have "map snd ?s = map (\<lambda>x. f (fst x)) ?s" using assms(3) by (intro map_cong) auto
  also have "\<dots> = map f [0..<n]" unfolding keys [symmetric] by simp
  finally show ?thesis .
qed

text \<open>C39 (bounds). However the mappers interleave, at most the given concurrency of them (and at least one) is in
  flight, on different items. A pool that finishes without an abort or a rejection has mapped every item and
  answers the results in the order of the items.\<close>

theorem pool_is_bounded_and_complete:
  assumes "pool_reach (Some c) items outcome s"
  shows "length (in_flight s) \<le> nat (max 1 c) \<and> distinct (in_flight s) \<and>
    (pool_finished s \<and> \<not> pl_aborted s \<and> list_all (\<lambda>i. outcome i \<noteq> None) [0..<items] \<longrightarrow>
       pool_answer items s = Some (map (the \<circ> outcome) [0..<items]))"
proof -
  have inv: "pool_inv (Some c) items outcome s" by (rule reachable_pool_inv [OF assms])
  then have len: "length (pl_workers s) = worker_count (Some c) items" by (simp add: pool_inv_def)
  have "length (in_flight s) \<le> nat (max 1 c)"
    using in_flight_le [of s] len by (simp add: worker_count_def)
  moreover have "pool_answer items s = Some (map (the \<circ> outcome) [0..<items])"
    if fin: "pool_finished s" "\<not> pl_aborted s" and ok: "list_all (\<lambda>i. outcome i \<noteq> None) [0..<items]"
  proof (cases "items = 0")
    case False
    have "outcome i \<noteq> None" if "i < items" for i using ok that by (simp add: list_all_iff)
    then have nb: "Broken \<notin> set (pl_workers s)" using inv unfolding pool_inv_def by blast
    have "pl_workers s \<noteq> []" using len by (auto simp: worker_count_def)
    then have "Retired \<in> set (pl_workers s)" using fin(1) nb by (cases "pl_workers s") (auto simp: pool_finished_def)
    then have all: "min (pl_next s) items = items" using inv fin(2) by (simp add: pool_inv_def)
    have none: "in_flight s = []" "broken_count s = 0"
    proof -
      have idle: "\<forall>w \<in> set (pl_workers s). w = Retired" using fin(1) nb unfolding pool_finished_def list_all_iff by blast
      then have "\<forall>w \<in> set (pl_workers s). item_of w = None" by auto
      then show "in_flight s = []" by (simp add: in_flight_def map_filter_def filter_empty_conv)
      show "broken_count s = 0" using nb by (auto simp: broken_count_def filter_empty_conv)
    qed
    have keys: "distinct (keys_of (pl_results s))" "set (keys_of (pl_results s)) \<subseteq> {..<items}" "length (keys_of (pl_results s)) = items"
      using inv none all by (simp_all add: pool_inv_def)
    then have "set (keys_of (pl_results s)) = {..<items}" by (metis card_lessThan card_subset_eq distinct_card finite_lessThan)
    moreover have "\<forall>(i, r) \<in> set (pl_results s). (the \<circ> outcome) i = r" using inv by (auto simp: pool_inv_def)
    ultimately have "map snd (sort_key fst (pl_results s)) = map (the \<circ> outcome) [0..<items]"
      using keys(1) by (intro answers_sorted)
    then show ?thesis using False nb by (simp add: pool_answer_def)
  qed (simp add: pool_answer_def)
  ultimately show ?thesis using inv by (auto simp: pool_inv_def)
qed

text \<open>The pool comes to its end: an unfinished one has a step, and every step spends from a finite store.\<close>

definition worker_weight :: "worker \<Rightarrow> nat" where
  "worker_weight w = (case w of Free \<Rightarrow> 1 | Busy i \<Rightarrow> 2 | Retired \<Rightarrow> 0 | Broken \<Rightarrow> 0)"

definition work_left :: "nat \<Rightarrow> 'r pool \<Rightarrow> nat" where
  "work_left items s = 2 * (items - pl_next s) + sum_list (map worker_weight (pl_workers s)) + (if pl_aborted s then 0 else 1)"

lemma weight_update:
  "w < length ws \<Longrightarrow> sum_list (map worker_weight (ws[w := x])) + worker_weight (ws ! w) = sum_list (map worker_weight ws) + worker_weight x"
proof (induction ws arbitrary: w)
  case (Cons y ws)
  then show ?case by (cases w) auto
qed simp

lemma pool_comes_to_its_end:
  "(\<not> pool_finished s \<longrightarrow> (\<exists>t. pool_step items outcome s t)) \<and> (pool_step items outcome s t \<longrightarrow> work_left items t < work_left items s)"
proof
  show "\<not> pool_finished s \<longrightarrow> (\<exists>t. pool_step items outcome s t)"
  proof
    assume "\<not> pool_finished s"
    then obtain w where w: "w < length (pl_workers s)" "pl_workers s ! w \<noteq> Retired" "pl_workers s ! w \<noteq> Broken"
      by (auto simp: pool_finished_def list_all_length)
    show "\<exists>t. pool_step items outcome s t"
    proof (cases "pl_workers s ! w")
      case (Busy i)
      then show ?thesis using w by (cases "outcome i") (blast intro: pool_step.fails pool_step.resolves)+
    qed (use w in \<open>blast intro: pool_step.takes\<close>)+
  qed
  show "pool_step items outcome s t \<longrightarrow> work_left items t < work_left items s"
  proof
    assume "pool_step items outcome s t"
    then show "work_left items t < work_left items s"
    proof (cases rule: pool_step.cases)
      case (takes w)
      then show ?thesis using weight_update [of w "pl_workers s" Retired] weight_update [of w "pl_workers s" "Busy (pl_next s)"]
        by (auto simp: work_left_def take_item_def worker_weight_def)
    next
      case (resolves w i r)
      then show ?thesis using weight_update [of w "pl_workers s" Free]
        by (auto simp: work_left_def item_done_def worker_weight_def)
    next
      case (fails w i)
      then show ?thesis using weight_update [of w "pl_workers s" Broken]
        by (auto simp: work_left_def item_failed_def worker_weight_def)
    next
      case aborts
      then show ?thesis by (simp add: work_left_def abort_pool_def)
    qed
  qed
qed

text \<open>A concurrency that is not a number makes no workers: the call answers at once without mapping anything.\<close>

lemma no_number_maps_nothing:
  "pool_finished (start_pool None items) \<and> pool_answer items (start_pool None items :: 'r pool) = Some []"
  by (simp add: pool_finished_def pool_answer_def start_pool_def worker_count_def)

lemma pool_is_bounded_and_complete_witness:
  "(\<lambda>s. pool_finished s \<and> pool_answer 2 s = Some [10, 11])
     (take_item 2 0 (item_done 0 1 11 (take_item 2 0 (item_done 0 0 (10 :: nat) (take_item 2 0 (start_pool (Some 1) 2))))))"
proof -
  let ?o = "\<lambda>i. Some (i + 10)"
  let ?a = "take_item 2 0 (start_pool (Some 1) 2) :: nat pool"
  let ?b = "take_item 2 0 (item_done 0 0 10 ?a)"
  let ?s = "take_item 2 0 (item_done 0 1 11 ?b)"
  have "pool_reach (Some 1) 2 ?o ?a" by (rule pool_reach.step [OF pool_reach.start pool_step.takes]) code_simp+
  then have "pool_reach (Some 1) 2 ?o (item_done 0 0 10 ?a)" by (rule pool_reach.step [OF _ pool_step.resolves]) code_simp+
  then have "pool_reach (Some 1) 2 ?o ?b" by (rule pool_reach.step [OF _ pool_step.takes]) code_simp+
  then have "pool_reach (Some 1) 2 ?o (item_done 0 1 11 ?b)" by (rule pool_reach.step [OF _ pool_step.resolves]) code_simp+
  then have r: "pool_reach (Some 1) 2 ?o ?s" by (rule pool_reach.step [OF _ pool_step.takes]) code_simp+
  have "pool_finished ?s" "\<not> pl_aborted ?s" by code_simp+
  then show ?thesis using pool_is_bounded_and_complete [OF r] by (simp add: list_all_iff upt_rec)
qed

end
