(* ===== verification/Pid_Lock.thy ===== *)
theory Pid_Lock
  imports Atomic_Write
begin

text \<open>
  \<^verbatim>\<open>acquireBoundedPidFileLock\<close> of \<^verbatim>\<open>clients/bounded-pid-file-lock.ts\<close>: a lock file created exclusively, in which
  the owner writes its process id and a token of its own.  A contender that finds the file reads it and
  removes it when the owner's process is gone.  Every system call, its failures included, is one event; calls
  of any number of processes interleave in any order, processes end, and process ids are used again.

  The lock file carries the number of the call that created it, for a text written through a descriptor goes
  to the file that was opened, which may have been removed since; a token is written in one system call.  Two
  counters and a mark record what has happened and decide nothing: \<open>lk_exposed\<close> counts the reads by
  contenders of a file with no token in it yet or whose creator's process had ended, \<open>lk_lost\<close> the files
  removed by a call that had not created them, and \<open>ct_seen\<close> is what \<open>lk_lost\<close> was when a release read its token.
\<close>

subsection \<open>Owners\<close>

datatype kill_result = Signalled | Not_Permitted | No_Such_Process

datatype lock_stage =
    Trying
  | Opened
  | Written
  | Locked
  | Found
  | Breaking
  | Pausing
  | Gave_Up
  | Releasing
  | Released
  | Killed

record contender =
  ct_pid :: nat
  ct_token :: string
  ct_stage :: lock_stage
  ct_seen :: nat

record pid_lock =
  lk_file :: "(nat \<times> string) option"
  lk_calls :: "contender list"
  lk_alive :: "nat list"
  lk_foreign :: "nat list"
  lk_exposed :: nat
  lk_lost :: nat

definition unlocked :: pid_lock where
  "unlocked = \<lparr>lk_file = None, lk_calls = [], lk_alive = [], lk_foreign = [], lk_exposed = 0, lk_lost = 0\<rparr>"

text \<open>\<^verbatim>\<open>Number.parseInt(s, 10)\<close>, with \<open>None\<close> for \<^verbatim>\<open>NaN\<close>, and \<^verbatim>\<open>process.kill(pid, 0)\<close>.\<close>

definition parse_int :: "string \<Rightarrow> int option" where
  "parse_int s =
     (let t = dropWhile is_js_space s;
          signed = (t \<noteq> [] \<and> hd t \<in> {CHR ''-'', CHR ''+''});
          digits = takeWhile is_digit (if signed then tl t else t)
      in if digits = [] then None
         else Some ((if signed \<and> hd t = CHR ''-'' then -1 else 1) * int (numeral_value digits)))"

definition kill_zero :: "pid_lock \<Rightarrow> nat \<Rightarrow> kill_result" where
  "kill_zero s p =
     (if p \<notin> set (lk_alive s) then No_Such_Process else if p \<in> set (lk_foreign s) then Not_Permitted else Signalled)"

definition MAX_SAFE_INTEGER :: int where
  "MAX_SAFE_INTEGER = 9007199254740991"

definition owner_pid_is_live :: "pid_lock \<Rightarrow> int option \<Rightarrow> bool" where
  "owner_pid_is_live s pid =
     (case pid of
        None \<Rightarrow> False
      | Some n \<Rightarrow>
          if \<not> \<bar>n\<bar> \<le> MAX_SAFE_INTEGER \<or> n \<le> 0 then False
          else case kill_zero s (nat n) of
                 Signalled \<Rightarrow> True
               | Not_Permitted \<Rightarrow> True
               | No_Such_Process \<Rightarrow> False)"

definition token_of :: "nat \<Rightarrow> string \<Rightarrow> string" where
  "token_of pid stamp = decimal pid @ '':'' @ stamp"

definition text_is_live :: "pid_lock \<Rightarrow> string \<Rightarrow> bool" where
  "text_is_live s t = owner_pid_is_live s (parse_int (takeWhile (\<lambda>c. c \<noteq> CHR '':'') t))"

subsection \<open>Events\<close>

definition at_stage :: "pid_lock \<Rightarrow> nat \<Rightarrow> lock_stage \<Rightarrow> bool" where
  "at_stage s i x \<longleftrightarrow> i < length (lk_calls s) \<and> ct_stage (lk_calls s ! i) = x"

definition token_at :: "pid_lock \<Rightarrow> nat \<Rightarrow> string" where
  "token_at s i = ct_token (lk_calls s ! i)"

definition go :: "nat \<Rightarrow> lock_stage \<Rightarrow> pid_lock \<Rightarrow> pid_lock" where
  "go i x s = s\<lparr>lk_calls := (lk_calls s)[i := (lk_calls s ! i)\<lparr>ct_stage := x\<rparr>]\<rparr>"

text \<open>\<^verbatim>\<open>openSync(lockPath, "wx")\<close>\<close>

definition create_file :: "nat \<Rightarrow> pid_lock \<Rightarrow> pid_lock" where
  "create_file i s = (if lk_file s = None then go i Opened (s\<lparr>lk_file := Some (i, [])\<rparr>) else go i Found s)"

definition write_token :: "nat \<Rightarrow> pid_lock \<Rightarrow> pid_lock" where
  "write_token i s =
     go i Written (s\<lparr>lk_file := map_option (\<lambda>(creator, t). (creator, if creator = i then token_at s i else t)) (lk_file s)\<rparr>)"

text \<open>\<open>exposed\<close> is what the count is taken of; the read itself goes by the text alone.\<close>

definition exposed :: "pid_lock \<Rightarrow> nat \<Rightarrow> string \<Rightarrow> bool" where
  "exposed s creator t \<longleftrightarrow> t = [] \<or> ct_pid (lk_calls s ! creator) \<notin> set (lk_alive s)"

definition read_owner :: "nat \<Rightarrow> pid_lock \<Rightarrow> pid_lock" where
  "read_owner i s =
     (case lk_file s of
        None \<Rightarrow> go i Trying s
      | Some (creator, t) \<Rightarrow>
          go i (if text_is_live s t then Pausing else Breaking)
            (s\<lparr>lk_exposed := lk_exposed s + (if exposed s creator t then 1 else 0)\<rparr>))"

definition unlink_file :: "nat \<Rightarrow> pid_lock \<Rightarrow> pid_lock" where
  "unlink_file i s =
     (case lk_file s of
        None \<Rightarrow> s
      | Some (creator, _) \<Rightarrow> s\<lparr>lk_file := None, lk_lost := lk_lost s + (if creator = i then 0 else 1)\<rparr>)"

text \<open>The closure a call returns, which may be run again.\<close>

definition read_token :: "nat \<Rightarrow> pid_lock \<Rightarrow> pid_lock" where
  "read_token i s =
     (if (case lk_file s of Some (_, t) \<Rightarrow> t = token_at s i | None \<Rightarrow> False)
      then s\<lparr>lk_calls := (lk_calls s)[i := (lk_calls s ! i)\<lparr>ct_stage := Releasing, ct_seen := lk_lost s\<rparr>]\<rparr>
      else go i Released s)"

definition kill_process :: "nat \<Rightarrow> pid_lock \<Rightarrow> pid_lock" where
  "kill_process p s =
     s\<lparr>lk_alive := removeAll p (lk_alive s), lk_foreign := removeAll p (lk_foreign s),
       lk_calls := map (\<lambda>c. if ct_pid c = p then c\<lparr>ct_stage := Killed\<rparr> else c) (lk_calls s)\<rparr>"

definition is_process_id :: "nat \<Rightarrow> bool" where
  "is_process_id p \<longleftrightarrow> 0 < int p \<and> int p < 2147483648"

datatype lock_event =
    Process_Starts nat bool
  | Process_Ends nat
  | Acquire nat string
  | Create nat
  | Create_Fails nat
  | Write_Token nat
  | Write_Fails nat
  | Close nat
  | Close_Fails nat
  | Read_Lock nat
  | Read_Fails nat
  | Break_Lock nat
  | Break_Fails nat
  | Retry nat
  | Deadline nat
  | Release nat
  | Release_Fails nat
  | Unlink nat
  | Unlink_Fails nat

definition when_at :: "nat \<Rightarrow> lock_stage list \<Rightarrow> (pid_lock \<Rightarrow> pid_lock) \<Rightarrow> pid_lock \<Rightarrow> pid_lock option" where
  "when_at i xs f s = (if list_ex (at_stage s i) xs then Some (f s) else None)"

fun lock_event_step :: "lock_event \<Rightarrow> pid_lock \<Rightarrow> pid_lock option" where
  "lock_event_step (Process_Starts p foreign) s =
     (if p \<in> set (lk_alive s) \<or> \<not> is_process_id p then None
      else Some (s\<lparr>lk_alive := p # lk_alive s, lk_foreign := (if foreign then [p] else []) @ lk_foreign s\<rparr>))"
| "lock_event_step (Process_Ends p) s = Some (kill_process p s)"
| "lock_event_step (Acquire p stamp) s =
     (if p \<in> set (lk_alive s) \<and> token_of p stamp \<notin> set (map ct_token (lk_calls s))
      then Some (s\<lparr>lk_calls := lk_calls s @ [\<lparr>ct_pid = p, ct_token = token_of p stamp, ct_stage = Trying, ct_seen = 0\<rparr>]\<rparr>)
      else None)"
| "lock_event_step (Create i) s = when_at i [Trying] (create_file i) s"
| "lock_event_step (Create_Fails i) s = when_at i [Trying] (go i Gave_Up) s"
| "lock_event_step (Write_Token i) s = when_at i [Opened] (write_token i) s"
| "lock_event_step (Write_Fails i) s = when_at i [Opened] (go i Gave_Up) s"
| "lock_event_step (Close i) s = when_at i [Written] (go i Locked) s"
| "lock_event_step (Close_Fails i) s = when_at i [Written] (go i Gave_Up) s"
| "lock_event_step (Read_Lock i) s = when_at i [Found] (read_owner i) s"
| "lock_event_step (Read_Fails i) s = when_at i [Found] (go i Pausing) s"
| "lock_event_step (Break_Lock i) s = when_at i [Breaking] (\<lambda>s. go i Trying (unlink_file i s)) s"
| "lock_event_step (Break_Fails i) s = when_at i [Breaking] (go i Pausing) s"
| "lock_event_step (Retry i) s = when_at i [Pausing] (go i Trying) s"
| "lock_event_step (Deadline i) s = when_at i [Pausing] (go i Gave_Up) s"
| "lock_event_step (Release i) s = when_at i [Locked, Released] (read_token i) s"
| "lock_event_step (Release_Fails i) s = when_at i [Locked, Released] (go i Released) s"
| "lock_event_step (Unlink i) s = when_at i [Releasing] (\<lambda>s. go i Released (unlink_file i s)) s"
| "lock_event_step (Unlink_Fails i) s = when_at i [Releasing] (go i Released) s"

inductive pid_reach :: "pid_lock \<Rightarrow> bool" where
  start: "pid_reach unlocked"
| step: "pid_reach s \<Longrightarrow> lock_event_step e s = Some t \<Longrightarrow> pid_reach t"

fun run_lock :: "lock_event list \<Rightarrow> pid_lock \<Rightarrow> pid_lock option" where
  "run_lock [] s = Some s"
| "run_lock (e # es) s = Option.bind (lock_event_step e s) (run_lock es)"

lemma run_reaches: "pid_reach s \<Longrightarrow> run_lock es s = Some t \<Longrightarrow> pid_reach t"
  by (induction es arbitrary: s) (auto split: bind_splits intro: pid_reach.step)

subsection \<open>Reading an owner\<close>

lemma digits_ahead:
  assumes "list_all is_digit ds" "ds \<noteq> []"
  shows "parse_int ds = Some (int (numeral_value ds))"
proof -
  obtain d r where ds: "ds = d # r" using assms(2) by (cases ds) auto
  have d: "is_digit d" using assms(1) ds by simp
  then have "\<not> is_js_space d" "d \<noteq> CHR ''-''" "d \<noteq> CHR ''+''" by (auto simp: is_digit_def is_js_space_def)
  moreover have "takeWhile is_digit ds = ds" using assms(1) by (simp add: list_all_iff takeWhile_eq_all_conv)
  ultimately show ?thesis using ds by (simp add: parse_int_def Let_def)
qed

lemma decimal_ne: "decimal n \<noteq> []"
  by (simp add: decimal.simps [of n])

text \<open>A token names its owner, so its lock is live exactly while the owner's process runs.\<close>

lemma token_names_owner: "parse_int (takeWhile (\<lambda>c. c \<noteq> CHR '':'') (token_of p stamp)) = Some (int p)"
proof -
  have "c \<noteq> CHR '':''" if "c \<in> set (decimal p)" for c
    using decimal_digits [of p] that by (auto simp: list_all_iff is_digit_def)
  then have "takeWhile (\<lambda>c. c \<noteq> CHR '':'') (token_of p stamp) = decimal p"
    by (simp add: token_of_def takeWhile_append)
  then show ?thesis using digits_ahead [OF decimal_digits decimal_ne] by simp
qed

lemma owner_is_live_iff:
  "0 < p \<Longrightarrow> int p \<le> MAX_SAFE_INTEGER \<Longrightarrow> text_is_live s (token_of p stamp) \<longleftrightarrow> p \<in> set (lk_alive s)"
  by (simp add: text_is_live_def token_names_owner owner_pid_is_live_def kill_zero_def)

lemma unwritten_is_dead: "\<not> text_is_live s []"
  by (simp add: text_is_live_def parse_int_def owner_pid_is_live_def)

subsection \<open>Exclusion\<close>

definition holds_lock :: "pid_lock \<Rightarrow> nat \<Rightarrow> bool" where
  "holds_lock s i \<longleftrightarrow> at_stage s i Written \<or> at_stage s i Locked \<or> at_stage s i Releasing"

abbreviation seen_at :: "pid_lock \<Rightarrow> nat \<Rightarrow> nat" where
  "seen_at s i \<equiv> ct_seen (lk_calls s ! i)"

definition lock_inv :: "pid_lock \<Rightarrow> bool" where
  "lock_inv s \<longleftrightarrow>
     distinct (map ct_token (lk_calls s)) \<and> [] \<notin> set (map ct_token (lk_calls s)) \<and>
     (\<forall>creator t. lk_file s = Some (creator, t) \<longrightarrow> creator < length (lk_calls s) \<and> (t = [] \<or> t = token_at s creator)) \<and>
     (\<forall>i. lk_lost s = 0 \<and> at_stage s i Opened \<longrightarrow> lk_file s = Some (i, [])) \<and>
     (\<forall>i. lk_lost s = 0 \<and> holds_lock s i \<longrightarrow> lk_file s = Some (i, token_at s i)) \<and>
     (\<forall>i. at_stage s i Releasing \<longrightarrow>
        seen_at s i \<le> lk_lost s \<and> (seen_at s i = lk_lost s \<longrightarrow> lk_file s = Some (i, token_at s i))) \<and>
     (lk_exposed s = 0 \<longrightarrow> lk_lost s = 0 \<and> (\<forall>i. \<not> at_stage s i Breaking))"

lemma inv_parts:
  assumes "lock_inv s"
  shows "distinct (map ct_token (lk_calls s))" "[] \<notin> set (map ct_token (lk_calls s))"
    "lk_file s = Some (creator, t) \<Longrightarrow> creator < length (lk_calls s) \<and> (t = [] \<or> t = token_at s creator)"
    "lk_lost s = 0 \<Longrightarrow> at_stage s i Opened \<Longrightarrow> lk_file s = Some (i, [])"
    "lk_lost s = 0 \<Longrightarrow> holds_lock s i \<Longrightarrow> lk_file s = Some (i, token_at s i)"
    "at_stage s i Releasing \<Longrightarrow> seen_at s i \<le> lk_lost s"
    "at_stage s i Releasing \<Longrightarrow> seen_at s i = lk_lost s \<Longrightarrow> lk_file s = Some (i, token_at s i)"
    "lk_exposed s = 0 \<Longrightarrow> lk_lost s = 0" "lk_exposed s = 0 \<Longrightarrow> \<not> at_stage s i Breaking"
  using assms unfolding lock_inv_def by blast+

lemma go_parts [simp]:
  "lk_file (go i x s) = lk_file s" "lk_exposed (go i x s) = lk_exposed s" "lk_lost (go i x s) = lk_lost s"
  "lk_alive (go i x s) = lk_alive s" "length (lk_calls (go i x s)) = length (lk_calls s)"
  by (simp_all add: go_def)

lemma go_calls [simp]:
  "map ct_token (lk_calls (go i x s)) = map ct_token (lk_calls s)"
  "token_at (go i x s) j = token_at s j" "seen_at (go i x s) j = seen_at s j"
proof -
  have "(map ct_token (lk_calls s))[i := ct_token (lk_calls s ! i)] = map ct_token (lk_calls s)"
    by (metis list_update_id map_update)
  then show "map ct_token (lk_calls (go i x s)) = map ct_token (lk_calls s)" by (simp add: go_def map_update)
  have "ct_token (lk_calls (go i x s) ! j) = ct_token (lk_calls s ! j) \<and> seen_at (go i x s) j = seen_at s j"
    by (cases "i < length (lk_calls s)") (auto simp: go_def nth_list_update list_update_beyond)
  then show "token_at (go i x s) j = token_at s j" "seen_at (go i x s) j = seen_at s j" by (simp_all add: token_at_def)
qed

lemma at_go: "at_stage s i w \<Longrightarrow> at_stage (go i x s) j y \<longleftrightarrow> (if j = i then y = x else at_stage s j y)"
  by (auto simp: at_stage_def go_def)

lemma at_one_stage: "at_stage s i x \<Longrightarrow> at_stage s i y \<Longrightarrow> x = y"
  by (simp add: at_stage_def)

lemma same_calls [simp]:
  "at_stage (s\<lparr>lk_file := f\<rparr>) = at_stage s" "at_stage (s\<lparr>lk_lost := n\<rparr>) = at_stage s" "at_stage (s\<lparr>lk_exposed := n\<rparr>) = at_stage s"
  "token_at (s\<lparr>lk_file := f\<rparr>) = token_at s" "token_at (s\<lparr>lk_lost := n\<rparr>) = token_at s" "token_at (s\<lparr>lk_exposed := n\<rparr>) = token_at s"
  by (simp_all add: at_stage_def token_at_def fun_eq_iff)

text \<open>Calls may always move to a stage that holds nothing and breaks nothing.\<close>

lemma inv_less:
  assumes inv: "lock_inv s" and same: "lk_file t = lk_file s" "lk_lost t = lk_lost s" "lk_exposed s \<le> lk_exposed t"
      "map ct_token (lk_calls t) = map ct_token (lk_calls s)" "\<And>i. at_stage t i Releasing \<Longrightarrow> seen_at t i = seen_at s i"
    and stages: "\<And>i x. x \<in> {Opened, Releasing} \<Longrightarrow> at_stage t i x \<Longrightarrow> at_stage s i x" "\<And>i. holds_lock t i \<Longrightarrow> holds_lock s i"
      "\<And>i. lk_exposed t = 0 \<Longrightarrow> at_stage t i Breaking \<Longrightarrow> at_stage s i Breaking"
  shows "lock_inv t"
proof -
  have len: "length (lk_calls t) = length (lk_calls s)" using same(4) by (metis length_map)
  have tok: "token_at t i = token_at s i" if "i < length (lk_calls s)" for i
    using same(4) len that unfolding token_at_def by (metis nth_map)
  have inside: "i < length (lk_calls s)" if "at_stage s i x" for i x using that by (simp add: at_stage_def)
  show ?thesis unfolding lock_inv_def
  proof (intro conjI allI impI)
    show "distinct (map ct_token (lk_calls t))" "[] \<notin> set (map ct_token (lk_calls t))" using inv_parts(1,2) [OF inv] same(4) by simp_all
  next
    fix c x
    assume "lk_file t = Some (c, x)"
    then show "c < length (lk_calls t)" "x = [] \<or> x = token_at t c" using inv_parts(3) [OF inv, of c x] same(1) len tok by auto
  next
    fix i
    assume "lk_lost t = 0 \<and> at_stage t i Opened"
    then show "lk_file t = Some (i, [])" using inv_parts(4) [OF inv] same stages(1) [of Opened i] by simp
  next
    fix i
    assume "lk_lost t = 0 \<and> holds_lock t i"
    then have "lk_lost s = 0" "holds_lock s i" using same stages(2) by auto
    moreover from this have "i < length (lk_calls s)" by (auto simp: holds_lock_def at_stage_def)
    ultimately show "lk_file t = Some (i, token_at t i)" using inv_parts(5) [OF inv] same tok by simp
  next
    fix i
    assume t: "at_stage t i Releasing"
    then have r: "at_stage s i Releasing" by (rule stages(1) [rotated]) simp
    show "seen_at t i \<le> lk_lost t" using inv_parts(6) [OF inv r] same t by simp
    assume "seen_at t i = lk_lost t"
    then show "lk_file t = Some (i, token_at t i)" using inv_parts(7) [OF inv r] same t tok inside [OF r] by simp
  next
    assume "lk_exposed t = 0"
    then show "lk_lost t = 0" using inv_parts(8) [OF inv] same by simp
  next
    fix i
    assume "lk_exposed t = 0"
    then show "\<not> at_stage t i Breaking" using inv_parts(9) [OF inv] same stages(3) by fastforce
  qed
qed

lemma go_inv:
  "lock_inv s \<Longrightarrow> at_stage s i w \<Longrightarrow> x \<notin> {Opened, Written, Locked, Releasing, Breaking} \<Longrightarrow> lock_inv (go i x s)"
  by (rule inv_less [of s]) (auto simp: holds_lock_def at_go split: if_splits)

lemma close_inv: "lock_inv s \<Longrightarrow> at_stage s i Written \<Longrightarrow> lock_inv (go i Locked s)"
  by (rule inv_less [of s]) (auto simp: holds_lock_def at_go split: if_splits)

lemma when_atD: "when_at i xs f s = Some t \<Longrightarrow> \<exists>x \<in> set xs. at_stage s i x \<and> t = f s"
  by (auto simp: when_at_def list_ex_iff split: if_splits)

lemma create_inv:
  assumes inv: "lock_inv s" and at: "at_stage s i Trying"
  shows "lock_inv (create_file i s)"
proof (cases "lk_file s = None")
  case True
  have none: "\<not> holds_lock s k" "\<not> at_stage s k Opened" if "lk_lost s = 0" for k
    using inv_parts(4,5) [OF inv that, of k] True by auto
  have old: "seen_at s k \<le> lk_lost s" "seen_at s k \<noteq> lk_lost s" if "at_stage s k Releasing" for k
    using inv_parts(6,7) [OF inv that] True by auto
  have "i < length (lk_calls s)" using at by (simp add: at_stage_def)
  then show ?thesis using True at none old inv_parts(1,2,8,9) [OF inv]
    by (auto simp: lock_inv_def create_file_def holds_lock_def at_go [of "s\<lparr>lk_file := Some (i, [])\<rparr>"])
next
  case False
  then show ?thesis using go_inv [OF inv at, of Found] by (simp only: create_file_def if_False) simp
qed

lemma write_inv:
  assumes inv: "lock_inv s" and at: "at_stage s i Opened"
  shows "lock_inv (write_token i s)"
proof -
  define f where "f = map_option (\<lambda>(c, t). (c, if c = i then token_at s i else t)) (lk_file s)"
  define t where "t = write_token i s"
  have t: "t = go i Written (s\<lparr>lk_file := f\<rparr>)" by (simp add: t_def write_token_def f_def)
  have st: "at_stage t k y \<longleftrightarrow> (if k = i then y = Written else at_stage s k y)" for k y
    using at by (simp add: t at_go [of "s\<lparr>lk_file := f\<rparr>" i Opened])
  have alone: "k = i" if "lk_lost s = 0" "holds_lock s k \<or> at_stage s k Opened" for k
    using inv_parts(4,5) [OF inv that(1), of k] inv_parts(4) [OF inv that(1) at] that(2) by auto
  have keep: "f = Some (k, token_at s k)" if "at_stage s k Releasing" "seen_at s k = lk_lost s" for k
    proof -
    have "lk_file s = Some (k, token_at s k)" by (rule inv_parts(7) [OF inv that])
    moreover have "k \<noteq> i" using at_one_stage [OF that(1)] at by auto
    ultimately show ?thesis by (simp add: f_def)
  qed
  have own: "f = Some (i, token_at s i)" if "lk_lost s = 0" using inv_parts(4) [OF inv that at] by (simp add: f_def)
  have made: "c < length (lk_calls s) \<and> (r = [] \<or> r = token_at s c)" if "f = Some (c, r)" for c r
    using that inv_parts(3) [OF inv] by (cases "lk_file s") (auto simp: f_def split: if_splits)
  have parts: "lk_file t = f" "lk_lost t = lk_lost s"
    "lk_exposed t = lk_exposed s" "map ct_token (lk_calls t) = map ct_token (lk_calls s)"
    "length (lk_calls t) = length (lk_calls s)"
    "token_at t k = token_at s k" "seen_at t k = seen_at s k" for k
    by (simp_all add: t)
  have "lock_inv t" unfolding lock_inv_def parts
  proof (intro conjI allI impI)
    fix k
    assume "lk_lost s = 0 \<and> at_stage t k Opened"
    then have "lk_lost s = 0" "at_stage s k Opened" "k \<noteq> i" by (simp_all add: st split: if_splits)
    then show "f = Some (k, [])" using alone [of k] by blast
  next
    fix k
    assume l: "lk_lost s = 0 \<and> holds_lock t k"
    then have "k = i" using alone [of k] by (cases "k = i") (simp_all add: holds_lock_def st)
    then show "f = Some (k, token_at s k)" using own l by simp
  next
    fix k
    assume "at_stage t k Releasing"
    then have r: "at_stage s k Releasing" using st by (simp split: if_splits)
    show "seen_at s k \<le> lk_lost s" by (rule inv_parts(6) [OF inv r])
    assume "seen_at s k = lk_lost s"
    then show "f = Some (k, token_at s k)" using keep [OF r] by simp
  next
    fix k
    assume "lk_exposed s = 0"
    then show "\<not> at_stage t k Breaking" using st inv_parts(9) [OF inv] by simp
  next
    fix c r
    assume "f = Some (c, r)"
    then show "c < length (lk_calls s)" "r = [] \<or> r = token_at s c" using made by blast+
  qed (use inv_parts(1,2,8) [OF inv] in blast)+
  then show ?thesis by (simp add: t_def)
qed

text \<open>An unlink by a call that is breaking a lock or releasing its own.\<close>

lemma unlink_inv:
  assumes inv: "lock_inv s" and at: "at_stage s i w" "w \<in> {Breaking, Releasing}" and x: "x \<in> {Trying, Released}"
  shows "lock_inv (go i x (unlink_file i s))"
proof (cases "lk_file s")
  case None
  then show ?thesis using go_inv [OF inv at(1), of x] x by (auto simp: unlink_file_def)
next
  case (Some f)
  then obtain c r where f: "lk_file s = Some (c, r)" by (cases f) auto
  define n where "n = (if c = i then 0 else 1 :: nat)"
  let ?u = "s\<lparr>lk_file := None, lk_lost := lk_lost s + n\<rparr>"
  define t where "t = go i x (unlink_file i s)"
  have u: "unlink_file i s = ?u" by (simp add: unlink_file_def f n_def)
  have ust: "at_stage ?u = at_stage s" by (simp add: at_stage_def fun_eq_iff)
  have st: "at_stage t k y \<longleftrightarrow> (if k = i then y = x else at_stage s k y)" for k y
    using at(1) by (simp add: t_def u at_go [of ?u i w] ust)
  have parts: "lk_file t = None" "lk_lost t = lk_lost s + n" "lk_exposed t = lk_exposed s"
    "map ct_token (lk_calls t) = map ct_token (lk_calls s)" "\<And>k. seen_at t k = seen_at s k"
    by (simp_all add: t_def u)
  have quiet: "\<not> holds_lock t k \<and> \<not> at_stage t k Opened" if "lk_lost s + n = 0" for k
  proof -
    have "c = i" "lk_lost s = 0" using that by (simp_all add: n_def split: if_splits)
    then have "k = i" if "holds_lock s k \<or> at_stage s k Opened" using that inv_parts(4,5) [OF inv, of k] f by auto
    moreover have "\<not> holds_lock t i" "\<not> at_stage t i Opened" using x by (auto simp: holds_lock_def st)
    moreover have "holds_lock t k = holds_lock s k" "at_stage t k Opened = at_stage s k Opened" if "k \<noteq> i"
      using that by (simp_all add: holds_lock_def st)
    ultimately show ?thesis by blast
  qed
  have stale: "seen_at s k < lk_lost s + n" if k: "at_stage s k Releasing" "k \<noteq> i" for k
  proof (cases "seen_at s k = lk_lost s")
    case True
    then have "c = k" using inv_parts(7) [OF inv k(1)] f by simp
    then show ?thesis using k(2) True by (simp add: n_def)
  next
    case False
    then show ?thesis using inv_parts(6) [OF inv k(1)] by simp
  qed
  have safe: "lk_lost s + n = 0 \<and> (\<forall>k. \<not> at_stage s k Breaking)" if j: "lk_exposed s = 0"
  proof -
    have l: "lk_lost s = 0" "\<And>k. \<not> at_stage s k Breaking" using inv_parts(8,9) [OF inv j] by blast+
    then have "at_stage s i Releasing" using at by auto
    then have "lk_file s = Some (i, token_at s i)" using inv_parts(5) [OF inv l(1)] by (simp add: holds_lock_def)
    then show ?thesis using l f by (simp add: n_def)
  qed
  have "lock_inv t" unfolding lock_inv_def parts
  proof (intro conjI allI impI)
    fix k
    assume "at_stage t k Releasing"
    then have r: "at_stage s k Releasing" "k \<noteq> i" using st x by (auto split: if_splits)
    show "seen_at s k \<le> lk_lost s + n" "seen_at s k = lk_lost s + n \<Longrightarrow> None = Some (k, token_at t k)"
      using stale [OF r] by simp_all
  next
    fix k
    assume "lk_exposed s = 0"
    then show "\<not> at_stage t k Breaking" using safe st x by auto
  qed (use inv_parts(1,2) [OF inv] quiet safe in auto)
  then show ?thesis by (simp add: t_def)
qed

lemma release_inv:
  assumes inv: "lock_inv s" and at: "at_stage s i w" "w \<in> {Locked, Released}"
  shows "lock_inv (read_token i s)"
proof (cases "case lk_file s of Some (_, t) \<Rightarrow> t = token_at s i | None \<Rightarrow> False")
  case False
  then have "read_token i s = go i Released s" by (simp only: read_token_def if_False)
  then show ?thesis using go_inv [OF inv at(1), of Released] by simp
next
  case True
  then obtain c where c: "lk_file s = Some (c, token_at s i)" by (auto split: option.splits)
  have i: "i < length (lk_calls s)" using at(1) by (simp add: at_stage_def)
  have "token_at s i \<in> set (map ct_token (lk_calls s))" using i by (simp add: token_at_def)
  then have "token_at s i \<noteq> []" using inv_parts(2) [OF inv] by metis
  then have "token_at s c = token_at s i" "c < length (lk_calls s)" using inv_parts(3) [OF inv c] by auto
  then have "c = i" using inv_parts(1) [OF inv] i by (auto simp: token_at_def distinct_conv_nth)
  with c have own: "lk_file s = Some (i, token_at s i)" by simp
  define t where "t = read_token i s"
  have td: "t = s\<lparr>lk_calls := (lk_calls s)[i := (lk_calls s ! i)\<lparr>ct_stage := Releasing, ct_seen := lk_lost s\<rparr>]\<rparr>"
    using True by (simp only: t_def read_token_def if_True)
  have st: "at_stage t k y \<longleftrightarrow> (if k = i then y = Releasing else at_stage s k y)" for k y
    using i by (auto simp: td at_stage_def)
  have tok: "map ct_token (lk_calls t) = map ct_token (lk_calls s)"
    by (simp add: td map_update) (metis list_update_id map_update)
  have tk: "token_at t k = token_at s k" for k
    using i by (cases "k = i") (auto simp: td token_at_def nth_list_update)
  have seen: "seen_at t k = (if k = i then lk_lost s else seen_at s k)" for k using i by (auto simp: td nth_list_update)
  have parts: "lk_file t = lk_file s" "lk_lost t = lk_lost s" "lk_exposed t = lk_exposed s" "length (lk_calls t) = length (lk_calls s)"
    by (simp_all add: td)
  have "lock_inv t" unfolding lock_inv_def tok tk seen parts
  proof (intro conjI allI impI)
    show "distinct (map ct_token (lk_calls s))" "[] \<notin> set (map ct_token (lk_calls s))" using inv_parts(1,2) [OF inv] by blast+
  next
    fix c x
    assume "lk_file s = Some (c, x)"
    then show "c < length (lk_calls s)" "x = [] \<or> x = token_at s c" using inv_parts(3) [OF inv, of c x] by auto
  next
    fix k
    assume "lk_lost s = 0 \<and> at_stage t k Opened"
    then show "lk_file s = Some (k, [])" using inv_parts(4) [OF inv, of k] unfolding st by (auto split: if_splits)
  next
    fix k
    assume "lk_lost s = 0 \<and> holds_lock t k"
    then show "lk_file s = Some (k, token_at s k)"
      using inv_parts(5) [OF inv, of k] own unfolding holds_lock_def st by (auto split: if_splits)
  next
    fix k
    assume r: "at_stage t k Releasing"
    then show "(if k = i then lk_lost s else seen_at s k) \<le> lk_lost s" using inv_parts(6) [OF inv, of k] unfolding st by auto
    assume "(if k = i then lk_lost s else seen_at s k) = lk_lost s"
    with r show "lk_file s = Some (k, token_at s k)"
      using inv_parts(7) [OF inv, of k] own unfolding st by (auto split: if_splits)
  next
    assume "lk_exposed s = 0"
    then show "lk_lost s = 0" using inv_parts(8) [OF inv] by simp
  next
    fix k
    assume "lk_exposed s = 0"
    then show "\<not> at_stage t k Breaking" using inv_parts(9) [OF inv, of k] unfolding st by (auto split: if_splits)
  qed
  then show ?thesis by (simp add: t_def)
qed

text \<open>Every call's token names its process, so a written lock of a running process is read as live.\<close>

definition owners_ok :: "pid_lock \<Rightarrow> bool" where
  "owners_ok s \<longleftrightarrow>
     (\<forall>p \<in> set (lk_alive s). is_process_id p) \<and>
     (\<forall>c \<in> set (lk_calls s). is_process_id (ct_pid c) \<and> (\<exists>stamp. ct_token c = token_of (ct_pid c) stamp))"

lemma same_owners:
  assumes "owners_ok s" "set (lk_alive t) \<subseteq> set (lk_alive s)"
    "map (\<lambda>c. (ct_pid c, ct_token c)) (lk_calls t) = map (\<lambda>c. (ct_pid c, ct_token c)) (lk_calls s)"
  shows "owners_ok t"
proof -
  have "\<exists>d \<in> set (lk_calls s). ct_pid d = ct_pid c \<and> ct_token d = ct_token c" if "c \<in> set (lk_calls t)" for c
  proof -
    have "(ct_pid c, ct_token c) \<in> set (map (\<lambda>c. (ct_pid c, ct_token c)) (lk_calls t))" using that by auto
    then show ?thesis unfolding assms(3) by auto
  qed
  then show ?thesis using assms(1,2) unfolding owners_ok_def by (metis subsetD)
qed

lemma go_owners:
  "map (\<lambda>c. (ct_pid c, ct_token c)) (lk_calls (go i x s)) = map (\<lambda>c. (ct_pid c, ct_token c)) (lk_calls s)"
  by (simp add: go_def map_update) (metis (mono_tags, lifting) list_update_id map_update)

lemma read_token_owners:
  "lk_alive (read_token i s) = lk_alive s"
  "map (\<lambda>c. (ct_pid c, ct_token c)) (lk_calls (read_token i s)) = map (\<lambda>c. (ct_pid c, ct_token c)) (lk_calls s)"
proof -
  have "map (\<lambda>c. (ct_pid c, ct_token c)) ((lk_calls s)[i := (lk_calls s ! i)\<lparr>ct_stage := x, ct_seen := n\<rparr>]) =
      map (\<lambda>c. (ct_pid c, ct_token c)) (lk_calls s)" for x n
    by (simp add: map_update) (metis (mono_tags, lifting) list_update_id map_update)
  then show "map (\<lambda>c. (ct_pid c, ct_token c)) (lk_calls (read_token i s)) = map (\<lambda>c. (ct_pid c, ct_token c)) (lk_calls s)"
    by (simp add: read_token_def go_owners)
qed (simp add: read_token_def)

lemma owners_step:
  assumes ok: "owners_ok s" and step: "lock_event_step e s = Some t"
  shows "owners_ok t"
proof (cases e)
  case (Process_Starts p foreign)
  then show ?thesis using assms by (auto simp: owners_ok_def split: if_splits)
next
  case (Acquire p stamp)
  then have "is_process_id p" "t = s\<lparr>lk_calls := lk_calls s @ [\<lparr>ct_pid = p, ct_token = token_of p stamp, ct_stage = Trying, ct_seen = 0\<rparr>]\<rparr>"
    using assms by (auto simp: owners_ok_def split: if_splits)
  moreover have "\<exists>r. token_of p stamp = token_of p r" by blast
  ultimately show ?thesis using ok unfolding owners_ok_def by simp
next
  case (Process_Ends p)
  then show ?thesis using step by (intro same_owners [OF ok]) (auto simp: kill_process_def)
next
  case (Release i)
  then show ?thesis using step
    by (intro same_owners [OF ok]) (auto simp: read_token_owners dest!: when_atD)
qed (use step in \<open>auto intro!: same_owners [OF ok] simp: go_owners create_file_def write_token_def read_owner_def unlink_file_def
      split: option.splits if_splits dest!: when_atD\<close>)

lemma written_live_is_live:
  assumes ok: "owners_ok s" and inv: "lock_inv s" and kept: "lk_file s = Some (c, x)" and "\<not> exposed s c x"
  shows "text_is_live s x"
proof -
  have c: "c < length (lk_calls s)" "x = token_at s c" "ct_pid (lk_calls s ! c) \<in> set (lk_alive s)"
    using inv_parts(3) [OF inv kept] assms(4) by (auto simp: exposed_def)
  then have "lk_calls s ! c \<in> set (lk_calls s)" by simp
  then obtain stamp where "is_process_id (ct_pid (lk_calls s ! c))" "x = token_of (ct_pid (lk_calls s ! c)) stamp"
    using ok c(2) unfolding owners_ok_def token_at_def by metis
  then show ?thesis using c(3) by (simp add: owner_is_live_iff is_process_id_def MAX_SAFE_INTEGER_def)
qed

lemma lock_event_inv:
  assumes ok: "owners_ok s" and inv: "lock_inv s" and step: "lock_event_step e s = Some t"
  shows "lock_inv t"
proof (cases e)
  case (Process_Starts p foreign)
  then show ?thesis using step inv by (intro inv_less [OF inv]) (auto simp: holds_lock_def at_stage_def split: if_splits)
next
  case (Process_Ends p)
  then have t: "t = kill_process p s" using step by simp
  have "at_stage t i x \<Longrightarrow> x \<noteq> Killed \<Longrightarrow> at_stage s i x" for i x by (auto simp: t kill_process_def at_stage_def split: if_splits)
  then have "at_stage t i x \<Longrightarrow> x \<noteq> Killed \<Longrightarrow> at_stage s i x" "holds_lock t i \<Longrightarrow> holds_lock s i" for i x
    by (simp_all add: holds_lock_def) blast
  moreover have "map ct_token (lk_calls t) = map ct_token (lk_calls s)" by (simp add: t kill_process_def)
  moreover have "seen_at t i = seen_at s i" if "at_stage t i Releasing" for i
    using that by (auto simp: t kill_process_def at_stage_def)
  ultimately show ?thesis by (intro inv_less [OF inv]) (auto simp: t kill_process_def)
next
  case (Acquire p stamp)
  let ?c = "\<lparr>ct_pid = p, ct_token = token_of p stamp, ct_stage = Trying, ct_seen = 0\<rparr>"
  have t: "t = s\<lparr>lk_calls := lk_calls s @ [?c]\<rparr>" and fresh: "token_of p stamp \<notin> set (map ct_token (lk_calls s))"
    using step Acquire by (auto split: if_splits)
  have st: "at_stage t i x \<Longrightarrow> x \<noteq> Trying \<Longrightarrow> at_stage s i x" for i x
    by (auto simp: t at_stage_def nth_append split: if_splits)
  have old: "lk_calls t ! i = lk_calls s ! i" if "i < length (lk_calls s)" for i using that by (simp add: t nth_append)
  have tk: "token_at t i = token_at s i" if "i < length (lk_calls s)" for i using old [OF that] by (simp add: token_at_def)
  have inside: "i < length (lk_calls s)" if "at_stage s i x" for i x using that by (simp add: at_stage_def)
  have parts: "lk_file t = lk_file s" "lk_lost t = lk_lost s" "lk_exposed t = lk_exposed s"
    "map ct_token (lk_calls t) = map ct_token (lk_calls s) @ [token_of p stamp]" "length (lk_calls t) = Suc (length (lk_calls s))"
    by (simp_all add: t)
  show ?thesis unfolding lock_inv_def parts
  proof (intro conjI allI impI)
    show "distinct (map ct_token (lk_calls s) @ [token_of p stamp])" using inv_parts(1) [OF inv] fresh by simp
    show "[] \<notin> set (map ct_token (lk_calls s) @ [token_of p stamp])" using inv_parts(2) [OF inv] by (auto simp: token_of_def)
  next
    fix c x
    assume "lk_file s = Some (c, x)"
    then show "c < Suc (length (lk_calls s))" "x = [] \<or> x = token_at t c" using inv_parts(3) [OF inv, of c x] tk [of c] by auto
  next
    fix k
    assume "lk_lost s = 0 \<and> at_stage t k Opened"
    then show "lk_file s = Some (k, [])" using inv_parts(4) [OF inv] st [of k Opened] by simp
  next
    fix k
    assume l: "lk_lost s = 0 \<and> holds_lock t k"
    then have "holds_lock s k" using st [of k] by (auto simp: holds_lock_def)
    moreover from this have "k < length (lk_calls s)" using inside by (auto simp: holds_lock_def)
    ultimately show "lk_file s = Some (k, token_at t k)" using inv_parts(5) [OF inv] l tk by simp
  next
    fix k
    assume "at_stage t k Releasing"
    then have r: "at_stage s k Releasing" using st by simp
    then show "seen_at t k \<le> lk_lost s" using inv_parts(6) [OF inv r] old [OF inside [OF r]] by simp
    assume "seen_at t k = lk_lost s"
    then show "lk_file s = Some (k, token_at t k)"
      using inv_parts(7) [OF inv r] old [OF inside [OF r]] tk [OF inside [OF r]] by simp
  next
    assume "lk_exposed s = 0"
    then show "lk_lost s = 0" using inv_parts(8) [OF inv] by simp
  next
    fix k
    assume "lk_exposed s = 0"
    then show "\<not> at_stage t k Breaking" using inv_parts(9) [OF inv, of k] st [of k Breaking] by auto
  qed
next
  case (Read_Lock i)
  then have at: "at_stage s i Found" and t: "t = read_owner i s" using step when_atD [of i] by fastforce+
  show ?thesis
  proof (cases "lk_file s")
    case None
    then show ?thesis using go_inv [OF inv at, of Trying] by (simp add: t read_owner_def)
  next
    case (Some f)
    then obtain c x where f: "lk_file s = Some (c, x)" by (cases f) auto
    define n where "n = (if exposed s c x then 1 else 0 :: nat)"
    define u where "u = s\<lparr>lk_exposed := lk_exposed s + n\<rparr>"
    have t': "t = go i (if text_is_live s x then Pausing else Breaking) u" by (simp add: t read_owner_def f u_def n_def)
    have st: "at_stage t j y \<longleftrightarrow> (if j = i then y = (if text_is_live s x then Pausing else Breaking) else at_stage s j y)" for j y
      unfolding t' using at at_go [of u i Found] by (simp add: u_def)
    have parts: "lk_file t = lk_file s" "lk_lost t = lk_lost s" "lk_exposed t = lk_exposed s + n"
      "map ct_token (lk_calls t) = map ct_token (lk_calls s)" "seen_at t k = seen_at s k" for k
      by (simp_all add: t' u_def)
    show ?thesis
    proof (rule inv_less [OF inv])
      show "at_stage s j Breaking" if "lk_exposed t = 0" "at_stage t j Breaking" for j
      proof -
        have "\<not> exposed s c x" using that(1) by (auto simp: parts n_def split: if_splits)
        then have "text_is_live s x" by (rule written_live_is_live [OF ok inv f])
        then show ?thesis using that(2) by (simp add: st split: if_splits)
      qed
    qed (auto simp: holds_lock_def st parts split: if_splits)
  qed
next
  case (Create i)
  then show ?thesis using step create_inv [OF inv] when_atD by fastforce
next
  case (Write_Token i)
  then show ?thesis using step write_inv [OF inv] when_atD by fastforce
next
  case (Close i)
  then show ?thesis using step close_inv [OF inv] by (auto dest!: when_atD)
next
  case (Break_Lock i)
  then show ?thesis using step unlink_inv [OF inv, of i Breaking Trying] by (auto dest: when_atD)
next
  case (Release i)
  then show ?thesis using step release_inv [OF inv] by (auto dest!: when_atD)
next
  case (Unlink i)
  then show ?thesis using step unlink_inv [OF inv, of i Releasing Released] by (auto dest: when_atD)
qed (use step in \<open>auto dest!: when_atD intro: go_inv [OF inv]\<close>)

lemma reachable_lock: "pid_reach s \<Longrightarrow> owners_ok s \<and> lock_inv s"
proof (induction rule: pid_reach.induct)
  case start
  then show ?case by (simp add: owners_ok_def lock_inv_def unlocked_def holds_lock_def at_stage_def)
next
  case (step s e t)
  then show ?case using owners_step lock_event_inv by blast
qed

text \<open>C40 (safety). Exclusion ends only where a contender reads a lock that is exposed: a file whose creator has not
  yet written its token, or has ended.  In every reachable state, if no contender has ever read such a
  file, then no call has removed a file it had not created.  As long as no call has, at most one call is
  between the writing of its token and the end of its release, and the lock file is that call's and
  holds its token.  And always, a release that has read its token and is about to remove the file
  removes its own, unless some file was taken from its creator since that read.  Calls of any number of
  processes interleave at each system call, any of which may fail; a release may run again; processes
  end, and their ids are used again.\<close>

theorem written_live_locks_are_not_lost:
  assumes "pid_reach s"
  shows "(lk_exposed s = 0 \<longrightarrow> lk_lost s = 0) \<and>
    (lk_lost s = 0 \<and> holds_lock s i \<and> holds_lock s j \<longrightarrow> i = j) \<and>
    (lk_lost s = 0 \<and> holds_lock s i \<longrightarrow> lk_file s = Some (i, token_at s i)) \<and>
    (at_stage s i Releasing \<and> seen_at s i = lk_lost s \<longrightarrow> lk_file s = Some (i, token_at s i))"
proof -
  have inv: "lock_inv s" using reachable_lock [OF assms] by simp
  show ?thesis using inv_parts(5) [OF inv, of i] inv_parts(5) [OF inv, of j] inv_parts(7) [OF inv, of i] inv_parts(8) [OF inv] by auto
qed

text \<open>Two processes; the first call takes the lock.\<close>

definition first_takes :: "lock_event list" where
  "first_takes = [Process_Starts 7 False, Process_Starts 8 False, Acquire 7 ''t:a'', Acquire 8 ''t:b'', Create 0]"

definition state_after :: "lock_event list \<Rightarrow> pid_lock" where
  "state_after es = (case run_lock es unlocked of Some s \<Rightarrow> s | None \<Rightarrow> unlocked)"

lemma state_after_reached: "pid_reach (state_after es)"
  using run_reaches [OF pid_reach.start, of es] pid_reach.start by (auto simp: state_after_def split: option.splits)

theorem written_live_locks_are_not_lost_witness:
  "\<not> holds_lock (state_after (first_takes @ [Write_Token 0, Create 1, Read_Lock 1])) 1 \<and>
   lk_file (state_after (first_takes @ [Write_Token 0, Create 1, Read_Lock 1])) = Some (0, ''7:t:a'')"
proof -
  let ?s = "state_after (first_takes @ [Write_Token 0, Create 1, Read_Lock 1])"
  have "holds_lock ?s 0" "lk_exposed ?s = 0" "token_at ?s 0 = ''7:t:a''" by code_simp+
  with written_live_locks_are_not_lost [OF state_after_reached, of "first_takes @ [Write_Token 0, Create 1, Read_Lock 1]" 0 1]
    written_live_locks_are_not_lost [OF state_after_reached, of "first_takes @ [Write_Token 0, Create 1, Read_Lock 1]" 1 0]
  show ?thesis by auto
qed

subsection \<open>How a lock is lost\<close>

text \<open>A contender that reads a lock file whose token is written waits while the owner's process runs.\<close>

lemma live_owner_is_spared:
  assumes "lk_file s = Some (c, token_of p stamp)" "0 < p" "int p \<le> MAX_SAFE_INTEGER" "p \<in> set (lk_alive s)"
    "at_stage s i Found"
  shows "at_stage (read_owner i s) i Pausing"
  using assms by (simp add: read_owner_def owner_is_live_iff at_go [of "s\<lparr>lk_exposed := n\<rparr>" i Found for n])

text \<open>The code creates the file and then writes it.  A contender that reads in between finds no process id, takes
  the lock for a dead owner's and removes it; both then hold it.\<close>

lemma unwritten_lock_is_broken:
  "\<exists>s. pid_reach s \<and> holds_lock s 0 \<and> holds_lock s 1 \<and> lk_alive s = [8, 7]"
proof -
  let ?s = "state_after (first_takes @ [Create 1, Read_Lock 1, Break_Lock 1, Create 1, Write_Token 1, Write_Token 0])"
  have "holds_lock ?s 0 \<and> holds_lock ?s 1 \<and> lk_alive ?s = [8, 7]" by code_simp
  then show ?thesis using state_after_reached by blast
qed

text \<open>Two contenders that both read a dead owner: the first breaks the lock and takes it, the second removes the
  first one's lock.\<close>

lemma dead_owner_is_broken_twice:
  "\<exists>s. pid_reach s \<and> holds_lock s 1 \<and> holds_lock s 2"
proof -
  let ?s = "state_after (first_takes @ [Write_Token 0, Process_Ends 7, Process_Starts 9 False, Acquire 9 ''t:c'',
    Create 1, Create 2, Read_Lock 1, Read_Lock 2, Break_Lock 1, Create 1, Write_Token 1, Break_Lock 2, Create 2, Write_Token 2])"
  have "holds_lock ?s 1 \<and> holds_lock ?s 2" by code_simp
  then show ?thesis using state_after_reached by blast
qed

end
