(* ===== verification/Workspace_Apply.thy ===== *)
theory Workspace_Apply
  imports Workspace_Plan
begin

text \<open>
  \<^verbatim>\<open>clients/lsp/edits.ts\<close>, the half that carries a plan out: the preflight over a virtual file system, and the
  application to the disk, which stops at the first failing call and rolls nothing back.

  The disk is the map of its entries, and \<open>we_entry\<close> the entry a path names: the path itself, or a folded
  spelling of it on a volume that ignores case.  Paths are spelled with slashes.  The calls of \<^verbatim>\<open>node:fs\<close> fail as
  documented for files and directories; links are not followed.  \<open>we_local\<close> tells the URLs \<^verbatim>\<open>new URL\<close> reads as
  local files.
\<close>

type_synonym disk = "(path, entry_kind) js_map"

datatype real_answer = Real path | No_Entry | Real_Failed

record workspace_env =
  we_host :: host
  we_url :: file_url
  we_local :: "string \<Rightarrow> bool"
  we_real :: "path \<Rightarrow> real_answer"
  we_entry :: "path \<Rightarrow> path"
  we_ids :: "path \<Rightarrow> nat \<times> nat"

datatype workspace_error =
    Plan_Error plan_error
  | Edit_Error edit_error
  | Invalid_Uri string
  | Escapes_Workspace string
  | Parent_Not_A_Directory path
  | No_Parent path
  | Not_A_File path
  | Text_Missing path
  | Stale_Version path
  | Create_Exists path
  | Same_Place
  | Rename_Missing path
  | Rename_Exists path
  | Delete_Missing path
  | Not_Recursive path
  | Disk_Failure path

subsection \<open>The disk\<close>

definition entry_at :: "workspace_env \<Rightarrow> disk \<Rightarrow> path \<Rightarrow> entry_kind option" where
  "entry_at env d p = map_of d (we_entry env p)"

definition parents_of :: "path \<Rightarrow> path list" where
  "parents_of p = ancestors_of (posix_dirname p)"

definition blocks_path :: "entry_kind option \<Rightarrow> bool" where
  "blocks_path e \<longleftrightarrow> (case e of None \<Rightarrow> False | Some Directory \<Rightarrow> False | Some _ \<Rightarrow> True)"

text \<open>\<^verbatim>\<open>lstatOrMissing\<close>: a path through a file is a failure of its own, not a missing entry.\<close>

definition lstat_or_missing :: "workspace_env \<Rightarrow> disk \<Rightarrow> path \<Rightarrow> workspace_error + entry_kind option" where
  "lstat_or_missing env d p =
     (if list_ex (\<lambda>a. blocks_path (entry_at env d a)) (parents_of p) then Inl (Disk_Failure p) else Inr (entry_at env d p))"

definition read_file :: "workspace_env \<Rightarrow> disk \<Rightarrow> path \<Rightarrow> workspace_error + string" where
  "read_file env d p = (case entry_at env d p of Some (Regular_File c) \<Rightarrow> Inr c | _ \<Rightarrow> Inl (Disk_Failure p))"

definition put_file :: "workspace_env \<Rightarrow> disk \<Rightarrow> path \<Rightarrow> string \<Rightarrow> disk" where
  "put_file env d p c = AList.update (we_entry env p) (Regular_File c) d"

definition write_file :: "workspace_env \<Rightarrow> disk \<Rightarrow> path \<Rightarrow> string \<Rightarrow> workspace_error + disk" where
  "write_file env d p c =
     (if entry_at env d (posix_dirname p) \<noteq> Some Directory \<or> entry_at env d p \<in> {Some Directory, Some Other_Entry}
      then Inl (Disk_Failure p) else Inr (put_file env d p c))"

definition write_new_file :: "workspace_env \<Rightarrow> disk \<Rightarrow> path \<Rightarrow> string \<Rightarrow> workspace_error + disk" where
  "write_new_file env d p c = (if entry_at env d p \<noteq> None then Inl (Disk_Failure p) else write_file env d p c)"

definition make_directory :: "workspace_env \<Rightarrow> disk \<Rightarrow> path \<Rightarrow> workspace_error + disk" where
  "make_directory env d p =
     (case entry_at env d p of
        None \<Rightarrow> Inr (AList.update (we_entry env p) Directory d)
      | Some Directory \<Rightarrow> Inr d
      | Some _ \<Rightarrow> Inl (Disk_Failure p))"

definition make_directories :: "workspace_env \<Rightarrow> disk \<Rightarrow> path \<Rightarrow> workspace_error + disk" where
  "make_directories env d p = fold_throwing (make_directory env) d (rev (ancestors_of p))"

definition below :: "path \<Rightarrow> path \<Rightarrow> bool" where
  "below base p \<longleftrightarrow> p = base \<or> starts_with p (if base \<noteq> [] \<and> last base = SLASH then base else base @ [SLASH])"

definition drop_below :: "path \<Rightarrow> disk \<Rightarrow> disk" where
  "drop_below base d = filter (\<lambda>x. \<not> below base (fst x)) d"

definition remove_entry :: "workspace_env \<Rightarrow> disk \<Rightarrow> path \<Rightarrow> bool \<Rightarrow> bool \<Rightarrow> workspace_error + disk" where
  "remove_entry env d p recursive forced =
     (case entry_at env d p of
        None \<Rightarrow> if forced then Inr d else Inl (Disk_Failure p)
      | Some Directory \<Rightarrow> if recursive then Inr (drop_below (we_entry env p) d) else Inl (Disk_Failure p)
      | Some _ \<Rightarrow> Inr (AList.delete (we_entry env p) d))"

text \<open>A directory takes what is below it along; it may replace an empty directory, a file may replace a file.\<close>

definition rename_entry :: "workspace_env \<Rightarrow> disk \<Rightarrow> path \<Rightarrow> path \<Rightarrow> workspace_error + disk" where
  "rename_entry env d old new =
     (let a = we_entry env old; b = we_entry env new; target = map_of d b
      in case map_of d a of
           None \<Rightarrow> Inl (Disk_Failure old)
         | Some source \<Rightarrow>
             if a = b then Inr d
             else if entry_at env d (posix_dirname new) \<noteq> Some Directory \<or> (source = Directory \<and> below a b) \<or>
                (source = Directory \<and> target \<noteq> None \<and> (target \<noteq> Some Directory \<or> length (filter (\<lambda>x. below b (fst x)) d) > 1)) \<or>
                (source \<noteq> Directory \<and> target = Some Directory)
             then Inl (Disk_Failure old)
             else if source = Directory then
               Inr (map (\<lambda>(e, n). (if below a e then b @ drop (length a) e else e, n)) (AList.delete b d))
             else Inr (AList.update b source (AList.delete a d)))"

subsection \<open>Confinement\<close>

definition path_join :: "host \<Rightarrow> path \<Rightarrow> string list \<Rightarrow> path" where
  "path_join h base names = posix_normalize (join_with SLASH (to_posix base # names))"

definition segments_path :: "host \<Rightarrow> string \<Rightarrow> string list \<Rightarrow> path" where
  "segments_path h rt ws = rt @ join_with (host_sep h) ws"

text \<open>The segments of the path run from the tail.\<close>

fun real_ancestor :: "workspace_env \<Rightarrow> string \<Rightarrow> string list \<Rightarrow> string list \<Rightarrow> path option" where
  "real_ancestor env rt [] tail =
     (case we_real env (segments_path (we_host env) rt []) of Real r \<Rightarrow> Some (path_join (we_host env) r tail) | _ \<Rightarrow> None)"
| "real_ancestor env rt (s # ss) tail =
     (case we_real env (segments_path (we_host env) rt (rev (s # ss))) of
        Real r \<Rightarrow> Some (path_join (we_host env) r tail)
      | No_Entry \<Rightarrow> real_ancestor env rt ss (s # tail)
      | Real_Failed \<Rightarrow> None)"

definition resolve_existing_ancestor :: "workspace_env \<Rightarrow> path \<Rightarrow> workspace_error + path" where
  "resolve_existing_ancestor env p =
     (let r = path_resolve (we_host env) p
      in case real_ancestor env (root r) (rev (segs r)) [] of Some q \<Rightarrow> Inr q | None \<Rightarrow> Inl (Disk_Failure p))"

definition is_absolute :: "host \<Rightarrow> path \<Rightarrow> bool" where
  "is_absolute h p \<longleftrightarrow> p \<noteq> [] \<and> (hd p = SLASH \<or> (win32 h \<and>
     (hd p = BSLASH \<or> (length p > 2 \<and> is_letter (hd p) \<and> p ! 1 = CHR '':'' \<and> p ! 2 \<in> {SLASH, BSLASH}))))"

definition confine_uri :: "workspace_env \<Rightarrow> path \<Rightarrow> string \<Rightarrow> workspace_error + path" where
  "confine_uri env base uri =
     (if \<not> we_local env uri then Inl (Invalid_Uri uri)
      else
        let p = uri_to_path (we_host env) (we_url env) uri
        in if \<not> is_absolute (we_host env) p then Inl (Escapes_Workspace uri)
           else and_then (resolve_existing_ancestor env p) (\<lambda>q.
             if is_under_dir (we_host env) q base then Inr p else Inl (Escapes_Workspace uri)))"

subsection \<open>The virtual file system\<close>

record virtual_file =
  vf_exists :: bool
  vf_directory :: bool
  vf_content :: "string option"

record virtual_move =
  vm_from :: path
  vm_to :: path
  vm_directory :: bool

text \<open>
  The states are objects that the two maps and the handler share, so they live in \<open>pf_files\<close> and the maps hold
  addresses.  Operations are objects too: \<open>pf_text\<close> and \<open>pf_ignored\<close> name them by their place in the plan.
\<close>

record preflight =
  pf_files :: "virtual_file list"
  pf_virtual :: "(path, nat) js_map"
  pf_overrides :: "(path, nat) js_map"
  pf_moves :: "virtual_move list"
  pf_tombs :: "(path \<times> bool) list"
  pf_text :: "(nat, text_edit list) js_map"
  pf_origins :: "(string, text_edit list) js_map"
  pf_ignored :: "nat list"

definition empty_preflight :: preflight where
  "empty_preflight = \<lparr>pf_files = [], pf_virtual = [], pf_overrides = [], pf_moves = [], pf_tombs = [], pf_text = [],
     pf_origins = [], pf_ignored = []\<rparr>"

definition moved_path :: "host \<Rightarrow> virtual_move \<Rightarrow> path \<Rightarrow> path" where
  "moved_path h m p =
     (case path_relative h (path_resolve h (vm_to m)) (path_resolve h p) of
        Relative_Path [] \<Rightarrow> vm_from m
      | Relative_Path tail \<Rightarrow> path_join h (vm_from m) tail
      | Absolute_Path \<Rightarrow> path_join h (vm_from m) [p])"

definition covers :: "host \<Rightarrow> path \<Rightarrow> bool \<Rightarrow> path \<Rightarrow> bool" where
  "covers h base directory p \<longleftrightarrow> is_under_dir h p base \<and> (directory \<or> paths_equal h p base)"

text \<open>The moves from the newest one.\<close>

fun resolve_back :: "host \<Rightarrow> virtual_move list \<Rightarrow> path \<Rightarrow> path option" where
  "resolve_back h [] p = Some p"
| "resolve_back h (m # ms) p =
     (if covers h (vm_to m) (vm_directory m) p then resolve_back h ms (moved_path h m p)
      else if covers h (vm_from m) (vm_directory m) p then None
      else resolve_back h ms p)"

definition resolve_virtual_path :: "host \<Rightarrow> preflight \<Rightarrow> path \<Rightarrow> path option" where
  "resolve_virtual_path h st p = resolve_back h (rev (pf_moves st)) p"

definition is_tombstoned :: "host \<Rightarrow> preflight \<Rightarrow> path \<Rightarrow> bool" where
  "is_tombstoned h st p \<longleftrightarrow> list_ex (\<lambda>(q, directory). paths_equal h p q \<or> (directory \<and> is_under_dir h p q)) (pf_tombs st)"

definition clear_tombstones_under :: "host \<Rightarrow> path \<Rightarrow> preflight \<Rightarrow> preflight" where
  "clear_tombstones_under h p st =
     st\<lparr>pf_tombs := filter (\<lambda>(q, _). \<not> (paths_equal h q p \<or> is_under_dir h q p)) (pf_tombs st)\<rparr>"

definition new_state :: "virtual_file \<Rightarrow> preflight \<Rightarrow> nat \<times> preflight" where
  "new_state f st = (length (pf_files st), st\<lparr>pf_files := pf_files st @ [f]\<rparr>)"

definition no_file :: virtual_file where
  "no_file = \<lparr>vf_exists = False, vf_directory = False, vf_content = None\<rparr>"

definition file_of_stat :: "entry_kind option \<Rightarrow> virtual_file" where
  "file_of_stat e = \<lparr>vf_exists = (e \<noteq> None), vf_directory = (e = Some Directory), vf_content = None\<rparr>"

definition state_for :: "workspace_env \<Rightarrow> disk \<Rightarrow> path \<Rightarrow> preflight \<Rightarrow> workspace_error + nat \<times> preflight" where
  "state_for env d p st =
     (let h = we_host env
      in if is_tombstoned h st p then Inr (new_state no_file st)
         else case resolve_virtual_path h st p of
                None \<Rightarrow>
                  (case map_of (pf_overrides st) (normalize_file_path h p) of
                     Some a \<Rightarrow> Inr (a, st)
                   | None \<Rightarrow> Inr (new_state no_file st))
              | Some q \<Rightarrow>
                  (case map_of (pf_virtual st) (normalize_file_path h q) of
                     Some a \<Rightarrow> Inr (a, st)
                   | None \<Rightarrow>
                       and_then (lstat_or_missing env d q) (\<lambda>e.
                         case new_state (file_of_stat e) st of
                           (a, st') \<Rightarrow> Inr (a, st'\<lparr>pf_virtual := AList.update (normalize_file_path h q) a (pf_virtual st')\<rparr>))))"

definition put_state :: "nat \<Rightarrow> virtual_file \<Rightarrow> preflight \<Rightarrow> preflight" where
  "put_state a f st = st\<lparr>pf_files := (pf_files st)[a := f]\<rparr>"

definition content_for ::
  "workspace_env \<Rightarrow> disk \<Rightarrow> path \<Rightarrow> nat \<Rightarrow> preflight \<Rightarrow> workspace_error + string \<times> preflight" where
  "content_for env d p a st =
     (let f = pf_files st ! a
      in if \<not> vf_exists f \<or> vf_directory f then Inl (Not_A_File p)
         else case vf_content f of
                Some c \<Rightarrow> Inr (c, st)
              | None \<Rightarrow>
                  (case resolve_virtual_path (we_host env) st p of
                     None \<Rightarrow> Inl (Text_Missing p)
                   | Some q \<Rightarrow>
                       and_then (read_file env d q) (\<lambda>c. Inr (c, put_state a (f\<lparr>vf_content := Some c\<rparr>) st))))"

fun parent_usable :: "workspace_env \<Rightarrow> disk \<Rightarrow> path \<Rightarrow> path list \<Rightarrow> preflight \<Rightarrow> workspace_error + preflight" where
  "parent_usable env d p [] st = Inl (No_Parent p)"
| "parent_usable env d p (c # cs) st =
     and_then (state_for env d c st) (\<lambda>(a, st').
       if vf_exists (pf_files st' ! a)
       then (if vf_directory (pf_files st' ! a) then Inr st' else Inl (Parent_Not_A_Directory c))
       else parent_usable env d p cs st')"

definition assert_parent_is_usable :: "workspace_env \<Rightarrow> disk \<Rightarrow> path \<Rightarrow> preflight \<Rightarrow> workspace_error + preflight" where
  "assert_parent_is_usable env d p st = parent_usable env d p (parents_of p) st"

text \<open>The place a created or moved state is recorded at.\<close>

definition record_state :: "host \<Rightarrow> path \<Rightarrow> nat \<Rightarrow> preflight \<Rightarrow> preflight" where
  "record_state h p a st =
     (case resolve_virtual_path h st p of
        Some q \<Rightarrow> st\<lparr>pf_virtual := AList.update (normalize_file_path h q) a (pf_virtual st)\<rparr>
      | None \<Rightarrow> st\<lparr>pf_overrides := AList.update (normalize_file_path h p) a (pf_overrides st)\<rparr>)"

definition opt_flag :: "(resource_options \<Rightarrow> bool) \<Rightarrow> resource_options option \<Rightarrow> bool" where
  "opt_flag f opts = (case opts of None \<Rightarrow> False | Some r \<Rightarrow> f r)"

definition ignore_op :: "nat \<Rightarrow> preflight \<Rightarrow> preflight" where
  "ignore_op i st = st\<lparr>pf_ignored := pf_ignored st @ [i]\<rparr>"

subsection \<open>The preflight\<close>

record apply_options =
  ao_encoding :: "position_encoding option"
  ao_versions :: "(path, nat) js_map"

definition is_stale :: "workspace_env \<Rightarrow> apply_options \<Rightarrow> path \<Rightarrow> doc_version \<Rightarrow> bool" where
  "is_stale env opt p version \<longleftrightarrow>
     (case version of Version n \<Rightarrow> map_of (ao_versions opt) (normalize_file_path (we_host env) p) \<noteq> Some n | _ \<Rightarrow> False)"

definition ao_enc :: "apply_options \<Rightarrow> position_encoding" where
  "ao_enc opt = (case ao_encoding opt of Some e \<Rightarrow> e | None \<Rightarrow> Utf16)"

definition lift_edit :: "edit_error + 'a \<Rightarrow> workspace_error + 'a" where
  "lift_edit r = (case r of Inl e \<Rightarrow> Inl (Edit_Error e) | Inr x \<Rightarrow> Inr x)"

definition text_edit_origin_key :: "text_origin \<Rightarrow> string" where
  "text_edit_origin_key g =
     (case g of From_Changes uri _ \<Rightarrow> ''changes:'' @ uri | From_Document i _ \<Rightarrow> ''documentChanges:'' @ decimal i)"

definition origin_edits :: "text_origin \<Rightarrow> text_edit list" where
  "origin_edits g = (case g of From_Changes _ es \<Rightarrow> es | From_Document _ es \<Rightarrow> es)"

definition add_origin :: "string \<Rightarrow> position_encoding \<Rightarrow> preflight \<Rightarrow> text_origin \<Rightarrow> workspace_error + preflight" where
  "add_origin content enc st g =
     and_then (lift_edit (normalize_text_edits content (origin_edits g) enc)) (\<lambda>es.
       Inr (st\<lparr>pf_origins := AList.update (text_edit_origin_key g) es (pf_origins st)\<rparr>))"

definition preflight_text ::
  "workspace_env \<Rightarrow> path \<Rightarrow> disk \<Rightarrow> apply_options \<Rightarrow> nat \<Rightarrow> string \<Rightarrow> text_edit list \<Rightarrow> doc_version
     \<Rightarrow> text_origin list option \<Rightarrow> preflight \<Rightarrow> workspace_error + preflight" where
  "preflight_text env base d opt i uri edits version origins st =
     and_then (confine_uri env base uri) (\<lambda>p.
     and_then (state_for env d p st) (\<lambda>(a, st1).
       if is_stale env opt p version then Inl (Stale_Version p)
       else
         and_then (content_for env d p a st1) (\<lambda>(content, st2).
         and_then (lift_edit (normalize_text_edits content edits (ao_enc opt))) (\<lambda>normalized.
         and_then (fold_throwing (add_origin content (ao_enc opt))
             (st2\<lparr>pf_text := AList.update i normalized (pf_text st2)\<rparr>) (case origins of None \<Rightarrow> [] | Some os \<Rightarrow> os)) (\<lambda>st3.
         and_then (lift_edit (apply_text_edits content normalized Utf16)) (\<lambda>updated.
           Inr (put_state a ((pf_files st3 ! a)\<lparr>vf_content := Some updated\<rparr>) st3)))))))"

definition preflight_create ::
  "workspace_env \<Rightarrow> path \<Rightarrow> disk \<Rightarrow> nat \<Rightarrow> string \<Rightarrow> resource_options option \<Rightarrow> preflight \<Rightarrow> workspace_error + preflight" where
  "preflight_create env base d i uri opts st =
     and_then (confine_uri env base uri) (\<lambda>p.
     and_then (state_for env d p st) (\<lambda>(a, st1).
     and_then (assert_parent_is_usable env d p st1) (\<lambda>st2.
       let f = pf_files st2 ! a
       in if vf_exists f then
            (if opt_flag ro_ignore_if_exists opts then Inr (ignore_op i st2)
             else if \<not> opt_flag ro_overwrite opts \<or> vf_directory f then Inl (Create_Exists p)
             else Inr (put_state a (f\<lparr>vf_content := Some []\<rparr>) st2))
          else
            Inr (record_state (we_host env) p a
              (put_state a \<lparr>vf_exists = True, vf_directory = False, vf_content = Some []\<rparr>
                (clear_tombstones_under (we_host env) p st2))))))"

definition disk_path :: "workspace_env \<Rightarrow> string \<Rightarrow> path" where
  "disk_path env uri = (case we_url env uri of Some p \<Rightarrow> p | None \<Rightarrow> uri)"

definition disk_place :: "workspace_env \<Rightarrow> string \<Rightarrow> path" where
  "disk_place env uri =
     (let r = path_resolve (we_host env) (disk_path env uri) in to_posix (segments_path (we_host env) (root r) (segs r)))"

definition is_same_fs_identity :: "nat \<times> nat \<Rightarrow> nat \<times> nat \<Rightarrow> bool" where
  "is_same_fs_identity a b \<longleftrightarrow> fst a = fst b \<and> snd a \<noteq> 0 \<and> snd b \<noteq> 0 \<and> snd a = snd b"

definition is_same_fs_entry :: "workspace_env \<Rightarrow> disk \<Rightarrow> path \<Rightarrow> path \<Rightarrow> workspace_error + bool" where
  "is_same_fs_entry env d a b =
     and_then (lstat_or_missing env d a) (\<lambda>x. and_then (lstat_or_missing env d b) (\<lambda>y.
       Inr (x \<noteq> None \<and> y \<noteq> None \<and> is_same_fs_identity (we_ids env (we_entry env a)) (we_ids env (we_entry env b)))))"

definition finish_rename ::
  "workspace_env \<Rightarrow> disk \<Rightarrow> path \<Rightarrow> path \<Rightarrow> nat \<Rightarrow> bool \<Rightarrow> preflight \<Rightarrow> workspace_error + preflight" where
  "finish_rename env d old new a from_override st =
     (let h = we_host env; st1 = clear_tombstones_under h new st
      in and_then (if vf_directory (pf_files st1 ! a) then Inr st1
                   else and_then (content_for env d old a st1) (\<lambda>(_, st2). Inr st2)) (\<lambda>st2.
           if from_override then
             Inr (record_state h new a (st2\<lparr>pf_overrides := AList.delete (normalize_file_path h old) (pf_overrides st2)\<rparr>))
           else
             Inr (st2\<lparr>pf_moves := pf_moves st2 @
               [\<lparr>vm_from = old, vm_to = new, vm_directory = vf_directory (pf_files st2 ! a)\<rparr>]\<rparr>)))"

definition preflight_rename ::
  "workspace_env \<Rightarrow> path \<Rightarrow> disk \<Rightarrow> nat \<Rightarrow> string \<Rightarrow> string \<Rightarrow> resource_options option \<Rightarrow> preflight
     \<Rightarrow> workspace_error + preflight" where
  "preflight_rename env base d i old_uri new_uri opts st =
     and_then (confine_uri env base old_uri) (\<lambda>old.
     and_then (confine_uri env base new_uri) (\<lambda>new.
       if disk_place env old_uri = disk_place env new_uri then Inl Same_Place
       else
         and_then (state_for env d old st) (\<lambda>(a, st1).
           if \<not> vf_exists (pf_files st1 ! a) then Inl (Rename_Missing old)
           else
             let from_override = (resolve_virtual_path (we_host env) st1 old = None)
             in and_then (assert_parent_is_usable env d new st1) (\<lambda>st2.
                and_then (state_for env d new st2) (\<lambda>(b, st3).
                and_then
                  (if \<not> vf_exists (pf_files st3 ! b) \<or> b = a then Inr True
                   else is_same_fs_entry env d (disk_path env old_uri) (disk_path env new_uri)) (\<lambda>free.
                  if free \<or> (\<not> opt_flag ro_ignore_if_exists opts \<and> opt_flag ro_overwrite opts)
                  then finish_rename env d old new a from_override st3
                  else if opt_flag ro_ignore_if_exists opts then Inr (ignore_op i st3)
                  else Inl (Rename_Exists new)))))))"

definition preflight_delete ::
  "workspace_env \<Rightarrow> path \<Rightarrow> disk \<Rightarrow> nat \<Rightarrow> string \<Rightarrow> resource_options option \<Rightarrow> preflight \<Rightarrow> workspace_error + preflight" where
  "preflight_delete env base d i uri opts st =
     and_then (confine_uri env base uri) (\<lambda>p.
     and_then (state_for env d p st) (\<lambda>(a, st1).
       let f = pf_files st1 ! a
       in if \<not> vf_exists f then
            (if opt_flag ro_ignore_if_not_exists opts then Inr (ignore_op i st1) else Inl (Delete_Missing p))
          else if vf_directory f \<and> \<not> opt_flag ro_recursive opts then Inl (Not_Recursive p)
          else
            Inr ((put_state a (f\<lparr>vf_exists := False, vf_content := None\<rparr>) st1)
              \<lparr>pf_tombs := pf_tombs st1 @ [(p, vf_directory f)]\<rparr>)))"

definition preflight_op ::
  "workspace_env \<Rightarrow> path \<Rightarrow> disk \<Rightarrow> apply_options \<Rightarrow> preflight \<Rightarrow> nat \<times> workspace_op \<Rightarrow> workspace_error + preflight" where
  "preflight_op env base d opt st entry =
     (case entry of (i, op) \<Rightarrow>
        case op of
          Text_Op uri edits version origins \<Rightarrow> preflight_text env base d opt i uri edits version origins st
        | Create_Op uri opts \<Rightarrow> preflight_create env base d i uri opts st
        | Rename_Op old new opts \<Rightarrow> preflight_rename env base d i old new opts st
        | Delete_Op uri opts \<Rightarrow> preflight_delete env base d i uri opts st)"

definition preflight_workspace_edit ::
  "workspace_env \<Rightarrow> path \<Rightarrow> disk \<Rightarrow> apply_options \<Rightarrow> workspace_op list \<Rightarrow> workspace_error + preflight" where
  "preflight_workspace_edit env cwd d opt planned =
     and_then (resolve_existing_ancestor env cwd) (\<lambda>base.
       fold_throwing (preflight_op env base d opt) empty_preflight (enumerate_from_0 planned))"

definition lift_plan :: "plan_error + 'a \<Rightarrow> workspace_error + 'a" where
  "lift_plan r = (case r of Inl e \<Rightarrow> Inl (Plan_Error e) | Inr x \<Rightarrow> Inr x)"

definition validate_workspace_edit :: "workspace_env \<Rightarrow> path \<Rightarrow> disk \<Rightarrow> json \<Rightarrow> workspace_error + unit" where
  "validate_workspace_edit env cwd d edit =
     and_then (lift_plan (plan_workspace_edit (we_host env) (we_url env) edit False)) (\<lambda>planned.
     and_then (preflight_workspace_edit env cwd d \<lparr>ao_encoding = None, ao_versions = []\<rparr> planned) (\<lambda>_. Inr ()))"

subsection \<open>Import lines\<close>

definition is_word_unit :: "char \<Rightarrow> bool" where
  "is_word_unit c \<longleftrightarrow> (let n = of_char c :: nat in (48 \<le> n \<and> n \<le> 57) \<or> (65 \<le> n \<and> n \<le> 90) \<or> n = 95 \<or> (97 \<le> n \<and> n \<le> 122))"

text \<open>The places of \<^verbatim>\<open>\bfrom\<close> in a line, each with what comes before and after it.\<close>

definition from_places :: "string \<Rightarrow> (string \<times> string) list" where
  "from_places l =
     List.map_filter (\<lambda>i.
       let ahead = take i l; rest = drop i l
       in if starts_with rest ''from'' \<and> (ahead = [] \<or> \<not> is_word_unit (last ahead)) then Some (ahead, drop 4 rest) else None)
       [0..<length l]"

definition quoted_after :: "string \<Rightarrow> bool" where
  "quoted_after t \<longleftrightarrow> t \<noteq> [] \<and> is_js_space (hd t) \<and>
     (case dropWhile is_js_space t of c # _ \<Rightarrow> of_char c \<in> {34, 39 :: nat} | [] \<Rightarrow> False)"

definition exported_from :: "string \<Rightarrow> bool" where
  "exported_from l \<longleftrightarrow>
     (let s = dropWhile is_js_space l
      in starts_with s ''export'' \<and> drop 6 s \<noteq> [] \<and> is_js_space (s ! 6) \<and>
         list_ex (\<lambda>(ahead, behind). behind \<noteq> [] \<and> is_js_space (hd behind) \<and> CHR '';'' \<notin> set ahead \<and>
           length ahead \<ge> length l - length s + 7) (from_places l))"

definition import_relevant_line :: "string \<Rightarrow> bool" where
  "import_relevant_line l \<longleftrightarrow>
     (let s = dropWhile is_js_space l
      in (starts_with s ''import'' \<and> (drop 6 s = [] \<or> \<not> is_word_unit (s ! 6))) \<or> exported_from l \<or>
         list_ex (\<lambda>(_, behind). quoted_after behind) (from_places l))"

definition imports_signature :: "string \<Rightarrow> string" where
  "imports_signature t = join_with LF (filter import_relevant_line (split_on LF t))"

subsection \<open>Applying\<close>

datatype done_op = Edited nat path | Created path | Renamed path path | Deleted path

record file_detail =
  dt_path :: path
  dt_first :: nat
  dt_last :: nat
  dt_imports :: bool

record applied =
  ap_disk :: disk
  ap_files :: "path list"
  ap_details :: "file_detail list"
  ap_indexes :: "nat list"
  ap_total :: nat
  ap_next :: nat
  ap_done :: "done_op list"

definition operation_size :: "(nat, text_edit list) js_map \<Rightarrow> nat \<times> workspace_op \<Rightarrow> nat" where
  "operation_size text_of entry =
     (case entry of (i, op) \<Rightarrow>
        case op of Text_Op _ _ _ _ \<Rightarrow> (case map_of text_of i of Some es \<Rightarrow> length es | None \<Rightarrow> 0) | _ \<Rightarrow> 1)"

text \<open>An operation that reached the disk: what it touched, its details, its description, its indices.\<close>

definition mark_applied :: "nat \<Rightarrow> path list \<Rightarrow> file_detail list \<Rightarrow> done_op \<Rightarrow> disk \<Rightarrow> applied \<Rightarrow> applied" where
  "mark_applied n touched details what d st =
     st\<lparr>ap_disk := d, ap_files := foldl (\<lambda>fs f. set_add f fs) (ap_files st) touched, ap_details := ap_details st @ details,
       ap_indexes := ap_indexes st @ take (100 - length (ap_indexes st)) [ap_next st..<ap_next st + n],
       ap_total := ap_total st + n, ap_next := ap_next st + n, ap_done := ap_done st @ [what]\<rparr>"

definition skip_operation :: "nat \<Rightarrow> applied \<Rightarrow> applied" where
  "skip_operation n st = st\<lparr>ap_next := ap_next st + n\<rparr>"

text \<open>A failing call leaves what the calls before it did.\<close>

definition attempt :: "applied \<Rightarrow> workspace_error + 'a \<Rightarrow> (applied \<times> workspace_error) + 'a" where
  "attempt st r = (case r of Inl e \<Rightarrow> Inl (st, e) | Inr x \<Rightarrow> Inr x)"

definition whole_detail :: "path \<Rightarrow> bool \<Rightarrow> file_detail" where
  "whole_detail p imports = \<lparr>dt_path = p, dt_first = 1, dt_last = 1, dt_imports = imports\<rparr>"

definition apply_text ::
  "workspace_env \<Rightarrow> text_edit list \<Rightarrow> string \<Rightarrow> applied \<Rightarrow> (applied \<times> workspace_error) + applied" where
  "apply_text env edits uri st =
     (let p = uri_to_path (we_host env) (we_url env) uri; q = disk_path env uri
      in if edits = [] then Inr (skip_operation 0 st)
         else
           and_then (attempt st (read_file env (ap_disk st) q)) (\<lambda>content.
           and_then (attempt st (lift_edit (apply_text_edits content edits Utf16))) (\<lambda>updated.
           and_then (attempt st (write_file env (ap_disk st) q updated)) (\<lambda>d.
             Inr (mark_applied (length edits) [p]
               [\<lparr>dt_path = p, dt_first = Min (set (map (\<lambda>e. fst (te_start e) + 1) edits)),
                 dt_last = Max (set (map (\<lambda>e. fst (te_end e) + 1) edits)),
                 dt_imports = (imports_signature content \<noteq> imports_signature updated)\<rparr>]
               (Edited (length edits) p) d st)))))"

definition apply_create ::
  "workspace_env \<Rightarrow> string \<Rightarrow> resource_options option \<Rightarrow> applied \<Rightarrow> (applied \<times> workspace_error) + applied" where
  "apply_create env uri opts st =
     (let p = uri_to_path (we_host env) (we_url env) uri; q = disk_path env uri
      in and_then (attempt st (make_directories env (ap_disk st) (posix_dirname q))) (\<lambda>d1.
         and_then (attempt (st\<lparr>ap_disk := d1\<rparr>)
           (if opt_flag ro_overwrite opts then write_file env d1 q [] else write_new_file env d1 q [])) (\<lambda>d2.
           Inr (mark_applied 1 [p] [whole_detail p False] (Created p) d2 st))))"

definition apply_rename ::
  "workspace_env \<Rightarrow> string \<Rightarrow> string \<Rightarrow> resource_options option \<Rightarrow> applied \<Rightarrow> (applied \<times> workspace_error) + applied" where
  "apply_rename env old_uri new_uri opts st =
     (let old = uri_to_path (we_host env) (we_url env) old_uri; new = uri_to_path (we_host env) (we_url env) new_uri;
          old_disk = disk_path env old_uri; new_disk = disk_path env new_uri
      in and_then (attempt st (make_directories env (ap_disk st) (posix_dirname new_disk))) (\<lambda>d1.
         and_then (attempt (st\<lparr>ap_disk := d1\<rparr>)
           (if opt_flag ro_overwrite opts then remove_entry env d1 new_disk True True else Inr d1)) (\<lambda>d2.
         and_then (attempt (st\<lparr>ap_disk := d2\<rparr>) (rename_entry env d2 old_disk new_disk)) (\<lambda>d3.
           Inr (mark_applied 1 [old, new] [whole_detail old True, whole_detail new True] (Renamed old new) d3 st)))))"

definition apply_delete ::
  "workspace_env \<Rightarrow> string \<Rightarrow> resource_options option \<Rightarrow> applied \<Rightarrow> (applied \<times> workspace_error) + applied" where
  "apply_delete env uri opts st =
     (let p = uri_to_path (we_host env) (we_url env) uri
      in and_then (attempt st (remove_entry env (ap_disk st) (disk_path env uri) (opt_flag ro_recursive opts) False)) (\<lambda>d.
           Inr (mark_applied 1 [p] [whole_detail p True] (Deleted p) d st)))"

definition apply_op ::
  "workspace_env \<Rightarrow> preflight \<Rightarrow> applied \<Rightarrow> nat \<times> workspace_op \<Rightarrow> (applied \<times> workspace_error) + applied" where
  "apply_op env prepared st entry =
     (case entry of (i, op) \<Rightarrow>
        if i \<in> set (pf_ignored prepared) then Inr (skip_operation (operation_size (pf_text prepared) entry) st)
        else case op of
          Text_Op uri _ _ _ \<Rightarrow>
            apply_text env (case map_of (pf_text prepared) i of Some es \<Rightarrow> es | None \<Rightarrow> []) uri st
        | Create_Op uri opts \<Rightarrow> apply_create env uri opts st
        | Rename_Op old new opts \<Rightarrow> apply_rename env old new opts st
        | Delete_Op uri opts \<Rightarrow> apply_delete env uri opts st)"

definition start_applied :: "disk \<Rightarrow> applied" where
  "start_applied d = \<lparr>ap_disk = d, ap_files = [], ap_details = [], ap_indexes = [], ap_total = 0, ap_next = 0, ap_done = []\<rparr>"

text \<open>Refused before the first write, stopped after some, or done; with the number of operations asked for.\<close>

datatype apply_outcome = Refused workspace_error | Stopped nat applied workspace_error | Finished nat applied

definition apply_workspace_edit :: "workspace_env \<Rightarrow> path \<Rightarrow> disk \<Rightarrow> apply_options \<Rightarrow> json \<Rightarrow> apply_outcome" where
  "apply_workspace_edit env cwd d opt edit =
     (case plan_workspace_edit (we_host env) (we_url env) edit False of
        Inl e \<Rightarrow> Refused (Plan_Error e)
      | Inr planned \<Rightarrow>
          (case preflight_workspace_edit env cwd d opt planned of
             Inl e \<Rightarrow> Refused e
           | Inr prepared \<Rightarrow>
               (let asked = sum_list (map (operation_size (pf_text prepared)) (enumerate_from_0 planned))
                in case fold_throwing (apply_op env prepared) (start_applied d) (enumerate_from_0 planned) of
                     Inl (st, e) \<Rightarrow> Stopped asked st e
                   | Inr st \<Rightarrow> Finished asked st)))"

subsection \<open>Positions in another encoding\<close>

text \<open>\<^verbatim>\<open>normalizeWorkspaceEditToUtf16\<close>: the two containers with the edits of every text container replaced.\<close>

definition normalized_origins :: "preflight \<Rightarrow> workspace_op list \<Rightarrow> (string, text_edit list) js_map" where
  "normalized_origins prepared planned =
     foldl (\<lambda>m g. AList.update (text_edit_origin_key g)
         (case map_of (pf_origins prepared) (text_edit_origin_key g) of Some es \<Rightarrow> es | None \<Rightarrow> []) m) []
       (concat (map (\<lambda>op. case op of Text_Op _ _ _ (Some gs) \<Rightarrow> gs | _ \<Rightarrow> []) planned))"

definition edits_of_origin :: "(string, text_edit list) js_map \<Rightarrow> text_origin \<Rightarrow> text_edit list" where
  "edits_of_origin m g = (case map_of m (text_edit_origin_key g) of Some es \<Rightarrow> es | None \<Rightarrow> [])"

definition normalized_document ::
  "(string, text_edit list) js_map \<Rightarrow> nat \<times> json \<Rightarrow> plan_error + json \<times> text_edit list option" where
  "normalized_document m entry =
     (case entry of (i, v) \<Rightarrow>
        and_then (parse_text_document_edit v) (\<lambda>text.
          Inr (v, case text of None \<Rightarrow> None | Some _ \<Rightarrow> Some (edits_of_origin m (From_Document i [])))))"

datatype utf16_edit =
    As_It_Was json
  | In_Utf16 "(string \<times> text_edit list) list" "(json \<times> text_edit list option) list"

definition normalize_workspace_edit_to_utf16 ::
  "workspace_env \<Rightarrow> path \<Rightarrow> disk \<Rightarrow> json \<Rightarrow> position_encoding \<Rightarrow> workspace_error + utf16_edit" where
  "normalize_workspace_edit_to_utf16 env cwd d edit enc =
     and_then (lift_plan (parse_workspace_edit edit)) (\<lambda>_.
       if enc = Utf16 then Inr (As_It_Was edit)
       else
         and_then (lift_plan (plan_workspace_edit (we_host env) (we_url env) edit True)) (\<lambda>planned.
         and_then (preflight_workspace_edit env cwd d \<lparr>ao_encoding = Some enc, ao_versions = []\<rparr> planned) (\<lambda>prepared.
           let m = normalized_origins prepared planned
           in and_then (lift_plan (collect (normalized_document m) (enumerate_from_0 (document_changes_of edit)))) (\<lambda>docs.
                Inr (In_Utf16 (map (\<lambda>(uri, _). (uri, edits_of_origin m (From_Changes uri []))) (changes_of edit)) docs)))))"

end
