(* ===== verification/Workspace_Apply_States.thy ===== *)
theory Workspace_Apply_States
  imports Workspace_Apply
begin

text \<open>
  The virtual file system of the preflight on ordinary paths: which state object answers for a path, what the
  preflight thinks the file there holds, and that its steps change that for the paths they name only.
\<close>

text \<open>
  \<open>P\<close> are the paths an edit names, \<open>A\<close> the directories above them.  Paths are spelled in normal form on a volume
  that tells spellings apart, no path of the edit lies above another, and none is a directory.
\<close>

definition ordinary_paths :: "workspace_env \<Rightarrow> disk \<Rightarrow> path set \<Rightarrow> path set \<Rightarrow> bool" where
  "ordinary_paths env d P A \<longleftrightarrow>
     (\<forall>p \<in> P \<union> A. normalize_file_path (we_host env) p = p \<and> we_entry env p = p) \<and> P \<inter> A = {} \<and>
     (\<forall>p \<in> P \<union> A. set (parents_of p) \<subseteq> A) \<and>
     (\<forall>p \<in> P. \<forall>k. map_of d p = Some k \<longrightarrow> (\<exists>c. k = Regular_File c)) \<and>
     (\<forall>p \<in> P \<union> A. map_of d p \<noteq> None \<longrightarrow> (\<forall>a \<in> set (parents_of p). map_of d a = Some Directory)) \<and>
     (\<forall>p \<in> P. \<forall>q \<in> P. p \<noteq> q \<longrightarrow> \<not> is_same_fs_identity (we_ids env p) (we_ids env q))"

lemma ordinaryD:
  assumes "ordinary_paths env d P A"
  shows "p \<in> P \<or> p \<in> A \<Longrightarrow> normalize_file_path (we_host env) p = p"
    and "p \<in> P \<or> p \<in> A \<Longrightarrow> we_entry env p = p"
    and "p \<in> P \<or> p \<in> A \<Longrightarrow> set (parents_of p) \<subseteq> A"
    and "p \<in> P \<Longrightarrow> p \<notin> A"
    and "p \<in> P \<Longrightarrow> map_of d p = Some k \<Longrightarrow> \<exists>c. k = Regular_File c"
    and "p \<in> P \<or> p \<in> A \<Longrightarrow> map_of d p \<noteq> None \<Longrightarrow> a \<in> set (parents_of p) \<Longrightarrow> map_of d a = Some Directory"
    and "p \<in> P \<Longrightarrow> q \<in> P \<Longrightarrow> p \<noteq> q \<Longrightarrow> \<not> is_same_fs_identity (we_ids env p) (we_ids env q)"
  using assms unfolding ordinary_paths_def by blast+

lemma ordinary_entry: "ordinary_paths env d0 P A \<Longrightarrow> p \<in> P \<or> p \<in> A \<Longrightarrow> entry_at env d p = map_of d p"
  by (simp add: entry_at_def ordinaryD(2))

lemma covers_file:
  assumes "ordinary_paths env d P A" "p \<in> P \<or> p \<in> A" "q \<in> P \<or> q \<in> A"
  shows "covers (we_host env) q False p \<longleftrightarrow> p = q"
  using ordinaryD(1) [OF assms(1)] assms(2,3) by (auto simp: covers_def paths_equal_def is_under_dir_def Let_def)

subsection \<open>Moves\<close>

definition plain_moves :: "path set \<Rightarrow> virtual_move list \<Rightarrow> bool" where
  "plain_moves P ms \<longleftrightarrow> (\<forall>m \<in> set ms. vm_from m \<in> P \<and> vm_to m \<in> P \<and> \<not> vm_directory m)"

lemma common_prefix_self: "common_prefix_length xs xs = length xs"
  by (induction xs) auto

lemma moved_to: "moved_path h m (vm_to m) = vm_from m"
  by (simp add: moved_path_def path_relative_def common_prefix_self)

lemma resolve_back_Cons:
  assumes "ordinary_paths env d P A" "plain_moves P (m # ms)" "p \<in> P \<or> p \<in> A"
  shows "resolve_back (we_host env) (m # ms) p =
    (if p = vm_to m then resolve_back (we_host env) ms (vm_from m)
     else if p = vm_from m then None else resolve_back (we_host env) ms p)"
proof -
  have "vm_from m \<in> P" "vm_to m \<in> P" "\<not> vm_directory m" using assms(2) by (simp_all add: plain_moves_def)
  then show ?thesis using covers_file [OF assms(1,3)] by (auto simp: moved_to)
qed

declare resolve_back.simps(2) [simp del]

lemma resolve_back_in:
  assumes "ordinary_paths env d P A" "plain_moves P ms" "p \<in> P" "resolve_back (we_host env) ms p = Some q"
  shows "q \<in> P"
  using assms(2-4)
proof (induction ms arbitrary: p)
  case (Cons m ms)
  then have "plain_moves P ms" "vm_from m \<in> P" by (simp_all add: plain_moves_def)
  then show ?case using Cons resolve_back_Cons [OF assms(1) Cons.prems(1), of p] by (auto split: if_splits)
qed simp

lemma resolve_back_above:
  assumes "ordinary_paths env d P A" "plain_moves P ms" "p \<in> A"
  shows "resolve_back (we_host env) ms p = Some p"
  using assms(2)
proof (induction ms)
  case (Cons m ms)
  then have "plain_moves P ms" "vm_from m \<in> P" "vm_to m \<in> P" by (simp_all add: plain_moves_def)
  moreover have "p \<notin> P" using ordinaryD(4) [OF assms(1)] assms(3) by blast
  ultimately show ?case using Cons resolve_back_Cons [OF assms(1) Cons.prems, of p] assms(3) by auto
qed simp

lemma resolve_back_inj:
  assumes "ordinary_paths env d P A" "plain_moves P ms" "p \<in> P" "p' \<in> P"
    "resolve_back (we_host env) ms p = Some q" "resolve_back (we_host env) ms p' = Some q"
  shows "p = p'"
  using assms(2-6)
proof (induction ms arbitrary: p p')
  case (Cons m ms)
  have ms: "plain_moves P ms" "vm_from m \<in> P" using Cons.prems(1) by (simp_all add: plain_moves_def)
  note ih = Cons.IH [OF ms(1)]
  have r: "resolve_back (we_host env) ms (if x = vm_to m then vm_from m else x) = Some q \<and> (x = vm_to m \<or> x \<noteq> vm_from m)"
    if "x \<in> P" "resolve_back (we_host env) (m # ms) x = Some q" for x
    using that resolve_back_Cons [OF assms(1) Cons.prems(1), of x] by (auto split: if_splits)
  have "(if p = vm_to m then vm_from m else p) = (if p' = vm_to m then vm_from m else p')"
    using ih r [OF Cons.prems(2,4)] r [OF Cons.prems(3,5)] ms(2) Cons.prems(2,3) by simp
  then show ?case using r [OF Cons.prems(2,4)] r [OF Cons.prems(3,5)] by (auto split: if_splits)
qed simp

subsection \<open>Slots\<close>

text \<open>The address of the state object that answers for a path, and what the preflight takes the file to hold.\<close>

definition slot :: "workspace_env \<Rightarrow> preflight \<Rightarrow> path \<Rightarrow> nat option" where
  "slot env st p =
     (case resolve_virtual_path (we_host env) st p of
        Some q \<Rightarrow> map_of (pf_virtual st) q
      | None \<Rightarrow> map_of (pf_overrides st) p)"

definition file_on :: "disk \<Rightarrow> path \<Rightarrow> string option" where
  "file_on d p = (case map_of d p of Some (Regular_File c) \<Rightarrow> Some c | _ \<Rightarrow> None)"

definition held :: "disk \<Rightarrow> path option \<Rightarrow> virtual_file \<Rightarrow> string option" where
  "held d q f =
     (if \<not> vf_exists f then None
      else case vf_content f of Some c \<Rightarrow> Some c | None \<Rightarrow> (case q of None \<Rightarrow> None | Some q \<Rightarrow> file_on d q))"

definition view :: "workspace_env \<Rightarrow> disk \<Rightarrow> preflight \<Rightarrow> path \<Rightarrow> string option" where
  "view env d st p =
     (let q = resolve_virtual_path (we_host env) st p
      in case slot env st p of
           Some a \<Rightarrow> held d q (pf_files st ! a)
         | None \<Rightarrow> (case q of None \<Rightarrow> None | Some q \<Rightarrow> file_on d q))"

definition used :: "preflight \<Rightarrow> nat list" where
  "used st = map snd (pf_virtual st) @ map snd (pf_overrides st)"

text \<open>What every step keeps of the tables.\<close>

definition virtual_ok :: "disk \<Rightarrow> path set \<Rightarrow> path set \<Rightarrow> preflight \<Rightarrow> path \<Rightarrow> nat \<Rightarrow> bool" where
  "virtual_ok d P A st q a \<longleftrightarrow>
     (q \<in> P \<or> q \<in> A) \<and> (q \<in> A \<longrightarrow> pf_files st ! a = file_of_stat (map_of d q)) \<and>
     (q \<in> P \<longrightarrow> \<not> vf_directory (pf_files st ! a) \<and>
        (vf_exists (pf_files st ! a) \<and> vf_content (pf_files st ! a) = None \<longrightarrow> file_on d q \<noteq> None))"

definition override_ok :: "workspace_env \<Rightarrow> path set \<Rightarrow> preflight \<Rightarrow> path \<Rightarrow> nat \<Rightarrow> bool" where
  "override_ok env P st p a \<longleftrightarrow>
     p \<in> P \<and> \<not> vf_directory (pf_files st ! a) \<and> (vf_exists (pf_files st ! a) \<longrightarrow> vf_content (pf_files st ! a) \<noteq> None) \<and>
     (resolve_virtual_path (we_host env) st p \<noteq> None \<longrightarrow> \<not> vf_exists (pf_files st ! a))"

definition tables_ok :: "workspace_env \<Rightarrow> disk \<Rightarrow> path set \<Rightarrow> path set \<Rightarrow> preflight \<Rightarrow> bool" where
  "tables_ok env d P A st \<longleftrightarrow>
     plain_moves P (pf_moves st) \<and> (\<forall>t \<in> set (pf_tombs st). fst t \<in> P \<and> \<not> snd t) \<and>
     wf_map (pf_virtual st) \<and> wf_map (pf_overrides st) \<and> distinct (used st) \<and>
     (\<forall>a \<in> set (used st). a < length (pf_files st)) \<and>
     (\<forall>q a. map_of (pf_virtual st) q = Some a \<longrightarrow> virtual_ok d P A st q a) \<and>
     (\<forall>p a. map_of (pf_overrides st) p = Some a \<longrightarrow> override_ok env P st p a) \<and>
     (\<forall>p \<in> P. is_tombstoned (we_host env) st p \<longrightarrow> view env d st p = None)"

lemma tablesD:
  assumes "tables_ok env d P A st"
  shows "plain_moves P (pf_moves st)" and "plain_moves P (rev (pf_moves st))"
    and "t \<in> set (pf_tombs st) \<Longrightarrow> fst t \<in> P \<and> \<not> snd t"
    and "wf_map (pf_virtual st)" and "wf_map (pf_overrides st)" and "distinct (used st)"
    and "a \<in> set (used st) \<Longrightarrow> a < length (pf_files st)"
    and "map_of (pf_virtual st) q = Some a \<Longrightarrow> virtual_ok d P A st q a"
    and "map_of (pf_overrides st) p = Some a \<Longrightarrow> override_ok env P st p a"
    and "p \<in> P \<Longrightarrow> is_tombstoned (we_host env) st p \<Longrightarrow> view env d st p = None"
  using assms unfolding tables_ok_def plain_moves_def by (auto simp del: used_def)

lemma tombs_of_files:
  assumes "ordinary_paths env d P A" "tables_ok env d P A st" "p \<in> P \<or> p \<in> A"
  shows "is_tombstoned (we_host env) st p \<longleftrightarrow> p \<in> set (map fst (pf_tombs st))"
proof -
  have "(paths_equal (we_host env) p (fst t) \<or> (snd t \<and> is_under_dir (we_host env) p (fst t))) \<longleftrightarrow> p = fst t"
    if "t \<in> set (pf_tombs st)" for t
    using tablesD(3) [OF assms(2) that] ordinaryD(1) [OF assms(1)] assms(3) by (auto simp: paths_equal_def)
  then show ?thesis by (auto simp: is_tombstoned_def list_ex_iff split_beta)
qed

lemma slot_used: "slot env st p = Some a \<Longrightarrow> a \<in> set (used st)"
  by (auto simp: slot_def used_def split: option.splits dest!: map_of_SomeD intro: rev_image_eqI)

text \<open>Different paths have different objects.\<close>

lemma slot_inj:
  assumes o: "ordinary_paths env d P A" and t: "tables_ok env d P A st" and p: "p \<in> P" "p' \<in> P"
    and "slot env st p = Some a" "slot env st p' = Some a"
  shows "p = p'"
proof -
  note inj = resolve_back_inj [OF o tablesD(2) [OF t] p, folded resolve_virtual_path_def]
  have dv: "distinct (map snd (pf_virtual st))" "distinct (map snd (pf_overrides st))"
    and dis: "set (map snd (pf_virtual st)) \<inter> set (map snd (pf_overrides st)) = {}"
    using tablesD(6) [OF t] by (auto simp: used_def)
  have one: "k = k'" if "map_of m k = Some a" "map_of m k' = Some a" "distinct (map snd m)" for m :: "(path, nat) js_map" and k k'
  proof -
    have "(k, a) \<in> set m" "(k', a) \<in> set m" using that by (simp_all add: map_of_SomeD)
    moreover have "inj_on snd (set m)" using that(3) by (simp add: distinct_map)
    ultimately show ?thesis using inj_onD [of snd "set m" "(k, a)" "(k', a)"] by simp
  qed
  have apart: "\<not> (map_of (pf_virtual st) k = Some a \<and> map_of (pf_overrides st) k' = Some a)" for k k'
  proof
    assume "map_of (pf_virtual st) k = Some a \<and> map_of (pf_overrides st) k' = Some a"
    then have "(k, a) \<in> set (pf_virtual st)" "(k', a) \<in> set (pf_overrides st)" by (simp_all add: map_of_SomeD)
    then have "a \<in> set (map snd (pf_virtual st)) \<inter> set (map snd (pf_overrides st))" by force
    then show False using dis by blast
  qed
  show ?thesis
  proof (cases "resolve_virtual_path (we_host env) st p"; cases "resolve_virtual_path (we_host env) st p'")
    fix q q'
    assume r: "resolve_virtual_path (we_host env) st p = Some q" "resolve_virtual_path (we_host env) st p' = Some q'"
    then have "q = q'" using assms(5,6) one dv(1) by (simp add: slot_def)
    then show "p = p'" using inj r by blast
  next
    assume "resolve_virtual_path (we_host env) st p = None" "resolve_virtual_path (we_host env) st p' = None"
    then show "p = p'" using assms(5,6) one dv(2) by (simp add: slot_def)
  qed (use assms(5,6) apart in \<open>auto simp: slot_def\<close>)
qed

subsection \<open>Looking a path up\<close>

definition grows :: "preflight \<Rightarrow> preflight \<Rightarrow> bool" where
  "grows st st' \<longleftrightarrow>
     pf_moves st' = pf_moves st \<and> pf_tombs st' = pf_tombs st \<and> pf_text st' = pf_text st \<and>
     pf_ignored st' = pf_ignored st \<and> pf_overrides st' = pf_overrides st \<and>
     (\<exists>fs. pf_files st' = pf_files st @ fs) \<and>
     (\<forall>q a. map_of (pf_virtual st) q = Some a \<longrightarrow> map_of (pf_virtual st') q = Some a) \<and>
     (\<forall>a \<in> set (used st'). a \<in> set (used st) \<or> length (pf_files st) \<le> a)"

lemma grows_refl [simp]: "grows st st"
  by (simp add: grows_def)

lemma grows_trans: "grows st st' \<Longrightarrow> grows st' st'' \<Longrightarrow> grows st st''"
  unfolding grows_def by (elim conjE exE) (intro conjI; simp; fastforce)

lemma growsD:
  assumes "grows st st'"
  shows "pf_moves st' = pf_moves st" and "pf_tombs st' = pf_tombs st" and "pf_text st' = pf_text st"
    and "pf_ignored st' = pf_ignored st" and "pf_overrides st' = pf_overrides st"
    and "resolve_virtual_path h st' = resolve_virtual_path h st" and "is_tombstoned h st' = is_tombstoned h st"
    and "length (pf_files st) \<le> length (pf_files st')"
    and "a < length (pf_files st) \<Longrightarrow> pf_files st' ! a = pf_files st ! a"
    and "slot env st p = Some a \<Longrightarrow> slot env st' p = Some a"
    and "a < length (pf_files st) \<Longrightarrow> a \<notin> set (used st) \<Longrightarrow> a \<notin> set (used st')"
proof -
  show r: "resolve_virtual_path h st' = resolve_virtual_path h st" for h
    using assms by (simp add: grows_def resolve_virtual_path_def fun_eq_iff)
  show "is_tombstoned h st' = is_tombstoned h st"
    using assms by (simp add: grows_def is_tombstoned_def fun_eq_iff)
  show "slot env st p = Some a \<Longrightarrow> slot env st' p = Some a"
    using assms r [of "we_host env"] by (auto simp: grows_def slot_def split: option.splits)
  show "a < length (pf_files st) \<Longrightarrow> a \<notin> set (used st) \<Longrightarrow> a \<notin> set (used st')"
    using assms by (auto simp: grows_def)
qed (use assms in \<open>auto simp: grows_def nth_append\<close>)

text \<open>A new object answers for nothing yet, or for a physical path nobody asked about.\<close>

lemma new_object:
  assumes o: "ordinary_paths env d P A" and t: "tables_ok env d P A st"
  shows "tables_ok env d P A (st\<lparr>pf_files := pf_files st @ [f]\<rparr>) \<and> grows st (st\<lparr>pf_files := pf_files st @ [f]\<rparr>) \<and>
    view env d (st\<lparr>pf_files := pf_files st @ [f]\<rparr>) = view env d st \<and>
    length (pf_files st) \<notin> set (used (st\<lparr>pf_files := pf_files st @ [f]\<rparr>))"
proof -
  let ?s = "st\<lparr>pf_files := pf_files st @ [f]\<rparr>"
  have u: "used ?s = used st" "resolve_virtual_path h ?s = resolve_virtual_path h st" "is_tombstoned h ?s = is_tombstoned h st"
    "slot env ?s = slot env st" for h
    by (simp_all add: used_def resolve_virtual_path_def is_tombstoned_def slot_def fun_eq_iff split: option.splits)
  have old: "(pf_files st @ [f]) ! a = pf_files st ! a" if "a \<in> set (used st)" for a
    using tablesD(7) [OF t that] by (simp add: nth_append)
  have v: "view env d ?s p = view env d st p" for p
    using old slot_used [of env st p] by (auto simp: view_def u Let_def split: option.splits)
  have "virtual_ok d P A ?s q a" if "map_of (pf_virtual st) q = Some a" for q a
  proof -
    have "a \<in> set (used st)" using that by (auto simp: used_def dest!: map_of_SomeD intro: rev_image_eqI)
    then show ?thesis using tablesD(8) [OF t that] old by (simp add: virtual_ok_def)
  qed
  moreover have "override_ok env P ?s p a" if "map_of (pf_overrides st) p = Some a" for p a
  proof -
    have "a \<in> set (used st)" using that by (auto simp: used_def dest!: map_of_SomeD intro: rev_image_eqI)
    then show ?thesis using tablesD(9) [OF t that] old by (simp add: override_ok_def u)
  qed
  ultimately have "tables_ok env d P A ?s" using t by (auto simp: tables_ok_def u v)
  moreover have "length (pf_files st) \<notin> set (used st)" using tablesD(7) [OF t] by fastforce
  moreover have "grows st ?s" by (auto simp: grows_def u)
  ultimately show ?thesis using v by (simp add: u fun_eq_iff)
qed

lemma held_of_stat: "held d (Some q) (file_of_stat (map_of d q)) = file_on d q"
  by (auto simp: held_def file_of_stat_def file_on_def)

lemma new_physical:
  assumes o: "ordinary_paths env d P A" and t: "tables_ok env d P A st" and q: "q \<in> P \<or> q \<in> A"
    and new: "map_of (pf_virtual st) q = None"
    and st': "st' = st\<lparr>pf_files := pf_files st @ [file_of_stat (map_of d q)],
      pf_virtual := AList.update q (length (pf_files st)) (pf_virtual st)\<rparr>"
  shows "tables_ok env d P A st' \<and> grows st st' \<and> (\<forall>p. view env d st' p = view env d st p)"
proof -
  let ?s = "st\<lparr>pf_files := pf_files st @ [file_of_stat (map_of d q)]\<rparr>" and ?a = "length (pf_files st)"
  have s: "tables_ok env d P A ?s" "grows st ?s" "view env d ?s = view env d st" "?a \<notin> set (used ?s)"
    using new_object [OF o t] by blast+
  have qn: "q \<notin> set (keys_of (pf_virtual st))" using new by (simp add: map_of_eq_None_iff)
  have u: "used st' = map snd (pf_virtual st) @ ?a # map snd (pf_overrides st)"
    by (simp add: used_def st' update_new [OF qn])
  have parts: "pf_moves st' = pf_moves ?s" "pf_tombs st' = pf_tombs ?s" "pf_overrides st' = pf_overrides ?s" "pf_files st' = pf_files ?s"
    "pf_text st' = pf_text ?s" "pf_ignored st' = pf_ignored ?s"
    by (simp_all add: st')
  have r: "resolve_virtual_path h st' = resolve_virtual_path h ?s" "is_tombstoned h st' = is_tombstoned h ?s" for h
    by (simp_all add: parts resolve_virtual_path_def is_tombstoned_def fun_eq_iff)
  have get: "map_of (pf_virtual st') k = (if k = q then Some ?a else map_of (pf_virtual ?s) k)" for k
    by (simp add: st' get_update)
  have v: "view env d st' p = view env d ?s p" for p
  proof (cases "resolve_virtual_path (we_host env) ?s p")
    case (Some k)
    then show ?thesis using new held_of_stat [of d q]
      by (cases "k = q") (auto simp: view_def slot_def r get parts Let_def split: option.splits)
  qed (auto simp: view_def slot_def r parts split: option.splits)
  have "virtual_ok d P A st' k a" if "map_of (pf_virtual st') k = Some a" for k a
  proof (cases "k = q")
    case True
    then have a: "a = ?a" using that get by simp
    have "\<not> vf_directory (file_of_stat (map_of d q)) \<and> (vf_exists (file_of_stat (map_of d q)) \<longrightarrow> file_on d q \<noteq> None)" if "q \<in> P"
      using ordinaryD(5) [OF o that] by (cases "map_of d q") (auto simp: file_of_stat_def file_on_def)
    then show ?thesis using q by (simp add: virtual_ok_def True a st')
  next
    case False
    then show ?thesis using tablesD(8) [OF s(1), of k a] that get by (simp add: virtual_ok_def parts)
  qed
  moreover have "override_ok env P st' p a" if "map_of (pf_overrides st') p = Some a" for p a
    using tablesD(9) [OF s(1), of p a] that by (simp add: override_ok_def parts r)
  moreover have "distinct (used st')" "\<forall>a \<in> set (used st'). a < length (pf_files st')"
    using tablesD(6) [OF s(1)] s(4) tablesD(7) [OF s(1)] unfolding u parts by (auto simp: used_def)
  moreover have "wf_map (pf_virtual st')" using tablesD(4) [OF t] by (simp add: st')
  ultimately have ok: "tables_ok env d P A st'"
    using s(1) unfolding tables_ok_def by (simp add: parts r v)
  have "\<forall>b \<in> set (used st'). b \<in> set (used st) \<or> length (pf_files st) \<le> b" unfolding u by (auto simp: used_def)
  moreover have "map_of (pf_virtual st') k = Some b" if "map_of (pf_virtual st) k = Some b" for k b
    using that new get [of k] by auto
  ultimately have "grows st st'" by (simp add: grows_def parts)
  then show ?thesis using ok v s(3) by simp
qed

lemma lookup_file:
  assumes o: "ordinary_paths env d P A" and t: "tables_ok env d P A st" and p: "p \<in> P"
    and found: "state_for env d p st = Inr (a, st')"
  shows "tables_ok env d P A st' \<and> grows st st' \<and> (\<forall>x. view env d st' x = view env d st x)"
    and "a < length (pf_files st')" and "\<not> vf_directory (pf_files st' ! a)"
    and "vf_exists (pf_files st' ! a) \<longleftrightarrow> view env d st p \<noteq> None"
    and "slot env st' p = Some a \<or> (a \<notin> set (used st') \<and> \<not> vf_exists (pf_files st' ! a))"
proof -
  note n = ordinaryD(1) [OF o]
  have res: "resolve_virtual_path (we_host env) st p = Some q \<Longrightarrow> q \<in> P" for q
    using resolve_back_in [OF o tablesD(2) [OF t] p] by (simp add: resolve_virtual_path_def)
  have all: "(tables_ok env d P A st' \<and> grows st st' \<and> (\<forall>x. view env d st' x = view env d st x)) \<and>
    a < length (pf_files st') \<and> \<not> vf_directory (pf_files st' ! a) \<and>
    (vf_exists (pf_files st' ! a) \<longleftrightarrow> view env d st p \<noteq> None) \<and>
    (slot env st' p = Some a \<or> (a \<notin> set (used st') \<and> \<not> vf_exists (pf_files st' ! a)))"
  proof -
    have fresh: ?thesis if "view env d st p = None" "(a, st') = new_state no_file st"
      using that new_object [OF o t, of no_file] by (simp add: new_state_def no_file_def)
    have bound: ?thesis if b: "slot env st p = Some a" and s: "st' = st"
    proof -
      have u: "a \<in> set (used st)" by (rule slot_used [OF b])
      show ?thesis
      proof (cases "resolve_virtual_path (we_host env) st p")
        case None
        then have "override_ok env P st p a" using b tablesD(9) [OF t] by (simp add: slot_def)
        then show ?thesis using t tablesD(7) [OF t u] b None
          by (auto simp: s override_ok_def view_def held_def Let_def split: option.splits)
      next
        case (Some q)
        then have "virtual_ok d P A st q a" using b tablesD(8) [OF t] by (simp add: slot_def)
        then show ?thesis using t tablesD(7) [OF t u] b Some res [OF Some]
          by (auto simp: s virtual_ok_def view_def held_def Let_def split: option.splits)
      qed
    qed
    show ?thesis
    proof (cases "is_tombstoned (we_host env) st p")
      case True
      then have "(a, st') = new_state no_file st" using found by (simp add: state_for_def)
      then show ?thesis using fresh tablesD(10) [OF t p True] by blast
    next
      case no_tomb: False
      show ?thesis
      proof (cases "resolve_virtual_path (we_host env) st p")
        case None
        then show ?thesis
        proof (cases "map_of (pf_overrides st) p")
          case none: None
          then have "view env d st p = None" using None by (simp add: view_def slot_def)
          moreover have "(a, st') = new_state no_file st" using found no_tomb None none n p by (simp add: state_for_def Let_def)
          ultimately show ?thesis using fresh by blast
        next
          case (Some b)
          then have "slot env st p = Some a" "st' = st"
            using found no_tomb None n p by (simp_all add: state_for_def slot_def Let_def)
          then show ?thesis by (rule bound)
        qed
      next
        case (Some q)
        then have q: "q \<in> P" by (rule res)
        show ?thesis
        proof (cases "map_of (pf_virtual st) q")
          case None
          then obtain e where e: "lstat_or_missing env d q = Inr e" and ast: "a = length (pf_files st)"
            "st' = st\<lparr>pf_files := pf_files st @ [file_of_stat e], pf_virtual := AList.update q a (pf_virtual st)\<rparr>"
            using found no_tomb Some n q by (auto simp: state_for_def Let_def and_then_Inr new_state_def)
          have e': "e = map_of d q" using e ordinary_entry [OF o] q by (auto simp: lstat_or_missing_def split: if_splits)
          have new: "tables_ok env d P A st' \<and> grows st st' \<and> (\<forall>p. view env d st' p = view env d st p)"
            using new_physical [OF o t disjI1 [OF q] None] ast e' by simp
          have sl: "slot env st' p = Some a"
            using Some growsD(6) [OF conjunct1 [OF conjunct2 [OF new]]] by (simp add: slot_def ast get_update)
          have "view env d st p = file_on d q" using Some None by (simp add: view_def slot_def)
          moreover have "pf_files st' ! a = file_of_stat (map_of d q)" "a < length (pf_files st')" by (simp_all add: ast e')
          ultimately show ?thesis using new sl ordinaryD(5) [OF o q]
            by (cases "map_of d q") (auto simp: file_of_stat_def file_on_def)
        next
          case b: (Some b)
          then have "slot env st p = Some a" "st' = st"
            using found no_tomb Some n q by (simp_all add: state_for_def slot_def Let_def)
          then show ?thesis by (rule bound)
        qed
      qed
    qed
  qed
  show "tables_ok env d P A st' \<and> grows st st' \<and> (\<forall>x. view env d st' x = view env d st x)" using all by blast
  show "a < length (pf_files st')" using all by blast
  show "\<not> vf_directory (pf_files st' ! a)" using all by blast
  show "vf_exists (pf_files st' ! a) \<longleftrightarrow> view env d st p \<noteq> None" using all by blast
  show "slot env st' p = Some a \<or> (a \<notin> set (used st') \<and> \<not> vf_exists (pf_files st' ! a))" using all by blast
qed

lemma lookup_directory:
  assumes o: "ordinary_paths env d P A" and t: "tables_ok env d P A st" and c: "c \<in> A"
    and found: "state_for env d c st = Inr (a, st')"
  shows "tables_ok env d P A st' \<and> grows st st' \<and> (\<forall>x. view env d st' x = view env d st x)"
    and "pf_files st' ! a = file_of_stat (map_of d c)"
proof -
  have cP: "c \<notin> P" using ordinaryD(4) [OF o] c by blast
  have r: "resolve_virtual_path (we_host env) st c = Some c"
    using resolve_back_above [OF o tablesD(2) [OF t] c] by (simp add: resolve_virtual_path_def)
  have nt: "\<not> is_tombstoned (we_host env) st c"
    using tombs_of_files [OF o t disjI2 [OF c]] tablesD(3) [OF t] cP by auto
  have n: "normalize_file_path (we_host env) c = c" using ordinaryD(1) [OF o] c by blast
  have "(tables_ok env d P A st' \<and> grows st st' \<and> (\<forall>x. view env d st' x = view env d st x)) \<and>
    pf_files st' ! a = file_of_stat (map_of d c)"
  proof (cases "map_of (pf_virtual st) c")
    case None
    then obtain e where e: "lstat_or_missing env d c = Inr e" and ast: "a = length (pf_files st)"
      "st' = st\<lparr>pf_files := pf_files st @ [file_of_stat e], pf_virtual := AList.update c a (pf_virtual st)\<rparr>"
      using found nt r n by (auto simp: state_for_def Let_def and_then_Inr new_state_def)
    have e': "e = map_of d c" using e ordinary_entry [OF o] c by (auto simp: lstat_or_missing_def split: if_splits)
    show ?thesis using new_physical [OF o t disjI2 [OF c] None] ast e' by simp
  next
    case (Some b)
    then have "virtual_ok d P A st c b" using tablesD(8) [OF t] by blast
    then show ?thesis using found nt r n Some t c by (auto simp: state_for_def Let_def virtual_ok_def)
  qed
  then show "tables_ok env d P A st' \<and> grows st st' \<and> (\<forall>x. view env d st' x = view env d st x)"
    "pf_files st' ! a = file_of_stat (map_of d c)" by blast+
qed

subsection \<open>Changing what a path holds\<close>

lemma values_update:
  fixes m :: "('a, 'b) js_map"
  assumes "distinct (map snd m)" "a \<notin> set (map snd m)"
  shows "distinct (map snd (AList.update k a m))" "set (map snd (AList.update k a m)) \<subseteq> insert a (set (map snd m))"
proof -
  have sub: "set (map snd (AList.update k a m)) \<subseteq> insert a (set (map snd m))" for m and a :: 'b and k :: 'a
    by (induction m) auto
  then show "set (map snd (AList.update k a m)) \<subseteq> insert a (set (map snd m))" .
  show "distinct (map snd (AList.update k a m))"
    using assms
  proof (induction m)
    case (Cons x m)
    then show ?case using sub [of k a m] by (cases x) auto
  qed simp
qed

lemma update_same: "map_of m k = Some v \<Longrightarrow> AList.update k v m = m"
  by (induction m) (auto split: if_splits)

text \<open>Nothing but the new value of its slot changes when a state is written and recorded.\<close>

lemma record_slot:
  assumes o: "ordinary_paths env d P A" and t: "tables_ok env d P A st" and p: "p \<in> P" and "slot env st p = Some a"
  shows "record_state (we_host env) p a (put_state a f st) = put_state a f st"
proof -
  have r: "resolve_virtual_path h (put_state a f st) = resolve_virtual_path h st" for h
    by (simp add: put_state_def resolve_virtual_path_def fun_eq_iff)
  show ?thesis
  proof (cases "resolve_virtual_path (we_host env) st p")
    case None
    then show ?thesis using assms(4) ordinaryD(1) [OF o] p r
      by (simp add: record_state_def slot_def put_state_def update_same)
  next
    case (Some q)
    then have "q \<in> P" using resolve_back_in [OF o tablesD(2) [OF t] p] by (simp add: resolve_virtual_path_def)
    then show ?thesis using assms(4) Some ordinaryD(1) [OF o] r
      by (simp add: record_state_def slot_def put_state_def update_same)
  qed
qed

lemma set_file:
  assumes o: "ordinary_paths env d P A" and t: "tables_ok env d P A st" and p: "p \<in> P"
    and a: "slot env st p = Some a \<or> (a \<notin> set (used st) \<and> a < length (pf_files st))"
    and f: "\<not> vf_directory f" "vf_exists f \<longrightarrow> vf_content f \<noteq> None" "is_tombstoned (we_host env) st p \<longrightarrow> \<not> vf_exists f"
    and st': "st' = record_state (we_host env) p a (put_state a f st)"
  shows "tables_ok env d P A st'" and "view env d st' p = (if vf_exists f then vf_content f else None)"
    and "x \<in> P \<Longrightarrow> x \<noteq> p \<Longrightarrow> view env d st' x = view env d st x" and "slot env st' p = Some a"
    and "pf_moves st' = pf_moves st" and "pf_tombs st' = pf_tombs st" and "pf_text st' = pf_text st" and "pf_ignored st' = pf_ignored st"
proof -
  note n = ordinaryD(1) [OF o]
  have res: "resolve_virtual_path (we_host env) st x = Some q \<Longrightarrow> x \<in> P \<Longrightarrow> q \<in> P" for x q
    using resolve_back_in [OF o tablesD(2) [OF t]] by (simp add: resolve_virtual_path_def)
  have inj: "resolve_virtual_path (we_host env) st x = Some q \<Longrightarrow> resolve_virtual_path (we_host env) st p = Some q \<Longrightarrow>
    x \<in> P \<Longrightarrow> x = p" for x q
    using resolve_back_inj [OF o tablesD(2) [OF t], of x p q] p by (simp add: resolve_virtual_path_def)
  have rp: "resolve_virtual_path h (put_state a f st) = resolve_virtual_path h st" for h
    by (simp add: put_state_def resolve_virtual_path_def fun_eq_iff)
  define vs where "vs = (case resolve_virtual_path (we_host env) st p of Some q \<Rightarrow> AList.update q a (pf_virtual st) | None \<Rightarrow> pf_virtual st)"
  define os where "os = (case resolve_virtual_path (we_host env) st p of Some q \<Rightarrow> pf_overrides st | None \<Rightarrow> AList.update p a (pf_overrides st))"
  have s: "st' = st\<lparr>pf_files := (pf_files st)[a := f], pf_virtual := vs, pf_overrides := os\<rparr>"
    using n p res [OF _ p] rp
    by (auto simp: st' record_state_def put_state_def vs_def os_def split: option.splits)
  then show parts: "pf_moves st' = pf_moves st" "pf_tombs st' = pf_tombs st" "pf_text st' = pf_text st" "pf_ignored st' = pf_ignored st"
    by simp_all
  have r: "resolve_virtual_path h st' = resolve_virtual_path h st" "is_tombstoned h st' = is_tombstoned h st" for h
    using parts by (simp_all add: resolve_virtual_path_def is_tombstoned_def fun_eq_iff)
  have len: "a < length (pf_files st)" using a tablesD(7) [OF t] slot_used by blast
  have fa: "pf_files st' ! b = (if b = a then f else pf_files st ! b)" "length (pf_files st') = length (pf_files st)" for b
    using len by (simp_all add: s nth_list_update)
  have dv: "distinct (map snd (pf_virtual st))" "distinct (map snd (pf_overrides st))"
    and dis: "set (map snd (pf_virtual st)) \<inter> set (map snd (pf_overrides st)) = {}"
    using tablesD(6) [OF t] by (auto simp: used_def)
  have maps: "pf_virtual st' = vs" "pf_overrides st' = os" by (simp_all add: s)
  have slots: "slot env st' x = (if x = p then Some a else slot env st x)" if "x \<in> P" for x
    using inj [OF _ _ that] by (auto simp: slot_def r maps vs_def os_def get_update split: option.splits)
  show "slot env st' p = Some a" using slots [OF p] by simp
  have used': "distinct (used st')" "\<forall>b \<in> set (used st'). b < length (pf_files st')"
  proof -
    have "distinct (used st') \<and> set (used st') \<subseteq> insert a (set (used st))"
      using a
    proof
      assume "slot env st p = Some a"
      then have "vs = pf_virtual st" "os = pf_overrides st"
        by (auto simp: vs_def os_def slot_def update_same split: option.splits)
      then show ?thesis using tablesD(6) [OF t] by (auto simp: s used_def)
    next
      assume "a \<notin> set (used st) \<and> a < length (pf_files st)"
      then have na: "a \<notin> set (map snd (pf_virtual st))" "a \<notin> set (map snd (pf_overrides st))" by (auto simp: used_def)
      show ?thesis
      proof (cases "resolve_virtual_path (we_host env) st p")
        case None
        then have e: "vs = pf_virtual st" "os = AList.update p a (pf_overrides st)" by (simp_all add: vs_def os_def)
        show ?thesis using values_update [OF dv(2) na(2), of p] dv(1) dis na(1) unfolding used_def s e by auto
      next
        case (Some q)
        then have e: "vs = AList.update q a (pf_virtual st)" "os = pf_overrides st" by (simp_all add: vs_def os_def)
        show ?thesis using values_update [OF dv(1) na(1), of q] dv(2) dis na(2) unfolding used_def s e by auto
      qed
    qed
    then show "distinct (used st')" "\<forall>b \<in> set (used st'). b < length (pf_files st')"
      using tablesD(7) [OF t] len fa(2) by auto
  qed
  have other: "b \<noteq> a" if "x \<in> P" "x \<noteq> p" "slot env st x = Some b" for x b
    using a slot_inj [OF o t that(1) p that(3)] that slot_used [OF that(3)] by auto
  have vp: "view env d st' p = (if vf_exists f then vf_content f else None)"
    using slots [OF p] f(2) by (auto simp: view_def held_def fa Let_def split: option.splits)
  then show "view env d st' p = (if vf_exists f then vf_content f else None)" .
  have vx: "view env d st' x = view env d st x" if "x \<in> P" "x \<noteq> p" for x
    using slots [OF that(1)] that(2) other [OF that] by (auto simp: view_def r fa Let_def split: option.splits)
  then show "x \<in> P \<Longrightarrow> x \<noteq> p \<Longrightarrow> view env d st' x = view env d st x" .
  have virt: "virtual_ok d P A st' q b" if "map_of (pf_virtual st') q = Some b" for q b
  proof (cases "b = a")
    case True
    have "q \<in> P \<and> q \<notin> A"
    proof (cases "resolve_virtual_path (we_host env) st p = Some q")
      case True
      then show ?thesis using res [OF True p] ordinaryD(4) [OF o] by blast
    next
      case False
      then have old: "map_of (pf_virtual st) q = Some a"
        using that \<open>b = a\<close> by (auto simp: s vs_def get_update split: option.splits if_splits)
      then have av: "a \<in> set (map snd (pf_virtual st))" by (auto dest!: map_of_SomeD intro: rev_image_eqI)
      then have sl: "slot env st p = Some a" using a by (auto simp: used_def)
      have False
      proof (cases "resolve_virtual_path (we_host env) st p")
        case None
        then have "map_of (pf_overrides st) p = Some a" using sl by (simp add: slot_def)
        then have "a \<in> set (map snd (pf_overrides st))" by (auto dest!: map_of_SomeD intro: rev_image_eqI)
        then show False using av dis by blast
      next
        case (Some q')
        then have "map_of (pf_virtual st) q' = Some a" using sl by (simp add: slot_def)
        then have "(q', a) \<in> set (pf_virtual st)" "(q, a) \<in> set (pf_virtual st)" using old by (simp_all add: map_of_SomeD)
        moreover have "inj_on snd (set (pf_virtual st))" using dv(1) by (simp add: distinct_map)
        ultimately have "q' = q" using inj_onD [of snd "set (pf_virtual st)" "(q', a)" "(q, a)"] by simp
        then show False using Some \<open>resolve_virtual_path (we_host env) st p \<noteq> Some q\<close> by simp
      qed
      then show ?thesis ..
    qed
    then show ?thesis using f by (auto simp: virtual_ok_def True fa)
  next
    case False
    then have "map_of (pf_virtual st) q = Some b"
      using that by (auto simp: s vs_def get_update split: option.splits if_splits)
    then show ?thesis using tablesD(8) [OF t] False by (simp add: virtual_ok_def fa)
  qed
  have over: "override_ok env P st' x b" if "map_of (pf_overrides st') x = Some b" for x b
  proof (cases "x = p \<and> resolve_virtual_path (we_host env) st p = None")
    case True
    then have "b = a" using that by (simp add: s os_def get_update)
    then show ?thesis using True p f by (simp add: override_ok_def fa r)
  next
    case False
    then have old: "map_of (pf_overrides st) x = Some b"
      using that by (auto simp: s os_def get_update split: option.splits if_splits)
    then have bo: "b \<in> set (map snd (pf_overrides st))" by (auto dest!: map_of_SomeD intro: rev_image_eqI)
    have "b \<noteq> a"
    proof
      assume "b = a"
      then have sl: "slot env st p = Some a" using a bo by (auto simp: used_def)
      show False
      proof (cases "resolve_virtual_path (we_host env) st p")
        case None
        then have "map_of (pf_overrides st) p = Some a" using sl by (simp add: slot_def)
        then have "(p, a) \<in> set (pf_overrides st)" "(x, a) \<in> set (pf_overrides st)" using old \<open>b = a\<close> by (simp_all add: map_of_SomeD)
        moreover have "inj_on snd (set (pf_overrides st))" using dv(2) by (simp add: distinct_map)
        ultimately have "p = x" using inj_onD [of snd "set (pf_overrides st)" "(p, a)" "(x, a)"] by simp
        then show False using False None by simp
      next
        case (Some q)
        then have "map_of (pf_virtual st) q = Some a" using sl by (simp add: slot_def)
        then have "a \<in> set (map snd (pf_virtual st))" by (auto dest!: map_of_SomeD intro: rev_image_eqI)
        then show False using bo \<open>b = a\<close> dis by blast
      qed
    qed
    then show ?thesis using tablesD(9) [OF t old] by (simp add: override_ok_def fa r)
  qed
  have "view env d st' x = None" if "x \<in> P" "is_tombstoned (we_host env) st x" for x
    using that vp f(3) vx [of x] tablesD(10) [OF t, of x] by (cases "x = p") auto
  moreover have "wf_map (pf_virtual st')" "wf_map (pf_overrides st')"
    using tablesD(4,5) [OF t] by (auto simp: s vs_def os_def split: option.splits)
  ultimately show "tables_ok env d P A st'"
    using t used' virt over unfolding tables_ok_def by (simp add: parts r)
qed

end
