(* ===== verification/Workspace_Apply_Meaning.thy ===== *)
theory Workspace_Apply_Meaning
  imports Workspace_Apply_States Text_Edits_Meaning
begin

text \<open>
  What the preflight promises of the application: on ordinary paths an edit it accepts is carried out to the end,
  and every file it names holds what the preflight computed.
\<close>

subsection \<open>What the preflight reads\<close>

lemma same_tables [simp]:
  "resolve_virtual_path h (st\<lparr>pf_text := x\<rparr>) = resolve_virtual_path h st"
  "resolve_virtual_path h (st\<lparr>pf_origins := y\<rparr>) = resolve_virtual_path h st"
  "resolve_virtual_path h (st\<lparr>pf_ignored := z\<rparr>) = resolve_virtual_path h st"
  "is_tombstoned h (st\<lparr>pf_text := x\<rparr>) = is_tombstoned h st"
  "is_tombstoned h (st\<lparr>pf_origins := y\<rparr>) = is_tombstoned h st"
  "is_tombstoned h (st\<lparr>pf_ignored := z\<rparr>) = is_tombstoned h st"
  "slot env (st\<lparr>pf_text := x\<rparr>) = slot env st"
  "slot env (st\<lparr>pf_origins := y\<rparr>) = slot env st"
  "slot env (st\<lparr>pf_ignored := z\<rparr>) = slot env st"
  by (simp_all add: resolve_virtual_path_def is_tombstoned_def slot_def fun_eq_iff split: option.splits)

lemma same_view [simp]:
  "view env d (st\<lparr>pf_text := x\<rparr>) = view env d st"
  "view env d (st\<lparr>pf_origins := y\<rparr>) = view env d st"
  "view env d (st\<lparr>pf_ignored := z\<rparr>) = view env d st"
  by (simp_all add: view_def fun_eq_iff Let_def split: option.splits)

lemma same_ok [simp]:
  "tables_ok env d P A (st\<lparr>pf_text := x\<rparr>) = tables_ok env d P A st"
  "tables_ok env d P A (st\<lparr>pf_origins := y\<rparr>) = tables_ok env d P A st"
  "tables_ok env d P A (st\<lparr>pf_ignored := z\<rparr>) = tables_ok env d P A st"
  by (simp_all add: tables_ok_def virtual_ok_def override_ok_def used_def)

lemma usable_parent:
  assumes o: "ordinary_paths env d P A" and "tables_ok env d P A st" "set cs \<subseteq> A" "parent_usable env d p cs st = Inr st'"
  shows "tables_ok env d P A st' \<and> grows st st' \<and> (\<forall>x. view env d st' x = view env d st x) \<and>
    (\<exists>u c v. cs = u @ c # v \<and> map_of d c = Some Directory \<and> (\<forall>x \<in> set u. map_of d x = None))"
  using assms(2-4)
proof (induction cs arbitrary: st)
  case (Cons c cs)
  obtain a st1 where f: "state_for env d c st = Inr (a, st1)"
    using Cons.prems(3) by (auto simp: and_then_Inr)
  have cA: "c \<in> A" using Cons.prems(2) by simp
  note s = lookup_directory [OF o Cons.prems(1) cA f]
  show ?case
  proof (cases "map_of d c")
    case None
    then have "parent_usable env d p cs st1 = Inr st'" using Cons.prems(3) f s(2) by (simp add: file_of_stat_def)
    then obtain u c' v where
      "tables_ok env d P A st' \<and> grows st1 st' \<and> (\<forall>x. view env d st' x = view env d st1 x)"
      "cs = u @ c' # v" "map_of d c' = Some Directory" "\<forall>x \<in> set u. map_of d x = None"
      using Cons.IH [of st1] s(1) Cons.prems(2) by auto
    then show ?thesis using s(1) None grows_trans
      by (intro conjI exI [of _ "c # u"]) auto
  next
    case (Some k)
    then have "k = Directory \<and> st' = st1"
      using Cons.prems(3) f s(2) by (auto simp: file_of_stat_def split: if_splits)
    moreover have "\<exists>u c' v. c # cs = u @ c' # v \<and> map_of d c' = Some Directory \<and> (\<forall>x \<in> set u. map_of d x = None)"
      using Some calculation by (intro exI [of _ "[]"] exI [of _ c] exI [of _ cs]) simp
    ultimately show ?thesis using s(1) by simp
  qed
qed simp

lemma read_content:
  assumes o: "ordinary_paths env d P A" and t: "tables_ok env d P A st" and p: "p \<in> P" and sl: "slot env st p = Some a"
    and c: "content_for env d p a st = Inr (c, st')"
  shows "view env d st p = Some c" and "tables_ok env d P A st'" and "slot env st' p = Some a"
    and "x \<in> P \<Longrightarrow> view env d st' x = view env d st x"
    and "vf_exists (pf_files st' ! a) \<and> \<not> vf_directory (pf_files st' ! a) \<and> vf_content (pf_files st' ! a) = Some c"
    and "pf_moves st' = pf_moves st \<and> pf_tombs st' = pf_tombs st \<and> pf_text st' = pf_text st \<and> pf_ignored st' = pf_ignored st"
proof -
  let ?f = "pf_files st ! a"
  have ex: "vf_exists ?f" "\<not> vf_directory ?f" using c by (auto simp: content_for_def Let_def split: if_splits)
  have all: "view env d st p = Some c \<and> tables_ok env d P A st' \<and> slot env st' p = Some a \<and>
    (\<forall>x \<in> P. view env d st' x = view env d st x) \<and>
    (vf_exists (pf_files st' ! a) \<and> \<not> vf_directory (pf_files st' ! a) \<and> vf_content (pf_files st' ! a) = Some c) \<and>
    (pf_moves st' = pf_moves st \<and> pf_tombs st' = pf_tombs st \<and> pf_text st' = pf_text st \<and> pf_ignored st' = pf_ignored st)"
  proof (cases "vf_content ?f")
    case (Some b)
    then have "b = c" "st' = st" using c ex by (simp_all add: content_for_def)
    then show ?thesis using Some ex t sl by (simp add: view_def held_def Let_def)
  next
    case None
    then obtain q where q: "resolve_virtual_path (we_host env) st p = Some q" "read_file env d q = Inr c"
      and st': "st' = put_state a (?f\<lparr>vf_content := Some c\<rparr>) st"
      using c ex by (auto simp: content_for_def and_then_Inr split: option.splits)
    have qP: "q \<in> P" using resolve_back_in [OF o tablesD(2) [OF t] p] q(1) by (simp add: resolve_virtual_path_def)
    have "file_on d q = Some c"
      using q(2) ordinary_entry [OF o, of q d] qP by (auto simp: read_file_def file_on_def split: option.splits entry_kind.splits)
    then have v: "view env d st p = Some c" using sl q(1) None ex by (simp add: view_def held_def)
    have nt: "\<not> is_tombstoned (we_host env) st p" using tablesD(10) [OF t p] v by auto
    have r: "st' = record_state (we_host env) p a (put_state a (?f\<lparr>vf_content := Some c\<rparr>) st)"
      unfolding st' using record_slot [OF o t p sl] by simp
    note s = set_file [OF o t p disjI1 [OF sl] _ _ _ r]
    have len: "a < length (pf_files st)" using tablesD(7) [OF t slot_used [OF sl]] .
    have "view env d st' x = view env d st x" if "x \<in> P" for x
      using s(2) s(3) [of x] ex nt v that by (cases "x = p") auto
    then show ?thesis using v s(1,4-8) ex nt len by (simp add: st' put_state_def)
  qed
  show "view env d st p = Some c" using all by blast
  show "tables_ok env d P A st'" using all by blast
  show "slot env st' p = Some a" using all by blast
  show "x \<in> P \<Longrightarrow> view env d st' x = view env d st x" using all by blast
  show "vf_exists (pf_files st' ! a) \<and> \<not> vf_directory (pf_files st' ! a) \<and> vf_content (pf_files st' ! a) = Some c" using all by blast
  show "pf_moves st' = pf_moves st \<and> pf_tombs st' = pf_tombs st \<and> pf_text st' = pf_text st \<and> pf_ignored st' = pf_ignored st"
    using all by blast
qed

lemma cleared_tombs:
  assumes o: "ordinary_paths env d P A" and t: "tables_ok env d P A st" and p: "p \<in> P"
    and st': "st' = clear_tombstones_under (we_host env) p st"
  shows "tables_ok env d P A st'" and "view env d st' = view env d st" and "\<not> is_tombstoned (we_host env) st' p"
    and "slot env st' = slot env st" and "used st' = used st" and "pf_files st' = pf_files st" and "pf_moves st' = pf_moves st"
    and "pf_text st' = pf_text st \<and> pf_ignored st' = pf_ignored st \<and> pf_overrides st' = pf_overrides st"
    and "resolve_virtual_path (we_host env) st' = resolve_virtual_path (we_host env) st"
proof -
  show r: "resolve_virtual_path (we_host env) st' = resolve_virtual_path (we_host env) st"
    by (simp add: st' clear_tombstones_under_def resolve_virtual_path_def fun_eq_iff)
  have maps: "pf_virtual st' = pf_virtual st" "pf_overrides st' = pf_overrides st"
    by (simp_all add: st' clear_tombstones_under_def)
  show sl: "slot env st' = slot env st"
    by (rule ext) (simp add: slot_def r maps split: option.splits)
  show u: "used st' = used st" and fl: "pf_files st' = pf_files st" and m: "pf_moves st' = pf_moves st"
    and rest: "pf_text st' = pf_text st \<and> pf_ignored st' = pf_ignored st \<and> pf_overrides st' = pf_overrides st"
    by (simp_all add: st' clear_tombstones_under_def used_def)
  show v: "view env d st' = view env d st" by (rule ext) (simp add: view_def sl r fl Let_def split: option.splits)
  have sub: "set (pf_tombs st') \<subseteq> set (pf_tombs st)" by (auto simp: st' clear_tombstones_under_def)
  have vv: "pf_virtual st' = pf_virtual st" by (simp add: st' clear_tombstones_under_def)
  have "is_tombstoned (we_host env) st x" if "is_tombstoned (we_host env) st' x" for x
    using that sub unfolding is_tombstoned_def list_ex_iff by blast
  then show ok: "tables_ok env d P A st'"
    using t sub unfolding tables_ok_def virtual_ok_def override_ok_def
    by (simp add: m u fl v r rest vv) blast
  show "\<not> is_tombstoned (we_host env) st' p"
    unfolding tombs_of_files [OF o ok disjI1 [OF p]]
    by (auto simp: st' clear_tombstones_under_def paths_equal_def)
qed

subsection \<open>What the calls do to the disk\<close>

lemma own_parent: "posix_dirname p \<in> set (parents_of p)"
  by (subst parents_of_def, subst ancestors_of.simps) simp

lemma ancestors_suffix: "ancestors_of p = u @ c # v \<Longrightarrow> ancestors_of c = c # v"
proof (induction p arbitrary: u rule: ancestors_of.induct)
  case (1 p)
  show ?case
  proof (cases "posix_dirname p = p")
    case True
    then have "ancestors_of p = [p]" by (subst ancestors_of.simps) simp
    then show ?thesis using 1(2) by (cases u) auto
  next
    case False
    then have a: "ancestors_of p = p # ancestors_of (posix_dirname p)" by (subst ancestors_of.simps) simp
    show ?thesis
    proof (cases u)
      case Nil
      then show ?thesis using a 1(2) by simp
    next
      case (Cons x u')
      then show ?thesis using 1(1) [OF False, of u'] a 1(2) by simp
    qed
  qed
qed

lemma tail_parents: "ancestors_of c = c # v \<Longrightarrow> set v \<subseteq> set (parents_of c)"
  by (cases "posix_dirname c = c") (auto simp: parents_of_def ancestors_of.simps [of c] split: if_splits)

lemma directories_made:
  assumes o: "ordinary_paths env d0 P A"
  shows "set cs \<subseteq> A \<Longrightarrow> \<forall>c \<in> set cs. map_of d c = None \<or> map_of d c = Some Directory \<Longrightarrow>
    \<exists>d'. fold_throwing (make_directory env) d cs = Inr d' \<and>
      (\<forall>x. map_of d' x = (if x \<in> set cs then Some Directory else map_of d x))"
proof (induction cs arbitrary: d)
  case (Cons c cs)
  have e: "we_entry env c = c" "entry_at env d c = map_of d c"
    using ordinaryD(2) [OF o, of c] ordinary_entry [OF o, of c] Cons.prems(1) by simp_all
  obtain d1 where d1: "make_directory env d c = Inr d1" "\<forall>x. map_of d1 x = (if x = c then Some Directory else map_of d x)"
    using Cons.prems(2) e by (cases "map_of d c") (auto simp: make_directory_def get_update)
  have "\<forall>x \<in> set cs. map_of d1 x = None \<or> map_of d1 x = Some Directory" using Cons.prems(2) d1(2) by auto
  then obtain d' where "fold_throwing (make_directory env) d1 cs = Inr d'"
    "\<forall>x. map_of d' x = (if x \<in> set cs then Some Directory else map_of d1 x)"
    using Cons.IH [of d1] Cons.prems(1) by auto
  then show ?case using d1 by auto
qed simp

text \<open>The disk, and what the preflight makes of it.\<close>

definition tracks :: "workspace_env \<Rightarrow> disk \<Rightarrow> path set \<Rightarrow> path set \<Rightarrow> preflight \<Rightarrow> disk \<Rightarrow> bool" where
  "tracks env d0 P A st d \<longleftrightarrow>
     tables_ok env d0 P A st \<and>
     (\<forall>p \<in> P. map_of d p = map_option Regular_File (view env d0 st p)) \<and>
     (\<forall>c \<in> A. map_of d c = map_of d0 c \<or> (map_of d0 c = None \<and> map_of d c = Some Directory)) \<and>
     (\<forall>x. x \<notin> P \<and> x \<notin> A \<longrightarrow> map_of d x = map_of d0 x) \<and>
     (\<forall>p \<in> P. map_of d p \<noteq> None \<longrightarrow> map_of d (posix_dirname p) = Some Directory)"

lemma tracksD:
  assumes "tracks env d0 P A st d"
  shows "tables_ok env d0 P A st" and "p \<in> P \<Longrightarrow> map_of d p = map_option Regular_File (view env d0 st p)"
    and "c \<in> A \<Longrightarrow> map_of d c = map_of d0 c \<or> (map_of d0 c = None \<and> map_of d c = Some Directory)"
    and "x \<notin> P \<Longrightarrow> x \<notin> A \<Longrightarrow> map_of d x = map_of d0 x"
    and "p \<in> P \<Longrightarrow> map_of d p \<noteq> None \<Longrightarrow> map_of d (posix_dirname p) = Some Directory"
  using assms unfolding tracks_def by blast+

text \<open>Once the preflight has found a directory above a path, the directories in between can be made.\<close>

lemma parents_made:
  assumes o: "ordinary_paths env d0 P A" and tr: "tracks env d0 P A st d" and p: "p \<in> P"
    and ok: "parents_of p = u @ c # v" "map_of d0 c = Some Directory" "\<forall>x \<in> set u. map_of d0 x = None"
  obtains d' where "make_directories env d (posix_dirname p) = Inr d'"
    and "\<And>x. map_of d' x = (if x \<in> set (parents_of p) then Some Directory else map_of d x)"
    and "tracks env d0 P A st d'"
proof -
  have sub: "set (parents_of p) \<subseteq> A" using ordinaryD(3) [OF o] p by blast
  have cA: "c \<in> A" using sub ok(1) by auto
  have "ancestors_of c = c # v" using ancestors_suffix ok(1) by (simp add: parents_of_def)
  then have v: "map_of d0 x = Some Directory" if "x \<in> set v" for x
    using ordinaryD(6) [OF o, of c x] cA ok(2) tail_parents that by blast
  have old: "map_of d0 x = None \<or> map_of d0 x = Some Directory" if "x \<in> set (parents_of p)" for x
    using that ok v by auto
  have now: "map_of d x = None \<or> map_of d x = Some Directory" if "x \<in> set (parents_of p)" for x
    using old [OF that] tracksD(3) [OF tr, of x] that sub by auto
  obtain d' where d': "fold_throwing (make_directory env) d (rev (parents_of p)) = Inr d'"
    "\<forall>x. map_of d' x = (if x \<in> set (parents_of p) then Some Directory else map_of d x)"
    using directories_made [OF o, of "rev (parents_of p)" d] sub now by auto
  have off: "x \<notin> set (parents_of p)" if "x \<in> P" for x using sub ordinaryD(4) [OF o that] by blast
  have m: "make_directories env d (posix_dirname p) = Inr d'"
    using d'(1) by (simp add: make_directories_def parents_of_def)
  have "map_of d' x = map_of d0 x \<or> (map_of d0 x = None \<and> map_of d' x = Some Directory)" if "x \<in> A" for x
    using d'(2) old [of x] tracksD(3) [OF tr that] by (cases "x \<in> set (parents_of p)") auto
  moreover have "map_of d' x = map_of d x" if "x \<notin> A" for x using d'(2) sub that by auto
  moreover have "map_of d' (posix_dirname x) = Some Directory" if "x \<in> P" "map_of d' x \<noteq> None" for x
    using tracksD(5) [OF tr that(1)] d'(2) off [OF that(1)] that(2) by auto
  ultimately have "tracks env d0 P A st d'"
    using tr ordinaryD(4) [OF o] unfolding tracks_def by auto
  then show thesis using that m d'(2) by blast
qed

text \<open>One file of the edit changes on the disk and in the view.\<close>

lemma tracks_change:
  assumes o: "ordinary_paths env d0 P A" and tr: "tracks env d0 P A st d" and p: "p \<in> P"
    and t: "tables_ok env d0 P A st'" and v: "view env d0 st' p = new"
    and others: "\<And>x. x \<in> P \<Longrightarrow> x \<noteq> p \<Longrightarrow> view env d0 st' x = view env d0 st x"
    and dir: "new \<noteq> None \<Longrightarrow> map_of d (posix_dirname p) = Some Directory"
    and d': "map_of d' = (map_of d)(p := map_option Regular_File new)"
  shows "tracks env d0 P A st' d'"
proof -
  have up: "posix_dirname x \<in> A" if "x \<in> P" for x using own_parent ordinaryD(3) [OF o] that by blast
  have pA: "p \<notin> A" by (rule ordinaryD(4) [OF o p])
  then have same: "map_of d' c = map_of d c" if "c \<in> A" for c using d' that by auto
  have "map_of d' x \<noteq> None \<longrightarrow> map_of d' (posix_dirname x) = Some Directory" if "x \<in> P" for x
    using tracksD(5) [OF tr that] dir same [OF up [OF that]] d' by (cases "x = p") auto
  then show ?thesis
    using tr t v others same d' p unfolding tracks_def by auto
qed

lemma tracks_same:
  assumes "tracks env d0 P A st d" "tables_ok env d0 P A st'" "\<And>x. x \<in> P \<Longrightarrow> view env d0 st' x = view env d0 st x"
  shows "tracks env d0 P A st' d"
  using assms unfolding tracks_def by simp

subsection \<open>One operation\<close>

lemma confined: "confine_uri env base uri = Inr p \<Longrightarrow> p = uri_to_path (we_host env) (we_url env) uri"
  by (auto simp: confine_uri_def Let_def and_then_Inr split: if_splits)

lemma origins_only:
  "fold_throwing (add_origin content enc) st gs = Inr st' \<Longrightarrow> \<exists>m. st' = st\<lparr>pf_origins := m\<rparr>"
proof (induction gs arbitrary: st)
  case Nil
  then show ?case by (intro exI [of _ "pf_origins st"]) simp
next
  case (Cons g gs)
  obtain st1 where "add_origin content enc st g = Inr st1" and rest: "fold_throwing (add_origin content enc) st1 gs = Inr st'"
    using Cons.prems by (auto simp: and_then_Inr)
  then obtain es where "st1 = st\<lparr>pf_origins := es\<rparr>" by (auto simp: and_then_Inr add_origin_def)
  then show ?case using Cons.IH [OF rest] by auto
qed

lemma no_edits: "apply_text_edits content [] enc = Inr content"
  by (simp add: apply_text_edits_def normalize_text_edits_def validate_text_edits_def unique_edits_def
      sort_edits_for_application_def sort_by_def)

text \<open>
  What the preflight and the application agree on for one operation: it is ignored, or carrying it out (\<open>r\<close>)
  succeeds and leaves the disk the preflight had in view.
\<close>

definition carried_out ::
  "workspace_env \<Rightarrow> disk \<Rightarrow> path set \<Rightarrow> path set \<Rightarrow> preflight \<Rightarrow> nat \<Rightarrow> preflight \<Rightarrow> applied
     \<Rightarrow> ((applied \<times> workspace_error) + applied) \<Rightarrow> bool" where
  "carried_out env d0 P A st i st' ap r \<longleftrightarrow>
     (\<forall>j. j \<noteq> i \<longrightarrow> map_of (pf_text st') j = map_of (pf_text st) j) \<and>
     (pf_ignored st' = pf_ignored st @ [i] \<and> tracks env d0 P A st' (ap_disk ap) \<or>
      pf_ignored st' = pf_ignored st \<and> (\<exists>ap'. r = Inr ap' \<and> tracks env d0 P A st' (ap_disk ap')))"

lemma ignored_step:
  assumes "tracks env d0 P A st (ap_disk ap)" "tables_ok env d0 P A st1" "grows st st1" "\<And>x. view env d0 st1 x = view env d0 st x"
  shows "carried_out env d0 P A st i (ignore_op i st1) ap r"
  using tracks_same [OF assms(1,2)] assms(3,4) growsD(3,4) [OF assms(3)] assms(1)
  by (auto simp: carried_out_def ignore_op_def tracks_def)

lemma lift_edit_Inr [simp]: "lift_edit r = Inr x \<longleftrightarrow> r = Inr x"
  by (cases r) (simp_all add: lift_edit_def)

lemma preflight_text_parts:
  assumes "preflight_text env base d0 opt i uri edits version origins st = Inr st'"
  obtains a st1 content st2 es st3 updated where
    "state_for env d0 (uri_to_path (we_host env) (we_url env) uri) st = Inr (a, st1)"
    "content_for env d0 (uri_to_path (we_host env) (we_url env) uri) a st1 = Inr (content, st2)"
    "fold_throwing (add_origin content (ao_enc opt)) (st2\<lparr>pf_text := AList.update i es (pf_text st2)\<rparr>)
        (case origins of None \<Rightarrow> [] | Some os \<Rightarrow> os) = Inr st3"
    "apply_text_edits content es Utf16 = Inr updated"
    "st' = put_state a ((pf_files st3 ! a)\<lparr>vf_content := Some updated\<rparr>) st3"
proof -
  obtain p a st1 where p: "confine_uri env base uri = Inr p" and f: "state_for env d0 p st = Inr (a, st1)"
    and r: "(if is_stale env opt p version then Inl (Stale_Version p)
       else
         and_then (content_for env d0 p a st1) (\<lambda>(content, st2).
         and_then (lift_edit (normalize_text_edits content edits (ao_enc opt))) (\<lambda>normalized.
         and_then (fold_throwing (add_origin content (ao_enc opt))
             (st2\<lparr>pf_text := AList.update i normalized (pf_text st2)\<rparr>) (case origins of None \<Rightarrow> [] | Some os \<Rightarrow> os)) (\<lambda>st3.
         and_then (lift_edit (apply_text_edits content normalized Utf16)) (\<lambda>updated.
           Inr (put_state a ((pf_files st3 ! a)\<lparr>vf_content := Some updated\<rparr>) st3)))))) = Inr st'"
    using assms unfolding preflight_text_def and_then_Inr by auto
  then obtain content st2 where c: "content_for env d0 p a st1 = Inr (content, st2)"
    and r2: "and_then (lift_edit (normalize_text_edits content edits (ao_enc opt))) (\<lambda>normalized.
         and_then (fold_throwing (add_origin content (ao_enc opt))
             (st2\<lparr>pf_text := AList.update i normalized (pf_text st2)\<rparr>) (case origins of None \<Rightarrow> [] | Some os \<Rightarrow> os)) (\<lambda>st3.
         and_then (lift_edit (apply_text_edits content normalized Utf16)) (\<lambda>updated.
           Inr (put_state a ((pf_files st3 ! a)\<lparr>vf_content := Some updated\<rparr>) st3)))) = Inr st'"
    by (auto simp: and_then_Inr [of "content_for env d0 p a st1"] split: if_splits)
  show thesis
    using r2 that f c unfolding confined [OF p] and_then_Inr lift_edit_Inr by blast
qed

lemma text_step:
  assumes o: "ordinary_paths env d0 P A" and tr: "tracks env d0 P A st (ap_disk ap)"
    and u: "disk_path env uri = uri_to_path (we_host env) (we_url env) uri" "uri_to_path (we_host env) (we_url env) uri \<in> P"
    and pre: "preflight_text env base d0 opt i uri edits version origins st = Inr st'"
  shows "carried_out env d0 P A st i st' ap
      (apply_text env (case map_of (pf_text st') i of Some es \<Rightarrow> es | None \<Rightarrow> []) uri ap)"
proof -
  let ?p = "uri_to_path (we_host env) (we_url env) uri" and ?d = "ap_disk ap"
  obtain a st1 content st2 es st3 updated where
    f: "state_for env d0 ?p st = Inr (a, st1)"
    and c: "content_for env d0 ?p a st1 = Inr (content, st2)"
    and st3: "fold_throwing (add_origin content (ao_enc opt)) (st2\<lparr>pf_text := AList.update i es (pf_text st2)\<rparr>)
        (case origins of None \<Rightarrow> [] | Some os \<Rightarrow> os) = Inr st3"
    and up: "apply_text_edits content es Utf16 = Inr updated"
    and st': "st' = put_state a ((pf_files st3 ! a)\<lparr>vf_content := Some updated\<rparr>) st3"
    by (rule preflight_text_parts [OF pre])
  obtain m where m: "st3 = st2\<lparr>pf_text := AList.update i es (pf_text st2), pf_origins := m\<rparr>"
    using origins_only [OF st3] by auto
  note l = lookup_file [OF o tracksD(1) [OF tr] u(2) f]
  have t1: "tables_ok env d0 P A st1" and g: "grows st st1" and v1: "\<And>x. view env d0 st1 x = view env d0 st x"
    using l(1) by blast+
  have "vf_exists (pf_files st1 ! a)" using c by (auto simp: content_for_def Let_def split: if_splits)
  then have sl: "slot env st1 ?p = Some a" using l(5) by blast
  note r = read_content [OF o t1 u(2) sl c]
  have t3: "tables_ok env d0 P A st3" using r(2) by (simp add: m)
  have sl3: "slot env st3 ?p = Some a" using r(3) by (simp add: m)
  let ?f = "(pf_files st3 ! a)\<lparr>vf_content := Some updated\<rparr>"
  have vc: "view env d0 st3 ?p = Some content" using r(1) r(4) [OF u(2)] by (simp add: m)
  have f3: "vf_exists ?f" "\<not> vf_directory ?f" using r(5) by (simp_all add: m)
  have nt: "\<not> is_tombstoned (we_host env) st3 ?p" using tablesD(10) [OF t3 u(2)] vc by auto
  have rec: "st' = record_state (we_host env) ?p a (put_state a ?f st3)"
    unfolding st' using record_slot [OF o t3 u(2) sl3] by simp
  note s = set_file [OF o t3 u(2) disjI1 [OF sl3] _ _ _ rec]
  have ok': "tables_ok env d0 P A st'" and vp: "view env d0 st' ?p = Some updated"
    and vx: "\<And>x. x \<in> P \<Longrightarrow> x \<noteq> ?p \<Longrightarrow> view env d0 st' x = view env d0 st x"
    using s f3 nt r(4) v1 by (simp_all add: m)
  have tx: "pf_text st' = AList.update i es (pf_text st)" "pf_ignored st' = pf_ignored st"
    using s(7,8) f3 nt r(6) growsD(3,4) [OF g] by (simp_all add: m)
  have now: "map_of ?d ?p = Some (Regular_File content)"
    using tracksD(2) [OF tr u(2)] r(1) v1 by simp
  have dir: "map_of ?d (posix_dirname ?p) = Some Directory" using tracksD(5) [OF tr u(2)] now by simp
  have eP: "entry_at env x ?p = map_of x ?p" "we_entry env ?p = ?p" "entry_at env x (posix_dirname ?p) = map_of x (posix_dirname ?p)" for x
    using ordinary_entry [OF o] ordinaryD(2,3) [OF o] u(2) own_parent by blast+
  have "\<exists>ap'. apply_text env es uri ap = Inr ap' \<and> tracks env d0 P A st' (ap_disk ap')"
  proof (cases "es = []")
    case True
    then have "updated = content" using up by (simp add: no_edits)
    then have "view env d0 st' x = view env d0 st x" if "x \<in> P" for x
      using vx [OF that] vp r(1) v1 by (cases "x = ?p") auto
    then have "tracks env d0 P A st' ?d" by (rule tracks_same [OF tr ok'])
    then show ?thesis using True by (simp add: apply_text_def skip_operation_def)
  next
    case False
    have w: "write_file env ?d ?p updated = Inr (put_file env ?d ?p updated)"
      using dir now by (simp add: write_file_def eP)
    have "tracks env d0 P A st' (put_file env ?d ?p updated)"
      by (rule tracks_change [OF o tr u(2) ok' vp vx dir]) (simp_all add: put_file_def eP update_conv')
    moreover have "read_file env ?d ?p = Inr content" using now by (simp add: read_file_def eP)
    ultimately show ?thesis using False w up u(1)
      by (simp add: apply_text_def Let_def attempt_def lift_edit_def mark_applied_def)
  qed
  then show ?thesis by (simp add: carried_out_def tx get_update)
qed

lemma new_tomb:
  assumes o: "ordinary_paths env d P A" and t: "tables_ok env d P A st" and p: "p \<in> P" and v: "view env d st p = None"
    and st': "st' = st\<lparr>pf_tombs := pf_tombs st @ [(p, False)]\<rparr>"
  shows "tables_ok env d P A st'" and "view env d st' = view env d st"
proof -
  have r: "resolve_virtual_path h st' = resolve_virtual_path h st" for h
    by (simp add: st' resolve_virtual_path_def fun_eq_iff)
  have parts: "pf_virtual st' = pf_virtual st" "pf_overrides st' = pf_overrides st" "pf_files st' = pf_files st"
    "pf_moves st' = pf_moves st" "used st' = used st" by (simp_all add: st' used_def)
  have sl: "slot env st' = slot env st" by (rule ext) (simp add: slot_def r parts split: option.splits)
  show vv: "view env d st' = view env d st"
    by (rule ext) (simp add: view_def sl r parts Let_def split: option.splits)
  have "is_tombstoned (we_host env) st' x \<longleftrightarrow> is_tombstoned (we_host env) st x \<or> x = p" if "x \<in> P" for x
    using ordinaryD(1) [OF o] that p by (auto simp: is_tombstoned_def st' paths_equal_def)
  then show "tables_ok env d P A st'"
    using t p v unfolding tables_ok_def virtual_ok_def override_ok_def by (auto simp: parts r vv) (auto simp: st')
qed

lemma delete_step:
  assumes o: "ordinary_paths env d0 P A" and tr: "tracks env d0 P A st (ap_disk ap)"
    and u: "disk_path env uri = uri_to_path (we_host env) (we_url env) uri" "uri_to_path (we_host env) (we_url env) uri \<in> P"
    and pre: "preflight_delete env base d0 i uri opts st = Inr st'"
  shows "carried_out env d0 P A st i st' ap (apply_delete env uri opts ap)"
proof -
  let ?p = "uri_to_path (we_host env) (we_url env) uri" and ?d = "ap_disk ap"
  obtain p a st1 where p: "confine_uri env base uri = Inr p" and f0: "state_for env d0 p st = Inr (a, st1)"
    and r: "(let f = pf_files st1 ! a
       in if \<not> vf_exists f then
            (if opt_flag ro_ignore_if_not_exists opts then Inr (ignore_op i st1) else Inl (Delete_Missing p))
          else if vf_directory f \<and> \<not> opt_flag ro_recursive opts then Inl (Not_Recursive p)
          else
            Inr ((put_state a (f\<lparr>vf_exists := False, vf_content := None\<rparr>) st1)
              \<lparr>pf_tombs := pf_tombs st1 @ [(p, vf_directory f)]\<rparr>)) = Inr st'"
    using pre unfolding preflight_delete_def and_then_Inr by auto
  have pp: "p = ?p" by (rule confined [OF p])
  have f: "state_for env d0 ?p st = Inr (a, st1)" using f0 pp by simp
  note l = lookup_file [OF o tracksD(1) [OF tr] u(2) f]
  have t1: "tables_ok env d0 P A st1" and g: "grows st st1" and v1: "\<And>x. view env d0 st1 x = view env d0 st x"
    using l(1) by blast+
  show ?thesis
  proof (cases "vf_exists (pf_files st1 ! a)")
    case False
    then have "st' = ignore_op i st1" using r by (simp split: if_splits)
    then show ?thesis using ignored_step [OF tr t1 g v1] by simp
  next
    case True
    let ?f = "(pf_files st1 ! a)\<lparr>vf_exists := False, vf_content := None\<rparr>"
    let ?s = "put_state a ?f st1"
    have sl: "slot env st1 ?p = Some a" using True l(5) by blast
    have st': "st' = ?s\<lparr>pf_tombs := pf_tombs ?s @ [(?p, False)]\<rparr>"
      using r True l(3) by (simp add: pp put_state_def)
    have rec: "?s = record_state (we_host env) ?p a (put_state a ?f st1)"
      using record_slot [OF o t1 u(2) sl] by simp
    note s = set_file [OF o t1 u(2) disjI1 [OF sl] _ _ _ rec]
    have ts: "tables_ok env d0 P A ?s" "view env d0 ?s ?p = None" using s(1,2) l(3) by simp_all
    note n = new_tomb [OF o ts(1) u(2) ts(2) st']
    have vx: "view env d0 st' x = view env d0 st x" if "x \<in> P" "x \<noteq> ?p" for x
      using s(3) [of x] l(3) that by (simp add: n(2) v1)
    obtain c where now: "map_of ?d ?p = Some (Regular_File c)"
      using True l(4) tracksD(2) [OF tr u(2)] by auto
    have eP: "entry_at env ?d ?p = map_of ?d ?p" "we_entry env ?p = ?p"
      using ordinary_entry [OF o] ordinaryD(2) [OF o] u(2) by blast+
    have rm: "remove_entry env ?d ?p b False = Inr (AList.delete ?p ?d)" for b
      using now by (simp add: remove_entry_def eP)
    have "tracks env d0 P A st' (AList.delete ?p ?d)"
      by (rule tracks_change [OF o tr u(2) n(1), where new = None]) (use ts(2) vx in \<open>simp_all add: n(2) delete_conv'\<close>)
    moreover have "pf_text st' = pf_text st" "pf_ignored st' = pf_ignored st"
      using growsD(3,4) [OF g] by (simp_all add: st' put_state_def)
    ultimately show ?thesis
      by (simp add: carried_out_def apply_delete_def Let_def u(1) rm attempt_def mark_applied_def)
  qed
qed

lemma create_step:
  assumes o: "ordinary_paths env d0 P A" and tr: "tracks env d0 P A st (ap_disk ap)"
    and u: "disk_path env uri = uri_to_path (we_host env) (we_url env) uri" "uri_to_path (we_host env) (we_url env) uri \<in> P"
    and pre: "preflight_create env base d0 i uri opts st = Inr st'"
  shows "carried_out env d0 P A st i st' ap (apply_create env uri opts ap)"
proof -
  let ?p = "uri_to_path (we_host env) (we_url env) uri" and ?d = "ap_disk ap" and ?h = "we_host env"
  obtain p a st1 st2 where p: "confine_uri env base uri = Inr p" and f0: "state_for env d0 p st = Inr (a, st1)"
    and par0: "assert_parent_is_usable env d0 p st1 = Inr st2"
    and r: "(let f = pf_files st2 ! a
       in if vf_exists f then
            (if opt_flag ro_ignore_if_exists opts then Inr (ignore_op i st2)
             else if \<not> opt_flag ro_overwrite opts \<or> vf_directory f then Inl (Create_Exists p)
             else Inr (put_state a (f\<lparr>vf_content := Some []\<rparr>) st2))
          else
            Inr (record_state (we_host env) p a
              (put_state a \<lparr>vf_exists = True, vf_directory = False, vf_content = Some []\<rparr>
                (clear_tombstones_under (we_host env) p st2)))) = Inr st'"
    using pre unfolding preflight_create_def and_then_Inr [of "confine_uri env base uri"]
      and_then_Inr [of "state_for env d0 _ st"] by (auto simp: and_then_Inr [of "assert_parent_is_usable _ _ _ _"])
  have pp: "p = ?p" by (rule confined [OF p])
  have f: "state_for env d0 ?p st = Inr (a, st1)" using f0 pp by simp
  note l = lookup_file [OF o tracksD(1) [OF tr] u(2) f]
  have t1: "tables_ok env d0 P A st1" and g1: "grows st st1" and v1: "\<And>x. view env d0 st1 x = view env d0 st x"
    using l(1) by blast+
  have sub: "set (parents_of ?p) \<subseteq> A" using ordinaryD(3) [OF o] u(2) by blast
  have par: "parent_usable env d0 ?p (parents_of ?p) st1 = Inr st2"
    using par0 by (simp add: assert_parent_is_usable_def pp)
  obtain ups c v where t2: "tables_ok env d0 P A st2" and g2: "grows st1 st2" and v2: "\<And>x. view env d0 st2 x = view env d0 st1 x"
    and found: "parents_of ?p = ups @ c # v" "map_of d0 c = Some Directory" "\<forall>x \<in> set ups. map_of d0 x = None"
    using usable_parent [OF o t1 sub par] by blast
  have g: "grows st st2" and vv: "\<And>x. view env d0 st2 x = view env d0 st x" using grows_trans [OF g1 g2] v1 v2 by simp_all
  have f2: "pf_files st2 ! a = pf_files st1 ! a" by (rule growsD(9) [OF g2 l(2)])
  have sl: "slot env st2 ?p = Some a \<or> (a \<notin> set (used st2) \<and> a < length (pf_files st2) \<and> \<not> vf_exists (pf_files st2 ! a))"
    using l(5) growsD(10,11) [OF g2] growsD(8) [OF g2] l(2) f2 by fastforce
  obtain d1 where mk: "make_directories env ?d (posix_dirname ?p) = Inr d1"
    and d1: "\<And>x. map_of d1 x = (if x \<in> set (parents_of ?p) then Some Directory else map_of ?d x)"
    and tr1: "tracks env d0 P A st d1"
    by (rule parents_made [OF o tr u(2) found]) (rule that)
  have dir: "map_of d1 (posix_dirname ?p) = Some Directory" using d1 own_parent by simp
  have eP: "entry_at env x ?p = map_of x ?p" "we_entry env ?p = ?p" "entry_at env x (posix_dirname ?p) = map_of x (posix_dirname ?p)" for x
    using ordinary_entry [OF o] ordinaryD(2,3) [OF o] u(2) own_parent by blast+
  have now: "map_of d1 ?p = map_option Regular_File (view env d0 st ?p)" by (rule tracksD(2) [OF tr1 u(2)])
  have w: "write_file env d1 ?p [] = Inr (put_file env d1 ?p [])"
    using dir now by (auto simp: write_file_def eP)
  have written: "tracks env d0 P A st' (put_file env d1 ?p [])"
    if "tables_ok env d0 P A st'" "view env d0 st' ?p = Some []" "\<And>x. x \<in> P \<Longrightarrow> x \<noteq> ?p \<Longrightarrow> view env d0 st' x = view env d0 st x"
    by (rule tracks_change [OF o tr1 u(2) that dir]) (simp_all add: put_file_def eP update_conv')
  show ?thesis
  proof (cases "vf_exists (pf_files st2 ! a)")
    case True
    then have sl2: "slot env st2 ?p = Some a" using sl by blast
    show ?thesis
    proof (cases "opt_flag ro_ignore_if_exists opts")
      case ig: True
      then have "st' = ignore_op i st2" using r True by simp
      then show ?thesis using ignored_step [OF tr t2 g vv] by simp
    next
      case False
      let ?f = "(pf_files st2 ! a)\<lparr>vf_content := Some []\<rparr>"
      have ow: "opt_flag ro_overwrite opts" "st' = put_state a ?f st2" "\<not> vf_directory (pf_files st2 ! a)"
        using r True False by (auto simp: Let_def split: if_splits)
      have rec: "st' = record_state ?h ?p a (put_state a ?f st2)" unfolding ow(2) using record_slot [OF o t2 u(2) sl2] by simp
      have nt: "\<not> is_tombstoned ?h st2 ?p" using True f2 l(4) v1 v2 tablesD(10) [OF t2 u(2)] by auto
      note s = set_file [OF o t2 u(2) disjI1 [OF sl2] _ _ _ rec]
      have "tracks env d0 P A st' (put_file env d1 ?p [])"
        by (rule written) (use s(1-3) True ow(3) nt vv in simp_all)
      moreover have "pf_text st' = pf_text st" "pf_ignored st' = pf_ignored st"
        using s(7,8) True ow(3) nt growsD(3,4) [OF g] by simp_all
      ultimately show ?thesis
        by (simp add: carried_out_def apply_create_def Let_def u(1) mk ow(1) w attempt_def mark_applied_def)
    qed
  next
    case False
    let ?f = "\<lparr>vf_exists = True, vf_directory = False, vf_content = Some []\<rparr>"
    define st3 where "st3 = clear_tombstones_under ?h ?p st2"
    note cl = cleared_tombs [OF o t2 u(2) st3_def]
    have rec: "st' = record_state ?h ?p a (put_state a ?f st3)" using r False by (simp add: pp st3_def)
    have sl3: "slot env st3 ?p = Some a \<or> (a \<notin> set (used st3) \<and> a < length (pf_files st3))"
      using sl by (auto simp: cl(4,5,6))
    note s = set_file [OF o cl(1) u(2) sl3 _ _ _ rec]
    have "tracks env d0 P A st' (put_file env d1 ?p [])"
      by (rule written) (use s(1-3) cl(3) vv in \<open>simp_all add: cl(2)\<close>)
    moreover have "pf_text st' = pf_text st" "pf_ignored st' = pf_ignored st"
      using s(7,8) cl(3,8) growsD(3,4) [OF g] by simp_all
    moreover have "map_of d1 ?p = None" using now False f2 l(4) by simp
    ultimately show ?thesis
      by (simp add: carried_out_def apply_create_def Let_def u(1) mk w attempt_def mark_applied_def write_new_file_def eP)
  qed
qed

text \<open>A move hands the slot of the old path to the new one.\<close>

lemma new_move:
  assumes o: "ordinary_paths env d P A" and t: "tables_ok env d P A st" and p: "old \<in> P" "new \<in> P" "old \<noteq> new"
    and phys: "resolve_virtual_path (we_host env) st old \<noteq> None" and free: "view env d st new = None"
    and nt: "\<not> is_tombstoned (we_host env) st new" "\<not> is_tombstoned (we_host env) st old"
    and st': "st' = st\<lparr>pf_moves := pf_moves st @ [\<lparr>vm_from = old, vm_to = new, vm_directory = False\<rparr>]\<rparr>"
  shows "tables_ok env d P A st'" and "view env d st' new = view env d st old" and "view env d st' old = None"
    and "x \<in> P \<Longrightarrow> x \<noteq> old \<Longrightarrow> x \<noteq> new \<Longrightarrow> view env d st' x = view env d st x"
proof -
  let ?h = "we_host env" and ?m = "\<lparr>vm_from = old, vm_to = new, vm_directory = False\<rparr>"
  have pm: "plain_moves P (?m # rev (pf_moves st))" using tablesD(2) [OF t] p by (simp add: plain_moves_def)
  have r: "resolve_virtual_path ?h st' x =
      (if x = new then resolve_virtual_path ?h st old else if x = old then None else resolve_virtual_path ?h st x)"
    if "x \<in> P" for x
    using resolve_back_Cons [OF o pm, of x] that by (simp add: resolve_virtual_path_def st')
  have parts: "pf_virtual st' = pf_virtual st" "pf_overrides st' = pf_overrides st" "pf_files st' = pf_files st"
    "pf_tombs st' = pf_tombs st" "used st' = used st" "is_tombstoned ?h st' = is_tombstoned ?h st"
    by (simp_all add: st' used_def is_tombstoned_def fun_eq_iff)
  have idle: "\<not> vf_exists (pf_files st ! a)" if "map_of (pf_overrides st) old = Some a" for a
    using tablesD(9) [OF t that] phys by (simp add: override_ok_def)
  show vn: "view env d st' new = view env d st old"
    using r [OF p(2)] phys by (auto simp: view_def slot_def parts Let_def split: option.splits)
  show vo: "view env d st' old = None"
    using r [OF p(1)] p(3) idle by (auto simp: view_def slot_def parts Let_def held_def split: option.splits)
  show vx: "x \<in> P \<Longrightarrow> x \<noteq> old \<Longrightarrow> x \<noteq> new \<Longrightarrow> view env d st' x = view env d st x" for x
    using r [of x] by (auto simp: view_def slot_def parts Let_def split: option.splits)
  have over: "override_ok env P st' x a" if "map_of (pf_overrides st) x = Some a" for x a
  proof -
    have ok: "override_ok env P st x a" by (rule tablesD(9) [OF t that])
    then have xP: "x \<in> P" by (simp add: override_ok_def)
    have "\<not> vf_exists (pf_files st ! a)" if "x = new"
    proof (cases "resolve_virtual_path ?h st new")
      case None
      then have "view env d st new = held d None (pf_files st ! a)"
        using that \<open>map_of (pf_overrides st) x = Some a\<close> by (simp add: view_def slot_def)
      then show ?thesis using free ok by (auto simp: held_def override_ok_def split: if_splits)
    next
      case (Some q)
      then show ?thesis using ok that by (simp add: override_ok_def)
    qed
    then show ?thesis using ok r [OF xP] idle that by (auto simp: override_ok_def parts)
  qed
  have "virtual_ok d P A st' q a" if "map_of (pf_virtual st) q = Some a" for q a
    using tablesD(8) [OF t that] by (simp add: virtual_ok_def parts)
  moreover have "view env d st' x = None" if "x \<in> P" "is_tombstoned ?h st x" for x
    using that nt vx [of x] tablesD(10) [OF t that] by (cases "x = old \<or> x = new") auto
  moreover have "plain_moves P (pf_moves st')" using pm by (auto simp: plain_moves_def st')
  ultimately show "tables_ok env d P A st'"
    using t over unfolding tables_ok_def by (simp add: parts)
qed

text \<open>A state without a physical address is taken out of its table and recorded again.\<close>

lemma dropped_override:
  assumes o: "ordinary_paths env d P A" and t: "tables_ok env d P A st" and p: "old \<in> P"
    and virt: "resolve_virtual_path (we_host env) st old = None" and sl: "slot env st old = Some a"
    and st': "st' = st\<lparr>pf_overrides := AList.delete old (pf_overrides st)\<rparr>"
  shows "tables_ok env d P A st'" and "a \<notin> set (used st')" and "view env d st' old = None"
    and "x \<in> P \<Longrightarrow> x \<noteq> old \<Longrightarrow> view env d st' x = view env d st x"
proof -
  let ?h = "we_host env"
  have parts: "pf_virtual st' = pf_virtual st" "pf_files st' = pf_files st" "pf_moves st' = pf_moves st" "pf_tombs st' = pf_tombs st"
    by (simp_all add: st')
  have r: "resolve_virtual_path h st' = resolve_virtual_path h st" "is_tombstoned h st' = is_tombstoned h st" for h
    by (simp_all add: parts resolve_virtual_path_def is_tombstoned_def fun_eq_iff)
  have get: "map_of (pf_overrides st') x = (if x = old then None else map_of (pf_overrides st) x)" for x
    by (simp add: st' get_delete)
  have sub: "set (pf_overrides st') = {y \<in> set (pf_overrides st). fst y \<noteq> old}"
    by (auto simp: st' AList.delete_eq)
  show vo: "view env d st' old = None" using virt get [of old] by (simp add: view_def slot_def r)
  show vx: "x \<in> P \<Longrightarrow> x \<noteq> old \<Longrightarrow> view env d st' x = view env d st x" for x
    using get [of x] by (auto simp: view_def slot_def r parts Let_def split: option.splits)
  have at: "(old, a) \<in> set (pf_overrides st)" using sl virt by (simp add: slot_def map_of_SomeD)
  have dis: "distinct (map snd (pf_virtual st))" "distinct (map snd (pf_overrides st))"
    "set (map snd (pf_virtual st)) \<inter> set (map snd (pf_overrides st)) = {}"
    using tablesD(6) [OF t] by (auto simp: used_def)
  have inj: "inj_on snd (set (pf_overrides st))" using dis(2) by (simp add: distinct_map)
  have "a \<notin> snd ` set (pf_overrides st')" using inj_onD [OF inj, of "(old, a)"] at unfolding sub by auto
  moreover have "a \<notin> snd ` set (pf_virtual st)" using at dis(3) by force
  ultimately show "a \<notin> set (used st')" by (auto simp: used_def parts)
  have "distinct (map snd (pf_overrides st'))"
    using dis(2) by (simp add: st' AList.delete_eq distinct_map_filter)
  then have "distinct (used st')" "set (used st') \<subseteq> set (used st)"
    using dis sub by (auto simp: used_def parts)
  moreover have "virtual_ok d P A st' q b" if "map_of (pf_virtual st) q = Some b" for q b
    using tablesD(8) [OF t that] by (simp add: virtual_ok_def parts)
  moreover have "override_ok env P st' x b" if "map_of (pf_overrides st') x = Some b" for x b
    using tablesD(9) [OF t, of x b] that get [of x] by (auto simp: override_ok_def parts r split: if_splits)
  moreover have "view env d st' x = None" if "x \<in> P" "is_tombstoned ?h st x" for x
    using that vo vx [of x] tablesD(10) [OF t that] by (cases "x = old") auto
  moreover have "wf_map (pf_overrides st')" using tablesD(5) [OF t] by (simp add: st')
  ultimately show "tables_ok env d P A st'"
    using t tablesD(7) [OF t] unfolding tables_ok_def by (simp add: parts r) blast
qed

text \<open>What finishing a rename makes of the tables.\<close>

lemma finished_rename:
  assumes o: "ordinary_paths env d P A" and t: "tables_ok env d P A st" and p: "old \<in> P" "new \<in> P" "old \<noteq> new"
    and sl: "slot env st old = Some a" and plain: "\<not> vf_directory (pf_files st ! a)"
    and free: "view env d st new = None"
    and fin: "finish_rename env d old new a (resolve_virtual_path (we_host env) st old = None) st = Inr st'"
  obtains c where "view env d st old = Some c" and "tables_ok env d P A st'" and "view env d st' new = Some c"
    and "view env d st' old = None" and "\<And>x. x \<in> P \<Longrightarrow> x \<noteq> old \<Longrightarrow> x \<noteq> new \<Longrightarrow> view env d st' x = view env d st x"
    and "pf_text st' = pf_text st" and "pf_ignored st' = pf_ignored st"
proof -
  let ?h = "we_host env"
  define st1 where "st1 = clear_tombstones_under ?h new st"
  note cl = cleared_tombs [OF o t p(2) st1_def]
  have "\<not> vf_directory (pf_files st1 ! a)" using plain by (simp add: cl(6))
  then obtain c st2 where c: "content_for env d old a st1 = Inr (c, st2)"
    and rest: "st' = (if resolve_virtual_path ?h st old = None
      then record_state ?h new a (st2\<lparr>pf_overrides := AList.delete (normalize_file_path ?h old) (pf_overrides st2)\<rparr>)
      else st2\<lparr>pf_moves := pf_moves st2 @ [\<lparr>vm_from = old, vm_to = new, vm_directory = vf_directory (pf_files st2 ! a)\<rparr>]\<rparr>)"
    using fin unfolding finish_rename_def Let_def st1_def [symmetric] by (auto simp: and_then_Inr split: if_splits)
  have sl1: "slot env st1 old = Some a" using sl by (simp add: cl(4))
  note r = read_content [OF o cl(1) p(1) sl1 c]
  have v: "view env d st old = Some c" using r(1) by (simp add: cl(2))
  have v2: "view env d st2 x = view env d st x" if "x \<in> P" for x using r(4) [OF that] by (simp add: cl(2))
  have same: "resolve_virtual_path ?h st2 = resolve_virtual_path ?h st" "is_tombstoned ?h st2 = is_tombstoned ?h st1"
    using r(6) cl(7) by (simp_all add: resolve_virtual_path_def is_tombstoned_def fun_eq_iff)
  have nt: "\<not> is_tombstoned ?h st2 new" using cl(3) by (simp add: same)
  have nto: "\<not> is_tombstoned ?h st2 old" using tablesD(10) [OF r(2) p(1)] v2 [OF p(1)] v by auto
  have rec: "pf_text st2 = pf_text st" "pf_ignored st2 = pf_ignored st" using r(6) cl(8) by simp_all
  show thesis
  proof (cases "resolve_virtual_path ?h st old = None")
    case True
    define st3 where "st3 = st2\<lparr>pf_overrides := AList.delete old (pf_overrides st2)\<rparr>"
    have virt: "resolve_virtual_path ?h st2 old = None" using True by (simp add: same)
    note dr = dropped_override [OF o r(2) p(1) virt r(3) st3_def]
    let ?f = "pf_files st3 ! a"
    have f: "vf_exists ?f" "\<not> vf_directory ?f" "vf_content ?f = Some c" using r(5) by (simp_all add: st3_def)
    have len: "a < length (pf_files st3)" using tablesD(7) [OF r(2) slot_used [OF r(3)]] by (simp add: st3_def)
    have st': "st' = record_state ?h new a (put_state a ?f st3)"
      using rest True ordinaryD(1) [OF o] p(1) by (simp add: st3_def put_state_def)
    have ntn: "\<not> is_tombstoned ?h st3 new" using nt by (simp add: st3_def is_tombstoned_def)
    note s = set_file [OF o dr(1) p(2) disjI2 [OF conjI [OF dr(2) len]] _ _ _ st']
    show thesis
    proof (rule that [OF v])
      show "tables_ok env d P A st'" "view env d st' new = Some c" using s(1,2) f ntn by simp_all
      show "view env d st' old = None" using s(3) [of old] f ntn p dr(3) by simp
      show "view env d st' x = view env d st x" if "x \<in> P" "x \<noteq> old" "x \<noteq> new" for x
        using s(3) [of x] f ntn that dr(4) [of x] v2 [of x] by simp
      show "pf_text st' = pf_text st" "pf_ignored st' = pf_ignored st" using s(7,8) f ntn rec by (simp_all add: st3_def)
    qed
  next
    case False
    have st': "st' = st2\<lparr>pf_moves := pf_moves st2 @ [\<lparr>vm_from = old, vm_to = new, vm_directory = False\<rparr>]\<rparr>"
      using rest False r(5) by simp
    have phys: "resolve_virtual_path ?h st2 old \<noteq> None" using False by (simp add: same)
    have fr: "view env d st2 new = None" using free v2 [OF p(2)] by simp
    note m = new_move [OF o r(2) p phys fr nt nto st']
    show thesis
      by (rule that [OF v m(1) _ m(3)]) (use m(2,4) v2 p v rec in \<open>simp_all add: st'\<close>)
  qed
qed

lemma rename_step:
  assumes o: "ordinary_paths env d0 P A" and tr: "tracks env d0 P A st (ap_disk ap)"
    and u: "disk_path env old_uri = uri_to_path (we_host env) (we_url env) old_uri"
      "uri_to_path (we_host env) (we_url env) old_uri \<in> P"
    and u': "disk_path env new_uri = uri_to_path (we_host env) (we_url env) new_uri"
      "uri_to_path (we_host env) (we_url env) new_uri \<in> P"
    and keep: "\<not> opt_flag ro_overwrite opts"
    and pre: "preflight_rename env base d0 i old_uri new_uri opts st = Inr st'"
  shows "carried_out env d0 P A st i st' ap (apply_rename env old_uri new_uri opts ap)"
proof -
  let ?h = "we_host env" and ?d = "ap_disk ap"
  let ?old = "uri_to_path ?h (we_url env) old_uri" and ?new = "uri_to_path ?h (we_url env) new_uri"
  obtain old new where on: "confine_uri env base old_uri = Inr old" "confine_uri env base new_uri = Inr new"
    using pre unfolding preflight_rename_def by (auto simp: and_then_Inr)
  have on': "old = ?old" "new = ?new" using confined on by blast+
  have ne: "disk_place env old_uri \<noteq> disk_place env new_uri" using pre on by (auto simp: preflight_rename_def)
  then have diff: "?old \<noteq> ?new" using u(1) u'(1) by (auto simp: disk_place_def)
  obtain a st1 where f1: "state_for env d0 ?old st = Inr (a, st1)" and ex: "vf_exists (pf_files st1 ! a)"
    and pre1: "and_then (assert_parent_is_usable env d0 ?new st1) (\<lambda>st2.
                and_then (state_for env d0 ?new st2) (\<lambda>(b, st3).
                and_then
                  (if \<not> vf_exists (pf_files st3 ! b) \<or> b = a then Inr True
                   else is_same_fs_entry env d0 (disk_path env old_uri) (disk_path env new_uri)) (\<lambda>free.
                  if free \<or> (\<not> opt_flag ro_ignore_if_exists opts \<and> opt_flag ro_overwrite opts)
                  then finish_rename env d0 ?old ?new a (resolve_virtual_path ?h st1 ?old = None) st3
                  else if opt_flag ro_ignore_if_exists opts then Inr (ignore_op i st3)
                  else Inl (Rename_Exists ?new)))) = Inr st'"
    using pre on ne unfolding on' preflight_rename_def and_then_Inr [of "state_for env d0 _ st"]
    by (auto simp: Let_def and_then_Inr [of "state_for env d0 _ st"] split: if_splits)
  obtain st2 b st3 free where par0: "assert_parent_is_usable env d0 ?new st1 = Inr st2"
    and f3: "state_for env d0 ?new st2 = Inr (b, st3)"
    and fr: "(if \<not> vf_exists (pf_files st3 ! b) \<or> b = a then Inr True
       else is_same_fs_entry env d0 (disk_path env old_uri) (disk_path env new_uri)) = Inr free"
    and fin: "(if free \<or> (\<not> opt_flag ro_ignore_if_exists opts \<and> opt_flag ro_overwrite opts)
       then finish_rename env d0 ?old ?new a (resolve_virtual_path ?h st1 ?old = None) st3
       else if opt_flag ro_ignore_if_exists opts then Inr (ignore_op i st3)
       else Inl (Rename_Exists ?new)) = Inr st'"
    using pre1 by (auto simp: and_then_Inr [of "assert_parent_is_usable _ _ _ _"] and_then_Inr [of "state_for _ _ _ _"]
        and_then_Inr [of "If _ _ _"])
  note l1 = lookup_file [OF o tracksD(1) [OF tr] u(2) f1]
  have t1: "tables_ok env d0 P A st1" and g1: "grows st st1" and v1: "\<And>x. view env d0 st1 x = view env d0 st x"
    using l1(1) by blast+
  have sl1: "slot env st1 ?old = Some a" using ex l1(5) by blast
  have sub: "set (parents_of ?new) \<subseteq> A" using ordinaryD(3) [OF o] u'(2) by blast
  have par: "parent_usable env d0 ?new (parents_of ?new) st1 = Inr st2"
    using par0 by (simp add: assert_parent_is_usable_def)
  obtain ups c v where t2: "tables_ok env d0 P A st2" and g2: "grows st1 st2" and v2: "\<And>x. view env d0 st2 x = view env d0 st1 x"
    and found: "parents_of ?new = ups @ c # v" "map_of d0 c = Some Directory" "\<forall>x \<in> set ups. map_of d0 x = None"
    using usable_parent [OF o t1 sub par] by blast
  note l3 = lookup_file [OF o t2 u'(2) f3]
  have t3: "tables_ok env d0 P A st3" and g3: "grows st2 st3" and v3: "\<And>x. view env d0 st3 x = view env d0 st2 x"
    using l3(1) by blast+
  have g13: "grows st1 st3" by (rule grows_trans [OF g2 g3])
  have g: "grows st st3" by (rule grows_trans [OF g1 g13])
  have vv: "view env d0 st3 x = view env d0 st x" for x by (simp add: v1 v2 v3)
  have sl3: "slot env st3 ?old = Some a" by (rule growsD(10) [OF g13 sl1])
  have fa: "pf_files st3 ! a = pf_files st1 ! a" by (rule growsD(9) [OF g13 l1(2)])
  have eP: "entry_at env x ?old = map_of x ?old" "we_entry env ?old = ?old" "entry_at env x ?new = map_of x ?new"
    "we_entry env ?new = ?new" "entry_at env x (posix_dirname ?new) = map_of x (posix_dirname ?new)" for x
    using ordinary_entry [OF o] ordinaryD(2,3) [OF o] u(2) u'(2) own_parent by blast+
  show ?thesis
  proof (cases "vf_exists (pf_files st3 ! b)")
    case True
    then have "slot env st3 ?new = Some b" using l3(5) by blast
    then have "b \<noteq> a" using slot_inj [OF o t3 u(2) u'(2) sl3] diff by blast
    then have "is_same_fs_entry env d0 ?old ?new = Inr free" using fr True u(1) u'(1) by simp
    then have "\<not> free" using ordinaryD(7) [OF o u(2) u'(2) diff] by (auto simp: is_same_fs_entry_def and_then_Inr eP)
    then have "st' = ignore_op i st3" using fin keep by (simp split: if_splits)
    then show ?thesis using ignored_step [OF tr t3 g vv] by simp
  next
    case False
    then have free and "view env d0 st3 ?new = None" using fr l3(4) v3 by simp_all
    then have fin': "finish_rename env d0 ?old ?new a (resolve_virtual_path ?h st3 ?old = None) st3 = Inr st'"
      using fin growsD(6) [OF g13] by simp
    have nd: "\<not> vf_directory (pf_files st3 ! a)" using l1(3) fa by simp
    obtain k where k: "view env d0 st3 ?old = Some k" and t': "tables_ok env d0 P A st'"
      and vn: "view env d0 st' ?new = Some k" and vo: "view env d0 st' ?old = None"
      and vx: "\<And>x. x \<in> P \<Longrightarrow> x \<noteq> ?old \<Longrightarrow> x \<noteq> ?new \<Longrightarrow> view env d0 st' x = view env d0 st3 x"
      and rest: "pf_text st' = pf_text st3" "pf_ignored st' = pf_ignored st3"
      by (rule finished_rename [OF o t3 u(2) u'(2) diff sl3 nd \<open>view env d0 st3 ?new = None\<close> fin']) (rule that)
    obtain d1 where mk: "make_directories env ?d (posix_dirname ?new) = Inr d1"
      and d1: "\<And>x. map_of d1 x = (if x \<in> set (parents_of ?new) then Some Directory else map_of ?d x)"
      and tr1: "tracks env d0 P A st d1"
      by (rule parents_made [OF o tr u'(2) found]) (rule that)
    let ?d2 = "AList.update ?new (Regular_File k) (AList.delete ?old d1)"
    have now: "map_of d1 ?old = Some (Regular_File k)" "map_of d1 ?new = None"
      using tracksD(2) [OF tr1] u(2) u'(2) k \<open>view env d0 st3 ?new = None\<close> vv by simp_all
    have dir: "map_of d1 (posix_dirname ?new) = Some Directory" using d1 own_parent by simp
    have mv: "rename_entry env d1 ?old ?new = Inr ?d2" using now dir diff by (simp add: rename_entry_def eP Let_def)
    have m: "map_of ?d2 x = (if x = ?new then Some (Regular_File k) else if x = ?old then None else map_of d1 x)" for x
      by (simp add: get_update get_delete)
    have up: "posix_dirname x \<in> A" if "x \<in> P" for x using own_parent ordinaryD(3) [OF o] that by blast
    have off: "map_of ?d2 x = map_of d1 x" if "x \<in> A" for x
      using m [of x] that ordinaryD(4) [OF o u(2)] ordinaryD(4) [OF o u'(2)] by auto
    have "map_of ?d2 (posix_dirname x) = Some Directory" if "x \<in> P" "map_of ?d2 x \<noteq> None" for x
      using tracksD(5) [OF tr1 that(1)] dir off [OF up [OF that(1)]] m [of x] that(2) by (cases "x = ?new") (auto split: if_splits)
    moreover have "map_of ?d2 x = map_option Regular_File (view env d0 st' x)" if "x \<in> P" for x
      using m [of x] vn vo vx [OF that] vv tracksD(2) [OF tr1 that] by (cases "x = ?new \<or> x = ?old") auto
    moreover have "map_of ?d2 x = map_of d1 x" if "x \<notin> P" for x using m [of x] that u(2) u'(2) by auto
    ultimately have "tracks env d0 P A st' ?d2"
      using tr1 t' off unfolding tracks_def by simp
    moreover have "pf_text st' = pf_text st" "pf_ignored st' = pf_ignored st"
      using rest growsD(3,4) [OF g] by simp_all
    ultimately show ?thesis
      by (simp add: carried_out_def apply_rename_def Let_def u(1) u'(1) mk keep mv attempt_def mark_applied_def)
  qed
qed

subsection \<open>A whole edit\<close>

definition op_uris :: "workspace_op \<Rightarrow> string list" where
  "op_uris op =
     (case op of Text_Op uri _ _ _ \<Rightarrow> [uri] | Create_Op uri _ \<Rightarrow> [uri] | Rename_Op old new _ \<Rightarrow> [old, new] | Delete_Op uri _ \<Rightarrow> [uri])"

definition renames_over :: "workspace_op \<Rightarrow> bool" where
  "renames_over op \<longleftrightarrow> (case op of Rename_Op _ _ opts \<Rightarrow> opt_flag ro_overwrite opts | _ \<Rightarrow> False)"

definition edit_places :: "workspace_env \<Rightarrow> workspace_op list \<Rightarrow> path list" where
  "edit_places env planned = map (uri_to_path (we_host env) (we_url env)) (concat (map op_uris planned))"

definition places_above :: "workspace_env \<Rightarrow> workspace_op list \<Rightarrow> path list" where
  "places_above env planned = concat (map parents_of (edit_places env planned))"

text \<open>
  An ordinary edit: its paths are spelled in normal form on a volume that tells spellings apart, none lies above
  another, none is a directory, none is taken over by a rename, and the entries of the disk lie in directories.
\<close>

definition ordinary_edit :: "workspace_env \<Rightarrow> disk \<Rightarrow> workspace_op list \<Rightarrow> bool" where
  "ordinary_edit env d planned \<longleftrightarrow>
     (let ps = edit_places env planned; up = places_above env planned
      in list_all (\<lambda>p. normalize_file_path (we_host env) p = p \<and> we_entry env p = p) (ps @ up) \<and>
         list_all (\<lambda>u. disk_path env u = uri_to_path (we_host env) (we_url env) u) (concat (map op_uris planned)) \<and>
         list_all (\<lambda>p. p \<notin> set up) ps \<and>
         list_all (\<lambda>p. case map_of d p of None \<Rightarrow> True | Some (Regular_File _) \<Rightarrow> True | Some _ \<Rightarrow> False) ps \<and>
         list_all (\<lambda>p. map_of d p = None \<or> list_all (\<lambda>a. map_of d a = Some Directory) (parents_of p)) (ps @ up) \<and>
         list_all (\<lambda>p. list_all (\<lambda>q. p = q \<or> \<not> is_same_fs_identity (we_ids env p) (we_ids env q)) ps) ps \<and>
         list_all (\<lambda>op. \<not> renames_over op) planned)"

lemma parents_up:
  assumes "a \<in> set (parents_of p)"
  shows "set (parents_of a) \<subseteq> set (parents_of p)"
proof -
  obtain u v where uv: "parents_of p = u @ a # v" using assms by (auto simp: in_set_conv_decomp)
  then have a: "ancestors_of a = a # v" using ancestors_suffix by (simp add: parents_of_def)
  have "set (parents_of a) \<subseteq> set (ancestors_of a)"
    by (cases "posix_dirname a = a") (auto simp: parents_of_def ancestors_of.simps [of a])
  then show ?thesis using a uv by auto
qed

lemma ordinary_edit_paths:
  assumes "ordinary_edit env d planned"
  shows "ordinary_paths env d (set (edit_places env planned)) (set (places_above env planned))"
proof -
  let ?P = "set (edit_places env planned)" and ?A = "set (places_above env planned)"
  note e = assms [unfolded ordinary_edit_def Let_def list_all_iff set_append]
  note tail = e [THEN conjunct2, THEN conjunct2]
  have "\<forall>p \<in> ?P \<union> ?A. normalize_file_path (we_host env) p = p \<and> we_entry env p = p" by (rule e [THEN conjunct1])
  moreover have "?P \<inter> ?A = {}" using tail [THEN conjunct1] by blast
  moreover have "set (parents_of p) \<subseteq> ?A" if "p \<in> ?P \<union> ?A" for p
    using that parents_up by (auto simp: places_above_def)
  moreover have "\<exists>c. k = Regular_File c" if "p \<in> ?P" "map_of d p = Some k" for p k
    using bspec [OF tail [THEN conjunct2, THEN conjunct1] that(1)] that(2) by (cases k) simp_all
  moreover have "map_of d a = Some Directory" if "p \<in> ?P \<union> ?A" "map_of d p \<noteq> None" "a \<in> set (parents_of p)" for p a
    using bspec [OF tail [THEN conjunct2, THEN conjunct2, THEN conjunct1] that(1)] that(2,3) by auto
  moreover have "\<not> is_same_fs_identity (we_ids env p) (we_ids env q)" if "p \<in> ?P" "q \<in> ?P" "p \<noteq> q" for p q
    using tail [THEN conjunct2, THEN conjunct2, THEN conjunct2, THEN conjunct1] that by blast
  ultimately show ?thesis unfolding ordinary_paths_def by (intro conjI ballI allI impI) blast+
qed

lemma op_step:
  assumes o: "ordinary_paths env d0 P A" and tr: "tracks env d0 P A st (ap_disk ap)"
    and u: "\<And>u. u \<in> set (op_uris op) \<Longrightarrow> disk_path env u = uri_to_path (we_host env) (we_url env) u \<and>
      uri_to_path (we_host env) (we_url env) u \<in> P"
    and keep: "\<not> renames_over op" and pre: "preflight_op env base d0 opt st (i, op) = Inr st'"
  shows "carried_out env d0 P A st i st' ap
     (case op of
        Text_Op uri _ _ _ \<Rightarrow> apply_text env (case map_of (pf_text st') i of Some es \<Rightarrow> es | None \<Rightarrow> []) uri ap
      | Create_Op uri opts \<Rightarrow> apply_create env uri opts ap
      | Rename_Op old new opts \<Rightarrow> apply_rename env old new opts ap
      | Delete_Op uri opts \<Rightarrow> apply_delete env uri opts ap)"
proof (cases op)
  case (Text_Op uri es version origins)
  then show ?thesis using text_step [OF o tr] u pre by (simp add: preflight_op_def op_uris_def)
next
  case (Create_Op uri opts)
  then show ?thesis using create_step [OF o tr] u pre by (simp add: preflight_op_def op_uris_def)
next
  case (Rename_Op old new opts)
  then show ?thesis using rename_step [OF o tr] u keep pre by (simp add: preflight_op_def op_uris_def renames_over_def)
next
  case (Delete_Op uri opts)
  then show ?thesis using delete_step [OF o tr] u pre by (simp add: preflight_op_def op_uris_def)
qed

text \<open>All of them: what an operation leaves in the preflight is still there at the end.\<close>

lemma all_steps:
  assumes o: "ordinary_paths env d0 P A"
    and u: "\<And>i op u. (i, op) \<in> set entries \<Longrightarrow> u \<in> set (op_uris op) \<Longrightarrow>
      disk_path env u = uri_to_path (we_host env) (we_url env) u \<and> uri_to_path (we_host env) (we_url env) u \<in> P"
    and keep: "\<And>i op. (i, op) \<in> set entries \<Longrightarrow> \<not> renames_over op"
    and "distinct (map fst entries)" "set (map fst entries) \<inter> set (pf_ignored st) = {}"
    and "tracks env d0 P A st (ap_disk ap)" "fold_throwing (preflight_op env base d0 opt) st entries = Inr checked"
  shows "(\<forall>j. j \<notin> set (map fst entries) \<longrightarrow>
      map_of (pf_text checked) j = map_of (pf_text st) j \<and> (j \<in> set (pf_ignored checked) \<longleftrightarrow> j \<in> set (pf_ignored st))) \<and>
    (\<exists>ap'. fold_throwing (apply_op env checked) ap entries = Inr ap' \<and> tracks env d0 P A checked (ap_disk ap'))"
  using assms(2-)
proof (induction entries arbitrary: st ap)
  case (Cons e entries)
  obtain i op where e: "e = (i, op)" by force
  obtain st1 where s1: "preflight_op env base d0 opt st (i, op) = Inr st1"
    and rest: "fold_throwing (preflight_op env base d0 opt) st1 entries = Inr checked"
    using Cons.prems(6) by (auto simp: and_then_Inr e)
  let ?r = "case op of
        Text_Op uri _ _ _ \<Rightarrow> apply_text env (case map_of (pf_text st1) i of Some es \<Rightarrow> es | None \<Rightarrow> []) uri ap
      | Create_Op uri opts \<Rightarrow> apply_create env uri opts ap
      | Rename_Op old new opts \<Rightarrow> apply_rename env old new opts ap
      | Delete_Op uri opts \<Rightarrow> apply_delete env uri opts ap"
  have c: "carried_out env d0 P A st i st1 ap ?r"
  proof (rule op_step [OF o Cons.prems(5) _ _ s1])
    show "disk_path env u = uri_to_path (we_host env) (we_url env) u \<and> uri_to_path (we_host env) (we_url env) u \<in> P"
      if "u \<in> set (op_uris op)" for u using Cons.prems(1) [of i op u] that by (simp add: e)
    show "\<not> renames_over op" using Cons.prems(2) [of i op] by (simp add: e)
  qed
  have fresh: "i \<notin> set (pf_ignored st)" "i \<notin> set (map fst entries)" using Cons.prems(3,4) e by auto
  obtain ap1 where ap1: "tracks env d0 P A st1 (ap_disk ap1)"
    "(i \<in> set (pf_ignored st1) \<and> (\<exists>n. ap1 = skip_operation (operation_size (pf_text st1) (i, op)) ap)) \<or> (i \<notin> set (pf_ignored st1) \<and> ?r = Inr ap1)"
  proof (cases "pf_ignored st1 = pf_ignored st @ [i]")
    case True
    then have "tracks env d0 P A st1 (ap_disk ap)" using c by (auto simp: carried_out_def)
    then show thesis using that [of "skip_operation (operation_size (pf_text st1) (i, op)) ap"] True
      by (simp add: skip_operation_def)
  next
    case False
    then show thesis using c that fresh(1) by (auto simp: carried_out_def)
  qed
  have ig: "set (pf_ignored st1) \<subseteq> insert i (set (pf_ignored st))" "set (pf_ignored st) \<subseteq> set (pf_ignored st1)"
    and tx: "\<forall>j. j \<noteq> i \<longrightarrow> map_of (pf_text st1) j = map_of (pf_text st) j"
    using c by (auto simp: carried_out_def)
  have ih: "(\<forall>j. j \<notin> set (map fst entries) \<longrightarrow>
      map_of (pf_text checked) j = map_of (pf_text st1) j \<and> (j \<in> set (pf_ignored checked) \<longleftrightarrow> j \<in> set (pf_ignored st1))) \<and>
    (\<exists>ap'. fold_throwing (apply_op env checked) ap1 entries = Inr ap' \<and> tracks env d0 P A checked (ap_disk ap'))"
  proof (rule Cons.IH [OF _ _ _ _ ap1(1) rest])
    show "disk_path env u = uri_to_path (we_host env) (we_url env) u \<and> uri_to_path (we_host env) (we_url env) u \<in> P"
      if "(k, op') \<in> set entries" "u \<in> set (op_uris op')" for k op' u
      using Cons.prems(1) [of k op' u] that by simp
    show "\<not> renames_over op'" if "(k, op') \<in> set entries" for k op'
      using Cons.prems(2) [of k op'] that by simp
    show "distinct (map fst entries)" using Cons.prems(3) by simp
    show "set (map fst entries) \<inter> set (pf_ignored st1) = {}"
      using Cons.prems(4) ig(1) fresh(2) by auto
  qed
  have here: "map_of (pf_text checked) i = map_of (pf_text st1) i"
    "i \<in> set (pf_ignored checked) \<longleftrightarrow> i \<in> set (pf_ignored st1)"
    using ih fresh(2) by blast+
  have "apply_op env checked ap (i, op) = Inr ap1"
    using ap1(2) here by (auto simp: apply_op_def operation_size_def split: workspace_op.splits)
  moreover have "map_of (pf_text checked) j = map_of (pf_text st) j \<and> (j \<in> set (pf_ignored checked) \<longleftrightarrow> j \<in> set (pf_ignored st))"
    if "j \<notin> set (map fst (e # entries))" for j
    using that ih tx ig e by auto
  ultimately show ?case using ih by (auto simp: e)
qed simp

lemma start_tracks:
  assumes o: "ordinary_paths env d P A"
  shows "tracks env d P A empty_preflight d"
proof -
  have r: "resolve_virtual_path h empty_preflight p = Some p" for h p by (simp add: resolve_virtual_path_def empty_preflight_def)
  have v: "view env d empty_preflight p = file_on d p" for p
    by (simp add: view_def slot_def r) (simp add: empty_preflight_def)
  have "tables_ok env d P A empty_preflight"
    by (simp add: tables_ok_def plain_moves_def used_def is_tombstoned_def empty_preflight_def)
  moreover have "map_of d p = map_option Regular_File (file_on d p)" if "p \<in> P" for p
    using ordinaryD(5) [OF o that] by (cases "map_of d p") (auto simp: file_on_def)
  moreover have "map_of d (posix_dirname p) = Some Directory" if "p \<in> P" "map_of d p \<noteq> None" for p
    using ordinaryD(6) [OF o] that own_parent by blast
  ultimately show ?thesis by (simp add: tracks_def v)
qed

text \<open>What the preflight says a file holds, asked once more at the end.\<close>

definition predicted_file :: "workspace_env \<Rightarrow> disk \<Rightarrow> preflight \<Rightarrow> path \<Rightarrow> string option" where
  "predicted_file env d st p =
     (case state_for env d p st of
        Inl _ \<Rightarrow> None
      | Inr (a, st') \<Rightarrow>
          if vf_exists (pf_files st' ! a)
          then (case content_for env d p a st' of Inl _ \<Rightarrow> None | Inr (c, _) \<Rightarrow> Some c) else None)"

lemma predicted_view:
  assumes o: "ordinary_paths env d P A" and t: "tables_ok env d P A st" and p: "p \<in> P"
  shows "predicted_file env d st p = view env d st p"
proof (cases "state_for env d p st")
  case (Inl x)
  then have nt: "\<not> is_tombstoned (we_host env) st p" by (auto simp: state_for_def Let_def)
  obtain q where q: "resolve_virtual_path (we_host env) st p = Some q"
    using Inl nt by (auto simp: state_for_def Let_def split: option.splits)
  have qP: "q \<in> P" using resolve_back_in [OF o tablesD(2) [OF t] p] q by (simp add: resolve_virtual_path_def)
  have n: "normalize_file_path (we_host env) q = q" using ordinaryD(1) [OF o] qP by blast
  have none: "map_of (pf_virtual st) q = None" and bad: "lstat_or_missing env d q = Inl x"
    using Inl nt q n by (auto simp: state_for_def Let_def and_then_def split: option.splits sum.splits prod.splits)
  obtain a where a: "a \<in> set (parents_of q)" "blocks_path (entry_at env d a)"
    using bad by (auto simp: lstat_or_missing_def list_ex_iff split: if_splits)
  moreover have "a \<in> A" using ordinaryD(3) [OF o disjI1 [OF qP]] a(1) by blast
  ultimately have "map_of d a \<noteq> Some Directory"
    using ordinary_entry [OF o, of a d] by (auto simp: blocks_path_def)
  then have "map_of d q = None" using ordinaryD(6) [OF o disjI1 [OF qP] _ a(1)] by blast
  then show ?thesis using Inl q none by (simp add: predicted_file_def view_def slot_def file_on_def)
next
  case (Inr x)
  obtain a st' where x: "x = (a, st')" by force
  have f: "state_for env d p st = Inr (a, st')" using Inr x by simp
  note l = lookup_file [OF o t p f]
  show ?thesis
  proof (cases "vf_exists (pf_files st' ! a)")
    case False
    then show ?thesis using f l(4) by (simp add: predicted_file_def)
  next
    case True
    then have sl: "slot env st' p = Some a" using l(5) by blast
    obtain c where c: "view env d st p = Some c" using l(4) True by blast
    then have "view env d st' p = Some c" using l(1) by simp
    then have h: "held d (resolve_virtual_path (we_host env) st' p) (pf_files st' ! a) = Some c"
      using sl by (simp add: view_def)
    obtain st'' where "content_for env d p a st' = Inr (c, st'')"
    proof (cases "vf_content (pf_files st' ! a)")
      case (Some k)
      then show thesis using h True l(3) that by (simp add: held_def content_for_def)
    next
      case None
      then obtain q where q: "resolve_virtual_path (we_host env) st' p = Some q" "file_on d q = Some c"
        using h True by (auto simp: held_def split: option.splits)
      have "q \<in> P" using resolve_back_in [OF o tablesD(2) [OF conjunct1 [OF l(1)]] p] q(1) by (simp add: resolve_virtual_path_def)
      then have "read_file env d q = Inr c"
        using q(2) ordinary_entry [OF o, of q d] by (auto simp: read_file_def file_on_def split: option.splits entry_kind.splits)
      then show thesis using None True l(3) q(1) that by (simp add: content_for_def)
    qed
    then show ?thesis using f True c by (simp add: predicted_file_def)
  qed
qed

text \<open>C11 (refinement). The preflight is enough: an ordinary workspace edit it accepts is applied to the end. Every file
  the edit names then holds what the preflight computed for it, or is gone where it computed that; above these
  files nothing changes but missing directories that were made; nothing else on the disk changes.\<close>

theorem accepted_edit_is_applied:
  assumes planned: "plan_workspace_edit (we_host env) (we_url env) edit False = Inr planned"
    and checked: "preflight_workspace_edit env cwd d opt planned = Inr checked"
    and ordinary: "ordinary_edit env d planned"
  shows "\<exists>asked r. apply_workspace_edit env cwd d opt edit = Finished asked r \<and>
    (\<forall>p. p \<in> set (edit_places env planned) \<longrightarrow> map_of (ap_disk r) p = map_option Regular_File (predicted_file env d checked p)) \<and>
    (\<forall>p. p \<notin> set (edit_places env planned) \<longrightarrow>
       map_of (ap_disk r) p = map_of d p \<or>
       (p \<in> set (places_above env planned) \<and> map_of d p = None \<and> map_of (ap_disk r) p = Some Directory))"
proof -
  let ?P = "set (edit_places env planned)" and ?A = "set (places_above env planned)" and ?es = "enumerate_from_0 planned"
  have o: "ordinary_paths env d ?P ?A" by (rule ordinary_edit_paths [OF ordinary])
  obtain base where fold: "fold_throwing (preflight_op env base d opt) empty_preflight ?es = Inr checked"
    using checked by (auto simp: preflight_workspace_edit_def and_then_Inr)
  have mem: "op \<in> set planned" if "(i, op) \<in> set ?es" for i op
    using that by (auto simp: enumerate_from_0_def dest: set_zip_rightD)
  have "disk_path env u = uri_to_path (we_host env) (we_url env) u \<and> uri_to_path (we_host env) (we_url env) u \<in> ?P"
    if "(i, op) \<in> set ?es" "u \<in> set (op_uris op)" for i op u
    using mem [OF that(1)] that(2) ordinary by (auto simp: ordinary_edit_def Let_def list_all_iff edit_places_def)
  moreover have "\<not> renames_over op" if "(i, op) \<in> set ?es" for i op
    using mem [OF that] ordinary by (auto simp: ordinary_edit_def Let_def list_all_iff)
  moreover have "distinct (map fst ?es)" "set (map fst ?es) \<inter> set (pf_ignored empty_preflight) = {}"
    by (simp_all add: enumerate_from_0_def empty_preflight_def)
  moreover have "tracks env d ?P ?A empty_preflight (ap_disk (start_applied d))"
    using start_tracks [OF o] by (simp add: start_applied_def)
  ultimately obtain r where r: "fold_throwing (apply_op env checked) (start_applied d) ?es = Inr r"
    and tr: "tracks env d ?P ?A checked (ap_disk r)"
    using all_steps [OF o, of ?es empty_preflight "start_applied d", OF _ _ _ _ _ fold] by metis
  have "apply_workspace_edit env cwd d opt edit =
      Finished (sum_list (map (operation_size (pf_text checked)) ?es)) r"
    using planned checked r by (simp add: apply_workspace_edit_def Let_def)
  moreover have "map_of (ap_disk r) p = map_option Regular_File (predicted_file env d checked p)" if "p \<in> ?P" for p
    using tracksD(2) [OF tr that] predicted_view [OF o tracksD(1) [OF tr] that] by simp
  moreover have "map_of (ap_disk r) p = map_of d p \<or> (p \<in> ?A \<and> map_of d p = None \<and> map_of (ap_disk r) p = Some Directory)"
    if "p \<notin> ?P" for p
    using tracksD(3,4) [OF tr, of p] that by (cases "p \<in> ?A") auto
  ultimately show ?thesis by blast
qed

end
