(* ===== verification/Workspace_Apply_Runs.thy ===== *)
theory Workspace_Apply_Runs
  imports Workspace_Apply_Meaning Workspace_Plan_Order
begin

text \<open>
  Workspace edits carried out: one the theorem covers, and edits beyond its conditions that the preflight accepts
  and the application cannot finish.
\<close>

subsection \<open>A machine and some edits\<close>

definition sample_env :: workspace_env where
  "sample_env = \<lparr>we_host = sample_host, we_url = sample_file_url, we_local = (\<lambda>u. starts_with u ''file:///''),
     we_real = (\<lambda>p. if p = ''/'' then Real p else No_Entry), we_entry = id, we_ids = (\<lambda>p. (1, Suc (length p)))\<rparr>"

definition resource_change :: "string \<Rightarrow> (string \<times> string) list \<Rightarrow> string list \<Rightarrow> json" where
  "resource_change kind uris options =
     JObj ((''kind'', JStr kind) # map (\<lambda>(k, p). (k, JStr (''file://'' @ p))) uris @
       [(''options'', JObj (map (\<lambda>k. (k, JBool True)) options))])"

definition renaming :: "path \<Rightarrow> path \<Rightarrow> string list \<Rightarrow> json" where
  "renaming old new options = resource_change ''rename'' [(''oldUri'', old), (''newUri'', new)] options"

definition creating :: "path \<Rightarrow> json" where
  "creating p = resource_change ''create'' [(''uri'', p)] []"

definition deleting :: "path \<Rightarrow> json" where
  "deleting p = resource_change ''delete'' [(''uri'', p)] [''recursive'']"

definition typing :: "path \<Rightarrow> string \<Rightarrow> json" where
  "typing p t = sample_document (''file://'' @ p) (sample_insert 0 0 t)"

definition edit_with :: "json list \<Rightarrow> json" where
  "edit_with changes = JObj [(''documentChanges'', JArr changes)]"

definition no_options :: apply_options where
  "no_options = \<lparr>ao_encoding = None, ao_versions = []\<rparr>"

definition sample_disk :: disk where
  "sample_disk = [(''/'', Directory), (''/w'', Directory), (''/w/d'', Directory), (''/w/d/x'', Regular_File ''x''),
     (''/w/d/s'', Directory), (''/w/d/s/y'', Regular_File ''y''), (''/w/b'', Regular_File ''b'')]"

definition moving_edit :: json where
  "moving_edit = edit_with [renaming ''/w/b'' ''/w/n/c'' [], creating ''/w/b'', typing ''/w/n/c'' ''A'']"

definition no_flags :: "resource_options option" where
  "no_flags = Some \<lparr>ro_overwrite = False, ro_ignore_if_exists = False, ro_ignore_if_not_exists = False, ro_recursive = False\<rparr>"

definition typed :: "text_edit list" where
  "typed = [\<lparr>te_start = (0, 0), te_end = (0, 0), te_text = ''A''\<rparr>]"

definition moving_plan :: "workspace_op list" where
  "moving_plan = [Rename_Op ''file:///w/b'' ''file:///w/n/c'' no_flags, Create_Op ''file:///w/b'' no_flags,
     Text_Op ''file:///w/n/c'' typed Null_Version None]"

definition moving_check :: preflight where
  "moving_check =
     \<lparr>pf_files = [\<lparr>vf_exists = True, vf_directory = False, vf_content = Some ''Ab''\<rparr>, no_file,
        \<lparr>vf_exists = True, vf_directory = True, vf_content = None\<rparr>, no_file,
        \<lparr>vf_exists = True, vf_directory = False, vf_content = Some []\<rparr>],
      pf_virtual = [(''/w/b'', 0), (''/w/n'', 1), (''/w'', 2), (''/w/n/c'', 3)], pf_overrides = [(''/w/b'', 4)],
      pf_moves = [\<lparr>vm_from = ''/w/b'', vm_to = ''/w/n/c'', vm_directory = False\<rparr>], pf_tombs = [],
      pf_text = [(2, typed)], pf_origins = [], pf_ignored = []\<rparr>"

lemma moving_plan_found: "plan_workspace_edit sample_host sample_file_url moving_edit False = Inr moving_plan"
  by code_simp

lemma moving_accepted: "preflight_workspace_edit sample_env ''/w'' sample_disk no_options moving_plan = Inr moving_check"
  by code_simp

lemma moving_is_ordinary: "ordinary_edit sample_env sample_disk moving_plan"
  by code_simp

lemma moving_predictions:
  "edit_places sample_env moving_plan = [''/w/b'', ''/w/n/c'', ''/w/b'', ''/w/n/c'']"
  "predicted_file sample_env sample_disk moving_check ''/w/n/c'' = Some ''Ab''"
  "predicted_file sample_env sample_disk moving_check ''/w/b'' = Some []"
  by code_simp+

theorem accepted_edit_is_applied_witness:
  "\<exists>asked r. apply_workspace_edit sample_env ''/w'' sample_disk no_options moving_edit = Finished asked r \<and>
     map_of (ap_disk r) ''/w/n/c'' = Some (Regular_File ''Ab'') \<and> map_of (ap_disk r) ''/w/b'' = Some (Regular_File [])"
proof -
  have env: "we_host sample_env = sample_host" "we_url sample_env = sample_file_url" by (simp_all add: sample_env_def)
  show ?thesis
    using accepted_edit_is_applied [of sample_env moving_edit, unfolded env, OF moving_plan_found moving_accepted moving_is_ordinary]
      moving_predictions by fastforce
qed

subsection \<open>Accepted and not carried out\<close>

definition stopped_with :: "apply_outcome \<Rightarrow> (disk \<Rightarrow> bool) \<Rightarrow> bool" where
  "stopped_with outcome Q \<longleftrightarrow> (case outcome of Stopped _ st _ \<Rightarrow> Q (ap_disk st) | _ \<Rightarrow> False)"

text \<open>A rename that may overwrite removes what stands at its destination first, its own source included.\<close>

lemma overwriting_rename_removes_its_source:
  "stopped_with (apply_workspace_edit sample_env ''/w'' sample_disk no_options
      (edit_with [renaming ''/w/d/x'' ''/w/d'' [''overwrite'']]))
    (\<lambda>d. map_of d ''/w/d/x'' = None \<and> map_of d ''/w/d'' = None)"
  by code_simp

text \<open>So does one that only changes the case of a name, on a volume that ignores case.\<close>

definition folding_env :: workspace_env where
  "folding_env = sample_env\<lparr>we_host := sample_host\<lparr>realpath := (\<lambda>p. if to_lower_case p = ''/w/foo'' then Some ''/w/foo'' else None)\<rparr>,
     we_entry := to_lower_case\<rparr>"

lemma overwriting_case_rename_removes_the_file:
  "stopped_with (apply_workspace_edit folding_env ''/w'' [(''/'', Directory), (''/w'', Directory), (''/w/foo'', Regular_File ''x'')] no_options
      (edit_with [renaming ''/w/foo'' ''/w/Foo'' [''overwrite'']]))
    (\<lambda>d. map_of d ''/w/foo'' = None)"
  by code_simp

text \<open>A directory deleted under a directory that moves afterwards is found again under the new name.\<close>

lemma deleted_child_is_forgotten:
  "stopped_with (apply_workspace_edit sample_env ''/w'' sample_disk no_options
      (edit_with [deleting ''/w/d/s'', renaming ''/w/d'' ''/w/e'' [], typing ''/w/e/s/y'' ''A'']))
    (\<lambda>d. map_of d ''/w/e/x'' = Some (Regular_File ''x'') \<and> map_of d ''/w/d'' = None)"
  by code_simp

text \<open>The directories a creation makes are not recorded.\<close>

lemma made_directory_is_forgotten:
  "stopped_with (apply_workspace_edit sample_env ''/w'' sample_disk no_options
      (edit_with [creating ''/w/n/x'', creating ''/w/n'']))
    (\<lambda>d. map_of d ''/w/n/x'' = Some (Regular_File []))"
  by code_simp

text \<open>A directory may be asked to move below itself.\<close>

lemma directory_into_itself:
  "stopped_with (apply_workspace_edit sample_env ''/w'' sample_disk no_options
      (edit_with [creating ''/w/q'', renaming ''/w/d'' ''/w/d/e'' []]))
    (\<lambda>d. map_of d ''/w/q'' = Some (Regular_File []))"
  by code_simp

text \<open>A created file that a rename writes over comes back once the renamed one moves on.\<close>

lemma overwritten_creation_comes_back:
  "stopped_with (apply_workspace_edit sample_env ''/w'' sample_disk no_options
      (edit_with [renaming ''/w/b'' ''/w/c'' [], creating ''/w/b'', renaming ''/w/d/x'' ''/w/b'' [''overwrite''],
        renaming ''/w/b'' ''/w/z'' [], typing ''/w/b'' ''A'']))
    (\<lambda>d. map_of d ''/w/z'' = Some (Regular_File ''x'') \<and> map_of d ''/w/b'' = None)"
  by code_simp

end
