(* ===== verification/Indent_Detect.thy ===== *)
theory Indent_Detect
  imports Edit_Preflight_Text
begin

text \<open>
  \<^verbatim>\<open>clients/dispatch/indent-detect.ts\<close>: which lines of a file carry structure, and which indentation the
  file uses.  Two passes decide which lines are the inside of something: one for block comments, one for
  template literals, the second a small lexer with a stack of frames.  The array of frames the source
  pushes to and pops from is a list with the top frame first.

  Offsets and line numbers are the source's; a regular expression is the test it makes.
\<close>

subsection \<open>Block comments\<close>

definition OPENER :: string where "OPENER = ''/*''"
definition CLOSER :: string where "CLOSER = ''*/''"
definition LINE_COMMENT :: string where "LINE_COMMENT = ''//''"

definition opens_block_comment :: "string \<Rightarrow> bool" where
  "opens_block_comment line =
     (case text_index line OPENER of
        None \<Rightarrow> False
      | Some b \<Rightarrow>
          (case text_index line LINE_COMMENT of Some l \<Rightarrow> \<not> l < b | None \<Rightarrow> True) \<and>
          index_from line CLOSER (b + 2) = None)"

definition closes_comment :: "string \<Rightarrow> bool" where
  "closes_comment line = contains_text line CLOSER"

text \<open>The loop over the lines: \<open>start\<close> is \<^verbatim>\<open>pendingStart\<close>, with \<open>None\<close> for -1.\<close>

fun comment_lines :: "nat \<Rightarrow> nat option \<Rightarrow> bool list \<Rightarrow> string list \<Rightarrow> nat option \<times> bool list" where
  "comment_lines i start flags [] = (start, flags)"
| "comment_lines i start flags (l # ls) =
     (if start \<noteq> None
      then comment_lines (Suc i) (if closes_comment l then None else start) (flags[i := True]) ls
      else comment_lines (Suc i) (if opens_block_comment l then Some i else None) flags ls)"

text \<open>\<^verbatim>\<open>for (let i = first; i < lines.length; i += 1) mask[i] = false\<close>\<close>

definition clear_behind :: "nat \<Rightarrow> bool list \<Rightarrow> bool list" where
  "clear_behind first flags = take first flags @ replicate (length flags - first) False"

definition block_comment_interior_mask :: "string list \<Rightarrow> bool list" where
  "block_comment_interior_mask lines =
     (case comment_lines 0 None (replicate (length lines) False) lines of
        (None, flags) \<Rightarrow> flags
      | (Some s, flags) \<Rightarrow> clear_behind (Suc s) flags)"

subsection \<open>Template literals\<close>

datatype frame = Template | Expr int | Block

definition has_live_frame :: "frame list \<Rightarrow> bool" where
  "has_live_frame stack = list_ex (\<lambda>f. f \<noteq> Block) stack"

definition BACKTICK :: char where "BACKTICK = CHR 0x60"
definition QUOTE_MARKS :: "char list" where "QUOTE_MARKS = [CHR 0x22, CHR 0x27]"

text \<open>\<^verbatim>\<open>line.startsWith(w, j)\<close>\<close>

definition starts_at :: "string \<Rightarrow> string \<Rightarrow> nat \<Rightarrow> bool" where
  "starts_at line w j = (take (length w) (drop j line) = w)"

function skip_quoted :: "string \<Rightarrow> char \<Rightarrow> nat \<Rightarrow> nat" where
  "skip_quoted line q j =
     (if length line \<le> j then length line
      else if line ! j = BSLASH then skip_quoted line q (j + 2)
      else if line ! j = q then j + 1
      else skip_quoted line q (j + 1))"
  by pat_completeness auto
termination by (relation "measure (\<lambda>(line, q, j). length line - j)") auto

definition regex_opener_punctuation :: "char list" where
  "regex_opener_punctuation = ''(,=:[!&|?''"

definition is_identifier_char :: "char \<Rightarrow> bool" where
  "is_identifier_char c \<longleftrightarrow> (let n = of_char c :: nat in
     (65 \<le> n \<and> n \<le> 90) \<or> (97 \<le> n \<and> n \<le> 122) \<or> (48 \<le> n \<and> n \<le> 57) \<or> n = 95 \<or> n = 36)"

text \<open>\<^verbatim>\<open>/(?:^|[^A-Za-z0-9_$])(?:return|typeof|case)$/\<close>\<close>

definition ends_in_keyword :: "string \<Rightarrow> bool" where
  "ends_in_keyword s = list_ex (\<lambda>w. length w \<le> length s \<and> drop (length s - length w) s = w \<and>
     (length s = length w \<or> \<not> is_identifier_char (s ! (length s - length w - 1)))) [''return'', ''typeof'', ''case'']"

definition is_blank_char :: "char \<Rightarrow> bool" where
  "is_blank_char c \<longleftrightarrow> c = TAB \<or> c = CHR 0x20"

definition is_regex_opener_position :: "string \<Rightarrow> nat \<Rightarrow> bool" where
  "is_regex_opener_position line j =
     (let ahead = rev (dropWhile is_blank_char (rev (take j line)))
      in ahead = [] \<or> ends_in_keyword ahead \<or> last ahead \<in> set regex_opener_punctuation)"

definition regex_flag_chars :: "char list" where
  "regex_flag_chars = ''dgimsuvy''"

text \<open>What follows the slash that would close a regular expression: flags, then no identifier character.\<close>

definition closes_regex :: "string \<Rightarrow> nat \<Rightarrow> bool" where
  "closes_regex line j =
     (case dropWhile (\<lambda>c. c \<in> set regex_flag_chars) (drop (j + 1) line) of
        [] \<Rightarrow> True
      | c # _ \<Rightarrow> \<not> is_identifier_char c)"

function skip_regex_literal :: "string \<Rightarrow> bool \<Rightarrow> nat \<Rightarrow> nat option" where
  "skip_regex_literal line in_class j =
     (if length line \<le> j then None
      else if line ! j = BSLASH then skip_regex_literal line in_class (j + 2)
      else if in_class then skip_regex_literal line (line ! j \<noteq> CHR '']'') (j + 1)
      else if line ! j = CHR ''['' then skip_regex_literal line True (j + 1)
      else if line ! j = CHR ''/'' then (if closes_regex line j then Some (j + 1) else None)
      else skip_regex_literal line False (j + 1))"
  by pat_completeness auto
termination by (relation "measure (\<lambda>(line, in_class, j). length line - j)") auto

declare skip_quoted.simps [simp del] skip_regex_literal.simps [simp del]

lemma skip_quoted_advances: "j \<le> length line \<Longrightarrow> j \<le> skip_quoted line q j"
proof (induction line q j rule: skip_quoted.induct)
  case (1 line q j)
  show ?case
  proof (cases "j + 2 \<le> length line")
    case True
    then show ?thesis using 1 by (auto simp: skip_quoted.simps [of line q j])
  next
    case False
    then show ?thesis using 1 by (auto simp: skip_quoted.simps [of line q j] skip_quoted.simps [of line q "Suc (Suc j)"])
  qed
qed

lemma skip_regex_advances: "skip_regex_literal line k j = Some r \<Longrightarrow> j < r"
proof (induction line k j rule: skip_regex_literal.induct)
  case (1 line k j)
  have "j + 2 < r \<or> j + 1 < r \<or> j + 1 = r"
    using 1 unfolding skip_regex_literal.simps [of line k j] by (simp split: if_splits; blast)
  then show ?case by auto
qed

text \<open>
  One turn of the loop over a line at offset \<open>j\<close>: the next offset and the stack, or \<open>None\<close> for the two
  early returns, which leave the stack as it is.
\<close>

definition template_text_turn :: "string \<Rightarrow> nat \<Rightarrow> frame list \<Rightarrow> nat \<times> frame list" where
  "template_text_turn line j stack =
     (if line ! j = BSLASH then (j + 2, stack)
      else if starts_at line ''${'' j then (j + 2, Expr 1 # stack)
      else if line ! j = BACKTICK then (j + 1, tl stack)
      else (j + 1, stack))"

definition brace_turn :: "char \<Rightarrow> frame list \<Rightarrow> frame list" where
  "brace_turn c stack =
     (case stack of
        Expr d # rest \<Rightarrow>
          if c = CHR ''{'' then Expr (d + 1) # rest
          else if c = CHR ''}'' then (if d - 1 = 0 then rest else Expr (d - 1) # rest)
          else stack
      | _ \<Rightarrow> stack)"

definition code_char_turn :: "string \<Rightarrow> nat \<Rightarrow> frame list \<Rightarrow> nat \<times> frame list" where
  "code_char_turn line j stack =
     (let c = line ! j
      in if c \<in> set QUOTE_MARKS then (skip_quoted line c (j + 1), stack)
         else if c = BACKTICK then (j + 1, Template # stack)
         else (j + 1, brace_turn c stack))"

definition regex_end :: "string \<Rightarrow> nat \<Rightarrow> nat option" where
  "regex_end line j =
     (if line ! j = CHR ''/'' \<and> is_regex_opener_position line j then skip_regex_literal line False (j + 1) else None)"

definition code_turn :: "string \<Rightarrow> nat \<Rightarrow> frame list \<Rightarrow> (nat \<times> frame list) option" where
  "code_turn line j stack =
     (if starts_at line LINE_COMMENT j then None
      else if starts_at line OPENER j then Some (j + 2, Block # stack)
      else case regex_end line j of
             Some k \<Rightarrow> Some (k, stack)
           | None \<Rightarrow> Some (code_char_turn line j stack))"

definition template_turn :: "string \<Rightarrow> nat \<Rightarrow> frame list \<Rightarrow> (nat \<times> frame list) option" where
  "template_turn line j stack =
     (case stack of
        Template # _ \<Rightarrow> Some (template_text_turn line j stack)
      | Block # rest \<Rightarrow> map_option (\<lambda>k. (k + 2, rest)) (index_from line CLOSER j)
      | _ \<Rightarrow> code_turn line j stack)"

lemma template_turn_advances:
  assumes "template_turn line j stack = Some (k, s)" "j < length line"
  shows "j < k"
proof -
  have "code_turn line j stack = Some (k, s) \<Longrightarrow> j < k"
    using assms(2) skip_quoted_advances [of "j + 1" line] skip_regex_advances [of line False "j + 1" k]
    by (auto simp: code_turn_def regex_end_def code_char_turn_def Let_def Suc_le_eq split: if_splits option.splits)
  then show ?thesis using assms index_from_ge [of line CLOSER j]
    by (auto simp: template_turn_def template_text_turn_def split: list.splits frame.splits if_splits)
qed

function advance_template_state :: "string \<Rightarrow> nat \<Rightarrow> frame list \<Rightarrow> frame list" where
  "advance_template_state line j stack =
     (if length line \<le> j then stack
      else case template_turn line j stack of
             None \<Rightarrow> stack
           | Some (k, s) \<Rightarrow> advance_template_state line k s)"
  by pat_completeness auto
termination
  by (relation "measure (\<lambda>(line, j, stack). length line - j)") (auto dest: template_turn_advances)

declare advance_template_state.simps [simp del]

fun template_lines :: "nat \<Rightarrow> nat \<Rightarrow> frame list \<Rightarrow> string list \<Rightarrow> nat \<times> frame list \<times> bool list" where
  "template_lines i open_line stack [] = (open_line, stack, [])"
| "template_lines i open_line stack (l # ls) =
     (let live = has_live_frame stack;
          (o', s', flags) = template_lines (Suc i) (if live then open_line else i) (advance_template_state l 0 stack) ls
      in (o', s', live # flags))"

definition template_literal_interior_mask :: "string list \<Rightarrow> bool list" where
  "template_literal_interior_mask lines =
     (case template_lines 0 0 [] lines of
        (open_line, stack, flags) \<Rightarrow> if has_live_frame stack then clear_behind (Suc open_line) flags else flags)"

subsection \<open>The indentation a file uses\<close>

datatype indent_style = Tab_Style | Space_Style

record indentation =
  in_style :: indent_style
  in_width :: nat

definition DEFAULT_INDENTATION :: indentation where
  "DEFAULT_INDENTATION = \<lparr>in_style = Space_Style, in_width = 2\<rparr>"

definition structural_lines :: "string list \<Rightarrow> string list" where
  "structural_lines lines =
     (let comment = block_comment_interior_mask lines; tmpl = template_literal_interior_mask lines
      in map snd (filter (\<lambda>(i, l). \<not> comment ! i \<and> \<not> tmpl ! i) (List.enumerate 0 lines)))"

text \<open>\<open>run_before_text c line\<close> is the length of the leading run of \<open>c\<close>, if text follows it.\<close>

definition run_before_text :: "char \<Rightarrow> string \<Rightarrow> nat option" where
  "run_before_text c line =
     (case dropWhile (\<lambda>x. x = c) line of
        [] \<Rightarrow> None
      | x # _ \<Rightarrow> if is_js_space x then None else Some (length (takeWhile (\<lambda>x. x = c) line)))"

definition is_indented_with :: "char \<Rightarrow> string \<Rightarrow> bool" where
  "is_indented_with c line = (case run_before_text c line of Some n \<Rightarrow> 0 < n | None \<Rightarrow> False)"

fun greatest_common_divisor :: "nat \<Rightarrow> nat \<Rightarrow> nat" where
  "greatest_common_divisor l r = (if r = 0 then l else greatest_common_divisor r (l mod r))"

declare greatest_common_divisor.simps [simp del]

text \<open>\<^verbatim>\<open>/^(?:\t+| {1,})\S/m\<close>: a line begins behind either line terminator.\<close>

definition has_detectable_indentation :: "string \<Rightarrow> bool" where
  "has_detectable_indentation content =
     list_ex (\<lambda>l. is_indented_with TAB l \<or> is_indented_with CHR 0x20 l)
       (concat (map (split_on CR) (split_on LF content)))"

definition space_counts :: "string list \<Rightarrow> nat list" where
  "space_counts lines = filter (\<lambda>n. 0 < n) (map (\<lambda>l. case run_before_text CHR 0x20 l of Some n \<Rightarrow> n | None \<Rightarrow> 0) lines)"

definition has_structural_boundary :: "nat \<Rightarrow> nat list \<Rightarrow> bool" where
  "has_structural_boundary minimum counts =
     list_ex (\<lambda>(previous, count). count = minimum \<and> previous < minimum) (zip counts (tl counts))"

definition detect_indentation :: "string \<Rightarrow> indentation option" where
  "detect_indentation content =
     (let lines = structural_lines (split_lines content);
          tabs = length (filter (is_indented_with TAB) lines);
          counts = space_counts lines
      in if tabs = 0 \<and> counts = []
         then if has_detectable_indentation content then None else Some DEFAULT_INDENTATION
         else if length counts < tabs then Some \<lparr>in_style = Tab_Style, in_width = 1\<rparr>
         else if tabs < length counts then
           let minimum = fold min (tl counts) (hd counts);
               divisor = foldl greatest_common_divisor 0 counts;
               non_blank = List.map_filter (run_before_text CHR 0x20) lines
           in if has_structural_boundary minimum non_blank \<and> minimum \<le> 8
              then Some \<lparr>in_style = Space_Style, in_width = minimum\<rparr>
              else if divisor < minimum \<and> divisor \<le> 8
              then Some \<lparr>in_style = Space_Style, in_width = divisor\<rparr>
              else None
         else Some DEFAULT_INDENTATION)"

subsection \<open>Lines inside a block comment\<close>

lemma clear_behind_nth:
  "j < length ms \<Longrightarrow> clear_behind k ms ! j \<longleftrightarrow> j < k \<and> ms ! j"
  by (auto simp: clear_behind_def nth_append min_def)

lemma length_clear_behind [simp]: "length (clear_behind k ms) = length ms"
  by (simp add: clear_behind_def min_def)

lemma comment_lines_length: "length (snd (comment_lines i start ms ls)) = length ms"
  by (induction i start ms ls rule: comment_lines.induct) auto

text \<open>\<open>closed_between\<close>: a line strictly between two others closes a comment.\<close>

definition closed_between :: "string list \<Rightarrow> nat \<Rightarrow> nat \<Rightarrow> bool" where
  "closed_between lines s e \<longleftrightarrow> (\<exists>k. s < k \<and> k < e \<and> closes_comment (lines ! k))"

definition comment_state :: "string list \<Rightarrow> nat \<Rightarrow> nat option \<Rightarrow> bool list \<Rightarrow> bool" where
  "comment_state lines i start ms \<longleftrightarrow>
     length ms = length lines \<and> i \<le> length lines \<and> (\<forall>j \<ge> i. j < length lines \<longrightarrow> \<not> ms ! j) \<and>
     (\<forall>j < i. ms ! j \<longleftrightarrow> (\<exists>s < j. \<not> ms ! s \<and> opens_block_comment (lines ! s) \<and> \<not> closed_between lines s j)) \<and>
     (\<forall>s < i. \<not> ms ! s \<and> opens_block_comment (lines ! s) \<and> start \<noteq> Some s \<longrightarrow> closed_between lines s i) \<and>
     (\<forall>s. start = Some s \<longrightarrow> s < i \<and> \<not> ms ! s \<and> opens_block_comment (lines ! s) \<and> \<not> closed_between lines s i)"

lemma closed_between_Suc:
  "closed_between lines s (Suc i) \<longleftrightarrow> closed_between lines s i \<or> (s < i \<and> closes_comment (lines ! i))"
  by (auto simp: closed_between_def less_Suc_eq)

lemma comment_state_step:
  assumes st: "comment_state lines i start ms" and i: "i < length lines"
  shows "if start \<noteq> None
    then comment_state lines (Suc i) (if closes_comment (lines ! i) then None else start) (ms[i := True])
    else comment_state lines (Suc i) (if opens_block_comment (lines ! i) then Some i else None) ms"
proof (cases start)
  case None
  then have idle: "\<forall>s < i. \<not> ms ! s \<and> opens_block_comment (lines ! s) \<longrightarrow> closed_between lines s i"
    using st by (simp add: comment_state_def)
  then show ?thesis using None st i
    unfolding comment_state_def closed_between_Suc less_Suc_eq by (auto simp: closed_between_def)
next
  case (Some s0)
  then have s0: "s0 < i" "\<not> ms ! s0" "opens_block_comment (lines ! s0)" "\<not> closed_between lines s0 i"
    using st by (auto simp: comment_state_def)
  have old: "\<And>j. j < i \<Longrightarrow> ms[i := True] ! j = ms ! j" by simp
  have new: "ms[i := True] ! i" using st i by (simp add: comment_state_def)
  have upto_now: "j < Suc i \<Longrightarrow> ms[i := True] ! j \<longleftrightarrow>
      (\<exists>s < j. \<not> ms[i := True] ! s \<and> opens_block_comment (lines ! s) \<and> \<not> closed_between lines s j)" for j
  proof (cases "j = i")
    case True
    then show ?thesis using s0 new old by auto
  next
    case False
    assume "j < Suc i"
    then have j: "j < i" using False by simp
    then have "ms ! j \<longleftrightarrow> (\<exists>s < j. \<not> ms ! s \<and> opens_block_comment (lines ! s) \<and> \<not> closed_between lines s j)"
      using st unfolding comment_state_def by blast
    moreover have "\<And>s. s < j \<Longrightarrow> ms[i := True] ! s = ms ! s" using old j by (meson less_trans)
    ultimately show ?thesis using j by (auto simp: old)
  qed
  have closed: "s < Suc i \<Longrightarrow> \<not> ms[i := True] ! s \<Longrightarrow> opens_block_comment (lines ! s) \<Longrightarrow>
      s \<noteq> s0 \<Longrightarrow> closed_between lines s (Suc i)" for s
  proof -
    assume a: "s < Suc i" "\<not> ms[i := True] ! s" "opens_block_comment (lines ! s)" "s \<noteq> s0"
    then have "s < i" using new by (cases "s = i") auto
    with a st Some show ?thesis unfolding comment_state_def closed_between_Suc by simp
  qed
  have ahead: "\<forall>j \<ge> Suc i. j < length lines \<longrightarrow> \<not> ms[i := True] ! j" and len: "length ms = length lines"
    using st by (auto simp: comment_state_def)
  show ?thesis
  proof (cases "closes_comment (lines ! i)")
    case True
    then have "closed_between lines s0 (Suc i)" using s0 by (simp add: closed_between_Suc)
    then show ?thesis using Some True closed upto_now ahead len i unfolding comment_state_def by auto
  next
    case False
    then show ?thesis using Some closed upto_now ahead len i s0 unfolding comment_state_def by (auto simp: closed_between_Suc)
  qed
qed

lemma comment_state_end:
  assumes "comment_state lines i start ms"
  shows "case comment_lines i start ms (drop i lines) of (s, ms') \<Rightarrow> comment_state lines (length lines) s ms'"
  using assms
proof (induction "length lines - i" arbitrary: i start ms)
  case 0
  then have "i = length lines" by (auto simp: comment_state_def)
  with 0 show ?case by simp
next
  case (Suc n)
  then have i: "i < length lines" by simp
  from comment_state_step [OF Suc.prems i] Suc.hyps(1) [of "Suc i"] Suc.hyps(2)
  show ?case by (simp add: Cons_nth_drop_Suc [OF i, symmetric] split: if_splits)
qed

text \<open>
  The mask in one formula: a line is inside a comment exactly when an unmasked line ahead of it opens
  one, no line between them closes it, and the line itself or a later one does.
\<close>

lemma comment_interior_iff:
  assumes j: "j < length lines"
  shows "block_comment_interior_mask lines ! j \<longleftrightarrow>
    (\<exists>s < j. \<not> block_comment_interior_mask lines ! s \<and> opens_block_comment (lines ! s) \<and>
       \<not> closed_between lines s j \<and> closed_between lines s (length lines))"
proof -
  obtain st ms where run: "comment_lines 0 None (replicate (length lines) False) lines = (st, ms)" by fastforce
  have "comment_state lines 0 None (replicate (length lines) False)" by (simp add: comment_state_def)
  from comment_state_end [OF this] have cs: "comment_state lines (length lines) st ms" by (simp add: run)
  then have len: "length ms = length lines"
    and iff: "\<And>j. j < length lines \<Longrightarrow>
      ms ! j \<longleftrightarrow> (\<exists>s < j. \<not> ms ! s \<and> opens_block_comment (lines ! s) \<and> \<not> closed_between lines s j)"
    and closed: "\<And>s. s < length lines \<Longrightarrow> \<not> ms ! s \<Longrightarrow> opens_block_comment (lines ! s) \<Longrightarrow> st \<noteq> Some s \<Longrightarrow>
      closed_between lines s (length lines)"
    and pending: "\<And>s. st = Some s \<Longrightarrow>
      s < length lines \<and> \<not> ms ! s \<and> opens_block_comment (lines ! s) \<and> \<not> closed_between lines s (length lines)"
    unfolding comment_state_def by blast+
  show ?thesis
  proof (cases st)
    case None
    then have "block_comment_interior_mask lines = ms" by (simp add: block_comment_interior_mask_def run)
    with iff [OF j] closed None j show ?thesis by (metis less_trans option.distinct(1))
  next
    case (Some p)
    then have m: "block_comment_interior_mask lines = clear_behind (Suc p) ms"
      by (simp add: block_comment_interior_mask_def run)
    have mj: "\<And>k. k < length lines \<Longrightarrow> clear_behind (Suc p) ms ! k \<longleftrightarrow> k \<le> p \<and> ms ! k"
      using len by (simp add: clear_behind_nth less_Suc_eq_le)
    have behind: "\<not> closed_between lines s (length lines)" if "p \<le> s" for s
      using pending [OF Some] that by (auto simp: closed_between_def)
    show ?thesis
    proof
      assume "block_comment_interior_mask lines ! j"
      then have "j \<le> p" "ms ! j" using m mj j by auto
      then obtain s where s: "s < j" "\<not> ms ! s" "opens_block_comment (lines ! s)" "\<not> closed_between lines s j"
        using iff [OF j] by blast
      then have "closed_between lines s (length lines)" using closed [of s] Some j \<open>j \<le> p\<close> by simp
      with s m mj j show "\<exists>s < j. \<not> block_comment_interior_mask lines ! s \<and> opens_block_comment (lines ! s) \<and>
         \<not> closed_between lines s j \<and> closed_between lines s (length lines)" by (metis less_trans)
    next
      assume "\<exists>s < j. \<not> block_comment_interior_mask lines ! s \<and> opens_block_comment (lines ! s) \<and>
         \<not> closed_between lines s j \<and> closed_between lines s (length lines)"
      then obtain s where s: "s < j" "\<not> block_comment_interior_mask lines ! s" "opens_block_comment (lines ! s)"
        "\<not> closed_between lines s j" "closed_between lines s (length lines)" by blast
      then have sp: "s < p" using behind by (meson not_le)
      then have open_s: "\<not> ms ! s" using s m mj j by auto
      then have "ms ! j" using iff [OF j] s by blast
      moreover have "j \<le> p"
      proof (rule ccontr)
        assume "\<not> j \<le> p"
        then have "\<not> closed_between lines s p" using s(4) by (auto simp: closed_between_def)
        then have "ms ! p" using iff [of p] sp open_s s(3) pending [OF Some] by blast
        then show False using pending [OF Some] by simp
      qed
      ultimately show "block_comment_interior_mask lines ! j" using m mj j by simp
    qed
  qed
qed

subsection \<open>Lines inside a template literal\<close>

text \<open>A block comment is only ever on top, and what lies at the bottom of a live stack is a template.\<close>

definition well_stacked :: "frame list \<Rightarrow> bool" where
  "well_stacked s \<longleftrightarrow> Block \<notin> set (tl s) \<and> (s = [] \<or> s = [Block] \<or> last s = Template) \<and>
     (\<forall>d. Expr d \<in> set s \<longrightarrow> 0 < d)"

lemma well_stacked_Nil [simp]: "well_stacked []"
  by (simp add: well_stacked_def)

lemma live_iff: "well_stacked s \<Longrightarrow> has_live_frame s \<longleftrightarrow> s \<noteq> [] \<and> s \<noteq> [Block]"
  by (cases s rule: rev_cases) (auto simp: well_stacked_def has_live_frame_def list_ex_iff)

lemma stacked_on:
  "well_stacked s \<Longrightarrow> s = [] \<or> hd s \<noteq> Block \<Longrightarrow> well_stacked (Block # s)"
  "well_stacked s \<Longrightarrow> s = [] \<or> hd s \<noteq> Block \<Longrightarrow> well_stacked (Template # s)"
  "well_stacked (Template # s) \<Longrightarrow> well_stacked (Expr 1 # Template # s)"
  by (cases s; auto simp: well_stacked_def)+

lemma stacked_below: "well_stacked (f # s) \<Longrightarrow> well_stacked s"
  by (cases s) (auto simp: well_stacked_def)

lemma stacked_expr: "well_stacked (Expr d # s) \<Longrightarrow> 0 < c \<Longrightarrow> well_stacked (Expr c # s)"
  by (cases s) (auto simp: well_stacked_def)

lemma expr_below: "well_stacked (Expr d # s) \<Longrightarrow> 0 < d \<and> s \<noteq> [] \<and> s \<noteq> [Block]"
  by (auto simp: well_stacked_def)

lemma brace_turn_stacked:
  assumes "well_stacked s"
  shows "well_stacked (brace_turn c s)" and "has_live_frame (brace_turn c s) \<longleftrightarrow> has_live_frame s"
proof -
  have "well_stacked (brace_turn c s) \<and> (has_live_frame (brace_turn c s) \<longleftrightarrow> has_live_frame s)"
  proof (cases s)
    case (Cons f r)
    show ?thesis
    proof (cases f)
      case (Expr d)
      note s = Cons [unfolded Expr]
      have "well_stacked r" "0 < d" "r \<noteq> []" "r \<noteq> [Block]" "\<And>e. 0 < e \<Longrightarrow> well_stacked (Expr e # r)"
        using assms stacked_below stacked_expr expr_below unfolding s by blast+
      then show ?thesis unfolding brace_turn_def s by (auto simp: live_iff)
    qed (use assms Cons in \<open>simp_all add: brace_turn_def\<close>)
  qed (use assms in \<open>simp add: brace_turn_def\<close>)
  then show "well_stacked (brace_turn c s)" "has_live_frame (brace_turn c s) \<longleftrightarrow> has_live_frame s" by blast+
qed

lemma code_turn_stacked:
  assumes w: "well_stacked s" and top: "s = [] \<or> (\<exists>d r. s = Expr d # r)"
    and t: "code_turn line j s = Some (k, s')" and j: "j < length line"
  shows "well_stacked s' \<and> (has_live_frame s' \<noteq> has_live_frame s \<longrightarrow> BACKTICK \<in> set line)"
proof -
  have hd: "s = [] \<or> hd s \<noteq> Block" using top by auto
  have seen: "line ! j = BACKTICK \<Longrightarrow> BACKTICK \<in> set line" using j by (metis nth_mem)
  have live: "has_live_frame (Block # s) = has_live_frame s" by (simp add: has_live_frame_def)
  show ?thesis using t w stacked_on(1,2) [OF w hd] brace_turn_stacked [OF w] seen live
    by (auto simp: code_turn_def code_char_turn_def Let_def split: if_splits option.splits)
qed

lemma template_turn_stacked:
  assumes w: "well_stacked s" and t: "template_turn line j s = Some (k, s')" and j: "j < length line"
  shows "well_stacked s' \<and> (has_live_frame s' \<noteq> has_live_frame s \<longrightarrow> BACKTICK \<in> set line)"
proof (cases s)
  case Nil
  then show ?thesis using code_turn_stacked [OF w _ _ j] t by (simp add: template_turn_def)
next
  case (Cons f r)
  have seen: "line ! j = BACKTICK \<Longrightarrow> BACKTICK \<in> set line" using j by (metis nth_mem)
  show ?thesis
  proof (cases f)
    case Template
    note s = Cons [unfolded Template]
    have "well_stacked r" "well_stacked (Expr 1 # Template # r)"
      using w stacked_below stacked_on(3) unfolding s by blast+
    then show ?thesis using t w seen unfolding s
      by (auto simp: template_turn_def template_text_turn_def has_live_frame_def split: if_splits)
  next
    case (Expr d)
    then show ?thesis using code_turn_stacked [OF w _ _ j] t Cons by (simp add: template_turn_def)
  next
    case Block
    note s = Cons [unfolded Block]
    have "well_stacked r" using w stacked_below unfolding s by blast
    then show ?thesis using t unfolding s by (auto simp: template_turn_def has_live_frame_def)
  qed
qed

lemma advance_stacked:
  "well_stacked s \<Longrightarrow> well_stacked (advance_template_state line j s) \<and>
    (has_live_frame (advance_template_state line j s) \<noteq> has_live_frame s \<longrightarrow> BACKTICK \<in> set line)"
proof (induction line j s rule: advance_template_state.induct)
  case (1 line j s)
  show ?case
  proof (cases "j < length line \<and> template_turn line j s \<noteq> None")
    case True
    then obtain k s' where t: "template_turn line j s = Some (k, s')" and j: "j < length line" by auto
    then have "advance_template_state line j s = advance_template_state line k s'"
      by (simp add: advance_template_state.simps [of line j s])
    with template_turn_stacked [OF 1(2) t j] 1(1) [OF _ t refl] j show ?thesis by auto
  next
    case False
    then have "advance_template_state line j s = s"
      by (cases "template_turn line j s") (auto simp: advance_template_state.simps [of line j s])
    with 1(2) show ?thesis by simp
  qed
qed

text \<open>The stack ahead of a line.\<close>

definition stack_after :: "frame list \<Rightarrow> string list \<Rightarrow> frame list" where
  "stack_after = foldl (\<lambda>s l. advance_template_state l 0 s)"

definition live_at :: "string list \<Rightarrow> nat \<Rightarrow> bool" where
  "live_at lines i = has_live_frame (stack_after [] (take i lines))"

lemma template_lines_run:
  assumes "template_lines i o0 s ls = (o', s', ms)"
  shows "s' = stack_after s ls"
    and "ms = map (\<lambda>k. has_live_frame (stack_after s (take k ls))) [0..<length ls]"
    and "(\<forall>k < length ls. has_live_frame (stack_after s (take k ls))) \<and> o' = o0 \<or>
      (\<exists>k < length ls. \<not> has_live_frame (stack_after s (take k ls)) \<and> o' = i + k \<and>
         (\<forall>m < length ls. k < m \<longrightarrow> has_live_frame (stack_after s (take m ls))))"
proof -
  let ?L = "\<lambda>s ls k. has_live_frame (stack_after s (take k ls))"
  have "s' = stack_after s ls \<and> ms = map (?L s ls) [0..<length ls] \<and>
    ((\<forall>k < length ls. ?L s ls k) \<and> o' = o0 \<or>
     (\<exists>k < length ls. \<not> ?L s ls k \<and> o' = i + k \<and> (\<forall>m < length ls. k < m \<longrightarrow> ?L s ls m)))"
    using assms
  proof (induction i o0 s ls arbitrary: o' s' ms rule: template_lines.induct)
    case (1 i o0 s)
    then show ?case by (simp add: stack_after_def)
  next
    case (2 i o0 s l ls)
    let ?s = "advance_template_state l 0 s"
    obtain o2 s2 m2 where r: "template_lines (Suc i) (if has_live_frame s then o0 else i) ?s ls = (o2, s2, m2)"
      by (metis prod_cases3)
    have step: "?L s (l # ls) (Suc k) = ?L ?s ls k" for k by (simp add: stack_after_def)
    have first: "?L s (l # ls) 0 = has_live_frame s" by (simp add: stack_after_def)
    from 2(1) [OF refl r] 2(2) r show ?case
      by (auto simp: step first stack_after_def Let_def map_upt_Suc All_less_Suc2 Ex_less_Suc2 simp del: upt_Suc)
  qed
  then show "s' = stack_after s ls" "ms = map (?L s ls) [0..<length ls]"
    "(\<forall>k < length ls. ?L s ls k) \<and> o' = o0 \<or>
     (\<exists>k < length ls. \<not> ?L s ls k \<and> o' = i + k \<and> (\<forall>m < length ls. k < m \<longrightarrow> ?L s ls m))"
    by blast+
qed

text \<open>A line is inside a template exactly when a template is open ahead of it, and some later line is reached with none open.\<close>

lemma template_interior_iff:
  assumes j: "j < length lines"
  shows "template_literal_interior_mask lines ! j \<longleftrightarrow>
    live_at lines j \<and> (\<exists>e. j < e \<and> e \<le> length lines \<and> \<not> live_at lines e)"
proof -
  obtain o' s' ms where run: "template_lines 0 0 [] lines = (o', s', ms)" by (metis prod_cases3)
  note facts = template_lines_run [OF run]
  have start: "\<not> live_at lines 0" by (simp add: live_at_def stack_after_def has_live_frame_def)
  have s': "has_live_frame s' = live_at lines (length lines)" using facts(1) by (simp add: live_at_def)
  have ms: "ms ! j = live_at lines j" "length ms = length lines" using facts(2) j by (simp_all add: live_at_def)
  have open_line: "o' < length lines" "\<not> live_at lines o'" "\<And>m. m < length lines \<Longrightarrow> o' < m \<Longrightarrow> live_at lines m"
    using facts(3) start j by (auto simp: live_at_def)
  show ?thesis
  proof (cases "has_live_frame s'")
    case False
    then have "template_literal_interior_mask lines ! j = live_at lines j"
      by (simp add: template_literal_interior_mask_def run ms)
    with False s' j show ?thesis by auto
  next
    case True
    then have m: "template_literal_interior_mask lines ! j \<longleftrightarrow> j \<le> o' \<and> live_at lines j"
      using j ms by (simp add: template_literal_interior_mask_def run clear_behind_nth less_Suc_eq_le)
    have "(\<exists>e. j < e \<and> e \<le> length lines \<and> \<not> live_at lines e) \<longleftrightarrow> j < o'"
      using open_line True s' by (metis le_neq_implies_less less_imp_le not_le order.strict_trans2)
    with m open_line show ?thesis by (auto simp: le_less)
  qed
qed

lemma stack_after_Suc:
  "j < length lines \<Longrightarrow>
   stack_after [] (take (Suc j) lines) = advance_template_state (lines ! j) 0 (stack_after [] (take j lines))"
  by (simp add: stack_after_def take_Suc_conv_app_nth)

lemma stack_after_stacked: "well_stacked s \<Longrightarrow> well_stacked (stack_after s ls)"
  by (induction ls arbitrary: s) (simp_all add: stack_after_def advance_stacked)

text \<open>A line that opens the first template or closes the last one has a backtick.\<close>

lemma live_turns_at_backtick:
  assumes "j < length lines" "live_at lines (Suc j) \<noteq> live_at lines j"
  shows "BACKTICK \<in> set (lines ! j)"
  using assms advance_stacked [OF stack_after_stacked [OF well_stacked_Nil], of "lines ! j" 0 "take j lines"]
  by (simp add: live_at_def stack_after_Suc)

lemma turn_between:
  assumes "P a" "\<not> P b" "a < b"
  obtains k :: nat where "a \<le> k" "k < b" "P k" "\<not> P (Suc k)" "\<And>m. a \<le> m \<Longrightarrow> m \<le> k \<Longrightarrow> P m"
proof -
  define n where "n = (LEAST n. \<not> P (a + n))"
  have stop: "\<not> P (a + n)" unfolding n_def using assms LeastI [of "\<lambda>n. \<not> P (a + n)" "b - a"] by simp
  have below: "P m" if "a \<le> m" "m < a + n" for m
    using not_less_Least [of "m - a" "\<lambda>n. \<not> P (a + n)"] that unfolding n_def by (auto simp: less_diff_conv2)
  have "n \<le> b - a" unfolding n_def using assms by (simp add: Least_le)
  moreover have "0 < n" using stop assms(1) by (cases n) auto
  ultimately show thesis using that [of "a + n - 1"] stop below assms(3) by auto
qed

theorem template_lines_are_enclosed:
  assumes j: "j < length lines" and m: "template_literal_interior_mask lines ! j"
  shows "\<exists>s e. s < j \<and> j \<le> e \<and> e < length lines \<and> BACKTICK \<in> set (lines ! s) \<and> BACKTICK \<in> set (lines ! e) \<and>
    \<not> template_literal_interior_mask lines ! s \<and>
    list_all (\<lambda>k. template_literal_interior_mask lines ! k) [Suc s..<Suc e]"
proof -
  from m j obtain b where live: "live_at lines j" and b: "j < b" "b \<le> length lines" "\<not> live_at lines b"
    by (auto simp: template_interior_iff)
  have "\<not> live_at lines 0" by (simp add: live_at_def stack_after_def has_live_frame_def)
  with live have "0 < j" by (cases j) auto
  define behind where "behind = (\<lambda>k. live_at lines (j - k))"
  obtain k where k: "k < j" "live_at lines (j - k)" "\<not> live_at lines (j - Suc k)"
    "\<And>m. m \<le> k \<Longrightarrow> live_at lines (j - m)"
    using turn_between [of behind 0 j] live \<open>\<not> live_at lines 0\<close> \<open>0 < j\<close> by (auto simp: behind_def)
  let ?s = "j - Suc k"
  have s: "?s < j" "Suc ?s = j - k" using k by auto
  have live_s: "live_at lines i" if "?s < i" "i \<le> j" for i
    using k(4) [of "j - i"] that by (simp add: diff_le_mono2 Suc_diff_Suc) 
  obtain e where e: "j \<le> e" "e < b" "\<not> live_at lines (Suc e)" "\<And>i. j \<le> i \<Longrightarrow> i \<le> e \<Longrightarrow> live_at lines i"
    using turn_between [of "live_at lines" j b] live b by blast
  have inside: "template_literal_interior_mask lines ! i" if "?s < i" "i \<le> e" for i
    using that live_s e b by (cases "i \<le> j") (auto simp: template_interior_iff intro!: exI [of _ b])
  have "BACKTICK \<in> set (lines ! ?s)" using live_turns_at_backtick [of ?s lines] k s j by simp
  moreover have "BACKTICK \<in> set (lines ! e)" using live_turns_at_backtick [of e lines] e b by simp
  moreover have "\<not> template_literal_interior_mask lines ! ?s"
    using k s j by (simp add: template_interior_iff)
  ultimately show ?thesis using s e b inside
    by (intro exI [of _ ?s] exI [of _ e]) (auto simp: list_all_iff)
qed

subsection \<open>What is detected\<close>

lemma gcd_loop: "greatest_common_divisor l r = gcd l r"
  by (induction l r rule: greatest_common_divisor.induct)
    (simp add: greatest_common_divisor.simps gcd_non_0_nat)

lemma gcd_fold: "foldl greatest_common_divisor d counts dvd d \<and> list_all ((dvd) (foldl greatest_common_divisor d counts)) counts"
proof (induction counts arbitrary: d)
  case (Cons c cs)
  then show ?case using Cons [of "gcd d c"] by (auto simp: gcd_loop intro: dvd_trans)
qed simp

lemma fold_min_le: "fold min cs (c :: nat) \<le> c \<and> list_all ((\<le>) (fold min cs c)) cs"
proof (induction cs arbitrary: c)
  case (Cons d ds)
  then show ?case using Cons [of "min d c"] by (auto elim: le_trans)
qed simp

lemma fold_min_in: "fold min cs (c :: nat) \<in> set (c # cs)"
proof (induction cs arbitrary: c)
  case (Cons d ds)
  then show ?case using Cons [of "min d c"] by (auto simp: min_def split: if_splits)
qed simp

lemma space_counts_pos: "n \<in> set (space_counts lines) \<Longrightarrow> 0 < n"
  by (simp add: space_counts_def)

text \<open>
  A detected style has a width from 1 to 8; tabs are reported only where they are the majority, and a
  width in spaces fits what was counted: it is the smallest count, or it divides all of them, or it is
  the default of two where neither style prevails.
\<close>

theorem detected_width_fits:
  assumes d: "detect_indentation content = Some ind"
  defines "lines \<equiv> structural_lines (split_lines content)"
  shows "1 \<le> in_width ind \<and> in_width ind \<le> 8 \<and>
    (case in_style ind of
       Tab_Style \<Rightarrow> in_width ind = 1 \<and> length (space_counts lines) < length (filter (is_indented_with TAB) lines)
     | Space_Style \<Rightarrow>
         in_width ind = 2 \<and> length (space_counts lines) = length (filter (is_indented_with TAB) lines) \<or>
         length (filter (is_indented_with TAB) lines) < length (space_counts lines) \<and>
         ((in_width ind \<in> set (space_counts lines) \<and> list_all ((\<le>) (in_width ind)) (space_counts lines)) \<or>
          list_all ((dvd) (in_width ind)) (space_counts lines)))"
proof -
  let ?cs = "space_counts lines" and ?tabs = "length (filter (is_indented_with TAB) lines)"
  let ?min = "fold min (tl ?cs) (hd ?cs)" and ?gcd = "foldl greatest_common_divisor 0 ?cs"
  have m: "?min \<in> set ?cs" "list_all ((\<le>) ?min) ?cs" if "?cs \<noteq> []"
    using that fold_min_in [of "tl ?cs" "hd ?cs"] fold_min_le [of "tl ?cs" "hd ?cs"] by (cases ?cs; simp)+
  have g: "list_all ((dvd) ?gcd) ?cs" using gcd_fold by blast
  have gpos: "0 < ?gcd" if "?cs \<noteq> []"
    using that g space_counts_pos [of "hd ?cs" lines] by (cases ?cs) (auto intro: Nat.gr0I)
  consider (none) "?tabs = 0" "?cs = []" "ind = DEFAULT_INDENTATION"
    | (tabs) "length ?cs < ?tabs" "ind = \<lparr>in_style = Tab_Style, in_width = 1\<rparr>"
    | (least) "?tabs < length ?cs" "?min \<le> 8" "ind = \<lparr>in_style = Space_Style, in_width = ?min\<rparr>"
    | (common) "?tabs < length ?cs" "?gcd \<le> 8" "ind = \<lparr>in_style = Space_Style, in_width = ?gcd\<rparr>"
    | (same) "?tabs = length ?cs" "ind = DEFAULT_INDENTATION"
    using d unfolding detect_indentation_def lines_def [symmetric] Let_def
    by (simp split: if_splits) 
  then show ?thesis
  proof cases
    case least
    then have ne: "?cs \<noteq> []" by auto
    show ?thesis using m [OF ne] space_counts_pos [OF m(1) [OF ne]] least by (simp add: Suc_le_eq)
  next
    case common
    then have ne: "?cs \<noteq> []" by auto
    show ?thesis using g gpos [OF ne] common by (simp add: Suc_le_eq)
  qed (simp_all add: DEFAULT_INDENTATION_def)
qed

theorem template_lines_are_enclosed_witness:
  "\<exists>s e. s < 1 \<and> 1 \<le> e \<and> e < 3 \<and> BACKTICK \<in> set ([''a = `'', ''  b'', ''`''] ! s) \<and> BACKTICK \<in> set ([''a = `'', ''  b'', ''`''] ! e)"
proof -
  have "template_literal_interior_mask [''a = `'', ''  b'', ''`''] ! 1" by code_simp
  with template_lines_are_enclosed [of 1 "[''a = `'', ''  b'', ''`'']"] show ?thesis by fastforce
qed

theorem detected_width_fits_witness:
  "1 \<le> in_width \<lparr>in_style = Space_Style, in_width = 4\<rparr> \<and> in_width \<lparr>in_style = Space_Style, in_width = 4\<rparr> \<le> 8"
proof -
  have "detect_indentation (join_with LF [''f'', ''    a'', ''        b'']) = Some \<lparr>in_style = Space_Style, in_width = 4\<rparr>" by code_simp
  from detected_width_fits [OF this] show ?thesis by blast
qed

end
