(* ===== verification/Indent_Retarget.thy ===== *)
theory Indent_Retarget
  imports Indent_Detect
begin

text \<open>
  \<^verbatim>\<open>clients/indent-retarget.ts\<close>: when the old text of an edit was corrected to the indentation of the
  file, its new text is given the same correction.  The lines of the two old texts are the evidence: a
  map from the indentation written to the one found, without the indentations that were found in two
  forms, and with a base unit for levels the old text does not show.

  The \<^verbatim>\<open>Map\<close> keeps its insertion order, as the choice of the base unit depends on it; the two \<^verbatim>\<open>Set\<close>s
  are only asked for membership.
\<close>

definition leading :: "string \<Rightarrow> string" where
  "leading l = takeWhile is_blank_char l"

definition after_indent :: "string \<Rightarrow> string" where
  "after_indent l = dropWhile is_blank_char l"

definition lf_lines :: "string \<Rightarrow> string list" where
  "lf_lines s = split_on LF (normalize_lf s)"

record retarget_context =
  rc_content :: string
  rc_start_line :: int

definition compute_interior_masks :: "string list \<Rightarrow> retarget_context option \<Rightarrow> bool list \<times> bool list" where
  "compute_interior_masks olds ctx =
     (let alone = (block_comment_interior_mask olds, template_literal_interior_mask olds)
      in case ctx of
           None \<Rightarrow> alone
         | Some c \<Rightarrow>
             let whole = lf_lines (rc_content c); start = rc_start_line c - 1; n = length olds;
                 cut = (\<lambda>ms :: bool list. take n (drop (nat start) ms))
             in if 0 \<le> start \<and> start + int n \<le> int (length whole)
                then (cut (block_comment_interior_mask whole), cut (template_literal_interior_mask whole))
                else alone)"

subsection \<open>The evidence\<close>

record indent_evidence =
  ev_map :: "(string, string) js_map"
  ev_structural :: "string set"
  ev_ambiguous :: "string set"

definition no_evidence :: indent_evidence where
  "no_evidence = \<lparr>ev_map = [], ev_structural = {}, ev_ambiguous = {}\<rparr>"

text \<open>One line: its indentation as written and as found, and whether it is the inside of a comment or a template.\<close>

fun note_line :: "string \<times> string \<times> bool \<Rightarrow> indent_evidence \<Rightarrow> indent_evidence" where
  "note_line (written, found, interior) ev =
     (if written = found then ev
      else if map_of (ev_map ev) written \<noteq> None \<and> map_of (ev_map ev) written \<noteq> Some found
      then ev\<lparr>ev_map := AList.delete written (ev_map ev),
              ev_structural := ev_structural ev - {written},
              ev_ambiguous := insert written (ev_ambiguous ev)\<rparr>
      else if written \<notin> ev_ambiguous ev
      then ev\<lparr>ev_map := AList.update written found (ev_map ev),
              ev_structural := (if interior then ev_structural ev else insert written (ev_structural ev))\<rparr>
      else ev)"

definition evidence_lines :: "string list \<Rightarrow> string list \<Rightarrow> retarget_context option \<Rightarrow> (string \<times> string \<times> bool) list" where
  "evidence_lines olds corrected ctx =
     (case compute_interior_masks olds ctx of
        (comment, tmpl) \<Rightarrow>
          map (\<lambda>i. (leading (olds ! i), leading (corrected ! i), comment ! i \<or> tmpl ! i)) [0..<length olds])"

definition gather_evidence :: "string list \<Rightarrow> string list \<Rightarrow> retarget_context option \<Rightarrow> indent_evidence" where
  "gather_evidence olds corrected ctx = fold note_line (evidence_lines olds corrected ctx) no_evidence"

definition base_unit :: "indent_evidence \<Rightarrow> string \<times> string" where
  "base_unit ev =
     fold (\<lambda>(from_unit, to_unit) base.
         if from_unit \<noteq> [] \<and> from_unit \<in> ev_structural ev \<and> (fst base = [] \<or> length from_unit < length (fst base))
         then (from_unit, to_unit) else base)
       (ev_map ev) ([], [])"

definition repeat_text :: "nat \<Rightarrow> string \<Rightarrow> string" where
  "repeat_text n s = concat (replicate n s)"

definition resolve_indent :: "indent_evidence \<Rightarrow> string \<Rightarrow> string option" where
  "resolve_indent ev indent =
     (if indent = [] then Some []
      else case map_of (ev_map ev) indent of
             Some d \<Rightarrow> Some d
           | None \<Rightarrow>
               (case base_unit ev of
                  (base_from, base_to) \<Rightarrow>
                    let n = length indent div length base_from
                    in if base_from \<noteq> [] \<and> length indent mod length base_from = 0 \<and> repeat_text n base_from = indent
                       then Some (repeat_text n base_to) else None))"

subsection \<open>The new text\<close>

definition retarget_line :: "indent_evidence \<Rightarrow> string \<Rightarrow> string option" where
  "retarget_line ev l =
     (if after_indent l = [] then Some l else map_option (\<lambda>r. r @ after_indent l) (resolve_indent ev (leading l)))"

text \<open>The loop gives up at the first line it cannot resolve.\<close>

fun retarget_lines :: "indent_evidence \<Rightarrow> string list \<Rightarrow> string list option" where
  "retarget_lines ev [] = Some []"
| "retarget_lines ev (l # ls) =
     (case retarget_line ev l of
        None \<Rightarrow> None
      | Some r \<Rightarrow> map_option ((#) r) (retarget_lines ev ls))"

definition CRLF :: string where "CRLF = [CR, LF]"

fun join_text :: "string \<Rightarrow> string list \<Rightarrow> string" where
  "join_text sep [] = []"
| "join_text sep [l] = l"
| "join_text sep (l # ls) = l @ sep @ join_text sep ls"

definition line_break_of :: "string \<Rightarrow> string" where
  "line_break_of s = (if contains_text s CRLF then CRLF else [LF])"

text \<open>\<^verbatim>\<open>changed\<close> is set by the first line whose indentation moved, so it says that the lines differ.\<close>

definition retarget_replacement_indentation ::
    "string \<Rightarrow> string \<Rightarrow> string \<Rightarrow> retarget_context option \<Rightarrow> string option" where
  "retarget_replacement_indentation new_text old_text corrected ctx =
     (let olds = lf_lines old_text; founds = lf_lines corrected
      in if length olds \<noteq> length founds then None
         else
           let ev = gather_evidence olds founds ctx; news = lf_lines new_text
           in if ev_map ev = [] then None
              else case retarget_lines ev news of
                     None \<Rightarrow> None
                   | Some ls \<Rightarrow> if ls \<noteq> news then Some (join_text (line_break_of new_text) ls) else None)"

subsection \<open>What the evidence holds\<close>

lemma indent_parts: "leading l @ after_indent l = l"
  by (simp add: leading_def after_indent_def)

lemma line_eq: "leading a @ after_indent b = a \<longleftrightarrow> after_indent a = after_indent b"
  by (metis indent_parts same_append_eq)

lemma same_line: "after_indent a = after_indent b \<Longrightarrow> leading b \<noteq> leading a \<longleftrightarrow> a \<noteq> b"
  by (metis indent_parts)

lemma leading_blank: "list_all is_blank_char (leading l)"
  by (auto simp: leading_def list_all_iff dest: set_takeWhileD)

lemma after_indent_ahead: "leading (after_indent l) = []" "after_indent (after_indent l) = after_indent l"
  by (induction l) (simp_all add: leading_def after_indent_def)

lemma blank_ahead:
  "list_all is_blank_char r \<Longrightarrow> leading (r @ after_indent l) = r \<and> after_indent (r @ after_indent l) = after_indent l"
  using after_indent_ahead [of l] by (induction r) (auto simp: leading_def after_indent_def)

text \<open>The forms an indentation was found in, apart from the one it was written in.\<close>

definition forms :: "(string \<times> string \<times> bool) list \<Rightarrow> string \<Rightarrow> string set" where
  "forms ls w = {f. f \<noteq> w \<and> (\<exists>b. (w, f, b) \<in> set ls)}"

lemma forms_snoc: "forms (ls @ [(w, f, b)]) v = (if v = w \<and> f \<noteq> w then insert f (forms ls v) else forms ls v)"
  by (auto simp: forms_def)

lemma evidence_state:
  "(\<forall>w. w \<in> ev_ambiguous (fold note_line ls no_evidence) \<longleftrightarrow> (\<exists>f g. f \<noteq> g \<and> {f, g} \<subseteq> forms ls w)) \<and>
   (\<forall>w f. map_of (ev_map (fold note_line ls no_evidence)) w = Some f \<longleftrightarrow> forms ls w = {f})"
proof (induction ls rule: rev_induct)
  case Nil
  then show ?case by (simp add: no_evidence_def forms_def)
next
  case (snoc x ls)
  obtain w f b where x: "x = (w, f, b)" by (metis prod_cases3)
  let ?ev = "fold note_line ls no_evidence"
  from snoc have amb: "\<And>w. w \<in> ev_ambiguous ?ev \<longleftrightarrow> (\<exists>f g. f \<noteq> g \<and> {f, g} \<subseteq> forms ls w)"
    and got: "\<And>w f. map_of (ev_map ?ev) w = Some f \<longleftrightarrow> forms ls w = {f}" by blast+
  have ev: "fold note_line (ls @ [x]) no_evidence = note_line (w, f, b) ?ev" by (simp add: x)
  consider (same) "w = f" | (conflict) g where "w \<noteq> f" "map_of (ev_map ?ev) w = Some g" "g \<noteq> f"
    | (again) "w \<noteq> f" "map_of (ev_map ?ev) w = Some f" | (absent) "w \<noteq> f" "map_of (ev_map ?ev) w = None" by fastforce
  then show ?case
  proof cases
    case same
    then show ?thesis using amb got by (simp add: ev x forms_snoc)
  next
    case (conflict g)
    then have "forms ls w = {g}" using got by blast
    then show ?thesis using conflict amb got unfolding ev x
      by (auto simp: forms_snoc get_delete doubleton_eq_iff)
  next
    case again
    then have "forms ls w = {f}" using got by blast
    then show ?thesis using again amb got unfolding ev x
      by (auto simp: forms_snoc get_update)
  next
    case absent
    then have none: "\<nexists>g. forms ls w = {g}" using got by (metis option.distinct(1))
    show ?thesis
    proof (cases "w \<in> ev_ambiguous ?ev")
      case True
      then obtain h g where "h \<noteq> g" "{h, g} \<subseteq> forms ls w" using amb by blast
      moreover from this have "insert f (forms ls w) \<noteq> {k}" for k by auto
      ultimately show ?thesis using absent True amb got unfolding ev x by (auto simp: forms_snoc)
    next
      case False
      then have "forms ls w = {}" using none amb [of w] by (metis (no_types) empty_subsetI insert_subset subsetI singletonI equals0I subset_singleton_iff)
      then show ?thesis using absent False amb got unfolding ev x by (auto simp: forms_snoc get_update)
    qed
  qed
qed

lemma evidence_iff: "map_of (ev_map (fold note_line ls no_evidence)) w = Some f \<longleftrightarrow> forms ls w = {f}"
  using evidence_state by blast

lemma base_unit_in:
  "base_unit ev = ([], []) \<or> base_unit ev \<in> set (ev_map ev)"
proof -
  have "fold (\<lambda>(a, b) base. if P a base then (a, b) else base) m base \<in> set m \<union> {base}" for P m base
    by (induction m arbitrary: base) (auto, force+)
  from this [of "\<lambda>a base. a \<noteq> [] \<and> a \<in> ev_structural ev \<and> (fst base = [] \<or> length a < length (fst base))" "ev_map ev" "([], [])"]
  show ?thesis by (auto simp: base_unit_def)
qed

lemma evidence_entries: "(w, f) \<in> set (ev_map (fold note_line ls no_evidence)) \<Longrightarrow> \<exists>b. (w, f, b) \<in> set ls"
proof (induction ls arbitrary: w f rule: rev_induct)
  case Nil
  then show ?case by (simp add: no_evidence_def)
next
  case (snoc x ls)
  obtain w0 f0 b0 where x: "x = (w0, f0, b0)" by (metis prod_cases3)
  have upd: "set (AList.update w0 f0 m) \<subseteq> insert (w0, f0) (set m)" for m by (induction m) auto
  have del: "set (AList.delete w0 m) \<subseteq> set m" for m :: "(string, string) js_map" by (auto simp: AList.delete_eq)
  from snoc.prems have "(w, f) \<in> insert (w0, f0) (set (ev_map (fold note_line ls no_evidence)))"
    using upd del by (auto simp: x split: if_splits)
  with snoc.IH show ?case by (auto simp: x)
qed

text \<open>An indentation the evidence resolves is blank, whether it was found or built from the base unit.\<close>

lemma resolved_is_blank:
  assumes lines: "\<And>w f b. (w, f, b) \<in> set ls \<Longrightarrow> list_all is_blank_char f"
    and r: "resolve_indent (fold note_line ls no_evidence) i = Some r"
  shows "list_all is_blank_char r"
proof -
  let ?ev = "fold note_line ls no_evidence"
  have entry: "list_all is_blank_char f" if "(w, f) \<in> set (ev_map ?ev)" for w f
    using evidence_entries [OF that] lines by blast
  have unit: "list_all is_blank_char (snd (base_unit ?ev))"
    using base_unit_in [of ?ev] entry [of "fst (base_unit ?ev)" "snd (base_unit ?ev)"] by auto
  have "list_all is_blank_char (repeat_text n (snd (base_unit ?ev)))" for n
    using unit by (auto simp: repeat_text_def list_all_iff)
  with r entry show ?thesis
    by (auto simp: resolve_indent_def Let_def split: if_splits option.splits prod.splits dest: map_of_SomeD)
qed

lemma gathered_lines_blank: "(w, f, b) \<in> set (evidence_lines olds founds ctx) \<Longrightarrow> list_all is_blank_char f"
  by (auto simp: evidence_lines_def leading_blank split: prod.splits)

subsection \<open>What happens to a line\<close>

lemma retarget_lines_nth:
  assumes "retarget_lines ev news = Some ls"
  shows "length ls = length news" and "\<And>k. k < length news \<Longrightarrow> retarget_line ev (news ! k) = Some (ls ! k)"
proof -
  have "length ls = length news \<and> (\<forall>k < length news. retarget_line ev (news ! k) = Some (ls ! k))"
    using assms by (induction news arbitrary: ls) (auto simp: nth_Cons' split: option.splits)
  then show "length ls = length news" "\<And>k. k < length news \<Longrightarrow> retarget_line ev (news ! k) = Some (ls ! k)" by blast+
qed

lemma retarget_lines_intro:
  "length ls = length news \<Longrightarrow> (\<And>k. k < length news \<Longrightarrow> retarget_line ev (news ! k) = Some (ls ! k)) \<Longrightarrow>
   retarget_lines ev news = Some ls"
proof (induction news arbitrary: ls)
  case (Cons n ns)
  then obtain l ls' where ls: "ls = l # ls'" by (cases ls) auto
  have "retarget_line ev n = Some l" using Cons.prems(2) [of 0] ls by simp
  moreover have "retarget_lines ev ns = Some ls'" using Cons.IH [of ls'] Cons.prems(1) Cons.prems(2) [of "Suc _"] ls by auto
  ultimately show ?case by (simp add: ls)
qed simp

lemma retarget_cases:
  assumes "retarget_replacement_indentation new_text old_text corrected ctx = Some out"
  obtains ls where "retarget_lines (gather_evidence (lf_lines old_text) (lf_lines corrected) ctx) (lf_lines new_text) = Some ls"
    "ls \<noteq> lf_lines new_text" "out = join_text (line_break_of new_text) ls"
    "length (lf_lines old_text) = length (lf_lines corrected)"
  using assms by (auto simp: retarget_replacement_indentation_def Let_def split: if_splits option.splits)

text \<open>
  A retargeted text has the lines of the new text; a blank line is kept, and every other line keeps what
  follows its indentation and has the indentation the evidence gives.
\<close>

theorem retarget_moves_only_indentation:
  assumes r: "retarget_replacement_indentation new_text old_text corrected ctx = Some out"
  shows "\<exists>ls. out = join_text (line_break_of new_text) ls \<and> length ls = length (lf_lines new_text) \<and>
    list_all (\<lambda>k. after_indent (ls ! k) = after_indent (lf_lines new_text ! k) \<and>
        (if after_indent (lf_lines new_text ! k) = [] then ls ! k = lf_lines new_text ! k
         else resolve_indent (gather_evidence (lf_lines old_text) (lf_lines corrected) ctx)
                (leading (lf_lines new_text ! k)) = Some (leading (ls ! k)))) [0..<length ls]"
proof -
  let ?ev = "gather_evidence (lf_lines old_text) (lf_lines corrected) ctx" and ?news = "lf_lines new_text"
  obtain ls where ls: "retarget_lines ?ev ?news = Some ls" "out = join_text (line_break_of new_text) ls"
    using retarget_cases [OF r] by metis
  have each: "after_indent (ls ! k) = after_indent (?news ! k) \<and>
      (if after_indent (?news ! k) = [] then ls ! k = ?news ! k
       else resolve_indent ?ev (leading (?news ! k)) = Some (leading (ls ! k)))" if k: "k < length ?news" for k
  proof (cases "after_indent (?news ! k) = []")
    case True
    then show ?thesis using retarget_lines_nth(2) [OF ls(1) k] by (simp add: retarget_line_def)
  next
    case False
    then obtain i where i: "resolve_indent ?ev (leading (?news ! k)) = Some i" "ls ! k = i @ after_indent (?news ! k)"
      using retarget_lines_nth(2) [OF ls(1) k] by (auto simp: retarget_line_def)
    then have "list_all is_blank_char i"
      using resolved_is_blank gathered_lines_blank unfolding gather_evidence_def by blast
    with i False show ?thesis by (simp add: blank_ahead)
  qed
  then show ?thesis using ls retarget_lines_nth(1) [OF ls(1)] by (auto simp: list_all_iff)
qed

subsection \<open>The old text itself\<close>

text \<open>
  \<open>uniform_correction\<close>: the correction moves indentation only, moves the indentation of every line that
  has one and of no other, and moves equal indentations alike.
\<close>

definition moved_alike :: "string list \<Rightarrow> string list \<Rightarrow> bool" where
  "moved_alike olds founds \<longleftrightarrow>
     list_all (\<lambda>(l, f). list_all (\<lambda>(l', f'). l \<noteq> f \<and> l' \<noteq> f' \<and> leading l = leading l' \<longrightarrow> leading f = leading f')
       (zip olds founds)) (zip olds founds)"

lemma moved_alikeD:
  assumes "moved_alike olds founds" "length olds = length founds"
    "i < length olds" "j < length olds" "olds ! i \<noteq> founds ! i" "olds ! j \<noteq> founds ! j" "leading (olds ! i) = leading (olds ! j)"
  shows "leading (founds ! i) = leading (founds ! j)"
proof -
  have "(olds ! i, founds ! i) \<in> set (zip olds founds)" "(olds ! j, founds ! j) \<in> set (zip olds founds)"
    using assms(2-4) by (auto simp: set_zip)
  then show ?thesis using assms(1,5-7) unfolding moved_alike_def list_all_iff by fastforce
qed

definition uniform_correction :: "string list \<Rightarrow> string list \<Rightarrow> bool" where
  "uniform_correction olds founds \<longleftrightarrow>
     list_all2 (\<lambda>l f. after_indent f = after_indent l \<and> (after_indent l = [] \<longrightarrow> f = l) \<and>
       (after_indent l \<noteq> [] \<longrightarrow> (leading f = leading l \<longleftrightarrow> leading l = []))) olds founds \<and>
     moved_alike olds founds"

lemma evidence_lines_nth:
  "length (evidence_lines olds founds ctx) = length olds"
  "k < length olds \<Longrightarrow> \<exists>b. evidence_lines olds founds ctx ! k = (leading (olds ! k), leading (founds ! k), b)"
  by (cases "compute_interior_masks olds ctx"; simp add: evidence_lines_def)+

lemma forms_iff:
  "f \<in> forms (evidence_lines olds founds ctx) w \<longleftrightarrow>
   (\<exists>k < length olds. w = leading (olds ! k) \<and> f = leading (founds ! k) \<and> f \<noteq> w)"
  unfolding forms_def mem_Collect_eq in_set_conv_nth evidence_lines_nth(1)
  using evidence_lines_nth(2) [of _ olds founds ctx] by (metis prod.inject)

lemma uniform_forms:
  assumes u: "uniform_correction olds founds" and i: "i < length olds" and m: "olds ! i \<noteq> founds ! i"
  shows "forms (evidence_lines olds founds ctx) (leading (olds ! i)) = {leading (founds ! i)}"
proof -
  have len: "length founds = length olds" using u by (auto simp: uniform_correction_def dest: list_all2_lengthD)
  have line: "after_indent (founds ! k) = after_indent (olds ! k)" "after_indent (olds ! k) = [] \<Longrightarrow> founds ! k = olds ! k"
    "after_indent (olds ! k) \<noteq> [] \<Longrightarrow> leading (founds ! k) = leading (olds ! k) \<longleftrightarrow> leading (olds ! k) = []"
    if "k < length olds" for k
    using u that by (auto simp: uniform_correction_def list_all2_conv_all_nth)
  have moved: "leading (founds ! k) \<noteq> leading (olds ! k) \<longleftrightarrow> olds ! k \<noteq> founds ! k" if "k < length olds" for k
    by (rule same_line) (rule line(1) [OF that, symmetric])
  have alike: "leading (founds ! i) = leading (founds ! j)"
    if "j < length olds" "leading (olds ! i) = leading (olds ! j)" "olds ! j \<noteq> founds ! j" for j
    using moved_alikeD [OF _ len [symmetric] i that(1) m that(3) that(2)] u by (simp add: uniform_correction_def)
  show ?thesis
  proof (intro set_eqI iffI)
    fix f
    assume "f \<in> forms (evidence_lines olds founds ctx) (leading (olds ! i))"
    then obtain k where k: "k < length olds" "leading (olds ! i) = leading (olds ! k)" "f = leading (founds ! k)"
      "f \<noteq> leading (olds ! i)" unfolding forms_iff by blast
    then have "olds ! k \<noteq> founds ! k" using moved [of k] by simp
    then show "f \<in> {leading (founds ! i)}" using alike [of k] k by simp
  next
    fix f
    assume "f \<in> {leading (founds ! i)}"
    then show "f \<in> forms (evidence_lines olds founds ctx) (leading (olds ! i))"
      unfolding forms_iff using i m moved [of i] by blast
  qed
qed

lemma line_of_lf: "lf_lines s \<noteq> []"
  by (simp add: lf_lines_def)

theorem correction_repeats_on_its_own_text:
  assumes u: "uniform_correction (lf_lines old_text) (lf_lines corrected)"
  shows "retarget_replacement_indentation old_text old_text corrected ctx =
    (if lf_lines corrected = lf_lines old_text then None
     else Some (join_text (line_break_of old_text) (lf_lines corrected)))"
proof -
  let ?o = "lf_lines old_text" and ?f = "lf_lines corrected"
  let ?ev = "gather_evidence ?o ?f ctx"
  have len: "length ?o = length ?f" using u by (auto simp: uniform_correction_def dest: list_all2_lengthD)
  have got: "map_of (ev_map ?ev) (leading (?o ! i)) = Some (leading (?f ! i))" if "i < length ?o" "?o ! i \<noteq> ?f ! i" for i
    using uniform_forms [OF u that] by (simp add: gather_evidence_def evidence_iff)
  show ?thesis
  proof (cases "?f = ?o")
    case True
    have none: "\<And>w. forms (evidence_lines ?o ?f ctx) w = {}"
      by (auto simp: True forms_def evidence_lines_def split: prod.splits)
    have "map_of (ev_map ?ev) w = None" for w
      using evidence_iff [of "evidence_lines ?o ?f ctx" w] none [of w]
      by (cases "map_of (ev_map ?ev) w") (auto simp: gather_evidence_def)
    then have "ev_map ?ev = []" by (metis list.exhaust map_of_eq_empty_iff ext)
    then show ?thesis using True by (simp add: retarget_replacement_indentation_def Let_def)
  next
    case False
    then obtain i where i: "i < length ?o" "?o ! i \<noteq> ?f ! i" using len by (metis nth_equalityI)
    have some: "ev_map ?ev \<noteq> []" using got [OF i] by auto
    have "retarget_line ?ev (?o ! k) = Some (?f ! k)" if k: "k < length ?o" for k
    proof -
      have l: "after_indent (?f ! k) = after_indent (?o ! k)" "after_indent (?o ! k) = [] \<Longrightarrow> ?f ! k = ?o ! k"
        "after_indent (?o ! k) \<noteq> [] \<Longrightarrow> leading (?f ! k) = leading (?o ! k) \<longleftrightarrow> leading (?o ! k) = []"
        using u k by (auto simp: uniform_correction_def list_all2_conv_all_nth)
      show ?thesis
      proof (cases "after_indent (?o ! k) = [] \<or> leading (?o ! k) = []")
        case True
        then show ?thesis using l(2,3) line_eq [of "?f ! k" "?o ! k"] l(1)
          by (cases "after_indent (?o ! k) = []") (simp_all add: retarget_line_def resolve_indent_def)
      next
        case False
        then have "?o ! k \<noteq> ?f ! k" using l(3) by metis
        with got [OF k] False show ?thesis
          using line_eq [of "?f ! k" "?o ! k"] l(1) by (simp add: retarget_line_def resolve_indent_def)
      qed
    qed
    then have "retarget_lines ?ev ?o = Some ?f" using len by (intro retarget_lines_intro) auto
    with some len False show ?thesis by (simp add: retarget_replacement_indentation_def Let_def)
  qed
qed

text \<open>An old text of two levels, found in tabs.\<close>

definition two_levels :: "string \<Rightarrow> string" where
  "two_levels unit = join_with LF [''if x:'', unit @ ''a'', unit @ unit @ ''b'', [], unit @ ''c'']"

theorem correction_repeats_on_its_own_text_witness:
  "retarget_replacement_indentation (two_levels ''  '') (two_levels ''  '') (two_levels [TAB]) None = Some (two_levels [TAB])"
proof -
  have "uniform_correction (lf_lines (two_levels ''  '')) (lf_lines (two_levels [TAB]))" by code_simp
  moreover have "lf_lines (two_levels [TAB]) \<noteq> lf_lines (two_levels ''  '')" by code_simp
  moreover have "join_text (line_break_of (two_levels ''  '')) (lf_lines (two_levels [TAB])) = two_levels [TAB]" by code_simp
  ultimately show ?thesis using correction_repeats_on_its_own_text by simp
qed

theorem retarget_moves_only_indentation_witness:
  "\<exists>ls. [TAB, CHR ''d''] = join_text (line_break_of ''  d'') ls \<and> length ls = 1 \<and> after_indent (ls ! 0) = ''d''"
proof -
  have "retarget_replacement_indentation ''  d'' (two_levels ''  '') (two_levels [TAB]) None = Some [TAB, CHR ''d'']" by code_simp
  moreover have "lf_lines ''  d'' = [''  d'']" "after_indent ''  d'' = ''d''" by code_simp+
  ultimately show ?thesis using retarget_moves_only_indentation
    [of "''  d''" "two_levels ''  ''" "two_levels [TAB]" None "[TAB, CHR ''d'']"] by (auto simp: list_all_iff)
qed

end
