(* ===== verification/Old_Text_Passes.thy ===== *)
theory Old_Text_Passes
  imports Indent_Retarget
begin

text \<open>
  \<^verbatim>\<open>clients/oldtext-autopatch.ts\<close>, and the three passes of \<^verbatim>\<open>clients/runtime-tool-call.ts\<close> that correct the
  old texts of an edit call before the read guard sees it: escaped control characters, trailing
  whitespace, and indentation.  A correction of the last two kinds also records a synthetic read of the
  lines it matched, as line and count.  Of the call's input the passes read and write the two texts of
  each entry; what they log is left out.  The file is read at the start of the call: \<open>raw\<close> is what that
  and the later reads of the same call give.
\<close>

subsection \<open>Trailing whitespace\<close>

record strip_result =
  sr_text :: string
  sr_line_whitespace :: bool
  sr_empty_lines :: nat

definition strip_trailing_whitespace_detailed :: "string \<Rightarrow> strip_result" where
  "strip_trailing_whitespace_detailed value_text =
     (let lines = lf_lines value_text; stripped = map trim_end lines; rest = rev (pop_empty (rev stripped))
      in \<lparr>sr_text = join_with LF rest,
          sr_line_whitespace = list_ex (\<lambda>l. trim_end l \<noteq> l) lines,
          sr_empty_lines = length stripped - length rest\<rparr>)"

text \<open>The loop that pops at most \<open>n\<close> blank lines, on the reversed list.\<close>

fun pop_blank :: "nat \<Rightarrow> string list \<Rightarrow> string list" where
  "pop_blank (Suc n) (l # k # ls) = (if js_trim l = [] then pop_blank n (k # ls) else l # k # ls)"
| "pop_blank n ls = ls"

definition strip_equivalent_trailing_empty_lines :: "string \<Rightarrow> nat \<Rightarrow> string" where
  "strip_equivalent_trailing_empty_lines value_text n =
     (if n = 0 then value_text else join_with LF (rev (pop_blank n (rev (lf_lines value_text)))))"

record whitespace_patch =
  wp_old_text :: string
  wp_new_text :: "string option"
  wp_line_whitespace :: bool
  wp_empty_lines :: nat

definition compute_trailing_whitespace_old_text_patch ::
    "string \<Rightarrow> string option \<Rightarrow> string \<Rightarrow> whitespace_patch option" where
  "compute_trailing_whitespace_old_text_patch old_text new_text file_content =
     (let content = normalize_lf file_content; original = normalize_lf old_text;
          s = strip_trailing_whitespace_detailed old_text
      in if sr_text s = original then None
         else if count_occurrences content original \<noteq> 0 then None
         else if count_occurrences content (sr_text s) \<noteq> 1 then None
         else Some \<lparr>wp_old_text = sr_text s,
                wp_new_text = (case new_text of
                    Some t \<Rightarrow> if 0 < sr_empty_lines s then Some (strip_equivalent_trailing_empty_lines t (sr_empty_lines s)) else Some t
                  | None \<Rightarrow> None),
                wp_line_whitespace = sr_line_whitespace s,
                wp_empty_lines = sr_empty_lines s\<rparr>)"

subsection \<open>The lines of a match\<close>

definition line_feeds :: "string \<Rightarrow> nat" where
  "line_feeds s = length (filter (\<lambda>c. c = LF) s)"

definition find_unique_match_line_range :: "(char \<Rightarrow> string) \<Rightarrow> string \<Rightarrow> string \<Rightarrow> (nat \<times> nat) option" where
  "find_unique_match_line_range beyond content old_text =
     (let needle = normalize_for_guard_match beyond old_text
      in if needle = [] then None
         else case text_index content needle of
                None \<Rightarrow> None
              | Some i \<Rightarrow>
                  if index_from content needle (i + length needle) \<noteq> None then None
                  else let start = 1 + line_feeds (take i content); n = 1 + line_feeds needle
                       in Some (start, start + n - 1))"

subsection \<open>The passes\<close>

record edit_target =
  et_value :: string
  et_new_text :: "string option"

text \<open>What the call carries: one old text of its own, or the entries of \<^verbatim>\<open>edits\<close>; only those that are not empty take part.\<close>

record edit_call =
  ec_old_text :: "string option"
  ec_new_text :: "string option"
  ec_edits :: "(string option \<times> string option) list option"

definition given_text :: "string option \<Rightarrow> string option" where
  "given_text t = (if t = Some [] then None else t)"

definition edit_targets :: "edit_call \<Rightarrow> edit_target list" where
  "edit_targets call =
     (case given_text (ec_old_text call) of
        Some t \<Rightarrow> [\<lparr>et_value = t, et_new_text = ec_new_text call\<rparr>]
      | None \<Rightarrow>
          List.map_filter (\<lambda>(old, new). map_option (\<lambda>t. \<lparr>et_value = t, et_new_text = new\<rparr>) (given_text old))
            (or_else (ec_edits call) []))"

definition count_old_text_matches :: "(char \<Rightarrow> string) \<Rightarrow> string \<Rightarrow> string \<Rightarrow> nat" where
  "count_old_text_matches beyond content old_text =
     count_occurrences content (normalize_for_guard_match beyond old_text)"

definition is_indentation_only_change :: "string \<Rightarrow> string \<Rightarrow> bool" where
  "is_indentation_only_change a b = (map js_trim (lf_lines a) = map js_trim (lf_lines b))"

definition escape_controls :: "string \<Rightarrow> string" where
  "escape_controls s =
     concat (map (\<lambda>c. if c = TAB then [BSLASH, CHR ''t''] else if c = LF then [BSLASH, CHR ''n''] else [c]) s)"

definition escape_pass :: "(char \<Rightarrow> string) \<Rightarrow> string \<Rightarrow> edit_target \<Rightarrow> edit_target" where
  "escape_pass beyond content t =
     (let v = et_value t; escaped = escape_controls v
      in if TAB \<notin> set v \<and> LF \<notin> set v then t
         else if count_old_text_matches beyond content v \<noteq> 0 then t
         else if escaped = v then t
         else if count_old_text_matches beyond content escaped \<noteq> 1 then t
         else t\<lparr>et_value := escaped\<rparr>)"

definition read_of :: "nat \<times> nat \<Rightarrow> nat \<times> nat" where
  "read_of hit = (fst hit, snd hit - fst hit + 1)"

definition reads_of :: "(nat \<times> nat) option \<Rightarrow> (nat \<times> nat) list" where
  "reads_of hit = (case hit of Some r \<Rightarrow> [read_of r] | None \<Rightarrow> [])"

definition whitespace_pass :: "(char \<Rightarrow> string) \<Rightarrow> string \<Rightarrow> string \<Rightarrow> edit_target \<Rightarrow> edit_target \<times> (nat \<times> nat) list" where
  "whitespace_pass beyond crlf content t =
     (case compute_trailing_whitespace_old_text_patch (et_value t) (et_new_text t) crlf of
        None \<Rightarrow> (t, [])
      | Some p \<Rightarrow>
          (\<lparr>et_value = wp_old_text p,
            et_new_text = (if wp_new_text p \<noteq> None then wp_new_text p else et_new_text t)\<rparr>,
           reads_of (find_unique_match_line_range beyond content (wp_old_text p))))"

definition indentation_pass :: "(char \<Rightarrow> string) \<Rightarrow> string \<Rightarrow> string \<Rightarrow> edit_target \<Rightarrow> edit_target \<times> (nat \<times> nat) list" where
  "indentation_pass beyond crlf content t =
     (case try_correct_indentation_mismatch_from_content (et_value t) crlf of
        None \<Rightarrow> (t, [])
      | Some corrected \<Rightarrow>
          if is_indentation_only_change (et_value t) corrected \<and>
             count_old_text_matches beyond content (et_value t) = 0 \<and>
             count_old_text_matches beyond content corrected = 1
          then
            let hit = find_unique_match_line_range beyond content corrected;
                new_text = Option.bind (given_text (et_new_text t)) (\<lambda>n.
                  retarget_replacement_indentation n (et_value t) corrected
                    (map_option (\<lambda>r. \<lparr>rc_content = content, rc_start_line = int (fst r)\<rparr>) hit))
            in (\<lparr>et_value = corrected, et_new_text = (if new_text \<noteq> None then new_text else et_new_text t)\<rparr>, reads_of hit)
          else (t, []))"

text \<open>Each pass runs over all entries before the next begins.\<close>

definition correct_old_texts ::
    "(char \<Rightarrow> string) \<Rightarrow> string option \<Rightarrow> edit_target list \<Rightarrow> edit_target list \<times> (nat \<times> nat) list" where
  "correct_old_texts beyond raw targets =
     (case raw of
        None \<Rightarrow> (targets, [])
      | Some text \<Rightarrow>
          let crlf = normalize_lf text; content = normalize_for_guard_match beyond text;
              escaped = map (escape_pass beyond content) targets;
              stripped = map (whitespace_pass beyond crlf content) escaped;
              indented = map (\<lambda>r. indentation_pass beyond crlf content (fst r)) stripped
          in (map fst indented, concat (map snd stripped) @ concat (map snd indented)))"

subsection \<open>Lines\<close>

lemma split_on_sep: "split_on c (x @ c # y) = split_on c x @ split_on c y"
proof (induction x)
  case (Cons d x)
  then show ?case by (cases "split_on c x") auto
qed simp

lemma length_split_on: "length (split_on c s) = Suc (length (filter (\<lambda>d. d = c) s))"
  by (induction s) (auto split: list.splits)

lemma cut_at_last:
  obtains p w where "s = p @ w" "c \<notin> set w" "p = [] \<or> (\<exists>q. p = q @ [c])"
proof -
  have "s = rev (dropWhile (\<lambda>x. x \<noteq> c) (rev s)) @ rev (takeWhile (\<lambda>x. x \<noteq> c) (rev s))"
    by (metis rev_append rev_rev_ident takeWhile_dropWhile_id)
  moreover have "c \<notin> set (rev (takeWhile (\<lambda>x. x \<noteq> c) (rev s)))" by (auto dest: set_takeWhileD)
  moreover have "rev (dropWhile (\<lambda>x. x \<noteq> c) (rev s)) = [] \<or> (\<exists>q. rev (dropWhile (\<lambda>x. x \<noteq> c) (rev s)) = q @ [c])"
  proof (cases "dropWhile (\<lambda>x. x \<noteq> c) (rev s)")
    case (Cons d ds)
    then have "d = c" using hd_dropWhile [of "\<lambda>x. x \<noteq> c" "rev s"] by simp
    then show ?thesis by (simp add: Cons)
  qed simp
  ultimately show thesis by (rule that)
qed

lemma cut_at_first:
  obtains w r where "s = w @ r" "c \<notin> set w" "r = [] \<or> (\<exists>q. r = c # q)"
proof -
  have "dropWhile (\<lambda>x. x \<noteq> c) s = [] \<or> (\<exists>q. dropWhile (\<lambda>x. x \<noteq> c) s = c # q)"
    using hd_dropWhile [of "\<lambda>x. x \<noteq> c" s] by (cases "dropWhile (\<lambda>x. x \<noteq> c) s") auto
  then show thesis using that [of "takeWhile (\<lambda>x. x \<noteq> c) s" "dropWhile (\<lambda>x. x \<noteq> c) s"] by (auto dest: set_takeWhileD)
qed

text \<open>A stretch of a text lies within the lines its line feeds count.\<close>

lemma stretch_in_lines:
  assumes s: "s = a @ w @ b"
  defines "i \<equiv> line_feeds a" and "n \<equiv> 1 + line_feeds w"
  shows "i + n \<le> length (split_on LF s)" and "\<exists>x y. join_with LF (take n (drop i (split_on LF s))) = x @ w @ y"
proof -
  obtain p v where p: "a = p @ v" "LF \<notin> set v" "p = [] \<or> (\<exists>q. p = q @ [LF])" by (rule cut_at_last)
  obtain u r where u: "b = u @ r" "LF \<notin> set u" "r = [] \<or> (\<exists>q. r = LF # q)" by (rule cut_at_first)
  let ?m = "v @ w @ u"
  have no: "filter (\<lambda>d. d = LF) v = []" "filter (\<lambda>d. d = LF) u = []" using p(2) u(2) by (auto simp: filter_empty_conv)
  have m: "length (split_on LF ?m) = n" by (simp add: n_def line_feeds_def length_split_on no)
  obtain pre where pre: "split_on LF (p @ ?m @ r) = pre @ split_on LF (?m @ r)" "length pre = i"
  proof (cases "p = []")
    case True
    then have "i = 0" by (simp add: i_def p(1) line_feeds_def no)
    with True show thesis using that [of "[]"] by simp
  next
    case False
    then obtain q where q: "p = q @ [LF]" using p(3) by blast
    have "length (split_on LF q) = i" by (simp add: i_def p(1) q line_feeds_def no length_split_on)
    then show thesis using that [of "split_on LF q"] split_on_sep [of LF q "?m @ r"] by (simp add: q)
  qed
  obtain post where post: "split_on LF (?m @ r) = split_on LF ?m @ post"
    using u(3) split_on_sep [of LF ?m] that [of "[]"] by auto
  have lines: "split_on LF s = pre @ split_on LF ?m @ post" using pre(1) post by (simp add: s p(1) u(1))
  then show "i + n \<le> length (split_on LF s)" using pre(2) m by simp
  have "take n (drop i (split_on LF s)) = split_on LF ?m" using lines pre(2) m by simp
  then show "\<exists>x y. join_with LF (take n (drop i (split_on LF s))) = x @ w @ y"
    by (intro exI [of _ v] exI [of _ u]) simp
qed

text \<open>
  The range reported for a match lies inside the file, and its lines hold the old text; what is
  reported is where the text occurs first, and no later occurrence starts behind its end.
\<close>

theorem match_range_holds_the_text:
  assumes r: "find_unique_match_line_range beyond content old_text = Some (first, final)"
  shows "1 \<le> first \<and> first \<le> final \<and> final \<le> length (split_on LF content) \<and>
    (\<exists>x y. join_with LF (take (final - first + 1) (drop (first - 1) (split_on LF content))) =
       x @ normalize_for_guard_match beyond old_text @ y) \<and>
    count_old_text_matches beyond content old_text = 1"
proof -
  let ?w = "normalize_for_guard_match beyond old_text"
  obtain i where w: "?w \<noteq> []" and i: "text_index content ?w = Some i" "index_from content ?w (i + length ?w) = None"
    and first: "first = 1 + line_feeds (take i content)" and final: "final = first + line_feeds ?w"
    using r by (auto simp: find_unique_match_line_range_def Let_def split: if_splits option.splits)
  have occ: "occurs_at content ?w i" using i(1) by (simp add: text_index_Some)
  have "content = take i content @ ?w @ drop (i + length ?w) content"
    using occ unfolding occurs_at_def by (metis add.commute append_take_drop_id drop_drop)
  from stretch_in_lines [OF this] first final
  have "final \<le> length (split_on LF content)"
    "\<exists>x y. join_with LF (take (final - first + 1) (drop (first - 1) (split_on LF content))) = x @ ?w @ y" by simp_all
  moreover have "count_old_text_matches beyond content old_text = 1"
  proof -
    have b: "i + length ?w \<le> length content" by (rule occurs_at_bound [OF occ])
    have "occurrences_from content ?w (i + length ?w) = []"
      using i(2) w by (cases "i + length ?w < length content") (simp_all add: occurrences_from_step occurrences_from_stop)
    moreover have "0 < length content" using b w by (cases ?w) auto
    ultimately have "occurrences content ?w = [i]"
      using i(1) w by (simp add: occurrences_def occurrences_from_step index_from_def)
    then show ?thesis by (simp add: count_old_text_matches_def count_occurrences_def)
  qed
  ultimately show ?thesis using first final by simp
qed

subsection \<open>Corrections\<close>

text \<open>A correction: the entry was not found as it was, and what replaces it is found once.\<close>

lemma escape_corrects:
  "et_value (escape_pass beyond content t) \<noteq> et_value t \<Longrightarrow>
   count_old_text_matches beyond content (et_value t) = 0 \<and>
   count_old_text_matches beyond content (et_value (escape_pass beyond content t)) = 1"
  by (auto simp: escape_pass_def Let_def split: if_splits)

lemma whitespace_corrects:
  "whitespace_pass beyond crlf content t \<noteq> (t, []) \<Longrightarrow>
   count_occurrences (normalize_lf crlf) (normalize_lf (et_value t)) = 0 \<and>
   count_occurrences (normalize_lf crlf) (et_value (fst (whitespace_pass beyond crlf content t))) = 1"
  by (auto simp: whitespace_pass_def compute_trailing_whitespace_old_text_patch_def Let_def split: if_splits option.splits)

lemma indentation_corrects:
  "indentation_pass beyond crlf content t \<noteq> (t, []) \<Longrightarrow>
   count_old_text_matches beyond content (et_value t) = 0 \<and>
   count_old_text_matches beyond content (et_value (fst (indentation_pass beyond crlf content t))) = 1"
  by (auto simp: indentation_pass_def Let_def split: if_splits option.splits)

definition inside_file :: "string \<Rightarrow> nat \<times> nat \<Rightarrow> bool" where
  "inside_file content r \<longleftrightarrow> 1 \<le> fst r \<and> 1 \<le> snd r \<and> fst r + snd r \<le> Suc (length (split_on LF content))"

lemma reads_inside: "list_all (inside_file content) (reads_of (find_unique_match_line_range beyond content v))"
proof (cases "find_unique_match_line_range beyond content v")
  case (Some r)
  then have "find_unique_match_line_range beyond content v = Some (fst r, snd r)" by simp
  from match_range_holds_the_text [OF this] Some show ?thesis
    by (simp add: reads_of_def read_of_def inside_file_def)
qed (simp add: reads_of_def)

lemma pass_reads_inside:
  "list_all (inside_file content) (snd (whitespace_pass beyond crlf content t))"
  "list_all (inside_file content) (snd (indentation_pass beyond crlf content t))"
  by (simp_all add: whitespace_pass_def indentation_pass_def Let_def reads_inside split: option.splits)

text \<open>The three passes on one entry.\<close>

definition correct_target :: "(char \<Rightarrow> string) \<Rightarrow> string \<Rightarrow> edit_target \<Rightarrow> edit_target" where
  "correct_target beyond text t =
     (let crlf = normalize_lf text; content = normalize_for_guard_match beyond text
      in fst (indentation_pass beyond crlf content (fst (whitespace_pass beyond crlf content (escape_pass beyond content t)))))"

lemma passes_by_target: "fst (correct_old_texts beyond (Some text) targets) = map (correct_target beyond text) targets"
  by (simp add: correct_old_texts_def correct_target_def Let_def)

definition found_once :: "(char \<Rightarrow> string) \<Rightarrow> string \<Rightarrow> string \<Rightarrow> bool" where
  "found_once beyond text v \<longleftrightarrow>
     count_occurrences (normalize_lf (normalize_lf text)) v = 1 \<or>
     count_old_text_matches beyond (normalize_for_guard_match beyond text) v = 1"

definition found_already :: "(char \<Rightarrow> string) \<Rightarrow> string \<Rightarrow> string \<Rightarrow> bool" where
  "found_already beyond text v \<longleftrightarrow>
     count_occurrences (normalize_lf (normalize_lf text)) (normalize_lf v) \<noteq> 0 \<and>
     count_old_text_matches beyond (normalize_for_guard_match beyond text) v \<noteq> 0"

lemma correct_target_unique:
  "et_value (correct_target beyond text t) = et_value t \<or> found_once beyond text (et_value (correct_target beyond text t))"
proof -
  let ?crlf = "normalize_lf text" and ?content = "normalize_for_guard_match beyond text"
  let ?t1 = "escape_pass beyond ?content t"
  let ?t2 = "fst (whitespace_pass beyond ?crlf ?content ?t1)"
  have t3: "correct_target beyond text t = fst (indentation_pass beyond ?crlf ?content ?t2)"
    by (simp add: correct_target_def Let_def)
  show ?thesis
  proof (cases "indentation_pass beyond ?crlf ?content ?t2 = (?t2, [])")
    case True
    then have "correct_target beyond text t = ?t2" using t3 by simp
    moreover have "et_value ?t2 = et_value t \<or> found_once beyond text (et_value ?t2)"
    proof (cases "whitespace_pass beyond ?crlf ?content ?t1 = (?t1, [])")
      case True
      then show ?thesis using escape_corrects [of beyond ?content t] by (auto simp: found_once_def)
    next
      case False
      then show ?thesis using whitespace_corrects by (simp add: found_once_def)
    qed
    ultimately show ?thesis by simp
  next
    case False
    then show ?thesis using indentation_corrects unfolding t3 found_once_def by blast
  qed
qed

lemma correct_target_keeps:
  assumes "found_already beyond text (et_value t)"
  shows "correct_target beyond text t = t"
proof -
  let ?crlf = "normalize_lf text" and ?content = "normalize_for_guard_match beyond text"
  have n: "count_occurrences (normalize_lf ?crlf) (normalize_lf (et_value t)) \<noteq> 0"
    "count_old_text_matches beyond ?content (et_value t) \<noteq> 0" using assms by (simp_all add: found_already_def)
  have "escape_pass beyond ?content t = t" using n by (simp add: escape_pass_def Let_def)
  moreover have "whitespace_pass beyond ?crlf ?content t = (t, [])" using n whitespace_corrects by metis
  moreover have "indentation_pass beyond ?crlf ?content t = (t, [])" using n indentation_corrects by metis
  ultimately show ?thesis by (simp add: correct_target_def Let_def)
qed

theorem corrections_are_unique:
  "list_all2 (\<lambda>t t'. (et_value t' = et_value t \<or> found_once beyond text (et_value t')) \<and>
       (t' = t \<or> \<not> found_already beyond text (et_value t)))
     targets (fst (correct_old_texts beyond (Some text) targets)) \<and>
   list_all (inside_file (normalize_for_guard_match beyond text)) (snd (correct_old_texts beyond (Some text) targets))"
  using correct_target_unique [of beyond "text"] correct_target_keeps [of beyond "text"]
  by (auto simp: passes_by_target list_all2_conv_all_nth)
    (auto simp: correct_old_texts_def Let_def list_all_iff pass_reads_inside [unfolded list_all_iff])

subsection \<open>Runs\<close>

text \<open>A file of lines, and an environment in which no character expands.\<close>

definition file_of :: "string list \<Rightarrow> string" where
  "file_of ls = join_with LF ls"

definition plain :: "char \<Rightarrow> string" where
  "plain c = [c]"

definition target_of :: "string list \<Rightarrow> string list \<Rightarrow> edit_target" where
  "target_of olds news = \<lparr>et_value = file_of olds, et_new_text = Some (file_of news)\<rparr>"

theorem match_range_holds_the_text_witness:
  "2 \<le> length (split_on LF (file_of [''f'', ''  g'', ''h''])) \<and>
   count_old_text_matches plain (file_of [''f'', ''  g'', ''h'']) ''g'' = 1"
proof -
  have "find_unique_match_line_range plain (file_of [''f'', ''  g'', ''h'']) ''g'' = Some (2, 2)" by code_simp
  from match_range_holds_the_text [OF this] show ?thesis by simp
qed

text \<open>
  An old text written without the indentation of the file is corrected, and its new text is not: the map
  holds the entry for the empty indentation, and resolving an empty indentation does not ask it.
\<close>

lemma missing_indentation_is_lost:
  "correct_old_texts plain (Some (file_of [''f'', TAB # ''a'', TAB # ''b''])) [target_of [''a'', ''b''] [''a'', ''c'']] =
   ([\<lparr>et_value = file_of [TAB # ''a'', TAB # ''b''], et_new_text = Some (file_of [''a'', ''c''])\<rparr>], [(2, 2)])"
  by code_simp

text \<open>An indentation the file confirms is no evidence, so the base unit rescales it in the new text.\<close>

lemma confirmed_indentation_is_rescaled:
  "correct_old_texts plain (Some (file_of [''f'', TAB # ''a'', ''    b''])) [target_of [''  a'', ''    b''] [''  a'', ''    c'']] =
   ([\<lparr>et_value = file_of [TAB # ''a'', ''    b''], et_new_text = Some (file_of [TAB # ''a'', TAB # TAB # ''c''])\<rparr>], [(2, 2)])"
  by code_simp

text \<open>
  A new text with fewer line feeds at its end than the old text loses: what deleted a line leaves a blank
  one, since the line feed given back to the file is not taken from the new text.
\<close>

lemma deleted_line_stays_blank:
  "correct_old_texts plain (Some (file_of [''a'', ''b'', ''c''])) [\<lparr>et_value = file_of [''b '', []], et_new_text = Some []\<rparr>] =
   ([\<lparr>et_value = ''b'', et_new_text = Some []\<rparr>], [(2, 1)])"
  by code_simp

text \<open>The count that calls a match unique steps over what it has found, so a second match that overlaps the first is not seen.\<close>

lemma overlapping_matches_count_as_one:
  "fst (correct_old_texts plain (Some (file_of [''x'', ''x'', ''x''])) [target_of [''x '', ''x''] [''y'']]) =
     [target_of [''x'', ''x''] [''y'']] \<and>
   list_all (occurs_at (file_of [''x'', ''x'', ''x'']) (file_of [''x'', ''x''])) [0, 2]"
  by code_simp

text \<open>A tab alone is blank in match space, where nothing is found, so an old text the file holds is rewritten to an escape sequence.\<close>

lemma present_tab_is_escaped:
  "correct_old_texts plain (Some (file_of [TAB # ''a'', [BSLASH, CHR ''t'']])) [\<lparr>et_value = [TAB], et_new_text = Some ''  ''\<rparr>] =
   ([\<lparr>et_value = [BSLASH, CHR ''t''], et_new_text = Some ''  ''\<rparr>], []) \<and>
   contains_text (file_of [TAB # ''a'', [BSLASH, CHR ''t'']]) [TAB]"
  by code_simp

end
