(* ===== verification/Spec2Isabelle.thy ===== *)
theory Spec2Isabelle
  imports Bounded_Cache Write_Ordering Generation_Guard Path_Keys Read_Guard_Sessions Config_Leaves
    Workspace_Merge Hashline_Anchors Single_Flight Partial_Edits_Records Edit_Preflight_Search
    File_Lock Fact_Scheduler_Order Finding_Policy Race_Completion Worker_Pool Pid_Lock Workspace_Apply_Runs
    Old_Text_Passes
begin

text \<open>
  A verification library for the core of pi-lens, the coding-agent extension that watches what an agent reads
  and edits, runs linters and language servers over it, and reports findings.

  \<^bold>\<open>The program and its parts.\<close>  An agent's tool calls pass through the read guard
  (\<^verbatim>\<open>clients/read-guard.ts\<close>), which lets an edit through when the agent has read the lines it touches and
  nothing has changed under it.  The old texts of an edit call are first corrected where the correction is
  unique (\<^verbatim>\<open>clients/runtime-tool-call.ts\<close>); then the preflight (\<^verbatim>\<open>clients/read-guard-tool-lines.ts\<close>)
  resolves its old texts to spans of the file; the partial apply (\<^verbatim>\<open>clients/partial-edit-apply.ts\<close>) takes the
  approved spans and commits them through the atomic writer (\<^verbatim>\<open>clients/atomic-write.ts\<close>).  Language servers send
  edits of their own (\<^verbatim>\<open>clients/lsp/edits.ts\<close>), which are merged, planned and applied.  Findings pass a filter
  stack (\<^verbatim>\<open>clients/dispatch/finding-policy.ts\<close>) over comments, marks and the project's policy.  The configuration
  that governs all of it is merged from several sources (\<^verbatim>\<open>clients/config-core\<close>).  Underneath lie the caches,
  keys, guards, locks and pools the parts share.

  \<^bold>\<open>Theories.\<close>  \<open>Lens_Prelude\<close> holds the JavaScript containers and the shared lemmas.  A theory that models code
  is followed by the theories that prove what it means.

  \<^item> Containers and guards.  \<open>Bounded_Cache\<close> (\<^verbatim>\<open>bounded-cache.ts\<close>): the insertion-ordered map with a ceiling, its set
    and its LRU; an LRU with ceiling \<open>n\<close> is the \<open>n\<close> most recent keys of an unbounded recency list.
    \<open>Path_Keyed_Map\<close> (\<^verbatim>\<open>path-keyed-map.ts\<close>).  \<open>Write_Ordering\<close> (\<^verbatim>\<open>write-ordering-guard.ts\<close>) and
    \<open>Generation_Guard\<close> (\<^verbatim>\<open>generation-guard.ts\<close>): when a late write is dropped.  \<open>Path_Keys\<close> (\<^verbatim>\<open>path-utils.ts\<close>): the
    keys of file-indexed maps, containment and upward walks.

  \<^item> Asynchrony.  \<open>Single_Flight\<close> (\<^verbatim>\<open>single-flight.ts\<close>): no key stays taken, and whom a trailing run serves.
    \<open>File_Lock\<close> (\<^verbatim>\<open>file-time.ts\<close>): the promise lock of a file is exclusive unless a session reset empties its table.
    \<open>Race_Completion\<close> (\<^verbatim>\<open>lsp/aggregation.ts\<close>): when the race over several servers resolves, and with what.
    \<open>Worker_Pool\<close> (\<^verbatim>\<open>map-with-concurrency.ts\<close>).  \<open>Pid_Lock\<close> (\<^verbatim>\<open>bounded-pid-file-lock.ts\<close>): every
    system call is an event that may fail, processes end and their ids are used again; a lock whose owner runs
    and has written its token is not lost, and runs show how the other locks are.
    \<open>Fact_Scheduler\<close>, \<open>Fact_Scheduler_Order\<close> (\<^verbatim>\<open>dispatch/fact-scheduler.ts\<close>, \<^verbatim>\<open>fact-runner.ts\<close>): each provider comes
    behind the last provider of every fact it requires, or there is a cycle.  Each of the first five is a
    transition relation whose steps are the turns of the event loop or single system calls; what is proved holds
    in every reachable state.

  \<^item> The read guard.  \<open>Read_Guard_Text\<close>, \<open>Read_Guard_Ranges\<close>, \<open>Read_Guard\<close>: lines and hashes, ranges and coverage, the
    class with all its operations.  \<open>Read_Guard_Invariant\<close>: the invariant of every reachable guard.
    \<open>Read_Guard_Verdicts\<close>: why an edit is let through or refused.  \<open>Read_Guard_Sessions\<close>: runs of operations, resume
    and eviction.  \<open>File_Time\<close> (\<^verbatim>\<open>file-time.ts\<close>): the stamps by which a change on disk is noticed.

  \<^item> Edits.  \<open>Text_Search\<close>, \<open>Text_Edits\<close>, \<open>Text_Edits_Meaning\<close>: edits of a document take effect at once at the
    places their ranges name.  \<open>Workspace_Plan\<close>, \<open>Workspace_Plan_Order\<close>, \<open>Workspace_Merge\<close>: plans lose and reorder
    nothing that matters, merged edits can be applied.  \<open>Workspace_Apply\<close>, \<open>Workspace_Apply_States\<close>,
    \<open>Workspace_Apply_Meaning\<close>, \<open>Workspace_Apply_Runs\<close>: the preflight over a virtual file system and the
    application; on ordinary paths an accepted edit is applied to the end, and runs that show what the other paths
    may do.  \<open>Edit_Batch_Summary\<close> (\<^verbatim>\<open>read-guard-logger.ts\<close>).
    \<open>Partial_Edits\<close>, \<open>Partial_Edits_Meaning\<close>, \<open>Partial_Edits_Records\<close>: all or nothing, the reasons for a refusal, the
    records of what was applied.  \<open>Edit_Preflight\<close>, \<open>Edit_Preflight_Spans\<close>, \<open>Edit_Preflight_Verdicts\<close>,
    \<open>Edit_Preflight_Text\<close>, \<open>Edit_Preflight_Search\<close>: what the preflight carries is accepted by the apply step,
    corrections are text of the file that differs in white space or, in the last tier, in quotes and dashes, and
    on which calls the search does not return.  \<open>Indent_Detect\<close> (\<^verbatim>\<open>dispatch/indent-detect.ts\<close>), \<open>Indent_Retarget\<close>
    (\<^verbatim>\<open>indent-retarget.ts\<close>) and \<open>Old_Text_Passes\<close> (\<^verbatim>\<open>oldtext-autopatch.ts\<close> and the passes of
    \<^verbatim>\<open>runtime-tool-call.ts\<close>): which lines are the inside of a comment or a template, the style a file is indented
    in, how a new text follows a corrected old one, and that a corrected text is found exactly once; runs show
    where a correction spoils the replacement.  \<open>Atomic_Write\<close>
    (\<^verbatim>\<open>atomic-write.ts\<close>, \<^verbatim>\<open>atomic-write-staging.ts\<close>): published files are whole.  \<open>Hashline\<close>, \<open>Hashline_Anchors\<close>
    (\<^verbatim>\<open>hashline-anchor.ts\<close>): the line anchors, with the hash on 32-bit words.

  \<^item> Configuration.  \<open>Config_Schema\<close>, \<open>Config_Records\<close>, \<open>Config_Normalize\<close>, \<open>Config_Deny\<close>, \<open>Config_Merge\<close> model
    \<^verbatim>\<open>config-core\<close>; \<open>Config_Validated\<close>, \<open>Config_Resolved\<close>, \<open>Config_Paths\<close>, \<open>Config_Leaves\<close> show that the resolved
    configuration has its schema's shape, that what is dropped is recorded, that denials hold, and where a leaf
    comes from.

  \<^item> Findings.  \<open>Dispositions\<close>, \<open>Dispositions_Meaning\<close>, \<open>Dispositions_Runs\<close> (\<^verbatim>\<open>finding-identity.ts\<close>,
    \<^verbatim>\<open>diagnostic-dispositions.ts\<close>): what a mark hides, and that a blocking finding needs a false-positive mark on its
    own line content.  \<open>Finding_Filters\<close>, \<open>Finding_Filters_Meaning\<close> (\<^verbatim>\<open>dispatch/rule-id-normalize.ts\<close>,
    \<^verbatim>\<open>inline-suppressions.ts\<close>, \<^verbatim>\<open>rule-policy.ts\<close>) and \<open>Finding_Policy\<close>: what the stack keeps, and why a finding is
    missing.

  \<^bold>\<open>Interfaces.\<close>  A locale states what a client relies on and is interpreted on the code's model where it is
  provided: \<open>bounded_store\<close> (two caches), \<open>keyed_store\<close> (the path-keyed map), \<open>write_guard\<close>, \<open>generation_store\<close> (a
  source and a map of stamps), \<open>change_detector\<close> (file time, for the read guard), \<open>finding_stage\<close> and
  \<open>finding_stages\<close> (a filter, and two in a row).

  \<^bold>\<open>Conventions.\<close>  A JavaScript \<^verbatim>\<open>Map\<close> is an association list in insertion order.  A string is a list of characters
  below 256, one UTF-16 unit each; surrogates and the byte-order mark do not occur.  In the theories of the edit
  preflight and the old-text passes the characters 0x80 to 0x9F are those of code page 1252, so that the curly
  quotes and dashes which the match space folds are there, and the nine characters whose NFKC expansion leaves
  the page go through a parameter; elsewhere a character is the Unicode one of its number.  A number used as a count,
  line or time is an \<open>int\<close>; the anchor hash is a \<open>32 word\<close>.  A throw is the left side of a sum or \<open>None\<close>.  An
  object that is mutated while shared (the read arrays, the file system, the flights) lives in an explicit store
  under an address.

  \<^bold>\<open>Parameters.\<close>  What is not code of the repository is an argument: the machine's path resolvers, \<^verbatim>\<open>existsSync\<close>
  and \<^verbatim>\<open>realpathSync\<close> (the record \<open>host\<close>), the file system and which of its calls fail, \<^verbatim>\<open>fileURLToPath\<close>, SHA-256,
  the compiler and matcher of regular expressions from a schema, \<^verbatim>\<open>localeCompare\<close>, the liveness of processes, and
  the clock.  Code of the repository outside the modelled parts that a modelled function calls is an argument
  too: \<^verbatim>\<open>redactSecrets\<close>, the classifier of mutating tools, the store path of a project, the work of a flight and
  the mapper of a pool.

  \<^bold>\<open>Recursion and bounds.\<close>  Loops are structural or come with a termination proof.  The configuration walk carries
  the code's depth limit of 32; probing for an anchor ends because the stride is coprime to the table size; the
  waves of the fact scheduler end because every wave schedules a provider.  The search for old texts is the one
  loop that may not end: it is a partial function whose value is \<open>None\<close> where it runs for ever, and
  \<open>Edit_Preflight_Search\<close> proves on which calls it returns.  A transition relation has no bound on its runs; that a
  pool comes to its end is proved by a measure, that a race and a flight answer once their work has settled by an
  invariant.

  \<^bold>\<open>Not modelled.\<close>  Logging and telemetry, and the catch floors around code that cannot throw.  The glue: the
  extension entry points (\<^verbatim>\<open>index.ts\<close>, \<^verbatim>\<open>mcp\<close>, \<^verbatim>\<open>tools\<close>, the \<^verbatim>\<open>runtime-*\<close> files), which route host events to the
  parts above.  Process and protocol plumbing: language-server clients and launchers, the installer, formatters
  and the dispatch runners, which start external programs and translate their output.  Index builders over
  third-party parsers: tree-sitter, ast-grep, the review graph and the word index.  Of the modelled files:
  links in the application of workspace edits and its summaries, the marker globs and URI conversion of
  \<^verbatim>\<open>path-utils.ts\<close>, the language-server lane of the finding policy and the directory variant of the process lock.
\<close>

end
